(* ===== verification/GrimPrelude.thy ===== *)
theory GrimPrelude
  imports Main "HOL-Library.Word" "HOL-Library.AList"
begin

text \<open>
  Shared vocabulary of the development: the machine types of the Rust sources, the outcome of an
  operation that may return an error, panic or fail to return, and the few generic list and
  association-list facts the component theories rely on.

  Conventions.
  \<^item> \<open>usize\<close>, \<open>u32\<close> counters and \<open>i32\<close> priorities are \<open>nat\<close>/\<open>int\<close>; wherever the source wraps on
    purpose (hash functions, logical clocks, wire fields) the value is a \<open>word\<close> of its width.
  \<^item> \<open>f32\<close> payloads are only moved and stored by the modelled code, never computed with, so an
    \<open>f32\<close> is its 32-bit pattern.
  \<^item> A \<open>std::time::Instant\<close> is a \<open>nat\<close>, and an operation that reads the clock takes the reading
    as an argument.
  \<^item> A \<open>HashMap\<close> that is only looked up, inserted into and removed from is a map; one that is
    iterated or measured is an association list (iteration order of the list stands for the
    arbitrary order of the hash table).
\<close>

unbundle bit_operations_syntax

type_synonym u8 = "8 word"
type_synonym u16 = "16 word"
type_synonym u32 = "32 word"
type_synonym u64 = "64 word"
type_synonym f32 = "32 word"
type_synonym instant = nat

named_theorems outcome_simps
  \<open>unfolding rules for the outcome monad\<close>

section \<open>Outcomes\<close>

text \<open>
  \<open>Ok\<close>: the operation returned a value (\<open>Result::Ok\<close>, or a plain return); \<open>Err\<close>: it returned
  \<open>Result::Err\<close>; \<open>Panic\<close>: it panicked (slice or index out of range, failed assertion);
  \<open>Hang\<close>: a loop ran out of the fuel the model gives it. An operation on a state returns the
  outcome together with the state it leaves behind, because \<open>&mut self\<close> updates made before an
  error stay visible to the caller.
\<close>

datatype ('e, 'a) outcome = Ok 'a | Err 'e | Panic | Hang

fun and_then :: "('e, 'a) outcome \<times> 's \<Rightarrow> ('a \<Rightarrow> 's \<Rightarrow> ('e, 'b) outcome \<times> 's)
    \<Rightarrow> ('e, 'b) outcome \<times> 's" where
  "and_then (Ok x, s) f = f x s"
| "and_then (Err e, s) f = (Err e, s)"
| "and_then (Panic, s) f = (Panic, s)"
| "and_then (Hang, s) f = (Hang, s)"

lemma and_then_Ok_iff [outcome_simps]:
  "and_then m f = (Ok y, s') \<longleftrightarrow> (\<exists>x s. m = (Ok x, s) \<and> f x s = (Ok y, s'))"
  by (cases m; cases "fst m") auto

fun is_ok :: "('e, 'a) outcome \<Rightarrow> bool" where
  "is_ok (Ok _) = True"
| "is_ok _ = False"

section \<open>Lists\<close>

text \<open>\<open>dst[off..off+n].copy_from_slice(src)\<close> for a slice that is in range.\<close>

definition splice_at :: "nat \<Rightarrow> 'a list \<Rightarrow> 'a list \<Rightarrow> 'a list" where
  "splice_at off src dst = take off dst @ src @ drop (off + length src) dst"

lemma length_splice_at [simp]:
  "off + length src \<le> length dst \<Longrightarrow> length (splice_at off src dst) = length dst"
  by (simp add: splice_at_def)

lemma nth_splice_at:
  assumes "off + length src \<le> length dst" and "i < length dst"
  shows "splice_at off src dst ! i
    = (if off \<le> i \<and> i < off + length src then src ! (i - off) else dst ! i)"
  using assms by (auto simp: splice_at_def nth_append)

lemma splice_at_0_full [simp]: "length src = length dst \<Longrightarrow> splice_at 0 src dst = src"
  by (simp add: splice_at_def)

lemma take_splice_at_0 [simp]: "take (length src) (splice_at 0 src dst) = src"
  by (simp add: splice_at_def)

text \<open>\<open>iter().position(p)\<close> and \<open>VecDeque::remove(pos)\<close>.\<close>

fun position :: "('a \<Rightarrow> bool) \<Rightarrow> 'a list \<Rightarrow> nat option" where
  "position P [] = None"
| "position P (x # xs) = (if P x then Some 0 else map_option Suc (position P xs))"

definition remove_at :: "nat \<Rightarrow> 'a list \<Rightarrow> 'a list" where
  "remove_at i xs = take i xs @ drop (Suc i) xs"

lemma position_None: "position P xs = None \<longleftrightarrow> (\<forall>x \<in> set xs. \<not> P x)"
  by (induction xs) auto

lemma position_Some:
  "position P xs = Some i \<Longrightarrow> i < length xs \<and> P (xs ! i) \<and> (\<forall>j < i. \<not> P (xs ! j))"
proof (induction xs arbitrary: i)
  case Nil
  then show ?case by simp
next
  case (Cons x xs)
  show ?case
  proof (cases "P x")
    case True
    with Cons.prems show ?thesis by simp
  next
    case False
    with Cons.prems obtain j where j: "position P xs = Some j" "i = Suc j" by auto
    have "j < length xs \<and> P (xs ! j) \<and> (\<forall>k < j. \<not> P (xs ! k))" by (rule Cons.IH [OF j(1)])
    with j False show ?thesis by (auto simp: less_Suc_eq_0_disj)
  qed
qed

text \<open>Removing the first occurrence of a key, as the LRU queues do: \<open>remove1\<close>.\<close>

lemma remove_at_position_eq:
  "position (\<lambda>y. y = x) xs = Some i \<Longrightarrow> remove_at i xs = remove1 x xs"
proof (induction xs arbitrary: i)
  case Nil
  then show ?case by simp
next
  case (Cons a xs)
  show ?case
  proof (cases "a = x")
    case True
    with Cons.prems show ?thesis by (auto simp: remove_at_def)
  next
    case False
    with Cons.prems obtain j where j: "position (\<lambda>y. y = x) xs = Some j" "i = Suc j" by auto
    from Cons.IH [OF j(1)] have "remove_at j xs = remove1 x xs" .
    with False j show ?thesis by (simp add: remove_at_def)
  qed
qed

lemma length_remove_at: "i < length xs \<Longrightarrow> length (remove_at i xs) = length xs - 1"
  by (simp add: remove_at_def)

lemma mset_remove_at:
  "i < length xs \<Longrightarrow> set (remove_at i xs) \<subseteq> set xs"
  by (auto simp: remove_at_def dest: in_set_takeD in_set_dropD)

text \<open>
  The scan every eviction policy of the program uses: walk a sequence, keep the first element
  of least key among those that qualify.
\<close>

fun scan_min :: "('a \<Rightarrow> bool) \<Rightarrow> ('a \<Rightarrow> 'b::linorder) \<Rightarrow> 'a list \<Rightarrow> 'a option \<Rightarrow> 'a option" where
  "scan_min P f [] b = b"
| "scan_min P f (x # xs) b =
     scan_min P f xs
       (if \<not> P x then b
        else (case b of None \<Rightarrow> Some x | Some y \<Rightarrow> if f x < f y then Some x else Some y))"

lemma scan_min_Some_keeps:
  "\<exists>y. scan_min P f xs (Some z) = Some y \<and> f y \<le> f z \<and> (y = z \<or> (y \<in> set xs \<and> P y))
      \<and> (\<forall>x \<in> set xs. P x \<longrightarrow> f y \<le> f x)"
proof (induction xs arbitrary: z)
  case Nil
  then show ?case by simp
next
  case (Cons x xs)
  show ?case
  proof (cases "P x \<and> f x < f z")
    case True
    with Cons.IH [of x] show ?thesis by fastforce
  next
    case False
    with Cons.IH [of z] show ?thesis by fastforce
  qed
qed

lemma scan_min_None_iff: "scan_min P f xs None = None \<longleftrightarrow> (\<forall>x \<in> set xs. \<not> P x)"
proof (induction xs)
  case Nil
  then show ?case by simp
next
  case (Cons x xs)
  with scan_min_Some_keeps [of P f xs x] show ?case by auto
qed

lemma scan_min_Some:
  assumes "scan_min P f xs None = Some y"
  shows "y \<in> set xs \<and> P y \<and> (\<forall>x \<in> set xs. P x \<longrightarrow> f y \<le> f x)"
  using assms
proof (induction xs)
  case Nil
  then show ?case by simp
next
  case (Cons x xs)
  with scan_min_Some_keeps [of P f xs x] show ?case by (auto split: if_splits)
qed

lemma map_list_update_id:
  assumes "g y = g (xs ! i)"
  shows "map g (xs[i := y]) = map g xs"
proof (cases "i < length xs")
  case True
  then have "map g (xs[i := y]) = (map g xs)[i := (map g xs) ! i]" by (simp add: map_update assms)
  then show ?thesis by (simp only: list_update_id)
qed (simp add: list_update_beyond)

section \<open>Association lists\<close>

lemma map_of_delete_eq: "map_of (AList.delete k xs) = (map_of xs)(k := None)"
  by (rule AList.delete_conv')

lemma map_of_update_eq: "map_of (AList.update k v xs) = (map_of xs)(k \<mapsto> v)"
  by (rule AList.update_conv')

lemma length_update_new:
  "k \<notin> fst ` set xs \<Longrightarrow> length (AList.update k v xs) = Suc (length xs)"
  by (induction xs) auto

lemma length_update_old:
  "k \<in> fst ` set xs \<Longrightarrow> length (AList.update k v xs) = length xs"
  by (induction xs) auto

lemma length_delete_le [simp]: "length (AList.delete k xs) \<le> length xs"
  by (simp add: AList.delete_eq)

lemma length_delete_less:
  "k \<in> fst ` set xs \<Longrightarrow> length (AList.delete k xs) < length xs"
  by (auto simp: AList.delete_eq intro!: length_filter_less)

lemma set_delete_filter: "set (AList.delete k xs) = {x \<in> set xs. fst x \<noteq> k}"
  by (auto simp: AList.delete_eq)

lemma set_update_new:
  "k \<notin> fst ` set xs \<Longrightarrow> set (AList.update k v xs) = insert (k, v) (set xs)"
  by (induction xs) auto

lemma keys_delete: "fst ` set (AList.delete k xs) = fst ` set xs - {k}"
  by (auto simp: AList.delete_eq)

lemma keys_update: "fst ` set (AList.update k v xs) = insert k (fst ` set xs)"
  by (simp add: AList.dom_update)

lemmas alist_simps = map_of_delete_eq map_of_update_eq AList.distinct_update AList.distinct_delete
  keys_delete keys_update

lemma set_update_distinct:
  assumes d: "distinct (map fst xs)"
  shows "(j, w) \<in> set (AList.update k v xs) \<longleftrightarrow> (if j = k then w = v else (j, w) \<in> set xs)"
proof -
  have "(j, w) \<in> set (AList.update k v xs) \<longleftrightarrow> map_of (AList.update k v xs) j = Some w"
    using AList.distinct_update [OF d] by (simp add: map_of_eq_Some_iff)
  also have "\<dots> \<longleftrightarrow> (if j = k then w = v else map_of xs j = Some w)"
    by (auto simp: map_of_update_eq)
  finally show ?thesis using d by (simp add: map_of_eq_Some_iff)
qed

section \<open>Hash sets that are iterated or measured\<close>

text \<open>A \<open>HashSet\<close> as a list without duplicates; the order stands for the table's arbitrary order.\<close>

definition hs_insert :: "'a \<Rightarrow> 'a list \<Rightarrow> 'a list" where
  "hs_insert x xs = (if x \<in> set xs then xs else xs @ [x])"

definition hs_remove :: "'a \<Rightarrow> 'a list \<Rightarrow> 'a list" where
  "hs_remove x xs = removeAll x xs"

lemma set_hs_insert [simp]: "set (hs_insert x xs) = insert x (set xs)"
  by (auto simp: hs_insert_def)

lemma set_hs_remove [simp]: "set (hs_remove x xs) = set xs - {x}"
  by (simp add: hs_remove_def)

lemma distinct_hs_insert [simp]: "distinct xs \<Longrightarrow> distinct (hs_insert x xs)"
  by (simp add: hs_insert_def)

lemma distinct_hs_remove [simp]: "distinct xs \<Longrightarrow> distinct (hs_remove x xs)"
  by (simp add: hs_remove_def distinct_removeAll)

section \<open>Rust arithmetic used throughout\<close>

text \<open>\<open>usize::div_ceil\<close>.\<close>

definition div_ceil :: "nat \<Rightarrow> nat \<Rightarrow> nat" where
  "div_ceil a b = (if a mod b = 0 then a div b else a div b + 1)"

lemma div_ceil_eq: "0 < c \<Longrightarrow> div_ceil x c = (x + (c - 1)) div c"
proof -
  assume c: "0 < c"
  define q r where "q = x div c" and "r = x mod c"
  have x: "x = r + q * c" and r: "r < c" using c by (simp_all add: q_def r_def)
  show ?thesis
  proof (cases "r = 0")
    case True
    have "(x + (c - 1)) div c = ((c - 1) + q * c) div c" by (simp add: x True add.commute)
    also have "\<dots> = q + (c - 1) div c" using c by (simp only: div_mult_self1)
    also have "\<dots> = q" using c by simp
    finally show ?thesis using True by (simp add: div_ceil_def q_def r_def)
  next
    case False
    have "(x + (c - 1)) div c = ((r - 1) + (q + 1) * c) div c"
      using False c by (simp add: x algebra_simps)
    also have "\<dots> = (q + 1) + (r - 1) div c" using c by (simp only: div_mult_self1)
    also have "\<dots> = q + 1" using r c by simp
    finally show ?thesis using False by (simp add: div_ceil_def q_def r_def)
  qed
qed

lemma div_ceil_mono: "a \<le> b \<Longrightarrow> 0 < c \<Longrightarrow> div_ceil a c \<le> div_ceil b c"
  by (simp add: div_ceil_eq div_le_mono)

lemma div_ceil_le_iff: "0 < c \<Longrightarrow> div_ceil a c \<le> n \<longleftrightarrow> a \<le> n * c"
proof -
  assume c: "0 < c"
  have "(a + (c - 1)) div c \<le> n \<longleftrightarrow> (a + (c - 1)) div c < Suc n" by auto
  also have "\<dots> \<longleftrightarrow> a + (c - 1) < Suc n * c" using c by (simp only: div_less_iff_less_mult)
  also have "\<dots> \<longleftrightarrow> a \<le> n * c" using c by auto
  finally show ?thesis using c by (simp add: div_ceil_eq)
qed

lemma div_ceil_mult_ge: "0 < b \<Longrightarrow> a \<le> div_ceil a b * b"
  using div_ceil_le_iff [of b a "div_ceil a b"] by simp

lemma div_ceil_0 [simp]: "div_ceil 0 b = 0"
  by (simp add: div_ceil_def)

lemma div_ceil_mult [simp]: "0 < b \<Longrightarrow> div_ceil (n * b) b = n"
  by (simp add: div_ceil_def)

end
