(* ===== verification/RadixTree.thy ===== *)
theory RadixTree
  imports GrimPrelude
begin

text \<open>
  The block-granular radix tree of \<open>crates/grim-memory/src/radix.rs\<close>: \<open>RadixNode\<close>, \<open>RadixTree\<close>
  and every operation of the implementation. One node is one physical KV block; a child is keyed
  by the FNV-1a hash of the tokens of its block. Nodes are never deallocated: eviction detaches a
  node from its parent and from the reverse map and leaves the object behind.

  Node indices are private to the module; \<open>rt_wf\<close> below is the invariant every operation keeps
  and under which no index is out of range. The contract \<open>block_size = BLOCK_SIZE\<close> (16) is the
  guard \<open>0 < rt_block_size\<close> in the two descents.
\<close>

section \<open>State\<close>

record radix_node =
  rn_block_id :: nat
  rn_token_span :: "nat \<times> nat"
  rn_children :: "(u64 \<times> nat) list"
  rn_parent :: "nat option"
  rn_ref_count :: nat
  rn_pinned_until :: "instant option"
  rn_last_access :: instant
  rn_recurrent_state_id :: "nat option"

record radix_tree =
  rt_nodes :: "radix_node list"
  rt_root :: nat
  rt_block_size :: nat
  rt_block_to_node :: "nat \<rightharpoonup> nat"

text \<open>\<open>usize::MAX\<close>, the block id of the root.\<close>

definition usize_max :: nat where
  "usize_max = 2 ^ 64 - 1"

definition rn_is_pinned :: "instant \<Rightarrow> radix_node \<Rightarrow> bool" where
  "rn_is_pinned now n = (case rn_pinned_until n of None \<Rightarrow> False | Some t \<Rightarrow> t > now)"

definition rt_new :: "instant \<Rightarrow> nat \<Rightarrow> radix_tree" where
  "rt_new now bs = \<lparr>
     rt_nodes = [\<lparr> rn_block_id = usize_max, rn_token_span = (0, 0), rn_children = [],
                   rn_parent = None, rn_ref_count = 0, rn_pinned_until = None,
                   rn_last_access = now, rn_recurrent_state_id = None \<rparr>],
     rt_root = 0, rt_block_size = bs, rt_block_to_node = Map.empty \<rparr>"

section \<open>Hashing one block of tokens\<close>

definition fnv_step :: "u64 \<Rightarrow> u32 \<Rightarrow> u64" where
  "fnv_step h token = (h XOR ucast token) * 0x100000001b3"

text \<open>\<open>None\<close> is the panic of the slice \<open>tokens[offset..end]\<close> when \<open>offset\<close> is past the end.\<close>

definition block_key :: "u32 list \<Rightarrow> nat \<Rightarrow> nat \<Rightarrow> u64 option" where
  "block_key tokens offset block_size =
     (let end = min (offset + block_size) (length tokens) in
      if offset \<le> end
      then Some (foldl fnv_step 0xcbf29ce484222325 (take (end - offset) (drop offset tokens)))
      else None)"

section \<open>Lookup\<close>

text \<open>The child of \<open>node\<close> for the block of \<open>tokens\<close> at \<open>offset\<close>.\<close>

definition child_at :: "radix_tree \<Rightarrow> nat \<Rightarrow> u64 \<Rightarrow> nat option" where
  "child_at t node key = map_of (rn_children (rt_nodes t ! node)) key"

text \<open>
  The loop of \<open>match_prefix_with_anchor\<close>: the descent accumulates the block ids, the offset and
  the deepest recurrent-state id. Within the guard the slice is in range, so the key exists.
\<close>

function match_loop :: "radix_tree \<Rightarrow> u32 list \<Rightarrow> nat \<Rightarrow> nat \<Rightarrow> nat list \<Rightarrow> nat option
    \<Rightarrow> nat list \<times> nat \<times> nat option" where
  "match_loop t tokens node offset matched deepest =
     (if 0 < rt_block_size t \<and> offset + rt_block_size t \<le> length tokens then
        (case child_at t node (the (block_key tokens offset (rt_block_size t))) of
           Some child \<Rightarrow>
             match_loop t tokens child (offset + rt_block_size t)
               (matched @ [rn_block_id (rt_nodes t ! child)])
               (case rn_recurrent_state_id (rt_nodes t ! child) of
                  Some st \<Rightarrow> Some st | None \<Rightarrow> deepest)
         | None \<Rightarrow> (matched, offset, deepest))
      else (matched, offset, deepest))"
  by pat_completeness auto
termination
  by (relation "measure (\<lambda>(t, tokens, node, offset, m, d). length tokens - offset)") auto

declare match_loop.simps [simp del]

definition match_prefix_with_anchor ::
  "radix_tree \<Rightarrow> u32 list \<Rightarrow> nat list \<times> nat \<times> nat option" where
  "match_prefix_with_anchor t tokens = match_loop t tokens (rt_root t) 0 [] None"

definition rt_match_prefix :: "radix_tree \<Rightarrow> u32 list \<Rightarrow> nat list \<times> nat" where
  "rt_match_prefix t tokens =
     (case match_prefix_with_anchor t tokens of (matched, offset, _) \<Rightarrow> (matched, offset))"

definition rt_match_prefix_blending :: "radix_tree \<Rightarrow> u32 list \<Rightarrow> nat list \<times> nat \<times> bool" where
  "rt_match_prefix_blending t tokens =
     (case rt_match_prefix t tokens of (matched, full_tokens) \<Rightarrow>
        (matched, full_tokens, full_tokens < length tokens \<and> matched \<noteq> []))"

section \<open>Updates along a path\<close>

definition upd_node :: "nat \<Rightarrow> (radix_node \<Rightarrow> radix_node) \<Rightarrow> radix_tree \<Rightarrow> radix_tree" where
  "upd_node i f t = t\<lparr>rt_nodes := (rt_nodes t)[i := f (rt_nodes t ! i)]\<rparr>"

definition rt_attach_recurrent_state :: "radix_tree \<Rightarrow> nat \<Rightarrow> nat \<Rightarrow> radix_tree" where
  "rt_attach_recurrent_state t block_id state_id =
     (case rt_block_to_node t block_id of
        Some i \<Rightarrow> upd_node i (\<lambda>n. n\<lparr>rn_recurrent_state_id := Some state_id\<rparr>) t
      | None \<Rightarrow> t)"

function touch_loop :: "instant \<Rightarrow> radix_tree \<Rightarrow> u32 list \<Rightarrow> nat \<Rightarrow> nat \<Rightarrow> radix_tree" where
  "touch_loop now t tokens node offset =
     (if 0 < rt_block_size t \<and> offset + rt_block_size t \<le> length tokens then
        (case child_at t node (the (block_key tokens offset (rt_block_size t))) of
           Some child \<Rightarrow>
             touch_loop now (upd_node child (\<lambda>n. n\<lparr>rn_last_access := now\<rparr>) t) tokens child
               (offset + rt_block_size t)
         | None \<Rightarrow> t)
      else t)"
  by pat_completeness auto
termination
  by (relation "measure (\<lambda>(now, t, tokens, node, offset). length tokens - offset)") auto

declare touch_loop.simps [simp del]

definition rt_touch :: "instant \<Rightarrow> radix_tree \<Rightarrow> u32 list \<Rightarrow> radix_tree" where
  "rt_touch now t tokens = touch_loop now t tokens (rt_root t) 0"

section \<open>Insertion\<close>

text \<open>Push a fresh node for \<open>bid\<close> below \<open>node\<close> and link it under \<open>key\<close>.\<close>

definition push_child :: "instant \<Rightarrow> radix_tree \<Rightarrow> nat \<Rightarrow> u64 \<Rightarrow> nat \<Rightarrow> nat \<Rightarrow> radix_tree" where
  "push_child now t node key offset bid =
     (let child_idx = length (rt_nodes t);
          t1 = t\<lparr>rt_nodes := rt_nodes t @
            [\<lparr> rn_block_id = bid, rn_token_span = (offset, offset + rt_block_size t),
               rn_children = [], rn_parent = Some node, rn_ref_count = 1,
               rn_pinned_until = None, rn_last_access = now, rn_recurrent_state_id = None \<rparr>]\<rparr>;
          t2 = upd_node node (\<lambda>n. n\<lparr>rn_children := AList.update key child_idx (rn_children n)\<rparr>) t1
      in t2\<lparr>rt_block_to_node := (rt_block_to_node t2)(bid \<mapsto> child_idx)\<rparr>)"

definition bump_ref :: "nat \<Rightarrow> radix_tree \<Rightarrow> radix_tree" where
  "bump_ref i t = upd_node i (\<lambda>n. n\<lparr>rn_ref_count := rn_ref_count n + 1\<rparr>) t"

text \<open>
  The body of \<open>insert\<close>: reuse the child and bump its refcount, or create it. \<open>Panic\<close> when the
  list of blocks reaches past the tokens (the slice in \<open>block_key\<close>).
\<close>

fun insert_loop :: "instant \<Rightarrow> u32 list \<Rightarrow> nat list \<Rightarrow> nat \<Rightarrow> nat \<Rightarrow> radix_tree
    \<Rightarrow> (unit, unit) outcome \<times> radix_tree" where
  "insert_loop now tokens [] node offset t = (Ok (), t)"
| "insert_loop now tokens (bid # bids) node offset t =
     (case block_key tokens offset (rt_block_size t) of
        None \<Rightarrow> (Panic, t)
      | Some key \<Rightarrow>
          (case child_at t node key of
             Some child \<Rightarrow>
               insert_loop now tokens bids child (offset + rt_block_size t) (bump_ref child t)
           | None \<Rightarrow>
               insert_loop now tokens bids (length (rt_nodes t)) (offset + rt_block_size t)
                 (push_child now t node key offset bid)))"

definition rt_insert :: "instant \<Rightarrow> radix_tree \<Rightarrow> u32 list \<Rightarrow> nat list
    \<Rightarrow> (unit, unit) outcome \<times> radix_tree" where
  "rt_insert now t tokens blocks = insert_loop now tokens blocks (rt_root t) 0 t"

text \<open>\<open>insert_at\<close>: descend through the first \<open>skip\<close> blocks without touching their refcounts.\<close>

fun insert_at_loop :: "instant \<Rightarrow> u32 list \<Rightarrow> nat list \<Rightarrow> nat \<Rightarrow> nat \<Rightarrow> nat \<Rightarrow> nat \<Rightarrow> radix_tree
    \<Rightarrow> (unit, unit) outcome \<times> radix_tree" where
  "insert_at_loop now tokens [] i skip node offset t = (Ok (), t)"
| "insert_at_loop now tokens (bid # bids) i skip node offset t =
     (case block_key tokens offset (rt_block_size t) of
        None \<Rightarrow> (Panic, t)
      | Some key \<Rightarrow>
          (case child_at t node key of
             Some child \<Rightarrow>
               insert_at_loop now tokens bids (Suc i) skip child (offset + rt_block_size t)
                 (if i < skip then t else bump_ref child t)
           | None \<Rightarrow>
               insert_at_loop now tokens bids (Suc i) skip (length (rt_nodes t))
                 (offset + rt_block_size t) (push_child now t node key offset bid)))"

definition rt_insert_at :: "instant \<Rightarrow> radix_tree \<Rightarrow> u32 list \<Rightarrow> nat list \<Rightarrow> nat
    \<Rightarrow> (unit, unit) outcome \<times> radix_tree" where
  "rt_insert_at now t tokens blocks skip = insert_at_loop now tokens blocks 0 skip (rt_root t) 0 t"

section \<open>Release, pins, queries\<close>

fun rt_remove :: "radix_tree \<Rightarrow> nat list \<Rightarrow> radix_tree" where
  "rt_remove t [] = t"
| "rt_remove t (bid # bids) =
     rt_remove
       (case rt_block_to_node t bid of
          Some i \<Rightarrow> upd_node i (\<lambda>n. n\<lparr>rn_ref_count := rn_ref_count n - 1\<rparr>) t
        | None \<Rightarrow> t) bids"

definition rt_contains_block :: "radix_tree \<Rightarrow> nat \<Rightarrow> bool" where
  "rt_contains_block t bid = (rt_block_to_node t bid \<noteq> None)"

definition extend_pin :: "instant \<Rightarrow> radix_node \<Rightarrow> radix_node" where
  "extend_pin until n = n\<lparr>rn_pinned_until :=
     Some (case rn_pinned_until n of Some t \<Rightarrow> (if t > until then t else until) | None \<Rightarrow> until)\<rparr>"

fun pin_loop :: "instant \<Rightarrow> radix_tree \<Rightarrow> nat list \<Rightarrow> radix_tree" where
  "pin_loop until t [] = t"
| "pin_loop until t (bid # bids) =
     pin_loop until
       (case rt_block_to_node t bid of Some i \<Rightarrow> upd_node i (extend_pin until) t | None \<Rightarrow> t) bids"

definition rt_pin_blocks :: "instant \<Rightarrow> radix_tree \<Rightarrow> nat list \<Rightarrow> nat \<Rightarrow> radix_tree" where
  "rt_pin_blocks now t blocks secs = pin_loop (now + secs) t blocks"

definition sweep_node :: "instant \<Rightarrow> radix_node \<Rightarrow> radix_node" where
  "sweep_node now n =
     (case rn_pinned_until n of
        Some t \<Rightarrow> if t \<le> now then n\<lparr>rn_pinned_until := None\<rparr> else n
      | None \<Rightarrow> n)"

definition rt_sweep_expired_pins :: "instant \<Rightarrow> radix_tree \<Rightarrow> radix_tree" where
  "rt_sweep_expired_pins now t = t\<lparr>rt_nodes := map (sweep_node now) (rt_nodes t)\<rparr>"

definition rt_is_pinned :: "instant \<Rightarrow> radix_tree \<Rightarrow> nat \<Rightarrow> bool" where
  "rt_is_pinned now t bid =
     (case rt_block_to_node t bid of
        Some i \<Rightarrow> rn_is_pinned now (rt_nodes t ! i)
      | None \<Rightarrow> False)"

definition rt_evictable_leaves :: "instant \<Rightarrow> radix_tree \<Rightarrow> nat" where
  "rt_evictable_leaves now t =
     length (filter (\<lambda>(idx, n). idx \<noteq> rt_root t \<and> rn_ref_count n = 0 \<and> \<not> rn_is_pinned now n
                        \<and> rt_block_to_node t (rn_block_id n) = Some idx)
               (enumerate 0 (rt_nodes t)))"

text \<open>\<open>drop_oldest_pins\<close>: the live pins, earliest expiry first (a stable sort), \<open>n\<close> of them dropped.\<close>

definition live_pins :: "instant \<Rightarrow> radix_tree \<Rightarrow> (nat \<times> instant) list" where
  "live_pins now t =
     List.map_filter
       (\<lambda>(idx, n). case rn_pinned_until n of
                     Some e \<Rightarrow> if e > now then Some (idx, e) else None
                   | None \<Rightarrow> None)
       (enumerate 0 (rt_nodes t))"

definition rt_drop_oldest_pins :: "instant \<Rightarrow> radix_tree \<Rightarrow> nat \<Rightarrow> nat \<times> radix_tree" where
  "rt_drop_oldest_pins now t n =
     (let victims = take n (sort_key snd (live_pins now t)) in
      (length victims,
       foldl (\<lambda>t (idx, _). upd_node idx (\<lambda>m. m\<lparr>rn_pinned_until := None\<rparr>) t) t victims))"

section \<open>Eviction\<close>

text \<open>
  The candidate test both scans share: not the root, not a detached zombie, childless,
  unreferenced, unpinned.
\<close>

definition evictable :: "instant \<Rightarrow> radix_tree \<Rightarrow> nat \<times> radix_node \<Rightarrow> bool" where
  "evictable now t p =
     (case p of (idx, n) \<Rightarrow>
        idx \<noteq> rt_root t \<and> rt_block_to_node t (rn_block_id n) = Some idx
        \<and> rn_children n = [] \<and> rn_ref_count n = 0 \<and> \<not> rn_is_pinned now n)"

definition coldest_candidate :: "instant \<Rightarrow> radix_tree \<Rightarrow> (nat \<times> radix_node) option" where
  "coldest_candidate now t =
     scan_min (evictable now t) (\<lambda>(_, n). rn_last_access n) (enumerate 0 (rt_nodes t)) None"

definition rt_coldest_leaf :: "instant \<Rightarrow> radix_tree \<Rightarrow> nat option" where
  "rt_coldest_leaf now t =
     map_option (\<lambda>(idx, _). rn_block_id (rt_nodes t ! idx)) (coldest_candidate now t)"

definition key_of_child :: "(u64 \<times> nat) list \<Rightarrow> nat \<Rightarrow> u64 option" where
  "key_of_child cs n = map_option fst (find (\<lambda>(_, v). v = n) cs)"

text \<open>Remove node \<open>n\<close> from its parent \<open>p\<close> and from the reverse map.\<close>

definition unlink :: "radix_tree \<Rightarrow> nat \<Rightarrow> nat \<Rightarrow> radix_tree" where
  "unlink t p n =
     (let t1 = (case key_of_child (rn_children (rt_nodes t ! p)) n of
                  Some k \<Rightarrow> upd_node p (\<lambda>m. m\<lparr>rn_children := AList.delete k (rn_children m)\<rparr>) t
                | None \<Rightarrow> t)
      in t1\<lparr>rt_block_to_node := (rt_block_to_node t1)(rn_block_id (rt_nodes t ! n) := None)\<rparr>)"

text \<open>
  The walk up of \<open>evict_coldest_chain\<close>. The loop follows parents, so it ends when parents have
  smaller indices (\<open>rt_wf\<close>); \<open>walk_up_enough_fuel\<close> shows the fuel given below suffices. The test
  is the code's: childless and not the root -- it does not look at the refcount or the pin.
\<close>

fun walk_up :: "nat \<Rightarrow> radix_tree \<Rightarrow> nat \<Rightarrow> nat \<Rightarrow> nat list \<Rightarrow> (nat list \<times> radix_tree) option" where
  "walk_up 0 t idx n detached = None"
| "walk_up (Suc fuel) t idx n detached =
     (let node = rt_nodes t ! n in
      if n \<noteq> rt_root t \<and> rn_children node = [] then
        (case rn_parent node of
           Some p \<Rightarrow>
             walk_up fuel (unlink t p n) idx p
               (if n \<noteq> idx then detached @ [rn_block_id node] else detached)
         | None \<Rightarrow> Some (detached, t))
      else Some (detached, t))"

definition rt_evict_coldest_chain ::
  "instant \<Rightarrow> radix_tree \<Rightarrow> (nat list \<times> radix_tree) option" where
  "rt_evict_coldest_chain now t =
     (case coldest_candidate now t of
        None \<Rightarrow> Some ([], t)
      | Some (idx, _) \<Rightarrow>
          walk_up (Suc (length (rt_nodes t))) t idx idx [rn_block_id (rt_nodes t ! idx)])"

definition rt_evict_coldest_leaf :: "instant \<Rightarrow> radix_tree \<Rightarrow> (nat option \<times> radix_tree) option" where
  "rt_evict_coldest_leaf now t =
     (case rt_evict_coldest_chain now t of
        None \<Rightarrow> None
      | Some (chain, t') \<Rightarrow> Some ((case chain of [] \<Rightarrow> None | b # _ \<Rightarrow> Some b), t'))"

definition rt_node_count :: "radix_tree \<Rightarrow> nat" where
  "rt_node_count t = length (rt_nodes t) - 1"

section \<open>Well-formedness\<close>

abbreviation nd :: "radix_tree \<Rightarrow> nat \<Rightarrow> radix_node" where
  "nd t i \<equiv> rt_nodes t ! i"

abbreviation nn :: "radix_tree \<Rightarrow> nat" where
  "nn t \<equiv> length (rt_nodes t)"

text \<open>
  Indices are in range, parents have smaller indices, a child entry and the child's parent field
  agree, each child hangs under one key, and the reverse map points at the node of its block.
\<close>

definition rt_wf :: "radix_tree \<Rightarrow> bool" where
  "rt_wf t \<longleftrightarrow>
     rt_root t = 0 \<and> 0 < nn t
     \<and> (\<forall>i < nn t. case rn_parent (nd t i) of None \<Rightarrow> i = 0 | Some p \<Rightarrow> p < i)
     \<and> (\<forall>i < nn t. distinct (map fst (rn_children (nd t i)))
                 \<and> distinct (map snd (rn_children (nd t i)))
                 \<and> (\<forall>(k, c) \<in> set (rn_children (nd t i)). c < nn t \<and> rn_parent (nd t c) = Some i))
     \<and> (\<forall>b i. rt_block_to_node t b = Some i \<longrightarrow> 0 < i \<and> i < nn t \<and> rn_block_id (nd t i) = b)"

text \<open>What \<open>rt_wf\<close> and the descents read: everything but counters, pins and access times.\<close>

definition shape where
  "shape t = (rt_root t, rt_block_size t, rt_block_to_node t,
     map (\<lambda>n. (rn_block_id n, rn_children n, rn_parent n)) (rt_nodes t))"

lemma shape_nth:
  assumes "shape t' = shape t"
  shows "nn t' = nn t" and "rt_root t' = rt_root t" and "rt_block_size t' = rt_block_size t"
    and "rt_block_to_node t' = rt_block_to_node t"
    and "i < nn t \<Longrightarrow> rn_block_id (nd t' i) = rn_block_id (nd t i)"
    and "i < nn t \<Longrightarrow> rn_children (nd t' i) = rn_children (nd t i)"
    and "i < nn t \<Longrightarrow> rn_parent (nd t' i) = rn_parent (nd t i)"
proof -
  let ?f = "\<lambda>n. (rn_block_id n, rn_children n, rn_parent n)"
  have m: "map ?f (rt_nodes t') = map ?f (rt_nodes t)" using assms by (simp add: shape_def)
  have "length (map ?f (rt_nodes t')) = length (map ?f (rt_nodes t))" by (simp only: m)
  then show len: "nn t' = nn t" by simp
  show "rt_root t' = rt_root t" using assms by (simp add: shape_def)
  show "rt_block_size t' = rt_block_size t" using assms by (simp add: shape_def)
  show "rt_block_to_node t' = rt_block_to_node t" using assms by (simp add: shape_def)
  have pt: "?f (nd t' i) = ?f (nd t i)" if "i < nn t"
  proof -
    have "map ?f (rt_nodes t') ! i = map ?f (rt_nodes t) ! i" by (simp only: m)
    with that len show ?thesis by simp
  qed
  from pt show "i < nn t \<Longrightarrow> rn_block_id (nd t' i) = rn_block_id (nd t i)"
    "i < nn t \<Longrightarrow> rn_children (nd t' i) = rn_children (nd t i)"
    "i < nn t \<Longrightarrow> rn_parent (nd t' i) = rn_parent (nd t i)" by auto
qed

lemma rt_wf_shape:
  assumes "shape t' = shape t" and wf: "rt_wf t"
  shows "rt_wf t'"
proof -
  note sh = shape_nth [OF assms(1)]
  have "rn_parent (nd t' c) = Some i" if "i < nn t" "(k, c) \<in> set (rn_children (nd t i))" for i k c
    using wf that sh(7) [of c] unfolding rt_wf_def by fastforce
  with wf show ?thesis
    unfolding rt_wf_def by (auto simp: sh split: option.splits)
qed

text \<open>An update of one node that keeps its block, children and parent keeps the shape.\<close>

lemma shape_upd_node:
  assumes "\<And>n. rn_block_id (f n) = rn_block_id n" "\<And>n. rn_children (f n) = rn_children n"
    "\<And>n. rn_parent (f n) = rn_parent n"
  shows "shape (upd_node i f t) = shape t"
proof -
  let ?g = "\<lambda>n. (rn_block_id n, rn_children n, rn_parent n)"
  have "?g (f (nd t i)) = ?g (nd t i)" by (simp add: assms)
  then have "map ?g ((rt_nodes t)[i := f (nd t i)]) = map ?g (rt_nodes t)"
    by (rule map_list_update_id)
  then show ?thesis by (simp only: shape_def upd_node_def) simp
qed

lemma shape_bump_ref [simp]: "shape (bump_ref i t) = shape t"
  unfolding bump_ref_def by (rule shape_upd_node) auto

lemma shape_attach [simp]: "shape (rt_attach_recurrent_state t b s) = shape t"
  unfolding rt_attach_recurrent_state_def
  by (auto split: option.splits intro!: shape_upd_node)

lemma shape_touch_loop: "shape (touch_loop now t tokens node offset) = shape t"
proof (induction now t tokens node offset rule: touch_loop.induct)
  case (1 now t tokens node offset)
  show ?case
    by (subst touch_loop.simps)
      (auto split: option.splits simp: "1.IH" intro: shape_upd_node)
qed

lemma shape_touch [simp]: "shape (rt_touch now t tokens) = shape t"
  by (simp add: rt_touch_def shape_touch_loop)

lemma shape_remove [simp]: "shape (rt_remove t bids) = shape t"
  by (induction bids arbitrary: t) (auto split: option.splits intro!: shape_upd_node)

lemma shape_pin_loop [simp]: "shape (pin_loop until t bids) = shape t"
  by (induction bids arbitrary: t)
    (auto split: option.splits intro!: shape_upd_node simp: extend_pin_def)

lemma shape_pin_blocks [simp]: "shape (rt_pin_blocks now t bids secs) = shape t"
  by (simp add: rt_pin_blocks_def)

lemma shape_sweep [simp]: "shape (rt_sweep_expired_pins now t) = shape t"
  by (auto simp: shape_def rt_sweep_expired_pins_def sweep_node_def split: option.splits)

lemma shape_drop_oldest [simp]: "shape (snd (rt_drop_oldest_pins now t n)) = shape t"
proof -
  let ?g = "\<lambda>t (idx, _). upd_node idx (\<lambda>m. m\<lparr>rn_pinned_until := None\<rparr>) t"
  have "shape (foldl ?g t vs) = shape t" for vs :: "(nat \<times> instant) list" and t
    by (induction vs arbitrary: t) (auto intro!: shape_upd_node)
  then show ?thesis by (simp add: rt_drop_oldest_pins_def Let_def)
qed

lemma rt_wf_new: "rt_wf (rt_new now bs)"
  by (simp add: rt_wf_def rt_new_def)

lemma push_child_simps:
  shows "nn (push_child now t node key off bid) = Suc (nn t)"
    and "rt_root (push_child now t node key off bid) = rt_root t"
    and "rt_block_size (push_child now t node key off bid) = rt_block_size t"
    and "rt_block_to_node (push_child now t node key off bid) = (rt_block_to_node t)(bid \<mapsto> nn t)"
    and "node < nn t \<Longrightarrow> i < nn t \<Longrightarrow> nd (push_child now t node key off bid) i =
          (if i = node then (nd t i)\<lparr>rn_children := AList.update key (nn t) (rn_children (nd t i))\<rparr>
           else nd t i)"
    and "node < nn t \<Longrightarrow> nd (push_child now t node key off bid) (nn t) =
          \<lparr> rn_block_id = bid, rn_token_span = (off, off + rt_block_size t), rn_children = [],
            rn_parent = Some node, rn_ref_count = 1, rn_pinned_until = None,
            rn_last_access = now, rn_recurrent_state_id = None \<rparr>"
  by (simp_all add: push_child_def Let_def upd_node_def nth_append nth_list_update)

lemma update_new_key_append:
  "k \<notin> fst ` set xs \<Longrightarrow> AList.update k v xs = xs @ [(k, v)]"
  by (induction xs) auto

lemma child_at_None_fresh: "child_at t node key = None \<longleftrightarrow> key \<notin> fst ` set (rn_children (nd t node))"
  by (simp add: child_at_def map_of_eq_None_iff)

lemma rt_wf_child:
  assumes "rt_wf t" and "i < nn t" and "(k, c) \<in> set (rn_children (nd t i))"
  shows "c < nn t" and "rn_parent (nd t c) = Some i" and "i < c"
proof -
  show c: "c < nn t" and p: "rn_parent (nd t c) = Some i"
    using assms unfolding rt_wf_def by fastforce+
  show "i < c" using assms(1) c p unfolding rt_wf_def by (auto split: option.splits)
qed

lemma rt_wf_child_at:
  assumes "rt_wf t" and "i < nn t" and "child_at t i key = Some c"
  shows "c < nn t" and "rn_parent (nd t c) = Some i" and "i < c"
  using rt_wf_child [OF assms(1,2)] map_of_SomeD [OF assms(3) [unfolded child_at_def]] by auto

lemma rt_wf_push_child:
  assumes wf: "rt_wf t" and node: "node < nn t" and fresh: "child_at t node key = None"
  shows "rt_wf (push_child now t node key off bid)" (is "rt_wf ?t")
proof -
  have upd: "AList.update key (nn t) (rn_children (nd t node)) = rn_children (nd t node) @ [(key, nn t)]"
    using fresh by (simp add: child_at_None_fresh update_new_key_append)
  note ps = push_child_simps [where now = now and t = t and node = node and key = key and off = off
      and bid = bid]
  have par: "\<forall>i < nn ?t. case rn_parent (nd ?t i) of None \<Rightarrow> i = 0 | Some p \<Rightarrow> p < i"
    using wf node unfolding rt_wf_def by (auto simp: ps less_Suc_eq)
  have ch: "distinct (map fst (rn_children (nd ?t i))) \<and> distinct (map snd (rn_children (nd ?t i)))
      \<and> (\<forall>(k, c) \<in> set (rn_children (nd ?t i)). c < nn ?t \<and> rn_parent (nd ?t c) = Some i)"
    if i: "i < nn ?t" for i
  proof (cases "i = nn t")
    case True
    with node show ?thesis by (simp add: ps)
  next
    case False
    with i have i': "i < nn t" by (simp add: ps)
    have old: "distinct (map fst (rn_children (nd t i)))" "distinct (map snd (rn_children (nd t i)))"
      using wf i' by (auto simp: rt_wf_def)
    have kid: "c < nn t \<and> rn_parent (nd ?t c) = Some i" if "(k, c) \<in> set (rn_children (nd t i))" for k c
      using rt_wf_child [OF wf i' that] node by (auto simp: ps)
    have new: "rn_parent (nd ?t (nn t)) = Some node" using node by (simp add: ps)
    have "nn t \<notin> snd ` set (rn_children (nd t i))" using rt_wf_child [OF wf i'] by fastforce
    then have d: "distinct (map snd (rn_children (nd t i)) @ [nn t])" using old by auto
    show ?thesis
    proof (cases "i = node")
      case True
      have ch: "rn_children (nd ?t node) = rn_children (nd t node) @ [(key, nn t)]"
        using node by (simp add: ps upd)
      have "key \<notin> fst ` set (rn_children (nd t node))" using fresh by (simp add: child_at_None_fresh)
      moreover have "c < nn ?t \<and> rn_parent (nd ?t c) = Some node"
        if "(k, c) \<in> set (rn_children (nd t node) @ [(key, nn t)])" for k c
        using that kid [of k c] new True by (auto simp: ps(1))
      ultimately show ?thesis unfolding True ch using old d True by auto
    next
      case False
      then have "rn_children (nd ?t i) = rn_children (nd t i)" using i' node by (simp add: ps)
      with old kid show ?thesis by (fastforce simp: ps(1) dest: kid)
    qed
  qed
  have b2n: "\<forall>b i. rt_block_to_node ?t b = Some i \<longrightarrow> 0 < i \<and> i < nn ?t \<and> rn_block_id (nd ?t i) = b"
    using wf node unfolding rt_wf_def by (auto simp: ps less_Suc_eq)
  have "rt_root ?t = 0" "0 < nn ?t" using wf by (simp_all add: rt_wf_def ps(1,2))
  then show ?thesis unfolding rt_wf_def using par ch b2n by (intro conjI allI impI) (assumption | simp)+
qed

lemma nn_bump_ref [simp]: "nn (bump_ref i t) = nn t"
  by (simp add: bump_ref_def upd_node_def)

lemma child_at_shape: "shape t' = shape t \<Longrightarrow> i < nn t \<Longrightarrow> child_at t' i key = child_at t i key"
  unfolding child_at_def using shape_nth(6) [of t' t i] by metis

lemma bs_bump_ref [simp]: "rt_block_size (bump_ref i t) = rt_block_size t"
  by (simp add: bump_ref_def upd_node_def)

lemma bs_push_child [simp]: "rt_block_size (push_child now t node key off bid) = rt_block_size t"
  by (rule push_child_simps)

lemma insert_loop_wf:
  "rt_wf t \<Longrightarrow> node < nn t \<Longrightarrow> insert_loop now tokens blocks node offset t = (r, t')
    \<Longrightarrow> rt_wf t'"
proof (induction blocks arbitrary: node offset t)
  case Nil
  then show ?case by simp
next
  case (Cons bid bids)
  show ?case
  proof (cases "block_key tokens offset (rt_block_size t)")
    case None
    with Cons.prems show ?thesis by simp
  next
    case (Some key)
    show ?thesis
    proof (cases "child_at t node key")
      case None
      have wf: "rt_wf (push_child now t node key offset bid)"
        by (rule rt_wf_push_child [OF Cons.prems(1,2) None])
      have l: "nn t < nn (push_child now t node key offset bid)"
        by (simp add: push_child_simps)
      show ?thesis using Cons.prems Some None by (intro Cons.IH [OF wf l]) simp
    next
      case c: (Some child)
      have wf: "rt_wf (bump_ref child t)" by (rule rt_wf_shape [OF _ Cons.prems(1)]) simp
      have l: "child < nn (bump_ref child t)"
        using rt_wf_child_at [OF Cons.prems(1,2) c] by simp
      show ?thesis using Cons.prems Some c by (intro Cons.IH [OF wf l]) simp
    qed
  qed
qed

lemma insert_at_loop_wf:
  "rt_wf t \<Longrightarrow> node < nn t \<Longrightarrow> insert_at_loop now tokens blocks i skip node offset t = (r, t')
    \<Longrightarrow> rt_wf t'"
proof (induction blocks arbitrary: node offset t i)
  case Nil
  then show ?case by simp
next
  case (Cons bid bids)
  show ?case
  proof (cases "block_key tokens offset (rt_block_size t)")
    case None
    with Cons.prems show ?thesis by simp
  next
    case (Some key)
    show ?thesis
    proof (cases "child_at t node key")
      case None
      have wf: "rt_wf (push_child now t node key offset bid)"
        by (rule rt_wf_push_child [OF Cons.prems(1,2) None])
      have l: "nn t < nn (push_child now t node key offset bid)"
        by (simp add: push_child_simps)
      show ?thesis using Cons.prems Some None by (intro Cons.IH [OF wf l]) simp
    next
      case c: (Some child)
      let ?t = "if i < skip then t else bump_ref child t"
      have wf: "rt_wf ?t" by (rule rt_wf_shape [OF _ Cons.prems(1)]) simp
      have l: "child < nn ?t" using rt_wf_child_at [OF Cons.prems(1,2) c] by simp
      show ?thesis using Cons.prems Some c by (intro Cons.IH [OF wf l]) simp
    qed
  qed
qed

text \<open>With no block to skip, the incremental registration is the plain one.\<close>

lemma insert_at_loop_0: "insert_at_loop now tokens blocks i 0 node offset t
    = insert_loop now tokens blocks node offset t"
  by (induction blocks arbitrary: i node offset t) (auto split: option.splits)

lemma block_key_in_range:
  "offset \<le> length tokens \<Longrightarrow> \<exists>k. block_key tokens offset bs = Some k"
  by (simp add: block_key_def Let_def)

section \<open>What an insertion makes findable\<close>

text \<open>\<open>t'\<close> extends \<open>t\<close>: same block size, the old nodes keep their blocks and their child links.\<close>

definition extends :: "radix_tree \<Rightarrow> radix_tree \<Rightarrow> bool" where
  "extends t t' \<longleftrightarrow> rt_block_size t' = rt_block_size t \<and> rt_root t' = rt_root t \<and> nn t \<le> nn t'
     \<and> (\<forall>i < nn t. rn_block_id (nd t' i) = rn_block_id (nd t i)
          \<and> (\<forall>k c. child_at t i k = Some c \<longrightarrow> child_at t' i k = Some c))"

lemma extends_refl [simp]: "extends t t"
  by (simp add: extends_def)

lemma extends_trans: "extends t u \<Longrightarrow> extends u v \<Longrightarrow> extends t v"
  unfolding extends_def by force

lemma extends_shape: "shape t' = shape t \<Longrightarrow> extends t t'"
proof -
  assume s: "shape t' = shape t"
  show ?thesis
    unfolding extends_def
    using shape_nth [OF s] child_at_shape [OF s] by simp
qed

lemma extends_push_child:
  "node < nn t \<Longrightarrow> child_at t node key = None \<Longrightarrow> extends t (push_child now t node key off bid)"
  by (simp add: extends_def push_child_simps child_at_def map_of_update_eq)

lemma insert_loop_extends:
  "rt_wf t \<Longrightarrow> node < nn t \<Longrightarrow> insert_loop now tokens blocks node offset t = (r, t')
    \<Longrightarrow> extends t t'"
proof (induction blocks arbitrary: node offset t)
  case Nil
  then show ?case by simp
next
  case (Cons bid bids)
  show ?case
  proof (cases "block_key tokens offset (rt_block_size t)")
    case None
    with Cons.prems show ?thesis by simp
  next
    case (Some key)
    show ?thesis
    proof (cases "child_at t node key")
      case None
      let ?u = "push_child now t node key offset bid"
      have "extends ?u t'"
        using Cons.prems Some None rt_wf_push_child [OF Cons.prems(1,2) None]
        by (intro Cons.IH [of ?u "nn t"]) (auto simp: push_child_simps)
      with extends_push_child [OF Cons.prems(2) None] show ?thesis by (rule extends_trans)
    next
      case c: (Some child)
      let ?u = "bump_ref child t"
      have "extends ?u t'"
        using Cons.prems Some c rt_wf_child_at [OF Cons.prems(1,2) c] rt_wf_shape [of ?u t]
        by (intro Cons.IH [of ?u child]) auto
      with extends_shape [of ?u t] show ?thesis by (auto intro: extends_trans)
    qed
  qed
qed

text \<open>The nodes a descent from \<open>node\<close> at \<open>offset\<close> visits: the specification of the matching loops.\<close>

function path_nodes :: "radix_tree \<Rightarrow> u32 list \<Rightarrow> nat \<Rightarrow> nat \<Rightarrow> nat list" where
  "path_nodes t tokens node offset =
     (if 0 < rt_block_size t \<and> offset + rt_block_size t \<le> length tokens then
        (case child_at t node (the (block_key tokens offset (rt_block_size t))) of
           Some child \<Rightarrow> child # path_nodes t tokens child (offset + rt_block_size t)
         | None \<Rightarrow> [])
      else [])"
  by pat_completeness auto
termination
  by (relation "measure (\<lambda>(t, tokens, node, offset). length tokens - offset)") auto

declare path_nodes.simps [simp del]

definition path_blocks :: "radix_tree \<Rightarrow> u32 list \<Rightarrow> nat \<Rightarrow> nat \<Rightarrow> nat list" where
  "path_blocks t tokens node offset = map (\<lambda>c. rn_block_id (nd t c)) (path_nodes t tokens node offset)"

lemma match_loop_eq:
  "match_loop t tokens node offset matched deepest =
     (matched @ path_blocks t tokens node offset,
      offset + rt_block_size t * length (path_nodes t tokens node offset),
      foldl (\<lambda>d c. case rn_recurrent_state_id (nd t c) of Some st \<Rightarrow> Some st | None \<Rightarrow> d)
        deepest (path_nodes t tokens node offset))"
proof (induction t tokens node offset matched deepest rule: match_loop.induct)
  case (1 t tokens node offset matched deepest)
  show ?case
  proof (cases "0 < rt_block_size t \<and> offset + rt_block_size t \<le> length tokens")
    case False
    then show ?thesis
      by (subst match_loop.simps, simp only: path_blocks_def path_nodes.simps [of t tokens node offset]
          if_False, simp)
  next
    case guard: True
    show ?thesis
    proof (cases "child_at t node (the (block_key tokens offset (rt_block_size t)))")
      case None
      with guard show ?thesis
        by (simp add: match_loop.simps [of t tokens node] path_blocks_def
            path_nodes.simps [of t tokens node])
    next
      case (Some child)
      with guard show ?thesis
        by (subst match_loop.simps)
          (simp add: "1.IH" [OF guard Some] path_blocks_def path_nodes.simps [of t tokens node])
    qed
  qed
qed

lemma rt_match_prefix_eq:
  "rt_match_prefix t tokens =
     (path_blocks t tokens (rt_root t) 0,
      rt_block_size t * length (path_nodes t tokens (rt_root t) 0))"
  by (simp add: rt_match_prefix_def match_prefix_with_anchor_def match_loop_eq)

lemma length_path_blocks [simp]:
  "length (path_blocks t tokens node offset) = length (path_nodes t tokens node offset)"
  by (simp add: path_blocks_def)

lemma length_path_nodes_le:
  "rt_block_size t * length (path_nodes t tokens node offset) \<le> length tokens - offset"
proof (induction t tokens node offset rule: path_nodes.induct)
  case (1 t tokens node offset)
  note unfold1 = path_nodes.simps [of t tokens node offset]
  show ?case
  proof (cases "0 < rt_block_size t \<and> offset + rt_block_size t \<le> length tokens")
    case guard: True
    show ?thesis
    proof (cases "child_at t node (the (block_key tokens offset (rt_block_size t)))")
      case (Some child)
      define L where "L = rt_block_size t
        * length (path_nodes t tokens child (offset + rt_block_size t))"
      have "L \<le> length tokens - (offset + rt_block_size t)"
        using "1.IH" [OF guard Some] by (simp add: L_def)
      with guard have "rt_block_size t + L \<le> length tokens - offset" by linarith
      with guard Some show ?thesis by (simp add: unfold1 L_def)
    qed (simp add: unfold1)
  qed (auto simp: unfold1)
qed

lemma path_nodes_in_range:
  "rt_wf t \<Longrightarrow> node < nn t \<Longrightarrow> c \<in> set (path_nodes t tokens node offset) \<Longrightarrow> c < nn t \<and> 0 < c"
proof (induction t tokens node offset rule: path_nodes.induct)
  case (1 t tokens node offset)
  let ?key = "the (block_key tokens offset (rt_block_size t))"
  note unfold1 = path_nodes.simps [of t tokens node offset]
  have guard: "0 < rt_block_size t \<and> offset + rt_block_size t \<le> length tokens"
    using "1.prems"(3) unfold1 by (metis empty_iff list.set(1))
  then obtain child where child: "child_at t node ?key = Some child"
    using "1.prems"(3) by (cases "child_at t node ?key") (simp_all add: unfold1)
  have c: "c = child \<or> c \<in> set (path_nodes t tokens child (offset + rt_block_size t))"
    using "1.prems"(3) guard child by (simp add: unfold1)
  have r: "child < nn t" "0 < child"
    using rt_wf_child_at [OF "1.prems"(1,2) child] by auto
  from c show ?case using r "1.IH" [OF guard child "1.prems"(1) r(1)] by auto
qed

lemma path_nodes_cong:
  assumes bs: "rt_block_size t' = rt_block_size t"
    and same: "\<And>i key. i < nn t \<Longrightarrow> child_at t' i key = child_at t i key"
    and wf: "rt_wf t"
  shows "node < nn t \<Longrightarrow> path_nodes t' tokens node offset = path_nodes t tokens node offset"
proof (induction "length tokens - offset" arbitrary: node offset rule: less_induct)
  case less
  show ?case
  proof (cases "0 < rt_block_size t \<and> offset + rt_block_size t \<le> length tokens")
    case False
    then show ?thesis
      by (auto simp: bs path_nodes.simps [of t' tokens node] path_nodes.simps [of t tokens node])
  next
    case guard: True
    let ?key = "the (block_key tokens offset (rt_block_size t))"
    show ?thesis
    proof (cases "child_at t node ?key")
      case None
      then show ?thesis using same [OF less.prems, of ?key]
        by (simp add: bs path_nodes.simps [of t' tokens node] path_nodes.simps [of t tokens node])
    next
      case (Some child)
      have "path_nodes t' tokens child (offset + rt_block_size t)
          = path_nodes t tokens child (offset + rt_block_size t)"
        using guard rt_wf_child_at [OF wf less.prems Some] by (intro less.hyps) auto
      then show ?thesis using Some same [OF less.prems, of ?key]
        by (simp add: bs path_nodes.simps [of t' tokens node] path_nodes.simps [of t tokens node])
    qed
  qed
qed

lemma path_blocks_shape:
  assumes s: "shape t' = shape t" and wf: "rt_wf t" and n: "node < nn t"
  shows "path_blocks t' tokens node offset = path_blocks t tokens node offset"
proof -
  have p: "path_nodes t' tokens node offset = path_nodes t tokens node offset"
    by (rule path_nodes_cong [OF shape_nth(3) [OF s] child_at_shape [OF s] wf n])
  have "rn_block_id (nd t' c) = rn_block_id (nd t c)" if "c \<in> set (path_nodes t tokens node offset)" for c
    using path_nodes_in_range [OF wf n that] shape_nth(5) [OF s] by blast
  then show ?thesis by (simp add: path_blocks_def p)
qed

lemma path_blocks_step:
  assumes "0 < rt_block_size t" "offset + rt_block_size t \<le> length tokens"
    and "block_key tokens offset (rt_block_size t) = Some key" and "child_at t node key = Some child"
  shows "path_blocks t tokens node offset
     = rn_block_id (nd t child) # path_blocks t tokens child (offset + rt_block_size t)"
  using assms by (simp add: path_blocks_def path_nodes.simps [of t tokens node])

lemma path_blocks_fresh:
  "rn_children (nd t node) = [] \<Longrightarrow> path_blocks t tokens node offset = []"
  by (simp add: path_blocks_def path_nodes.simps [of t tokens node] child_at_def)

lemma path_blocks_stop:
  assumes "child_at t node key = None" "block_key tokens offset (rt_block_size t) = Some key"
  shows "path_blocks t tokens node offset = []"
  using assms by (simp add: path_blocks_def path_nodes.simps [of t tokens node])

text \<open>
  The law an insertion establishes: below \<open>node\<close>, the first \<open>k\<close> matched blocks are the ones that
  matched before, continued by the caller's blocks.
\<close>

lemma insert_loop_path:
  assumes "rt_wf t" and "node < nn t" and "0 < rt_block_size t"
    and "insert_loop now tokens blocks node offset t = (Ok (), t')"
    and "k \<le> length blocks" and "offset + k * rt_block_size t \<le> length tokens"
  shows "take k (path_blocks t' tokens node offset)
    = take k (path_blocks t tokens node offset @ drop (length (path_blocks t tokens node offset)) blocks)"
    (is "?L = _")
    and "k \<le> length (path_blocks t' tokens node offset)"
proof -
  have "take k (path_blocks t' tokens node offset)
      = take k (path_blocks t tokens node offset @ drop (length (path_blocks t tokens node offset)) blocks)
      \<and> k \<le> length (path_blocks t' tokens node offset)"
    using assms
  proof (induction blocks arbitrary: node offset t k)
    case Nil
    then show ?case by simp
  next
    case (Cons bid bids)
    show ?case
    proof (cases k)
      case 0
      then show ?thesis by simp
    next
      case k: (Suc k')
      let ?bs = "rt_block_size t"
      have room: "offset + ?bs \<le> length tokens" using Cons.prems(6) k by simp
      obtain key where key: "block_key tokens offset ?bs = Some key"
        using block_key_in_range [of offset tokens ?bs] room by auto
      have rest: "(offset + ?bs) + k' * ?bs \<le> length tokens" using Cons.prems(6) k by simp
      have k': "k' \<le> length bids" using Cons.prems(5) k by simp
      show ?thesis
      proof (cases "child_at t node key")
        case None
        let ?u = "push_child now t node key offset bid"
        note ps = push_child_simps [where now = now and t = t and node = node and key = key
            and off = offset and bid = bid]
        have wf: "rt_wf ?u" by (rule rt_wf_push_child [OF Cons.prems(1,2) None])
        have l: "nn t < nn ?u" by (simp add: ps)
        have run: "insert_loop now tokens bids (nn t) (offset + ?bs) ?u = (Ok (), t')"
          using Cons.prems(4) key None by simp
        have ext: "extends ?u t'" by (rule insert_loop_extends [OF wf l run])
        have link: "child_at ?u node key = Some (nn t)"
          using Cons.prems(2) by (simp add: child_at_def ps map_of_update_eq)
        have link': "child_at t' node key = Some (nn t)"
          using ext link Cons.prems(2) by (simp add: extends_def ps)
        have b: "rn_block_id (nd t' (nn t)) = bid"
          using ext l Cons.prems(2) by (simp add: extends_def ps)
        have bs': "rt_block_size t' = ?bs" using ext by (simp add: extends_def)
        have nil: "path_blocks t tokens node offset = []" by (rule path_blocks_stop [OF None key])
        have "path_blocks ?u tokens (nn t) (offset + ?bs) = []"
          by (rule path_blocks_fresh) (simp add: ps Cons.prems(2))
        then have "take k' (path_blocks t' tokens (nn t) (offset + ?bs)) = take k' bids
            \<and> k' \<le> length (path_blocks t' tokens (nn t) (offset + ?bs))"
          using Cons.IH [OF wf l _ run k'] Cons.prems(3) rest by simp
        then show ?thesis
          using path_blocks_step [of t' offset tokens key node "nn t"] Cons.prems(3) room key link'
          by (simp add: bs' b k nil)
      next
        case c: (Some child)
        let ?u = "bump_ref child t"
        have r: "child < nn t" using rt_wf_child_at [OF Cons.prems(1,2) c] by simp
        have s: "shape ?u = shape t" by simp
        have wf: "rt_wf ?u" by (rule rt_wf_shape [OF s Cons.prems(1)])
        have run: "insert_loop now tokens bids child (offset + ?bs) ?u = (Ok (), t')"
          using Cons.prems(4) key c by simp
        have ext: "extends ?u t'" by (rule insert_loop_extends [OF wf _ run]) (simp add: r)
        have "extends t t'" by (rule extends_trans [OF extends_shape [OF s] ext])
        then have link': "child_at t' node key = Some child" and bs': "rt_block_size t' = ?bs"
          and b: "rn_block_id (nd t' child) = rn_block_id (nd t child)"
          using c Cons.prems(2) r by (simp_all add: extends_def)
        have old: "path_blocks ?u tokens child (offset + ?bs) = path_blocks t tokens child (offset + ?bs)"
          by (rule path_blocks_shape [OF s Cons.prems(1) r])
        have "take k' (path_blocks t' tokens child (offset + ?bs))
            = take k' (path_blocks t tokens child (offset + ?bs)
                @ drop (length (path_blocks t tokens child (offset + ?bs))) bids)
            \<and> k' \<le> length (path_blocks t' tokens child (offset + ?bs))"
          using Cons.IH [OF wf _ _ run k'] Cons.prems(3) rest r by (simp add: old)
        then show ?thesis
          using path_blocks_step [of t' offset tokens key node child]
            path_blocks_step [of t offset tokens key node child] Cons.prems(3) room key link' c
          by (simp add: bs' b k)
      qed
    qed
  qed
  then show "?L = take k (path_blocks t tokens node offset
      @ drop (length (path_blocks t tokens node offset)) blocks)"
    and "k \<le> length (path_blocks t' tokens node offset)" by auto
qed

section \<open>Eviction\<close>

text \<open>\<open>i\<close> hangs under its parent.\<close>

definition linked :: "radix_tree \<Rightarrow> nat \<Rightarrow> bool" where
  "linked t i \<longleftrightarrow> 0 < i \<and> i < nn t
     \<and> (\<exists>p. rn_parent (nd t i) = Some p \<and> i \<in> snd ` set (rn_children (nd t p)))"

text \<open>The reverse map holds exactly the linked nodes, and only linked nodes have children.\<close>

definition rt_tight :: "radix_tree \<Rightarrow> bool" where
  "rt_tight t \<longleftrightarrow>
     (\<forall>i. linked t i \<longrightarrow> rt_block_to_node t (rn_block_id (nd t i)) = Some i)
     \<and> (\<forall>b i. rt_block_to_node t b = Some i \<longrightarrow> linked t i)
     \<and> (\<forall>i. 0 < i \<and> i < nn t \<and> rn_children (nd t i) \<noteq> [] \<longrightarrow> linked t i)"

lemma rt_tight_new: "rt_tight (rt_new now bs)"
  by (auto simp: rt_tight_def linked_def rt_new_def)

lemma parent_linked:
  assumes "rt_tight t" and l: "linked t n" and p: "rn_parent (nd t n) = Some p" and "p < n"
  shows "p = 0 \<or> linked t p"
proof -
  have "n \<in> snd ` set (rn_children (nd t p))" and "n < nn t" using l p by (auto simp: linked_def)
  then have ne: "rn_children (nd t p) \<noteq> []" and lt: "p < nn t" using \<open>p < n\<close> by auto
  have "0 < p \<and> p < nn t \<and> rn_children (nd t p) \<noteq> [] \<longrightarrow> linked t p"
    using assms(1) [unfolded rt_tight_def, THEN conjunct2, THEN conjunct2] by (rule spec)
  with ne lt show ?thesis by auto
qed

lemma linked_shape:
  assumes s: "shape t' = shape t" and wf: "rt_wf t"
  shows "linked t' i = linked t i"
proof (cases "0 < i \<and> i < nn t")
  case True
  have "rn_children (nd t' p) = rn_children (nd t p)" if "rn_parent (nd t i) = Some p" for p
  proof -
    have "p < i" using wf True that unfolding rt_wf_def by (auto split: option.splits)
    with True show ?thesis using shape_nth(6) [OF s, of p] by simp
  qed
  with True show ?thesis
    using shape_nth(1) [OF s] shape_nth(7) [OF s, of i] by (simp add: linked_def cong: conj_cong)
next
  case False
  then show ?thesis using shape_nth(1) [OF s] by (auto simp: linked_def)
qed

lemma rt_tight_shape:
  assumes s: "shape t' = shape t" and wf: "rt_wf t" and tight: "rt_tight t"
  shows "rt_tight t'"
proof -
  note sh = shape_nth [OF s]
  have bid: "rn_block_id (nd t' i) = rn_block_id (nd t i)" if "linked t i" for i
    using that sh(5) by (simp add: linked_def)
  show ?thesis
    using tight bid sh(6)
    unfolding rt_tight_def linked_shape [OF s wf] sh(1,4) by auto
qed

lemma find_child_key:
  assumes "n \<in> snd ` set cs" and "distinct (map snd cs)"
  shows "\<exists>k. key_of_child cs n = Some k \<and> (k, n) \<in> set cs"
proof -
  obtain k where "(k, n) \<in> set cs" using assms(1) by auto
  then obtain p where p: "find (\<lambda>(_, v). v = n) cs = Some p"
    by (cases "find (\<lambda>(_, v). v = n) cs") (auto simp: find_None_iff)
  then have "p \<in> set cs" and "snd p = n" by (force simp: find_Some_iff in_set_conv_nth)+
  with p show ?thesis by (auto simp: key_of_child_def)
qed

lemma set_delete_child:
  assumes "(k, n) \<in> set cs" "distinct (map fst cs)" "distinct (map snd cs)"
  shows "set (AList.delete k cs) = {(k', c) \<in> set cs. c \<noteq> n}"
proof -
  have "k' = k \<longleftrightarrow> c = n" if "(k', c) \<in> set cs" for k' c
  proof -
    have "inj_on fst (set cs)" "inj_on snd (set cs)" using assms(2,3) by (simp_all add: distinct_map)
    with assms(1) that show ?thesis by (auto dest: inj_onD [of fst _ "(k, n)" "(k', c)"]
        inj_onD [of snd _ "(k, n)" "(k', c)"])
  qed
  then show ?thesis by (auto simp: AList.delete_eq)
qed

text \<open>What detaching a linked, childless node does to the tree.\<close>

lemma unlink_simps:
  assumes wf: "rt_wf t" and n: "n < nn t" and p: "rn_parent (nd t n) = Some p"
    and l: "linked t n"
  shows "nn (unlink t p n) = nn t" and "rt_root (unlink t p n) = rt_root t"
    and "rt_block_size (unlink t p n) = rt_block_size t"
    and "rt_block_to_node (unlink t p n) = (rt_block_to_node t)(rn_block_id (nd t n) := None)"
    and "rn_parent (nd (unlink t p n) i) = rn_parent (nd t i)"
    and "rn_block_id (nd (unlink t p n) i) = rn_block_id (nd t i)"
    and "rn_ref_count (nd (unlink t p n) i) = rn_ref_count (nd t i)"
    and "i \<noteq> p \<Longrightarrow> rn_children (nd (unlink t p n) i) = rn_children (nd t i)"
    and "set (rn_children (nd (unlink t p n) p)) = {(k, c) \<in> set (rn_children (nd t p)). c \<noteq> n}"
    and "distinct (map fst (rn_children (nd (unlink t p n) p)))"
    and "distinct (map snd (rn_children (nd (unlink t p n) p)))"
proof -
  have pl: "p < nn t" using wf n p unfolding rt_wf_def by (auto split: option.splits)
  have d: "distinct (map fst (rn_children (nd t p)))" "distinct (map snd (rn_children (nd t p)))"
    using wf pl by (auto simp: rt_wf_def)
  have "n \<in> snd ` set (rn_children (nd t p))" using l p by (auto simp: linked_def)
  then obtain k where k: "key_of_child (rn_children (nd t p)) n = Some k"
    and kn: "(k, n) \<in> set (rn_children (nd t p))"
    using find_child_key d(2) by blast
  have u: "unlink t p n = (upd_node p (\<lambda>m. m\<lparr>rn_children := AList.delete k (rn_children m)\<rparr>) t)
      \<lparr>rt_block_to_node := (rt_block_to_node t)(rn_block_id (nd t n) := None)\<rparr>"
    by (simp add: unlink_def k Let_def upd_node_def)
  show "nn (unlink t p n) = nn t" "rt_root (unlink t p n) = rt_root t"
    "rt_block_size (unlink t p n) = rt_block_size t"
    "rt_block_to_node (unlink t p n) = (rt_block_to_node t)(rn_block_id (nd t n) := None)"
    "rn_parent (nd (unlink t p n) i) = rn_parent (nd t i)"
    "rn_block_id (nd (unlink t p n) i) = rn_block_id (nd t i)"
    "rn_ref_count (nd (unlink t p n) i) = rn_ref_count (nd t i)"
    "i \<noteq> p \<Longrightarrow> rn_children (nd (unlink t p n) i) = rn_children (nd t i)"
    using pl by (simp_all add: u upd_node_def nth_list_update)
  have ch: "rn_children (nd (unlink t p n) p) = AList.delete k (rn_children (nd t p))"
    using pl by (simp add: u upd_node_def)
  show "set (rn_children (nd (unlink t p n) p)) = {(k, c) \<in> set (rn_children (nd t p)). c \<noteq> n}"
    unfolding ch by (rule set_delete_child [OF kn d])
  show "distinct (map fst (rn_children (nd (unlink t p n) p)))"
    unfolding ch using d(1) by (rule AList.distinct_delete)
  show "distinct (map snd (rn_children (nd (unlink t p n) p)))"
    unfolding ch using d(2) by (auto simp: AList.delete_eq distinct_map inj_on_def)
qed

lemma rt_wf_unlink:
  assumes wf: "rt_wf t" and n: "n < nn t" and p: "rn_parent (nd t n) = Some p" and l: "linked t n"
  shows "rt_wf (unlink t p n)" (is "rt_wf ?t")
proof -
  note us = unlink_simps [OF wf n p l]
  have par: "\<forall>i < nn ?t. case rn_parent (nd ?t i) of None \<Rightarrow> i = 0 | Some q \<Rightarrow> q < i"
    using wf unfolding rt_wf_def by (simp add: us(1,5))
  have ch: "distinct (map fst (rn_children (nd ?t i))) \<and> distinct (map snd (rn_children (nd ?t i)))
      \<and> (\<forall>(k, c) \<in> set (rn_children (nd ?t i)). c < nn ?t \<and> rn_parent (nd ?t c) = Some i)"
    if i: "i < nn ?t" for i
  proof (cases "i = p")
    case True
    have "c < nn t \<and> rn_parent (nd t c) = Some p" if "(k, c) \<in> set (rn_children (nd t p))" for k c
      using rt_wf_child [OF wf _ that] i True us(1) by simp
    then show ?thesis using us(10,11) by (auto simp: us(1,5,9) True)
  next
    case False
    with i wf show ?thesis unfolding rt_wf_def by (simp add: us(1,5) us(8) [OF False])
  qed
  have b2n: "\<forall>b i. rt_block_to_node ?t b = Some i \<longrightarrow> 0 < i \<and> i < nn ?t \<and> rn_block_id (nd ?t i) = b"
    using wf unfolding rt_wf_def by (auto simp: us(1,4,6))
  have "rt_root ?t = 0" "0 < nn ?t" using wf by (simp_all add: rt_wf_def us(1,2))
  then show ?thesis unfolding rt_wf_def using par ch b2n by (intro conjI allI impI) (assumption | simp)+
qed

lemma linked_unlink:
  assumes wf: "rt_wf t" and n: "n < nn t" and p: "rn_parent (nd t n) = Some p" and l: "linked t n"
  shows "linked (unlink t p n) i \<longleftrightarrow> linked t i \<and> i \<noteq> n"
proof -
  note us = unlink_simps [OF wf n p l]
  have "i \<in> snd ` set (rn_children (nd (unlink t p n) q)) \<longleftrightarrow>
      i \<in> snd ` set (rn_children (nd t q)) \<and> (q = p \<longrightarrow> i \<noteq> n)" for q
    by (cases "q = p") (force simp: us(8,9))+
  then show ?thesis using p by (auto simp: linked_def us(1,5))
qed

lemma rt_tight_unlink:
  assumes wf: "rt_wf t" and n: "n < nn t" and p: "rn_parent (nd t n) = Some p" and l: "linked t n"
    and tight: "rt_tight t" and childless: "rn_children (nd t n) = []"
  shows "rt_tight (unlink t p n)"
proof -
  note us = unlink_simps [OF wf n p l]
  note lu = linked_unlink [OF wf n p l]
  have pn: "p \<noteq> n" using wf n p unfolding rt_wf_def by (auto split: option.splits)
  have m: "rt_block_to_node t (rn_block_id (nd t i)) = Some i" if "linked t i" for i
    using tight that by (simp add: rt_tight_def)
  have 1: "rt_block_to_node (unlink t p n) (rn_block_id (nd (unlink t p n) i)) = Some i"
    if "linked t i" "i \<noteq> n" for i
    using m [OF that(1)] m [OF l] that(2) by (auto simp: us(4,6))
  have 2: "linked t i \<and> i \<noteq> n" if "rt_block_to_node (unlink t p n) b = Some i" for b i
  proof -
    have "rt_block_to_node t b = Some i" "b \<noteq> rn_block_id (nd t n)"
      using that by (auto simp: us(4) split: if_splits)
    moreover from this have "linked t i" using tight by (auto simp: rt_tight_def)
    ultimately show ?thesis using wf by (auto simp: rt_wf_def)
  qed
  have 3: "linked t i \<and> i \<noteq> n"
    if i: "0 < i" "i < nn t" and ne: "rn_children (nd (unlink t p n) i) \<noteq> []" for i
  proof -
    have "rn_children (nd t i) \<noteq> []"
    proof (cases "i = p")
      case True
      from ne obtain x where "x \<in> set (rn_children (nd (unlink t p n) i))" by (meson list.set_sel(1))
      with True us(9) show ?thesis by auto
    next
      case False
      with ne us(8) show ?thesis by simp
    qed
    with tight i childless show ?thesis by (auto simp: rt_tight_def)
  qed
  show ?thesis unfolding rt_tight_def lu using 1 2 3 us(1) by auto
qed

text \<open>Running out of fuel is impossible: each step goes to a parent, which has a smaller index.\<close>

lemma walk_up_enough_fuel:
  assumes "rt_wf t" and "rt_tight t" and "n < nn t" and "n = 0 \<or> linked t n" and "n < fuel"
  shows "\<exists>r. walk_up fuel t idx n detached = Some r"
  using assms
proof (induction fuel arbitrary: t n detached)
  case 0
  then show ?case by simp
next
  case (Suc fuel)
  show ?case
  proof (cases "n \<noteq> rt_root t \<and> rn_children (nd t n) = []")
    case False
    then show ?thesis by (auto simp: Let_def)
  next
    case go: True
    have root: "rt_root t = 0" using Suc.prems(1) by (simp add: rt_wf_def)
    with go Suc.prems(4) have l: "linked t n" by simp
    then obtain p where p: "rn_parent (nd t n) = Some p" by (auto simp: linked_def)
    have pn: "p < n" using Suc.prems(1,3) p unfolding rt_wf_def by (auto split: option.splits)
    note us = unlink_simps [OF Suc.prems(1,3) p l]
    have lp: "p = 0 \<or> linked t p"
      by (rule parent_linked [OF Suc.prems(2) l p pn])
    have "\<exists>r. walk_up fuel (unlink t p n) idx p d = Some r" for d
      using rt_wf_unlink [OF Suc.prems(1,3) p l]
        rt_tight_unlink [OF Suc.prems(1,3) p l Suc.prems(2)] go pn Suc.prems(3,5) us(1)
        lp linked_unlink [OF Suc.prems(1,3) p l, of p]
      by (intro Suc.IH) auto
    with go p show ?thesis by (simp add: Let_def)
  qed
qed

text \<open>
  The walk keeps both invariants; every block it appends was mapped and is no longer, no block
  is appended twice, and nothing else leaves the reverse map.
\<close>

lemma walk_up_spec:
  assumes "rt_wf t" and "rt_tight t" and "n < nn t" and "n = 0 \<or> linked t n" and "n < idx"
    and "walk_up fuel t idx n detached = Some (chain, t')"
  shows "rt_wf t' \<and> rt_tight t' \<and> nn t' = nn t \<and> rt_block_size t' = rt_block_size t
    \<and> (\<exists>ext. chain = detached @ ext \<and> distinct ext \<and> set ext \<subseteq> dom (rt_block_to_node t)
         \<and> rt_block_to_node t' = (rt_block_to_node t) |` (- set ext))"
  using assms
proof (induction fuel arbitrary: t n detached)
  case 0
  then show ?case by simp
next
  case (Suc fuel)
  show ?case
  proof (cases "n \<noteq> rt_root t \<and> rn_children (nd t n) = []")
    case False
    with Suc.prems show ?thesis by (auto simp: Let_def)
  next
    case go: True
    have root: "rt_root t = 0" using Suc.prems(1) by (simp add: rt_wf_def)
    with go Suc.prems(4) have l: "linked t n" by simp
    then obtain p where p: "rn_parent (nd t n) = Some p" by (auto simp: linked_def)
    have pn: "p < n" using Suc.prems(1,3) p unfolding rt_wf_def by (auto split: option.splits)
    note us = unlink_simps [OF Suc.prems(1,3) p l]
    let ?b = "rn_block_id (nd t n)" and ?u = "unlink t p n"
    have lp: "p = 0 \<or> linked t p"
      by (rule parent_linked [OF Suc.prems(2) l p pn])
    have run: "walk_up fuel ?u idx p (detached @ [?b]) = Some (chain, t')"
      using Suc.prems(5,6) go p by (simp add: Let_def)
    have "rt_wf t' \<and> rt_tight t' \<and> nn t' = nn ?u \<and> rt_block_size t' = rt_block_size ?u
      \<and> (\<exists>ext. chain = (detached @ [?b]) @ ext \<and> distinct ext
           \<and> set ext \<subseteq> dom (rt_block_to_node ?u)
           \<and> rt_block_to_node t' = (rt_block_to_node ?u) |` (- set ext))"
      using rt_wf_unlink [OF Suc.prems(1,3) p l]
        rt_tight_unlink [OF Suc.prems(1,3) p l Suc.prems(2)] go pn Suc.prems(3,5) us(1)
        lp linked_unlink [OF Suc.prems(1,3) p l, of p]
      by (intro Suc.IH [OF _ _ _ _ _ run]) auto
    then obtain ext where e: "rt_wf t'" "rt_tight t'" "nn t' = nn t" "rt_block_size t' = rt_block_size t"
      "chain = detached @ (?b # ext)" "distinct ext" "set ext \<subseteq> dom (rt_block_to_node ?u)"
      "rt_block_to_node t' = (rt_block_to_node ?u) |` (- set ext)"
      by (auto simp: us(1,3))
    have b: "rt_block_to_node t ?b = Some n" using Suc.prems(2) l by (simp add: rt_tight_def)
    have "rt_block_to_node t' = (rt_block_to_node t) |` (- set (?b # ext))"
      unfolding e(8) us(4) by (auto simp: restrict_map_def fun_eq_iff)
    moreover have "?b \<notin> set ext" "set ext \<subseteq> dom (rt_block_to_node t)"
      using e(7) by (auto simp: us(4) split: if_splits)
    ultimately show ?thesis using e b by (intro conjI exI [of _ "?b # ext"]) auto
  qed
qed

lemma coldest_candidate_Some:
  assumes "coldest_candidate now t = Some (idx, n)"
  shows "idx < nn t" and "n = nd t idx" and "evictable now t (idx, n)"
    and "\<forall>j < nn t. evictable now t (j, nd t j) \<longrightarrow> rn_last_access n \<le> rn_last_access (nd t j)"
proof -
  have s: "(idx, n) \<in> set (enumerate 0 (rt_nodes t))"
    "evictable now t (idx, n)"
    "\<forall>x \<in> set (enumerate 0 (rt_nodes t)). evictable now t x
        \<longrightarrow> (case (idx, n) of (_, n) \<Rightarrow> rn_last_access n) \<le> (case x of (_, n) \<Rightarrow> rn_last_access n)"
    using scan_min_Some [OF assms [unfolded coldest_candidate_def]] by auto
  show "idx < nn t" "n = nd t idx" using s(1) by (auto simp: in_set_enumerate_eq)
  show "evictable now t (idx, n)" by (rule s(2))
  show "\<forall>j < nn t. evictable now t (j, nd t j) \<longrightarrow> rn_last_access n \<le> rn_last_access (nd t j)"
    using s(3) by (force simp: in_set_enumerate_eq)
qed

lemma evict_coldest_chain_spec:
  assumes wf: "rt_wf t" and tight: "rt_tight t"
    and run: "rt_evict_coldest_chain now t = Some (chain, t')"
  shows "rt_wf t' \<and> rt_tight t' \<and> nn t' = nn t \<and> rt_block_size t' = rt_block_size t \<and> distinct chain
     \<and> set chain \<subseteq> dom (rt_block_to_node t)
     \<and> rt_block_to_node t' = (rt_block_to_node t) |` (- set chain)"
proof (cases "coldest_candidate now t")
  case None
  with run wf tight show ?thesis
    by (auto simp: rt_evict_coldest_chain_def restrict_map_def fun_eq_iff)
next
  case (Some c)
  obtain idx n where c: "c = (idx, n)" by (cases c)
  note cand = coldest_candidate_Some [OF Some [unfolded c]]
  let ?b = "rn_block_id (nd t idx)"
  have ev: "idx \<noteq> rt_root t" "rt_block_to_node t ?b = Some idx" "rn_children (nd t idx) = []"
    using cand(3) by (auto simp: evictable_def cand(2))
  have l: "linked t idx" using tight ev(2) by (auto simp: rt_tight_def)
  then obtain p where p: "rn_parent (nd t idx) = Some p" by (auto simp: linked_def)
  have pn: "p < idx" using wf cand(1) p unfolding rt_wf_def by (auto split: option.splits)
  note us = unlink_simps [OF wf cand(1) p l]
  let ?u = "unlink t p idx"
  have lp: "p = 0 \<or> linked t p"
    by (rule parent_linked [OF tight l p pn])
  have run': "walk_up (nn t) ?u idx p [?b] = Some (chain, t')"
    using run ev p by (simp add: rt_evict_coldest_chain_def Some c Let_def)
  have "rt_wf t' \<and> rt_tight t' \<and> nn t' = nn ?u \<and> rt_block_size t' = rt_block_size ?u
    \<and> (\<exists>ext. chain = [?b] @ ext \<and> distinct ext \<and> set ext \<subseteq> dom (rt_block_to_node ?u)
         \<and> rt_block_to_node t' = (rt_block_to_node ?u) |` (- set ext))"
    using rt_wf_unlink [OF wf cand(1) p l] rt_tight_unlink [OF wf cand(1) p l tight ev(3)]
      lp linked_unlink [OF wf cand(1) p l, of p] pn cand(1) us(1)
    by (intro walk_up_spec [OF _ _ _ _ _ run']) auto
  then obtain ext where e: "rt_wf t'" "rt_tight t'" "nn t' = nn t" "rt_block_size t' = rt_block_size t"
    "chain = ?b # ext" "distinct ext" "set ext \<subseteq> dom (rt_block_to_node ?u)"
    "rt_block_to_node t' = (rt_block_to_node ?u) |` (- set ext)"
    by (auto simp: us(1,3))
  have "rt_block_to_node t' = (rt_block_to_node t) |` (- set chain)"
    unfolding e(8) us(4) e(5) by (auto simp: restrict_map_def fun_eq_iff)
  moreover have "?b \<notin> set ext" "set ext \<subseteq> dom (rt_block_to_node t)"
    using e(7) by (auto simp: us(4) split: if_splits)
  ultimately show ?thesis using e ev(2) by auto
qed

lemma walk_up_extends:
  "walk_up fuel t idx n detached = Some (chain, t') \<Longrightarrow> \<exists>ext. chain = detached @ ext"
proof (induction fuel t idx n detached rule: walk_up.induct)
  case (1 t idx n detached)
  then show ?case by simp
next
  case (2 fuel t idx n detached)
  show ?case
  proof (cases "n \<noteq> rt_root t \<and> rn_children (nd t n) = [] \<and> rn_parent (nd t n) \<noteq> None")
    case True
    then obtain p where p: "rn_parent (nd t n) = Some p" by auto
    from 2 True p have "\<exists>ext. chain = (if n \<noteq> idx then detached @ [rn_block_id (nd t n)] else detached) @ ext"
      by (simp add: Let_def)
    then show ?thesis by (auto split: if_splits)
  next
    case False
    then show ?thesis using 2(2) by (auto simp: Let_def split: if_splits option.splits)
  qed
qed

text \<open>The chain starts at the least recently used of the evictable leaves.\<close>

lemma evict_coldest_chain_hd:
  assumes "rt_evict_coldest_chain now t = Some (chain, t')" and "chain \<noteq> []"
  shows "\<exists>idx < nn t. hd chain = rn_block_id (nd t idx) \<and> evictable now t (idx, nd t idx)
    \<and> (\<forall>j < nn t. evictable now t (j, nd t j) \<longrightarrow> rn_last_access (nd t idx) \<le> rn_last_access (nd t j))"
proof -
  obtain idx n where c: "coldest_candidate now t = Some (idx, n)"
    using assms by (cases "coldest_candidate now t") (auto simp: rt_evict_coldest_chain_def)
  then obtain ext where "chain = [rn_block_id (nd t idx)] @ ext"
    using assms walk_up_extends by (fastforce simp: rt_evict_coldest_chain_def simp del: walk_up.simps)
  with coldest_candidate_Some [OF c] show ?thesis by auto
qed

lemma evict_coldest_chain_none:
  "rt_evict_coldest_chain now t = Some ([], t') \<Longrightarrow> coldest_candidate now t = None"
  using walk_up_extends
  by (fastforce simp: rt_evict_coldest_chain_def simp del: walk_up.simps split: option.splits)

lemma evict_coldest_chain_total:
  assumes "rt_wf t" and "rt_tight t"
  shows "\<exists>r. rt_evict_coldest_chain now t = Some r"
proof (cases "coldest_candidate now t")
  case None
  then show ?thesis by (simp add: rt_evict_coldest_chain_def)
next
  case (Some c)
  obtain idx n where c: "c = (idx, n)" by (cases c)
  note cand = coldest_candidate_Some [OF Some [unfolded c]]
  have "linked t idx" using assms(2) cand(2,3) by (auto simp: rt_tight_def evictable_def)
  then show ?thesis
    using walk_up_enough_fuel [OF assms cand(1), of "Suc (nn t)"] cand(1)
    by (simp add: rt_evict_coldest_chain_def Some c del: walk_up.simps)
qed

section \<open>Insertion and the reverse map\<close>

text \<open>How many leading blocks of an insertion reuse an existing node.\<close>

fun reused :: "radix_tree \<Rightarrow> u32 list \<Rightarrow> nat list \<Rightarrow> nat \<Rightarrow> nat \<Rightarrow> nat" where
  "reused t tokens [] node offset = 0"
| "reused t tokens (bid # bids) node offset =
     (case block_key tokens offset (rt_block_size t) of
        None \<Rightarrow> 0
      | Some key \<Rightarrow>
          (case child_at t node key of
             Some child \<Rightarrow> Suc (reused t tokens bids child (offset + rt_block_size t))
           | None \<Rightarrow> 0))"

text \<open>The blocks an insertion adds nodes for are distinct and not mapped yet.\<close>

definition fresh_tail :: "radix_tree \<Rightarrow> u32 list \<Rightarrow> nat list \<Rightarrow> nat \<Rightarrow> nat \<Rightarrow> bool" where
  "fresh_tail t tokens blocks node offset \<longleftrightarrow>
     (let new = drop (reused t tokens blocks node offset) blocks in
      distinct new \<and> set new \<inter> dom (rt_block_to_node t) = {})"

lemma reused_childless: "rn_children (nd t node) = [] \<Longrightarrow> reused t tokens blocks node offset = 0"
  by (cases blocks) (auto simp: child_at_def split: option.splits)

lemma reused_shape:
  assumes s: "shape t' = shape t" and wf: "rt_wf t"
  shows "node < nn t \<Longrightarrow> reused t' tokens blocks node offset = reused t tokens blocks node offset"
proof (induction blocks arbitrary: node offset)
  case Nil
  then show ?case by simp
next
  case (Cons b bs)
  have c: "child_at t' node key = child_at t node key" for key
    by (rule child_at_shape [OF s Cons.prems])
  show ?case using Cons.IH rt_wf_child_at [OF wf Cons.prems]
    by (auto simp: shape_nth(3) [OF s] c split: option.splits)
qed

lemma rt_tight_push_child:
  assumes wf: "rt_wf t" and tight: "rt_tight t" and node: "node < nn t"
    and pos: "node = 0 \<or> linked t node" and fresh: "child_at t node key = None"
    and new: "rt_block_to_node t bid = None"
  shows "rt_tight (push_child now t node key off bid)"
    and "linked (push_child now t node key off bid) (nn t)"
proof -
  let ?t = "push_child now t node key off bid"
  note ps = push_child_simps [where now = now and t = t and node = node and key = key
      and off = off and bid = bid]
  have upd: "AList.update key (nn t) (rn_children (nd t node)) = rn_children (nd t node) @ [(key, nn t)]"
    using fresh by (simp add: child_at_None_fresh update_new_key_append)
  have par: "p < nn t" if "rn_parent (nd t i) = Some p" "i < nn t" for i p
    using wf that unfolding rt_wf_def by (force split: option.splits)
  have l_old: "linked ?t i \<longleftrightarrow> linked t i" if "i < nn t" for i
  proof -
    have pe: "rn_parent (nd ?t i) = rn_parent (nd t i)" using that node by (simp add: ps(5))
    have ce: "i \<in> snd ` set (rn_children (nd ?t p)) \<longleftrightarrow> i \<in> snd ` set (rn_children (nd t p))"
      if "p < nn t" for p
      using \<open>i < nn t\<close> that node by (cases "p = node") (auto simp: ps(5) upd)
    have "(rn_parent (nd ?t i) = Some p \<and> i \<in> snd ` set (rn_children (nd ?t p))) \<longleftrightarrow>
        (rn_parent (nd t i) = Some p \<and> i \<in> snd ` set (rn_children (nd t p)))" for p
      using pe ce [of p] par [of i p] that by metis
    with that show ?thesis by (simp add: linked_def ps(1))
  qed
  have l_new: "linked ?t (nn t)"
    using node by (auto simp: linked_def ps upd)
  show "linked ?t (nn t)" by (rule l_new)
  have bid_old: "rn_block_id (nd ?t i) = rn_block_id (nd t i)" if "i < nn t" for i
    using that node by (simp add: ps(5))
  have 1: "rt_block_to_node ?t (rn_block_id (nd ?t i)) = Some i" if "linked ?t i" for i
  proof (cases "i = nn t")
    case True
    with node show ?thesis by (simp add: ps)
  next
    case False
    with that have i: "i < nn t" by (simp add: linked_def ps(1))
    with that l_old have "linked t i" by simp
    then have "rt_block_to_node t (rn_block_id (nd t i)) = Some i" using tight by (simp add: rt_tight_def)
    with new i show ?thesis by (auto simp: bid_old ps(4))
  qed
  have 2: "linked ?t i" if "rt_block_to_node ?t b = Some i" for b i
  proof (cases "b = bid")
    case True
    with that l_new show ?thesis by (simp add: ps(4))
  next
    case False
    with that have "rt_block_to_node t b = Some i" by (simp add: ps(4))
    then have "linked t i" using tight by (auto simp: rt_tight_def)
    moreover from this have "i < nn t" by (simp add: linked_def)
    ultimately show ?thesis by (simp add: l_old)
  qed
  have 3: "linked ?t i" if "0 < i" "i < nn ?t" "rn_children (nd ?t i) \<noteq> []" for i
  proof (cases "i = nn t")
    case True
    with l_new show ?thesis by simp
  next
    case False
    with that(2) have i: "i < nn t" by (simp add: ps(1))
    have "linked t i"
    proof (cases "i = node")
      case True
      with pos that(1) show ?thesis by simp
    next
      case False
      with that i node have "rn_children (nd t i) \<noteq> []" by (simp add: ps(5))
      with tight i that(1) show ?thesis by (auto simp: rt_tight_def)
    qed
    with l_old [OF i] show ?thesis by simp
  qed
  show "rt_tight ?t" unfolding rt_tight_def using 1 2 3 by blast
qed

lemma linked_child_at:
  assumes wf: "rt_wf t" and n: "node < nn t" and c: "child_at t node key = Some child"
  shows "linked t child"
  using rt_wf_child_at [OF wf n c] map_of_SomeD [OF c [unfolded child_at_def]]
  by (force simp: linked_def)

lemma insert_at_loop_tight:
  assumes "rt_wf t" and "rt_tight t" and "node < nn t" and "node = 0 \<or> linked t node"
    and "fresh_tail t tokens blocks node offset"
    and "insert_at_loop now tokens blocks i skip node offset t = (r, t')"
  shows "rt_tight t' \<and> dom (rt_block_to_node t') \<subseteq> dom (rt_block_to_node t) \<union> set blocks"
  using assms
proof (induction blocks arbitrary: node offset t i)
  case Nil
  then show ?case by simp
next
  case (Cons bid bids)
  show ?case
  proof (cases "block_key tokens offset (rt_block_size t)")
    case None
    with Cons.prems show ?thesis by auto
  next
    case key: (Some key)
    show ?thesis
    proof (cases "child_at t node key")
      case None
      let ?u = "push_child now t node key offset bid"
      have new: "rt_block_to_node t bid = None" and dist: "distinct (bid # bids)"
        and dj: "set bids \<inter> dom (rt_block_to_node t) = {}"
        using Cons.prems(5) key None by (auto simp: fresh_tail_def)
      note tp = rt_tight_push_child [OF Cons.prems(1-4) None new, where now = now and off = offset]
      have "reused ?u tokens bids (nn t) (offset + rt_block_size t) = 0"
        by (rule reused_childless) (simp add: push_child_simps Cons.prems(3))
      then have ft: "fresh_tail ?u tokens bids (nn t) (offset + rt_block_size t)"
        using dist dj by (auto simp: fresh_tail_def push_child_simps)
      have run: "insert_at_loop now tokens bids (Suc i) skip (nn t) (offset + rt_block_size t) ?u = (r, t')"
        using Cons.prems(6) key None by simp
      have "rt_tight t' \<and> dom (rt_block_to_node t') \<subseteq> dom (rt_block_to_node ?u) \<union> set bids"
        by (rule Cons.IH [OF rt_wf_push_child [OF Cons.prems(1,3) None] tp(1) _ _ ft run])
          (simp_all add: push_child_simps tp(2))
      then show ?thesis by (auto simp: push_child_simps(4))
    next
      case c: (Some child)
      let ?u = "if i < skip then t else bump_ref child t"
      have s: "shape ?u = shape t" by simp
      have r: "child < nn t" using rt_wf_child_at [OF Cons.prems(1,3) c] by simp
      have ft: "fresh_tail ?u tokens bids child (offset + rt_block_size t)"
        using Cons.prems(5) key c
        unfolding fresh_tail_def reused_shape [OF s Cons.prems(1) r] shape_nth(4) [OF s] by simp
      have run: "insert_at_loop now tokens bids (Suc i) skip child (offset + rt_block_size t) ?u = (r, t')"
        using Cons.prems(6) key c by simp
      have "rt_tight t' \<and> dom (rt_block_to_node t') \<subseteq> dom (rt_block_to_node ?u) \<union> set bids"
        by (rule Cons.IH [OF rt_wf_shape [OF s Cons.prems(1)] rt_tight_shape [OF s Cons.prems(1,2)]
              _ _ ft run])
          (simp_all add: r linked_shape [OF _ Cons.prems(1)] linked_child_at [OF Cons.prems(1,3) c])
      then show ?thesis unfolding shape_nth(4) [OF s] by auto
    qed
  qed
qed

end
