(* ===== verification/LeBytes.thy ===== *)
theory LeBytes
  imports GrimPrelude
begin

text \<open>
  Little-endian byte encodings: \<open>to_le_bytes\<close> / \<open>from_le_bytes\<close> of the Rust integer and float
  types, and \<open>parse_f32_slice\<close> of \<open>crates/grim-kvtransport/src/lib.rs\<close>. An \<open>f32\<close> is its bit
  pattern, so its encoding is that of a 32-bit word.
\<close>

definition le_bytes :: "nat \<Rightarrow> 'a::len word \<Rightarrow> u8 list" where
  "le_bytes n w = map (\<lambda>i. ucast (drop_bit (8 * i) w)) [0..<n]"

fun of_le_bytes :: "u8 list \<Rightarrow> 'a::len word" where
  "of_le_bytes [] = 0"
| "of_le_bytes (b # bs) = ucast b OR push_bit 8 (of_le_bytes bs)"

lemma length_le_bytes [simp]: "length (le_bytes n w) = n"
  by (simp add: le_bytes_def)

lemma bit_of_le_bytes:
  "bit (of_le_bytes bs :: 'a::len word) i \<longleftrightarrow>
     i < LENGTH('a) \<and> i div 8 < length bs \<and> bit (bs ! (i div 8)) (i mod 8)"
proof (induction bs arbitrary: i)
  case Nil
  then show ?case by simp
next
  case (Cons b bs)
  show ?case
  proof (cases "i < 8")
    case True
    then show ?thesis by (auto simp: bit_simps)
  next
    case False
    define j where "j = i - 8"
    have i: "i = j + 8" using False by (simp add: j_def)
    have hi: "bit (ucast b :: 'a word) i = False"
      using False by (auto simp: bit_simps dest: bit_imp_le_length)
    have "i div 8 = Suc (j div 8)" "i mod 8 = j mod 8" by (simp_all add: i)
    then show ?thesis using Cons.IH [of j] False hi by (auto simp: bit_simps i)
  qed
qed

lemma of_le_bytes_le_bytes:
  assumes "LENGTH('a) = 8 * n"
  shows "of_le_bytes (le_bytes n w) = (w :: 'a::len word)"
proof (rule bit_word_eqI)
  fix i assume "i < LENGTH('a)"
  moreover from this assms have "i div 8 < n" by auto
  moreover have "8 * (i div 8) + i mod 8 = i" by simp
  ultimately show "bit (of_le_bytes (le_bytes n w) :: 'a word) i = bit w i"
    by (simp add: bit_of_le_bytes le_bytes_def bit_simps)
qed

lemma of_le_bytes_u16 [simp]: "of_le_bytes (le_bytes 2 w) = (w :: u16)"
  by (rule of_le_bytes_le_bytes) simp

lemma of_le_bytes_u32 [simp]: "of_le_bytes (le_bytes 4 w) = (w :: u32)"
  by (rule of_le_bytes_le_bytes) simp

lemma of_le_bytes_u64 [simp]: "of_le_bytes (le_bytes 8 w) = (w :: u64)"
  by (rule of_le_bytes_le_bytes) simp

section \<open>Slices of floats\<close>

definition encode_f32s :: "f32 list \<Rightarrow> u8 list" where
  "encode_f32s fs = concat (map (le_bytes 4) fs)"

text \<open>\<open>chunks_exact(4)\<close> drops a trailing partial chunk.\<close>

fun parse_f32_slice :: "u8 list \<Rightarrow> f32 list" where
  "parse_f32_slice (b0 # b1 # b2 # b3 # rest) = of_le_bytes [b0, b1, b2, b3] # parse_f32_slice rest"
| "parse_f32_slice _ = []"

lemma le_bytes_4_split: "\<exists>a b c d. le_bytes 4 (w :: u32) = [a, b, c, d]"
  by (simp add: le_bytes_def eval_nat_numeral upt_conv_Cons)

lemma parse_le_bytes: "parse_f32_slice (le_bytes 4 (w :: f32) @ rest) = w # parse_f32_slice rest"
proof -
  obtain a b c d where e: "le_bytes 4 w = [a, b, c, d]" using le_bytes_4_split by blast
  have "of_le_bytes [a, b, c, d] = w" using of_le_bytes_u32 [of w] by (simp only: e)
  then show ?thesis by (simp add: e del: of_le_bytes.simps)
qed

lemma parse_encode_f32s: "parse_f32_slice (encode_f32s fs) = fs"
  by (induction fs) (simp_all add: encode_f32s_def parse_le_bytes)

lemma length_encode_f32s [simp]: "length (encode_f32s fs) = 4 * length fs"
  by (induction fs) (simp_all add: encode_f32s_def)

lemma encode_f32s_append: "encode_f32s (xs @ ys) = encode_f32s xs @ encode_f32s ys"
  by (simp add: encode_f32s_def)

lemma length_parse_f32_slice [simp]: "length (parse_f32_slice bs) = length bs div 4"
  by (induction bs rule: parse_f32_slice.induct) auto

end
