(* ===== verification/SpillManager.thy ===== *)
theory SpillManager
  imports LeBytes
begin

text \<open>
  \<open>LocalSpillManager\<close> of \<open>crates/grim-kvtransport/src/lib.rs\<close>: the host-RAM and NVMe tiers a KV
  block is demoted to, in three forms (raw f32, compressed blob, packed quantized bytes), and the
  lookups that promote it back. \<open>SharedSpillManager\<close> is the same object behind a lock, each of its
  methods one call of the corresponding method here.

  The scratch directory is part of the state: \<open>sm_files\<close> maps a file to its bytes. The names
  \<open>kv_block_{id}.bin\<close>, \<open>kv_block_c_{id}.bin\<close>, \<open>kv_block_p_{id}.bin\<close> and their \<open>tmp_\<close> variants are
  the constructors of \<open>spill_file\<close>. Whether a write, a rename or a read of a file succeeds is up to
  the operating system: every operation takes an \<open>env\<close> that answers it.
\<close>

section \<open>Environment, errors, state\<close>

text \<open>
  What an operation reads from outside: the clock, the \<open>GRIM_PACKED_POOL\<close> switch, and the outcome
  of file writes (create, write, sync), renames and reads.
\<close>

record env =
  env_now :: instant
  env_packed :: bool
  io_write :: bool
  io_rename :: bool
  io_read :: bool

text \<open>The \<open>Error::KvCache\<close> values of the memory stack, one constructor per message.\<close>

datatype kv_error =
    SpillLenMismatch nat nat nat
  | IoFailed
  | RenameFailed
  | NvmePathMissing
  | EmptyBlob
  | SpillFileEmpty
  | EmptyPacked
  | PackedHeaderMissing
  | PackedMagicMismatch u16
  | PoolExhausted
  | NoCompressor
  | CompressorFailed
  | SpillGeometryMismatch nat nat nat nat nat
  | BlockOutOfBounds nat nat
  | PayloadTooLarge nat nat nat
  | LayerDesync nat nat nat nat nat
  | NoBackend

datatype cache_tier = Gpu | HostRam | NvMe | NvMeWeightStream

datatype spill_file =
    RawFile nat | CompFile nat | PackFile nat
  | TmpRaw nat | TmpComp nat | TmpPack nat

record spill_manager =
  sm_files :: "spill_file \<rightharpoonup> u8 list"
  sm_block_tiers :: "nat \<rightharpoonup> cache_tier"
  sm_host_ram_cache :: "nat \<rightharpoonup> f32 list \<times> f32 list"
  sm_compressed_host :: "nat \<rightharpoonup> u8 list"
  sm_packed_host :: "nat \<rightharpoonup> u16 \<times> u8 list"
  sm_nvme_cache :: "nat \<rightharpoonup> spill_file"
  sm_nvme_compressed :: "nat \<rightharpoonup> spill_file"
  sm_nvme_packed :: "nat \<rightharpoonup> spill_file"
  sm_block_elems :: nat

definition sm_new :: "nat \<Rightarrow> spill_manager" where
  "sm_new block_elems = \<lparr> sm_files = Map.empty, sm_block_tiers = Map.empty,
     sm_host_ram_cache = Map.empty, sm_compressed_host = Map.empty, sm_packed_host = Map.empty,
     sm_nvme_cache = Map.empty, sm_nvme_compressed = Map.empty, sm_nvme_packed = Map.empty,
     sm_block_elems = block_elems \<rparr>"

type_synonym 'a spill_result = "(kv_error, 'a) outcome \<times> spill_manager"

section \<open>Files\<close>

text \<open>
  The write closures followed by the rename, shared by the three \<open>demote_*_to_nvme\<close>: the bytes go
  to a temporary file which is renamed over the final one; on either failure the temporary is gone.
\<close>

definition atomic_write :: "env \<Rightarrow> spill_file \<Rightarrow> spill_file \<Rightarrow> u8 list \<Rightarrow> (spill_file \<rightharpoonup> u8 list)
    \<Rightarrow> (kv_error, unit) outcome \<times> (spill_file \<rightharpoonup> u8 list)" where
  "atomic_write e tmp path bytes fs =
     (if \<not> io_write e then (Err IoFailed, fs(tmp := None))
      else if \<not> io_rename e then (Err RenameFailed, fs(tmp := None))
      else (Ok (), fs(tmp := None, path \<mapsto> bytes)))"

definition remove_file :: "spill_file \<Rightarrow> spill_manager \<Rightarrow> spill_manager" where
  "remove_file p m = m\<lparr>sm_files := (sm_files m)(p := None)\<rparr>"

section \<open>Raw blocks\<close>

definition demote_to_host :: "spill_manager \<Rightarrow> nat \<Rightarrow> f32 list \<Rightarrow> f32 list \<Rightarrow> unit spill_result" where
  "demote_to_host m block_id k v =
     (if length k \<noteq> sm_block_elems m \<or> length v \<noteq> sm_block_elems m
      then (Err (SpillLenMismatch (sm_block_elems m) (length k) (length v)), m)
      else (Ok (), m\<lparr>sm_host_ram_cache := (sm_host_ram_cache m)(block_id \<mapsto> (k, v)),
                     sm_block_tiers := (sm_block_tiers m)(block_id \<mapsto> HostRam)\<rparr>))"

definition demote_to_nvme :: "env \<Rightarrow> spill_manager \<Rightarrow> nat \<Rightarrow> unit spill_result" where
  "demote_to_nvme e m block_id =
     (case sm_host_ram_cache m block_id of
        None \<Rightarrow> (Ok (), m)
      | Some (k, v) \<Rightarrow>
          (case atomic_write e (TmpRaw block_id) (RawFile block_id) (encode_f32s (k @ v)) (sm_files m) of
             (Ok _, fs) \<Rightarrow>
               (Ok (), m\<lparr>sm_files := fs,
                         sm_host_ram_cache := (sm_host_ram_cache m)(block_id := None),
                         sm_nvme_cache := (sm_nvme_cache m)(block_id \<mapsto> RawFile block_id),
                         sm_block_tiers := (sm_block_tiers m)(block_id \<mapsto> NvMe)\<rparr>)
           | (Err err, fs) \<Rightarrow>
               (Err err, m\<lparr>sm_files := fs,
                           sm_host_ram_cache := (sm_host_ram_cache m)(block_id \<mapsto> (k, v))\<rparr>)
           | (Panic, fs) \<Rightarrow> (Panic, m)
           | (Hang, fs) \<Rightarrow> (Hang, m)))"

text \<open>\<open>File::open\<close> and \<open>read_exact\<close> of \<open>block_elems * 8\<close> bytes, then the two halves.\<close>

definition read_raw :: "env \<Rightarrow> spill_manager \<Rightarrow> spill_file \<Rightarrow> (f32 list \<times> f32 list) option" where
  "read_raw e m path =
     (case sm_files m path of
        None \<Rightarrow> None
      | Some bytes \<Rightarrow>
          if io_read e \<and> sm_block_elems m * 8 \<le> length bytes
          then let buf = take (sm_block_elems m * 8) bytes; split = sm_block_elems m * 4 in
               Some (parse_f32_slice (take split buf), parse_f32_slice (drop split buf))
          else None)"

definition retrieve :: "env \<Rightarrow> spill_manager \<Rightarrow> nat \<Rightarrow> (f32 list \<times> f32 list) option spill_result" where
  "retrieve e m block_id =
     (case sm_block_tiers m block_id of
        None \<Rightarrow> (Ok None, m)
      | Some Gpu \<Rightarrow> (Ok None, m)
      | Some HostRam \<Rightarrow> (Ok (sm_host_ram_cache m block_id), m)
      | Some NvMe \<Rightarrow>
          (case sm_nvme_cache m block_id of
             None \<Rightarrow> (Err NvmePathMissing, m)
           | Some path \<Rightarrow>
               (case read_raw e m path of
                  Some (k, v) \<Rightarrow>
                    (Ok (Some (k, v)),
                     (remove_file path m)\<lparr>
                       sm_nvme_cache := (sm_nvme_cache m)(block_id := None),
                       sm_host_ram_cache := (sm_host_ram_cache m)(block_id \<mapsto> (k, v)),
                       sm_block_tiers := (sm_block_tiers m)(block_id \<mapsto> HostRam)\<rparr>)
                | None \<Rightarrow>
                    (Err IoFailed, m\<lparr>sm_nvme_cache := (sm_nvme_cache m)(block_id \<mapsto> path)\<rparr>)))
      | Some NvMeWeightStream \<Rightarrow> (Ok None, m))"

section \<open>Compressed blobs\<close>

definition demote_compressed :: "spill_manager \<Rightarrow> nat \<Rightarrow> u8 list \<Rightarrow> unit spill_result" where
  "demote_compressed m block_id blob =
     (if blob = [] then (Err EmptyBlob, m)
      else (Ok (), m\<lparr>sm_host_ram_cache := (sm_host_ram_cache m)(block_id := None),
                     sm_nvme_cache := (sm_nvme_cache m)(block_id := None),
                     sm_compressed_host := (sm_compressed_host m)(block_id \<mapsto> blob),
                     sm_block_tiers := (sm_block_tiers m)(block_id \<mapsto> HostRam)\<rparr>))"

definition demote_compressed_to_nvme :: "env \<Rightarrow> spill_manager \<Rightarrow> nat \<Rightarrow> unit spill_result" where
  "demote_compressed_to_nvme e m block_id =
     (case sm_compressed_host m block_id of
        None \<Rightarrow> (Ok (), m)
      | Some blob \<Rightarrow>
          (case atomic_write e (TmpComp block_id) (CompFile block_id) blob (sm_files m) of
             (Ok _, fs) \<Rightarrow>
               (Ok (), m\<lparr>sm_files := fs,
                         sm_compressed_host := (sm_compressed_host m)(block_id := None),
                         sm_nvme_compressed := (sm_nvme_compressed m)(block_id \<mapsto> CompFile block_id),
                         sm_block_tiers := (sm_block_tiers m)(block_id \<mapsto> NvMe)\<rparr>)
           | (Err err, fs) \<Rightarrow>
               (Err err, m\<lparr>sm_files := fs,
                           sm_compressed_host := (sm_compressed_host m)(block_id \<mapsto> blob)\<rparr>)
           | (Panic, fs) \<Rightarrow> (Panic, m)
           | (Hang, fs) \<Rightarrow> (Hang, m)))"

definition retrieve_compressed :: "env \<Rightarrow> spill_manager \<Rightarrow> nat \<Rightarrow> u8 list option spill_result" where
  "retrieve_compressed e m block_id =
     (case sm_compressed_host m block_id of
        Some blob \<Rightarrow> (Ok (Some blob), m)
      | None \<Rightarrow>
          (case sm_nvme_compressed m block_id of
             None \<Rightarrow> (Ok None, m)
           | Some path \<Rightarrow>
               (case (if io_read e then sm_files m path else None) of
                  None \<Rightarrow>
                    (Err IoFailed, m\<lparr>sm_nvme_compressed := (sm_nvme_compressed m)(block_id \<mapsto> path)\<rparr>)
                | Some bytes \<Rightarrow>
                    if bytes = []
                    then (Err SpillFileEmpty,
                          m\<lparr>sm_nvme_compressed := (sm_nvme_compressed m)(block_id \<mapsto> path)\<rparr>)
                    else (Ok (Some bytes),
                          (remove_file path m)\<lparr>
                            sm_nvme_compressed := (sm_nvme_compressed m)(block_id := None),
                            sm_compressed_host := (sm_compressed_host m)(block_id \<mapsto> bytes),
                            sm_block_tiers := (sm_block_tiers m)(block_id \<mapsto> HostRam)\<rparr>))))"

section \<open>Packed quantized blocks\<close>

definition packed_magic :: u16 where
  "packed_magic = 0x4B50"

definition demote_packed :: "spill_manager \<Rightarrow> nat \<Rightarrow> u16 \<Rightarrow> u8 list \<Rightarrow> unit spill_result" where
  "demote_packed m block_id format bytes =
     (if bytes = [] then (Err EmptyPacked, m)
      else (Ok (), m\<lparr>sm_host_ram_cache := (sm_host_ram_cache m)(block_id := None),
                     sm_compressed_host := (sm_compressed_host m)(block_id := None),
                     sm_nvme_cache := (sm_nvme_cache m)(block_id := None),
                     sm_nvme_compressed := (sm_nvme_compressed m)(block_id := None),
                     sm_packed_host := (sm_packed_host m)(block_id \<mapsto> (format, bytes)),
                     sm_block_tiers := (sm_block_tiers m)(block_id \<mapsto> HostRam)\<rparr>))"

definition demote_packed_to_nvme :: "env \<Rightarrow> spill_manager \<Rightarrow> nat \<Rightarrow> unit spill_result" where
  "demote_packed_to_nvme e m block_id =
     (case sm_packed_host m block_id of
        None \<Rightarrow> (Ok (), m)
      | Some (format, bytes) \<Rightarrow>
          (case atomic_write e (TmpPack block_id) (PackFile block_id)
                  (le_bytes 2 packed_magic @ le_bytes 2 format @ bytes) (sm_files m) of
             (Ok _, fs) \<Rightarrow>
               (Ok (), m\<lparr>sm_files := fs,
                         sm_packed_host := (sm_packed_host m)(block_id := None),
                         sm_nvme_packed := (sm_nvme_packed m)(block_id \<mapsto> PackFile block_id),
                         sm_block_tiers := (sm_block_tiers m)(block_id \<mapsto> NvMe)\<rparr>)
           | (Err err, fs) \<Rightarrow>
               (Err err, m\<lparr>sm_files := fs,
                           sm_packed_host := (sm_packed_host m)(block_id \<mapsto> (format, bytes))\<rparr>)
           | (Panic, fs) \<Rightarrow> (Panic, m)
           | (Hang, fs) \<Rightarrow> (Hang, m)))"

text \<open>The checks of the packed file: header present, magic right; then format and payload.\<close>

definition parse_packed :: "u8 list \<Rightarrow> (kv_error, u16 \<times> u8 list) outcome" where
  "parse_packed data =
     (if length data < 4 then Err PackedHeaderMissing
      else let magic = of_le_bytes (take 2 data) in
           if magic \<noteq> packed_magic then Err (PackedMagicMismatch magic)
           else Ok (of_le_bytes (take 2 (drop 2 data)), drop 4 data))"

definition retrieve_packed :: "env \<Rightarrow> spill_manager \<Rightarrow> nat \<Rightarrow> (u16 \<times> u8 list) option spill_result" where
  "retrieve_packed e m block_id =
     (case sm_packed_host m block_id of
        Some entry \<Rightarrow> (Ok (Some entry), m)
      | None \<Rightarrow>
          (case sm_nvme_packed m block_id of
             None \<Rightarrow> (Ok None, m)
           | Some path \<Rightarrow>
               (case (case (if io_read e then sm_files m path else None) of
                        None \<Rightarrow> Err IoFailed
                      | Some data \<Rightarrow> parse_packed data) of
                  Ok (fmt, bytes) \<Rightarrow>
                    (Ok (Some (fmt, bytes)),
                     (remove_file path m)\<lparr>
                       sm_nvme_packed := (sm_nvme_packed m)(block_id := None),
                       sm_packed_host := (sm_packed_host m)(block_id \<mapsto> (fmt, bytes)),
                       sm_block_tiers := (sm_block_tiers m)(block_id \<mapsto> HostRam)\<rparr>)
                | Err err \<Rightarrow>
                    (Err err, m\<lparr>sm_nvme_packed := (sm_nvme_packed m)(block_id \<mapsto> path)\<rparr>)
                | Panic \<Rightarrow> (Panic, m)
                | Hang \<Rightarrow> (Hang, m))))"

section \<open>Eviction and tier query\<close>

definition drop_file :: "spill_file option \<Rightarrow> spill_manager \<Rightarrow> spill_manager" where
  "drop_file p m = (case p of None \<Rightarrow> m | Some path \<Rightarrow> remove_file path m)"

definition sm_evict :: "spill_manager \<Rightarrow> nat \<Rightarrow> spill_manager" where
  "sm_evict m block_id =
     (let m1 = drop_file (sm_nvme_packed m block_id)
                 (drop_file (sm_nvme_compressed m block_id)
                   (drop_file (sm_nvme_cache m block_id) m))
      in m1\<lparr>sm_block_tiers := (sm_block_tiers m)(block_id := None),
            sm_host_ram_cache := (sm_host_ram_cache m)(block_id := None),
            sm_compressed_host := (sm_compressed_host m)(block_id := None),
            sm_packed_host := (sm_packed_host m)(block_id := None),
            sm_nvme_cache := (sm_nvme_cache m)(block_id := None),
            sm_nvme_compressed := (sm_nvme_compressed m)(block_id := None),
            sm_nvme_packed := (sm_nvme_packed m)(block_id := None)\<rparr>)"

definition get_tier :: "spill_manager \<Rightarrow> nat \<Rightarrow> cache_tier option" where
  "get_tier m block_id = sm_block_tiers m block_id"

section \<open>The contract of a tier\<close>

text \<open>
  What the block pool relies on, for each of the three forms a block can be spilled in: a value
  that was put can be fetched unchanged, sinking it to the slower tier never loses it whatever the
  file system answers, fetching it keeps it, and no operation on one block disturbs another.
\<close>

locale tier_store =
  fixes inv :: "'s \<Rightarrow> bool"
    and admissible :: "'s \<Rightarrow> 'v \<Rightarrow> bool"
    and put :: "'s \<Rightarrow> nat \<Rightarrow> 'v \<Rightarrow> 's"
    and sink :: "env \<Rightarrow> 's \<Rightarrow> nat \<Rightarrow> 's"
    and fetch :: "env \<Rightarrow> 's \<Rightarrow> nat \<Rightarrow> (kv_error, 'v option) outcome \<times> 's"
    and view :: "'s \<Rightarrow> nat \<Rightarrow> 'v option"
  assumes put_inv: "inv s \<Longrightarrow> admissible s v \<Longrightarrow> inv (put s b v)"
    and put_view: "inv s \<Longrightarrow> admissible s v \<Longrightarrow> view (put s b v) = (view s)(b \<mapsto> v)"
    and sink_inv: "inv s \<Longrightarrow> inv (sink e s b)"
    and sink_view: "inv s \<Longrightarrow> view (sink e s b) = view s"
    and fetch_inv: "inv s \<Longrightarrow> inv (snd (fetch e s b))"
    and fetch_view: "inv s \<Longrightarrow> view (snd (fetch e s b)) = view s"
    and fetch_ok: "inv s \<Longrightarrow> io_read e \<Longrightarrow> view s b = Some v \<Longrightarrow> fst (fetch e s b) = Ok (Some v)"
begin

text \<open>Any history of sinks and fetches of any blocks, under any faults.\<close>

definition churn :: "(env \<times> nat \<times> bool) list \<Rightarrow> 's \<Rightarrow> 's" where
  "churn h s = foldl (\<lambda>s (e, b, f). if f then snd (fetch e s b) else sink e s b) s h"

lemma churn_keeps: "inv s \<Longrightarrow> inv (churn h s) \<and> view (churn h s) = view s"
  by (induction h arbitrary: s)
    (auto simp: churn_def sink_inv sink_view fetch_inv fetch_view split: prod.splits)

lemma put_churn_fetch:
  assumes "inv s" and "admissible s v" and "io_read e"
  shows "fst (fetch e (churn h (put s b v)) b) = Ok (Some v)"
  using churn_keeps [OF put_inv [OF assms(1,2)], of h b] put_view [OF assms(1,2), of b] assms(3)
  by (auto intro!: fetch_ok)

lemma put_churn_frame:
  assumes "inv s" and "admissible s v" and "io_read e" and "c \<noteq> b" and "view s c = Some w"
  shows "fst (fetch e (churn h (put s b v)) c) = Ok (Some w)"
  using churn_keeps [OF put_inv [OF assms(1,2)], of h b] put_view [OF assms(1,2), of b] assms(3-5)
  by (auto intro!: fetch_ok)

end

section \<open>The three forms\<close>

text \<open>Files are named after their block, and a host copy of a raw block is its current tier.\<close>

definition names_ok :: "spill_manager \<Rightarrow> bool" where
  "names_ok m \<longleftrightarrow>
     (\<forall>b p. sm_nvme_cache m b = Some p \<longrightarrow> p = RawFile b)
     \<and> (\<forall>b p. sm_nvme_compressed m b = Some p \<longrightarrow> p = CompFile b)
     \<and> (\<forall>b p. sm_nvme_packed m b = Some p \<longrightarrow> p = PackFile b)"

definition raw_inv :: "spill_manager \<Rightarrow> bool" where
  "raw_inv m \<longleftrightarrow> names_ok m
     \<and> (\<forall>b k v. sm_host_ram_cache m b = Some (k, v) \<longrightarrow>
          sm_block_tiers m b = Some HostRam \<and> length k = sm_block_elems m \<and> length v = sm_block_elems m)"

definition calm :: env where
  "calm = \<lparr>env_now = 0, env_packed = False, io_write = True, io_rename = True, io_read = True\<rparr>"

definition raw_view :: "spill_manager \<Rightarrow> nat \<Rightarrow> (f32 list \<times> f32 list) option" where
  "raw_view m b =
     (case sm_block_tiers m b of
        Some HostRam \<Rightarrow> sm_host_ram_cache m b
      | Some NvMe \<Rightarrow>
          (case sm_nvme_cache m b of
             None \<Rightarrow> None
           | Some p \<Rightarrow> read_raw calm m p)
      | _ \<Rightarrow> None)"

definition raw_put :: "spill_manager \<Rightarrow> nat \<Rightarrow> f32 list \<times> f32 list \<Rightarrow> spill_manager" where
  "raw_put m b kv = snd (demote_to_host m b (fst kv) (snd kv))"

definition raw_sink :: "env \<Rightarrow> spill_manager \<Rightarrow> nat \<Rightarrow> spill_manager" where
  "raw_sink e m b = snd (demote_to_nvme e m b)"

definition raw_admissible :: "spill_manager \<Rightarrow> f32 list \<times> f32 list \<Rightarrow> bool" where
  "raw_admissible m kv \<longleftrightarrow> length (fst kv) = sm_block_elems m \<and> length (snd kv) = sm_block_elems m"

definition comp_view :: "spill_manager \<Rightarrow> nat \<Rightarrow> u8 list option" where
  "comp_view m b =
     (case sm_compressed_host m b of
        Some blob \<Rightarrow> Some blob
      | None \<Rightarrow>
          (case sm_nvme_compressed m b of
             None \<Rightarrow> None
           | Some p \<Rightarrow> (case sm_files m p of
                          None \<Rightarrow> None
                        | Some bytes \<Rightarrow> if bytes = [] then None else Some bytes)))"

definition comp_inv :: "spill_manager \<Rightarrow> bool" where
  "comp_inv m \<longleftrightarrow> names_ok m \<and> (\<forall>b. sm_compressed_host m b \<noteq> Some [])"

definition pack_view :: "spill_manager \<Rightarrow> nat \<Rightarrow> (u16 \<times> u8 list) option" where
  "pack_view m b =
     (case sm_packed_host m b of
        Some entry \<Rightarrow> Some entry
      | None \<Rightarrow>
          (case sm_nvme_packed m b of
             None \<Rightarrow> None
           | Some p \<Rightarrow> (case sm_files m p of
                          None \<Rightarrow> None
                        | Some bytes \<Rightarrow> (case parse_packed bytes of Ok r \<Rightarrow> Some r | _ \<Rightarrow> None))))"

lemmas sm_defs = demote_to_host_def demote_to_nvme_def atomic_write_def remove_file_def
  retrieve_def read_raw_def demote_compressed_def demote_compressed_to_nvme_def
  retrieve_compressed_def demote_packed_def demote_packed_to_nvme_def retrieve_packed_def

lemmas tier_splits = option.splits if_splits prod.splits cache_tier.splits outcome.splits

lemma read_raw_calm: "io_read e \<Longrightarrow> read_raw e m p = read_raw calm m p"
  by (simp add: read_raw_def calm_def split: option.splits)

lemma read_raw_Some: "read_raw e m p = Some r \<Longrightarrow> read_raw calm m p = Some r"
  by (auto simp: read_raw_def calm_def split: option.splits if_splits)

lemma read_raw_frame:
  "sm_files m' p = sm_files m p \<Longrightarrow> sm_block_elems m' = sm_block_elems m
    \<Longrightarrow> read_raw e m' p = read_raw e m p"
  by (simp add: read_raw_def split: option.splits)

lemma raw_view_frame:
  assumes "sm_block_tiers m' c = sm_block_tiers m c" "sm_host_ram_cache m' c = sm_host_ram_cache m c"
    "sm_nvme_cache m' c = sm_nvme_cache m c" "sm_block_elems m' = sm_block_elems m"
    "\<And>p. sm_nvme_cache m c = Some p \<Longrightarrow> sm_files m' p = sm_files m p"
  shows "raw_view m' c = raw_view m c"
  using assms read_raw_frame [of m' _ m calm]
  by (auto simp: raw_view_def split: option.splits cache_tier.splits)

lemma read_raw_written:
  assumes "length k = sm_block_elems m" "length v = sm_block_elems m" "io_read e"
    and "sm_files m p = Some (encode_f32s (k @ v))"
  shows "read_raw e m p = Some (k, v)"
proof -
  have t: "take (4 * length k) (encode_f32s (k @ v)) = encode_f32s k"
    "drop (4 * length k) (encode_f32s (k @ v)) = encode_f32s v"
    by (simp_all add: encode_f32s_append)
  from assms t show ?thesis by (simp add: read_raw_def Let_def mult.commute parse_encode_f32s)
qed

lemma parse_packed_written:
  "parse_packed (le_bytes 2 packed_magic @ le_bytes 2 fmt @ bytes) = Ok (fmt, bytes)"
  by (simp add: parse_packed_def Let_def)

text \<open>Raw blocks.\<close>

lemma raw_put_inv: "raw_inv m \<Longrightarrow> raw_admissible m kv \<Longrightarrow> raw_inv (raw_put m b kv)"
  by (auto simp: raw_inv_def names_ok_def raw_admissible_def raw_put_def demote_to_host_def)

lemma raw_put_view: "raw_inv m \<Longrightarrow> raw_admissible m kv \<Longrightarrow> raw_view (raw_put m b kv) = (raw_view m)(b \<mapsto> kv)"
  by (auto simp: raw_view_def raw_admissible_def raw_put_def demote_to_host_def read_raw_def fun_eq_iff
      split: option.splits cache_tier.splits)

lemma raw_sink_inv: "raw_inv m \<Longrightarrow> raw_inv (raw_sink e m b)"
  by (auto simp: raw_inv_def names_ok_def raw_sink_def demote_to_nvme_def atomic_write_def
      split: option.splits if_splits)

lemma raw_sink_view:
  assumes "raw_inv m"
  shows "raw_view (raw_sink e m b) = raw_view m"
proof (cases "sm_host_ram_cache m b")
  case None
  then show ?thesis by (simp add: raw_sink_def demote_to_nvme_def)
next
  case (Some kv)
  obtain k v where kv: "kv = (k, v)" by (cases kv)
  have t: "sm_block_tiers m b = Some HostRam" and lk: "length k = sm_block_elems m"
    and lv: "length v = sm_block_elems m" using assms Some kv by (auto simp: raw_inv_def)
  have name: "sm_nvme_cache m c = Some p \<Longrightarrow> p = RawFile c" for c p
    using assms by (simp add: raw_inv_def names_ok_def)
  show ?thesis
  proof
    fix c
    show "raw_view (raw_sink e m b) c = raw_view m c"
    proof (cases "c = b")
      case True
      show ?thesis
      proof (cases "io_write e \<and> io_rename e")
        case ok: True
        have "read_raw calm (raw_sink e m b) (RawFile b) = Some (k, v)"
          using lk lv ok Some kv
          by (intro read_raw_written) (simp_all add: raw_sink_def demote_to_nvme_def atomic_write_def calm_def)
        then show ?thesis using True ok Some kv t
          by (simp add: raw_view_def) (simp add: raw_sink_def demote_to_nvme_def atomic_write_def)
      next
        case False
        then show ?thesis using True Some kv t
          by (auto simp: raw_view_def raw_sink_def demote_to_nvme_def atomic_write_def)
      qed
    next
      case False
      show ?thesis using False Some kv name [of c]
        by (intro raw_view_frame) (auto simp: raw_sink_def demote_to_nvme_def atomic_write_def)
    qed
  qed
qed

lemma read_raw_lengths:
  "read_raw e m p = Some (k, v) \<Longrightarrow> length k = sm_block_elems m \<and> length v = sm_block_elems m"
  by (auto simp: read_raw_def Let_def split: option.splits if_splits)

lemma raw_fetch_inv: "raw_inv m \<Longrightarrow> raw_inv (snd (retrieve e m b))"
  by (auto simp: raw_inv_def names_ok_def retrieve_def remove_file_def
      split: option.splits cache_tier.splits dest: read_raw_lengths)

lemma raw_fetch_view:
  assumes "raw_inv m"
  shows "raw_view (snd (retrieve e m b)) = raw_view m"
proof
  fix c
  have name: "sm_nvme_cache m c = Some p \<Longrightarrow> p = RawFile c" for c p
    using assms by (simp add: raw_inv_def names_ok_def)
  show "raw_view (snd (retrieve e m b)) c = raw_view m c"
  proof (cases "c = b")
    case True
    then show ?thesis
      by (auto simp: raw_view_def retrieve_def remove_file_def fun_upd_idem read_raw_Some
          split: option.splits cache_tier.splits)
  next
    case False
    then show ?thesis using name [of c] name [of b]
      by (intro raw_view_frame)
        (auto simp: retrieve_def remove_file_def split: option.splits cache_tier.splits)
  qed
qed

lemma raw_fetch_ok:
  "raw_inv m \<Longrightarrow> io_read e \<Longrightarrow> raw_view m b = Some kv \<Longrightarrow> fst (retrieve e m b) = Ok (Some kv)"
  by (auto simp: raw_view_def retrieve_def read_raw_calm split: option.splits cache_tier.splits)

interpretation raw_tier: tier_store raw_inv raw_admissible raw_put raw_sink retrieve raw_view
  by unfold_locales
    (simp_all add: raw_put_inv raw_put_view raw_sink_inv raw_sink_view raw_fetch_inv raw_fetch_view
      raw_fetch_ok)

text \<open>Compressed blobs.\<close>

definition comp_put :: "spill_manager \<Rightarrow> nat \<Rightarrow> u8 list \<Rightarrow> spill_manager" where
  "comp_put m b blob = snd (demote_compressed m b blob)"

definition comp_sink :: "env \<Rightarrow> spill_manager \<Rightarrow> nat \<Rightarrow> spill_manager" where
  "comp_sink e m b = snd (demote_compressed_to_nvme e m b)"

lemma comp_view_frame:
  assumes "sm_compressed_host m' c = sm_compressed_host m c"
    "sm_nvme_compressed m' c = sm_nvme_compressed m c"
    "\<And>p. sm_nvme_compressed m c = Some p \<Longrightarrow> sm_files m' p = sm_files m p"
  shows "comp_view m' c = comp_view m c"
  using assms by (auto simp: comp_view_def split: option.splits)

lemma comp_sink_view:
  assumes "comp_inv m"
  shows "comp_view (comp_sink e m b) = comp_view m"
proof
  fix c
  have name: "sm_nvme_compressed m c = Some p \<Longrightarrow> p = CompFile c" for p
    using assms by (simp add: comp_inv_def names_ok_def)
  show "comp_view (comp_sink e m b) c = comp_view m c"
  proof (cases "c = b")
    case True
    have "sm_compressed_host m b \<noteq> Some []" using assms by (simp add: comp_inv_def)
    then show ?thesis using True
      by (auto simp: comp_view_def comp_sink_def demote_compressed_to_nvme_def atomic_write_def
          split: option.splits)
  next
    case False
    then show ?thesis using name
      by (intro comp_view_frame)
        (auto simp: comp_sink_def demote_compressed_to_nvme_def atomic_write_def split: option.splits)
  qed
qed

lemma comp_fetch_view:
  assumes "comp_inv m"
  shows "comp_view (snd (retrieve_compressed e m b)) = comp_view m"
proof
  fix c
  have name: "sm_nvme_compressed m d = Some p \<Longrightarrow> p = CompFile d" for p d
    using assms by (simp add: comp_inv_def names_ok_def)
  show "comp_view (snd (retrieve_compressed e m b)) c = comp_view m c"
  proof (cases "c = b")
    case True
    then show ?thesis
      by (auto simp: comp_view_def retrieve_compressed_def remove_file_def fun_upd_idem
          split: option.splits if_splits)
  next
    case False
    then show ?thesis using name [of c] name [of b]
      by (intro comp_view_frame)
        (auto simp: retrieve_compressed_def remove_file_def split: option.splits)
  qed
qed

interpretation comp_tier: tier_store comp_inv "\<lambda>m blob. blob \<noteq> []" comp_put comp_sink
  retrieve_compressed comp_view
proof unfold_locales
  fix m :: spill_manager and b v e
  show "comp_inv m \<Longrightarrow> v \<noteq> [] \<Longrightarrow> comp_inv (comp_put m b v)"
    by (auto simp: comp_inv_def names_ok_def comp_put_def demote_compressed_def)
  show "comp_inv m \<Longrightarrow> v \<noteq> [] \<Longrightarrow> comp_view (comp_put m b v) = (comp_view m)(b \<mapsto> v)"
    by (auto simp: comp_view_def comp_put_def demote_compressed_def fun_eq_iff split: option.splits)
  show "comp_inv m \<Longrightarrow> comp_inv (comp_sink e m b)"
    by (auto simp: comp_inv_def names_ok_def comp_sink_def demote_compressed_to_nvme_def
        atomic_write_def split: option.splits if_splits)
  show "comp_inv m \<Longrightarrow> comp_view (comp_sink e m b) = comp_view m" by (rule comp_sink_view)
  show "comp_inv m \<Longrightarrow> comp_inv (snd (retrieve_compressed e m b))"
    by (auto simp: comp_inv_def names_ok_def retrieve_compressed_def remove_file_def
        split: option.splits if_splits)
  show "comp_inv m \<Longrightarrow> comp_view (snd (retrieve_compressed e m b)) = comp_view m"
    by (rule comp_fetch_view)
  show "comp_inv m \<Longrightarrow> io_read e \<Longrightarrow> comp_view m b = Some v
      \<Longrightarrow> fst (retrieve_compressed e m b) = Ok (Some v)"
    by (auto simp: comp_view_def retrieve_compressed_def split: option.splits if_splits)
qed

text \<open>Packed blocks.\<close>

definition pack_put :: "spill_manager \<Rightarrow> nat \<Rightarrow> u16 \<times> u8 list \<Rightarrow> spill_manager" where
  "pack_put m b fb = snd (demote_packed m b (fst fb) (snd fb))"

definition pack_sink :: "env \<Rightarrow> spill_manager \<Rightarrow> nat \<Rightarrow> spill_manager" where
  "pack_sink e m b = snd (demote_packed_to_nvme e m b)"

lemma pack_view_frame:
  assumes "sm_packed_host m' c = sm_packed_host m c" "sm_nvme_packed m' c = sm_nvme_packed m c"
    "\<And>p. sm_nvme_packed m c = Some p \<Longrightarrow> sm_files m' p = sm_files m p"
  shows "pack_view m' c = pack_view m c"
  using assms by (auto simp: pack_view_def split: option.splits)

lemma pack_sink_view:
  assumes "names_ok m"
  shows "pack_view (pack_sink e m b) = pack_view m"
proof
  fix c
  have name: "sm_nvme_packed m c = Some p \<Longrightarrow> p = PackFile c" for p
    using assms by (simp add: names_ok_def)
  show "pack_view (pack_sink e m b) c = pack_view m c"
  proof (cases "c = b")
    case True
    then show ?thesis using parse_packed_written
      by (auto simp: pack_view_def pack_sink_def demote_packed_to_nvme_def atomic_write_def
          split: option.splits)
  next
    case False
    then show ?thesis using name
      by (intro pack_view_frame)
        (auto simp: pack_sink_def demote_packed_to_nvme_def atomic_write_def split: option.splits)
  qed
qed

lemma pack_fetch_view:
  assumes "names_ok m"
  shows "pack_view (snd (retrieve_packed e m b)) = pack_view m"
proof
  fix c
  have name: "sm_nvme_packed m d = Some p \<Longrightarrow> p = PackFile d" for p d
    using assms by (simp add: names_ok_def)
  show "pack_view (snd (retrieve_packed e m b)) c = pack_view m c"
  proof (cases "c = b")
    case True
    then show ?thesis
      by (auto simp: pack_view_def retrieve_packed_def remove_file_def fun_upd_idem
          split: option.splits if_splits outcome.splits)
  next
    case False
    then show ?thesis using name [of c] name [of b]
      by (intro pack_view_frame)
        (auto simp: retrieve_packed_def remove_file_def split: option.splits outcome.splits)
  qed
qed

interpretation pack_tier: tier_store names_ok "\<lambda>m fb. snd fb \<noteq> []" pack_put pack_sink
  retrieve_packed pack_view
proof unfold_locales
  fix m :: spill_manager and b e and v :: "u16 \<times> u8 list"
  show "names_ok m \<Longrightarrow> snd v \<noteq> [] \<Longrightarrow> names_ok (pack_put m b v)"
    by (auto simp: names_ok_def pack_put_def demote_packed_def)
  show "names_ok m \<Longrightarrow> snd v \<noteq> [] \<Longrightarrow> pack_view (pack_put m b v) = (pack_view m)(b \<mapsto> v)"
    by (auto simp: pack_view_def pack_put_def demote_packed_def fun_eq_iff split: option.splits)
  show "names_ok m \<Longrightarrow> names_ok (pack_sink e m b)"
    by (auto simp: names_ok_def pack_sink_def demote_packed_to_nvme_def
        atomic_write_def split: option.splits if_splits)
  show "names_ok m \<Longrightarrow> pack_view (pack_sink e m b) = pack_view m" by (rule pack_sink_view)
  show "names_ok m \<Longrightarrow> names_ok (snd (retrieve_packed e m b))"
    by (auto simp: names_ok_def retrieve_packed_def remove_file_def
        split: option.splits if_splits outcome.splits)
  show "names_ok m \<Longrightarrow> pack_view (snd (retrieve_packed e m b)) = pack_view m"
    by (rule pack_fetch_view)
  show "names_ok m \<Longrightarrow> io_read e \<Longrightarrow> pack_view m b = Some v
      \<Longrightarrow> fst (retrieve_packed e m b) = Ok (Some v)"
    by (auto simp: pack_view_def retrieve_packed_def split: option.splits if_splits outcome.splits)
qed

lemma names_ok_new: "names_ok (sm_new n)"
  by (simp add: names_ok_def sm_new_def)

lemma raw_inv_new: "raw_inv (sm_new n)"
  by (simp add: raw_inv_def names_ok_new) (simp add: sm_new_def)

lemma comp_inv_new: "comp_inv (sm_new n)"
  by (simp add: comp_inv_def names_ok_new) (simp add: sm_new_def)

section \<open>How the forms interact\<close>

text \<open>
  The compressed form shadows the raw one: \<open>demote_to_host\<close> does not drop a compressed copy of the
  block, so a later \<open>retrieve_compressed\<close> (which the pool consults first) still finds the old one.
\<close>

lemma demote_to_host_keeps_compressed:
  "comp_view (snd (demote_to_host m b k v)) c = comp_view m c"
  by (auto simp: comp_view_def demote_to_host_def split: option.splits)

text \<open>A packed copy is invisible to the raw and the compressed lookup.\<close>

lemma packed_invisible:
  assumes "bytes \<noteq> []"
  shows "fst (retrieve_compressed e (snd (demote_packed m b fmt bytes)) b) = Ok None"
    and "fst (retrieve e (snd (demote_packed m b fmt bytes)) b) = Ok None"
  using assms by (simp_all add: demote_packed_def retrieve_compressed_def retrieve_def)

lemma packed_nvme_missing_path:
  assumes "bytes \<noteq> []" and "io_write e1" and "io_rename e1"
  shows "fst (retrieve e (snd (demote_packed_to_nvme e1 (snd (demote_packed m b fmt bytes)) b)) b)
    = Err NvmePathMissing"
  using assms
  by (simp add: demote_packed_def demote_packed_to_nvme_def atomic_write_def retrieve_def)

end
