(* ===== verification/SemanticAnchor.thy ===== *)
theory SemanticAnchor
  imports GrimPrelude
begin

text \<open>
  Recurrent-state checkpoints anchored at semantic boundaries,
  \<open>crates/grim-memory/src/semantic_anchor.rs\<close>: the registry of anchor tokens and the bounded LRU
  pool of checkpoints. The checkpoint table is iterated by the eviction scan, so it is an
  association list; checkpoint ids are \<open>usize\<close> and wrap to 1.
\<close>

section \<open>State\<close>

record recurrent_layer_state =
  rls_layer_idx :: nat
  rls_state_data :: "f32 list"
  rls_shape :: "nat list"

record checkpoint =
  cp_id :: nat
  cp_token_offset :: nat
  cp_radix_node_id :: nat
  cp_layer_states :: "recurrent_layer_state list"
  cp_last_access :: instant

record anchor_registry =
  sar_anchor_tokens :: "u32 set"

record checkpoint_pool =
  rcp_max_checkpoints :: nat
  rcp_checkpoints :: "(nat \<times> checkpoint) list"
  rcp_node_to_checkpoint :: "nat \<rightharpoonup> nat"
  rcp_next_id :: nat

section \<open>Anchor registry\<close>

definition sar_new :: "u32 list \<Rightarrow> anchor_registry" where
  "sar_new ids = \<lparr>sar_anchor_tokens = set ids\<rparr>"

definition register_anchor :: "anchor_registry \<Rightarrow> u32 \<Rightarrow> anchor_registry" where
  "register_anchor r tok = r\<lparr>sar_anchor_tokens := insert tok (sar_anchor_tokens r)\<rparr>"

definition is_anchor :: "anchor_registry \<Rightarrow> u32 \<Rightarrow> bool" where
  "is_anchor r tok \<longleftrightarrow> tok \<in> sar_anchor_tokens r"

definition find_anchors :: "anchor_registry \<Rightarrow> u32 list \<Rightarrow> nat list" where
  "find_anchors r tokens =
     List.map_filter (\<lambda>(idx, tok). if is_anchor r tok then Some (idx + 1) else None)
       (enumerate 0 tokens)"

lemma find_anchors_eq:
  "find_anchors r tokens = map (\<lambda>(i, _). Suc i) (filter (\<lambda>(_, t). is_anchor r t) (enumerate 0 tokens))"
proof -
  have "List.map_filter (\<lambda>(idx, tok). if is_anchor r tok then Some (idx + 1) else None) xs
    = map (\<lambda>(i, _). Suc i) (filter (\<lambda>(_, t). is_anchor r t) xs)" for xs
    by (induction xs) (auto simp: List.map_filter_simps)
  then show ?thesis by (simp add: find_anchors_def)
qed

lemma set_find_anchors:
  "set (find_anchors r tokens) = {Suc i | i. i < length tokens \<and> is_anchor r (tokens ! i)}"
  by (auto simp: find_anchors_eq in_set_enumerate_eq image_iff)

section \<open>Checkpoint pool\<close>

text \<open>\<open>new\<close> asserts \<open>max_checkpoints > 0\<close>.\<close>

definition rcp_new :: "nat \<Rightarrow> (unit, checkpoint_pool) outcome" where
  "rcp_new max_checkpoints =
     (if max_checkpoints > 0
      then Ok \<lparr>rcp_max_checkpoints = max_checkpoints, rcp_checkpoints = [],
               rcp_node_to_checkpoint = Map.empty, rcp_next_id = 1\<rparr>
      else Panic)"

definition rcp_coldest :: "checkpoint_pool \<Rightarrow> (nat \<times> checkpoint) option" where
  "rcp_coldest p = scan_min (\<lambda>_. True) (\<lambda>(_, cp). cp_last_access cp) (rcp_checkpoints p) None"

definition rcp_evict_coldest :: "checkpoint_pool \<Rightarrow> nat option \<times> checkpoint_pool" where
  "rcp_evict_coldest p =
     (case rcp_coldest p of
        None \<Rightarrow> (None, p)
      | Some (cold_id, cp) \<Rightarrow>
          (Some cold_id,
           p\<lparr>rcp_checkpoints := AList.delete cold_id (rcp_checkpoints p),
             rcp_node_to_checkpoint := (rcp_node_to_checkpoint p)(cp_radix_node_id cp := None)\<rparr>))"

definition rcp_bump_id :: "nat \<Rightarrow> nat" where
  "rcp_bump_id i = max ((i + 1) mod 2 ^ 64) 1"

definition rcp_store_checkpoint :: "instant \<Rightarrow> checkpoint_pool \<Rightarrow> nat \<Rightarrow> nat
    \<Rightarrow> recurrent_layer_state list \<Rightarrow> checkpoint \<times> checkpoint_pool" where
  "rcp_store_checkpoint now p node token_offset layer_states =
     (let p1 = (case rcp_node_to_checkpoint p node of
                  None \<Rightarrow> p
                | Some old_id \<Rightarrow>
                    p\<lparr>rcp_node_to_checkpoint := (rcp_node_to_checkpoint p)(node := None),
                      rcp_checkpoints := AList.delete old_id (rcp_checkpoints p)\<rparr>);
          p2 = (if length (rcp_checkpoints p1) \<ge> rcp_max_checkpoints p1
                then snd (rcp_evict_coldest p1) else p1);
          cid = rcp_next_id p2;
          cp = \<lparr>cp_id = cid, cp_token_offset = token_offset, cp_radix_node_id = node,
                cp_layer_states = layer_states, cp_last_access = now\<rparr>
      in (cp, p2\<lparr>rcp_next_id := rcp_bump_id cid,
                 rcp_checkpoints := AList.update cid cp (rcp_checkpoints p2),
                 rcp_node_to_checkpoint := (rcp_node_to_checkpoint p2)(node \<mapsto> cid)\<rparr>))"

definition rcp_get_by_node :: "instant \<Rightarrow> checkpoint_pool \<Rightarrow> nat \<Rightarrow> checkpoint option \<times> checkpoint_pool" where
  "rcp_get_by_node now p node =
     (case rcp_node_to_checkpoint p node of
        None \<Rightarrow> (None, p)
      | Some cid \<Rightarrow>
          (case map_of (rcp_checkpoints p) cid of
             None \<Rightarrow> (None, p)
           | Some cp \<Rightarrow>
               let updated = cp\<lparr>cp_last_access := now\<rparr> in
               (Some updated, p\<lparr>rcp_checkpoints := AList.update cid updated (rcp_checkpoints p)\<rparr>)))"

definition rcp_invalidate_node :: "checkpoint_pool \<Rightarrow> nat \<Rightarrow> nat option \<times> checkpoint_pool" where
  "rcp_invalidate_node p node =
     (case rcp_node_to_checkpoint p node of
        None \<Rightarrow> (None, p)
      | Some cid \<Rightarrow>
          (Some cid, p\<lparr>rcp_node_to_checkpoint := (rcp_node_to_checkpoint p)(node := None),
                      rcp_checkpoints := AList.delete cid (rcp_checkpoints p)\<rparr>))"

definition rcp_len :: "checkpoint_pool \<Rightarrow> nat" where
  "rcp_len p = length (rcp_checkpoints p)"

definition rcp_is_empty :: "checkpoint_pool \<Rightarrow> bool" where
  "rcp_is_empty p \<longleftrightarrow> rcp_checkpoints p = []"

section \<open>Invariant\<close>

text \<open>
  The table stays within its bound, keys are unique and recorded in the checkpoint, the node index
  and the table describe the same checkpoints, and the next id is unused.
\<close>

definition rcp_inv :: "checkpoint_pool \<Rightarrow> bool" where
  "rcp_inv p \<longleftrightarrow>
     0 < rcp_max_checkpoints p
     \<and> length (rcp_checkpoints p) \<le> rcp_max_checkpoints p
     \<and> distinct (map fst (rcp_checkpoints p))
     \<and> (\<forall>(i, cp) \<in> set (rcp_checkpoints p).
          cp_id cp = i \<and> i < rcp_next_id p \<and> rcp_node_to_checkpoint p (cp_radix_node_id cp) = Some i)
     \<and> (\<forall>n i. rcp_node_to_checkpoint p n = Some i \<longrightarrow>
          (\<exists>cp. (i, cp) \<in> set (rcp_checkpoints p) \<and> cp_radix_node_id cp = n))"

lemma rcp_invD:
  assumes "rcp_inv p"
  shows rcp_inv_distinct: "distinct (map fst (rcp_checkpoints p))"
    and rcp_inv_bound: "length (rcp_checkpoints p) \<le> rcp_max_checkpoints p"
    and rcp_inv_pos: "0 < rcp_max_checkpoints p"
    and rcp_inv_entry: "(i, cp) \<in> set (rcp_checkpoints p) \<Longrightarrow>
      cp_id cp = i \<and> i < rcp_next_id p \<and> rcp_node_to_checkpoint p (cp_radix_node_id cp) = Some i"
    and rcp_inv_index: "rcp_node_to_checkpoint p n = Some i \<Longrightarrow>
      \<exists>cp. (i, cp) \<in> set (rcp_checkpoints p) \<and> cp_radix_node_id cp = n"
  using assms unfolding rcp_inv_def by blast+

lemma rcp_inv_new: "rcp_new n = Ok p \<Longrightarrow> rcp_inv p"
  by (auto simp: rcp_new_def rcp_inv_def split: if_splits)

text \<open>Removing one checkpoint together with its index entry.\<close>

lemma rcp_inv_remove:
  assumes inv: "rcp_inv p" and m: "(i, cp) \<in> set (rcp_checkpoints p)"
  shows "rcp_inv (p\<lparr>rcp_checkpoints := AList.delete i (rcp_checkpoints p),
      rcp_node_to_checkpoint := (rcp_node_to_checkpoint p)(cp_radix_node_id cp := None)\<rparr>)"
    and "length (AList.delete i (rcp_checkpoints p)) < length (rcp_checkpoints p)"
proof -
  have idx: "rcp_node_to_checkpoint p (cp_radix_node_id cp) = Some i"
    using inv m by (auto simp: rcp_inv_def)
  have d: "distinct (map fst (rcp_checkpoints p))" using inv by (simp add: rcp_inv_def)
  have other: "cp_radix_node_id cp' \<noteq> cp_radix_node_id cp"
    if "(j, cp') \<in> set (rcp_checkpoints p)" "j \<noteq> i" for j cp'
    using inv that idx by (force simp: rcp_inv_def)
  have index_kept: "\<exists>cp'. (j, cp') \<in> set (rcp_checkpoints p) \<and> j \<noteq> i \<and> cp_radix_node_id cp' = n"
    if "rcp_node_to_checkpoint p n = Some j" "n \<noteq> cp_radix_node_id cp" for n j
  proof -
    note prem = that
    obtain cp' where c: "(j, cp') \<in> set (rcp_checkpoints p)" "cp_radix_node_id cp' = n"
      using rcp_inv_index [OF inv prem(1)] by blast
    have "j \<noteq> i"
    proof
      assume "j = i"
      with c(1) m d have "cp' = cp" by (auto dest: eq_key_imp_eq_value)
      with c(2) prem(2) show False by simp
    qed
    with c show ?thesis by blast
  qed
  show "length (AList.delete i (rcp_checkpoints p)) < length (rcp_checkpoints p)"
    by (rule length_delete_less) (use m in force)
  then show "rcp_inv (p\<lparr>rcp_checkpoints := AList.delete i (rcp_checkpoints p),
      rcp_node_to_checkpoint := (rcp_node_to_checkpoint p)(cp_radix_node_id cp := None)\<rparr>)"
    using inv other index_kept
    by (auto simp: rcp_inv_def set_delete_filter AList.distinct_delete)
qed

lemma rcp_coldest_Some:
  assumes "rcp_coldest p = Some (i, cp)"
  shows "(i, cp) \<in> set (rcp_checkpoints p)"
    and "\<forall>(j, c) \<in> set (rcp_checkpoints p). cp_last_access cp \<le> cp_last_access c"
  using scan_min_Some [OF assms [unfolded rcp_coldest_def]] by auto

lemma rcp_coldest_None: "rcp_coldest p = None \<longleftrightarrow> rcp_checkpoints p = []"
  by (auto simp: rcp_coldest_def scan_min_None_iff) (metis list.set_intros(1) neq_Nil_conv surj_pair)

lemma rcp_evict_spec:
  assumes inv: "rcp_inv p"
  shows "rcp_inv (snd (rcp_evict_coldest p))"
    and "rcp_checkpoints p \<noteq> [] \<Longrightarrow>
      length (rcp_checkpoints (snd (rcp_evict_coldest p))) < length (rcp_checkpoints p)"
    and "rcp_next_id (snd (rcp_evict_coldest p)) = rcp_next_id p"
    and "rcp_max_checkpoints (snd (rcp_evict_coldest p)) = rcp_max_checkpoints p"
proof -
  show "rcp_inv (snd (rcp_evict_coldest p))"
    using rcp_inv_remove(1) [OF inv rcp_coldest_Some(1)] inv
    by (auto simp: rcp_evict_coldest_def split: option.splits)
  show "length (rcp_checkpoints (snd (rcp_evict_coldest p))) < length (rcp_checkpoints p)"
    if "rcp_checkpoints p \<noteq> []"
    using rcp_inv_remove(2) [OF inv rcp_coldest_Some(1)] that rcp_coldest_None [of p]
    by (auto simp: rcp_evict_coldest_def split: option.splits)
  show "rcp_next_id (snd (rcp_evict_coldest p)) = rcp_next_id p"
    "rcp_max_checkpoints (snd (rcp_evict_coldest p)) = rcp_max_checkpoints p"
    by (auto simp: rcp_evict_coldest_def split: option.splits)
qed

lemma rcp_inv_add:
  assumes inv: "rcp_inv p" and room: "length (rcp_checkpoints p) < rcp_max_checkpoints p"
    and free: "rcp_node_to_checkpoint p node = None" and no_wrap: "rcp_next_id p < 2 ^ 64 - 1"
    and cp: "cp_id cp = rcp_next_id p" "cp_radix_node_id cp = node"
  shows "rcp_inv (p\<lparr>rcp_next_id := rcp_bump_id (rcp_next_id p),
      rcp_checkpoints := AList.update (rcp_next_id p) cp (rcp_checkpoints p),
      rcp_node_to_checkpoint := (rcp_node_to_checkpoint p)(node \<mapsto> rcp_next_id p)\<rparr>)"
proof -
  have bump: "rcp_bump_id (rcp_next_id p) = Suc (rcp_next_id p)"
    using no_wrap by (simp add: rcp_bump_id_def)
  have fresh: "rcp_next_id p \<notin> fst ` set (rcp_checkpoints p)"
    using inv by (auto simp: rcp_inv_def)
  note s = set_update_new [OF fresh] length_update_new [OF fresh]
  have entry: "cp_id c = i \<and> i < rcp_next_id p \<and> rcp_node_to_checkpoint p (cp_radix_node_id c) = Some i
      \<and> cp_radix_node_id c \<noteq> node"
    if "(i, c) \<in> set (rcp_checkpoints p)" for i c
    using rcp_inv_entry [OF inv that] free by auto
  show ?thesis
    using rcp_inv_distinct [OF inv] rcp_inv_pos [OF inv] room cp rcp_inv_index [OF inv]
    by (fastforce simp: rcp_inv_def bump s AList.distinct_update less_Suc_eq dest: entry)
qed

section \<open>Operations keep the invariant\<close>

text \<open>The state \<open>store_checkpoint\<close> allocates in: the old checkpoint dropped, room made.\<close>

definition rcp_prepared :: "checkpoint_pool \<Rightarrow> nat \<Rightarrow> checkpoint_pool" where
  "rcp_prepared p node =
     (let p1 = snd (rcp_invalidate_node p node)
      in if length (rcp_checkpoints p1) \<ge> rcp_max_checkpoints p1
         then snd (rcp_evict_coldest p1) else p1)"

lemma rcp_store_eq:
  "rcp_store_checkpoint now p node off ls =
     (let q = rcp_prepared p node; cid = rcp_next_id q;
          cp = \<lparr>cp_id = cid, cp_token_offset = off, cp_radix_node_id = node,
                cp_layer_states = ls, cp_last_access = now\<rparr>
      in (cp, q\<lparr>rcp_next_id := rcp_bump_id cid,
                 rcp_checkpoints := AList.update cid cp (rcp_checkpoints q),
                 rcp_node_to_checkpoint := (rcp_node_to_checkpoint q)(node \<mapsto> cid)\<rparr>))"
  by (simp add: rcp_store_checkpoint_def rcp_prepared_def rcp_invalidate_node_def Let_def
      split: option.splits)

lemma rcp_invalidate_spec:
  assumes inv: "rcp_inv p"
  shows "rcp_inv (snd (rcp_invalidate_node p node))"
    and "rcp_node_to_checkpoint (snd (rcp_invalidate_node p node)) node = None"
    and "rcp_next_id (snd (rcp_invalidate_node p node)) = rcp_next_id p"
    and "rcp_max_checkpoints (snd (rcp_invalidate_node p node)) = rcp_max_checkpoints p"
proof -
  show "rcp_inv (snd (rcp_invalidate_node p node))"
  proof (cases "rcp_node_to_checkpoint p node")
    case None
    then show ?thesis using inv by (simp add: rcp_invalidate_node_def)
  next
    case (Some cid)
    then obtain cp where m: "(cid, cp) \<in> set (rcp_checkpoints p)" "cp_radix_node_id cp = node"
      using rcp_inv_index [OF inv] by blast
    have swap: "p\<lparr>rcp_node_to_checkpoint := f, rcp_checkpoints := xs\<rparr>
      = p\<lparr>rcp_checkpoints := xs, rcp_node_to_checkpoint := f\<rparr>" for f xs by simp
    with Some rcp_inv_remove(1) [OF inv m(1)] m(2) show ?thesis
      by (simp add: rcp_invalidate_node_def swap)
  qed
qed (auto simp: rcp_invalidate_node_def split: option.splits)

lemma rcp_prepared_spec:
  assumes inv: "rcp_inv p"
  shows "rcp_inv (rcp_prepared p node)"
    and "length (rcp_checkpoints (rcp_prepared p node)) < rcp_max_checkpoints (rcp_prepared p node)"
    and "rcp_node_to_checkpoint (rcp_prepared p node) node = None"
    and "rcp_next_id (rcp_prepared p node) = rcp_next_id p"
    and "rcp_max_checkpoints (rcp_prepared p node) = rcp_max_checkpoints p"
proof -
  define p1 where "p1 = snd (rcp_invalidate_node p node)"
  note p1 = rcp_invalidate_spec [OF inv, where node = node, folded p1_def]
  have P: "rcp_prepared p node = (if length (rcp_checkpoints p1) \<ge> rcp_max_checkpoints p1
         then snd (rcp_evict_coldest p1) else p1)"
    by (simp add: rcp_prepared_def p1_def)
  note ev = rcp_evict_spec [OF p1(1)]
  have drop: "rcp_node_to_checkpoint (snd (rcp_evict_coldest p1)) node = None"
    using p1(2) by (auto simp: rcp_evict_coldest_def split: option.splits)
  show "rcp_inv (rcp_prepared p node)" using ev(1) p1(1) by (simp add: P)
  show "rcp_node_to_checkpoint (rcp_prepared p node) node = None" using drop p1(2) by (simp add: P)
  show "rcp_next_id (rcp_prepared p node) = rcp_next_id p" using ev(3) p1(3) by (simp add: P)
  show "rcp_max_checkpoints (rcp_prepared p node) = rcp_max_checkpoints p"
    using ev(4) p1(4) by (simp add: P)
  show "length (rcp_checkpoints (rcp_prepared p node)) < rcp_max_checkpoints (rcp_prepared p node)"
  proof (cases "length (rcp_checkpoints p1) \<ge> rcp_max_checkpoints p1")
    case True
    then have "rcp_checkpoints p1 \<noteq> []" using rcp_inv_pos [OF p1(1)] by auto
    with True ev(2,4) rcp_inv_bound [OF p1(1)] show ?thesis by (simp add: P)
  qed (simp add: P)
qed

lemma rcp_store_inv:
  assumes inv: "rcp_inv p" and no_wrap: "rcp_next_id p < 2 ^ 64 - 1"
  shows "rcp_inv (snd (rcp_store_checkpoint now p node off ls))"
proof -
  note q = rcp_prepared_spec [OF inv, where node = node]
  show ?thesis
    unfolding rcp_store_eq Let_def snd_conv
    by (rule rcp_inv_add [OF q(1-3)]) (use no_wrap q(4) in simp_all)
qed

lemma rcp_get_inv:
  assumes inv: "rcp_inv p"
  shows "rcp_inv (snd (rcp_get_by_node now p node))"
proof (cases "rcp_node_to_checkpoint p node")
  case None
  then show ?thesis using inv by (simp add: rcp_get_by_node_def)
next
  case (Some cid)
  note cid = Some
  show ?thesis
  proof (cases "map_of (rcp_checkpoints p) cid")
    case None
    then show ?thesis using inv cid by (simp add: rcp_get_by_node_def)
  next
    case (Some cp)
    let ?u = "cp\<lparr>cp_last_access := now\<rparr>"
    have m: "(cid, cp) \<in> set (rcp_checkpoints p)" by (rule map_of_SomeD [OF Some])
    have d: "distinct (map fst (rcp_checkpoints p))" by (rule rcp_inv_distinct [OF inv])
    note s = set_update_distinct [OF d, of _ _ cid ?u]
    have l: "length (AList.update cid ?u (rcp_checkpoints p)) = length (rcp_checkpoints p)"
      by (rule length_update_old) (use m in force)
    have uniq: "c = cp" if "(cid, c) \<in> set (rcp_checkpoints p)" for c
      using that m d by (auto dest: eq_key_imp_eq_value)
    have "rcp_inv (p\<lparr>rcp_checkpoints := AList.update cid ?u (rcp_checkpoints p)\<rparr>)"
      unfolding rcp_inv_def
    proof (intro conjI)
      let ?p = "p\<lparr>rcp_checkpoints := AList.update cid ?u (rcp_checkpoints p)\<rparr>"
      show "distinct (map fst (rcp_checkpoints ?p))" using AList.distinct_update [OF d] by simp
      show "\<forall>(i, c) \<in> set (rcp_checkpoints ?p). cp_id c = i \<and> i < rcp_next_id ?p
          \<and> rcp_node_to_checkpoint ?p (cp_radix_node_id c) = Some i"
        using rcp_inv_entry [OF inv] m by (auto simp: s split: if_splits)
      show "\<forall>n i. rcp_node_to_checkpoint ?p n = Some i \<longrightarrow>
          (\<exists>c. (i, c) \<in> set (rcp_checkpoints ?p) \<and> cp_radix_node_id c = n)"
      proof (intro allI impI)
        fix n i
        assume "rcp_node_to_checkpoint ?p n = Some i"
        then obtain c where "(i, c) \<in> set (rcp_checkpoints p)" "cp_radix_node_id c = n"
          using rcp_inv_index [OF inv, of n i] by auto
        then show "\<exists>c. (i, c) \<in> set (rcp_checkpoints ?p) \<and> cp_radix_node_id c = n"
          using uniq s [of i ?u] s [of i c] by (cases "i = cid") auto
      qed
    qed (use rcp_inv_bound [OF inv] rcp_inv_pos [OF inv] l in simp_all)
    with cid Some show ?thesis by (simp add: rcp_get_by_node_def Let_def)
  qed
qed

text \<open>A stored checkpoint is the one a later lookup of its node returns, with the access refreshed.\<close>

lemma rcp_get_store:
  "fst (rcp_get_by_node t (snd (rcp_store_checkpoint now p node off ls)) node)
     = Some ((fst (rcp_store_checkpoint now p node off ls))\<lparr>cp_last_access := t\<rparr>)"
  by (simp add: rcp_store_eq rcp_get_by_node_def Let_def map_of_update_eq)

lemma rcp_get_invalidated:
  "rcp_inv p \<Longrightarrow> rcp_get_by_node t (snd (rcp_invalidate_node p node)) node
     = (None, snd (rcp_invalidate_node p node))"
  using rcp_invalidate_spec(2) [of p node] by (simp add: rcp_get_by_node_def)

text \<open>Every checkpoint other than the eviction victim survives a store, and the victim is coldest.\<close>

lemma rcp_store_keeps:
  assumes inv: "rcp_inv p" and no_wrap: "rcp_next_id p < 2 ^ 64 - 1"
    and m: "(i, cp) \<in> set (rcp_checkpoints p)" and other: "cp_radix_node_id cp \<noteq> node"
  shows "(i, cp) \<in> set (rcp_checkpoints (snd (rcp_store_checkpoint now p node off ls)))
    \<or> (length (rcp_checkpoints (snd (rcp_invalidate_node p node))) = rcp_max_checkpoints p
       \<and> (\<forall>(j, c) \<in> set (rcp_checkpoints p). cp_radix_node_id c \<noteq> node
            \<longrightarrow> cp_last_access cp \<le> cp_last_access c))"
proof -
  define p1 where "p1 = snd (rcp_invalidate_node p node)"
  note p1 = rcp_invalidate_spec [OF inv, where node = node, folded p1_def]
  have keep1: "(j, c) \<in> set (rcp_checkpoints p1)"
    if "(j, c) \<in> set (rcp_checkpoints p)" "cp_radix_node_id c \<noteq> node" for j c
  proof (cases "rcp_node_to_checkpoint p node")
    case None
    then show ?thesis using that by (simp add: p1_def rcp_invalidate_node_def)
  next
    case (Some cid)
    obtain c' where "(cid, c') \<in> set (rcp_checkpoints p)" "cp_radix_node_id c' = node"
      using rcp_inv_index [OF inv Some] by blast
    then have "j \<noteq> cid"
      using that rcp_inv_distinct [OF inv] by (auto dest: eq_key_imp_eq_value)
    then show ?thesis using that Some by (simp add: p1_def rcp_invalidate_node_def set_delete_filter)
  qed
  have fresh: "i \<noteq> rcp_next_id p" using rcp_inv_entry [OF inv m] by simp
  have upd: "(i, cp) \<in> set (AList.update (rcp_next_id p) c xs)" if "(i, cp) \<in> set xs" for c xs
    using that fresh by (induction xs) auto
  have P: "rcp_prepared p node = (if length (rcp_checkpoints p1) \<ge> rcp_max_checkpoints p1
         then snd (rcp_evict_coldest p1) else p1)"
    by (simp add: rcp_prepared_def p1_def)
  note stored = rcp_store_eq Let_def rcp_prepared_spec(4) [OF inv]
  show ?thesis
  proof (cases "(i, cp) \<in> set (rcp_checkpoints (rcp_prepared p node))")
    case True
    then show ?thesis by (simp add: stored upd)
  next
    case False
    then have full: "length (rcp_checkpoints p1) \<ge> rcp_max_checkpoints p1"
      using keep1 [OF m other] by (cases "rcp_max_checkpoints p1 \<le> length (rcp_checkpoints p1)") (simp_all add: P)
    with False have ev: "(i, cp) \<notin> set (rcp_checkpoints (snd (rcp_evict_coldest p1)))"
      by (simp add: P)
    then obtain j c where c: "rcp_coldest p1 = Some (j, c)"
      using keep1 [OF m other] by (auto simp: rcp_evict_coldest_def split: option.splits)
    with ev keep1 [OF m other] have "j = i"
      by (auto simp: rcp_evict_coldest_def set_delete_filter)
    with rcp_coldest_Some(1) [OF c] keep1 [OF m other] rcp_inv_distinct [OF p1(1)]
    have "c = cp" by (auto dest: eq_key_imp_eq_value)
    with rcp_coldest_Some(2) [OF c] keep1 full p1(4) rcp_inv_bound [OF p1(1)] show ?thesis
      by (fastforce simp: p1_def)
  qed
qed

end
