(* ===== verification/KvMirror.thy ===== *)
theory KvMirror
  imports GrimPrelude
begin

text \<open>
  \<open>KvDeviceMirror\<close> of \<open>crates/grim-memory/src/kv_mirror.rs\<close>: the per-block synchronisation state
  machine between device memory and the host copy, the set of blocks awaiting a flush, and the
  host copies themselves. The configuration's watermark ratios are only used in \<open>f32\<close> arithmetic;
  the two results of that arithmetic (whether pressure is below the high watermark, and how many
  blocks to free) are arguments of the eviction scan.
\<close>

section \<open>State\<close>

datatype mirror_sync_state = InSync | DirtyOnDevice | Flushing | EvictedToHost | Clean

record mirror_config =
  mc_high_watermark_ratio :: f32
  mc_low_watermark_ratio :: f32
  mc_max_batch_flush_size :: nat
  mc_enable_proactive_writeback :: bool

record device_mirror =
  dm_config :: mirror_config
  dm_states :: "mirror_sync_state list"
  dm_host_mirror :: "(nat \<times> (f32 list \<times> f32 list)) list"
  dm_dirty_set :: "nat list"
  dm_capacity :: nat
  dm_elem_per_token :: nat

text \<open>The default ratios 0.85 and 0.70 as their single-precision bit patterns.\<close>

definition mc_default :: mirror_config where
  "mc_default = \<lparr>mc_high_watermark_ratio = 0x3F59999A, mc_low_watermark_ratio = 0x3F333333,
     mc_max_batch_flush_size = 64, mc_enable_proactive_writeback = True\<rparr>"

definition dm_new :: "nat \<Rightarrow> nat \<Rightarrow> nat \<Rightarrow> mirror_config \<Rightarrow> device_mirror" where
  "dm_new capacity num_heads head_dim config =
     \<lparr>dm_config = config, dm_states = replicate capacity Clean, dm_host_mirror = [],
      dm_dirty_set = [], dm_capacity = capacity, dm_elem_per_token = num_heads * head_dim\<rparr>"

section \<open>Operations\<close>

definition dm_state :: "device_mirror \<Rightarrow> nat \<Rightarrow> mirror_sync_state" where
  "dm_state m i = (if i < length (dm_states m) then dm_states m ! i else Clean)"

definition dm_mark_dirty :: "device_mirror \<Rightarrow> nat \<Rightarrow> device_mirror" where
  "dm_mark_dirty m i =
     (if i < length (dm_states m)
      then m\<lparr>dm_states := (dm_states m)[i := DirtyOnDevice],
             dm_dirty_set := hs_insert i (dm_dirty_set m)\<rparr>
      else m)"

definition dm_is_dirty :: "device_mirror \<Rightarrow> nat \<Rightarrow> bool" where
  "dm_is_dirty m i \<longleftrightarrow> i \<in> set (dm_dirty_set m)"

definition dm_dirty_count :: "device_mirror \<Rightarrow> nat" where
  "dm_dirty_count m = length (dm_dirty_set m)"

definition dm_host_mirror_count :: "device_mirror \<Rightarrow> nat" where
  "dm_host_mirror_count m = length (dm_host_mirror m)"

definition dm_stage_flush :: "device_mirror \<Rightarrow> nat \<Rightarrow> mirror_sync_state option \<times> device_mirror" where
  "dm_stage_flush m i =
     (if i < length (dm_states m) \<and> dm_states m ! i = DirtyOnDevice
      then (Some Flushing, m\<lparr>dm_states := (dm_states m)[i := Flushing]\<rparr>)
      else (None, m))"

definition dm_commit_flush :: "device_mirror \<Rightarrow> nat \<Rightarrow> f32 list \<Rightarrow> f32 list \<Rightarrow> device_mirror" where
  "dm_commit_flush m i keys values =
     (if i < length (dm_states m)
      then m\<lparr>dm_host_mirror := AList.update i (keys, values) (dm_host_mirror m),
             dm_states := (dm_states m)[i := InSync],
             dm_dirty_set := hs_remove i (dm_dirty_set m)\<rparr>
      else m)"

definition dm_retrieve_mirror :: "device_mirror \<Rightarrow> nat \<Rightarrow> (f32 list \<times> f32 list) option" where
  "dm_retrieve_mirror m i = map_of (dm_host_mirror m) i"

definition dm_mark_evicted :: "device_mirror \<Rightarrow> nat \<Rightarrow> bool \<times> device_mirror" where
  "dm_mark_evicted m i =
     (if i < length (dm_states m) \<and> map_of (dm_host_mirror m) i \<noteq> None
      then (True, m\<lparr>dm_states := (dm_states m)[i := EvictedToHost],
                    dm_dirty_set := hs_remove i (dm_dirty_set m)\<rparr>)
      else (False, m))"

definition dm_release_block :: "device_mirror \<Rightarrow> nat \<Rightarrow> device_mirror" where
  "dm_release_block m i =
     (if i < length (dm_states m)
      then m\<lparr>dm_states := (dm_states m)[i := Clean],
             dm_dirty_set := hs_remove i (dm_dirty_set m),
             dm_host_mirror := AList.delete i (dm_host_mirror m)\<rparr>
      else m)"

text \<open>The scan of \<open>evaluate_watermark_eviction_candidates\<close>: a candidate is pushed before the bound is checked.\<close>

fun dm_candidate_scan :: "mirror_sync_state list \<Rightarrow> nat \<Rightarrow> nat \<Rightarrow> nat list \<Rightarrow> nat list" where
  "dm_candidate_scan [] i target cands = cands"
| "dm_candidate_scan (s # ss) i target cands =
     (if s = InSync
      then (let cands' = cands @ [i] in
            if length cands' \<ge> target then cands' else dm_candidate_scan ss (Suc i) target cands')
      else dm_candidate_scan ss (Suc i) target cands)"

definition dm_eviction_candidates ::
    "(nat \<Rightarrow> nat \<Rightarrow> mirror_config \<Rightarrow> bool) \<Rightarrow> (nat \<Rightarrow> nat \<Rightarrow> mirror_config \<Rightarrow> nat)
     \<Rightarrow> device_mirror \<Rightarrow> nat \<Rightarrow> nat \<Rightarrow> nat list" where
  "dm_eviction_candidates below_high target_freed m allocated total_blocks =
     (if total_blocks = 0 then []
      else if below_high allocated total_blocks (dm_config m) then []
      else dm_candidate_scan (dm_states m) 0 (target_freed allocated total_blocks (dm_config m)) [])"

text \<open>
  \<open>sync_dirty_from_pool\<close>: the pool enters only through its block count and the two buffers of
  each block.
\<close>

fun dm_sync_loop :: "nat \<Rightarrow> (nat \<Rightarrow> f32 list \<times> f32 list) \<Rightarrow> nat list \<Rightarrow> device_mirror \<Rightarrow> nat
    \<Rightarrow> nat \<times> device_mirror" where
  "dm_sync_loop n kv [] m synced = (synced, m)"
| "dm_sync_loop n kv (i # is) m synced =
     (if i < n
      then dm_sync_loop n kv is (dm_commit_flush m i (fst (kv i)) (snd (kv i))) (synced + 1)
      else dm_sync_loop n kv is m synced)"

definition dm_sync_dirty :: "nat \<Rightarrow> (nat \<Rightarrow> f32 list \<times> f32 list) \<Rightarrow> device_mirror \<Rightarrow> nat \<times> device_mirror" where
  "dm_sync_dirty n kv m = dm_sync_loop n kv (dm_dirty_set m) m 0"

section \<open>Invariant\<close>

text \<open>
  A block is in the dirty set exactly when its state asks for a flush, and a block whose primary or
  duplicate copy is on the host has a host copy.
\<close>

definition dm_inv :: "device_mirror \<Rightarrow> bool" where
  "dm_inv m \<longleftrightarrow>
     distinct (dm_dirty_set m) \<and> distinct (map fst (dm_host_mirror m))
     \<and> set (dm_dirty_set m)
         = {i. i < length (dm_states m) \<and> dm_states m ! i \<in> {DirtyOnDevice, Flushing}}
     \<and> (\<forall>i < length (dm_states m). dm_states m ! i \<in> {InSync, EvictedToHost}
          \<longrightarrow> i \<in> fst ` set (dm_host_mirror m))"

lemma dm_inv_new: "dm_inv (dm_new c h d cfg)"
  by (auto simp: dm_inv_def dm_new_def)

lemma dm_inv_mark_dirty: "dm_inv m \<Longrightarrow> dm_inv (dm_mark_dirty m i)"
  by (auto simp: dm_inv_def dm_mark_dirty_def nth_list_update)

lemma dm_inv_stage_flush: "dm_inv m \<Longrightarrow> dm_inv (snd (dm_stage_flush m i))"
  by (auto simp: dm_inv_def dm_stage_flush_def nth_list_update)

lemma dm_inv_commit_flush: "dm_inv m \<Longrightarrow> dm_inv (dm_commit_flush m i k v)"
  by (auto simp: dm_inv_def dm_commit_flush_def nth_list_update alist_simps)

lemma dm_inv_mark_evicted: "dm_inv m \<Longrightarrow> dm_inv (snd (dm_mark_evicted m i))"
  by (auto simp: dm_inv_def dm_mark_evicted_def nth_list_update rev_image_eqI dest!: map_of_SomeD)

lemma dm_inv_release: "dm_inv m \<Longrightarrow> dm_inv (dm_release_block m i)"
  by (auto simp: dm_inv_def dm_release_block_def nth_list_update alist_simps)

lemma dm_inv_sync_loop: "dm_inv m \<Longrightarrow> dm_inv (snd (dm_sync_loop n kv is m k))"
  by (induction "is" arbitrary: m k) (simp_all add: dm_inv_commit_flush)

section \<open>Synchronisation\<close>

text \<open>
  The effect of the loop: every listed block the pool has is in sync with the pool's buffers, no
  other block changes, and the count is the number of blocks handled.
\<close>

lemma length_commit_flush [simp]: "length (dm_states (dm_commit_flush m i k v)) = length (dm_states m)"
  by (simp add: dm_commit_flush_def)

lemma commit_flush_effect:
  assumes "i < length (dm_states m)"
  shows "dm_retrieve_mirror (dm_commit_flush m i k v) j = (if j = i then Some (k, v) else dm_retrieve_mirror m j)"
    and "dm_state (dm_commit_flush m i k v) j = (if j = i then InSync else dm_state m j)"
    and "set (dm_dirty_set (dm_commit_flush m i k v)) = set (dm_dirty_set m) - {i}"
  using assms
  by (auto simp: dm_retrieve_mirror_def dm_state_def dm_commit_flush_def map_of_update_eq nth_list_update)

lemma length_sync_loop [simp]:
  "length (dm_states (snd (dm_sync_loop n kv is m k))) = length (dm_states m)"
  by (induction "is" arbitrary: m k) simp_all

lemma dm_sync_loop_count: "fst (dm_sync_loop n kv is m k) = k + length (filter (\<lambda>i. i < n) is)"
  by (induction "is" arbitrary: m k) simp_all

lemma dm_sync_loop_spec:
  assumes "\<forall>i \<in> set is. i < length (dm_states m)"
  shows "dm_retrieve_mirror (snd (dm_sync_loop n kv is m k)) j
      = (if j \<in> set is \<and> j < n then Some (kv j) else dm_retrieve_mirror m j)
    \<and> dm_state (snd (dm_sync_loop n kv is m k)) j
      = (if j \<in> set is \<and> j < n then InSync else dm_state m j)
    \<and> set (dm_dirty_set (snd (dm_sync_loop n kv is m k)))
      = set (dm_dirty_set m) - {i \<in> set is. i < n}"
  using assms
proof (induction "is" arbitrary: m k)
  case Nil
  then show ?case by simp
next
  case (Cons a as)
  show ?case
  proof (cases "a < n")
    case True
    let ?m = "dm_commit_flush m a (fst (kv a)) (snd (kv a))"
    have a: "a < length (dm_states m)" using Cons.prems by simp
    have "\<forall>i \<in> set as. i < length (dm_states ?m)" using Cons.prems by simp
    note IH = Cons.IH [OF this, of "k + 1"]
    show ?thesis using True IH by (auto simp: commit_flush_effect [OF a])
  next
    case False
    then show ?thesis using Cons by auto
  qed
qed

lemma dm_sync_spec:
  assumes inv: "dm_inv m" and big: "length (dm_states m) \<le> n"
  shows "dm_dirty_set (snd (dm_sync_dirty n kv m)) = []"
    and "fst (dm_sync_dirty n kv m) = dm_dirty_count m"
    and "dm_is_dirty m i \<Longrightarrow> dm_retrieve_mirror (snd (dm_sync_dirty n kv m)) i = Some (kv i)
      \<and> dm_state (snd (dm_sync_dirty n kv m)) i = InSync"
    and "\<not> dm_is_dirty m i \<Longrightarrow> dm_retrieve_mirror (snd (dm_sync_dirty n kv m)) i = dm_retrieve_mirror m i
      \<and> dm_state (snd (dm_sync_dirty n kv m)) i = dm_state m i"
proof -
  have d: "distinct (dm_dirty_set m)" and r: "\<forall>i \<in> set (dm_dirty_set m). i < length (dm_states m)"
    using inv by (auto simp: dm_inv_def)
  have lt: "i \<in> set (dm_dirty_set m) \<Longrightarrow> i < n" for i using r big by auto
  have all: "filter (\<lambda>i. i < n) (dm_dirty_set m) = dm_dirty_set m" using lt by (simp add: filter_id_conv)
  note spec = dm_sync_loop_spec [OF r, of n kv 0, folded dm_sync_dirty_def]
  have "set (dm_dirty_set (snd (dm_sync_dirty n kv m))) = {}" using spec lt by auto
  then show "dm_dirty_set (snd (dm_sync_dirty n kv m)) = []" by simp
  show "fst (dm_sync_dirty n kv m) = dm_dirty_count m"
    by (simp add: all dm_dirty_count_def dm_sync_dirty_def dm_sync_loop_count)
  show "dm_is_dirty m i \<Longrightarrow> dm_retrieve_mirror (snd (dm_sync_dirty n kv m)) i = Some (kv i)
      \<and> dm_state (snd (dm_sync_dirty n kv m)) i = InSync"
    using spec [where j = i] lt by (simp add: dm_is_dirty_def)
  show "\<not> dm_is_dirty m i \<Longrightarrow> dm_retrieve_mirror (snd (dm_sync_dirty n kv m)) i = dm_retrieve_mirror m i
      \<and> dm_state (snd (dm_sync_dirty n kv m)) i = dm_state m i"
    using spec [where j = i] by (simp add: dm_is_dirty_def)
qed

section \<open>Eviction candidates\<close>

lemma dm_candidate_scan_spec:
  assumes "length cands < max 1 target"
  shows "\<exists>ys. dm_candidate_scan ss i target cands = cands @ ys
    \<and> sorted_wrt (<) ys \<and> (\<forall>y \<in> set ys. i \<le> y \<and> y < i + length ss \<and> ss ! (y - i) = InSync)
    \<and> length (cands @ ys) \<le> max 1 target"
  using assms
proof (induction ss arbitrary: i cands)
  case Nil
  then show ?case by auto
next
  case (Cons s ss)
  show ?case
  proof (cases "s = InSync")
    case False
    then show ?thesis using Cons.IH [OF Cons.prems, of "Suc i"]
      by (auto simp: nth_Cons' le_diff_conv) (metis Suc_le_lessD diff_Suc_eq_diff_pred not_less_eq_eq)
  next
    case True
    show ?thesis
    proof (cases "length (cands @ [i]) \<ge> target")
      case stop: True
      with True Cons.prems show ?thesis by (intro exI [of _ "[i]"]) auto
    next
      case False
      with Cons.prems have "length (cands @ [i]) < max 1 target" by auto
      from Cons.IH [OF this, of "Suc i"] obtain ys where
        ys: "dm_candidate_scan ss (Suc i) target (cands @ [i]) = (cands @ [i]) @ ys"
          "sorted_wrt (<) ys"
          "\<forall>y \<in> set ys. Suc i \<le> y \<and> y < Suc i + length ss \<and> ss ! (y - Suc i) = InSync"
          "length ((cands @ [i]) @ ys) \<le> max 1 target" by blast
      then show ?thesis using True False
        by (intro exI [of _ "i # ys"]) (auto simp: nth_Cons' Suc_le_eq)
    qed
  qed
qed

lemma dm_eviction_candidates_spec:
  "(\<forall>i \<in> set (dm_eviction_candidates b t m a n). dm_state m i = InSync)
   \<and> distinct (dm_eviction_candidates b t m a n)
   \<and> length (dm_eviction_candidates b t m a n) \<le> max 1 (t a n (dm_config m))"
proof -
  obtain ys where "dm_candidate_scan (dm_states m) 0 (t a n (dm_config m)) [] = [] @ ys"
    "sorted_wrt (<) ys" "\<forall>y \<in> set ys. 0 \<le> y \<and> y < 0 + length (dm_states m) \<and> dm_states m ! (y - 0) = InSync"
    "length ([] @ ys) \<le> max 1 (t a n (dm_config m))"
    using dm_candidate_scan_spec [of "[]" "t a n (dm_config m)" "dm_states m" 0] by auto
  then show ?thesis
    by (auto simp: dm_eviction_candidates_def dm_state_def strict_sorted_iff)
qed

end
