(* ===== verification/BlockPool.thy ===== *)
theory BlockPool
  imports RadixTree SpillManager SemanticAnchor KvMirror
begin

text \<open>
  \<open>KvBlockPool\<close> of \<open>crates/grim-memory/src/lib.rs\<close>: physical KV blocks, the free list, reference
  counts, the prefix tree over cached blocks, and the demote/promote paths to the spill manager.

  The record owns its spill manager and its tree; every operation returns an outcome and the pool
  it leaves. \<open>blocks[id]\<close> panics out of range, so an operation that indexes with an id of the caller
  has the branch \<open>Panic\<close>. Counters (\<open>u32\<close>, \<open>u64\<close>) are naturals: their overflow is out of reach.
  The attached \<open>KvCompressor\<close> is a trait object: \<open>cz_compress\<close> stands for \<open>compress\<close> followed by
  \<open>to_bytes\<close> on \<open>rows\<close> rows, \<open>cz_restore\<close> for \<open>from_bytes\<close>, \<open>dequantize_for_attention\<close> and
  \<open>to_vec_f32\<close>; \<open>None\<close> is their error.
\<close>

section \<open>State\<close>

definition BLOCK_SIZE :: nat where
  "BLOCK_SIZE = 16"

datatype kv_quant_format =
  QInt8 | QInt4 | QFp8E4M3 | QFp8E5M2 | QFp4E2M1 | QMxFp4 | QMxFp8 | QNvFp4 | QNutFp4
  | QWhiteCrow

fun quant_format_code :: "kv_quant_format \<Rightarrow> u16" where
  "quant_format_code QInt8 = 0"
| "quant_format_code QInt4 = 1"
| "quant_format_code QFp8E4M3 = 2"
| "quant_format_code QFp8E5M2 = 3"
| "quant_format_code QFp4E2M1 = 4"
| "quant_format_code QMxFp4 = 5"
| "quant_format_code QMxFp8 = 6"
| "quant_format_code QNvFp4 = 7"
| "quant_format_code QNutFp4 = 8"
| "quant_format_code QWhiteCrow = 9"

datatype layer_storage =
    DenseF32 "f32 list" "f32 list"
  | Packed kv_quant_format "u8 list"

record kv_block =
  kb_id :: nat
  kb_key_data :: "f32 list"
  kb_value_data :: "f32 list"
  kb_layer_keys :: "f32 list list"
  kb_layer_values :: "f32 list list"
  kb_layer_packed :: "layer_storage option list"
  kb_num_tokens :: nat
  kb_received :: bool
  kb_location :: cache_tier

record spill_telemetry =
  st_demoted_blocks :: nat
  st_promoted_blocks :: nat
  st_reclaimed_for_alloc :: nat

record compressor =
  cz_compress :: "nat \<Rightarrow> f32 list \<Rightarrow> f32 list \<Rightarrow> u8 list option"
  cz_restore :: "u8 list \<Rightarrow> (f32 list \<times> f32 list) option"

record kv_block_pool =
  kp_blocks :: "kv_block list"
  kp_free_list :: "nat list"
  kp_layer_geoms :: "nat \<rightharpoonup> nat"
  kp_ref_counts :: "nat \<rightharpoonup> nat"
  kp_tree :: radix_tree
  kp_ssm_states :: "u32 \<rightharpoonup> f32 list"
  kp_checkpoints :: checkpoint_pool
  kp_anchors :: anchor_registry
  kp_block_major :: bool
  kp_recently_zero :: "nat list"
  kp_dirty :: "nat list"
  kp_mirror :: device_mirror
  kp_num_heads :: nat
  kp_head_dim :: nat
  kp_device_ordinal :: nat
  kp_layer_range :: "(nat \<times> nat) option"
  kp_compressor :: "compressor option"
  kp_spill :: "spill_manager option"
  kp_block_bytes :: nat
  kp_telemetry :: spill_telemetry

type_synonym 'a pool_result = "(kv_error, 'a) outcome \<times> kv_block_pool"

text \<open>A block as \<open>new_on_device\<close> and \<open>resize_capacity\<close> create it.\<close>

definition fresh_block :: "nat \<Rightarrow> nat \<Rightarrow> kv_block" where
  "fresh_block block_elem i = \<lparr>kb_id = i, kb_key_data = replicate block_elem 0,
     kb_value_data = replicate block_elem 0, kb_layer_keys = [], kb_layer_values = [],
     kb_layer_packed = [], kb_num_tokens = 0, kb_received = False, kb_location = Gpu\<rparr>"

definition kp_elem :: "kv_block_pool \<Rightarrow> nat" where
  "kp_elem p = kp_num_heads p * kp_head_dim p"

definition kp_block_elem :: "kv_block_pool \<Rightarrow> nat" where
  "kp_block_elem p = BLOCK_SIZE * kp_elem p"

abbreviation cap :: "kv_block_pool \<Rightarrow> nat" where
  "cap p \<equiv> length (kp_blocks p)"

abbreviation blk :: "kv_block_pool \<Rightarrow> nat \<Rightarrow> kv_block" where
  "blk p i \<equiv> kp_blocks p ! i"

definition kp_new_on_device :: "instant \<Rightarrow> bool \<Rightarrow> nat \<Rightarrow> nat \<Rightarrow> nat \<Rightarrow> nat \<Rightarrow> kv_block_pool" where
  "kp_new_on_device now rocm_aiter capacity num_heads head_dim device =
     (let block_elem = BLOCK_SIZE * (num_heads * head_dim) in
      \<lparr>kp_blocks = map (fresh_block block_elem) [0..<capacity], kp_free_list = [0..<capacity],
       kp_layer_geoms = Map.empty, kp_ref_counts = Map.empty, kp_tree = rt_new now BLOCK_SIZE,
       kp_ssm_states = Map.empty,
       kp_checkpoints = \<lparr>rcp_max_checkpoints = 64, rcp_checkpoints = [],
                         rcp_node_to_checkpoint = Map.empty, rcp_next_id = 1\<rparr>,
       kp_anchors = sar_new [151644, 151645, 32000, 32001], kp_block_major = rocm_aiter,
       kp_recently_zero = [], kp_dirty = [],
       kp_mirror = dm_new capacity num_heads head_dim mc_default,
       kp_num_heads = num_heads, kp_head_dim = head_dim, kp_device_ordinal = device,
       kp_layer_range = None, kp_compressor = None, kp_spill = None,
       kp_block_bytes = block_elem * 4,
       kp_telemetry = \<lparr>st_demoted_blocks = 0, st_promoted_blocks = 0, st_reclaimed_for_alloc = 0\<rparr>\<rparr>)"

definition kp_with_layer_range :: "kv_block_pool \<Rightarrow> nat \<Rightarrow> nat \<Rightarrow> kv_block_pool" where
  "kp_with_layer_range p a b = p\<lparr>kp_layer_range := Some (a, b)\<rparr>"

definition kp_with_layer_geom :: "kv_block_pool \<Rightarrow> nat \<Rightarrow> nat \<Rightarrow> kv_block_pool" where
  "kp_with_layer_geom p layer elem = p\<lparr>kp_layer_geoms := (kp_layer_geoms p)(layer \<mapsto> elem)\<rparr>"

definition kp_owns_layer :: "kv_block_pool \<Rightarrow> nat \<Rightarrow> bool" where
  "kp_owns_layer p layer =
     (case kp_layer_range p of Some (a, b) \<Rightarrow> a \<le> layer \<and> layer < b | None \<Rightarrow> True)"

definition kp_attach_compressor :: "kv_block_pool \<Rightarrow> compressor \<Rightarrow> kv_block_pool" where
  "kp_attach_compressor p c = p\<lparr>kp_compressor := Some c\<rparr>"

definition kp_attach_spill :: "kv_block_pool \<Rightarrow> spill_manager \<Rightarrow> kv_block_pool" where
  "kp_attach_spill p s = p\<lparr>kp_spill := Some s\<rparr>"

section \<open>Pins and admission accounting\<close>

definition kp_pin_blocks :: "instant \<Rightarrow> kv_block_pool \<Rightarrow> nat list \<Rightarrow> nat \<Rightarrow> kv_block_pool" where
  "kp_pin_blocks now p bids secs =
     p\<lparr>kp_tree := rt_pin_blocks now (rt_sweep_expired_pins now (kp_tree p)) bids secs\<rparr>"

text \<open>A spilled, unreferenced, unpinned page: what \<open>reclaim_spilled_coldest\<close> looks for.\<close>

definition reclaimable :: "instant \<Rightarrow> kv_block_pool \<Rightarrow> nat \<Rightarrow> bool" where
  "reclaimable now p bid \<longleftrightarrow> kb_location (blk p bid) \<noteq> Gpu \<and> kp_ref_counts p bid = None
     \<and> \<not> rt_is_pinned now (kp_tree p) bid"

definition kp_allocatable_blocks :: "instant \<Rightarrow> kv_block_pool \<Rightarrow> nat \<times> kv_block_pool" where
  "kp_allocatable_blocks now p =
     (let p1 = p\<lparr>kp_tree := rt_sweep_expired_pins now (kp_tree p)\<rparr> in
      (length (kp_free_list p1) + rt_evictable_leaves now (kp_tree p1)
         + length (filter (reclaimable now p1) [0..<cap p1]), p1))"

definition kp_drop_oldest_pins :: "instant \<Rightarrow> kv_block_pool \<Rightarrow> nat \<Rightarrow> nat \<times> kv_block_pool" where
  "kp_drop_oldest_pins now p n =
     (case rt_drop_oldest_pins now (kp_tree p) n of (k, t) \<Rightarrow> (k, p\<lparr>kp_tree := t\<rparr>))"

section \<open>Elementary block updates\<close>

definition upd_block :: "nat \<Rightarrow> (kv_block \<Rightarrow> kv_block) \<Rightarrow> kv_block_pool \<Rightarrow> kv_block_pool" where
  "upd_block i f p = p\<lparr>kp_blocks := (kp_blocks p)[i := f (blk p i)]\<rparr>"

text \<open>\<open>num_tokens = 0; received = false; key_data.fill(0.0); value_data.fill(0.0)\<close>.\<close>

definition zero_block :: "kv_block \<Rightarrow> kv_block" where
  "zero_block b = b\<lparr>kb_num_tokens := 0, kb_received := False,
     kb_key_data := replicate (length (kb_key_data b)) 0,
     kb_value_data := replicate (length (kb_value_data b)) 0\<rparr>"

definition bump_demoted :: "kv_block_pool \<Rightarrow> kv_block_pool" where
  "bump_demoted p = p\<lparr>kp_telemetry := (kp_telemetry p)\<lparr>st_demoted_blocks := st_demoted_blocks (kp_telemetry p) + 1\<rparr>\<rparr>"

definition push_free :: "nat \<Rightarrow> kv_block_pool \<Rightarrow> kv_block_pool" where
  "push_free i p = p\<lparr>kp_free_list := kp_free_list p @ [i]\<rparr>"

definition drop_ref :: "nat \<Rightarrow> kv_block_pool \<Rightarrow> kv_block_pool" where
  "drop_ref i p = p\<lparr>kp_ref_counts := (kp_ref_counts p)(i := None)\<rparr>"

section \<open>Compression and spilling\<close>

text \<open>\<open>snapshot_block\<close> followed by \<open>compress\<close>: the slices panic when the rows exceed the buffers.\<close>

definition compress_block :: "kv_block_pool \<Rightarrow> nat \<Rightarrow> (kv_error, u8 list option) outcome" where
  "compress_block p i =
     (case kp_compressor p of
        None \<Rightarrow> Ok None
      | Some c \<Rightarrow>
          if cap p \<le> i then Panic
          else if kb_num_tokens (blk p i) = 0 then Ok None
          else (let rows = min (max (kb_num_tokens (blk p i)) 1) BLOCK_SIZE; n = rows * kp_elem p in
                if n > length (kb_key_data (blk p i)) \<or> n > length (kb_value_data (blk p i)) then Panic
                else (case cz_compress c rows (take n (kb_key_data (blk p i))) (take n (kb_value_data (blk p i))) of
                        None \<Rightarrow> Err CompressorFailed
                      | Some blob \<Rightarrow> Ok (Some blob))))"

text \<open>
  The three demotion attempts of \<open>free_with_tier\<close>, in order: packed, compressed, raw. Each answers
  whether the block reached the spill manager; a failed move on to NVMe keeps the host copy and
  still counts as demoted.
\<close>

definition spill_packed :: "env \<Rightarrow> kv_block \<Rightarrow> nat \<Rightarrow> spill_manager \<Rightarrow> bool \<times> spill_manager" where
  "spill_packed e b i s =
     (if \<not> env_packed e then (False, s)
      else (case kb_layer_packed b of
              Some (Packed fmt bytes) # _ \<Rightarrow>
                (case demote_packed s i (quant_format_code fmt) bytes of
                   (Ok _, s1) \<Rightarrow> (True, snd (demote_packed_to_nvme e s1 i))
                 | (_, s1) \<Rightarrow> (False, s1))
            | _ \<Rightarrow> (False, s)))"

definition spill_compressed :: "env \<Rightarrow> kv_block_pool \<Rightarrow> nat \<Rightarrow> spill_manager
    \<Rightarrow> (kv_error, bool) outcome \<times> spill_manager" where
  "spill_compressed e p i s =
     (case compress_block p i of
        Ok (Some blob) \<Rightarrow>
          (case demote_compressed s i blob of
             (Ok _, s1) \<Rightarrow> (Ok True, snd (demote_compressed_to_nvme e s1 i))
           | (_, s1) \<Rightarrow> (Ok False, s1))
      | Ok None \<Rightarrow> (Ok False, s)
      | Err _ \<Rightarrow> (Ok False, s)
      | Panic \<Rightarrow> (Panic, s)
      | Hang \<Rightarrow> (Hang, s))"

definition spill_raw :: "env \<Rightarrow> kv_block \<Rightarrow> nat \<Rightarrow> spill_manager \<Rightarrow> bool \<times> spill_manager" where
  "spill_raw e b i s =
     (case demote_to_host s i (kb_key_data b) (kb_value_data b) of
        (Ok _, s1) \<Rightarrow> (True, snd (demote_to_nvme e s1 i))
      | (_, s1) \<Rightarrow> (False, s1))"

text \<open>The compressed attempt with its raw fallback, shared by \<open>free_with_tier\<close> and \<open>evict_cold\<close>.\<close>

definition spill_comp_or_raw :: "env \<Rightarrow> kv_block_pool \<Rightarrow> nat \<Rightarrow> spill_manager
    \<Rightarrow> (kv_error, bool) outcome \<times> spill_manager" where
  "spill_comp_or_raw e p i s =
     and_then (spill_compressed e p i s) (\<lambda>done s1.
       if done then (Ok True, s1)
       else if cap p \<le> i then (Panic, s1)
       else (case spill_raw e (blk p i) i s1 of (d, s2) \<Rightarrow> (Ok d, s2)))"

definition spill_block :: "env \<Rightarrow> kv_block_pool \<Rightarrow> nat \<Rightarrow> spill_manager
    \<Rightarrow> (kv_error, bool) outcome \<times> spill_manager" where
  "spill_block e p i s =
     (if env_packed e \<and> cap p \<le> i then (Panic, s)
      else (case (if env_packed e then spill_packed e (blk p i) i s else (False, s)) of
              (True, s1) \<Rightarrow> (Ok True, s1)
            | (False, s1) \<Rightarrow> spill_comp_or_raw e p i s1))"

definition mark_demoted :: "nat \<Rightarrow> kv_block_pool \<Rightarrow> kv_block_pool" where
  "mark_demoted i p =
     (let p1 = bump_demoted (upd_block i (\<lambda>b. b\<lparr>kb_location := HostRam\<rparr>) p) in
      p1\<lparr>kp_recently_zero := kp_recently_zero p1 @ [i]\<rparr>)"

text \<open>In-place release: zero the contents, back to the device tier, onto the free list.\<close>

definition release_in_place :: "nat \<Rightarrow> kv_block_pool \<Rightarrow> kv_block_pool" where
  "release_in_place i p = push_free i (upd_block i (\<lambda>b. (zero_block b)\<lparr>kb_location := Gpu\<rparr>) p)"

section \<open>Freeing\<close>

definition release_block :: "env \<Rightarrow> kv_block_pool \<Rightarrow> nat \<Rightarrow> unit pool_result" where
  "release_block e p i =
     (case kp_spill p of
        Some s \<Rightarrow>
          (case spill_block e p i s of
             (Ok demoted, s1) \<Rightarrow>
               (let p1 = p\<lparr>kp_spill := Some s1\<rparr> in
                if demoted then (if cap p \<le> i then (Panic, p1) else (Ok (), mark_demoted i p1))
                else if rt_contains_block (kp_tree p1) i then (Ok (), p1)
                else if cap p \<le> i then (Panic, p1)
                else (Ok (), release_in_place i p1))
           | (Err err, s1) \<Rightarrow> (Err err, p\<lparr>kp_spill := Some s1\<rparr>)
           | (Panic, s1) \<Rightarrow> (Panic, p\<lparr>kp_spill := Some s1\<rparr>)
           | (Hang, s1) \<Rightarrow> (Hang, p\<lparr>kp_spill := Some s1\<rparr>))
      | None \<Rightarrow>
          if rt_contains_block (kp_tree p) i then (Ok (), p)
          else if cap p \<le> i then (Panic, p)
          else (Ok (), release_in_place i p))"

text \<open>
  \<open>free_with_tier\<close>: a shared block loses one reference; the last reference (or \<open>force\<close>) releases
  it. A stored count of 0 would make the decrement overflow.
\<close>

definition free_with_tier :: "env \<Rightarrow> kv_block_pool \<Rightarrow> nat \<Rightarrow> bool \<Rightarrow> unit pool_result" where
  "free_with_tier e p i force =
     (case kp_ref_counts p i of
        None \<Rightarrow> if \<not> force then (Ok (), p) else release_block e p i
      | Some cnt \<Rightarrow>
          if cnt > 1 \<and> \<not> force
          then (Ok (), p\<lparr>kp_ref_counts := (kp_ref_counts p)(i \<mapsto> cnt - 1)\<rparr>)
          else if cnt = 0 then (Panic, p)
          else if cnt - 1 = 0 then release_block e (drop_ref i p) i
          else release_block e (p\<lparr>kp_ref_counts := (kp_ref_counts p)(i \<mapsto> cnt - 1)\<rparr>) i)"

text \<open>\<open>free\<close> drops the result.\<close>

definition swallow :: "'a pool_result \<Rightarrow> unit pool_result" where
  "swallow r = (case r of (Ok _, p) \<Rightarrow> (Ok (), p) | (Err _, p) \<Rightarrow> (Ok (), p)
                        | (Panic, p) \<Rightarrow> (Panic, p) | (Hang, p) \<Rightarrow> (Hang, p))"

definition kp_free :: "env \<Rightarrow> kv_block_pool \<Rightarrow> nat \<Rightarrow> unit pool_result" where
  "kp_free e p i = swallow (free_with_tier e p i False)"

section \<open>Allocation and eviction\<close>

text \<open>The pruned ancestors of an eviction: zeroed, unreferenced, straight onto the free list.\<close>

definition free_ancestor :: "nat \<Rightarrow> kv_block_pool \<Rightarrow> kv_block_pool" where
  "free_ancestor a p = bump_demoted (push_free a (drop_ref a (upd_block a zero_block p)))"

fun evict_ancestors :: "nat list \<Rightarrow> kv_block_pool \<Rightarrow> unit pool_result" where
  "evict_ancestors [] p = (Ok (), p)"
| "evict_ancestors (a # as) p =
     (if cap p \<le> a then (Panic, p) else evict_ancestors as (free_ancestor a p))"

definition evict_in_place :: "kv_block_pool \<Rightarrow> nat \<Rightarrow> bool pool_result" where
  "evict_in_place p bid =
     (if cap p \<le> bid then (Panic, p)
      else (Ok True, push_free bid (drop_ref bid (upd_block bid zero_block p))))"

definition evict_cold :: "env \<Rightarrow> kv_block_pool \<Rightarrow> bool pool_result" where
  "evict_cold e p =
     (case rt_evict_coldest_chain (env_now e) (kp_tree p) of
        None \<Rightarrow> (Hang, p)
      | Some (chain, t') \<Rightarrow>
          (let p0 = p\<lparr>kp_tree := t'\<rparr> in
           case chain of
             [] \<Rightarrow> (Ok False, p0)
           | bid # ancestors \<Rightarrow>
               (case kp_ref_counts p0 bid of
                  Some (Suc _) \<Rightarrow> (Ok False, p0)
                | _ \<Rightarrow>
                    and_then (evict_ancestors ancestors p0) (\<lambda>_ p1.
                      (case kp_spill p1 of
                         None \<Rightarrow> evict_in_place p1 bid
                       | Some s \<Rightarrow>
                           (case spill_comp_or_raw e p1 bid s of
                              (Ok True, s1) \<Rightarrow>
                                (let p2 = p1\<lparr>kp_spill := Some s1\<rparr> in
                                 if cap p2 \<le> bid then (Panic, p2)
                                 else (Ok True, drop_ref bid (mark_demoted bid p2)))
                            | (Ok False, s1) \<Rightarrow> evict_in_place (p1\<lparr>kp_spill := Some s1\<rparr>) bid
                            | (Err err, s1) \<Rightarrow> (Err err, p1\<lparr>kp_spill := Some s1\<rparr>)
                            | (Panic, s1) \<Rightarrow> (Panic, p1\<lparr>kp_spill := Some s1\<rparr>)
                            | (Hang, s1) \<Rightarrow> (Hang, p1\<lparr>kp_spill := Some s1\<rparr>)))))))"

definition reclaim_spilled_coldest :: "instant \<Rightarrow> kv_block_pool \<Rightarrow> bool \<times> kv_block_pool" where
  "reclaim_spilled_coldest now p =
     (case find (reclaimable now p) [0..<cap p] of
        None \<Rightarrow> (False, p)
      | Some bid \<Rightarrow>
          (let p1 = p\<lparr>kp_tree := rt_remove (kp_tree p) [bid]\<rparr>;
               p2 = upd_block bid (\<lambda>b. b\<lparr>kb_num_tokens := 0, kb_received := False\<rparr>) p1;
               p3 = drop_ref bid p2;
               p4 = push_free bid (p3\<lparr>kp_dirty := hs_remove bid (kp_dirty p3)\<rparr>)
           in (True, p4\<lparr>kp_telemetry := (kp_telemetry p4)
                 \<lparr>st_reclaimed_for_alloc := st_reclaimed_for_alloc (kp_telemetry p4) + 1\<rparr>\<rparr>)))"

definition pop_free :: "kv_block_pool \<Rightarrow> nat pool_result" where
  "pop_free p =
     (case kp_free_list p of
        [] \<Rightarrow> (Err PoolExhausted, p)
      | i # rest \<Rightarrow> (Ok i, p\<lparr>kp_free_list := rest, kp_ref_counts := (kp_ref_counts p)(i \<mapsto> 1)\<rparr>))"

definition kp_alloc :: "env \<Rightarrow> kv_block_pool \<Rightarrow> nat pool_result" where
  "kp_alloc e p =
     and_then (if kp_free_list p = [] then evict_cold e p else (Ok True, p))
       (\<lambda>_ p1. pop_free
          (if kp_free_list p1 = [] then snd (reclaim_spilled_coldest (env_now e) p1) else p1))"

definition kp_add_ref :: "kv_block_pool \<Rightarrow> nat \<Rightarrow> kv_block_pool" where
  "kp_add_ref p i = p\<lparr>kp_ref_counts := (kp_ref_counts p)(i \<mapsto>
     (case kp_ref_counts p i of Some c \<Rightarrow> c | None \<Rightarrow> 0) + 1)\<rparr>"

definition kp_block_ref_count :: "kv_block_pool \<Rightarrow> nat \<Rightarrow> nat" where
  "kp_block_ref_count p i = (case kp_ref_counts p i of Some c \<Rightarrow> c | None \<Rightarrow> 0)"

definition kp_used_count :: "kv_block_pool \<Rightarrow> nat" where
  "kp_used_count p = cap p - length (kp_free_list p)"

section \<open>Resizing\<close>

fun shrink_pool :: "nat \<Rightarrow> nat \<Rightarrow> kv_block_pool \<Rightarrow> kv_block_pool" where
  "shrink_pool 0 new_capacity p = p"
| "shrink_pool (Suc k) new_capacity p =
     (if cap p > new_capacity then
        (case position (\<lambda>i. i = cap p - 1) (kp_free_list p) of
           Some pos \<Rightarrow>
             shrink_pool k new_capacity
               (p\<lparr>kp_free_list := remove_at pos (kp_free_list p), kp_blocks := butlast (kp_blocks p)\<rparr>)
         | None \<Rightarrow> p)
      else p)"

definition kp_resize_capacity :: "kv_block_pool \<Rightarrow> nat \<Rightarrow> kv_block_pool" where
  "kp_resize_capacity p new_capacity =
     (let cur = cap p in
      if new_capacity > cur
      then p\<lparr>kp_blocks := kp_blocks p @ map (fresh_block (kp_block_elem p)) [cur..<new_capacity],
             kp_free_list := kp_free_list p @ [cur..<new_capacity]\<rparr>
      else shrink_pool cur new_capacity p)"

section \<open>Promotion\<close>

definition install_block :: "kv_block_pool \<Rightarrow> nat \<Rightarrow> f32 list \<Rightarrow> f32 list
    \<Rightarrow> (f32 list \<times> f32 list) option pool_result" where
  "install_block p i k v =
     (if cap p \<le> i then (Panic, p)
      else (let kc = length (kb_key_data (blk p i)); vc = length (kb_value_data (blk p i)) in
            if length k \<noteq> kc \<or> length v \<noteq> vc
            then (Err (SpillGeometryMismatch i (length k) kc (length v) vc), p)
            else if kp_elem p = 0 then (Panic, p)
            else (let n = min (length k div kp_elem p) BLOCK_SIZE;
                      p1 = upd_block i (\<lambda>b. b\<lparr>kb_key_data := k, kb_value_data := v, kb_num_tokens := n,
                             kb_received := True, kb_location := Gpu\<rparr>) p
                  in (Ok (Some (k, v)),
                      p1\<lparr>kp_telemetry := (kp_telemetry p1)
                           \<lparr>st_promoted_blocks := st_promoted_blocks (kp_telemetry p1) + 1\<rparr>,
                         kp_dirty := hs_remove i (kp_dirty p1)\<rparr>))))"

definition lift_spill :: "kv_block_pool \<Rightarrow> 'a spill_result \<Rightarrow> 'a pool_result" where
  "lift_spill p r = (case r of (x, s) \<Rightarrow> (x, p\<lparr>kp_spill := Some s\<rparr>))"

definition promote_to_gpu :: "env \<Rightarrow> kv_block_pool \<Rightarrow> nat
    \<Rightarrow> (f32 list \<times> f32 list) option pool_result" where
  "promote_to_gpu e p i =
     (case kp_spill p of
        None \<Rightarrow> (Ok None, p)
      | Some s \<Rightarrow>
          and_then (lift_spill p (retrieve_compressed e s i)) (\<lambda>r p1.
            (case r of
               Some blob \<Rightarrow>
                 (case kp_compressor p1 of
                    None \<Rightarrow> (Err NoCompressor, p1)
                  | Some c \<Rightarrow>
                      (case cz_restore c blob of
                         None \<Rightarrow> (Err CompressorFailed, p1)
                       | Some (k, v) \<Rightarrow> install_block p1 i k v))
             | None \<Rightarrow>
                 and_then (lift_spill p1 (retrieve e (the (kp_spill p1)) i)) (\<lambda>r2 p2.
                   (case r2 of
                      Some (k, v) \<Rightarrow> install_block p2 i k v
                    | None \<Rightarrow> (Ok None, p2))))))"

text \<open>\<open>promote_to_gpu(bid).ok().flatten().is_some()\<close>, then the loop of \<open>match_prefix_promoting\<close>.\<close>

fun promote_loop :: "env \<Rightarrow> nat list \<Rightarrow> bool \<Rightarrow> kv_block_pool \<Rightarrow> bool pool_result" where
  "promote_loop e [] promoted p = (Ok promoted, p)"
| "promote_loop e (bid # bids) promoted p =
     (if cap p \<le> bid then (Panic, p)
      else if kb_location (blk p bid) = Gpu then promote_loop e bids promoted p
      else (case promote_to_gpu e p bid of
              (Ok (Some _), p1) \<Rightarrow> promote_loop e bids True p1
            | (Ok None, p1) \<Rightarrow> promote_loop e bids promoted p1
            | (Err _, p1) \<Rightarrow> promote_loop e bids promoted p1
            | (Panic, p1) \<Rightarrow> (Panic, p1)
            | (Hang, p1) \<Rightarrow> (Hang, p1)))"

section \<open>Prefix caching\<close>

definition kp_match_prefix :: "kv_block_pool \<Rightarrow> u32 list \<Rightarrow> nat list \<times> nat" where
  "kp_match_prefix p tokens = rt_match_prefix (kp_tree p) tokens"

definition match_prefix_with_recurrent :: "instant \<Rightarrow> kv_block_pool \<Rightarrow> u32 list
    \<Rightarrow> (nat list \<times> nat \<times> checkpoint option) \<times> kv_block_pool" where
  "match_prefix_with_recurrent now p tokens =
     (case match_prefix_with_anchor (kp_tree p) tokens of
        (matched, count, state_id) \<Rightarrow>
          (case state_id of
             None \<Rightarrow> ((matched, count, None), p)
           | Some i \<Rightarrow>
               (case rcp_get_by_node now (kp_checkpoints p) i of
                  (cp, cps) \<Rightarrow> ((matched, count, cp), p\<lparr>kp_checkpoints := cps\<rparr>))))"

definition match_prefix_promoting :: "env \<Rightarrow> kv_block_pool \<Rightarrow> u32 list
    \<Rightarrow> (nat list \<times> nat \<times> bool) pool_result" where
  "match_prefix_promoting e p tokens =
     (case rt_match_prefix (kp_tree p) tokens of
        (matched, n) \<Rightarrow> and_then (promote_loop e matched False p) (\<lambda>promoted p1.
          (Ok (matched, n, promoted), p1)))"

definition lift_tree :: "kv_block_pool \<Rightarrow> (unit, unit) outcome \<times> radix_tree \<Rightarrow> unit pool_result" where
  "lift_tree p r =
     (case r of
        (Ok _, t) \<Rightarrow> (Ok (), p\<lparr>kp_tree := t\<rparr>)
      | (Hang, t) \<Rightarrow> (Hang, p\<lparr>kp_tree := t\<rparr>)
      | (_, t) \<Rightarrow> (Panic, p\<lparr>kp_tree := t\<rparr>))"

definition insert_prefix :: "instant \<Rightarrow> kv_block_pool \<Rightarrow> u32 list \<Rightarrow> nat list \<Rightarrow> unit pool_result" where
  "insert_prefix now p tokens blocks =
     and_then (lift_tree p (rt_insert now (kp_tree p) tokens blocks)) (\<lambda>_ p1.
       (Ok (), p1\<lparr>kp_tree := rt_touch now (kp_tree p1) tokens\<rparr>))"

definition attach_anchor :: "instant \<Rightarrow> kv_block_pool \<Rightarrow> u32 list \<Rightarrow> nat list
    \<Rightarrow> recurrent_layer_state list \<Rightarrow> kv_block_pool" where
  "attach_anchor now p tokens blocks layer_states =
     (let anchors = find_anchors (kp_anchors p) tokens in
      if anchors = [] then p
      else (let off = last anchors; block_idx = min (off div BLOCK_SIZE) (length blocks - 1) in
            if block_idx < length blocks
            then (let target = blocks ! block_idx in
                  p\<lparr>kp_checkpoints := snd (rcp_store_checkpoint now (kp_checkpoints p) target off layer_states),
                    kp_tree := rt_attach_recurrent_state (kp_tree p) target target\<rparr>)
            else p))"

definition insert_prefix_with_recurrent_state_at :: "instant \<Rightarrow> kv_block_pool \<Rightarrow> u32 list
    \<Rightarrow> nat list \<Rightarrow> recurrent_layer_state list \<Rightarrow> nat \<Rightarrow> unit pool_result" where
  "insert_prefix_with_recurrent_state_at now p tokens blocks layer_states skip_blocks =
     and_then (lift_tree p (rt_insert_at now (kp_tree p) tokens blocks skip_blocks)) (\<lambda>_ p1.
       (Ok (), attach_anchor now (p1\<lparr>kp_tree := rt_touch now (kp_tree p1) tokens\<rparr>)
                 tokens blocks layer_states))"

definition insert_prefix_with_recurrent_state :: "instant \<Rightarrow> kv_block_pool \<Rightarrow> u32 list
    \<Rightarrow> nat list \<Rightarrow> recurrent_layer_state list \<Rightarrow> unit pool_result" where
  "insert_prefix_with_recurrent_state now p tokens blocks layer_states =
     insert_prefix_with_recurrent_state_at now p tokens blocks layer_states 0"

definition remove_prefix :: "kv_block_pool \<Rightarrow> nat list \<Rightarrow> kv_block_pool" where
  "remove_prefix p blocks = p\<lparr>kp_tree := rt_remove (kp_tree p) blocks\<rparr>"

definition demote_prefix_block :: "env \<Rightarrow> kv_block_pool \<Rightarrow> nat \<Rightarrow> bool pool_result" where
  "demote_prefix_block e p bid =
     (case kp_spill p of
        None \<Rightarrow> (Ok False, p)
      | Some s \<Rightarrow>
          if cap p \<le> bid then (Panic, p)
          else (case demote_to_host s bid (kb_key_data (blk p bid)) (kb_value_data (blk p bid)) of
                  (Ok _, s1) \<Rightarrow>
                    (case demote_to_nvme e s1 bid of
                       (Ok _, s2) \<Rightarrow>
                         (Ok True, bump_demoted (upd_block bid (\<lambda>b. b\<lparr>kb_location := NvMe\<rparr>) (p\<lparr>kp_spill := Some s2\<rparr>)))
                     | (_, s2) \<Rightarrow>
                         (Ok False, upd_block bid (\<lambda>b. b\<lparr>kb_location := HostRam\<rparr>) (p\<lparr>kp_spill := Some s2\<rparr>)))
                | (_, s1) \<Rightarrow> (Ok False, p\<lparr>kp_spill := Some s1\<rparr>)))"

definition demote_cold_prefix :: "env \<Rightarrow> kv_block_pool \<Rightarrow> nat option pool_result" where
  "demote_cold_prefix e p =
     (case rt_coldest_leaf (env_now e) (kp_tree p) of
        None \<Rightarrow> (Ok None, p)
      | Some bid \<Rightarrow> and_then (demote_prefix_block e p bid) (\<lambda>ok p1.
          (Ok (if ok then Some bid else None), p1)))"

fun alloc_many :: "env \<Rightarrow> nat \<Rightarrow> nat list \<Rightarrow> kv_block_pool \<Rightarrow> nat list pool_result" where
  "alloc_many e 0 acc p = (Ok acc, p)"
| "alloc_many e (Suc k) acc p = and_then (kp_alloc e p) (\<lambda>bid p1. alloc_many e k (acc @ [bid]) p1)"

definition find_or_share_prefix_tokens :: "env \<Rightarrow> kv_block_pool \<Rightarrow> u32 list
    \<Rightarrow> (nat list \<times> nat) pool_result" where
  "find_or_share_prefix_tokens e p tokens =
     (case rt_match_prefix (kp_tree p) tokens of
        (matched, matched_tokens) \<Rightarrow>
          and_then (alloc_many e (div_ceil (length tokens) BLOCK_SIZE - length matched) matched p)
            (\<lambda>all_blocks p1.
               and_then (insert_prefix (env_now e) (foldl kp_add_ref p1 matched) tokens all_blocks)
                 (\<lambda>_ p2. (Ok (all_blocks, matched_tokens), p2))))"

definition reset_block :: "kv_block_pool \<Rightarrow> nat \<Rightarrow> kv_block_pool" where
  "reset_block p i =
     (if kp_block_ref_count p i = 0 \<and> i \<notin> set (kp_free_list p)
      then push_free i (upd_block i (\<lambda>b. b\<lparr>kb_num_tokens := 0, kb_received := False\<rparr>) p)
      else p)"

definition reset_prefix_cache :: "instant \<Rightarrow> kv_block_pool \<Rightarrow> nat \<times> kv_block_pool" where
  "reset_prefix_cache now p =
     (let p1 = foldl reset_block (p\<lparr>kp_tree := rt_new now BLOCK_SIZE\<rparr>) [0..<cap p] in
      (length (kp_free_list p1) - length (kp_free_list p), p1\<lparr>kp_recently_zero := []\<rparr>))"

end
