(* ===== verification/BlockData.thy ===== *)
theory BlockData
  imports BlockPool
begin

text \<open>
  Reading and writing the contents of a block (\<open>crates/grim-memory/src/lib.rs\<close>, \<open>write_keys\<close> to
  \<open>set_received\<close>), the dirty-block flush, and the \<open>KvBlockStore\<close> view the transport crate has of
  the pool.
\<close>

section \<open>Writing layer 0\<close>

definition mark_dirty :: "kv_block_pool \<Rightarrow> nat \<Rightarrow> kv_block_pool" where
  "mark_dirty p i = (if i < cap p then p\<lparr>kp_dirty := hs_insert i (kp_dirty p)\<rparr> else p)"

definition is_dirty :: "kv_block_pool \<Rightarrow> nat \<Rightarrow> bool" where
  "is_dirty p i \<longleftrightarrow> i \<in> set (kp_dirty p)"

definition dirty_count :: "kv_block_pool \<Rightarrow> nat" where
  "dirty_count p = length (kp_dirty p)"

text \<open>\<open>write_keys\<close>: the rows are clamped to the block, the copy to the payload; the slice panics
  when the buffer is shorter than the copy.\<close>

definition write_keys :: "kv_block_pool \<Rightarrow> nat \<Rightarrow> f32 list \<Rightarrow> nat \<Rightarrow> unit pool_result" where
  "write_keys p i keys num_tokens =
     (if cap p \<le> i then (Panic, p)
      else (let n = min num_tokens BLOCK_SIZE; len = min (n * kp_elem p) (length keys) in
            if len > length (kb_key_data (blk p i)) then (Panic, p)
            else (Ok (), mark_dirty (upd_block i (\<lambda>b. b\<lparr>
                    kb_key_data := splice_at 0 (take len keys) (kb_key_data b),
                    kb_num_tokens := n,
                    kb_received := (if len > 0 then True else kb_received b)\<rparr>) p) i)))"

definition write_values :: "kv_block_pool \<Rightarrow> nat \<Rightarrow> f32 list \<Rightarrow> unit pool_result" where
  "write_values p i values =
     (if cap p \<le> i then (Panic, p)
      else (let len = min (kb_num_tokens (blk p i) * kp_elem p) (length values) in
            if len > length (kb_value_data (blk p i)) then (Panic, p)
            else (Ok (), mark_dirty (upd_block i (\<lambda>b. b\<lparr>
                    kb_value_data := splice_at 0 (take len values) (kb_value_data b)\<rparr>) p) i)))"

section \<open>Per-layer storage\<close>

text \<open>Elements of a block of one layer: the configured geometry, else the uniform one.\<close>

definition layer_elem :: "kv_block_pool \<Rightarrow> nat \<Rightarrow> nat" where
  "layer_elem p layer =
     (case kp_layer_geoms p layer of Some n \<Rightarrow> n | None \<Rightarrow> kp_block_elem p)"

text \<open>The growth loop \<open>for i in old_len..=layer\<close>.\<close>

definition grow_layers :: "kv_block_pool \<Rightarrow> nat \<Rightarrow> f32 list list \<Rightarrow> f32 list list" where
  "grow_layers p layer xs =
     (if length xs \<le> layer
      then xs @ map (\<lambda>i. if i = 0 then [] else replicate (layer_elem p i) 0) [length xs..<Suc layer]
      else xs)"

definition try_write_layer_keys :: "kv_block_pool \<Rightarrow> nat \<Rightarrow> nat \<Rightarrow> f32 list \<Rightarrow> nat \<Rightarrow> unit pool_result" where
  "try_write_layer_keys p i layer keys num_tokens =
     (if cap p \<le> i then (Err (BlockOutOfBounds i (cap p)), p)
      else if length keys > layer_elem p layer
      then (Err (PayloadTooLarge (length keys) (layer_elem p layer) layer), p)
      else if layer = 0 then
        (if length keys > length (kb_key_data (blk p i)) then (Panic, p)
         else (Ok (), mark_dirty (upd_block i (\<lambda>b. b\<lparr>
                 kb_key_data := splice_at 0 keys (kb_key_data b),
                 kb_num_tokens := min num_tokens BLOCK_SIZE,
                 kb_received := (if length keys > 0 then True else kb_received b)\<rparr>) p) i))
      else
        (let p1 = upd_block i (\<lambda>b. b\<lparr>kb_layer_keys := grow_layers p layer (kb_layer_keys b)\<rparr>) p;
             old = kb_layer_keys (blk p1 i) ! layer in
         if length keys > length old then (Panic, p1)
         else (Ok (), mark_dirty (upd_block i (\<lambda>b. b\<lparr>
                 kb_layer_keys := (kb_layer_keys b)[layer := splice_at 0 keys old]\<rparr>) p1) i)))"

definition try_write_layer_values :: "kv_block_pool \<Rightarrow> nat \<Rightarrow> nat \<Rightarrow> f32 list \<Rightarrow> unit pool_result" where
  "try_write_layer_values p i layer values =
     (if cap p \<le> i then (Err (BlockOutOfBounds i (cap p)), p)
      else if length values > layer_elem p layer
      then (Err (PayloadTooLarge (length values) (layer_elem p layer) layer), p)
      else if layer = 0 then
        (if length values > length (kb_value_data (blk p i)) then (Panic, p)
         else (Ok (), mark_dirty (upd_block i (\<lambda>b. b\<lparr>
                 kb_value_data := splice_at 0 values (kb_value_data b)\<rparr>) p) i))
      else
        (let p1 = upd_block i (\<lambda>b. b\<lparr>kb_layer_values := grow_layers p layer (kb_layer_values b)\<rparr>) p;
             old = kb_layer_values (blk p1 i) ! layer in
         if length values > length old then (Panic, p1)
         else (Ok (), mark_dirty (upd_block i (\<lambda>b. b\<lparr>
                 kb_layer_values := (kb_layer_values b)[layer := splice_at 0 values old]\<rparr>) p1) i)))"

text \<open>\<open>write_layer_keys\<close> and \<open>write_layer_values\<close> ignore the result.\<close>

definition write_layer_keys :: "kv_block_pool \<Rightarrow> nat \<Rightarrow> nat \<Rightarrow> f32 list \<Rightarrow> nat \<Rightarrow> unit pool_result" where
  "write_layer_keys p i layer keys num_tokens = swallow (try_write_layer_keys p i layer keys num_tokens)"

definition write_layer_values :: "kv_block_pool \<Rightarrow> nat \<Rightarrow> nat \<Rightarrow> f32 list \<Rightarrow> unit pool_result" where
  "write_layer_values p i layer values = swallow (try_write_layer_values p i layer values)"

definition try_write_layer_packed :: "kv_block_pool \<Rightarrow> nat \<Rightarrow> nat \<Rightarrow> kv_quant_format \<Rightarrow> u8 list \<Rightarrow> nat
    \<Rightarrow> unit pool_result" where
  "try_write_layer_packed p i layer fmt bytes num_tokens =
     (if cap p \<le> i then (Err (BlockOutOfBounds i (cap p)), p)
      else (Ok (), mark_dirty (upd_block i (\<lambda>b. b\<lparr>
              kb_layer_packed := (kb_layer_packed b
                  @ replicate (Suc layer - length (kb_layer_packed b)) None)[layer := Some (Packed fmt bytes)],
              kb_num_tokens := min num_tokens BLOCK_SIZE,
              kb_received := True\<rparr>) p) i))"

section \<open>Reading\<close>

definition read_layer_packed :: "kv_block_pool \<Rightarrow> nat \<Rightarrow> nat \<Rightarrow> layer_storage option" where
  "read_layer_packed p i layer =
     (if i < cap p \<and> layer < length (kb_layer_packed (blk p i)) then kb_layer_packed (blk p i) ! layer
      else None)"

definition read_layer_keys :: "kv_block_pool \<Rightarrow> nat \<Rightarrow> nat \<Rightarrow> f32 list option" where
  "read_layer_keys p i layer =
     (if cap p \<le> i then None
      else if layer = 0 then Some (kb_key_data (blk p i))
      else if layer < length (kb_layer_keys (blk p i)) then Some (kb_layer_keys (blk p i) ! layer)
      else None)"

definition read_layer_values :: "kv_block_pool \<Rightarrow> nat \<Rightarrow> nat \<Rightarrow> f32 list option" where
  "read_layer_values p i layer =
     (if cap p \<le> i then None
      else if layer = 0 then Some (kb_value_data (blk p i))
      else if layer < length (kb_layer_values (blk p i)) then Some (kb_layer_values (blk p i) ! layer)
      else None)"

definition kp_num_layers :: "kv_block_pool \<Rightarrow> nat \<Rightarrow> nat" where
  "kp_num_layers p i = (if cap p \<le> i then 0 else max (length (kb_layer_keys (blk p i))) 1)"

definition block_is_received :: "kv_block_pool \<Rightarrow> nat \<Rightarrow> bool" where
  "block_is_received p i \<longleftrightarrow> i < cap p \<and> kb_received (blk p i)"

definition block_num_tokens :: "kv_block_pool \<Rightarrow> nat \<Rightarrow> nat option" where
  "block_num_tokens p i =
     (if i < cap p \<and> kb_received (blk p i) then Some (kb_num_tokens (blk p i)) else None)"

definition set_received :: "kv_block_pool \<Rightarrow> nat \<Rightarrow> bool \<Rightarrow> kv_block_pool" where
  "set_received p i received =
     (if i < cap p
      then upd_block i (\<lambda>b. b\<lparr>kb_num_tokens := (if received then kb_num_tokens b else 0),
                              kb_received := received\<rparr>) p
      else p)"

text \<open>The \<open>read_keys\<close> and \<open>read_values\<close> of the \<open>KvBlockStore\<close> implementation.\<close>

definition store_read_keys :: "kv_block_pool \<Rightarrow> nat \<Rightarrow> f32 list option" where
  "store_read_keys p i = (if i < cap p then Some (kb_key_data (blk p i)) else None)"

definition store_read_values :: "kv_block_pool \<Rightarrow> nat \<Rightarrow> f32 list option" where
  "store_read_values p i = (if i < cap p then Some (kb_value_data (blk p i)) else None)"

definition pending_demote_count :: "kv_block_pool \<Rightarrow> nat" where
  "pending_demote_count p = length (kp_recently_zero p)"

definition clear_demote_queue :: "kv_block_pool \<Rightarrow> kv_block_pool" where
  "clear_demote_queue p = p\<lparr>kp_recently_zero := []\<rparr>"

definition put_ssm_state :: "kv_block_pool \<Rightarrow> u32 \<Rightarrow> f32 list \<Rightarrow> kv_block_pool" where
  "put_ssm_state p r st = p\<lparr>kp_ssm_states := (kp_ssm_states p)(r \<mapsto> st)\<rparr>"

section \<open>Flushing\<close>

text \<open>
  The loop over the drained ids: \<open>?\<close> leaves it on the first failing write, with every id already
  drained from the dirty set.
\<close>

fun flush_loop :: "nat list \<Rightarrow> kv_block_pool \<Rightarrow> unit pool_result" where
  "flush_loop [] p = (Ok (), p)"
| "flush_loop (i # is) p =
     (if i < cap p \<and> kb_location (blk p i) = Gpu then
        and_then (lift_spill p (demote_to_host (the (kp_spill p)) i (kb_key_data (blk p i)) (kb_value_data (blk p i))))
          (\<lambda>_ p1. flush_loop is p1)
      else flush_loop is p)"

definition flush_dirty_to_host :: "kv_block_pool \<Rightarrow> nat pool_result" where
  "flush_dirty_to_host p =
     (case kp_spill p of
        None \<Rightarrow> (Ok (length (kp_dirty p)), p\<lparr>kp_dirty := []\<rparr>)
      | Some _ \<Rightarrow>
          and_then (flush_loop (kp_dirty p) (p\<lparr>kp_dirty := []\<rparr>)) (\<lambda>_ p1.
            (Ok (length (kp_dirty p)), p1)))"

text \<open>\<open>KvDeviceMirror::sync_dirty_from_pool\<close> on this pool.\<close>

definition sync_mirror :: "device_mirror \<Rightarrow> kv_block_pool \<Rightarrow> nat \<times> device_mirror" where
  "sync_mirror m p = dm_sync_dirty (cap p) (\<lambda>i. (kb_key_data (blk p i), kb_value_data (blk p i))) m"

section \<open>Round trips\<close>

text \<open>What every write keeps: the number of blocks and the geometry.\<close>

lemma cap_upd_block [simp]: "cap (upd_block i f p) = cap p"
  by (simp add: upd_block_def)

lemma blk_upd_block: "j < cap p \<Longrightarrow> blk (upd_block i f p) j = (if j = i then f (blk p i) else blk p j)"
  by (simp add: upd_block_def)

lemma mark_dirty_simps [simp]:
  "kp_blocks (mark_dirty p i) = kp_blocks p"
  "i < cap p \<Longrightarrow> set (kp_dirty (mark_dirty p i)) = insert i (set (kp_dirty p))"
  "kp_layer_geoms (mark_dirty p i) = kp_layer_geoms p"
  "kp_spill (mark_dirty p i) = kp_spill p"
  by (simp_all add: mark_dirty_def)

lemma length_grow_layers: "layer < length (grow_layers p layer xs)"
  by (simp add: grow_layers_def)

lemma nth_grow_layers:
  "j < length (grow_layers p layer xs) \<Longrightarrow> grow_layers p layer xs ! j =
     (if j < length xs then xs ! j else if j = 0 then [] else replicate (layer_elem p j) 0)"
  by (auto simp: grow_layers_def nth_append nth_map simp del: upt_Suc split: if_splits)

text \<open>A layer write that succeeds is read back as a prefix of the layer's buffer.\<close>

lemma write_layer_keys_read:
  assumes "try_write_layer_keys p i layer keys n = (Ok (), p')"
  shows "\<exists>buf. read_layer_keys p' i layer = Some buf \<and> take (length keys) buf = keys"
    and "i < cap p'" and "is_dirty p' i"
  using assms length_grow_layers [of layer p "kb_layer_keys (blk p i)"]
  by (auto simp: try_write_layer_keys_def read_layer_keys_def Let_def blk_upd_block is_dirty_def
      split: if_splits)

lemma write_layer_keys_frame:
  assumes "try_write_layer_keys p i layer keys n = (Ok (), p')" and "(j, l) \<noteq> (i, layer)"
    and "read_layer_keys p j l = Some buf"
  shows "read_layer_keys p' j l = Some buf"
  using assms
  by (auto simp: try_write_layer_keys_def read_layer_keys_def Let_def blk_upd_block nth_grow_layers
      split: if_splits) (auto simp: grow_layers_def nth_append)

lemma write_layer_values_read:
  assumes "try_write_layer_values p i layer vals = (Ok (), p')"
  shows "\<exists>buf. read_layer_values p' i layer = Some buf \<and> take (length vals) buf = vals"
    and "i < cap p'" and "is_dirty p' i"
  using assms length_grow_layers [of layer p "kb_layer_values (blk p i)"]
  by (auto simp: try_write_layer_values_def read_layer_values_def Let_def blk_upd_block is_dirty_def
      split: if_splits)

lemma write_layer_packed_read:
  assumes "try_write_layer_packed p i layer fmt bytes n = (Ok (), p')"
  shows "read_layer_packed p' i layer = Some (Packed fmt bytes)"
    and "block_num_tokens p' i = Some (min n BLOCK_SIZE)"
  using assms
  by (auto simp: try_write_layer_packed_def read_layer_packed_def block_num_tokens_def blk_upd_block
      split: if_splits)

text \<open>Every layer buffer a write can reach is sized by its geometry, so the write cannot panic.\<close>

definition layers_sized :: "kv_block_pool \<Rightarrow> bool" where
  "layers_sized p \<longleftrightarrow>
     (\<forall>b \<in> set (kp_blocks p).
        length (kb_key_data b) = layer_elem p 0 \<and> length (kb_value_data b) = layer_elem p 0
        \<and> (\<forall>l. 0 < l \<and> l < length (kb_layer_keys b) \<longrightarrow> length (kb_layer_keys b ! l) = layer_elem p l)
        \<and> (\<forall>l. 0 < l \<and> l < length (kb_layer_values b) \<longrightarrow> length (kb_layer_values b ! l) = layer_elem p l))"

lemma layers_sizedD:
  assumes "layers_sized p" and "i < cap p"
  shows "length (kb_key_data (blk p i)) = layer_elem p 0"
    and "length (kb_value_data (blk p i)) = layer_elem p 0"
    and "0 < l \<Longrightarrow> l < length (kb_layer_keys (blk p i)) \<Longrightarrow> length (kb_layer_keys (blk p i) ! l) = layer_elem p l"
    and "0 < l \<Longrightarrow> l < length (kb_layer_values (blk p i)) \<Longrightarrow> length (kb_layer_values (blk p i) ! l) = layer_elem p l"
  using assms nth_mem [of i "kp_blocks p"] unfolding layers_sized_def by blast+

lemma layer_elem_cong:
  "kp_layer_geoms q = kp_layer_geoms p \<Longrightarrow> kp_num_heads q = kp_num_heads p
    \<Longrightarrow> kp_head_dim q = kp_head_dim p \<Longrightarrow> layer_elem q l = layer_elem p l"
  by (simp add: layer_elem_def kp_block_elem_def kp_elem_def split: option.splits)

lemma layers_sized_upd_block:
  assumes "layers_sized p" and "i < cap p" and "kp_blocks q = (kp_blocks p)[i := b]"
    and "kp_layer_geoms q = kp_layer_geoms p" "kp_num_heads q = kp_num_heads p" "kp_head_dim q = kp_head_dim p"
    and "length (kb_key_data b) = layer_elem p 0" "length (kb_value_data b) = layer_elem p 0"
    and "\<And>l. 0 < l \<Longrightarrow> l < length (kb_layer_keys b) \<Longrightarrow> length (kb_layer_keys b ! l) = layer_elem p l"
    and "\<And>l. 0 < l \<Longrightarrow> l < length (kb_layer_values b) \<Longrightarrow> length (kb_layer_values b ! l) = layer_elem p l"
  shows "layers_sized q"
  using assms(1) set_update_subset_insert [of "kp_blocks p" i b] assms(7-10)
  unfolding layers_sized_def assms(3) layer_elem_cong [OF assms(4-6)] by blast

lemma write_layer_keys_total:
  assumes sized: "layers_sized p" and i: "i < cap p" and len: "length keys \<le> layer_elem p layer"
  shows "\<exists>p'. try_write_layer_keys p i layer keys n = (Ok (), p') \<and> layers_sized p' \<and> cap p' = cap p"
proof (cases "layer = 0")
  case True
  let ?f = "\<lambda>b. b\<lparr>kb_key_data := splice_at 0 keys (kb_key_data b), kb_num_tokens := min n BLOCK_SIZE,
      kb_received := (if length keys > 0 then True else kb_received b)\<rparr>"
  have fit: "length keys \<le> length (kb_key_data (blk p i))" using layers_sizedD(1) [OF sized i] len True by simp
  have "layers_sized (mark_dirty (upd_block i ?f p) i)"
    by (rule layers_sized_upd_block [OF sized i, where b = "?f (blk p i)"])
      (use layers_sizedD [OF sized i] fit in
        \<open>simp_all add: upd_block_def mark_dirty_def\<close>)
  with True i len fit show ?thesis by (simp add: try_write_layer_keys_def)
next
  case False
  let ?g = "grow_layers p layer (kb_layer_keys (blk p i))"
  have g: "layer < length ?g" by (rule length_grow_layers)
  have el: "length (?g ! l) = layer_elem p l" if "0 < l" "l < length ?g" for l
    using that layers_sizedD(3) [OF sized i] by (auto simp: nth_grow_layers)
  have fit: "length keys \<le> length (?g ! layer)" using el [of layer] False g len by simp
  let ?h = "\<lambda>b. b\<lparr>kb_layer_keys := grow_layers p layer (kb_layer_keys b)\<rparr>"
  let ?f = "\<lambda>b. b\<lparr>kb_layer_keys := (kb_layer_keys b)[layer := splice_at 0 keys (?g ! layer)]\<rparr>"
  have "layers_sized (mark_dirty (upd_block i ?f (upd_block i ?h p)) i)"
    by (rule layers_sized_upd_block [OF sized i, where b = "?f (?h (blk p i))"])
      (use layers_sizedD [OF sized i] fit i el g in
        \<open>auto simp: upd_block_def mark_dirty_def nth_list_update\<close>)
  with False i len fit show ?thesis
    by (simp add: try_write_layer_keys_def Let_def blk_upd_block)
qed

lemma write_layer_values_total:
  assumes sized: "layers_sized p" and i: "i < cap p" and len: "length vals \<le> layer_elem p layer"
  shows "\<exists>p'. try_write_layer_values p i layer vals = (Ok (), p') \<and> layers_sized p' \<and> cap p' = cap p"
proof (cases "layer = 0")
  case True
  let ?f = "\<lambda>b. b\<lparr>kb_value_data := splice_at 0 vals (kb_value_data b)\<rparr>"
  have fit: "length vals \<le> length (kb_value_data (blk p i))" using layers_sizedD(2) [OF sized i] len True by simp
  have "layers_sized (mark_dirty (upd_block i ?f p) i)"
    by (rule layers_sized_upd_block [OF sized i, where b = "?f (blk p i)"])
      (use layers_sizedD [OF sized i] fit in \<open>simp_all add: upd_block_def mark_dirty_def\<close>)
  with True i len fit show ?thesis by (simp add: try_write_layer_values_def)
next
  case False
  let ?g = "grow_layers p layer (kb_layer_values (blk p i))"
  have g: "layer < length ?g" by (rule length_grow_layers)
  have el: "length (?g ! l) = layer_elem p l" if "0 < l" "l < length ?g" for l
    using that layers_sizedD(4) [OF sized i] by (auto simp: nth_grow_layers)
  have fit: "length vals \<le> length (?g ! layer)" using el [of layer] False g len by simp
  let ?h = "\<lambda>b. b\<lparr>kb_layer_values := grow_layers p layer (kb_layer_values b)\<rparr>"
  let ?f = "\<lambda>b. b\<lparr>kb_layer_values := (kb_layer_values b)[layer := splice_at 0 vals (?g ! layer)]\<rparr>"
  have "layers_sized (mark_dirty (upd_block i ?f (upd_block i ?h p)) i)"
    by (rule layers_sized_upd_block [OF sized i, where b = "?f (?h (blk p i))"])
      (use layers_sizedD [OF sized i] fit i el g in
        \<open>auto simp: upd_block_def mark_dirty_def nth_list_update\<close>)
  with False i len fit show ?thesis
    by (simp add: try_write_layer_values_def Let_def blk_upd_block)
qed

text \<open>A layer write moves only the contents: the geometry, and the other half of the block, stay.\<close>

lemma write_layer_keys_geometry:
  "try_write_layer_keys p i layer keys n = (Ok (), p') \<Longrightarrow>
     cap p' = cap p \<and> kp_layer_geoms p' = kp_layer_geoms p \<and> kp_num_heads p' = kp_num_heads p
     \<and> kp_head_dim p' = kp_head_dim p"
  by (auto simp: try_write_layer_keys_def Let_def mark_dirty_def upd_block_def split: if_splits)

lemma write_layer_values_geometry:
  "try_write_layer_values p i layer vals = (Ok (), p') \<Longrightarrow>
     cap p' = cap p \<and> kp_layer_geoms p' = kp_layer_geoms p \<and> kp_num_heads p' = kp_num_heads p
     \<and> kp_head_dim p' = kp_head_dim p"
  by (auto simp: try_write_layer_values_def Let_def mark_dirty_def upd_block_def split: if_splits)

lemma write_layer_values_keys:
  "try_write_layer_values p i layer vals = (Ok (), p') \<Longrightarrow> read_layer_keys p' j l = read_layer_keys p j l"
  by (auto simp: try_write_layer_values_def read_layer_keys_def Let_def blk_upd_block split: if_splits)

section \<open>What a flush writes\<close>

text \<open>
  The host tier after the loop: every listed block resident on the device has its current contents
  there; the blocks themselves do not change.
\<close>

lemma flush_loop_spec:
  assumes "kp_spill p = Some s" and "raw_inv s"
    and "\<forall>i < cap p. length (kb_key_data (blk p i)) = sm_block_elems s \<and> length (kb_value_data (blk p i)) = sm_block_elems s"
  shows "\<exists>s'. flush_loop is p = (Ok (), p\<lparr>kp_spill := Some s'\<rparr>) \<and> raw_inv s'
    \<and> sm_block_elems s' = sm_block_elems s
    \<and> (\<forall>i. raw_view s' i = (if i \<in> set is \<and> i < cap p \<and> kb_location (blk p i) = Gpu
             then Some (kb_key_data (blk p i), kb_value_data (blk p i)) else raw_view s i))"
  using assms
proof (induction "is" arbitrary: p s)
  case Nil
  then show ?case by (intro exI [of _ s]) simp
next
  case (Cons j js)
  show ?case
  proof (cases "j < cap p \<and> kb_location (blk p j) = Gpu")
    case False
    with Cons.IH [OF Cons.prems] show ?thesis by auto
  next
    case True
    let ?kv = "(kb_key_data (blk p j), kb_value_data (blk p j))"
    let ?s = "raw_put s j ?kv"
    let ?p = "p\<lparr>kp_spill := Some ?s\<rparr>"
    have adm: "raw_admissible s ?kv" using Cons.prems(3) True by (simp add: raw_admissible_def)
    have put: "demote_to_host s j (fst ?kv) (snd ?kv) = (Ok (), ?s)" and el: "sm_block_elems ?s = sm_block_elems s"
      using adm by (simp_all add: raw_put_def demote_to_host_def raw_admissible_def)
    have "\<exists>s'. flush_loop js ?p = (Ok (), ?p\<lparr>kp_spill := Some s'\<rparr>) \<and> raw_inv s'
      \<and> sm_block_elems s' = sm_block_elems ?s
      \<and> (\<forall>i. raw_view s' i = (if i \<in> set js \<and> i < cap ?p \<and> kb_location (blk ?p i) = Gpu
             then Some (kb_key_data (blk ?p i), kb_value_data (blk ?p i)) else raw_view ?s i))"
      by (rule Cons.IH) (use Cons.prems(3) el raw_put_inv [OF Cons.prems(2) adm] in simp_all)
    then obtain s' where s': "flush_loop js ?p = (Ok (), p\<lparr>kp_spill := Some s'\<rparr>)" "raw_inv s'"
      "sm_block_elems s' = sm_block_elems s"
      "\<forall>i. raw_view s' i = (if i \<in> set js \<and> i < cap p \<and> kb_location (blk p i) = Gpu
             then Some (kb_key_data (blk p i), kb_value_data (blk p i)) else raw_view ?s i)"
      using el by auto
    have "flush_loop (j # js) p = (Ok (), p\<lparr>kp_spill := Some s'\<rparr>)"
      using True Cons.prems(1) put s'(1) by (simp add: lift_spill_def)
    with s' raw_put_view [OF Cons.prems(2) adm] True show ?thesis by (intro exI [of _ s']) auto
  qed
qed

end
