(* ===== verification/PoolInvariant.thy ===== *)
theory PoolInvariant
  imports BlockData
begin

text \<open>
  The invariant of the block pool and what each operation does to it: free list, reference counts
  and prefix tree never disagree on which blocks are allocatable, whatever the spill tier answers.
\<close>

section \<open>The invariant\<close>

definition bufs_ok :: "kv_block_pool \<Rightarrow> bool" where
  "bufs_ok p \<longleftrightarrow> (\<forall>b \<in> set (kp_blocks p).
     length (kb_key_data b) = kp_block_elem p \<and> length (kb_value_data b) = kp_block_elem p)"

definition tree_ok :: "kv_block_pool \<Rightarrow> bool" where
  "tree_ok p \<longleftrightarrow> rt_wf (kp_tree p) \<and> rt_tight (kp_tree p) \<and> rt_block_size (kp_tree p) = BLOCK_SIZE
     \<and> dom (rt_block_to_node (kp_tree p)) \<subseteq> {..<cap p}"

definition alloc_ok :: "kv_block_pool \<Rightarrow> bool" where
  "alloc_ok p \<longleftrightarrow> distinct (kp_free_list p) \<and> set (kp_free_list p) \<subseteq> {..<cap p}
     \<and> (\<forall>i \<in> set (kp_free_list p). kp_ref_counts p i = None)
     \<and> (\<forall>i c. kp_ref_counts p i = Some c \<longrightarrow> i < cap p \<and> 0 < c)"

definition pool_inv :: "kv_block_pool \<Rightarrow> bool" where
  "pool_inv p \<longleftrightarrow> bufs_ok p \<and> tree_ok p \<and> alloc_ok p"

text \<open>Cached content is not allocatable: no block of the tree is on the free list.\<close>

definition cache_kept :: "kv_block_pool \<Rightarrow> bool" where
  "cache_kept p \<longleftrightarrow> set (kp_free_list p) \<inter> dom (rt_block_to_node (kp_tree p)) = {}"

text \<open>No page is lost: free, referenced, cached, or spilled.\<close>

definition accounted :: "kv_block_pool \<Rightarrow> bool" where
  "accounted p \<longleftrightarrow> (\<forall>i < cap p. i \<in> set (kp_free_list p) \<or> kp_ref_counts p i \<noteq> None
     \<or> rt_contains_block (kp_tree p) i \<or> kb_location (blk p i) \<noteq> Gpu)"

section \<open>Fields the elementary updates touch\<close>

lemma upd_block_simps [simp]:
  "kp_free_list (upd_block i f p) = kp_free_list p" "kp_ref_counts (upd_block i f p) = kp_ref_counts p"
  "kp_tree (upd_block i f p) = kp_tree p" "kp_spill (upd_block i f p) = kp_spill p"
  "kp_compressor (upd_block i f p) = kp_compressor p" "kp_elem (upd_block i f p) = kp_elem p"
  "kp_block_elem (upd_block i f p) = kp_block_elem p"
  by (simp_all add: upd_block_def kp_elem_def kp_block_elem_def)

lemma bump_demoted_simps [simp]:
  "kp_blocks (bump_demoted p) = kp_blocks p"
  "kp_free_list (bump_demoted p) = kp_free_list p" "kp_ref_counts (bump_demoted p) = kp_ref_counts p"
  "kp_tree (bump_demoted p) = kp_tree p" "kp_spill (bump_demoted p) = kp_spill p"
  "kp_compressor (bump_demoted p) = kp_compressor p" "kp_elem (bump_demoted p) = kp_elem p"
  "kp_block_elem (bump_demoted p) = kp_block_elem p"
  by (simp_all add: bump_demoted_def kp_elem_def kp_block_elem_def)

lemma push_free_simps [simp]:
  "kp_blocks (push_free i p) = kp_blocks p"
  "kp_free_list (push_free i p) = kp_free_list p @ [i]" "kp_ref_counts (push_free i p) = kp_ref_counts p"
  "kp_tree (push_free i p) = kp_tree p" "kp_spill (push_free i p) = kp_spill p"
  "kp_compressor (push_free i p) = kp_compressor p" "kp_elem (push_free i p) = kp_elem p"
  "kp_block_elem (push_free i p) = kp_block_elem p"
  by (simp_all add: push_free_def kp_elem_def kp_block_elem_def)

lemma drop_ref_simps [simp]:
  "kp_blocks (drop_ref i p) = kp_blocks p"
  "kp_free_list (drop_ref i p) = kp_free_list p" "kp_ref_counts (drop_ref i p) = (kp_ref_counts p)(i := None)"
  "kp_tree (drop_ref i p) = kp_tree p" "kp_spill (drop_ref i p) = kp_spill p"
  "kp_compressor (drop_ref i p) = kp_compressor p" "kp_elem (drop_ref i p) = kp_elem p"
  "kp_block_elem (drop_ref i p) = kp_block_elem p"
  by (simp_all add: drop_ref_def kp_elem_def kp_block_elem_def)

lemma mark_demoted_simps [simp]:
  "cap (mark_demoted i p) = cap p"
  "kp_free_list (mark_demoted i p) = kp_free_list p" "kp_ref_counts (mark_demoted i p) = kp_ref_counts p"
  "kp_tree (mark_demoted i p) = kp_tree p" "kp_spill (mark_demoted i p) = kp_spill p"
  "kp_block_elem (mark_demoted i p) = kp_block_elem p"
  by (simp_all add: mark_demoted_def Let_def kp_elem_def kp_block_elem_def upd_block_def bump_demoted_def)

lemma release_in_place_simps [simp]:
  "cap (release_in_place i p) = cap p"
  "kp_free_list (release_in_place i p) = kp_free_list p @ [i]"
  "kp_ref_counts (release_in_place i p) = kp_ref_counts p"
  "kp_tree (release_in_place i p) = kp_tree p" "kp_spill (release_in_place i p) = kp_spill p"
  "kp_block_elem (release_in_place i p) = kp_block_elem p"
  by (simp_all add: release_in_place_def)

lemma spill_update_simps [simp]:
  "kp_elem (p\<lparr>kp_spill := x\<rparr>) = kp_elem p" "kp_block_elem (p\<lparr>kp_spill := x\<rparr>) = kp_block_elem p"
  "kp_elem (p\<lparr>kp_tree := t\<rparr>) = kp_elem p" "kp_block_elem (p\<lparr>kp_tree := t\<rparr>) = kp_block_elem p"
  "kp_elem (p\<lparr>kp_ref_counts := r\<rparr>) = kp_elem p" "kp_block_elem (p\<lparr>kp_ref_counts := r\<rparr>) = kp_block_elem p"
  "kp_elem (p\<lparr>kp_free_list := l\<rparr>) = kp_elem p" "kp_block_elem (p\<lparr>kp_free_list := l\<rparr>) = kp_block_elem p"
  by (simp_all add: kp_elem_def kp_block_elem_def)

text \<open>The part of the pool \<open>pool_inv\<close> reads, and its congruence.\<close>

lemma bufs_ok_upd_block:
  assumes "bufs_ok p"
    and "\<And>b. length (kb_key_data (f b)) = length (kb_key_data b)"
    and "\<And>b. length (kb_value_data (f b)) = length (kb_value_data b)"
    and "i < cap p"
  shows "bufs_ok (upd_block i f p)"
  unfolding bufs_ok_def
proof
  fix b assume "b \<in> set (kp_blocks (upd_block i f p))"
  then have "b \<in> insert (f (blk p i)) (set (kp_blocks p))"
    using set_update_subset_insert [of "kp_blocks p" i "f (blk p i)"] by (auto simp: upd_block_def)
  with assms nth_mem [OF assms(4)] show "length (kb_key_data b) = kp_block_elem (upd_block i f p)
      \<and> length (kb_value_data b) = kp_block_elem (upd_block i f p)"
    by (auto simp: bufs_ok_def)
qed

lemma bufs_ok_cong: "kp_blocks q = kp_blocks p \<Longrightarrow> kp_block_elem q = kp_block_elem p \<Longrightarrow> bufs_ok q = bufs_ok p"
  by (simp add: bufs_ok_def)

lemma zero_block_lengths [simp]:
  "length (kb_key_data (zero_block b)) = length (kb_key_data b)"
  "length (kb_value_data (zero_block b)) = length (kb_value_data b)"
  by (simp_all add: zero_block_def)

lemma bufs_ok_mark_demoted: "bufs_ok p \<Longrightarrow> i < cap p \<Longrightarrow> bufs_ok (mark_demoted i p)"
proof -
  assume b: "bufs_ok p" "i < cap p"
  have "bufs_ok (upd_block i (\<lambda>b. b\<lparr>kb_location := HostRam\<rparr>) p)"
    by (rule bufs_ok_upd_block [OF b(1) _ _ b(2)]) simp_all
  then show ?thesis
    by (subst bufs_ok_cong [of _ "upd_block i (\<lambda>b. b\<lparr>kb_location := HostRam\<rparr>) p"])
      (simp_all add: mark_demoted_def Let_def upd_block_def bump_demoted_def kp_block_elem_def kp_elem_def)
qed

lemma bufs_ok_release_in_place: "bufs_ok p \<Longrightarrow> i < cap p \<Longrightarrow> bufs_ok (release_in_place i p)"
proof -
  assume b: "bufs_ok p" "i < cap p"
  have "bufs_ok (upd_block i (\<lambda>b. (zero_block b)\<lparr>kb_location := Gpu\<rparr>) p)"
    by (rule bufs_ok_upd_block [OF b(1) _ _ b(2)]) simp_all
  then show ?thesis
    by (subst bufs_ok_cong [of _ "upd_block i (\<lambda>b. (zero_block b)\<lparr>kb_location := Gpu\<rparr>) p"])
      (simp_all add: release_in_place_def)
qed

lemma bufs_okD: "bufs_ok p \<Longrightarrow> i < cap p \<Longrightarrow> length (kb_key_data (blk p i)) = kp_block_elem p"
  "bufs_ok p \<Longrightarrow> i < cap p \<Longrightarrow> length (kb_value_data (blk p i)) = kp_block_elem p"
  by (auto simp: bufs_ok_def)

section \<open>A new pool\<close>

lemma pool_inv_new: "pool_inv (kp_new_on_device now ra n h d dev)"
proof -
  let ?p = "kp_new_on_device now ra n h d dev"
  have "bufs_ok ?p"
    by (auto simp: bufs_ok_def kp_new_on_device_def Let_def fresh_block_def kp_block_elem_def kp_elem_def)
  moreover have "tree_ok ?p"
    by (simp add: tree_ok_def kp_new_on_device_def Let_def rt_wf_new rt_tight_new) (simp add: rt_new_def)
  moreover have "alloc_ok ?p" by (auto simp: alloc_ok_def kp_new_on_device_def Let_def)
  ultimately show ?thesis by (simp add: pool_inv_def)
qed

lemma cache_kept_new: "cache_kept (kp_new_on_device now ra n h d dev)"
  by (simp add: cache_kept_def kp_new_on_device_def Let_def rt_new_def)

lemma accounted_new: "accounted (kp_new_on_device now ra n h d dev)"
  by (simp add: accounted_def kp_new_on_device_def Let_def)

section \<open>Spilling never panics\<close>

lemma spill_compressed_ok:
  assumes "bufs_ok p" and "i < cap p"
  shows "\<exists>d s'. spill_compressed e p i s = (Ok d, s')"
proof -
  have n: "min (max (kb_num_tokens (blk p i)) 1) BLOCK_SIZE * kp_elem p \<le> kp_block_elem p"
    by (simp add: kp_block_elem_def)
  have "compress_block p i \<noteq> Panic \<and> compress_block p i \<noteq> Hang"
    using assms(2) n bufs_okD [OF assms]
    by (auto simp: compress_block_def Let_def split: option.splits)
  then show ?thesis
    by (auto simp: spill_compressed_def split: outcome.splits option.splits prod.splits)
qed

lemma spill_comp_or_raw_ok:
  assumes "bufs_ok p" and "i < cap p"
  shows "\<exists>d s'. spill_comp_or_raw e p i s = (Ok d, s')"
proof -
  obtain d s1 where s1: "spill_compressed e p i s = (Ok d, s1)"
    using spill_compressed_ok [OF assms] by blast
  show ?thesis
    using assms(2) by (cases d; cases "spill_raw e (blk p i) i s1") (auto simp: spill_comp_or_raw_def s1)
qed

lemma spill_block_ok:
  assumes "bufs_ok p" and "i < cap p"
  shows "\<exists>d s'. spill_block e p i s = (Ok d, s')"
proof -
  obtain d s1 where s1: "(if env_packed e then spill_packed e (blk p i) i s else (False, s)) = (d, s1)"
    by (cases "if env_packed e then spill_packed e (blk p i) i s else (False, s)") auto
  show ?thesis
    using assms(2) spill_comp_or_raw_ok [OF assms, of e s1]
    by (cases d) (auto simp: spill_block_def s1)
qed

section \<open>Releasing a block\<close>

text \<open>
  Releasing an unreferenced block in range: it is spilled, kept as cached content, or returned to
  the free list, and nothing else of the allocator moves.
\<close>

lemma release_block_spec:
  assumes inv: "pool_inv p" and i: "i < cap p" and nf: "i \<notin> set (kp_free_list p)"
    and rc: "kp_ref_counts p i = None"
  shows "\<exists>p'. release_block e p i = (Ok (), p') \<and> pool_inv p' \<and> cap p' = cap p
    \<and> kp_ref_counts p' = kp_ref_counts p \<and> kp_tree p' = kp_tree p
    \<and> (\<forall>j < cap p. j \<noteq> i \<longrightarrow> blk p' j = blk p j)
    \<and> ((kp_free_list p' = kp_free_list p \<and> rt_contains_block (kp_tree p) i \<and> blk p' i = blk p i)
       \<or> (kp_free_list p' = kp_free_list p \<and> kp_spill p \<noteq> None \<and> kb_location (blk p' i) = HostRam)
       \<or> (kp_free_list p' = kp_free_list p @ [i] \<and> \<not> rt_contains_block (kp_tree p) i
          \<and> kb_location (blk p' i) = Gpu))"
proof -
  have bufs: "bufs_ok p" and tree: "tree_ok p" and alloc: "alloc_ok p" using inv by (auto simp: pool_inv_def)
  have inv_spill: "pool_inv (p\<lparr>kp_spill := x\<rparr>)" for x
    using inv by (simp add: pool_inv_def bufs_ok_def tree_ok_def alloc_ok_def)
  have inv_rel: "pool_inv (release_in_place i q)"
    if "pool_inv q" "cap q = cap p" "kp_free_list q = kp_free_list p" "kp_ref_counts q = kp_ref_counts p" for q
    using that i nf rc bufs_ok_release_in_place [of q i]
    by (auto simp: pool_inv_def tree_ok_def alloc_ok_def)
  have inv_dem: "pool_inv (mark_demoted i q)" if "pool_inv q" "cap q = cap p" for q
    using that i bufs_ok_mark_demoted [of q i] by (auto simp: pool_inv_def tree_ok_def alloc_ok_def)
  have frame: "blk (release_in_place i q) j = blk q j" "blk (mark_demoted i q) j = blk q j"
    if "j \<noteq> i" for q j
    using that by (simp_all add: release_in_place_def mark_demoted_def upd_block_def Let_def)
  have self: "kb_location (blk (release_in_place i q) i) = Gpu" "kb_location (blk (mark_demoted i q) i) = HostRam"
    if "cap q = cap p" for q
    using that i by (simp_all add: release_in_place_def mark_demoted_def upd_block_def Let_def)
  show ?thesis
  proof (cases "kp_spill p")
    case None
    show ?thesis
    proof (cases "rt_contains_block (kp_tree p) i")
      case True
      then show ?thesis using None inv by (simp add: release_block_def)
    next
      case False
      then show ?thesis using None i inv_rel [OF inv] frame(1) self(1) by (simp add: release_block_def)
    qed
  next
    case (Some s)
    obtain d s1 where r: "spill_block e p i s = (Ok d, s1)" using spill_block_ok [OF bufs i] by blast
    let ?q = "p\<lparr>kp_spill := Some s1\<rparr>"
    show ?thesis
    proof (cases d)
      case True
      then show ?thesis
        using Some r i inv_dem [OF inv_spill [of "Some s1"]] frame(2) [of _ ?q] self(2) [of ?q]
        by (simp add: release_block_def Let_def)
    next
      case d: False
      show ?thesis
      proof (cases "rt_contains_block (kp_tree p) i")
        case True
        then show ?thesis using Some r d inv_spill by (simp add: release_block_def Let_def)
      next
        case False
        then show ?thesis
          using Some r d i inv_rel [OF inv_spill [of "Some s1"]] frame(1) [of _ ?q] self(1) [of ?q]
          by (simp add: release_block_def Let_def)
      qed
    qed
  qed
qed

section \<open>free, add_ref\<close>

lemma pool_inv_set_ref:
  assumes "pool_inv p" and "i < cap p" and "i \<notin> set (kp_free_list p)" and "0 < c"
  shows "pool_inv (p\<lparr>kp_ref_counts := (kp_ref_counts p)(i \<mapsto> c)\<rparr>)"
  using assms by (auto simp: pool_inv_def bufs_ok_def tree_ok_def alloc_ok_def)

lemma pool_inv_drop_ref: "pool_inv p \<Longrightarrow> pool_inv (drop_ref i p)"
  by (auto simp: pool_inv_def bufs_ok_def tree_ok_def alloc_ok_def)

lemma pool_inv_ref_range:
  "pool_inv p \<Longrightarrow> kp_ref_counts p i = Some c \<Longrightarrow> i < cap p \<and> 0 < c \<and> i \<notin> set (kp_free_list p)"
  by (auto simp: pool_inv_def alloc_ok_def)

lemma pool_inv_add_ref:
  "pool_inv p \<Longrightarrow> i < cap p \<Longrightarrow> i \<notin> set (kp_free_list p) \<Longrightarrow> pool_inv (kp_add_ref p i)"
  unfolding kp_add_ref_def by (rule pool_inv_set_ref) simp_all

lemma ref_count_add_ref:
  "kp_block_ref_count (kp_add_ref p i) j = kp_block_ref_count p j + (if j = i then 1 else 0)"
  by (simp add: kp_block_ref_count_def kp_add_ref_def)

text \<open>A free of a held block always succeeds, takes exactly one reference, and keeps the invariant.\<close>

lemma kp_free_spec:
  assumes inv: "pool_inv p"
  shows "\<exists>p'. kp_free e p i = (Ok (), p') \<and> pool_inv p' \<and> cap p' = cap p \<and> kp_tree p' = kp_tree p
    \<and> (\<forall>j. kp_block_ref_count p' j = kp_block_ref_count p j - (if j = i then 1 else 0))
    \<and> (\<forall>j < cap p. j \<noteq> i \<longrightarrow> blk p' j = blk p j)
    \<and> (kp_free_list p' = kp_free_list p
        \<or> (kp_free_list p' = kp_free_list p @ [i] \<and> kp_block_ref_count p i = 1
            \<and> \<not> rt_contains_block (kp_tree p) i))
    \<and> (kp_block_ref_count p i = 1 \<longrightarrow> i \<in> set (kp_free_list p') \<or> rt_contains_block (kp_tree p) i
         \<or> kb_location (blk p' i) \<noteq> Gpu)
    \<and> (kp_block_ref_count p i \<noteq> 1 \<longrightarrow> blk p' i = blk p i)"
proof (cases "kp_ref_counts p i")
  case None
  then show ?thesis
    using inv by (simp add: kp_free_def swallow_def free_with_tier_def kp_block_ref_count_def)
next
  case (Some c)
  note r = pool_inv_ref_range [OF inv Some]
  show ?thesis
  proof (cases "c > 1")
    case True
    let ?q = "p\<lparr>kp_ref_counts := (kp_ref_counts p)(i \<mapsto> c - 1)\<rparr>"
    have "pool_inv ?q" by (rule pool_inv_set_ref [OF inv]) (use r True in simp_all)
    then show ?thesis
      using Some True
      by (intro exI [of _ ?q]) (simp add: kp_free_def swallow_def free_with_tier_def kp_block_ref_count_def)
  next
    case False
    with r have c: "c = 1" by simp
    have run: "free_with_tier e p i False = release_block e (drop_ref i p) i"
      using Some c by (simp add: free_with_tier_def)
    obtain p' where p': "release_block e (drop_ref i p) i = (Ok (), p')" "pool_inv p'"
      "cap p' = cap p" "kp_ref_counts p' = (kp_ref_counts p)(i := None)" "kp_tree p' = kp_tree p"
      "\<forall>j < cap p. j \<noteq> i \<longrightarrow> blk p' j = blk p j"
      "(kp_free_list p' = kp_free_list p \<and> rt_contains_block (kp_tree p) i)
       \<or> (kp_free_list p' = kp_free_list p \<and> kb_location (blk p' i) = HostRam)
       \<or> (kp_free_list p' = kp_free_list p @ [i] \<and> \<not> rt_contains_block (kp_tree p) i)"
    proof -
      have pre: "i < cap (drop_ref i p)" "i \<notin> set (kp_free_list (drop_ref i p))"
        "kp_ref_counts (drop_ref i p) i = None" using r by simp_all
      from release_block_spec [OF pool_inv_drop_ref [OF inv, of i] pre, where e = e] that
      show thesis by auto
    qed
    have "kp_block_ref_count p i = 1" using Some c by (simp add: kp_block_ref_count_def)
    moreover have "kp_block_ref_count p' j = kp_block_ref_count p j - (if j = i then 1 else 0)" for j
      using p'(4) Some c by (simp add: kp_block_ref_count_def)
    ultimately show ?thesis
      using p' by (intro exI [of _ p']) (auto simp: kp_free_def swallow_def run)
  qed
qed

lemma kp_free_cache_kept:
  assumes "pool_inv p" and "cache_kept p"
  shows "cache_kept (snd (kp_free e p i))"
proof -
  obtain p' where p': "kp_free e p i = (Ok (), p')" "kp_tree p' = kp_tree p"
    "kp_free_list p' = kp_free_list p
      \<or> (kp_free_list p' = kp_free_list p @ [i] \<and> \<not> rt_contains_block (kp_tree p) i)"
    using kp_free_spec [OF assms(1), of e i] by blast
  from p'(3) assms(2) show ?thesis
    by (elim disjE) (auto simp: cache_kept_def p'(1,2) rt_contains_block_def)
qed

lemma kp_free_accounted:
  assumes inv: "pool_inv p" and a: "accounted p"
  shows "accounted (snd (kp_free e p i))"
proof -
  obtain p' where p': "kp_free e p i = (Ok (), p')" "cap p' = cap p" "kp_tree p' = kp_tree p"
    "\<forall>j. kp_block_ref_count p' j = kp_block_ref_count p j - (if j = i then 1 else 0)"
    "\<forall>j < cap p. j \<noteq> i \<longrightarrow> blk p' j = blk p j"
    "kp_free_list p' = kp_free_list p \<or> kp_free_list p' = kp_free_list p @ [i]" "pool_inv p'"
    "kp_block_ref_count p i = 1 \<longrightarrow> i \<in> set (kp_free_list p') \<or> rt_contains_block (kp_tree p) i
         \<or> kb_location (blk p' i) \<noteq> Gpu"
    "kp_block_ref_count p i \<noteq> 1 \<longrightarrow> blk p' i = blk p i"
    using kp_free_spec [OF inv, of e i] by blast
  then have mono: "set (kp_free_list p) \<subseteq> set (kp_free_list p')" by auto
  have held: "kp_ref_counts q j \<noteq> None \<longleftrightarrow> kp_block_ref_count q j \<noteq> 0" if "pool_inv q" for q j
    using that by (auto simp: kp_block_ref_count_def pool_inv_def alloc_ok_def split: option.splits)
  have "j \<in> set (kp_free_list p') \<or> kp_ref_counts p' j \<noteq> None
      \<or> rt_contains_block (kp_tree p') j \<or> kb_location (blk p' j) \<noteq> Gpu" if j: "j < cap p" for j
  proof (cases "j = i \<and> kp_block_ref_count p i = 1")
    case True
    then show ?thesis using p'(3,8) by auto
  next
    case False
    then have b: "blk p' j = blk p j" using p'(5,9) j by (cases "j = i") auto
    have "j \<in> set (kp_free_list p) \<or> kp_ref_counts p j \<noteq> None
      \<or> rt_contains_block (kp_tree p) j \<or> kb_location (blk p j) \<noteq> Gpu" using a j by (auto simp: accounted_def)
    moreover have "kp_ref_counts p j \<noteq> None \<Longrightarrow> kp_ref_counts p' j \<noteq> None"
      unfolding held [OF inv] held [OF p'(7)] using p'(4) False by (cases "j = i") auto
    ultimately show ?thesis using p'(3) mono b by auto
  qed
  then show ?thesis by (simp add: accounted_def p'(1,2))
qed

section \<open>Eviction\<close>

lemma evict_ancestors_spec:
  assumes "\<forall>a \<in> set as. a < cap p" and "bufs_ok p"
  shows "\<exists>p'. evict_ancestors as p = (Ok (), p') \<and> cap p' = cap p \<and> bufs_ok p'
    \<and> kp_free_list p' = kp_free_list p @ as
    \<and> kp_ref_counts p' = (\<lambda>i. if i \<in> set as then None else kp_ref_counts p i)
    \<and> kp_tree p' = kp_tree p \<and> kp_spill p' = kp_spill p
    \<and> kp_block_elem p' = kp_block_elem p"
  using assms
proof (induction as arbitrary: p)
  case Nil
  then show ?case by simp
next
  case (Cons a as)
  let ?q = "free_ancestor a p"
  have q: "cap ?q = cap p" "kp_free_list ?q = kp_free_list p @ [a]" "kp_tree ?q = kp_tree p"
    "kp_ref_counts ?q = (kp_ref_counts p)(a := None)" "kp_spill ?q = kp_spill p"
    "kp_block_elem ?q = kp_block_elem p"
    by (simp_all add: free_ancestor_def)
  have "bufs_ok (upd_block a zero_block p)"
    by (rule bufs_ok_upd_block [OF Cons.prems(2)]) (use Cons.prems(1) in simp_all)
  then have "bufs_ok ?q"
    by (subst bufs_ok_cong [of _ "upd_block a zero_block p"]) (simp_all add: free_ancestor_def)
  then show ?case using Cons.IH [of ?q] Cons.prems(1) by (auto simp: q fun_eq_iff)
qed

text \<open>
  What eviction does to the allocator. The chain leaves the tree. If its leaf is referenced, that is
  all. Otherwise the whole chain loses its references; the ancestors, and the leaf unless it was
  spilled, become allocatable.
\<close>

lemma evict_cold_spec:
  assumes inv: "pool_inv p" and empty: "kp_free_list p = []"
  shows "\<exists>chain t' r p'. rt_evict_coldest_chain (env_now e) (kp_tree p) = Some (chain, t')
    \<and> evict_cold e p = (Ok r, p') \<and> pool_inv p' \<and> cap p' = cap p \<and> kp_tree p' = t'
    \<and> set (kp_free_list p') \<subseteq> set chain
    \<and> kp_ref_counts p' = (if chain = [] \<or> kp_ref_counts p (hd chain) \<noteq> None then kp_ref_counts p
         else (\<lambda>i. if i \<in> set chain then None else kp_ref_counts p i))
    \<and> (kp_free_list p' \<noteq> [] \<longrightarrow> kp_ref_counts p (hd chain) = None)
    \<and> (r \<and> kp_spill p = None \<longrightarrow> kp_free_list p' \<noteq> [])
    \<and> (\<not> r \<longrightarrow> (chain = [] \<or> kp_ref_counts p (hd chain) \<noteq> None) \<and> kp_blocks p' = kp_blocks p)"
proof -
  have bufs: "bufs_ok p" and tree: "tree_ok p" and alloc: "alloc_ok p" using inv by (auto simp: pool_inv_def)
  have wf: "rt_wf (kp_tree p)" "rt_tight (kp_tree p)" using tree by (auto simp: tree_ok_def)
  obtain chain t' where run: "rt_evict_coldest_chain (env_now e) (kp_tree p) = Some (chain, t')"
    using evict_coldest_chain_total [OF wf] by (metis surj_pair)
  note ch = evict_coldest_chain_spec [OF wf run]
  let ?p0 = "p\<lparr>kp_tree := t'\<rparr>"
  have "set chain \<subseteq> {..<cap p}" using ch tree unfolding tree_ok_def by (meson order_trans)
  then have in_range: "\<forall>a \<in> set chain. a < cap p" by auto
  have tree0: "tree_ok q" if "kp_tree q = t'" "cap q = cap p" for q
  proof -
    have "dom (rt_block_to_node t') \<subseteq> dom (rt_block_to_node (kp_tree p))" using ch by auto
    then have "dom (rt_block_to_node t') \<subseteq> {..<cap p}" using tree unfolding tree_ok_def by (meson order_trans)
    with that ch tree show ?thesis unfolding tree_ok_def by simp
  qed
  have inv0: "pool_inv ?p0"
    using inv tree0 [of ?p0] by (simp add: pool_inv_def bufs_ok_def alloc_ok_def)
  show ?thesis
  proof (cases chain)
    case Nil
    then show ?thesis using run inv0 empty
      by (intro exI [of _ chain] exI [of _ t'] exI [of _ False]) (simp add: evict_cold_def Let_def)
  next
    case (Cons bid anc)
    show ?thesis
    proof (cases "kp_ref_counts p bid")
      case (Some c)
      then obtain c' where "c = Suc c'" using pool_inv_ref_range [OF inv Some] by (cases c) auto
      then show ?thesis using run inv0 empty Some Cons
        by (intro exI [of _ chain] exI [of _ t'] exI [of _ False]) (simp add: evict_cold_def Let_def)
    next
      case None
      have bid: "bid < cap p" and anc: "\<forall>a \<in> set anc. a < cap ?p0" using in_range Cons by auto
      have dist: "distinct anc" "bid \<notin> set anc" using ch Cons by auto
      have bufs0: "bufs_ok ?p0" using bufs by (simp add: bufs_ok_def)
      obtain p1 where p1: "evict_ancestors anc ?p0 = (Ok (), p1)" "cap p1 = cap p" "bufs_ok p1"
        "kp_free_list p1 = anc" "kp_ref_counts p1 = (\<lambda>i. if i \<in> set anc then None else kp_ref_counts p i)"
        "kp_tree p1 = t'" "kp_spill p1 = kp_spill p" "kp_block_elem p1 = kp_block_elem p"
      proof -
        from evict_ancestors_spec [OF anc bufs0] obtain q where
          "evict_ancestors anc ?p0 = (Ok (), q)" "cap q = cap ?p0" "bufs_ok q"
          "kp_free_list q = kp_free_list ?p0 @ anc"
          "kp_ref_counts q = (\<lambda>i. if i \<in> set anc then None else kp_ref_counts ?p0 i)"
          "kp_tree q = kp_tree ?p0" "kp_spill q = kp_spill ?p0" "kp_block_elem q = kp_block_elem ?p0"
          by blast
        then show thesis using empty by (intro that [of q]) (simp_all cong: if_cong)
      qed
      have alloc1: "alloc_ok q"
        if "cap q = cap p" "kp_free_list q = anc \<or> kp_free_list q = anc @ [bid]"
          "kp_ref_counts q = (kp_ref_counts p1)(bid := None)" for q
        using that alloc dist bid anc None by (auto simp: alloc_ok_def p1(5) split: if_splits)
      have place: "\<exists>p'. evict_in_place q bid = (Ok True, p') \<and> pool_inv p' \<and> cap p' = cap p
          \<and> kp_tree p' = t' \<and> kp_free_list p' = anc @ [bid]
          \<and> kp_ref_counts p' = (kp_ref_counts p1)(bid := None)"
        if q: "kp_blocks q = kp_blocks p1" "kp_free_list q = anc" "kp_ref_counts q = kp_ref_counts p1"
          "kp_tree q = t'" "kp_block_elem q = kp_block_elem p1" for q
      proof -
        let ?r = "push_free bid (drop_ref bid (upd_block bid zero_block q))"
        have cq: "cap q = cap p" using q(1) p1(2) by simp
        have "bufs_ok q" using p1(3) q(1,5) by (simp add: bufs_ok_def)
        then have "bufs_ok (upd_block bid zero_block q)"
          by (rule bufs_ok_upd_block) (use bid cq in simp_all)
        then have "bufs_ok ?r" by (simp add: bufs_ok_def)
        moreover have "tree_ok ?r" by (rule tree0) (use q cq in simp_all)
        moreover have "alloc_ok ?r" by (rule alloc1) (use q cq in simp_all)
        ultimately show ?thesis using bid q cq by (simp add: evict_in_place_def pool_inv_def)
      qed
      have go: "evict_cold e p = (case kp_spill p1 of
            None \<Rightarrow> evict_in_place p1 bid
          | Some s \<Rightarrow> (case spill_comp_or_raw e p1 bid s of
              (Ok True, s1) \<Rightarrow>
                (let p2 = p1\<lparr>kp_spill := Some s1\<rparr> in
                 if cap p2 \<le> bid then (Panic, p2) else (Ok True, drop_ref bid (mark_demoted bid p2)))
            | (Ok False, s1) \<Rightarrow> evict_in_place (p1\<lparr>kp_spill := Some s1\<rparr>) bid
            | (Err err, s1) \<Rightarrow> (Err err, p1\<lparr>kp_spill := Some s1\<rparr>)
            | (Panic, s1) \<Rightarrow> (Panic, p1\<lparr>kp_spill := Some s1\<rparr>)
            | (Hang, s1) \<Rightarrow> (Hang, p1\<lparr>kp_spill := Some s1\<rparr>)))"
        using run Cons None p1(1) by (simp add: evict_cold_def Let_def)
      show ?thesis
      proof (cases "kp_spill p")
        case s: None
        then have "evict_cold e p = evict_in_place p1 bid" using go p1(7) by simp
        moreover obtain p' where "evict_in_place p1 bid = (Ok True, p')" "pool_inv p'" "cap p' = cap p"
          "kp_tree p' = t'" "kp_free_list p' = anc @ [bid]"
          "kp_ref_counts p' = (kp_ref_counts p1)(bid := None)"
          using place [of p1] p1(4,6) by auto
        ultimately show ?thesis using run Cons None p1(5)
          by (intro exI [of _ chain] exI [of _ t'] exI [of _ True]) (simp add: fun_eq_iff)
      next
        case s: (Some s)
        obtain d s1 where r: "spill_comp_or_raw e p1 bid s = (Ok d, s1)"
          using spill_comp_or_raw_ok [OF p1(3)] bid p1(2) by metis
        show ?thesis
        proof (cases d)
          case True
          let ?p2 = "drop_ref bid (mark_demoted bid (p1\<lparr>kp_spill := Some s1\<rparr>))"
          have "bufs_ok (p1\<lparr>kp_spill := Some s1\<rparr>)" using p1(3) by (simp add: bufs_ok_def)
          then have "bufs_ok (mark_demoted bid (p1\<lparr>kp_spill := Some s1\<rparr>))"
            by (rule bufs_ok_mark_demoted) (use bid p1(2) in simp)
          then have "bufs_ok ?p2" by (simp add: bufs_ok_def)
          moreover have "tree_ok ?p2" by (rule tree0) (use p1 in simp_all)
          moreover have "alloc_ok ?p2" by (rule alloc1) (use p1 in simp_all)
          moreover have "evict_cold e p = (Ok True, ?p2)"
            using go s r True p1(2,7) bid by (simp add: Let_def)
          ultimately show ?thesis
            using run Cons None s p1
            by (intro exI [of _ chain] exI [of _ t'] exI [of _ True]) (auto simp: pool_inv_def fun_eq_iff)
        next
          case False
          then have "evict_cold e p = evict_in_place (p1\<lparr>kp_spill := Some s1\<rparr>) bid"
            using go s r p1(7) by simp
          moreover obtain p' where "evict_in_place (p1\<lparr>kp_spill := Some s1\<rparr>) bid = (Ok True, p')"
            "pool_inv p'" "cap p' = cap p"
            "kp_tree p' = t'" "kp_free_list p' = anc @ [bid]"
            "kp_ref_counts p' = (kp_ref_counts p1)(bid := None)"
            using place [of "p1\<lparr>kp_spill := Some s1\<rparr>"] p1(4,6) by auto
          ultimately show ?thesis using run Cons None p1(5)
            by (intro exI [of _ chain] exI [of _ t'] exI [of _ True]) (simp add: fun_eq_iff)
        qed
      qed
    qed
  qed
qed

section \<open>Reclaiming a spilled page\<close>

lemma reclaim_spec:
  assumes inv: "pool_inv p" and empty: "kp_free_list p = []"
  shows "case reclaim_spilled_coldest now p of (r, p') \<Rightarrow>
    pool_inv p' \<and> cap p' = cap p \<and> kp_ref_counts p' = kp_ref_counts p
    \<and> shape (kp_tree p') = shape (kp_tree p)
    \<and> (if r then \<exists>b. kp_free_list p' = [b] \<and> b < cap p \<and> reclaimable now p b
       else p' = p \<and> (\<forall>b < cap p. \<not> reclaimable now p b))"
proof (cases "find (reclaimable now p) [0..<cap p]")
  case None
  then have "\<forall>b < cap p. \<not> reclaimable now p b" by (auto simp: find_None_iff)
  with None show ?thesis using inv by (simp add: reclaim_spilled_coldest_def)
next
  case (Some b)
  then have b: "b < cap p" "reclaimable now p b" by (auto simp: find_Some_iff)
  then have rc: "kp_ref_counts p b = None" by (simp add: reclaimable_def)
  let ?f = "\<lambda>b. b\<lparr>kb_num_tokens := 0, kb_received := False\<rparr>"
  let ?p' = "snd (reclaim_spilled_coldest now p)"
  have eq: "fst (reclaim_spilled_coldest now p) = True"
    "kp_blocks ?p' = kp_blocks (upd_block b ?f p)" "kp_free_list ?p' = [b]"
    "kp_ref_counts ?p' = kp_ref_counts p" "kp_tree ?p' = rt_remove (kp_tree p) [b]"
    "kp_block_elem ?p' = kp_block_elem p"
    using Some rc empty
    by (simp_all add: reclaim_spilled_coldest_def Let_def upd_block_def drop_ref_def push_free_def
        kp_block_elem_def kp_elem_def fun_upd_idem)
  have "bufs_ok (upd_block b ?f p)"
    by (rule bufs_ok_upd_block) (use inv b in \<open>simp_all add: pool_inv_def\<close>)
  then have "bufs_ok ?p'" by (subst bufs_ok_cong [OF eq(2)]) (simp_all add: eq)
  moreover have "shape (rt_remove (kp_tree p) [b]) = shape (kp_tree p)" by (rule shape_remove)
  note sh = this
  have "tree_ok ?p'"
    using inv rt_wf_shape [OF sh] rt_tight_shape [OF sh] shape_nth(3,4) [OF sh]
    by (simp add: tree_ok_def pool_inv_def eq del: rt_remove.simps)
  moreover have "alloc_ok ?p'" using inv b rc by (auto simp: alloc_ok_def pool_inv_def eq)
  ultimately have "pool_inv ?p'" by (simp add: pool_inv_def)
  then show ?thesis using eq b sh
    by (cases "reclaim_spilled_coldest now p") (simp del: rt_remove.simps)
qed

section \<open>Allocation\<close>

lemma pop_free_spec:
  assumes inv: "pool_inv p" and run: "pop_free p = (Ok i, p')"
  shows "pool_inv p'" and "i \<in> set (kp_free_list p)" and "kp_ref_counts p i = None"
    and "i < cap p" and "cap p' = cap p" and "kp_tree p' = kp_tree p"
    and "kp_ref_counts p' = (kp_ref_counts p)(i \<mapsto> 1)"
    and "kp_free_list p = i # kp_free_list p'" and "kp_blocks p' = kp_blocks p"
proof -
  obtain rest where r: "kp_free_list p = i # rest"
    "p' = p\<lparr>kp_free_list := rest, kp_ref_counts := (kp_ref_counts p)(i \<mapsto> 1)\<rparr>"
    using run by (auto simp: pop_free_def split: list.splits)
  show "pool_inv p'" using inv r
    by (auto simp: pool_inv_def bufs_ok_def tree_ok_def alloc_ok_def kp_block_elem_def kp_elem_def)
  show "i \<in> set (kp_free_list p)" "kp_ref_counts p i = None" "i < cap p"
    using inv r by (auto simp: pool_inv_def alloc_ok_def)
qed (use run in \<open>auto simp: pop_free_def split: list.splits\<close>)

text \<open>
  With blocks on the free list, an allocation cannot fail: it takes the oldest free block, gives it
  one reference, and moves nothing else.
\<close>

lemma kp_alloc_free:
  assumes inv: "pool_inv p" and ne: "kp_free_list p \<noteq> []"
  shows "\<exists>p'. kp_alloc e p = (Ok (hd (kp_free_list p)), p') \<and> pool_inv p'
    \<and> kp_ref_counts p (hd (kp_free_list p)) = None \<and> hd (kp_free_list p) < cap p
    \<and> kp_ref_counts p' = (kp_ref_counts p)(hd (kp_free_list p) \<mapsto> 1)
    \<and> kp_free_list p' = tl (kp_free_list p) \<and> kp_tree p' = kp_tree p \<and> kp_blocks p' = kp_blocks p"
proof -
  have a: "kp_alloc e p = pop_free p" using ne by (simp add: kp_alloc_def)
  obtain i rest where f: "kp_free_list p = i # rest" using ne by (cases "kp_free_list p") auto
  then obtain p' where run: "pop_free p = (Ok i, p')" by (simp add: pop_free_def)
  show ?thesis using a run f pop_free_spec [OF inv run] by simp
qed

text \<open>Whatever the state of the pool, allocation returns a block or the exhaustion error.\<close>

lemma kp_alloc_spec:
  assumes inv: "pool_inv p"
  shows "pool_inv (snd (kp_alloc e p)) \<and> cap (snd (kp_alloc e p)) = cap p
    \<and> (case fst (kp_alloc e p) of
         Ok i \<Rightarrow> i < cap p \<and> kp_ref_counts (snd (kp_alloc e p)) i = Some 1
              \<and> i \<notin> set (kp_free_list (snd (kp_alloc e p)))
       | Err err \<Rightarrow> err = PoolExhausted \<and> kp_free_list p = []
       | _ \<Rightarrow> False)"
proof (cases "kp_free_list p = []")
  case False
  obtain p' where p': "kp_alloc e p = (Ok (hd (kp_free_list p)), p')" "pool_inv p'"
    "hd (kp_free_list p) < cap p" "kp_ref_counts p' = (kp_ref_counts p)(hd (kp_free_list p) \<mapsto> 1)"
    "kp_free_list p' = tl (kp_free_list p)" "kp_blocks p' = kp_blocks p"
    using kp_alloc_free [OF inv False] by blast
  moreover have "hd (kp_free_list p) \<notin> set (tl (kp_free_list p))"
    using inv False by (cases "kp_free_list p") (auto simp: pool_inv_def alloc_ok_def)
  ultimately show ?thesis by simp
next
  case True
  obtain r p1 where ev: "evict_cold e p = (Ok r, p1)" "pool_inv p1" "cap p1 = cap p"
    using evict_cold_spec [OF inv True, of e] by blast
  define p2 where "p2 = (if kp_free_list p1 = [] then snd (reclaim_spilled_coldest (env_now e) p1) else p1)"
  have a: "kp_alloc e p = pop_free p2" using True ev(1) by (simp add: kp_alloc_def p2_def)
  have p2: "pool_inv p2" "cap p2 = cap p"
    using ev(2,3) reclaim_spec [OF ev(2), of "env_now e"] by (auto simp: p2_def split: prod.splits)
  show ?thesis
  proof (cases "kp_free_list p2")
    case Nil
    then show ?thesis using True p2 by (simp add: a pop_free_def)
  next
    case (Cons i rest)
    then obtain p' where run: "pop_free p2 = (Ok i, p')" by (simp add: pop_free_def)
    note s = pop_free_spec [OF p2(1) run]
    have "i \<notin> set (kp_free_list p')"
      using s(8) p2(1) by (simp add: pool_inv_def alloc_ok_def)
    then show ?thesis using s p2(2) by (simp add: a run)
  qed
qed

text \<open>
  The block handed out was unreferenced, provided no live sequence holds a block of the chain the
  eviction prunes.
\<close>

lemma kp_alloc_fresh:
  assumes inv: "pool_inv p" and run: "kp_alloc e p = (Ok i, p')"
    and chain: "\<And>c t'. kp_free_list p = [] \<Longrightarrow>
      rt_evict_coldest_chain (env_now e) (kp_tree p) = Some (c, t') \<Longrightarrow>
      \<forall>b \<in> set (tl c). kp_ref_counts p b = None"
  shows "kp_ref_counts p i = None" and "j \<noteq> i \<Longrightarrow> kp_ref_counts p' j = kp_ref_counts p j"
proof -
  have "kp_ref_counts p i = None \<and> (j \<noteq> i \<longrightarrow> kp_ref_counts p' j = kp_ref_counts p j)"
  proof (cases "kp_free_list p = []")
    case False
    then show ?thesis using kp_alloc_free [OF inv False, of e] run by auto
  next
    case True
    obtain c t' r p1 where ev: "rt_evict_coldest_chain (env_now e) (kp_tree p) = Some (c, t')"
      "evict_cold e p = (Ok r, p1)" "pool_inv p1"
      "kp_ref_counts p1 = (if c = [] \<or> kp_ref_counts p (hd c) \<noteq> None then kp_ref_counts p
         else (\<lambda>i. if i \<in> set c then None else kp_ref_counts p i))"
      using evict_cold_spec [OF inv True, of e] by blast
    have tl: "\<forall>b \<in> set (tl c). kp_ref_counts p b = None" by (rule chain [OF True ev(1)])
    have same1: "kp_ref_counts p1 = kp_ref_counts p"
      using ev(4) tl by (cases c) (auto simp: fun_eq_iff)
    define p2 where "p2 = (if kp_free_list p1 = [] then snd (reclaim_spilled_coldest (env_now e) p1) else p1)"
    have p2: "pool_inv p2" "kp_ref_counts p2 = kp_ref_counts p"
      using ev(3) same1 reclaim_spec [OF ev(3), of "env_now e"] by (auto simp: p2_def split: prod.splits)
    have "pop_free p2 = (Ok i, p')" using run True ev(2) by (simp add: kp_alloc_def p2_def)
    note s = pop_free_spec [OF p2(1) this]
    show ?thesis using s(3,7) p2(2) by simp
  qed
  then show "kp_ref_counts p i = None" "j \<noteq> i \<Longrightarrow> kp_ref_counts p' j = kp_ref_counts p j" by auto
qed

section \<open>Demotion and promotion\<close>

lemma pool_inv_frame:
  assumes "pool_inv p" and "kp_free_list q = kp_free_list p" "kp_ref_counts q = kp_ref_counts p"
    "kp_tree q = kp_tree p" "cap q = cap p" "bufs_ok q"
  shows "pool_inv q"
  using assms by (simp add: pool_inv_def tree_ok_def alloc_ok_def)

lemma pool_inv_spill [simp]: "pool_inv (p\<lparr>kp_spill := x\<rparr>) = pool_inv p"
  by (simp add: pool_inv_def bufs_ok_def tree_ok_def alloc_ok_def)

lemma install_block_inv:
  assumes inv: "pool_inv p"
  shows "pool_inv (snd (install_block p i k v))" and "cap (snd (install_block p i k v)) = cap p"
    and "kp_ref_counts (snd (install_block p i k v)) = kp_ref_counts p"
    and "kp_free_list (snd (install_block p i k v)) = kp_free_list p"
    and "kp_tree (snd (install_block p i k v)) = kp_tree p"
proof -
  show "cap (snd (install_block p i k v)) = cap p"
    "kp_ref_counts (snd (install_block p i k v)) = kp_ref_counts p"
    "kp_free_list (snd (install_block p i k v)) = kp_free_list p"
    "kp_tree (snd (install_block p i k v)) = kp_tree p"
    by (simp_all add: install_block_def Let_def)
  moreover have "bufs_ok (snd (install_block p i k v))"
  proof (cases "cap p \<le> i \<or> length k \<noteq> length (kb_key_data (blk p i))
      \<or> length v \<noteq> length (kb_value_data (blk p i)) \<or> kp_elem p = 0")
    case True
    then show ?thesis using inv by (auto simp: install_block_def Let_def pool_inv_def)
  next
    case False
    let ?b = "(blk p i)\<lparr>kb_key_data := k, kb_value_data := v,
      kb_num_tokens := min (length k div kp_elem p) BLOCK_SIZE, kb_received := True, kb_location := Gpu\<rparr>"
    have "bufs_ok p" using inv by (simp add: pool_inv_def)
    then have "\<forall>b \<in> insert ?b (set (kp_blocks p)). length (kb_key_data b) = kp_block_elem p
        \<and> length (kb_value_data b) = kp_block_elem p"
      using False bufs_okD [of p i] by (simp add: bufs_ok_def)
    moreover have "set ((kp_blocks p)[i := ?b]) \<subseteq> insert ?b (set (kp_blocks p))"
      by (rule set_update_subset_insert)
    moreover have "kp_blocks (snd (install_block p i k v)) = (kp_blocks p)[i := ?b]"
      "kp_block_elem (snd (install_block p i k v)) = kp_block_elem p"
      using False by (simp_all add: install_block_def Let_def upd_block_def kp_block_elem_def kp_elem_def)
    ultimately show ?thesis unfolding bufs_ok_def by auto
  qed
  ultimately show "pool_inv (snd (install_block p i k v))"
    by - (rule pool_inv_frame [OF inv], simp_all)
qed

text \<open>
  A successful installation puts exactly the given rows into the block, on the device tier.
\<close>

lemma install_block_ok:
  assumes "pool_inv p" and "i < cap p" and "0 < kp_elem p"
    and "length k = kp_block_elem p" and "length v = kp_block_elem p"
  shows "\<exists>p'. install_block p i k v = (Ok (Some (k, v)), p') \<and> pool_inv p'
    \<and> kb_key_data (blk p' i) = k \<and> kb_value_data (blk p' i) = v \<and> kb_location (blk p' i) = Gpu
    \<and> kb_num_tokens (blk p' i) = BLOCK_SIZE \<and> kb_received (blk p' i)
    \<and> (\<forall>j < cap p. j \<noteq> i \<longrightarrow> blk p' j = blk p j)"
proof -
  have b: "bufs_ok p" using assms(1) by (simp add: pool_inv_def)
  have n: "kp_block_elem p div kp_elem p = BLOCK_SIZE" using assms(3) by (simp add: kp_block_elem_def)
  note len = bufs_okD [OF b assms(2)]
  let ?p' = "snd (install_block p i k v)"
  have "fst (install_block p i k v) = Ok (Some (k, v))"
    using assms(2-5) len by (simp add: install_block_def Let_def)
  moreover have "kp_blocks ?p' = (kp_blocks p)[i := (blk p i)\<lparr>kb_key_data := k, kb_value_data := v,
      kb_num_tokens := BLOCK_SIZE, kb_received := True, kb_location := Gpu\<rparr>]"
    using assms(2-5) len n by (simp add: install_block_def Let_def upd_block_def)
  ultimately show ?thesis
    using install_block_inv(1) [OF assms(1), of i k v] assms(2)
    by (intro exI [of _ ?p']) (simp add: prod_eq_iff)
qed

lemma promote_inv:
  assumes inv: "pool_inv p"
  shows "pool_inv (snd (promote_to_gpu e p i)) \<and> cap (snd (promote_to_gpu e p i)) = cap p
    \<and> kp_ref_counts (snd (promote_to_gpu e p i)) = kp_ref_counts p
    \<and> kp_free_list (snd (promote_to_gpu e p i)) = kp_free_list p
    \<and> kp_tree (snd (promote_to_gpu e p i)) = kp_tree p"
proof (cases "kp_spill p")
  case None
  then show ?thesis using inv by (simp add: promote_to_gpu_def)
next
  case (Some s)
  obtain r s1 where r: "retrieve_compressed e s i = (r, s1)" by (cases "retrieve_compressed e s i")
  obtain r2 s2 where r2: "retrieve e s1 i = (r2, s2)" by (cases "retrieve e s1 i")
  note ins = install_block_inv [of "p\<lparr>kp_spill := Some s1\<rparr>" i] install_block_inv [of "p\<lparr>kp_spill := Some s2\<rparr>" i]
  show ?thesis
    using inv Some r r2 ins
    by (cases r; cases r2)
      (auto simp: promote_to_gpu_def lift_spill_def split: option.splits)
qed

text \<open>
  The demote/promote round trip of a raw block: whatever happens to the spill files in between
  short of losing them, a freed block comes back with its contents.
\<close>

lemma spill_block_raw:
  assumes "\<not> env_packed e" and "kp_compressor p = None" and "i < cap p"
    and "length (kb_key_data (blk p i)) = sm_block_elems s"
    and "length (kb_value_data (blk p i)) = sm_block_elems s"
  shows "spill_block e p i s
    = (Ok True, raw_sink e (raw_put s i (kb_key_data (blk p i), kb_value_data (blk p i))) i)"
  using assms
  by (simp add: spill_block_def spill_comp_or_raw_def spill_compressed_def compress_block_def
      spill_raw_def raw_put_def raw_sink_def demote_to_host_def)

lemma raw_sink_keeps_compressed [simp]:
  "sm_compressed_host (raw_sink e s i) = sm_compressed_host s"
  "sm_nvme_compressed (raw_sink e s i) = sm_nvme_compressed s"
  "sm_block_elems (raw_sink e s i) = sm_block_elems s"
  by (auto simp: raw_sink_def demote_to_nvme_def atomic_write_def split: option.splits)

lemma raw_put_keeps_compressed [simp]:
  "sm_compressed_host (raw_put s i kv) = sm_compressed_host s"
  "sm_nvme_compressed (raw_put s i kv) = sm_nvme_compressed s"
  "sm_block_elems (raw_put s i kv) = sm_block_elems s"
  by (simp_all add: raw_put_def demote_to_host_def)

lemma free_promote_roundtrip:
  assumes inv: "pool_inv p" and i: "i < cap p" and last: "kp_ref_counts p i = Some 1"
    and s: "kp_spill p = Some s" "raw_inv s" "sm_block_elems s = kp_block_elem p"
    and raw: "kp_compressor p = None" "\<not> env_packed e"
      "sm_compressed_host s i = None" "sm_nvme_compressed s i = None"
    and elem: "0 < kp_elem p" and io: "io_read e2"
  shows "\<exists>p1 p2 k v. kp_free e p i = (Ok (), p1) \<and> kb_location (blk p1 i) = HostRam
    \<and> kp_ref_counts p1 i = None \<and> kp_free_list p1 = kp_free_list p
    \<and> promote_to_gpu e2 p1 i = (Ok (Some (k, v)), p2) \<and> pool_inv p2
    \<and> kb_key_data (blk p2 i) = kb_key_data (blk p i) \<and> kb_value_data (blk p2 i) = kb_value_data (blk p i)
    \<and> kb_location (blk p2 i) = Gpu"
proof -
  let ?k = "kb_key_data (blk p i)" and ?v = "kb_value_data (blk p i)"
  have bufs: "bufs_ok p" using inv by (simp add: pool_inv_def)
  have len: "length ?k = sm_block_elems s" "length ?v = sm_block_elems s"
    using bufs_okD [OF bufs i] s(3) by simp_all
  let ?d = "drop_ref i p"
  let ?s1 = "raw_sink e (raw_put s i (?k, ?v)) i"
  let ?p1 = "mark_demoted i (?d\<lparr>kp_spill := Some ?s1\<rparr>)"
  have sp: "spill_block e ?d i s = (Ok True, ?s1)"
    using spill_block_raw [of e ?d i s] raw i len by (simp add: drop_ref_def)
  have free: "kp_free e p i = (Ok (), ?p1)"
    using last sp i s(1) by (simp add: kp_free_def swallow_def free_with_tier_def release_block_def Let_def)
  have inv1: "pool_inv ?p1"
  proof -
    obtain q where "kp_free e p i = (Ok (), q)" "pool_inv q" using kp_free_spec [OF inv, of e i] by blast
    with free show ?thesis by simp
  qed
  have el1: "kp_elem ?p1 = kp_elem p"
    by (simp add: kp_elem_def mark_demoted_def bump_demoted_def upd_block_def drop_ref_def Let_def)
  have be1: "kp_block_elem ?p1 = kp_block_elem p" by simp
  have adm: "raw_admissible s (?k, ?v)" using len by (simp add: raw_admissible_def)
  have rinv: "raw_inv ?s1" by (rule raw_sink_inv [OF raw_put_inv [OF s(2) adm]])
  have view: "raw_view ?s1 i = Some (?k, ?v)"
    using raw_sink_view [OF raw_put_inv [OF s(2) adm, where b = i], where e = e and b = i] raw_put_view [OF s(2) adm, of i] by simp
  obtain s2 where got: "retrieve e2 ?s1 i = (Ok (Some (?k, ?v)), s2)"
    using raw_fetch_ok [OF rinv io view] by (cases "retrieve e2 ?s1 i") simp
  have nocomp: "retrieve_compressed e2 ?s1 i = (Ok None, ?s1)"
    using raw by (simp add: retrieve_compressed_def)
  have run: "promote_to_gpu e2 ?p1 i = install_block (?p1\<lparr>kp_spill := Some s2\<rparr>) i ?k ?v"
    using nocomp got by (simp add: promote_to_gpu_def lift_spill_def)
  have pre: "pool_inv (?p1\<lparr>kp_spill := Some s2\<rparr>)" "i < cap (?p1\<lparr>kp_spill := Some s2\<rparr>)"
    "0 < kp_elem (?p1\<lparr>kp_spill := Some s2\<rparr>)" "length ?k = kp_block_elem (?p1\<lparr>kp_spill := Some s2\<rparr>)"
    "length ?v = kp_block_elem (?p1\<lparr>kp_spill := Some s2\<rparr>)"
    using inv1 i elem el1 be1 len s(3) by simp_all
  obtain p2 where p2: "install_block (?p1\<lparr>kp_spill := Some s2\<rparr>) i ?k ?v = (Ok (Some (?k, ?v)), p2)"
    "pool_inv p2" "kb_key_data (blk p2 i) = ?k" "kb_value_data (blk p2 i) = ?v" "kb_location (blk p2 i) = Gpu"
    using install_block_ok [OF pre] by blast
  have "kb_location (blk ?p1 i) = HostRam" using i by (simp add: mark_demoted_def upd_block_def Let_def)
  then show ?thesis
    using free run p2 by (intro exI [of _ ?p1] exI [of _ p2] exI [of _ ?k] exI [of _ ?v]) simp
qed

end
