(* ===== verification/PoolCache.thy ===== *)
theory PoolCache
  imports PoolInvariant
begin

text \<open>
  The prefix cache of the block pool: registering computed blocks and finding them again, resetting
  and resizing, the contract a client of the allocator relies on, and two histories in which the
  eviction takes a block away from its holder.
\<close>

section \<open>Registering and finding a prefix\<close>

lemma insert_loop_ok:
  "0 < rt_block_size t \<Longrightarrow> offset + (length blocks - 1) * rt_block_size t \<le> length tokens
    \<Longrightarrow> fst (insert_loop now tokens blocks node offset t) = Ok ()"
proof (induction blocks arbitrary: node offset t)
  case Nil
  then show ?case by simp
next
  case (Cons b bs)
  have "offset \<le> length tokens" using Cons.prems(2) by simp
  then obtain key where key: "block_key tokens offset (rt_block_size t) = Some key"
    using block_key_in_range by blast
  have rest: "(offset + rt_block_size t) + (length bs - 1) * rt_block_size t \<le> length tokens" if "bs \<noteq> []"
    using Cons.prems(2) that by (cases bs) auto
  show ?case
  proof (cases "bs = []")
    case True
    then show ?thesis using key by (auto split: option.splits)
  next
    case False
    then show ?thesis using Cons.IH Cons.prems(1) rest key by (auto split: option.splits)
  qed
qed

lemma insert_prefix_spec:
  assumes inv: "pool_inv p" and range: "set blocks \<subseteq> {..<cap p}"
    and room: "(length blocks - 1) * BLOCK_SIZE \<le> length tokens"
    and fresh: "fresh_tail (kp_tree p) tokens blocks 0 0"
  shows "\<exists>t'. insert_prefix now p tokens blocks = (Ok (), p\<lparr>kp_tree := t'\<rparr>)
    \<and> pool_inv (p\<lparr>kp_tree := t'\<rparr>)
    \<and> dom (rt_block_to_node t') \<subseteq> dom (rt_block_to_node (kp_tree p)) \<union> set blocks
    \<and> (\<exists>t1. insert_loop now tokens blocks 0 0 (kp_tree p) = (Ok (), t1) \<and> shape t' = shape t1
        \<and> rt_wf t1)"
proof -
  let ?t = "kp_tree p"
  have ok: "rt_wf ?t" "rt_tight ?t" "rt_block_size ?t = BLOCK_SIZE" "dom (rt_block_to_node ?t) \<subseteq> {..<cap p}"
    using inv by (auto simp: pool_inv_def tree_ok_def)
  have root: "rt_root ?t = 0" "0 < nn ?t" using ok(1) by (auto simp: rt_wf_def)
  have "fst (insert_loop now tokens blocks 0 0 ?t) = Ok ()"
    by (rule insert_loop_ok) (use ok(3) room in \<open>simp_all add: BLOCK_SIZE_def\<close>)
  then obtain t1 where t1: "insert_loop now tokens blocks 0 0 ?t = (Ok (), t1)"
    by (cases "insert_loop now tokens blocks 0 0 ?t") auto
  have wf1: "rt_wf t1" by (rule insert_loop_wf [OF ok(1) root(2) t1])
  have bs1: "rt_block_size t1 = BLOCK_SIZE"
    using insert_loop_extends [OF ok(1) root(2) t1] ok(3) by (simp add: extends_def)
  have tight1: "rt_tight t1 \<and> dom (rt_block_to_node t1) \<subseteq> dom (rt_block_to_node ?t) \<union> set blocks"
    by (rule insert_at_loop_tight [OF ok(1,2) root(2) _ fresh, where i = 0 and skip = 0 and now = now
          and r = "Ok ()" and t' = t1])
      (simp_all add: insert_at_loop_0 t1)
  let ?t' = "rt_touch now t1 tokens"
  have sh: "shape ?t' = shape t1" by simp
  have run: "insert_prefix now p tokens blocks = (Ok (), p\<lparr>kp_tree := ?t'\<rparr>)"
    by (simp add: insert_prefix_def lift_tree_def rt_insert_def root t1)
  have "tree_ok (p\<lparr>kp_tree := ?t'\<rparr>)"
  proof -
    have "dom (rt_block_to_node t1) \<subseteq> {..<cap p}" using tight1 ok(4) range by (meson Un_least order_trans)
    then show ?thesis
      using rt_wf_shape [OF sh wf1] rt_tight_shape [OF sh wf1] tight1 shape_nth(3,4) [OF sh] bs1
      by (simp add: tree_ok_def)
  qed
  then have "pool_inv (p\<lparr>kp_tree := ?t'\<rparr>)" using inv by (simp add: pool_inv_def bufs_ok_def alloc_ok_def)
  moreover have "dom (rt_block_to_node ?t') \<subseteq> dom (rt_block_to_node ?t) \<union> set blocks"
    using tight1 shape_nth(4) [OF sh] by simp
  ultimately show ?thesis using run t1 sh wf1 by blast
qed

text \<open>
  What was registered is found again: the blocks that matched before, continued by the caller's
  blocks for the rest, and every full block of the prompt is covered.
\<close>

lemma insert_then_match:
  assumes inv: "pool_inv p" and range: "set blocks \<subseteq> {..<cap p}"
    and len: "length blocks = length tokens div BLOCK_SIZE"
    and fresh: "fresh_tail (kp_tree p) tokens blocks 0 0"
    and run: "insert_prefix now p tokens blocks = (r, p')"
  shows "r = Ok ()" and "pool_inv p'"
    and "kp_match_prefix p' tokens =
      (fst (kp_match_prefix p tokens) @ drop (length (fst (kp_match_prefix p tokens))) blocks,
       length blocks * BLOCK_SIZE)"
proof -
  let ?t = "kp_tree p"
  have ok: "rt_wf ?t" "rt_block_size ?t = BLOCK_SIZE" using inv by (auto simp: pool_inv_def tree_ok_def)
  have root: "rt_root ?t = 0" "0 < nn ?t" using ok(1) by (auto simp: rt_wf_def)
  have full: "length blocks * BLOCK_SIZE \<le> length tokens" unfolding len by simp
  have "(length blocks - 1) * BLOCK_SIZE \<le> length blocks * BLOCK_SIZE" by simp
  with full have room: "(length blocks - 1) * BLOCK_SIZE \<le> length tokens" by (rule order_trans [rotated])
  obtain t' t1 where t: "insert_prefix now p tokens blocks = (Ok (), p\<lparr>kp_tree := t'\<rparr>)"
    "pool_inv (p\<lparr>kp_tree := t'\<rparr>)" "insert_loop now tokens blocks 0 0 ?t = (Ok (), t1)"
    "shape t' = shape t1" "rt_wf t1"
    using insert_prefix_spec [OF inv range room fresh, of now] by blast
  show "r = Ok ()" "pool_inv p'" using run t(1,2) by simp_all
  have p': "kp_tree p' = t'" using run t(1) by auto
  have t'root: "rt_root t' = 0" "rt_block_size t' = BLOCK_SIZE"
    using t(2) by (auto simp: pool_inv_def tree_ok_def rt_wf_def)
  have n1: "0 < nn t1" using t(5) by (simp add: rt_wf_def)
  let ?old = "path_blocks ?t tokens 0 0" and ?new = "path_blocks t' tokens 0 0"
  have same: "?new = path_blocks t1 tokens 0 0" by (rule path_blocks_shape [OF t(4,5) n1])
  have pos: "0 < rt_block_size ?t" using ok(2) by (simp add: BLOCK_SIZE_def)
  have upto: "0 + length blocks * rt_block_size ?t \<le> length tokens" using full ok(2) by simp
  have path: "take (length blocks) ?new = take (length blocks) (?old @ drop (length ?old) blocks)"
    "length blocks \<le> length ?new"
    using insert_loop_path [OF ok(1) root(2) pos t(3) order_refl upto] unfolding same by auto
  have le: "length xs \<le> length blocks"
    if "BLOCK_SIZE * length xs \<le> length tokens" for xs :: "nat list"
    using div_le_mono [OF that, of BLOCK_SIZE] unfolding len by (simp add: BLOCK_SIZE_def)
  have "length ?new \<le> length blocks" "length ?old \<le> length blocks"
    using le [of "path_nodes t' tokens 0 0"] le [of "path_nodes ?t tokens 0 0"]
      length_path_nodes_le [of t' tokens 0 0] length_path_nodes_le [of ?t tokens 0 0] ok(2) t'root(2)
    by simp_all
  with path have eq: "?new = ?old @ drop (length ?old) blocks" by simp
  moreover have "length (path_nodes t' tokens 0 0) = length blocks"
    using path(2) \<open>length ?new \<le> length blocks\<close> by simp
  ultimately show "kp_match_prefix p' tokens =
      (fst (kp_match_prefix p tokens) @ drop (length (fst (kp_match_prefix p tokens))) blocks,
       length blocks * BLOCK_SIZE)"
    by (simp add: kp_match_prefix_def rt_match_prefix_eq p' t'root root mult.commute)
qed

section \<open>Operations that leave the allocator alone\<close>

lemma pool_inv_tree_shape:
  assumes "pool_inv p" and s: "shape t' = shape (kp_tree p)"
  shows "pool_inv (p\<lparr>kp_tree := t'\<rparr>)"
proof -
  have ok: "rt_wf (kp_tree p)" "rt_tight (kp_tree p)" using assms(1) by (auto simp: pool_inv_def tree_ok_def)
  show ?thesis
    using assms(1) rt_wf_shape [OF s ok(1)] rt_tight_shape [OF s ok] shape_nth(3,4) [OF s]
    by (simp add: pool_inv_def tree_ok_def bufs_ok_def alloc_ok_def)
qed

lemma pool_inv_remove_prefix: "pool_inv p \<Longrightarrow> pool_inv (remove_prefix p blocks)"
  unfolding remove_prefix_def by (rule pool_inv_tree_shape) simp_all

lemma pool_inv_pin: "pool_inv p \<Longrightarrow> pool_inv (kp_pin_blocks now p bids secs)"
  unfolding kp_pin_blocks_def by (rule pool_inv_tree_shape) simp_all

lemma pool_inv_drop_oldest: "pool_inv p \<Longrightarrow> pool_inv (snd (kp_drop_oldest_pins now p n))"
  using shape_drop_oldest [of now "kp_tree p" n]
  by (cases "rt_drop_oldest_pins now (kp_tree p) n")
    (simp add: kp_drop_oldest_pins_def pool_inv_tree_shape)

lemma demote_prefix_block_inv:
  assumes "pool_inv p" and "i < cap p"
  shows "\<exists>ok p'. demote_prefix_block e p i = (Ok ok, p') \<and> pool_inv p' \<and> cap p' = cap p
    \<and> kp_free_list p' = kp_free_list p \<and> kp_ref_counts p' = kp_ref_counts p \<and> kp_tree p' = kp_tree p"
proof -
  have b: "bufs_ok (upd_block i (\<lambda>b. b\<lparr>kb_location := l\<rparr>) (p\<lparr>kp_spill := x\<rparr>))" for l x
    by (rule bufs_ok_upd_block) (use assms in \<open>simp_all add: pool_inv_def bufs_ok_def\<close>)
  have iv: "pool_inv (upd_block i (\<lambda>b. b\<lparr>kb_location := l\<rparr>) (p\<lparr>kp_spill := x\<rparr>))" for l x
    by (rule pool_inv_frame [OF assms(1) _ _ _ _ b]) simp_all
  have iv2: "pool_inv (bump_demoted q) = pool_inv q" for q
    by (simp add: pool_inv_def bufs_ok_def tree_ok_def alloc_ok_def)
  show ?thesis
    using assms iv
    by (auto simp: demote_prefix_block_def iv2 split: option.splits prod.splits outcome.splits)
qed

section \<open>Resizing\<close>

lemma shrink_pool_spec:
  assumes "pool_inv p" and "cache_kept p" and "cap p \<le> k"
  shows "pool_inv (shrink_pool k n p) \<and> cache_kept (shrink_pool k n p)
    \<and> kp_ref_counts (shrink_pool k n p) = kp_ref_counts p
    \<and> kp_tree (shrink_pool k n p) = kp_tree p
    \<and> (cap p \<le> n \<longrightarrow> shrink_pool k n p = p)
    \<and> (n \<le> cap p \<longrightarrow> n \<le> cap (shrink_pool k n p))
    \<and> (n < cap (shrink_pool k n p) \<longrightarrow>
         cap (shrink_pool k n p) - 1 \<notin> set (kp_free_list (shrink_pool k n p)))"
  using assms
proof (induction k arbitrary: p)
  case 0
  then show ?case by simp
next
  case (Suc k)
  show ?case
  proof (cases "cap p > n")
    case False
    then show ?thesis using Suc.prems by simp
  next
    case big: True
    show ?thesis
    proof (cases "position (\<lambda>i. i = cap p - 1) (kp_free_list p)")
      case None
      then have "cap p - 1 \<notin> set (kp_free_list p)" by (auto simp: position_None)
      then show ?thesis using Suc.prems big None by simp
    next
      case (Some pos)
      let ?q = "p\<lparr>kp_free_list := remove_at pos (kp_free_list p), kp_blocks := butlast (kp_blocks p)\<rparr>"
      let ?l = "cap p - 1"
      have rm: "remove_at pos (kp_free_list p) = remove1 ?l (kp_free_list p)"
        by (rule remove_at_position_eq [OF Some])
      have mem: "?l \<in> set (kp_free_list p)"
        using position_Some [OF Some] by (metis nth_mem)
      have a: "alloc_ok p" and t: "tree_ok p" and b: "bufs_ok p" using Suc.prems(1) by (auto simp: pool_inv_def)
      have d: "distinct (kp_free_list p)" using a by (simp add: alloc_ok_def)
      have norc: "kp_ref_counts p ?l = None" using a mem by (simp add: alloc_ok_def)
      have notree: "?l \<notin> dom (rt_block_to_node (kp_tree p))" using Suc.prems(2) mem by (auto simp: cache_kept_def)
      have lt: "i < cap p - 1" if "i < cap p" "i \<noteq> ?l" for i using that by simp
      have "alloc_ok ?q"
        unfolding alloc_ok_def
      proof (intro conjI)
        show "distinct (kp_free_list ?q)" using d by (simp add: rm)
        show "set (kp_free_list ?q) \<subseteq> {..<cap ?q}"
          using a d lt by (auto simp: alloc_ok_def rm set_remove1_eq)
        show "\<forall>i \<in> set (kp_free_list ?q). kp_ref_counts ?q i = None"
          using a d by (auto simp: alloc_ok_def rm set_remove1_eq)
        show "\<forall>i c. kp_ref_counts ?q i = Some c \<longrightarrow> i < cap ?q \<and> 0 < c"
        proof (intro allI impI)
          fix i c assume "kp_ref_counts ?q i = Some c"
          then have "kp_ref_counts p i = Some c" by simp
          moreover from this norc have "i \<noteq> ?l" by auto
          ultimately show "i < cap ?q \<and> 0 < c" using a lt by (simp add: alloc_ok_def)
        qed
      qed
      moreover have "tree_ok ?q"
      proof -
        have "dom (rt_block_to_node (kp_tree p)) \<subseteq> {..<cap ?q}"
        proof
          fix i assume i: "i \<in> dom (rt_block_to_node (kp_tree p))"
          then have "i < cap p" using t by (auto simp: tree_ok_def)
          moreover have "i \<noteq> ?l" using i notree by metis
          ultimately show "i \<in> {..<cap ?q}" using lt by simp
        qed
        then show ?thesis using t by (simp add: tree_ok_def)
      qed
      moreover have "bufs_ok ?q"
        using b by (auto simp: bufs_ok_def kp_block_elem_def kp_elem_def dest: in_set_butlastD)
      ultimately have inv: "pool_inv ?q" by (simp add: pool_inv_def)
      have ck: "cache_kept ?q"
        using Suc.prems(2) d by (auto simp: cache_kept_def rm set_remove1_eq)
      have "cap ?q \<le> k" using Suc.prems(3) by simp
      from Suc.IH [OF inv ck this] Some big show ?thesis by simp
    qed
  qed
qed

lemma resize_spec:
  assumes inv: "pool_inv p" and ck: "cache_kept p"
  shows "pool_inv (kp_resize_capacity p n) \<and> cache_kept (kp_resize_capacity p n)
    \<and> kp_ref_counts (kp_resize_capacity p n) = kp_ref_counts p
    \<and> kp_tree (kp_resize_capacity p n) = kp_tree p
    \<and> (cap p \<le> n \<longrightarrow> cap (kp_resize_capacity p n) = n)
    \<and> (n \<le> cap p \<longrightarrow> n \<le> cap (kp_resize_capacity p n))"
proof (cases "cap p < n")
  case False
  then show ?thesis using shrink_pool_spec [OF inv ck order_refl, of n]
    by (auto simp: kp_resize_capacity_def Let_def)
next
  case True
  let ?q = "p\<lparr>kp_blocks := kp_blocks p @ map (fresh_block (kp_block_elem p)) [cap p..<n],
             kp_free_list := kp_free_list p @ [cap p..<n]\<rparr>"
  have q: "kp_resize_capacity p n = ?q" using True by (simp add: kp_resize_capacity_def Let_def)
  have a: "alloc_ok p" and t: "tree_ok p" and b: "bufs_ok p" using inv by (auto simp: pool_inv_def)
  have be: "kp_block_elem ?q = kp_block_elem p" by (simp add: kp_block_elem_def kp_elem_def)
  have c: "cap ?q = n" using True by simp
  have none: "kp_ref_counts p i = None" if "cap p \<le> i" for i
    using a that unfolding alloc_ok_def by (meson not_less option.exhaust)
  have "bufs_ok ?q" using b unfolding bufs_ok_def be by (auto simp: fresh_block_def)
  moreover have "tree_ok ?q" using t True unfolding tree_ok_def c by (auto simp: subset_iff)
  moreover have "alloc_ok ?q"
    unfolding alloc_ok_def c
  proof (intro conjI)
    show "distinct (kp_free_list ?q)" using a by (auto simp: alloc_ok_def)
    show "set (kp_free_list ?q) \<subseteq> {..<n}" using a True by (auto simp: alloc_ok_def)
    show "\<forall>i \<in> set (kp_free_list ?q). kp_ref_counts ?q i = None" using a none by (auto simp: alloc_ok_def)
    show "\<forall>i c. kp_ref_counts ?q i = Some c \<longrightarrow> i < n \<and> 0 < c" using a True by (force simp: alloc_ok_def)
  qed
  moreover have "cache_kept ?q" using ck t by (auto simp: cache_kept_def tree_ok_def)
  ultimately show ?thesis using c True by (simp add: q pool_inv_def)
qed

lemma pool_inv_recently_zero [simp]: "pool_inv (p\<lparr>kp_recently_zero := x\<rparr>) = pool_inv p"
  by (simp add: pool_inv_def bufs_ok_def tree_ok_def alloc_ok_def kp_block_elem_def kp_elem_def)

section \<open>Resetting the prefix cache\<close>

lemma reset_block_spec:
  assumes inv: "pool_inv p" and i: "i < cap p" and nt: "rt_block_to_node (kp_tree p) i = None"
  shows "pool_inv (reset_block p i) \<and> cap (reset_block p i) = cap p
    \<and> kp_ref_counts (reset_block p i) = kp_ref_counts p \<and> kp_tree (reset_block p i) = kp_tree p
    \<and> set (kp_free_list (reset_block p i))
        = set (kp_free_list p) \<union> (if kp_ref_counts p i = None then {i} else {})"
proof (cases "kp_block_ref_count p i = 0 \<and> i \<notin> set (kp_free_list p)")
  case True
  let ?f = "\<lambda>b. b\<lparr>kb_num_tokens := 0, kb_received := False\<rparr>"
  have rc: "kp_ref_counts p i = None"
    using True pool_inv_ref_range [OF inv, of i] by (auto simp: kp_block_ref_count_def split: option.splits)
  have b: "bufs_ok (upd_block i ?f p)"
    by (rule bufs_ok_upd_block) (use inv i in \<open>simp_all add: pool_inv_def\<close>)
  then have "bufs_ok (push_free i (upd_block i ?f p))" by (simp add: bufs_ok_def)
  moreover have "tree_ok (push_free i (upd_block i ?f p))" using inv by (simp add: pool_inv_def tree_ok_def)
  moreover have "alloc_ok (push_free i (upd_block i ?f p))"
    using inv i rc True by (auto simp: pool_inv_def alloc_ok_def)
  ultimately show ?thesis using True rc by (simp add: reset_block_def pool_inv_def)
next
  case False
  then have "kp_ref_counts p i = None \<Longrightarrow> i \<in> set (kp_free_list p)"
    by (simp add: kp_block_ref_count_def)
  moreover have "reset_block p i = p" using False by (auto simp: reset_block_def)
  ultimately show ?thesis using inv by auto
qed

lemma foldl_reset_block:
  assumes "pool_inv p" and "\<forall>i \<in> set is. i < cap p \<and> rt_block_to_node (kp_tree p) i = None"
  shows "pool_inv (foldl reset_block p is) \<and> cap (foldl reset_block p is) = cap p
    \<and> kp_ref_counts (foldl reset_block p is) = kp_ref_counts p
    \<and> kp_tree (foldl reset_block p is) = kp_tree p
    \<and> set (kp_free_list (foldl reset_block p is))
        = set (kp_free_list p) \<union> {i \<in> set is. kp_ref_counts p i = None}"
  using assms
proof (induction "is" arbitrary: p)
  case Nil
  then show ?case by simp
next
  case (Cons i "is")
  have i: "i < cap p" "rt_block_to_node (kp_tree p) i = None" using Cons.prems(2) by auto
  note step = reset_block_spec [OF Cons.prems(1) i]
  have "\<forall>j \<in> set is. j < cap (reset_block p i) \<and> rt_block_to_node (kp_tree (reset_block p i)) j = None"
    using Cons.prems(2) step by auto
  with Cons.IH [of "reset_block p i"] step show ?case by auto
qed

text \<open>
  After a reset the tree is empty and a block is free exactly when nobody references it.
\<close>

lemma reset_prefix_cache_spec:
  assumes inv: "pool_inv p"
  shows "pool_inv (snd (reset_prefix_cache now p)) \<and> cache_kept (snd (reset_prefix_cache now p))
    \<and> kp_ref_counts (snd (reset_prefix_cache now p)) = kp_ref_counts p
    \<and> set (kp_free_list (snd (reset_prefix_cache now p))) = {i. i < cap p \<and> kp_ref_counts p i = None}
    \<and> fst (reset_prefix_cache now p) + length (kp_free_list p)
        = length (kp_free_list (snd (reset_prefix_cache now p)))"
proof -
  let ?q = "p\<lparr>kp_tree := rt_new now BLOCK_SIZE\<rparr>"
  have "tree_ok ?q" by (simp add: tree_ok_def rt_wf_new rt_tight_new) (simp add: rt_new_def)
  then have invq: "pool_inv ?q" using inv by (simp add: pool_inv_def bufs_ok_def alloc_ok_def)
  have "\<forall>i \<in> set [0..<cap p]. i < cap ?q \<and> rt_block_to_node (kp_tree ?q) i = None" by (simp add: rt_new_def)
  note f = foldl_reset_block [OF invq this]
  let ?r = "foldl reset_block ?q [0..<cap p]"
  let ?z = "?r\<lparr>kp_recently_zero := []\<rparr>"
  have rz: "snd (reset_prefix_cache now p) = ?z"
    "fst (reset_prefix_cache now p) = length (kp_free_list ?r) - length (kp_free_list p)"
    by (simp_all add: reset_prefix_cache_def Let_def)
  have invz: "pool_inv ?z"
    using f by simp
  have free: "set (kp_free_list ?r) = {i. i < cap p \<and> kp_ref_counts p i = None}"
    using f inv by (auto simp: pool_inv_def alloc_ok_def)
  have "set (kp_free_list p) \<subseteq> set (kp_free_list ?r)" using f by auto
  moreover have "distinct (kp_free_list p)" "distinct (kp_free_list ?r)"
    using inv f by (auto simp: pool_inv_def alloc_ok_def)
  ultimately have "length (kp_free_list p) \<le> length (kp_free_list ?r)"
    by (metis card_mono distinct_card finite_set)
  then show ?thesis using invz free f by (simp add: rz cache_kept_def) (simp add: rt_new_def)
qed

section \<open>Cached content survives allocation\<close>

lemma kp_alloc_cache_kept:
  assumes inv: "pool_inv p" and ck: "cache_kept p"
    and unspilled: "kp_spill p = None" "\<forall>i < cap p. kb_location (blk p i) = Gpu"
  shows "cache_kept (snd (kp_alloc e p))"
proof -
  have pop: "cache_kept (snd (pop_free q))" if "cache_kept q" for q
    using that by (auto simp: cache_kept_def pop_free_def split: list.splits)
  show ?thesis
  proof (cases "kp_free_list p = []")
    case False
    then show ?thesis using pop [OF ck] by (simp add: kp_alloc_def)
  next
    case True
    obtain c t' r p1 where ev: "rt_evict_coldest_chain (env_now e) (kp_tree p) = Some (c, t')"
      "evict_cold e p = (Ok r, p1)" "cap p1 = cap p" "kp_tree p1 = t'" "set (kp_free_list p1) \<subseteq> set c"
      "r \<and> kp_spill p = None \<longrightarrow> kp_free_list p1 \<noteq> []"
      "\<not> r \<longrightarrow> (c = [] \<or> kp_ref_counts p (hd c) \<noteq> None) \<and> kp_blocks p1 = kp_blocks p"
      using evict_cold_spec [OF inv True, of e] by blast
    have tr: "rt_wf (kp_tree p)" "rt_tight (kp_tree p)" using inv by (auto simp: pool_inv_def tree_ok_def)
    have "rt_block_to_node t' = rt_block_to_node (kp_tree p) |` (- set c)"
      using evict_coldest_chain_spec [OF tr ev(1)] by blast
    then have ck1: "cache_kept p1" using ev(4,5) by (auto simp: cache_kept_def)
    have "snd (reclaim_spilled_coldest (env_now e) p1) = p1" if "kp_free_list p1 = []"
    proof -
      have "\<not> r" using that ev(6) unspilled(1) by blast
      then have "\<not> reclaimable (env_now e) p1 b" if "b < cap p1" for b
        using that ev(3,7) unspilled(2) by (simp add: reclaimable_def)
      then have "find (reclaimable (env_now e) p1) [0..<cap p1] = None" by (auto simp: find_None_iff)
      then show ?thesis by (simp add: reclaim_spilled_coldest_def)
    qed
    then show ?thesis using pop [OF ck1] True ev(2) by (simp add: kp_alloc_def)
  qed
qed

section \<open>The allocator as seen by its clients\<close>

text \<open>
  What a holder of blocks relies on: an allocated block is in range with one reference, and a
  release takes exactly one reference of exactly one block.
\<close>

locale block_store =
  fixes inv :: "'s \<Rightarrow> bool"
    and size_of :: "'s \<Rightarrow> nat"
    and refs :: "'s \<Rightarrow> nat \<Rightarrow> nat"
    and alloc :: "'s \<Rightarrow> (kv_error, nat) outcome \<times> 's"
    and release :: "'s \<Rightarrow> nat \<Rightarrow> 's"
  assumes alloc_inv: "inv s \<Longrightarrow> inv (snd (alloc s))"
    and alloc_size: "inv s \<Longrightarrow> size_of (snd (alloc s)) = size_of s"
    and alloc_held: "inv s \<Longrightarrow> alloc s = (Ok b, s') \<Longrightarrow> b < size_of s \<and> refs s' b = 1"
    and alloc_returns: "inv s \<Longrightarrow> fst (alloc s) \<noteq> Panic \<and> fst (alloc s) \<noteq> Hang"
    and release_inv: "inv s \<Longrightarrow> inv (release s b)"
    and release_size: "inv s \<Longrightarrow> size_of (release s b) = size_of s"
    and release_refs: "inv s \<Longrightarrow> refs (release s b) c = refs s c - (if c = b then 1 else 0)"
begin

text \<open>Releasing a list of blocks takes as many references of each as the list mentions it.\<close>

lemma release_all:
  "inv s \<Longrightarrow> inv (foldl release s bs) \<and> size_of (foldl release s bs) = size_of s
    \<and> refs (foldl release s bs) c = refs s c - count_list bs c"
proof (induction bs arbitrary: s)
  case Nil
  then show ?case by simp
next
  case (Cons b bs)
  show ?case
    using Cons.IH [OF release_inv [OF Cons.prems]] Cons.prems by (auto simp: release_refs release_size)
qed

lemma alloc_then_release:
  assumes "inv s" and "alloc s = (Ok b, s')"
  shows "inv (release s' b)" and "refs (release s' b) b = 0" and "size_of (release s' b) = size_of s"
  using assms alloc_inv [OF assms(1)] alloc_size [OF assms(1)] alloc_held [OF assms]
  by (simp_all add: release_inv release_refs release_size)

end

interpretation pool_store: block_store pool_inv "\<lambda>p. cap p" kp_block_ref_count "kp_alloc e"
  "\<lambda>p i. snd (kp_free e p i)" for e
proof unfold_locales
  fix p :: kv_block_pool and b c p'
  assume inv: "pool_inv p"
  note a = kp_alloc_spec [OF inv, of e]
  show "pool_inv (snd (kp_alloc e p))" "cap (snd (kp_alloc e p)) = cap p" using a by auto
  show "fst (kp_alloc e p) \<noteq> Panic \<and> fst (kp_alloc e p) \<noteq> Hang" using a by (auto split: outcome.splits)
  show "b < cap p \<and> kp_block_ref_count p' b = 1" if "kp_alloc e p = (Ok b, p')"
    using a that by (simp add: kp_block_ref_count_def)
  obtain q where q: "kp_free e p b = (Ok (), q)" "pool_inv q" "cap q = cap p"
    "\<forall>j. kp_block_ref_count q j = kp_block_ref_count p j - (if j = b then 1 else 0)"
    using kp_free_spec [OF inv, of e b] by blast
  then show "pool_inv (snd (kp_free e p b))" "cap (snd (kp_free e p b)) = cap p"
    "kp_block_ref_count (snd (kp_free e p b)) c = kp_block_ref_count p c - (if c = b then 1 else 0)"
    by simp_all
qed

section \<open>Two histories\<close>

text \<open>
  A pool of one page. The page caches the one-block prompt \<open>toks\<close>, its sequence has finished. A
  longer prompt arrives.
\<close>

definition cached_pool :: "u32 list \<Rightarrow> kv_block_pool" where
  "cached_pool toks =
     (let p1 = snd (kp_alloc calm (kp_new_on_device 0 False 1 1 1 0));
          p2 = snd (insert_prefix 0 p1 toks [0])
      in snd (kp_free calm (remove_prefix p2 [0]) 0))"

definition block_hash :: "u32 list \<Rightarrow> u64" where
  "block_hash toks = foldl fnv_step 0xcbf29ce484222325 toks"

lemma block_key_first:
  "length toks = 16 \<Longrightarrow> block_key (toks @ ys) 0 16 = Some (block_hash toks)"
  "length toks = 16 \<Longrightarrow> block_key toks 0 16 = Some (block_hash toks)"
  by (simp_all add: block_key_def block_hash_def)

lemma block_key_second:
  "length toks = 16 \<Longrightarrow> length ys \<le> 16 \<Longrightarrow> block_key (toks @ ys) 16 16 = Some (block_hash ys)"
  by (simp add: block_key_def block_hash_def)

lemmas history_simps = kp_new_on_device_def kp_alloc_def pop_free_def BLOCK_SIZE_def
  insert_prefix_def rt_insert_def rt_new_def child_at_def lift_tree_def push_child_def upd_node_def
  rt_touch_def touch_loop.simps remove_prefix_def kp_free_def swallow_def free_with_tier_def
  release_block_def drop_ref_def rt_contains_block_def bump_ref_def kp_add_ref_def

lemmas eviction_simps = evict_cold_def rt_evict_coldest_chain_def coldest_candidate_def
  enumerate_eq_zip evictable_def rn_is_pinned_def calm_def evict_in_place_def unlink_def
  key_of_child_def push_free_def upd_block_def free_ancestor_def bump_demoted_def

text \<open>
  The shared page is handed out again as the fresh page of the same request: allocation runs before
  the matched block is referenced, and evicts it.
\<close>

lemma share_aliases:
  assumes "length toks = 16"
  shows "fst (find_or_share_prefix_tokens calm (cached_pool toks) (toks @ [y])) = Ok ([0, 0], 16)"
  using assms
  by (simp add: cached_pool_def history_simps block_key_first Let_def)
    (simp add: find_or_share_prefix_tokens_def rt_match_prefix_def match_prefix_with_anchor_def
      match_loop.simps block_key_first block_key_second div_ceil_def history_simps eviction_simps Let_def)

text \<open>
  A pool of two pages. Sequence A holds page 0 for \<open>toks\<close>; sequence B shared it, added page 1 for
  \<open>toks @ ext\<close>, and has finished.
\<close>

definition half_shared_pool :: "u32 list \<Rightarrow> u32 list \<Rightarrow> kv_block_pool" where
  "half_shared_pool toks ext =
     (let a1 = snd (kp_alloc calm (kp_new_on_device 0 False 2 1 1 0));
          a2 = snd (insert_prefix 0 a1 toks [0]);
          b1 = snd (kp_alloc calm (kp_add_ref a2 0));
          b2 = snd (insert_prefix 0 b1 (toks @ ext) [0, 1]);
          b3 = snd (kp_free calm (snd (kp_free calm (remove_prefix b2 [0, 1]) 1)) 0)
      in b3)"

lemma upt_two: "[0..<2] = [0, Suc 0]"
  by (simp add: upt_rec)

lemma evicts_held_block:
  assumes "length toks = 16" and "length ext = 16"
  shows "kp_block_ref_count (half_shared_pool toks ext) 0 = 1"
    and "fst (kp_alloc calm (half_shared_pool toks ext)) = Ok 0"
proof -
  show "kp_block_ref_count (half_shared_pool toks ext) 0 = 1"
    using assms unfolding half_shared_pool_def Let_def
    by (simp add: history_simps block_key_first block_key_second Let_def upt_two
        kp_block_ref_count_def)
  show "fst (kp_alloc calm (half_shared_pool toks ext)) = Ok 0"
    using assms unfolding half_shared_pool_def Let_def
    by (simp add: history_simps block_key_first block_key_second Let_def upt_two)
      (simp add: eviction_simps history_simps Let_def)
qed

end
