(* ===== verification/ClaimLaws.thy ===== *)
theory ClaimLaws
  imports RadixTree
begin

text \<open>
  Claims on the prefix tree: by how much an insertion raises the reference count of each block and a
  removal lowers it. \<open>descent\<close> are the blocks an insertion finds on its way, \<open>claims\<close> the blocks it
  counts up: those found past the skipped ones, and the caller's own where it adds a node.
\<close>

definition block_ref :: "radix_tree \<Rightarrow> nat \<Rightarrow> nat" where
  "block_ref t b = (case rt_block_to_node t b of None \<Rightarrow> 0 | Some i \<Rightarrow> rn_ref_count (nd t i))"

fun descent :: "radix_tree \<Rightarrow> u32 list \<Rightarrow> nat list \<Rightarrow> nat \<Rightarrow> nat \<Rightarrow> nat list" where
  "descent t tokens [] node offset = []"
| "descent t tokens (bid # bids) node offset =
     (case block_key tokens offset (rt_block_size t) of
        None \<Rightarrow> []
      | Some key \<Rightarrow>
          (case child_at t node key of
             Some child \<Rightarrow> child # descent t tokens bids child (offset + rt_block_size t)
           | None \<Rightarrow> []))"

abbreviation found_blocks :: "radix_tree \<Rightarrow> u32 list \<Rightarrow> nat list \<Rightarrow> nat \<Rightarrow> nat \<Rightarrow> nat list" where
  "found_blocks t tokens blocks node offset \<equiv> map (\<lambda>c. rn_block_id (nd t c)) (descent t tokens blocks node offset)"

lemma length_descent [simp]: "length (descent t tokens blocks node offset) = reused t tokens blocks node offset"
  by (induction blocks arbitrary: node offset) (auto split: option.splits)

lemma reused_le: "reused t tokens blocks node offset \<le> length blocks"
  by (induction blocks arbitrary: node offset) (auto split: option.splits)

lemma descent_shape:
  assumes s: "shape t' = shape t" and wf: "rt_wf t"
  shows "node < nn t \<Longrightarrow> descent t' tokens blocks node offset = descent t tokens blocks node offset"
proof (induction blocks arbitrary: node offset)
  case (Cons b bs)
  have c: "child_at t' node key = child_at t node key" for key
    by (rule child_at_shape [OF s Cons.prems])
  show ?case using Cons.IH rt_wf_child_at [OF wf Cons.prems]
    by (auto simp: shape_nth(3) [OF s] c split: option.splits)
qed simp

lemma descent_range:
  "rt_wf t \<Longrightarrow> node < nn t \<Longrightarrow> c \<in> set (descent t tokens blocks node offset) \<Longrightarrow> node < c \<and> linked t c"
proof (induction blocks arbitrary: node offset)
  case (Cons b bs)
  obtain key where k1: "block_key tokens offset (rt_block_size t) = Some key"
    using Cons.prems(3) by (cases "block_key tokens offset (rt_block_size t)") auto
  obtain child where k2: "child_at t node key = Some child"
    using Cons.prems(3) k1 by (cases "child_at t node key") auto
  note k = k1 k2
  have k3: "c = child \<or> c \<in> set (descent t tokens bs child (offset + rt_block_size t))"
    using Cons.prems(3) k by simp
  have l: "linked t child" by (rule linked_child_at [OF Cons.prems(1,2) k(2)])
  have "rn_parent (nd t child) = Some node" "child < nn t"
    using rt_wf_child_at [OF Cons.prems(1,2) k(2)] by auto
  then have "node < child" using Cons.prems(1) unfolding rt_wf_def by (auto split: option.splits)
  moreover have "child < c \<and> linked t c" if "c \<in> set (descent t tokens bs child (offset + rt_block_size t))"
    using Cons.IH [OF Cons.prems(1) \<open>child < nn t\<close> that] .
  ultimately show ?case using k3 l by auto
qed simp

lemma distinct_descent: "rt_wf t \<Longrightarrow> node < nn t \<Longrightarrow> distinct (descent t tokens blocks node offset)"
proof (induction blocks arbitrary: node offset)
  case (Cons b bs)
  have "distinct (child # descent t tokens bs child (offset + rt_block_size t))" if "child_at t node key = Some child" for key child
  proof -
    have c: "child < nn t" using rt_wf_child_at [OF Cons.prems that] by simp
    then have "child \<notin> set (descent t tokens bs child (offset + rt_block_size t))"
      using descent_range [OF Cons.prems(1) c] by blast
    then show ?thesis using Cons.IH [OF Cons.prems(1) c] by simp
  qed
  then show ?case by (simp split: option.splits)
qed simp

lemma found_mapped:
  assumes "rt_wf t" and "rt_tight t" and "node < nn t"
  shows "distinct (found_blocks t tokens blocks node offset)"
    and "b \<in> set (found_blocks t tokens blocks node offset) \<Longrightarrow> b \<in> dom (rt_block_to_node t)"
proof -
  have m: "rt_block_to_node t (rn_block_id (nd t c)) = Some c" if "c \<in> set (descent t tokens blocks node offset)" for c
    using descent_range [OF assms(1,3) that] assms(2) by (simp add: rt_tight_def)
  have "inj_on (\<lambda>c. rn_block_id (nd t c)) (set (descent t tokens blocks node offset))"
    by (rule inj_onI) (metis m option.inject)
  then show "distinct (found_blocks t tokens blocks node offset)"
    using distinct_descent [OF assms(1,3)] by (simp add: distinct_map)
  show "b \<in> set (found_blocks t tokens blocks node offset) \<Longrightarrow> b \<in> dom (rt_block_to_node t)" using m by auto
qed

section \<open>Elementary changes\<close>

lemma block_ref_bump:
  assumes wf: "rt_wf t" and "linked t c" and "rt_tight t"
  shows "block_ref (bump_ref c t) b = block_ref t b + (if b = rn_block_id (nd t c) then 1 else 0)"
proof -
  have m: "rt_block_to_node t b = Some i \<Longrightarrow> i < nn t \<and> rn_block_id (nd t i) = b" for i
    using wf by (simp add: rt_wf_def)
  have c: "rt_block_to_node t (rn_block_id (nd t c)) = Some c" "c < nn t"
    using assms by (auto simp: rt_tight_def linked_def)
  show ?thesis
  proof (cases "rt_block_to_node t b")
    case None
    then show ?thesis using c(1) by (auto simp: block_ref_def bump_ref_def upd_node_def)
  next
    case (Some i)
    have ic: "i = c \<longleftrightarrow> b = rn_block_id (nd t c)"
    proof
      show "i = c \<Longrightarrow> b = rn_block_id (nd t c)" using m [OF Some] by simp
      show "b = rn_block_id (nd t c) \<Longrightarrow> i = c" using c(1) Some by simp
    qed
    show ?thesis
    proof (cases "i = c")
      case True
      have "block_ref (bump_ref c t) b = Suc (block_ref t b)"
        using Some c(2) True by (simp add: block_ref_def bump_ref_def upd_node_def)
      then show ?thesis using True ic by simp
    next
      case False
      have "block_ref (bump_ref c t) b = block_ref t b"
        using Some False by (simp add: block_ref_def bump_ref_def upd_node_def)
      then show ?thesis using False ic by simp
    qed
  qed
qed

lemma block_ref_push:
  assumes wf: "rt_wf t" and "node < nn t" and "rt_block_to_node t bid = None"
  shows "block_ref (push_child now t node key off bid) b = block_ref t b + (if b = bid then 1 else 0)"
proof -
  note ps = push_child_simps [where now = now and t = t and node = node and key = key and off = off and bid = bid]
  show ?thesis
  proof (cases "b = bid")
    case True
    then show ?thesis using assms(3) ps(6) [OF assms(2)] by (simp add: block_ref_def ps(4))
  next
    case False
    have "rn_ref_count (nd (push_child now t node key off bid) i) = rn_ref_count (nd t i)" if "rt_block_to_node t b = Some i" for i
      using wf that ps(5) [OF assms(2), of i] by (simp add: rt_wf_def)
    then show ?thesis using False by (simp add: block_ref_def ps(4) split: option.splits)
  qed
qed

lemma block_ref_shape:
  assumes "shape t' = shape t" and "\<And>i. i < nn t \<Longrightarrow> rn_ref_count (nd t' i) = rn_ref_count (nd t i)" and "rt_wf t"
  shows "block_ref t' b = block_ref t b"
  using assms(2,3) by (auto simp: block_ref_def shape_nth(4) [OF assms(1)] rt_wf_def split: option.splits)

lemma touch_loop_ref: "rn_ref_count (nd (touch_loop now t tokens node offset) i) = rn_ref_count (nd t i)"
proof (induction now t tokens node offset rule: touch_loop.induct)
  case (1 now t tokens node offset)
  have u: "rn_ref_count (nd (upd_node c (\<lambda>n. n\<lparr>rn_last_access := now\<rparr>) t) i) = rn_ref_count (nd t i)" for c
    by (cases "i < nn t"; cases "i = c") (auto simp: upd_node_def nth_list_update list_update_beyond)
  show ?case by (subst touch_loop.simps) (auto simp: "1.IH" u split: option.splits)
qed

lemma block_ref_touch: "rt_wf t \<Longrightarrow> block_ref (rt_touch now t tokens) b = block_ref t b"
  by (rule block_ref_shape) (simp_all add: rt_touch_def shape_touch_loop touch_loop_ref)

lemma block_ref_attach: "rt_wf t \<Longrightarrow> block_ref (rt_attach_recurrent_state t x s) b = block_ref t b"
proof (rule block_ref_shape)
  show "rn_ref_count (nd (rt_attach_recurrent_state t x s) i) = rn_ref_count (nd t i)" if "i < nn t" for i
  proof (cases "rt_block_to_node t x")
    case (Some j)
    then show ?thesis using that
      by (cases "j = i") (simp_all add: rt_attach_recurrent_state_def upd_node_def nth_list_update)
  qed (simp add: rt_attach_recurrent_state_def)
qed simp_all

lemma block_ref_remove: "rt_wf t \<Longrightarrow> block_ref (rt_remove t bs) b = block_ref t b - count_list bs b"
proof (induction bs arbitrary: t)
  case (Cons x bs)
  let ?u = "case rt_block_to_node t x of
     Some i \<Rightarrow> upd_node i (\<lambda>n. n\<lparr>rn_ref_count := rn_ref_count n - 1\<rparr>) t | None \<Rightarrow> t"
  have m: "rt_block_to_node t y = Some i \<Longrightarrow> i < nn t \<and> rn_block_id (nd t i) = y" for y i
    using Cons.prems by (simp add: rt_wf_def)
  have s: "shape ?u = shape t" by (auto intro!: shape_upd_node split: option.splits)
  have one: "block_ref ?u b = block_ref t b - (if b = x then 1 else 0)"
    using m [of b] m [of x] shape_nth(4) [OF s]
    by (auto simp: block_ref_def upd_node_def nth_list_update split: option.splits)
  show ?case using Cons.IH [OF rt_wf_shape [OF s Cons.prems]] one by simp
qed simp

section \<open>The law of insertion\<close>

lemma insert_at_claims:
  assumes "rt_wf t" and "rt_tight t" and "node < nn t" and "node = 0 \<or> linked t node"
    and "fresh_tail t tokens blocks node offset"
    and "insert_at_loop now tokens blocks i skip node offset t = (Ok (), t')"
    and "skip \<le> i + reused t tokens blocks node offset"
  shows "block_ref t' b = block_ref t b
    + count_list (drop (skip - i) (found_blocks t tokens blocks node offset)) b
    + count_list (drop (reused t tokens blocks node offset) blocks) b"
  using assms
proof (induction blocks arbitrary: node offset t i)
  case Nil
  then show ?case by simp
next
  case (Cons bid bids)
  obtain key where key: "block_key tokens offset (rt_block_size t) = Some key"
    using Cons.prems(6) by (auto split: option.splits)
  show ?case
  proof (cases "child_at t node key")
    case None
    let ?u = "push_child now t node key offset bid"
    have new: "rt_block_to_node t bid = None" and dist: "distinct (bid # bids)"
      and dj: "set bids \<inter> dom (rt_block_to_node t) = {}"
      using Cons.prems(5) key None by (auto simp: fresh_tail_def)
    note tp = rt_tight_push_child [OF Cons.prems(1-4) None new, where now = now and off = offset]
    have r0: "reused ?u tokens bids (nn t) (offset + rt_block_size t) = 0"
      by (rule reused_childless) (simp add: push_child_simps Cons.prems(3))
    then have ft: "fresh_tail ?u tokens bids (nn t) (offset + rt_block_size t)"
      using dist dj by (auto simp: fresh_tail_def push_child_simps)
    have run: "insert_at_loop now tokens bids (Suc i) skip (nn t) (offset + rt_block_size t) ?u = (Ok (), t')"
      using Cons.prems(6) key None by simp
    have sk: "skip \<le> i" using Cons.prems(7) key None by simp
    have d0: "descent ?u tokens bids (nn t) (offset + rt_block_size t) = []"
      using r0 length_descent length_0_conv by metis
    have "block_ref t' b = block_ref ?u b + count_list bids b"
      using Cons.IH [OF rt_wf_push_child [OF Cons.prems(1,3) None] tp(1) _ _ ft run] sk r0 tp(2)
      by (simp add: push_child_simps d0)
    then show ?thesis using block_ref_push [OF Cons.prems(1,3) new] key None by simp
  next
    case c: (Some child)
    let ?u = "if i < skip then t else bump_ref child t"
    have s: "shape ?u = shape t" by simp
    have r: "child < nn t" using rt_wf_child_at [OF Cons.prems(1,3) c] by simp
    have l: "linked t child" by (rule linked_child_at [OF Cons.prems(1,3) c])
    note same = reused_shape [OF s Cons.prems(1) r] descent_shape [OF s Cons.prems(1) r]
    have ft: "fresh_tail ?u tokens bids child (offset + rt_block_size t)"
      using Cons.prems(5) key c unfolding fresh_tail_def same shape_nth(4) [OF s] by simp
    have run: "insert_at_loop now tokens bids (Suc i) skip child (offset + rt_block_size t) ?u = (Ok (), t')"
      using Cons.prems(6) key c by simp
    have ids: "map (\<lambda>c. rn_block_id (nd ?u c)) (descent t tokens bids child (offset + rt_block_size t))
        = found_blocks t tokens bids child (offset + rt_block_size t)"
      using shape_nth(5) [OF s] descent_range [OF Cons.prems(1) r] by (auto simp: linked_def)
    have "block_ref t' b = block_ref ?u b
        + count_list (drop (skip - Suc i) (found_blocks t tokens bids child (offset + rt_block_size t))) b
        + count_list (drop (reused t tokens bids child (offset + rt_block_size t)) bids) b"
      using Cons.IH [OF rt_wf_shape [OF s Cons.prems(1)] rt_tight_shape [OF s Cons.prems(1,2)] _ _ ft run]
        Cons.prems(7) key c r l
      by (simp add: same ids linked_shape [OF s Cons.prems(1)])
    moreover have "block_ref ?u b = block_ref t b + (if i < skip then 0 else if b = rn_block_id (nd t child) then 1 else 0)"
      using block_ref_bump [OF Cons.prems(1) l Cons.prems(2)] by simp
    moreover have "skip - i = Suc (skip - Suc i)" if "i < skip" using that by simp
    ultimately show ?thesis using key c by (cases "i < skip") (auto simp: not_less)
  qed
qed

section \<open>What an insertion leaves to find\<close>

lemma insert_at_extends:
  "rt_wf t \<Longrightarrow> node < nn t \<Longrightarrow> insert_at_loop now tokens blocks i skip node offset t = (r, t') \<Longrightarrow> extends t t'"
proof (induction blocks arbitrary: node offset t i)
  case (Cons bid bids)
  show ?case
  proof (cases "block_key tokens offset (rt_block_size t)")
    case None
    with Cons.prems show ?thesis by simp
  next
    case (Some key)
    show ?thesis
    proof (cases "child_at t node key")
      case None
      let ?u = "push_child now t node key offset bid"
      have "extends ?u t'"
        using Cons.prems Some None rt_wf_push_child [OF Cons.prems(1,2) None]
        by (intro Cons.IH [of ?u "nn t"]) (auto simp: push_child_simps)
      with extends_push_child [OF Cons.prems(2) None] show ?thesis by (rule extends_trans)
    next
      case c: (Some child)
      let ?u = "if i < skip then t else bump_ref child t"
      have s: "shape ?u = shape t" by simp
      have "extends ?u t'"
        using Cons.prems Some c rt_wf_child_at [OF Cons.prems(1,2) c] rt_wf_shape [OF s]
        by (intro Cons.IH [of ?u child]) auto
      with extends_shape [OF s] show ?thesis by (rule extends_trans)
    qed
  qed
qed simp

lemma insert_at_found:
  "rt_wf t \<Longrightarrow> node < nn t \<Longrightarrow> insert_at_loop now tokens blocks i skip node offset t = (Ok (), t')
    \<Longrightarrow> length other \<le> length blocks \<Longrightarrow> reused t' tokens other node offset = length other"
proof (induction blocks arbitrary: node offset t i other)
  case (Cons bid bids)
  obtain key where key: "block_key tokens offset (rt_block_size t) = Some key"
    using Cons.prems(3) by (auto split: option.splits)
  have ext: "extends t t'" by (rule insert_at_extends [OF Cons.prems(1-3)])
  then have bs: "rt_block_size t' = rt_block_size t" by (simp add: extends_def)
  have "\<exists>child. child_at t' node key = Some child \<and>
      (\<forall>other. length other \<le> length bids \<longrightarrow> reused t' tokens other child (offset + rt_block_size t) = length other)"
  proof (cases "child_at t node key")
    case None
    let ?u = "push_child now t node key offset bid"
    have wf: "rt_wf ?u" by (rule rt_wf_push_child [OF Cons.prems(1,2) None])
    have run: "insert_at_loop now tokens bids (Suc i) skip (nn t) (offset + rt_block_size t) ?u = (Ok (), t')"
      using Cons.prems(3) key None by simp
    have l: "nn t < nn ?u" by (simp add: push_child_simps)
    have "child_at ?u node key = Some (nn t)"
      using Cons.prems(2) by (simp add: child_at_def push_child_simps map_of_update_eq)
    then have "child_at t' node key = Some (nn t)"
      using insert_at_extends [OF wf l run] Cons.prems(2) by (simp add: extends_def push_child_simps)
    then show ?thesis using Cons.IH [OF wf l run] by blast
  next
    case c: (Some child)
    let ?u = "if i < skip then t else bump_ref child t"
    have s: "shape ?u = shape t" by simp
    have r: "child < nn t" using rt_wf_child_at [OF Cons.prems(1,2) c] by simp
    have run: "insert_at_loop now tokens bids (Suc i) skip child (offset + rt_block_size t) ?u = (Ok (), t')"
      using Cons.prems(3) key c by simp
    have "child_at t' node key = Some child" using ext c Cons.prems(2) by (simp add: extends_def)
    moreover have "\<forall>other. length other \<le> length bids \<longrightarrow> reused t' tokens other child (offset + rt_block_size t) = length other"
      using Cons.IH [OF rt_wf_shape [OF s Cons.prems(1)] _ run] r by simp
    ultimately show ?thesis by blast
  qed
  then show ?case using Cons.prems(4) key bs by (cases other) auto
qed simp

end
