(* ===== verification/PoolRuns.thy ===== *)
theory PoolRuns
  imports PoolCache ClaimLaws
begin

text \<open>
  The pool as a state machine. A step is one call of the pool's interface; every state a pool
  reaches from its construction satisfies \<open>pool_inv\<close>, whatever the order of the calls, the outcome
  of the file operations and the answers of the compressor. The code checks none of the ids it is
  given, so the guards of the steps are what its callers have to keep:
  \<^item> a reference is added only to a block of the pool that is not free (a matched or a held one), and a
    block has fewer than 2^32 references (the code counts in 32 bits, the model in naturals);
  \<^item> an inserted prefix names blocks of the pool, of which the ones the tree does not reuse are not
    cached yet, and at most one more than the tokens fill;
  \<^item> a forced release is that of a block of the pool that is not free and has at most one reference;
  \<^item> the capacity is changed only while no cached block is on the free list.
  \<open>find_or_share_prefix_tokens\<close> is no step: it can break the second of these on its own.
\<close>

inductive pool_step :: "kv_block_pool \<Rightarrow> kv_block_pool \<Rightarrow> bool" where
  step_alloc: "pool_step p (snd (kp_alloc e p))"
| step_free: "pool_step p (snd (kp_free e p i))"
| step_release: "i < cap p \<Longrightarrow> i \<notin> set (kp_free_list p) \<Longrightarrow> kp_block_ref_count p i \<le> 1
    \<Longrightarrow> pool_step p (snd (free_with_tier e p i True))"
| step_add_ref: "i < cap p \<Longrightarrow> i \<notin> set (kp_free_list p) \<Longrightarrow> kp_block_ref_count p i + 1 < 2 ^ 32
    \<Longrightarrow> pool_step p (kp_add_ref p i)"
| step_store_keys: "pool_step p (snd (write_keys p i keys n))"
| step_store_values: "pool_step p (snd (write_values p i vals))"
| step_write_keys: "pool_step p (snd (try_write_layer_keys p i layer keys n))"
| step_write_values: "pool_step p (snd (try_write_layer_values p i layer vals))"
| step_write_packed: "pool_step p (snd (try_write_layer_packed p i layer fmt bytes n))"
| step_set_received: "pool_step p (set_received p i received)"
| step_mark_dirty: "pool_step p (mark_dirty p i)"
| step_insert: "set blocks \<subseteq> {..<cap p} \<Longrightarrow> (length blocks - 1) * BLOCK_SIZE \<le> length tokens
    \<Longrightarrow> fresh_tail (kp_tree p) tokens blocks 0 0 \<Longrightarrow> pool_step p (snd (insert_prefix now p tokens blocks))"
| step_insert_at: "set blocks \<subseteq> {..<cap p} \<Longrightarrow> (length blocks - 1) * BLOCK_SIZE \<le> length tokens
    \<Longrightarrow> fresh_tail (kp_tree p) tokens blocks 0 0
    \<Longrightarrow> pool_step p (snd (insert_prefix_with_recurrent_state_at now p tokens blocks layer_states skip))"
| step_match: "pool_step p (snd (match_prefix_promoting e p tokens))"
| step_match_recurrent: "pool_step p (snd (match_prefix_with_recurrent now p tokens))"
| step_remove: "pool_step p (remove_prefix p blocks)"
| step_pin: "pool_step p (kp_pin_blocks now p blocks secs)"
| step_drop_pins: "pool_step p (snd (kp_drop_oldest_pins now p k))"
| step_allocatable: "pool_step p (snd (kp_allocatable_blocks now p))"
| step_demote: "pool_step p (snd (demote_prefix_block e p i))"
| step_demote_cold: "pool_step p (snd (demote_cold_prefix e p))"
| step_promote: "pool_step p (snd (promote_to_gpu e p i))"
| step_flush: "pool_step p (snd (flush_dirty_to_host p))"
| step_resize: "cache_kept p \<Longrightarrow> pool_step p (kp_resize_capacity p n)"
| step_reset: "pool_step p (snd (reset_prefix_cache now p))"
| step_clear_queue: "pool_step p (clear_demote_queue p)"
| step_put_state: "pool_step p (put_ssm_state p r st)"
| step_attach_spill: "pool_step p (kp_attach_spill p s)"
| step_attach_compressor: "pool_step p (kp_attach_compressor p cz)"
| step_layer_range: "pool_step p (kp_with_layer_range p a b)"
| step_layer_geom: "pool_step p (kp_with_layer_geom p layer elem)"

lemma kp_new_simps:
  "kp_free_list (kp_new_on_device now ra n h d dev) = [0..<n]"
  "cap (kp_new_on_device now ra n h d dev) = n"
  "kp_ref_counts (kp_new_on_device now ra n h d dev) = Map.empty"
  "kp_tree (kp_new_on_device now ra n h d dev) = rt_new now BLOCK_SIZE"
  "kp_spill (kp_new_on_device now ra n h d dev) = None"
  "kp_compressor (kp_new_on_device now ra n h d dev) = None"
  "kp_elem (kp_new_on_device now ra n h d dev) = h * d"
  "kp_layer_geoms (kp_new_on_device now ra n h d dev) = Map.empty"
  "i < n \<Longrightarrow> blk (kp_new_on_device now ra n h d dev) i = fresh_block (BLOCK_SIZE * (h * d)) i"
  by (simp_all add: kp_new_on_device_def Let_def kp_elem_def)

lemma layers_sized_new: "layers_sized (kp_new_on_device now ra n h d dev)"
proof -
  have e: "layer_elem (kp_new_on_device now ra n h d dev) 0 = BLOCK_SIZE * (h * d)"
    by (simp add: layer_elem_def kp_block_elem_def kp_new_simps)
  have "\<exists>i. b = fresh_block (BLOCK_SIZE * (h * d)) i"
    if "b \<in> set (kp_blocks (kp_new_on_device now ra n h d dev))" for b
    using that by (auto simp: kp_new_on_device_def Let_def)
  then show ?thesis unfolding layers_sized_def e by (fastforce simp: fresh_block_def)
qed

section \<open>Every step keeps the invariant\<close>

lemma pool_inv_upd_block:
  assumes "pool_inv p" and "i < cap p" and "\<And>b. length (kb_key_data (f b)) = length (kb_key_data b)"
    and "\<And>b. length (kb_value_data (f b)) = length (kb_value_data b)"
  shows "pool_inv (upd_block i f p)"
  by (rule pool_inv_frame [OF assms(1)]) (use assms in \<open>simp_all add: bufs_ok_upd_block pool_inv_def\<close>)

text \<open>Layer 0 replaces the buffers of one block, at their length.\<close>

lemma pool_inv_set_block:
  assumes "pool_inv p" and "i < cap p" and "length (kb_key_data b) = kp_block_elem p"
    and "length (kb_value_data b) = kp_block_elem p"
  shows "pool_inv (upd_block i (\<lambda>_. b) p)"
proof (rule pool_inv_frame [OF assms(1)])
  have "kp_block_elem (upd_block i (\<lambda>_. b) p) = kp_block_elem p"
    by (simp add: upd_block_def kp_block_elem_def kp_elem_def)
  then show "bufs_ok (upd_block i (\<lambda>_. b) p)"
    using assms set_update_subset_insert [of "kp_blocks p" i b]
    by (auto simp: pool_inv_def bufs_ok_def upd_block_def)
qed simp_all

lemma upd_block_const: "upd_block i f p = upd_block i (\<lambda>_. f (blk p i)) p"
  by (simp add: upd_block_def)

lemma pool_inv_mark_dirty [simp]: "pool_inv (mark_dirty p i) = pool_inv p"
  by (simp add: mark_dirty_def pool_inv_def bufs_ok_def tree_ok_def alloc_ok_def kp_block_elem_def kp_elem_def)

lemma pool_inv_dirty [simp]: "pool_inv (p\<lparr>kp_dirty := d\<rparr>) = pool_inv p"
  by (simp add: pool_inv_def bufs_ok_def tree_ok_def alloc_ok_def kp_block_elem_def kp_elem_def)

lemma write_keys_inv:
  assumes inv: "pool_inv p"
  shows "pool_inv (snd (try_write_layer_keys p i layer keys n)) \<and> cap (snd (try_write_layer_keys p i layer keys n)) = cap p"
proof (cases "i < cap p")
  case False
  then show ?thesis using inv by (simp add: try_write_layer_keys_def)
next
  case i: True
  have lens: "length (kb_key_data (blk p i)) = kp_block_elem p" "length (kb_value_data (blk p i)) = kp_block_elem p"
    using inv i bufs_okD by (auto simp: pool_inv_def)
  have zero: "pool_inv (upd_block i (\<lambda>b. b\<lparr>kb_key_data := splice_at 0 keys (kb_key_data b),
      kb_num_tokens := min n BLOCK_SIZE, kb_received := r b\<rparr>) p)"
    if "length keys \<le> length (kb_key_data (blk p i))" for r
    by (subst upd_block_const, rule pool_inv_set_block [OF inv i]) (use that lens in simp_all)
  have grow: "pool_inv (upd_block i (\<lambda>b. b\<lparr>kb_layer_keys := g b\<rparr>) q)" if "pool_inv q" "cap q = cap p" for g q
    by (rule pool_inv_upd_block [OF that(1)]) (use i that in simp_all)
  have g1: "pool_inv (upd_block i (\<lambda>b. b\<lparr>kb_layer_keys := grow_layers p layer (kb_layer_keys b)\<rparr>) p)"
    by (rule grow [OF inv]) simp
  show ?thesis using i zero g1 grow [OF g1] inv by (simp add: try_write_layer_keys_def Let_def)
qed

lemma write_values_inv:
  assumes inv: "pool_inv p"
  shows "pool_inv (snd (try_write_layer_values p i layer vals)) \<and> cap (snd (try_write_layer_values p i layer vals)) = cap p"
proof (cases "i < cap p")
  case False
  then show ?thesis using inv by (simp add: try_write_layer_values_def)
next
  case i: True
  have lens: "length (kb_key_data (blk p i)) = kp_block_elem p" "length (kb_value_data (blk p i)) = kp_block_elem p"
    using inv i bufs_okD by (auto simp: pool_inv_def)
  have zero: "pool_inv (upd_block i (\<lambda>b. b\<lparr>kb_value_data := splice_at 0 vals (kb_value_data b)\<rparr>) p)"
    if "length vals \<le> length (kb_value_data (blk p i))"
    by (subst upd_block_const, rule pool_inv_set_block [OF inv i]) (use that lens in simp_all)
  have grow: "pool_inv (upd_block i (\<lambda>b. b\<lparr>kb_layer_values := g b\<rparr>) q)" if "pool_inv q" "cap q = cap p" for g q
    by (rule pool_inv_upd_block [OF that(1)]) (use i that in simp_all)
  have g1: "pool_inv (upd_block i (\<lambda>b. b\<lparr>kb_layer_values := grow_layers p layer (kb_layer_values b)\<rparr>) p)"
    by (rule grow [OF inv]) simp
  show ?thesis using i zero g1 grow [OF g1] inv by (simp add: try_write_layer_values_def Let_def)
qed

lemma write_packed_inv:
  "pool_inv p \<Longrightarrow> pool_inv (snd (try_write_layer_packed p i layer fmt bytes n))
    \<and> cap (snd (try_write_layer_packed p i layer fmt bytes n)) = cap p"
  by (simp add: try_write_layer_packed_def pool_inv_upd_block)

lemma set_received_inv: "pool_inv p \<Longrightarrow> pool_inv (set_received p i r) \<and> cap (set_received p i r) = cap p"
  by (simp add: set_received_def pool_inv_upd_block)

lemma promote_loop_inv:
  "pool_inv p \<Longrightarrow> pool_inv (snd (promote_loop e bids b p)) \<and> cap (snd (promote_loop e bids b p)) = cap p"
proof (induction bids arbitrary: b p)
  case Nil
  then show ?case by simp
next
  case (Cons x bids)
  obtain r p1 where run: "promote_to_gpu e p x = (r, p1)" by fastforce
  then have p1: "pool_inv p1" "cap p1 = cap p" using promote_inv [OF Cons.prems, of e x] by simp_all
  show ?case using Cons p1 run by (auto split: outcome.splits option.splits)
qed

lemma match_promoting_inv:
  assumes "pool_inv p"
  shows "pool_inv (snd (match_prefix_promoting e p tokens)) \<and> cap (snd (match_prefix_promoting e p tokens)) = cap p"
proof -
  obtain m n where m: "rt_match_prefix (kp_tree p) tokens = (m, n)" by fastforce
  obtain r p1 where run: "promote_loop e m False p = (r, p1)" by fastforce
  then show ?thesis
    using promote_loop_inv [OF assms, of e m False] m by (cases r) (simp_all add: match_prefix_promoting_def)
qed

lemma flush_loop_inv: "pool_inv p \<Longrightarrow> pool_inv (snd (flush_loop is p)) \<and> cap (snd (flush_loop is p)) = cap p"
proof (induction "is" arbitrary: p)
  case Nil
  then show ?case by simp
next
  case (Cons i "is")
  let ?r = "demote_to_host (the (kp_spill p)) i (kb_key_data (blk p i)) (kb_value_data (blk p i))"
  obtain r s where r: "?r = (r, s)" by fastforce
  have "pool_inv (p\<lparr>kp_spill := Some s\<rparr>)" using Cons.prems by simp
  from Cons.IH [OF this] show ?case using Cons r by (cases r) (auto simp: lift_spill_def)
qed

lemma flush_inv: "pool_inv p \<Longrightarrow> pool_inv (snd (flush_dirty_to_host p)) \<and> cap (snd (flush_dirty_to_host p)) = cap p"
proof -
  assume "pool_inv p"
  then have q: "pool_inv (p\<lparr>kp_dirty := []\<rparr>)" by simp
  obtain r p1 where "flush_loop (kp_dirty p) (p\<lparr>kp_dirty := []\<rparr>) = (r, p1)" by fastforce
  with flush_loop_inv [OF q, of "kp_dirty p"] show ?thesis
    by (cases r) (auto simp: flush_dirty_to_host_def q [simplified] split: option.splits)
qed

lemma reset_inv: "pool_inv p \<Longrightarrow> pool_inv (snd (reset_prefix_cache now p)) \<and> cap (snd (reset_prefix_cache now p)) = cap p"
proof -
  assume inv: "pool_inv p"
  let ?q = "p\<lparr>kp_tree := rt_new now BLOCK_SIZE\<rparr>"
  have "tree_ok ?q" by (simp add: tree_ok_def rt_wf_new rt_tight_new) (simp add: rt_new_def)
  then have invq: "pool_inv ?q" using inv by (simp add: pool_inv_def bufs_ok_def alloc_ok_def)
  have "cap (foldl reset_block ?q [0..<cap p]) = cap p"
    using foldl_reset_block [OF invq, of "[0..<cap p]"] by (simp add: rt_new_def)
  then show ?thesis using reset_prefix_cache_spec [OF inv, of now] by (simp add: reset_prefix_cache_def Let_def)
qed

lemma store_inv:
  assumes inv: "pool_inv p"
  shows "pool_inv (snd (write_keys p i keys n))" and "pool_inv (snd (write_values p i vals))"
proof -
  have lens: "length (kb_key_data (blk p i)) = kp_block_elem p" "length (kb_value_data (blk p i)) = kp_block_elem p"
    if "i < cap p" using inv that bufs_okD by (auto simp: pool_inv_def)
  let ?k = "min (min n BLOCK_SIZE * kp_elem p) (length keys)" and ?v = "min (kb_num_tokens (blk p i) * kp_elem p) (length vals)"
  have keys: "pool_inv (upd_block i (\<lambda>b. b\<lparr>kb_key_data := splice_at 0 (take ?k keys) (kb_key_data b),
      kb_num_tokens := min n BLOCK_SIZE, kb_received := r b\<rparr>) p)"
    if "i < cap p" "?k \<le> length (kb_key_data (blk p i))" for r
    by (subst upd_block_const, rule pool_inv_set_block [OF inv that(1)]) (use that lens in simp_all)
  have vals: "pool_inv (upd_block i (\<lambda>b. b\<lparr>kb_value_data := splice_at 0 (take ?v vals) (kb_value_data b)\<rparr>) p)"
    if "i < cap p" "?v \<le> length (kb_value_data (blk p i))"
    by (subst upd_block_const, rule pool_inv_set_block [OF inv that(1)]) (use that lens in simp_all)
  show "pool_inv (snd (write_keys p i keys n))"
    using inv keys [of "\<lambda>b. if 0 < ?k then True else kb_received b"] unfolding write_keys_def Let_def
    by (simp del: min_less_iff_conj zero_less_mult_iff min_le_iff_disj)
  show "pool_inv (snd (write_values p i vals))" using inv vals unfolding write_values_def Let_def
    by (simp del: min_less_iff_conj min_le_iff_disj)
qed

text \<open>Insertion past the blocks a request registered already.\<close>

lemma insert_at_loop_ok:
  "offset + (length blocks - 1) * rt_block_size t \<le> length tokens
    \<Longrightarrow> fst (insert_at_loop now tokens blocks i skip node offset t) = Ok ()"
proof (induction blocks arbitrary: node offset t i)
  case (Cons b bs)
  have "offset \<le> length tokens" using Cons.prems by simp
  then obtain key where key: "block_key tokens offset (rt_block_size t) = Some key"
    using block_key_in_range by blast
  have rest: "bs = [] \<or> offset + rt_block_size t + (length bs - 1) * rt_block_size t \<le> length tokens"
    using Cons.prems by (cases bs) simp_all
  have b: "rt_block_size (if i < skip then t else bump_ref c t) = rt_block_size t"
      "rt_block_size (push_child now t node key offset b) = rt_block_size t" for c
    using shape_nth(3) [of "bump_ref c t" t] by (simp_all add: push_child_simps)
  show ?case
  proof (cases "bs = []")
    case True
    then show ?thesis using key by (auto split: option.splits)
  next
    case False
    then show ?thesis using Cons.IH rest key b by (auto split: option.splits)
  qed
qed simp

lemma pool_inv_checkpoints [simp]: "pool_inv (p\<lparr>kp_checkpoints := c\<rparr>) = pool_inv p"
  by (simp add: pool_inv_def tree_ok_def bufs_ok_def alloc_ok_def kp_block_elem_def kp_elem_def)

lemma attach_anchor_inv: "pool_inv p \<Longrightarrow> pool_inv (attach_anchor now p tokens bs ls)"
proof -
  assume "pool_inv p"
  then have "pool_inv (p\<lparr>kp_checkpoints := c, kp_tree := rt_attach_recurrent_state (kp_tree p) x x\<rparr>)" for c x
    using pool_inv_tree_shape [of "p\<lparr>kp_checkpoints := c\<rparr>" "rt_attach_recurrent_state (kp_tree p) x x"] by simp
  with \<open>pool_inv p\<close> show ?thesis by (simp add: attach_anchor_def Let_def)
qed

lemma insert_at_spec:
  assumes inv: "pool_inv p" and range: "set bs \<subseteq> {..<cap p}"
    and room: "(length bs - 1) * BLOCK_SIZE \<le> length full"
    and fresh: "fresh_tail (kp_tree p) full bs 0 0"
  shows "\<exists>t. insert_at_loop now full bs 0 skip 0 0 (kp_tree p) = (Ok (), t) \<and> rt_wf t
    \<and> dom (rt_block_to_node t) \<subseteq> dom (rt_block_to_node (kp_tree p)) \<union> set bs
    \<and> pool_inv (p\<lparr>kp_tree := rt_touch now t full\<rparr>)
    \<and> insert_prefix_with_recurrent_state_at now p full bs ls skip
        = (Ok (), attach_anchor now (p\<lparr>kp_tree := rt_touch now t full\<rparr>) full bs ls)"
proof -
  let ?t = "kp_tree p"
  have ok: "rt_wf ?t" "rt_tight ?t" "rt_block_size ?t = BLOCK_SIZE" "dom (rt_block_to_node ?t) \<subseteq> {..<cap p}"
    using inv by (auto simp: pool_inv_def tree_ok_def)
  have root: "rt_root ?t = 0" "0 < nn ?t" using ok(1) by (auto simp: rt_wf_def)
  have "fst (insert_at_loop now full bs 0 skip 0 0 ?t) = Ok ()"
    by (rule insert_at_loop_ok) (use room ok(3) in simp)
  then obtain t where t: "insert_at_loop now full bs 0 skip 0 0 ?t = (Ok (), t)" by (metis prod.collapse)
  have wf: "rt_wf t" by (rule insert_at_loop_wf [OF ok(1) root(2) t])
  have size: "rt_block_size t = BLOCK_SIZE"
    using insert_at_extends [OF ok(1) root(2) t] ok(3) by (simp add: extends_def)
  have tight: "rt_tight t" "dom (rt_block_to_node t) \<subseteq> dom (rt_block_to_node ?t) \<union> set bs"
    using insert_at_loop_tight [OF ok(1,2) root(2) _ fresh t] by simp_all
  have "tree_ok (p\<lparr>kp_tree := t\<rparr>)"
    using wf tight ok(4) range size by (auto simp: tree_ok_def)
  then have "pool_inv (p\<lparr>kp_tree := t\<rparr>)" using inv by (simp add: pool_inv_def bufs_ok_def alloc_ok_def)
  from pool_inv_tree_shape [OF this, of "rt_touch now t full"]
  have inv1: "pool_inv (p\<lparr>kp_tree := rt_touch now t full\<rparr>)" by simp
  then show ?thesis
    using t root(1) wf tight(2) by (simp add: insert_prefix_with_recurrent_state_at_def lift_tree_def rt_insert_at_def)
qed

text \<open>A forced release drops the last reference, if there is one, and releases the block.\<close>

lemma release_forced:
  assumes inv: "pool_inv p" and i: "i < cap p" "i \<notin> set (kp_free_list p)" "kp_block_ref_count p i \<le> 1"
  shows "pool_inv (snd (free_with_tier e p i True))"
proof (cases "kp_ref_counts p i")
  case None
  then show ?thesis using release_block_spec [OF inv i(1,2), where e = e] by (auto simp: free_with_tier_def)
next
  case (Some c)
  with i(3) pool_inv_ref_range [OF inv Some] have c: "c = 1" by (simp add: kp_block_ref_count_def)
  have "i < cap (drop_ref i p)" "i \<notin> set (kp_free_list (drop_ref i p))" "kp_ref_counts (drop_ref i p) i = None"
    using i by simp_all
  from release_block_spec [OF pool_inv_drop_ref [OF inv, of i] this, where e = e]
  show ?thesis using Some c by (auto simp: free_with_tier_def)
qed

lemma demote_inv: "pool_inv p \<Longrightarrow> pool_inv (snd (demote_prefix_block e p i))"
proof (cases "i < cap p")
  case True
  then show "pool_inv p \<Longrightarrow> ?thesis" using demote_prefix_block_inv [of p i e] by auto
qed (simp add: demote_prefix_block_def split: option.splits)

lemma demote_cold_inv: "pool_inv p \<Longrightarrow> pool_inv (snd (demote_cold_prefix e p))"
proof -
  assume inv: "pool_inv p"
  obtain bid :: nat where "demote_cold_prefix e p = (Ok None, p)
    \<or> demote_cold_prefix e p = and_then (demote_prefix_block e p bid) (\<lambda>ok p1. (Ok (if ok then Some bid else None), p1))"
    by (cases "rt_coldest_leaf (env_now e) (kp_tree p)") (auto simp: demote_cold_prefix_def)
  moreover obtain r q where "demote_prefix_block e p bid = (r, q)" by fastforce
  ultimately show ?thesis using inv demote_inv [OF inv, of e bid] by (cases r) auto
qed

lemma plain_updates_inv [simp]:
  "pool_inv (clear_demote_queue p) = pool_inv p" "pool_inv (put_ssm_state p r st) = pool_inv p"
  "pool_inv (kp_with_layer_range p a b) = pool_inv p" "pool_inv (kp_with_layer_geom p layer elem) = pool_inv p"
  by (simp_all add: clear_demote_queue_def put_ssm_state_def kp_with_layer_range_def kp_with_layer_geom_def
      pool_inv_def tree_ok_def bufs_ok_def alloc_ok_def kp_block_elem_def kp_elem_def)

lemma pool_step_inv: "pool_step p p' \<Longrightarrow> pool_inv p \<Longrightarrow> pool_inv p'"
proof (induction rule: pool_step.induct)
  case (step_alloc p e)
  then show ?case using kp_alloc_spec by blast
next
  case (step_free p e i)
  then show ?case using kp_free_spec [of p e i] by auto
next
  case (step_add_ref i p)
  then show ?case using pool_inv_add_ref [of p i] by (simp add: kp_add_ref_def)
next
  case (step_insert blocks p tokens now)
  then obtain t' where "insert_prefix now p tokens blocks = (Ok (), p\<lparr>kp_tree := t'\<rparr>)" "pool_inv (p\<lparr>kp_tree := t'\<rparr>)"
    using insert_prefix_spec [of p blocks tokens now] by blast
  then show ?case by simp
next
  case (step_insert_at blocks p tokens now layer_states skip)
  from insert_at_spec [OF step_insert_at(4,1-3), of now skip layer_states] show ?case using attach_anchor_inv by auto
next
  case (step_match_recurrent p now tokens)
  then show ?case by (simp add: match_prefix_with_recurrent_def split: prod.split option.split)
next
  case (step_pin p now blocks secs)
  then show ?case using pool_inv_pin by (simp add: kp_pin_blocks_def)
next
  case (step_drop_pins p now k)
  then show ?case
    using pool_inv_drop_oldest [of p now k] by (simp add: kp_drop_oldest_pins_def split: prod.splits)
next
  case (step_allocatable p now)
  have "pool_inv (p\<lparr>kp_tree := rt_sweep_expired_pins now (kp_tree p)\<rparr>)"
    by (rule pool_inv_tree_shape [OF step_allocatable]) simp
  then show ?case by (simp add: kp_allocatable_blocks_def Let_def)
next
  case (step_remove p blocks)
  then show ?case using pool_inv_remove_prefix by (simp add: remove_prefix_def)
next
  case (step_promote p e i)
  then show ?case using promote_inv by blast
next
  case (step_resize p n)
  then show ?case using resize_spec by blast
next
  case (step_attach_spill p s)
  then show ?case by (simp add: kp_attach_spill_def)
next
  case (step_attach_compressor p cz)
  then show ?case
    by (simp add: kp_attach_compressor_def pool_inv_def bufs_ok_def tree_ok_def alloc_ok_def kp_block_elem_def kp_elem_def)
qed (simp_all add: write_keys_inv write_values_inv write_packed_inv set_received_inv match_promoting_inv
      flush_inv reset_inv release_forced demote_inv demote_cold_inv store_inv)

lemma pool_run_inv: "pool_step\<^sup>*\<^sup>* p p' \<Longrightarrow> pool_inv p \<Longrightarrow> pool_inv p'"
  by (induction rule: rtranclp_induct) (auto dest: pool_step_inv)

text \<open>Without its guard \<open>add_ref\<close> breaks the invariant: on a new pool it leaves a free block with a reference.\<close>

lemma add_ref_unchecked:
  "0 < n \<Longrightarrow> \<not> pool_inv (kp_add_ref (kp_new_on_device now ra n h d dev) 0)"
  by (simp add: kp_add_ref_def pool_inv_def alloc_ok_def kp_new_simps)

end
