(* ===== verification/RadixChains.thy ===== *)
theory RadixChains
  imports RadixTree
begin

text \<open>
  What an eviction detaches, said without its loop: the coldest evictable leaf and, above it, every
  ancestor that has no other child -- the branch that would be left without a leaf.
\<close>

function bare_branch :: "radix_tree \<Rightarrow> nat \<Rightarrow> nat list" where
  "bare_branch t n = n # (case rn_parent (nd t n) of
     Some p \<Rightarrow> if p < n \<and> p \<noteq> rt_root t \<and> length (rn_children (nd t p)) = 1 then bare_branch t p else []
   | None \<Rightarrow> [])"
  by pat_completeness auto
termination
  by (relation "measure snd") auto

declare bare_branch.simps [simp del]

lemma bare_branch_cong:
  assumes "\<And>i. i \<le> n \<Longrightarrow> rn_parent (nd u i) = rn_parent (nd t i)"
    and "\<And>i. i < n \<Longrightarrow> rn_children (nd u i) = rn_children (nd t i)" and "rt_root u = rt_root t"
  shows "bare_branch u n = bare_branch t n"
  using assms
proof (induction n rule: less_induct)
  case (less n)
  show ?case
  proof (cases "rn_parent (nd t n)")
    case None
    then show ?thesis using less.prems(1) [of n] by (simp add: bare_branch.simps [of _ n])
  next
    case (Some p)
    have "bare_branch u p = bare_branch t p" if "p < n" by (rule less.IH [OF that]) (use that less.prems in simp_all)
    then show ?thesis
      using Some less.prems(1) [of n] less.prems(2) [of p] less.prems(3)
      by (cases "p < n") (simp_all add: bare_branch.simps [of _ n])
  qed
qed

text \<open>A parent is left without children exactly when the detached node was its only one.\<close>

lemma childless_unlink:
  assumes wf: "rt_wf t" and n: "n < nn t" and p: "rn_parent (nd t n) = Some p" and l: "linked t n"
  shows "rn_children (nd (unlink t p n) p) = [] \<longleftrightarrow> length (rn_children (nd t p)) = 1"
proof -
  let ?cs = "rn_children (nd t p)"
  have pl: "p < nn t" using wf n p unfolding rt_wf_def by (auto split: option.splits)
  have d: "distinct (map snd ?cs)" using wf pl unfolding rt_wf_def by blast
  obtain k where k: "(k, n) \<in> set ?cs" using l p by (auto simp: linked_def)
  have "rn_children (nd (unlink t p n) p) = [] \<longleftrightarrow> set (map snd ?cs) \<subseteq> {n}"
    using unlink_simps(9) [OF wf n p l] by (auto simp flip: set_empty)
  also have "\<dots> \<longleftrightarrow> set (map snd ?cs) = {n}" using k by force
  also have "\<dots> \<longleftrightarrow> length ?cs = 1"
  proof
    assume "set (map snd ?cs) = {n}"
    then show "length ?cs = 1" using distinct_card [OF d] by simp
  next
    assume "length ?cs = 1"
    then show "set (map snd ?cs) = {n}" using k by (auto simp: length_Suc_conv)
  qed
  finally show ?thesis .
qed

lemma walk_up_chain:
  assumes "rt_wf t" and "rt_tight t" and "n < nn t" and "n = 0 \<or> linked t n" and "n < idx"
    and "walk_up fuel t idx n detached = Some (chain, t')"
  shows "chain = detached @ (if n \<noteq> 0 \<and> rn_children (nd t n) = []
    then map (\<lambda>i. rn_block_id (nd t i)) (bare_branch t n) else [])"
  using assms
proof (induction fuel arbitrary: t n detached)
  case 0
  then show ?case by simp
next
  case (Suc fuel)
  have root: "rt_root t = 0" using Suc.prems(1) by (simp add: rt_wf_def)
  show ?case
  proof (cases "n \<noteq> 0 \<and> rn_children (nd t n) = []")
    case False
    with Suc.prems(6) root show ?thesis by (auto simp: Let_def)
  next
    case go: True
    with Suc.prems(4) have l: "linked t n" by simp
    then obtain p where p: "rn_parent (nd t n) = Some p" by (auto simp: linked_def)
    have pn: "p < n" using Suc.prems(1,3) p unfolding rt_wf_def by (auto split: option.splits)
    note us = unlink_simps [OF Suc.prems(1,3) p l]
    let ?u = "unlink t p n"
    have lp: "p = 0 \<or> linked t p" by (rule parent_linked [OF Suc.prems(2) l p pn])
    have run: "walk_up fuel ?u idx p (detached @ [rn_block_id (nd t n)]) = Some (chain, t')"
      using Suc.prems(5,6) go p root by (simp add: Let_def)
    have "chain = (detached @ [rn_block_id (nd t n)]) @ (if p \<noteq> 0 \<and> rn_children (nd ?u p) = []
        then map (\<lambda>i. rn_block_id (nd ?u i)) (bare_branch ?u p) else [])"
      by (rule Suc.IH [OF _ _ _ _ _ run])
        (use rt_wf_unlink [OF Suc.prems(1,3) p l] rt_tight_unlink [OF Suc.prems(1,3) p l Suc.prems(2)] go pn
          Suc.prems(3,5) us(1) lp linked_unlink [OF Suc.prems(1,3) p l, of p] in auto)
    moreover have "bare_branch ?u p = bare_branch t p"
      by (rule bare_branch_cong) (use us(5) us(8) us(2) in auto)
    moreover have "rn_children (nd ?u p) = [] \<longleftrightarrow> length (rn_children (nd t p)) = 1"
      by (rule childless_unlink [OF Suc.prems(1,3) p l])
    moreover have "rn_block_id (nd ?u i) = rn_block_id (nd t i)" for i by (rule us(6))
    ultimately show ?thesis using go p pn root by (simp add: bare_branch.simps [of t n])
  qed
qed

text \<open>The whole eviction.\<close>

lemma evicted_branch:
  assumes wf: "rt_wf t" and tight: "rt_tight t" and run: "rt_evict_coldest_chain now t = Some (chain, t')"
    and some: "coldest_candidate now t = Some (idx, n)"
  shows "chain = map (\<lambda>i. rn_block_id (nd t i)) (bare_branch t idx)"
proof -
  note cand = coldest_candidate_Some [OF some]
  have ev: "idx \<noteq> rt_root t" "rt_block_to_node t (rn_block_id (nd t idx)) = Some idx" "rn_children (nd t idx) = []"
    using cand(3) by (auto simp: evictable_def cand(2))
  have root: "rt_root t = 0" using wf by (simp add: rt_wf_def)
  have l: "linked t idx" using tight ev(2) by (auto simp: rt_tight_def)
  then obtain p where p: "rn_parent (nd t idx) = Some p" by (auto simp: linked_def)
  have pn: "p < idx" using wf cand(1) p unfolding rt_wf_def by (auto split: option.splits)
  note us = unlink_simps [OF wf cand(1) p l]
  let ?u = "unlink t p idx"
  have lp: "p = 0 \<or> linked t p" by (rule parent_linked [OF tight l p pn])
  have run': "walk_up (nn t) ?u idx p [rn_block_id (nd t idx)] = Some (chain, t')"
    using run ev p by (simp add: rt_evict_coldest_chain_def some Let_def)
  have "chain = [rn_block_id (nd t idx)] @ (if p \<noteq> 0 \<and> rn_children (nd ?u p) = []
      then map (\<lambda>i. rn_block_id (nd ?u i)) (bare_branch ?u p) else [])"
    by (rule walk_up_chain [OF _ _ _ _ _ run'])
      (use rt_wf_unlink [OF wf cand(1) p l] rt_tight_unlink [OF wf cand(1) p l tight ev(3)]
        lp linked_unlink [OF wf cand(1) p l, of p] pn cand(1) us(1) in auto)
  moreover have "bare_branch ?u p = bare_branch t p"
    by (rule bare_branch_cong) (use us(5) us(8) us(2) pn in auto)
  moreover have "rn_children (nd ?u p) = [] \<longleftrightarrow> length (rn_children (nd t p)) = 1"
    by (rule childless_unlink [OF wf cand(1) p l])
  ultimately show ?thesis using p pn root us(6) by (simp add: bare_branch.simps [of t idx])
qed

lemma coldest_candidate_None:
  "coldest_candidate now t = None \<longleftrightarrow> (\<forall>j < nn t. \<not> evictable now t (j, nd t j))"
proof
  assume "coldest_candidate now t = None"
  then show "\<forall>j < nn t. \<not> evictable now t (j, nd t j)"
    unfolding coldest_candidate_def scan_min_None_iff by (force simp: in_set_enumerate_eq)
next
  assume none: "\<forall>j < nn t. \<not> evictable now t (j, nd t j)"
  show "coldest_candidate now t = None"
  proof (rule ccontr)
    assume "coldest_candidate now t \<noteq> None"
    then obtain idx n where "coldest_candidate now t = Some (idx, n)" by fastforce
    from coldest_candidate_Some [OF this] none show False by simp
  qed
qed

text \<open>A tree of two cached prefixes, blocks 5 and 6 and block 9, all unclaimed; 6 was used before 9.\<close>

definition two_branches :: radix_tree where
  "two_branches = \<lparr>rt_nodes =
     [\<lparr>rn_block_id = usize_max, rn_token_span = (0, 0), rn_children = [(11, 1), (12, 3)], rn_parent = None,
        rn_ref_count = 0, rn_pinned_until = None, rn_last_access = 0, rn_recurrent_state_id = None\<rparr>,
      \<lparr>rn_block_id = 5, rn_token_span = (0, 16), rn_children = [(13, 2)], rn_parent = Some 0,
        rn_ref_count = 0, rn_pinned_until = None, rn_last_access = 3, rn_recurrent_state_id = None\<rparr>,
      \<lparr>rn_block_id = 6, rn_token_span = (16, 32), rn_children = [], rn_parent = Some 1,
        rn_ref_count = 0, rn_pinned_until = None, rn_last_access = 3, rn_recurrent_state_id = None\<rparr>,
      \<lparr>rn_block_id = 9, rn_token_span = (0, 16), rn_children = [], rn_parent = Some 0,
        rn_ref_count = 0, rn_pinned_until = None, rn_last_access = 8, rn_recurrent_state_id = None\<rparr>],
    rt_root = 0, rt_block_size = 16, rt_block_to_node = [5 \<mapsto> 1, 6 \<mapsto> 2, 9 \<mapsto> 3]\<rparr>"

lemma below_four: "i < 4 \<longleftrightarrow> i = 0 \<or> i = 1 \<or> i = 2 \<or> i = (3 :: nat)"
  by auto

lemma two_branches_nodes: "nn two_branches = 4" "rt_root two_branches = 0"
  "rt_block_to_node two_branches = [5 \<mapsto> 1, 6 \<mapsto> 2, 9 \<mapsto> 3]"
  "rn_children (nd two_branches 0) = [(11, 1), (12, 3)]" "rn_children (nd two_branches 1) = [(13, 2)]"
  "rn_children (nd two_branches 2) = []" "rn_children (nd two_branches 3) = []"
  "rn_parent (nd two_branches 0) = None" "rn_parent (nd two_branches 1) = Some 0"
  "rn_parent (nd two_branches 2) = Some 1" "rn_parent (nd two_branches 3) = Some 0"
  "rn_block_id (nd two_branches 1) = 5" "rn_block_id (nd two_branches 2) = 6" "rn_block_id (nd two_branches 3) = 9"
  by (simp_all add: two_branches_def numeral_eq_Suc)

lemma two_branches_wf: "rt_wf two_branches"
proof -
  have "\<forall>b i. rt_block_to_node two_branches b = Some i
      \<longrightarrow> 0 < i \<and> i < nn two_branches \<and> rn_block_id (nd two_branches i) = b"
    by (auto simp: two_branches_nodes simp del: One_nat_def split: if_splits)
  then show ?thesis
    unfolding rt_wf_def
    by (auto simp: two_branches_nodes below_four simp del: One_nat_def)
qed

lemma two_branches_tight: "rt_tight two_branches"
proof -
  have l: "linked two_branches i \<longleftrightarrow> i = 1 \<or> i = 2 \<or> i = 3" for i
    unfolding linked_def by (auto simp: two_branches_nodes below_four simp del: One_nat_def)
  show ?thesis
    unfolding rt_tight_def l
    by (auto simp: two_branches_nodes below_four simp del: One_nat_def split: if_splits)
qed

lemma two_branches_candidates: "evictable 20 two_branches (j, nd two_branches j) \<longleftrightarrow> j = 2 \<or> j = 3" if "j < 4"
  using that by (auto simp: evictable_def below_four two_branches_nodes simp del: One_nat_def)
    (simp_all add: two_branches_def rn_is_pinned_def numeral_eq_Suc)

lemma two_branches_times: "rn_last_access (nd two_branches 2) = 3" "rn_last_access (nd two_branches 3) = 8"
  by (simp_all add: two_branches_def numeral_eq_Suc)

lemma two_branches_bare: "bare_branch two_branches 2 = [2, 1]" "bare_branch two_branches 3 = [3]"
proof -
  have "bare_branch two_branches 1 = [1]"
    by (simp add: bare_branch.simps [of _ 1] two_branches_nodes del: One_nat_def)
  then show "bare_branch two_branches 2 = [2, 1]"
    by (simp add: bare_branch.simps [of _ 2] two_branches_nodes del: One_nat_def)
  show "bare_branch two_branches 3 = [3]"
    by (simp add: bare_branch.simps [of _ 3] two_branches_nodes del: One_nat_def)
qed

end
