(* ===== verification/PagedCache.thy ===== *)
theory PagedCache
  imports PoolCache
begin

text \<open>
  \<open>BlockTable\<close> and \<open>PagedKvCache\<close> of \<open>crates/grim-memory/src/lib.rs\<close>: the logical-to-physical table
  of one sequence, its token counters, the per-layer page buffers, and the traffic with the shared
  pool. A session without a device backend is modelled: the GPU buffers of the mirror stay empty, so
  an append always marks its block dirty. The quantizers of the packed path are parameters.

  The pool is shared by sessions; an operation takes the cache and the pool and returns both.
\<close>

section \<open>State\<close>

record paged_cache =
  pc_table :: "nat list"
  pc_num_heads :: nat
  pc_head_dim :: nat
  pc_capacity :: nat
  pc_page_size :: nat
  pc_committed :: nat
  pc_tentative :: nat
  pc_block_table_u32 :: "u32 list"
  pc_k_pages :: "f32 list list"
  pc_v_pages :: "f32 list list"
  pc_cursors :: "nat list"
  pc_mirror_dirty :: "(nat \<times> nat) list"
  pc_seeded_pending :: nat
  pc_hydrated :: "nat list"

type_synonym 'a cache_result = "(kv_error, 'a) outcome \<times> paged_cache \<times> kv_block_pool"

text \<open>\<open>quant_ostquant_w4_group128\<close> and \<open>quant_nvfp4\<close>, \<open>None\<close> being their error.\<close>

record packers =
  pk_white_crow :: "f32 list \<Rightarrow> (u8 list \<times> u8 list \<times> u8 list) option"
  pk_nvfp4 :: "f32 list \<Rightarrow> u8 list option"

definition pc_new :: "kv_block_pool \<Rightarrow> nat \<Rightarrow> nat \<Rightarrow> nat \<Rightarrow> paged_cache" where
  "pc_new p num_heads head_dim page_size =
     \<lparr>pc_table = [], pc_num_heads = num_heads, pc_head_dim = head_dim, pc_capacity = cap p,
      pc_page_size = (if page_size = 0 then BLOCK_SIZE else page_size),
      pc_committed = 0, pc_tentative = 0, pc_block_table_u32 = [], pc_k_pages = [], pc_v_pages = [],
      pc_cursors = [], pc_mirror_dirty = [], pc_seeded_pending = 0, pc_hydrated = []\<rparr>"

section \<open>Block table\<close>

definition bt_num_tokens :: "nat list \<Rightarrow> kv_block_pool \<Rightarrow> (unit, nat) outcome" where
  "bt_num_tokens table p =
     (if \<forall>b \<in> set table. b < cap p then Ok (sum_list (map (\<lambda>b. kb_num_tokens (blk p b)) table)) else Panic)"

text \<open>Popping \<open>k\<close> ids off the table, each freed in the pool; the result of a free is dropped.\<close>

fun bt_pop :: "env \<Rightarrow> nat \<Rightarrow> nat list \<Rightarrow> kv_block_pool \<Rightarrow> (kv_error, nat list) outcome \<times> kv_block_pool" where
  "bt_pop e 0 table p = (Ok table, p)"
| "bt_pop e (Suc k) table p =
     (if table = [] then (Ok table, p)
      else and_then (kp_free e p (last table)) (\<lambda>_ p1. bt_pop e k (butlast table) p1))"

definition bt_truncate :: "env \<Rightarrow> nat \<Rightarrow> nat list \<Rightarrow> kv_block_pool \<Rightarrow> (kv_error, nat list) outcome \<times> kv_block_pool" where
  "bt_truncate e n table p = (if n \<ge> length table then (Ok table, p) else bt_pop e (length table - n) table p)"

section \<open>Token accounting\<close>

definition push_block :: "nat \<Rightarrow> paged_cache \<Rightarrow> paged_cache" where
  "push_block b c = c\<lparr>pc_table := pc_table c @ [b],
     pc_block_table_u32 := pc_block_table_u32 c @ [word_of_nat b]\<rparr>"

definition alloc_push :: "env \<Rightarrow> paged_cache \<Rightarrow> kv_block_pool \<Rightarrow> unit cache_result" where
  "alloc_push e c p =
     (case kp_alloc e p of
        (Ok b, p1) \<Rightarrow> (Ok (), push_block b c, p1)
      | (Err err, p1) \<Rightarrow> (Err err, c, p1)
      | (Panic, p1) \<Rightarrow> (Panic, c, p1)
      | (Hang, p1) \<Rightarrow> (Hang, c, p1))"

definition append_slot :: "env \<Rightarrow> paged_cache \<Rightarrow> kv_block_pool \<Rightarrow> unit cache_result" where
  "append_slot e c p =
     (let c1 = c\<lparr>pc_committed := pc_committed c + 1\<rparr> in
      if length (pc_table c1) < div_ceil (pc_committed c1) BLOCK_SIZE then alloc_push e c1 p
      else (Ok (), c1, p))"

text \<open>Allocate and push \<open>k\<close> blocks; an error leaves the ones already pushed.\<close>

fun reserve :: "env \<Rightarrow> nat \<Rightarrow> paged_cache \<Rightarrow> kv_block_pool \<Rightarrow> unit cache_result" where
  "reserve e 0 c p = (Ok (), c, p)"
| "reserve e (Suc k) c p =
     and_then (alloc_push e c p) (\<lambda>_ (c1, p1). reserve e k c1 p1)"

definition tentative_append :: "env \<Rightarrow> nat \<Rightarrow> paged_cache \<Rightarrow> kv_block_pool \<Rightarrow> unit cache_result" where
  "tentative_append e n c p =
     (if n = 0 then (Ok (), c, p)
      else and_then (reserve e (div_ceil (pc_committed c + pc_tentative c + n) BLOCK_SIZE - length (pc_table c)) c p)
        (\<lambda>_ (c1, p1). (Ok (), c1\<lparr>pc_tentative := pc_tentative c1 + n\<rparr>, p1)))"

text \<open>The shared tail of \<open>commit\<close> and \<open>rollback_to\<close>: release the blocks past the committed tokens.\<close>

fun release_tail :: "env \<Rightarrow> nat \<Rightarrow> paged_cache \<Rightarrow> kv_block_pool \<Rightarrow> unit cache_result" where
  "release_tail e 0 c p = (Ok (), c, p)"
| "release_tail e (Suc k) c p =
     (if pc_table c = [] then (Ok (), c, p)
      else (let c1 = c\<lparr>pc_table := butlast (pc_table c)\<rparr> in
            (case kp_free e p (last (pc_table c)) of
               (Ok _, p1) \<Rightarrow> release_tail e k (c1\<lparr>pc_block_table_u32 := butlast (pc_block_table_u32 c1)\<rparr>) p1
             | (Err err, p1) \<Rightarrow> (Err err, c1, p1)
             | (Panic, p1) \<Rightarrow> (Panic, c1, p1)
             | (Hang, p1) \<Rightarrow> (Hang, c1, p1))))"

definition trim_table :: "env \<Rightarrow> paged_cache \<Rightarrow> kv_block_pool \<Rightarrow> unit cache_result" where
  "trim_table e c p =
     release_tail e (length (pc_table c) - (if pc_committed c = 0 then 0 else div_ceil (pc_committed c) BLOCK_SIZE)) c p"

definition pc_commit :: "env \<Rightarrow> nat \<Rightarrow> paged_cache \<Rightarrow> kv_block_pool \<Rightarrow> unit cache_result" where
  "pc_commit e accepted_tokens c p =
     trim_table e (c\<lparr>pc_committed := pc_committed c + min accepted_tokens (pc_tentative c),
                     pc_tentative := 0\<rparr>) p"

definition rollback_to :: "env \<Rightarrow> nat \<Rightarrow> paged_cache \<Rightarrow> kv_block_pool \<Rightarrow> unit cache_result" where
  "rollback_to e len c p =
     trim_table e (c\<lparr>pc_committed := min (pc_committed c) len, pc_tentative := 0\<rparr>) p"

definition pc_len :: "paged_cache \<Rightarrow> nat" where
  "pc_len c = pc_committed c + pc_tentative c"

definition seed_prefix :: "nat list \<Rightarrow> paged_cache \<Rightarrow> kv_block_pool \<Rightarrow> paged_cache \<times> kv_block_pool" where
  "seed_prefix blocks c p =
     (let c1 = foldl (\<lambda>c b. push_block b c) c blocks; n = length (pc_table c1) * BLOCK_SIZE in
      (c1\<lparr>pc_committed := n, pc_cursors := map (\<lambda>_. n) (pc_cursors c1), pc_seeded_pending := length blocks\<rparr>,
       foldl kp_add_ref p blocks))"

definition pc_block_num_tokens :: "paged_cache \<Rightarrow> nat \<Rightarrow> nat option" where
  "pc_block_num_tokens c b =
     (if b \<ge> length (pc_table c) then None
      else (let full = pc_committed c div pc_page_size c; tail = pc_committed c mod pc_page_size c in
            if b < full then Some (pc_page_size c)
            else if b = full then Some (if tail = 0 then pc_page_size c else tail)
            else Some 0))"

definition pc_block_table :: "paged_cache \<Rightarrow> u32 list option" where
  "pc_block_table c = (if pc_block_table_u32 c = [] then None else Some (pc_block_table_u32 c))"

section \<open>Pages\<close>

text \<open>The per-token stride of a layer's page buffer.\<close>

definition layer_stride :: "paged_cache \<Rightarrow> nat \<Rightarrow> nat" where
  "layer_stride c layer = length (pc_k_pages c ! layer) div (pc_capacity c * pc_page_size c)"

definition pc_layer_block_slice :: "paged_cache \<Rightarrow> nat \<Rightarrow> nat \<Rightarrow> (f32 list \<times> f32 list) option" where
  "pc_layer_block_slice c layer b =
     (if layer \<ge> length (pc_k_pages c) \<or> layer \<ge> length (pc_v_pages c) then None
      else (let elems = pc_page_size c * layer_stride c layer; start = b * elems; end = start + elems in
            if end \<le> length (pc_k_pages c ! layer) \<and> end \<le> length (pc_v_pages c ! layer)
            then Some (take elems (drop start (pc_k_pages c ! layer)),
                       take elems (drop start (pc_v_pages c ! layer)))
            else None))"

definition write_layer_block :: "nat \<Rightarrow> nat \<Rightarrow> f32 list \<Rightarrow> f32 list \<Rightarrow> paged_cache \<Rightarrow> paged_cache" where
  "write_layer_block layer b k v c =
     (let stride = (if layer < length (pc_k_pages c) \<and> pc_k_pages c ! layer \<noteq> []
                    then layer_stride c layer else pc_num_heads c * pc_head_dim c);
          page_elems = pc_capacity c * pc_page_size c * stride;
          grow = Suc layer - length (pc_k_pages c);
          kp = pc_k_pages c @ replicate grow (replicate page_elems 0);
          vp = pc_v_pages c @ replicate grow (replicate page_elems 0);
          elems = pc_page_size c * stride; start = b * elems;
          k' = take elems k; v' = take elems v;
          put = (\<lambda>src dst. if start + length src \<le> length dst then splice_at start src dst else dst)
      in c\<lparr>pc_k_pages := kp[layer := put k' (kp ! layer)],
           pc_v_pages := vp[layer := put v' (vp ! layer)],
           pc_cursors := pc_cursors c @ replicate grow 0\<rparr>)"

definition gather_kv_f32 :: "paged_cache \<Rightarrow> nat \<Rightarrow> nat \<Rightarrow> (f32 list \<times> f32 list) option" where
  "gather_kv_f32 c layer num_tokens =
     (if num_tokens = 0 then Some ([], [])
      else if layer \<ge> length (pc_k_pages c) \<or> layer \<ge> length (pc_v_pages c) then None
      else (let kl = pc_k_pages c ! layer; vl = pc_v_pages c ! layer; stride = layer_stride c layer in
            if kl = [] \<or> vl = [] \<or> stride = 0 then None
            else (let elems = pc_page_size c * stride;
                      n_blocks = min (div_ceil num_tokens (pc_page_size c)) (length (pc_table c));
                      ids = take n_blocks (pc_table c);
                      cut = (\<lambda>buf b. take (min (b * elems + elems) (length kl) - b * elems) (drop (b * elems) buf))
                  in if \<exists>b \<in> set ids. b * elems \<ge> min (b * elems + elems) (length kl) then None
                     else Some (take (num_tokens * stride) (concat (map (cut kl) ids)),
                                take (num_tokens * stride) (concat (map (cut vl) ids))))))"

section \<open>Appending keys and values\<close>

text \<open>\<open>dst[off..off+n].copy_from_slice(&src[from..from+n])\<close>, \<open>None\<close> when a slice is out of range.\<close>

definition copy_rows :: "nat \<Rightarrow> nat \<Rightarrow> nat \<Rightarrow> 'a list \<Rightarrow> 'a list \<Rightarrow> 'a list option" where
  "copy_rows off from n src dst =
     (if off + n \<le> length dst \<and> from + n \<le> length src
      then Some (splice_at off (take n (drop from src)) dst) else None)"

text \<open>The shape rule: sequence length and stride of a 2-D or 3-D tensor, anything else one row.\<close>

definition seq_stride :: "nat list \<Rightarrow> f32 list \<Rightarrow> nat \<times> nat" where
  "seq_stride dims flat =
     (case dims of [_, s, d] \<Rightarrow> (s, d) | [s, d] \<Rightarrow> (s, d) | _ \<Rightarrow> (1, length flat))"

definition grow_pages :: "nat \<Rightarrow> nat \<Rightarrow> nat \<Rightarrow> paged_cache \<Rightarrow> paged_cache" where
  "grow_pages layer seq stride c =
     (let old = length (pc_k_pages c); page = replicate (pc_capacity c * pc_page_size c * stride) 0 in
      if old \<le> layer
      then c\<lparr>pc_k_pages := pc_k_pages c @ replicate (Suc layer - old) page,
             pc_v_pages := pc_v_pages c @ replicate (Suc layer - old) page,
             pc_cursors := pc_cursors c
               @ map (\<lambda>l. if l = 0 then pc_committed c else pc_committed c - seq) [old..<Suc layer]\<rparr>
      else c)"

definition hydrate_block :: "kv_block_pool \<Rightarrow> nat \<Rightarrow> nat \<Rightarrow> paged_cache \<Rightarrow> nat \<Rightarrow> paged_cache" where
  "hydrate_block p layer elems c b =
     (let c1 = (case (read_layer_keys p b layer, read_layer_values p b layer) of
                  (Some lk, Some lv) \<Rightarrow>
                    (let off = b * elems; k = take elems lk; v = take elems lv;
                         put = (\<lambda>src dst. if off + length src \<le> length dst then splice_at off src dst else dst)
                     in c\<lparr>pc_k_pages := (pc_k_pages c)[layer := put k (pc_k_pages c ! layer)],
                          pc_v_pages := (pc_v_pages c)[layer := put v (pc_v_pages c ! layer)]\<rparr>)
                | _ \<Rightarrow> c)
      in c1\<lparr>pc_mirror_dirty := hs_insert (layer, b) (pc_mirror_dirty c1)\<rparr>)"

text \<open>\<open>hydrate_seeded_layer_from_pool\<close>; the slice of the table panics when the seed is longer than it.\<close>

definition hydrate_seeded :: "nat \<Rightarrow> nat \<Rightarrow> paged_cache \<Rightarrow> kv_block_pool \<Rightarrow> unit cache_result" where
  "hydrate_seeded layer stride c p =
     (if pc_seeded_pending c = 0 \<or> layer \<in> set (pc_hydrated c) then (Ok (), c, p)
      else if pc_seeded_pending c > length (pc_table c)
      then (Panic, c\<lparr>pc_hydrated := layer # pc_hydrated c\<rparr>, p)
      else (Ok (), foldl (hydrate_block p layer (pc_page_size c * stride))
              (c\<lparr>pc_hydrated := layer # pc_hydrated c\<rparr>) (take (pc_seeded_pending c) (pc_table c)), p))"

text \<open>The growth of a block's layer list here is uniform (\<open>b_elem\<close>), unlike \<open>grow_layers\<close>.\<close>

definition grow_uniform :: "nat \<Rightarrow> nat \<Rightarrow> f32 list list \<Rightarrow> f32 list list" where
  "grow_uniform b_elem layer xs =
     xs @ map (\<lambda>i. if i = 0 then [] else replicate b_elem 0) [length xs..<Suc layer]"

text \<open>The write-through of one token row into the pool; \<open>None\<close> is a slice panic.\<close>

definition store_row :: "nat \<Rightarrow> nat \<Rightarrow> nat \<Rightarrow> nat \<Rightarrow> nat \<Rightarrow> f32 list \<Rightarrow> f32 list \<Rightarrow> nat \<Rightarrow> kv_block \<Rightarrow> kv_block option" where
  "store_row layer page_size b_elem pos stride kf vf tok b =
     (let within = (pos mod page_size) * stride in
      if layer > 0 then
        (let b1 = b\<lparr>kb_layer_keys := grow_uniform b_elem layer (kb_layer_keys b),
                    kb_layer_values := grow_uniform b_elem layer (kb_layer_values b)\<rparr>;
             end = min (within + stride) b_elem in
         if within < b_elem then
           (case (copy_rows within tok (end - within) kf (kb_layer_keys b1 ! layer),
                  copy_rows within tok (end - within) vf (kb_layer_values b1 ! layer)) of
              (Some k, Some v) \<Rightarrow> Some (b1\<lparr>kb_layer_keys := (kb_layer_keys b1)[layer := k],
                                        kb_layer_values := (kb_layer_values b1)[layer := v]\<rparr>)
            | _ \<Rightarrow> None)
         else Some b1)
      else if within < length (kb_key_data b) then
        (let end = min (within + stride) (length (kb_key_data b)) in
         (case (copy_rows within tok (end - within) kf (kb_key_data b),
                copy_rows within tok (end - within) vf (kb_value_data b)) of
            (Some k, Some v) \<Rightarrow> Some (b\<lparr>kb_key_data := k, kb_value_data := v,
                kb_num_tokens := min (pos mod page_size + 1) BLOCK_SIZE, kb_received := True\<rparr>)
          | _ \<Rightarrow> None))
      else Some b)"

definition pack_layer :: "packers \<Rightarrow> nat \<Rightarrow> nat \<Rightarrow> kv_block_pool \<Rightarrow> kv_block_pool" where
  "pack_layer pk layer i p =
     (let b = blk p i;
          src = (if layer = 0 then kb_key_data b
                 else if layer < length (kb_layer_keys b) then kb_layer_keys b ! layer else []) in
      if src \<noteq> [] \<and> length src mod 128 = 0 then
        (case pk_white_crow pk src of
           Some (qw, sc, zr) \<Rightarrow>
             snd (try_write_layer_packed p i layer QWhiteCrow
                    (le_bytes 4 (word_of_nat (length qw) :: u32) @ le_bytes 4 (word_of_nat (length sc) :: u32)
                     @ le_bytes 4 (word_of_nat (length zr) :: u32) @ qw @ sc @ zr) (kb_num_tokens b))
         | None \<Rightarrow> p)
      else if src \<noteq> [] then
        (case pk_nvfp4 pk src of
           Some packed \<Rightarrow> snd (try_write_layer_packed p i layer QNvFp4 packed (kb_num_tokens b))
         | None \<Rightarrow> p)
      else p)"

text \<open>One iteration of the token loop after \<open>append_slot\<close>.\<close>

definition write_token :: "env \<Rightarrow> packers \<Rightarrow> nat \<Rightarrow> nat \<Rightarrow> nat \<Rightarrow> f32 list \<Rightarrow> f32 list \<Rightarrow> nat
    \<Rightarrow> paged_cache \<Rightarrow> kv_block_pool \<Rightarrow> unit cache_result" where
  "write_token e pk layer seq stride kf vf t c p =
     (let pos = pc_cursors c ! layer; idx = pos div pc_page_size c in
      if idx \<ge> length (pc_table c) then (Err (LayerDesync idx (length (pc_table c)) layer pos seq), c, p)
      else (let physical = pc_table c ! idx; offset = (physical * pc_page_size c + pos mod pc_page_size c) * stride;
                tok = t * stride in
            (case (copy_rows offset tok stride kf (pc_k_pages c ! layer),
                   copy_rows offset tok stride vf (pc_v_pages c ! layer)) of
               (Some k, Some v) \<Rightarrow>
                 (let c1 = c\<lparr>pc_k_pages := (pc_k_pages c)[layer := k], pc_v_pages := (pc_v_pages c)[layer := v],
                             pc_cursors := (pc_cursors c)[layer := pos + 1]\<rparr> in
                  if cap p \<le> physical then (Panic, c1, p)
                  else (case store_row layer (pc_page_size c) (kp_block_elem p) pos stride kf vf tok (blk p physical) of
                          None \<Rightarrow> (Panic, c1, p)
                        | Some b \<Rightarrow>
                            (let p1 = upd_block physical (\<lambda>_. b) p;
                                 p2 = (if env_packed e then pack_layer pk layer physical p1 else p1)
                             in (Ok (), c1\<lparr>pc_mirror_dirty := hs_insert (layer, physical) (pc_mirror_dirty c1)\<rparr>, p2))))
             | _ \<Rightarrow> (Panic, c, p))))"

fun append_tokens :: "env \<Rightarrow> packers \<Rightarrow> nat \<Rightarrow> nat \<Rightarrow> nat \<Rightarrow> f32 list \<Rightarrow> f32 list \<Rightarrow> nat list
    \<Rightarrow> paged_cache \<Rightarrow> kv_block_pool \<Rightarrow> unit cache_result" where
  "append_tokens e pk layer seq stride kf vf [] c p = (Ok (), c, p)"
| "append_tokens e pk layer seq stride kf vf (t # ts) c p =
     and_then (if layer = 0 then append_slot e c p else (Ok (), c, p)) (\<lambda>_ (c1, p1).
       and_then (write_token e pk layer seq stride kf vf t c1 p1) (\<lambda>_ (c2, p2).
         append_tokens e pk layer seq stride kf vf ts c2 p2))"

text \<open>\<open>plan_hybrid_attention_step\<close> of \<open>crates/grim-scheduler/src/lib.rs\<close>.\<close>

definition plan_hybrid_attention_step :: "nat list \<Rightarrow> spill_manager \<Rightarrow> nat list \<times> nat list" where
  "plan_hybrid_attention_step ids s =
     (filter (\<lambda>i. get_tier s i \<notin> {Some HostRam, Some NvMe}) ids,
      filter (\<lambda>i. get_tier s i \<in> {Some HostRam, Some NvMe}) ids)"

text \<open>
  Copying a promoted block into the pages of one layer. The two halves of a promoted block have the
  length of the two buffers of the block, which are allocated equal.
\<close>

definition restage_layer :: "kv_block_pool \<Rightarrow> nat \<Rightarrow> nat \<Rightarrow> f32 list \<Rightarrow> f32 list \<Rightarrow> paged_cache \<Rightarrow> nat \<Rightarrow> paged_cache" where
  "restage_layer p elems b kd vd c l =
     (let off = b * elems; kl = pc_k_pages c ! l; vl = pc_v_pages c ! l in
      if off + elems \<le> length kl \<and> off + elems \<le> length vl then
        (case (read_layer_keys p b l, read_layer_values p b l) of
           (Some lk, Some lv) \<Rightarrow>
             c\<lparr>pc_k_pages := (pc_k_pages c)[l := splice_at off (take elems lk) kl],
               pc_v_pages := (pc_v_pages c)[l := splice_at off (take elems lv) vl]\<rparr>
         | _ \<Rightarrow>
             if l = 0 \<and> length kd \<ge> elems
             then c\<lparr>pc_k_pages := (pc_k_pages c)[0 := splice_at off (take elems kd) kl],
                    pc_v_pages := (pc_v_pages c)[0 := splice_at off (take elems vd) vl]\<rparr>
             else c)
      else c)"

fun repromote_loop :: "env \<Rightarrow> nat \<Rightarrow> nat list \<Rightarrow> paged_cache \<Rightarrow> kv_block_pool \<Rightarrow> unit cache_result" where
  "repromote_loop e elems [] c p = (Ok (), c, p)"
| "repromote_loop e elems (b # bs) c p =
     (case promote_to_gpu e p b of
        (Ok None, p1) \<Rightarrow> repromote_loop e elems bs c p1
      | (Ok (Some (kd, vd)), p1) \<Rightarrow>
          (let c1 = foldl (restage_layer p1 elems b kd vd) c [0..<length (pc_k_pages c)];
               c2 = foldl (\<lambda>c l. c\<lparr>pc_mirror_dirty := hs_insert (l, b) (pc_mirror_dirty c)\<rparr>) c1
                      [0..<length (pc_k_pages c1)]
           in repromote_loop e elems bs c2 p1)
      | (Err err, p1) \<Rightarrow> (Err err, c, p1)
      | (Panic, p1) \<Rightarrow> (Panic, c, p1)
      | (Hang, p1) \<Rightarrow> (Hang, c, p1))"

definition check_and_repromote_blocks :: "env \<Rightarrow> nat \<Rightarrow> paged_cache \<Rightarrow> kv_block_pool \<Rightarrow> unit cache_result" where
  "check_and_repromote_blocks e stride c p =
     (case kp_spill p of
        None \<Rightarrow> (Ok (), c, p)
      | Some s \<Rightarrow> repromote_loop e (pc_page_size c * stride) (snd (plan_hybrid_attention_step (pc_table c) s)) c p)"

definition append_kv_layer :: "env \<Rightarrow> packers \<Rightarrow> nat \<Rightarrow> nat list \<Rightarrow> f32 list \<Rightarrow> f32 list
    \<Rightarrow> paged_cache \<Rightarrow> kv_block_pool \<Rightarrow> unit cache_result" where
  "append_kv_layer e pk layer dims kf vf c p =
     (case seq_stride dims kf of
        (seq, stride) \<Rightarrow>
          if stride = 0 \<or> seq = 0 then (Ok (), c, p)
          else (let c1 = grow_pages layer seq stride c;
                    need = (if layer = 0 then div_ceil (pc_committed c1 + seq) BLOCK_SIZE - length (pc_table c1) else 0)
                in and_then (reserve e need c1 p) (\<lambda>_ (c2, p2).
                     and_then (hydrate_seeded layer stride c2 p2) (\<lambda>_ (c3, p3).
                       and_then (append_tokens e pk layer seq stride kf vf [0..<seq] c3 p3) (\<lambda>_ (c4, p4).
                         check_and_repromote_blocks e stride c4 p4)))))"

text \<open>\<open>store_kv\<close> and the two concatenations.\<close>

definition store_kv :: "nat \<Rightarrow> f32 list \<Rightarrow> f32 list \<Rightarrow> paged_cache \<Rightarrow> kv_block_pool \<Rightarrow> unit pool_result" where
  "store_kv rows k v c p =
     (if pc_table c = [] then (Ok (), p)
      else and_then (write_keys p (last (pc_table c)) k rows) (\<lambda>_ p1. write_values p1 (last (pc_table c)) v))"

definition current_k :: "paged_cache \<Rightarrow> kv_block_pool \<Rightarrow> (unit, f32 list) outcome" where
  "current_k c p =
     (if \<forall>b \<in> set (pc_table c). b < cap p then Ok (concat (map (\<lambda>b. kb_key_data (blk p b)) (pc_table c))) else Panic)"

definition current_v :: "paged_cache \<Rightarrow> kv_block_pool \<Rightarrow> (unit, f32 list) outcome" where
  "current_v c p =
     (if \<forall>b \<in> set (pc_table c). b < cap p then Ok (concat (map (\<lambda>b. kb_value_data (blk p b)) (pc_table c))) else Panic)"

end
