(* ===== verification/PagedCacheLaws.thy ===== *)
theory PagedCacheLaws
  imports PagedCache
begin

text \<open>
  What the paged cache promises: its table covers exactly the tokens it counts, it holds one
  reference of the pool per table entry, rejected drafts give their blocks back, and tokens read
  back in the order they were appended.
\<close>

section \<open>Ownership\<close>

text \<open>
  \<open>own\<close>: the kernel's copy of the table agrees with the table, and every entry is backed by a
  reference. \<open>covers\<close>: the table has the blocks the tokens need, and no more.
\<close>

definition own :: "paged_cache \<Rightarrow> kv_block_pool \<Rightarrow> bool" where
  "own c p \<longleftrightarrow> pool_inv p \<and> pc_block_table_u32 c = map word_of_nat (pc_table c)
     \<and> (\<forall>b. count_list (pc_table c) b \<le> kp_block_ref_count p b)"

definition covers :: "paged_cache \<Rightarrow> bool" where
  "covers c \<longleftrightarrow> length (pc_table c) = div_ceil (pc_len c) BLOCK_SIZE"

lemma own_new: "pool_inv p \<Longrightarrow> own (pc_new p h d ps) p"
  by (simp add: own_def pc_new_def)

lemma covers_new: "covers (pc_new p h d ps)"
  by (simp add: covers_def pc_new_def pc_len_def)

lemma ref_count_pos: "pool_inv p \<Longrightarrow> 0 < kp_block_ref_count p b \<Longrightarrow> b < cap p \<and> b \<notin> set (kp_free_list p)"
  by (auto simp: kp_block_ref_count_def pool_inv_def alloc_ok_def split: option.splits)

lemma own_range:
  assumes "own c p" and "b \<in> set (pc_table c)"
  shows "b < cap p" and "b \<notin> set (kp_free_list p)"
proof -
  have "0 < count_list (pc_table c) b" using assms(2) by (simp add: count_list_0_iff zero_less_iff_neq_zero)
  with assms(1) have "0 < kp_block_ref_count p b" unfolding own_def by (metis gr_zeroI le_zero_eq less_numeral_extra(3))
  with ref_count_pos [of p b] assms(1) show "b < cap p" "b \<notin> set (kp_free_list p)" by (auto simp: own_def)
qed

lemma count_list_append [simp]: "count_list (xs @ ys) b = count_list xs b + count_list ys b"
  by (induction xs) auto

section \<open>Reserving blocks\<close>

lemma kp_alloc_pop:
  "kp_free_list p \<noteq> [] \<Longrightarrow> kp_alloc e p = (Ok (hd (kp_free_list p)),
     p\<lparr>kp_free_list := tl (kp_free_list p), kp_ref_counts := (kp_ref_counts p)(hd (kp_free_list p) \<mapsto> 1)\<rparr>)"
  by (cases "kp_free_list p") (simp_all add: kp_alloc_def pop_free_def)

lemma alloc_push_spec:
  assumes o: "own c p" and ne: "kp_free_list p \<noteq> []"
  shows "\<exists>p'. alloc_push e c p = (Ok (), push_block (hd (kp_free_list p)) c, p')
    \<and> own (push_block (hd (kp_free_list p)) c) p' \<and> kp_free_list p' = tl (kp_free_list p)
    \<and> kp_tree p' = kp_tree p \<and> kp_blocks p' = kp_blocks p \<and> kp_spill p' = kp_spill p
    \<and> (\<forall>j. kp_block_ref_count p' j = kp_block_ref_count p j + (if j = hd (kp_free_list p) then 1 else 0))
    \<and> hd (kp_free_list p) \<notin> set (pc_table c)"
proof -
  let ?b = "hd (kp_free_list p)"
  have inv: "pool_inv p" using o by (simp add: own_def)
  obtain p' where p': "kp_alloc e p = (Ok ?b, p')" "pool_inv p'" "kp_ref_counts p ?b = None"
    "kp_ref_counts p' = (kp_ref_counts p)(?b \<mapsto> 1)" "kp_free_list p' = tl (kp_free_list p)"
    "kp_tree p' = kp_tree p" "kp_blocks p' = kp_blocks p"
    using kp_alloc_free [OF inv ne] by blast
  have sp: "kp_spill p' = kp_spill p" using p'(1) kp_alloc_pop [OF ne, of e] by auto
  have rc: "kp_block_ref_count p' j = kp_block_ref_count p j + (if j = ?b then 1 else 0)" for j
    using p'(3,4) by (simp add: kp_block_ref_count_def)
  have nb: "?b \<notin> set (pc_table c)" using own_range(2) [OF o, of ?b] ne by auto
  have "own (push_block ?b c) p'"
    using o p'(2) rc by (auto simp: own_def push_block_def)
  then show ?thesis using p' nb sp rc by (simp add: alloc_push_def)
qed

definition push_blocks :: "nat list \<Rightarrow> paged_cache \<Rightarrow> paged_cache" where
  "push_blocks bs c = foldl (\<lambda>c b. push_block b c) c bs"

lemma push_blocks_simps [simp]:
  "pc_table (push_blocks bs c) = pc_table c @ bs"
  "pc_committed (push_blocks bs c) = pc_committed c" "pc_tentative (push_blocks bs c) = pc_tentative c"
  "pc_page_size (push_blocks bs c) = pc_page_size c" "pc_capacity (push_blocks bs c) = pc_capacity c"
  "pc_cursors (push_blocks bs c) = pc_cursors c" "pc_k_pages (push_blocks bs c) = pc_k_pages c"
  "pc_v_pages (push_blocks bs c) = pc_v_pages c"
  "pc_seeded_pending (push_blocks bs c) = pc_seeded_pending c"
  "pc_hydrated (push_blocks bs c) = pc_hydrated c"
  "pc_block_table_u32 (push_blocks bs c) = pc_block_table_u32 c @ map word_of_nat bs"
  by (induction bs arbitrary: c) (auto simp: push_blocks_def push_block_def)

text \<open>With enough free blocks, reservation succeeds and takes them from the front of the free list.\<close>

lemma reserve_spec:
  "own c p \<Longrightarrow> k \<le> length (kp_free_list p) \<Longrightarrow>
    \<exists>p'. reserve e k c p = (Ok (), push_blocks (take k (kp_free_list p)) c, p')
      \<and> own (push_blocks (take k (kp_free_list p)) c) p' \<and> kp_free_list p' = drop k (kp_free_list p)
      \<and> kp_tree p' = kp_tree p \<and> kp_blocks p' = kp_blocks p \<and> kp_spill p' = kp_spill p
      \<and> (\<forall>j. kp_block_ref_count p' j = kp_block_ref_count p j + count_list (take k (kp_free_list p)) j)
      \<and> (distinct (pc_table c) \<longrightarrow> distinct (pc_table c @ take k (kp_free_list p)))"
proof (induction k arbitrary: c p)
  case 0
  then show ?case by (simp add: push_blocks_def)
next
  case (Suc k)
  obtain b rest where f: "kp_free_list p = b # rest" using Suc.prems(2) by (cases "kp_free_list p") auto
  obtain p1 where p1: "alloc_push e c p = (Ok (), push_block b c, p1)" "own (push_block b c) p1"
    "kp_free_list p1 = rest" "kp_tree p1 = kp_tree p" "kp_blocks p1 = kp_blocks p" "b \<notin> set (pc_table c)"
    "kp_spill p1 = kp_spill p" "\<forall>j. kp_block_ref_count p1 j = kp_block_ref_count p j + (if j = b then 1 else 0)"
    using alloc_push_spec [OF Suc.prems(1), of e] f by auto
  obtain p' where p': "reserve e k (push_block b c) p1 = (Ok (), push_blocks (take k rest) (push_block b c), p')"
    "own (push_blocks (take k rest) (push_block b c)) p'" "kp_free_list p' = drop k rest"
    "kp_tree p' = kp_tree p1" "kp_blocks p' = kp_blocks p1"
    "distinct (pc_table (push_block b c)) \<longrightarrow> distinct (pc_table (push_block b c) @ take k rest)"
    "kp_spill p' = kp_spill p1" "\<forall>j. kp_block_ref_count p' j = kp_block_ref_count p1 j + count_list (take k rest) j"
    using Suc.IH [OF p1(2)] Suc.prems(2) f p1(3) by auto
  have "push_blocks (take k rest) (push_block b c) = push_blocks (b # take k rest) c"
    by (simp add: push_blocks_def)
  moreover have "distinct (pc_table c) \<longrightarrow> distinct (pc_table c @ b # take k rest)"
    using p1(6) p'(6) by (simp add: push_block_def)
  moreover have "reserve e (Suc k) c p = (Ok (), push_blocks (take k rest) (push_block b c), p')"
    using p1(1) p'(1) by simp
  ultimately show ?case using p1(4,5,7,8) p'(2,3,4,5,7,8) f by (intro exI [of _ p']) simp
qed

lemma div_ceil_BLOCK_mono: "m \<le> n \<Longrightarrow> div_ceil m BLOCK_SIZE \<le> div_ceil n BLOCK_SIZE"
  by (rule div_ceil_mono) (simp_all add: BLOCK_SIZE_def)

lemma div_ceil_Suc: "div_ceil (Suc n) BLOCK_SIZE \<le> Suc (div_ceil n BLOCK_SIZE)"
proof -
  have "div_ceil (n + BLOCK_SIZE) BLOCK_SIZE = Suc (div_ceil n BLOCK_SIZE)"
    by (simp add: div_ceil_def BLOCK_SIZE_def div_add_self2)
  with div_ceil_BLOCK_mono [of "Suc n" "n + BLOCK_SIZE"] show ?thesis by (simp add: BLOCK_SIZE_def)
qed

text \<open>One more token.\<close>

lemma append_slot_spec:
  assumes o: "own c p" and cov: "covers c" and nd: "pc_tentative c = 0"
    and room: "div_ceil (pc_len c + 1) BLOCK_SIZE - length (pc_table c) \<le> length (kp_free_list p)"
  shows "\<exists>c' p'. append_slot e c p = (Ok (), c', p') \<and> own c' p' \<and> covers c'
    \<and> pc_len c' = pc_len c + 1 \<and> pc_tentative c' = 0
    \<and> pc_table c' = pc_table c @ take (div_ceil (pc_len c + 1) BLOCK_SIZE - length (pc_table c)) (kp_free_list p)"
proof -
  let ?c = "c\<lparr>pc_committed := pc_committed c + 1\<rparr>"
  have len: "pc_len c = pc_committed c" using nd by (simp add: pc_len_def)
  have oc: "own ?c p" using o by (simp add: own_def)
  show ?thesis
  proof (cases "length (pc_table c) < div_ceil (pc_committed c + 1) BLOCK_SIZE")
    case False
    moreover have "length (pc_table c) \<le> div_ceil (pc_committed c + 1) BLOCK_SIZE"
      using cov div_ceil_BLOCK_mono [of "pc_committed c" "pc_committed c + 1"] by (simp add: covers_def len)
    ultimately show ?thesis
      using oc nd by (intro exI [of _ ?c] exI [of _ p]) (simp add: append_slot_def covers_def pc_len_def)
  next
    case True
    then have one: "div_ceil (pc_committed c + 1) BLOCK_SIZE = Suc (length (pc_table c))"
      using cov div_ceil_Suc [of "pc_committed c"] by (simp add: covers_def len)
    then have ne: "kp_free_list p \<noteq> []" using room len by auto
    let ?b = "hd (kp_free_list p)"
    obtain p' where p': "alloc_push e ?c p = (Ok (), push_block ?b ?c, p')" "own (push_block ?b ?c) p'"
      using alloc_push_spec [OF oc ne, of e] by blast
    have t1: "take (Suc 0) (kp_free_list p) = [?b]" using ne by (cases "kp_free_list p") auto
    show ?thesis
      using True p' one nd t1 len
      by (intro exI [of _ "push_block ?b ?c"] exI [of _ p'])
        (simp add: append_slot_def covers_def pc_len_def push_block_def)
  qed
qed

lemma tentative_append_spec:
  assumes o: "own c p" and cov: "covers c"
    and room: "div_ceil (pc_len c + n) BLOCK_SIZE - length (pc_table c) \<le> length (kp_free_list p)"
  shows "\<exists>c' p'. tentative_append e n c p = (Ok (), c', p') \<and> own c' p' \<and> covers c'
    \<and> (\<forall>j. kp_block_ref_count p' j = kp_block_ref_count p j
         + count_list (take (div_ceil (pc_len c + n) BLOCK_SIZE - length (pc_table c)) (kp_free_list p)) j)
    \<and> pc_committed c' = pc_committed c \<and> pc_tentative c' = pc_tentative c + n
    \<and> pc_table c' = pc_table c @ take (div_ceil (pc_len c + n) BLOCK_SIZE - length (pc_table c)) (kp_free_list p)"
proof (cases "n = 0")
  case True
  then show ?thesis using o cov by (simp add: tentative_append_def covers_def)
next
  case False
  let ?k = "div_ceil (pc_len c + n) BLOCK_SIZE - length (pc_table c)"
  obtain p' where p': "reserve e ?k c p = (Ok (), push_blocks (take ?k (kp_free_list p)) c, p')"
    "own (push_blocks (take ?k (kp_free_list p)) c) p'"
    "\<forall>j. kp_block_ref_count p' j = kp_block_ref_count p j + count_list (take ?k (kp_free_list p)) j"
    using reserve_spec [OF o room, of e] by blast
  let ?c = "(push_blocks (take ?k (kp_free_list p)) c)\<lparr>pc_tentative := pc_tentative c + n\<rparr>"
  have "tentative_append e n c p = (Ok (), ?c, p')"
    using False p'(1) by (simp add: tentative_append_def pc_len_def)
  moreover have "own ?c p'" using p'(2) by (simp add: own_def)
  moreover have "covers ?c"
  proof -
    have "length (pc_table c) \<le> div_ceil (pc_len c + n) BLOCK_SIZE"
      using cov div_ceil_BLOCK_mono [of "pc_len c" "pc_len c + n"] by (simp add: covers_def)
    then show ?thesis using room by (simp add: covers_def pc_len_def add.assoc)
  qed
  ultimately show ?thesis using p'(3) by simp
qed

section \<open>Releasing blocks\<close>

abbreviation free_of :: "env \<Rightarrow> kv_block_pool \<Rightarrow> nat \<Rightarrow> kv_block_pool" where
  "free_of e \<equiv> (\<lambda>p i. snd (kp_free e p i))"

lemma kp_free_Ok: "pool_inv p \<Longrightarrow> kp_free e p i = (Ok (), free_of e p i)"
  using kp_free_spec [of p e i] by auto

text \<open>The loop frees the tail of the table from its end.\<close>

lemma release_tail_eq:
  assumes "pool_inv p" and "k \<le> length (pc_table c)" and "length (pc_block_table_u32 c) = length (pc_table c)"
  shows "release_tail e k c p =
    (Ok (), c\<lparr>pc_table := take (length (pc_table c) - k) (pc_table c),
              pc_block_table_u32 := take (length (pc_table c) - k) (pc_block_table_u32 c)\<rparr>,
     foldl (free_of e) p (rev (drop (length (pc_table c) - k) (pc_table c))))"
  using assms
proof (induction k arbitrary: c p)
  case 0
  then show ?case by simp
next
  case (Suc k)
  then have ne: "pc_table c \<noteq> []" by auto
  let ?c = "c\<lparr>pc_table := butlast (pc_table c), pc_block_table_u32 := butlast (pc_block_table_u32 c)\<rparr>"
  let ?p = "free_of e p (last (pc_table c))"
  have inv: "pool_inv ?p" by (rule pool_store.release_inv [OF Suc.prems(1)])
  obtain q where q: "kp_free e p (last (pc_table c)) = (Ok (), q)" "?p = q"
    using kp_free_Ok [OF Suc.prems(1), of e "last (pc_table c)"] by (metis snd_conv)
  have run: "release_tail e (Suc k) c p = release_tail e k ?c ?p"
    unfolding q(2) using ne by (simp add: Let_def q(1))
  have split: "drop (length (pc_table c) - Suc k) (pc_table c)
      = drop (length (pc_table c) - Suc k) (butlast (pc_table c)) @ [last (pc_table c)]"
  proof -
    have "pc_table c = butlast (pc_table c) @ [last (pc_table c)]" using ne by simp
    then have "drop (length (pc_table c) - Suc k) (pc_table c)
      = drop (length (pc_table c) - Suc k) (butlast (pc_table c) @ [last (pc_table c)])" by simp
    also have "\<dots> = drop (length (pc_table c) - Suc k) (butlast (pc_table c)) @ [last (pc_table c)]"
      using ne by (simp only: drop_append) simp
    finally show ?thesis .
  qed
  have tk: "take n (butlast xs) = take n xs" if "n < length xs" for n and xs :: "'a list"
    using that by (simp add: take_butlast)
  have "release_tail e k ?c ?p =
    (Ok (), ?c\<lparr>pc_table := take (length (pc_table ?c) - k) (pc_table ?c),
              pc_block_table_u32 := take (length (pc_table ?c) - k) (pc_block_table_u32 ?c)\<rparr>,
     foldl (free_of e) ?p (rev (drop (length (pc_table ?c) - k) (pc_table ?c))))"
    by (rule Suc.IH [OF inv]) (use Suc.prems(2,3) in simp_all)
  also have "\<dots> = (Ok (), c\<lparr>pc_table := take (length (pc_table c) - Suc k) (pc_table c),
              pc_block_table_u32 := take (length (pc_table c) - Suc k) (pc_block_table_u32 c)\<rparr>,
     foldl (free_of e) p (rev (drop (length (pc_table c) - Suc k) (pc_table c))))"
    using ne Suc.prems(2,3) split by (simp add: take_butlast)
  finally show ?case unfolding run .
qed

lemma count_list_rev [simp]: "count_list (rev xs) b = count_list xs b"
  by (induction xs) auto

lemma count_list_take_drop: "count_list (take n xs) b + count_list (drop n xs) b = count_list xs b"
  by (metis append_take_drop_id count_list_append)

text \<open>
  What trimming releases: each block past the kept ones loses exactly the references the table held
  of it there, no other block moves, and ownership of the rest stays.
\<close>

lemma trim_table_spec:
  assumes o: "own c p"
  defines "keep \<equiv> div_ceil (pc_committed c) BLOCK_SIZE"
  shows "\<exists>c' p'. trim_table e c p = (Ok (), c', p') \<and> own c' p'
    \<and> pc_table c' = take keep (pc_table c)
    \<and> pc_committed c' = pc_committed c \<and> pc_tentative c' = pc_tentative c
    \<and> pc_cursors c' = pc_cursors c \<and> pc_k_pages c' = pc_k_pages c \<and> pc_v_pages c' = pc_v_pages c
    \<and> pc_page_size c' = pc_page_size c \<and> pc_capacity c' = pc_capacity c
    \<and> pc_seeded_pending c' = pc_seeded_pending c
    \<and> cap p' = cap p
    \<and> (\<forall>b. kp_block_ref_count p' b = kp_block_ref_count p b - count_list (drop keep (pc_table c)) b)"
proof -
  have inv: "pool_inv p" and bt: "pc_block_table_u32 c = map word_of_nat (pc_table c)"
    using o by (auto simp: own_def)
  have k: "(if pc_committed c = 0 then 0 else div_ceil (pc_committed c) BLOCK_SIZE) = keep"
    by (simp add: keep_def)
  let ?n = "length (pc_table c)"
  let ?p' = "foldl (free_of e) p (rev (drop (?n - (?n - keep)) (pc_table c)))"
  let ?c' = "c\<lparr>pc_table := take (?n - (?n - keep)) (pc_table c),
               pc_block_table_u32 := take (?n - (?n - keep)) (pc_block_table_u32 c)\<rparr>"
  have run: "trim_table e c p = (Ok (), ?c', ?p')"
    unfolding trim_table_def k by (rule release_tail_eq [OF inv]) (simp_all add: bt)
  have td: "take (?n - (?n - keep)) (pc_table c) = take keep (pc_table c)"
    "drop (?n - (?n - keep)) (pc_table c) = drop keep (pc_table c)"
    by (cases "keep \<le> ?n"; simp)+
  have rel: "pool_inv (foldl (free_of e) p bs) \<and> cap (foldl (free_of e) p bs) = cap p
      \<and> kp_block_ref_count (foldl (free_of e) p bs) b = kp_block_ref_count p b - count_list bs b" for bs b
    by (rule pool_store.release_all [OF inv])
  have rc: "kp_block_ref_count ?p' b = kp_block_ref_count p b - count_list (drop keep (pc_table c)) b" for b
    using rel [of "rev (drop keep (pc_table c))" b] by (simp only: td count_list_rev)
  have "own ?c' ?p'"
    unfolding own_def
  proof (intro conjI allI)
    show "pool_inv ?p'" using rel by (simp add: td)
    show "pc_block_table_u32 ?c' = map word_of_nat (pc_table ?c')" by (simp add: bt take_map)
    fix b
    have "count_list (pc_table c) b \<le> kp_block_ref_count p b" using o by (simp add: own_def)
    then show "count_list (pc_table ?c') b \<le> kp_block_ref_count ?p' b"
      using count_list_take_drop [of keep "pc_table c" b] rc [of b] unfolding td by simp
  qed
  then show ?thesis using run rc rel by (intro exI [of _ ?c'] exI [of _ ?p']) (simp add: td)
qed

lemma commit_spec:
  assumes o: "own c p" and cov: "covers c"
  shows "\<exists>c' p'. pc_commit e m c p = (Ok (), c', p') \<and> own c' p' \<and> covers c'
    \<and> pc_len c' = pc_committed c + min m (pc_tentative c) \<and> pc_tentative c' = 0
    \<and> pc_table c' = take (div_ceil (pc_len c') BLOCK_SIZE) (pc_table c)
    \<and> (\<forall>b. kp_block_ref_count p' b
          = kp_block_ref_count p b - count_list (drop (div_ceil (pc_len c') BLOCK_SIZE) (pc_table c)) b)"
proof -
  let ?c = "c\<lparr>pc_committed := pc_committed c + min m (pc_tentative c), pc_tentative := 0\<rparr>"
  have "own ?c p" using o by (simp add: own_def)
  from trim_table_spec [OF this, of e] obtain c' p' where
    t: "trim_table e ?c p = (Ok (), c', p')" "own c' p'"
      "pc_table c' = take (div_ceil (pc_committed c + min m (pc_tentative c)) BLOCK_SIZE) (pc_table c)"
      "pc_committed c' = pc_committed c + min m (pc_tentative c)" "pc_tentative c' = 0"
      "\<forall>b. kp_block_ref_count p' b = kp_block_ref_count p b
        - count_list (drop (div_ceil (pc_committed c + min m (pc_tentative c)) BLOCK_SIZE) (pc_table c)) b"
    by auto
  have "div_ceil (pc_committed c + min m (pc_tentative c)) BLOCK_SIZE \<le> length (pc_table c)"
    using cov div_ceil_BLOCK_mono [of "pc_committed c + min m (pc_tentative c)" "pc_len c"]
    by (simp add: covers_def pc_len_def)
  then have "covers c'" using t by (simp add: covers_def pc_len_def)
  then show ?thesis using t by (simp add: pc_commit_def pc_len_def)
qed

lemma rollback_spec:
  assumes o: "own c p" and cov: "covers c"
  shows "\<exists>c' p'. rollback_to e n c p = (Ok (), c', p') \<and> own c' p' \<and> covers c'
    \<and> pc_len c' = min (pc_committed c) n \<and> pc_tentative c' = 0
    \<and> pc_table c' = take (div_ceil (pc_len c') BLOCK_SIZE) (pc_table c)
    \<and> pc_cursors c' = pc_cursors c \<and> pc_k_pages c' = pc_k_pages c \<and> pc_v_pages c' = pc_v_pages c
    \<and> pc_page_size c' = pc_page_size c \<and> pc_capacity c' = pc_capacity c
    \<and> pc_seeded_pending c' = pc_seeded_pending c
    \<and> (\<forall>b. kp_block_ref_count p' b
          = kp_block_ref_count p b - count_list (drop (div_ceil (pc_len c') BLOCK_SIZE) (pc_table c)) b)"
proof -
  let ?c = "c\<lparr>pc_committed := min (pc_committed c) n, pc_tentative := 0\<rparr>"
  have "own ?c p" using o by (simp add: own_def)
  from trim_table_spec [OF this, of e] obtain c' p' where
    t: "trim_table e ?c p = (Ok (), c', p')" "own c' p'"
      "pc_table c' = take (div_ceil (min (pc_committed c) n) BLOCK_SIZE) (pc_table c)"
      "pc_committed c' = min (pc_committed c) n" "pc_tentative c' = 0"
      "pc_cursors c' = pc_cursors c" "pc_k_pages c' = pc_k_pages c" "pc_v_pages c' = pc_v_pages c"
      "pc_page_size c' = pc_page_size c" "pc_capacity c' = pc_capacity c"
      "pc_seeded_pending c' = pc_seeded_pending c"
      "\<forall>b. kp_block_ref_count p' b = kp_block_ref_count p b
        - count_list (drop (div_ceil (min (pc_committed c) n) BLOCK_SIZE) (pc_table c)) b"
    by auto
  have "div_ceil (min (pc_committed c) n) BLOCK_SIZE \<le> length (pc_table c)"
    using cov div_ceil_BLOCK_mono [of "min (pc_committed c) n" "pc_len c"]
    by (simp add: covers_def pc_len_def)
  then have "covers c'" using t by (simp add: covers_def pc_len_def)
  then show ?thesis using t by (simp add: rollback_to_def pc_len_def)
qed

text \<open>
  Speculation that is rejected: reserving \<open>n\<close> draft tokens and committing none of them leaves the
  table, the token count and every reference of the pool as they were.
\<close>

lemma rejected_drafts:
  assumes o: "own c p" and cov: "covers c" and nt: "pc_tentative c = 0"
    and room: "div_ceil (pc_committed c + n) BLOCK_SIZE - length (pc_table c) \<le> length (kp_free_list p)"
    and run: "tentative_append e n c p = (r, c1, p1)"
  shows "r = Ok () \<and> (\<exists>c2 p2. pc_commit e 0 c1 p1 = (Ok (), c2, p2) \<and> own c2 p2
    \<and> pc_table c2 = pc_table c \<and> pc_len c2 = pc_len c
    \<and> (\<forall>b. kp_block_ref_count p2 b = kp_block_ref_count p b))"
proof -
  have len: "pc_len c = pc_committed c" using nt by (simp add: pc_len_def)
  let ?k = "div_ceil (pc_len c + n) BLOCK_SIZE - length (pc_table c)"
  let ?new = "take ?k (kp_free_list p)"
  have d: "r = Ok ()" "own c1 p1" "covers c1" "pc_committed c1 = pc_committed c" "pc_table c1 = pc_table c @ ?new"
    "\<forall>j. kp_block_ref_count p1 j = kp_block_ref_count p j + count_list ?new j"
    using tentative_append_spec [OF o cov, of n e] room run len by auto
  obtain c2 p2 where k: "pc_commit e 0 c1 p1 = (Ok (), c2, p2)" "own c2 p2" "covers c2"
    "pc_len c2 = pc_committed c1 + min 0 (pc_tentative c1)"
    "pc_table c2 = take (div_ceil (pc_len c2) BLOCK_SIZE) (pc_table c1)"
    "\<forall>b. kp_block_ref_count p2 b
          = kp_block_ref_count p1 b - count_list (drop (div_ceil (pc_len c2) BLOCK_SIZE) (pc_table c1)) b"
    using commit_spec [OF d(2,3), of e 0] by blast
  have l2: "pc_len c2 = pc_len c" using k(4) d(4) len by simp
  then have cut: "div_ceil (pc_len c2) BLOCK_SIZE = length (pc_table c)" using cov by (simp add: covers_def)
  have "pc_table c2 = pc_table c" using k(5) d(5) unfolding cut by simp
  moreover have "kp_block_ref_count p2 b = kp_block_ref_count p b" for b
    using k(6) d(5,6) unfolding cut by simp
  ultimately show ?thesis using d(1) k(1,2) l2 by blast
qed

end
