(* ===== verification/PagedCacheRows.thy ===== *)
theory PagedCacheRows
  imports PagedCacheLaws
begin

text \<open>
  Tokens in the pages of a layer: a token written at a position is the row read back at that
  position, no other row moves, and gathering returns the rows in token order. The pages are those
  of a cache whose page size is the block size, with an unpacked pool.
\<close>

section \<open>Slices\<close>

lemma take_drop_splice_same:
  "off + length src \<le> length dst \<Longrightarrow> take (length src) (drop off (splice_at off src dst)) = src"
  by (simp add: splice_at_def)

lemma take_drop_splice_other:
  assumes fit: "off + length src \<le> length dst" and apart: "a + n \<le> off \<or> off + length src \<le> a"
  shows "take n (drop a (splice_at off src dst)) = take n (drop a dst)"
proof (rule nth_equalityI)
  show "length (take n (drop a (splice_at off src dst))) = length (take n (drop a dst))" using fit by simp
  fix i assume "i < length (take n (drop a (splice_at off src dst)))"
  then have i: "i < n" "a + i < length dst" using fit by auto
  then show "take n (drop a (splice_at off src dst)) ! i = take n (drop a dst) ! i"
    using fit apart nth_splice_at [OF fit, of "a + i"] by auto
qed

lemma take_drop_rows:
  "m * r + a \<le> length xs \<Longrightarrow> take (m * r) (drop a xs) = concat (map (\<lambda>j. take r (drop (a + j * r) xs)) [0..<m])"
proof (induction m)
  case 0
  then show ?case by simp
next
  case (Suc m)
  have e: "Suc m * r = m * r + r" by simp
  have "take (Suc m * r) (drop a xs) = take (m * r) (drop a xs) @ take r (drop (a + m * r) xs)"
    unfolding e take_add drop_drop by (simp add: add.commute)
  then show ?case using Suc by simp
qed

section \<open>Rows\<close>

definition slot_of :: "paged_cache \<Rightarrow> nat \<Rightarrow> nat" where
  "slot_of c pos = pc_table c ! (pos div BLOCK_SIZE) * BLOCK_SIZE + pos mod BLOCK_SIZE"

definition token_row :: "paged_cache \<Rightarrow> nat \<Rightarrow> f32 list \<Rightarrow> nat \<Rightarrow> f32 list" where
  "token_row c stride buf pos = take stride (drop (slot_of c pos * stride) buf)"

definition layer_rows_ok :: "nat \<Rightarrow> kv_block_pool \<Rightarrow> bool" where
  "layer_rows_ok layer p \<longleftrightarrow> (\<forall>b \<in> set (kp_blocks p).
     length (kb_key_data b) = kp_block_elem p \<and> length (kb_value_data b) = kp_block_elem p
     \<and> (0 < layer \<longrightarrow> (layer < length (kb_layer_keys b) \<longrightarrow> length (kb_layer_keys b ! layer) = kp_block_elem p)
        \<and> (layer < length (kb_layer_values b) \<longrightarrow> length (kb_layer_values b ! layer) = kp_block_elem p)))"

definition paged :: "paged_cache \<Rightarrow> kv_block_pool \<Rightarrow> nat \<Rightarrow> nat \<Rightarrow> bool" where
  "paged c p layer stride \<longleftrightarrow>
     layer < length (pc_k_pages c) \<and> layer < length (pc_v_pages c) \<and> layer < length (pc_cursors c)
     \<and> 0 < stride \<and> pc_page_size c = BLOCK_SIZE \<and> pc_capacity c = cap p
     \<and> length (pc_k_pages c ! layer) = cap p * BLOCK_SIZE * stride
     \<and> length (pc_v_pages c ! layer) = cap p * BLOCK_SIZE * stride
     \<and> distinct (pc_table c) \<and> set (pc_table c) \<subseteq> {..<cap p} \<and> layer_rows_ok layer p"

lemma BLOCK_pos [simp]: "0 < BLOCK_SIZE" "BLOCK_SIZE \<noteq> 0"
  by (simp_all add: BLOCK_SIZE_def)

lemma page_index: "pos < length (pc_table c) * BLOCK_SIZE \<Longrightarrow> pos div BLOCK_SIZE < length (pc_table c)"
  by (simp add: less_mult_imp_div_less)

lemma slot_bound:
  assumes "paged c p layer stride" and "pos < length (pc_table c) * BLOCK_SIZE"
  shows "slot_of c pos < cap p * BLOCK_SIZE" and "slot_of c pos * stride + stride \<le> cap p * BLOCK_SIZE * stride"
proof -
  have "pc_table c ! (pos div BLOCK_SIZE) < cap p"
    using assms page_index [OF assms(2)] nth_mem unfolding paged_def by blast
  then have "Suc (pc_table c ! (pos div BLOCK_SIZE)) * BLOCK_SIZE \<le> cap p * BLOCK_SIZE" by (intro mult_le_mono1) simp
  moreover have "pos mod BLOCK_SIZE < BLOCK_SIZE" by simp
  ultimately show s: "slot_of c pos < cap p * BLOCK_SIZE" unfolding slot_of_def mult_Suc by linarith
  have "Suc (slot_of c pos) * stride \<le> cap p * BLOCK_SIZE * stride" by (rule mult_le_mono1) (use s in simp)
  then show "slot_of c pos * stride + stride \<le> cap p * BLOCK_SIZE * stride" by simp
qed

text \<open>Two positions of the table never share a slot.\<close>

lemma slot_inj:
  assumes "paged c p layer stride" and "a < length (pc_table c) * BLOCK_SIZE" "b < length (pc_table c) * BLOCK_SIZE"
    and "slot_of c a = slot_of c b"
  shows "a = b"
proof -
  have m: "a mod BLOCK_SIZE = b mod BLOCK_SIZE"
    using arg_cong [OF assms(4), of "\<lambda>x. x mod BLOCK_SIZE"] by (simp add: slot_of_def)
  with assms(4) have "pc_table c ! (a div BLOCK_SIZE) = pc_table c ! (b div BLOCK_SIZE)"
    by (simp add: slot_of_def BLOCK_SIZE_def)
  then have "a div BLOCK_SIZE = b div BLOCK_SIZE"
    using assms(1) page_index [OF assms(2)] page_index [OF assms(3)] by (simp add: paged_def nth_eq_iff_index_eq)
  with m show ?thesis by (metis div_mult_mod_eq)
qed

lemma row_splice:
  assumes pg: "paged c p layer stride" and "pos < length (pc_table c) * BLOCK_SIZE"
    and "n < length (pc_table c) * BLOCK_SIZE" and "length src = stride"
    and "length buf = cap p * BLOCK_SIZE * stride"
  shows "token_row c stride (splice_at (slot_of c n * stride) src buf) pos
    = (if pos = n then src else token_row c stride buf pos)"
proof (cases "pos = n")
  case True
  then show ?thesis
    using take_drop_splice_same [of "slot_of c n * stride" src buf] slot_bound(2) [OF pg assms(3)] assms(4,5)
    by (simp add: token_row_def)
next
  case False
  then have "slot_of c pos \<noteq> slot_of c n" using slot_inj [OF pg assms(2,3)] by blast
  then have "Suc (slot_of c pos) \<le> slot_of c n \<or> Suc (slot_of c n) \<le> slot_of c pos" by linarith
  then have "Suc (slot_of c pos) * stride \<le> slot_of c n * stride \<or> Suc (slot_of c n) * stride \<le> slot_of c pos * stride"
    using mult_le_mono1 by blast
  then have "slot_of c pos * stride + stride \<le> slot_of c n * stride
      \<or> slot_of c n * stride + length src \<le> slot_of c pos * stride"
    using assms(4) by (simp add: add.commute)
  then show ?thesis
    using take_drop_splice_other [of "slot_of c n * stride" src buf "slot_of c pos * stride" stride]
      slot_bound(2) [OF pg assms(3)] assms(4,5) False by (simp add: token_row_def)
qed

section \<open>Writing one token\<close>

lemma copy_rows_Some:
  "off + n \<le> length dst \<Longrightarrow> from + n \<le> length src
    \<Longrightarrow> copy_rows off from n src dst = Some (splice_at off (take n (drop from src)) dst)"
  by (simp add: copy_rows_def)

lemma length_copied: "from + n \<le> length src \<Longrightarrow> length (take n (drop from src)) = n"
  by simp

text \<open>The write-through into a well-shaped block cannot panic and keeps the shape.\<close>

definition block_ok :: "nat \<Rightarrow> nat \<Rightarrow> kv_block \<Rightarrow> bool" where
  "block_ok layer n b \<longleftrightarrow> length (kb_key_data b) = n \<and> length (kb_value_data b) = n
     \<and> (0 < layer \<longrightarrow> (layer < length (kb_layer_keys b) \<longrightarrow> length (kb_layer_keys b ! layer) = n)
        \<and> (layer < length (kb_layer_values b) \<longrightarrow> length (kb_layer_values b ! layer) = n))"

lemma layer_rows_ok_alt: "layer_rows_ok layer p \<longleftrightarrow> (\<forall>b \<in> set (kp_blocks p). block_ok layer (kp_block_elem p) b)"
  by (simp add: layer_rows_ok_def block_ok_def)

lemma nth_grow_uniform:
  assumes "0 < layer" and "layer < length xs \<Longrightarrow> length (xs ! layer) = n"
  shows "layer < length (grow_uniform n layer xs)" and "length (grow_uniform n layer xs ! layer) = n"
  using assms by (auto simp: grow_uniform_def nth_append)

lemma store_row_ok:
  assumes b: "block_ok layer n b" and kf: "tok + stride \<le> length kf" and vf: "tok + stride \<le> length vf"
  shows "\<exists>b'. store_row layer ps n pos stride kf vf tok b = Some b' \<and> block_ok layer n b'"
proof -
  let ?w = "(pos mod ps) * stride"
  let ?e = "min (?w + stride) n"
  have len: "tok + (?e - ?w) \<le> length kf" "tok + (?e - ?w) \<le> length vf" using kf vf by auto
  show ?thesis
  proof (cases "0 < layer")
    case True
    let ?gk = "grow_uniform n layer (kb_layer_keys b)" and ?gv = "grow_uniform n layer (kb_layer_values b)"
    have g: "layer < length ?gk" "length (?gk ! layer) = n" "layer < length ?gv" "length (?gv ! layer) = n"
      using nth_grow_uniform [OF True] b True by (auto simp: block_ok_def)
    show ?thesis
    proof (cases "?w < n")
      case w: True
      then have fit: "?w + (?e - ?w) \<le> n" by auto
      show ?thesis
        using True w g b len fit
        by (simp add: store_row_def Let_def copy_rows_def block_ok_def)
    next
      case False
      then show ?thesis using True g b by (simp add: store_row_def Let_def block_ok_def)
    qed
  next
    case False
    show ?thesis
    proof (cases "?w < n")
      case w: True
      then have fit: "?w + (?e - ?w) \<le> n" by auto
      show ?thesis
        using False w b len fit by (simp add: store_row_def Let_def copy_rows_def block_ok_def)
    next
      case w: False
      then show ?thesis using False b by (simp add: store_row_def Let_def block_ok_def)
    qed
  qed
qed

definition rows_from :: "nat \<Rightarrow> f32 list \<Rightarrow> nat \<Rightarrow> f32 list" where
  "rows_from stride flat t = take stride (drop (t * stride) flat)"

lemma paged_upd_block:
  assumes pg: "paged c p layer stride" and i: "i < cap p" and b: "block_ok layer (kp_block_elem p) b"
  shows "paged c (upd_block i (\<lambda>_. b) p) layer stride"
proof -
  have "kp_block_elem (upd_block i (\<lambda>_. b) p) = kp_block_elem p"
    by (simp add: upd_block_def kp_block_elem_def kp_elem_def)
  moreover have "set (kp_blocks (upd_block i (\<lambda>_. b) p)) \<subseteq> insert b (set (kp_blocks p))"
    by (simp add: upd_block_def set_update_subset_insert)
  ultimately have "layer_rows_ok layer (upd_block i (\<lambda>_. b) p)"
    using pg b unfolding paged_def layer_rows_ok_alt by auto
  then show ?thesis using pg by (simp add: paged_def)
qed

text \<open>A token lands in its row, and the other rows of the layer stay.\<close>

definition same_table :: "paged_cache \<Rightarrow> paged_cache \<Rightarrow> bool" where
  "same_table c c' \<longleftrightarrow> pc_table c' = pc_table c \<and> pc_page_size c' = pc_page_size c \<and> pc_capacity c' = pc_capacity c
     \<and> pc_tentative c' = pc_tentative c \<and> pc_block_table_u32 c' = pc_block_table_u32 c
     \<and> pc_seeded_pending c' = pc_seeded_pending c \<and> length (pc_cursors c') = length (pc_cursors c)"

definition same_pool :: "kv_block_pool \<Rightarrow> kv_block_pool \<Rightarrow> bool" where
  "same_pool p p' \<longleftrightarrow> kp_free_list p' = kp_free_list p \<and> kp_spill p' = kp_spill p
     \<and> kp_ref_counts p' = kp_ref_counts p \<and> kp_tree p' = kp_tree p \<and> cap p' = cap p"

lemma token_row_table: "pc_table c' = pc_table c \<Longrightarrow> token_row c' stride buf q = token_row c stride buf q"
  by (simp add: token_row_def slot_of_def)

lemma write_token_spec:
  assumes pg: "paged c p layer stride" and pos: "pos = pc_cursors c ! layer"
    and room: "pos < length (pc_table c) * BLOCK_SIZE" and unpacked: "\<not> env_packed e"
    and kf: "t * stride + stride \<le> length kf" and vf: "t * stride + stride \<le> length vf"
  shows "\<exists>c' p'. write_token e pk layer seq stride kf vf t c p = (Ok (), c', p')
    \<and> paged c' p' layer stride \<and> same_table c c' \<and> pc_cursors c' ! layer = pos + 1
    \<and> pc_committed c' = pc_committed c \<and> same_pool p p'
    \<and> (\<forall>q < length (pc_table c) * BLOCK_SIZE.
         token_row c' stride (pc_k_pages c' ! layer) q
           = (if q = pos then rows_from stride kf t else token_row c stride (pc_k_pages c ! layer) q)
       \<and> token_row c' stride (pc_v_pages c' ! layer) q
           = (if q = pos then rows_from stride vf t else token_row c stride (pc_v_pages c ! layer) q))"
proof -
  note P = pg [unfolded paged_def]
  let ?i = "pc_table c ! (pos div BLOCK_SIZE)"
  let ?off = "slot_of c pos * stride"
  let ?kr = "rows_from stride kf t" and ?vr = "rows_from stride vf t"
  have idx: "pos div BLOCK_SIZE < length (pc_table c)" by (rule page_index [OF room])
  have i: "?i < cap p" using P idx nth_mem [OF idx] by blast
  have lens: "length ?kr = stride" "length ?vr = stride" using kf vf by (simp_all add: rows_from_def)
  let ?k = "splice_at ?off ?kr (pc_k_pages c ! layer)" and ?v = "splice_at ?off ?vr (pc_v_pages c ! layer)"
  have ck: "copy_rows ?off (t * stride) stride kf (pc_k_pages c ! layer) = Some ?k"
    and cv: "copy_rows ?off (t * stride) stride vf (pc_v_pages c ! layer) = Some ?v"
    using slot_bound(2) [OF pg room] kf vf P by (simp_all add: copy_rows_def rows_from_def)
  have bok: "block_ok layer (kp_block_elem p) (blk p ?i)"
    using P i unfolding layer_rows_ok_alt by simp
  obtain b where b: "store_row layer BLOCK_SIZE (kp_block_elem p) pos stride kf vf (t * stride) (blk p ?i) = Some b"
    "block_ok layer (kp_block_elem p) b"
    using store_row_ok [OF bok kf vf] by blast
  let ?c1 = "c\<lparr>pc_k_pages := (pc_k_pages c)[layer := ?k], pc_v_pages := (pc_v_pages c)[layer := ?v],
               pc_cursors := (pc_cursors c)[layer := pos + 1]\<rparr>"
  let ?c' = "?c1\<lparr>pc_mirror_dirty := hs_insert (layer, ?i) (pc_mirror_dirty ?c1)\<rparr>"
  let ?p' = "upd_block ?i (\<lambda>_. b) p"
  have run: "write_token e pk layer seq stride kf vf t c p = (Ok (), ?c', ?p')"
    using idx i ck cv b(1) P unpacked
    by (simp add: write_token_def Let_def pos [symmetric] slot_of_def)
  have "paged c ?p' layer stride" by (rule paged_upd_block [OF pg i b(2)])
  then have "paged ?c' ?p' layer stride"
    using lens slot_bound(2) [OF pg room] by (simp add: paged_def)
  moreover have tr: "token_row ?c' stride buf q = token_row c stride buf q" for buf q
    by (simp add: token_row_def slot_of_def)
  moreover have "token_row ?c' stride (pc_k_pages ?c' ! layer) q
           = (if q = pos then ?kr else token_row c stride (pc_k_pages c ! layer) q)"
    "token_row ?c' stride (pc_v_pages ?c' ! layer) q
           = (if q = pos then ?vr else token_row c stride (pc_v_pages c ! layer) q)"
    if "q < length (pc_table c) * BLOCK_SIZE" for q
    unfolding tr using row_splice [OF pg that room lens(1), of "pc_k_pages c ! layer"]
      row_splice [OF pg that room lens(2), of "pc_v_pages c ! layer"] P
    by simp_all
  moreover have "pc_cursors ?c' ! layer = pos + 1" using P by simp
  moreover have "same_table c ?c'" by (simp add: same_table_def)
  moreover have "pc_committed ?c' = pc_committed c" by simp
  moreover have "same_pool p ?p'" by (simp add: same_pool_def)
  ultimately show ?thesis using run by blast
qed

text \<open>The token loop, once the table has the blocks.\<close>

lemma append_slot_no_alloc:
  "div_ceil (pc_committed c + 1) BLOCK_SIZE \<le> length (pc_table c)
    \<Longrightarrow> append_slot e c p = (Ok (), c\<lparr>pc_committed := pc_committed c + 1\<rparr>, p)"
  by (simp add: append_slot_def)

lemma paged_committed [simp]: "paged (c\<lparr>pc_committed := n\<rparr>) p layer stride = paged c p layer stride"
  by (simp add: paged_def)

lemma append_tokens_spec:
  assumes unpacked: "\<not> env_packed e" and kf: "(a + m) * stride \<le> length kf" and vf: "(a + m) * stride \<le> length vf"
    and pg: "paged c p layer stride" and pos: "pos = pc_cursors c ! layer"
    and room: "pos + m \<le> length (pc_table c) * BLOCK_SIZE"
    and tab: "layer = 0 \<Longrightarrow> div_ceil (pc_committed c + m) BLOCK_SIZE \<le> length (pc_table c)"
  shows "\<exists>c' p'. append_tokens e pk layer seq stride kf vf [a..<a + m] c p = (Ok (), c', p')
    \<and> paged c' p' layer stride \<and> same_table c c' \<and> pc_cursors c' ! layer = pos + m
    \<and> pc_committed c' = pc_committed c + (if layer = 0 then m else 0)
    \<and> same_pool p p'
    \<and> (\<forall>q < length (pc_table c) * BLOCK_SIZE.
         token_row c' stride (pc_k_pages c' ! layer) q
           = (if pos \<le> q \<and> q < pos + m then rows_from stride kf (a + (q - pos)) else token_row c stride (pc_k_pages c ! layer) q)
       \<and> token_row c' stride (pc_v_pages c' ! layer) q
           = (if pos \<le> q \<and> q < pos + m then rows_from stride vf (a + (q - pos)) else token_row c stride (pc_v_pages c ! layer) q))"
  using kf vf pg pos room tab
proof (induction m arbitrary: a c p pos)
  case 0
  then show ?case by (auto simp: same_table_def same_pool_def)
next
  case (Suc m)
  let ?c = "if layer = 0 then c\<lparr>pc_committed := pc_committed c + 1\<rparr> else c"
  have slot: "(if layer = 0 then append_slot e c p else (Ok (), c, p)) = (Ok (), ?c, p)"
  proof (cases "layer = 0")
    case True
    have "div_ceil (pc_committed c + 1) BLOCK_SIZE \<le> div_ceil (pc_committed c + Suc m) BLOCK_SIZE"
      by (rule div_ceil_BLOCK_mono) simp
    then show ?thesis using Suc.prems(6) [OF True] True by (simp add: append_slot_no_alloc)
  qed simp
  have k1: "a * stride + stride \<le> length kf" "a * stride + stride \<le> length vf"
    using Suc.prems(1,2) by (simp_all add: algebra_simps)
  have tc: "pc_table ?c = pc_table c" "pc_cursors ?c = pc_cursors c" "pc_k_pages ?c = pc_k_pages c"
    "pc_v_pages ?c = pc_v_pages c" "same_table c ?c" by (simp_all add: same_table_def)
  have pgc: "paged ?c p layer stride" "pos = pc_cursors ?c ! layer" "pos < length (pc_table ?c) * BLOCK_SIZE"
    using Suc.prems(3,4,5) by (cases "layer = 0"; simp)+
  obtain c1 p1 where w: "write_token e pk layer seq stride kf vf a ?c p = (Ok (), c1, p1)"
    "paged c1 p1 layer stride" "same_table ?c c1" "pc_cursors c1 ! layer = pos + 1"
    "pc_committed c1 = pc_committed ?c" "same_pool p p1"
    "\<forall>q < length (pc_table ?c) * BLOCK_SIZE.
         token_row c1 stride (pc_k_pages c1 ! layer) q
           = (if q = pos then rows_from stride kf a else token_row ?c stride (pc_k_pages ?c ! layer) q)
       \<and> token_row c1 stride (pc_v_pages c1 ! layer) q
           = (if q = pos then rows_from stride vf a else token_row ?c stride (pc_v_pages ?c ! layer) q)"
    using write_token_spec [OF pgc unpacked k1, of pk seq] by blast
  have t1: "pc_table c1 = pc_table c" using w(3) tc by (simp add: same_table_def)
  have "\<exists>c' p'. append_tokens e pk layer seq stride kf vf [Suc a..<Suc a + m] c1 p1 = (Ok (), c', p')
    \<and> paged c' p' layer stride \<and> same_table c1 c' \<and> pc_cursors c' ! layer = (pos + 1) + m
    \<and> pc_committed c' = pc_committed c1 + (if layer = 0 then m else 0)
    \<and> same_pool p1 p'
    \<and> (\<forall>q < length (pc_table c1) * BLOCK_SIZE.
         token_row c' stride (pc_k_pages c' ! layer) q
           = (if pos + 1 \<le> q \<and> q < (pos + 1) + m then rows_from stride kf (Suc a + (q - (pos + 1))) else token_row c1 stride (pc_k_pages c1 ! layer) q)
       \<and> token_row c' stride (pc_v_pages c' ! layer) q
           = (if pos + 1 \<le> q \<and> q < (pos + 1) + m then rows_from stride vf (Suc a + (q - (pos + 1))) else token_row c1 stride (pc_v_pages c1 ! layer) q))"
    by (rule Suc.IH [OF _ _ w(2)]) (use Suc.prems w t1 in \<open>simp_all add: algebra_simps\<close>)
  then obtain c' p' where r: "append_tokens e pk layer seq stride kf vf [Suc a..<Suc a + m] c1 p1 = (Ok (), c', p')"
    "paged c' p' layer stride" "same_table c1 c'" "pc_cursors c' ! layer = (pos + 1) + m"
    "pc_committed c' = pc_committed c1 + (if layer = 0 then m else 0)"
    "same_pool p1 p'"
    and rows: "\<And>q. q < length (pc_table c1) * BLOCK_SIZE \<Longrightarrow>
         token_row c' stride (pc_k_pages c' ! layer) q
           = (if pos + 1 \<le> q \<and> q < (pos + 1) + m then rows_from stride kf (Suc a + (q - (pos + 1))) else token_row c1 stride (pc_k_pages c1 ! layer) q)
       \<and> token_row c' stride (pc_v_pages c' ! layer) q
           = (if pos + 1 \<le> q \<and> q < (pos + 1) + m then rows_from stride vf (Suc a + (q - (pos + 1))) else token_row c1 stride (pc_v_pages c1 ! layer) q)"
    by blast
  have up: "[a..<a + Suc m] = a # [Suc a..<Suc a + m]" by (simp add: upt_conv_Cons)
  have run: "append_tokens e pk layer seq stride kf vf [a..<a + Suc m] c p = (Ok (), c', p')"
    unfolding up append_tokens.simps slot using w(1) r(1) by (simp del: upt_Suc)
  have rows': "token_row c' stride (pc_k_pages c' ! layer) q
           = (if pos \<le> q \<and> q < pos + Suc m then rows_from stride kf (a + (q - pos)) else token_row c stride (pc_k_pages c ! layer) q)
       \<and> token_row c' stride (pc_v_pages c' ! layer) q
           = (if pos \<le> q \<and> q < pos + Suc m then rows_from stride vf (a + (q - pos)) else token_row c stride (pc_v_pages c ! layer) q)"
    if q: "q < length (pc_table c) * BLOCK_SIZE" for q
  proof -
    have "Suc a + (q - (pos + 1)) = a + (q - pos)" if "pos < q" using that by simp
    moreover have "token_row ?c stride buf q = token_row c stride buf q" for buf by (rule token_row_table) (rule tc)
    ultimately show ?thesis using rows [of q] w(7) q t1 tc by (cases "q = pos"; cases "pos < q") auto
  qed
  have "same_table c c'" using w(3) r(3) tc(5) by (simp add: same_table_def)
  moreover have "pc_committed c' = pc_committed c + (if layer = 0 then Suc m else 0)" using r(5) w(5) by simp
  moreover have "pc_cursors c' ! layer = pos + Suc m" using r(4) by simp
  moreover have "same_pool p p'" using r(6) w(6) by (simp add: same_pool_def)
  ultimately show ?case using run r(2) rows' by blast
qed

section \<open>Gathering\<close>

lemma concat_blocks:
  "concat (map (\<lambda>i. concat (map (\<lambda>j. f (i * k + j)) [0..<k])) [0..<n]) = concat (map f [0..<n * k])"
proof (induction n)
  case 0
  then show ?case by simp
next
  case (Suc n)
  have "[0..<n * k + k] = [0..<n * k] @ [n * k..<n * k + k]" by (rule upt_add_eq_append) simp
  then have "[0..<Suc n * k] = [0..<n * k] @ [n * k..<n * k + k]" by (simp add: add.commute)
  moreover have "map f [n * k..<n * k + k] = map (\<lambda>j. f (n * k + j)) [0..<k]"
    by (rule nth_equalityI) simp_all
  ultimately show ?case using Suc by simp
qed

lemma take_concat_rows:
  assumes "\<And>q. q < n \<Longrightarrow> length (f q) = r" and "m \<le> n"
  shows "take (m * r) (concat (map f [0..<n])) = concat (map f [0..<m])"
proof -
  have "length (concat (map f [0..<m])) = m * r"
    using assms by (induction m) auto
  moreover have "[0..<n] = [0..<m] @ [m..<n]" using assms(2) by (metis le_add_diff_inverse upt_add_eq_append zero_le)
  ultimately show ?thesis by simp
qed

lemma gather_spec:
  assumes pg: "paged c p layer stride" and m: "m \<le> length (pc_table c) * BLOCK_SIZE"
  shows "gather_kv_f32 c layer m =
    Some (concat (map (token_row c stride (pc_k_pages c ! layer)) [0..<m]),
          concat (map (token_row c stride (pc_v_pages c ! layer)) [0..<m]))"
proof (cases "m = 0")
  case True
  then show ?thesis by (simp add: gather_kv_f32_def)
next
  case False
  note P = pg [unfolded paged_def]
  have ne: "pc_table c \<noteq> []" using False m by auto
  then have cap: "0 < cap p" using P by (cases "pc_table c") auto
  have ls: "layer_stride c layer = stride"
    using P cap by (simp add: layer_stride_def)
  let ?es = "BLOCK_SIZE * stride"
  let ?n = "div_ceil m BLOCK_SIZE"
  have n: "?n \<le> length (pc_table c)" using m by (simp add: div_ceil_le_iff)
  have mn: "m \<le> ?n * BLOCK_SIZE" using div_ceil_le_iff [of BLOCK_SIZE m ?n] by simp
  have page: "b * ?es + ?es \<le> cap p * BLOCK_SIZE * stride" if "b < cap p" for b
  proof -
    have "Suc b * ?es \<le> cap p * ?es" using that by (intro mult_le_mono1) simp
    then show ?thesis by (simp add: algebra_simps)
  qed
  have ids: "b < cap p" if "b \<in> set (take ?n (pc_table c))" for b
    using in_set_takeD [OF that] P by auto
  have rows: "length (token_row c stride buf q) = stride"
    if "length buf = cap p * BLOCK_SIZE * stride" "q < ?n * BLOCK_SIZE" for buf q
    using slot_bound(2) [OF pg, of q] that n mult_le_mono1 [OF n, of BLOCK_SIZE]
    by (simp add: token_row_def)
  have cut: "take ?es (drop (pc_table c ! i * ?es) buf)
      = concat (map (\<lambda>j. token_row c stride buf (i * BLOCK_SIZE + j)) [0..<BLOCK_SIZE])"
    if "i < ?n" "length buf = cap p * BLOCK_SIZE * stride" for i buf
  proof -
    have "pc_table c ! i \<in> set (pc_table c)" using that n by simp
    then have "pc_table c ! i < cap p" using P by blast
    then have "BLOCK_SIZE * stride + pc_table c ! i * ?es \<le> length buf"
      using page [of "pc_table c ! i"] that(2) by linarith
    from take_drop_rows [OF this] have "take ?es (drop (pc_table c ! i * ?es) buf)
      = concat (map (\<lambda>j. take stride (drop (pc_table c ! i * ?es + j * stride) buf)) [0..<BLOCK_SIZE])" .
    also have "\<dots> = concat (map (\<lambda>j. token_row c stride buf (i * BLOCK_SIZE + j)) [0..<BLOCK_SIZE])"
      by (rule arg_cong [where f = concat], rule map_cong)
        (simp_all add: token_row_def slot_of_def algebra_simps)
    finally show ?thesis .
  qed
  have all: "take (m * stride) (concat (map (\<lambda>b. take (min (b * ?es + ?es) len - b * ?es) (drop (b * ?es) buf)) (take ?n (pc_table c))))
      = concat (map (token_row c stride buf) [0..<m])"
    if len: "length buf = cap p * BLOCK_SIZE * stride" and l: "len = cap p * BLOCK_SIZE * stride" for buf len
  proof -
    have "map (\<lambda>b. take (min (b * ?es + ?es) len - b * ?es) (drop (b * ?es) buf)) (take ?n (pc_table c))
      = map (\<lambda>i. concat (map (\<lambda>j. token_row c stride buf (i * BLOCK_SIZE + j)) [0..<BLOCK_SIZE])) [0..<?n]"
    proof (rule nth_equalityI)
      show "length (map (\<lambda>b. take (min (b * ?es + ?es) len - b * ?es) (drop (b * ?es) buf)) (take ?n (pc_table c)))
        = length (map (\<lambda>i. concat (map (\<lambda>j. token_row c stride buf (i * BLOCK_SIZE + j)) [0..<BLOCK_SIZE])) [0..<?n])"
        using n by simp
      fix i assume "i < length (map (\<lambda>b. take (min (b * ?es + ?es) len - b * ?es) (drop (b * ?es) buf)) (take ?n (pc_table c)))"
      then have i: "i < ?n" using n by simp
      have "pc_table c ! i \<in> set (pc_table c)" using i n by simp
      then have "pc_table c ! i < cap p" using P by blast
      then have "min (pc_table c ! i * ?es + ?es) len - pc_table c ! i * ?es = ?es" using page l by (simp add: min_absorb1)
      then show "map (\<lambda>b. take (min (b * ?es + ?es) len - b * ?es) (drop (b * ?es) buf)) (take ?n (pc_table c)) ! i
        = map (\<lambda>i. concat (map (\<lambda>j. token_row c stride buf (i * BLOCK_SIZE + j)) [0..<BLOCK_SIZE])) [0..<?n] ! i"
        using i n cut [OF i len] by simp
    qed
    then show ?thesis
      using take_concat_rows [of "?n * BLOCK_SIZE" "token_row c stride buf" stride m] rows [OF len] mn
      by (simp only: concat_blocks)
  qed
  have inr: "\<not> (\<exists>b \<in> set (take ?n (pc_table c)). min (b * ?es + ?es) (cap p * BLOCK_SIZE * stride) \<le> b * ?es)"
  proof
    assume "\<exists>b \<in> set (take ?n (pc_table c)). min (b * ?es + ?es) (cap p * BLOCK_SIZE * stride) \<le> b * ?es"
    then obtain b where b: "b \<in> set (take ?n (pc_table c))" "min (b * ?es + ?es) (cap p * BLOCK_SIZE * stride) \<le> b * ?es" by blast
    with page [OF ids [OF b(1)]] have "b * ?es + ?es \<le> b * ?es" by (simp add: min_absorb1)
    then show False using P by (simp add: BLOCK_SIZE_def)
  qed
  have nz: "pc_k_pages c ! layer \<noteq> []" "pc_v_pages c ! layer \<noteq> []" using P cap by auto
  have lk: "length (pc_k_pages c ! layer) = cap p * BLOCK_SIZE * stride"
    and lv: "length (pc_v_pages c ! layer) = cap p * BLOCK_SIZE * stride"
    and ly: "layer < length (pc_k_pages c)" "layer < length (pc_v_pages c)"
    and st: "0 < stride" and ps: "pc_page_size c = BLOCK_SIZE" using P by auto
  show ?thesis
    using False nz st ly inr all [OF lk refl] all [OF lv refl] n
    by (simp add: gather_kv_f32_def Let_def ls ps lk min_absorb1)
qed

section \<open>Appending\<close>

lemma rows_concat: "length flat = m * r \<Longrightarrow> concat (map (rows_from r flat) [0..<m]) = flat"
  using take_drop_rows [of m r 0 flat] by (simp add: rows_from_def [abs_def])

lemma rows_extend:
  assumes "\<And>q. q < n + m \<Longrightarrow> f q = (if n \<le> q \<and> q < n + m then rows_from r flat (q - n) else g q)"
    and "length flat = m * r"
  shows "concat (map f [0..<n + m]) = concat (map g [0..<n]) @ flat"
proof -
  have "[0..<n + m] = [0..<n] @ [n..<n + m]" by (rule upt_add_eq_append) simp
  moreover have "concat (map f [0..<n]) = concat (map g [0..<n])"
    using assms(1) by (intro arg_cong [where f = concat] map_cong) auto
  moreover have "map f [n..<n + m] = map (rows_from r flat) [0..<m]"
    by (rule nth_equalityI) (use assms(1) in auto)
  ultimately show ?thesis using rows_concat [OF assms(2)] by simp
qed

lemma own_written:
  assumes "own c p" and "paged c' p' layer stride" and "same_table c c'" and "same_pool p p'"
  shows "own c' p'"
  using assms
  by (auto simp: own_def same_table_def same_pool_def paged_def layer_rows_ok_def pool_inv_def bufs_ok_def
    tree_ok_def alloc_ok_def kp_block_ref_count_def)

text \<open>
  Layer 0 carries the accounting: it takes the blocks it needs from the free list, and the tokens
  gathered afterwards are the earlier ones followed by the new ones.
\<close>

lemma append_layer0_spec:
  assumes o: "own c p" and cov: "covers c" and nt: "pc_tentative c = 0" and pg: "paged c p 0 stride"
    and cur: "pc_cursors c ! 0 = pc_committed c" and unseeded: "pc_seeded_pending c = 0"
    and room: "div_ceil (pc_committed c + seq) BLOCK_SIZE - length (pc_table c) \<le> length (kp_free_list p)"
    and sh: "seq_stride dims kf = (seq, stride)" "0 < seq" and lens: "length kf = seq * stride" "length vf = seq * stride"
    and calm: "\<not> env_packed e" "kp_spill p = None"
    and before: "gather_kv_f32 c 0 (pc_committed c) = Some (K, V)"
  shows "\<exists>c' p'. append_kv_layer e pk 0 dims kf vf c p = (Ok (), c', p')
    \<and> own c' p' \<and> covers c' \<and> paged c' p' 0 stride \<and> pc_tentative c' = 0
    \<and> pc_committed c' = pc_committed c + seq \<and> pc_cursors c' ! 0 = pc_committed c + seq
    \<and> pc_seeded_pending c' = 0
    \<and> gather_kv_f32 c' 0 (pc_committed c + seq) = Some (K @ kf, V @ vf)"
proof -
  let ?n = "pc_committed c" and ?need = "div_ceil (pc_committed c + seq) BLOCK_SIZE - length (pc_table c)"
  let ?new = "take ?need (kp_free_list p)"
  let ?c1 = "push_blocks ?new c"
  note P = pg [unfolded paged_def]
  have grow: "grow_pages 0 seq stride c = c" using P by (simp add: grow_pages_def)
  obtain p1 where r: "reserve e ?need c p = (Ok (), ?c1, p1)" "own ?c1 p1" "kp_tree p1 = kp_tree p" "kp_blocks p1 = kp_blocks p"
    "distinct (pc_table c) \<longrightarrow> distinct (pc_table c @ ?new)" "kp_spill p1 = kp_spill p"
    using reserve_spec [OF o room, of e] by blast
  have len: "length (pc_table c) = div_ceil ?n BLOCK_SIZE" using cov nt by (simp add: covers_def pc_len_def)
  have tab: "length (pc_table ?c1) = div_ceil (?n + seq) BLOCK_SIZE"
    using room len div_ceil_BLOCK_mono [of ?n "?n + seq"] by simp
  have nfit: "?n \<le> length (pc_table c) * BLOCK_SIZE" using len div_ceil_le_iff [of BLOCK_SIZE ?n "length (pc_table c)"] by simp
  have fit: "?n + seq \<le> length (pc_table ?c1) * BLOCK_SIZE"
    using tab div_ceil_le_iff [of BLOCK_SIZE "?n + seq" "length (pc_table ?c1)"] by simp
  have pg1: "paged ?c1 p1 0 stride"
  proof -
    have "b < cap p" if "b \<in> set (pc_table ?c1)" for b
      using own_range(1) [OF r(2) that] r(4) by simp
    moreover have "layer_rows_ok 0 p1" using r(2) by (simp add: own_def pool_inv_def bufs_ok_def layer_rows_ok_def)
    ultimately show ?thesis using P r(4,5) by (auto simp: paged_def)
  qed
  have sp1: "kp_spill p1 = None" using r(6) calm(2) by simp
  have kl: "(0 + seq) * stride \<le> length kf" "(0 + seq) * stride \<le> length vf" using lens by simp_all
  have cur1: "?n = pc_cursors ?c1 ! 0" using cur by simp
  obtain c2 p2 where t: "append_tokens e pk 0 seq stride kf vf [0..<0 + seq] ?c1 p1 = (Ok (), c2, p2)"
    "paged c2 p2 0 stride" "same_table ?c1 c2" "pc_cursors c2 ! 0 = ?n + seq"
    "pc_committed c2 = pc_committed ?c1 + (if (0::nat) = 0 then seq else 0)" "same_pool p1 p2"
    and rows: "\<And>q. q < length (pc_table ?c1) * BLOCK_SIZE \<Longrightarrow>
         token_row c2 stride (pc_k_pages c2 ! 0) q
           = (if ?n \<le> q \<and> q < ?n + seq then rows_from stride kf (0 + (q - ?n)) else token_row ?c1 stride (pc_k_pages ?c1 ! 0) q)
       \<and> token_row c2 stride (pc_v_pages c2 ! 0) q
           = (if ?n \<le> q \<and> q < ?n + seq then rows_from stride vf (0 + (q - ?n)) else token_row ?c1 stride (pc_v_pages ?c1 ! 0) q)"
    using append_tokens_spec [OF calm(1) kl pg1 cur1 fit, of pk seq] tab by (simp only: push_blocks_simps) blast
  have unspilled: "check_and_repromote_blocks e stride c2 p2 = (Ok (), c2, p2)"
    using t(6) sp1 by (simp add: check_and_repromote_blocks_def same_pool_def)
  have run: "append_kv_layer e pk 0 dims kf vf c p = (Ok (), c2, p2)"
    using sh P grow r(1) t(1) unspilled unseeded
    by (simp add: append_kv_layer_def Let_def hydrate_seeded_def)
  have old: "token_row ?c1 stride buf q = token_row c stride buf q" if "q < ?n" for buf q
    using page_index [of q c] that nfit by (simp add: token_row_def slot_of_def nth_append)
  have KV: "K = concat (map (token_row c stride (pc_k_pages c ! 0)) [0..<?n])"
    "V = concat (map (token_row c stride (pc_v_pages c ! 0)) [0..<?n])"
    using gather_spec [OF pg nfit] before by simp_all
  have "concat (map (token_row c2 stride (pc_k_pages c2 ! 0)) [0..<?n + seq]) = K @ kf"
    unfolding KV by (rule rows_extend [OF _ lens(1)]) (use rows fit old in auto)
  moreover have "concat (map (token_row c2 stride (pc_v_pages c2 ! 0)) [0..<?n + seq]) = V @ vf"
    unfolding KV by (rule rows_extend [OF _ lens(2)]) (use rows fit old in auto)
  moreover have "?n + seq \<le> length (pc_table c2) * BLOCK_SIZE" using fit t(3) by (simp add: same_table_def)
  ultimately have "gather_kv_f32 c2 0 (?n + seq) = Some (K @ kf, V @ vf)" using gather_spec [OF t(2)] by simp
  moreover have "own c2 p2" by (rule own_written [OF r(2) t(2,3,6)])
  moreover have "covers c2" "pc_tentative c2 = 0" "pc_committed c2 = ?n + seq" "pc_seeded_pending c2 = 0"
    using t(3,5) tab nt unseeded by (simp_all add: covers_def pc_len_def same_table_def)
  ultimately show ?thesis using run t(2,4) by blast
qed

text \<open>The first append of a layer creates its pages; a later one finds them.\<close>

lemma grow_pages_idem: "length (pc_v_pages c) = length (pc_k_pages c) \<Longrightarrow>
    grow_pages layer seq stride (grow_pages layer seq stride c) = grow_pages layer seq stride c"
  by (simp add: grow_pages_def Let_def)

lemma grow_pages_fields [simp]:
  "pc_table (grow_pages l s st c) = pc_table c" "pc_committed (grow_pages l s st c) = pc_committed c"
  "pc_tentative (grow_pages l s st c) = pc_tentative c"
  "pc_block_table_u32 (grow_pages l s st c) = pc_block_table_u32 c"
  "pc_seeded_pending (grow_pages l s st c) = pc_seeded_pending c"
  by (simp_all add: grow_pages_def Let_def)

lemma append_after_grow:
  assumes "length (pc_v_pages c) = length (pc_k_pages c)" and "seq_stride dims kf = (seq, stride)"
    and "0 < seq" and "0 < stride"
  shows "append_kv_layer e pk layer dims kf vf (grow_pages layer seq stride c) p
    = append_kv_layer e pk layer dims kf vf c p"
  using assms by (simp add: append_kv_layer_def grow_pages_idem)

lemma paged_fresh:
  assumes "pool_inv p" and "0 < stride"
  shows "paged (grow_pages 0 seq stride (pc_new p h d BLOCK_SIZE)) p 0 stride"
  using assms
  by (simp add: paged_def grow_pages_def pc_new_def Let_def layer_rows_ok_def pool_inv_def bufs_ok_def)

text \<open>
  The other layers follow: their tokens go into the blocks layer 0 already holds, and the accounting
  does not move.
\<close>

lemma append_deeper_spec:
  assumes l: "0 < layer" and pg: "paged c p layer stride" and cur: "pc_cursors c ! layer = n"
    and unseeded: "pc_seeded_pending c = 0" and fit: "n + seq \<le> length (pc_table c) * BLOCK_SIZE"
    and sh: "seq_stride dims kf = (seq, stride)" "0 < seq" and lens: "length kf = seq * stride" "length vf = seq * stride"
    and calm: "\<not> env_packed e" "kp_spill p = None"
    and before: "gather_kv_f32 c layer n = Some (K, V)"
  shows "\<exists>c' p'. append_kv_layer e pk layer dims kf vf c p = (Ok (), c', p')
    \<and> paged c' p' layer stride \<and> pc_table c' = pc_table c \<and> pc_committed c' = pc_committed c
    \<and> kp_ref_counts p' = kp_ref_counts p \<and> kp_free_list p' = kp_free_list p
    \<and> pc_cursors c' ! layer = n + seq
    \<and> gather_kv_f32 c' layer (n + seq) = Some (K @ kf, V @ vf)"
proof -
  note P = pg [unfolded paged_def]
  have grow: "grow_pages layer seq stride c = c" using P by (simp add: grow_pages_def)
  have kl: "(0 + seq) * stride \<le> length kf" "(0 + seq) * stride \<le> length vf" using lens by simp_all
  have tab: "layer = 0 \<Longrightarrow> div_ceil (pc_committed c + seq) BLOCK_SIZE \<le> length (pc_table c)" using l by simp
  obtain c2 p2 where t: "append_tokens e pk layer seq stride kf vf [0..<0 + seq] c p = (Ok (), c2, p2)"
    "paged c2 p2 layer stride" "same_table c c2" "pc_cursors c2 ! layer = n + seq"
    "pc_committed c2 = pc_committed c + (if layer = 0 then seq else 0)" "same_pool p p2"
    and rows: "\<And>q. q < length (pc_table c) * BLOCK_SIZE \<Longrightarrow>
         token_row c2 stride (pc_k_pages c2 ! layer) q
           = (if n \<le> q \<and> q < n + seq then rows_from stride kf (0 + (q - n)) else token_row c stride (pc_k_pages c ! layer) q)
       \<and> token_row c2 stride (pc_v_pages c2 ! layer) q
           = (if n \<le> q \<and> q < n + seq then rows_from stride vf (0 + (q - n)) else token_row c stride (pc_v_pages c ! layer) q)"
    using append_tokens_spec [OF calm(1) kl pg cur [symmetric] fit tab, of pk seq] by blast
  have unspilled: "check_and_repromote_blocks e stride c2 p2 = (Ok (), c2, p2)"
    using t(6) calm(2) by (simp add: check_and_repromote_blocks_def same_pool_def)
  have run: "append_kv_layer e pk layer dims kf vf c p = (Ok (), c2, p2)"
    using sh P grow t(1) unspilled unseeded l
    by (simp add: append_kv_layer_def Let_def hydrate_seeded_def)
  have KV: "K = concat (map (token_row c stride (pc_k_pages c ! layer)) [0..<n])"
    "V = concat (map (token_row c stride (pc_v_pages c ! layer)) [0..<n])"
    using gather_spec [OF pg, of n] fit before by simp_all
  have "concat (map (token_row c2 stride (pc_k_pages c2 ! layer)) [0..<n + seq]) = K @ kf"
    unfolding KV by (rule rows_extend [OF _ lens(1)]) (use rows fit in auto)
  moreover have "concat (map (token_row c2 stride (pc_v_pages c2 ! layer)) [0..<n + seq]) = V @ vf"
    unfolding KV by (rule rows_extend [OF _ lens(2)]) (use rows fit in auto)
  moreover have "n + seq \<le> length (pc_table c2) * BLOCK_SIZE" using fit t(3) by (simp add: same_table_def)
  ultimately have "gather_kv_f32 c2 layer (n + seq) = Some (K @ kf, V @ vf)" using gather_spec [OF t(2)] by simp
  then show ?thesis using run t l by (simp add: same_table_def same_pool_def)
qed

section \<open>Cursors and rollback\<close>

text \<open>
  \<open>rollback_to\<close> keeps the per-layer cursors. After a rollback across a page boundary the next token
  of layer 0 looks for its page at the old cursor, which the table no longer covers.
\<close>

lemma append_after_rollback_fails:
  assumes o: "own c p" and cov: "covers c" and pg: "paged c p 0 stride"
    and cur: "pc_cursors c ! 0 = pc_committed c" and unseeded: "pc_seeded_pending c = 0"
    and deep: "m \<le> pc_committed c" "div_ceil (m + 1) BLOCK_SIZE \<le> pc_committed c div BLOCK_SIZE"
    and back_run: "rollback_to e m c p = (Ok (), c', p')"
    and room: "div_ceil (m + 1) BLOCK_SIZE - length (pc_table c') \<le> length (kp_free_list p')"
    and sh: "seq_stride dims kf = (1, stride)"
  shows "fst (append_kv_layer e pk 0 dims kf vf c' p')
    = Err (LayerDesync (pc_committed c div BLOCK_SIZE) (div_ceil (m + 1) BLOCK_SIZE) 0 (pc_committed c) 1)"
proof -
  note P = pg [unfolded paged_def]
  have r: "own c' p'" "covers c'" "pc_len c' = min (pc_committed c) m" "pc_tentative c' = 0"
    "pc_cursors c' = pc_cursors c" "pc_k_pages c' = pc_k_pages c" "pc_v_pages c' = pc_v_pages c"
    "pc_page_size c' = pc_page_size c"
    using rollback_spec [OF o cov, of e m] back_run by auto
  have seeded: "pc_seeded_pending c' = 0" using rollback_spec [OF o cov, of e m] back_run unseeded by auto
  have m: "pc_committed c' = m" using r(3,4) deep(1) by (simp add: pc_len_def)
  have len: "length (pc_table c') = div_ceil m BLOCK_SIZE" using r(2,3) deep(1) by (simp add: covers_def)
  let ?need = "div_ceil (m + 1) BLOCK_SIZE - length (pc_table c')"
  let ?c1 = "push_blocks (take ?need (kp_free_list p')) c'"
  obtain p1 where v: "reserve e ?need c' p' = (Ok (), ?c1, p1)"
    using reserve_spec [OF r(1) room, of e] by blast
  have tab: "length (pc_table ?c1) = div_ceil (m + 1) BLOCK_SIZE"
    using room len div_ceil_BLOCK_mono [of m "m + 1"] by simp
  have grow: "grow_pages 0 1 stride c' = c'" using P r(6) by (simp add: grow_pages_def)
  let ?c2 = "?c1\<lparr>pc_committed := m + 1\<rparr>"
  have slot: "append_slot e ?c1 p1 = (Ok (), ?c2, p1)"
    using append_slot_no_alloc [of ?c1 e p1] tab m by simp
  have wt: "write_token e pk 0 1 stride kf vf 0 ?c2 p1
    = (Err (LayerDesync (pc_committed c div BLOCK_SIZE) (div_ceil (m + 1) BLOCK_SIZE) 0 (pc_committed c) 1), ?c2, p1)"
    using deep(2) P r(5,8) cur tab by (simp add: write_token_def Let_def)
  have "append_tokens e pk 0 1 stride kf vf [0] ?c1 p1
    = (Err (LayerDesync (pc_committed c div BLOCK_SIZE) (div_ceil (m + 1) BLOCK_SIZE) 0 (pc_committed c) 1), ?c2, p1)"
    by (simp only: append_tokens.simps refl if_True slot wt and_then.simps prod.case)
  then show ?thesis
    using sh P grow v m seeded by (simp add: append_kv_layer_def Let_def hydrate_seeded_def)
qed

end
