(* ===== verification/KvWire.thy ===== *)
theory KvWire
  imports SpillManager
begin

text \<open>
  The wire protocol of \<open>crates/grim-kvtransport/src/lib.rs\<close>: the 32-byte header and its checksums,
  the messages the client sends, the receiver's loop over one connection, the shared-memory inbox,
  and the prompt channel.

  A connection is the complete sequence of bytes the peer sends before it closes; \<open>read_exact\<close> takes
  a prefix of it or fails at its end. The receiver's replies are the bytes it writes. The block
  store is the trait object \<open>KvBlockStore\<close>: a record of its methods over a state type.
\<close>

section \<open>Header\<close>

record kv_header =
  hd_magic :: u32
  hd_version :: u32
  hd_block_id :: u64
  hd_layer_idx :: u32
  hd_num_elements :: u32
  hd_checksum :: u32
  hd_num_tokens :: u32

definition KV_MAGIC :: u32 where "KV_MAGIC = 0x4B56434B"
definition KV_PROTOCOL_VERSION :: u32 where "KV_PROTOCOL_VERSION = 3"
definition HEADER_SIZE :: nat where "HEADER_SIZE = 32"
definition FETCH_REQUEST_FLAG :: u32 where "FETCH_REQUEST_FLAG = 0x80000000"
definition PROMPT_FLAG :: u32 where "PROMPT_FLAG = 0x40000000"
definition ACK_OK :: u32 where "ACK_OK = 1"
definition MAX_WIRE_LAYER_IDX :: u32 where "MAX_WIRE_LAYER_IDX = 4096"
definition MAX_PROMPT_TOKENS :: nat where "MAX_PROMPT_TOKENS = 1000000"
definition MAX_PENDING_PROMPTS :: nat where "MAX_PENDING_PROMPTS = 10000"
definition MAX_PUSH_ELEMENTS :: nat where "MAX_PUSH_ELEMENTS = 100000000"
definition MAX_PAYLOAD_BYTES :: nat where "MAX_PAYLOAD_BYTES = 512 * 1024 * 1024"

definition serialize :: "kv_header \<Rightarrow> u8 list" where
  "serialize h = le_bytes 4 (hd_magic h) @ le_bytes 4 (hd_version h) @ le_bytes 8 (hd_block_id h)
     @ le_bytes 4 (hd_layer_idx h) @ le_bytes 4 (hd_num_elements h) @ le_bytes 4 (hd_checksum h)
     @ le_bytes 4 (hd_num_tokens h)"

text \<open>\<open>buf[a..b]\<close>.\<close>

definition slice :: "nat \<Rightarrow> nat \<Rightarrow> 'a list \<Rightarrow> 'a list" where
  "slice a b xs = take (b - a) (drop a xs)"

definition deserialize :: "u8 list \<Rightarrow> kv_header option" where
  "deserialize buf =
     (if length buf < HEADER_SIZE then None
      else Some \<lparr>hd_magic = of_le_bytes (slice 0 4 buf), hd_version = of_le_bytes (slice 4 8 buf),
                 hd_block_id = of_le_bytes (slice 8 16 buf), hd_layer_idx = of_le_bytes (slice 16 20 buf),
                 hd_num_elements = of_le_bytes (slice 20 24 buf), hd_checksum = of_le_bytes (slice 24 28 buf),
                 hd_num_tokens = of_le_bytes (slice 28 32 buf)\<rparr>)"

definition verify :: "kv_header \<Rightarrow> bool" where
  "verify h \<longleftrightarrow> hd_magic h = KV_MAGIC \<and> hd_version h = KV_PROTOCOL_VERSION"

section \<open>Checksums\<close>

definition checksum_step :: "u32 \<Rightarrow> u8 \<Rightarrow> u32" where
  "checksum_step hash b = (hash XOR ucast b) * 0x01000193"

definition compute_checksum_bytes :: "u8 list \<Rightarrow> u32" where
  "compute_checksum_bytes bytes = foldl checksum_step 0x811c9275 bytes"

definition compute_checksum :: "f32 list \<Rightarrow> f32 list \<Rightarrow> u32" where
  "compute_checksum k v = foldl (\<lambda>hash f. foldl checksum_step hash (le_bytes 4 f)) 0x811c9275 (k @ v)"

section \<open>Client messages\<close>

datatype wire_error =
    KvLengthMismatch | EmptyBlock | BlockTooLarge nat | TokensTooLarge nat | LayerCapExceeded u32
  | AckReadFailed | AckProtocol | AckMismatch u64 u32 | AckRejected
  | EmptyPrompt | PromptTooLong nat
  | FetchElemsTooLarge nat | FetchReadFailed | FetchProtocol u32 u32 | FetchNotAvailable
  | FetchPayloadCap | FetchChecksum

definition u32_max :: nat where "u32_max = 2 ^ 32 - 1"

definition encode_block_message :: "nat \<Rightarrow> u32 \<Rightarrow> f32 list \<Rightarrow> f32 list \<Rightarrow> nat
    \<Rightarrow> (wire_error, u8 list) outcome" where
  "encode_block_message block_id layer_idx k v num_tokens =
     (if length k \<noteq> length v then Err KvLengthMismatch
      else if k = [] then Err EmptyBlock
      else if length k > u32_max then Err (BlockTooLarge (length k))
      else if num_tokens > u32_max then Err (TokensTooLarge num_tokens)
      else if layer_idx > MAX_WIRE_LAYER_IDX then Err (LayerCapExceeded layer_idx)
      else Ok (serialize \<lparr>hd_magic = KV_MAGIC, hd_version = KV_PROTOCOL_VERSION,
                 hd_block_id = word_of_nat block_id, hd_layer_idx = layer_idx,
                 hd_num_elements = word_of_nat (length k), hd_checksum = compute_checksum k v,
                 hd_num_tokens = word_of_nat num_tokens\<rparr> @ encode_f32s (k @ v)))"

definition fetch_request :: "nat \<Rightarrow> u32 \<Rightarrow> nat \<Rightarrow> (wire_error, u8 list) outcome" where
  "fetch_request block_id layer_idx block_elems =
     (if block_elems > u32_max then Err (FetchElemsTooLarge block_elems)
      else Ok (serialize \<lparr>hd_magic = KV_MAGIC, hd_version = KV_PROTOCOL_VERSION,
                 hd_block_id = word_of_nat block_id,
                 hd_layer_idx = (layer_idx AND NOT FETCH_REQUEST_FLAG) OR FETCH_REQUEST_FLAG,
                 hd_num_elements = word_of_nat block_elems, hd_checksum = 0, hd_num_tokens = 0\<rparr>))"

definition encode_prompt_message :: "u64 \<Rightarrow> u32 list \<Rightarrow> (wire_error, u8 list) outcome" where
  "encode_prompt_message request_id tokens =
     (if tokens = [] then Err EmptyPrompt
      else if length tokens > MAX_PROMPT_TOKENS then Err (PromptTooLong (length tokens))
      else if length tokens > u32_max then Err (PromptTooLong (length tokens))
      else Ok (let payload = encode_f32s tokens in
               serialize \<lparr>hd_magic = KV_MAGIC, hd_version = KV_PROTOCOL_VERSION,
                 hd_block_id = request_id, hd_layer_idx = PROMPT_FLAG,
                 hd_num_elements = word_of_nat (length tokens),
                 hd_checksum = compute_checksum_bytes payload,
                 hd_num_tokens = word_of_nat (length tokens)\<rparr> @ payload))"

text \<open>\<open>read_ack\<close>: the first header of the reply stream; the rest stays on the stream.\<close>

definition read_ack :: "u8 list \<Rightarrow> u64 \<Rightarrow> u32 \<Rightarrow> (wire_error, u8 list) outcome" where
  "read_ack bytes block_id layer_idx =
     (if length bytes < HEADER_SIZE then Err AckReadFailed
      else (case deserialize (take HEADER_SIZE bytes) of
              None \<Rightarrow> Err AckReadFailed
            | Some ack \<Rightarrow>
                if \<not> verify ack then Err AckProtocol
                else if hd_block_id ack \<noteq> block_id \<or> hd_layer_idx ack \<noteq> layer_idx
                then Err (AckMismatch (hd_block_id ack) (hd_layer_idx ack))
                else if hd_checksum ack \<noteq> ACK_OK then Err AckRejected
                else Ok (drop HEADER_SIZE bytes)))"

fun read_acks :: "u8 list \<Rightarrow> (u64 \<times> u32) list \<Rightarrow> (wire_error, u8 list) outcome" where
  "read_acks bytes [] = Ok bytes"
| "read_acks bytes ((b, l) # ids) =
     (case read_ack bytes b l of Ok rest \<Rightarrow> read_acks rest ids | r \<Rightarrow> r)"

text \<open>\<open>fetch_block_remote\<close> after the request is out: the reply is decoded and checked.\<close>

definition fetch_reply :: "u8 list \<Rightarrow> (wire_error, f32 list \<times> f32 list \<times> nat) outcome" where
  "fetch_reply bytes =
     (if length bytes < HEADER_SIZE then Err FetchReadFailed
      else (case deserialize (take HEADER_SIZE bytes) of
              None \<Rightarrow> Err FetchReadFailed
            | Some h \<Rightarrow>
                if \<not> verify h then Err (FetchProtocol (hd_magic h) (hd_version h))
                else if hd_num_elements h = 0 then Err FetchNotAvailable
                else (let n = unat (hd_num_elements h); rest = drop HEADER_SIZE bytes in
                      if n * 8 > MAX_PAYLOAD_BYTES then Err FetchPayloadCap
                      else if length rest < n * 8 then Err FetchReadFailed
                      else (let payload = take (n * 8) rest; split = n * 4 in
                            if compute_checksum_bytes payload \<noteq> hd_checksum h then Err FetchChecksum
                            else Ok (parse_f32_slice (take split payload),
                                     parse_f32_slice (drop split payload),
                                     unat (min (hd_num_tokens h) (hd_num_elements h)))))))"

section \<open>The block store behind the receiver\<close>

record 's kv_store =
  ks_num_blocks :: "'s \<Rightarrow> nat"
  ks_elem_per_token :: "'s \<Rightarrow> nat"
  ks_block_size :: "'s \<Rightarrow> nat"
  ks_is_received :: "'s \<Rightarrow> nat \<Rightarrow> bool"
  ks_block_num_tokens :: "'s \<Rightarrow> nat \<Rightarrow> nat option"
  ks_read_layer_keys :: "'s \<Rightarrow> nat \<Rightarrow> u32 \<Rightarrow> f32 list option"
  ks_read_layer_values :: "'s \<Rightarrow> nat \<Rightarrow> u32 \<Rightarrow> f32 list option"
  ks_try_write_layer_keys :: "'s \<Rightarrow> nat \<Rightarrow> u32 \<Rightarrow> f32 list \<Rightarrow> nat \<Rightarrow> (kv_error, unit) outcome \<times> 's"
  ks_try_write_layer_values :: "'s \<Rightarrow> nat \<Rightarrow> u32 \<Rightarrow> f32 list \<Rightarrow> (kv_error, unit) outcome \<times> 's"

text \<open>\<open>store_push_payload\<close>: \<open>Err ()\<close> is \<open>PushRejection::Rejected\<close>.\<close>

definition store_push_payload :: "'s kv_store \<Rightarrow> 's \<Rightarrow> kv_header \<Rightarrow> u8 list \<Rightarrow> (unit, nat) outcome \<times> 's" where
  "store_push_payload S s h payload =
     (if compute_checksum_bytes payload \<noteq> hd_checksum h then (Err (), s)
      else (let n = unat (hd_num_elements h) in
            if length payload < n * 4 then (Panic, s)
            else (let k = parse_f32_slice (take (n * 4) payload);
                      v = parse_f32_slice (drop (n * 4) payload) in
                  if unat (hd_block_id h) \<ge> ks_num_blocks S s then (Err (), s)
                  else if ks_elem_per_token S s = 0 then (Err (), s)
                  else (let block_id = unat (hd_block_id h);
                            derived = min (n div ks_elem_per_token S s) (ks_block_size S s);
                            num_tokens = (if hd_num_tokens h > 0 then min (unat (hd_num_tokens h)) derived
                                          else derived) in
                        (case ks_try_write_layer_keys S s block_id (hd_layer_idx h) k num_tokens of
                           (Ok _, s1) \<Rightarrow>
                             (case ks_try_write_layer_values S s1 block_id (hd_layer_idx h) v of
                                (Ok _, s2) \<Rightarrow> (Ok num_tokens, s2)
                              | (Err _, s2) \<Rightarrow> (Err (), s2)
                              | (Panic, s2) \<Rightarrow> (Panic, s2)
                              | (Hang, s2) \<Rightarrow> (Hang, s2))
                         | (Err _, s1) \<Rightarrow> (Err (), s1)
                         | (Panic, s1) \<Rightarrow> (Panic, s1)
                         | (Hang, s1) \<Rightarrow> (Hang, s1))))))"

section \<open>Prompt channel\<close>

type_synonym prompt_channel = "(u64 \<times> u32 list) list"

definition prompt_store :: "prompt_channel \<Rightarrow> u64 \<Rightarrow> u32 list \<Rightarrow> prompt_channel" where
  "prompt_store ch request_id tokens =
     AList.update request_id tokens
       (if length ch \<ge> MAX_PENDING_PROMPTS \<and> map_of ch request_id = None
        then (case ch of [] \<Rightarrow> ch | (victim, _) # _ \<Rightarrow> AList.delete victim ch)
        else ch)"

definition prompt_take :: "prompt_channel \<Rightarrow> u64 \<Rightarrow> u32 list option \<times> prompt_channel" where
  "prompt_take ch request_id = (map_of ch request_id, AList.delete request_id ch)"

definition prompt_contains :: "prompt_channel \<Rightarrow> u64 \<Rightarrow> bool" where
  "prompt_contains ch request_id \<longleftrightarrow> map_of ch request_id \<noteq> None"

section \<open>The receiver\<close>

record 's receiver =
  rv_store :: 's
  rv_prompts :: prompt_channel

text \<open>
  One turn of the drain loop: \<open>Next\<close> continues with the rest of the stream, \<open>Closed\<close> is \<open>break\<close>,
  \<open>Died\<close> a panic of the receiver thread. Each carries the bytes written.
\<close>

datatype 's served =
    Next "u8 list" "u8 list" "'s receiver"
  | Closed "u8 list" "'s receiver"
  | Died "'s receiver"

definition ack_bytes :: "kv_header \<Rightarrow> bool \<Rightarrow> u32 \<Rightarrow> u8 list" where
  "ack_bytes h ok committed =
     serialize \<lparr>hd_magic = KV_MAGIC, hd_version = KV_PROTOCOL_VERSION,
       hd_block_id = hd_block_id h, hd_layer_idx = hd_layer_idx h, hd_num_elements = committed,
       hd_checksum = (if ok then ACK_OK else 0), hd_num_tokens = committed\<rparr>"

definition fetch_answer :: "'s kv_store \<Rightarrow> 's \<Rightarrow> nat \<Rightarrow> u32 \<Rightarrow> f32 list \<times> f32 list \<times> nat" where
  "fetch_answer S s block_id layer_idx =
     (if block_id < ks_num_blocks S s \<and> ks_is_received S s block_id then
        (case (ks_read_layer_keys S s block_id layer_idx, ks_read_layer_values S s block_id layer_idx) of
           (Some k, Some v) \<Rightarrow>
             if length k = length v \<and> k \<noteq> [] then
               (let derived = length k div ks_elem_per_token S s;
                    stored = min (case ks_block_num_tokens S s block_id of Some n \<Rightarrow> n | None \<Rightarrow> derived) derived
                in (k, v, stored))
             else ([], [], 0)
         | _ \<Rightarrow> ([], [], 0))
      else ([], [], 0))"

definition serve_fetch :: "'s kv_store \<Rightarrow> kv_header \<Rightarrow> u8 list \<Rightarrow> 's receiver \<Rightarrow> 's served" where
  "serve_fetch S h rest r =
     (let layer_idx = hd_layer_idx h AND NOT FETCH_REQUEST_FLAG in
      case fetch_answer S (rv_store r) (unat (hd_block_id h)) layer_idx of
        (k, v, stored) \<Rightarrow>
          Next rest (serialize \<lparr>hd_magic = KV_MAGIC, hd_version = KV_PROTOCOL_VERSION,
              hd_block_id = hd_block_id h, hd_layer_idx = layer_idx,
              hd_num_elements = word_of_nat (length k), hd_checksum = compute_checksum k v,
              hd_num_tokens = word_of_nat stored\<rparr> @ encode_f32s (k @ v)) r)"

definition serve_prompt :: "kv_header \<Rightarrow> u8 list \<Rightarrow> 's receiver \<Rightarrow> 's served" where
  "serve_prompt h rest r =
     (let n = unat (hd_num_elements h) in
      if n > MAX_PROMPT_TOKENS then Next rest (ack_bytes h False 0) r
      else if length rest < n * 4 then Closed [] r
      else (let payload = take (n * 4) rest; rest' = drop (n * 4) rest in
            if compute_checksum_bytes payload \<noteq> hd_checksum h then Next rest' (ack_bytes h False 0) r
            else Next rest' (ack_bytes h True (word_of_nat n))
                   (r\<lparr>rv_prompts := prompt_store (rv_prompts r) (hd_block_id h) (parse_f32_slice payload)\<rparr>)))"

definition serve_push :: "'s kv_store \<Rightarrow> kv_header \<Rightarrow> u8 list \<Rightarrow> 's receiver \<Rightarrow> 's served" where
  "serve_push S h rest r =
     (let n = unat (hd_num_elements h) in
      if hd_layer_idx h > MAX_WIRE_LAYER_IDX then Closed (ack_bytes h False 0) r
      else if n > MAX_PUSH_ELEMENTS then Closed (ack_bytes h False 0) r
      else if length rest < n * 8 then Closed [] r
      else (case store_push_payload S (rv_store r) h (take (n * 8) rest) of
              (Ok num_tokens, s) \<Rightarrow>
                Next (drop (n * 8) rest) (ack_bytes h True (word_of_nat num_tokens)) (r\<lparr>rv_store := s\<rparr>)
            | (Err _, s) \<Rightarrow> Next (drop (n * 8) rest) (ack_bytes h False 0) (r\<lparr>rv_store := s\<rparr>)
            | (_, s) \<Rightarrow> Died (r\<lparr>rv_store := s\<rparr>)))"

definition serve_step :: "'s kv_store \<Rightarrow> u8 list \<Rightarrow> 's receiver \<Rightarrow> 's served" where
  "serve_step S input r =
     (if length input < HEADER_SIZE then Closed [] r
      else (case deserialize (take HEADER_SIZE input) of
              None \<Rightarrow> Closed [] r
            | Some h \<Rightarrow>
                (let rest = drop HEADER_SIZE input in
                 if \<not> verify h then Closed (ack_bytes h False 0) r
                 else if hd_layer_idx h AND FETCH_REQUEST_FLAG \<noteq> 0 then serve_fetch S h rest r
                 else if hd_layer_idx h AND PROMPT_FLAG \<noteq> 0 then serve_prompt h rest r
                 else serve_push S h rest r)))"

lemma serve_step_consumes:
  "serve_step S input r = Next rest out r' \<Longrightarrow> length rest + HEADER_SIZE \<le> length input"
  by (auto simp: serve_step_def serve_fetch_def serve_prompt_def serve_push_def Let_def
      split: if_splits option.splits outcome.splits prod.splits)

function serve :: "'s kv_store \<Rightarrow> u8 list \<Rightarrow> 's receiver \<Rightarrow> u8 list \<times> 's receiver" where
  "serve S input r =
     (case serve_step S input r of
        Next rest out r1 \<Rightarrow> (case serve S rest r1 of (out2, r2) \<Rightarrow> (out @ out2, r2))
      | Closed out r1 \<Rightarrow> (out, r1)
      | Died r1 \<Rightarrow> ([], r1))"
  by pat_completeness auto
termination
  by (relation "measure (\<lambda>(S, input, r). length input)")
    (auto dest: serve_step_consumes simp: HEADER_SIZE_def)

declare serve.simps [simp del]

section \<open>The shared-memory inbox\<close>

text \<open>What happens to a handoff file: consumed, quarantined, or left to a panic.\<close>

datatype handoff = Consumed | Quarantined | HandoffPanic

definition consume_shm_handoff :: "'s kv_store \<Rightarrow> u8 list \<Rightarrow> 's \<Rightarrow> handoff \<times> 's" where
  "consume_shm_handoff S bytes s =
     (if length bytes < HEADER_SIZE then (Quarantined, s)
      else (case deserialize (take HEADER_SIZE bytes) of
              None \<Rightarrow> (Quarantined, s)
            | Some h \<Rightarrow>
                (let n = unat (hd_num_elements h) in
                 if \<not> verify h then (Quarantined, s)
                 else if hd_layer_idx h AND (FETCH_REQUEST_FLAG OR PROMPT_FLAG) \<noteq> 0 then (Quarantined, s)
                 else if hd_layer_idx h > MAX_WIRE_LAYER_IDX then (Quarantined, s)
                 else if n > MAX_PUSH_ELEMENTS then (Quarantined, s)
                 else if length bytes \<noteq> HEADER_SIZE + n * 8 then (Quarantined, s)
                 else (case store_push_payload S s h (drop HEADER_SIZE bytes) of
                         (Ok _, s1) \<Rightarrow> (Consumed, s1)
                       | (Err _, s1) \<Rightarrow> (Quarantined, s1)
                       | (_, s1) \<Rightarrow> (HandoffPanic, s1)))))"

end
