(* ===== verification/KvWireLaws.thy ===== *)
theory KvWireLaws
  imports KvWire BlockData
begin

text \<open>
  What the wire protocol delivers: codec round trips, the contract a block store gives the receiver,
  push, fetch and prompt exchanges end to end, batches in order, and the pool as such a store.
\<close>

section \<open>Codec\<close>

lemma length_serialize [simp]: "length (serialize h) = HEADER_SIZE"
  by (simp add: serialize_def HEADER_SIZE_def)

lemma take_serialize [simp]: "take HEADER_SIZE (serialize h @ rest) = serialize h"
  "drop HEADER_SIZE (serialize h @ rest) = rest"
  by simp_all

lemma deserialize_serialize [simp]: "deserialize (serialize h) = Some h"
  by (simp add: deserialize_def HEADER_SIZE_def serialize_def slice_def)

lemma deserialize_None_iff: "deserialize buf = None \<longleftrightarrow> length buf < HEADER_SIZE"
  by (simp add: deserialize_def)

lemma foldl_checksum_concat:
  "foldl (\<lambda>hash f. foldl checksum_step hash (le_bytes 4 f)) h fs = foldl checksum_step h (encode_f32s fs)"
  by (induction fs arbitrary: h) (simp_all add: encode_f32s_def)

lemma compute_checksum_eq: "compute_checksum k v = compute_checksum_bytes (encode_f32s (k @ v))"
  by (simp add: compute_checksum_def compute_checksum_bytes_def foldl_checksum_concat)

text \<open>A layer index within the cap carries no flag bit.\<close>

lemma low_bits:
  assumes "l \<le> MAX_WIRE_LAYER_IDX"
  shows "l AND FETCH_REQUEST_FLAG = 0" and "l AND PROMPT_FLAG = 0"
proof -
  have "unat l \<le> 4096" using assms by (simp add: MAX_WIRE_LAYER_IDX_def word_le_nat_alt)
  then have "take_bit 13 (unat l) = unat l" by (intro take_bit_nat_eq_self) simp
  then have t: "take_bit 13 l = l" by (simp add: word_unat_eq_iff unsigned_take_bit_eq)
  have f: "take_bit 13 FETCH_REQUEST_FLAG = 0" "take_bit 13 PROMPT_FLAG = 0"
    by (simp_all add: FETCH_REQUEST_FLAG_def PROMPT_FLAG_def)
  have "l AND w = 0" if "take_bit 13 w = 0" for w :: u32
  proof -
    have "l AND w = take_bit 13 l AND w" by (simp add: t)
    also have "\<dots> = l AND take_bit 13 w" by (simp add: bit_eq_iff bit_simps) auto
    finally show ?thesis by (simp add: that)
  qed
  with f show "l AND FETCH_REQUEST_FLAG = 0" "l AND PROMPT_FLAG = 0" by simp_all
qed

lemma unat_word_of_nat_u32: "n \<le> u32_max \<Longrightarrow> unat (word_of_nat n :: u32) = n"
  by (simp add: unat_of_nat u32_max_def)

lemma unat_word_of_nat_u64: "n < 2 ^ 64 \<Longrightarrow> unat (word_of_nat n :: u64) = n"
  by (simp add: unat_of_nat)

text \<open>The header of a block message and of an acknowledgement.\<close>

definition push_header :: "nat \<Rightarrow> u32 \<Rightarrow> f32 list \<Rightarrow> f32 list \<Rightarrow> nat \<Rightarrow> kv_header" where
  "push_header b l k v n = \<lparr>hd_magic = KV_MAGIC, hd_version = KV_PROTOCOL_VERSION,
     hd_block_id = word_of_nat b, hd_layer_idx = l, hd_num_elements = word_of_nat (length k),
     hd_checksum = compute_checksum k v, hd_num_tokens = word_of_nat n\<rparr>"

lemma encode_block_message_Ok:
  "encode_block_message b l k v n = Ok msg \<longleftrightarrow>
     length k = length v \<and> k \<noteq> [] \<and> length k \<le> u32_max \<and> n \<le> u32_max \<and> l \<le> MAX_WIRE_LAYER_IDX
     \<and> msg = serialize (push_header b l k v n) @ encode_f32s (k @ v)"
  by (auto simp: encode_block_message_def push_header_def not_less)

lemma verify_push_header [simp]: "verify (push_header b l k v n)"
  by (simp add: verify_def push_header_def)

lemma read_ack_ack_bytes:
  "read_ack (ack_bytes h ok c @ rest) (hd_block_id h) (hd_layer_idx h)
    = (if ok then Ok rest else Err AckRejected)"
  by (simp add: read_ack_def ack_bytes_def verify_def ACK_OK_def)

section \<open>The contract of a block store\<close>

text \<open>
  \<open>fits\<close> says which payload sizes a layer takes. A write that is in range and fits succeeds, is read
  back as a prefix of the layer, and disturbs neither the geometry nor the other half of the block;
  a write that does not succeed changes nothing; no write panics.
\<close>

locale block_receiver =
  fixes S :: "'s kv_store"
    and inv :: "'s \<Rightarrow> bool"
    and fits :: "'s \<Rightarrow> u32 \<Rightarrow> nat \<Rightarrow> bool"
  assumes blocks_bound: "inv s \<Longrightarrow> ks_num_blocks S s < 2 ^ 64"
    and keys_ok: "inv s \<Longrightarrow> b < ks_num_blocks S s \<Longrightarrow> fits s l (length k) \<Longrightarrow>
      \<exists>s' buf. ks_try_write_layer_keys S s b l k n = (Ok (), s') \<and> inv s'
        \<and> ks_num_blocks S s' = ks_num_blocks S s \<and> ks_elem_per_token S s' = ks_elem_per_token S s
        \<and> (\<forall>l' m. fits s' l' m = fits s l' m)
        \<and> ks_read_layer_keys S s' b l = Some buf \<and> take (length k) buf = k"
    and values_ok: "inv s \<Longrightarrow> b < ks_num_blocks S s \<Longrightarrow> fits s l (length v) \<Longrightarrow>
      \<exists>s' buf. ks_try_write_layer_values S s b l v = (Ok (), s') \<and> inv s'
        \<and> ks_num_blocks S s' = ks_num_blocks S s \<and> ks_elem_per_token S s' = ks_elem_per_token S s
        \<and> (\<forall>l' m. fits s' l' m = fits s l' m)
        \<and> ks_read_layer_values S s' b l = Some buf \<and> take (length v) buf = v
        \<and> ks_read_layer_keys S s' = ks_read_layer_keys S s"
    and keys_err: "inv s \<Longrightarrow> b < ks_num_blocks S s \<Longrightarrow> \<not> fits s l (length k) \<Longrightarrow>
      \<exists>err. ks_try_write_layer_keys S s b l k n = (Err err, s)"
begin

text \<open>What a stored payload leaves behind.\<close>

lemma store_ok:
  assumes s: "inv s" and len: "length k = length v" and bound: "length k \<le> u32_max"
    and b: "b < ks_num_blocks S s" and e: "0 < ks_elem_per_token S s" and fit: "fits s l (length k)"
  shows "\<exists>c s' kb vb. store_push_payload S s (push_header b l k v n) (encode_f32s (k @ v)) = (Ok c, s')
    \<and> inv s' \<and> c \<le> length k div ks_elem_per_token S s
    \<and> ks_num_blocks S s' = ks_num_blocks S s \<and> ks_elem_per_token S s' = ks_elem_per_token S s
    \<and> (\<forall>l' m. fits s' l' m = fits s l' m)
    \<and> ks_read_layer_keys S s' b l = Some kb \<and> take (length k) kb = k
    \<and> ks_read_layer_values S s' b l = Some vb \<and> take (length v) vb = v"
proof -
  let ?h = "push_header b l k v n"
  let ?d = "min (length k div ks_elem_per_token S s) (ks_block_size S s)"
  let ?c = "if hd_num_tokens ?h > 0 then min (unat (hd_num_tokens ?h)) ?d else ?d"
  have ids: "unat (hd_block_id ?h) = b" "unat (hd_num_elements ?h) = length k" "hd_layer_idx ?h = l"
    using b blocks_bound [OF s] bound
    by (simp_all add: push_header_def unat_word_of_nat_u32 unat_word_of_nat_u64)
  have parse: "parse_f32_slice (take (length k * 4) (encode_f32s (k @ v))) = k"
    "parse_f32_slice (drop (length k * 4) (encode_f32s (k @ v))) = v"
    by (simp_all add: encode_f32s_append parse_encode_f32s mult.commute)
  have sum: "compute_checksum_bytes (encode_f32s (k @ v)) = hd_checksum ?h"
    by (simp add: push_header_def compute_checksum_eq)
  obtain s1 kb where s1: "ks_try_write_layer_keys S s b l k ?c = (Ok (), s1)" "inv s1"
    "ks_num_blocks S s1 = ks_num_blocks S s" "ks_elem_per_token S s1 = ks_elem_per_token S s"
    "\<forall>l' m. fits s1 l' m = fits s l' m"
    "ks_read_layer_keys S s1 b l = Some kb" "take (length k) kb = k"
    using keys_ok [OF s b fit] by blast
  have b1: "b < ks_num_blocks S s1" and fit1: "fits s1 l (length v)" using s1 b fit len by auto
  obtain s2 vb where s2: "ks_try_write_layer_values S s1 b l v = (Ok (), s2)" "inv s2"
    "ks_num_blocks S s2 = ks_num_blocks S s1" "ks_elem_per_token S s2 = ks_elem_per_token S s1"
    "\<forall>l' m. fits s2 l' m = fits s1 l' m"
    "ks_read_layer_values S s2 b l = Some vb" "take (length v) vb = v"
    "ks_read_layer_keys S s2 = ks_read_layer_keys S s1"
    using values_ok [OF s1(2) b1 fit1] by blast
  have "store_push_payload S s ?h (encode_f32s (k @ v)) = (Ok ?c, s2)"
    using sum e b s1(1) s2(1)
    by (simp add: store_push_payload_def ids parse Let_def)
  moreover have "?c \<le> length k div ks_elem_per_token S s" by auto
  ultimately show ?thesis using s1 s2 by (intro exI [of _ ?c] exI [of _ s2]) auto
qed

text \<open>
  One push: the receiver consumes exactly the message, acknowledges it with what it committed, and
  the block reads back the payload.
\<close>

lemma push_served:
  assumes s: "inv (rv_store r)" and msg: "encode_block_message b l k v n = Ok msg"
    and size: "length k \<le> MAX_PUSH_ELEMENTS"
    and b: "b < ks_num_blocks S (rv_store r)" and e: "0 < ks_elem_per_token S (rv_store r)"
    and fit: "fits (rv_store r) l (length k)"
  shows "\<exists>ack s' kb vb. serve_step S (msg @ rest) r = Next rest ack (r\<lparr>rv_store := s'\<rparr>)
    \<and> (\<forall>tail. read_ack (ack @ tail) (word_of_nat b) l = Ok tail) \<and> inv s'
    \<and> ks_num_blocks S s' = ks_num_blocks S (rv_store r)
    \<and> ks_elem_per_token S s' = ks_elem_per_token S (rv_store r)
    \<and> (\<forall>l' m. fits s' l' m = fits (rv_store r) l' m)
    \<and> ks_read_layer_keys S s' b l = Some kb \<and> take (length k) kb = k
    \<and> ks_read_layer_values S s' b l = Some vb \<and> take (length v) vb = v"
proof -
  let ?h = "push_header b l k v n"
  have m: "length k = length v" "length k \<le> u32_max" "l \<le> MAX_WIRE_LAYER_IDX"
    "msg = serialize ?h @ encode_f32s (k @ v)"
    using msg by (auto simp: encode_block_message_Ok)
  have n: "unat (hd_num_elements ?h) = length k" "hd_layer_idx ?h = l" "hd_block_id ?h = word_of_nat b"
    using m(2) by (simp_all add: push_header_def unat_word_of_nat_u32)
  have pay: "take (length k * 8) (encode_f32s (k @ v) @ rest) = encode_f32s (k @ v)"
    "drop (length k * 8) (encode_f32s (k @ v) @ rest) = rest"
    "\<not> length (encode_f32s (k @ v) @ rest) < length k * 8" using m(1) by simp_all
  obtain c s' kb vb where st: "store_push_payload S (rv_store r) ?h (encode_f32s (k @ v)) = (Ok c, s')"
    "inv s'" "ks_num_blocks S s' = ks_num_blocks S (rv_store r)"
    "ks_elem_per_token S s' = ks_elem_per_token S (rv_store r)"
    "\<forall>l' m. fits s' l' m = fits (rv_store r) l' m"
    "ks_read_layer_keys S s' b l = Some kb" "take (length k) kb = k"
    "ks_read_layer_values S s' b l = Some vb" "take (length v) vb = v"
    using store_ok [OF s m(1,2) b e fit] by blast
  have "serve_step S (msg @ rest) r = serve_push S ?h (encode_f32s (k @ v) @ rest) r"
    using low_bits [OF m(3)] by (simp add: serve_step_def m(4) n)
  also have "\<dots> = Next rest (ack_bytes ?h True (word_of_nat c)) (r\<lparr>rv_store := s'\<rparr>)"
    using m(3) size st(1) pay by (simp add: serve_push_def n not_less Let_def)
  finally have step: "serve_step S (msg @ rest) r
    = Next rest (ack_bytes ?h True (word_of_nat c)) (r\<lparr>rv_store := s'\<rparr>)" .
  have ack: "read_ack (ack_bytes ?h True (word_of_nat c) @ tail) (word_of_nat b) l = Ok tail" for tail
    using read_ack_ack_bytes [of ?h True "word_of_nat c" tail] by (simp add: n)
  show ?thesis
    using step ack st by (intro exI [of _ "ack_bytes ?h True (word_of_nat c)"] exI [of _ s'] exI [of _ kb] exI [of _ vb]) simp
qed

text \<open>A batch on one connection: every message is acknowledged, in the order sent.\<close>

lemma batch_served:
  assumes "inv (rv_store r)" and "0 < ks_elem_per_token S (rv_store r)"
    and "list_all2 (\<lambda>(b, l, k, v, n) msg. encode_block_message b l k v n = Ok msg
      \<and> length k \<le> MAX_PUSH_ELEMENTS \<and> b < ks_num_blocks S (rv_store r)
      \<and> fits (rv_store r) l (length k)) items msgs"
  shows "case serve S (concat msgs) r of (out, r') \<Rightarrow>
    read_acks out (map (\<lambda>(b, l, _). (word_of_nat b, l)) items) = Ok [] \<and> inv (rv_store r')"
  using assms
proof (induction msgs arbitrary: items r)
  case Nil
  then show ?case by (simp add: serve.simps [of S "[]"] serve_step_def HEADER_SIZE_def)
next
  case (Cons msg msgs)
  then obtain b l k v n items' where it: "items = (b, l, k, v, n) # items'"
    by (cases items) auto
  have one: "encode_block_message b l k v n = Ok msg" "length k \<le> MAX_PUSH_ELEMENTS"
    "b < ks_num_blocks S (rv_store r)" "fits (rv_store r) l (length k)"
    using Cons.prems(3) by (auto simp: it)
  obtain ack s' where st: "serve_step S (msg @ concat msgs) r = Next (concat msgs) ack (r\<lparr>rv_store := s'\<rparr>)"
    "\<forall>tail. read_ack (ack @ tail) (word_of_nat b) l = Ok tail" "inv s'"
    "ks_num_blocks S s' = ks_num_blocks S (rv_store r)"
    "ks_elem_per_token S s' = ks_elem_per_token S (rv_store r)"
    "\<forall>l' m. fits s' l' m = fits (rv_store r) l' m"
    using push_served [OF Cons.prems(1) one(1,2,3) Cons.prems(2) one(4), of "concat msgs"] by blast
  have "case serve S (concat msgs) (r\<lparr>rv_store := s'\<rparr>) of (out, r') \<Rightarrow>
    read_acks out (map (\<lambda>(b, l, _). (word_of_nat b, l)) items') = Ok [] \<and> inv (rv_store r')"
    using Cons.prems(2,3) st(3-6) by (intro Cons.IH) (simp_all add: it)
  then show ?case
    using st(1,2) by (simp add: serve.simps [of S "msg @ concat msgs"] it split: prod.splits)
qed

text \<open>A push the store has no room for is refused and changes nothing.\<close>

lemma push_refused:
  assumes s: "inv (rv_store r)" and msg: "encode_block_message b l k v n = Ok msg"
    and size: "length k \<le> MAX_PUSH_ELEMENTS" and b64: "b < 2 ^ 64"
    and no: "b \<ge> ks_num_blocks S (rv_store r) \<or> ks_elem_per_token S (rv_store r) = 0
      \<or> \<not> fits (rv_store r) l (length k)"
  shows "\<exists>ack. serve_step S (msg @ rest) r = Next rest ack r
    \<and> read_ack (ack @ tail) (word_of_nat b) l = Err AckRejected"
proof -
  let ?h = "push_header b l k v n"
  have m: "length k = length v" "length k \<le> u32_max" "l \<le> MAX_WIRE_LAYER_IDX"
    "msg = serialize ?h @ encode_f32s (k @ v)"
    using msg by (auto simp: encode_block_message_Ok)
  have n: "unat (hd_num_elements ?h) = length k" "hd_layer_idx ?h = l" "hd_block_id ?h = word_of_nat b"
    "unat (hd_block_id ?h) = b"
    using m(2) b64 by (simp_all add: push_header_def unat_word_of_nat_u32 unat_word_of_nat_u64)
  have parse: "parse_f32_slice (take (length k * 4) (encode_f32s (k @ v))) = k"
    by (simp add: encode_f32s_append parse_encode_f32s mult.commute)
  have pay: "take (length k * 8) (encode_f32s (k @ v) @ rest) = encode_f32s (k @ v)"
    "drop (length k * 8) (encode_f32s (k @ v) @ rest) = rest"
    "\<not> length (encode_f32s (k @ v) @ rest) < length k * 8" using m(1) by simp_all
  have err: "\<exists>err. ks_try_write_layer_keys S (rv_store r) b l k c = (Err err, rv_store r)"
    if "b < ks_num_blocks S (rv_store r)" "\<not> fits (rv_store r) l (length k)" for c
    by (rule keys_err [OF s that])
  have "store_push_payload S (rv_store r) ?h (encode_f32s (k @ v)) = (Err (), rv_store r)"
  proof (cases "b < ks_num_blocks S (rv_store r) \<and> ks_elem_per_token S (rv_store r) \<noteq> 0")
    case True
    with no have nf: "\<not> fits (rv_store r) l (length k)" by auto
    let ?d = "min (length k div ks_elem_per_token S (rv_store r)) (ks_block_size S (rv_store r))"
    let ?c = "if hd_num_tokens ?h > 0 then min (unat (hd_num_tokens ?h)) ?d else ?d"
    obtain err where "ks_try_write_layer_keys S (rv_store r) b l k ?c = (Err err, rv_store r)"
      using err nf True by blast
    then show ?thesis using True by (simp add: store_push_payload_def n(1,2,4) parse Let_def)
  next
    case False
    then show ?thesis by (auto simp: store_push_payload_def n(1,2,4) Let_def)
  qed
  then have "serve_step S (msg @ rest) r = Next rest (ack_bytes ?h False 0) r"
    using low_bits [OF m(3)] m(3) size pay
    by (simp add: serve_step_def m(4) n(1,2) serve_push_def not_less Let_def)
  moreover have "read_ack (ack_bytes ?h False 0 @ tail) (word_of_nat b) l = Err AckRejected"
    using read_ack_ack_bytes [of ?h False 0 tail] by (simp add: n)
  ultimately show ?thesis by blast
qed

end

section \<open>The block pool as a store\<close>

definition pool_kv_store :: "kv_block_pool kv_store" where
  "pool_kv_store = \<lparr>ks_num_blocks = (\<lambda>p. cap p), ks_elem_per_token = kp_elem,
     ks_block_size = (\<lambda>_. BLOCK_SIZE), ks_is_received = block_is_received,
     ks_block_num_tokens = block_num_tokens,
     ks_read_layer_keys = (\<lambda>p b l. read_layer_keys p b (unat l)),
     ks_read_layer_values = (\<lambda>p b l. read_layer_values p b (unat l)),
     ks_try_write_layer_keys = (\<lambda>p b l k n. try_write_layer_keys p b (unat l) k n),
     ks_try_write_layer_values = (\<lambda>p b l v. try_write_layer_values p b (unat l) v)\<rparr>"

definition receiver_inv :: "kv_block_pool \<Rightarrow> bool" where
  "receiver_inv p \<longleftrightarrow> layers_sized p \<and> cap p < 2 ^ 64"

definition pool_fits :: "kv_block_pool \<Rightarrow> u32 \<Rightarrow> nat \<Rightarrow> bool" where
  "pool_fits p l n \<longleftrightarrow> n \<le> layer_elem p (unat l)"

interpretation pool_receiver: block_receiver pool_kv_store receiver_inv pool_fits
proof unfold_locales
  fix p :: kv_block_pool and b l k n
  assume inv: "receiver_inv p"
  have sized: "layers_sized p" using inv by (simp add: receiver_inv_def)
  show "ks_num_blocks pool_kv_store p < 2 ^ 64" using inv by (simp add: pool_kv_store_def receiver_inv_def)
  show "\<exists>s' buf. ks_try_write_layer_keys pool_kv_store p b l k n = (Ok (), s') \<and> receiver_inv s'
      \<and> ks_num_blocks pool_kv_store s' = ks_num_blocks pool_kv_store p
      \<and> ks_elem_per_token pool_kv_store s' = ks_elem_per_token pool_kv_store p
      \<and> (\<forall>l' m. pool_fits s' l' m = pool_fits p l' m)
      \<and> ks_read_layer_keys pool_kv_store s' b l = Some buf \<and> take (length k) buf = k"
    if b: "b < ks_num_blocks pool_kv_store p" and fit: "pool_fits p l (length k)"
  proof -
    have len: "length k \<le> layer_elem p (unat l)" and bc: "b < cap p"
      using b fit by (simp_all add: pool_fits_def pool_kv_store_def)
    obtain p' where p': "try_write_layer_keys p b (unat l) k n = (Ok (), p')" "layers_sized p'" "cap p' = cap p"
      using write_layer_keys_total [OF sized bc len] by blast
    note g = write_layer_keys_geometry [OF p'(1)]
    obtain buf where "read_layer_keys p' b (unat l) = Some buf" "take (length k) buf = k"
      using write_layer_keys_read(1) [OF p'(1)] by blast
    moreover have "layer_elem p' x = layer_elem p x" for x by (rule layer_elem_cong) (use g in auto)
    ultimately show ?thesis
      using p' g inv by (simp add: pool_kv_store_def pool_fits_def receiver_inv_def kp_elem_def)
  qed
  show "\<exists>err. ks_try_write_layer_keys pool_kv_store p b l k n = (Err err, p)"
    if "b < ks_num_blocks pool_kv_store p" "\<not> pool_fits p l (length k)"
    using that by (simp add: pool_kv_store_def pool_fits_def try_write_layer_keys_def)
next
  fix p :: kv_block_pool and b l and v :: "f32 list"
  assume inv: "receiver_inv p" and b: "b < ks_num_blocks pool_kv_store p" and fit: "pool_fits p l (length v)"
  have sized: "layers_sized p" using inv by (simp add: receiver_inv_def)
  have len: "length v \<le> layer_elem p (unat l)" and bc: "b < cap p"
    using b fit by (simp_all add: pool_fits_def pool_kv_store_def)
  obtain p' where p': "try_write_layer_values p b (unat l) v = (Ok (), p')" "layers_sized p'" "cap p' = cap p"
    using write_layer_values_total [OF sized bc len] by blast
  note g = write_layer_values_geometry [OF p'(1)]
  obtain buf where "read_layer_values p' b (unat l) = Some buf" "take (length v) buf = v"
    using write_layer_values_read(1) [OF p'(1)] by blast
  moreover have "layer_elem p' x = layer_elem p x" for x by (rule layer_elem_cong) (use g in auto)
  ultimately show "\<exists>s' buf. ks_try_write_layer_values pool_kv_store p b l v = (Ok (), s') \<and> receiver_inv s'
      \<and> ks_num_blocks pool_kv_store s' = ks_num_blocks pool_kv_store p
      \<and> ks_elem_per_token pool_kv_store s' = ks_elem_per_token pool_kv_store p
      \<and> (\<forall>l' m. pool_fits s' l' m = pool_fits p l' m)
      \<and> ks_read_layer_values pool_kv_store s' b l = Some buf \<and> take (length v) buf = v
      \<and> ks_read_layer_keys pool_kv_store s' = ks_read_layer_keys pool_kv_store p"
    using p' g inv
    by (simp add: pool_kv_store_def pool_fits_def receiver_inv_def kp_elem_def
        write_layer_values_keys [OF p'(1)])
qed

section \<open>Corruption\<close>

text \<open>
  Each checksum step is injective in the running hash and in the byte, so a payload that differs
  from the checksummed one in a single byte never passes.
\<close>

lemma fnv_prime_inverse: "(x * 0x01000193) * 0x359C449B = (x :: u32)"
proof -
  have "(0x01000193 :: u32) * 0x359C449B = 1" by simp
  then show ?thesis by (simp only: mult.assoc mult_1_right)
qed

lemma checksum_step_hash_inj: "checksum_step h b = checksum_step h' b \<Longrightarrow> h = h'"
proof -
  assume "checksum_step h b = checksum_step h' b"
  then have "((h XOR ucast b) * 0x01000193) * 0x359C449B = ((h' XOR ucast b) * 0x01000193) * 0x359C449B"
    by (simp add: checksum_step_def)
  then have "h XOR ucast b = h' XOR ucast b" by (simp only: fnv_prime_inverse)
  then have "(h XOR ucast b) XOR ucast b = (h' XOR ucast b) XOR ucast b" by simp
  then show ?thesis by (simp add: xor.assoc)
qed

lemma checksum_step_byte_inj: "checksum_step h a = checksum_step h b \<Longrightarrow> a = b"
proof -
  assume "checksum_step h a = checksum_step h b"
  then have "((h XOR ucast a) * 0x01000193) * 0x359C449B = ((h XOR ucast b) * 0x01000193) * 0x359C449B"
    by (simp add: checksum_step_def)
  then have "h XOR ucast a = h XOR (ucast b :: u32)" by (simp only: fnv_prime_inverse)
  then have "h XOR (h XOR ucast a) = h XOR (h XOR (ucast b :: u32))" by simp
  then have "(ucast a :: u32) = ucast b" by (simp flip: xor.assoc)
  note eq = this
  show ?thesis
  proof (rule bit_word_eqI)
    fix n assume n: "n < LENGTH(8)"
    have "bit (ucast a :: u32) n = bit (ucast b :: u32) n" by (simp only: eq)
    then show "bit a n = bit b n" using n by (simp add: bit_simps)
  qed
qed

lemma foldl_checksum_inj: "foldl checksum_step h bs = foldl checksum_step h' bs \<Longrightarrow> h = h'"
  by (induction bs arbitrary: h h') (auto dest: checksum_step_hash_inj)

lemma checksum_single_byte:
  "compute_checksum_bytes (xs @ a # ys) = compute_checksum_bytes (xs @ b # ys) \<longleftrightarrow> a = b"
  by (auto simp: compute_checksum_bytes_def dest!: foldl_checksum_inj dest: checksum_step_byte_inj)

lemma push_corrupted:
  assumes "deserialize (take HEADER_SIZE input) = Some h" and "HEADER_SIZE \<le> length input" and "verify h"
    and "hd_layer_idx h \<le> MAX_WIRE_LAYER_IDX" and "unat (hd_num_elements h) \<le> MAX_PUSH_ELEMENTS"
    and "drop HEADER_SIZE input = payload @ rest" and "length payload = unat (hd_num_elements h) * 8"
    and "compute_checksum_bytes payload \<noteq> hd_checksum h"
  shows "serve_step S input r = Next rest (ack_bytes h False 0) r"
  using assms low_bits [OF assms(4)]
  by (simp add: serve_step_def serve_push_def store_push_payload_def not_less Let_def)

section \<open>Fetching\<close>

lemma flag_simps [simp]:
  "((l AND NOT FETCH_REQUEST_FLAG) OR FETCH_REQUEST_FLAG) AND FETCH_REQUEST_FLAG = FETCH_REQUEST_FLAG"
  "((l AND NOT FETCH_REQUEST_FLAG) OR FETCH_REQUEST_FLAG) AND NOT FETCH_REQUEST_FLAG
    = l AND NOT FETCH_REQUEST_FLAG"
  "(l OR FETCH_REQUEST_FLAG) AND FETCH_REQUEST_FLAG = FETCH_REQUEST_FLAG"
  "(l OR FETCH_REQUEST_FLAG) AND NOT FETCH_REQUEST_FLAG = l AND NOT FETCH_REQUEST_FLAG"
  by (simp_all add: bit_eq_iff bit_simps) blast+

lemma layer_no_flag: "l \<le> MAX_WIRE_LAYER_IDX \<Longrightarrow> l AND NOT FETCH_REQUEST_FLAG = l"
proof -
  assume l: "l \<le> MAX_WIRE_LAYER_IDX"
  have "l = (l AND NOT FETCH_REQUEST_FLAG) OR (l AND FETCH_REQUEST_FLAG)"
    by (simp add: bit_eq_iff bit_simps) blast
  with low_bits(1) [OF l] show ?thesis by simp
qed

text \<open>
  A fetch leaves the receiver as it is, and the client decodes exactly what the store answered.
\<close>

lemma fetch_served:
  assumes req: "fetch_request b l m = Ok msg" and l: "l \<le> MAX_WIRE_LAYER_IDX" and b: "b < 2 ^ 64"
    and ans: "fetch_answer S (rv_store r) b l = (k, v, stored)" and ne: "k \<noteq> []"
    and size: "length k * 8 \<le> MAX_PAYLOAD_BYTES"
  shows "\<exists>reply. serve_step S (msg @ rest) r = Next rest reply r \<and> fetch_reply reply = Ok (k, v, stored)"
proof -
  let ?req = "\<lparr>hd_magic = KV_MAGIC, hd_version = KV_PROTOCOL_VERSION, hd_block_id = word_of_nat b,
     hd_layer_idx = (l AND NOT FETCH_REQUEST_FLAG) OR FETCH_REQUEST_FLAG,
     hd_num_elements = word_of_nat m, hd_checksum = 0, hd_num_tokens = 0\<rparr>"
  let ?rep = "\<lparr>hd_magic = KV_MAGIC, hd_version = KV_PROTOCOL_VERSION, hd_block_id = word_of_nat b,
     hd_layer_idx = l, hd_num_elements = word_of_nat (length k), hd_checksum = compute_checksum k v,
     hd_num_tokens = word_of_nat stored\<rparr>"
  let ?reply = "serialize ?rep @ encode_f32s (k @ v)"
  have msg: "msg = serialize ?req" using req by (simp add: fetch_request_def split: if_splits)
  have lens: "length k = length v" and st: "stored \<le> length k"
    using ans ne by (auto simp: fetch_answer_def Let_def min_le_iff_disj div_le_dividend
        split: if_splits option.splits)
  have F: "FETCH_REQUEST_FLAG \<noteq> 0" by (simp add: FETCH_REQUEST_FLAG_def)
  have "serve_step S (msg @ rest) r = Next rest ?reply r"
    using F ans b l
    by (simp add: msg serve_step_def verify_def serve_fetch_def layer_no_flag unat_word_of_nat_u64 Let_def)
  moreover have "fetch_reply ?reply = Ok (k, v, stored)"
  proof -
    have small: "length k \<le> u32_max" using size by (simp add: MAX_PAYLOAD_BYTES_def u32_max_def)
    have n: "unat (word_of_nat (length k) :: u32) = length k" "unat (word_of_nat stored :: u32) = stored"
      using small st by (simp_all add: unat_word_of_nat_u32)
    have "(word_of_nat (length k) :: u32) \<noteq> 0"
    proof
      assume "(word_of_nat (length k) :: u32) = 0"
      then have "unat (word_of_nat (length k) :: u32) = 0" by simp
      with n(1) ne show False by simp
    qed
    moreover have "unat (min (word_of_nat stored :: u32) (word_of_nat (length k))) = stored"
      using st n by (simp add: min_def word_le_nat_alt)
    moreover have "take (length k * 8) (encode_f32s (k @ v)) = encode_f32s (k @ v)" using lens by simp
    moreover have "parse_f32_slice (take (length k * 4) (encode_f32s (k @ v))) = k"
      "parse_f32_slice (drop (length k * 4) (encode_f32s (k @ v))) = v"
      by (simp_all add: encode_f32s_append parse_encode_f32s mult.commute)
    ultimately show ?thesis
      using size lens [symmetric] by (simp add: fetch_reply_def verify_def n compute_checksum_eq Let_def)
  qed
  ultimately show ?thesis by blast
qed

section \<open>Prompts\<close>

lemma prompt_flag_simps [simp]:
  "PROMPT_FLAG AND FETCH_REQUEST_FLAG = 0" "PROMPT_FLAG \<noteq> 0"
  by (simp_all add: PROMPT_FLAG_def FETCH_REQUEST_FLAG_def)

lemma prompt_served:
  assumes "encode_prompt_message req toks = Ok msg"
  shows "\<exists>ack r'. serve_step S (msg @ rest) r = Next rest ack r' \<and> rv_store r' = rv_store r
    \<and> read_ack (ack @ tail) req PROMPT_FLAG = Ok tail
    \<and> fst (prompt_take (rv_prompts r') req) = Some toks"
proof -
  let ?pay = "encode_f32s toks"
  let ?h = "\<lparr>hd_magic = KV_MAGIC, hd_version = KV_PROTOCOL_VERSION, hd_block_id = req,
     hd_layer_idx = PROMPT_FLAG, hd_num_elements = word_of_nat (length toks),
     hd_checksum = compute_checksum_bytes ?pay, hd_num_tokens = word_of_nat (length toks)\<rparr>"
  have m: "toks \<noteq> []" "length toks \<le> MAX_PROMPT_TOKENS" "length toks \<le> u32_max" "msg = serialize ?h @ ?pay"
    using assms by (auto simp: encode_prompt_message_def Let_def split: if_splits)
  have n: "unat (word_of_nat (length toks) :: u32) = length toks" using m(3) by (simp add: unat_word_of_nat_u32)
  have pay: "take (length toks * 4) (?pay @ rest) = ?pay" "drop (length toks * 4) (?pay @ rest) = rest"
    by simp_all
  let ?r = "r\<lparr>rv_prompts := prompt_store (rv_prompts r) req toks\<rparr>"
  have "serve_step S (msg @ rest) r = Next rest (ack_bytes ?h True (word_of_nat (length toks))) ?r"
    using m(2) pay
    by (simp add: m(4) serve_step_def verify_def serve_prompt_def n not_less Let_def parse_encode_f32s)
  moreover have "read_ack (ack_bytes ?h True c @ tail) req PROMPT_FLAG = Ok tail" for c
    using read_ack_ack_bytes [of ?h True c tail] by simp
  moreover have "fst (prompt_take (rv_prompts ?r) req) = Some toks"
    by (simp add: prompt_take_def prompt_store_def map_of_update_eq)
  ultimately show ?thesis by (intro exI [of _ "ack_bytes ?h True (word_of_nat (length toks))"] exI [of _ ?r]) simp
qed

text \<open>The channel never holds more prompts than its bound, and storing keeps all but one of the others.\<close>

lemma prompt_store_bound:
  assumes "length ch \<le> MAX_PENDING_PROMPTS" and "distinct (map fst ch)"
  shows "length (prompt_store ch q toks) \<le> MAX_PENDING_PROMPTS"
    and "distinct (map fst (prompt_store ch q toks))"
    and "length ch < MAX_PENDING_PROMPTS \<or> prompt_contains ch q \<Longrightarrow> i \<noteq> q
      \<Longrightarrow> fst (prompt_take (prompt_store ch q toks) i) = fst (prompt_take ch i)"
proof -
  show "distinct (map fst (prompt_store ch q toks))"
    using assms(2) by (auto simp: prompt_store_def alist_simps split: list.splits)
  show "fst (prompt_take (prompt_store ch q toks) i) = fst (prompt_take ch i)"
    if "length ch < MAX_PENDING_PROMPTS \<or> prompt_contains ch q" "i \<noteq> q"
    using that by (auto simp: prompt_store_def prompt_take_def prompt_contains_def map_of_update_eq)
  show "length (prompt_store ch q toks) \<le> MAX_PENDING_PROMPTS"
  proof (cases "map_of ch q")
    case Some
    then have "q \<in> fst ` set ch" by (force dest: map_of_SomeD)
    then show ?thesis using assms(1) Some by (simp add: prompt_store_def length_update_old)
  next
    case None
    then have q: "q \<notin> fst ` set ch" by (simp add: map_of_eq_None_iff)
    show ?thesis
    proof (cases "length ch \<ge> MAX_PENDING_PROMPTS")
      case False
      then show ?thesis using None q by (simp add: prompt_store_def length_update_new)
    next
      case True
      then obtain w u rest where ch: "ch = (w, u) # rest" by (cases ch) (auto simp: MAX_PENDING_PROMPTS_def)
      have "length (AList.delete w ch) < length ch" by (rule length_delete_less) (simp add: ch)
      moreover have "q \<notin> fst ` set (AList.delete w ch)" using q by (simp add: keys_delete)
      ultimately show ?thesis
        using True None assms(1) length_update_new [of q "AList.delete w ch" toks]
        by (simp add: prompt_store_def ch)
    qed
  qed
qed

text \<open>
  A prompt over the cap is refused, but its payload stays on the stream: the next turn of the loop
  reads the payload as a header.
\<close>

lemma oversized_prompt_desync:
  assumes "verify h" and "hd_layer_idx h = PROMPT_FLAG" and "unat (hd_num_elements h) > MAX_PROMPT_TOKENS"
  shows "serve_step S (serialize h @ payload) r = Next payload (ack_bytes h False 0) r"
  using assms by (simp add: serve_step_def serve_prompt_def)

section \<open>The two wire paths\<close>

text \<open>
  A push message means the same over the shared-memory inbox and over TCP: consumed exactly when
  acknowledged, with the same resulting store.
\<close>

lemma shm_agrees_with_tcp:
  assumes "deserialize (take HEADER_SIZE bytes) = Some h" and "verify h"
    and "hd_layer_idx h \<le> MAX_WIRE_LAYER_IDX" and "unat (hd_num_elements h) \<le> MAX_PUSH_ELEMENTS"
    and "length bytes = HEADER_SIZE + unat (hd_num_elements h) * 8"
  shows "case consume_shm_handoff S bytes s of
      (Consumed, s') \<Rightarrow> \<exists>c. serve_step S bytes \<lparr>rv_store = s, rv_prompts = ch\<rparr>
        = Next [] (ack_bytes h True c) \<lparr>rv_store = s', rv_prompts = ch\<rparr>
    | (Quarantined, s') \<Rightarrow> serve_step S bytes \<lparr>rv_store = s, rv_prompts = ch\<rparr>
        = Next [] (ack_bytes h False 0) \<lparr>rv_store = s', rv_prompts = ch\<rparr>
    | (HandoffPanic, s') \<Rightarrow> serve_step S bytes \<lparr>rv_store = s, rv_prompts = ch\<rparr>
        = Died \<lparr>rv_store = s', rv_prompts = ch\<rparr>"
proof -
  note low = low_bits [OF assms(3)]
  have both: "hd_layer_idx h AND (FETCH_REQUEST_FLAG OR PROMPT_FLAG) = 0"
    using low by (simp add: bit.conj_disj_distrib)
  obtain res s' where res: "store_push_payload S s h (drop HEADER_SIZE bytes) = (res, s')"
    by (cases "store_push_payload S s h (drop HEADER_SIZE bytes)")
  have t: "take (unat (hd_num_elements h) * 8) (drop HEADER_SIZE bytes) = drop HEADER_SIZE bytes"
    using assms(5) by simp
  have tcp: "serve_step S bytes r = serve_push S h (drop HEADER_SIZE bytes) r" for r
    using assms(1,2,5) low by (simp add: serve_step_def)
  show ?thesis
    using assms both res t unfolding tcp
    by (cases res) (auto simp: consume_shm_handoff_def serve_push_def not_less Let_def)
qed

end
