(* ===== verification/Readiness.thy ===== *)
theory Readiness
  imports GrimPrelude
begin

text \<open>
  The readiness-driven dispatcher of \<open>crates/grim-scheduler/src/readiness_dispatch.rs\<close>: tasks with
  unsatisfied dependencies, one ready queue per task kind, and the arbitration that pops one task.
  The mutexes guard single operations and are not modelled.
\<close>

section \<open>State\<close>

datatype task_kind = ForwardPrefill | ForwardDecode | MoERouteAndDispatch | ActivationComm | BackwardCompute

record microbatch_task =
  mt_microbatch :: nat
  mt_request :: nat
  mt_stage :: nat
  mt_kind :: task_kind
  mt_priority :: int
  mt_pending :: nat
  mt_epoch :: nat

definition is_ready :: "microbatch_task \<Rightarrow> bool" where
  "is_ready t \<longleftrightarrow> mt_pending t = 0"

record ready_set =
  rs_tasks :: "nat \<times> task_kind \<rightharpoonup> microbatch_task"
  rs_ready :: "task_kind \<Rightarrow> (nat \<times> int \<times> nat) list"

record dispatcher =
  rd_stage :: nat
  rd_set :: ready_set
  rd_hint :: "task_kind list"
  rd_arrivals :: nat

definition default_hint :: "task_kind list" where
  "default_hint = [ForwardDecode, MoERouteAndDispatch, ForwardPrefill, ActivationComm, BackwardCompute]"

definition rd_new :: "nat \<Rightarrow> task_kind list option \<Rightarrow> dispatcher" where
  "rd_new stage hint = \<lparr>rd_stage = stage, rd_set = \<lparr>rs_tasks = Map.empty, rs_ready = (\<lambda>_. [])\<rparr>,
     rd_hint = (case hint of Some h \<Rightarrow> h | None \<Rightarrow> default_hint), rd_arrivals = 0\<rparr>"

section \<open>Operations\<close>

definition rs_push :: "task_kind \<Rightarrow> microbatch_task \<Rightarrow> ready_set \<Rightarrow> ready_set" where
  "rs_push kind t s = s\<lparr>rs_ready := (rs_ready s)(kind := rs_ready s kind @ [(mt_microbatch t, mt_priority t, mt_epoch t)])\<rparr>"

definition rs_insert :: "microbatch_task \<Rightarrow> ready_set \<Rightarrow> ready_set" where
  "rs_insert t s =
     (let s1 = (if is_ready t then rs_push (mt_kind t) t s else s) in
      s1\<lparr>rs_tasks := (rs_tasks s1)((mt_microbatch t, mt_kind t) \<mapsto> t)\<rparr>)"

definition mark_dependency_satisfied :: "nat \<Rightarrow> task_kind \<Rightarrow> ready_set \<Rightarrow> bool \<times> ready_set" where
  "mark_dependency_satisfied mb kind s =
     (case rs_tasks s (mb, kind) of
        None \<Rightarrow> (False, s)
      | Some t \<Rightarrow>
          if mt_pending t > 0 then
            (let t1 = t\<lparr>mt_pending := mt_pending t - 1\<rparr>;
                 s1 = s\<lparr>rs_tasks := (rs_tasks s)((mb, kind) \<mapsto> t1)\<rparr>
             in if mt_pending t1 = 0 then (True, rs_push kind t1 s1) else (False, s1))
          else (False, s))"

text \<open>\<open>ready_count\<close>: the queue lengths summed over the kinds of the ready map.\<close>

definition ready_count :: "task_kind list \<Rightarrow> ready_set \<Rightarrow> nat" where
  "ready_count kinds s = sum_list (map (\<lambda>k. length (rs_ready s k)) kinds)"

definition submit_task :: "nat \<Rightarrow> nat \<Rightarrow> task_kind \<Rightarrow> int \<Rightarrow> nat \<Rightarrow> dispatcher \<Rightarrow> dispatcher" where
  "submit_task mb rid kind prio deps d =
     (let epoch = rd_arrivals d + 1 in
      d\<lparr>rd_arrivals := epoch,
        rd_set := rs_insert \<lparr>mt_microbatch = mb, mt_request = rid, mt_stage = rd_stage d, mt_kind = kind,
                     mt_priority = prio, mt_pending = deps, mt_epoch = epoch\<rparr> (rd_set d)\<rparr>)"

definition on_predecessor_completed :: "nat \<Rightarrow> task_kind \<Rightarrow> dispatcher \<Rightarrow> dispatcher" where
  "on_predecessor_completed mb kind d = d\<lparr>rd_set := snd (mark_dependency_satisfied mb kind (rd_set d))\<rparr>"

text \<open>
  One scan over a list of kinds: of each kind one entry is popped; an entry whose task is gone is
  discarded and the scan goes on with the next kind.
\<close>

fun scan_kinds :: "task_kind list \<Rightarrow> ready_set \<Rightarrow> microbatch_task option \<times> ready_set" where
  "scan_kinds [] s = (None, s)"
| "scan_kinds (k # ks) s =
     (case rs_ready s k of
        [] \<Rightarrow> scan_kinds ks s
      | (mb, _, _) # rest \<Rightarrow>
          (let s1 = s\<lparr>rs_ready := (rs_ready s)(k := rest)\<rparr> in
           case rs_tasks s1 (mb, k) of
             Some t \<Rightarrow> (Some t, s1\<lparr>rs_tasks := (rs_tasks s1)((mb, k) := None)\<rparr>)
           | None \<Rightarrow> scan_kinds ks s1))"

text \<open>
  \<open>arbitrate\<close>: the hinted kinds, then all kinds of the ready map in its iteration order \<open>ks\<close>.
\<close>

definition arbitrate :: "task_kind list \<Rightarrow> dispatcher \<Rightarrow> microbatch_task option \<times> dispatcher" where
  "arbitrate ks d =
     (case scan_kinds (rd_hint d) (rd_set d) of
        (Some t, s) \<Rightarrow> (Some t, d\<lparr>rd_set := s\<rparr>)
      | (None, s) \<Rightarrow> (case scan_kinds ks s of (t, s1) \<Rightarrow> (t, d\<lparr>rd_set := s1\<rparr>)))"

text \<open>\<open>coordinate_tp_selection\<close>: \<open>None\<close> is the divergence error.\<close>

fun coordinate_loop :: "microbatch_task option \<Rightarrow> microbatch_task option list \<Rightarrow> microbatch_task option option" where
  "coordinate_loop elected [] = Some elected"
| "coordinate_loop elected (None # ps) = coordinate_loop elected ps"
| "coordinate_loop None (Some p # ps) = coordinate_loop (Some p) ps"
| "coordinate_loop (Some e) (Some p # ps) =
     (if mt_microbatch e \<noteq> mt_microbatch p \<or> mt_kind e \<noteq> mt_kind p then None
      else coordinate_loop (Some e) ps)"

definition coordinate_tp_selection :: "microbatch_task option \<Rightarrow> microbatch_task option list \<Rightarrow> microbatch_task option option" where
  "coordinate_tp_selection = coordinate_loop"

section \<open>Laws\<close>

text \<open>Every task waits under its own key, and a task that is ready is queued under its kind.\<close>

definition rs_inv :: "ready_set \<Rightarrow> bool" where
  "rs_inv s \<longleftrightarrow>
     (\<forall>mb k t. rs_tasks s (mb, k) = Some t \<longrightarrow> mt_microbatch t = mb \<and> mt_kind t = k
        \<and> (is_ready t \<longrightarrow> mb \<in> fst ` set (rs_ready s k)))"

lemma rs_inv_new: "rs_inv (rd_set (rd_new st h))"
  by (simp add: rs_inv_def rd_new_def)

lemma rs_inv_insert: "rs_inv s \<Longrightarrow> rs_inv (rs_insert t s)"
  by (auto simp: rs_inv_def rs_insert_def rs_push_def Let_def)

lemma rs_inv_mark: "rs_inv s \<Longrightarrow> rs_inv (snd (mark_dependency_satisfied mb k s))"
  by (auto simp: rs_inv_def mark_dependency_satisfied_def rs_push_def is_ready_def Let_def split: option.splits)

lemma rs_inv_submit: "rs_inv (rd_set d) \<Longrightarrow> rs_inv (rd_set (submit_task mb rid k pr deps d))"
  by (simp add: submit_task_def Let_def rs_inv_insert)

text \<open>Dropping the front entry of a queue keeps the invariant once its task is gone.\<close>

lemma rs_inv_pop:
  assumes "rs_inv s" and "rs_ready s k = (mb, pr, ep) # rest"
  shows "rs_inv (s\<lparr>rs_ready := (rs_ready s)(k := rest), rs_tasks := (rs_tasks s)((mb, k) := None)\<rparr>)"
proof -
  have "fst ` set (rs_ready s k) = insert mb (fst ` set rest)" using assms(2) by simp
  moreover have "\<And>mb k t. rs_tasks s (mb, k) = Some t \<Longrightarrow> mt_microbatch t = mb \<and> mt_kind t = k
        \<and> (is_ready t \<longrightarrow> mb \<in> fst ` set (rs_ready s k))" using assms(1) by (simp add: rs_inv_def)
  ultimately show ?thesis by (fastforce simp: rs_inv_def)
qed

text \<open>What a scan returns was a task of the set under its kind, and leaves it.\<close>

lemma scan_kinds_inv:
  "rs_inv s \<Longrightarrow> scan_kinds ks s = (r, s') \<Longrightarrow>
    rs_inv s' \<and> (case r of
        None \<Rightarrow> rs_tasks s' = rs_tasks s
      | Some t \<Rightarrow> mt_kind t \<in> set ks \<and> rs_tasks s (mt_microbatch t, mt_kind t) = Some t
          \<and> rs_tasks s' = (rs_tasks s)((mt_microbatch t, mt_kind t) := None))"
proof (induction ks arbitrary: s)
  case Nil
  then show ?case by simp
next
  case (Cons k ks)
  show ?case
  proof (cases "rs_ready s k")
    case Nil
    then show ?thesis using Cons.prems Cons.IH [OF Cons.prems(1)] by (auto split: option.splits)
  next
    case q: (Cons e rest)
    obtain mb pr ep where e: "e = (mb, pr, ep)" by (cases e)
    note inv = rs_inv_pop [OF Cons.prems(1) q [unfolded e]]
    show ?thesis
    proof (cases "rs_tasks s (mb, k)")
      case None
      then have "(rs_tasks s)((mb, k) := None) = rs_tasks s" by (simp add: fun_upd_idem)
      then have inv': "rs_inv (s\<lparr>rs_ready := (rs_ready s)(k := rest)\<rparr>)" using inv by (simp add: rs_inv_def)
      have "scan_kinds ks (s\<lparr>rs_ready := (rs_ready s)(k := rest)\<rparr>) = (r, s')"
        using Cons.prems(2) q e None by simp
      from Cons.IH [OF inv' this] show ?thesis by (auto split: option.splits)
    next
      case (Some u)
      then have u: "mt_microbatch u = mb" "mt_kind u = k" using Cons.prems(1) by (auto simp: rs_inv_def)
      have "r = Some u" "s' = s\<lparr>rs_ready := (rs_ready s)(k := rest), rs_tasks := (rs_tasks s)((mb, k) := None)\<rparr>"
        using Cons.prems(2) q e Some by (auto simp: Let_def)
      then show ?thesis using inv Some u by simp
    qed
  qed
qed

text \<open>
  What arbitration returns: a task of the set, which leaves it; without one, no task left.
\<close>

lemma arbitrate_spec:
  assumes "rs_inv (rd_set d)" and "arbitrate ks d = (r, d')"
  shows "rs_inv (rd_set d')"
    and "r = Some t \<Longrightarrow> rs_tasks (rd_set d) (mt_microbatch t, mt_kind t) = Some t
      \<and> rs_tasks (rd_set d') = (rs_tasks (rd_set d))((mt_microbatch t, mt_kind t) := None)"
    and "r = None \<Longrightarrow> rs_tasks (rd_set d') = rs_tasks (rd_set d)"
proof -
  obtain r1 s1 where one: "scan_kinds (rd_hint d) (rd_set d) = (r1, s1)" by fastforce
  note A = scan_kinds_inv [OF assms(1) one]
  obtain r2 s2 where two: "scan_kinds ks s1 = (r2, s2)" by fastforce
  have B: "rs_inv s1 \<Longrightarrow> rs_inv s2 \<and> (case r2 of None \<Rightarrow> rs_tasks s2 = rs_tasks s1
      | Some t \<Rightarrow> mt_kind t \<in> set ks \<and> rs_tasks s1 (mt_microbatch t, mt_kind t) = Some t
          \<and> rs_tasks s2 = (rs_tasks s1)((mt_microbatch t, mt_kind t) := None))"
    using scan_kinds_inv [OF _ two] by blast
  have run: "(r, d') = (case r1 of Some t \<Rightarrow> (Some t, d\<lparr>rd_set := s1\<rparr>) | None \<Rightarrow> (r2, d\<lparr>rd_set := s2\<rparr>))"
    using assms(2) one two by (auto simp: arbitrate_def split: option.splits)
  show "rs_inv (rd_set d')" using A B run by (auto split: option.splits)
  show "rs_tasks (rd_set d) (mt_microbatch t, mt_kind t) = Some t
      \<and> rs_tasks (rd_set d') = (rs_tasks (rd_set d))((mt_microbatch t, mt_kind t) := None)" if "r = Some t"
    using A B run that by (auto split: option.splits)
  show "rs_tasks (rd_set d') = rs_tasks (rd_set d)" if "r = None"
    using A B run that by (auto split: option.splits)
qed

text \<open>
  A scan finds work whenever some scanned kind has an entry whose task is there at the front of its
  queue; stale entries ahead of it can hide it.
\<close>

lemma scan_kinds_finds:
  assumes "k \<in> set ks" and "rs_ready s k = (mb, pr, ep) # rest" and "rs_tasks s (mb, k) = Some t"
  shows "fst (scan_kinds ks s) \<noteq> None"
  using assms
proof (induction ks arbitrary: s)
  case Nil
  then show ?case by simp
next
  case (Cons j ks)
  show ?case
  proof (cases "j = k")
    case True
    then show ?thesis using Cons.prems by (simp add: Let_def)
  next
    case False
    then have k: "k \<in> set ks" using Cons.prems(1) by simp
    show ?thesis
    proof (cases "rs_ready s j")
      case Nil
      then show ?thesis using Cons.IH [OF k Cons.prems(2,3)] by simp
    next
      case q: (Cons e rest')
      obtain mb' pr' ep' where e: "e = (mb', pr', ep')" by (cases e)
      show ?thesis
        using Cons.IH [of "s\<lparr>rs_ready := (rs_ready s)(j := rest')\<rparr>"] k Cons.prems(2,3) q e False
        by (simp add: Let_def split: option.splits)
    qed
  qed
qed

text \<open>
  Two stale entries in front of a queue: the task of the third is ready, and arbitration answers
  that there is nothing to do.
\<close>

definition stale_dispatcher :: "nat \<Rightarrow> nat \<Rightarrow> dispatcher" where
  "stale_dispatcher a b =
     submit_task b b ForwardDecode 100 0
       (snd (arbitrate [ForwardDecode]
         (submit_task a a ForwardDecode 100 0 (submit_task a a ForwardDecode 100 0
           (submit_task a a ForwardDecode 100 0 (rd_new 0 None))))))"

lemma arbitrate_misses_ready:
  assumes "a \<noteq> b"
  shows "rs_tasks (rd_set (stale_dispatcher a b)) (b, ForwardDecode) \<noteq> None"
    and "fst (arbitrate [ForwardDecode] (stale_dispatcher a b)) = None"
  using assms
  by (simp_all add: stale_dispatcher_def submit_task_def rs_insert_def rs_push_def is_ready_def rd_new_def
      default_hint_def arbitrate_def Let_def)

end
