(* ===== verification/Scheduler.thy ===== *)
theory Scheduler
  imports Readiness
begin

text \<open>
  The continuous-batching scheduler of \<open>crates/grim-scheduler/src/lib.rs\<close>: the four queues, the
  admission controller, and one tick of \<open>schedule\<close>, phase by phase in the code's order.

  The throughput estimate is a float; what the controller reads of it are three numbers, and they
  are arguments of the model: the predicted time to first token of a token count in milliseconds,
  the expected inter-token latency in milliseconds, and whether the wired KV occupancy is over its
  threshold. Token sums are exact (the code adds \<open>usize\<close>). The printed messages are left out.
\<close>

section \<open>Requests and state\<close>

record request =
  rq_id :: nat
  rq_prompt :: nat
  rq_max_new :: nat
  rq_priority :: int
  rq_consumed :: nat
  rq_model :: "string option"
  rq_adapters :: "nat list"
  rq_input_ids :: "u32 list option"
  rq_session :: "string option"

text \<open>What the tick reads from outside, and the order in which the ready map is iterated.\<close>

record load =
  ld_ttft :: "nat \<Rightarrow> nat"
  ld_itl :: nat
  ld_kv_pressure :: bool
  ld_kinds :: "task_kind list"

record scheduler =
  sc_waiting :: "request list"
  sc_running :: "request list"
  sc_swapped :: "request list"
  sc_paused :: "request list"
  sc_max_tokens :: nat
  sc_max_seqs :: nat
  sc_chunk :: nat
  sc_target_ttft :: nat
  sc_target_itl :: nat
  sc_strict :: bool
  sc_admitted_total :: nat
  sc_readiness :: "dispatcher option"

definition sc_new :: "nat \<Rightarrow> nat \<Rightarrow> nat \<Rightarrow> nat \<Rightarrow> scheduler" where
  "sc_new max_batched_tokens max_num_seqs target_ttft target_itl =
     \<lparr>sc_waiting = [], sc_running = [], sc_swapped = [], sc_paused = [],
      sc_max_tokens = max_batched_tokens, sc_max_seqs = max_num_seqs, sc_chunk = 512,
      sc_target_ttft = target_ttft, sc_target_itl = target_itl, sc_strict = False,
      sc_admitted_total = 0, sc_readiness = None\<rparr>"

record snapshot =
  sn_active :: nat
  sn_waiting :: nat
  sn_admitted :: nat
  sn_paused :: nat

definition sc_snapshot :: "scheduler \<Rightarrow> snapshot" where
  "sc_snapshot s = \<lparr>sn_active = length (sc_running s), sn_waiting = length (sc_waiting s),
     sn_admitted = sc_admitted_total s, sn_paused = length (sc_paused s)\<rparr>"

definition enqueue :: "request \<Rightarrow> scheduler \<Rightarrow> scheduler" where
  "enqueue r s = s\<lparr>sc_waiting := sc_waiting s @ [r]\<rparr>"

definition set_readiness_dispatch :: "dispatcher option \<Rightarrow> scheduler \<Rightarrow> scheduler" where
  "set_readiness_dispatch d s = s\<lparr>sc_readiness := d\<rparr>"

definition token_backlog :: "scheduler \<Rightarrow> nat" where
  "token_backlog s = sum_list (map rq_prompt (sc_waiting s))"

text \<open>\<open>prompt_tokens.saturating_sub(consumed_tokens)\<close>.\<close>

definition remaining :: "request \<Rightarrow> nat" where
  "remaining r = rq_prompt r - rq_consumed r"

definition chunk_offsets :: "scheduler \<Rightarrow> nat \<rightharpoonup> nat \<times> nat" where
  "chunk_offsets s = map_of (rev (map (\<lambda>r. (rq_id r, (rq_consumed r, rq_prompt r)))
     (filter (\<lambda>r. rq_consumed r > 0 \<and> rq_consumed r < rq_prompt r) (sc_running s @ sc_waiting s))))"

section \<open>Admission\<close>

definition admit :: "load \<Rightarrow> scheduler \<Rightarrow> nat \<Rightarrow> request \<Rightarrow> bool" where
  "admit ld s backlog r =
     (if backlog \<le> rq_prompt r \<and> ld_ttft ld (rq_prompt r) > sc_target_ttft s then True
      else if sc_target_ttft s = 0 then True
      else if sc_target_itl s > 0 \<and> ld_itl ld > sc_target_itl s then False
      else ld_ttft ld (backlog + rq_prompt r) \<le> sc_target_ttft s)"

section \<open>The phases of a tick\<close>

text \<open>Sorting: by id in strict mode, else by descending priority when the queue has an inversion.\<close>

fun has_inversion :: "request list \<Rightarrow> bool" where
  "has_inversion (a # b # rs) \<longleftrightarrow> rq_priority a < rq_priority b \<or> has_inversion (b # rs)"
| "has_inversion _ \<longleftrightarrow> False"

definition sort_queues :: "scheduler \<Rightarrow> scheduler" where
  "sort_queues s =
     (if sc_strict s
      then s\<lparr>sc_waiting := sort_key rq_id (sc_waiting s), sc_running := sort_key rq_id (sc_running s)\<rparr>
      else if has_inversion (sc_waiting s)
      then s\<lparr>sc_waiting := sort_key (\<lambda>r. - rq_priority r) (sc_waiting s)\<rparr>
      else s)"

definition running_tokens :: "scheduler \<Rightarrow> nat" where
  "running_tokens s = sum_list (map remaining (sc_running s))"

definition pressure_active :: "load \<Rightarrow> scheduler \<Rightarrow> bool" where
  "pressure_active ld s \<longleftrightarrow> token_backlog s > sc_max_tokens s \<or> length (sc_waiting s) > 10
     \<or> running_tokens s > sc_max_tokens s \<or> ld_kv_pressure ld"

text \<open>Swap-in: the swapped requests that are not queued or running go to the front of \<open>waiting\<close>.\<close>

definition tracked :: "scheduler \<Rightarrow> request \<Rightarrow> bool" where
  "tracked s r \<longleftrightarrow> rq_id r \<in> rq_id ` set (sc_waiting s @ sc_running s)"

definition swap_in :: "bool \<Rightarrow> scheduler \<Rightarrow> scheduler" where
  "swap_in pressure s =
     (if pressure then s
      else s\<lparr>sc_waiting := filter (\<lambda>r. \<not> tracked s r) (sc_swapped s) @ sc_waiting s, sc_swapped := []\<rparr>)"

text \<open>Admission of a prefix of \<open>waiting\<close>: the first deferred request goes to its back and ends the loop.\<close>

fun admission_loop :: "(request \<Rightarrow> bool) \<Rightarrow> request list \<Rightarrow> request list \<times> request list" where
  "admission_loop ok [] = ([], [])"
| "admission_loop ok (r # rs) =
     (if ok r then (case admission_loop ok rs of (adm, w) \<Rightarrow> (r # adm, w)) else ([], rs @ [r]))"

definition preempt :: "bool \<Rightarrow> nat \<Rightarrow> scheduler \<Rightarrow> nat list \<times> scheduler" where
  "preempt pressure running_toks s =
     (if pressure \<and> running_toks > sc_max_tokens s \<and> sc_running s \<noteq> [] then
        (let rs = sort_key rq_priority (sc_running s) in
         ([rq_id (hd rs)], s\<lparr>sc_running := tl rs, sc_swapped := sc_swapped s @ [hd rs]\<rparr>))
      else ([], s))"

text \<open>The decode-first arbitration; the dispatcher keeps what was submitted and not popped.\<close>

definition READINESS_DECODE_PRIORITY :: int where
  "READINESS_DECODE_PRIORITY = 100"

definition decode_first :: "load \<Rightarrow> bool \<Rightarrow> scheduler \<Rightarrow> bool \<times> scheduler" where
  "decode_first ld pressure s =
     (case sc_readiness s of
        None \<Rightarrow> (False, s)
      | Some d \<Rightarrow>
          if \<not> pressure then (False, s)
          else (let ready = filter (\<lambda>r. rq_consumed r \<ge> rq_prompt r) (sc_running s) in
                if ready = [] then (False, s)
                else (case arbitrate (ld_kinds ld)
                        (foldl (\<lambda>d r. submit_task (rq_id r) (rq_id r) ForwardDecode READINESS_DECODE_PRIORITY 0 d) d ready) of
                        (t, d1) \<Rightarrow> (case t of Some x \<Rightarrow> mt_kind x = ForwardDecode | None \<Rightarrow> False,
                                    s\<lparr>sc_readiness := Some d1\<rparr>))))"

text \<open>\<open>running[pos] = r\<close> at the position of its id, else push and count the admission.\<close>

record batch =
  bt_waiting :: "request list"
  bt_running :: "request list"
  bt_prefill :: "nat list"
  bt_total :: nat
  bt_admitted :: nat

fun replace_first :: "request \<Rightarrow> request list \<Rightarrow> request list option" where
  "replace_first r [] = None"
| "replace_first r (x # xs) = (if rq_id x = rq_id r then Some (r # xs) else map_option ((#) x) (replace_first r xs))"

definition put_running :: "request \<Rightarrow> batch \<Rightarrow> batch" where
  "put_running r b =
     (case replace_first r (bt_running b) of
        Some rs \<Rightarrow> b\<lparr>bt_running := rs\<rparr>
      | None \<Rightarrow> b\<lparr>bt_running := bt_running b @ [r], bt_admitted := bt_admitted b + 1\<rparr>)"

text \<open>Prefilling a chunk of a request: its running copy, the budget it uses, its entry in the output.\<close>

definition chunk_of :: "scheduler \<Rightarrow> bool \<Rightarrow> request \<Rightarrow> nat" where
  "chunk_of s pressure r = (if pressure then min (remaining r) (sc_chunk s) else remaining r)"

definition advance :: "scheduler \<Rightarrow> bool \<Rightarrow> request \<Rightarrow> request" where
  "advance s pressure r = r\<lparr>rq_consumed := rq_consumed r + chunk_of s pressure r\<rparr>"

definition take_chunk :: "scheduler \<Rightarrow> bool \<Rightarrow> request \<Rightarrow> batch \<Rightarrow> batch" where
  "take_chunk s pressure r b =
     put_running (advance s pressure r)
       (b\<lparr>bt_total := bt_total b + chunk_of s pressure r, bt_prefill := bt_prefill b @ [rq_id r]\<rparr>)"

definition wait_more :: "request list \<Rightarrow> batch \<Rightarrow> batch" where
  "wait_more rs b = b\<lparr>bt_waiting := bt_waiting b @ rs\<rparr>"

definition remainder :: "request \<Rightarrow> request list" where
  "remainder r = (if remaining r > 0 then [r] else [])"

text \<open>
  The admission of the admitted queue. \<open>current\<close> is the number of running sequences before it. On
  the token-budget break the rest of the admitted queue is dropped with the local variable.
\<close>

fun prefill_loop :: "scheduler \<Rightarrow> bool \<Rightarrow> bool \<Rightarrow> nat \<Rightarrow> request list \<Rightarrow> batch \<Rightarrow> batch" where
  "prefill_loop s pressure deferred current [] b = b"
| "prefill_loop s pressure deferred current (r # rs) b =
     (if current + length (bt_prefill b) \<ge> sc_max_seqs s \<or> deferred
      then prefill_loop s pressure deferred current rs (wait_more [r] b)
      else if remaining r = 0 then prefill_loop s pressure deferred current rs (put_running r b)
      else if bt_total b + chunk_of s pressure r > sc_max_tokens s then wait_more [r] b
      else if pressure
      then wait_more (rev rs @ remainder (advance s pressure r)) (take_chunk s pressure r b)
      else prefill_loop s pressure deferred current rs
             (wait_more (remainder (advance s pressure r)) (take_chunk s pressure r b)))"

section \<open>Batching by adapter\<close>

record lora_segment =
  ls_adapter :: nat
  ls_start :: nat
  ls_count :: nat
  ls_ids :: "nat list"

definition primary_adapter :: "request \<Rightarrow> nat" where
  "primary_adapter r = (case rq_adapters r of [] \<Rightarrow> 0 | a # _ \<Rightarrow> a)"

definition adapter_batch :: "request list \<Rightarrow> nat \<Rightarrow> nat list" where
  "adapter_batch running a = map rq_id (filter (\<lambda>r. primary_adapter r = a) running)"

definition adapter_batches :: "request list \<Rightarrow> nat \<rightharpoonup> nat list" where
  "adapter_batches running a =
     (if a \<in> primary_adapter ` set running then Some (adapter_batch running a) else None)"

fun build_segments :: "request list \<Rightarrow> nat \<Rightarrow> nat list \<Rightarrow> lora_segment list" where
  "build_segments running off [] = []"
| "build_segments running off (a # as) =
     (let ids = adapter_batch running a in
      \<lparr>ls_adapter = a, ls_start = off, ls_count = length ids, ls_ids = ids\<rparr>
        # build_segments running (off + length ids) as)"

definition lora_segments :: "request list \<Rightarrow> lora_segment list" where
  "lora_segments running = build_segments running 0 (sort (remdups (map primary_adapter running)))"

text \<open>\<open>LoraRowSegment::plan_for_rows\<close>: adapter, first row, number of rows.\<close>

fun plan_rows_loop :: "nat list \<Rightarrow> nat \<Rightarrow> (nat \<times> nat \<times> nat) list \<Rightarrow> (nat \<times> nat \<times> nat) list" where
  "plan_rows_loop [] row segs = segs"
| "plan_rows_loop (a # as) row segs =
     plan_rows_loop as (Suc row)
       (if segs \<noteq> [] \<and> fst (last segs) = a
        then butlast segs @ [(a, fst (snd (last segs)), snd (snd (last segs)) + 1)]
        else segs @ [(a, row, 1)])"

definition plan_for_rows :: "nat list \<Rightarrow> (nat \<times> nat \<times> nat) list" where
  "plan_for_rows row_adapters = plan_rows_loop row_adapters 0 []"

section \<open>One tick\<close>

record sched_output =
  so_prefill :: "nat list"
  so_decode :: "nat list"
  so_preempted :: "nat list"
  so_batches :: "nat \<rightharpoonup> nat list"
  so_segments :: "lora_segment list"

definition so_is_empty :: "sched_output \<Rightarrow> bool" where
  "so_is_empty out \<longleftrightarrow> so_prefill out = [] \<and> so_decode out = []"

text \<open>The state the prefill loop starts from: the phases before it, in order.\<close>

definition before_prefill :: "load \<Rightarrow> scheduler \<Rightarrow> bool \<times> bool \<times> nat list \<times> request list \<times> scheduler" where
  "before_prefill ld s =
     (let s1 = sort_queues s; backlog = token_backlog s1; pressure = pressure_active ld s1;
          s2 = swap_in pressure s1 in
      case admission_loop (admit ld s2 backlog) (sc_waiting s2) of (admitted, waiting) \<Rightarrow>
      case preempt pressure (running_tokens s1) (s2\<lparr>sc_waiting := waiting\<rparr>) of (preempted, s3) \<Rightarrow>
      case decode_first ld pressure s3 of (deferred, s4) \<Rightarrow>
        (pressure, deferred, preempted, admitted, s4))"

text \<open>The prefill loop on that state, and the output read off its batch.\<close>

definition tick_batch :: "load \<Rightarrow> scheduler \<Rightarrow> batch" where
  "tick_batch ld s =
     (case before_prefill ld s of (pressure, deferred, preempted, admitted, s4) \<Rightarrow>
        prefill_loop s4 pressure deferred (length (sc_running s4)) admitted
          \<lparr>bt_waiting = sc_waiting s4, bt_running = sc_running s4, bt_prefill = [], bt_total = 0,
           bt_admitted = sc_admitted_total s4\<rparr>)"

definition decode_ids :: "nat list \<Rightarrow> request list \<Rightarrow> nat list" where
  "decode_ids prefill running =
     map rq_id (filter (\<lambda>r. rq_id r \<notin> set prefill \<and> rq_consumed r \<ge> rq_prompt r) running)"

definition schedule :: "load \<Rightarrow> scheduler \<Rightarrow> sched_output \<times> scheduler" where
  "schedule ld s =
     (case before_prefill ld s of (pressure, deferred, preempted, admitted, s4) \<Rightarrow>
        (let b = tick_batch ld s
         in (\<lparr>so_prefill = bt_prefill b, so_decode = decode_ids (bt_prefill b) (bt_running b),
              so_preempted = preempted, so_batches = adapter_batches (bt_running b),
              so_segments = lora_segments (bt_running b)\<rparr>,
             s4\<lparr>sc_waiting := bt_waiting b, sc_running := bt_running b, sc_admitted_total := bt_admitted b\<rparr>)))"

section \<open>Finishing, pausing, resuming\<close>

definition finish :: "nat \<Rightarrow> scheduler \<Rightarrow> scheduler" where
  "finish i s = s\<lparr>sc_running := filter (\<lambda>r. rq_id r \<noteq> i) (sc_running s),
     sc_swapped := filter (\<lambda>r. rq_id r \<noteq> i) (sc_swapped s),
     sc_paused := filter (\<lambda>r. rq_id r \<noteq> i) (sc_paused s)\<rparr>"

text \<open>\<open>iter().position\<close> followed by \<open>remove\<close>.\<close>

fun take_out :: "nat \<Rightarrow> request list \<Rightarrow> (request \<times> request list) option" where
  "take_out i [] = None"
| "take_out i (r # rs) =
     (if rq_id r = i then Some (r, rs) else map_option (\<lambda>(x, xs). (x, r # xs)) (take_out i rs))"

definition pause :: "nat \<Rightarrow> scheduler \<Rightarrow> bool \<times> scheduler" where
  "pause i s =
     (case take_out i (sc_running s) of
        Some (r, rs) \<Rightarrow> (True, s\<lparr>sc_running := rs, sc_paused := sc_paused s @ [r]\<rparr>)
      | None \<Rightarrow> (False, s))"

definition resume :: "nat \<Rightarrow> scheduler \<Rightarrow> bool \<times> scheduler" where
  "resume i s =
     (case take_out i (sc_paused s) of
        Some (r, rs) \<Rightarrow> (True, s\<lparr>sc_paused := rs, sc_running := sc_running s @ [r]\<rparr>)
      | None \<Rightarrow> (False, s))"

definition is_paused :: "nat \<Rightarrow> scheduler \<Rightarrow> bool" where
  "is_paused i s \<longleftrightarrow> i \<in> rq_id ` set (sc_paused s)"

end
