(* ===== verification/SchedulerLaws.thy ===== *)
theory SchedulerLaws
  imports Scheduler
begin

text \<open>
  What a tick keeps: the token budget, the progress of every request, one running entry per request,
  and -- when the budget admits the first chunk -- every request itself.
\<close>

section \<open>The elementary moves\<close>

definition ids :: "request list \<Rightarrow> nat set" where
  "ids rs = rq_id ` set rs"

lemma ids_simps [simp]:
  "ids [] = {}" "ids (r # rs) = insert (rq_id r) (ids rs)" "ids (xs @ ys) = ids xs \<union> ids ys"
  "ids (rev xs) = ids xs" "ids (sort_key f xs) = ids xs"
  by (auto simp: ids_def)

lemma replace_first_None: "replace_first r xs = None \<longleftrightarrow> rq_id r \<notin> ids xs"
  by (induction xs) (auto simp: ids_def)

lemma replace_first_Some:
  "replace_first r xs = Some ys \<Longrightarrow> map rq_id ys = map rq_id xs \<and> r \<in> set ys \<and> set ys \<subseteq> insert r (set xs)"
proof (induction xs arbitrary: ys)
  case Nil
  then show ?case by simp
next
  case (Cons x xs)
  then show ?case by (cases "replace_first r xs") (auto split: if_splits)
qed

lemma ids_map: "ids xs = set (map rq_id xs)"
  by (simp add: ids_def)

text \<open>\<open>put_running\<close> leaves everything but the running list, and keeps it free of duplicates.\<close>

lemma put_running_simps [simp]:
  "bt_waiting (put_running r b) = bt_waiting b" "bt_prefill (put_running r b) = bt_prefill b"
  "bt_total (put_running r b) = bt_total b"
  by (simp_all add: put_running_def split: option.splits)

lemma put_running_spec:
  "ids (bt_running (put_running r b)) = insert (rq_id r) (ids (bt_running b))"
  "set (bt_running (put_running r b)) \<subseteq> insert r (set (bt_running b))"
  "r \<in> set (bt_running (put_running r b))"
  "distinct (map rq_id (bt_running b)) \<Longrightarrow> distinct (map rq_id (bt_running (put_running r b)))"
  "length (bt_running (put_running r b)) \<le> Suc (length (bt_running b))"
proof -
  have "ids (bt_running (put_running r b)) = insert (rq_id r) (ids (bt_running b))
    \<and> set (bt_running (put_running r b)) \<subseteq> insert r (set (bt_running b))
    \<and> r \<in> set (bt_running (put_running r b))
    \<and> (distinct (map rq_id (bt_running b)) \<longrightarrow> distinct (map rq_id (bt_running (put_running r b))))
    \<and> length (bt_running (put_running r b)) \<le> Suc (length (bt_running b))"
  proof (cases "replace_first r (bt_running b)")
    case None
    then have "rq_id r \<notin> ids (bt_running b)" by (simp add: replace_first_None)
    then show ?thesis using None by (auto simp: put_running_def ids_def)
  next
    case (Some ys)
    note y = replace_first_Some [OF Some]
    have "rq_id r \<in> ids (bt_running b)" using Some replace_first_None [of r "bt_running b"] by auto
    moreover have "ids ys = ids (bt_running b)" "length ys = length (bt_running b)"
      using y by (simp_all add: ids_map map_eq_imp_length_eq [of rq_id ys rq_id])
    ultimately show ?thesis using Some y by (auto simp: put_running_def)
  qed
  then show "ids (bt_running (put_running r b)) = insert (rq_id r) (ids (bt_running b))"
    "set (bt_running (put_running r b)) \<subseteq> insert r (set (bt_running b))"
    "r \<in> set (bt_running (put_running r b))"
    "distinct (map rq_id (bt_running b)) \<Longrightarrow> distinct (map rq_id (bt_running (put_running r b)))"
    "length (bt_running (put_running r b)) \<le> Suc (length (bt_running b))" by blast+
qed

lemma wait_more_simps [simp]:
  "bt_waiting (wait_more w b) = bt_waiting b @ w" "bt_running (wait_more w b) = bt_running b"
  "bt_prefill (wait_more w b) = bt_prefill b" "bt_total (wait_more w b) = bt_total b"
  by (simp_all add: wait_more_def)

lemma ids_remainder [simp]: "ids (remainder r) \<subseteq> {rq_id r}"
  by (auto simp: remainder_def)

lemma set_remainder [simp]: "set (remainder r) = (if remaining r > 0 then {r} else {})"
  by (simp add: remainder_def)

lemma advance_id [simp]: "rq_id (advance s p r) = rq_id r"
  by (simp add: advance_def)

lemma take_chunk_simps [simp]:
  "bt_waiting (take_chunk s p r b) = bt_waiting b" "bt_prefill (take_chunk s p r b) = bt_prefill b @ [rq_id r]"
  "bt_total (take_chunk s p r b) = bt_total b + chunk_of s p r"
  "ids (bt_running (take_chunk s p r b)) = insert (rq_id r) (ids (bt_running b))"
  by (simp_all add: take_chunk_def put_running_spec(1))

lemma take_chunk_running:
  "set (bt_running (take_chunk s p r b)) \<subseteq> insert (advance s p r) (set (bt_running b))"
  "distinct (map rq_id (bt_running b)) \<Longrightarrow> distinct (map rq_id (bt_running (take_chunk s p r b)))"
  "length (bt_running (take_chunk s p r b)) \<le> Suc (length (bt_running b))"
  using put_running_spec(2,4,5) [where r = "advance s p r" and b =
      "b\<lparr>bt_total := bt_total b + chunk_of s p r, bt_prefill := bt_prefill b @ [rq_id r]\<rparr>"]
  by (simp_all add: take_chunk_def)

section \<open>The prefill loop\<close>

text \<open>A request has not been prefilled past its prompt.\<close>

definition req_ok :: "request \<Rightarrow> bool" where
  "req_ok r \<longleftrightarrow> rq_consumed r \<le> rq_prompt r"

lemma req_ok_advance [simp]: "req_ok r \<Longrightarrow> req_ok (advance s p r)"
  by (auto simp: req_ok_def advance_def chunk_of_def remaining_def)

text \<open>
  An invariant of the batch that every way of one request keeps holds after the loop: the four
  moves are the only ways the loop touches the batch.
\<close>

lemma prefill_loop_induct:
  assumes "I b"
    and wait: "\<And>b r. I b \<Longrightarrow> r \<in> set rs \<Longrightarrow> I (wait_more [r] b)"
    and swap: "\<And>b r. I b \<Longrightarrow> r \<in> set rs \<Longrightarrow> remaining r = 0 \<Longrightarrow> c + length (bt_prefill b) < sc_max_seqs s \<Longrightarrow> I (put_running r b)"
    and go: "\<And>b r w. I b \<Longrightarrow> r \<in> set rs \<Longrightarrow> remaining r > 0 \<Longrightarrow> c + length (bt_prefill b) < sc_max_seqs s \<Longrightarrow> \<not> d
      \<Longrightarrow> bt_total b + chunk_of s p r \<le> sc_max_tokens s \<Longrightarrow> set w \<subseteq> insert (advance s p r) (set rs)
      \<Longrightarrow> I (wait_more w (take_chunk s p r b))"
  shows "I (prefill_loop s p d c rs b)"
  using assms
proof (induction rs arbitrary: b)
  case Nil
  then show ?case by simp
next
  case (Cons r rs)
  have IH: "I (prefill_loop s p d c rs b')" if "I b'" for b'
  proof (rule Cons.IH [OF that])
    show "I (wait_more w (take_chunk s p x b))"
      if "I b" "x \<in> set rs" "remaining x > 0" "c + length (bt_prefill b) < sc_max_seqs s" "\<not> d"
        "bt_total b + chunk_of s p x \<le> sc_max_tokens s" "set w \<subseteq> insert (advance s p x) (set rs)" for b x w
      by (rule Cons.prems(4)) (use that in auto)
  qed (use Cons.prems(2,3) in auto)
  have w: "set (remainder (advance s p r)) \<subseteq> insert (advance s p r) (set (r # rs))"
    "set (rev rs @ remainder (advance s p r)) \<subseteq> insert (advance s p r) (set (r # rs))"
    by auto
  have "I (wait_more (remainder (advance s p r)) (take_chunk s p r b))"
    "I (wait_more (rev rs @ remainder (advance s p r)) (take_chunk s p r b))"
    if "\<not> (c + length (bt_prefill b) \<ge> sc_max_seqs s \<or> d)" "remaining r \<noteq> 0"
      "\<not> bt_total b + chunk_of s p r > sc_max_tokens s"
    using that Cons.prems(4) [OF Cons.prems(1), of r] w by auto
  then show ?case
    using IH Cons.prems(2) [OF Cons.prems(1), of r] Cons.prems(3) [OF Cons.prems(1), of r] by auto
qed

text \<open>Budget, uniqueness and progress, on every way out of the loop.\<close>

lemma prefill_loop_budget:
  "bt_total b \<le> sc_max_tokens s \<Longrightarrow> bt_total (prefill_loop s p d c rs b) \<le> sc_max_tokens s"
  by (rule prefill_loop_induct [where I = "\<lambda>b. bt_total b \<le> sc_max_tokens s"])
    (simp_all add: put_running_def split: option.splits)

lemma prefill_loop_distinct:
  "distinct (map rq_id (bt_running b)) \<Longrightarrow> distinct (map rq_id (bt_running (prefill_loop s p d c rs b)))"
  by (rule prefill_loop_induct [where I = "\<lambda>b. distinct (map rq_id (bt_running b))"])
    (simp_all add: put_running_spec(4) take_chunk_running(2))

lemma prefill_loop_req_ok:
  assumes "\<forall>r \<in> set (rs @ bt_waiting b @ bt_running b). req_ok r"
  shows "\<forall>r \<in> set (bt_waiting (prefill_loop s p d c rs b) @ bt_running (prefill_loop s p d c rs b)). req_ok r"
proof (rule prefill_loop_induct [where I = "\<lambda>b. \<forall>r \<in> set (bt_waiting b @ bt_running b). req_ok r"])
  show "\<forall>x \<in> set (bt_waiting (put_running r b) @ bt_running (put_running r b)). req_ok x"
    if "\<forall>x \<in> set (bt_waiting b @ bt_running b). req_ok x" "r \<in> set rs" for b r
    using that assms put_running_spec(2) [of r b] by auto
  show "\<forall>x \<in> set (bt_waiting (wait_more w (take_chunk s p r b)) @ bt_running (wait_more w (take_chunk s p r b))). req_ok x"
    if "\<forall>x \<in> set (bt_waiting b @ bt_running b). req_ok x" "r \<in> set rs" "set w \<subseteq> insert (advance s p r) (set rs)" for b r w
    using that assms take_chunk_running(1) [of s p r b] by auto
qed (use assms in auto)

text \<open>
  Nothing is lost: under pressure one chunk is prefilled and the rest goes back; without pressure
  all of it fits when the remaining tokens of the queue fit the budget.
\<close>

definition budget_ok :: "scheduler \<Rightarrow> bool \<Rightarrow> request list \<Rightarrow> nat \<Rightarrow> bool" where
  "budget_ok s p rs n \<longleftrightarrow>
     n + (if p then sc_chunk s else sum_list (map remaining rs)) \<le> sc_max_tokens s"

lemma budget_ok_Cons:
  assumes "budget_ok s p (r # rs) n"
  shows "budget_ok s p rs n" "n + chunk_of s p r \<le> sc_max_tokens s"
    "\<not> p \<Longrightarrow> budget_ok s p rs (n + chunk_of s p r)"
  using assms by (auto simp: budget_ok_def chunk_of_def split: if_splits)

lemma prefill_loop_keeps:
  assumes "budget_ok s p rs (bt_total b)"
  shows "ids (bt_waiting (prefill_loop s p d c rs b)) \<union> ids (bt_running (prefill_loop s p d c rs b))
    = ids rs \<union> ids (bt_waiting b) \<union> ids (bt_running b)"
  using assms
proof (induction rs arbitrary: b)
  case Nil
  then show ?case by simp
next
  case (Cons r rs)
  note B = budget_ok_Cons [OF Cons.prems]
  have R: "ids (remainder (advance s p r)) \<subseteq> {rq_id r}" using ids_remainder [of "advance s p r"] by simp
  consider (full) "c + length (bt_prefill b) \<ge> sc_max_seqs s \<or> d"
    | (finished) "\<not> (c + length (bt_prefill b) \<ge> sc_max_seqs s \<or> d)" "remaining r = 0"
    | (go) "\<not> (c + length (bt_prefill b) \<ge> sc_max_seqs s \<or> d)" "remaining r \<noteq> 0" by blast
  then show ?case
  proof cases
    case full
    then show ?thesis using Cons.IH [of "wait_more [r] b"] B(1) by auto
  next
    case finished
    then show ?thesis using Cons.IH [of "put_running r b"] B(1) put_running_spec(1) [of r b] by auto
  next
    case go
    then show ?thesis
      using Cons.IH [of "wait_more (remainder (advance s p r)) (take_chunk s p r b)"] B(2,3) R by (cases p) auto
  qed
qed

text \<open>The batch never grows past the sequence cap when every admitted request has work left.\<close>

lemma prefill_loop_seqs:
  assumes "length (bt_running b) \<le> c + length (bt_prefill b)" and "\<forall>r \<in> set rs. remaining r > 0"
    and "c + length (bt_prefill b) \<le> max c (sc_max_seqs s)"
  shows "length (bt_running (prefill_loop s p d c rs b)) \<le> max c (sc_max_seqs s)"
proof -
  let ?I = "\<lambda>b. length (bt_running b) \<le> c + length (bt_prefill b) \<and> c + length (bt_prefill b) \<le> max c (sc_max_seqs s)"
  have "?I (wait_more w (take_chunk s p r b))" if "?I b" "c + length (bt_prefill b) < sc_max_seqs s" for w r b
    using that take_chunk_running(3) [of s p r b] by auto
  then have "?I (prefill_loop s p d c rs b)"
    by (intro prefill_loop_induct [where I = ?I]) (use assms in auto)
  then show ?thesis by linarith
qed

end
