(* ===== verification/SchedulerTicks.thy ===== *)
theory SchedulerTicks
  imports SchedulerLaws "HOL-Library.Multiset"
begin

text \<open>
  The scheduler's ticks: what the phases before the prefill loop keep, what a whole tick keeps, and
  the step relation of a scheduler's life with its invariant.
\<close>

section \<open>The phases before the prefill loop\<close>

definition queued :: "scheduler \<Rightarrow> request list" where
  "queued s = sc_waiting s @ sc_running s @ sc_swapped s"

definition same_limits :: "scheduler \<Rightarrow> scheduler \<Rightarrow> bool" where
  "same_limits s t \<longleftrightarrow> sc_max_tokens t = sc_max_tokens s \<and> sc_max_seqs t = sc_max_seqs s
     \<and> sc_chunk t = sc_chunk s \<and> sc_paused t = sc_paused s"

lemma sort_queues_spec:
  "mset (sc_waiting (sort_queues s)) = mset (sc_waiting s)" "mset (sc_running (sort_queues s)) = mset (sc_running s)"
  "sc_swapped (sort_queues s) = sc_swapped s" "same_limits s (sort_queues s)"
  by (simp_all add: sort_queues_def same_limits_def)

lemma admission_loop_mset: "admission_loop ok rs = (adm, w) \<Longrightarrow> mset adm + mset w = mset rs"
proof (induction rs arbitrary: adm w)
  case Nil
  then show ?case by simp
next
  case (Cons r rs)
  then show ?case by (cases "ok r"; cases "admission_loop ok rs") auto
qed

lemma admission_loop_ok: "admission_loop ok rs = (adm, w) \<Longrightarrow> \<forall>r \<in> set adm. ok r"
proof (induction rs arbitrary: adm w)
  case Nil
  then show ?case by simp
next
  case (Cons r rs)
  then show ?case by (cases "ok r"; cases "admission_loop ok rs") auto
qed

lemma preempt_spec:
  assumes "preempt p n s = (pre, t)"
  shows "mset (sc_running t @ sc_swapped t) = mset (sc_running s @ sc_swapped s)"
    "sc_waiting t = sc_waiting s" "same_limits s t"
    "distinct (map rq_id (sc_running s)) \<Longrightarrow> distinct (map rq_id (sc_running t))"
    "pre \<noteq> [] \<Longrightarrow> p"
proof -
  have "mset (sc_running t @ sc_swapped t) = mset (sc_running s @ sc_swapped s)
    \<and> sc_waiting t = sc_waiting s \<and> same_limits s t
    \<and> (distinct (map rq_id (sc_running s)) \<longrightarrow> distinct (map rq_id (sc_running t))) \<and> (pre \<noteq> [] \<longrightarrow> p)"
  proof (cases "p \<and> n > sc_max_tokens s \<and> sc_running s \<noteq> []")
    case True
    define xs where "xs = sort_key rq_priority (sc_running s)"
    have m: "mset xs = mset (sc_running s)" by (simp add: xs_def)
    have "xs \<noteq> []" using True m by (metis mset_zero_iff)
    then obtain x ys where x: "xs = x # ys" by (cases xs) auto
    have "distinct (map rq_id xs)" if "distinct (map rq_id (sc_running s))"
      using that m by (metis mset_map mset_eq_imp_distinct_iff)
    then show ?thesis
      using assms True m x by (auto simp: preempt_def same_limits_def Let_def simp flip: xs_def)
  next
    case False
    then show ?thesis using assms by (auto simp: preempt_def same_limits_def)
  qed
  then show "mset (sc_running t @ sc_swapped t) = mset (sc_running s @ sc_swapped s)"
    "sc_waiting t = sc_waiting s" "same_limits s t"
    "distinct (map rq_id (sc_running s)) \<Longrightarrow> distinct (map rq_id (sc_running t))"
    "pre \<noteq> [] \<Longrightarrow> p" by blast+
qed

lemma decode_first_spec:
  assumes "decode_first ld p s = (d, t)"
  shows "sc_running t = sc_running s" "sc_waiting t = sc_waiting s" "sc_swapped t = sc_swapped s" "same_limits s t"
  using assms
  by (auto simp: decode_first_def same_limits_def Let_def split: option.splits if_splits prod.splits)

lemma swap_in_spec:
  "sc_running (swap_in p s) = sc_running s" "same_limits s (swap_in p s)"
  "ids (sc_waiting (swap_in p s)) \<union> ids (sc_running s) \<union> ids (sc_swapped (swap_in p s)) = ids (queued s)"
  "set (sc_waiting (swap_in p s) @ sc_swapped (swap_in p s)) \<subseteq> set (sc_waiting s @ sc_swapped s)"
  "\<not> p \<Longrightarrow> sum_list (map remaining (sc_waiting (swap_in p s)))
     \<le> sum_list (map remaining (sc_swapped s)) + sum_list (map remaining (sc_waiting s))"
proof -
  have f: "sum_list (map remaining (filter P xs)) \<le> sum_list (map remaining xs)" for P xs
    by (induction xs) auto
  show "\<not> p \<Longrightarrow> sum_list (map remaining (sc_waiting (swap_in p s)))
     \<le> sum_list (map remaining (sc_swapped s)) + sum_list (map remaining (sc_waiting s))"
    using f [of _ "sc_swapped s"] by (simp add: swap_in_def)
  show "ids (sc_waiting (swap_in p s)) \<union> ids (sc_running s) \<union> ids (sc_swapped (swap_in p s)) = ids (queued s)"
    by (auto simp: swap_in_def queued_def ids_def tracked_def)
qed (auto simp: swap_in_def same_limits_def)

lemma ids_mset_eq: "mset xs = mset ys \<Longrightarrow> ids xs = ids ys"
  by (metis ids_def set_mset_mset)

lemma remaining_le_backlog: "sum_list (map remaining (sc_waiting s)) \<le> token_backlog s"
  unfolding token_backlog_def by (rule sum_list_mono) (simp add: remaining_def)

lemma sum_list_mset_eq: "mset xs = mset ys \<Longrightarrow> sum_list (map f xs) = sum_list (map f ys)" for f :: "'a \<Rightarrow> nat"
  by (metis mset_map sum_mset_sum_list)

text \<open>All of it, for the state the prefill loop starts from.\<close>

lemma before_prefill_spec:
  assumes "before_prefill ld s = (p, d, pre, adm, t)"
  shows "p = pressure_active ld (sort_queues s)" "same_limits s t"
    "ids adm \<union> ids (queued t) = ids (queued s)"
    "set (adm @ queued t) \<subseteq> set (queued s)"
    "distinct (map rq_id (sc_running s)) \<Longrightarrow> distinct (map rq_id (sc_running t))"
    "\<not> p \<Longrightarrow> sum_list (map remaining adm) \<le> token_backlog s + sum_list (map remaining (sc_swapped s))"
    "pre \<noteq> [] \<Longrightarrow> p"
proof -
  define s1 where "s1 = sort_queues s"
  define s2 where "s2 = swap_in p s1"
  have p: "p = pressure_active ld s1"
    using assms by (auto simp: before_prefill_def Let_def s1_def split: prod.splits)
  obtain w s3 where adm: "admission_loop (admit ld s2 (token_backlog s1)) (sc_waiting s2) = (adm, w)"
    and pre: "preempt p (running_tokens s1) (s2\<lparr>sc_waiting := w\<rparr>) = (pre, s3)"
    and d: "decode_first ld p s3 = (d, t)"
    using assms p by (auto simp: before_prefill_def Let_def s1_def s2_def split: prod.splits)
  note S = sort_queues_spec [where s = s, folded s1_def] and W = swap_in_spec [where p = p and s = s1, folded s2_def]
    and A = admission_loop_mset [OF adm] and P = preempt_spec [OF pre] and D = decode_first_spec [OF d]
  show "p = pressure_active ld (sort_queues s)" using p by (simp add: s1_def)
  show "same_limits s t" using S(4) W(2) P(3) D(4) by (simp add: same_limits_def)
  have q: "mset (adm @ queued t) = mset (sc_waiting s2 @ sc_running s2 @ sc_swapped s2)"
    using A P(1,2) D by (simp add: queued_def)
  have q1: "mset (queued s1) = mset (queued s)" using S by (simp add: queued_def)
  show "ids adm \<union> ids (queued t) = ids (queued s)"
    using ids_mset_eq [OF q] ids_mset_eq [OF q1] W(1,3) by (simp add: Un_assoc)
  have "set (adm @ queued t) \<subseteq> set (queued s1)"
    using mset_eq_setD [OF q] W(1,4) by (auto simp: queued_def)
  then show "set (adm @ queued t) \<subseteq> set (queued s)" using mset_eq_setD [OF q1] by simp
  show "distinct (map rq_id (sc_running t))" if "distinct (map rq_id (sc_running s))"
    using that S(2) W(1) P(4) D(1) by (metis mset_eq_imp_distinct_iff mset_map scheduler.select_convs(2) scheduler.surjective scheduler.update_convs(1))
  show "\<not> p \<Longrightarrow> sum_list (map remaining adm) \<le> token_backlog s + sum_list (map remaining (sc_swapped s))"
  proof -
    assume "\<not> p"
    have "sum_list (map remaining adm) \<le> sum_list (map remaining (sc_waiting s2))"
      using sum_list_mset_eq [OF A [folded mset_append], of remaining] by simp
    also have "\<dots> \<le> sum_list (map remaining (sc_swapped s)) + sum_list (map remaining (sc_waiting s1))"
      using W(5) [OF \<open>\<not> p\<close>] S(3) by simp
    also have "sum_list (map remaining (sc_waiting s1)) \<le> token_backlog s"
      using remaining_le_backlog [of s] sum_list_mset_eq [OF S(1), of remaining] by simp
    finally show ?thesis by simp
  qed
  show "pre \<noteq> [] \<Longrightarrow> p" by (rule P(5))
qed

section \<open>A whole tick\<close>

lemma tick_batch_eq:
  assumes "before_prefill ld s = (p, d, pre, adm, t)"
  shows "tick_batch ld s = prefill_loop t p d (length (sc_running t)) adm
     \<lparr>bt_waiting = sc_waiting t, bt_running = sc_running t, bt_prefill = [], bt_total = 0,
      bt_admitted = sc_admitted_total t\<rparr>"
  using assms by (simp add: tick_batch_def)

lemma schedule_fields:
  assumes "before_prefill ld s = (p, d, pre, adm, t)" and "schedule ld s = (out, s')"
  shows "sc_waiting s' = bt_waiting (tick_batch ld s)" "sc_running s' = bt_running (tick_batch ld s)"
    "sc_swapped s' = sc_swapped t" "same_limits t s'"
    "so_prefill out = bt_prefill (tick_batch ld s)" "so_decode out = decode_ids (so_prefill out) (sc_running s')"
    "so_preempted out = pre" "so_segments out = lora_segments (sc_running s')"
  using assms by (auto simp: schedule_def Let_def same_limits_def)

lemma before_prefill_ex: "\<exists>p d pre adm t. before_prefill ld s = (p, d, pre, adm, t)"
  by (metis prod_cases5)

text \<open>The requests of a scheduler, and the conditions under which a tick can keep all of them.\<close>

definition budget_fits :: "load \<Rightarrow> scheduler \<Rightarrow> bool" where
  "budget_fits ld s \<longleftrightarrow> sc_chunk s \<le> sc_max_tokens s
     \<and> (pressure_active ld (sort_queues s)
        \<or> token_backlog s + sum_list (map remaining (sc_swapped s)) \<le> sc_max_tokens s)"

lemma schedule_keeps:
  assumes "schedule ld s = (out, s')" and "budget_fits ld s"
  shows "ids (queued s') = ids (queued s)"
proof -
  obtain p d pre adm t where b: "before_prefill ld s = (p, d, pre, adm, t)" using before_prefill_ex by blast
  note B = before_prefill_spec [OF b] and F = schedule_fields [OF b assms(1)]
  have "budget_ok t p adm 0"
    using assms(2) B(1,2,6) by (auto simp: budget_fits_def budget_ok_def same_limits_def)
  then have "ids (sc_waiting s') \<union> ids (sc_running s') = ids adm \<union> ids (sc_waiting t) \<union> ids (sc_running t)"
    unfolding F(1,2) tick_batch_eq [OF b] by (subst prefill_loop_keeps) simp_all
  then show ?thesis
    using F(3) B(3) by (simp add: queued_def Un_assoc [symmetric])
qed

text \<open>Every request of a well-formed scheduler has progressed at most to the end of its prompt.\<close>

definition sched_inv :: "scheduler \<Rightarrow> bool" where
  "sched_inv s \<longleftrightarrow> (\<forall>r \<in> set (queued s @ sc_paused s). req_ok r)"

lemma schedule_inv:
  assumes "schedule ld s = (out, s')" and "sched_inv s"
  shows "sched_inv s'"
proof -
  obtain p d pre adm t where b: "before_prefill ld s = (p, d, pre, adm, t)" using before_prefill_ex by blast
  note B = before_prefill_spec [OF b] and F = schedule_fields [OF b assms(1)]
  have t: "\<forall>r \<in> set (adm @ queued t). req_ok r" using B(4) assms(2) by (auto simp: sched_inv_def)
  then have "\<forall>r \<in> set (sc_waiting s' @ sc_running s'). req_ok r"
    unfolding F(1,2) tick_batch_eq [OF b] by (intro prefill_loop_req_ok) (auto simp: queued_def)
  then show ?thesis
    using t assms(2) F(3,4) B(2) by (auto simp: sched_inv_def queued_def same_limits_def)
qed

lemma schedule_distinct:
  assumes "schedule ld s = (out, s')" and "distinct (map rq_id (sc_running s))"
  shows "distinct (map rq_id (sc_running s'))"
proof -
  obtain p d pre adm t where b: "before_prefill ld s = (p, d, pre, adm, t)" using before_prefill_ex by blast
  show ?thesis
    unfolding schedule_fields(2) [OF b assms(1)] tick_batch_eq [OF b]
    using before_prefill_spec(5) [OF b assms(2)] by (intro prefill_loop_distinct) simp
qed

lemma tick_budget: "bt_total (tick_batch ld s) \<le> sc_max_tokens s"
proof -
  obtain p d pre adm t where b: "before_prefill ld s = (p, d, pre, adm, t)" using before_prefill_ex by blast
  have "sc_max_tokens t = sc_max_tokens s" using before_prefill_spec(2) [OF b] by (simp add: same_limits_def)
  then show ?thesis
    unfolding tick_batch_eq [OF b] using prefill_loop_budget [where s = t] by (metis batch.select_convs(4) le0)
qed

text \<open>
  The grants of a tick: the prefilled requests as they were queued, each with the tokens it was given.
  Whoever has progressed has done so by a grant, and the grants together fit the budget.
\<close>

definition granted :: "request \<times> nat \<Rightarrow> request" where
  "granted g = (fst g)\<lparr>rq_consumed := rq_consumed (fst g) + snd g\<rparr>"

lemma prefill_loop_grants:
  assumes "bt_prefill b = []" and "bt_total b = 0"
  shows "\<exists>g. bt_prefill (prefill_loop s p d c rs b) = map (rq_id \<circ> fst) g
    \<and> sum_list (map snd g) = bt_total (prefill_loop s p d c rs b)
    \<and> (\<forall>x \<in> set g. fst x \<in> set rs \<and> snd x \<le> remaining (fst x))
    \<and> set (bt_waiting (prefill_loop s p d c rs b) @ bt_running (prefill_loop s p d c rs b))
        \<subseteq> set (rs @ bt_waiting b @ bt_running b) \<union> granted ` set g"
proof -
  let ?A = "set (rs @ bt_waiting b @ bt_running b)"
  let ?I = "\<lambda>b :: batch. \<exists>g. bt_prefill b = map (rq_id \<circ> fst) g \<and> sum_list (map snd g) = bt_total b
    \<and> (\<forall>x \<in> set g. fst x \<in> set rs \<and> snd x \<le> remaining (fst x))
    \<and> set (bt_waiting b @ bt_running b) \<subseteq> ?A \<union> granted ` set g"
  show ?thesis
  proof (rule prefill_loop_induct [where I = ?I])
    show "?I b" using assms by (intro exI [of _ "[]"]) auto
  next
    fix b :: batch and r assume "?I b" "r \<in> set rs"
    then obtain g where "bt_prefill b = map (rq_id \<circ> fst) g" "sum_list (map snd g) = bt_total b"
      "\<forall>x \<in> set g. fst x \<in> set rs \<and> snd x \<le> remaining (fst x)"
      "set (bt_waiting b @ bt_running b) \<subseteq> ?A \<union> granted ` set g" by blast
    with \<open>r \<in> set rs\<close> show "?I (wait_more [r] b)" "?I (put_running r b)"
      using put_running_spec(2) [of r b] by (intro exI [of _ g]; auto)+
  next
    fix b :: batch and r w
    assume I: "?I b" and r: "r \<in> set rs" "remaining r > 0" and w: "set w \<subseteq> insert (advance s p r) (set rs)"
    from I obtain g where g: "bt_prefill b = map (rq_id \<circ> fst) g" "sum_list (map snd g) = bt_total b"
      "\<forall>x \<in> set g. fst x \<in> set rs \<and> snd x \<le> remaining (fst x)"
      "set (bt_waiting b @ bt_running b) \<subseteq> ?A \<union> granted ` set g" by blast
    let ?g = "g @ [(r, chunk_of s p r)]"
    have a: "advance s p r = granted (r, chunk_of s p r)" by (simp add: advance_def granted_def)
    have c: "chunk_of s p r \<le> remaining r" by (simp add: chunk_of_def)
    have "set (bt_waiting (wait_more w (take_chunk s p r b)) @ bt_running (wait_more w (take_chunk s p r b)))
        \<subseteq> ?A \<union> granted ` set ?g"
      using g(4) w take_chunk_running(1) [of s p r b] unfolding a by auto
    then show "?I (wait_more w (take_chunk s p r b))"
      using g(1-3) r c by (intro exI [of _ ?g]) auto
  qed
qed

lemma tick_grants:
  assumes "schedule ld s = (out, s')"
  shows "\<exists>g. so_prefill out = map (rq_id \<circ> fst) g \<and> sum_list (map snd g) \<le> sc_max_tokens s
    \<and> (\<forall>x \<in> set g. fst x \<in> set (queued s) \<and> snd x \<le> remaining (fst x))
    \<and> set (queued s') \<subseteq> set (queued s) \<union> granted ` set g"
proof -
  obtain p d pre adm t where b: "before_prefill ld s = (p, d, pre, adm, t)" using before_prefill_ex by blast
  let ?b = "\<lparr>bt_waiting = sc_waiting t, bt_running = sc_running t, bt_prefill = [], bt_total = 0, bt_admitted = sc_admitted_total t\<rparr>"
  note F = schedule_fields [OF b assms] and old = before_prefill_spec(4) [OF b]
  obtain g where g: "bt_prefill (tick_batch ld s) = map (rq_id \<circ> fst) g" "sum_list (map snd g) = bt_total (tick_batch ld s)"
    "\<forall>x \<in> set g. fst x \<in> set adm \<and> snd x \<le> remaining (fst x)"
    "set (bt_waiting (tick_batch ld s) @ bt_running (tick_batch ld s)) \<subseteq> set (adm @ sc_waiting t @ sc_running t) \<union> granted ` set g"
    using prefill_loop_grants [of ?b t p d "length (sc_running t)" adm] unfolding tick_batch_eq [OF b] by auto
  have "set (queued s') \<subseteq> set (queued s) \<union> granted ` set g"
    using g(4) old F(1-3) by (auto simp: queued_def)
  then show ?thesis
    using g(1-3) old F(5) tick_budget [of ld s] by (intro exI [of _ g]) auto
qed

text \<open>A request decodes only when its prompt is prefilled and it was not prefilled in this tick.\<close>

lemma schedule_decode:
  assumes "schedule ld s = (out, s')" and "i \<in> set (so_decode out)"
  shows "i \<notin> set (so_prefill out) \<and> (\<exists>r \<in> set (sc_running s'). rq_id r = i \<and> rq_prompt r \<le> rq_consumed r)"
proof -
  obtain p d pre adm t where b: "before_prefill ld s = (p, d, pre, adm, t)" using before_prefill_ex by blast
  show ?thesis
    using assms(2) schedule_fields(6) [OF b assms(1)] by (auto simp: decode_ids_def)
qed

text \<open>Under pressure a tick prefills one request at most, and one chunk of it.\<close>

lemma prefill_loop_pressure:
  "bt_prefill b = [] \<Longrightarrow> length (bt_prefill (prefill_loop s True d c rs b)) \<le> 1"
proof (induction rs arbitrary: b)
  case Nil
  then show ?case by simp
next
  case (Cons r rs)
  moreover have "bt_prefill (put_running r b) = []" using Cons.prems by simp
  ultimately show ?case using Cons.IH by (cases d) simp_all
qed

section \<open>The life of a scheduler\<close>

text \<open>One call of the scheduler's interface, with whatever the load is at that moment.\<close>

inductive sched_step :: "scheduler \<Rightarrow> scheduler \<Rightarrow> bool" where
  sc_enqueue: "req_ok r \<Longrightarrow> sched_step s (enqueue r s)"
| sc_schedule: "schedule ld s = (out, t) \<Longrightarrow> sched_step s t"
| sc_finish: "sched_step s (finish i s)"
| sc_pause: "pause i s = (ok, t) \<Longrightarrow> sched_step s t"
| sc_resume: "resume i s = (ok, t) \<Longrightarrow> sched_step s t"
| sc_dispatch: "sched_step s (set_readiness_dispatch dp s)"

lemma take_out_Some: "take_out i xs = Some (r, ys) \<Longrightarrow> mset xs = mset (r # ys) \<and> rq_id r = i"
proof (induction xs arbitrary: ys)
  case Nil
  then show ?case by simp
next
  case (Cons x xs)
  then show ?case by (cases "take_out i xs") (auto split: if_splits)
qed

lemma take_out_set: "take_out i xs = Some (r, ys) \<Longrightarrow> set xs = insert r (set ys)"
  by (metis take_out_Some list.simps(15) set_mset_mset)

lemma take_out_None: "take_out i xs = None \<longleftrightarrow> i \<notin> ids xs"
  by (induction xs) (auto simp: ids_def)

lemma sched_step_inv: "sched_step s t \<Longrightarrow> sched_inv s \<Longrightarrow> sched_inv t"
proof (induction rule: sched_step.induct)
  case (sc_schedule ld s out t)
  then show ?case using schedule_inv by blast
next
  case (sc_pause i s ok t)
  then show ?case
    by (auto simp: pause_def sched_inv_def queued_def dest!: take_out_set split: option.splits)
next
  case (sc_resume i s ok t)
  then show ?case
    by (auto simp: resume_def sched_inv_def queued_def dest!: take_out_set split: option.splits)
qed (auto simp: sched_inv_def queued_def enqueue_def finish_def set_readiness_dispatch_def)

lemma sched_run_inv: "sched_step\<^sup>*\<^sup>* s t \<Longrightarrow> sched_inv s \<Longrightarrow> sched_inv t"
  by (induction rule: rtranclp_induct) (auto intro: sched_step_inv)

text \<open>\<open>pause\<close> followed by \<open>resume\<close> moves the request to the back of the batch and changes nothing else.\<close>

lemma take_out_last: "i \<notin> ids xs \<Longrightarrow> rq_id r = i \<Longrightarrow> take_out i (xs @ [r]) = Some (r, xs)"
  by (induction xs) (auto simp: ids_def)

lemma pause_resume:
  assumes "pause i s = (True, t)" and "\<not> is_paused i s"
  shows "\<exists>u. resume i t = (True, u) \<and> mset (sc_running u) = mset (sc_running s)
    \<and> u\<lparr>sc_running := sc_running s\<rparr> = s"
proof -
  obtain r rs where o: "take_out i (sc_running s) = Some (r, rs)"
    and t: "t = s\<lparr>sc_running := rs, sc_paused := sc_paused s @ [r]\<rparr>"
    using assms(1) by (auto simp: pause_def split: option.splits prod.splits)
  have "take_out i (sc_paused t) = Some (r, sc_paused s)"
    using assms(2) take_out_Some [OF o] t by (simp add: is_paused_def ids_def take_out_last)
  then show ?thesis using take_out_Some [OF o] t by (auto simp: resume_def)
qed

end
