(* ===== verification/SchedulerBatches.thy ===== *)
theory SchedulerBatches
  imports SchedulerTicks
begin

text \<open>
  The batches a tick hands to the engine: the row plan of a stacked batch, the sequence-level
  adapter segments; and what a tick does not promise -- requests it drops, a pause it does not
  respect, a cap it does not enforce -- on small schedulers.
\<close>

section \<open>Row segments\<close>

text \<open>The rows a plan covers, adapter by adapter; a plan that starts at row \<open>k\<close> and has no gap.\<close>

definition expand_rows :: "(nat \<times> nat \<times> nat) list \<Rightarrow> nat list" where
  "expand_rows segs = concat (map (\<lambda>(a, s, n). replicate n a) segs)"

fun segs_from :: "nat \<Rightarrow> (nat \<times> nat \<times> nat) list \<Rightarrow> bool" where
  "segs_from k [] \<longleftrightarrow> True"
| "segs_from k ((a, s, n) # xs) \<longleftrightarrow> s = k \<and> n > 0 \<and> (xs = [] \<or> fst (hd xs) \<noteq> a) \<and> segs_from (k + n) xs"

lemma expand_rows_simps [simp]:
  "expand_rows [] = []" "expand_rows ((a, s, n) # xs) = replicate n a @ expand_rows xs"
  "expand_rows (xs @ ys) = expand_rows xs @ expand_rows ys"
  by (simp_all add: expand_rows_def)

lemma segs_from_snoc:
  "segs_from k (xs @ [(a, s, n)])
     \<longleftrightarrow> segs_from k xs \<and> s = k + length (expand_rows xs) \<and> n > 0 \<and> (xs = [] \<or> fst (last xs) \<noteq> a)"
proof (induction xs arbitrary: k)
  case Nil
  then show ?case by auto
next
  case (Cons x xs)
  note IH = Cons.IH
  obtain b t m where x: "x = (b, t, m)" by (cases x)
  show ?case
  proof (cases xs)
    case Nil
    then show ?thesis using x by auto
  next
    case (Cons y ys)
    then have "hd (xs @ [(a, s, n)]) = hd xs" "xs \<noteq> []" by simp_all
    then show ?thesis using x IH [of "k + m"] by (auto simp: add.assoc)
  qed
qed

lemma plan_rows_loop_spec:
  assumes "segs_from 0 segs" and "row = length (expand_rows segs)"
  shows "segs_from 0 (plan_rows_loop as row segs) \<and> expand_rows (plan_rows_loop as row segs) = expand_rows segs @ as"
  using assms
proof (induction as arbitrary: row segs)
  case Nil
  then show ?case by simp
next
  case (Cons a as)
  show ?case
  proof (cases "segs \<noteq> [] \<and> fst (last segs) = a")
    case True
    then obtain xs s n where segs: "segs = xs @ [(a, s, n)]"
      by (metis append_butlast_last_id prod.collapse)
    have "segs_from 0 (xs @ [(a, s, n + 1)])" using Cons.prems(1) segs by (simp add: segs_from_snoc)
    moreover have "expand_rows (xs @ [(a, s, n + 1)]) = expand_rows segs @ [a]"
      using segs by (simp add: replicate_append_same)
    ultimately show ?thesis
      using Cons.IH [of "xs @ [(a, s, n + 1)]" "Suc row"] Cons.prems(2) segs by simp
  next
    case False
    then have "segs_from 0 (segs @ [(a, row, 1)])" using Cons.prems by (auto simp: segs_from_snoc)
    then show ?thesis
      using Cons.IH [of "segs @ [(a, row, 1)]" "Suc row"] Cons.prems(2) False by auto
  qed
qed

lemma plan_for_rows_spec:
  "segs_from 0 (plan_for_rows rows)" "expand_rows (plan_for_rows rows) = rows"
  unfolding plan_for_rows_def using plan_rows_loop_spec [of "[]" 0 rows] by simp_all

section \<open>Adapter segments\<close>

lemma adapter_batch_concat:
  "distinct as \<Longrightarrow> mset (concat (map (adapter_batch rs) as)) = mset (map rq_id (filter (\<lambda>r. primary_adapter r \<in> set as) rs))"
proof (induction as)
  case Nil
  then show ?case by simp
next
  case (Cons a as)
  have "mset (map rq_id (filter (\<lambda>r. primary_adapter r = a) rs)) + mset (map rq_id (filter (\<lambda>r. primary_adapter r \<in> set as) rs))
      = mset (map rq_id (filter (\<lambda>r. primary_adapter r \<in> set (a # as)) rs))"
    using Cons.prems by (induction rs) auto
  then show ?case using Cons by (simp add: adapter_batch_def)
qed

fun segments_from :: "nat \<Rightarrow> lora_segment list \<Rightarrow> bool" where
  "segments_from k [] \<longleftrightarrow> True"
| "segments_from k (g # gs) \<longleftrightarrow> ls_start g = k \<and> ls_count g = length (ls_ids g) \<and> segments_from (k + ls_count g) gs"

lemma build_segments_spec:
  "segments_from off (build_segments rs off as) \<and> map ls_ids (build_segments rs off as) = map (adapter_batch rs) as
     \<and> map ls_adapter (build_segments rs off as) = as"
  by (induction as arbitrary: off) (simp_all add: Let_def)

lemma lora_segments_spec:
  "segments_from 0 (lora_segments rs)"
  "mset (concat (map ls_ids (lora_segments rs))) = mset (map rq_id rs)"
  "sorted_wrt (<) (map ls_adapter (lora_segments rs))"
proof -
  define as where "as = sort (remdups (map primary_adapter rs))"
  have as: "distinct as" "set as = primary_adapter ` set rs" "sorted as" by (simp_all add: as_def)
  note B = build_segments_spec [of 0 rs as]
  have "filter (\<lambda>r. primary_adapter r \<in> set as) rs = rs" using as(2) by (simp add: filter_id_conv)
  then show "segments_from 0 (lora_segments rs)"
    "mset (concat (map ls_ids (lora_segments rs))) = mset (map rq_id rs)"
    "sorted_wrt (<) (map ls_adapter (lora_segments rs))"
    using B adapter_batch_concat [OF as(1), of rs] as
    by (simp_all add: lora_segments_def strict_sorted_iff flip: as_def)
qed

section \<open>Requests a tick drops\<close>

text \<open>
  With a token budget below the chunk size, the first waiting request is not prefilled, the loop
  breaks, and the rest of the admitted queue is in no queue of the scheduler any more.
\<close>

lemma has_inversion_iff: "has_inversion rs \<longleftrightarrow> (\<exists>i. Suc i < length rs \<and> rq_priority (rs ! i) < rq_priority (rs ! Suc i))"
proof (induction rs rule: has_inversion.induct)
  case (1 a b rs)
  have "(\<exists>i. Suc i < length (a # b # rs) \<and> rq_priority ((a # b # rs) ! i) < rq_priority ((a # b # rs) ! Suc i))
     \<longleftrightarrow> rq_priority a < rq_priority b \<or> (\<exists>i. Suc i < length (b # rs) \<and> rq_priority ((b # rs) ! i) < rq_priority ((b # rs) ! Suc i))"
    (is "(\<exists>i. ?P i) \<longleftrightarrow> ?A \<or> (\<exists>i. ?Q i)")
  proof -
    have "(\<exists>i. ?P i) \<longleftrightarrow> ?P 0 \<or> (\<exists>i. ?P (Suc i))" by (metis not0_implies_Suc)
    then show ?thesis by simp
  qed
  then show ?case using 1 by simp
qed auto

lemma admission_all: "(\<And>r. r \<in> set rs \<Longrightarrow> ok r) \<Longrightarrow> admission_loop ok rs = (rs, [])"
  by (induction rs) auto

lemma over_budget_tick:
  assumes "sc_waiting s = r # rs" and "sc_running s = []" and "sc_swapped s = []"
    and "\<not> sc_strict s" and "\<not> has_inversion (r # rs)" and "sc_target_ttft s = 0" and "sc_readiness s = None"
    and "0 < sc_max_seqs s" and "sc_max_tokens s < sc_chunk s" and "sc_max_tokens s < remaining r"
    and "schedule ld s = (out, s')"
  shows "so_prefill out = [] \<and> so_decode out = [] \<and> queued s' = [r] \<and> sc_paused s' = sc_paused s"
proof -
  have "token_backlog s \<ge> remaining r" using assms(1) by (simp add: token_backlog_def remaining_def)
  then have p: "pressure_active ld s" using assms(10) by (simp add: pressure_active_def)
  have so: "sort_queues s = s" using assms(1,4,5) by (simp add: sort_queues_def)
  have "admission_loop (admit ld s (token_backlog s)) (r # rs) = (r # rs, [])"
    by (rule admission_all) (simp add: admit_def assms(6))
  then have b: "before_prefill ld s = (True, False, [], r # rs, s\<lparr>sc_waiting := []\<rparr>)"
    using assms(1-7) p so by (simp add: before_prefill_def Let_def swap_in_def preempt_def decode_first_def)
  have "tick_batch ld s = \<lparr>bt_waiting = [r], bt_running = [], bt_prefill = [], bt_total = 0, bt_admitted = sc_admitted_total s\<rparr>"
    unfolding tick_batch_eq [OF b] using assms(2,8-10) by (auto simp: chunk_of_def wait_more_def)
  then show ?thesis
    using schedule_fields [OF b assms(11)] assms(3) by (simp add: queued_def same_limits_def decode_ids_def)
qed

section \<open>Small schedulers\<close>

definition idle_load :: load where
  "idle_load = \<lparr>ld_ttft = (\<lambda>n. 0), ld_itl = 0, ld_kv_pressure = False, ld_kinds = []\<rparr>"

definition plain_request :: "nat \<Rightarrow> nat \<Rightarrow> request" where
  "plain_request i n = \<lparr>rq_id = i, rq_prompt = n, rq_max_new = 16, rq_priority = 0, rq_consumed = 0,
     rq_model = None, rq_adapters = [], rq_input_ids = None, rq_session = None\<rparr>"

lemmas sched_eval = idle_load_def plain_request_def sc_new_def enqueue_def schedule_def tick_batch_def
  before_prefill_def sort_queues_def token_backlog_def pressure_active_def running_tokens_def
  remaining_def swap_in_def tracked_def admit_def preempt_def decode_first_def chunk_of_def advance_def
  take_chunk_def put_running_def wait_more_def remainder_def decode_ids_def pause_def resume_def
  is_paused_def finish_def Let_def

text \<open>The first tick over a long prompt: one chunk, its copy running, the remainder waiting.\<close>

definition half_prefilled :: scheduler where
  "half_prefilled = (sc_new 1024 4 0 0)
     \<lparr>sc_waiting := [(plain_request 7 2000)\<lparr>rq_consumed := 512\<rparr>],
      sc_running := [(plain_request 7 2000)\<lparr>rq_consumed := 512\<rparr>], sc_admitted_total := 1\<rparr>"

lemma half_prefilled_tick:
  "snd (schedule idle_load (enqueue (plain_request 7 2000) (sc_new 1024 4 0 0))) = half_prefilled"
  by (simp add: sched_eval half_prefilled_def)

lemma half_prefilled_step:
  assumes "sc_running s = []" and "sc_waiting s = sc_waiting half_prefilled" and "sc_swapped s = []"
    and "sc_max_tokens s = 1024" and "sc_max_seqs s = 4" and "sc_chunk s = 512" and "sc_target_ttft s = 0"
    and "\<not> sc_strict s" and "sc_readiness s = None"
  shows "so_prefill (fst (schedule idle_load s)) = [7]
    \<and> map rq_id (sc_running (snd (schedule idle_load s))) = [7]
    \<and> sc_paused (snd (schedule idle_load s)) = sc_paused s"
  using assms by (simp add: sched_eval half_prefilled_def)

text \<open>A paused request keeps its remainder in \<open>waiting\<close>, and the next tick runs it; so does a finished one.\<close>

lemma half_prefilled_pause:
  "pause 7 half_prefilled = (True, half_prefilled\<lparr>sc_running := [], sc_paused := sc_running half_prefilled\<rparr>)"
  by (simp add: half_prefilled_def pause_def plain_request_def sc_new_def)

lemma half_prefilled_finish: "finish 7 half_prefilled = half_prefilled\<lparr>sc_running := []\<rparr>"
  by (simp add: half_prefilled_def finish_def plain_request_def sc_new_def)

lemma paused_request_runs_again:
  "so_prefill (fst (schedule idle_load (snd (pause 7 half_prefilled)))) = [7]"
  "is_paused 7 (snd (schedule idle_load (snd (pause 7 half_prefilled))))"
  "map rq_id (sc_running (snd (resume 7 (snd (schedule idle_load (snd (pause 7 half_prefilled))))))) = [7, 7]"
proof -
  note h = half_prefilled_step [of "snd (pause 7 half_prefilled)", unfolded half_prefilled_pause snd_conv]
  have f: "sc_running half_prefilled = [(plain_request 7 2000)\<lparr>rq_consumed := 512\<rparr>]"
    "sc_swapped half_prefilled = []" "sc_max_tokens half_prefilled = 1024" "sc_max_seqs half_prefilled = 4"
    "sc_chunk half_prefilled = 512" "sc_target_ttft half_prefilled = 0" "\<not> sc_strict half_prefilled"
    "sc_readiness half_prefilled = None" by (simp_all add: half_prefilled_def sc_new_def)
  show "so_prefill (fst (schedule idle_load (snd (pause 7 half_prefilled)))) = [7]"
    using h f by (simp add: half_prefilled_pause)
  have p: "sc_paused (snd (schedule idle_load (snd (pause 7 half_prefilled)))) = [(plain_request 7 2000)\<lparr>rq_consumed := 512\<rparr>]"
    "map rq_id (sc_running (snd (schedule idle_load (snd (pause 7 half_prefilled))))) = [7]"
    using h f by (simp_all add: half_prefilled_pause)
  then show "is_paused 7 (snd (schedule idle_load (snd (pause 7 half_prefilled))))"
    "map rq_id (sc_running (snd (resume 7 (snd (schedule idle_load (snd (pause 7 half_prefilled))))))) = [7, 7]"
    by (simp_all add: is_paused_def resume_def plain_request_def)
qed

lemma finished_request_runs_again:
  "so_prefill (fst (schedule idle_load (finish 7 half_prefilled))) = [7]"
  using half_prefilled_step [of "finish 7 half_prefilled"] unfolding half_prefilled_finish
  by (simp add: half_prefilled_def sc_new_def)

text \<open>Three prefilled requests come back from the swap queue into a batch of at most one sequence.\<close>

lemma swapped_exceed_cap:
  "map rq_id (sc_running (snd (schedule idle_load ((sc_new 1024 1 0 0)\<lparr>sc_swapped :=
     map (\<lambda>i. (plain_request i 8)\<lparr>rq_consumed := 8\<rparr>) [1, 2, 3]\<rparr>)))) = [1, 2, 3]"
  by (simp add: sched_eval)

end
