(* ===== verification/SchedulerProgress.thy ===== *)
theory SchedulerProgress
  imports SchedulerBatches
begin

text \<open>
  Progress of the scheduler: a prompt longer than the token budget is prefilled in as many ticks as
  it has chunks, and a batch that is full of half-prefilled requests never moves again.
\<close>

section \<open>A lone long prompt\<close>

text \<open>
  The request is queued, its running copy may be there (with the same progress), and the swap queue
  holds stale copies of it at most.
\<close>

definition lone :: "request \<Rightarrow> scheduler \<Rightarrow> bool" where
  "lone r s \<longleftrightarrow> sc_waiting s = remainder r \<and> (sc_running s = [] \<or> sc_running s = [r])
     \<and> sc_readiness s = None \<and> sc_target_ttft s = 0 \<and> 2 \<le> sc_max_seqs s
     \<and> 0 < sc_chunk s \<and> sc_chunk s \<le> sc_max_tokens s \<and> sc_max_tokens s < rq_prompt r"

fun run_ticks :: "load list \<Rightarrow> scheduler \<Rightarrow> scheduler" where
  "run_ticks [] s = s"
| "run_ticks (ld # lds) s = run_ticks lds (snd (schedule ld s))"

lemma lone_before:
  assumes "lone r s" and "remaining r > 0"
  shows "\<exists>pre t. before_prefill ld s = (True, False, pre, [r], t) \<and> sc_waiting t = []
    \<and> (sc_running t = [] \<or> sc_running t = [r]) \<and> sc_readiness t = None \<and> sc_target_ttft t = 0
    \<and> same_limits s t"
proof -
  have w: "sc_waiting s = [r]" using assms by (simp add: lone_def remainder_def)
  have "sc_running s = [] \<or> sc_running s = [r]" using assms(1) by (simp add: lone_def)
  then have so: "sort_queues s = s" using w by (cases s) (auto simp: sort_queues_def)
  have "rq_prompt r \<le> token_backlog s" using w by (simp add: token_backlog_def)
  then have p: "pressure_active ld s" using assms(1) by (auto simp: lone_def pressure_active_def)
  have ad: "admission_loop (admit ld s (token_backlog s)) [r] = ([r], [])"
    using assms(1) by (simp add: admit_def lone_def)
  obtain pre t where pre: "preempt True (running_tokens s) (s\<lparr>sc_waiting := []\<rparr>) = (pre, t)" by fastforce
  have "sc_waiting t = [] \<and> (sc_running t = [] \<or> sc_running t = [r]) \<and> sc_readiness t = None
      \<and> sc_target_ttft t = 0 \<and> same_limits s t"
    using pre assms(1) by (auto simp: preempt_def lone_def same_limits_def Let_def split: if_splits)
  then show ?thesis
    using w so p ad pre by (intro exI [of _ pre] exI [of _ t])
      (simp add: before_prefill_def Let_def swap_in_def decode_first_def)
qed

lemma put_running_lone:
  "bt_running b = [] \<or> bt_running b = [r] \<Longrightarrow> rq_id r' = rq_id r \<Longrightarrow> bt_running (put_running r' b) = [r']"
  by (auto simp: put_running_def)

lemma lone_tick:
  assumes "lone r s" and "remaining r > 0" and "schedule ld s = (out, s')"
  shows "lone (advance s True r) s'" "so_prefill out = [rq_id r]" "sc_running s' = [advance s True r]"
    "sc_chunk s' = sc_chunk s"
proof -
  obtain pre t where b: "before_prefill ld s = (True, False, pre, [r], t)" and t: "sc_waiting t = []"
    "sc_running t = [] \<or> sc_running t = [r]" "sc_readiness t = None" "sc_target_ttft t = 0" "same_limits s t"
    using lone_before [OF assms(1,2)] by blast
  define b0 where "b0 = \<lparr>bt_waiting = [], bt_running = sc_running t, bt_prefill = [], bt_total = 0,
    bt_admitted = sc_admitted_total t\<rparr>"
  have ch: "chunk_of t True r = chunk_of s True r" "advance t True r = advance s True r"
    using t(5) by (simp_all add: chunk_of_def same_limits_def advance_def)
  have lim: "length (sc_running t) < sc_max_seqs t" "chunk_of t True r \<le> sc_max_tokens t"
    using t(2,5) assms(1) by (auto simp: same_limits_def lone_def chunk_of_def)
  have tb: "tick_batch ld s = wait_more (remainder (advance s True r)) (take_chunk t True r b0)"
    unfolding tick_batch_eq [OF b] using lim assms(2) t(1) ch by (simp add: b0_def)
  have "bt_running b0 = [] \<or> bt_running b0 = [r]" using t(2) by (simp add: b0_def)
  then have run: "bt_running (tick_batch ld s) = [advance s True r]"
    unfolding tb by (simp add: take_chunk_def ch put_running_lone [where r = r])
  note F = schedule_fields [OF b assms(3)]
  show "sc_running s' = [advance s True r]" using run F(2) by simp
  show "so_prefill out = [rq_id r]" using F(5) tb by (simp add: b0_def)
  have "sc_readiness s' = None" "sc_target_ttft s' = 0"
    using assms(3) b t(3,4) by (auto simp: schedule_def Let_def)
  then show "lone (advance s True r) s'"
    using F(1,4) run F(2) t(5) assms(1) tb by (simp add: lone_def same_limits_def b0_def advance_def)
  show "sc_chunk s' = sc_chunk s" using F(4) t(5) by (simp add: same_limits_def)
qed

lemma remaining_advance: "remaining (advance s True r) = remaining r - sc_chunk s"
  by (auto simp: remaining_def advance_def chunk_of_def)

lemma lone_run:
  assumes "lone r s" and "rq_consumed r \<le> rq_prompt r" and "lds \<noteq> []"
    and "(length lds - 1) * sc_chunk s < remaining r" and "remaining r \<le> length lds * sc_chunk s"
  shows "sc_running (run_ticks lds s) = [r\<lparr>rq_consumed := rq_prompt r\<rparr>] \<and> sc_waiting (run_ticks lds s) = []"
  using assms
proof (induction lds arbitrary: r s)
  case Nil
  then show ?case by simp
next
  case (Cons ld lds)
  have rem: "remaining r > 0" using Cons.prems(4) by simp
  obtain out s' where sch: "schedule ld s = (out, s')" by fastforce
  note T = lone_tick [OF Cons.prems(1) rem sch]
  let ?r = "advance s True r"
  show ?case
  proof (cases lds)
    case Nil
    then have "chunk_of s True r = remaining r" using Cons.prems(5) by (simp add: chunk_of_def)
    then have "?r = r\<lparr>rq_consumed := rq_prompt r\<rparr>"
      using Cons.prems(2) by (simp add: advance_def remaining_def)
    moreover from this have "remainder ?r = []" by (simp add: remainder_def remaining_def)
    ultimately show ?thesis using T(1,3) Nil sch by (simp add: lone_def)
  next
    case (Cons ld' lds')
    have "?r\<lparr>rq_consumed := rq_prompt ?r\<rparr> = r\<lparr>rq_consumed := rq_prompt r\<rparr>" by (simp add: advance_def)
    moreover have "rq_consumed ?r \<le> rq_prompt ?r"
      using req_ok_advance [of r s True] Cons.prems(2) by (simp add: req_ok_def)
    moreover have "(length lds - 1) * sc_chunk s' < remaining ?r" "remaining ?r \<le> length lds * sc_chunk s'"
      using Cons.prems(4,5) Cons by (simp_all add: remaining_advance T(4))
    ultimately show ?thesis using Cons.IH [OF T(1)] Cons sch by simp
  qed
qed

section \<open>A full batch of half-prefilled requests\<close>

text \<open>
  The sequence cap counts the running copies, also for a request whose own copy is running: when
  the batch is full and every request in it still has prompt left, the tick is the identity.
\<close>

lemma prefill_loop_full:
  "sc_max_seqs s \<le> c \<Longrightarrow> prefill_loop s p d c rs b = wait_more rs b"
  by (induction rs arbitrary: b) (simp_all add: wait_more_def)

lemma full_batch_tick:
  assumes "sc_max_seqs s \<le> length (sc_running s)" and "\<forall>r \<in> set (sc_running s). remaining r > 0"
    and "running_tokens s \<le> sc_max_tokens s" and "sc_swapped s = []" and "sc_readiness s = None"
    and "\<not> sc_strict s" and "\<not> has_inversion (sc_waiting s)" and "sc_target_ttft s = 0"
  shows "snd (schedule ld s) = s" "so_prefill (fst (schedule ld s)) = []" "so_decode (fst (schedule ld s)) = []"
    "so_preempted (fst (schedule ld s)) = []"
proof -
  obtain out s' where sch: "schedule ld s = (out, s')" by fastforce
  have so: "sort_queues s = s" using assms(6,7) by (simp add: sort_queues_def)
  have sw: "swap_in (pressure_active ld s) s = s" using assms(4) by (simp add: swap_in_def)
  have ad: "admission_loop (admit ld s (token_backlog s)) (sc_waiting s) = (sc_waiting s, [])"
    by (rule admission_all) (simp add: admit_def assms(8))
  have b: "before_prefill ld s = (pressure_active ld s, False, [], sc_waiting s, s\<lparr>sc_waiting := []\<rparr>)"
    using assms(3,5) by (simp add: before_prefill_def Let_def so sw ad preempt_def decode_first_def)
  have tb: "tick_batch ld s = \<lparr>bt_waiting = sc_waiting s, bt_running = sc_running s, bt_prefill = [],
      bt_total = 0, bt_admitted = sc_admitted_total s\<rparr>"
    unfolding tick_batch_eq [OF b] using assms(1) by (simp add: prefill_loop_full wait_more_def)
  have "decode_ids [] (sc_running s) = []"
    using assms(2) by (auto simp: decode_ids_def filter_empty_conv remaining_def)
  then show "snd (schedule ld s) = s" "so_prefill (fst (schedule ld s)) = []" "so_decode (fst (schedule ld s)) = []"
    "so_preempted (fst (schedule ld s)) = []"
    by (simp_all add: schedule_def b Let_def tb)
qed

end
