(* ===== verification/DecodeFirst.thy ===== *)
theory DecodeFirst
  imports SchedulerProgress
begin

text \<open>
  The contract between the scheduler and its dispatcher: the scheduler submits a task for every
  request that is ready to decode and asks for one task; when a decode task comes back, the
  prefills of this tick wait. The locale states what the scheduler relies on, the dispatcher of
  \<open>Readiness\<close> provides it.
\<close>

section \<open>The interface\<close>

locale decode_arbiter =
  fixes submit :: "nat \<Rightarrow> 'd \<Rightarrow> 'd"
    and pick :: "'d \<Rightarrow> microbatch_task option \<times> 'd"
    and calm :: "'d \<Rightarrow> bool"
    and live :: "'d \<Rightarrow> bool"
  assumes submit_calm: "calm d \<Longrightarrow> calm (submit i d)"
    and submit_live: "calm d \<Longrightarrow> live (submit i d)"
    and pick_live: "calm d \<Longrightarrow> live d \<Longrightarrow> fst (pick d) \<noteq> None"
    and pick_decode: "calm d \<Longrightarrow> fst (pick d) = Some t \<Longrightarrow> mt_kind t = ForwardDecode"
begin

lemma submissions_calm: "calm d \<Longrightarrow> calm (foldl (\<lambda>d r. submit (rq_id r) d) d rs)"
  by (induction rs arbitrary: d) (simp_all add: submit_calm)

lemma submissions_live: "calm d \<Longrightarrow> rs \<noteq> [] \<Longrightarrow> live (foldl (\<lambda>d r. submit (rq_id r) d) d rs)"
proof (induction rs rule: rev_induct)
  case Nil
  then show ?case by simp
next
  case (snoc r rs)
  then show ?case by (simp add: submissions_calm submit_live)
qed

lemma decode_wins:
  assumes "calm d" and "rs \<noteq> []"
  shows "\<exists>t d'. pick (foldl (\<lambda>d r. submit (rq_id r) d) d rs) = (Some t, d') \<and> mt_kind t = ForwardDecode"
proof -
  let ?d = "foldl (\<lambda>d r. submit (rq_id r) d) d rs"
  obtain t where t: "fst (pick ?d) = Some t"
    using pick_live [OF submissions_calm [OF assms(1)] submissions_live [OF assms]] by auto
  then show ?thesis
    using pick_decode [OF submissions_calm [OF assms(1)] t] by (cases "pick ?d") auto
qed

end

section \<open>The dispatcher provides it\<close>

text \<open>Only decode tasks, no stale entry at the front of their queue, and the hint names their kind.\<close>

definition decode_only :: "dispatcher \<Rightarrow> bool" where
  "decode_only d \<longleftrightarrow> rs_inv (rd_set d) \<and> ForwardDecode \<in> set (rd_hint d)
     \<and> (\<forall>mb k. rs_tasks (rd_set d) (mb, k) \<noteq> None \<longrightarrow> k = ForwardDecode)
     \<and> (case rs_ready (rd_set d) ForwardDecode of
          [] \<Rightarrow> True | e # _ \<Rightarrow> rs_tasks (rd_set d) (fst e, ForwardDecode) \<noteq> None)"

definition has_entry :: "dispatcher \<Rightarrow> bool" where
  "has_entry d \<longleftrightarrow> rs_ready (rd_set d) ForwardDecode \<noteq> []"

definition submit_decode :: "nat \<Rightarrow> dispatcher \<Rightarrow> dispatcher" where
  "submit_decode i d = submit_task i i ForwardDecode READINESS_DECODE_PRIORITY 0 d"

lemma decode_only_new: "decode_only (rd_new st None)"
  by (simp add: decode_only_def rs_inv_new) (simp add: rd_new_def default_hint_def)

lemma submit_decode_fields:
  "rs_ready (rd_set (submit_decode i d)) ForwardDecode = rs_ready (rd_set d) ForwardDecode
     @ [(i, READINESS_DECODE_PRIORITY, rd_arrivals d + 1)]"
  "rs_tasks (rd_set (submit_decode i d)) (mb, k) \<noteq> None
     \<longleftrightarrow> (mb, k) = (i, ForwardDecode) \<or> rs_tasks (rd_set d) (mb, k) \<noteq> None"
  "rd_hint (submit_decode i d) = rd_hint d"
  by (auto simp: submit_decode_def submit_task_def rs_insert_def rs_push_def is_ready_def Let_def)

lemma decode_only_submit: "decode_only d \<Longrightarrow> decode_only (submit_decode i d)"
proof -
  assume d: "decode_only d"
  have "rs_inv (rd_set (submit_decode i d))"
    using d by (simp add: decode_only_def submit_decode_def rs_inv_submit)
  moreover have "\<forall>mb k. rs_tasks (rd_set (submit_decode i d)) (mb, k) \<noteq> None \<longrightarrow> k = ForwardDecode"
    using d unfolding submit_decode_fields(2) by (auto simp: decode_only_def)
  moreover have "case rs_ready (rd_set (submit_decode i d)) ForwardDecode of
      [] \<Rightarrow> True | e # _ \<Rightarrow> rs_tasks (rd_set (submit_decode i d)) (fst e, ForwardDecode) \<noteq> None"
    using d unfolding submit_decode_fields by (auto simp: decode_only_def split: list.splits)
  ultimately show ?thesis using d by (simp add: decode_only_def submit_decode_fields(3))
qed

lemma decode_only_pick:
  assumes "decode_only d" and "fst (arbitrate ks d) = Some t"
  shows "mt_kind t = ForwardDecode"
proof -
  obtain d' where "arbitrate ks d = (Some t, d')" using assms(2) by (cases "arbitrate ks d") auto
  then have "rs_tasks (rd_set d) (mt_microbatch t, mt_kind t) = Some t"
    using arbitrate_spec(2) [of d ks "Some t" d' t] assms(1) by (simp add: decode_only_def)
  then show ?thesis using assms(1) by (force simp: decode_only_def)
qed

lemma decode_only_finds:
  assumes "decode_only d" and "has_entry d"
  shows "fst (arbitrate ks d) \<noteq> None"
proof -
  obtain mb pr ep rest where q: "rs_ready (rd_set d) ForwardDecode = (mb, pr, ep) # rest"
    using assms(2) by (cases "rs_ready (rd_set d) ForwardDecode") (auto simp: has_entry_def)
  then obtain t where t: "rs_tasks (rd_set d) (mb, ForwardDecode) = Some t"
    using assms(1) by (auto simp: decode_only_def)
  have "fst (scan_kinds (rd_hint d) (rd_set d)) \<noteq> None"
    using scan_kinds_finds [OF _ q t] assms(1) by (simp add: decode_only_def)
  then show ?thesis by (auto simp: arbitrate_def split: option.splits prod.splits)
qed

interpretation rd: decode_arbiter submit_decode "arbitrate ks" decode_only has_entry for ks
  by unfold_locales
    (auto simp: decode_only_submit decode_only_pick has_entry_def submit_decode_fields(1)
      dest: decode_only_finds [unfolded has_entry_def])

section \<open>The scheduler relies on it\<close>

text \<open>Some running request is ready to decode: the tick's prefills are deferred.\<close>

lemma decode_first_wins:
  assumes "sc_readiness s = Some dp" and "decode_only dp" and "r \<in> set (sc_running s)"
    and "rq_prompt r \<le> rq_consumed r"
  shows "fst (decode_first ld True s)"
proof -
  let ?ready = "filter (\<lambda>r. rq_consumed r \<ge> rq_prompt r) (sc_running s)"
  have "?ready \<noteq> []" using assms(3,4) by (auto simp: filter_empty_conv)
  moreover from this obtain t d' where
    "arbitrate (ld_kinds ld) (foldl (\<lambda>d r. submit_decode (rq_id r) d) dp ?ready) = (Some t, d')"
    "mt_kind t = ForwardDecode"
    using rd.decode_wins [OF assms(2), of ?ready "ld_kinds ld"] by blast
  ultimately show ?thesis
    using assms(1) by (simp add: decode_first_def submit_decode_def Let_def)
qed

lemma prefill_loop_deferred: "prefill_loop s p True c rs b = wait_more rs b"
  by (induction rs arbitrary: b) (simp_all add: wait_more_def)

lemma schedule_deferred:
  assumes "sc_readiness s = Some dp" and "decode_only dp" and "pressure_active ld (sort_queues s)"
    and "running_tokens s \<le> sc_max_tokens s" and "r \<in> set (sc_running s)" and "rq_prompt r \<le> rq_consumed r"
    and "schedule ld s = (out, s')"
  shows "so_prefill out = [] \<and> mset (sc_running s') = mset (sc_running s) \<and> rq_id r \<in> set (so_decode out)"
proof -
  define s1 where "s1 = sort_queues s"
  note S = sort_queues_spec [where s = s, folded s1_def]
  have rt: "running_tokens s1 \<le> sc_max_tokens s1"
    using sum_list_mset_eq [OF S(2), of remaining] assms(4) S(4) by (simp add: running_tokens_def same_limits_def)
  obtain adm w where adm: "admission_loop (admit ld s1 (token_backlog s1)) (sc_waiting s1) = (adm, w)" by fastforce
  define s3 where "s3 = s1\<lparr>sc_waiting := w\<rparr>"
  obtain d t where d: "decode_first ld True s3 = (d, t)" by fastforce
  have rdy: "sc_readiness s3 = Some dp" "r \<in> set (sc_running s3)"
    using assms(1,5) mset_eq_setD [OF S(2)] by (simp_all add: s3_def s1_def sort_queues_def)
  have D: d using decode_first_wins [OF rdy(1) assms(2) rdy(2) assms(6), of ld] d by simp
  have b: "before_prefill ld s = (True, True, [], adm, t)"
    using adm rt assms(3) d D by (simp add: before_prefill_def Let_def swap_in_def preempt_def s1_def [symmetric] s3_def)
  note F = schedule_fields [OF b assms(7)]
  have tb: "bt_prefill (tick_batch ld s) = []" "bt_running (tick_batch ld s) = sc_running s1"
    unfolding tick_batch_eq [OF b] prefill_loop_deferred using decode_first_spec(1) [OF d] by (simp_all add: s3_def)
  have "rq_id r \<in> set (decode_ids [] (sc_running s1))"
    using rdy(2) assms(6) by (auto simp: decode_ids_def s3_def)
  then show ?thesis using F(2,5,6) tb S(2) by simp
qed

end
