(* ===== verification/SchedulerSpec.thy ===== *)
theory SchedulerSpec
  imports DecodeFirst
begin

text \<open>
  What the scheduler promises its engine, tick by tick and over its whole life, and three ways in
  which a tick falls short of it.
\<close>

section \<open>Promises\<close>

text \<open>
  C13. A tick loses no request: when the token budget admits a first chunk, and the prompts in the
  queue and the swap queue fit it together or the scheduler is under pressure, the requests that are
  waiting, running or swapped out after the tick are exactly those that were before, whatever the
  priorities, the admission targets, the preemption and the dispatcher do; paused ones stay paused.
\<close>

theorem tick_keeps_requests:
  assumes "schedule ld s = (out, s')" and "budget_fits ld s"
  shows "ids (queued s') = ids (queued s) \<and> sc_paused s' = sc_paused s"
proof -
  obtain p d pre adm t where b: "before_prefill ld s = (p, d, pre, adm, t)" using before_prefill_ex by blast
  show ?thesis
    using schedule_keeps [OF assms] schedule_fields(4) [OF b assms(1)] before_prefill_spec(2) [OF b]
    by (simp add: same_limits_def)
qed

theorem tick_keeps_requests_witness:
  "ids (queued (snd (schedule idle_load half_prefilled))) = {7}
    \<and> sc_paused (snd (schedule idle_load half_prefilled)) = []"
proof -
  have "budget_fits idle_load half_prefilled"
    by (simp add: budget_fits_def half_prefilled_def sched_eval)
  from tick_keeps_requests [OF prod.collapse [symmetric] this] show ?thesis
    by (simp add: queued_def) (simp add: half_prefilled_def sc_new_def plain_request_def)
qed

text \<open>
  C14. Whatever a new scheduler has gone through -- requests queued, ticks under any load, pauses,
  resumptions, completions, a dispatcher wired or not -- a tick leaves no request prefilled past its
  prompt. Its prefills are grants of tokens to queued requests, none more than the request has left
  and all together at most the token budget, and they are all the progress there is: a request queued
  after the tick was queued before it, as it is or short of its grant. It decodes no request it also
  prefills, and only running requests whose prompt is complete.
\<close>

theorem tick_of_reachable_scheduler:
  assumes "sched_step\<^sup>*\<^sup>* (sc_new max_tokens max_seqs ttft itl) s" and "schedule ld s = (out, s')"
  shows "sched_inv s'
    \<and> (\<exists>g. so_prefill out = map (rq_id \<circ> fst) g \<and> sum_list (map snd g) \<le> sc_max_tokens s
        \<and> (\<forall>x \<in> set g. fst x \<in> set (queued s) \<and> snd x \<le> rq_prompt (fst x) - rq_consumed (fst x))
        \<and> set (queued s') \<subseteq> set (queued s) \<union> granted ` set g)
    \<and> set (so_prefill out) \<inter> set (so_decode out) = {}
    \<and> set (so_decode out) \<subseteq> rq_id ` {r \<in> set (sc_running s'). rq_prompt r \<le> rq_consumed r}"
proof -
  have "sched_inv (sc_new max_tokens max_seqs ttft itl)" by (simp add: sched_inv_def queued_def sc_new_def)
  then have "sched_inv s" using sched_run_inv [OF assms(1)] by blast
  then show ?thesis
    using schedule_inv [OF assms(2)] tick_grants [OF assms(2), unfolded remaining_def] schedule_decode [OF assms(2)] by blast
qed

text \<open>The first tick of a prompt of 2000 tokens: one grant, of at least the 512 it has consumed after.\<close>

theorem tick_of_reachable_scheduler_witness:
  "sched_inv half_prefilled \<and> (\<exists>k. 512 \<le> k \<and> k \<le> (1024 :: nat)
    \<and> granted (plain_request 7 2000, k) = (plain_request 7 2000)\<lparr>rq_consumed := 512\<rparr>)"
proof -
  let ?r = "plain_request 7 2000" and ?s = "enqueue (plain_request 7 2000) (sc_new 1024 4 0 0)"
  have "sched_step\<^sup>*\<^sup>* (sc_new 1024 4 0 0) ?s"
    by (intro r_into_rtranclp sc_enqueue) (simp add: req_ok_def plain_request_def)
  from tick_of_reachable_scheduler [OF this prod.collapse [symmetric], of idle_load]
  obtain g where inv: "sched_inv half_prefilled" and g: "sum_list (map snd g) \<le> sc_max_tokens ?s"
    "\<forall>x \<in> set g. fst x \<in> set (queued ?s)" "set (queued half_prefilled) \<subseteq> set (queued ?s) \<union> granted ` set g"
    unfolding half_prefilled_tick by blast
  have q: "queued ?s = [?r]" "sc_max_tokens ?s = 1024" by (simp_all add: queued_def enqueue_def sc_new_def)
  have "?r\<lparr>rq_consumed := 512\<rparr> \<in> set (queued half_prefilled)"
    by (simp add: queued_def half_prefilled_def plain_request_def)
  moreover have "?r\<lparr>rq_consumed := 512\<rparr> \<noteq> ?r" by (simp add: plain_request_def)
  ultimately obtain x where x: "x \<in> set g" "granted x = ?r\<lparr>rq_consumed := 512\<rparr>" using g(3) q(1) by auto
  obtain k where k: "x = (?r, k)" using g(2) x(1) q(1) by (cases x) auto
  have "k = 512" using x(2) by (simp add: k granted_def plain_request_def)
  moreover have "k \<le> sum_list (map snd g)" using x(1) k member_le_sum_list [of k "map snd g"] by force
  ultimately show ?thesis using inv g(1) q(2) x(2) k by auto
qed

text \<open>
  C15. A lone prompt longer than the token budget is prefilled chunk by chunk, in a scheduler that has
  room for two sequences, a positive chunk size within the token budget, no readiness dispatcher and no target
  for the time to first token (0, admit all): after as many ticks as its remaining tokens have chunks,
  under any loads, its running entry has consumed the whole prompt and nothing of it waits. With a
  chunk larger than the budget it is false: see \<open>over_budget_tick_drops\<close>.
\<close>

theorem long_prompt_prefilled:
  assumes "lone r s" and "rq_consumed r < rq_prompt r" and "length lds = div_ceil (remaining r) (sc_chunk s)"
  shows "sc_running (run_ticks lds s) = [r\<lparr>rq_consumed := rq_prompt r\<rparr>] \<and> sc_waiting (run_ticks lds s) = []"
proof (rule lone_run [OF assms(1)])
  have c: "0 < sc_chunk s" using assms(1) by (simp add: lone_def)
  have r: "0 < remaining r" using assms(2) by (simp add: remaining_def)
  show "remaining r \<le> length lds * sc_chunk s"
    using assms(3) c div_ceil_le_iff [of "sc_chunk s" "remaining r" "length lds"] by simp
  have n: "0 < length lds"
    using \<open>remaining r \<le> length lds * sc_chunk s\<close> r by (cases "length lds") auto
  then show "lds \<noteq> []" by simp
  show "(length lds - 1) * sc_chunk s < remaining r"
  proof (rule ccontr)
    assume "\<not> (length lds - 1) * sc_chunk s < remaining r"
    then have "div_ceil (remaining r) (sc_chunk s) \<le> length lds - 1"
      using c div_ceil_le_iff [of "sc_chunk s" "remaining r" "length lds - 1"] by simp
    then show False using assms(3) n by simp
  qed
qed (use assms(2) in simp)

theorem long_prompt_prefilled_witness:
  "sc_waiting (run_ticks [idle_load, idle_load, idle_load] half_prefilled) = []"
proof -
  define r where "r = (plain_request 7 2000)\<lparr>rq_consumed := 512\<rparr>"
  have "lone r half_prefilled"
    by (simp add: lone_def half_prefilled_def sc_new_def remainder_def remaining_def r_def plain_request_def)
  moreover have "length [idle_load, idle_load, idle_load] = div_ceil (remaining r) (sc_chunk half_prefilled)"
    by (simp add: div_ceil_def r_def remaining_def plain_request_def half_prefilled_def sc_new_def)
  moreover have "rq_consumed r < rq_prompt r" by (simp add: r_def plain_request_def)
  ultimately show ?thesis using long_prompt_prefilled by blast
qed

text \<open>
  C16. Decode goes first under pressure: with a dispatcher wired that has no stale entry at the front
  of its queue, a tick that finds a running request ready to decode, and preempts nobody, prefills
  nothing, keeps the batch as it is and decodes that request.
\<close>

theorem decode_goes_first:
  assumes "sc_readiness s = Some dp" and "decode_only dp" and "pressure_active ld (sort_queues s)"
    and "running_tokens s \<le> sc_max_tokens s" and "r \<in> set (sc_running s)" and "rq_prompt r \<le> rq_consumed r"
    and "schedule ld s = (out, s')"
  shows "so_prefill out = [] \<and> mset (sc_running s') = mset (sc_running s) \<and> rq_id r \<in> set (so_decode out)"
  by (rule schedule_deferred [OF assms])

theorem decode_goes_first_witness:
  "so_prefill (fst (schedule idle_load (half_prefilled\<lparr>sc_running := [(plain_request 3 8)\<lparr>rq_consumed := 8\<rparr>],
      sc_readiness := Some (rd_new 0 None)\<rparr>))) = []"
proof -
  define r where "r = (plain_request 3 8)\<lparr>rq_consumed := 8\<rparr>"
  define s where "s = half_prefilled\<lparr>sc_running := [r], sc_readiness := Some (rd_new 0 None)\<rparr>"
  have s: "sc_readiness s = Some (rd_new 0 None)" "r \<in> set (sc_running s)"
    "running_tokens s \<le> sc_max_tokens s" "rq_prompt r \<le> rq_consumed r"
    by (simp_all add: s_def r_def running_tokens_def remaining_def half_prefilled_def sc_new_def plain_request_def)
  have p: "pressure_active idle_load (sort_queues s)"
    by (simp add: s_def sort_queues_def half_prefilled_def sc_new_def plain_request_def
        pressure_active_def token_backlog_def)
  show ?thesis
    using decode_goes_first [OF s(1) decode_only_new p s(3,2,4) prod.collapse [symmetric]]
    by (simp add: s_def r_def)
qed

text \<open>
  The adapter segments of a tick cover its batch: contiguous from position 0, each with the length
  of its list, with strictly ascending adapter ids, and their sequences together are the sequences
  of the batch, each once.
\<close>

theorem segments_cover_batch:
  "segments_from 0 (lora_segments rs) \<and> sorted_wrt (<) (map ls_adapter (lora_segments rs))
    \<and> mset (concat (map ls_ids (lora_segments rs))) = mset (map rq_id rs)"
  using lora_segments_spec [of rs] by blast

text \<open>
  The row plan is a run-length encoding of the rows' adapters: expanded it gives back the rows,
  its segments start where the previous one ends, none is empty, and neighbours differ.
\<close>

theorem row_plan_expands:
  "expand_rows (plan_for_rows rows) = rows \<and> segs_from 0 (plan_for_rows rows)"
  using plan_for_rows_spec [of rows] by blast

section \<open>Shortfalls\<close>

text \<open>
  A tick can lose requests: with a token budget below the chunk size and a first request longer
  than the budget, the tick prefills nothing, and of all the requests that waited only the first is
  left in any queue.
\<close>

theorem over_budget_tick_drops:
  assumes "sc_waiting s = r # rs" and "sc_running s = []" and "sc_swapped s = []"
    and "\<not> sc_strict s" and "\<not> has_inversion (r # rs)" and "sc_target_ttft s = 0" and "sc_readiness s = None"
    and "0 < sc_max_seqs s" and "sc_max_tokens s < sc_chunk s" and "sc_max_tokens s < remaining r"
    and "schedule ld s = (out, s')"
  shows "so_prefill out = [] \<and> so_decode out = [] \<and> queued s' = [r] \<and> sc_paused s' = sc_paused s"
  by (rule over_budget_tick [OF assms])

theorem over_budget_tick_drops_witness:
  "queued (snd (schedule idle_load
      (enqueue (plain_request 5 10) (enqueue (plain_request 7 2000) (sc_new 256 4 0 0)))))
    = [plain_request 7 2000]"
proof -
  define s where "s = enqueue (plain_request 5 10) (enqueue (plain_request 7 2000) (sc_new 256 4 0 0))"
  have "sc_waiting s = plain_request 7 2000 # [plain_request 5 10]" "sc_running s = []" "sc_swapped s = []"
    "\<not> sc_strict s" "sc_target_ttft s = 0" "sc_readiness s = None"
    "0 < sc_max_seqs s" "sc_max_tokens s < sc_chunk s" "sc_max_tokens s < remaining (plain_request 7 2000)"
    by (simp_all add: s_def enqueue_def sc_new_def remaining_def plain_request_def)
  moreover have "\<not> has_inversion (plain_request 7 2000 # [plain_request 5 10])"
    by (simp add: plain_request_def)
  ultimately show ?thesis
    using over_budget_tick_drops [OF _ _ _ _ _ _ _ _ _ _ prod.collapse [symmetric], of s] by (simp add: s_def)
qed

text \<open>
  A batch can be stuck for ever: when it is full and every running request still has prompt left,
  the tick changes nothing at all and hands the engine nothing to do, because the cap counts a
  request's running copy against its own next chunk.
\<close>

theorem full_batch_is_stuck:
  assumes "sc_max_seqs s \<le> length (sc_running s)" and "list_all (\<lambda>r. 0 < remaining r) (sc_running s)"
    and "running_tokens s \<le> sc_max_tokens s" and "sc_swapped s = []" and "sc_readiness s = None"
    and "\<not> sc_strict s" and "\<not> has_inversion (sc_waiting s)" and "sc_target_ttft s = 0"
  shows "run_ticks lds s = s \<and> so_prefill (fst (schedule ld s)) = [] \<and> so_decode (fst (schedule ld s)) = []"
proof -
  note T = full_batch_tick [OF assms(1) _ assms(3-8)]
  have r: "\<forall>r \<in> set (sc_running s). remaining r > 0" using assms(2) by (simp add: list_all_iff)
  have "run_ticks lds s = s" by (induction lds) (simp_all add: T(1) [OF r])
  then show ?thesis using T(2,3) [OF r] by blast
qed

theorem full_batch_is_stuck_witness:
  "run_ticks [idle_load, idle_load] (snd (schedule idle_load (enqueue (plain_request 7 1500) (sc_new 1024 1 0 0))))
     = snd (schedule idle_load (enqueue (plain_request 7 1500) (sc_new 1024 1 0 0)))"
proof -
  define s where "s = snd (schedule idle_load (enqueue (plain_request 7 1500) (sc_new 1024 1 0 0)))"
  have s: "s = (sc_new 1024 1 0 0)
     \<lparr>sc_waiting := [(plain_request 7 1500)\<lparr>rq_consumed := 512\<rparr>],
      sc_running := [(plain_request 7 1500)\<lparr>rq_consumed := 512\<rparr>], sc_admitted_total := 1\<rparr>"
    unfolding s_def by (simp add: sched_eval)
  have "sc_max_seqs s \<le> length (sc_running s)" "list_all (\<lambda>r. 0 < remaining r) (sc_running s)"
    "running_tokens s \<le> sc_max_tokens s" "sc_swapped s = []" "sc_readiness s = None"
    "\<not> sc_strict s" "\<not> has_inversion (sc_waiting s)" "sc_target_ttft s = 0"
    by (simp_all add: s running_tokens_def remaining_def plain_request_def sc_new_def)
  from full_batch_is_stuck [OF this] show ?thesis by (simp add: s_def)
qed

text \<open>
  A pause does not hold a request that is still being prefilled: after one tick over a prompt of
  2000 tokens under a budget of 1024, the request is paused; the next tick prefills it nevertheless
  while it is still listed as paused, and resuming it then puts a second entry of it into the batch.
\<close>

theorem paused_request_runs:
  "so_prefill (fst (schedule idle_load (snd (pause 7 half_prefilled)))) = [7]
    \<and> is_paused 7 (snd (schedule idle_load (snd (pause 7 half_prefilled))))
    \<and> map rq_id (sc_running (snd (resume 7 (snd (schedule idle_load (snd (pause 7 half_prefilled))))))) = [7, 7]
    \<and> snd (schedule idle_load (enqueue (plain_request 7 2000) (sc_new 1024 4 0 0))) = half_prefilled"
  using paused_request_runs_again half_prefilled_tick by blast

end
