(* ===== verification/JsonFsm.thy ===== *)
theory JsonFsm
  imports GrimPrelude
begin

text \<open>
  The pushdown automaton of \<open>crates/grim-constrain/src/json_fsm.rs\<close> that masks tokens in JSON mode.
  A character is its code point; the bracket stack has its top first (the code pushes at the end).
\<close>

section \<open>Characters\<close>

type_synonym uchar = nat
type_synonym ustring = "uchar list"

definition code_of :: "char \<Rightarrow> uchar" where
  "code_of c = of_char c"

definition us :: "string \<Rightarrow> ustring" where
  "us s = map code_of s"

definition is_ascii_digit :: "uchar \<Rightarrow> bool" where
  "is_ascii_digit c \<longleftrightarrow> 48 \<le> c \<and> c \<le> 57"

definition is_ascii_hexdigit :: "uchar \<Rightarrow> bool" where
  "is_ascii_hexdigit c \<longleftrightarrow> is_ascii_digit c \<or> (65 \<le> c \<and> c \<le> 70) \<or> (97 \<le> c \<and> c \<le> 102)"

text \<open>\<open>char::is_control\<close>: the general category Cc.\<close>

definition is_control :: "uchar \<Rightarrow> bool" where
  "is_control c \<longleftrightarrow> c < 32 \<or> (127 \<le> c \<and> c \<le> 159)"

definition is_json_ws :: "uchar \<Rightarrow> bool" where
  "is_json_ws c \<longleftrightarrow> c = 32 \<or> c = 9 \<or> c = 10 \<or> c = 13"

section \<open>States\<close>

datatype bracket = Object | Array

datatype mode = ExpectValue | ExpectKey | ExpectColon | ExpectSep | StringKey | StringValue
  | NumStart bool | NumInt | NumFrac | NumExp | NumExpSign | NumExpDigits
  | LitTrue nat | LitFalse nat | LitNull nat | Done

record json_state =
  js_stack :: "bracket list"
  js_mode :: mode
  js_escaped :: bool
  js_is_key :: bool
  js_hex :: nat

definition js_default :: json_state where
  "js_default = \<lparr>js_stack = [], js_mode = ExpectValue, js_escaped = False, js_is_key = False, js_hex = 0\<rparr>"

definition from_state :: "bracket list \<Rightarrow> mode \<Rightarrow> bool \<Rightarrow> bool \<Rightarrow> json_state" where
  "from_state stack mode escaped is_key =
     \<lparr>js_stack = stack, js_mode = mode, js_escaped = escaped, js_is_key = is_key, js_hex = 0\<rparr>"

text \<open>The top of the stack, the mode after a complete value, and the pop that closes a bracket.\<close>

definition top_is :: "bracket \<Rightarrow> json_state \<Rightarrow> bool" where
  "top_is b s \<longleftrightarrow> (case js_stack s of [] \<Rightarrow> False | t # _ \<Rightarrow> t = b)"

definition value_done :: "json_state \<Rightarrow> json_state" where
  "value_done s = s\<lparr>js_mode := (if js_stack s = [] then Done else ExpectSep)\<rparr>"

definition close_bracket :: "json_state \<Rightarrow> json_state" where
  "close_bracket s = value_done (s\<lparr>js_stack := tl (js_stack s)\<rparr>)"

section \<open>One character\<close>

definition advance_value :: "json_state \<Rightarrow> uchar \<Rightarrow> bool \<times> json_state" where
  "advance_value s c =
     (if c = code_of CHR ''{'' then (True, s\<lparr>js_stack := Object # js_stack s, js_mode := ExpectKey, js_is_key := True\<rparr>)
      else if c = code_of CHR ''['' then (True, s\<lparr>js_stack := Array # js_stack s, js_mode := ExpectValue, js_is_key := False\<rparr>)
      else if c = code_of (CHR 0x22) then (True, s\<lparr>js_mode := StringValue, js_escaped := False, js_is_key := False\<rparr>)
      else if c = code_of CHR ''}'' \<and> top_is Object s then (True, close_bracket s)
      else if c = code_of CHR '']'' \<and> top_is Array s then (True, close_bracket s)
      else if c = code_of CHR ''-'' then (True, s\<lparr>js_mode := NumStart True\<rparr>)
      else if is_ascii_digit c then (True, s\<lparr>js_mode := ExpectSep\<rparr>)
      else if c = code_of CHR ''t'' then (True, s\<lparr>js_mode := LitTrue 1\<rparr>)
      else if c = code_of CHR ''f'' then (True, s\<lparr>js_mode := LitFalse 1\<rparr>)
      else if c = code_of CHR ''n'' then (True, s\<lparr>js_mode := LitNull 1\<rparr>)
      else (is_json_ws c, s))"

definition advance_key :: "json_state \<Rightarrow> uchar \<Rightarrow> bool \<times> json_state" where
  "advance_key s c =
     (if c = code_of CHR ''}'' \<and> top_is Object s then (True, close_bracket s)
      else if c = code_of (CHR 0x22) then (True, s\<lparr>js_mode := StringKey, js_escaped := False, js_is_key := True\<rparr>)
      else (is_json_ws c, s))"

definition advance_colon :: "json_state \<Rightarrow> uchar \<Rightarrow> bool \<times> json_state" where
  "advance_colon s c =
     (if c = code_of CHR '':'' then (True, s\<lparr>js_mode := ExpectValue, js_is_key := False\<rparr>)
      else (is_json_ws c, s))"

definition is_number_char :: "uchar \<Rightarrow> bool" where
  "is_number_char c \<longleftrightarrow> is_ascii_digit c \<or> c = code_of CHR ''.'' \<or> c = code_of CHR ''e'' \<or> c = code_of CHR ''E''
     \<or> c = code_of CHR ''+'' \<or> c = code_of CHR ''-''"

definition advance_sep :: "json_state \<Rightarrow> uchar \<Rightarrow> bool \<times> json_state" where
  "advance_sep s c =
     (if c = code_of CHR '','' then
        (case js_stack s of
           Object # _ \<Rightarrow> (True, s\<lparr>js_mode := ExpectKey, js_is_key := True\<rparr>)
         | Array # _ \<Rightarrow> (True, s\<lparr>js_mode := ExpectValue, js_is_key := False\<rparr>)
         | [] \<Rightarrow> (False, s))
      else if c = code_of CHR ''}'' then
        (if top_is Object s then (True, close_bracket s)
         else if js_stack s = [] then (True, s\<lparr>js_mode := Done\<rparr>)
         else (False, s))
      else if c = code_of CHR '']'' \<and> top_is Array s then (True, close_bracket s)
      else (is_number_char c \<or> is_json_ws c, s))"

definition advance_string :: "json_state \<Rightarrow> uchar \<Rightarrow> bool \<times> json_state" where
  "advance_string s c =
     (if js_escaped s then
        (if c \<in> set (us [CHR 0x22, CHR 0x5C, CHR ''/'', CHR ''b'', CHR ''f'', CHR ''n'', CHR ''r'', CHR ''t''])
         then (True, s\<lparr>js_escaped := False\<rparr>)
         else if c = code_of CHR ''u'' then (True, s\<lparr>js_escaped := False, js_hex := 4\<rparr>)
         else (False, s))
      else if c = code_of (CHR 0x5C) then (True, s\<lparr>js_escaped := True\<rparr>)
      else if c = code_of (CHR 0x22) then
        (True, if js_mode s = StringKey then s\<lparr>js_mode := ExpectColon\<rparr> else value_done s)
      else (\<not> is_control c, s))"

definition advance_literal :: "ustring \<Rightarrow> (nat \<Rightarrow> mode) \<Rightarrow> nat \<Rightarrow> json_state \<Rightarrow> uchar \<Rightarrow> bool \<times> json_state" where
  "advance_literal expected mk n s c =
     (if n < length expected \<and> c = expected ! n
      then (True, if n + 1 = length expected then value_done s else s\<lparr>js_mode := mk (n + 1)\<rparr>)
      else (False, s))"

definition advance_number :: "json_state \<Rightarrow> uchar \<Rightarrow> bool \<times> json_state" where
  "advance_number s c =
     (if is_number_char c then (True, s)
      else if c = code_of CHR ''}'' \<or> c = code_of CHR '']'' \<or> c = code_of CHR '','' \<or> is_json_ws c
      then advance_sep (s\<lparr>js_mode := ExpectSep\<rparr>) c
      else (False, s))"

definition advance :: "json_state \<Rightarrow> uchar \<Rightarrow> bool \<times> json_state" where
  "advance s c =
     (if js_hex s > 0 then (if is_ascii_hexdigit c then (True, s\<lparr>js_hex := js_hex s - 1\<rparr>) else (False, s))
      else (case js_mode s of
          ExpectValue \<Rightarrow> advance_value s c
        | ExpectKey \<Rightarrow> advance_key s c
        | ExpectColon \<Rightarrow> advance_colon s c
        | ExpectSep \<Rightarrow> advance_sep s c
        | StringKey \<Rightarrow> advance_string s c
        | StringValue \<Rightarrow> advance_string s c
        | NumStart _ \<Rightarrow> if is_ascii_digit c then (True, s\<lparr>js_mode := ExpectSep\<rparr>) else (False, s)
        | NumInt \<Rightarrow> advance_number s c
        | NumFrac \<Rightarrow> advance_number s c
        | NumExp \<Rightarrow> advance_number s c
        | NumExpSign \<Rightarrow> advance_number s c
        | NumExpDigits \<Rightarrow> advance_number s c
        | LitTrue n \<Rightarrow> advance_literal (us ''true'') LitTrue n s c
        | LitFalse n \<Rightarrow> advance_literal (us ''false'') LitFalse n s c
        | LitNull n \<Rightarrow> advance_literal (us ''null'') LitNull n s c
        | Done \<Rightarrow> (is_json_ws c, s)))"

section \<open>Tokens and masks\<close>

text \<open>\<open>feed_token\<close> keeps what it has consumed when a character is refused.\<close>

fun feed_token :: "json_state \<Rightarrow> ustring \<Rightarrow> bool \<times> json_state" where
  "feed_token s [] = (True, s)"
| "feed_token s (c # cs) = (case advance s c of (True, t) \<Rightarrow> feed_token t cs | (False, t) \<Rightarrow> (False, t))"

definition token_is_valid :: "json_state \<Rightarrow> ustring \<Rightarrow> bool" where
  "token_is_valid s token = fst (feed_token s token)"

definition is_done :: "json_state \<Rightarrow> bool" where
  "is_done s \<longleftrightarrow> js_mode s = Done"

record fsm_check =
  fc_next :: json_state
  fc_valid :: bool
  fc_root_done :: bool

definition check_token :: "json_state \<Rightarrow> ustring \<Rightarrow> fsm_check" where
  "check_token s text =
     (case feed_token s text of (valid, t) \<Rightarrow>
        \<lparr>fc_next = t, fc_valid = valid,
         fc_root_done = (valid \<and> js_stack t = [] \<and> (js_mode t = Done \<or> js_mode t = ExpectSep \<or> is_done t))\<rparr>)"

definition stack_depth :: "json_state \<Rightarrow> nat" where
  "stack_depth s = length (js_stack s)"

definition valid_tokens :: "json_state \<Rightarrow> ustring list \<Rightarrow> bool list" where
  "valid_tokens s vocab = map (token_is_valid s) vocab"

text \<open>
  \<open>apply_mask\<close>: logits are bit patterns; \<open>None\<close> is the out-of-bounds panic of a mask longer than
  the logits (the debug assertion is not part of a release build).
\<close>

definition F32_NEG_INFINITY :: u32 where
  "F32_NEG_INFINITY = 0xFF800000"

definition apply_mask :: "u32 list \<Rightarrow> bool list \<Rightarrow> u32 list option" where
  "apply_mask logits ok =
     (if list_all Not ok then Some logits
      else if \<exists>i \<in> set [0..<length ok]. \<not> ok ! i \<and> length logits \<le> i then None
      else Some (map (\<lambda>(i, x). if i < length ok \<and> \<not> ok ! i then F32_NEG_INFINITY else x)
             (zip [0..<length logits] logits)))"

type_synonym mask_cache = "json_state \<rightharpoonup> bool list"

definition mask_for :: "mask_cache \<Rightarrow> json_state \<Rightarrow> ustring list \<Rightarrow> bool list \<times> mask_cache" where
  "mask_for cache s vocab =
     (case cache s of
        Some m \<Rightarrow> (m, cache)
      | None \<Rightarrow> (valid_tokens s vocab, cache(s \<mapsto> valid_tokens s vocab)))"

end
