(* ===== verification/BoundedRegex.thy ===== *)
theory BoundedRegex
  imports JsonFsm
begin

text \<open>
  The regex subset of \<open>crates/grim-constrain/src/schema.rs\<close> that checks string patterns: parser,
  backtracking matcher with its step budget, and the fallback for patterns that do not parse. The
  code's index into the pattern is the rest of the pattern from that index; its index into the text
  is the rest of the text.
\<close>

section \<open>Patterns\<close>

datatype char_matcher = Any | Exact uchar | CharClass "(uchar \<times> uchar) list" "uchar list" bool

fun cm_matches :: "char_matcher \<Rightarrow> uchar \<Rightarrow> bool" where
  "cm_matches Any c \<longleftrightarrow> True"
| "cm_matches (Exact t) c \<longleftrightarrow> t = c"
| "cm_matches (CharClass ranges chars negated) c \<longleftrightarrow>
     (let hit = (c \<in> set chars \<or> (\<exists>(low, high) \<in> set ranges. low \<le> c \<and> c \<le> high))
      in if negated then \<not> hit else hit)"

record regex_element =
  re_matcher :: char_matcher
  re_min :: nat
  re_max :: nat

record bounded_regex =
  br_elements :: "regex_element list"
  br_anchor_start :: bool
  br_anchor_end :: bool

definition USIZE_MAX :: nat where
  "USIZE_MAX = 2 ^ 64 - 1"

section \<open>Parsing\<close>

text \<open>\<open>str::trim\<close> (the Unicode property White_Space), \<open>split_once(',')\<close>, \<open>usize::from_str\<close>.\<close>

definition is_whitespace :: "uchar \<Rightarrow> bool" where
  "is_whitespace c \<longleftrightarrow> (9 \<le> c \<and> c \<le> 13) \<or> c = 32 \<or> c = 0x85 \<or> c = 0xA0 \<or> c = 0x1680
     \<or> (0x2000 \<le> c \<and> c \<le> 0x200A) \<or> c = 0x2028 \<or> c = 0x2029 \<or> c = 0x202F \<or> c = 0x205F \<or> c = 0x3000"

definition trim :: "ustring \<Rightarrow> ustring" where
  "trim w = rev (dropWhile is_whitespace (rev (dropWhile is_whitespace w)))"

fun split_at :: "uchar \<Rightarrow> ustring \<Rightarrow> (ustring \<times> ustring) option" where
  "split_at d [] = None"
| "split_at d (c # w) = (if c = d then Some ([], w) else map_option (\<lambda>(a, b). (c # a, b)) (split_at d w))"

fun parse_digits :: "ustring \<Rightarrow> nat \<Rightarrow> nat option" where
  "parse_digits [] n = Some n"
| "parse_digits (c # w) n =
     (if is_ascii_digit c \<and> n * 10 + (c - 48) \<le> USIZE_MAX then parse_digits w (n * 10 + (c - 48)) else None)"

definition parse_usize :: "ustring \<Rightarrow> nat option" where
  "parse_usize w =
     (case w of
        [] \<Rightarrow> None
      | c # cs \<Rightarrow> if c = code_of CHR ''+'' then (if cs = [] then None else parse_digits cs 0) else parse_digits w 0)"

text \<open>The inside of a bracket class, up to its closing bracket; ranges are tried before escapes.\<close>

fun parse_class :: "ustring \<Rightarrow> (uchar \<times> uchar) list \<Rightarrow> uchar list \<Rightarrow> ((uchar \<times> uchar) list \<times> uchar list \<times> ustring) option" where
  "parse_class [] ranges chars = None"
| "parse_class (c # w) ranges chars =
     (if c = code_of CHR '']'' then Some (ranges, chars, w)
      else if 2 \<le> length w \<and> w ! 0 = code_of CHR ''-'' \<and> w ! 1 \<noteq> code_of CHR '']''
      then parse_class (drop 2 w) (ranges @ [(c, w ! 1)]) chars
      else if c = code_of (CHR 0x5C) \<and> w \<noteq> [] then
        (let esc = hd w in
         if esc = code_of CHR ''d'' then parse_class (tl w) (ranges @ [(48, 57)]) chars
         else if esc = code_of CHR ''w'' then parse_class (tl w) (ranges @ [(97, 122), (65, 90), (48, 57)]) (chars @ [95])
         else if esc = code_of CHR ''s'' then parse_class (tl w) ranges (chars @ [32, 9, 10, 13])
         else parse_class (tl w) ranges (chars @ [esc]))
      else parse_class w ranges (chars @ [c]))"

definition escape_matcher :: "uchar \<Rightarrow> char_matcher" where
  "escape_matcher e =
     (if e = code_of CHR ''d'' then CharClass [(48, 57)] [] False
      else if e = code_of CHR ''D'' then CharClass [(48, 57)] [] True
      else if e = code_of CHR ''w'' then CharClass [(97, 122), (65, 90), (48, 57)] [95] False
      else if e = code_of CHR ''W'' then CharClass [(97, 122), (65, 90), (48, 57)] [95] True
      else if e = code_of CHR ''s'' then CharClass [] [32, 9, 10, 13] False
      else if e = code_of CHR ''S'' then CharClass [] [32, 9, 10, 13] True
      else Exact e)"

definition parse_matcher :: "uchar \<Rightarrow> ustring \<Rightarrow> (char_matcher \<times> ustring) option" where
  "parse_matcher c w =
     (if c = code_of CHR ''.'' then Some (Any, w)
      else if c = code_of (CHR 0x5C) then (case w of [] \<Rightarrow> None | e # w1 \<Rightarrow> Some (escape_matcher e, w1))
      else if c = code_of CHR ''['' then
        (let neg = (w \<noteq> [] \<and> hd w = 94) in
         case parse_class (if neg then tl w else w) [] [] of
           None \<Rightarrow> None
         | Some (ranges, chars, w1) \<Rightarrow> Some (CharClass ranges chars neg, w1))
      else Some (Exact c, w))"

definition parse_bounds :: "ustring \<Rightarrow> (nat \<times> nat) option" where
  "parse_bounds q =
     (case split_at (code_of CHR '','') q of
        Some (a, b) \<Rightarrow>
          (case parse_usize (trim a) of
             None \<Rightarrow> None
           | Some lo \<Rightarrow> if trim b = [] then Some (lo, USIZE_MAX) else map_option (Pair lo) (parse_usize (trim b)))
      | None \<Rightarrow> map_option (\<lambda>n. (n, n)) (parse_usize (trim q)))"

definition parse_quantifier :: "ustring \<Rightarrow> ((nat \<times> nat) \<times> ustring) option" where
  "parse_quantifier w =
     (case w of
        [] \<Rightarrow> Some ((1, 1), w)
      | c # w1 \<Rightarrow>
          if c = code_of CHR ''*'' then Some ((0, USIZE_MAX), w1)
          else if c = code_of CHR ''+'' then Some ((1, USIZE_MAX), w1)
          else if c = code_of CHR ''?'' then Some ((0, 1), w1)
          else if c = code_of CHR ''{'' then
            (case split_at (code_of CHR ''}'') w1 of
               None \<Rightarrow> None
             | Some (q, w2) \<Rightarrow> map_option (\<lambda>b. (b, w2)) (parse_bounds q))
          else Some ((1, 1), w))"

lemma parse_class_length: "parse_class w rs cs = Some (rs', cs', w') \<Longrightarrow> length w' < length w"
  by (induction w rs cs rule: parse_class.induct) (auto simp: Let_def split: if_splits)

lemma parse_matcher_length: "parse_matcher c w = Some (m, w') \<Longrightarrow> length w' \<le> length w"
  by (auto simp: parse_matcher_def Let_def split: if_splits list.splits option.splits prod.splits dest!: parse_class_length)

lemma split_at_length: "split_at d w = Some (a, b) \<Longrightarrow> length b < length w"
  by (induction w arbitrary: a) (auto split: if_splits)

lemma parse_quantifier_length: "parse_quantifier w = Some (q, w') \<Longrightarrow> length w' \<le> length w"
  by (auto simp: parse_quantifier_def split: list.splits if_splits option.splits dest!: split_at_length)

function parse_elements :: "ustring \<Rightarrow> regex_element list option" where
  "parse_elements [] = Some []"
| "parse_elements (c # w) =
     (case parse_matcher c w of
        None \<Rightarrow> None
      | Some (m, w1) \<Rightarrow>
          (case parse_quantifier w1 of
             None \<Rightarrow> None
           | Some ((lo, hi), w2) \<Rightarrow>
               map_option ((#) \<lparr>re_matcher = m, re_min = lo, re_max = hi\<rparr>) (parse_elements w2)))"
  by pat_completeness auto
termination
  by (relation "measure length") (auto dest!: parse_matcher_length parse_quantifier_length)

definition br_parse :: "ustring \<Rightarrow> bounded_regex option" where
  "br_parse pattern =
     (if pattern = [] then Some \<lparr>br_elements = [], br_anchor_start = False, br_anchor_end = False\<rparr>
      else (let start = (hd pattern = 94); i = (if start then 1 else 0); n = length pattern;
                stop = (n > i \<and> last pattern = 36 \<and> (n < 2 \<or> pattern ! (n - 2) \<noteq> code_of (CHR 0x5C)));
                body = drop i (if stop then butlast pattern else pattern)
            in map_option (\<lambda>es. \<lparr>br_elements = es, br_anchor_start = start, br_anchor_end = stop\<rparr>)
                 (parse_elements body)))"

section \<open>Matching\<close>

text \<open>The longest run the element can take, greedily.\<close>

fun max_matched :: "char_matcher \<Rightarrow> nat \<Rightarrow> ustring \<Rightarrow> nat" where
  "max_matched m lim [] = 0"
| "max_matched m lim (c # w) = (if 0 < lim \<and> cm_matches m c then Suc (max_matched m (lim - 1) w) else 0)"

text \<open>The loop over the run lengths, longest first, sharing the step counter.\<close>

fun try_runs :: "(ustring \<Rightarrow> nat \<Rightarrow> bool \<times> nat) \<Rightarrow> nat \<Rightarrow> ustring \<Rightarrow> nat list \<Rightarrow> nat \<Rightarrow> bool \<times> nat" where
  "try_runs f lim text [] steps = (False, steps)"
| "try_runs f lim text (k # ks) steps =
     (case f (drop k text) steps of
        (True, n) \<Rightarrow> (True, n)
      | (False, n) \<Rightarrow> if n > lim then (False, n) else try_runs f lim text ks n)"

primrec match_from :: "bool \<Rightarrow> nat \<Rightarrow> regex_element list \<Rightarrow> ustring \<Rightarrow> nat \<Rightarrow> bool \<times> nat" where
  "match_from anchor_end lim [] text steps =
     (if steps + 1 > lim then (False, steps + 1) else (anchor_end \<longrightarrow> text = [], steps + 1))"
| "match_from anchor_end lim (e # es) text steps =
     (if steps + 1 > lim then (False, steps + 1)
      else (let n = max_matched (re_matcher e) (re_max e) text in
            if n < re_min e then (False, steps + 1)
            else try_runs (match_from anchor_end lim es) lim text (rev [re_min e..<n + 1]) (steps + 1)))"

definition MAX_STEPS :: nat where
  "MAX_STEPS = 10000"

text \<open>The start positions of an unanchored pattern.\<close>

fun match_starts :: "bool \<Rightarrow> nat \<Rightarrow> regex_element list \<Rightarrow> ustring \<Rightarrow> nat \<Rightarrow> bool \<times> nat" where
  "match_starts anchor_end lim es [] steps = match_from anchor_end lim es [] steps"
| "match_starts anchor_end lim es (c # w) steps =
     (case match_from anchor_end lim es (c # w) steps of
        (True, n) \<Rightarrow> (True, n)
      | (False, n) \<Rightarrow> if n \<ge> lim then (False, n) else match_starts anchor_end lim es w n)"

definition br_run :: "bounded_regex \<Rightarrow> ustring \<Rightarrow> bool \<times> nat" where
  "br_run r text =
     (if br_anchor_start r then match_from (br_anchor_end r) MAX_STEPS (br_elements r) text 0
      else match_starts (br_anchor_end r) MAX_STEPS (br_elements r) text 0)"

definition br_matches :: "bounded_regex \<Rightarrow> ustring \<Rightarrow> bool" where
  "br_matches r text = fst (br_run r text)"

text \<open>\<open>validate_pattern\<close>, with the literal readings of a pattern that does not parse.\<close>

definition starts_with :: "ustring \<Rightarrow> ustring \<Rightarrow> bool" where
  "starts_with w p \<longleftrightarrow> take (length p) w = p"

definition ends_with :: "ustring \<Rightarrow> ustring \<Rightarrow> bool" where
  "ends_with w p \<longleftrightarrow> starts_with (rev w) (rev p)"

fun contains :: "ustring \<Rightarrow> ustring \<Rightarrow> bool" where
  "contains [] p \<longleftrightarrow> p = []"
| "contains (c # w) p \<longleftrightarrow> starts_with (c # w) p \<or> contains w p"

definition validate_pattern :: "ustring \<Rightarrow> ustring \<Rightarrow> bool" where
  "validate_pattern pat text =
     (case br_parse pat of
        Some r \<Rightarrow> br_matches r text
      | None \<Rightarrow>
          (let caret = (pat \<noteq> [] \<and> hd pat = 94); dollar = (pat \<noteq> [] \<and> last pat = 36) in
           if caret \<and> dollar then
             (let inner = (if length pat \<ge> 2 then butlast (tl pat) else pat) in
              text = inner \<or> starts_with text inner)
           else if caret then starts_with text (tl pat)
           else if dollar then ends_with text (butlast pat)
           else contains text pat))"

end
