(* ===== verification/JsonSchema.thy ===== *)
theory JsonSchema
  imports BoundedRegex "HOL-Library.AList"
begin

text \<open>
  The JSON-schema constraint of \<open>crates/grim-constrain/src/schema.rs\<close>: keyword check, reference
  resolution, validation, the consistency test on partial output and its memoized mask. A schema is
  a JSON value; an object is the list of its entries in the order of its keys (the parser's map is
  sorted). The number type, its integrality, the parser and the printer belong to the JSON library
  and are parameters.
\<close>

section \<open>Values\<close>

datatype 'n json = JNull | JBool bool | JNum 'n | JStr ustring | JArr "'n json list" | JObj "(ustring \<times> 'n json) list"

fun sget :: "string \<Rightarrow> 'n json \<Rightarrow> 'n json option" where
  "sget k (JObj m) = map_of m (us k)"
| "sget k _ = None"

fun as_str :: "'n json \<Rightarrow> ustring option" where
  "as_str (JStr s) = Some s" | "as_str _ = None"

fun as_array :: "'n json \<Rightarrow> 'n json list option" where
  "as_array (JArr xs) = Some xs" | "as_array _ = None"

fun as_object :: "'n json \<Rightarrow> (ustring \<times> 'n json) list option" where
  "as_object (JObj m) = Some m" | "as_object _ = None"

fun as_bool :: "'n json \<Rightarrow> bool option" where
  "as_bool (JBool b) = Some b" | "as_bool _ = None"

definition get_str :: "string \<Rightarrow> 'n json \<Rightarrow> ustring option" where
  "get_str k s = Option.bind (sget k s) as_str"

definition get_array :: "string \<Rightarrow> 'n json \<Rightarrow> 'n json list option" where
  "get_array k s = Option.bind (sget k s) as_array"

definition get_object :: "string \<Rightarrow> 'n json \<Rightarrow> (ustring \<times> 'n json) list option" where
  "get_object k s = Option.bind (sget k s) as_object"

lemma entry_size: "(k, x) \<in> set m \<Longrightarrow> size x < size (JObj m)"
  by (induction m) auto

lemma map_of_size: "map_of (m :: (ustring \<times> 'n json) list) k = Some x \<Longrightarrow> size x < Suc (size_list (size_prod (\<lambda>x. 0) size) m)"
  using entry_size [OF map_of_SomeD, of m k x] by simp

lemma element_size: "x \<in> set xs \<Longrightarrow> size x < size (JArr xs)"
  by (induction xs) auto

lemma sget_size: "sget k s = Some x \<Longrightarrow> size x < size s"
  by (cases s) (auto dest!: map_of_SomeD entry_size)

lemma get_array_size: "get_array k s = Some xs \<Longrightarrow> x \<in> set xs \<Longrightarrow> size x < size s"
  using sget_size [of k s "JArr xs"] element_size [of x xs]
  by (auto simp: get_array_def bind_eq_Some_conv elim!: as_array.elims)

lemma get_object_size: "get_object k s = Some m \<Longrightarrow> (j, x) \<in> set m \<Longrightarrow> size x < size s"
  using sget_size [of k s "JObj m"] entry_size [of j x m]
  by (auto simp: get_object_def bind_eq_Some_conv elim!: as_object.elims)

section \<open>Keywords\<close>

datatype schema_error = UnsupportedKeyword ustring | NotAnObject | CircularRef | UnsupportedPointer ustring
  | UnresolvedRef ustring | NotIndexable ustring | TypeNotString | UnknownType ustring

definition SUPPORTED_KEYWORDS :: "ustring list" where
  "SUPPORTED_KEYWORDS = map us [''type'', ''properties'', ''required'', ''enum'', ''items'', ''pattern'',
     ''additionalProperties'', ''$ref'', ''$defs'', ''definitions'', ''oneOf'', ''anyOf'', ''allOf'',
     ''description'', ''title'', ''$schema'', ''$id'']"

text \<open>The first error of a loop with \<open>?\<close>.\<close>

fun first_error :: "('a \<Rightarrow> schema_error option) \<Rightarrow> 'a list \<Rightarrow> schema_error option" where
  "first_error f [] = None"
| "first_error f (x # xs) = (case f x of Some e \<Rightarrow> Some e | None \<Rightarrow> first_error f xs)"

lemma first_error_cong [fundef_cong]:
  "xs = ys \<Longrightarrow> (\<And>x. x \<in> set ys \<Longrightarrow> f x = g x) \<Longrightarrow> first_error f xs = first_error g ys"
  by (induction xs arbitrary: ys) (auto split: option.splits)

definition or_else :: "schema_error option \<Rightarrow> schema_error option \<Rightarrow> schema_error option" where
  "or_else a b = (case a of Some e \<Rightarrow> Some e | None \<Rightarrow> b)"

function validate_schema_keywords :: "'n json \<Rightarrow> schema_error option" where
  "validate_schema_keywords s =
     (case s of
        JObj m \<Rightarrow>
          or_else (first_error (\<lambda>k. if k \<in> set SUPPORTED_KEYWORDS then None else Some (UnsupportedKeyword k)) (map fst m))
         (or_else (case get_object ''properties'' s of None \<Rightarrow> None
                   | Some ps \<Rightarrow> first_error (\<lambda>(k, sub). validate_schema_keywords sub) ps)
         (or_else (case sget ''items'' s of None \<Rightarrow> None | Some items \<Rightarrow> validate_schema_keywords items)
         (or_else (case sget ''additionalProperties'' s of None \<Rightarrow> None
                   | Some a \<Rightarrow> if as_object a \<noteq> None then validate_schema_keywords a else None)
                  (first_error (\<lambda>c. case get_array c s of None \<Rightarrow> None
                                  | Some xs \<Rightarrow> first_error validate_schema_keywords xs) [''oneOf'', ''anyOf'', ''allOf'']))))
      | JArr xs \<Rightarrow> first_error validate_schema_keywords xs
      | _ \<Rightarrow> None)"
  by pat_completeness auto
termination
  by (relation "measure size")
    (auto dest: get_object_size sget_size get_array_size element_size map_of_size)

section \<open>References\<close>

text \<open>\<open>split('/')\<close>: the parts between the separators, one more than there are separators.\<close>

fun split_slash :: "ustring \<Rightarrow> ustring list" where
  "split_slash [] = [[]]"
| "split_slash (c # w) =
     (if c = code_of CHR ''/'' then [] # split_slash w
      else (case split_slash w of p # ps \<Rightarrow> (c # p) # ps | [] \<Rightarrow> [[c]]))"

fun follow :: "ustring list \<Rightarrow> 'n json \<Rightarrow> schema_error + 'n json" where
  "follow [] cur = Inr cur"
| "follow (p # ps) (JObj m) = (case map_of m p of None \<Rightarrow> Inl (UnresolvedRef p) | Some x \<Rightarrow> follow ps x)"
| "follow (p # ps) _ = Inl (NotIndexable p)"

definition resolve_pointer :: "ustring \<Rightarrow> 'n json \<Rightarrow> schema_error + 'n json" where
  "resolve_pointer pointer root =
     (if starts_with pointer (us ''#/'') then follow (split_slash (drop 2 pointer)) root
      else Inl (UnsupportedPointer pointer))"

fun map_sum_list :: "('a \<Rightarrow> schema_error + 'b) \<Rightarrow> 'a list \<Rightarrow> schema_error + 'b list" where
  "map_sum_list f [] = Inr []"
| "map_sum_list f (x # xs) =
     (case f x of Inl e \<Rightarrow> Inl e | Inr y \<Rightarrow> (case map_sum_list f xs of Inl e \<Rightarrow> Inl e | Inr ys \<Rightarrow> Inr (y # ys)))"

lemma map_sum_list_cong [fundef_cong]:
  "xs = ys \<Longrightarrow> (\<And>x. x \<in> set ys \<Longrightarrow> f x = g x) \<Longrightarrow> map_sum_list f xs = map_sum_list g ys"
  by (induction xs arbitrary: ys) (auto split: sum.splits)

definition with_key :: "ustring \<Rightarrow> schema_error + 'n json \<Rightarrow> schema_error + (ustring \<times> 'n json)" where
  "with_key k r = (case r of Inl e \<Rightarrow> Inl e | Inr v \<Rightarrow> Inr (k, v))"

function resolve_refs :: "'n json \<Rightarrow> 'n json \<Rightarrow> nat \<Rightarrow> schema_error + 'n json" where
  "resolve_refs s root depth =
     (if depth > 32 then Inl CircularRef
      else (case s of
          JObj m \<Rightarrow>
            (case get_str ''$ref'' s of
               Some r \<Rightarrow> (case resolve_pointer r root of Inl e \<Rightarrow> Inl e | Inr target \<Rightarrow> resolve_refs target root (depth + 1))
             | None \<Rightarrow> (case map_sum_list (\<lambda>(k, v). with_key k (resolve_refs v root (depth + 1))) m of
                          Inl e \<Rightarrow> Inl e | Inr m1 \<Rightarrow> Inr (JObj m1)))
        | JArr xs \<Rightarrow> (case map_sum_list (\<lambda>v. resolve_refs v root (depth + 1)) xs of
                        Inl e \<Rightarrow> Inl e | Inr ys \<Rightarrow> Inr (JArr ys))
        | _ \<Rightarrow> Inr s))"
  by pat_completeness auto
termination
  by (relation "measure (\<lambda>(s, root, depth). 33 - depth)") auto

section \<open>Validation\<close>

definition type_ok :: "('n \<Rightarrow> bool) \<Rightarrow> ustring \<Rightarrow> 'n json \<Rightarrow> bool" where
  "type_ok integral ty v =
     (if ty = us ''object'' then as_object v \<noteq> None
      else if ty = us ''array'' then as_array v \<noteq> None
      else if ty = us ''string'' then as_str v \<noteq> None
      else if ty = us ''number'' then (case v of JNum n \<Rightarrow> True | _ \<Rightarrow> False)
      else if ty = us ''integer'' then (case v of JNum n \<Rightarrow> integral n | _ \<Rightarrow> False)
      else if ty = us ''boolean'' then as_bool v \<noteq> None
      else if ty = us ''null'' then v = JNull
      else False)"

definition has_key :: "(ustring \<times> 'n json) list \<Rightarrow> ustring \<Rightarrow> bool" where
  "has_key m k \<longleftrightarrow> map_of m k \<noteq> None"

function validate :: "('n \<Rightarrow> bool) \<Rightarrow> 'n json \<Rightarrow> 'n json \<Rightarrow> bool" where
  "validate integral v s \<longleftrightarrow>
     (case get_str ''type'' s of None \<Rightarrow> True | Some ty \<Rightarrow> type_ok integral ty v)
   \<and> (case get_str ''pattern'' s of None \<Rightarrow> True
        | Some pat \<Rightarrow> (case as_str v of None \<Rightarrow> True | Some w \<Rightarrow> pat = [] \<or> validate_pattern pat w))
   \<and> (case get_array ''enum'' s of None \<Rightarrow> True | Some allowed \<Rightarrow> v \<in> set allowed)
   \<and> (case get_array ''oneOf'' s of None \<Rightarrow> True | Some xs \<Rightarrow> length (filter (\<lambda>x. validate integral v x) xs) = 1)
   \<and> (case get_array ''anyOf'' s of None \<Rightarrow> True | Some xs \<Rightarrow> list_ex (\<lambda>x. validate integral v x) xs)
   \<and> (case get_array ''allOf'' s of None \<Rightarrow> True | Some xs \<Rightarrow> list_all (\<lambda>x. validate integral v x) xs)
   \<and> (case as_object v of None \<Rightarrow> True
        | Some obj \<Rightarrow>
            (case get_object ''properties'' s of None \<Rightarrow> True
             | Some ps \<Rightarrow> list_all (\<lambda>(k, sub). case map_of obj k of None \<Rightarrow> True | Some x \<Rightarrow> validate integral x sub) ps)
          \<and> (case get_array ''required'' s of None \<Rightarrow> True
             | Some rs \<Rightarrow> list_all (\<lambda>r. has_key obj (case as_str r of Some n \<Rightarrow> n | None \<Rightarrow> [])) rs)
          \<and> (case sget ''additionalProperties'' s of None \<Rightarrow> True
             | Some a \<Rightarrow>
                 (case as_bool a of
                    Some allowed \<Rightarrow> allowed \<or> list_all (\<lambda>(k, x). case get_object ''properties'' s of
                        None \<Rightarrow> False | Some ps \<Rightarrow> has_key ps k) obj
                  | None \<Rightarrow> as_object a = None \<or> list_all (\<lambda>(k, x).
                        (case get_object ''properties'' s of None \<Rightarrow> False | Some ps \<Rightarrow> has_key ps k)
                        \<or> validate integral x a) obj)))
   \<and> (case as_array v of None \<Rightarrow> True
        | Some xs \<Rightarrow> (case sget ''items'' s of None \<Rightarrow> True | Some items \<Rightarrow> list_all (\<lambda>x. validate integral x items) xs))"
  by pat_completeness auto
termination
  by (relation "measure (\<lambda>(i, v, s). size s)")
    (auto dest: get_object_size sget_size get_array_size)

section \<open>Partial output\<close>

text \<open>The error test looks at the message of the parser.\<close>

definition is_truncated_error :: "ustring \<Rightarrow> bool" where
  "is_truncated_error msg \<longleftrightarrow> contains msg (us ''EOF'') \<or> contains msg (us ''trailing'')
     \<or> contains msg (us ''expected'') \<or> contains msg (us ''control character'')"

type_synonym 'n parser = "ustring \<Rightarrow> ustring + 'n json"

definition is_consistent :: "'n parser \<Rightarrow> ('n \<Rightarrow> bool) \<Rightarrow> 'n json \<Rightarrow> ustring \<Rightarrow> bool" where
  "is_consistent parse integral schema partial =
     (case parse partial of Inl msg \<Rightarrow> is_truncated_error msg | Inr v \<Rightarrow> validate integral v schema)"

text \<open>The scan for string constraints, and for the end inside a string.\<close>

function scan_string_constraints :: "'n json \<Rightarrow> bool" where
  "scan_string_constraints s =
     (case s of
        JObj m \<Rightarrow> has_key m (us ''pattern'') \<or> (get_str ''type'' s = Some (us ''string'') \<and> has_key m (us ''enum''))
          \<or> list_ex (\<lambda>(k, x). scan_string_constraints x) m
      | JArr xs \<Rightarrow> list_ex scan_string_constraints xs
      | _ \<Rightarrow> False)"
  by pat_completeness auto
termination
  by (relation "measure size") (auto dest: entry_size element_size)

fun quote_scan :: "ustring \<Rightarrow> bool \<Rightarrow> bool \<Rightarrow> bool" where
  "quote_scan [] in_str escaped = in_str"
| "quote_scan (c # w) in_str escaped =
     (if c = code_of (CHR 0x22) \<and> \<not> escaped then quote_scan w (\<not> in_str) escaped
      else if c = code_of (CHR 0x5C) \<and> in_str then quote_scan w in_str (\<not> escaped)
      else quote_scan w in_str False)"

definition inside_unterminated_string :: "ustring \<Rightarrow> bool" where
  "inside_unterminated_string partial = quote_scan partial False False"

section \<open>The constraint\<close>

record 'n schema_constraint =
  jc_schema :: "'n json"
  jc_cache :: "(ustring \<times> bool list) list"
  jc_has_string :: bool

definition is_known_type :: "ustring \<Rightarrow> bool" where
  "is_known_type ty \<longleftrightarrow> ty \<in> set (map us [''object'', ''array'', ''string'', ''number'', ''integer'', ''boolean'', ''null''])"

definition compile_json_schema :: "'n json \<Rightarrow> schema_error + 'n schema_constraint" where
  "compile_json_schema schema =
     (if as_object schema = None then Inl NotAnObject
      else (case validate_schema_keywords schema of
          Some e \<Rightarrow> Inl e
        | None \<Rightarrow>
            (case resolve_refs schema schema 0 of
               Inl e \<Rightarrow> Inl e
             | Inr s \<Rightarrow>
                 (let c = \<lparr>jc_schema = s, jc_cache = [], jc_has_string = scan_string_constraints s\<rparr> in
                  case sget ''type'' s of
                    None \<Rightarrow> Inr c
                  | Some t \<Rightarrow> (case as_str t of
                                None \<Rightarrow> Inl TypeNotString
                              | Some ty \<Rightarrow> if is_known_type ty then Inr c else Inl (UnknownType ty))))))"

definition inside_string_fast_path :: "'n schema_constraint \<Rightarrow> ustring \<Rightarrow> bool" where
  "inside_string_fast_path c output \<longleftrightarrow> \<not> jc_has_string c \<and> inside_unterminated_string output"

definition schema_mask :: "'n parser \<Rightarrow> ('n \<Rightarrow> bool) \<Rightarrow> 'n json \<Rightarrow> ustring list \<Rightarrow> ustring \<Rightarrow> bool list" where
  "schema_mask parse integral schema vocab output = map (\<lambda>t. is_consistent parse integral schema (output @ t)) vocab"

definition schema_mask_for ::
  "'n parser \<Rightarrow> ('n \<Rightarrow> bool) \<Rightarrow> ustring list \<Rightarrow> ustring \<Rightarrow> 'n schema_constraint \<Rightarrow> bool list \<times> 'n schema_constraint" where
  "schema_mask_for parse integral vocab output c =
     (case map_of (jc_cache c) output of
        Some m \<Rightarrow> (m, c)
      | None \<Rightarrow>
          (let m = schema_mask parse integral (jc_schema c) vocab output;
               cache = (if length (jc_cache c) > 1024 then [] else jc_cache c)
           in (m, c\<lparr>jc_cache := AList.update output m cache\<rparr>)))"

text \<open>\<open>lookahead_jump_forward\<close>; \<open>show\<close> prints a value.\<close>

definition trim_start :: "ustring \<Rightarrow> ustring" where
  "trim_start w = dropWhile is_whitespace w"

definition lookahead_jump_forward :: "('n json \<Rightarrow> ustring) \<Rightarrow> 'n json \<Rightarrow> ustring \<Rightarrow> ustring option" where
  "lookahead_jump_forward print_json schema partial =
     (let trimmed = trim_start partial;
          by_enum = (case get_array ''enum'' schema of
                       Some [v] \<Rightarrow> Some (print_json v) | _ \<Rightarrow> None)
      in if trimmed = [] \<and> get_str ''type'' schema = Some (us ''object'') then Some (us ''{'' @ [10])
         else if trimmed = us ''{'' \<or> trimmed = us ''{'' @ [10] then
           (case get_array ''required'' schema of
              Some [r] \<Rightarrow> (case as_str r of
                            Some key \<Rightarrow> Some ([34] @ key @ [34] @ us '': '')
                          | None \<Rightarrow> by_enum)
            | _ \<Rightarrow> by_enum)
         else by_enum)"

end
