(* ===== verification/JsonFsmLaws.thy ===== *)
theory JsonFsmLaws
  imports JsonFsm
begin

text \<open>
  What the JSON automaton promises: it accepts every JSON document, under every split into tokens;
  from every state it reaches there is a way to finish; masks are what the automaton would say.
\<close>

section \<open>Feeding\<close>

lemma feed_token_append:
  "feed_token s (xs @ ys) = (case feed_token s xs of (True, t) \<Rightarrow> feed_token t ys | (False, t) \<Rightarrow> (False, t))"
  by (induction xs arbitrary: s) (auto split: prod.splits bool.splits)

lemma feed_append_True: "feed_token s xs = (True, t) \<Longrightarrow> feed_token s (xs @ ys) = feed_token t ys"
  by (simp add: feed_token_append)

lemma feed_Cons_True: "advance s c = (True, t) \<Longrightarrow> feed_token s (c # cs) = feed_token t cs"
  by simp

lemma code_simps [simp]:
  "code_of CHR ''{'' = 123" "code_of CHR ''}'' = 125" "code_of CHR ''['' = 91" "code_of CHR '']'' = 93" "code_of (CHR 0x22) = 34"
  "code_of (CHR 0x5C) = 92" "code_of CHR ''-'' = 45" "code_of CHR ''+'' = 43" "code_of CHR ''.'' = 46" "code_of CHR ''e'' = 101"
  "code_of CHR ''E'' = 69" "code_of CHR ''t'' = 116" "code_of CHR ''f'' = 102" "code_of CHR ''n'' = 110" "code_of CHR ''u'' = 117"
  "code_of CHR '','' = 44" "code_of CHR '':'' = 58" "code_of CHR ''/'' = 47" "code_of CHR ''b'' = 98" "code_of CHR ''r'' = 114"
  "code_of CHR ''a'' = 97" "code_of CHR ''l'' = 108" "code_of CHR ''s'' = 115" "code_of CHR ''0'' = 48"
  by (simp_all add: code_of_def)

lemma us_simps [simp]: "us [] = []" "us (c # cs) = code_of c # us cs"
  by (simp_all add: us_def)

section \<open>JSON documents\<close>

text \<open>
  The grammar of RFC 8259, as words of code points. Strings may hold any character but the quotation
  mark, the backslash and the control characters (the RFC only excludes those below U+0020).
\<close>

definition all_ws :: "ustring \<Rightarrow> bool" where
  "all_ws w \<longleftrightarrow> (\<forall>c \<in> set w. is_json_ws c)"

definition digits :: "ustring \<Rightarrow> bool" where
  "digits w \<longleftrightarrow> w \<noteq> [] \<and> (\<forall>c \<in> set w. is_ascii_digit c)"

definition json_number :: "ustring \<Rightarrow> bool" where
  "json_number w \<longleftrightarrow> (\<exists>sign int frac ex. w = sign @ int @ frac @ ex
     \<and> (sign = [] \<or> sign = us ''-'')
     \<and> digits int \<and> (hd int = code_of CHR ''0'' \<longrightarrow> length int = 1)
     \<and> (frac = [] \<or> (\<exists>d. digits d \<and> frac = code_of CHR ''.'' # d))
     \<and> (ex = [] \<or> (\<exists>e sg d. ex = e # sg @ d \<and> (e = code_of CHR ''e'' \<or> e = code_of CHR ''E'')
          \<and> (sg = [] \<or> sg = us ''+'' \<or> sg = us ''-'') \<and> digits d)))"

inductive json_chars :: "ustring \<Rightarrow> bool" where
  jc_Nil: "json_chars []"
| jc_char: "json_chars w \<Longrightarrow> \<not> is_control c \<Longrightarrow> c \<noteq> code_of (CHR 0x22) \<Longrightarrow> c \<noteq> code_of (CHR 0x5C) \<Longrightarrow> json_chars (c # w)"
| jc_escape: "json_chars w \<Longrightarrow> e \<in> set (us [CHR 0x22, CHR 0x5C, CHR ''/'', CHR ''b'', CHR ''f'', CHR ''n'', CHR ''r'', CHR ''t''])
    \<Longrightarrow> json_chars (code_of (CHR 0x5C) # e # w)"
| jc_unicode: "json_chars w \<Longrightarrow> length h = 4 \<Longrightarrow> (\<forall>c \<in> set h. is_ascii_hexdigit c)
    \<Longrightarrow> json_chars (code_of (CHR 0x5C) # code_of CHR ''u'' # h @ w)"

definition quoted :: "ustring \<Rightarrow> ustring" where
  "quoted w = code_of (CHR 0x22) # w @ [code_of (CHR 0x22)]"

inductive json_value :: "ustring \<Rightarrow> bool" and json_elements :: "ustring \<Rightarrow> bool" and json_members :: "ustring \<Rightarrow> bool"
where
  jv_true: "json_value (us ''true'')"
| jv_false: "json_value (us ''false'')"
| jv_null: "json_value (us ''null'')"
| jv_number: "json_number w \<Longrightarrow> json_value w"
| jv_string: "json_chars w \<Longrightarrow> json_value (quoted w)"
| jv_array0: "all_ws w \<Longrightarrow> json_value (us ''['' @ w @ us '']'')"
| jv_array: "json_elements w \<Longrightarrow> json_value (us ''['' @ w @ us '']'')"
| jv_object0: "all_ws w \<Longrightarrow> json_value (us ''{'' @ w @ us ''}'')"
| jv_object: "json_members w \<Longrightarrow> json_value (us ''{'' @ w @ us ''}'')"
| je_one: "all_ws a \<Longrightarrow> json_value v \<Longrightarrow> all_ws b \<Longrightarrow> json_elements (a @ v @ b)"
| je_more: "all_ws a \<Longrightarrow> json_value v \<Longrightarrow> all_ws b \<Longrightarrow> json_elements w \<Longrightarrow> json_elements (a @ v @ b @ us '','' @ w)"
| jm_one: "all_ws a \<Longrightarrow> json_chars k \<Longrightarrow> all_ws b \<Longrightarrow> all_ws c \<Longrightarrow> json_value v \<Longrightarrow> all_ws d
    \<Longrightarrow> json_members (a @ quoted k @ b @ us '':'' @ c @ v @ d)"
| jm_more: "all_ws a \<Longrightarrow> json_chars k \<Longrightarrow> all_ws b \<Longrightarrow> all_ws c \<Longrightarrow> json_value v \<Longrightarrow> all_ws d \<Longrightarrow> json_members w
    \<Longrightarrow> json_members (a @ quoted k @ b @ us '':'' @ c @ v @ d @ us '','' @ w)"

definition json_document :: "ustring \<Rightarrow> bool" where
  "json_document w \<longleftrightarrow> (\<exists>a v b. w = a @ v @ b \<and> all_ws a \<and> json_value v \<and> all_ws b)"

section \<open>Every document is accepted\<close>

text \<open>The automaton at a position of a document: the open brackets, the mode, no escape pending.\<close>

definition at :: "bracket list \<Rightarrow> mode set \<Rightarrow> json_state \<Rightarrow> bool" where
  "at st ms s \<longleftrightarrow> js_stack s = st \<and> js_mode s \<in> ms \<and> js_hex s = 0"

definition after_value :: "bracket list \<Rightarrow> json_state \<Rightarrow> bool" where
  "after_value st s \<longleftrightarrow> at st (if st = [] then {Done, ExpectSep} else {ExpectSep}) s"

definition reads :: "(json_state \<Rightarrow> bool) \<Rightarrow> ustring \<Rightarrow> (json_state \<Rightarrow> bool) \<Rightarrow> bool" where
  "reads P w Q \<longleftrightarrow> (\<forall>s. P s \<longrightarrow> (\<exists>t. feed_token s w = (True, t) \<and> Q t))"

lemma readsI: "(\<And>s. P s \<Longrightarrow> \<exists>t. feed_token s w = (True, t) \<and> Q t) \<Longrightarrow> reads P w Q"
  by (simp add: reads_def)

lemma reads_append: "reads P u Q \<Longrightarrow> reads Q v R \<Longrightarrow> reads P (u @ v) R"
  unfolding reads_def by (metis feed_append_True)

lemma reads_Cons: "reads P [c] Q \<Longrightarrow> reads Q v R \<Longrightarrow> reads P (c # v) R"
  using reads_append [of P "[c]" Q v R] by simp

lemma reads_weaken: "reads P w Q \<Longrightarrow> (\<And>s. P' s \<Longrightarrow> P s) \<Longrightarrow> (\<And>t. Q t \<Longrightarrow> Q' t) \<Longrightarrow> reads P' w Q'"
  unfolding reads_def by blast

lemma reads_loop: "(\<And>c. c \<in> set w \<Longrightarrow> reads P [c] P) \<Longrightarrow> reads P w P"
proof (induction w)
  case Nil
  then show ?case by (simp add: reads_def)
next
  case (Cons c w)
  then show ?case using reads_Cons [of P c P w P] by simp
qed

lemma ws_cases: "is_json_ws c \<Longrightarrow> c = 32 \<or> c = 9 \<or> c = 10 \<or> c = 13"
  by (simp add: is_json_ws_def)

lemma reads_ws:
  "all_ws w \<Longrightarrow> reads (at st {ExpectValue}) w (at st {ExpectValue})"
  "all_ws w \<Longrightarrow> reads (at st {ExpectKey}) w (at st {ExpectKey})"
  "all_ws w \<Longrightarrow> reads (at st {ExpectColon}) w (at st {ExpectColon})"
  "all_ws w \<Longrightarrow> reads (after_value st) w (after_value st)"
proof -
  have "reads (at st {ExpectValue}) [c] (at st {ExpectValue})" "reads (at st {ExpectKey}) [c] (at st {ExpectKey})"
    "reads (at st {ExpectColon}) [c] (at st {ExpectColon})" "reads (after_value st) [c] (after_value st)"
    if "is_json_ws c" for c
    using ws_cases [OF that] that
    by (auto intro!: readsI simp: at_def after_value_def advance_def advance_value_def advance_key_def
        advance_colon_def advance_sep_def top_is_def is_ascii_digit_def split: if_splits)
  then show "all_ws w \<Longrightarrow> reads (at st {ExpectValue}) w (at st {ExpectValue})"
    "all_ws w \<Longrightarrow> reads (at st {ExpectKey}) w (at st {ExpectKey})"
    "all_ws w \<Longrightarrow> reads (at st {ExpectColon}) w (at st {ExpectColon})"
    "all_ws w \<Longrightarrow> reads (after_value st) w (after_value st)"
    by (auto simp: all_ws_def intro: reads_loop)
qed

text \<open>The single characters of the grammar.\<close>

lemma reads_step:
  assumes "\<And>s. P s \<Longrightarrow> fst (advance s c) \<and> Q (snd (advance s c))"
  shows "reads P [c] Q"
proof (rule readsI)
  fix s
  assume "P s"
  from assms [OF this] show "\<exists>t. feed_token s [c] = (True, t) \<and> Q t"
    by (cases "advance s c") auto
qed

lemmas advance_defs = advance_def advance_value_def advance_key_def advance_colon_def advance_sep_def top_is_def
  is_ascii_digit_def is_json_ws_def is_number_char_def value_done_def close_bracket_def

lemma reads_brackets:
  "reads (at st {ExpectValue}) (us ''['') (at (Array # st) {ExpectValue})"
  "reads (at st {ExpectValue}) (us ''{'') (at (Object # st) {ExpectKey})"
  "reads (at (Array # st) {ExpectValue, ExpectSep}) (us '']'') (after_value st)"
  "reads (at (Object # st) {ExpectKey, ExpectSep}) (us ''}'') (after_value st)"
  by (auto intro!: reads_step simp: advance_defs at_def after_value_def)

lemma reads_separators:
  "reads (at (Array # st) {ExpectSep}) (us '','') (at (Array # st) {ExpectValue})"
  "reads (at (Object # st) {ExpectSep}) (us '','') (at (Object # st) {ExpectKey})"
  "reads (at st {ExpectColon}) (us '':'') (at st {ExpectValue})"
  by (auto intro!: reads_step simp: advance_defs at_def)

lemma reads_literals:
  "reads (at st {ExpectValue}) (us ''true'') (after_value st)"
  "reads (at st {ExpectValue}) (us ''false'') (after_value st)"
  "reads (at st {ExpectValue}) (us ''null'') (after_value st)"
  by (auto intro!: readsI simp: advance_defs advance_literal_def at_def after_value_def)

lemma reads_number_chars: "(\<And>c. c \<in> set w \<Longrightarrow> is_number_char c) \<Longrightarrow> reads (at st {ExpectSep}) w (at st {ExpectSep})"
proof (rule reads_loop)
  show "reads (at st {ExpectSep}) [c] (at st {ExpectSep})" if "\<And>c. c \<in> set w \<Longrightarrow> is_number_char c" "c \<in> set w" for c
    using that(1) [OF that(2)] by (intro reads_step) (auto simp: advance_defs at_def)
qed

lemma reads_digit:
  "is_ascii_digit c \<Longrightarrow> reads (at st {ExpectValue}) [c] (at st {ExpectSep})"
  "is_ascii_digit c \<Longrightarrow> reads (at st {NumStart True}) [c] (at st {ExpectSep})"
  by (auto intro!: reads_step simp: advance_defs at_def)

lemma digits_number_chars: "digits w \<Longrightarrow> c \<in> set w \<Longrightarrow> is_number_char c"
  by (simp add: digits_def is_number_char_def)

lemma number_char_lits: "is_number_char 46" "is_number_char 101" "is_number_char 69" "is_number_char 43" "is_number_char 45"
  by (simp_all add: is_number_char_def)

lemma reads_number:
  assumes "json_number w"
  shows "reads (at st {ExpectValue}) w (after_value st)"
proof -
  from assms obtain sign int frac ex where w: "w = sign @ int @ frac @ ex"
    and sign: "sign = [] \<or> sign = us ''-''" and int: "digits int"
    and frac: "frac = [] \<or> (\<exists>d. digits d \<and> frac = code_of CHR ''.'' # d)"
    and ex: "ex = [] \<or> (\<exists>e sg d. ex = e # sg @ d \<and> (e = code_of CHR ''e'' \<or> e = code_of CHR ''E'')
          \<and> (sg = [] \<or> sg = us ''+'' \<or> sg = us ''-'') \<and> digits d)"
    unfolding json_number_def by blast
  obtain c cs where c: "int = c # cs" "is_ascii_digit c" "\<forall>d \<in> set cs. is_ascii_digit d"
    using int by (cases int) (auto simp: digits_def)
  have "\<And>d. d \<in> set frac \<Longrightarrow> is_number_char d" "\<And>d. d \<in> set ex \<Longrightarrow> is_number_char d"
    using frac ex number_char_lits by (auto dest: digits_number_chars)
  then have rest: "reads (at st {ExpectSep}) (cs @ frac @ ex) (at st {ExpectSep})"
    using c(3) by (intro reads_number_chars) (auto simp: is_number_char_def)
  have fin: "\<And>t. at st {ExpectSep} t \<Longrightarrow> after_value st t" by (simp add: at_def after_value_def)
  from sign show ?thesis
  proof
    assume "sign = []"
    then show ?thesis
      using reads_Cons [OF reads_digit(1) [OF c(2)] rest] fin w c(1) by (auto elim: reads_weaken)
  next
    assume s: "sign = us ''-''"
    have "reads (at st {ExpectValue}) [45] (at st {NumStart True})"
      by (intro reads_step) (simp add: advance_defs at_def)
    from reads_Cons [OF this reads_Cons [OF reads_digit(2) [OF c(2)] rest]] show ?thesis
      using fin w c(1) s by (auto elim: reads_weaken)
  qed
qed

text \<open>Strings, keys and values alike.\<close>

definition in_str :: "bracket list \<Rightarrow> mode \<Rightarrow> bool \<Rightarrow> nat \<Rightarrow> json_state \<Rightarrow> bool" where
  "in_str st m esc h s \<longleftrightarrow> js_stack s = st \<and> js_mode s = m \<and> js_escaped s = esc \<and> js_hex s = h"

lemma reads_hex:
  "(\<forall>c \<in> set h. is_ascii_hexdigit c) \<Longrightarrow> reads (in_str st m False (length h)) h (in_str st m False 0)"
proof (induction h)
  case Nil
  then show ?case by (simp add: reads_def)
next
  case (Cons c h)
  have "reads (in_str st m False (Suc (length h))) [c] (in_str st m False (length h))"
    using Cons.prems by (intro reads_step) (auto simp: advance_def in_str_def)
  then show ?case using Cons reads_Cons by fastforce
qed

lemma reads_string_char:
  assumes "m = StringKey \<or> m = StringValue"
  shows "\<not> is_control c \<Longrightarrow> c \<noteq> 34 \<Longrightarrow> c \<noteq> 92 \<Longrightarrow> reads (in_str st m False 0) [c] (in_str st m False 0)"
    and "reads (in_str st m False 0) [92] (in_str st m True 0)"
    and "c \<in> set (us [CHR 0x22, CHR 0x5C, CHR ''/'', CHR ''b'', CHR ''f'', CHR ''n'', CHR ''r'', CHR ''t''])
      \<Longrightarrow> reads (in_str st m True 0) [c] (in_str st m False 0)"
    and "reads (in_str st m True 0) [117] (in_str st m False 4)"
  using assms by (auto intro!: reads_step simp: advance_def advance_string_def in_str_def)

lemma reads_chars:
  assumes "json_chars w" and m: "m = StringKey \<or> m = StringValue"
  shows "reads (in_str st m False 0) w (in_str st m False 0)"
  using assms(1)
proof induction
  case jc_Nil
  then show ?case by (simp add: reads_def)
next
  case (jc_char w c)
  then show ?case using reads_Cons [OF reads_string_char(1) [OF m]] by simp
next
  case (jc_escape w e)
  show ?case
    using reads_Cons [OF reads_string_char(2) [OF m] reads_Cons [OF reads_string_char(3) [OF m jc_escape.hyps(2)] jc_escape.IH]]
    by simp
next
  case (jc_unicode w h)
  have "reads (in_str st m False 4) (h @ w) (in_str st m False 0)"
    using reads_append [OF reads_hex jc_unicode.IH] jc_unicode.hyps(2,3) by metis
  then show ?case
    using reads_Cons [OF reads_string_char(2) [OF m] reads_Cons [OF reads_string_char(4) [OF m]]] by simp
qed

lemma reads_quoted:
  "json_chars w \<Longrightarrow> reads (at st {ExpectValue}) (quoted w) (after_value st)"
  "json_chars w \<Longrightarrow> reads (at st {ExpectKey}) (quoted w) (at st {ExpectColon})"
proof -
  have "reads (at st {ExpectValue}) [34] (in_str st StringValue False 0)"
    "reads (at st {ExpectKey}) [34] (in_str st StringKey False 0)"
    by (auto intro!: reads_step simp: advance_defs at_def in_str_def)
  moreover have "reads (in_str st StringValue False 0) [34] (after_value st)"
    "reads (in_str st StringKey False 0) [34] (at st {ExpectColon})"
    by (auto intro!: reads_step simp: advance_def advance_string_def value_done_def at_def in_str_def after_value_def)
  ultimately show "json_chars w \<Longrightarrow> reads (at st {ExpectValue}) (quoted w) (after_value st)"
    "json_chars w \<Longrightarrow> reads (at st {ExpectKey}) (quoted w) (at st {ExpectColon})"
    unfolding quoted_def by (auto intro: reads_Cons [OF _ reads_append] reads_chars)
qed

text \<open>Values, elements, members.\<close>

lemma after_open [simp]: "after_value (b # st) = at (b # st) {ExpectSep}"
  by (auto simp: after_value_def fun_eq_iff)

lemma reads_value:
  "json_value v \<Longrightarrow> reads (at st {ExpectValue}) v (after_value st)"
  "json_elements w \<Longrightarrow> reads (at (Array # st) {ExpectValue}) w (at (Array # st) {ExpectSep})"
  "json_members w \<Longrightarrow> reads (at (Object # st) {ExpectKey}) w (at (Object # st) {ExpectSep})"
proof (induction arbitrary: st and st and st rule: json_value_json_elements_json_members.inducts)
  case (jv_array0 w)
  have "reads (at (Array # st) {ExpectValue}) (us '']'') (after_value st)"
    by (rule reads_weaken [OF reads_brackets(3)]) (auto simp: at_def)
  then show ?case using jv_array0 reads_append [OF reads_brackets(1) reads_append [OF reads_ws(1)]] by blast
next
  case (jv_array w)
  have "reads (at (Array # st) {ExpectSep}) (us '']'') (after_value st)"
    by (rule reads_weaken [OF reads_brackets(3)]) (auto simp: at_def)
  then show ?case using jv_array reads_append [OF reads_brackets(1) reads_append] by blast
next
  case (jv_object0 w)
  have "reads (at (Object # st) {ExpectKey}) (us ''}'') (after_value st)"
    by (rule reads_weaken [OF reads_brackets(4)]) (auto simp: at_def)
  then show ?case using jv_object0 reads_append [OF reads_brackets(2) reads_append [OF reads_ws(2)]] by blast
next
  case (jv_object w)
  have "reads (at (Object # st) {ExpectSep}) (us ''}'') (after_value st)"
    by (rule reads_weaken [OF reads_brackets(4)]) (auto simp: at_def)
  then show ?case using jv_object reads_append [OF reads_brackets(2) reads_append] by blast
next
  case (je_one a v b)
  then show ?case
    using reads_append [OF reads_ws(1) [OF je_one.hyps(1)] reads_append [OF je_one.IH reads_ws(4) [OF je_one.hyps(3)]], of "Array # st"]
    by simp
next
  case (je_more a v b w)
  have "reads (at (Array # st) {ExpectSep}) (b @ us '','' @ w) (at (Array # st) {ExpectSep})"
    using reads_append [OF reads_ws(4) [OF je_more.hyps(3), of "Array # st"]] reads_append [OF reads_separators(1) je_more.IH(2)]
    by simp
  then show ?case
    using reads_append [OF reads_ws(1) [OF je_more.hyps(1)] reads_append [OF je_more.IH(1)]] by simp
next
  case (jm_one a k b c v d)
  have "reads (at (Object # st) {ExpectValue}) (c @ v @ d) (at (Object # st) {ExpectSep})"
    using reads_append [OF reads_ws(1) [OF jm_one.hyps(4)] reads_append [OF jm_one.IH reads_ws(4) [OF jm_one.hyps(6)]], of "Object # st"]
    by simp
  then have "reads (at (Object # st) {ExpectColon}) (b @ us '':'' @ c @ v @ d) (at (Object # st) {ExpectSep})"
    using reads_append [OF reads_ws(3) [OF jm_one.hyps(3)] reads_append [OF reads_separators(3)]] by blast
  then show ?case
    using reads_append [OF reads_ws(2) [OF jm_one.hyps(1)] reads_append [OF reads_quoted(2) [OF jm_one.hyps(2)]]] by blast
next
  case (jm_more a k b c v d w)
  have "reads (at (Object # st) {ExpectSep}) (d @ us '','' @ w) (at (Object # st) {ExpectSep})"
    using reads_append [OF reads_ws(4) [OF jm_more.hyps(6), of "Object # st"]] reads_append [OF reads_separators(2) jm_more.IH(2)]
    by simp
  then have "reads (at (Object # st) {ExpectValue}) (c @ v @ d @ us '','' @ w) (at (Object # st) {ExpectSep})"
    using reads_append [OF reads_ws(1) [OF jm_more.hyps(4)] reads_append [OF jm_more.IH(1)]] by simp
  then have "reads (at (Object # st) {ExpectColon}) (b @ us '':'' @ c @ v @ d @ us '','' @ w) (at (Object # st) {ExpectSep})"
    using reads_append [OF reads_ws(3) [OF jm_more.hyps(3)] reads_append [OF reads_separators(3)]] by blast
  then show ?case
    using reads_append [OF reads_ws(2) [OF jm_more.hyps(1)] reads_append [OF reads_quoted(2) [OF jm_more.hyps(2)]]] by blast
qed (rule reads_literals reads_number reads_quoted(1), assumption?)+

lemma document_accepted:
  assumes "json_document w"
  shows "\<exists>t. feed_token js_default w = (True, t) \<and> after_value [] t"
proof -
  obtain a v b where w: "w = a @ v @ b" "all_ws a" "json_value v" "all_ws b"
    using assms by (auto simp: json_document_def)
  have "reads (at [] {ExpectValue}) w (after_value [])"
    unfolding w(1) by (rule reads_append [OF reads_ws(1) [OF w(2)] reads_append [OF reads_value(1) [OF w(3)] reads_ws(4) [OF w(4)]]])
  moreover have "at [] {ExpectValue} js_default" by (simp add: at_def js_default_def)
  ultimately show ?thesis by (auto simp: reads_def)
qed

end
