(* ===== verification/JsonFsmReach.thy ===== *)
theory JsonFsmReach
  imports JsonFsmLaws
begin

text \<open>
  The states the automaton reaches, the word that finishes a document from each of them, runs over
  tokens, masks and their cache, and words it accepts that are no JSON.
\<close>

section \<open>Reachable states\<close>

definition in_string :: "json_state \<Rightarrow> bool" where
  "in_string s \<longleftrightarrow> js_mode s = StringKey \<or> js_mode s = StringValue"

definition mode_ok :: "json_state \<Rightarrow> bool" where
  "mode_ok s = (case js_mode s of
      ExpectKey \<Rightarrow> top_is Object s | ExpectColon \<Rightarrow> top_is Object s | StringKey \<Rightarrow> top_is Object s
    | Done \<Rightarrow> js_stack s = []
    | LitTrue n \<Rightarrow> n < 4 | LitFalse n \<Rightarrow> n < 5 | LitNull n \<Rightarrow> n < 4
    | NumStart m \<Rightarrow> m
    | NumInt \<Rightarrow> False | NumFrac \<Rightarrow> False | NumExp \<Rightarrow> False | NumExpSign \<Rightarrow> False | NumExpDigits \<Rightarrow> False
    | _ \<Rightarrow> True)"

definition fsm_inv :: "json_state \<Rightarrow> bool" where
  "fsm_inv s \<longleftrightarrow> mode_ok s \<and> (js_hex s > 0 \<longrightarrow> in_string s \<and> \<not> js_escaped s) \<and> (js_escaped s \<longrightarrow> in_string s)"

lemma fsm_inv_default: "fsm_inv js_default"
  by (simp add: fsm_inv_def mode_ok_def js_default_def)

lemma fsm_inv_value_done:
  "js_hex s = 0 \<Longrightarrow> \<not> js_escaped s \<Longrightarrow> fsm_inv (value_done s)"
  by (simp add: fsm_inv_def value_done_def mode_ok_def)

lemmas fsm_inv_defs = fsm_inv_def mode_ok_def in_string_def top_is_def

lemma fsm_inv_close: "js_hex s = 0 \<Longrightarrow> \<not> js_escaped s \<Longrightarrow> fsm_inv (close_bracket s)"
  by (simp add: close_bracket_def fsm_inv_value_done)

text \<open>Mode by mode.\<close>

lemma fsm_inv_step_outside:
  assumes "fsm_inv s" and "\<not> in_string s"
  shows "fst (advance_value s c) \<Longrightarrow> js_mode s = ExpectValue \<Longrightarrow> fsm_inv (snd (advance_value s c))"
    and "fst (advance_key s c) \<Longrightarrow> js_mode s = ExpectKey \<Longrightarrow> fsm_inv (snd (advance_key s c))"
    and "fst (advance_colon s c) \<Longrightarrow> js_mode s = ExpectColon \<Longrightarrow> fsm_inv (snd (advance_colon s c))"
    and "fst (advance_sep s c) \<Longrightarrow> js_mode s = ExpectSep \<Longrightarrow> fsm_inv (snd (advance_sep s c))"
proof -
  have h: "js_hex s = 0" "\<not> js_escaped s" using assms by (auto simp: fsm_inv_def)
  note close = fsm_inv_close [OF h]
  show "fst (advance_value s c) \<Longrightarrow> js_mode s = ExpectValue \<Longrightarrow> fsm_inv (snd (advance_value s c))"
    using assms h close by (simp add: advance_value_def) (simp add: fsm_inv_defs)
  show "fst (advance_key s c) \<Longrightarrow> js_mode s = ExpectKey \<Longrightarrow> fsm_inv (snd (advance_key s c))"
    using assms h close by (simp add: advance_key_def) (simp add: fsm_inv_defs split: list.splits)
  show "fst (advance_colon s c) \<Longrightarrow> js_mode s = ExpectColon \<Longrightarrow> fsm_inv (snd (advance_colon s c))"
    using assms h by (simp add: advance_colon_def) (simp add: fsm_inv_defs)
  show "fst (advance_sep s c) \<Longrightarrow> js_mode s = ExpectSep \<Longrightarrow> fsm_inv (snd (advance_sep s c))"
    using assms h close
    by (simp add: advance_sep_def split: list.splits bracket.splits) (simp_all add: fsm_inv_defs split: list.splits)
qed

lemma fsm_inv_step_string:
  assumes "fsm_inv s" and "in_string s" and "js_hex s = 0" and "fst (advance_string s c)"
  shows "fsm_inv (snd (advance_string s c))"
  using assms fsm_inv_value_done [of s]
  by (auto simp: advance_string_def fsm_inv_defs value_done_def split: if_splits list.splits)

lemma fsm_inv_literal:
  assumes "js_hex s = 0" and "\<not> js_escaped s"
  shows "fst (advance_literal (us ''true'') LitTrue n s c) \<Longrightarrow> fsm_inv (snd (advance_literal (us ''true'') LitTrue n s c))"
    and "fst (advance_literal (us ''false'') LitFalse n s c) \<Longrightarrow> fsm_inv (snd (advance_literal (us ''false'') LitFalse n s c))"
    and "fst (advance_literal (us ''null'') LitNull n s c) \<Longrightarrow> fsm_inv (snd (advance_literal (us ''null'') LitNull n s c))"
  using assms by (auto simp: advance_literal_def fsm_inv_defs value_done_def split: if_splits)

lemma fsm_inv_advance:
  assumes "fsm_inv s" and "advance s c = (True, t)"
  shows "fsm_inv t"
proof (cases "js_hex s > 0")
  case True
  then show ?thesis using assms by (auto simp: advance_def fsm_inv_defs split: if_splits mode.splits)
next
  case False
  show ?thesis
  proof (cases "in_string s")
    case True
    then have "advance s c = advance_string s c" using False by (auto simp: advance_def in_string_def)
    then have "advance_string s c = (True, t)" using assms(2) by simp
    then show ?thesis using fsm_inv_step_string [OF assms(1) True, of c] False by simp
  next
    case out: False
    then have e: "\<not> js_escaped s" "js_hex s = 0" using assms(1) False by (auto simp: fsm_inv_def)
    show ?thesis
    proof (cases "js_mode s")
      case ExpectValue
      then show ?thesis using fsm_inv_step_outside(1) [OF assms(1) out, of c] assms(2) e by (simp add: advance_def)
    next
      case ExpectKey
      then show ?thesis using fsm_inv_step_outside(2) [OF assms(1) out, of c] assms(2) e by (simp add: advance_def)
    next
      case ExpectColon
      then show ?thesis using fsm_inv_step_outside(3) [OF assms(1) out, of c] assms(2) e by (simp add: advance_def)
    next
      case ExpectSep
      then show ?thesis using fsm_inv_step_outside(4) [OF assms(1) out, of c] assms(2) e by (simp add: advance_def)
    next
      case (LitTrue n)
      then show ?thesis using fsm_inv_literal(1) [OF e(2,1), of n c] assms(2) e by (simp add: advance_def)
    next
      case (LitFalse n)
      then show ?thesis using fsm_inv_literal(2) [OF e(2,1), of n c] assms(2) e by (simp add: advance_def)
    next
      case (LitNull n)
      then show ?thesis using fsm_inv_literal(3) [OF e(2,1), of n c] assms(2) e by (simp add: advance_def)
    next
      case (NumStart m)
      then show ?thesis using assms(2) e by (auto simp: advance_def fsm_inv_defs split: if_splits)
    next
      case Done
      then show ?thesis using assms e by (auto simp: advance_def)
    qed (use assms(1) out in \<open>auto simp: fsm_inv_defs\<close>)
  qed
qed

lemma fsm_inv_feed: "fsm_inv s \<Longrightarrow> feed_token s w = (True, t) \<Longrightarrow> fsm_inv t"
proof (induction w arbitrary: s)
  case Nil
  then show ?case by simp
next
  case (Cons c w)
  then show ?case using fsm_inv_advance [of s c] by (auto split: prod.splits bool.splits)
qed

section \<open>A way to finish\<close>

fun closer :: "bracket \<Rightarrow> uchar" where
  "closer Object = code_of CHR ''}''"
| "closer Array = code_of CHR '']''"

definition mode_closing :: "mode \<Rightarrow> ustring" where
  "mode_closing m = (case m of
      ExpectValue \<Rightarrow> us ''0'' | ExpectKey \<Rightarrow> quoted [] @ us '':0'' | ExpectColon \<Rightarrow> us '':0''
    | StringKey \<Rightarrow> code_of (CHR 0x22) # us '':0'' | StringValue \<Rightarrow> [code_of (CHR 0x22)]
    | NumStart _ \<Rightarrow> us ''0''
    | LitTrue n \<Rightarrow> drop n (us ''true'') | LitFalse n \<Rightarrow> drop n (us ''false'') | LitNull n \<Rightarrow> drop n (us ''null'')
    | _ \<Rightarrow> [])"

definition closing :: "json_state \<Rightarrow> ustring" where
  "closing s = replicate (js_hex s) (code_of CHR ''0'') @ (if js_escaped s then us ''n'' else [])
     @ mode_closing (js_mode s) @ map closer (js_stack s)"

lemma reads_closers: "reads (after_value st) (map closer st) (after_value [])"
proof (induction st)
  case Nil
  then show ?case by (simp add: reads_def)
next
  case (Cons b st)
  have "reads (at (b # st) {ExpectSep}) [closer b] (after_value st)"
    by (cases b) (auto intro!: reads_step simp: advance_defs at_def after_value_def)
  then show ?case using reads_Cons Cons by simp
qed

lemma reads_zero: "reads (at st {ExpectValue}) (us ''0'') (after_value st)"
proof (rule reads_number)
  have "us ''0'' = [] @ [48] @ [] @ []" "digits [48]" by (simp_all add: digits_def is_ascii_digit_def)
  then show "json_number (us ''0'')" unfolding json_number_def
    by (intro exI [of _ "[]"] exI [of _ "[48]"]) simp
qed

lemma reads_colon_zero: "reads (at st {ExpectColon}) (us '':0'') (after_value st)"
  using reads_append [OF reads_separators(3) reads_zero] by simp

lemma reads_literal_rest:
  "n < 4 \<Longrightarrow> reads (at st {LitTrue n}) (drop n (us ''true'')) (after_value st)"
  "n < 5 \<Longrightarrow> reads (at st {LitFalse n}) (drop n (us ''false'')) (after_value st)"
  "n < 4 \<Longrightarrow> reads (at st {LitNull n}) (drop n (us ''null'')) (after_value st)"
proof -
  have n4: "n = 0 \<or> n = 1 \<or> n = 2 \<or> n = 3" if "n < 4" for n :: nat using that by linarith
  have n5: "n = 0 \<or> n = 1 \<or> n = 2 \<or> n = 3 \<or> n = 4" if "n < 5" for n :: nat using that by linarith
  show "n < 4 \<Longrightarrow> reads (at st {LitTrue n}) (drop n (us ''true'')) (after_value st)"
    using n4 [of n] by (auto intro!: readsI simp: advance_def advance_literal_def value_done_def at_def after_value_def)
  show "n < 5 \<Longrightarrow> reads (at st {LitFalse n}) (drop n (us ''false'')) (after_value st)"
    using n5 [of n] by (auto intro!: readsI simp: advance_def advance_literal_def value_done_def at_def after_value_def)
  show "n < 4 \<Longrightarrow> reads (at st {LitNull n}) (drop n (us ''null'')) (after_value st)"
    using n4 [of n] by (auto intro!: readsI simp: advance_def advance_literal_def value_done_def at_def after_value_def)
qed

text \<open>Outside a string, the closing of the mode completes a value.\<close>

lemma reads_mode_closing:
  assumes "fsm_inv s" and "\<not> in_string s"
  shows "\<exists>t. feed_token s (mode_closing (js_mode s)) = (True, t) \<and> after_value (js_stack s) t"
proof -
  let ?st = "js_stack s"
  have h: "js_hex s = 0" using assms by (auto simp: fsm_inv_def)
  then have here: "at ?st {js_mode s} s" by (simp add: at_def)
  have "reads (at ?st {js_mode s}) (mode_closing (js_mode s)) (after_value ?st)"
  proof (cases "js_mode s")
    case ExpectKey
    have "json_chars []" by (rule jc_Nil)
    from reads_append [OF reads_quoted(2) [OF this] reads_colon_zero] show ?thesis
      using ExpectKey by (simp add: mode_closing_def)
  next
    case (NumStart m)
    then have m: "m" using assms(1) by (simp add: fsm_inv_def mode_ok_def)
    have "reads (at ?st {NumStart True}) (us ''0'') (after_value ?st)"
      unfolding us_simps code_simps
      by (rule reads_weaken [OF reads_digit(2)]) (auto simp: is_ascii_digit_def after_value_def at_def)
    then show ?thesis using NumStart m by (simp add: mode_closing_def)
  next
    case ExpectSep
    then show ?thesis by (simp add: mode_closing_def reads_def after_value_def at_def)
  next
    case Done
    then have "?st = []" using assms(1) by (simp add: fsm_inv_def mode_ok_def)
    then show ?thesis using Done by (simp add: mode_closing_def reads_def after_value_def at_def)
  qed (use assms in \<open>auto simp: fsm_inv_defs mode_closing_def simp del: us_simps
      intro: reads_zero reads_colon_zero reads_literal_rest\<close>)
  then show ?thesis using here unfolding reads_def by blast
qed

text \<open>Inside one: the pending hexadecimal digits or the escaped character, then the quotation mark.\<close>

lemma reads_string_closing:
  assumes "fsm_inv s" and "in_string s"
  shows "\<exists>t. feed_token s (replicate (js_hex s) 48 @ (if js_escaped s then us ''n'' else []) @ mode_closing (js_mode s)) = (True, t)
    \<and> after_value (js_stack s) t"
proof -
  let ?st = "js_stack s" and ?m = "js_mode s"
  have m: "?m = StringKey \<or> ?m = StringValue" using assms(2) by (simp add: in_string_def)
  have "reads (in_str ?st ?m False (js_hex s)) (replicate (js_hex s) 48) (in_str ?st ?m False 0)"
    using reads_hex [of "replicate (js_hex s) 48" ?st ?m] by (simp add: is_ascii_hexdigit_def is_ascii_digit_def)
  moreover have "reads (in_str ?st ?m True 0) (us ''n'') (in_str ?st ?m False 0)"
    using reads_string_char(3) [OF m, of 110 ?st] by simp
  moreover have "in_str ?st ?m (js_escaped s) (js_hex s) s" by (simp add: in_str_def)
  moreover have "\<not> js_escaped s \<or> js_hex s = 0" using assms(1) by (auto simp: fsm_inv_def)
  ultimately obtain t where t: "feed_token s (replicate (js_hex s) 48 @ (if js_escaped s then us ''n'' else [])) = (True, t)"
    "in_str ?st ?m False 0 t"
    by (cases "js_escaped s") (auto simp: reads_def)
  have "reads (in_str ?st ?m False 0) (mode_closing ?m) (after_value ?st)"
    using m
  proof
    assume k: "?m = StringKey"
    have "reads (in_str ?st StringKey False 0) [34] (at ?st {ExpectColon})"
      by (intro reads_step) (simp add: advance_def advance_string_def at_def in_str_def)
    then show ?thesis using reads_Cons [OF _ reads_colon_zero] k by (simp add: mode_closing_def)
  next
    assume v: "?m = StringValue"
    have "reads (in_str ?st StringValue False 0) [34] (after_value ?st)"
      by (intro reads_step) (simp add: advance_def advance_string_def value_done_def at_def in_str_def after_value_def)
    then show ?thesis using v by (simp add: mode_closing_def)
  qed
  then obtain u where "feed_token t (mode_closing ?m) = (True, u)" "after_value ?st u"
    using t(2) unfolding reads_def by blast
  then show ?thesis
    using feed_append_True [OF t(1), of "mode_closing ?m"] by auto
qed

lemma closing_finishes:
  assumes "fsm_inv s"
  shows "\<exists>t. feed_token s (closing s) = (True, t) \<and> after_value [] t"
proof -
  let ?pre = "replicate (js_hex s) 48 @ (if js_escaped s then us ''n'' else []) @ mode_closing (js_mode s)"
  obtain t where t: "feed_token s ?pre = (True, t)" "after_value (js_stack s) t"
  proof (cases "in_string s")
    case True
    then show ?thesis using reads_string_closing [OF assms True] that by blast
  next
    case False
    then have "js_hex s = 0" "\<not> js_escaped s" using assms by (auto simp: fsm_inv_def)
    then show ?thesis using reads_mode_closing [OF assms False] that by auto
  qed
  have "closing s = ?pre @ map closer (js_stack s)" by (simp add: closing_def)
  then show ?thesis
    using t(2) feed_append_True [OF t(1)] reads_closers [of "js_stack s"] unfolding reads_def by simp
qed

lemma after_value_root: "feed_token s w = (True, t) \<Longrightarrow> after_value [] t \<Longrightarrow> fc_root_done (check_token s w)"
  by (auto simp: check_token_def after_value_def at_def)

section \<open>Runs over tokens\<close>

fun run_tokens :: "json_state \<Rightarrow> ustring list \<Rightarrow> json_state option" where
  "run_tokens s [] = Some s"
| "run_tokens s (t # ts) = (case feed_token s t of (True, u) \<Rightarrow> run_tokens u ts | (False, u) \<Rightarrow> None)"

lemma run_tokens_concat: "run_tokens s ts = Some t \<longleftrightarrow> feed_token s (concat ts) = (True, t)"
  by (induction ts arbitrary: s) (auto simp: feed_token_append split: prod.splits bool.splits)

lemma run_tokens_split:
  assumes "feed_token s (concat (ts @ t # vs)) = (True, u)"
  shows "\<exists>v. run_tokens s ts = Some v \<and> token_is_valid v t"
proof -
  obtain v where v: "feed_token s (concat ts) = (True, v)"
    using assms by (cases "feed_token s (concat ts)") (auto simp: feed_token_append split: bool.splits)
  then have "feed_token v (t @ concat vs) = (True, u)" using assms feed_append_True [OF v] by simp
  then have "token_is_valid v t"
    by (cases "feed_token v t") (auto simp: feed_token_append token_is_valid_def split: bool.splits)
  then show ?thesis using v run_tokens_concat by blast
qed

section \<open>Masks\<close>

text \<open>A cache that has only ever been asked about one vocabulary.\<close>

definition cache_ok :: "ustring list \<Rightarrow> mask_cache \<Rightarrow> bool" where
  "cache_ok vocab cache \<longleftrightarrow> (\<forall>s m. cache s = Some m \<longrightarrow> m = valid_tokens s vocab)"

lemma mask_for_ok:
  assumes "cache_ok vocab cache"
  shows "fst (mask_for cache s vocab) = valid_tokens s vocab" "cache_ok vocab (snd (mask_for cache s vocab))"
  using assms by (auto simp: mask_for_def cache_ok_def split: option.splits)

text \<open>The cache is keyed by the state alone: another vocabulary gets the first one's mask.\<close>

lemma mask_for_stale:
  "fst (mask_for (snd (mask_for Map.empty js_default [us ''{''])) js_default [us ''}'', us ''1'']) = [True]"
  by (simp add: mask_for_def valid_tokens_def token_is_valid_def js_default_def advance_def advance_value_def)

lemma apply_mask_nth:
  assumes "length ok = length logits" and "\<not> list_all Not ok" and "i < length logits"
  shows "\<exists>out. apply_mask logits ok = Some out \<and> length out = length logits
    \<and> out ! i = (if ok ! i then logits ! i else F32_NEG_INFINITY)"
  using assms by (simp add: apply_mask_def)

section \<open>Words that are no JSON\<close>

text \<open>A trailing comma, a missing value, a closing brace without an opening one, two numbers.\<close>

definition accepts :: "ustring \<Rightarrow> bool" where
  "accepts w \<longleftrightarrow> fc_root_done (check_token js_default w)"

lemma accepts_non_json:
  "accepts (us ''[1,]'')" "accepts (us [CHR ''{'', CHR 0x22, CHR ''a'', CHR 0x22, CHR '':'', CHR ''}''])"
  "accepts (us ''1}'')" "accepts (us ''1 2'')" "accepts (us ''1--'')"
  by code_simp+

end
