(* ===== verification/ConstrainedSampler.thy ===== *)
theory ConstrainedSampler
  imports JsonSchema JsonFsmReach
begin

text \<open>
  The sampler of \<open>crates/grim-constrain/src/sampler.rs\<close>: it masks the logits by the automaton and
  the schema, delegates to an inner sampler, and records the sampled token. The inner sampler is a
  parameter (a function of the masked logits and the history); logits are bit patterns. The mutexes
  guard single operations. A failed conversion of the logits is not modelled.
\<close>

section \<open>State\<close>

datatype 'n constraint = JsonObject | JsonSchema "'n schema_constraint"

record 'n sampler =
  cs_constraint :: "'n constraint"
  cs_fsm :: json_state
  cs_cache :: mask_cache
  cs_output :: ustring
  cs_vocab :: "ustring list option"

definition json_schema_constraint :: "'n json \<Rightarrow> schema_error + 'n constraint" where
  "json_schema_constraint schema =
     (case compile_json_schema schema of Inl e \<Rightarrow> Inl e | Inr c \<Rightarrow> Inr (JsonSchema c))"

definition cs_new :: "'n constraint \<Rightarrow> 'n sampler" where
  "cs_new c = \<lparr>cs_constraint = c, cs_fsm = js_default, cs_cache = Map.empty, cs_output = [], cs_vocab = None\<rparr>"

definition with_vocab :: "ustring list \<Rightarrow> 'n sampler \<Rightarrow> 'n sampler" where
  "with_vocab vocab s = s\<lparr>cs_vocab := Some vocab\<rparr>"

section \<open>Recording a token\<close>

definition feed_sampled_token :: "ustring \<Rightarrow> 'n sampler \<Rightarrow> 'n sampler" where
  "feed_sampled_token token s = s\<lparr>cs_output := cs_output s @ token, cs_fsm := snd (feed_token (cs_fsm s) token)\<rparr>"

definition feed_sampled_token_id :: "nat \<Rightarrow> 'n sampler \<Rightarrow> 'n sampler" where
  "feed_sampled_token_id i s =
     (case cs_vocab s of
        None \<Rightarrow> s
      | Some vocab \<Rightarrow> if i < length vocab then feed_sampled_token (vocab ! i) s else s)"

section \<open>The mask\<close>

text \<open>\<open>Vec::resize(n, true)\<close>.\<close>

definition resize_true :: "nat \<Rightarrow> bool list \<Rightarrow> bool list" where
  "resize_true n m = take n m @ replicate (n - length m) True"

definition compute_mask ::
  "'n parser \<Rightarrow> ('n \<Rightarrow> bool) \<Rightarrow> nat \<Rightarrow> 'n sampler \<Rightarrow> bool list \<times> 'n sampler" where
  "compute_mask parse integral vocab_size s =
     (case cs_vocab s of
        None \<Rightarrow> (replicate vocab_size True, s)
      | Some vocab \<Rightarrow>
          (case mask_for (cs_cache s) (cs_fsm s) vocab of (base, cache) \<Rightarrow>
             (case cs_constraint s of
                JsonObject \<Rightarrow> (resize_true vocab_size base, s\<lparr>cs_cache := cache\<rparr>)
              | JsonSchema sc \<Rightarrow>
                  (case (if inside_string_fast_path sc (cs_output s) then (replicate vocab_size True, sc)
                         else schema_mask_for parse integral vocab (cs_output s) sc) of (schema_ok, sc1) \<Rightarrow>
                     (resize_true vocab_size (map (\<lambda>(a, b). a \<and> b) (zip base schema_ok)),
                      s\<lparr>cs_cache := cache, cs_constraint := JsonSchema sc1\<rparr>)))))"

section \<open>Sampling\<close>

type_synonym inner_sampler = "u32 list \<Rightarrow> nat list \<Rightarrow> nat"

definition sample ::
  "inner_sampler \<Rightarrow> 'n parser \<Rightarrow> ('n \<Rightarrow> bool) \<Rightarrow> u32 list \<Rightarrow> nat list \<Rightarrow> 'n sampler \<Rightarrow> (nat \<times> 'n sampler) option" where
  "sample inner parse integral logits history s =
     (case compute_mask parse integral (length logits) s of (ok, s1) \<Rightarrow>
        (case apply_mask logits ok of
           None \<Rightarrow> None
         | Some masked \<Rightarrow> (let i = inner masked history in Some (i, feed_sampled_token_id i s1))))"

definition lookahead_literal :: "('n json \<Rightarrow> ustring) \<Rightarrow> 'n sampler \<Rightarrow> ustring option" where
  "lookahead_literal print_json s =
     (if js_mode (cs_fsm s) = ExpectColon then Some (us '': '')
      else if js_mode (cs_fsm s) = LitTrue 1 then Some (us ''rue'')
      else if js_mode (cs_fsm s) = LitFalse 1 then Some (us ''alse'')
      else if js_mode (cs_fsm s) = LitNull 1 then Some (us ''ull'')
      else (case cs_constraint s of
              JsonSchema sc \<Rightarrow> lookahead_jump_forward print_json (jc_schema sc) (cs_output s)
            | JsonObject \<Rightarrow> None))"

section \<open>Masks of the right length\<close>

lemma length_resize [simp]: "length (resize_true n m) = n"
  by (simp add: resize_true_def)

lemma nth_resize: "i < n \<Longrightarrow> resize_true n m ! i = (if i < length m then m ! i else True)"
  by (auto simp: resize_true_def nth_append)

lemma length_compute_mask [simp]: "length (fst (compute_mask parse integral n s)) = n"
  by (simp add: compute_mask_def split: option.splits constraint.splits prod.splits)

lemma apply_mask_total:
  assumes "length ok = length logits"
  shows "\<exists>out. apply_mask logits ok = Some out \<and> length out = length logits"
  using assms by (auto simp: apply_mask_def)

lemma sample_total: "sample inner parse integral logits history s \<noteq> None"
proof -
  obtain ok s1 where c: "compute_mask parse integral (length logits) s = (ok, s1)" by fastforce
  then have "length ok = length logits" using length_compute_mask [of parse integral "length logits" s] by simp
  then obtain out where "apply_mask logits ok = Some out" using apply_mask_total by blast
  then show ?thesis using c by (simp add: sample_def Let_def)
qed

section \<open>Automaton and output in step\<close>

text \<open>The memoized schema masks are those of this vocabulary, and there is a bound on their number.\<close>

definition schema_cache_ok ::
  "'n parser \<Rightarrow> ('n \<Rightarrow> bool) \<Rightarrow> ustring list \<Rightarrow> 'n schema_constraint \<Rightarrow> bool" where
  "schema_cache_ok parse integral vocab c \<longleftrightarrow> length (jc_cache c) \<le> 1026
     \<and> (\<forall>(w, m) \<in> set (jc_cache c). m = schema_mask parse integral (jc_schema c) vocab w)"

lemma length_AList_update: "length (AList.update k v m) \<le> Suc (length m)"
  by (induction m) auto

lemma set_AList_update: "set (AList.update k v m) \<subseteq> insert (k, v) (set m)"
  by (induction m) auto

lemma schema_mask_for_ok:
  assumes "schema_cache_ok parse integral vocab c" and "schema_mask_for parse integral vocab output c = (m, c1)"
  shows "m = schema_mask parse integral (jc_schema c) vocab output" "schema_cache_ok parse integral vocab c1"
    "jc_schema c1 = jc_schema c" "jc_has_string c1 = jc_has_string c"
proof -
  define cache where "cache = (if length (jc_cache c) > 1024 then [] else jc_cache c)"
  define mm where "mm = schema_mask parse integral (jc_schema c) vocab output"
  have m: "m = mm"
    using assms by (auto simp: schema_mask_for_def schema_cache_ok_def Let_def mm_def split: option.splits dest!: map_of_SomeD)
  then show "m = schema_mask parse integral (jc_schema c) vocab output" by (simp add: mm_def)
  have c1: "c1 = c \<or> c1 = c\<lparr>jc_cache := AList.update output mm cache\<rparr>"
    using assms(2) by (auto simp: schema_mask_for_def Let_def mm_def cache_def split: option.splits)
  then show "jc_schema c1 = jc_schema c" "jc_has_string c1 = jc_has_string c" by auto
  have "length (AList.update output mm cache) \<le> 1026"
    by (rule order_trans [OF length_AList_update]) (simp add: cache_def)
  moreover have "\<forall>(w, m) \<in> set (AList.update output mm cache). m = schema_mask parse integral (jc_schema c) vocab w"
    using assms(1) by (auto simp: schema_cache_ok_def cache_def mm_def dest!: subsetD [OF set_AList_update] split: if_splits)
  ultimately show "schema_cache_ok parse integral vocab c1"
    using c1 assms(1) by (auto simp: schema_cache_ok_def)
qed

text \<open>The automaton has read the whole output, and the cached masks are those of this vocabulary.\<close>

definition cs_sync :: "'n parser \<Rightarrow> ('n \<Rightarrow> bool) \<Rightarrow> ustring list \<Rightarrow> 'n sampler \<Rightarrow> bool" where
  "cs_sync parse integral vocab s \<longleftrightarrow> cs_vocab s = Some vocab \<and> cache_ok vocab (cs_cache s)
     \<and> (case cs_constraint s of JsonObject \<Rightarrow> True | JsonSchema sc \<Rightarrow> schema_cache_ok parse integral vocab sc)
     \<and> feed_token js_default (cs_output s) = (True, cs_fsm s)"

definition fresh_constraint :: "'n constraint \<Rightarrow> bool" where
  "fresh_constraint c \<longleftrightarrow> (case c of JsonObject \<Rightarrow> True | JsonSchema sc \<Rightarrow> jc_cache sc = [])"

lemma cs_sync_new: "fresh_constraint c \<Longrightarrow> cs_sync parse integral vocab (with_vocab vocab (cs_new c))"
  by (auto simp: cs_sync_def with_vocab_def cs_new_def cache_ok_def fresh_constraint_def schema_cache_ok_def split: constraint.splits)

lemma compute_mask_cases:
  assumes "cs_sync parse integral vocab s" and "compute_mask parse integral n s = (ok, s1)"
  shows "cs_sync parse integral vocab s1 \<and> cs_fsm s1 = cs_fsm s \<and> cs_output s1 = cs_output s
    \<and> (\<exists>sm. (length sm = n \<or> length sm = length vocab)
        \<and> (ok = resize_true n (valid_tokens (cs_fsm s) vocab)
           \<or> ok = resize_true n (map (\<lambda>(a, b). a \<and> b) (zip (valid_tokens (cs_fsm s) vocab) sm))))"
proof -
  obtain base cache where b: "mask_for (cs_cache s) (cs_fsm s) vocab = (base, cache)" by fastforce
  have co: "cache_ok vocab (cs_cache s)" and v: "cs_vocab s = Some vocab"
    and f: "feed_token js_default (cs_output s) = (True, cs_fsm s)"
    using assms(1) by (simp_all add: cs_sync_def)
  have base: "base = valid_tokens (cs_fsm s) vocab" and cache: "cache_ok vocab cache"
    using mask_for_ok [OF co, of "cs_fsm s"] b by simp_all
  show ?thesis
  proof (cases "cs_constraint s")
    case JsonObject
    then have "ok = resize_true n base \<and> s1 = s\<lparr>cs_cache := cache\<rparr>" using assms(2) v b by (simp add: compute_mask_def)
    moreover from this have "cs_sync parse integral vocab s1" using cache v f JsonObject by (simp add: cs_sync_def)
    ultimately show ?thesis using base by (intro conjI exI [of _ "replicate n True"]) simp_all
  next
    case (JsonSchema sc)
    obtain sm sc1 where sm: "(if inside_string_fast_path sc (cs_output s) then (replicate n True, sc)
         else schema_mask_for parse integral vocab (cs_output s) sc) = (sm, sc1)" by fastforce
    have sco: "schema_cache_ok parse integral vocab sc" using assms(1) JsonSchema by (simp add: cs_sync_def)
    have s1: "ok = resize_true n (map (\<lambda>(a, b). a \<and> b) (zip base sm))
        \<and> s1 = s\<lparr>cs_cache := cache, cs_constraint := JsonSchema sc1\<rparr>"
      using assms(2) v b JsonSchema sm by (simp add: compute_mask_def)
    have "schema_cache_ok parse integral vocab sc1 \<and> (length sm = n \<or> length sm = length vocab)"
    proof (cases "inside_string_fast_path sc (cs_output s)")
      case True
      then show ?thesis using sm sco by auto
    next
      case False
      then have "schema_mask_for parse integral vocab (cs_output s) sc = (sm, sc1)" using sm by simp
      from schema_mask_for_ok(1,2) [OF sco this] show ?thesis by (simp add: schema_mask_def)
    qed
    then have "cs_sync parse integral vocab s1" "length sm = n \<or> length sm = length vocab"
      using s1 cache v f by (simp_all add: cs_sync_def)
    then show ?thesis using s1 base by (intro conjI exI [of _ sm]) simp_all
  qed
qed

lemma compute_mask_fields:
  assumes "compute_mask parse integral n s = (ok, s1)"
  shows "cs_vocab s1 = cs_vocab s" "cs_fsm s1 = cs_fsm s" "cs_output s1 = cs_output s"
  using assms by (auto simp: compute_mask_def split: option.splits prod.splits constraint.splits)

text \<open>A token the mask lets through is one the automaton reads.\<close>

lemma compute_mask_valid:
  assumes "cs_sync parse integral vocab s" and "compute_mask parse integral n s = (ok, s1)"
    and "i < n" and "n \<le> length vocab" and "ok ! i"
  shows "token_is_valid (cs_fsm s) (vocab ! i)"
proof -
  obtain sm where sm: "length sm = n \<or> length sm = length vocab"
    and ok: "ok = resize_true n (valid_tokens (cs_fsm s) vocab)
           \<or> ok = resize_true n (map (\<lambda>(a, b). a \<and> b) (zip (valid_tokens (cs_fsm s) vocab) sm))"
    using compute_mask_cases [OF assms(1,2)] by blast
  have "i < length sm" "i < length vocab" using sm assms(3,4) by auto
  then have "valid_tokens (cs_fsm s) vocab ! i"
    using ok assms(3,5) by (auto simp: nth_resize valid_tokens_def)
  then show ?thesis using \<open>i < length vocab\<close> by (simp add: valid_tokens_def)
qed

text \<open>Ids past the vocabulary are let through, whatever the state is.\<close>

lemma compute_mask_padding:
  assumes "cs_sync parse integral vocab s" and "compute_mask parse integral n s = (ok, s1)"
    and "length vocab \<le> i" and "i < n"
  shows "ok ! i"
proof -
  obtain sm where ok: "ok = resize_true n (valid_tokens (cs_fsm s) vocab)
           \<or> ok = resize_true n (map (\<lambda>(a, b). a \<and> b) (zip (valid_tokens (cs_fsm s) vocab) sm))"
    using compute_mask_cases [OF assms(1,2)] by blast
  then show ?thesis using assms(3,4) by (auto simp: nth_resize valid_tokens_def)
qed

lemma cs_sync_feed:
  assumes "cs_sync parse integral vocab s" and "i < length vocab" and "token_is_valid (cs_fsm s) (vocab ! i)"
  shows "cs_sync parse integral vocab (feed_sampled_token_id i s)"
proof -
  have "feed_token js_default (cs_output s @ vocab ! i) = feed_token (cs_fsm s) (vocab ! i)"
    using assms(1) by (intro feed_append_True) (simp add: cs_sync_def)
  moreover have "feed_token (cs_fsm s) (vocab ! i) = (True, snd (feed_token (cs_fsm s) (vocab ! i)))"
    using assms(3) by (simp add: token_is_valid_def prod_eq_iff)
  ultimately show ?thesis
    using assms(1,2) by (simp add: cs_sync_def feed_sampled_token_id_def feed_sampled_token_def)
qed

text \<open>
  What the inner sampler is relied on for: of logits with one that is not minus infinity it picks
  such a one.
\<close>

definition picks_finite :: "inner_sampler \<Rightarrow> bool" where
  "picks_finite inner \<longleftrightarrow> (\<forall>logits history. (\<exists>x \<in> set logits. x \<noteq> F32_NEG_INFINITY)
     \<longrightarrow> inner logits history < length logits \<and> logits ! inner logits history \<noteq> F32_NEG_INFINITY)"

lemma sample_sync:
  assumes "cs_sync parse integral vocab s" and "picks_finite inner" and "length logits \<le> length vocab"
    and "F32_NEG_INFINITY \<notin> set logits" and "True \<in> set (fst (compute_mask parse integral (length logits) s))"
    and "sample inner parse integral logits history s = Some (i, s1)"
  shows "cs_sync parse integral vocab s1 \<and> i < length vocab \<and> token_is_valid (cs_fsm s) (vocab ! i)
    \<and> cs_output s1 = cs_output s @ vocab ! i"
proof -
  obtain ok s0 where c: "compute_mask parse integral (length logits) s = (ok, s0)" by fastforce
  note C = compute_mask_cases [OF assms(1) c]
  have len: "length ok = length logits" using length_compute_mask [of parse integral "length logits" s] c by simp
  have nz: "\<not> list_all Not ok" using assms(5) c by (auto simp: list_all_iff)
  obtain masked where masked: "apply_mask logits ok = Some masked" "length masked = length logits"
    using apply_mask_total [OF len] by blast
  have nth: "masked ! j = (if ok ! j then logits ! j else F32_NEG_INFINITY)" if "j < length logits" for j
    using apply_mask_nth [OF len nz that] masked by simp
  obtain j where j: "j < length logits" "ok ! j" using assms(5) c len by (auto simp: in_set_conv_nth)
  then have "masked ! j \<noteq> F32_NEG_INFINITY" using nth assms(4) nth_mem by fastforce
  then have fin: "\<exists>x \<in> set masked. x \<noteq> F32_NEG_INFINITY" using j masked(2) by (metis nth_mem)
  have i: "i = inner masked history" "s1 = feed_sampled_token_id i s0"
    using assms(6) c masked by (auto simp: sample_def Let_def)
  have "i < length masked \<and> masked ! i \<noteq> F32_NEG_INFINITY"
    using assms(2) fin i(1) unfolding picks_finite_def by blast
  then have ok: "i < length logits" "ok ! i" using nth [of i] masked(2) by (auto split: if_splits)
  have v: "token_is_valid (cs_fsm s) (vocab ! i)" by (rule compute_mask_valid [OF assms(1) c ok(1) assms(3) ok(2)])
  have "cs_sync parse integral vocab s1"
    unfolding i(2) using C v ok(1) assms(3) by (intro cs_sync_feed) auto
  moreover have "cs_vocab s0 = Some vocab" using C by (simp add: cs_sync_def)
  ultimately show ?thesis
    using v i(2) ok(1) assms(3) C by (simp add: feed_sampled_token_id_def feed_sampled_token_def)
qed

text \<open>Whatever was sampled can be finished to a complete document.\<close>

lemma cs_sync_completable:
  assumes "cs_sync parse integral vocab s"
  shows "accepts (cs_output s @ closing (cs_fsm s))"
proof -
  have f: "feed_token js_default (cs_output s) = (True, cs_fsm s)" using assms by (simp add: cs_sync_def)
  obtain t where "feed_token (cs_fsm s) (closing (cs_fsm s)) = (True, t)" "after_value [] t"
    using closing_finishes [OF fsm_inv_feed [OF fsm_inv_default f]] by blast
  then show ?thesis
    unfolding accepts_def using feed_append_True [OF f] by (intro after_value_root) simp_all
qed

section \<open>The end inside a string\<close>

text \<open>On what the automaton has read, the quote scan and the automaton agree.\<close>

lemma advance_in_string:
  assumes "advance s c = (True, t)" and "fsm_inv s" and "in_string s"
  shows "in_string t \<longleftrightarrow> \<not> (c = 34 \<and> \<not> js_escaped s)"
    "in_string t \<Longrightarrow> js_escaped t \<longleftrightarrow> c = 92 \<and> \<not> js_escaped s" "\<not> in_string t \<Longrightarrow> \<not> js_escaped t"
proof -
  have "(in_string t \<longleftrightarrow> \<not> (c = 34 \<and> \<not> js_escaped s)) \<and> (in_string t \<longrightarrow> (js_escaped t \<longleftrightarrow> c = 92 \<and> \<not> js_escaped s))
      \<and> (\<not> in_string t \<longrightarrow> \<not> js_escaped t)"
  proof (cases "js_hex s > 0")
    case True
    then have "c \<noteq> 34" "c \<noteq> 92" "t = s\<lparr>js_hex := js_hex s - 1\<rparr>" "\<not> js_escaped s"
      using assms by (auto simp: advance_def is_ascii_hexdigit_def is_ascii_digit_def fsm_inv_def split: if_splits)
    then show ?thesis using assms(3) by (simp add: in_string_def)
  next
    case False
    then have "advance_string s c = (True, t)" using assms by (auto simp: advance_def in_string_def)
    then show ?thesis
      using assms(3) by (auto simp: advance_string_def in_string_def value_done_def split: if_splits)
  qed
  then show "in_string t \<longleftrightarrow> \<not> (c = 34 \<and> \<not> js_escaped s)"
    "in_string t \<Longrightarrow> js_escaped t \<longleftrightarrow> c = 92 \<and> \<not> js_escaped s" "\<not> in_string t \<Longrightarrow> \<not> js_escaped t" by blast+
qed

lemma advance_outside:
  assumes "advance s c = (True, t)" and "fsm_inv s" and "\<not> in_string s"
  shows "in_string t \<longleftrightarrow> c = 34" "\<not> js_escaped t"
proof -
  have h: "js_hex s = 0" "\<not> js_escaped s" using assms(2,3) by (auto simp: fsm_inv_def)
  have "(in_string t \<longleftrightarrow> c = 34) \<and> \<not> js_escaped t"
  proof (cases "js_mode s")
    case ExpectValue
    then show ?thesis using assms(1) h
      by (auto simp: advance_defs in_string_def split: if_splits)
  next
    case ExpectKey
    then show ?thesis using assms(1) h
      by (auto simp: advance_defs in_string_def split: if_splits)
  next
    case ExpectColon
    then show ?thesis using assms(1) h
      by (auto simp: advance_defs in_string_def split: if_splits)
  next
    case ExpectSep
    then show ?thesis using assms(1) h
      by (auto simp: advance_defs in_string_def split: if_splits list.splits bracket.splits)
  next
    case (LitTrue n)
    then show ?thesis using assms(1,2) h
      by (auto simp: advance_def advance_literal_def value_done_def in_string_def nth_Cons' split: if_splits)
  next
    case (LitFalse n)
    then show ?thesis using assms(1,2) h
      by (auto simp: advance_def advance_literal_def value_done_def in_string_def nth_Cons' split: if_splits)
  next
    case (LitNull n)
    then show ?thesis using assms(1,2) h
      by (auto simp: advance_def advance_literal_def value_done_def in_string_def nth_Cons' split: if_splits)
  next
    case (NumStart m)
    then show ?thesis using assms(1) h
      by (auto simp: advance_def is_ascii_digit_def in_string_def split: if_splits)
  next
    case Done
    then show ?thesis using assms(1) h by (auto simp: advance_def is_json_ws_def in_string_def)
  qed (use assms(2,3) in \<open>auto simp: fsm_inv_defs\<close>)
  then show "in_string t \<longleftrightarrow> c = 34" "\<not> js_escaped t" by blast+
qed

lemma quote_scan_feed:
  assumes "feed_token s w = (True, t)" and "fsm_inv s"
  shows "quote_scan w (in_string s) (js_escaped s) = in_string t"
  using assms
proof (induction w arbitrary: s)
  case Nil
  then show ?case by simp
next
  case (Cons c w)
  obtain u where u: "advance s c = (True, u)" "feed_token u w = (True, t)"
    using Cons.prems(1) by (auto split: prod.splits bool.splits)
  note IH = Cons.IH [OF u(2) fsm_inv_advance [OF Cons.prems(2) u(1)]]
  show ?case
  proof (cases "in_string s")
    case True
    note A = advance_in_string [OF u(1) Cons.prems(2) True]
    show ?thesis
      using IH A True by (cases "in_string u"; cases "js_escaped s") auto
  next
    case False
    note A = advance_outside [OF u(1) Cons.prems(2) False]
    have "\<not> js_escaped s" using Cons.prems(2) False by (auto simp: fsm_inv_def)
    then show ?thesis using IH A False by auto
  qed
qed

lemma inside_string_agrees:
  assumes "feed_token js_default w = (True, t)"
  shows "inside_unterminated_string w \<longleftrightarrow> in_string t"
  using quote_scan_feed [OF assms fsm_inv_default]
  by (simp add: inside_unterminated_string_def in_string_def js_default_def)

section \<open>Lookahead\<close>

lemma code_space: "code_of CHR '' '' = 32"
  by (simp add: code_of_def)

text \<open>The literals forced by the automaton are read by it, and one of them is forced.\<close>

lemma lookahead_accepted:
  assumes "js_hex (cs_fsm s) = 0" and "cs_constraint s = JsonObject" and "lookahead_literal print_json s = Some w"
  shows "token_is_valid (cs_fsm s) w"
  using assms
  by (auto simp: lookahead_literal_def token_is_valid_def advance_def advance_literal_def advance_colon_def
      advance_value_def is_json_ws_def is_ascii_digit_def value_done_def code_space split: if_splits)

end
