(* ===== verification/JsonSchemaLaws.thy ===== *)
theory JsonSchemaLaws
  imports ConstrainedSampler
begin

text \<open>
  What compiling and validating a schema guarantee: references are resolved away, validation means
  what the keywords say for closed objects, and two gaps: keywords below a definition are not checked,
  and the shortcut inside strings lets tokens through that break the schema.
\<close>

declare validate.simps [simp del] resolve_refs.simps [simp del] validate_schema_keywords.simps [simp del]
  scan_string_constraints.simps [simp del]

section \<open>References\<close>

lemma map_sum_list_Inr: "map_sum_list f xs = Inr ys \<Longrightarrow> list_all2 (\<lambda>x y. f x = Inr y) xs ys"
  by (induction xs arbitrary: ys) (auto split: sum.splits)

text \<open>Every \<open>$ref\<close> is a string; no \<open>$ref\<close> is left.\<close>

function proper_refs :: "'n json \<Rightarrow> bool" where
  "proper_refs (JObj m) \<longleftrightarrow> (case map_of m (us ''$ref'') of None \<Rightarrow> True | Some x \<Rightarrow> as_str x \<noteq> None)
     \<and> list_all (\<lambda>(k, x). proper_refs x) m"
| "proper_refs (JArr xs) \<longleftrightarrow> list_all proper_refs xs"
| "proper_refs JNull \<longleftrightarrow> True" | "proper_refs (JBool b) \<longleftrightarrow> True" | "proper_refs (JNum n) \<longleftrightarrow> True"
| "proper_refs (JStr w) \<longleftrightarrow> True"
  by pat_completeness auto
termination
  by (relation "measure size") (auto dest: entry_size element_size)

function ref_free :: "'n json \<Rightarrow> bool" where
  "ref_free (JObj m) \<longleftrightarrow> map_of m (us ''$ref'') = None \<and> list_all (\<lambda>(k, x). ref_free x) m"
| "ref_free (JArr xs) \<longleftrightarrow> list_all ref_free xs"
| "ref_free JNull \<longleftrightarrow> True" | "ref_free (JBool b) \<longleftrightarrow> True" | "ref_free (JNum n) \<longleftrightarrow> True"
| "ref_free (JStr w) \<longleftrightarrow> True"
  by pat_completeness auto
termination
  by (relation "measure size") (auto dest: entry_size element_size)

lemma follow_proper: "proper_refs cur \<Longrightarrow> follow ps cur = Inr t \<Longrightarrow> proper_refs t"
  by (induction ps cur rule: follow.induct)
    (auto simp: list_all_iff split: option.splits dest!: map_of_SomeD)

lemma resolve_pointer_proper: "proper_refs root \<Longrightarrow> resolve_pointer p root = Inr t \<Longrightarrow> proper_refs t"
  by (auto simp: resolve_pointer_def follow_proper split: if_splits)

lemma with_key_Inr: "with_key k r = Inr y \<longleftrightarrow> (\<exists>v. r = Inr v \<and> y = (k, v))"
  by (auto simp: with_key_def split: sum.splits)

lemma resolve_refs_free:
  "resolve_refs s root depth = Inr t \<Longrightarrow> proper_refs s \<Longrightarrow> proper_refs root \<Longrightarrow> ref_free t"
proof (induction s root depth arbitrary: t rule: resolve_refs.induct)
  case (1 s root depth)
  have d: "\<not> depth > 32" using 1(4) by (subst (asm) resolve_refs.simps) (simp split: if_splits)
  show ?case
  proof (cases s)
    case (JObj m)
    show ?thesis
    proof (cases "get_str ''$ref'' s")
      case (Some r)
      then obtain target where tg: "resolve_pointer r root = Inr target" "resolve_refs target root (depth + 1) = Inr t"
        using 1(4) JObj d by (subst (asm) resolve_refs.simps) (auto split: sum.splits)
      then show ?thesis using 1(3) [OF d JObj Some tg(1) tg(2)] resolve_pointer_proper 1(6) by blast
    next
      case None
      then obtain m1 where m1: "map_sum_list (\<lambda>(k, v). with_key k (resolve_refs v root (depth + 1))) m = Inr m1" "t = JObj m1"
        using 1(4) JObj d by (subst (asm) resolve_refs.simps) (auto split: sum.splits)
      have none: "map_of m (us ''$ref'') = None"
        using 1(5) None JObj by (auto simp: get_str_def split: option.splits)
      have all2: "list_all2 (\<lambda>(k, v) y. \<exists>x. resolve_refs v root (depth + 1) = Inr x \<and> y = (k, x)) m m1"
        using map_sum_list_Inr [OF m1(1)] by (rule list_all2_mono) (auto simp: with_key_Inr)
      have keys: "map fst m1 = map fst m" using all2 by (induction rule: list_all2_induct) auto
      then have "map_of m1 (us ''$ref'') = None" using none by (simp add: map_of_eq_None_iff flip: set_map)
      moreover have "ref_free x" if kx: "(k, x) \<in> set m1" for k x
      proof -
        obtain i where i: "i < length m1" "m1 ! i = (k, x)" using kx by (auto simp: in_set_conv_nth)
        obtain k1 v where mi: "m ! i = (k1, v)" by fastforce
        have "i < length m" using list_all2_lengthD [OF all2] i(1) by simp
        then have v: "(k, v) \<in> set m" "resolve_refs v root (depth + 1) = Inr x"
          using list_all2_nthD2 [OF all2 i(1)] i(2) mi nth_mem [of i m] by auto
        then have "proper_refs v" using 1(5) JObj by (auto simp: list_all_iff)
        then show ?thesis using 1(2) [OF d JObj None v(1) refl v(2) _ 1(6)] by blast
      qed
      ultimately show ?thesis using m1(2) by (auto simp: list_all_iff)
    qed
  next
    case (JArr xs)
    then obtain ys where ys: "map_sum_list (\<lambda>v. resolve_refs v root (depth + 1)) xs = Inr ys" "t = JArr ys"
      using 1(4) d by (subst (asm) resolve_refs.simps) (auto split: sum.splits)
    have "ref_free y" if y: "y \<in> set ys" for y
    proof -
      obtain i where i: "i < length ys" "ys ! i = y" using y by (auto simp: in_set_conv_nth)
      have all2: "list_all2 (\<lambda>v y. resolve_refs v root (depth + 1) = Inr y) xs ys" by (rule map_sum_list_Inr [OF ys(1)])
      have v: "xs ! i \<in> set xs" "resolve_refs (xs ! i) root (depth + 1) = Inr y"
        using list_all2_nthD2 [OF all2 i(1)] list_all2_lengthD [OF all2] i by auto
      then show ?thesis using 1(1) [OF d JArr v(1) v(2) _ 1(6)] 1(5) JArr by (auto simp: list_all_iff)
    qed
    then show ?thesis using ys(2) by (simp add: list_all_iff)
  qed (use 1(4) d in \<open>auto simp: resolve_refs.simps\<close>)
qed

lemma compile_ref_free:
  assumes "compile_json_schema schema = Inr c" and "proper_refs schema"
  shows "ref_free (jc_schema c)"
proof -
  obtain s where "resolve_refs schema schema 0 = Inr s" "jc_schema c = s"
    using assms(1) by (auto simp: compile_json_schema_def Let_def split: if_splits option.splits sum.splits)
  then show ?thesis using resolve_refs_free assms(2) by blast
qed

section \<open>Closed objects\<close>

lemma validate_closed_object:
  assumes "validate integral (JObj obj) s" and "get_object ''properties'' s = Some ps"
    and "sget ''additionalProperties'' s = Some (JBool False)" and "get_array ''required'' s = Some rs"
  shows "fst ` set obj \<subseteq> fst ` set ps" "JStr r \<in> set rs \<Longrightarrow> r \<in> fst ` set obj"
    "(k, sub) \<in> set ps \<Longrightarrow> map_of obj k = Some x \<Longrightarrow> validate integral x sub"
proof -
  note V = assms(1) [unfolded validate.simps [of integral "JObj obj" s]]
  have P: "list_all (\<lambda>(k, sub). case map_of obj k of None \<Rightarrow> True | Some x \<Rightarrow> validate integral x sub) ps"
    and R: "list_all (\<lambda>r. has_key obj (case as_str r of Some n \<Rightarrow> n | None \<Rightarrow> [])) rs"
    and A: "list_all (\<lambda>(k, x). has_key ps k) obj"
    using V assms(2-4) by simp_all
  have key: "has_key m k \<Longrightarrow> k \<in> fst ` set m" for m :: "(ustring \<times> 'a json) list" and k
    by (metis has_key_def map_of_eq_None_iff)
  show "fst ` set obj \<subseteq> fst ` set ps" using A key by (auto simp: list_all_iff)
  show "JStr r \<in> set rs \<Longrightarrow> r \<in> fst ` set obj" using R key by (auto simp: list_all_iff)
  show "(k, sub) \<in> set ps \<Longrightarrow> map_of obj k = Some x \<Longrightarrow> validate integral x sub"
    using P by (auto simp: list_all_iff)
qed

section \<open>Two gaps\<close>

text \<open>A keyword outside the supported subset, hidden below \<open>$defs\<close>, survives compilation and is ignored.\<close>

definition hidden_keyword :: "nat json" where
  "hidden_keyword = JObj [(us ''$defs'', JObj [(us ''X'', JObj [(us ''minLength'', JNum 3)])]),
     (us ''$ref'', JStr (us ''#/$defs/X''))]"

lemma hidden_keyword_compiles:
  "compile_json_schema hidden_keyword
     = Inr \<lparr>jc_schema = JObj [(us ''minLength'', JNum 3)], jc_cache = [], jc_has_string = False\<rparr>"
  "validate_schema_keywords (JObj [(us ''minLength'', JNum (3 :: nat))]) = Some (UnsupportedKeyword (us ''minLength''))"
  "validate (\<lambda>n. True) (JStr []) (JObj [(us ''minLength'', JNum (3 :: nat))])"
  by code_simp+

text \<open>An object schema that allows one property, and a token that closes its string and adds another.\<close>

definition one_property :: "nat json" where
  "one_property = JObj [(us ''additionalProperties'', JBool False),
     (us ''properties'', JObj [(us ''a'', JObj [])]), (us ''type'', JStr (us ''object''))]"

definition open_output :: ustring where
  "open_output = us [CHR ''{'', CHR 0x22, CHR ''a'', CHR 0x22, CHR '':'', CHR 0x22]"

definition breaking_token :: ustring where
  "breaking_token = us [CHR 0x22, CHR '','', CHR 0x22, CHR ''b'', CHR 0x22, CHR '':'', CHR ''1'', CHR ''}'']"

definition one_property_sampler :: "nat sampler" where
  "one_property_sampler = feed_sampled_token open_output (with_vocab [breaking_token]
     (cs_new (JsonSchema \<lparr>jc_schema = one_property, jc_cache = [], jc_has_string = False\<rparr>)))"

lemma one_property_compiles:
  "compile_json_schema one_property = Inr \<lparr>jc_schema = one_property, jc_cache = [], jc_has_string = False\<rparr>"
  by code_simp

lemma one_property_invalid:
  "\<not> validate integral (JObj [(us ''a'', JStr []), (us ''b'', JNum n)]) one_property"
  unfolding validate.simps [of integral "JObj [(us ''a'', JStr []), (us ''b'', JNum n)]" one_property]
  by (simp add: one_property_def get_str_def get_array_def get_object_def
      has_key_def type_ok_def code_of_def)

lemma one_property_mask: "fst (compute_mask parse integral 1 one_property_sampler) = [True]"
proof -
  have fsm: "feed_token js_default open_output = (True, cs_fsm one_property_sampler)"
    "token_is_valid (cs_fsm one_property_sampler) breaking_token"
    by code_simp+
  have "inside_unterminated_string open_output" by code_simp
  then show ?thesis
    using fsm(2) by (simp add: compute_mask_def one_property_sampler_def with_vocab_def cs_new_def feed_sampled_token_def
        mask_for_def valid_tokens_def inside_string_fast_path_def resize_true_def)
qed

end
