(* ===== verification/RegexLaws.thy ===== *)
theory RegexLaws
  imports BoundedRegex JsonFsmLaws
begin

text \<open>
  The matcher against the language of a pattern: a positive answer is always right, a negative one
  is right unless the step budget ran out, and for patterns without variable repetition it never
  does. Escaped literals parse to patterns that match exactly themselves.
\<close>

section \<open>The language of a pattern\<close>

definition run_ok :: "regex_element \<Rightarrow> ustring \<Rightarrow> nat \<Rightarrow> bool" where
  "run_ok e tx k \<longleftrightarrow> re_min e \<le> k \<and> k \<le> re_max e \<and> k \<le> length tx
     \<and> list_all (cm_matches (re_matcher e)) (take k tx)"

primrec lang :: "bool \<Rightarrow> regex_element list \<Rightarrow> ustring \<Rightarrow> bool" where
  "lang anchor_end [] tx \<longleftrightarrow> (anchor_end \<longrightarrow> tx = [])"
| "lang anchor_end (e # es) tx \<longleftrightarrow> (\<exists>k. run_ok e tx k \<and> lang anchor_end es (drop k tx))"

definition br_language :: "bounded_regex \<Rightarrow> ustring \<Rightarrow> bool" where
  "br_language r tx \<longleftrightarrow>
     (if br_anchor_start r then lang (br_anchor_end r) (br_elements r) tx
      else \<exists>i. i \<le> length tx \<and> lang (br_anchor_end r) (br_elements r) (drop i tx))"

section \<open>Correctness of the matcher\<close>

lemma max_matched_spec:
  "k \<le> max_matched m lim tx \<longleftrightarrow> k \<le> lim \<and> k \<le> length tx \<and> list_all (cm_matches m) (take k tx)"
proof (induction tx arbitrary: k lim)
  case Nil
  then show ?case by auto
next
  case (Cons c w)
  then show ?case by (cases k; cases lim) auto
qed

lemma run_ok_iff: "run_ok e tx k \<longleftrightarrow> re_min e \<le> k \<and> k \<le> max_matched (re_matcher e) (re_max e) tx"
  by (auto simp: run_ok_def max_matched_spec)

lemma try_runs_sound:
  assumes "try_runs f lim tx ks n = (True, n')" and "\<And>w n n'. f w n = (True, n') \<Longrightarrow> P w"
  shows "\<exists>k \<in> set ks. P (drop k tx)"
  using assms(1)
proof (induction ks arbitrary: n)
  case Nil
  then show ?case by simp
next
  case (Cons k ks)
  then show ?case using assms(2) by (auto split: prod.splits bool.splits if_splits)
qed

lemma match_from_sound: "match_from ae lim es tx n = (True, n') \<Longrightarrow> lang ae es tx"
proof (induction es arbitrary: tx n n')
  case Nil
  then show ?case by (auto split: if_splits)
next
  case (Cons e es)
  let ?mm = "max_matched (re_matcher e) (re_max e) tx"
  have "try_runs (match_from ae lim es) lim tx (rev [re_min e..<?mm + 1]) (n + 1) = (True, n')"
    using Cons.prems by (auto simp: Let_def split: if_splits)
  from try_runs_sound [OF this, of "lang ae es"] obtain k where
    "k \<in> set (rev [re_min e..<?mm + 1])" "lang ae es (drop k tx)" using Cons.IH by blast
  then show ?case by (auto simp: run_ok_iff intro!: exI [of _ k])
qed

text \<open>The step counter only grows, and a negative answer within the budget has tried everything.\<close>

lemma try_runs_mono:
  assumes "\<And>w n. n \<le> snd (f w n)"
  shows "n \<le> snd (try_runs f lim tx ks n)"
proof (induction ks arbitrary: n)
  case Nil
  then show ?case by simp
next
  case (Cons k ks)
  obtain b m where f: "f (drop k tx) n = (b, m)" by fastforce
  have "n \<le> m" using assms [of n "drop k tx"] f by simp
  then show ?case using f Cons.IH [of m] by (auto split: bool.splits)
qed

lemma match_from_mono: "n \<le> snd (match_from ae lim es tx n)"
proof (induction es arbitrary: tx n)
  case Nil
  then show ?case by simp
next
  case (Cons e es)
  have "n + 1 \<le> snd (try_runs (match_from ae lim es) lim tx ks (n + 1))" for ks
    by (rule try_runs_mono) (rule Cons.IH)
  then have "n \<le> snd (try_runs (match_from ae lim es) lim tx ks (Suc n))" for ks
    by (metis Suc_eq_plus1 Suc_leD)
  then show ?case by (simp add: Let_def del: upt_Suc)
qed

lemma try_runs_complete:
  assumes "try_runs f lim tx ks n = (False, n')" and "n' \<le> lim" and "k \<in> set ks"
    and mono: "\<And>w n. n \<le> snd (f w n)" and f: "\<And>w n n'. f w n = (False, n') \<Longrightarrow> n' \<le> lim \<Longrightarrow> \<not> P w"
  shows "\<not> P (drop k tx)"
  using assms(1,3)
proof (induction ks arbitrary: n)
  case Nil
  then show ?case by simp
next
  case (Cons j ks)
  obtain b m where j: "f (drop j tx) n = (b, m)" by fastforce
  then have b: "\<not> b" "m \<le> lim" and rest: "try_runs f lim tx ks m = (False, n')"
    using Cons.prems(1) assms(2) by (auto split: bool.splits if_splits)
  show ?case using Cons.IH [OF rest] Cons.prems(2) f [of "drop j tx" n m] j b by auto
qed

lemma match_from_complete: "match_from ae lim es tx n = (False, n') \<Longrightarrow> n' \<le> lim \<Longrightarrow> \<not> lang ae es tx"
proof (induction es arbitrary: tx n n')
  case Nil
  then show ?case by (auto split: if_splits)
next
  case (Cons e es)
  let ?mm = "max_matched (re_matcher e) (re_max e) tx"
  have n: "\<not> n + 1 > lim" using Cons.prems by (auto split: if_splits)
  show ?case
  proof (cases "?mm < re_min e")
    case True
    then show ?thesis by (auto simp: run_ok_iff)
  next
    case False
    then have t: "try_runs (match_from ae lim es) lim tx (rev [re_min e..<?mm + 1]) (n + 1) = (False, n')"
      using Cons.prems(1) n by (simp add: Let_def)
    have "\<not> lang ae es (drop k tx)" if "run_ok e tx k" for k
    proof (rule try_runs_complete [OF t Cons.prems(2)])
      show "k \<in> set (rev [re_min e..<?mm + 1])" using that by (auto simp: run_ok_iff)
    qed (use match_from_mono Cons.IH in blast)+
    then show ?thesis by auto
  qed
qed

lemma match_starts_sound:
  "match_starts ae lim es tx n = (True, n') \<Longrightarrow> \<exists>i. i \<le> length tx \<and> lang ae es (drop i tx)"
proof (induction tx arbitrary: n)
  case Nil
  then have "match_from ae lim es [] n = (True, n')" by simp
  from match_from_sound [OF this] show ?case by simp
next
  case (Cons c w)
  obtain b m where f: "match_from ae lim es (c # w) n = (b, m)" by fastforce
  show ?case
  proof (cases b)
    case True
    then have "lang ae es (c # w)" using match_from_sound [of ae lim es "c # w" n m] f by simp
    then show ?thesis by (intro exI [of _ 0]) simp
  next
    case False
    then have "match_starts ae lim es w m = (True, n')" using Cons.prems f by (auto split: if_splits)
    from Cons.IH [OF this] obtain i where "i \<le> length w" "lang ae es (drop i w)" by blast
    then show ?thesis by (intro exI [of _ "Suc i"]) simp
  qed
qed

lemma match_starts_complete:
  "match_starts ae lim es tx n = (False, n') \<Longrightarrow> n' < lim \<Longrightarrow> i \<le> length tx \<Longrightarrow> \<not> lang ae es (drop i tx)"
proof (induction tx arbitrary: n i)
  case Nil
  then show ?case using match_from_complete [of ae lim es "[]" n n'] by simp
next
  case (Cons c w)
  obtain b m where j: "match_from ae lim es (c # w) n = (b, m)" by fastforce
  then have b: "\<not> b" "m < lim" and rest: "match_starts ae lim es w m = (False, n')"
    using Cons.prems(1,2) by (auto split: bool.splits if_splits)
  show ?case
  proof (cases i)
    case 0
    then show ?thesis using match_from_complete [of ae lim es "c # w" n m] j b by simp
  next
    case (Suc i')
    then show ?thesis using Cons.IH [OF rest Cons.prems(2), of i'] Cons.prems(3) by simp
  qed
qed

lemma br_run_sound: "br_matches r tx \<Longrightarrow> br_language r tx"
proof -
  assume "br_matches r tx"
  then obtain n where n: "br_run r tx = (True, n)" by (cases "br_run r tx") (simp add: br_matches_def)
  show ?thesis
  proof (cases "br_anchor_start r")
    case True
    then have "match_from (br_anchor_end r) MAX_STEPS (br_elements r) tx 0 = (True, n)" using n by (simp add: br_run_def)
    from match_from_sound [OF this] show ?thesis using True by (simp add: br_language_def)
  next
    case False
    then have "match_starts (br_anchor_end r) MAX_STEPS (br_elements r) tx 0 = (True, n)" using n by (simp add: br_run_def)
    from match_starts_sound [OF this] show ?thesis using False by (simp add: br_language_def)
  qed
qed

lemma br_run_complete:
  assumes "\<not> br_matches r tx" and "snd (br_run r tx) < MAX_STEPS"
  shows "\<not> br_language r tx"
proof -
  obtain n where n: "br_run r tx = (False, n)" "n < MAX_STEPS"
    using assms by (cases "br_run r tx") (simp add: br_matches_def)
  show ?thesis
  proof (cases "br_anchor_start r")
    case True
    then have "match_from (br_anchor_end r) MAX_STEPS (br_elements r) tx 0 = (False, n)" using n by (simp add: br_run_def)
    from match_from_complete [OF this] show ?thesis using True n(2) by (simp add: br_language_def)
  next
    case False
    then have "match_starts (br_anchor_end r) MAX_STEPS (br_elements r) tx 0 = (False, n)" using n by (simp add: br_run_def)
    from match_starts_complete [OF this n(2)] show ?thesis using False by (auto simp: br_language_def)
  qed
qed

section \<open>Fixed repetition\<close>

definition fixed :: "regex_element \<Rightarrow> bool" where
  "fixed e \<longleftrightarrow> re_min e = re_max e"

lemma match_from_fixed_steps:
  "list_all fixed es \<Longrightarrow> n + length es < lim \<Longrightarrow> snd (match_from ae lim es tx n) \<le> n + length es + 1"
proof (induction es arbitrary: tx n)
  case Nil
  then show ?case by simp
next
  case (Cons e es)
  let ?mm = "max_matched (re_matcher e) (re_max e) tx"
  have "?mm \<le> re_max e" using max_matched_spec [of ?mm "re_matcher e" "re_max e" tx] by simp
  then have ks: "rev [re_min e..<?mm + 1] = (if ?mm < re_min e then [] else [re_min e])"
    using Cons.prems(1) by (auto simp: fixed_def)
  have IH: "snd (match_from ae lim es w (n + 1)) \<le> n + 1 + length es + 1" for w
    using Cons.IH [of "n + 1" w] Cons.prems by simp
  have m: "match_from ae lim (e # es) tx n = (if ?mm < re_min e then (False, n + 1)
      else try_runs (match_from ae lim es) lim tx [re_min e] (n + 1))"
    using ks Cons.prems(2) by (simp only: match_from.simps Let_def) simp
  obtain b k where f: "match_from ae lim es (drop (re_min e) tx) (n + 1) = (b, k)" by fastforce
  have "k \<le> n + 1 + length es + 1" using IH [of "drop (re_min e) tx"] f by simp
  then show ?case unfolding m using f by (cases b) auto
qed

lemma fixed_anchored_exact:
  assumes "list_all fixed (br_elements r)" and "br_anchor_start r" and "length (br_elements r) + 1 < MAX_STEPS"
  shows "br_matches r tx \<longleftrightarrow> br_language r tx"
proof
  assume "br_language r tx"
  moreover have "snd (br_run r tx) < MAX_STEPS"
    using match_from_fixed_steps [OF assms(1), of 0 MAX_STEPS "br_anchor_end r" tx] assms(2,3)
    by (simp add: br_run_def)
  ultimately show "br_matches r tx" using br_run_complete by blast
qed (rule br_run_sound)

section \<open>Escaped literals\<close>

text \<open>A backslash before every character, the form in which a literal is written safely.\<close>

definition escape :: "ustring \<Rightarrow> ustring" where
  "escape w = concat (map (\<lambda>c. [92, c]) w)"

definition class_letter :: "uchar \<Rightarrow> bool" where
  "class_letter c \<longleftrightarrow> c \<in> set (us ''dDwWsS'')"

definition literal :: "uchar \<Rightarrow> regex_element" where
  "literal c = \<lparr>re_matcher = Exact c, re_min = 1, re_max = 1\<rparr>"

lemma code_letters [simp]:
  "code_of CHR ''d'' = 100" "code_of CHR ''D'' = 68" "code_of CHR ''w'' = 119" "code_of CHR ''W'' = 87" "code_of CHR ''S'' = 83"
  "code_of CHR ''*'' = 42" "code_of CHR ''?'' = 63"
  by (simp_all add: code_of_def)

lemma parse_escape: "list_all (\<lambda>c. \<not> class_letter c) w \<Longrightarrow> parse_elements (escape w) = Some (map literal w)"
proof (induction w)
  case Nil
  then show ?case by (simp add: escape_def)
next
  case (Cons c w)
  have "escape (c # w) = 92 # c # escape w" by (simp add: escape_def)
  moreover have "parse_quantifier (escape w) = Some ((1, 1), escape w)"
    by (cases w) (simp_all add: escape_def parse_quantifier_def)
  moreover have "escape_matcher c = Exact c"
    using Cons.prems by (auto simp: class_letter_def escape_matcher_def)
  ultimately show ?case
    using Cons by (simp add: parse_matcher_def literal_def)
qed

lemma lang_literals: "lang True (map literal w) tx \<longleftrightarrow> tx = w"
proof (induction w arbitrary: tx)
  case Nil
  then show ?case by simp
next
  case (Cons c w)
  have "run_ok (literal c) tx k \<longleftrightarrow> k = 1 \<and> tx \<noteq> [] \<and> hd tx = c" for k
    by (cases tx; cases k) (auto simp: run_ok_def literal_def)
  then show ?case using Cons by (cases tx) auto
qed

lemma last_escape: "w \<noteq> [] \<Longrightarrow> last (escape w) = last w \<and> escape w \<noteq> []"
  by (induction w) (auto simp: escape_def)

lemma parse_anchored_literal:
  assumes "list_all (\<lambda>c. \<not> class_letter c) w" and "w \<noteq> []" and "last w \<noteq> 92"
  shows "br_parse (94 # escape w @ [36])
    = Some \<lparr>br_elements = map literal w, br_anchor_start = True, br_anchor_end = True\<rparr>"
proof -
  let ?p = "94 # escape w @ [36 :: nat]"
  have l: "last (escape w) = last w" "escape w \<noteq> []" using last_escape [OF assms(2)] by simp_all
  then have "?p ! (length ?p - 2) = last w"
    by (simp add: nth_append last_conv_nth nth_Cons')
  then show ?thesis
    using assms(3) l parse_escape [OF assms(1)] by (simp add: br_parse_def Let_def)
qed

lemma validate_escaped:
  assumes "list_all (\<lambda>c. \<not> class_letter c) w" and "w \<noteq> []" and "last w \<noteq> 92" and "length w + 1 < MAX_STEPS"
  shows "validate_pattern (94 # escape w @ [36]) tx \<longleftrightarrow> tx = w"
proof -
  let ?r = "\<lparr>br_elements = map literal w, br_anchor_start = True, br_anchor_end = True\<rparr>"
  have "list_all fixed (br_elements ?r)" by (simp add: fixed_def literal_def list_all_iff)
  then have "br_matches ?r tx \<longleftrightarrow> br_language ?r tx"
    using assms(4) by (intro fixed_anchored_exact) simp_all
  then show ?thesis
    using parse_anchored_literal [OF assms(1-3)] by (simp add: validate_pattern_def br_language_def lang_literals)
qed

text \<open>A pattern that ends in an escaped backslash and an anchor loses the anchor to the escape test.\<close>

lemma escaped_backslash_anchor:
  "br_parse (us [CHR ''^'', CHR 0x5C, CHR 0x5C, CHR ''$''])
     = Some \<lparr>br_elements = [literal 92, literal 36], br_anchor_start = True, br_anchor_end = False\<rparr>"
  "\<not> validate_pattern (us [CHR ''^'', CHR 0x5C, CHR 0x5C, CHR ''$'']) [92]"
proof -
  have c: "code_of CHR ''^'' = 94" "code_of CHR ''$'' = 36" by (simp_all add: code_of_def)
  show p: "br_parse (us [CHR ''^'', CHR 0x5C, CHR 0x5C, CHR ''$''])
     = Some \<lparr>br_elements = [literal 92, literal 36], br_anchor_start = True, br_anchor_end = False\<rparr>"
    by (simp add: br_parse_def c parse_matcher_def escape_matcher_def parse_quantifier_def literal_def)
  then show "\<not> validate_pattern (us [CHR ''^'', CHR 0x5C, CHR 0x5C, CHR ''$'']) [92]"
    using br_run_sound [of "\<lparr>br_elements = [literal 92, literal 36], br_anchor_start = True, br_anchor_end = False\<rparr>" "[92]"]
    by (auto simp: validate_pattern_def br_language_def run_ok_def literal_def)
qed

end
