(* ===== verification/ConstraintSpec.thy ===== *)
theory ConstraintSpec
  imports JsonSchemaLaws RegexLaws
begin

text \<open>
  What constrained decoding promises: JSON documents pass the mask token by token, whatever is sampled
  can be finished, patterns are decided as their language says, references are resolved away; and
  where it falls short.
\<close>

section \<open>JSON mode\<close>

text \<open>
  C17. The mask never blocks a JSON document whose strings have no control character: for every document
  of the grammar of RFC 8259 in which U+007F and U+0080 to U+009F stand in no string, and every split of
  it into tokens, each token is valid in the state the tokens before it lead to, and the whole document
  is reported complete. The grammar of the RFC allows those characters, the automaton does not: see
  \<open>delete_character_blocked\<close>.
\<close>

theorem json_document_passes:
  assumes "json_document (concat (ts @ t # vs))"
  shows "(\<exists>s. run_tokens js_default ts = Some s \<and> token_is_valid s t)
    \<and> fc_root_done (check_token js_default (concat (ts @ t # vs)))"
proof -
  obtain u where u: "feed_token js_default (concat (ts @ t # vs)) = (True, u)" "after_value [] u"
    using document_accepted [OF assms] by blast
  show ?thesis using run_tokens_split [OF u(1)] after_value_root [OF u] by blast
qed

theorem json_document_passes_witness:
  "fc_root_done (check_token js_default (concat ([us ''['', us ''tr''] @ us ''ue'' # [us '']''])))"
proof -
  have "json_elements ([] @ us ''true'' @ [])" by (intro je_one jv_true) (simp_all add: all_ws_def)
  then have "json_value (us ''['' @ us ''true'' @ us '']'')" using jv_array [of "us ''true''"] by simp
  then have "json_document (concat ([us ''['', us ''tr''] @ us ''ue'' # [us '']'']))"
    unfolding json_document_def
    by (intro exI [of _ "[]"] exI [of _ "us ''['' @ us ''true'' @ us '']''"]) (simp add: all_ws_def)
  then show ?thesis by (rule json_document_passes [THEN conjunct2])
qed

text \<open>A string with the character U+007F is legal JSON, but no token may put it there.\<close>

theorem delete_character_blocked:
  "token_is_valid js_default [34, 97] \<and> \<not> token_is_valid js_default [34, 127] \<and> \<not> token_is_valid js_default [34, 133]"
  by code_simp

section \<open>Sampling\<close>

text \<open>
  One call of the sampler on no more logits than the vocabulary has tokens, none of them minus infinity,
  while some token is valid. (With no valid token the code leaves the logits as they are, and an id
  beyond the vocabulary is let through.)
\<close>

inductive sample_step :: "inner_sampler \<Rightarrow> 'n parser \<Rightarrow> ('n \<Rightarrow> bool) \<Rightarrow> ustring list \<Rightarrow> 'n sampler \<Rightarrow> 'n sampler \<Rightarrow> bool"
  for inner parse integral vocab where
  sampled: "sample inner parse integral logits history s = Some (i, t) \<Longrightarrow> F32_NEG_INFINITY \<notin> set logits
    \<Longrightarrow> length logits \<le> length vocab \<Longrightarrow> True \<in> set (fst (compute_mask parse integral (length logits) s))
    \<Longrightarrow> sample_step inner parse integral vocab s t"

lemma sample_run_sync:
  assumes "(sample_step inner parse integral vocab)\<^sup>*\<^sup>* s t" and "picks_finite inner" and "cs_sync parse integral vocab s"
  shows "cs_sync parse integral vocab t"
  using assms(1)
proof induction
  case base
  then show ?case by (rule assms(3))
next
  case (step t u)
  from step(2) show ?case
    by cases (use sample_sync [OF step(3) assms(2)] in blast)
qed

text \<open>
  C18. What the constrained sampler emits can be finished: after any number of samples from a new
  sampler, in JSON mode or under a schema, with any inner sampler that picks a logit above minus
  infinity when there is one, the automaton has read exactly the emitted text, and the emitted text
  followed by the closing of its state is accepted as a complete value. Each sample is taken over at
  most as many logits as the vocabulary has tokens, none of them minus infinity, and with at least one
  token that the mask allows: with none the code samples unmasked, and it lets ids beyond the
  vocabulary through.
\<close>

theorem sampled_output_completable:
  assumes "(sample_step inner parse integral vocab)\<^sup>*\<^sup>* (with_vocab vocab (cs_new c)) s"
    and "picks_finite inner" and "fresh_constraint c"
  shows "feed_token js_default (cs_output s) = (True, cs_fsm s) \<and> accepts (cs_output s @ closing (cs_fsm s))"
proof -
  have "cs_sync parse integral vocab s"
    using sample_run_sync [OF assms(1,2)] cs_sync_new [OF assms(3)] by blast
  then show ?thesis using cs_sync_completable by (auto simp: cs_sync_def)
qed

definition first_finite :: inner_sampler where
  "first_finite logits history = length (takeWhile (\<lambda>x. x = F32_NEG_INFINITY) logits)"

lemma first_finite_picks: "picks_finite first_finite"
  unfolding picks_finite_def first_finite_def
proof (intro allI impI)
  fix logits :: "u32 list" and history :: "nat list"
  assume "\<exists>x \<in> set logits. x \<noteq> F32_NEG_INFINITY"
  then have l: "length (takeWhile (\<lambda>x. x = F32_NEG_INFINITY) logits) < length logits"
    by (metis (mono_tags, lifting) length_takeWhile_le nat_less_le set_takeWhileD takeWhile_eq_take take_all_iff order_refl)
  then show "length (takeWhile (\<lambda>x. x = F32_NEG_INFINITY) logits) < length logits
    \<and> logits ! length (takeWhile (\<lambda>x. x = F32_NEG_INFINITY) logits) \<noteq> F32_NEG_INFINITY"
    using nth_length_takeWhile [OF l] by simp
qed

definition brackets_sampler :: "nat sampler" where
  "brackets_sampler = with_vocab [us ''['', us '']''] (cs_new JsonObject)"

lemma brackets_mask: "fst (compute_mask (\<lambda>w. Inl []) (\<lambda>n. True) 2 brackets_sampler) = [True, False]"
  by code_simp

theorem sampled_output_completable_witness:
  "accepts (us ''['' @ closing (snd (feed_token js_default (us ''[''))))"
proof -
  obtain s1 where m: "compute_mask (\<lambda>w. Inl []) (\<lambda>n. True) 2 brackets_sampler = ([True, False], s1)"
    using brackets_mask by (cases "compute_mask (\<lambda>w. Inl []) (\<lambda>n. True) 2 brackets_sampler") simp
  note F = compute_mask_fields [OF m]
  have a: "apply_mask [0, 0] [True, False] = Some [0, F32_NEG_INFINITY]" by code_simp
  have i: "first_finite [0, F32_NEG_INFINITY] [] = 0" by (simp add: first_finite_def F32_NEG_INFINITY_def)
  have "sample first_finite (\<lambda>w. Inl []) (\<lambda>n. True) [0, 0] [] brackets_sampler
      = Some (0, feed_sampled_token_id 0 s1)"
    using m [unfolded numeral_2_eq_2] a i by (simp add: sample_def)
  moreover have nz: "F32_NEG_INFINITY \<notin> set [0, 0]" by (simp add: F32_NEG_INFINITY_def)
  ultimately have "sample_step first_finite (\<lambda>w. Inl []) (\<lambda>n. True) [us ''['', us '']''] brackets_sampler (feed_sampled_token_id 0 s1)"
    by (rule sampled) (use brackets_mask [unfolded numeral_2_eq_2] in simp_all)
  then have r: "(sample_step first_finite (\<lambda>w. Inl []) (\<lambda>n. True) [us ''['', us '']''])\<^sup>*\<^sup>*
      (with_vocab [us ''['', us '']''] (cs_new JsonObject)) (feed_sampled_token_id 0 s1)"
    unfolding brackets_sampler_def by (rule r_into_rtranclp)
  have "cs_output (feed_sampled_token_id 0 s1) = us ''[''" "cs_fsm (feed_sampled_token_id 0 s1) = snd (feed_token js_default (us ''[''))"
    using F(1-3) by (simp_all add: feed_sampled_token_id_def feed_sampled_token_def brackets_sampler_def with_vocab_def cs_new_def)
  then show ?thesis
    using sampled_output_completable [OF r first_finite_picks] by (simp add: fresh_constraint_def)
qed

section \<open>Strings and patterns\<close>

text \<open>
  The scan that decides whether the output ends inside a string agrees with the automaton on every
  output the automaton has read.
\<close>

theorem inside_string_scan_agrees:
  assumes "feed_token js_default w = (True, t)"
  shows "inside_unterminated_string w \<longleftrightarrow> js_mode t = StringKey \<or> js_mode t = StringValue"
  using inside_string_agrees [OF assms] by (simp add: in_string_def)

theorem inside_string_scan_agrees_witness:
  "inside_unterminated_string open_output
    \<longleftrightarrow> js_mode (snd (feed_token js_default open_output)) = StringKey
        \<or> js_mode (snd (feed_token js_default open_output)) = StringValue"
proof (rule inside_string_scan_agrees)
  show "feed_token js_default open_output = (True, snd (feed_token js_default open_output))" by code_simp
qed

text \<open>
  C19. The pattern matcher decides the language of the pattern, anchored or not, whenever it answers
  within its budget of 10000 steps.
\<close>

theorem pattern_decided:
  assumes "snd (br_run r tx) < MAX_STEPS"
  shows "br_matches r tx \<longleftrightarrow> br_language r tx"
  using br_run_sound br_run_complete [OF _ assms] by blast

theorem pattern_decided_witness:
  "br_matches \<lparr>br_elements = [literal 97], br_anchor_start = False, br_anchor_end = True\<rparr> [98, 97]
    \<longleftrightarrow> br_language \<lparr>br_elements = [literal 97], br_anchor_start = False, br_anchor_end = True\<rparr> [98, 97]"
  by (rule pattern_decided) (simp add: br_run_def literal_def MAX_STEPS_def Let_def)

text \<open>
  A literal text written as an anchored pattern, every character escaped, is matched by that text
  and by nothing else -- for texts below the step budget without the class letters d, w, s and
  their capitals, and not ending in a backslash.
\<close>

theorem escaped_literal_exact:
  assumes "list_all (\<lambda>c. \<not> class_letter c) w" and "w \<noteq> []" and "last w \<noteq> 92" and "length w + 1 < MAX_STEPS"
  shows "validate_pattern (94 # escape w @ [36]) tx \<longleftrightarrow> tx = w"
  by (rule validate_escaped [OF assms])

theorem escaped_literal_exact_witness:
  "validate_pattern (94 # escape (us ''a.b'') @ [36]) (us ''a.b'')
    \<and> \<not> validate_pattern (94 # escape (us ''a.b'') @ [36]) (us ''axb'')"
proof -
  have h: "list_all (\<lambda>c. \<not> class_letter c) (us ''a.b'')" "us ''a.b'' \<noteq> []" "last (us ''a.b'') \<noteq> 92"
    "length (us ''a.b'') + 1 < MAX_STEPS" by (simp_all add: class_letter_def MAX_STEPS_def)
  show ?thesis using escaped_literal_exact [OF h] by (simp add: code_of_def)
qed

section \<open>Schemas\<close>

text \<open>
  Compilation resolves references away: in the schema it returns no object has a \<open>$ref\<close> left,
  however the references were nested, provided every \<open>$ref\<close> of the source is a string.
\<close>

theorem compiled_schema_ref_free:
  assumes "compile_json_schema schema = Inr c" and "proper_refs schema"
  shows "ref_free (jc_schema c)"
  by (rule compile_ref_free [OF assms])

theorem compiled_schema_ref_free_witness: "ref_free (JObj [(us ''minLength'', JNum (3 :: nat))])"
proof -
  have "proper_refs hidden_keyword" by (simp add: hidden_keyword_def code_of_def)
  from compiled_schema_ref_free [OF hidden_keyword_compiles(1) this] show ?thesis by simp
qed

text \<open>
  The shortcut inside strings breaks schemas: under a schema that allows the property \<open>a\<close> alone,
  after the opening of a's string, the mask lets a token through that closes the string and adds a
  second property, although the object this completes violates the schema -- for every number, and
  whatever the JSON parser answers.
\<close>

theorem string_shortcut_breaks_schema:
  "fst (compute_mask parse integral 1 one_property_sampler) = [True]
    \<and> compile_json_schema one_property = Inr \<lparr>jc_schema = one_property, jc_cache = [], jc_has_string = False\<rparr>
    \<and> \<not> validate integral (JObj [(us ''a'', JStr []), (us ''b'', JNum n)]) one_property"
  using one_property_mask one_property_compiles one_property_invalid by blast

end
