(* ===== verification/LruCaches.thy ===== *)
theory LruCaches
  imports GrimPrelude "HOL-Library.AList"
begin

text \<open>
  The two caches of \<open>crates/grim-memory\<close> that hold float arrays under an element budget: encoder
  embeddings (\<open>encoder_cache.rs\<close>) and hidden states tied to KV chunks (\<open>hidden_state_store.rs\<close>).
  Their hash maps are association lists: only their contents and their number are observable, and
  dropping the chunks of a hash gives the same state in every order. A subtraction of sizes that
  would go below zero panics.
\<close>

section \<open>The shared shape\<close>

record ('k, 'v) element_cache =
  lc_max :: nat
  lc_cur :: nat
  lc_entries :: "('k \<times> 'v) list"
  lc_queue :: "'k list"

datatype cache_error = TooLarge nat nat

definition touch_lru :: "'k \<Rightarrow> ('k, 'v, 'a) element_cache_scheme \<Rightarrow> ('k, 'v, 'a) element_cache_scheme" where
  "touch_lru k c = c\<lparr>lc_queue := remove1 k (lc_queue c) @ [k]\<rparr>"

definition lookup_touch :: "'k \<Rightarrow> ('k, 'v, 'a) element_cache_scheme \<Rightarrow> 'v option \<times> ('k, 'v, 'a) element_cache_scheme" where
  "lookup_touch k c =
     (if map_of (lc_entries c) k \<noteq> None then (map_of (lc_entries c) k, touch_lru k c) else (None, c))"

section \<open>Encoder embeddings\<close>

record encoder_embedding =
  em_num_tokens :: nat
  em_hidden_dim :: nat
  em_data :: "f32 list"

type_synonym encoder_key = "u64 \<times> string"
type_synonym encoder_cache = "(encoder_key, encoder_embedding) element_cache"

definition encoder_cache_new :: "nat \<Rightarrow> encoder_cache" where
  "encoder_cache_new max_elements = \<lparr>lc_max = max_elements, lc_cur = 0, lc_entries = [], lc_queue = []\<rparr>"

text \<open>The eviction loop: it pops the queue until the request fits.\<close>

definition drop_entry :: "('v \<Rightarrow> nat) \<Rightarrow> 'k \<Rightarrow> ('k, 'v, 'a) element_cache_scheme \<Rightarrow> ('k, 'v, 'a) element_cache_scheme" where
  "drop_entry sz k c =
     (case map_of (lc_entries c) k of
        None \<Rightarrow> c
      | Some v \<Rightarrow> c\<lparr>lc_entries := AList.delete k (lc_entries c), lc_cur := lc_cur c - sz v\<rparr>)"

lemma drop_entry_queue [simp]: "lc_queue (drop_entry sz k c) = lc_queue c"
  by (simp add: drop_entry_def split: option.splits)

function evict_until :: "('v \<Rightarrow> nat) \<Rightarrow> nat \<Rightarrow> ('k, 'v, 'a) element_cache_scheme \<Rightarrow> ('k, 'v, 'a) element_cache_scheme" where
  "evict_until sz req c =
     (if lc_cur c + req > lc_max c then
        (case lc_queue c of
           [] \<Rightarrow> c
         | k # q \<Rightarrow> evict_until sz req (drop_entry sz k (c\<lparr>lc_queue := q\<rparr>)))
      else c)"
  by pat_completeness auto
termination
  by (relation "measure (\<lambda>(sz, req, c). length (lc_queue c))") auto

declare evict_until.simps [simp del]

definition store_entry :: "('v \<Rightarrow> nat) \<Rightarrow> 'k \<Rightarrow> 'v \<Rightarrow> ('k, 'v, 'a) element_cache_scheme \<Rightarrow> ('k, 'v, 'a) element_cache_scheme" where
  "store_entry sz k v c = touch_lru k (c\<lparr>lc_cur := lc_cur c + sz v, lc_entries := AList.update k v (lc_entries c)\<rparr>)"

text \<open>Replacing an entry gives back its size first; the entry itself stays in the map and the queue.\<close>

definition release_old :: "('v \<Rightarrow> nat) \<Rightarrow> 'k \<Rightarrow> ('k, 'v, 'a) element_cache_scheme \<Rightarrow> ('k, 'v, 'a) element_cache_scheme option" where
  "release_old sz k c =
     (case map_of (lc_entries c) k of
        None \<Rightarrow> Some c
      | Some old \<Rightarrow> if lc_cur c < sz old then None else Some (c\<lparr>lc_cur := lc_cur c - sz old\<rparr>))"

definition em_size :: "encoder_embedding \<Rightarrow> nat" where
  "em_size e = length (em_data e)"

definition encoder_insert ::
  "u64 \<Rightarrow> string \<Rightarrow> nat \<Rightarrow> nat \<Rightarrow> f32 list \<Rightarrow> encoder_cache \<Rightarrow> (cache_error, unit) outcome \<times> encoder_cache" where
  "encoder_insert hash modality num_tokens hidden_dim data c =
     (let req = length data; k = (hash, modality) in
      if req > lc_max c then (Err (TooLarge req (lc_max c)), c)
      else (case release_old em_size k c of
          None \<Rightarrow> (Panic, c)
        | Some c1 \<Rightarrow> (Ok (), store_entry em_size k
            \<lparr>em_num_tokens = num_tokens, em_hidden_dim = hidden_dim, em_data = data\<rparr> (evict_until em_size req c1))))"

definition encoder_get :: "u64 \<Rightarrow> string \<Rightarrow> encoder_cache \<Rightarrow> encoder_embedding option \<times> encoder_cache" where
  "encoder_get hash modality c = lookup_touch (hash, modality) c"

definition num_entries :: "('k, 'v, 'a) element_cache_scheme \<Rightarrow> nat" where
  "num_entries c = length (lc_entries c)"

definition allocated_elements :: "('k, 'v, 'a) element_cache_scheme \<Rightarrow> nat" where
  "allocated_elements c = lc_cur c"

section \<open>Hidden states\<close>

record hidden_state_chunk =
  hc_token_count :: nat
  hc_hidden_dim :: nat
  hc_data :: "f32 list"

type_synonym hidden_state_key = "u64 \<times> nat"

record hidden_state_store = "(hidden_state_key, hidden_state_chunk) element_cache" +
  hs_valid :: "u64 \<rightharpoonup> nat"

definition hc_size :: "hidden_state_chunk \<Rightarrow> nat" where
  "hc_size h = length (hc_data h)"

definition hs_new :: "nat \<Rightarrow> hidden_state_store" where
  "hs_new max_elements = \<lparr>lc_max = max_elements, lc_cur = 0, lc_entries = [], lc_queue = [], hs_valid = Map.empty\<rparr>"

definition retain_kv_chunk :: "u64 \<Rightarrow> hidden_state_store \<Rightarrow> hidden_state_store" where
  "retain_kv_chunk h s =
     s\<lparr>hs_valid := (hs_valid s)(h \<mapsto> (case hs_valid s h of Some n \<Rightarrow> n + 1 | None \<Rightarrow> 1))\<rparr>"

definition remove_key :: "('v \<Rightarrow> nat) \<Rightarrow> 'k \<Rightarrow> ('k, 'v, 'a) element_cache_scheme \<Rightarrow> ('k, 'v, 'a) element_cache_scheme" where
  "remove_key sz k c = (drop_entry sz k c)\<lparr>lc_queue := remove1 k (lc_queue c)\<rparr>"

lemma remove_key_queue [simp]: "lc_queue (remove_key sz k c) = remove1 k (lc_queue c)"
  by (simp add: remove_key_def)

function evict_keys_until :: "('v \<Rightarrow> nat) \<Rightarrow> nat \<Rightarrow> ('k, 'v, 'a) element_cache_scheme \<Rightarrow> ('k, 'v, 'a) element_cache_scheme" where
  "evict_keys_until sz req c =
     (if lc_cur c + req > lc_max c then
        (case lc_queue c of
           [] \<Rightarrow> c
         | k # q \<Rightarrow> evict_keys_until sz req (remove_key sz k (c\<lparr>lc_queue := q\<rparr>)))
      else c)"
  by pat_completeness auto
termination
  by (relation "measure (\<lambda>(sz, req, c). length (lc_queue c))") (auto simp: length_remove1 less_Suc_eq_le)

declare evict_keys_until.simps [simp del]

definition evict_kv_chunk :: "u64 \<Rightarrow> hidden_state_store \<Rightarrow> hidden_state_store" where
  "evict_kv_chunk h s =
     (case hs_valid s h of
        Some n \<Rightarrow> if n > 1 then s\<lparr>hs_valid := (hs_valid s)(h \<mapsto> n - 1)\<rparr>
                  else fold (remove_key hc_size) (filter (\<lambda>k. fst k = h) (map fst (lc_entries s)))
                         (s\<lparr>hs_valid := (hs_valid s)(h := None)\<rparr>)
      | None \<Rightarrow> fold (remove_key hc_size) (filter (\<lambda>k. fst k = h) (map fst (lc_entries s)))
                  (s\<lparr>hs_valid := (hs_valid s)(h := None)\<rparr>))"

definition insert_chunk ::
  "u64 \<Rightarrow> nat \<Rightarrow> nat \<Rightarrow> nat \<Rightarrow> f32 list \<Rightarrow> hidden_state_store \<Rightarrow> (cache_error, unit) outcome \<times> hidden_state_store" where
  "insert_chunk hash layer token_count hidden_dim data s =
     (let req = length data; k = (hash, layer) in
      if req > lc_max s then (Err (TooLarge req (lc_max s)), s)
      else (case release_old hc_size k s of
          None \<Rightarrow> (Panic, s)
        | Some s1 \<Rightarrow> (Ok (), store_entry hc_size k
            \<lparr>hc_token_count = token_count, hc_hidden_dim = hidden_dim, hc_data = data\<rparr> (evict_keys_until hc_size req s1))))"

definition get_chunk :: "u64 \<Rightarrow> nat \<Rightarrow> hidden_state_store \<Rightarrow> hidden_state_chunk option \<times> hidden_state_store" where
  "get_chunk hash layer s = lookup_touch (hash, layer) s"

section \<open>The invariant\<close>

text \<open>The queue lists the keys once each; the counter is the sum of the sizes and within the budget.\<close>

definition lc_inv :: "('v \<Rightarrow> nat) \<Rightarrow> ('k, 'v, 'a) element_cache_scheme \<Rightarrow> bool" where
  "lc_inv sz c \<longleftrightarrow> distinct (map fst (lc_entries c)) \<and> distinct (lc_queue c)
     \<and> set (lc_queue c) = fst ` set (lc_entries c)
     \<and> lc_cur c = sum_list (map (\<lambda>(k, v). sz v) (lc_entries c)) \<and> lc_cur c \<le> lc_max c"

lemma sum_delete:
  "distinct (map fst m) \<Longrightarrow> map_of m k = Some v
    \<Longrightarrow> sum_list (map (\<lambda>(k, v). sz v) m) = sz v + sum_list (map (\<lambda>(k, v). sz v) (AList.delete k m))" for sz :: "'v \<Rightarrow> nat"
proof (induction m)
  case Nil
  then show ?case by simp
next
  case (Cons x m)
  obtain j w where x: "x = (j, w)" by (cases x)
  show ?case
  proof (cases "j = k")
    case True
    then have "k \<notin> fst ` set m" using Cons.prems(1) x by auto
    then have "AList.delete k m = m" by (induction m) (auto simp: image_iff)
    then show ?thesis using True Cons.prems(2) x by simp
  next
    case False
    then show ?thesis using Cons x by auto
  qed
qed

lemma update_fresh: "k \<notin> fst ` set m \<Longrightarrow> AList.update k v m = m @ [(k, v)]"
  by (induction m) auto

lemma drop_entry_fields [simp]: "lc_max (drop_entry sz k c) = lc_max c"
  by (simp add: drop_entry_def split: option.splits)

lemma map_of_drop_entry: "map_of (lc_entries (drop_entry sz k c)) = (map_of (lc_entries c))(k := None)"
  by (auto simp: drop_entry_def delete_conv' split: option.splits)

text \<open>Dropping the oldest key keeps the invariant; both eviction loops do the same on distinct queues.\<close>

lemma lc_inv_pop:
  assumes "lc_inv sz c" and "lc_queue c = k # q"
  shows "lc_inv sz (drop_entry sz k (c\<lparr>lc_queue := q\<rparr>))"
proof -
  have k: "k \<in> fst ` set (lc_entries c)" "k \<notin> set q" "distinct q" "fst ` set (lc_entries c) = insert k (set q)"
    using assms by (auto simp: lc_inv_def)
  then obtain v where v: "map_of (lc_entries c) k = Some v" by (metis not_None_eq map_of_eq_None_iff)
  have "set q = fst ` set (AList.delete k (lc_entries c))"
  proof -
    have "set (map fst (AList.delete k (lc_entries c))) = set (map fst (lc_entries c)) - {k}"
      unfolding delete_keys by auto
    then show ?thesis using k by auto
  qed
  moreover have "lc_cur c = sz v + sum_list (map (\<lambda>(k, v). sz v) (AList.delete k (lc_entries c)))"
    using sum_delete [OF _ v, of sz] assms(1) by (simp add: lc_inv_def)
  ultimately show ?thesis
    using assms k(3) v by (simp add: lc_inv_def drop_entry_def distinct_delete) linarith
qed

lemma evict_keys_eq: "lc_inv sz c \<Longrightarrow> evict_keys_until sz req c = evict_until sz req c"
proof (induction sz req c rule: evict_until.induct)
  case (1 sz req c)
  show ?case
  proof (cases "lc_cur c + req > lc_max c")
    case False
    then show ?thesis by (simp add: evict_until.simps [of sz req c] evict_keys_until.simps [of sz req c])
  next
    case True
    show ?thesis
    proof (cases "lc_queue c")
      case Nil
      then show ?thesis by (simp add: evict_until.simps [of sz req c] evict_keys_until.simps [of sz req c])
    next
      case (Cons k q)
      have "k \<notin> set q" using 1(2) Cons by (auto simp: lc_inv_def)
      then have "remove_key sz k (c\<lparr>lc_queue := q\<rparr>) = drop_entry sz k (c\<lparr>lc_queue := q\<rparr>)"
        by (simp add: remove_key_def remove1_idem drop_entry_def split: option.splits)
      then show ?thesis
        using 1(1) [OF True Cons lc_inv_pop [OF 1(2) Cons]] True Cons
        by (simp add: evict_until.simps [of sz req c] evict_keys_until.simps [of sz req c])
    qed
  qed
qed

text \<open>
  The eviction stops as soon as the request fits, having dropped a prefix of the queue -- the least
  recently used keys -- and nothing else; one key fewer would not have been enough.
\<close>

lemma evict_until_spec:
  assumes "lc_inv sz c" and "req \<le> lc_max c"
  shows "lc_inv sz (evict_until sz req c) \<and> lc_cur (evict_until sz req c) + req \<le> lc_max c
    \<and> lc_max (evict_until sz req c) = lc_max c
    \<and> (\<exists>n. lc_queue (evict_until sz req c) = drop n (lc_queue c)
        \<and> map_of (lc_entries (evict_until sz req c)) = map_of (lc_entries c) |` (- set (take n (lc_queue c))))"
  using assms
proof (induction sz req c rule: evict_until.induct)
  case (1 sz req c)
  show ?case
  proof (cases "lc_cur c + req > lc_max c")
    case False
    have "lc_queue c = drop 0 (lc_queue c) \<and> map_of (lc_entries c) = map_of (lc_entries c) |` (- set (take 0 (lc_queue c)))"
      by (simp add: restrict_map_def)
    then have "\<exists>n. lc_queue c = drop n (lc_queue c) \<and> map_of (lc_entries c) = map_of (lc_entries c) |` (- set (take n (lc_queue c)))"
      by (rule exI)
    then show ?thesis using False 1(2) unfolding evict_until.simps [of sz req c] by simp
  next
    case True
    show ?thesis
    proof (cases "lc_queue c")
      case Nil
      then have "lc_entries c = []" using 1(2) by (simp add: lc_inv_def)
      then show ?thesis using True 1(2,3) by (simp add: lc_inv_def)
    next
      case (Cons k q)
      let ?c = "drop_entry sz k (c\<lparr>lc_queue := q\<rparr>)"
      have e: "evict_until sz req c = evict_until sz req ?c"
        using True Cons by (simp add: evict_until.simps [of sz req c])
      have "req \<le> lc_max ?c" using 1(3) by simp
      note IH = 1(1) [OF True Cons lc_inv_pop [OF 1(2) Cons] this]
      then obtain n where n: "lc_queue (evict_until sz req ?c) = drop n q"
        "map_of (lc_entries (evict_until sz req ?c)) = map_of (lc_entries ?c) |` (- set (take n q))" by auto
      have "map_of (lc_entries ?c) |` (- set (take n q)) = map_of (lc_entries c) |` (- set (take (Suc n) (lc_queue c)))"
        by (rule ext) (simp add: map_of_drop_entry restrict_map_def Cons)
      then show ?thesis
        using IH n unfolding e by (auto simp: Cons intro: exI [of _ "Suc n"])
    qed
  qed
qed

lemma lc_inv_store:
  assumes "lc_inv sz c" and "map_of (lc_entries c) k = None" and "lc_cur c + sz v \<le> lc_max c"
  shows "lc_inv sz (store_entry sz k v c)"
proof -
  have k: "k \<notin> fst ` set (lc_entries c)" using assms(2) by (simp add: map_of_eq_None_iff)
  then have "k \<notin> set (lc_queue c)" using assms(1) by (simp add: lc_inv_def)
  then show ?thesis
    using assms k by (auto simp: lc_inv_def store_entry_def touch_lru_def update_fresh remove1_idem)
qed

lemma map_of_store: "map_of (lc_entries (store_entry sz k v c)) = (map_of (lc_entries c))(k \<mapsto> v)"
  by (simp add: store_entry_def touch_lru_def update_conv')

lemma lookup_touch_spec:
  assumes "lc_inv sz c"
  shows "lc_inv sz (snd (lookup_touch k c))" "fst (lookup_touch k c) = map_of (lc_entries c) k"
    "lc_entries (snd (lookup_touch k c)) = lc_entries c" "lc_max (snd (lookup_touch k c)) = lc_max c"
proof -
  show "fst (lookup_touch k c) = map_of (lc_entries c) k"
    "lc_entries (snd (lookup_touch k c)) = lc_entries c" "lc_max (snd (lookup_touch k c)) = lc_max c"
    by (simp_all add: lookup_touch_def touch_lru_def)
  show "lc_inv sz (snd (lookup_touch k c))"
  proof (cases "map_of (lc_entries c) k = None")
    case True
    then show ?thesis using assms by (simp add: lookup_touch_def)
  next
    case False
    then have k: "k \<in> set (lc_queue c)" using assms by (simp add: lc_inv_def map_of_eq_None_iff)
    have d: "distinct (lc_queue c)" using assms by (simp add: lc_inv_def)
    then have "set (remove1 k (lc_queue c) @ [k]) = set (lc_queue c)" "distinct (remove1 k (lc_queue c) @ [k])"
      using k by (auto simp: set_remove1_eq)
    then show ?thesis using assms False by (simp add: lookup_touch_def touch_lru_def lc_inv_def)
  qed
qed

section \<open>What the caches promise\<close>

text \<open>An insert under a new key, of a size the budget can hold at all.\<close>

lemma fresh_insert:
  assumes "lc_inv sz c" and "map_of (lc_entries c) k = None" and "sz v \<le> lc_max c"
  defines "t \<equiv> store_entry sz k v (evict_until sz (sz v) c)"
  shows "lc_inv sz t" "lc_max t = lc_max c" "map_of (lc_entries t) k = Some v"
    "\<exists>n. lc_queue t = drop n (lc_queue c) @ [k]
       \<and> (\<forall>j. j \<noteq> k \<longrightarrow> map_of (lc_entries t) j = (if j \<in> set (take n (lc_queue c)) then None else map_of (lc_entries c) j))"
proof -
  let ?e = "evict_until sz (sz v) c"
  obtain n where E: "lc_inv sz ?e" "lc_cur ?e + sz v \<le> lc_max c" "lc_max ?e = lc_max c"
    "lc_queue ?e = drop n (lc_queue c)"
    "map_of (lc_entries ?e) = map_of (lc_entries c) |` (- set (take n (lc_queue c)))"
    using evict_until_spec [OF assms(1,3)] by blast
  have k: "map_of (lc_entries ?e) k = None" using E(5) assms(2) by (simp add: restrict_map_def)
  show "lc_inv sz t" unfolding t_def by (rule lc_inv_store [OF E(1) k]) (simp add: E(2,3))
  show "lc_max t = lc_max c" by (simp add: t_def store_entry_def touch_lru_def E(3))
  show "map_of (lc_entries t) k = Some v" by (simp add: t_def map_of_store)
  have "k \<notin> set (lc_queue c)" using assms(1,2) by (simp add: lc_inv_def map_of_eq_None_iff)
  then have "k \<notin> set (drop n (lc_queue c))" using in_set_dropD by fast
  then have "lc_queue t = drop n (lc_queue c) @ [k]"
    by (simp add: t_def store_entry_def touch_lru_def E(4) remove1_idem)
  then show "\<exists>n. lc_queue t = drop n (lc_queue c) @ [k]
       \<and> (\<forall>j. j \<noteq> k \<longrightarrow> map_of (lc_entries t) j = (if j \<in> set (take n (lc_queue c)) then None else map_of (lc_entries c) j))"
    by (intro exI [of _ n]) (simp add: t_def map_of_store E(5) restrict_map_def)
qed

text \<open>
  The interface both caches offer a client that never stores a key twice: within the budget, the last
  stored value is found, and lookups change nothing that is stored.
\<close>

locale budget_cache =
  fixes inv :: "'s \<Rightarrow> bool" and view :: "'s \<Rightarrow> 'k \<rightharpoonup> 'v" and used :: "'s \<Rightarrow> nat" and budget :: "'s \<Rightarrow> nat"
    and fits :: "'v \<Rightarrow> 's \<Rightarrow> bool" and put :: "'k \<Rightarrow> 'v \<Rightarrow> 's \<Rightarrow> 's" and look :: "'k \<Rightarrow> 's \<Rightarrow> 'v option \<times> 's"
  assumes used_le: "inv s \<Longrightarrow> used s \<le> budget s"
    and put_inv: "inv s \<Longrightarrow> view s k = None \<Longrightarrow> fits v s \<Longrightarrow> inv (put k v s)"
    and put_view: "inv s \<Longrightarrow> view s k = None \<Longrightarrow> fits v s \<Longrightarrow> view (put k v s) k = Some v"
    and put_budget: "inv s \<Longrightarrow> view s k = None \<Longrightarrow> fits v s \<Longrightarrow> budget (put k v s) = budget s"
    and look_inv: "inv s \<Longrightarrow> inv (snd (look k s))"
    and look_result: "inv s \<Longrightarrow> fst (look k s) = view s k"
    and look_view: "inv s \<Longrightarrow> view (snd (look k s)) = view s"
    and look_budget: "inv s \<Longrightarrow> budget (snd (look k s)) = budget s"
begin

text \<open>Storing and reading any keys in any order, new keys each time they are stored.\<close>

inductive serve :: "'s \<Rightarrow> 's \<Rightarrow> bool" where
  served_put: "view s k = None \<Longrightarrow> fits v s \<Longrightarrow> serve s (put k v s)"
| served_look: "serve s (snd (look k s))"

lemma served: "serve\<^sup>*\<^sup>* s t \<Longrightarrow> inv s \<Longrightarrow> inv t \<and> budget t = budget s"
proof (induction rule: rtranclp_induct)
  case base
  then show ?case by simp
next
  case (step t u)
  then have t: "inv t" "budget t = budget s" by simp_all
  from step(2) show ?case by cases (use t put_inv put_budget look_inv look_budget in auto)
qed

lemma served_budget: "serve\<^sup>*\<^sup>* s t \<Longrightarrow> inv s \<Longrightarrow> used t \<le> budget s"
  using served used_le by metis

lemma put_then_look:
  assumes "serve\<^sup>*\<^sup>* s t" and "inv s" and "view t k = None" and "fits v t"
  shows "fst (look k (put k v t)) = Some v"
  using assms served put_inv put_view look_result by metis

end

definition element_put :: "('v \<Rightarrow> nat) \<Rightarrow> 'k \<Rightarrow> 'v \<Rightarrow> ('k, 'v, 'a) element_cache_scheme \<Rightarrow> ('k, 'v, 'a) element_cache_scheme" where
  "element_put sz k v c = store_entry sz k v (evict_until sz (sz v) c)"

lemma element_cache_laws:
  "budget_cache (lc_inv sz) (\<lambda>c. map_of (lc_entries c)) allocated_elements lc_max (\<lambda>v c. sz v \<le> lc_max c)
     (element_put sz) lookup_touch"
  by unfold_locales
    (simp_all add: element_put_def fresh_insert lookup_touch_spec allocated_elements_def, simp add: lc_inv_def)

interpretation encoder: budget_cache "lc_inv em_size" "\<lambda>c :: encoder_cache. map_of (lc_entries c)" allocated_elements lc_max
  "\<lambda>v c. em_size v \<le> lc_max c" "element_put em_size" lookup_touch
  by (rule element_cache_laws)

interpretation hidden: budget_cache "lc_inv hc_size" "\<lambda>c :: hidden_state_store. map_of (lc_entries c)" allocated_elements lc_max
  "\<lambda>v c. hc_size v \<le> lc_max c" "element_put hc_size" lookup_touch
  by (rule element_cache_laws)

text \<open>The inserts of the code, on new keys, are \<open>element_put\<close>.\<close>

lemma encoder_insert_fresh:
  assumes "map_of (lc_entries c) (h, m) = None" and "length data \<le> lc_max c"
  shows "encoder_insert h m n d data c
    = (Ok (), element_put em_size (h, m) \<lparr>em_num_tokens = n, em_hidden_dim = d, em_data = data\<rparr> c)"
  using assms by (simp add: encoder_insert_def Let_def release_old_def element_put_def em_size_def)

lemma insert_chunk_fresh:
  assumes "lc_inv hc_size s" and "map_of (lc_entries s) (h, l) = None" and "length data \<le> lc_max s"
  shows "insert_chunk h l n d data s
    = (Ok (), element_put hc_size (h, l) \<lparr>hc_token_count = n, hc_hidden_dim = d, hc_data = data\<rparr> s)"
  using assms evict_keys_eq [OF assms(1), of "length data"]
  by (simp add: insert_chunk_def Let_def release_old_def element_put_def hc_size_def)

text \<open>A chunk that is too large is refused and changes nothing.\<close>

lemma insert_too_large:
  "lc_max c < length data \<Longrightarrow> encoder_insert h m n d data c = (Err (TooLarge (length data) (lc_max c)), c)"
  "lc_max s < length data \<Longrightarrow> insert_chunk h l n d data s = (Err (TooLarge (length data) (lc_max s)), s)"
  by (simp_all add: encoder_insert_def insert_chunk_def Let_def)

text \<open>Releasing the last reference of a KV chunk drops exactly its hidden states.\<close>

lemma lc_inv_remove:
  assumes "lc_inv sz c"
  shows "lc_inv sz (remove_key sz k c)" "map_of (lc_entries (remove_key sz k c)) = (map_of (lc_entries c))(k := None)"
proof -
  show "map_of (lc_entries (remove_key sz k c)) = (map_of (lc_entries c))(k := None)"
    by (simp add: remove_key_def map_of_drop_entry)
  show "lc_inv sz (remove_key sz k c)"
  proof (cases "map_of (lc_entries c) k")
    case None
    then have "k \<notin> set (lc_queue c)" using assms by (simp add: lc_inv_def map_of_eq_None_iff)
    then show ?thesis using assms None by (simp add: remove_key_def drop_entry_def remove1_idem lc_inv_def)
  next
    case (Some v)
    have k: "k \<in> fst ` set (lc_entries c)" using Some by (metis map_of_eq_None_iff option.distinct(1))
    have "set (map fst (AList.delete k (lc_entries c))) = set (map fst (lc_entries c)) - {k}"
      unfolding delete_keys by auto
    moreover have "lc_cur c = sz v + sum_list (map (\<lambda>(k, v). sz v) (AList.delete k (lc_entries c)))"
      using sum_delete [OF _ Some, of sz] assms by (simp add: lc_inv_def)
    ultimately show ?thesis
      using assms Some by (simp add: lc_inv_def remove_key_def drop_entry_def distinct_delete set_remove1_eq) linarith
  qed
qed

lemma fold_remove_keys:
  "lc_inv sz c \<Longrightarrow> lc_inv sz (fold (remove_key sz) ks c)
    \<and> map_of (lc_entries (fold (remove_key sz) ks c)) = map_of (lc_entries c) |` (- set ks)"
proof (induction ks arbitrary: c)
  case Nil
  then show ?case by (simp add: restrict_map_def)
next
  case (Cons k ks)
  then show ?case using lc_inv_remove [OF Cons.prems, of k]
    by (auto simp: restrict_map_def fun_eq_iff)
qed

lemma evict_kv_chunk_spec:
  assumes "lc_inv hc_size s" and "hs_valid s h = None \<or> hs_valid s h = Some 1 \<or> hs_valid s h = Some 0"
  shows "lc_inv hc_size (evict_kv_chunk h s)"
    "map_of (lc_entries (evict_kv_chunk h s)) (g, l) = (if g = h then None else map_of (lc_entries s) (g, l))"
proof -
  let ?ks = "filter (\<lambda>k. fst k = h) (map fst (lc_entries s))" and ?s = "s\<lparr>hs_valid := (hs_valid s)(h := None)\<rparr>"
  have e: "evict_kv_chunk h s = fold (remove_key hc_size) ?ks ?s"
    using assms(2) by (auto simp: evict_kv_chunk_def)
  have i: "lc_inv hc_size ?s" using assms(1) by (simp add: lc_inv_def)
  note F = fold_remove_keys [OF i, of ?ks, folded e]
  show "lc_inv hc_size (evict_kv_chunk h s)" using F by blast
  have "map_of (lc_entries s) (h, l) = None" if "(h, l) \<notin> set ?ks"
    using that by (force simp: map_of_eq_None_iff)
  then show "map_of (lc_entries (evict_kv_chunk h s)) (g, l) = (if g = h then None else map_of (lc_entries s) (g, l))"
    using F by (auto simp: restrict_map_def)
qed

text \<open>
  A replacement that has to evict may evict the key it replaces, whose size is then given back twice:
  the counter falls below the contents and the budget is exceeded.
\<close>

definition two_embeddings :: encoder_cache where
  "two_embeddings = snd (encoder_insert 2 ''v'' 1 5 (replicate 5 0) (snd (encoder_insert 1 ''v'' 1 4 (replicate 4 0) (encoder_cache_new 10))))"

lemma replacement_exceeds_budget:
  "let c = snd (encoder_insert 1 ''v'' 1 8 (replicate 8 0) two_embeddings)
   in allocated_elements c = 9 \<and> sum_list (map (\<lambda>(k, v). em_size v) (lc_entries c)) = 13 \<and> lc_max c = 10"
  by code_simp

end
