(* ===== verification/MoeBudget.thy ===== *)
theory MoeBudget
  imports GrimPrelude "HOL-Library.Multiset"
begin

text \<open>
  The expert budget of \<open>crates/grim-memory/src/moe_budget.rs\<close>: the precision tiers under a memory
  envelope, the split between KV cache and experts, and the slots of the expert cache with their
  least-recently-used eviction; and the layer groups of \<open>layer_groups.rs\<close>. The simulated load and
  compute timeline is floating point and left out.
\<close>

section \<open>Tiers\<close>

datatype resident_tier = Fp16 | Int8 | Off

record moe_budget =
  mb_num_experts :: nat
  mb_fp16 :: nat
  mb_int8 :: nat
  mb_envelope :: nat
  mb_tiers :: "resident_tier list"

datatype moe_error = OutOfRange nat | WouldBreach nat | SplitTooLarge

definition mb_new :: "nat \<Rightarrow> nat \<Rightarrow> nat \<Rightarrow> nat \<Rightarrow> moe_budget" where
  "mb_new n fp16 int8 envelope = \<lparr>mb_num_experts = n, mb_fp16 = fp16, mb_int8 = int8,
     mb_envelope = envelope, mb_tiers = replicate n Off\<rparr>"

definition tier_cost :: "moe_budget \<Rightarrow> resident_tier \<Rightarrow> nat" where
  "tier_cost b t = (case t of Fp16 \<Rightarrow> mb_fp16 b | Int8 \<Rightarrow> mb_int8 b | Off \<Rightarrow> 0)"

definition used_bytes :: "moe_budget \<Rightarrow> nat" where
  "used_bytes b = sum_list (map (tier_cost b) (mb_tiers b))"

definition remaining_bytes :: "moe_budget \<Rightarrow> nat" where
  "remaining_bytes b = mb_envelope b - used_bytes b"

definition can_promote :: "moe_budget \<Rightarrow> nat \<Rightarrow> resident_tier \<Rightarrow> bool" where
  "can_promote b e t \<longleftrightarrow> e < mb_num_experts b
     \<and> used_bytes b - tier_cost b (mb_tiers b ! e) + tier_cost b t \<le> mb_envelope b"

definition promote :: "nat \<Rightarrow> resident_tier \<Rightarrow> moe_budget \<Rightarrow> (moe_error, unit) outcome \<times> moe_budget" where
  "promote e t b =
     (if mb_num_experts b \<le> e then (Err (OutOfRange e), b)
      else if \<not> can_promote b e t then (Err (WouldBreach e), b)
      else (Ok (), b\<lparr>mb_tiers := (mb_tiers b)[e := t]\<rparr>))"

fun lower_tier :: "resident_tier \<Rightarrow> resident_tier" where
  "lower_tier Fp16 = Int8" | "lower_tier Int8 = Off" | "lower_tier Off = Off"

definition demote :: "nat \<Rightarrow> moe_budget \<Rightarrow> moe_budget" where
  "demote e b = (if mb_num_experts b \<le> e then b else b\<lparr>mb_tiers := (mb_tiers b)[e := lower_tier (mb_tiers b ! e)]\<rparr>)"

definition tier_of :: "moe_budget \<Rightarrow> nat \<Rightarrow> resident_tier" where
  "tier_of b e = (if e < length (mb_tiers b) then mb_tiers b ! e else Off)"

definition hot_set :: "moe_budget \<Rightarrow> nat set" where
  "hot_set b = set (filter (\<lambda>e. mb_tiers b ! e = Fp16) [0..<length (mb_tiers b)])"

definition tier_counts :: "moe_budget \<Rightarrow> nat \<times> nat \<times> nat" where
  "tier_counts b = (count_list (mb_tiers b) Fp16, count_list (mb_tiers b) Int8, count_list (mb_tiers b) Off)"

text \<open>The resident set stays within its envelope, and every expert has a tier.\<close>

definition mb_inv :: "moe_budget \<Rightarrow> bool" where
  "mb_inv b \<longleftrightarrow> length (mb_tiers b) = mb_num_experts b \<and> used_bytes b \<le> mb_envelope b"

lemma sum_list_update_nat:
  "e < length xs \<Longrightarrow> sum_list (map f (xs[e := x])) + f (xs ! e) = sum_list (map f xs) + (f x :: nat)"
proof (induction xs arbitrary: e)
  case Nil
  then show ?case by simp
next
  case (Cons y ys)
  then show ?case by (cases e) auto
qed

lemma elem_le_sum: "e < length xs \<Longrightarrow> f (xs ! e) \<le> sum_list (map f xs)" for f :: "'a \<Rightarrow> nat"
  by (simp add: member_le_sum_list)

lemma promote_tier_inv: "mb_inv b \<Longrightarrow> mb_inv (snd (promote e t b))"
proof -
  assume inv: "mb_inv b"
  show ?thesis
  proof (cases "can_promote b e t")
    case True
    then have e: "e < length (mb_tiers b)" using inv by (simp add: can_promote_def mb_inv_def)
    let ?f = "tier_cost b"
    have "sum_list (map ?f ((mb_tiers b)[e := t])) + ?f (mb_tiers b ! e) = used_bytes b + ?f t"
      using sum_list_update_nat [OF e, of ?f t] by (simp add: used_bytes_def)
    moreover have "?f (mb_tiers b ! e) \<le> used_bytes b"
      using elem_le_sum [OF e, of ?f] by (simp add: used_bytes_def)
    moreover have "tier_cost (b\<lparr>mb_tiers := ts\<rparr>) = ?f" for ts by (simp add: tier_cost_def fun_eq_iff split: resident_tier.splits)
    ultimately show ?thesis using True inv by (simp add: promote_def can_promote_def mb_inv_def used_bytes_def) linarith
  next
    case False
    then show ?thesis using inv by (simp add: promote_def)
  qed
qed

lemma demote_tier_inv: "mb_inv b \<Longrightarrow> mb_int8 b \<le> mb_fp16 b \<Longrightarrow> mb_inv (demote e b)"
proof -
  assume inv: "mb_inv b" and cheap: "mb_int8 b \<le> mb_fp16 b"
  show ?thesis
  proof (cases "e < mb_num_experts b")
    case True
    then have e: "e < length (mb_tiers b)" using inv by (simp add: mb_inv_def)
    let ?f = "tier_cost b" and ?t = "lower_tier (mb_tiers b ! e)"
    have "?f ?t \<le> ?f (mb_tiers b ! e)" using cheap by (cases "mb_tiers b ! e") (simp_all add: tier_cost_def)
    moreover have "sum_list (map ?f ((mb_tiers b)[e := ?t])) + ?f (mb_tiers b ! e) = used_bytes b + ?f ?t"
      using sum_list_update_nat [OF e, of ?f ?t] by (simp add: used_bytes_def)
    moreover have "tier_cost (b\<lparr>mb_tiers := ts\<rparr>) = ?f" for ts by (simp add: tier_cost_def fun_eq_iff split: resident_tier.splits)
    ultimately show ?thesis using True inv by (simp add: demote_def mb_inv_def used_bytes_def)
  next
    case False
    then show ?thesis using inv by (simp add: demote_def)
  qed
qed

section \<open>The split between KV cache and experts\<close>

record elastic_allocation =
  ea_total :: nat
  ea_kv :: nat
  ea_expert :: nat
  ea_slot_size :: nat
  ea_slots :: nat

text \<open>The assertion on the slot size comes after the budget check.\<close>

definition ea_new :: "nat \<Rightarrow> nat \<Rightarrow> nat \<Rightarrow> nat \<Rightarrow> (moe_error, elastic_allocation) outcome" where
  "ea_new total_vram kv expert slot_size =
     (if kv + expert > total_vram then Err SplitTooLarge
      else if slot_size = 0 then Panic
      else Ok \<lparr>ea_total = total_vram, ea_kv = kv, ea_expert = expert, ea_slot_size = slot_size,
               ea_slots = expert div slot_size\<rparr>)"

definition rebalance :: "nat \<Rightarrow> nat \<Rightarrow> elastic_allocation \<Rightarrow> (moe_error, nat) outcome \<times> elastic_allocation" where
  "rebalance kv expert a =
     (if kv + expert > ea_total a then (Err SplitTooLarge, a)
      else (Ok (expert div ea_slot_size a), a\<lparr>ea_kv := kv, ea_expert := expert, ea_slots := expert div ea_slot_size a\<rparr>))"

definition ea_inv :: "elastic_allocation \<Rightarrow> bool" where
  "ea_inv a \<longleftrightarrow> ea_kv a + ea_slots a * ea_slot_size a \<le> ea_total a"

lemma ea_new_inv: "ea_new total_vram kv expert slot_size = Ok a \<Longrightarrow> ea_inv a"
  by (auto simp: ea_new_def ea_inv_def not_less split: if_splits
      intro: order_trans [OF add_left_mono [OF div_times_less_eq_dividend]])

lemma rebalance_inv: "ea_inv a \<Longrightarrow> ea_inv (snd (rebalance kv expert a))"
  by (auto simp: rebalance_def ea_inv_def not_less
      intro: order_trans [OF add_left_mono [OF div_times_less_eq_dividend]])

section \<open>Expert slots\<close>

type_synonym expert_key = "nat \<times> nat"

record residency =
  rt_capacity :: nat
  rt_slots :: "(expert_key \<times> u64) option list"
  rt_keys :: "expert_key \<rightharpoonup> nat"
  rt_clock :: u64

definition residency_new :: "nat \<Rightarrow> residency" where
  "residency_new capacity = \<lparr>rt_capacity = capacity, rt_slots = replicate capacity None, rt_keys = Map.empty, rt_clock = 0\<rparr>"

text \<open>An index of the key map out of range of the slots would panic; the invariant excludes it.\<close>

definition rt_lookup :: "expert_key \<Rightarrow> residency \<Rightarrow> nat option \<times> residency" where
  "rt_lookup k r =
     (case rt_keys r k of
        None \<Rightarrow> (None, r)
      | Some slot \<Rightarrow>
          (Some slot, r\<lparr>rt_clock := rt_clock r + 1,
             rt_slots := (rt_slots r)[slot := map_option (\<lambda>(j, t). (j, rt_clock r + 1)) (rt_slots r ! slot)]\<rparr>))"

text \<open>The scan for the oldest occupied slot: strictly smaller times win, starting below the largest time.\<close>

fun oldest_slot :: "(expert_key \<times> u64) option list \<Rightarrow> nat \<Rightarrow> nat \<times> u64 \<Rightarrow> nat \<times> u64" where
  "oldest_slot [] i best = best"
| "oldest_slot (None # xs) i best = oldest_slot xs (Suc i) best"
| "oldest_slot (Some (k, t) # xs) i best = oldest_slot xs (Suc i) (if t < snd best then (i, t) else best)"

definition admit_expert :: "expert_key \<Rightarrow> residency \<Rightarrow> (unit, nat \<times> expert_key option) outcome \<times> residency" where
  "admit_expert k r =
     (case rt_lookup k r of
        (Some slot, r1) \<Rightarrow> (Ok (slot, None), r1)
      | (None, r1) \<Rightarrow>
          (let clock = rt_clock r1 + 1; r2 = r1\<lparr>rt_clock := clock\<rparr> in
           case position (\<lambda>x. x = None) (take (rt_capacity r2) (rt_slots r2)) of
             Some slot \<Rightarrow> (Ok (slot, None), r2\<lparr>rt_slots := (rt_slots r2)[slot := Some (k, clock)], rt_keys := (rt_keys r2)(k \<mapsto> slot)\<rparr>)
           | None \<Rightarrow>
               (let slot = fst (oldest_slot (rt_slots r2) 0 (0, -1)) in
                if length (rt_slots r2) \<le> slot then (Panic, r2)
                else (let evicted = map_option fst (rt_slots r2 ! slot);
                          keys = (case evicted of Some j \<Rightarrow> (rt_keys r2)(j := None) | None \<Rightarrow> rt_keys r2)
                      in (Ok (slot, evicted), r2\<lparr>rt_slots := (rt_slots r2)[slot := Some (k, clock)], rt_keys := keys(k \<mapsto> slot)\<rparr>)))))"

definition drop_slot :: "(expert_key \<times> u64) option \<Rightarrow> (expert_key \<rightharpoonup> nat) \<Rightarrow> (expert_key \<rightharpoonup> nat)" where
  "drop_slot x keys = (case x of Some (k, t) \<Rightarrow> keys(k := None) | None \<Rightarrow> keys)"

text \<open>Shrinking pops the slots from the end.\<close>

definition rt_resize :: "nat \<Rightarrow> residency \<Rightarrow> residency" where
  "rt_resize n r =
     (if n < rt_capacity r
      then r\<lparr>rt_slots := take n (rt_slots r), rt_keys := fold drop_slot (rev (drop n (rt_slots r))) (rt_keys r), rt_capacity := n\<rparr>
      else if n > rt_capacity r
      then r\<lparr>rt_slots := take n (rt_slots r) @ replicate (n - length (rt_slots r)) None, rt_capacity := n\<rparr>
      else r\<lparr>rt_capacity := n\<rparr>)"

text \<open>The key map and the slots are inverse to each other.\<close>

definition rt_inv :: "residency \<Rightarrow> bool" where
  "rt_inv r \<longleftrightarrow> length (rt_slots r) = rt_capacity r
     \<and> (\<forall>k i. rt_keys r k = Some i \<longleftrightarrow> i < length (rt_slots r) \<and> map_option fst (rt_slots r ! i) = Some k)"

lemma rt_inv_new: "rt_inv (residency_new n)"
  by (simp add: rt_inv_def residency_new_def)

lemma rt_invD:
  assumes "rt_inv r"
  shows "rt_keys r k = Some i \<Longrightarrow> i < length (rt_slots r) \<and> map_option fst (rt_slots r ! i) = Some k"
    "i < length (rt_slots r) \<Longrightarrow> map_option fst (rt_slots r ! i) = Some k \<Longrightarrow> rt_keys r k = Some i"
  using assms unfolding rt_inv_def by blast+

lemma rt_lookup_spec:
  assumes "rt_inv r"
  shows "rt_inv (snd (rt_lookup k r))" "fst (rt_lookup k r) = rt_keys r k" "rt_keys (snd (rt_lookup k r)) = rt_keys r"
    "rt_capacity (snd (rt_lookup k r)) = rt_capacity r"
proof -
  have "map_option fst ((rt_slots r)[s := map_option (\<lambda>(j, t). (j, c)) (rt_slots r ! s)] ! i) = map_option fst (rt_slots r ! i)"
    if "i < length (rt_slots r)" for s c i
    using that by (cases "i = s") (auto simp: option.map_comp comp_def case_prod_unfold)
  then show "rt_inv (snd (rt_lookup k r))"
    using assms unfolding rt_inv_def rt_lookup_def
    by (cases "rt_keys r k") (simp_all del: map_option_eq_Some cong: conj_cong)
qed (simp_all add: rt_lookup_def split: option.splits)

text \<open>Overwriting one slot: what was in it leaves the map, the new key enters.\<close>

lemma rt_inv_put:
  assumes "rt_inv r" and "i < length (rt_slots r)" and "rt_keys r k = None"
  shows "rt_inv (r\<lparr>rt_slots := (rt_slots r)[i := Some (k, c)],
     rt_keys := (case map_option fst (rt_slots r ! i) of Some j \<Rightarrow> (rt_keys r)(j := None) | None \<Rightarrow> rt_keys r)(k \<mapsto> i)\<rparr>)"
proof -
  let ?keys = "(case map_option fst (rt_slots r ! i) of Some j \<Rightarrow> (rt_keys r)(j := None) | None \<Rightarrow> rt_keys r)(k \<mapsto> i)"
  have "?keys j = Some n \<longleftrightarrow> n < length (rt_slots r) \<and> map_option fst ((rt_slots r)[i := Some (k, c)] ! n) = Some j" for j n
  proof (cases "j = k")
    case True
    then show ?thesis using assms rt_invD(2) [OF assms(1), of n k] by (cases "n = i") auto
  next
    case jk: False
    note inv = rt_invD [OF assms(1)]
    show ?thesis
    proof (cases "map_option fst (rt_slots r ! i) = Some j")
      case True
      then have "rt_keys r j = Some i" using inv(2) [OF assms(2)] by simp
      then show ?thesis using True jk assms(2) inv(2) [of n j] by (cases "n = i") auto
    next
      case False
      then have "?keys j = rt_keys r j" using jk by (cases "map_option fst (rt_slots r ! i)") auto
      then show ?thesis
        using False jk assms(2) inv(1) [of j n] inv(2) [of n j] by (cases "n = i") auto
    qed
  qed
  then show ?thesis using assms(1) by (simp add: rt_inv_def)
qed

lemma oldest_slot_spec:
  "(fst (oldest_slot xs i best) = fst best \<and> snd (oldest_slot xs i best) = snd best
      \<or> (\<exists>j k. j < length xs \<and> xs ! j = Some (k, snd (oldest_slot xs i best)) \<and> fst (oldest_slot xs i best) = i + j))
    \<and> snd (oldest_slot xs i best) \<le> snd best
    \<and> (\<forall>j k t. j < length xs \<longrightarrow> xs ! j = Some (k, t) \<longrightarrow> snd (oldest_slot xs i best) \<le> t)"
proof (induction xs i best rule: oldest_slot.induct)
  case (1 i best)
  then show ?case by simp
next
  case (2 xs i best)
  let ?o = "oldest_slot xs (Suc i) best"
  have o: "oldest_slot (None # xs) i best = ?o" by simp
  have "snd ?o \<le> u" if "j < length (None # xs)" "(None # xs) ! j = Some (k, u)" for j k u
    using that 2 by (cases j) auto
  moreover have "\<exists>j k. j < length (None # xs) \<and> (None # xs) ! j = Some (k, snd ?o) \<and> fst ?o = i + j"
    if "j < length xs" "xs ! j = Some (k, snd ?o)" "fst ?o = Suc i + j" for j k
    using that by (intro exI [of _ "Suc j"] exI [of _ k]) simp
  ultimately show ?case using 2 unfolding o by blast
next
  case (3 k t xs i best)
  let ?b = "if t < snd best then (i, t) else best"
  let ?o = "oldest_slot xs (Suc i) ?b"
  have IH: "fst ?o = fst ?b \<and> snd ?o = snd ?b
      \<or> (\<exists>j k. j < length xs \<and> xs ! j = Some (k, snd ?o) \<and> fst ?o = Suc i + j)"
    "snd ?o \<le> snd ?b" "\<And>j k t. j < length xs \<Longrightarrow> xs ! j = Some (k, t) \<Longrightarrow> snd ?o \<le> t"
    using 3 by blast+
  have o: "oldest_slot (Some (k, t) # xs) i best = ?o" by simp
  have b: "snd ?b \<le> snd best" "snd ?b \<le> t" by auto
  have "snd ?o \<le> u" if "j < length (Some (k, t) # xs)" "(Some (k, t) # xs) ! j = Some (k', u)" for j k' u
    using that IH(2,3) b(2) by (cases j) auto
  moreover have "fst ?o = fst best \<and> snd ?o = snd best
      \<or> (\<exists>j k'. j < length (Some (k, t) # xs) \<and> (Some (k, t) # xs) ! j = Some (k', snd ?o) \<and> fst ?o = i + j)"
    using IH(1)
  proof
    assume h: "fst ?o = fst ?b \<and> snd ?o = snd ?b"
    show ?thesis
    proof (cases "t < snd best")
      case True
      then show ?thesis using h by (intro disjI2 exI [of _ 0] exI [of _ k]) simp
    next
      case False
      then show ?thesis using h by simp
    qed
  next
    assume "\<exists>j k. j < length xs \<and> xs ! j = Some (k, snd ?o) \<and> fst ?o = Suc i + j"
    then obtain j k' where "j < length xs" "xs ! j = Some (k', snd ?o)" "fst ?o = Suc i + j" by blast
    then show ?thesis by (intro disjI2 exI [of _ "Suc j"] exI [of _ k']) simp
  qed
  ultimately show ?case using IH(2) b(1) unfolding o by (meson order_trans)
qed

text \<open>
  Admission: the key gets a slot; a free one when there is one, and then nothing is evicted; otherwise
  the slot of a key whose last use is the oldest.
\<close>

lemma admit_expert_spec:
  assumes inv: "rt_inv r" and pos: "0 < rt_capacity r"
  shows "\<exists>slot ev r'. admit_expert k r = (Ok (slot, ev), r') \<and> rt_inv r' \<and> rt_capacity r' = rt_capacity r
    \<and> slot < rt_capacity r \<and> rt_keys r' k = Some slot
    \<and> (\<forall>j. j \<noteq> k \<longrightarrow> rt_keys r' j = (if ev = Some j then None else rt_keys r j))
    \<and> (ev \<noteq> None \<longrightarrow> rt_keys r k = None \<and> None \<notin> set (rt_slots r)
        \<and> (\<exists>t. rt_slots r ! slot = Some (the ev, t) \<and> (\<forall>x u. Some (x, u) \<in> set (rt_slots r) \<longrightarrow> t \<le> u)))"
proof -
  obtain f r1 where l: "rt_lookup k r = (f, r1)" by fastforce
  note L = rt_lookup_spec [OF inv, of k, unfolded l, simplified]
  have len: "length (rt_slots r) = rt_capacity r" using inv by (simp add: rt_inv_def)
  show ?thesis
  proof (cases f)
    case (Some slot)
    then have "rt_keys r k = Some slot" using L(2) by simp
    moreover from this have "slot < rt_capacity r" using rt_invD(1) [OF inv] len by metis
    ultimately show ?thesis using l Some L by (intro exI [of _ slot] exI [of _ None] exI [of _ r1]) (simp add: admit_expert_def)
  next
    case None
    then have none: "rt_keys r k = None" and r1: "r1 = r" using L(2) l by (auto simp: rt_lookup_def split: option.splits)
    let ?c = "rt_clock r + 1" and ?xs = "rt_slots r"
    let ?r2 = "r\<lparr>rt_clock := ?c\<rparr>"
    have inv2: "rt_inv ?r2" using inv by (simp add: rt_inv_def)
    show ?thesis
    proof (cases "position (\<lambda>x. x = None) ?xs")
      case (Some slot)
      then have s: "slot < length ?xs" "?xs ! slot = None" using position_Some [OF Some] by simp_all
      let ?r' = "?r2\<lparr>rt_slots := ?xs[slot := Some (k, ?c)], rt_keys := (rt_keys r)(k \<mapsto> slot)\<rparr>"
      have "rt_inv ?r'" using rt_inv_put [OF inv2, of slot k ?c] s none by simp
      moreover have "admit_expert k r = (Ok (slot, None), ?r')"
        using l None r1 Some len by (simp add: admit_expert_def Let_def)
      ultimately show ?thesis using s(1) len by (intro exI [of _ slot] exI [of _ None] exI [of _ ?r']) simp
    next
      case full: None
      then have nn: "None \<notin> set ?xs" using position_None [of "\<lambda>x. x = None" ?xs] by auto
      let ?o = "oldest_slot ?xs 0 (0, -1)"
      have O: "(fst ?o = 0 \<and> snd ?o = -1) \<or> (\<exists>j k. j < length ?xs \<and> ?xs ! j = Some (k, snd ?o) \<and> fst ?o = j)"
        "\<And>j k t. j < length ?xs \<Longrightarrow> ?xs ! j = Some (k, t) \<Longrightarrow> snd ?o \<le> t"
        using oldest_slot_spec [of ?xs 0 "(0, -1)"] by auto
      have slot: "fst ?o < length ?xs" using O(1) pos len by auto
      then obtain y where "?xs ! fst ?o = Some y" using nn nth_mem [OF slot] by (cases "?xs ! fst ?o") auto
      then obtain j t where jt: "?xs ! fst ?o = Some (j, t)" by (cases y) auto
      have "t = snd ?o"
        using O(1)
      proof
        assume m: "fst ?o = 0 \<and> snd ?o = -1"
        then have "(-1 :: u64) \<le> t" using O(2) [OF slot jt] by simp
        then show ?thesis using m by (simp add: word_order.extremum_unique)
      next
        assume "\<exists>j k. j < length ?xs \<and> ?xs ! j = Some (k, snd ?o) \<and> fst ?o = j"
        then show ?thesis using jt by auto
      qed
      then have oldest: "t \<le> u" if "Some (x, u) \<in> set ?xs" for x u
      proof -
        obtain i where "i < length ?xs" "?xs ! i = Some (x, u)" using \<open>Some (x, u) \<in> set ?xs\<close> by (metis in_set_conv_nth)
        then show ?thesis using O(2) \<open>t = snd ?o\<close> by simp
      qed
      let ?r' = "?r2\<lparr>rt_slots := ?xs[fst ?o := Some (k, ?c)], rt_keys := ((rt_keys r)(j := None))(k \<mapsto> fst ?o)\<rparr>"
      have "rt_inv ?r'" using rt_inv_put [OF inv2, of "fst ?o" k ?c] slot none jt by simp
      moreover have "admit_expert k r = (Ok (fst ?o, Some j), ?r')"
        using l None r1 full len slot jt by (simp add: admit_expert_def Let_def)
      ultimately show ?thesis
        using slot len none nn jt oldest
        by (intro exI [of _ "fst ?o"] exI [of _ "Some j"] exI [of _ ?r']) auto
    qed
  qed
qed

text \<open>Without any slot the eviction indexes out of range.\<close>

lemma admit_without_slots: "fst (admit_expert k (residency_new 0)) = Panic"
  by (simp add: admit_expert_def residency_new_def rt_lookup_def Let_def)

text \<open>Resizing keeps the map and the slots in step; shrinking drops the keys of the last slots.\<close>

lemma fold_drop_slot:
  "fold drop_slot xs keys k = (if \<exists>t. Some (k, t) \<in> set xs then None else keys k)"
proof (induction xs arbitrary: keys)
  case Nil
  then show ?case by simp
next
  case (Cons x xs)
  show ?case
  proof (cases x)
    case None
    then show ?thesis using Cons by (simp add: drop_slot_def)
  next
    case (Some y)
    obtain j t where y: "y = (j, t)" by (cases y)
    show ?thesis using Cons Some y by (cases "j = k") (auto simp: drop_slot_def)
  qed
qed

lemma rt_resize_inv: "rt_inv r \<Longrightarrow> rt_inv (rt_resize n r)"
proof -
  assume inv: "rt_inv r"
  have len: "length (rt_slots r) = rt_capacity r" using inv by (simp add: rt_inv_def)
  note I = rt_invD [OF inv]
  consider (less) "n < rt_capacity r" | (more) "n > rt_capacity r" | (same) "n = rt_capacity r" by linarith
  then show ?thesis
  proof cases
    case less
    have mem: "(\<exists>t. Some (k, t) \<in> set (rev (drop n (rt_slots r)))) \<longleftrightarrow> (\<exists>i. n \<le> i \<and> rt_keys r k = Some i)" for k
    proof
      assume "\<exists>t. Some (k, t) \<in> set (rev (drop n (rt_slots r)))"
      then obtain t where "Some (k, t) \<in> set (drop n (rt_slots r))" by auto
      then obtain i where "i < length (drop n (rt_slots r))" "drop n (rt_slots r) ! i = Some (k, t)"
        by (metis in_set_conv_nth)
      then have "n + i < length (rt_slots r)" "rt_slots r ! (n + i) = Some (k, t)" by simp_all
      then show "\<exists>i. n \<le> i \<and> rt_keys r k = Some i" using I(2) [of "n + i" k] by (intro exI [of _ "n + i"]) simp
    next
      assume "\<exists>i. n \<le> i \<and> rt_keys r k = Some i"
      then obtain i where i: "n \<le> i" "i < length (rt_slots r)" "map_option fst (rt_slots r ! i) = Some k" using I(1) by blast
      then obtain t where t: "rt_slots r ! i = Some (k, t)" by auto
      have "drop n (rt_slots r) ! (i - n) = Some (k, t)" "i - n < length (drop n (rt_slots r))"
        using i t by auto
      then have "Some (k, t) \<in> set (drop n (rt_slots r))" by (metis nth_mem)
      then show "\<exists>t. Some (k, t) \<in> set (rev (drop n (rt_slots r)))" by auto
    qed
    have keys: "fold drop_slot (rev (drop n (rt_slots r))) (rt_keys r) k
        = (if \<exists>i. n \<le> i \<and> rt_keys r k = Some i then None else rt_keys r k)" for k
      unfolding fold_drop_slot mem by simp
    have "rt_keys (rt_resize n r) k = Some i \<longleftrightarrow> i < n \<and> map_option fst (rt_slots r ! i) = Some k" for k i
    proof (cases "i < n")
      case True
      then have "i < length (rt_slots r)" using less len by simp
      then have "rt_keys r k = Some i \<longleftrightarrow> map_option fst (rt_slots r ! i) = Some k" using I by blast
      then show ?thesis using True less by (auto simp: rt_resize_def keys)
    next
      case False
      then show ?thesis using less by (auto simp: rt_resize_def keys)
    qed
    then show ?thesis using less len by (auto simp: rt_inv_def rt_resize_def)
  next
    case more
    then show ?thesis using inv len by (auto simp: rt_inv_def rt_resize_def nth_append)
  next
    case same
    then show ?thesis using inv by (simp add: rt_resize_def)
  qed
qed

section \<open>Layer groups\<close>

record layer_group =
  lg_kv_heads :: nat
  lg_head_dim :: nat
  lg_block_size :: nat
  lg_dtype :: nat
  lg_sliding_window :: nat
  lg_latent_dim :: nat
  lg_has_kv :: bool

definition standard_gqa :: "nat \<Rightarrow> nat \<Rightarrow> nat \<Rightarrow> nat \<Rightarrow> layer_group" where
  "standard_gqa kv_heads head_dim block_size dtype = \<lparr>lg_kv_heads = kv_heads, lg_head_dim = head_dim,
     lg_block_size = block_size, lg_dtype = dtype, lg_sliding_window = 0, lg_latent_dim = 0, lg_has_kv = True\<rparr>"

definition sliding_window_gqa :: "nat \<Rightarrow> nat \<Rightarrow> nat \<Rightarrow> nat \<Rightarrow> nat \<Rightarrow> layer_group" where
  "sliding_window_gqa kv_heads head_dim block_size dtype window =
     (standard_gqa kv_heads head_dim block_size dtype)\<lparr>lg_sliding_window := window\<rparr>"

definition mla_latent :: "nat \<Rightarrow> nat \<Rightarrow> nat \<Rightarrow> nat \<Rightarrow> nat \<Rightarrow> layer_group" where
  "mla_latent kv_heads head_dim latent block_size dtype =
     (standard_gqa kv_heads head_dim block_size dtype)\<lparr>lg_latent_dim := latent\<rparr>"

definition linear_attention :: "nat \<Rightarrow> nat \<Rightarrow> layer_group" where
  "linear_attention dim dtype = \<lparr>lg_kv_heads = 0, lg_head_dim = dim, lg_block_size = 0, lg_dtype = dtype,
     lg_sliding_window = 0, lg_latent_dim = 0, lg_has_kv = False\<rparr>"

text \<open>Bytes of a block; the size of an element of a type is the tensor crate's.\<close>

definition block_bytes :: "(nat \<Rightarrow> nat) \<Rightarrow> layer_group \<Rightarrow> nat" where
  "block_bytes byte_size g =
     (if \<not> lg_has_kv g then 0
      else lg_block_size g * (if lg_latent_dim g > 0 then lg_latent_dim g else lg_kv_heads g * lg_head_dim g * 2)
             * byte_size (lg_dtype g))"

record group_registry =
  gr_layers :: "nat \<rightharpoonup> layer_group"
  gr_groups :: "layer_group list"

definition gr_new :: group_registry where
  "gr_new = \<lparr>gr_layers = Map.empty, gr_groups = []\<rparr>"

definition register_layer :: "nat \<Rightarrow> layer_group \<Rightarrow> group_registry \<Rightarrow> group_registry" where
  "register_layer i g r =
     r\<lparr>gr_groups := (if g \<in> set (gr_groups r) then gr_groups r else gr_groups r @ [g]),
       gr_layers := (gr_layers r)(i \<mapsto> g)\<rparr>"

definition get_group :: "nat \<Rightarrow> group_registry \<Rightarrow> layer_group option" where
  "get_group i r = gr_layers r i"

definition num_groups :: "group_registry \<Rightarrow> nat" where
  "num_groups r = length (gr_groups r)"

text \<open>The groups are those of the layers registered so far, each once.\<close>

lemma registered_groups:
  assumes "distinct (gr_groups r)" and "ran (gr_layers r) \<subseteq> set (gr_groups r)"
  shows "distinct (gr_groups (register_layer i g r))"
    "ran (gr_layers (register_layer i g r)) \<subseteq> set (gr_groups (register_layer i g r))"
  using assms by (auto simp: register_layer_def ran_def split: if_splits)

end
