(* ===== verification/CacheSpec.thy ===== *)
theory CacheSpec
  imports LruCaches MoeBudget
begin

text \<open>
  What the bounded caches beside the block pool promise: the budget of the array caches, the coupling
  of hidden states to KV chunks, and the expert slots.
\<close>

text \<open>
  Storing an embedding under a new key keeps the cache within its element budget, with its queue
  and its counter exact; the embedding is found afterwards; and what had to go are the least recently
  used entries, a front of the queue, nothing else.
\<close>

theorem embedding_insert:
  assumes "lc_inv em_size c" and "fst (encoder_get h m c) = None" and "encoder_insert h m n d data c = (Ok (), c')"
  shows "lc_inv em_size c' \<and> lc_max c' = lc_max c
    \<and> fst (encoder_get h m c') = Some \<lparr>em_num_tokens = n, em_hidden_dim = d, em_data = data\<rparr>
    \<and> (\<exists>i. lc_queue c' = drop i (lc_queue c) @ [(h, m)]
        \<and> (\<forall>j. j \<noteq> (h, m) \<longrightarrow> map_of (lc_entries c') j = (if j \<in> set (take i (lc_queue c)) then None else map_of (lc_entries c) j)))"
proof -
  let ?v = "\<lparr>em_num_tokens = n, em_hidden_dim = d, em_data = data\<rparr>"
  have k: "map_of (lc_entries c) (h, m) = None"
    using assms(2) by (simp add: encoder_get_def lookup_touch_def split: if_splits)
  have len: "length data \<le> lc_max c" using assms(3) by (auto simp: encoder_insert_def Let_def split: if_splits)
  then have c': "c' = store_entry em_size (h, m) ?v (evict_until em_size (em_size ?v) c)"
    using assms(3) encoder_insert_fresh [OF k, of data n d] by (simp add: element_put_def)
  have sz: "em_size ?v \<le> lc_max c" using len by (simp add: em_size_def)
  note F = fresh_insert [OF assms(1) k sz, folded c']
  have "fst (encoder_get h m c') = Some ?v" using F(3) by (simp add: encoder_get_def lookup_touch_def)
  then show ?thesis using F(1,2,4) by blast
qed

theorem embedding_insert_witness:
  "fst (encoder_get 2 ''v'' two_embeddings) = Some \<lparr>em_num_tokens = 1, em_hidden_dim = 5, em_data = replicate 5 0\<rparr>"
proof -
  define c where "c = snd (encoder_insert 1 ''v'' 1 4 (replicate 4 0) (encoder_cache_new 10))"
  have "encoder_insert 1 ''v'' 1 4 (replicate 4 0) (encoder_cache_new 10) = (Ok (), c)"
    by (simp add: c_def encoder_insert_def encoder_cache_new_def Let_def release_old_def)
  moreover have "lc_inv em_size (encoder_cache_new 10)" "fst (encoder_get 1 ''v'' (encoder_cache_new 10)) = None"
    by (simp_all add: lc_inv_def encoder_cache_new_def encoder_get_def lookup_touch_def)
  ultimately have c: "lc_inv em_size c" using embedding_insert by blast
  have "fst (encoder_get 2 ''v'' c) = None" by (simp add: c_def) code_simp
  moreover have "encoder_insert 2 ''v'' 1 5 (replicate 5 0) c = (Ok (), two_embeddings)"
    unfolding two_embeddings_def c_def by code_simp
  ultimately show ?thesis using embedding_insert [OF c(1)] by blast
qed

text \<open>
  When the last reference of a KV chunk is released, exactly the hidden states of that chunk are
  dropped, of every layer, and the store's counter and queue stay exact.
\<close>

theorem released_chunk_dropped:
  assumes "lc_inv hc_size s" and "hs_valid s h = Some 1"
  shows "lc_inv hc_size (evict_kv_chunk h s)
    \<and> map_of (lc_entries (evict_kv_chunk h s)) = map_of (lc_entries s) |` {k. fst k \<noteq> h}"
  using evict_kv_chunk_spec [OF assms(1), of h] assms(2) by (auto simp: restrict_map_def)

definition one_chunk :: hidden_state_store where
  "one_chunk = retain_kv_chunk 7 (snd (insert_chunk 7 3 1 2 [0, 0] (hs_new 10)))"

theorem released_chunk_dropped_witness: "map_of (lc_entries (evict_kv_chunk 7 one_chunk)) (7, 3) = None"
proof -
  have "lc_inv hc_size one_chunk"
    by (simp add: one_chunk_def retain_kv_chunk_def insert_chunk_def hs_new_def Let_def release_old_def
        evict_keys_until.simps store_entry_def touch_lru_def lc_inv_def hc_size_def)
  moreover have "hs_valid one_chunk 7 = Some 1"
    by (simp add: one_chunk_def retain_kv_chunk_def insert_chunk_def hs_new_def Let_def release_old_def
        evict_keys_until.simps store_entry_def touch_lru_def hc_size_def)
  ultimately show ?thesis using released_chunk_dropped [of one_chunk 7] by simp
qed

text \<open>
  The expert slots: admitting an expert always gives it a slot of the cache and keeps the key map
  and the slots inverse to each other; other experts keep their slots except the evicted one; and an
  expert is evicted only when no slot is free, and then the one whose last use is the oldest.
\<close>

theorem expert_admitted:
  assumes "rt_inv r" and "0 < rt_capacity r"
  shows "\<exists>slot ev r'. admit_expert k r = (Ok (slot, ev), r') \<and> rt_inv r' \<and> rt_capacity r' = rt_capacity r
    \<and> slot < rt_capacity r \<and> rt_keys r' k = Some slot
    \<and> (\<forall>j. j \<noteq> k \<longrightarrow> rt_keys r' j = (if ev = Some j then None else rt_keys r j))
    \<and> (ev \<noteq> None \<longrightarrow> rt_keys r k = None \<and> None \<notin> set (rt_slots r)
        \<and> (\<exists>t. rt_slots r ! slot = Some (the ev, t) \<and> (\<forall>x u. Some (x, u) \<in> set (rt_slots r) \<longrightarrow> t \<le> u)))"
  by (rule admit_expert_spec [OF assms])

theorem expert_admitted_witness: "\<exists>slot ev r'. admit_expert (0, 5) (residency_new 2) = (Ok (slot, ev), r') \<and> slot < 2"
  using expert_admitted [OF rt_inv_new, of 2 "(0, 5)"] by (auto simp: residency_new_def)

text \<open>
  A budget within its envelope stays within it under every promotion, whether granted or refused,
  and, when an int8 expert is not larger than an fp16 one, under every demotion.
\<close>

theorem envelope_kept:
  assumes "mb_inv b" and "mb_int8 b \<le> mb_fp16 b"
  shows "mb_inv (snd (promote e t b)) \<and> mb_inv (demote e b)"
  using promote_tier_inv [OF assms(1)] demote_tier_inv [OF assms] by blast

theorem envelope_kept_witness: "mb_inv (demote 0 (mb_new 2 1000 400 4000))"
proof -
  have "mb_inv (mb_new 2 1000 400 4000)" by (simp add: mb_inv_def mb_new_def used_bytes_def tier_cost_def numeral_2_eq_2)
  moreover have "mb_int8 (mb_new 2 1000 400 4000) \<le> mb_fp16 (mb_new 2 1000 400 4000)" by (simp add: mb_new_def)
  ultimately show ?thesis using envelope_kept by blast
qed

text \<open>
  Replacing an entry can break the budget: with a budget of 10, entries of 4 and 5 elements and a
  replacement of the first by 8 elements, the cache holds 13 elements and counts 9.
\<close>

theorem replacement_breaks_budget:
  "lc_max two_embeddings = 10
    \<and> sum_list (map (\<lambda>(k, v). em_size v) (lc_entries (snd (encoder_insert 1 ''v'' 1 8 (replicate 8 0) two_embeddings)))) = 13
    \<and> allocated_elements (snd (encoder_insert 1 ''v'' 1 8 (replicate 8 0) two_embeddings)) = 9"
proof -
  have "lc_max two_embeddings = 10" by code_simp
  then show ?thesis using replacement_exceeds_budget by (simp add: Let_def)
qed

end
