(* ===== verification/ByteReader.thy ===== *)
theory ByteReader
  imports LeBytes
begin

text \<open>
  Reading a file front to back. A reader is the list of bytes still ahead; \<open>read_exact\<close> (std) takes
  the first \<open>n\<close> of them or fails. A Rust \<open>String\<close> is its UTF-8 bytes: \<open>String::from_utf8\<close> checks
  them, \<open>String::from_utf8_lossy\<close> replaces what is not UTF-8 by U+FFFD, both as the standard
  library does. The locale \<open>codec\<close> states what a writer and the reader of its format owe each other;
  sequences of such items are read back by the count the format stores.
\<close>

section \<open>Primitive readers\<close>

datatype read_error = UnexpectedEof | NotUtf8 | Malformed string

type_synonym 'a reader = "u8 list \<Rightarrow> (read_error, 'a) outcome \<times> u8 list"

definition read_exact :: "nat \<Rightarrow> u8 list reader" where
  "read_exact n s = (if n \<le> length s then (Ok (take n s), drop n s) else (Err UnexpectedEof, []))"

definition fail :: "string \<Rightarrow> 'a reader" where
  "fail e s = (Err (Malformed e), s)"

definition give :: "'a \<Rightarrow> 'a reader" where
  "give x s = (Ok x, s)"

definition read_le :: "nat \<Rightarrow> 'a::len word reader" where
  "read_le n s = and_then (read_exact n s) (\<lambda>bs. give (of_le_bytes bs))"

definition read_u8 :: "u8 reader" where
  "read_u8 s = read_le 1 s"

primrec read_times :: "nat \<Rightarrow> 'a reader \<Rightarrow> 'a list reader" where
  "read_times 0 rd s = (Ok [], s)"
| "read_times (Suc n) rd s =
     and_then (rd s) (\<lambda>x s'. and_then (read_times n rd s') (\<lambda>xs. give (x # xs)))"

lemma give_simps [simp]: "give x s = (Ok x, s)"
  by (simp add: give_def)

lemma fail_simps [simp]: "fail e s = (Err (Malformed e), s)"
  by (simp add: fail_def)

lemma read_exact_append [simp]: "length bs = n \<Longrightarrow> read_exact n (bs @ s) = (Ok bs, s)"
  by (auto simp: read_exact_def)

lemma read_exact_Ok:
  "read_exact n s = (Ok bs, s') \<longleftrightarrow> n \<le> length s \<and> bs = take n s \<and> s' = drop n s"
  by (auto simp: read_exact_def)

lemma le_bytes_1 [simp]: "of_le_bytes (le_bytes (Suc 0) w) = (w :: u8)"
  using of_le_bytes_le_bytes [where 'a = 8 and n = 1 and w = w] by simp

lemma read_le_written [simp]:
  "read_le 1 (le_bytes 1 (b :: u8) @ s) = (Ok b, s)"
  "read_le 2 (le_bytes 2 (h :: u16) @ s) = (Ok h, s)"
  "read_le 4 (le_bytes 4 (w :: u32) @ s) = (Ok w, s)"
  "read_le 8 (le_bytes 8 (d :: u64) @ s) = (Ok d, s)"
  by (simp_all add: read_le_def)

lemma read_u8_written [simp]: "read_u8 (b # s) = (Ok b, s)"
  by (simp add: read_u8_def read_le_def read_exact_def)

lemma le_bytes_u8 [simp]: "le_bytes (Suc 0) (b :: u8) = [b]"
  by (simp add: le_bytes_def)

lemma le_bytes_inj:
  assumes "LENGTH('a) = 8 * n" and "le_bytes n v = le_bytes n (w :: 'a::len word)"
  shows "v = w"
  using assms of_le_bytes_le_bytes [OF assms(1)] by metis

lemma le_bytes_of_le_bytes:
  assumes "LENGTH('a) = 8 * n" and "length bs = n"
  shows "le_bytes n (of_le_bytes bs :: 'a::len word) = bs"
proof (rule nth_equalityI)
  fix i assume "i < length (le_bytes n (of_le_bytes bs :: 'a word))"
  then have i: "i < n" by simp
  show "le_bytes n (of_le_bytes bs :: 'a word) ! i = bs ! i"
  proof (rule bit_word_eqI)
    fix j assume "j < LENGTH(8)"
    then have j: "j < 8" by simp
    have "(8 * i + j) div 8 = i" "(8 * i + j) mod 8 = j" using j by auto
    then show "bit (le_bytes n (of_le_bytes bs :: 'a word) ! i) j \<longleftrightarrow> bit (bs ! i) j"
      using i j assms by (simp add: le_bytes_def bit_simps bit_of_le_bytes)
  qed
qed (simp add: assms)

lemma read_le_Ok:
  assumes "LENGTH('a) = 8 * n"
  shows "read_le n s = (Ok (w :: 'a::len word), s') \<longleftrightarrow> s = le_bytes n w @ s'"
proof
  assume "read_le n s = (Ok w, s')"
  then have "n \<le> length s" "w = of_le_bytes (take n s)" "s' = drop n s"
    by (auto simp: read_le_def outcome_simps read_exact_Ok)
  then show "s = le_bytes n w @ s'" using le_bytes_of_le_bytes [OF assms] by simp
next
  assume "s = le_bytes n w @ s'"
  then show "read_le n s = (Ok w, s')" by (simp add: read_le_def of_le_bytes_le_bytes [OF assms])
qed

lemma unat_below: "unat (w :: 'a::len word) < 2 ^ LENGTH('a)"
  by (rule unsigned_less)

lemma unat_bounds: "unat (a :: u8) < 256" "unat (h :: u16) < 65536" "unat (w :: u32) < 4294967296"
  using unat_below [of a] unat_below [of h] unat_below [of w] by simp_all

section \<open>UTF-8\<close>

definition is_cont :: "u8 list \<Rightarrow> nat \<Rightarrow> bool" where
  "is_cont bs i \<longleftrightarrow> i < length bs \<and> bs ! i AND 192 = 128"

text \<open>
  The next chunk of a non-empty byte string: whether it is one encoded character, and how many bytes
  it has (a character, or the bytes that one replacement character stands for).
\<close>

definition second_ok :: "u8 \<Rightarrow> u8 list \<Rightarrow> bool" where
  "second_ok b bs \<longleftrightarrow> 1 < length bs \<and>
     (if b = 0xE0 then 0xA0 \<le> bs ! 1 \<and> bs ! 1 \<le> 0xBF
      else if b = 0xED then 0x80 \<le> bs ! 1 \<and> bs ! 1 \<le> 0x9F
      else if b = 0xF0 then 0x90 \<le> bs ! 1 \<and> bs ! 1 \<le> 0xBF
      else if b = 0xF4 then 0x80 \<le> bs ! 1 \<and> bs ! 1 \<le> 0x8F
      else 0x80 \<le> bs ! 1 \<and> bs ! 1 \<le> 0xBF)"

definition utf8_chunk :: "u8 list \<Rightarrow> bool \<times> nat" where
  "utf8_chunk bs =
     (let b = bs ! 0 in
      if b < 128 then (True, 1)
      else if 0xC2 \<le> b \<and> b \<le> 0xDF then (if is_cont bs 1 then (True, 2) else (False, 1))
      else if 0xE0 \<le> b \<and> b \<le> 0xEF then
        (if \<not> second_ok b bs then (False, 1)
         else if \<not> is_cont bs 2 then (False, 2) else (True, 3))
      else if 0xF0 \<le> b \<and> b \<le> 0xF4 then
        (if \<not> second_ok b bs then (False, 1)
         else if \<not> is_cont bs 2 then (False, 2)
         else if \<not> is_cont bs 3 then (False, 3) else (True, 4))
      else (False, 1))"

lemma utf8_chunk_pos: "0 < snd (utf8_chunk bs)"
  by (simp add: utf8_chunk_def Let_def)

function valid_utf8 :: "u8 list \<Rightarrow> bool" where
  "valid_utf8 bs =
     (if bs = [] then True
      else if fst (utf8_chunk bs) then valid_utf8 (drop (snd (utf8_chunk bs)) bs) else False)"
  by auto
termination
  by (relation "measure length") (auto simp: utf8_chunk_pos)

function utf8_lossy :: "u8 list \<Rightarrow> u8 list" where
  "utf8_lossy bs =
     (if bs = [] then []
      else (if fst (utf8_chunk bs) then take (snd (utf8_chunk bs)) bs else [0xEF, 0xBF, 0xBD])
        @ utf8_lossy (drop (snd (utf8_chunk bs)) bs))"
  by auto
termination
  by (relation "measure length") (auto simp: utf8_chunk_pos)

declare valid_utf8.simps [simp del] utf8_lossy.simps [simp del]

lemma valid_utf8_Nil [simp]: "valid_utf8 []"
  by (simp add: valid_utf8.simps)

lemma utf8_lossy_valid: "valid_utf8 bs \<Longrightarrow> utf8_lossy bs = bs"
proof (induction bs rule: valid_utf8.induct)
  case (1 bs)
  show ?case
  proof (cases "bs = []")
    case True
    then show ?thesis by (simp add: utf8_lossy.simps [of "[]"])
  next
    case False
    then have "fst (utf8_chunk bs)" "valid_utf8 (drop (snd (utf8_chunk bs)) bs)"
      using "1.prems" by (simp_all add: valid_utf8.simps [of bs] split: if_splits)
    then show ?thesis using False "1.IH" by (simp add: utf8_lossy.simps [of bs])
  qed
qed

lemma valid_utf8_ascii: "(\<forall>b \<in> set bs. b < 128) \<Longrightarrow> valid_utf8 bs"
proof (induction bs)
  case (Cons b bs)
  have "utf8_chunk (b # bs) = (True, 1)" using Cons.prems by (simp add: utf8_chunk_def)
  then show ?case using Cons by (simp add: valid_utf8.simps [of "b # bs"])
qed simp

text \<open>A string literal, for concrete inputs.\<close>

definition ascii :: "string \<Rightarrow> u8 list" where
  "ascii t = map (\<lambda>c. of_nat (of_char c)) t"

definition read_utf8 :: "nat \<Rightarrow> u8 list reader" where
  "read_utf8 n s = and_then (read_exact n s) (\<lambda>bs s'. if valid_utf8 bs then (Ok bs, s') else (Err NotUtf8, s'))"

lemma read_utf8_written [simp]:
  "length bs = n \<Longrightarrow> valid_utf8 bs \<Longrightarrow> read_utf8 n (bs @ s) = (Ok bs, s)"
  by (simp add: read_utf8_def)

lemma read_utf8_Ok:
  "read_utf8 n s = (Ok bs, s') \<longleftrightarrow> n \<le> length s \<and> bs = take n s \<and> s' = drop n s \<and> valid_utf8 bs"
  by (auto simp: read_utf8_def outcome_simps read_exact_Ok split: if_splits)

section \<open>Writers and readers of a format\<close>

lemma read_times_concat:
  "(\<And>x s. x \<in> set xs \<Longrightarrow> get (put x @ s) = (Ok x, s)) \<Longrightarrow>
     read_times (length xs) get (concat (map put xs) @ s) = (Ok xs, s)"
  by (induction xs) auto

locale codec =
  fixes put :: "'a \<Rightarrow> u8 list" and get :: "'a reader" and good :: "'a \<Rightarrow> bool"
  assumes get_put: "good x \<Longrightarrow> get (put x @ s) = (Ok x, s)"
begin

lemma get_all: "(\<forall>x \<in> set xs. good x) \<Longrightarrow> read_times (length xs) get (concat (map put xs) @ s) = (Ok xs, s)"
  by (rule read_times_concat) (simp add: get_put)

lemma put_inj: "good x \<Longrightarrow> good y \<Longrightarrow> put x @ s = put y @ s' \<Longrightarrow> x = y \<and> s = s'"
  using get_put [of x s] get_put [of y s'] by (metis outcome.inject(1) prod.inject)

lemma all_inj:
  assumes "\<forall>x \<in> set xs. good x" and "\<forall>y \<in> set ys. good y" and "length xs = length ys"
    and "concat (map put xs) @ s = concat (map put ys) @ s'"
  shows "xs = ys \<and> s = s'"
  using get_all [OF assms(1), of s] get_all [OF assms(2), of s'] assms(3,4) by (metis outcome.inject(1) prod.inject)

end

interpretation word8: codec "le_bytes 1" "read_le 1 :: u8 reader" "\<lambda>_. True"
  by unfold_locales (rule read_le_written)

interpretation word32: codec "le_bytes 4" "read_le 4 :: u32 reader" "\<lambda>_. True"
  by unfold_locales (rule read_le_written)

interpretation word64: codec "le_bytes 8" "read_le 8 :: u64 reader" "\<lambda>_. True"
  by unfold_locales (rule read_le_written)

lemma read_times_SucE:
  assumes "read_times (Suc n) rd s = (Ok xs, s')"
  obtains x ys t where "rd s = (Ok x, t)" "read_times n rd t = (Ok ys, s')" "xs = x # ys"
proof -
  from assms have "\<exists>x t. rd s = (Ok x, t) \<and> (\<exists>ys. read_times n rd t = (Ok ys, s') \<and> xs = x # ys)"
    by (simp add: and_then_Ok_iff) blast
  then show thesis using that by blast
qed

lemma read_times_length: "read_times n rd s = (Ok xs, s') \<Longrightarrow> length xs = n"
  by (induction n arbitrary: s xs) (simp, erule read_times_SucE, simp)

lemma read_times_all:
  assumes "read_times n rd s = (Ok xs, s')" and "\<And>t x t'. rd t = (Ok x, t') \<Longrightarrow> P x"
  shows "\<forall>x \<in> set xs. P x"
  using assms(1)
proof (induction n arbitrary: s xs)
  case (Suc n)
  from Suc.prems obtain x ys t where "rd s = (Ok x, t)" "read_times n rd t = (Ok ys, s')" "xs = x # ys"
    by (rule read_times_SucE)
  then show ?case using Suc.IH assms(2) by simp
qed simp

lemma read_times_parses:
  assumes "read_times n rd s = (Ok xs, s')" and "\<And>t x t'. rd t = (Ok x, t') \<Longrightarrow> t = put x @ t'"
  shows "s = concat (map put xs) @ s'"
  using assms(1)
proof (induction n arbitrary: s xs)
  case (Suc n)
  from Suc.prems obtain x ys t where "rd s = (Ok x, t)" "read_times n rd t = (Ok ys, s')" "xs = x # ys"
    by (rule read_times_SucE)
  then show ?case using Suc.IH assms(2) by simp
qed simp

end
