(* ===== verification/GgufTypes.thy ===== *)
theory GgufTypes
  imports ByteReader
begin

text \<open>
  The data model of GGUF files (\<open>crates/grim-format/src/gguf.rs\<close>): metadata values and their typed
  accessors, the table of tensor types with its tags and block geometry, tensor records, the byte
  size a tensor must have, and the detector of types that contradict the file.
\<close>

section \<open>Metadata values\<close>

datatype gguf_value =
    GUint8 u8 | GInt8 u8 | GUint16 u16 | GInt16 u16 | GUint32 u32 | GInt32 u32
  | GFloat32 f32 | GBool bool | GString "u8 list" | GArray "gguf_value list"
  | GUint64 u64 | GInt64 u64 | GFloat64 u64

text \<open>Signed values are kept as the bits of their word and read by \<open>sint\<close>.\<close>

fun wide :: "gguf_value \<Rightarrow> int option" where
  "wide (GUint8 v) = Some (uint v)"
| "wide (GUint16 v) = Some (uint v)"
| "wide (GUint32 v) = Some (uint v)"
| "wide (GUint64 v) = Some (uint v)"
| "wide (GInt8 v) = Some (sint v)"
| "wide (GInt16 v) = Some (sint v)"
| "wide (GInt32 v) = Some (sint v)"
| "wide (GInt64 v) = Some (sint v)"
| "wide _ = None"

definition as_u32 :: "gguf_value \<Rightarrow> u32 option" where
  "as_u32 v = (case wide v of None \<Rightarrow> None
     | Some w \<Rightarrow> if 0 \<le> w \<and> w < 2 ^ 32 then Some (word_of_int w) else None)"

definition to_i32 :: "int \<Rightarrow> u32 option" where
  "to_i32 w = (if - (2 ^ 31) \<le> w \<and> w < 2 ^ 31 then Some (word_of_int w) else None)"

fun as_i32 :: "gguf_value \<Rightarrow> u32 option" where
  "as_i32 (GInt8 v) = Some (scast v)"
| "as_i32 (GInt16 v) = Some (scast v)"
| "as_i32 (GInt32 v) = Some v"
| "as_i32 (GInt64 v) = to_i32 (sint v)"
| "as_i32 (GUint8 v) = Some (ucast v)"
| "as_i32 (GUint16 v) = Some (ucast v)"
| "as_i32 (GUint32 v) = to_i32 (uint v)"
| "as_i32 (GUint64 v) = to_i32 (uint v)"
| "as_i32 _ = None"

fun as_str :: "gguf_value \<Rightarrow> u8 list option" where
  "as_str (GString s) = Some s"
| "as_str _ = None"

fun as_bool :: "gguf_value \<Rightarrow> bool option" where
  "as_bool (GBool b) = Some b"
| "as_bool _ = None"

fun as_array :: "gguf_value \<Rightarrow> gguf_value list option" where
  "as_array (GArray vs) = Some vs"
| "as_array _ = None"

primrec collect_some :: "('a \<Rightarrow> 'b option) \<Rightarrow> 'a list \<Rightarrow> 'b list option" where
  "collect_some f [] = Some []"
| "collect_some f (x # xs) = (case f x of None \<Rightarrow> None
     | Some y \<Rightarrow> (case collect_some f xs of None \<Rightarrow> None | Some ys \<Rightarrow> Some (y # ys)))"

definition as_u32_array :: "gguf_value \<Rightarrow> u32 list option" where
  "as_u32_array v = (case as_array v of None \<Rightarrow> None | Some vs \<Rightarrow> collect_some as_u32 vs)"

definition as_i32_array :: "gguf_value \<Rightarrow> u32 list option" where
  "as_i32_array v = (case as_array v of None \<Rightarrow> None | Some vs \<Rightarrow> collect_some as_i32 vs)"

lemma u32_in_range: "uint (w :: u32) < 2 ^ 32" "0 \<le> uint (w :: u32)"
  using uint_lt2p [of w] by simp_all

lemma as_u32_exact: "as_u32 v = Some w \<longleftrightarrow> wide v = Some (uint w)"
proof (cases "wide v")
  case (Some x)
  then show ?thesis using u32_in_range [of w]
    by (auto simp: as_u32_def uint_word_of_int_eq take_bit_int_eq_self)
qed (simp add: as_u32_def)

lemma to_i32_exact: "to_i32 x = Some w \<longleftrightarrow> x = sint w"
proof -
  have r: "- (2 ^ 31) \<le> sint w" "sint w < 2 ^ 31"
    using sint_ge [of w] sint_lt [of w] by simp_all
  have "sint (word_of_int x :: u32) = x" if "- (2 ^ 31) \<le> x" "x < 2 ^ 31"
    using that by (simp add: sint_sbintrunc' signed_take_bit_int_eq_self)
  then show ?thesis using r by (auto simp: to_i32_def)
qed

lemma narrow_to_i32:
  "to_i32 (sint (a :: u8)) = Some (scast a)" "to_i32 (sint (b :: u16)) = Some (scast b)"
  "to_i32 (uint (a :: u8)) = Some (ucast a)" "to_i32 (uint (b :: u16)) = Some (ucast b)"
  "to_i32 (sint (c :: u32)) = Some c"
proof -
  have "- 2147483648 \<le> uint a" "- 2147483648 \<le> uint b"
    by (rule order_trans [OF _ uint_ge_0], simp)+
  then show
    "to_i32 (sint (a :: u8)) = Some (scast a)" "to_i32 (sint (b :: u16)) = Some (scast b)"
    "to_i32 (uint (a :: u8)) = Some (ucast a)" "to_i32 (uint (b :: u16)) = Some (ucast b)"
    "to_i32 (sint (c :: u32)) = Some c"
  using sint_ge [of a] sint_lt [of a] sint_ge [of b] sint_lt [of b]
    uint_lt2p [of a] uint_lt2p [of b] sint_ge [of c] sint_lt [of c] by (simp_all add: to_i32_def)
qed

lemma as_i32_wide: "as_i32 v = Option.bind (wide v) to_i32"
  by (cases v) (simp_all add: narrow_to_i32)

lemma as_i32_exact: "as_i32 v = Some w \<longleftrightarrow> wide v = Some (sint w)"
  by (auto simp: as_i32_wide to_i32_exact bind_eq_Some_conv)

section \<open>Tensor types\<close>

datatype gguf_dtype =
    F32 | F16 | Q4_0 | Q4_1 | Q5_0 | Q5_1 | Q8_0 | Q8_1 | Q2K | Q3K | Q4K | Q5K | Q6K | Q8K |
    IQ2_XXS | IQ2_XS | IQ3_XXS | IQ1_S | IQ4_NL | IQ3_S | IQ2_S | IQ4_XS | I8 | I16 | I32 |
    I64 | F64 | IQ1_M | BF16 | TQ1_0 | TQ2_0 | MXFP4 | Q4_2 | Q8_1Hx | NVFP4 | Q1_0 | Q2_0 |
    GsqRco3p5 | PQ2_0 | PTQ1_0 | WhiteCrow | Raven | WhiteRaven | GreyRaven | ForestRaven |
    GreyRavenHw

fun discriminant :: "gguf_dtype \<Rightarrow> u32" where
  "discriminant F32 = 0"
| "discriminant F16 = 1"
| "discriminant Q4_0 = 2"
| "discriminant Q4_1 = 3"
| "discriminant Q5_0 = 6"
| "discriminant Q5_1 = 7"
| "discriminant Q8_0 = 8"
| "discriminant Q8_1 = 9"
| "discriminant Q2K = 10"
| "discriminant Q3K = 11"
| "discriminant Q4K = 12"
| "discriminant Q5K = 13"
| "discriminant Q6K = 14"
| "discriminant Q8K = 15"
| "discriminant IQ2_XXS = 16"
| "discriminant IQ2_XS = 17"
| "discriminant IQ3_XXS = 18"
| "discriminant IQ1_S = 19"
| "discriminant IQ4_NL = 20"
| "discriminant IQ3_S = 21"
| "discriminant IQ2_S = 22"
| "discriminant IQ4_XS = 23"
| "discriminant I8 = 24"
| "discriminant I16 = 25"
| "discriminant I32 = 26"
| "discriminant I64 = 27"
| "discriminant F64 = 28"
| "discriminant IQ1_M = 29"
| "discriminant BF16 = 30"
| "discriminant TQ1_0 = 34"
| "discriminant TQ2_0 = 35"
| "discriminant MXFP4 = 39"
| "discriminant Q4_2 = 79"
| "discriminant Q8_1Hx = 80"
| "discriminant NVFP4 = 40"
| "discriminant Q1_0 = 41"
| "discriminant Q2_0 = 42"
| "discriminant GsqRco3p5 = 81"
| "discriminant PQ2_0 = 142"
| "discriminant PTQ1_0 = 143"
| "discriminant WhiteCrow = 660"
| "discriminant Raven = 669"
| "discriminant WhiteRaven = 670"
| "discriminant GreyRaven = 671"
| "discriminant ForestRaven = 672"
| "discriminant GreyRavenHw = 673"

fun dtype_tag :: "gguf_dtype \<Rightarrow> u32" where
  "dtype_tag F32 = 0"
| "dtype_tag F16 = 1"
| "dtype_tag Q4_0 = 2"
| "dtype_tag Q4_1 = 3"
| "dtype_tag Q5_0 = 6"
| "dtype_tag Q5_1 = 7"
| "dtype_tag Q8_0 = 8"
| "dtype_tag Q8_1 = 9"
| "dtype_tag Q2K = 10"
| "dtype_tag Q3K = 11"
| "dtype_tag Q4K = 12"
| "dtype_tag Q5K = 13"
| "dtype_tag Q6K = 14"
| "dtype_tag Q8K = 15"
| "dtype_tag IQ2_XXS = 16"
| "dtype_tag IQ2_XS = 17"
| "dtype_tag IQ3_XXS = 18"
| "dtype_tag IQ1_S = 19"
| "dtype_tag IQ4_NL = 20"
| "dtype_tag IQ3_S = 21"
| "dtype_tag IQ2_S = 22"
| "dtype_tag IQ4_XS = 23"
| "dtype_tag I8 = 24"
| "dtype_tag I16 = 25"
| "dtype_tag I32 = 26"
| "dtype_tag I64 = 27"
| "dtype_tag F64 = 28"
| "dtype_tag IQ1_M = 29"
| "dtype_tag BF16 = 30"
| "dtype_tag TQ1_0 = 34"
| "dtype_tag TQ2_0 = 35"
| "dtype_tag MXFP4 = 39"
| "dtype_tag Q4_2 = 79"
| "dtype_tag Q8_1Hx = 80"
| "dtype_tag NVFP4 = 40"
| "dtype_tag Q1_0 = 41"
| "dtype_tag Q2_0 = 42"
| "dtype_tag GsqRco3p5 = 81"
| "dtype_tag PQ2_0 = 142"
| "dtype_tag PTQ1_0 = 143"
| "dtype_tag WhiteCrow = 660"
| "dtype_tag Raven = 669"
| "dtype_tag WhiteRaven = 670"
| "dtype_tag GreyRaven = 671"
| "dtype_tag ForestRaven = 672"
| "dtype_tag GreyRavenHw = 673"

definition from_tag :: "u32 \<Rightarrow> gguf_dtype option" where
  "from_tag t = map_of
    [(0, F32), (1, F16), (2, Q4_0), (3, Q4_1), (6, Q5_0), (7, Q5_1), (8, Q8_0), (9, Q8_1),
     (10, Q2K), (11, Q3K), (12, Q4K), (13, Q5K), (14, Q6K), (15, Q8K), (16, IQ2_XXS),
     (17, IQ2_XS), (18, IQ3_XXS), (19, IQ1_S), (20, IQ4_NL), (21, IQ3_S), (22, IQ2_S),
     (23, IQ4_XS), (24, I8), (25, I16), (26, I32), (27, I64), (28, F64), (29, IQ1_M),
     (30, BF16), (34, TQ1_0), (35, TQ2_0), (39, MXFP4), (79, Q4_2), (80, Q8_1Hx), (40, NVFP4),
     (41, Q1_0), (42, Q2_0), (81, GsqRco3p5), (142, PQ2_0), (143, PTQ1_0), (660, WhiteCrow),
     (669, Raven), (670, WhiteRaven), (671, GreyRaven), (672, ForestRaven), (673, GreyRavenHw)] t"

definition ALL_GGUF_DTYPES :: "gguf_dtype list" where
  "ALL_GGUF_DTYPES =
    [F32, F16, BF16, F64, I8, I16, I32, I64, Q4_0, Q4_1, Q5_0, Q5_1, Q8_0, Q2K, Q3K, Q4K, Q5K,
     Q6K, Q8K, IQ4_NL, IQ4_XS, IQ3_XXS, IQ3_S, IQ2_XXS, IQ2_XS, IQ2_S, IQ1_S, MXFP4,
     GsqRco3p5, PQ2_0, PTQ1_0]"

fun elem_size :: "gguf_dtype \<Rightarrow> nat" where
  "elem_size F32 = 4"
| "elem_size F16 = 2"
| "elem_size BF16 = 2"
| "elem_size I8 = 1"
| "elem_size I16 = 2"
| "elem_size I32 = 4"
| "elem_size I64 = 8"
| "elem_size F64 = 8"
| "elem_size _ = 1"

fun block_size :: "gguf_dtype \<Rightarrow> nat" where
  "block_size F32 = 1"
| "block_size F16 = 1"
| "block_size BF16 = 1"
| "block_size F64 = 1"
| "block_size I8 = 1"
| "block_size I16 = 1"
| "block_size I32 = 1"
| "block_size I64 = 1"
| "block_size Q4_2 = 1"
| "block_size Q8_1Hx = 1"
| "block_size Q2K = 256"
| "block_size Q3K = 256"
| "block_size Q4K = 256"
| "block_size Q5K = 256"
| "block_size Q6K = 256"
| "block_size Q8K = 256"
| "block_size IQ4_NL = 256"
| "block_size IQ4_XS = 256"
| "block_size IQ3_XXS = 256"
| "block_size IQ3_S = 256"
| "block_size IQ2_XXS = 256"
| "block_size IQ2_XS = 256"
| "block_size IQ2_S = 256"
| "block_size IQ1_S = 256"
| "block_size IQ1_M = 256"
| "block_size MXFP4 = 256"
| "block_size NVFP4 = 256"
| "block_size Q2_0 = 64"
| "block_size GsqRco3p5 = 64"
| "block_size PQ2_0 = 128"
| "block_size WhiteCrow = 128"
| "block_size Raven = 1"
| "block_size WhiteRaven = 1"
| "block_size ForestRaven = 1"
| "block_size GreyRaven = 32"
| "block_size GreyRavenHw = 512"
| "block_size PTQ1_0 = 128"
| "block_size _ = 32"

fun type_size_per_block :: "gguf_dtype \<Rightarrow> nat" where
  "type_size_per_block F32 = 4"
| "type_size_per_block F16 = 2"
| "type_size_per_block BF16 = 2"
| "type_size_per_block I8 = 1"
| "type_size_per_block I16 = 2"
| "type_size_per_block I32 = 4"
| "type_size_per_block I64 = 8"
| "type_size_per_block F64 = 8"
| "type_size_per_block Q4_0 = 2 + 32 div 2"
| "type_size_per_block Q4_1 = 2 + 2 + 32 div 2"
| "type_size_per_block Q4_2 = 0"
| "type_size_per_block Q5_0 = 2 + 4 + 32 div 2"
| "type_size_per_block Q5_1 = 2 + 2 + 4 + 32 div 2"
| "type_size_per_block Q8_0 = 2 + 32"
| "type_size_per_block Q8_1 = 2 + 2 + 32"
| "type_size_per_block Q2K = 84"
| "type_size_per_block Q3K = 110"
| "type_size_per_block Q4K = 144"
| "type_size_per_block Q5K = 176"
| "type_size_per_block Q6K = 210"
| "type_size_per_block Q8K = 292"
| "type_size_per_block IQ4_NL = 144"
| "type_size_per_block IQ4_XS = 136"
| "type_size_per_block IQ3_XXS = 98"
| "type_size_per_block IQ3_S = 110"
| "type_size_per_block IQ2_XXS = 66"
| "type_size_per_block IQ2_XS = 74"
| "type_size_per_block IQ2_S = 82"
| "type_size_per_block IQ1_S = 50"
| "type_size_per_block IQ1_M = 56"
| "type_size_per_block MXFP4 = 136"
| "type_size_per_block NVFP4 = 16 + 128"
| "type_size_per_block Q2_0 = 18"
| "type_size_per_block GsqRco3p5 = 18"
| "type_size_per_block PQ2_0 = 34"
| "type_size_per_block PTQ1_0 = 28"
| "type_size_per_block WhiteCrow = 64 + 2 + 1"
| "type_size_per_block Raven = 1"
| "type_size_per_block WhiteRaven = 1"
| "type_size_per_block ForestRaven = 1"
| "type_size_per_block GreyRaven = 16 + 12"
| "type_size_per_block GreyRavenHw = 256 + 4"
| "type_size_per_block _ = 0"

lemma tag_is_discriminant: "dtype_tag t = discriminant t"
  by (cases t) simp_all

lemma from_tag_dtype_tag [simp]: "from_tag (dtype_tag t) = Some t"
  by (cases t) (simp_all add: from_tag_def)

lemma from_tag_Some: "from_tag w = Some t \<Longrightarrow> w = dtype_tag t"
  by (auto simp: from_tag_def split: if_splits)

lemma block_size_pos [simp]: "0 < block_size t"
  by (cases t) simp_all

definition GRIM_NATIVE_4BIT_BASE :: u32 where "GRIM_NATIVE_4BIT_BASE = 660"
definition GRIM_NATIVE_8BIT_BASE :: u32 where "GRIM_NATIVE_8BIT_BASE = 669"

definition is_grim_native :: "gguf_dtype \<Rightarrow> bool" where
  "is_grim_native t \<longleftrightarrow>
     GRIM_NATIVE_4BIT_BASE \<le> dtype_tag t \<and> dtype_tag t < GRIM_NATIVE_8BIT_BASE
   \<or> GRIM_NATIVE_8BIT_BASE \<le> dtype_tag t \<and> dtype_tag t \<le> GRIM_NATIVE_8BIT_BASE + 8"

definition block_boundary_valid :: "gguf_dtype \<Rightarrow> nat \<Rightarrow> nat \<Rightarrow> bool" where
  "block_boundary_valid t out_dim world_size \<longleftrightarrow>
     world_size \<noteq> 0 \<and> out_dim mod world_size = 0 \<and>
     (block_size t \<le> 1 \<or> out_dim div world_size mod block_size t = 0)"

section \<open>Tensor records and sizes\<close>

record tensor_info =
  ti_name :: "u8 list"
  ti_dims :: "u64 list"
  ti_offset :: u64
  ti_size :: nat
  ti_dtype :: gguf_dtype

definition ti_shape :: "tensor_info \<Rightarrow> nat list" where
  "ti_shape t = rev (map unat (ti_dims t))"

definition elem_count :: "tensor_info \<Rightarrow> nat" where
  "elem_count t = prod_list (ti_shape t)"

definition checked_mul :: "nat \<Rightarrow> nat \<Rightarrow> nat option" where
  "checked_mul a b = (if a * b < 2 ^ 64 then Some (a * b) else None)"

fun checked_product :: "nat \<Rightarrow> u64 list \<Rightarrow> nat option" where
  "checked_product a [] = Some a"
| "checked_product a (d # ds) =
     (case checked_mul a (unat d) of None \<Rightarrow> None | Some b \<Rightarrow> checked_product b ds)"

definition expected_tensor_bytes :: "gguf_dtype \<Rightarrow> u64 list \<Rightarrow> nat option" where
  "expected_tensor_bytes t dims =
     (if block_size t = 0 \<or> type_size_per_block t = 0 then None
      else case checked_product 1 dims of None \<Rightarrow> None
      | Some params \<Rightarrow>
          if block_size t = 1 then checked_mul params (type_size_per_block t)
          else map_option (\<lambda>n. n div block_size t) (checked_mul params (type_size_per_block t)))"

lemma checked_product_Some: "checked_product a ds = Some p \<Longrightarrow> p = a * prod_list (map unat ds)"
  by (induction a ds rule: checked_product.induct)
    (auto simp: checked_mul_def algebra_simps split: option.splits if_splits)

lemma expected_bytes_eq:
  assumes "expected_tensor_bytes t dims = Some n"
  shows "n = prod_list (map unat dims) * type_size_per_block t div block_size t \<and> n < 2 ^ 64"
proof -
  obtain p where p: "checked_product 1 dims = Some p"
    and n: "p * type_size_per_block t < 2 ^ 64" "n = p * type_size_per_block t div block_size t"
    using assms by (auto simp: expected_tensor_bytes_def checked_mul_def split: option.splits if_splits)
  have "n \<le> p * type_size_per_block t" using n(2) by simp
  then have "n < 2 ^ 64" using n(1) by (rule le_less_trans)
  then show ?thesis using n(2) checked_product_Some [OF p] by simp
qed

section \<open>Types that contradict the file\<close>

record dtype_contradiction =
  dc_name :: "u8 list"
  dc_declared :: gguf_dtype
  dc_expected :: nat
  dc_actual :: nat
  dc_candidates :: "gguf_dtype list"

definition fits_span :: "tensor_info \<Rightarrow> nat \<Rightarrow> gguf_dtype \<Rightarrow> bool" where
  "fits_span t actual c \<longleftrightarrow> expected_tensor_bytes c (ti_dims t) = Some actual \<and>
     (let b = block_size c; innermost = max 1 (if ti_dims t = [] then 1 else unat (last (ti_dims t))) in
      b = 1 \<or> innermost mod b = 0 \<or> prod_list (map unat (ti_dims t)) mod b = 0)"

definition contradicts :: "tensor_info \<Rightarrow> nat \<Rightarrow> dtype_contradiction option" where
  "contradicts t next_offset =
     (if next_offset < unat (ti_offset t) then None
      else case expected_tensor_bytes (ti_dtype t) (ti_dims t) of None \<Rightarrow> None
      | Some expected \<Rightarrow>
          let actual = next_offset - unat (ti_offset t) in
          if actual = expected then None
          else if expected \<le> actual then None
          else Some \<lparr>dc_name = ti_name t, dc_declared = ti_dtype t, dc_expected = expected,
                     dc_actual = actual, dc_candidates = filter (fits_span t actual) ALL_GGUF_DTYPES\<rparr>)"

fun scan_spans :: "tensor_info list \<Rightarrow> nat \<Rightarrow> dtype_contradiction list" where
  "scan_spans [] data_len = []"
| "scan_spans (t # ts) data_len =
     (let next_offset = (case ts of [] \<Rightarrow> data_len | u # _ \<Rightarrow> unat (ti_offset u)) in
      (case contradicts t next_offset of None \<Rightarrow> [] | Some c \<Rightarrow> [c]) @ scan_spans ts data_len)"

definition dtype_contradictions :: "tensor_info list \<Rightarrow> nat \<Rightarrow> dtype_contradiction list" where
  "dtype_contradictions tensors data_len = scan_spans (sort_key ti_offset tensors) data_len"

end
