(* ===== verification/GgufFile.thy ===== *)
theory GgufFile
  imports GgufTypes "HOL-Library.AList"
begin

text \<open>
  Reading a GGUF file (\<open>read_gguf\<close>, \<open>read_tensor_bytes\<close> of \<open>crates/grim-format/src/gguf.rs\<close>) and
  rewriting it with the \<open>.grim\<close> metadata keys (\<open>convert_gguf_to_grim\<close> and its value writers,
  \<open>convert.rs\<close>). A file is its bytes. Metadata is an association list: the order of the list stands
  for the iteration order of the hash map. Sizes and positions are naturals with the \<open>u64\<close> checks
  written out.
\<close>

section \<open>Values\<close>

definition MAX_NESTING :: nat where "MAX_NESTING = 64"
definition MAX_STRING :: nat where "MAX_STRING = 64 * 1024 * 1024"
definition MAX_ARRAY :: nat where "MAX_ARRAY = 10000000"

definition read_gguf_string :: "u8 list reader" where
  "read_gguf_string s = and_then (read_le 8 s) (\<lambda>(n :: u64) s.
     if MAX_STRING < unat n then fail ''string length'' s else read_utf8 (unat n) s)"

function read_value :: "u32 \<Rightarrow> nat \<Rightarrow> gguf_value reader" where
  "read_value tag depth s =
     (if tag = 0 then and_then (read_le 1 s) (\<lambda>v. give (GUint8 v))
      else if tag = 1 then and_then (read_le 1 s) (\<lambda>v. give (GInt8 v))
      else if tag = 2 then and_then (read_le 2 s) (\<lambda>v. give (GUint16 v))
      else if tag = 3 then and_then (read_le 2 s) (\<lambda>v. give (GInt16 v))
      else if tag = 4 then and_then (read_le 4 s) (\<lambda>v. give (GUint32 v))
      else if tag = 5 then and_then (read_le 4 s) (\<lambda>v. give (GInt32 v))
      else if tag = 6 then and_then (read_le 4 s) (\<lambda>v. give (GFloat32 v))
      else if tag = 7 then and_then (read_le 1 s) (\<lambda>(v :: u8). give (GBool (v \<noteq> 0)))
      else if tag = 8 then and_then (read_gguf_string s) (\<lambda>v. give (GString v))
      else if tag = 9 then
        (if MAX_NESTING \<le> depth then fail ''array nesting'' s
         else and_then (read_le 4 s) (\<lambda>elem_tag s. and_then (read_le 8 s) (\<lambda>(count :: u64) s.
           if MAX_ARRAY < unat count then fail ''array count'' s
           else and_then (read_times (unat count) (read_value elem_tag (depth + 1)) s) (\<lambda>vs.
             give (GArray vs)))))
      else if tag = 10 then and_then (read_le 8 s) (\<lambda>v. give (GUint64 v))
      else if tag = 11 then and_then (read_le 8 s) (\<lambda>v. give (GInt64 v))
      else if tag = 12 then and_then (read_le 8 s) (\<lambda>v. give (GFloat64 v))
      else fail ''metadata tag'' s)"
  by pat_completeness auto
termination
  by (relation "measure (\<lambda>(_, depth, _). MAX_NESTING - depth)") auto

declare read_value.simps [simp del]

definition read_gguf_value :: "gguf_value reader" where
  "read_gguf_value s = and_then (read_le 4 s) (\<lambda>tag. read_value tag 0)"

fun value_tag :: "gguf_value \<Rightarrow> u32" where
  "value_tag (GUint8 _) = 0"
| "value_tag (GInt8 _) = 1"
| "value_tag (GUint16 _) = 2"
| "value_tag (GInt16 _) = 3"
| "value_tag (GUint32 _) = 4"
| "value_tag (GInt32 _) = 5"
| "value_tag (GFloat32 _) = 6"
| "value_tag (GBool _) = 7"
| "value_tag (GString _) = 8"
| "value_tag (GArray _) = 9"
| "value_tag (GUint64 _) = 10"
| "value_tag (GInt64 _) = 11"
| "value_tag (GFloat64 _) = 12"

definition write_gguf_string :: "u8 list \<Rightarrow> u8 list" where
  "write_gguf_string b = le_bytes 8 (of_nat (length b) :: u64) @ b"

fun write_raw :: "gguf_value \<Rightarrow> u8 list" where
  "write_raw (GUint8 v) = [v]"
| "write_raw (GInt8 v) = le_bytes 1 v"
| "write_raw (GUint16 v) = le_bytes 2 v"
| "write_raw (GInt16 v) = le_bytes 2 v"
| "write_raw (GUint32 v) = le_bytes 4 v"
| "write_raw (GInt32 v) = le_bytes 4 v"
| "write_raw (GFloat32 v) = le_bytes 4 v"
| "write_raw (GBool v) = [if v then 1 else 0]"
| "write_raw (GString b) = le_bytes 8 (of_nat (length b) :: u64) @ b"
| "write_raw (GArray vs) =
     (if vs = [] then le_bytes 4 (8 :: u32) @ le_bytes 8 (0 :: u64)
      else le_bytes 4 (value_tag (vs ! 0)) @ le_bytes 8 (of_nat (length vs) :: u64)
        @ concat (map write_raw vs))"
| "write_raw (GUint64 v) = le_bytes 8 v"
| "write_raw (GInt64 v) = le_bytes 8 v"
| "write_raw (GFloat64 v) = le_bytes 8 v"

definition write_gguf_value :: "gguf_value \<Rightarrow> u8 list" where
  "write_gguf_value v = le_bytes 4 (value_tag v) @ write_raw v"

section \<open>Files\<close>

type_synonym gguf_metadata = "(u8 list \<times> gguf_value) list"

record gguf_file =
  gf_version :: u32
  gf_tensor_count :: u64
  gf_metadata :: gguf_metadata
  gf_tensors :: "tensor_info list"
  gf_data_start :: nat

definition GGUF_MAGIC :: u32 where "GGUF_MAGIC = 0x46554747"
definition GGUF_VERSION :: u32 where "GGUF_VERSION = 3"
definition MAX_ENTRIES :: nat where "MAX_ENTRIES = 1000000"

definition read_entry :: "(u8 list \<times> gguf_value) reader" where
  "read_entry s = and_then (read_gguf_string s) (\<lambda>k s. and_then (read_gguf_value s) (\<lambda>v. give (k, v)))"

definition collect_metadata :: "(u8 list \<times> gguf_value) list \<Rightarrow> gguf_metadata" where
  "collect_metadata kvs = fold (\<lambda>(k, v) m. AList.update k v m) kvs []"

text \<open>\<open>Ok\<close> the byte size, \<open>Err\<close> the message; the first case takes every type whose block is one weight.\<close>

definition tensor_size :: "gguf_dtype \<Rightarrow> u64 list \<Rightarrow> (string, nat) outcome" where
  "tensor_size t dims =
     (case checked_product 1 dims of
        None \<Rightarrow> Err ''dimension product''
      | Some params \<Rightarrow>
          if block_size t = 1 then
            (case checked_mul params (type_size_per_block t) of None \<Rightarrow> Err ''byte size'' | Some n \<Rightarrow> Ok n)
          else if type_size_per_block t = 0 then Err ''no block size''
          else (case checked_mul params (type_size_per_block t) of
              None \<Rightarrow> Err ''byte size'' | Some n \<Rightarrow> Ok (n div block_size t)))"

definition read_tensor_info :: "tensor_info reader" where
  "read_tensor_info s =
     and_then (read_gguf_string s) (\<lambda>name s. and_then (read_le 4 s) (\<lambda>(n_dims :: u32) s.
       if 16 < n_dims then fail ''rank'' s
       else and_then (read_times (unat n_dims) (read_le 8) s) (\<lambda>dims s.
         and_then (read_le 4 s) (\<lambda>tag s. case from_tag tag of
           None \<Rightarrow> fail ''dtype tag'' s
         | Some t \<Rightarrow> and_then (read_le 8 s) (\<lambda>offset s.
             case tensor_size t dims of
               Ok n \<Rightarrow> (Ok \<lparr>ti_name = name, ti_dims = dims, ti_offset = offset, ti_size = n, ti_dtype = t\<rparr>, s)
             | Err e \<Rightarrow> fail e s
             | Panic \<Rightarrow> (Panic, s)
             | Hang \<Rightarrow> (Hang, s))))))"

fun alignment_value :: "gguf_value \<Rightarrow> u64 option" where
  "alignment_value (GUint32 a) = Some (ucast a)"
| "alignment_value (GUint64 a) = Some a"
| "alignment_value (GUint16 a) = Some (ucast a)"
| "alignment_value (GUint8 a) = Some (ucast a)"
| "alignment_value (GInt32 a) = (if 0 <s a then Some (ucast a) else None)"
| "alignment_value (GInt64 a) = (if 0 <s a then Some a else None)"
| "alignment_value _ = None"

definition alignment :: "gguf_metadata \<Rightarrow> u64" where
  "alignment m = (case Option.bind (map_of m (ascii ''general.alignment'')) alignment_value of
     None \<Rightarrow> 32 | Some a \<Rightarrow> a)"

text \<open>\<open>(pos + mask) & !mask\<close>; the addition is checked.\<close>

definition round_up :: "nat \<Rightarrow> u64 \<Rightarrow> nat option" where
  "round_up pos m = (if pos + unat m < 2 ^ 64 then Some (unat (of_nat (pos + unat m) AND NOT m)) else None)"

definition data_start_of :: "gguf_metadata \<Rightarrow> nat \<Rightarrow> nat option" where
  "data_start_of m pos =
     (let a = alignment m in
      if 0 < a \<and> a AND (a - 1) = 0 then round_up pos (a - 1) else round_up pos 31)"

definition read_gguf :: "u8 list \<Rightarrow> (read_error, gguf_file) outcome" where
  "read_gguf file = fst
     (and_then (read_le 4 file) (\<lambda>magic s.
       if magic \<noteq> GGUF_MAGIC then fail ''magic'' s
       else and_then (read_le 4 s) (\<lambda>version s.
       if version \<noteq> 2 \<and> version \<noteq> 3 then fail ''version'' s
       else and_then (read_le 8 s) (\<lambda>tensor_count s. and_then (read_le 8 s) (\<lambda>(kv_count :: u64) s.
       if MAX_ENTRIES < unat tensor_count then fail ''tensor_count'' s
       else if MAX_ENTRIES < unat kv_count then fail ''metadata_kv_count'' s
       else and_then (read_times (unat kv_count) read_entry s) (\<lambda>kvs s.
       and_then (read_times (unat tensor_count) read_tensor_info s) (\<lambda>tensors s.
       case data_start_of (collect_metadata kvs) (length file - length s) of
         None \<Rightarrow> (Panic, s)
       | Some d \<Rightarrow> (Ok \<lparr>gf_version = version, gf_tensor_count = tensor_count,
           gf_metadata = collect_metadata kvs, gf_tensors = tensors, gf_data_start = d\<rparr>, s))))))))"

definition read_tensor_bytes :: "u8 list \<Rightarrow> gguf_file \<Rightarrow> tensor_info \<Rightarrow> (read_error, u8 list) outcome" where
  "read_tensor_bytes file g t =
     (let start = gf_data_start g + unat (ti_offset t);
          size = (case expected_tensor_bytes (ti_dtype t) (ti_dims t) of None \<Rightarrow> ti_size t | Some n \<Rightarrow> n)
      in if 2 ^ 64 \<le> start then Err (Malformed ''start offset overflow'')
         else if 2 ^ 64 \<le> start + size then Err (Malformed ''end offset overflow'')
         else if length file < start + size then Err (Malformed ''exceeds file length'')
         else Ok (take size (drop start file)))"

section \<open>Conversion\<close>

datatype rocml_profile = Cdna2 | Cdna3 | Rdna2 | Rdna3 | Rdna4 | AllProfiles | UnknownProfile

fun profile_name :: "rocml_profile \<Rightarrow> string" where
  "profile_name Cdna2 = ''cdna2''"
| "profile_name Cdna3 = ''cdna3''"
| "profile_name Rdna2 = ''rdna2''"
| "profile_name Rdna3 = ''rdna3''"
| "profile_name Rdna4 = ''rdna4''"
| "profile_name AllProfiles = ''all''"
| "profile_name UnknownProfile = ''unknown''"

fun wavefront_size :: "rocml_profile \<Rightarrow> u32" where
  "wavefront_size AllProfiles = 0"
| "wavefront_size UnknownProfile = 0"
| "wavefront_size _ = 32"

fun lds_size :: "rocml_profile \<Rightarrow> u32" where
  "lds_size Cdna2 = 65536"
| "lds_size Cdna3 = 65536"
| "lds_size Rdna2 = 32768"
| "lds_size Rdna3 = 32768"
| "lds_size Rdna4 = 32768"
| "lds_size AllProfiles = 0"
| "lds_size UnknownProfile = 0"

definition starts_with :: "string \<Rightarrow> u8 list \<Rightarrow> bool" where
  "starts_with p s \<longleftrightarrow> take (length p) s = ascii p"

definition gcn_to_profile :: "u8 list \<Rightarrow> rocml_profile" where
  "gcn_to_profile gcn =
     (if starts_with ''gfx12'' gcn then Rdna4
      else if starts_with ''gfx11'' gcn then Rdna3
      else if starts_with ''gfx10'' gcn then Rdna2
      else if starts_with ''gfx94'' gcn \<or> starts_with ''gfx90a'' gcn then Cdna3
      else if starts_with ''gfx90'' gcn then Cdna2
      else UnknownProfile)"

definition grim_keys :: "u8 list \<Rightarrow> (u8 list \<times> gguf_value) list" where
  "grim_keys gcn = (let profile = gcn_to_profile gcn in
     [(ascii ''grim.magic'', GString (ascii ''grim-v1'')),
      (ascii ''grim.quant_version'', GUint32 1),
      (ascii ''grim.rocml.profile'', GString (ascii (profile_name profile))),
      (ascii ''grim.rocml.wavefront_size'', GUint32 (wavefront_size profile)),
      (ascii ''grim.rocml.target_gcn'', GString gcn),
      (ascii ''grim.rocml.lds_size'', GUint32 (lds_size profile)),
      (ascii ''grim.rocml.tensor_core_enabled'', GBool True),
      (ascii ''grim.rocm.kv_layout_optimized'', GBool True),
      (ascii ''grim.rocm.fusion_ops'', GArray [GString (ascii ''qkv_attention'')])])"

definition inject_keys :: "u8 list \<Rightarrow> gguf_metadata \<Rightarrow> gguf_metadata" where
  "inject_keys gcn m = fold (\<lambda>(k, v) m. AList.update k v m) (grim_keys gcn) m"

definition write_entry :: "u8 list \<times> gguf_value \<Rightarrow> u8 list" where
  "write_entry kv = write_gguf_string (fst kv) @ write_gguf_value (snd kv)"

definition write_tensor_info :: "tensor_info \<Rightarrow> u8 list" where
  "write_tensor_info t = write_gguf_string (ti_name t)
     @ le_bytes 4 (of_nat (length (ti_dims t)) :: u32) @ concat (map (le_bytes 8) (ti_dims t))
     @ le_bytes 4 (discriminant (ti_dtype t)) @ le_bytes 8 (ti_offset t)"

definition checked_add :: "nat \<Rightarrow> nat \<Rightarrow> nat option" where
  "checked_add a b = (if a + b < 2 ^ 64 then Some (a + b) else None)"

text \<open>The 32-byte aligned offsets of the tensors; \<open>None\<close> when the running offset overflows.\<close>

fun align_offsets :: "nat \<Rightarrow> tensor_info list \<Rightarrow> tensor_info list option" where
  "align_offsets current [] = Some []"
| "align_offsets current (t # ts) =
     (case checked_add current ((32 - current mod 32) mod 32) of None \<Rightarrow> None
      | Some offset \<Rightarrow> (case checked_add offset (ti_size t) of None \<Rightarrow> None
         | Some next_offset \<Rightarrow> map_option (\<lambda>us. t\<lparr>ti_offset := of_nat offset\<rparr> # us) (align_offsets next_offset ts)))"

definition convert_header :: "gguf_metadata \<Rightarrow> tensor_info list \<Rightarrow> u8 list" where
  "convert_header m ts = le_bytes 4 GGUF_MAGIC @ le_bytes 4 GGUF_VERSION
     @ le_bytes 8 (of_nat (length ts) :: u64) @ le_bytes 8 (of_nat (length m) :: u64)
     @ concat (map write_entry m) @ concat (map write_tensor_info ts)"

fun write_payloads :: "(tensor_info \<Rightarrow> (read_error, u8 list) outcome) \<Rightarrow> nat
    \<Rightarrow> (tensor_info \<times> tensor_info) list \<Rightarrow> u8 list \<Rightarrow> (read_error, u8 list) outcome" where
  "write_payloads source base [] out = Ok out"
| "write_payloads source base ((t, aligned) # ts) out =
     (case checked_add base (unat (ti_offset aligned)) of None \<Rightarrow> Panic
      | Some target \<Rightarrow>
         let out' = out @ replicate (target - length out) 0 in
         (case source t of
            Ok bytes \<Rightarrow> write_payloads source base ts (out' @ bytes)
          | Err e \<Rightarrow> Err e | Panic \<Rightarrow> Panic | Hang \<Rightarrow> Hang))"

definition convert_gguf_to_grim :: "u8 list \<Rightarrow> u8 list \<Rightarrow> (read_error, u8 list) outcome" where
  "convert_gguf_to_grim file gcn = (case read_gguf file of
     Ok g \<Rightarrow>
       (case align_offsets 0 (gf_tensors g) of None \<Rightarrow> Panic
        | Some aligned \<Rightarrow>
           let header = convert_header (inject_keys gcn (gf_metadata g)) aligned in
           (case round_up (length header) 31 of None \<Rightarrow> Panic
            | Some base \<Rightarrow> write_payloads (read_tensor_bytes file g) base (zip (gf_tensors g) aligned)
                (header @ replicate (base - length header) 0)))
   | Err e \<Rightarrow> Err e | Panic \<Rightarrow> Panic | Hang \<Rightarrow> Hang)"

end
