(* ===== verification/GgufConvert.thy ===== *)
theory GgufConvert
  imports GgufLaws
begin

text \<open>
  The converted file as its readers see it: its header reads back as the injected metadata and the
  realigned tensor table, and each payload stands where the table says.
\<close>

section \<open>Headers\<close>

lemma update_fresh_append: "k \<notin> fst ` set m \<Longrightarrow> AList.update k v m = m @ [(k, v)]"
  by (induction m) auto

lemma fold_update_append:
  "distinct (map fst (m @ kvs)) \<Longrightarrow> fold (\<lambda>(k, v) m. AList.update k v m) kvs m = m @ kvs"
proof (induction kvs arbitrary: m)
  case (Cons kv kvs)
  then have "fst kv \<notin> fst ` set m" by auto
  then have "AList.update (fst kv) (snd kv) m = m @ [kv]" by (simp add: update_fresh_append)
  then show ?case using Cons by (simp add: case_prod_beta)
qed simp

lemma fold_update_distinct:
  "distinct (map fst m) \<Longrightarrow> distinct (map fst (fold (\<lambda>(k, v) m. AList.update k v m) kvs m))"
  by (induction kvs arbitrary: m) (auto simp: AList.distinct_update)

lemma set_update_subset: "set (AList.update k v m) \<subseteq> insert (k, v) (set m)"
  by (induction m) auto

lemma fold_update_subset: "set (fold (\<lambda>(k, v) m. AList.update k v m) kvs m) \<subseteq> set kvs \<union> set m"
proof (induction kvs arbitrary: m)
  case (Cons kv kvs)
  then show ?case using set_update_subset [of "fst kv" "snd kv" m] by (fastforce simp: case_prod_beta)
qed simp

lemma map_of_fold_update:
  "k \<notin> fst ` set kvs \<Longrightarrow> map_of (fold (\<lambda>(k, v) m. AList.update k v m) kvs m) k = map_of m k"
  by (induction kvs arbitrary: m) (auto simp: map_of_update_eq)

lemma ascii_valid: "\<forall>c \<in> set t. of_char c < (128 :: nat) \<Longrightarrow> valid_utf8 (ascii t)"
proof (rule valid_utf8_ascii)
  assume a: "\<forall>c \<in> set t. of_char c < (128 :: nat)"
  have "(of_nat n :: u8) < 128" if "n < 128" for n :: nat
    using that by (simp add: word_less_nat_alt unat_of_nat)
  then show "\<forall>b \<in> set (ascii t). b < 128" using a by (auto simp: ascii_def)
qed

lemma length_ascii [simp]: "length (ascii t) = length t"
  by (simp add: ascii_def)

lemma good_ascii: "\<forall>c \<in> set t. of_char c < (128 :: nat) \<Longrightarrow> length t \<le> MAX_STRING \<Longrightarrow> good_string (ascii t)"
  by (simp add: good_string_def ascii_valid)

lemma grim_keys_good: "good_string gcn \<Longrightarrow> \<forall>kv \<in> set (grim_keys gcn). good_entry kv"
  by (cases "gcn_to_profile gcn")
    (simp_all add: grim_keys_def Let_def good_entry_def good_ascii ascii_valid MAX_STRING_def
      MAX_NESTING_def MAX_ARRAY_def good_string_def)

lemma read_converted_header:
  assumes "\<forall>kv \<in> set m. good_entry kv" and "\<forall>t \<in> set ts. good_info t" and "distinct (map fst m)"
    and "length m \<le> MAX_ENTRIES" and "length ts \<le> MAX_ENTRIES"
    and d: "data_start_of m (length (convert_header m ts)) = Some d"
  shows "read_gguf (convert_header m ts @ rest) = Ok \<lparr>gf_version = GGUF_VERSION,
    gf_tensor_count = of_nat (length ts), gf_metadata = m, gf_tensors = ts, gf_data_start = d\<rparr>"
proof -
  have n: "unat (of_nat (length m) :: u64) = length m" "unat (of_nat (length ts) :: u64) = length ts"
    using assms(4,5) by (auto intro!: unat_of_length simp: MAX_ENTRIES_def)
  have k: "read_times (length m) read_entry (concat (map write_entry m) @ s) = (Ok m, s)" for s
    using assms(1) by (rule gguf_entry.get_all)
  have t: "read_times (length ts) read_tensor_info (concat (map write_tensor_info ts) @ s) = (Ok ts, s)" for s
    using assms(2) by (rule gguf_tensor.get_all)
  have c: "collect_metadata m = m"
    using fold_update_append [of "[]" m] assms(3) by (simp add: collect_metadata_def)
  have p: "length (convert_header m ts @ rest) - length rest = length (convert_header m ts)" by simp
  show ?thesis
    using d unfolding p [symmetric] unfolding read_gguf_def
    by (simp add: convert_header_def n k t c assms(4,5) not_less GGUF_VERSION_def)
qed

section \<open>The tensor table\<close>

lemma tensor_size_expected:
  assumes "good_info t"
  shows "(case expected_tensor_bytes (ti_dtype t) (ti_dims t) of None \<Rightarrow> ti_size t | Some n \<Rightarrow> n) = ti_size t"
  using assms
  by (auto simp: good_info_def tensor_size_def expected_tensor_bytes_def split: option.splits if_splits)

lemma read_tensor_bytes_good:
  assumes "good_info t"
  shows "read_tensor_bytes file g t = Ok bs \<longleftrightarrow>
    gf_data_start g + unat (ti_offset t) + ti_size t < 2 ^ 64
    \<and> gf_data_start g + unat (ti_offset t) + ti_size t \<le> length file
    \<and> bs = take (ti_size t) (drop (gf_data_start g + unat (ti_offset t)) file)"
  by (auto simp: read_tensor_bytes_def Let_def tensor_size_expected [OF assms])

lemma good_info_offset [simp]: "good_info (t\<lparr>ti_offset := w\<rparr>) = good_info t"
  by (simp add: good_info_def)

lemma pad_to_32: "((c :: nat) + (32 - c mod 32) mod 32) mod 32 = 0"
proof (cases "c mod 32 = 0")
  case False
  define q r where "q = c div 32" and "r = c mod 32"
  have "c = 32 * q + r" "r < 32" by (simp_all add: q_def r_def)
  then have "c + (32 - r) = 32 * (q + 1)" by simp
  then have "c + (32 - c mod 32) = 32 * (q + 1)" by (simp add: r_def)
  then have "(c + (32 - c mod 32)) mod 32 = 0" by (metis mod_mult_self1_is_0)
  moreover have "(32 - c mod 32) mod 32 = 32 - c mod 32" using False by simp
  ultimately show ?thesis by simp
qed simp

lemma align_offsets_ConsE:
  assumes "align_offsets current (t # ts) = Some as"
  obtains offset us where "current \<le> offset" "offset + ti_size t < 2 ^ 64" "offset mod 32 = 0"
    "align_offsets (offset + ti_size t) ts = Some us" "as = t\<lparr>ti_offset := of_nat offset\<rparr> # us"
proof -
  let ?o = "current + (32 - current mod 32) mod 32"
  have b: "?o + ti_size t < 2 ^ 64" and us: "\<exists>us. align_offsets (?o + ti_size t) ts = Some us
      \<and> as = t\<lparr>ti_offset := of_nat ?o\<rparr> # us"
    using assms by (auto simp: checked_add_def split: option.splits if_splits)
  show ?thesis using us that [OF _ b pad_to_32] by auto
qed

declare align_offsets.simps(2) [simp del]

lemma align_offsets_same:
  "align_offsets current ts = Some as \<Longrightarrow>
     list_all2 (\<lambda>t a. \<exists>w. a = t\<lparr>ti_offset := w\<rparr>) ts as"
proof (induction ts arbitrary: current as)
  case (Cons t ts)
  from Cons.prems show ?case by (rule align_offsets_ConsE) (use Cons.IH in auto)
qed simp

section \<open>Payloads\<close>

lemma write_payloads_spec:
  assumes "align_offsets current ts = Some as" and "write_payloads source base (zip ts as) out = Ok res"
    and "length out \<le> base + current" and "\<forall>t \<in> set ts. \<forall>bs. source t = Ok bs \<longrightarrow> length bs = ti_size t"
  shows "(\<exists>suf. res = out @ suf) \<and> (\<forall>i < length ts.
    base + unat (ti_offset (as ! i)) + ti_size (ts ! i) \<le> length res
    \<and> source (ts ! i) = Ok (take (ti_size (ts ! i)) (drop (base + unat (ti_offset (as ! i))) res)))"
  using assms
proof (induction ts arbitrary: current as out)
  case (Cons t ts)
  obtain offset us where o: "current \<le> offset" "offset + ti_size t < 2 ^ 64"
    and us: "align_offsets (offset + ti_size t) ts = Some us" and as: "as = t\<lparr>ti_offset := of_nat offset\<rparr> # us"
    using Cons.prems(1) by (rule align_offsets_ConsE)
  have off: "unat (of_nat offset :: u64) = offset" using o(2) by (intro unat_of_length) simp
  define out' where "out' = out @ replicate (base + offset - length out) 0"
  obtain bs where bs: "source t = Ok bs" and w: "write_payloads source base (zip ts us) (out' @ bs) = Ok res"
    using Cons.prems(2) off
    by (auto simp: as checked_add_def out'_def Let_def split: outcome.splits if_splits)
  have len: "length bs = ti_size t" "length out' = base + offset"
    using Cons.prems(3,4) bs o(1) by (simp_all add: out'_def)
  have IH: "(\<exists>suf. res = (out' @ bs) @ suf) \<and> (\<forall>i < length ts.
      base + unat (ti_offset (us ! i)) + ti_size (ts ! i) \<le> length res
      \<and> source (ts ! i) = Ok (take (ti_size (ts ! i)) (drop (base + unat (ti_offset (us ! i))) res)))"
    using us w by (rule Cons.IH) (use len Cons.prems(4) in auto)
  then obtain suf where res: "res = out' @ bs @ suf" by auto
  have "base + offset + ti_size t \<le> length res"
    "source t = Ok (take (ti_size t) (drop (base + offset) res))"
    using len bs by (simp_all add: res)
  then have "\<forall>i < length (t # ts). base + unat (ti_offset (as ! i)) + ti_size ((t # ts) ! i) \<le> length res
      \<and> source ((t # ts) ! i) = Ok (take (ti_size ((t # ts) ! i)) (drop (base + unat (ti_offset (as ! i))) res))"
    using IH off by (simp add: as All_less_Suc2)
  then show ?case using res by (auto simp: out'_def)
qed simp

section \<open>Alignment\<close>

lemma split_mask: "(x :: 'a::len word) = (x AND NOT m) + (x AND m)"
proof -
  have "(x AND NOT m) + (x AND m) = (x AND NOT m) OR (x AND m)"
    by (rule disjunctive_add_eq_or) (auto intro: bit_word_eqI simp: bit_simps)
  also have "\<dots> = x" by (rule bit_word_eqI) (auto simp: bit_simps)
  finally show ?thesis by simp
qed

lemma round_up_ge:
  assumes "round_up pos m = Some b"
  shows "pos \<le> b"
proof -
  define x where "x = (of_nat (pos + unat m) :: u64)"
  have b: "b = unat (x AND NOT m)" "pos + unat m < 2 ^ 64"
    using assms by (simp_all add: round_up_def x_def split: if_splits)
  have "unat x = pos + unat m" using b(2) unat_of_length [of "pos + unat m"] by (simp add: x_def)
  moreover have "unat x \<le> unat (x AND NOT m) + unat (x AND m)"
    using split_mask [of x m] by (metis mod_less_eq_dividend unat_word_ariths(1))
  moreover have "unat (x AND m) \<le> unat m" by (simp add: word_le_nat_alt [symmetric] word_and_le1)
  ultimately show ?thesis using b(1) by linarith
qed

lemma alignment_injected: "alignment (inject_keys gcn m) = alignment m"
proof -
  have "ascii ''general.alignment'' \<notin> fst ` set (grim_keys gcn)"
    by (simp add: grim_keys_def Let_def ascii_def)
  then show ?thesis by (simp add: alignment_def inject_keys_def map_of_fold_update)
qed

lemma read_gguf_good:
  assumes "read_gguf file = Ok g"
  shows "(\<forall>kv \<in> set (gf_metadata g). good_entry kv) \<and> (\<forall>t \<in> set (gf_tensors g). good_info t)
    \<and> distinct (map fst (gf_metadata g)) \<and> length (gf_tensors g) \<le> MAX_ENTRIES"
proof -
  obtain kvs s1 s2 n tensors s3 where kvs: "read_times s1 read_entry s2 = (Ok kvs, s3)"
    and ts: "unat (n :: u64) \<le> MAX_ENTRIES" "\<exists>s s'. read_times (unat n) read_tensor_info s = (Ok tensors, s')"
    and g: "gf_metadata g = collect_metadata kvs" "gf_tensors g = tensors"
  proof -
    have *: "fst p = Ok g \<longleftrightarrow> (\<exists>s. p = (Ok g, s))" for p :: "(read_error, gguf_file) outcome \<times> u8 list"
      by (cases p) auto
    show thesis using assms that
      by (auto simp: read_gguf_def * and_then_Ok_iff not_less split: if_splits option.splits; blast)
  qed
  have "\<forall>kv \<in> set kvs. good_entry kv" using kvs by (rule read_times_all) (rule read_entry_good)
  then have "\<forall>kv \<in> set (gf_metadata g). good_entry kv"
    using fold_update_subset [of kvs "[]"] by (auto simp: g collect_metadata_def)
  moreover have "\<forall>t \<in> set tensors. good_info t"
    using ts(2) read_times_all [where P = good_info] read_info_good by blast
  moreover have "length tensors = unat n" using ts(2) read_times_length by blast
  ultimately show ?thesis using ts(1) fold_update_distinct [of "[]" kvs]
    by (simp add: g collect_metadata_def)
qed

section \<open>Conversion\<close>

lemma aligned_infos_good:
  assumes "list_all2 (\<lambda>t a. \<exists>w. a = t\<lparr>ti_offset := w\<rparr>) ts as" and "\<forall>t \<in> set ts. good_info t"
  shows "\<forall>t \<in> set as. good_info t"
  using assms by (induction rule: list_all2_induct) auto

lemma aligned_payloads:
  assumes "list_all2 (\<lambda>t a. \<exists>w. a = t\<lparr>ti_offset := w\<rparr>) ts as" and "\<forall>t \<in> set ts. good_info t"
    and "length out < 2 ^ 64" and "\<forall>i < length ts.
      gf_data_start g' + unat (ti_offset (as ! i)) + ti_size (ts ! i) \<le> length out
      \<and> src (ts ! i) = Ok (take (ti_size (ts ! i)) (drop (gf_data_start g' + unat (ti_offset (as ! i))) out))"
  shows "list_all2 (\<lambda>t t'. t' = t\<lparr>ti_offset := ti_offset t'\<rparr>
      \<and> (\<exists>bs. src t = Ok bs \<and> read_tensor_bytes out g' t' = Ok bs)) ts as"
proof (rule list_all2_all_nthI)
  fix i assume i: "i < length ts"
  obtain v where v: "as ! i = (ts ! i)\<lparr>ti_offset := v\<rparr>"
    using list_all2_nthD [OF assms(1) i] by auto
  have good: "good_info (as ! i)" using assms(2) i v by simp
  have p: "gf_data_start g' + unat v + ti_size (ts ! i) \<le> length out"
    "src (ts ! i) = Ok (take (ti_size (ts ! i)) (drop (gf_data_start g' + unat v) out))"
    using assms(4) i v by auto
  have "read_tensor_bytes out g' (as ! i)
      = Ok (take (ti_size (ts ! i)) (drop (gf_data_start g' + unat v) out))"
    unfolding read_tensor_bytes_good [OF good] using p(1) assms(3) by (simp add: v)
  then show "as ! i = (ts ! i)\<lparr>ti_offset := ti_offset (as ! i)\<rparr>
    \<and> (\<exists>bs. src (ts ! i) = Ok bs \<and> read_tensor_bytes out g' (as ! i) = Ok bs)"
    using p(2) v by simp
qed (use assms(1) in \<open>simp add: list_all2_lengthD\<close>)

lemma converted_file:
  assumes g: "read_gguf file = Ok g" and c: "convert_gguf_to_grim file gcn = Ok out"
    and a: "alignment (gf_metadata g) = 32" and gcn: "good_string gcn"
    and n: "length (inject_keys gcn (gf_metadata g)) \<le> MAX_ENTRIES" and len: "length out < 2 ^ 64"
  shows "\<exists>g'. read_gguf out = Ok g' \<and> gf_metadata g' = inject_keys gcn (gf_metadata g)
    \<and> list_all2 (\<lambda>t t'. t' = t\<lparr>ti_offset := ti_offset t'\<rparr>
        \<and> (\<exists>bs. read_tensor_bytes file g t = Ok bs \<and> read_tensor_bytes out g' t' = Ok bs))
      (gf_tensors g) (gf_tensors g')"
proof -
  let ?m = "inject_keys gcn (gf_metadata g)" and ?ts = "gf_tensors g" and ?src = "read_tensor_bytes file g"
  obtain as base where as: "align_offsets 0 ?ts = Some as"
    and base: "round_up (length (convert_header ?m as)) 31 = Some base"
    and w: "write_payloads ?src base (zip ?ts as)
      (convert_header ?m as @ replicate (base - length (convert_header ?m as)) 0) = Ok out"
    using c by (auto simp: convert_gguf_to_grim_def g Let_def split: option.splits)
  have same: "list_all2 (\<lambda>t a. \<exists>w. a = t\<lparr>ti_offset := w\<rparr>) ?ts as" using as by (rule align_offsets_same)
  note G = read_gguf_good [OF g]
  have ge: "length (convert_header ?m as) \<le> base" using base by (rule round_up_ge)
  have size: "\<forall>t \<in> set ?ts. \<forall>bs. ?src t = Ok bs \<longrightarrow> length bs = ti_size t"
    using G by (auto simp: read_tensor_bytes_good)
  have P: "(\<exists>suf. out = (convert_header ?m as @ replicate (base - length (convert_header ?m as)) 0) @ suf)
      \<and> (\<forall>i < length ?ts. base + unat (ti_offset (as ! i)) + ti_size (?ts ! i) \<le> length out
        \<and> ?src (?ts ! i) = Ok (take (ti_size (?ts ! i)) (drop (base + unat (ti_offset (as ! i))) out)))"
    using as w _ size by (rule write_payloads_spec) (use ge in simp)
  then obtain suf where out: "out = convert_header ?m as @ suf" by auto
  have len_as: "length as = length ?ts" using same by (simp add: list_all2_lengthD)
  have kvs: "\<forall>kv \<in> set ?m. good_entry kv"
    using G grim_keys_good [OF gcn] fold_update_subset [of "grim_keys gcn" "gf_metadata g"]
    by (auto simp: inject_keys_def)
  have infos: "\<forall>t \<in> set as. good_info t" using aligned_infos_good [OF same] G by blast
  have keys: "distinct (map fst ?m)" using G by (simp add: inject_keys_def fold_update_distinct)
  have d: "data_start_of ?m (length (convert_header ?m as)) = Some base"
    using base a by (simp add: data_start_of_def alignment_injected Let_def)
  define g' where "g' = \<lparr>gf_version = GGUF_VERSION, gf_tensor_count = of_nat (length as), gf_metadata = ?m,
    gf_tensors = as, gf_data_start = base\<rparr>"
  have r: "read_gguf out = Ok g'" unfolding out g'_def
    by (rule read_converted_header) (use kvs infos keys n G len_as d in auto)
  have "list_all2 (\<lambda>t t'. t' = t\<lparr>ti_offset := ti_offset t'\<rparr>
      \<and> (\<exists>bs. ?src t = Ok bs \<and> read_tensor_bytes out g' t' = Ok bs)) ?ts as"
    using same by (rule aligned_payloads) (use P G len in \<open>auto simp: g'_def\<close>)
  then show ?thesis using r by (auto simp: g'_def)
qed

end
