(* ===== verification/GgufSpans.thy ===== *)
theory GgufSpans
  imports GgufTypes
begin

text \<open>
  What the detector of contradicting types decides: without a report no tensor's declared bytes run
  into another tensor or past the data, and every report is about one that does.
\<close>

definition start_of :: "tensor_info \<Rightarrow> nat" where
  "start_of t = unat (ti_offset t)"

definition declared_bytes :: "tensor_info \<Rightarrow> nat option" where
  "declared_bytes t = expected_tensor_bytes (ti_dtype t) (ti_dims t)"

definition clear_of :: "tensor_info \<Rightarrow> nat \<Rightarrow> bool" where
  "clear_of t limit \<longleftrightarrow> (\<forall>e. declared_bytes t = Some e \<longrightarrow> start_of t + e \<le> limit)"

lemma clear_of_mono: "clear_of t a \<Longrightarrow> a \<le> b \<Longrightarrow> clear_of t b"
  by (auto simp: clear_of_def)

lemma contradicts_None:
  "start_of t \<le> limit \<Longrightarrow> contradicts t limit = None \<longleftrightarrow> clear_of t limit"
  by (auto simp: contradicts_def clear_of_def start_of_def declared_bytes_def Let_def
      split: option.splits if_splits)

definition next_start :: "tensor_info list \<Rightarrow> nat \<Rightarrow> nat" where
  "next_start ts data_len = (case ts of [] \<Rightarrow> data_len | u # _ \<Rightarrow> start_of u)"

lemma scan_spans_Cons:
  "scan_spans (t # ts) n = (case contradicts t (next_start ts n) of None \<Rightarrow> [] | Some c \<Rightarrow> [c]) @ scan_spans ts n"
  by (simp add: next_start_def start_of_def Let_def cong: list.case_cong)

declare scan_spans.simps(2) [simp del]

lemma scan_spans_clear:
  assumes "sorted (map start_of ts)" and "\<forall>t \<in> set ts. start_of t \<le> n" and "scan_spans ts n = []"
  shows "sorted_wrt (\<lambda>t u. clear_of t (start_of u)) ts \<and> (\<forall>t \<in> set ts. clear_of t n)"
  using assms
proof (induction ts)
  case (Cons t ts)
  have IH: "sorted_wrt (\<lambda>t u. clear_of t (start_of u)) ts" "\<forall>t \<in> set ts. clear_of t n"
    using Cons by (simp_all add: scan_spans_Cons)
  have b: "start_of t \<le> next_start ts n" "next_start ts n \<le> n"
    "\<forall>u \<in> set ts. next_start ts n \<le> start_of u"
    using Cons.prems(1,2) by (auto simp: next_start_def split: list.splits)
  have "contradicts t (next_start ts n) = None"
    using Cons.prems(3) by (simp add: scan_spans_Cons split: option.splits)
  then have "clear_of t (next_start ts n)" using contradicts_None [OF b(1)] by simp
  then show ?case using IH b by (auto intro: clear_of_mono)
qed simp

lemma sorted_by_start: "sorted (map start_of (sort_key ti_offset ts))"
proof -
  have "sorted (map ti_offset (sort_key ti_offset ts))" by (rule sorted_sort_key)
  then show ?thesis
    by (simp add: sorted_map start_of_def word_le_nat_alt)
qed

lemma no_contradiction:
  assumes "dtype_contradictions ts n = []" and "\<forall>t \<in> set ts. start_of t \<le> n"
    and "t \<in> set ts" and "u \<in> set ts" and "t \<noteq> u"
  shows "clear_of t n \<and> (clear_of t (start_of u) \<or> clear_of u (start_of t))"
proof -
  let ?ss = "sort_key ti_offset ts"
  have S: "sorted_wrt (\<lambda>t u. clear_of t (start_of u)) ?ss" "\<forall>t \<in> set ?ss. clear_of t n"
    using scan_spans_clear [OF sorted_by_start, of ts n] assms(1,2) by (simp_all add: dtype_contradictions_def)
  obtain i j where i: "i < length ?ss" "?ss ! i = t" and j: "j < length ?ss" "?ss ! j = u"
    using assms(3,4) by (metis in_set_conv_nth set_sort)
  have "i \<noteq> j" using i j assms(5) by auto
  then consider "i < j" | "j < i" by linarith
  then show ?thesis
  proof cases
    case 1
    then show ?thesis using S sorted_wrt_nth_less [OF S(1) 1 j(1)] i j assms(3) by simp
  next
    case 2
    then show ?thesis using S sorted_wrt_nth_less [OF S(1) 2 i(1)] i j assms(3) by simp
  qed
qed

lemma contradicts_Some:
  assumes "contradicts t limit = Some c"
  shows "dc_name c = ti_name t \<and> dc_declared c = ti_dtype t \<and> declared_bytes t = Some (dc_expected c)
    \<and> start_of t + dc_actual c = limit \<and> dc_actual c < dc_expected c
    \<and> (\<forall>d \<in> set (dc_candidates c). expected_tensor_bytes d (ti_dims t) = Some (dc_actual c))"
  using assms
  by (auto simp: contradicts_def declared_bytes_def start_of_def fits_span_def Let_def
      split: option.splits if_splits)

lemma scan_spans_reports:
  "c \<in> set (scan_spans ts n) \<Longrightarrow>
     \<exists>t \<in> set ts. \<exists>limit. contradicts t limit = Some c \<and> (limit = n \<or> (\<exists>u \<in> set ts. limit = start_of u))"
proof (induction ts)
  case (Cons t ts)
  show ?case
  proof (cases "c \<in> set (scan_spans ts n)")
    case False
    then have "contradicts t (next_start ts n) = Some c"
      using Cons.prems by (auto simp: scan_spans_Cons split: option.splits)
    then show ?thesis by (force simp: next_start_def split: list.splits)
  qed (use Cons.IH in auto)
qed simp

lemma reported_contradiction:
  assumes "c \<in> set (dtype_contradictions ts n)"
  shows "\<exists>t \<in> set ts. dc_name c = ti_name t \<and> dc_declared c = ti_dtype t
    \<and> declared_bytes t = Some (dc_expected c) \<and> dc_actual c < dc_expected c
    \<and> (start_of t + dc_actual c = n \<or> (\<exists>u \<in> set ts. start_of t + dc_actual c = start_of u))
    \<and> (\<forall>d \<in> set (dc_candidates c). expected_tensor_bytes d (ti_dims t) = Some (dc_actual c))"
proof -
  obtain t limit where t: "t \<in> set ts" and c: "contradicts t limit = Some c"
    and l: "limit = n \<or> (\<exists>u \<in> set ts. limit = start_of u)"
    using scan_spans_reports [OF assms [unfolded dtype_contradictions_def]] by auto
  show ?thesis using contradicts_Some [OF c] t l by (intro bexI [of _ t]) auto
qed

end
