(* ===== verification/TensorStorage.thy ===== *)
theory TensorStorage
  imports GgufTypes
begin

text \<open>
  How tensors are held once loaded (\<open>crates/grim-tensor/src/dtype.rs\<close>): arithmetic and storage types,
  the byte size each storage takes, the formats the device quantizers know, and the mapping of GGUF
  types onto storages (\<open>gguf.rs\<close>). A configuration that the byte size does not depend on is left out
  of its constructor; the message an unsupported format carries for the user is not kept.
\<close>

section \<open>Storage\<close>

datatype arith_type = AF32 | AF16 | ABF16 | AI64 | AU32 | AU8

fun arith_byte_size :: "arith_type \<Rightarrow> nat" where
  "arith_byte_size AF32 = 4"
| "arith_byte_size AU32 = 4"
| "arith_byte_size AF16 = 2"
| "arith_byte_size ABF16 = 2"
| "arith_byte_size AU8 = 1"
| "arith_byte_size AI64 = 8"

datatype kquant_scheme =
    KQ_Q2K | KQ_Q3K | KQ_Q4K | KQ_Q5K | KQ_Q6K | KQ_Q80 | KQ_IQ4NL | KQ_IQ4XS | KQ_IQ3XXS |
    KQ_IQ3S | KQ_IQ2XXS | KQ_IQ2XS | KQ_IQ2S | KQ_Q2_0 | KQ_GsqRco3p5 | KQ_IQ1S | KQ_IQ1M

datatype float_pack_scheme =
    FP_Fp4 | FP_Nf4 | FP_Fp8 | FP_Fp8Blocked16 | FP_TreePie | FP_MxFp4 | FP_MxFp8 | FP_NvFp4 |
    FP_NutFp4

datatype block_dtype =
    BD_Fp4 | BD_Nf4 | BD_Fp8 | BD_Q4_0 | BD_Q4_1 | BD_Fp4Block16 | BD_Fp8Block16 |
    BD_Fp8Block128 | BD_Fp8Sparse24 | BD_Int8PerChannel | BD_Fp8Sparse24Hw | BD_Pq2_0

record unsupported_format =
  uf_name :: string
  uf_block_size :: "nat option"
  uf_bytes_per_block :: "nat option"

datatype storage =
    Native
  | KQuant kquant_scheme
  | GroupInt
  | FloatPack float_pack_scheme
  | Block block_dtype
  | ResidualPacked nat
  | W8A8Mxfp8 | CompressedTensorsW8A8Int8 | CompressedTensorsW8A8Fp8
  | W4A16 nat
  | WNA16 | EmbeddingWNA16Int | Awq
  | W4A4OstQuant nat
  | Unsupported unsupported_format

record tensor_dtype =
  dt_arith :: arith_type
  dt_storage :: storage

abbreviation tdtype :: "arith_type \<Rightarrow> storage \<Rightarrow> tensor_dtype" where
  "tdtype a s \<equiv> \<lparr>dt_arith = a, dt_storage = s\<rparr>"

definition dtype_is_quantized :: "tensor_dtype \<Rightarrow> bool" where
  "dtype_is_quantized d \<longleftrightarrow> dt_storage d \<noteq> Native"

section \<open>Byte sizes\<close>

fun kquant_bytes :: "kquant_scheme \<Rightarrow> nat \<Rightarrow> nat" where
  "kquant_bytes KQ_Q80 n = div_ceil n 32 * 34"
| "kquant_bytes KQ_Q4K n = div_ceil n 256 * 144"
| "kquant_bytes KQ_Q5K n = div_ceil n 256 * 176"
| "kquant_bytes KQ_Q6K n = div_ceil n 256 * 210"
| "kquant_bytes KQ_Q2K n = div_ceil n 256 * 84"
| "kquant_bytes KQ_Q3K n = div_ceil n 256 * 110"
| "kquant_bytes KQ_IQ4NL n = div_ceil n 32 * 18"
| "kquant_bytes KQ_IQ4XS n = div_ceil n 32 * 18"
| "kquant_bytes KQ_IQ3XXS n = div_ceil n 256 * 98"
| "kquant_bytes KQ_IQ3S n = div_ceil n 256 * 110"
| "kquant_bytes KQ_IQ2XXS n = div_ceil n 256 * 66"
| "kquant_bytes KQ_IQ2XS n = div_ceil n 256 * 74"
| "kquant_bytes KQ_IQ2S n = div_ceil n 256 * 82"
| "kquant_bytes KQ_Q2_0 n = div_ceil n 64 * 18"
| "kquant_bytes KQ_GsqRco3p5 n = div_ceil n 64 * 18"
| "kquant_bytes KQ_IQ1S n = div_ceil n 256 * 50"
| "kquant_bytes KQ_IQ1M n = div_ceil n 256 * 56"

fun float_pack_bytes :: "float_pack_scheme \<Rightarrow> nat \<Rightarrow> nat" where
  "float_pack_bytes FP_Fp4 n = div_ceil n 2"
| "float_pack_bytes FP_Nf4 n = div_ceil n 2"
| "float_pack_bytes FP_Fp8 n = n"
| "float_pack_bytes FP_Fp8Blocked16 n = n"
| "float_pack_bytes FP_TreePie n = div_ceil n 32 * 5 * 4"
| "float_pack_bytes FP_MxFp4 n = div_ceil n 2 + div_ceil n 32"
| "float_pack_bytes FP_MxFp8 n = n + div_ceil n 32"
| "float_pack_bytes FP_NvFp4 n = div_ceil n 2 + div_ceil n 16"
| "float_pack_bytes FP_NutFp4 n = div_ceil n 2 + div_ceil n 16"

fun block_bytes :: "block_dtype \<Rightarrow> nat \<Rightarrow> nat" where
  "block_bytes BD_Fp4 n = div_ceil n 2"
| "block_bytes BD_Nf4 n = div_ceil n 2"
| "block_bytes BD_Fp8 n = n"
| "block_bytes BD_Q4_0 n = div_ceil n 32 * 18"
| "block_bytes BD_Q4_1 n = div_ceil n 32 * 20"
| "block_bytes BD_Fp4Block16 n = div_ceil n 2 + div_ceil n 16 * 2"
| "block_bytes BD_Fp8Block16 n = n + div_ceil n 16 * 2"
| "block_bytes BD_Fp8Block128 n = n"
| "block_bytes BD_Fp8Sparse24 n = (let groups = div_ceil n 4 in groups * 2 + div_ceil (groups * 3) 8)"
| "block_bytes BD_Int8PerChannel n = n"
| "block_bytes BD_Fp8Sparse24Hw n = div_ceil n 512 * 260"
| "block_bytes BD_Pq2_0 n = div_ceil n 128 * 34"

fun storage_bytes :: "arith_type \<Rightarrow> storage \<Rightarrow> nat \<Rightarrow> nat" where
  "storage_bytes a Native n = n * arith_byte_size a"
| "storage_bytes a (W4A16 g) n = div_ceil n 2 + div_ceil n (max g 1) * 4"
| "storage_bytes a (KQuant k) n = kquant_bytes k n"
| "storage_bytes a (FloatPack f) n = float_pack_bytes f n"
| "storage_bytes a (Block b) n = block_bytes b n"
| "storage_bytes a (ResidualPacked bpw) n = div_ceil (n * bpw) 8"
| "storage_bytes a (Unsupported u) n =
     (case (uf_block_size u, uf_bytes_per_block u) of
        (Some bs, Some bpb) \<Rightarrow> div_ceil n bs * bpb
      | _ \<Rightarrow> n * arith_byte_size a)"
| "storage_bytes a (W4A4OstQuant g) n =
     24 + div_ceil n 2 + div_ceil n (max g 1) * 2 + div_ceil n (max g 1)"
| "storage_bytes a _ n = n * arith_byte_size a"

definition expected_bytes :: "tensor_dtype \<Rightarrow> nat \<Rightarrow> nat" where
  "expected_bytes d n = storage_bytes (dt_arith d) (dt_storage d) n"

section \<open>Formats of the device quantizers\<close>

datatype quant_format =
    QF_Q8_0 | QF_Q2K | QF_Q3K | QF_TreePie | QF_Q4K | QF_Q5K | QF_Q6K | QF_Fp4 | QF_Nf4 |
    QF_Fp8 | QF_Fp4Block16 | QF_Fp8Block16 | QF_Fp8Block128 | QF_Fp8Sparse24 |
    QF_Fp8Blocked16 | QF_W4A4OstQuant | QF_W4A16 | QF_Int8PerChannel | QF_Fp8Sparse24Hw |
    QF_Iq4Nl | QF_Iq4Xs | QF_Iq3Xxs | QF_Iq3S | QF_Iq2Xxs | QF_Iq2Xs | QF_Iq2S | QF_Q2_0 |
    QF_GsqRco3p5 | QF_Iq1S | QF_Iq1M

fun storage_of_format :: "quant_format \<Rightarrow> storage" where
  "storage_of_format QF_Q8_0 = KQuant KQ_Q80"
| "storage_of_format QF_Q2_0 = KQuant KQ_Q2_0"
| "storage_of_format QF_Q2K = KQuant KQ_Q2K"
| "storage_of_format QF_Q3K = KQuant KQ_Q3K"
| "storage_of_format QF_Q4K = KQuant KQ_Q4K"
| "storage_of_format QF_Q5K = KQuant KQ_Q5K"
| "storage_of_format QF_Q6K = KQuant KQ_Q6K"
| "storage_of_format QF_Fp4 = FloatPack FP_Fp4"
| "storage_of_format QF_Nf4 = FloatPack FP_Nf4"
| "storage_of_format QF_Fp8 = FloatPack FP_Fp8"
| "storage_of_format QF_TreePie = FloatPack FP_TreePie"
| "storage_of_format QF_Fp4Block16 = Block BD_Fp4Block16"
| "storage_of_format QF_Fp8Blocked16 = FloatPack FP_Fp8Blocked16"
| "storage_of_format QF_W4A4OstQuant = W4A4OstQuant 128"
| "storage_of_format QF_W4A16 = W4A16 128"
| "storage_of_format QF_Int8PerChannel = Block BD_Int8PerChannel"
| "storage_of_format QF_Fp8Sparse24Hw = Block BD_Fp8Sparse24Hw"
| "storage_of_format QF_Fp8Block16 = Block BD_Fp8Block16"
| "storage_of_format QF_Fp8Block128 = Block BD_Fp8Block128"
| "storage_of_format QF_Fp8Sparse24 = Block BD_Fp8Sparse24"
| "storage_of_format QF_Iq4Nl = KQuant KQ_IQ4NL"
| "storage_of_format QF_Iq4Xs = KQuant KQ_IQ4XS"
| "storage_of_format QF_Iq3Xxs = KQuant KQ_IQ3XXS"
| "storage_of_format QF_Iq3S = KQuant KQ_IQ3S"
| "storage_of_format QF_Iq2Xxs = KQuant KQ_IQ2XXS"
| "storage_of_format QF_Iq2Xs = KQuant KQ_IQ2XS"
| "storage_of_format QF_Iq2S = KQuant KQ_IQ2S"
| "storage_of_format QF_GsqRco3p5 = KQuant KQ_GsqRco3p5"
| "storage_of_format QF_Iq1S = KQuant KQ_IQ1S"
| "storage_of_format QF_Iq1M = KQuant KQ_IQ1M"

fun format_of_storage :: "storage \<Rightarrow> quant_format option" where
  "format_of_storage (KQuant KQ_Q80) = Some QF_Q8_0"
| "format_of_storage (KQuant KQ_Q2K) = Some QF_Q2K"
| "format_of_storage (KQuant KQ_Q2_0) = Some QF_Q2_0"
| "format_of_storage (KQuant KQ_Q3K) = Some QF_Q3K"
| "format_of_storage (KQuant KQ_Q4K) = Some QF_Q4K"
| "format_of_storage (KQuant KQ_Q5K) = Some QF_Q5K"
| "format_of_storage (KQuant KQ_Q6K) = Some QF_Q6K"
| "format_of_storage (KQuant KQ_IQ4NL) = Some QF_Iq4Nl"
| "format_of_storage (KQuant KQ_IQ4XS) = Some QF_Iq4Xs"
| "format_of_storage (KQuant KQ_IQ3XXS) = Some QF_Iq3Xxs"
| "format_of_storage (KQuant KQ_IQ3S) = Some QF_Iq3S"
| "format_of_storage (KQuant KQ_IQ2XXS) = Some QF_Iq2Xxs"
| "format_of_storage (KQuant KQ_IQ2XS) = Some QF_Iq2Xs"
| "format_of_storage (KQuant KQ_IQ2S) = Some QF_Iq2S"
| "format_of_storage (KQuant KQ_IQ1S) = Some QF_Iq1S"
| "format_of_storage (KQuant KQ_IQ1M) = Some QF_Iq1M"
| "format_of_storage (KQuant KQ_GsqRco3p5) = Some QF_GsqRco3p5"
| "format_of_storage (FloatPack FP_Fp4) = Some QF_Fp4"
| "format_of_storage (FloatPack FP_Nf4) = Some QF_Nf4"
| "format_of_storage (FloatPack FP_Fp8) = Some QF_Fp8"
| "format_of_storage (FloatPack FP_TreePie) = Some QF_TreePie"
| "format_of_storage (FloatPack FP_Fp8Blocked16) = Some QF_Fp8Blocked16"
| "format_of_storage (Block BD_Fp4Block16) = Some QF_Fp4Block16"
| "format_of_storage (Block BD_Fp8Block16) = Some QF_Fp8Block16"
| "format_of_storage (Block BD_Fp8Block128) = Some QF_Fp8Block128"
| "format_of_storage (Block BD_Fp4) = Some QF_Fp4"
| "format_of_storage (Block BD_Nf4) = Some QF_Nf4"
| "format_of_storage (Block BD_Fp8) = Some QF_Fp8"
| "format_of_storage (Block BD_Fp8Sparse24) = Some QF_Fp8Sparse24"
| "format_of_storage (Block BD_Int8PerChannel) = Some QF_Int8PerChannel"
| "format_of_storage (Block BD_Fp8Sparse24Hw) = Some QF_Fp8Sparse24Hw"
| "format_of_storage (W4A4OstQuant _) = Some QF_W4A4OstQuant"
| "format_of_storage (W4A16 _) = Some QF_W4A16"
| "format_of_storage _ = None"

section \<open>GGUF types\<close>

fun display_name :: "gguf_dtype \<Rightarrow> string" where
  "display_name F32 = ''F32''"
| "display_name F16 = ''F16''"
| "display_name BF16 = ''BF16''"
| "display_name F64 = ''F64''"
| "display_name I8 = ''I8''"
| "display_name I16 = ''I16''"
| "display_name I32 = ''I32''"
| "display_name I64 = ''I64''"
| "display_name WhiteCrow = ''WhiteCrow''"
| "display_name Raven = ''Raven''"
| "display_name WhiteRaven = ''WhiteRaven''"
| "display_name GreyRaven = ''GreyRaven''"
| "display_name GreyRavenHw = ''GreyRavenHw''"
| "display_name ForestRaven = ''ForestRaven''"
| "display_name Q4_0 = ''Q4_0''"
| "display_name Q4_1 = ''Q4_1''"
| "display_name Q4_2 = ''Q4_2''"
| "display_name Q5_0 = ''Q5_0''"
| "display_name Q5_1 = ''Q5_1''"
| "display_name Q8_0 = ''Q8_0''"
| "display_name Q8_1 = ''Q8_1''"
| "display_name Q8_1Hx = ''Q8_1Hx''"
| "display_name Q2K = ''Q2_K''"
| "display_name Q3K = ''Q3_K''"
| "display_name Q4K = ''Q4_K''"
| "display_name Q5K = ''Q5_K''"
| "display_name Q6K = ''Q6_K''"
| "display_name Q8K = ''Q8_K''"
| "display_name IQ4_NL = ''IQ4_NL''"
| "display_name IQ4_XS = ''IQ4_XS''"
| "display_name IQ3_XXS = ''IQ3_XXS''"
| "display_name IQ3_S = ''IQ3_S''"
| "display_name IQ2_XXS = ''IQ2_XXS''"
| "display_name IQ2_XS = ''IQ2_XS''"
| "display_name IQ2_S = ''IQ2_S''"
| "display_name IQ1_S = ''IQ1_S''"
| "display_name IQ1_M = ''IQ1_M''"
| "display_name Q1_0 = ''Q1_0''"
| "display_name Q2_0 = ''Q2_0''"
| "display_name TQ1_0 = ''TQ1_0''"
| "display_name TQ2_0 = ''TQ2_0''"
| "display_name MXFP4 = ''MXFP4''"
| "display_name NVFP4 = ''NVFP4''"
| "display_name GsqRco3p5 = ''Q2_0''"
| "display_name PQ2_0 = ''PQ2_0''"
| "display_name PTQ1_0 = ''PTQ1_0''"

definition gguf_is_quantized :: "gguf_dtype \<Rightarrow> bool" where
  "gguf_is_quantized t \<longleftrightarrow> t \<in> set
    [Q4_0, Q4_1, Q4_2, Q5_0, Q5_1, Q8_0, Q8_1, Q8_1Hx, Q2K, Q3K, Q4K, Q5K, Q6K, Q8K, IQ4_NL,
     IQ4_XS, IQ3_XXS, IQ3_S, IQ2_XXS, IQ2_XS, IQ2_S, IQ1_S, IQ1_M, MXFP4, NVFP4, GsqRco3p5,
     TQ1_0, TQ2_0, Q1_0, Q2_0]"

definition unsupported :: "string \<Rightarrow> nat \<Rightarrow> nat \<Rightarrow> tensor_dtype" where
  "unsupported nm bs bpb =
     tdtype AF32 (Unsupported \<lparr>uf_name = nm, uf_block_size = Some bs, uf_bytes_per_block = Some bpb\<rparr>)"

fun map_gguf_dtype_to_storage :: "gguf_dtype \<Rightarrow> tensor_dtype" where
  "map_gguf_dtype_to_storage F32 = tdtype AF32 Native"
| "map_gguf_dtype_to_storage F16 = tdtype AF16 Native"
| "map_gguf_dtype_to_storage F64 = tdtype AF32 Native"
| "map_gguf_dtype_to_storage I8 = tdtype AU8 Native"
| "map_gguf_dtype_to_storage I16 = tdtype AF32 Native"
| "map_gguf_dtype_to_storage I32 = tdtype AF32 Native"
| "map_gguf_dtype_to_storage I64 = tdtype AF32 Native"
| "map_gguf_dtype_to_storage Q4_2 = unsupported ''Q4_2'' 32 20"
| "map_gguf_dtype_to_storage Q5_0 = unsupported ''Q5_0'' 32 22"
| "map_gguf_dtype_to_storage Q5_1 = unsupported ''Q5_1'' 32 24"
| "map_gguf_dtype_to_storage Q2K = tdtype AF32 (KQuant KQ_Q2K)"
| "map_gguf_dtype_to_storage Q3K = tdtype AF32 (KQuant KQ_Q3K)"
| "map_gguf_dtype_to_storage Q4K = tdtype AF32 (KQuant KQ_Q4K)"
| "map_gguf_dtype_to_storage Q4_0 = tdtype AF32 (Block BD_Q4_0)"
| "map_gguf_dtype_to_storage Q4_1 = tdtype AF32 (Block BD_Q4_1)"
| "map_gguf_dtype_to_storage Q5K = tdtype AF32 (KQuant KQ_Q5K)"
| "map_gguf_dtype_to_storage Q6K = tdtype AF32 (KQuant KQ_Q6K)"
| "map_gguf_dtype_to_storage Q8K = tdtype AF32 (KQuant KQ_Q80)"
| "map_gguf_dtype_to_storage Q8_0 = tdtype AF32 (KQuant KQ_Q80)"
| "map_gguf_dtype_to_storage Q8_1 = tdtype AF32 (KQuant KQ_Q80)"
| "map_gguf_dtype_to_storage Q8_1Hx = tdtype AF32 (KQuant KQ_Q80)"
| "map_gguf_dtype_to_storage IQ4_NL = tdtype AF32 (KQuant KQ_IQ4NL)"
| "map_gguf_dtype_to_storage IQ4_XS = tdtype AF32 (KQuant KQ_IQ4XS)"
| "map_gguf_dtype_to_storage IQ3_XXS = tdtype AF32 (KQuant KQ_IQ3XXS)"
| "map_gguf_dtype_to_storage IQ3_S = tdtype AF32 (KQuant KQ_IQ3S)"
| "map_gguf_dtype_to_storage IQ2_XXS = tdtype AF32 (KQuant KQ_IQ2XXS)"
| "map_gguf_dtype_to_storage IQ2_XS = tdtype AF32 (KQuant KQ_IQ2XS)"
| "map_gguf_dtype_to_storage IQ2_S = tdtype AF32 (KQuant KQ_IQ2S)"
| "map_gguf_dtype_to_storage IQ1_S = tdtype AF32 (KQuant KQ_IQ1S)"
| "map_gguf_dtype_to_storage IQ1_M = tdtype AF32 (KQuant KQ_IQ1M)"
| "map_gguf_dtype_to_storage MXFP4 = tdtype AF32 (FloatPack FP_MxFp4)"
| "map_gguf_dtype_to_storage NVFP4 = tdtype AF32 (FloatPack FP_NutFp4)"
| "map_gguf_dtype_to_storage GsqRco3p5 = tdtype AF32 (KQuant KQ_GsqRco3p5)"
| "map_gguf_dtype_to_storage Q2_0 = tdtype AF32 (KQuant KQ_Q2_0)"
| "map_gguf_dtype_to_storage WhiteRaven = tdtype AU8 (FloatPack FP_Fp8Blocked16)"
| "map_gguf_dtype_to_storage Raven = tdtype AF32 (FloatPack FP_Fp8)"
| "map_gguf_dtype_to_storage WhiteCrow = tdtype AF32 (W4A4OstQuant 128)"
| "map_gguf_dtype_to_storage GreyRaven = tdtype AF32 (Block BD_Fp8Sparse24)"
| "map_gguf_dtype_to_storage GreyRavenHw = tdtype AF32 (Block BD_Fp8Sparse24Hw)"
| "map_gguf_dtype_to_storage ForestRaven = tdtype AF32 (Block BD_Int8PerChannel)"
| "map_gguf_dtype_to_storage PQ2_0 = tdtype AF32 (Block BD_Pq2_0)"
| "map_gguf_dtype_to_storage BF16 = tdtype ABF16 Native"
| "map_gguf_dtype_to_storage PTQ1_0 = unsupported (display_name PTQ1_0) (block_size PTQ1_0) (type_size_per_block PTQ1_0)"
| "map_gguf_dtype_to_storage TQ1_0 = unsupported (display_name TQ1_0) (block_size TQ1_0) (type_size_per_block TQ1_0)"
| "map_gguf_dtype_to_storage TQ2_0 = unsupported (display_name TQ2_0) (block_size TQ2_0) (type_size_per_block TQ2_0)"
| "map_gguf_dtype_to_storage Q1_0 = unsupported (display_name Q1_0) (block_size Q1_0) (type_size_per_block Q1_0)"

fun effective_bpw :: "gguf_dtype \<Rightarrow> nat option" where
  "effective_bpw F32 = None"
| "effective_bpw F64 = None"
| "effective_bpw I32 = None"
| "effective_bpw I64 = None"
| "effective_bpw F16 = Some 16"
| "effective_bpw BF16 = Some 16"
| "effective_bpw I16 = Some 16"
| "effective_bpw I8 = Some 8"
| "effective_bpw Q4_0 = Some 4"
| "effective_bpw Q4_1 = Some 4"
| "effective_bpw Q4_2 = Some 4"
| "effective_bpw Q4K = Some 4"
| "effective_bpw IQ4_NL = Some 4"
| "effective_bpw IQ4_XS = Some 4"
| "effective_bpw MXFP4 = Some 4"
| "effective_bpw NVFP4 = Some 4"
| "effective_bpw WhiteCrow = Some 4"
| "effective_bpw Raven = Some 8"
| "effective_bpw WhiteRaven = Some 8"
| "effective_bpw ForestRaven = Some 8"
| "effective_bpw GreyRaven = Some 8"
| "effective_bpw GreyRavenHw = Some 4"
| "effective_bpw Q5_0 = Some 5"
| "effective_bpw Q5_1 = Some 5"
| "effective_bpw Q5K = Some 5"
| "effective_bpw Q6K = Some 6"
| "effective_bpw Q2K = Some 2"
| "effective_bpw IQ2_XXS = Some 2"
| "effective_bpw IQ2_XS = Some 2"
| "effective_bpw IQ2_S = Some 2"
| "effective_bpw GsqRco3p5 = Some 2"
| "effective_bpw PQ2_0 = Some 2"
| "effective_bpw PTQ1_0 = Some 2"
| "effective_bpw TQ2_0 = Some 2"
| "effective_bpw Q2_0 = Some 2"
| "effective_bpw Q3K = Some 3"
| "effective_bpw IQ3_XXS = Some 3"
| "effective_bpw IQ3_S = Some 3"
| "effective_bpw IQ1_S = Some 1"
| "effective_bpw IQ1_M = Some 1"
| "effective_bpw TQ1_0 = Some 1"
| "effective_bpw Q1_0 = Some 1"
| "effective_bpw Q8_0 = Some 8"
| "effective_bpw Q8_1 = Some 8"
| "effective_bpw Q8_1Hx = Some 8"
| "effective_bpw Q8K = Some 8"

definition map_gguf_dtype_to_grim :: "gguf_dtype \<Rightarrow> tensor_dtype \<times> nat option" where
  "map_gguf_dtype_to_grim t = (map_gguf_dtype_to_storage t, effective_bpw t)"

section \<open>Agreement\<close>

lemma format_roundtrip: "format_of_storage (storage_of_format q) = Some q"
  by (cases q) simp_all

text \<open>
  The provider that serves tensors out of a GGUF file refuses two storages before it slices a byte
  (\<open>GgufProvider::slice_tensor\<close>): the payload of ForestRaven is framed with one scale per row, which no
  block geometry counts, and the tiles of GreyRaven-HW cannot be checked from a size.
\<close>

definition gguf_direct_refuses :: "tensor_dtype \<Rightarrow> bool" where
  "gguf_direct_refuses d \<longleftrightarrow> dt_storage d = Block BD_Int8PerChannel \<or> dt_storage d = Block BD_Fp8Sparse24Hw"

text \<open>
  The types with an implemented layout whose blocks the descriptor of the loaded tensor counts
  otherwise than the file.
\<close>

definition resized_types :: "gguf_dtype list" where
  "resized_types = [F64, I16, I64, Q8_1, Q8K, IQ4_XS, WhiteCrow, GreyRaven]"

lemma div_ceil_blocks: "0 < b \<Longrightarrow> b dvd c \<Longrightarrow> div_ceil (n * c) b = n * (c div b)"
  by (auto simp: mult.assoc [symmetric] elim!: dvdE)
    (metis div_ceil_mult mult.assoc mult.commute)

lemmas blocks_of =
  div_ceil_blocks [where b = 2, simplified] div_ceil_blocks [where b = 16, simplified]
  div_ceil_blocks [where b = 32, simplified]

lemma same_size:
  "t \<notin> set resized_types \<Longrightarrow> 0 < type_size_per_block t \<Longrightarrow>
     expected_bytes (map_gguf_dtype_to_storage t) (n * block_size t) = n * type_size_per_block t"
  by (cases t) (simp_all add: resized_types_def expected_bytes_def unsupported_def blocks_of)

lemma other_size:
  "t \<in> set resized_types \<Longrightarrow>
     expected_bytes (map_gguf_dtype_to_storage t) (block_size t) \<noteq> type_size_per_block t"
  by (auto simp: resized_types_def expected_bytes_def unsupported_def div_ceil_def)

end
