(* ===== verification/FormatSpec.thy ===== *)
theory FormatSpec
  imports GgufConvert GgufSpans TensorStorage
begin

text \<open>
  What the model-file formats promise: GGUF values and files, their conversion, the detector of
  wrong types and the storage sizes; and where the code departs from it.
\<close>

section \<open>Sizes of whole blocks\<close>

lemma tensor_size_blocks:
  assumes "checked_product 1 dims = Some (k * block_size t)" and "tensor_size t dims = Ok sz"
  shows "sz = k * type_size_per_block t"
  using assms
  by (auto simp: tensor_size_def checked_mul_def mult.assoc mult.left_commute [of k] split: if_splits)

section \<open>Concrete files\<close>

definition tiny_tensor :: tensor_info where
  "tiny_tensor = \<lparr>ti_name = ascii ''w'', ti_dims = [2], ti_offset = 0, ti_size = 2, ti_dtype = I8\<rparr>"

definition tiny_meta :: "u32 \<Rightarrow> gguf_metadata" where
  "tiny_meta a = [(ascii ''general.alignment'', GUint32 a)]"

definition tiny_file :: "u32 \<Rightarrow> nat \<Rightarrow> u8 list" where
  "tiny_file a pad = convert_header (tiny_meta a) [tiny_tensor] @ replicate pad 0 @ [7, 9]"

definition tiny_gguf :: "u32 \<Rightarrow> nat \<Rightarrow> gguf_file" where
  "tiny_gguf a d = \<lparr>gf_version = GGUF_VERSION, gf_tensor_count = 1, gf_metadata = tiny_meta a,
     gf_tensors = [tiny_tensor], gf_data_start = d\<rparr>"

lemma tiny_header: "length (convert_header (tiny_meta a) [tiny_tensor]) = 90"
  by (simp add: convert_header_def tiny_meta_def tiny_tensor_def write_entry_def write_gguf_string_def
      write_gguf_value_def write_tensor_info_def)

lemma tiny_good: "\<forall>kv \<in> set (tiny_meta a). good_entry kv" "good_info tiny_tensor"
  by (simp_all add: tiny_meta_def tiny_tensor_def good_entry_def good_info_def good_ascii MAX_STRING_def
      tensor_size_def checked_mul_def)

lemma tiny_alignment: "alignment (tiny_meta a) = ucast a"
  by (simp add: alignment_def tiny_meta_def)

lemma round_up_90: "round_up 90 31 = Some 96" "round_up 90 63 = Some 128"
  by (simp_all add: round_up_def)

lemma tiny_read:
  assumes "a = 32 \<and> d = 96 \<or> a = 64 \<and> d = 128"
  shows "read_gguf (tiny_file a pad) = Ok (tiny_gguf a d)"
proof -
  have "data_start_of (tiny_meta a) (length (convert_header (tiny_meta a) [tiny_tensor])) = Some d"
    using assms by (auto simp: tiny_header data_start_of_def tiny_alignment Let_def round_up_90)
  then show ?thesis unfolding tiny_file_def tiny_gguf_def
    using read_converted_header [of "tiny_meta a" "[tiny_tensor]" d "replicate pad 0 @ [7, 9]"] tiny_good
    by (simp add: tiny_meta_def MAX_ENTRIES_def)
qed

definition tiny_converted :: "u32 \<Rightarrow> u8 list" where
  "tiny_converted a = convert_header (inject_keys (ascii ''gfx1100'') (tiny_meta a)) [tiny_tensor]"

lemma tiny_profile: "gcn_to_profile (ascii ''gfx1100'') = Rdna3"
  by (simp add: gcn_to_profile_def starts_with_def ascii_def)

lemma tiny_injected:
  "inject_keys (ascii ''gfx1100'') (tiny_meta a) = tiny_meta a @ grim_keys (ascii ''gfx1100'')"
  by code_simp

lemma tiny_converted_length: "length (tiny_converted a) = 478"
  by code_simp

lemma tiny_source: "a = 32 \<and> d = 96 \<and> pad = 6 \<or> a = 64 \<and> d = 128 \<and> pad = 38 \<Longrightarrow>
    read_tensor_bytes (tiny_file a pad) (tiny_gguf a d) tiny_tensor = Ok [7, 9]"
  unfolding read_tensor_bytes_good [OF tiny_good(2)]
  by (auto simp: tiny_file_def tiny_gguf_def tiny_header) (simp_all add: tiny_tensor_def)

lemma tiny_offsets: "align_offsets 0 [tiny_tensor] = Some [tiny_tensor]"
  by (simp add: align_offsets.simps(2) checked_add_def tiny_tensor_def)

lemma tiny_injected_length: "length (inject_keys (ascii ''gfx1100'') (tiny_meta a)) = 10"
  unfolding tiny_injected by (simp add: grim_keys_def Let_def tiny_meta_def)

lemma tiny_convert:
  fixes d :: nat
  assumes "a = 32 \<and> d = 96 \<and> pad = 6 \<or> a = 64 \<and> d = 128 \<and> pad = 38"
  shows "convert_gguf_to_grim (tiny_file a pad) (ascii ''gfx1100'') = Ok (tiny_converted a @ [0, 0, 7, 9])"
proof -
  have r: "read_gguf (tiny_file a pad) = Ok (tiny_gguf a d)" using assms by (intro tiny_read) auto
  have g: "gf_tensors (tiny_gguf a d) = [tiny_tensor]" "gf_metadata (tiny_gguf a d) = tiny_meta a"
    by (simp_all add: tiny_gguf_def)
  have b: "round_up 478 31 = Some 480" by (simp add: round_up_def)
  have o: "ti_offset tiny_tensor = 0" by (simp add: tiny_tensor_def)
  have "replicate 2 0 = [0, 0 :: u8]" by (simp add: numeral_2_eq_2)
  then show ?thesis
    by (simp add: convert_gguf_to_grim_def r g tiny_offsets tiny_converted_def [symmetric]
        tiny_converted_length b Let_def tiny_source [OF assms] o checked_add_def)
qed

section \<open>Properties\<close>

text \<open>
  C20. Converting a GGUF file to \<open>.grim\<close> loses nothing: when the source uses the default alignment of
  32 bytes, the written file is read back, with the injected metadata, the same tensors in the same
  order with the same names, shapes and types, and every tensor has the bytes it had in the source.
\<close>

theorem conversion_keeps_tensors:
  assumes "read_gguf file = Ok g" and "convert_gguf_to_grim file gcn = Ok out"
    and "alignment (gf_metadata g) = 32" and "good_string gcn"
    and "length (inject_keys gcn (gf_metadata g)) \<le> MAX_ENTRIES" and "length out < 2 ^ 64"
  shows "\<exists>g'. read_gguf out = Ok g' \<and> gf_metadata g' = inject_keys gcn (gf_metadata g)
    \<and> list_all2 (\<lambda>t t'. t' = t\<lparr>ti_offset := ti_offset t'\<rparr>
        \<and> (\<exists>bs. read_tensor_bytes file g t = Ok bs \<and> read_tensor_bytes out g' t' = Ok bs))
      (gf_tensors g) (gf_tensors g')"
  using assms by (rule converted_file)

theorem conversion_keeps_tensors_witness:
  "\<exists>g'. read_gguf (tiny_converted 32 @ [0, 0, 7, 9]) = Ok g'
    \<and> (\<exists>t \<in> set (gf_tensors g'). read_tensor_bytes (tiny_converted 32 @ [0, 0, 7, 9]) g' t = Ok [7, 9])"
proof -
  have r: "read_gguf (tiny_file 32 6) = Ok (tiny_gguf 32 96)" by (rule tiny_read) simp
  have "\<exists>g'. read_gguf (tiny_converted 32 @ [0, 0, 7, 9]) = Ok g'
    \<and> gf_metadata g' = inject_keys (ascii ''gfx1100'') (gf_metadata (tiny_gguf 32 96))
    \<and> list_all2 (\<lambda>t t'. t' = t\<lparr>ti_offset := ti_offset t'\<rparr>
        \<and> (\<exists>bs. read_tensor_bytes (tiny_file 32 6) (tiny_gguf 32 96) t = Ok bs
              \<and> read_tensor_bytes (tiny_converted 32 @ [0, 0, 7, 9]) g' t' = Ok bs))
      (gf_tensors (tiny_gguf 32 96)) (gf_tensors g')"
    by (rule conversion_keeps_tensors [OF r tiny_convert])
      (simp_all add: tiny_gguf_def tiny_alignment tiny_injected_length tiny_converted_length good_ascii
        MAX_STRING_def MAX_ENTRIES_def)
  then show ?thesis using tiny_source [of 32 96 6] by (auto simp: tiny_gguf_def list_all2_Cons1)
qed

text \<open>
  A source whose metadata asks for another alignment does not survive: the converter keeps the
  key \<open>general.alignment\<close> but pads to 32 bytes, so readers of the new file look for the data elsewhere.
  Here a tensor that reads from its 64-byte aligned source is past the end of the converted file.
\<close>

theorem conversion_misplaces_aligned_data:
  "\<exists>file gcn out g g'. read_gguf file = Ok g \<and> gf_tensors g = [tiny_tensor]
    \<and> read_tensor_bytes file g tiny_tensor = Ok [7, 9]
    \<and> convert_gguf_to_grim file gcn = Ok out \<and> read_gguf out = Ok g' \<and> gf_tensors g' = [tiny_tensor]
    \<and> read_tensor_bytes out g' tiny_tensor = Err (Malformed ''exceeds file length'')"
proof -
  let ?m = "inject_keys (ascii ''gfx1100'') (tiny_meta 64)" and ?out = "tiny_converted 64 @ [0, 0, 7, 9]"
  have r: "read_gguf (tiny_file 64 38) = Ok (tiny_gguf 64 128)" by (rule tiny_read) simp
  have "good_string (ascii ''gfx1100'')" by (simp add: good_ascii MAX_STRING_def)
  then have kvs: "\<forall>kv \<in> set ?m. good_entry kv"
    using tiny_good(1) [of 64] grim_keys_good by (auto simp: tiny_injected)
  have d: "data_start_of ?m (length (convert_header ?m [tiny_tensor])) = Some 512"
    by (simp add: data_start_of_def alignment_injected tiny_alignment Let_def round_up_def
        tiny_converted_def [symmetric] tiny_converted_length)
  have "distinct (map fst ?m)"
    by (simp add: inject_keys_def fold_update_distinct tiny_meta_def)
  then have r': "read_gguf ?out = Ok \<lparr>gf_version = GGUF_VERSION, gf_tensor_count = of_nat (length [tiny_tensor]),
      gf_metadata = ?m, gf_tensors = [tiny_tensor], gf_data_start = 512\<rparr>"
    unfolding tiny_converted_def
    by (intro read_converted_header) (use kvs d tiny_good(2) in
      \<open>simp_all add: tiny_injected_length MAX_ENTRIES_def\<close>)
  have "expected_tensor_bytes I8 [2] = Some 2"
    by (simp add: expected_tensor_bytes_def checked_mul_def)
  then have "read_tensor_bytes ?out \<lparr>gf_version = GGUF_VERSION, gf_tensor_count = of_nat (length [tiny_tensor]),
      gf_metadata = ?m, gf_tensors = [tiny_tensor], gf_data_start = 512\<rparr> tiny_tensor
      = Err (Malformed ''exceeds file length'')"
    by (simp add: read_tensor_bytes_def tiny_tensor_def tiny_converted_length)
  then show ?thesis
    using r r' tiny_source [of 64 128 38] tiny_convert [of 64 128 38]
    by (intro exI [of _ "tiny_file 64 38"] exI [of _ "ascii ''gfx1100''"] exI [of _ ?out]
        exI [of _ "tiny_gguf 64 128"] exI conjI) (auto simp: tiny_gguf_def)
qed

text \<open>
  C21. The metadata values a reader can return are exactly those the writer can write: nested at most
  64 deep, arrays of one element type and at most ten million elements, strings valid UTF-8 of at most
  64 MiB. Each of them is read back as it was written, whatever follows it in the file.
\<close>

theorem metadata_values_roundtrip:
  "(read_gguf_value (write_gguf_value v @ s) = (Ok v, s) \<longleftrightarrow> good_value 0 v)
   \<and> ((\<exists>r r'. read_gguf_value r = (Ok v, r')) \<longleftrightarrow> good_value 0 v)"
proof -
  have "good_value 0 v" if "read_gguf_value r = (Ok v, r')" for r r'
    using that read_value_good by (auto simp: read_gguf_value_def and_then_Ok_iff)
  then show ?thesis using read_written_tagged [of v] by blast
qed

text \<open>
  If the detector reports nothing, and every tensor starts inside the data, then the bytes each
  tensor declares stay inside the data and the bytes of two tensors never overlap.
\<close>

theorem clean_file_has_no_overlap:
  assumes "dtype_contradictions ts n = []" and "\<forall>t \<in> set ts. start_of t \<le> n"
    and "t \<in> set ts" and "u \<in> set ts" and "t \<noteq> u"
    and "declared_bytes t = Some a" and "declared_bytes u = Some b"
  shows "start_of t + a \<le> n \<and> (start_of t + a \<le> start_of u \<or> start_of u + b \<le> start_of t)"
  using no_contradiction [OF assms(1-5)] assms(6,7) by (simp add: clear_of_def)

theorem clean_file_has_no_overlap_witness:
  "let t = tiny_tensor; u = tiny_tensor\<lparr>ti_name := ascii ''v'', ti_offset := 32\<rparr> in
    start_of t + 2 \<le> 34 \<and> (start_of t + 2 \<le> start_of u \<or> start_of u + 2 \<le> start_of t)"
proof -
  let ?t = tiny_tensor and ?u = "tiny_tensor\<lparr>ti_name := ascii ''v'', ti_offset := 32\<rparr>"
  have e: "expected_tensor_bytes I8 [2] = Some 2"
    by (simp add: expected_tensor_bytes_def checked_mul_def)
  have "dtype_contradictions [?t, ?u] 34 = []"
    by (simp add: dtype_contradictions_def scan_spans_Cons next_start_def contradicts_def start_of_def
        tiny_tensor_def e Let_def)
  then have "start_of ?t + 2 \<le> 34 \<and> (start_of ?t + 2 \<le> start_of ?u \<or> start_of ?u + 2 \<le> start_of ?t)"
    by (rule clean_file_has_no_overlap)
      (simp_all add: start_of_def declared_bytes_def tiny_tensor_def e ascii_def)
  then show ?thesis by (simp add: Let_def)
qed

text \<open>
  Every report names a tensor that is really too large for its place: its declared type needs more
  bytes than there are up to the next tensor or the end, and each candidate type fits exactly.
\<close>

theorem reports_are_justified:
  assumes "c \<in> set (dtype_contradictions ts n)"
  shows "\<exists>t \<in> set ts. dc_name c = ti_name t \<and> dc_declared c = ti_dtype t
    \<and> declared_bytes t = Some (dc_expected c) \<and> dc_actual c < dc_expected c
    \<and> (start_of t + dc_actual c = n \<or> (\<exists>u \<in> set ts. start_of t + dc_actual c = start_of u))
    \<and> (\<forall>d \<in> set (dc_candidates c). expected_tensor_bytes d (ti_dims t) = Some (dc_actual c))"
  using assms by (rule reported_contradiction)

theorem reports_are_justified_witness:
  "\<exists>c \<in> set (dtype_contradictions [tiny_tensor] 1). dc_actual c < dc_expected c"
proof -
  have "dtype_contradictions [tiny_tensor] 1 \<noteq> []"
    by (simp add: dtype_contradictions_def scan_spans_Cons next_start_def contradicts_def
        tiny_tensor_def expected_tensor_bytes_def checked_mul_def Let_def)
  then have "hd (dtype_contradictions [tiny_tensor] 1) \<in> set (dtype_contradictions [tiny_tensor] 1)"
    by (rule hd_in_set)
  then obtain c where "c \<in> set (dtype_contradictions [tiny_tensor] 1)" ..
  then show ?thesis using reports_are_justified [of c "[tiny_tensor]" 1] by blast
qed

text \<open>
  C22. For a GGUF type with an implemented layout (a block of more than zero bytes) that the GGUF provider
  serves (ForestRaven and GreyRaven-HW it refuses, their payloads being framed or tiled), the byte size
  the reader computes for a tensor of whole blocks is the size \<open>DType::expected_bytes\<close> gives for
  the storage the type is loaded under, whatever the dimensions; eight types are the exceptions, and
  each of them differs already on a single block.
\<close>

theorem loaded_size_agrees:
  assumes "0 < type_size_per_block t" and "\<not> gguf_direct_refuses (map_gguf_dtype_to_storage t)"
  shows "(t \<notin> {F64, I16, I64, Q8_1, Q8K, IQ4_XS, WhiteCrow, GreyRaven} \<longrightarrow>
      (\<forall>dims n sz. checked_product 1 dims = Some n \<longrightarrow> block_size t dvd n \<longrightarrow> tensor_size t dims = Ok sz \<longrightarrow>
        expected_bytes (map_gguf_dtype_to_storage t) n = sz))
    \<and> (t \<in> {F64, I16, I64, Q8_1, Q8K, IQ4_XS, WhiteCrow, GreyRaven} \<longrightarrow>
      tensor_size t [word_of_nat (block_size t)] = Ok (type_size_per_block t)
      \<and> expected_bytes (map_gguf_dtype_to_storage t) (block_size t) \<noteq> type_size_per_block t)"
proof -
  have r: "set resized_types = {F64, I16, I64, Q8_1, Q8K, IQ4_XS, WhiteCrow, GreyRaven}"
    by (simp add: resized_types_def)
  have "expected_bytes (map_gguf_dtype_to_storage t) n = sz"
    if h: "t \<notin> set resized_types" "checked_product 1 dims = Some n" "block_size t dvd n" "tensor_size t dims = Ok sz"
    for dims n sz
  proof -
    obtain k where k: "n = k * block_size t" using h(3) by (metis dvd_def mult.commute)
    then have "sz = k * type_size_per_block t"
      using h(2,4) tensor_size_blocks by blast
    then show ?thesis using same_size [OF h(1) assms(1)] k by simp
  qed
  moreover have "tensor_size t [word_of_nat (block_size t)] = Ok (type_size_per_block t)" if "t \<in> set resized_types"
    using that by (auto simp: resized_types_def tensor_size_def checked_mul_def)
  ultimately show ?thesis using other_size [of t] r by blast
qed

theorem loaded_size_agrees_witness:
  "tensor_size Q4K [4096, 11008] = Ok 25362432
    \<and> expected_bytes (map_gguf_dtype_to_storage Q4K) (4096 * 11008) = 25362432
    \<and> expected_bytes (map_gguf_dtype_to_storage IQ4_XS) 256 \<noteq> 136"
proof -
  have p: "checked_product 1 [4096, 11008 :: u64] = Some (4096 * 11008)" by (simp add: checked_mul_def)
  have z: "tensor_size Q4K [4096, 11008] = Ok 25362432" by (simp add: tensor_size_def p checked_mul_def)
  have "expected_bytes (map_gguf_dtype_to_storage Q4K) (4096 * 11008) = 25362432"
    using loaded_size_agrees [of Q4K] p z by (simp add: gguf_direct_refuses_def del: checked_product.simps)
  then show ?thesis using z loaded_size_agrees [of IQ4_XS] by (simp add: gguf_direct_refuses_def)
qed

text \<open>
  A tensor of a type without an implemented layout but with blocks of one weight (\<open>Q4_2\<close>,
  \<open>Q8_1Hx\<close>) is accepted with a size of zero bytes and loads as empty data, whatever its shape.
\<close>

theorem layoutless_tensor_loads_empty:
  assumes "good_string name" and "length dims \<le> 16" and "checked_product 1 dims = Some n"
    and "ty = Q4_2 \<or> ty = Q8_1Hx"
  shows "let t = \<lparr>ti_name = name, ti_dims = dims, ti_offset = off, ti_size = 0, ti_dtype = ty\<rparr> in
    read_tensor_info (write_tensor_info t @ s) = (Ok t, s)
    \<and> (gf_data_start g + unat off < 2 ^ 64 \<longrightarrow> gf_data_start g + unat off \<le> length file \<longrightarrow>
        read_tensor_bytes file g t = Ok [])"
proof -
  let ?t = "\<lparr>ti_name = name, ti_dims = dims, ti_offset = off, ti_size = 0, ti_dtype = ty\<rparr>"
  have "tensor_size ty dims = Ok 0" using assms(3,4) by (auto simp: tensor_size_def checked_mul_def)
  then have g: "good_info ?t" using assms(1,2) by (simp add: good_info_def)
  show ?thesis using read_written_info [OF g] read_tensor_bytes_good [OF g] by (simp add: Let_def)
qed

theorem layoutless_tensor_loads_empty_witness:
  "let t = \<lparr>ti_name = ascii ''w'', ti_dims = [4096, 4096], ti_offset = 0, ti_size = 0, ti_dtype = Q4_2\<rparr> in
    read_tensor_info (write_tensor_info t) = (Ok t, [])"
  using layoutless_tensor_loads_empty [of "ascii ''w''" "[4096, 4096]" "4096 * 4096" Q4_2 0 "[]"]
  by (simp add: good_ascii MAX_STRING_def checked_mul_def Let_def)

end
