(* ===== verification/GrimFile.thy ===== *)
theory GrimFile
  imports ByteReader
begin

text \<open>
  The native model file (\<open>crates/grim-format/src/format.rs\<close>): wave segments, header, tensor registry,
  the placement of payloads, reading and writing a whole file, and replacing its metadata. The JSON
  text of the metadata is a parameter (\<open>meta_codec\<close>): serializing with the registry flag set, parsing,
  and the wavefront width a metadata value names. Positions are naturals, checked against \<open>u64\<close>.
\<close>

section \<open>Segments\<close>

datatype wave_size = W64 | W32

fun segment_bytes :: "wave_size \<Rightarrow> nat" where
  "segment_bytes W64 = 256"
| "segment_bytes W32 = 128"

fun wave_width :: "wave_size \<Rightarrow> u32" where
  "wave_width W64 = 64"
| "wave_width W32 = 32"

definition wave_from_width :: "u32 \<Rightarrow> wave_size" where
  "wave_from_width w = (if w = 64 then W64 else W32)"

definition align_to_segment :: "nat \<Rightarrow> nat \<Rightarrow> nat" where
  "align_to_segment n segment = div_ceil n segment * segment"

lemma segment_pos [simp]: "0 < segment_bytes w"
  by (cases w) simp_all

lemma align_ge: "0 < seg \<Longrightarrow> n \<le> align_to_segment n seg"
  by (simp add: align_to_segment_def div_ceil_mult_ge)

lemma align_less:
  assumes "0 < seg"
  shows "align_to_segment n seg < n + seg"
proof -
  have "(n + (seg - 1)) div seg * seg \<le> n + (seg - 1)" by simp
  also have "\<dots> < n + seg" using assms by linarith
  finally show ?thesis unfolding align_to_segment_def div_ceil_eq [OF assms] .
qed

lemma align_dvd [simp]: "seg dvd align_to_segment n seg"
  by (simp add: align_to_segment_def)

section \<open>Header\<close>

definition GRIM_MAGIC :: "u8 list" where "GRIM_MAGIC = [0x47, 0x52, 0x49, 0x4d, 0x01]"

record grim_header =
  gh_metadata_len :: u64
  gh_num_tensors :: u32

definition write_header :: "grim_header \<Rightarrow> u8 list" where
  "write_header h = GRIM_MAGIC @ le_bytes 8 (gh_metadata_len h) @ le_bytes 4 (gh_num_tensors h)"

definition read_header :: "grim_header reader" where
  "read_header s = and_then (read_exact 5 s) (\<lambda>magic s.
     if magic \<noteq> GRIM_MAGIC then fail ''magic'' s
     else and_then (read_le 8 s) (\<lambda>metadata_len s. and_then (read_le 4 s) (\<lambda>num_tensors.
       give \<lparr>gh_metadata_len = metadata_len, gh_num_tensors = num_tensors\<rparr>)))"

section \<open>Registry entries\<close>

record grim_entry =
  ge_name :: "u8 list"
  ge_shape :: "nat list"
  ge_base_bitwidth :: u8
  ge_payload_offset :: u64
  ge_payload_size :: u64
  ge_outlier_count :: u32
  ge_outlier_offset :: u64
  ge_kv_present :: u8
  ge_kv_rotated :: u8
  ge_kv_bits_k :: u8
  ge_kv_bits_v :: u8
  ge_kv_head_bits_table_offset :: u64
  ge_kv_eviction_map_offset :: u64
  ge_kv_eviction_map_size :: u64
  ge_kv_sink_fp16 :: u8
  ge_kv_compressed_offset :: u64
  ge_kv_compressed_size :: u64

definition write_dim :: "nat \<Rightarrow> u8 list" where
  "write_dim d = le_bytes 4 (of_nat d :: u32)"

definition read_dim :: "nat reader" where
  "read_dim s = and_then (read_le 4 s) (\<lambda>(d :: u32). give (unat d))"

definition write_grim_entry :: "grim_entry \<Rightarrow> u8 list" where
  "write_grim_entry e =
     le_bytes 2 (of_nat (length (ge_name e)) :: u16) @ ge_name e
     @ [of_nat (length (ge_shape e))] @ concat (map write_dim (ge_shape e))
     @ [ge_base_bitwidth e] @ le_bytes 8 (ge_payload_offset e) @ le_bytes 8 (ge_payload_size e)
     @ le_bytes 4 (ge_outlier_count e) @ le_bytes 8 (ge_outlier_offset e)
     @ [ge_kv_present e] @ [ge_kv_rotated e] @ [ge_kv_bits_k e] @ [ge_kv_bits_v e]
     @ le_bytes 8 (ge_kv_head_bits_table_offset e) @ le_bytes 8 (ge_kv_eviction_map_offset e)
     @ le_bytes 8 (ge_kv_eviction_map_size e) @ [ge_kv_sink_fp16 e]
     @ le_bytes 8 (ge_kv_compressed_offset e) @ le_bytes 8 (ge_kv_compressed_size e)"

definition read_grim_entry :: "grim_entry reader" where
  "read_grim_entry s =
     and_then (read_le 2 s) (\<lambda>(name_len :: u16) s.
     and_then (read_utf8 (unat name_len) s) (\<lambda>name s.
     and_then (read_u8 s) (\<lambda>num_dims s.
     and_then (read_times (unat num_dims) read_dim s) (\<lambda>shape s.
     and_then (read_u8 s) (\<lambda>bitwidth s.
     and_then (read_le 8 s) (\<lambda>payload_offset s.
     and_then (read_le 8 s) (\<lambda>payload_size s.
     and_then (read_le 4 s) (\<lambda>outlier_count s.
     and_then (read_le 8 s) (\<lambda>outlier_offset s.
     and_then (read_u8 s) (\<lambda>present s.
     and_then (read_u8 s) (\<lambda>rotated s.
     and_then (read_u8 s) (\<lambda>bits_k s.
     and_then (read_u8 s) (\<lambda>bits_v s.
     and_then (read_le 8 s) (\<lambda>table_offset s.
     and_then (read_le 8 s) (\<lambda>map_offset s.
     and_then (read_le 8 s) (\<lambda>map_size s.
     and_then (read_u8 s) (\<lambda>sink s.
     and_then (read_le 8 s) (\<lambda>compressed_offset s.
     and_then (read_le 8 s) (\<lambda>compressed_size.
     give \<lparr>ge_name = name, ge_shape = shape, ge_base_bitwidth = bitwidth,
       ge_payload_offset = payload_offset, ge_payload_size = payload_size,
       ge_outlier_count = outlier_count, ge_outlier_offset = outlier_offset,
       ge_kv_present = present, ge_kv_rotated = rotated, ge_kv_bits_k = bits_k, ge_kv_bits_v = bits_v,
       ge_kv_head_bits_table_offset = table_offset, ge_kv_eviction_map_offset = map_offset,
       ge_kv_eviction_map_size = map_size, ge_kv_sink_fp16 = sink,
       ge_kv_compressed_offset = compressed_offset, ge_kv_compressed_size = compressed_size\<rparr>)))))))))))))))))))"

definition registry_entry_size :: "grim_entry \<Rightarrow> nat" where
  "registry_entry_size e = (2 + length (ge_name e)) + (1 + length (ge_shape e) * 4)
     + (1 + 8 + 8 + 4 + 8) + (1 + 1 + 1 + 1 + 8 + 8 + 8 + 1 + 8 + 8)"

definition set_kv_layout :: "bool \<Rightarrow> bool \<Rightarrow> u8 \<Rightarrow> u8 \<Rightarrow> u64 \<Rightarrow> u64 \<Rightarrow> bool \<Rightarrow> u64 \<Rightarrow> grim_entry \<Rightarrow> grim_entry" where
  "set_kv_layout present rotated bits_k bits_v map_offset map_size sink compressed_size e = e\<lparr>
     ge_kv_present := of_bool present, ge_kv_rotated := of_bool rotated,
     ge_kv_bits_k := bits_k, ge_kv_bits_v := bits_v,
     ge_kv_eviction_map_offset := map_offset, ge_kv_eviction_map_size := map_size,
     ge_kv_sink_fp16 := of_bool sink, ge_kv_compressed_size := compressed_size\<rparr>"

section \<open>Files\<close>

record 'm meta_codec =
  md_encode :: "'m \<Rightarrow> u8 list"
  md_decode :: "u8 list \<Rightarrow> 'm option"
  md_default :: 'm
  md_wavefront :: "'m \<Rightarrow> u32"

record 'm grim_file =
  gr_header :: grim_header
  gr_metadata :: 'm
  gr_tensors :: "grim_entry list"
  gr_wave :: wave_size

definition OUTLIER_RECORD_BYTES :: nat where "OUTLIER_RECORD_BYTES = 6"

definition outlier_bytes :: "grim_entry \<Rightarrow> nat" where
  "outlier_bytes e = unat (ge_outlier_count e) * OUTLIER_RECORD_BYTES"

text \<open>
  \<open>tensors_by_name\<close>: a later entry of the same name wins.
\<close>

definition tensors_by_name :: "grim_entry list \<Rightarrow> u8 list \<Rightarrow> nat option" where
  "tensors_by_name ts = fold (\<lambda>i m. m(ge_name (ts ! i) \<mapsto> i)) [0..<length ts] Map.empty"

definition tensor_named :: "'m grim_file \<Rightarrow> u8 list \<Rightarrow> grim_entry option" where
  "tensor_named f name = map_option (\<lambda>i. gr_tensors f ! i) (tensors_by_name (gr_tensors f) name)"

definition read_metadata :: "'m meta_codec \<Rightarrow> u64 \<Rightarrow> 'm reader" where
  "read_metadata mc n s =
     (if n = 0 then (Ok (md_default mc), s)
      else if 100000000 < n then fail ''metadata_len'' s
      else and_then (read_exact (unat n) s) (\<lambda>bs s.
        case md_decode mc bs of None \<Rightarrow> fail ''metadata JSON'' s | Some m \<Rightarrow> (Ok m, s)))"

definition read_grim :: "'m meta_codec \<Rightarrow> 'm grim_file reader" where
  "read_grim mc s =
     and_then (read_header s) (\<lambda>h s. and_then (read_metadata mc (gh_metadata_len h) s) (\<lambda>m s.
       if 1000000 < gh_num_tensors h then fail ''num_tensors'' s
       else and_then (read_times (unat (gh_num_tensors h)) read_grim_entry s) (\<lambda>ts.
         give \<lparr>gr_header = h, gr_metadata = m, gr_tensors = ts,
           gr_wave = wave_from_width (md_wavefront mc m)\<rparr>)))"

text \<open>
  The payload, the outliers and the compressed KV block of an entry follow each other; the next entry
  starts at a segment boundary. All sums are monotone, so they fit \<open>u64\<close> if the last one does.
\<close>

definition place_entry :: "nat \<Rightarrow> nat \<Rightarrow> grim_entry \<Rightarrow> grim_entry \<times> nat" where
  "place_entry seg offset t =
     (let outliers = offset + unat (ge_payload_size t);
          kv = outliers + outlier_bytes t;
          t' = t\<lparr>ge_payload_offset := of_nat offset, ge_outlier_offset := of_nat outliers\<rparr>
      in if ge_kv_present t \<noteq> 0 \<and> 0 < ge_kv_compressed_size t
         then (t'\<lparr>ge_kv_compressed_offset := of_nat kv\<rparr>,
               align_to_segment (align_to_segment (kv + unat (ge_kv_compressed_size t)) seg) seg)
         else (t', align_to_segment kv seg))"

fun place_entries :: "nat \<Rightarrow> nat \<Rightarrow> grim_entry list \<Rightarrow> grim_entry list option" where
  "place_entries seg offset [] = Some []"
| "place_entries seg offset (t # ts) =
     (let (t', next_offset) = place_entry seg offset t in
      if next_offset < 2 ^ 64 then map_option ((#) t') (place_entries seg next_offset ts) else None)"

text \<open>The bytes written from the start of an empty file, and the placed entries.\<close>

definition write_grim :: "'m meta_codec \<Rightarrow> 'm grim_file \<Rightarrow> (read_error, u8 list \<times> grim_entry list) outcome" where
  "write_grim mc f =
     (let meta = md_encode mc (gr_metadata f);
          head = write_header \<lparr>gh_metadata_len = of_nat (length meta), gh_num_tensors = of_nat (length (gr_tensors f))\<rparr> @ meta;
          start = length head + sum_list (map registry_entry_size (gr_tensors f))
      in case place_entries (segment_bytes (gr_wave f)) start (gr_tensors f) of
           None \<Rightarrow> Panic
         | Some es \<Rightarrow> Ok (head @ concat (map write_grim_entry es), es))"

section \<open>Replacing the metadata\<close>

definition write_at :: "nat \<Rightarrow> u8 list \<Rightarrow> u8 list \<Rightarrow> u8 list" where
  "write_at off bs file =
     (let padded = file @ replicate (off - length file) 0
      in take off padded @ bs @ drop (off + length bs) padded)"

text \<open>\<open>io::copy\<close> of at most \<open>len\<close> bytes from one file into another; copying nothing writes nothing.\<close>

definition copy_extent :: "u8 list \<Rightarrow> u64 \<times> u64 \<times> nat \<Rightarrow> u8 list \<Rightarrow> u8 list" where
  "copy_extent old ext out = (case ext of (old_off, new_off, len) \<Rightarrow>
     if len = 0 \<or> old_off = 0 then out
     else let bs = take len (drop (unat old_off) old)
          in if bs = [] then out else write_at (unat new_off) bs out)"

definition entry_extents :: "grim_entry \<Rightarrow> grim_entry \<Rightarrow> (u64 \<times> u64 \<times> nat) list" where
  "entry_extents old new =
     [(ge_payload_offset old, ge_payload_offset new, unat (ge_payload_size old)),
      (ge_outlier_offset old, ge_outlier_offset new, outlier_bytes old),
      (ge_kv_compressed_offset old, ge_kv_compressed_offset new, unat (ge_kv_compressed_size old))]"

definition rewrite_metadata :: "'m meta_codec \<Rightarrow> ('m \<Rightarrow> 'm) \<Rightarrow> u8 list \<Rightarrow> (read_error, u8 list) outcome" where
  "rewrite_metadata mc mutate file =
     (case fst (read_grim mc file) of
        Ok f \<Rightarrow>
          (case write_grim mc (f\<lparr>gr_metadata := mutate (gr_metadata f)\<rparr>) of
             Ok (out, es) \<Rightarrow>
               Ok (fold (copy_extent file) (concat (map (\<lambda>(old, new). entry_extents old new) (zip (gr_tensors f) es))) out)
           | Err e \<Rightarrow> Err e | Panic \<Rightarrow> Panic | Hang \<Rightarrow> Hang)
      | Err e \<Rightarrow> Err e | Panic \<Rightarrow> Panic | Hang \<Rightarrow> Hang)"

end
