(* ===== verification/GrimRewrite.thy ===== *)
theory GrimRewrite
  imports GrimFileLaws
begin

text \<open>
  Replacing the metadata of a native file: the payloads are extent_copied extent by extent to where the new
  registry places them.
\<close>

section \<open>Copying extents\<close>

text \<open>Extents to copy: read inside the old file, written at ascending positions from \<open>cur\<close> on.\<close>

fun ascending :: "u8 list \<Rightarrow> nat \<Rightarrow> (u64 \<times> u64 \<times> nat) list \<Rightarrow> bool" where
  "ascending old cur [] \<longleftrightarrow> True"
| "ascending old cur ((old_off, new_off, len) # exts) \<longleftrightarrow>
     (if len = 0 then ascending old cur exts
      else cur \<le> unat new_off \<and> old_off \<noteq> 0 \<and> unat old_off + len \<le> length old
        \<and> ascending old (unat new_off + len) exts)"

definition extent_copied :: "u8 list \<Rightarrow> u8 list \<Rightarrow> u64 \<times> u64 \<times> nat \<Rightarrow> bool" where
  "extent_copied old new ext \<longleftrightarrow> (case ext of (old_off, new_off, len) \<Rightarrow> len \<noteq> 0 \<longrightarrow>
     unat new_off + len \<le> length new
     \<and> take len (drop (unat new_off) new) = take len (drop (unat old_off) old))"

lemma write_at_end: "length out \<le> off \<Longrightarrow> write_at off bs out = out @ replicate (off - length out) 0 @ bs"
  by (simp add: write_at_def)

lemma copied_append: "extent_copied old new ext \<Longrightarrow> extent_copied old (new @ suf) ext"
  by (auto simp: extent_copied_def split: prod.splits)

lemma copy_extents_spec:
  assumes "ascending old cur exts" and "length out \<le> cur"
  shows "(\<exists>suf. fold (copy_extent old) exts out = out @ suf)
    \<and> (\<forall>ext \<in> set exts. extent_copied old (fold (copy_extent old) exts out) ext)"
  using assms
proof (induction exts arbitrary: cur out)
  case (Cons ext exts)
  obtain a b len where ext: "ext = (a, b, len)" by (cases ext)
  show ?case
  proof (cases "len = 0")
    case True
    then show ?thesis using Cons by (simp add: ext copy_extent_def extent_copied_def)
  next
    case False
    define bs where "bs = take len (drop (unat a) old)"
    define out' where "out' = write_at (unat b) bs out"
    have c: "cur \<le> unat b" "a \<noteq> 0" "unat a + len \<le> length old" "ascending old (unat b + len) exts"
      using Cons.prems(1) False by (simp_all add: ext)
    have len: "length bs = len" using c(3) by (simp add: bs_def)
    have out': "out' = out @ replicate (unat b - length out) 0 @ bs"
      using Cons.prems(2) c(1) by (simp add: out'_def write_at_end)
    have step: "copy_extent old ext out = out'"
      using False c(2) len by (auto simp: ext copy_extent_def out'_def bs_def Let_def)
    have n: "length out' = unat b + len" using out' len c(1) Cons.prems(2) by simp
    obtain suf where suf: "fold (copy_extent old) exts out' = out' @ suf"
      and rest: "\<forall>e \<in> set exts. extent_copied old (fold (copy_extent old) exts out') e"
      using Cons.IH [OF c(4), of out'] n by auto
    have "extent_copied old out' ext"
      using out' len Cons.prems(2) c(1) by (simp add: ext extent_copied_def bs_def)
    then have "extent_copied old (out' @ suf) ext" by (rule copied_append)
    then show ?thesis using rest suf out' by (simp add: step)
  qed
qed simp

section \<open>The extents of a registry\<close>

definition readable :: "u8 list \<Rightarrow> grim_entry \<Rightarrow> bool" where
  "readable old e \<longleftrightarrow> (\<forall>(off, len) \<in> {(ge_payload_offset e, unat (ge_payload_size e)),
       (ge_outlier_offset e, outlier_bytes e), (ge_kv_compressed_offset e, unat (ge_kv_compressed_size e))}.
     len \<noteq> 0 \<longrightarrow> off \<noteq> 0 \<and> unat off + len \<le> length old)
   \<and> (ge_kv_present e = 0 \<longrightarrow> ge_kv_compressed_size e = 0)"

lemma ascending_mono: "ascending old b exts \<Longrightarrow> a \<le> b \<Longrightarrow> ascending old a exts"
  by (induction old b exts arbitrary: a rule: ascending.induct) (auto split: if_splits)

lemma ascending_entry:
  assumes "placed offset e' limit" and "same_but_offsets e e'" and "readable old e"
    and "ascending old limit exts" and "offset \<le> limit"
  shows "ascending old offset (entry_extents e e' @ exts)"
proof -
  note S = same_fields [OF assms(2)]
  have k: "has_kv e \<longleftrightarrow> ge_kv_compressed_size e \<noteq> 0"
    using assms(3) by (auto simp: has_kv_def readable_def word_neq_0_conv)
  show ?thesis
  proof (cases "has_kv e")
    case True
    then have "unat (ge_kv_compressed_size e) \<noteq> 0" using k by (simp add: unat_eq_0)
    then show ?thesis using assms True
      by (auto simp: entry_extents_def placed_def S readable_def intro!: ascending_mono [OF assms(4)])
  next
    case False
    then have "unat (ge_kv_compressed_size e) = 0" using k by simp
    then show ?thesis using assms False
      by (auto simp: entry_extents_def placed_def S readable_def intro!: ascending_mono [OF assms(4)])
  qed
qed

lemma ascending_registry:
  "list_all2 same_but_offsets ts es \<Longrightarrow> placed_from seg offset es \<Longrightarrow> \<forall>t \<in> set ts. readable old t \<Longrightarrow>
     ascending old offset (concat (map (\<lambda>(old, new). entry_extents old new) (zip ts es)))"
proof (induction arbitrary: offset rule: list_all2_induct)
  case (Cons t ts e es)
  then obtain limit where "placed offset e limit" "offset \<le> limit" "placed_from seg limit es" by auto
  then show ?case using Cons by (auto intro: ascending_entry)
qed simp

section \<open>The rewritten file\<close>

lemma read_grim_wellformed:
  assumes "read_grim mc file = (Ok f, s)"
  shows "(\<forall>t \<in> set (gr_tensors f). good_grim_entry t) \<and> length (gr_tensors f) \<le> 1000000"
proof -
  obtain n r ts s' where "\<not> 1000000 < (n :: u32)" and r: "read_times (unat n) read_grim_entry r = (Ok ts, s')"
    and f: "gr_tensors f = ts"
    using assms by (auto simp: read_grim_def and_then_Ok_iff split: if_splits)
  moreover have "\<forall>t \<in> set ts. good_grim_entry t"
    using r by (rule read_times_all) (rule read_entry_wellformed)
  ultimately show ?thesis using read_times_length [OF r] by (simp add: word_less_nat_alt)
qed

lemma rewritten_file:
  assumes r: "read_grim mc file = (Ok f, s)" and w: "rewrite_metadata mc mutate file = Ok out"
    and "codec_ok mc (mutate (gr_metadata f)) m'" and "\<forall>t \<in> set (gr_tensors f). readable file t"
  shows "\<exists>f' rest. read_grim mc out = (Ok f', rest) \<and> gr_metadata f' = m'
    \<and> list_all2 (\<lambda>t t'. same_but_offsets t t' \<and> (\<forall>ext \<in> set (entry_extents t t'). extent_copied file out ext))
      (gr_tensors f) (gr_tensors f')"
proof -
  obtain base es where b: "write_grim mc (f\<lparr>gr_metadata := mutate (gr_metadata f)\<rparr>) = Ok (base, es)"
    and out: "out = fold (copy_extent file)
      (concat (map (\<lambda>(old, new). entry_extents old new) (zip (gr_tensors f) es))) base"
    using w by (auto simp: rewrite_metadata_def r split: outcome.splits)
  note R = write_grim_reads_back [OF b, of m']
  have same: "list_all2 same_but_offsets (gr_tensors f) es"
    and placed: "placed_from (segment_bytes (gr_wave f)) (length base) es"
    using R [of "[]"] assms(3) read_grim_wellformed [OF r] by auto
  have asc: "ascending file (length base) (concat (map (\<lambda>(old, new). entry_extents old new) (zip (gr_tensors f) es)))"
    using same placed assms(4) by (rule ascending_registry)
  have C: "(\<exists>suf. out = base @ suf) \<and> (\<forall>ext \<in> set (concat (map (\<lambda>(old, new). entry_extents old new)
      (zip (gr_tensors f) es))). extent_copied file out ext)"
    unfolding out using asc by (rule copy_extents_spec) simp
  then obtain suf where suf: "out = base @ suf" by blast
  obtain h where f': "read_grim mc out = (Ok \<lparr>gr_header = h, gr_metadata = m', gr_tensors = es,
      gr_wave = wave_from_width (md_wavefront mc m')\<rparr>, suf)"
    using R [of suf] assms(3) read_grim_wellformed [OF r] by (auto simp: suf)
  have "list_all2 (\<lambda>t t'. same_but_offsets t t' \<and> (\<forall>ext \<in> set (entry_extents t t'). extent_copied file out ext))
      (gr_tensors f) es"
    using same C by (auto simp: list_all2_iff)
  then show ?thesis using f' by auto
qed

end
