(* ===== verification/NormalsStream.thy ===== *)
theory NormalsStream
  imports GrimFile
begin

text \<open>
  The payload streams of a native file (\<open>crates/grim-format/src/format.rs\<close>): sizes of the normals
  and backup regions, writing and reading them with their padding, compressed KV blocks, and the bit
  packing of rows of mixed width. The quantizer of a single float (\<open>quantize_to_bpw\<close>, float
  arithmetic) is a parameter.
\<close>

section \<open>Reading at an offset\<close>

definition read_at :: "nat \<Rightarrow> nat \<Rightarrow> u8 list \<Rightarrow> (read_error, u8 list) outcome" where
  "read_at off n file =
     (if n = 0 then Ok [] else if off + n \<le> length file then Ok (take n (drop off file)) else Err UnexpectedEof)"

lemma read_at_written [simp]: "length bs = n \<Longrightarrow> length pre = off \<Longrightarrow> read_at off n (pre @ bs @ post) = Ok bs"
  by (auto simp: read_at_def)

section \<open>Normals\<close>

record normals_layout =
  nl_total_elements :: nat
  nl_outlier_count :: u32
  nl_base_bitwidth :: u8
  nl_row_count :: nat
  nl_row_stride :: nat
  nl_row_bpw_table :: "u8 list"
  nl_wave :: wave_size

definition layout_legacy :: "nat \<Rightarrow> u32 \<Rightarrow> u8 \<Rightarrow> normals_layout" where
  "layout_legacy elems outliers bw = \<lparr>nl_total_elements = elems, nl_outlier_count = outliers,
     nl_base_bitwidth = bw, nl_row_count = 0, nl_row_stride = 0, nl_row_bpw_table = [], nl_wave = W64\<rparr>"

definition layout_with_scales :: "nat \<Rightarrow> u32 \<Rightarrow> u8 \<Rightarrow> nat \<Rightarrow> normals_layout" where
  "layout_with_scales elems outliers bw rows = \<lparr>nl_total_elements = elems, nl_outlier_count = outliers,
     nl_base_bitwidth = bw, nl_row_count = rows, nl_row_stride = (if rows = 0 then 0 else elems div rows),
     nl_row_bpw_table = [], nl_wave = W64\<rparr>"

definition layout_with_mixed_bpw :: "nat \<Rightarrow> u32 \<Rightarrow> nat \<Rightarrow> nat \<Rightarrow> u8 list \<Rightarrow> normals_layout" where
  "layout_with_mixed_bpw elems outliers rows stride table = \<lparr>nl_total_elements = elems,
     nl_outlier_count = outliers, nl_base_bitwidth = (case table of [] \<Rightarrow> 4 | b # _ \<Rightarrow> b),
     nl_row_count = rows, nl_row_stride = stride, nl_row_bpw_table = table, nl_wave = W64\<rparr>"

definition with_wave :: "wave_size \<Rightarrow> normals_layout \<Rightarrow> normals_layout" where
  "with_wave w l = l\<lparr>nl_wave := w\<rparr>"

definition has_scales :: "normals_layout \<Rightarrow> bool" where
  "has_scales l \<longleftrightarrow> 0 < nl_row_count l"

definition is_mixed_bpw :: "normals_layout \<Rightarrow> bool" where
  "is_mixed_bpw l \<longleftrightarrow> nl_row_bpw_table l \<noteq> []"

definition row_codes_bytes :: "nat \<Rightarrow> u8 \<Rightarrow> nat" where
  "row_codes_bytes stride bpw = div_ceil (stride * unat bpw) 8"

definition normals_packed_size_for_wave :: "nat \<Rightarrow> u32 \<Rightarrow> u8 \<Rightarrow> wave_size \<Rightarrow> nat" where
  "normals_packed_size_for_wave elems outliers bw w =
     align_to_segment (div_ceil ((elems - unat outliers) * unat bw) 8) (segment_bytes w)"

definition normals_packed_size :: "nat \<Rightarrow> u32 \<Rightarrow> u8 \<Rightarrow> nat" where
  "normals_packed_size elems outliers bw = normals_packed_size_for_wave elems outliers bw W64"

definition row_codes_sizes :: "normals_layout \<Rightarrow> nat list" where
  "row_codes_sizes l = map (\<lambda>bpw. align_to_segment (row_codes_bytes (nl_row_stride l) bpw) (segment_bytes (nl_wave l)))
     (nl_row_bpw_table l)"

definition codes_size :: "normals_layout \<Rightarrow> nat" where
  "codes_size l =
     (if is_mixed_bpw l
      then sum_list (map (\<lambda>bpw. align_to_segment (row_codes_bytes (nl_row_stride l) bpw) (segment_bytes (nl_wave l)))
        (nl_row_bpw_table l))
      else align_to_segment (div_ceil ((nl_total_elements l - unat (nl_outlier_count l)) * unat (nl_base_bitwidth l)) 8)
        (segment_bytes (nl_wave l)))"

definition scale_size :: "normals_layout \<Rightarrow> nat" where
  "scale_size l = (if \<not> has_scales l then 0 else align_to_segment (nl_row_count l) (segment_bytes (nl_wave l)))"

definition payload_size :: "normals_layout \<Rightarrow> nat" where
  "payload_size l = codes_size l + scale_size l"

record normals_payload =
  np_codes :: "u8 list"
  np_scales :: "u8 list"

text \<open>The outcome together with the bytes written before it.\<close>

definition write_normals :: "normals_layout \<Rightarrow> u8 list \<Rightarrow> u8 list \<Rightarrow> (string, unit) outcome \<times> u8 list" where
  "write_normals l codes scales =
     (if codes_size l < length codes then (Err ''codes buffer exceeds region'', [])
      else let out = codes @ replicate (codes_size l - length codes) 0 in
        if has_scales l then
          (if length scales \<noteq> nl_row_count l then (Err ''scales length'', out)
           else (Ok (), out @ scales @ replicate (scale_size l - length scales) 0))
        else (Ok (), out))"

definition read_normals_split :: "u8 list \<Rightarrow> nat \<Rightarrow> normals_layout \<Rightarrow> (read_error, normals_payload) outcome" where
  "read_normals_split file offset l = (case read_at offset (codes_size l) file of
     Ok codes \<Rightarrow>
       (if has_scales l then
          (case read_at (offset + codes_size l) (scale_size l) file of
             Ok buf \<Rightarrow> Ok \<lparr>np_codes = codes, np_scales = take (nl_row_count l) buf\<rparr>
           | Err e \<Rightarrow> Err e | Panic \<Rightarrow> Panic | Hang \<Rightarrow> Hang)
        else Ok \<lparr>np_codes = codes, np_scales = []\<rparr>)
   | Err e \<Rightarrow> Err e | Panic \<Rightarrow> Panic | Hang \<Rightarrow> Hang)"

definition read_normals :: "u8 list \<Rightarrow> grim_entry \<Rightarrow> (read_error, u8 list) outcome" where
  "read_normals file e =
     (if ge_payload_size e = 0 then Ok []
      else read_at (unat (ge_payload_offset e)) (unat (ge_payload_size e)) file)"

lemma row_codes_sizes_sum: "is_mixed_bpw l \<Longrightarrow> codes_size l = sum_list (row_codes_sizes l)"
  by (simp add: codes_size_def row_codes_sizes_def)

lemma written_normals:
  assumes "length codes \<le> codes_size l" and "has_scales l \<Longrightarrow> length scales = nl_row_count l"
  shows "\<exists>bs. write_normals l codes scales = (Ok (), bs) \<and> length bs = payload_size l
    \<and> (\<forall>pre post. read_normals_split (pre @ bs @ post) (length pre) l = Ok
        \<lparr>np_codes = codes @ replicate (codes_size l - length codes) 0,
         np_scales = (if has_scales l then scales else [])\<rparr>)"
proof (cases "has_scales l")
  case True
  have n: "length scales \<le> scale_size l"
    using True assms(2) align_ge [OF segment_pos] by (simp add: scale_size_def)
  define c where "c = codes @ replicate (codes_size l - length codes) 0"
  define d where "d = scales @ replicate (scale_size l - length scales) 0"
  have len: "length c = codes_size l" "length d = scale_size l" using assms(1) n by (simp_all add: c_def d_def)
  have w: "write_normals l codes scales = (Ok (), c @ d)"
    using True assms by (simp add: write_normals_def c_def d_def Let_def)
  have "read_normals_split (pre @ (c @ d) @ post) (length pre) l = Ok \<lparr>np_codes = c, np_scales = scales\<rparr>" for pre post
  proof -
    have "read_at (length pre) (codes_size l) (pre @ c @ d @ post) = Ok c"
      using len by simp
    moreover have "read_at (length pre + codes_size l) (scale_size l) ((pre @ c) @ d @ post) = Ok d"
      using len by (intro read_at_written) simp_all
    moreover have "take (nl_row_count l) d = scales" using True assms(2) by (simp add: d_def)
    ultimately show ?thesis using True by (simp add: read_normals_split_def)
  qed
  then show ?thesis using w len True by (auto simp: payload_size_def c_def)
next
  case False
  define c where "c = codes @ replicate (codes_size l - length codes) 0"
  have len: "length c = codes_size l" using assms(1) by (simp add: c_def)
  have w: "write_normals l codes scales = (Ok (), c)"
    using False assms(1) by (simp add: write_normals_def c_def Let_def)
  have "read_at (length pre) (codes_size l) (pre @ c @ post) = Ok c" for pre post
    using len by simp
  then show ?thesis using False w len
    by (auto simp: read_normals_split_def payload_size_def scale_size_def c_def [symmetric])
qed

section \<open>Backups\<close>

record backup_layout =
  bl_total_elements :: nat
  bl_bpw :: u8
  bl_row_count :: nat

definition backup_present :: "backup_layout \<Rightarrow> bool" where
  "backup_present l \<longleftrightarrow> 0 < bl_bpw l"

definition align_wave64 :: "nat \<Rightarrow> nat" where
  "align_wave64 n = align_to_segment n (segment_bytes W64)"

definition backup_codes_size :: "backup_layout \<Rightarrow> nat" where
  "backup_codes_size l =
     (if \<not> backup_present l then 0 else align_wave64 (div_ceil (bl_total_elements l * unat (bl_bpw l)) 8))"

definition backup_scale_size :: "backup_layout \<Rightarrow> nat" where
  "backup_scale_size l = (if \<not> backup_present l \<or> bl_row_count l = 0 then 0 else align_wave64 (bl_row_count l))"

definition backup_payload_size :: "backup_layout \<Rightarrow> nat" where
  "backup_payload_size l = backup_codes_size l + backup_scale_size l"

definition write_backup :: "backup_layout \<Rightarrow> u8 list \<Rightarrow> u8 list \<Rightarrow> (string, unit) outcome \<times> u8 list" where
  "write_backup l codes scales =
     (if \<not> backup_present l then (Ok (), [])
      else if backup_codes_size l < length codes then (Err ''backup codes buffer exceeds region'', [])
      else let out = codes @ replicate (backup_codes_size l - length codes) 0 in
        if 0 < bl_row_count l then
          (if length scales \<noteq> bl_row_count l then (Err ''backup scales length'', out)
           else (Ok (), out @ scales @ replicate (backup_scale_size l - bl_row_count l) 0))
        else (Ok (), out))"

definition read_backup :: "u8 list \<Rightarrow> nat \<Rightarrow> backup_layout \<Rightarrow> (read_error, normals_payload) outcome" where
  "read_backup file offset l =
     (if \<not> backup_present l then Ok \<lparr>np_codes = [], np_scales = []\<rparr>
      else case read_at offset (backup_codes_size l) file of
        Ok codes \<Rightarrow>
          (if 0 < bl_row_count l then
             (case read_at (offset + backup_codes_size l) (backup_scale_size l) file of
                Ok buf \<Rightarrow> Ok \<lparr>np_codes = codes, np_scales = take (bl_row_count l) buf\<rparr>
              | Err e \<Rightarrow> Err e | Panic \<Rightarrow> Panic | Hang \<Rightarrow> Hang)
           else Ok \<lparr>np_codes = codes, np_scales = []\<rparr>)
      | Err e \<Rightarrow> Err e | Panic \<Rightarrow> Panic | Hang \<Rightarrow> Hang)"

text \<open>A present backup is a normals stream on the larger segment.\<close>

definition backup_as_normals :: "backup_layout \<Rightarrow> normals_layout" where
  "backup_as_normals l = \<lparr>nl_total_elements = bl_total_elements l, nl_outlier_count = 0,
     nl_base_bitwidth = bl_bpw l, nl_row_count = bl_row_count l, nl_row_stride = 0,
     nl_row_bpw_table = [], nl_wave = W64\<rparr>"

lemma backup_sizes:
  assumes "backup_present l"
  shows "backup_codes_size l = codes_size (backup_as_normals l)"
    and "backup_scale_size l = scale_size (backup_as_normals l)"
    and "nl_row_count (backup_as_normals l) = bl_row_count l"
    and "has_scales (backup_as_normals l) \<longleftrightarrow> 0 < bl_row_count l"
  using assms by (simp_all add: backup_codes_size_def codes_size_def backup_as_normals_def is_mixed_bpw_def
      align_wave64_def backup_scale_size_def scale_size_def has_scales_def)

lemma read_backup_eq:
  "backup_present l \<Longrightarrow> read_backup file offset l = read_normals_split file offset (backup_as_normals l)"
  by (simp add: read_backup_def read_normals_split_def backup_sizes split: outcome.split)

lemma write_backup_written:
  assumes "backup_present l" and "write_normals (backup_as_normals l) codes scales = (Ok (), bs)"
  shows "write_backup l codes scales = (Ok (), bs)"
  using assms by (auto simp: write_backup_def write_normals_def backup_sizes Let_def split: if_splits)

section \<open>KV blocks\<close>

definition write_kv_block :: "u8 list \<Rightarrow> u8 list" where
  "write_kv_block blob = blob @ replicate (align_wave64 (length blob) - length blob) 0"

definition read_kv_block :: "u8 list \<Rightarrow> grim_entry \<Rightarrow> (read_error, u8 list) outcome" where
  "read_kv_block file e =
     (if ge_kv_compressed_size e = 0 then Ok []
      else read_at (unat (ge_kv_compressed_offset e)) (unat (ge_kv_compressed_size e)) file)"

lemma written_kv_block:
  assumes "length pre = unat (ge_kv_compressed_offset e)" and "length blob = unat (ge_kv_compressed_size e)"
  shows "read_kv_block (pre @ write_kv_block blob @ post) e = Ok blob"
proof (cases "ge_kv_compressed_size e = 0")
  case True
  then show ?thesis using assms(2) by (simp add: read_kv_block_def)
next
  case False
  then show ?thesis using assms by (simp add: read_kv_block_def write_kv_block_def)
qed

lemma kv_block_aligned: "segment_bytes W64 dvd length (write_kv_block blob)"
proof -
  have "length (write_kv_block blob) = align_wave64 (length blob)"
    using align_ge [OF segment_pos, of "length blob" W64] by (simp add: write_kv_block_def align_wave64_def)
  then show ?thesis by (simp add: align_wave64_def)
qed

end
