(* ===== verification/BitPacking.thy ===== *)
theory BitPacking
  imports NormalsStream
begin

text \<open>
  Packing the codes of a row (\<open>pack_row_bpw_for_wave\<close>): codes of \<open>bpw\<close> bits, most significant bit
  first, written into bytes with straddling codes split over two bytes, and the row padded to a
  segment. The laws say which bit of which code every bit of the packed bytes is.
\<close>

definition pack_step :: "nat \<Rightarrow> nat \<Rightarrow> nat \<Rightarrow> u32 \<Rightarrow> u8 list \<Rightarrow> (string, u8 list) outcome" where
  "pack_step bytes_needed bpw i code out =
     (let bit_offset = i * bpw;
          byte_offset = bit_offset div 8;
          bits_left = 8 - bit_offset mod 8
      in if length out \<le> byte_offset then Panic
         else if bpw \<le> bits_left then
           Ok (out[byte_offset := out ! byte_offset OR ucast (push_bit (bits_left - bpw) code)])
         else
           let low_bits = bpw - bits_left;
               out1 = out[byte_offset := out ! byte_offset OR ucast (drop_bit low_bits code)]
           in if byte_offset + 1 < bytes_needed then
                (if 8 < low_bits then Panic
                 else Ok (out1[byte_offset + 1 := out1 ! (byte_offset + 1) OR ucast (push_bit (8 - low_bits) code)]))
              else Ok out1)"

fun pack_codes :: "nat \<Rightarrow> nat \<Rightarrow> nat \<Rightarrow> u32 list \<Rightarrow> u8 list \<Rightarrow> (string, u8 list) outcome" where
  "pack_codes bytes_needed bpw i [] out = Ok out"
| "pack_codes bytes_needed bpw i (code # codes) out =
     (case pack_step bytes_needed bpw i code out of
        Ok out' \<Rightarrow> pack_codes bytes_needed bpw (i + 1) codes out'
      | Err e \<Rightarrow> Err e | Panic \<Rightarrow> Panic | Hang \<Rightarrow> Hang)"

definition bytes_for :: "nat \<Rightarrow> nat \<Rightarrow> nat" where
  "bytes_for n bpw = div_ceil (n * bpw) 8"

text \<open>\<open>quantize\<close> is the code of one float at a width, a byte.\<close>

definition pack_row_bpw_for_wave :: "(f32 \<Rightarrow> nat \<Rightarrow> u8) \<Rightarrow> u8 list \<Rightarrow> f32 list \<Rightarrow> nat \<Rightarrow> wave_size
    \<Rightarrow> (string, u8 list) outcome" where
  "pack_row_bpw_for_wave quantize out row bpw wave =
     (let needed = bytes_for (length row) bpw in
      case pack_codes needed bpw 0 (map (\<lambda>v. ucast (quantize v bpw)) row) (replicate needed 0) of
        Ok packed \<Rightarrow>
          (let out' = out @ packed in
           Ok (out' @ replicate (align_to_segment (length out') (segment_bytes wave) - length out') 0))
      | Err e \<Rightarrow> Err e | Panic \<Rightarrow> Panic | Hang \<Rightarrow> Hang)"

definition pack_row_bpw :: "(f32 \<Rightarrow> nat \<Rightarrow> u8) \<Rightarrow> u8 list \<Rightarrow> f32 list \<Rightarrow> nat \<Rightarrow> (string, u8 list) outcome" where
  "pack_row_bpw quantize out row bpw = pack_row_bpw_for_wave quantize out row bpw W64"

section \<open>Bits of a packed row\<close>

definition row_bit :: "u8 list \<Rightarrow> nat \<Rightarrow> bool" where
  "row_bit bytes p = bit (bytes ! (p div 8)) (7 - p mod 8)"

definition code_bit :: "nat \<Rightarrow> u32 list \<Rightarrow> nat \<Rightarrow> bool" where
  "code_bit bpw codes p \<longleftrightarrow> p < length codes * bpw \<and> bit (codes ! (p div bpw)) (bpw - 1 - p mod bpw)"

lemma high_bits_clear:
  assumes "unat (w :: u32) < 2 ^ n" and "n \<le> j"
  shows "\<not> bit w j"
proof -
  have "unat w < 2 ^ j" using assms by (meson less_le_trans one_le_numeral power_increasing)
  then have "\<not> bit (unat w) j" by (simp add: bit_iff_odd)
  then show ?thesis by (auto simp: bit_unsigned_iff dest: bit_imp_le_length)
qed

lemma row_bit_update:
  assumes "y < length out" and "p div 8 < length out"
  shows "row_bit (out[y := out ! y OR w]) p \<longleftrightarrow> row_bit out p \<or> p div 8 = y \<and> bit w (7 - p mod 8)"
  using assms by (auto simp: row_bit_def nth_list_update bit_or_iff)

text \<open>The three byte patterns a code can leave: whole, its high bits, its low bits.\<close>

lemma whole_bits:
  assumes "unat code < 2 ^ bpw" and "c + bpw \<le> 8" and "k < 8"
  shows "bit (ucast (push_bit (8 - c - bpw) (code :: u32)) :: u8) (7 - k)
    \<longleftrightarrow> c \<le> k \<and> k < c + bpw \<and> bit code (bpw - 1 - (k - c))"
proof -
  have "bit (ucast (push_bit (8 - c - bpw) code) :: u8) (7 - k)
      \<longleftrightarrow> 8 - c - bpw \<le> 7 - k \<and> bit code (7 - k - (8 - c - bpw))"
    using assms(3) by (auto simp: bit_simps)
  moreover have "8 - c - bpw \<le> 7 - k \<longleftrightarrow> k < c + bpw" using assms by linarith
  moreover have "\<not> bit code (7 - k - (8 - c - bpw))" if "k < c"
    using that assms by (intro high_bits_clear [OF assms(1)]) linarith
  moreover have "7 - k - (8 - c - bpw) = bpw - 1 - (k - c)" if "c \<le> k" "k < c + bpw"
    using that assms by linarith
  ultimately show ?thesis by (metis not_le)
qed

lemma split_high_bits:
  assumes "unat code < 2 ^ bpw" and "8 < c + bpw" and "c < 8" and "k < 8"
  shows "bit (ucast (drop_bit (c + bpw - 8) (code :: u32)) :: u8) (7 - k)
    \<longleftrightarrow> c \<le> k \<and> bit code (bpw - 1 - (k - c))"
proof -
  have "bit (ucast (drop_bit (c + bpw - 8) code) :: u8) (7 - k) \<longleftrightarrow> bit code (c + bpw - 8 + (7 - k))"
    using assms(4) by (auto simp: bit_simps)
  moreover have "\<not> bit code (c + bpw - 8 + (7 - k))" if "k < c"
    using that assms by (intro high_bits_clear [OF assms(1)]) linarith
  moreover have "c + bpw - 8 + (7 - k) = bpw - 1 - (k - c)" if "c \<le> k" using that assms by linarith
  ultimately show ?thesis by (metis not_le)
qed

lemma split_low_bits:
  assumes "low < 8" and "k < 8"
  shows "bit (ucast (push_bit (8 - low) (code :: u32)) :: u8) (7 - k) \<longleftrightarrow> k < low \<and> bit code (low - 1 - k)"
proof -
  have "bit (ucast (push_bit (8 - low) code) :: u8) (7 - k) \<longleftrightarrow> 8 - low \<le> 7 - k \<and> bit code (7 - k - (8 - low))"
    using assms by (auto simp: bit_simps)
  moreover have "8 - low \<le> 7 - k \<longleftrightarrow> k < low" using assms by linarith
  moreover have "7 - k - (8 - low) = low - 1 - k" if "k < low" using that assms by linarith
  ultimately show ?thesis by metis
qed

definition code_at :: "nat \<Rightarrow> nat \<Rightarrow> u32 \<Rightarrow> nat \<Rightarrow> bool" where
  "code_at start bpw code p \<longleftrightarrow> start \<le> p \<and> p < start + bpw \<and> bit code (bpw - 1 - (p - start))"

lemma whole_code:
  assumes "unat code < 2 ^ bpw" and "c + bpw \<le> 8"
  shows "p div 8 = y \<and> bit (ucast (push_bit (8 - c - bpw) code) :: u8) (7 - p mod 8)
    \<longleftrightarrow> code_at (8 * y + c) bpw code p"
proof -
  define z k where "z = p div 8" and "k = p mod 8"
  have zk: "p = 8 * z + k" "k < 8" by (simp_all add: z_def k_def)
  show ?thesis
  proof (cases "z = y")
    case True
    then show ?thesis using whole_bits [OF assms zk(2)] zk
      by (simp add: code_at_def z_def [symmetric] k_def [symmetric] zk(1))
  next
    case False
    then have "p < 8 * y \<or> 8 * y + 8 \<le> p" using zk by linarith
    then show ?thesis using False assms(2) by (auto simp: code_at_def z_def [symmetric])
  qed
qed

lemma split_code:
  assumes "unat code < 2 ^ bpw" and "8 < c + bpw" and "c < 8" and "bpw \<le> 8"
  shows "(p div 8 = y \<and> bit (ucast (drop_bit (c + bpw - 8) code) :: u8) (7 - p mod 8)
      \<or> p div 8 = y + 1 \<and> bit (ucast (push_bit (8 - (c + bpw - 8)) code) :: u8) (7 - p mod 8))
    \<longleftrightarrow> code_at (8 * y + c) bpw code p"
proof -
  define z k where "z = p div 8" and "k = p mod 8"
  have zk: "p = 8 * z + k" "k < 8" by (simp_all add: z_def k_def)
  have low: "c + bpw - 8 < 8" using assms by linarith
  consider "z = y" | "z = y + 1" | "z \<noteq> y \<and> z \<noteq> y + 1 \<and> (p < 8 * y \<or> 8 * y + 16 \<le> p)"
    using zk by linarith
  then show ?thesis
  proof cases
    case 1
    have "8 * y + c \<le> p \<longleftrightarrow> c \<le> k" "p < 8 * y + c + bpw" "p - (8 * y + c) = k - c"
      using 1 zk assms(2) by linarith+
    then show ?thesis using 1 split_high_bits [OF assms(1-3) zk(2)]
      by (simp add: code_at_def z_def [symmetric] k_def [symmetric])
  next
    case 2
    have "8 * y + c \<le> p" "p < 8 * y + c + bpw \<longleftrightarrow> k < c + bpw - 8"
      "bpw - 1 - (p - (8 * y + c)) = c + bpw - 8 - 1 - k"
      using 2 zk assms(2,3) by linarith+
    then show ?thesis using 2 split_low_bits [OF low zk(2), of code]
      by (simp add: code_at_def z_def [symmetric] k_def [symmetric])
  next
    case 3
    then show ?thesis using assms by (auto simp: code_at_def z_def [symmetric])
  qed
qed

lemma pack_step_spec:
  assumes bpw: "0 < bpw" "bpw \<le> 8" and code: "unat code < 2 ^ bpw"
    and fit: "i * bpw + bpw \<le> 8 * length out"
  shows "\<exists>out'. pack_step (length out) bpw i code out = Ok out' \<and> length out' = length out
    \<and> (\<forall>p < 8 * length out. row_bit out' p \<longleftrightarrow> row_bit out p \<or> code_at (i * bpw) bpw code p)"
proof -
  define y c where "y = i * bpw div 8" and "c = i * bpw mod 8"
  have B: "i * bpw = 8 * y + c" "c < 8" by (simp_all add: y_def c_def)
  have y: "y < length out" using fit B bpw by linarith
  note F = y_def [symmetric] c_def [symmetric]
  show ?thesis
  proof (cases "c + bpw \<le> 8")
    case True
    let ?w = "ucast (push_bit (8 - c - bpw) code) :: u8"
    have w: "bpw \<le> 8 - c" using True by linarith
    have "pack_step (length out) bpw i code out = Ok (out[y := out ! y OR ?w])"
      using True y w by (simp add: pack_step_def Let_def F)
    moreover have "row_bit (out[y := out ! y OR ?w]) p \<longleftrightarrow> row_bit out p \<or> code_at (i * bpw) bpw code p"
      if "p < 8 * length out" for p
      using row_bit_update [OF y, of p ?w] whole_code [OF code True, of p y] that B(1) by auto
    ultimately show ?thesis by auto
  next
    case False
    then have s: "8 < c + bpw" by simp
    let ?l = "c + bpw - 8"
    let ?w1 = "ucast (drop_bit ?l code) :: u8" and ?w2 = "ucast (push_bit (8 - ?l) code) :: u8"
    let ?o1 = "out[y := out ! y OR ?w1]"
    have y1: "y + 1 < length out" using fit B s by linarith
    have l: "bpw - (8 - c) = ?l" "\<not> 8 < ?l" "\<not> bpw \<le> 8 - c" using s B(2) bpw by linarith+
    have "pack_step (length out) bpw i code out = Ok (?o1[y + 1 := ?o1 ! (y + 1) OR ?w2])"
      using s y y1 l by (simp add: pack_step_def Let_def F)
    moreover have "row_bit (?o1[y + 1 := ?o1 ! (y + 1) OR ?w2]) p
        \<longleftrightarrow> row_bit out p \<or> code_at (i * bpw) bpw code p" if "p < 8 * length out" for p
      using row_bit_update [of y out p ?w1] row_bit_update [of "y + 1" ?o1 p ?w2] y y1 that
        split_code [OF code s B(2) bpw(2), of p y] B(1) by auto
    ultimately show ?thesis by auto
  qed
qed

lemma code_bit_snoc:
  assumes "0 < bpw"
  shows "code_bit bpw (codes @ [c]) p \<longleftrightarrow> code_bit bpw codes p \<or> code_at (length codes * bpw) bpw c p"
proof -
  consider "p < length codes * bpw" | "length codes * bpw \<le> p \<and> p < length codes * bpw + bpw"
    | "length codes * bpw + bpw \<le> p" by linarith
  then show ?thesis
  proof cases
    case 1
    then have "p div bpw < length codes" by (simp add: less_mult_imp_div_less)
    then show ?thesis using 1 by (auto simp: code_bit_def code_at_def nth_append)
  next
    case 2
    define q where "q = p - length codes * bpw"
    have p: "p = length codes * bpw + q" "q < bpw" using 2 by (auto simp: q_def)
    then have "p div bpw = length codes" "p mod bpw = q" using assms by simp_all
    then show ?thesis using p by (simp add: code_bit_def code_at_def)
  next
    case 3
    then show ?thesis by (auto simp: code_bit_def code_at_def)
  qed
qed

lemma pack_codes_spec:
  assumes "0 < bpw" "bpw \<le> 8" and "\<forall>c \<in> set codes. unat c < 2 ^ bpw"
    and "(length before + length codes) * bpw \<le> 8 * length out"
    and "\<forall>p < 8 * length out. row_bit out p \<longleftrightarrow> code_bit bpw before p"
  shows "\<exists>out'. pack_codes (length out) bpw (length before) codes out = Ok out' \<and> length out' = length out
    \<and> (\<forall>p < 8 * length out. row_bit out' p \<longleftrightarrow> code_bit bpw (before @ codes) p)"
  using assms(3-5)
proof (induction codes arbitrary: before out)
  case (Cons c codes)
  have "length before * bpw + bpw \<le> 8 * length out"
    using Cons.prems(2) by (simp add: algebra_simps)
  then obtain out1 where o1: "pack_step (length out) bpw (length before) c out = Ok out1"
    "length out1 = length out"
    "\<forall>p < 8 * length out. row_bit out1 p \<longleftrightarrow> row_bit out p \<or> code_at (length before * bpw) bpw c p"
    using pack_step_spec [OF assms(1,2), of c "length before" out] Cons.prems(1) by auto
  have "\<forall>p < 8 * length out1. row_bit out1 p \<longleftrightarrow> code_bit bpw (before @ [c]) p"
    using o1 Cons.prems(3) code_bit_snoc [OF assms(1)] by simp
  then show ?case
    using Cons.IH [of "before @ [c]" out1] Cons.prems(1,2) o1(1,2) by (simp add: algebra_simps)
qed simp

lemma row_bit_zeros: "p < 8 * n \<Longrightarrow> \<not> row_bit (replicate n 0) p"
  by (simp add: row_bit_def less_mult_imp_div_less)

lemma packed_codes:
  assumes "0 < bpw" "bpw \<le> 8" and "\<forall>c \<in> set codes. unat c < 2 ^ bpw"
  shows "\<exists>packed. pack_codes (bytes_for (length codes) bpw) bpw 0 codes
      (replicate (bytes_for (length codes) bpw) 0) = Ok packed
    \<and> length packed = bytes_for (length codes) bpw
    \<and> (\<forall>p < 8 * length packed. row_bit packed p \<longleftrightarrow> code_bit bpw codes p)"
proof -
  let ?n = "bytes_for (length codes) bpw"
  have "length codes * bpw \<le> 8 * ?n"
    using div_ceil_mult_ge [of 8 "length codes * bpw"] by (simp add: bytes_for_def mult.commute)
  then show ?thesis
    using pack_codes_spec [OF assms, of "[]" "replicate ?n 0"]
    by (auto simp: row_bit_zeros code_bit_def)
qed

end
