(* ===== verification/OutlierCodec.thy ===== *)
theory OutlierCodec
  imports NormalsStream
begin

text \<open>
  The outlier streams: flat records of an index and a half float (\<open>format.rs\<close>), and the varint-coded
  deltas of \<open>spec.rs\<close>. Half-float conversion (the crate \<open>half\<close>) and the float arithmetic of the value
  deltas are parameters: \<open>delta prev v\<close> is the clamped byte, \<open>step prev b\<close> the running value.
\<close>

section \<open>Varints\<close>

function encode_varint :: "u64 \<Rightarrow> u8 list" where
  "encode_varint v =
     (if 0x80 \<le> v then (ucast v OR 0x80) # encode_varint (drop_bit 7 v) else [ucast v])"
  by auto
termination
proof (relation "measure unat")
  fix v :: u64 assume "0x80 \<le> v"
  then have "0 < unat v" by (simp add: word_le_nat_alt)
  moreover have "unat (drop_bit 7 v) = unat v div 2 ^ 7"
    by (simp add: drop_bit_eq_div unat_div)
  ultimately show "(drop_bit 7 v, v) \<in> measure unat" by simp
qed simp

declare encode_varint.simps [simp del]

fun decode_varint_from :: "u64 \<Rightarrow> nat \<Rightarrow> u8 list \<Rightarrow> nat \<Rightarrow> (string, u64 \<times> nat) outcome" where
  "decode_varint_from v shift [] i = Err ''truncated varint''"
| "decode_varint_from v shift (b # bs) i =
     (let v' = v OR push_bit shift (ucast (b AND 0x7f)) in
      if b AND 0x80 = 0 then Ok (v', i + 1)
      else if 64 \<le> shift + 7 then Err ''varint overflow''
      else decode_varint_from v' (shift + 7) bs (i + 1))"

definition decode_varint :: "u8 list \<Rightarrow> (string, u64 \<times> nat) outcome" where
  "decode_varint bs = decode_varint_from 0 0 bs 0"

section \<open>Delta-varint streams\<close>

type_synonym outlier = "u32 \<times> f32"

fun encode_indices :: "u64 \<Rightarrow> u32 list \<Rightarrow> u8 list" where
  "encode_indices prev [] = []"
| "encode_indices prev (idx # is) = encode_varint (ucast idx - prev) @ encode_indices (ucast idx) is"

fun encode_values :: "(f32 \<Rightarrow> f32 \<Rightarrow> u8) \<Rightarrow> (f32 \<Rightarrow> u8 \<Rightarrow> f32) \<Rightarrow> f32 \<Rightarrow> f32 list \<Rightarrow> u8 list" where
  "encode_values delta step prev [] = []"
| "encode_values delta step prev (v # vs) =
     (let b = delta prev v in b # encode_values delta step (step prev b) vs)"

definition encode_outliers_delta_varint :: "(f32 \<Rightarrow> f32 \<Rightarrow> u8) \<Rightarrow> (f32 \<Rightarrow> u8 \<Rightarrow> f32) \<Rightarrow> outlier list \<Rightarrow> u8 list" where
  "encode_outliers_delta_varint delta step outliers =
     0 # encode_varint (of_nat (length outliers)) @ encode_indices 0 (map fst outliers)
       @ encode_values delta step 0 (map snd outliers)"

fun decode_indices :: "nat \<Rightarrow> u64 \<Rightarrow> u8 list \<Rightarrow> nat \<Rightarrow> (string, u32 list \<times> nat) outcome" where
  "decode_indices 0 prev buf cursor = Ok ([], cursor)"
| "decode_indices (Suc n) prev buf cursor =
     (if length buf \<le> cursor then Err ''outlier index stream truncated''
      else case decode_varint (drop cursor buf) of
        Ok (d, consumed) \<Rightarrow>
          (let cur = prev + d in
           if 0xFFFFFFFF < cur then Err ''outlier index overflow''
           else case decode_indices n cur buf (cursor + consumed) of
             Ok (is, c) \<Rightarrow> Ok (ucast cur # is, c)
           | Err e \<Rightarrow> Err e | Panic \<Rightarrow> Panic | Hang \<Rightarrow> Hang)
      | Err e \<Rightarrow> Err e | Panic \<Rightarrow> Panic | Hang \<Rightarrow> Hang)"

fun decode_values :: "(f32 \<Rightarrow> u8 \<Rightarrow> f32) \<Rightarrow> f32 \<Rightarrow> u32 list \<Rightarrow> u8 list \<Rightarrow> nat \<Rightarrow> (string, outlier list \<times> nat) outcome" where
  "decode_values step prev [] buf cursor = Ok ([], cursor)"
| "decode_values step prev (idx # is) buf cursor =
     (if length buf < cursor + 1 then Err ''outlier value stream truncated''
      else let v = step prev (buf ! cursor) in
        case decode_values step v is buf (cursor + 1) of
          Ok (r, c) \<Rightarrow> Ok ((idx, v) # r, c)
        | Err e \<Rightarrow> Err e | Panic \<Rightarrow> Panic | Hang \<Rightarrow> Hang)"

definition decode_outliers_delta_varint :: "(f32 \<Rightarrow> u8 \<Rightarrow> f32) \<Rightarrow> u8 list \<Rightarrow> (string, outlier list \<times> nat) outcome" where
  "decode_outliers_delta_varint step buf =
     (if buf = [] then Err ''empty outlier buffer''
      else if buf ! 0 \<noteq> 0 then Err ''unsupported outlier value dtype''
      else case decode_varint (drop 1 buf) of
        Ok (count, consumed) \<Rightarrow>
          (let cursor = 1 + consumed; n = min (min (unat count) (length buf - cursor)) 1000000 in
           case decode_indices n 0 buf cursor of
             Ok (is, c) \<Rightarrow> decode_values step 0 is buf c
           | Err e \<Rightarrow> Err e | Panic \<Rightarrow> Panic | Hang \<Rightarrow> Hang)
      | Err e \<Rightarrow> Err e | Panic \<Rightarrow> Panic | Hang \<Rightarrow> Hang)"

section \<open>Flat records\<close>

definition encode_outlier :: "(f32 \<Rightarrow> u16) \<Rightarrow> outlier \<Rightarrow> u8 list" where
  "encode_outlier to_f16 x = le_bytes 4 (fst x) @ le_bytes 2 (to_f16 (snd x))"

definition decode_outlier :: "(u16 \<Rightarrow> f32) \<Rightarrow> u8 list \<Rightarrow> (string, outlier) outcome" where
  "decode_outlier of_f16 buf =
     (if length buf < OUTLIER_RECORD_BYTES then Err ''outlier record too short''
      else Ok (of_le_bytes (take 4 buf), of_f16 (of_le_bytes (take 2 (drop 4 buf)))))"

text \<open>\<open>chunks_exact(6)\<close>.\<close>

function decode_chunks :: "(u16 \<Rightarrow> f32) \<Rightarrow> u8 list \<Rightarrow> (string, outlier list) outcome" where
  "decode_chunks of_f16 buf =
     (if length buf < OUTLIER_RECORD_BYTES then Ok []
      else case decode_outlier of_f16 (take OUTLIER_RECORD_BYTES buf) of
        Ok x \<Rightarrow> (case decode_chunks of_f16 (drop OUTLIER_RECORD_BYTES buf) of
            Ok xs \<Rightarrow> Ok (x # xs) | Err e \<Rightarrow> Err e | Panic \<Rightarrow> Panic | Hang \<Rightarrow> Hang)
      | Err e \<Rightarrow> Err e | Panic \<Rightarrow> Panic | Hang \<Rightarrow> Hang)"
  by pat_completeness auto
termination
  by (relation "measure (\<lambda>(_, buf). length buf)") (auto simp: OUTLIER_RECORD_BYTES_def)

declare decode_chunks.simps [simp del]

definition read_outliers :: "(u16 \<Rightarrow> f32) \<Rightarrow> u8 list \<Rightarrow> grim_entry \<Rightarrow> (string, outlier list) outcome" where
  "read_outliers of_f16 file e =
     (if ge_outlier_count e = 0 then Ok []
      else if 10000000 < ge_outlier_count e then Err ''outlier_count exceeds safety limit''
      else case read_at (unat (ge_outlier_offset e)) (outlier_bytes e) file of
        Ok buf \<Rightarrow> decode_chunks of_f16 buf
      | Err _ \<Rightarrow> Err ''io'' | Panic \<Rightarrow> Panic | Hang \<Rightarrow> Hang)"

datatype outlier_encoding = FlatU32 | DeltaVarint

definition encode_outliers_with_encoding :: "(f32 \<Rightarrow> u16) \<Rightarrow> (f32 \<Rightarrow> f32 \<Rightarrow> u8) \<Rightarrow> (f32 \<Rightarrow> u8 \<Rightarrow> f32) \<Rightarrow> outlier list
    \<Rightarrow> u8 list \<times> outlier_encoding" where
  "encode_outliers_with_encoding to_f16 delta step outliers =
     (if 16 \<le> length outliers then (encode_outliers_delta_varint delta step outliers, DeltaVarint)
      else (concat (map (encode_outlier to_f16) outliers), FlatU32))"

text \<open>A single \<open>read\<close> returns what there is, up to the buffer's length.\<close>

definition read_outliers_with_encoding :: "(u16 \<Rightarrow> f32) \<Rightarrow> (f32 \<Rightarrow> u8 \<Rightarrow> f32) \<Rightarrow> u8 list \<Rightarrow> grim_entry
    \<Rightarrow> outlier_encoding \<Rightarrow> (string, outlier list) outcome" where
  "read_outliers_with_encoding of_f16 step file e enc =
     (if ge_outlier_count e = 0 then Ok []
      else if enc = FlatU32 then read_outliers of_f16 file e
      else
        let max_len = min (unat (ge_outlier_count e) * 10) 100000000;
            buf = take max_len (drop (unat (ge_outlier_offset e)) file)
        in case decode_outliers_delta_varint step buf of
             Ok (xs, _) \<Rightarrow> Ok (take (unat (ge_outlier_count e)) xs)
           | Err m \<Rightarrow> Err m | Panic \<Rightarrow> Panic | Hang \<Rightarrow> Hang)"

section \<open>Round trips\<close>

lemma and_septet: "(b :: u8) AND 0x7f = take_bit 7 b"
proof -
  have "(0x7f :: u8) = mask 7" by (simp add: mask_eq_exp_minus_1)
  then show ?thesis by (simp only: take_bit_eq_mask)
qed

lemma septet_ucast: "(ucast (take_bit 7 (ucast (v :: u64) :: u8)) :: u64) = take_bit 7 v"
  by (rule bit_word_eqI) (auto simp: bit_simps)

lemma low_seven: "(ucast (((ucast (v :: u64) :: u8) OR 0x80) AND 0x7f) :: u64) = take_bit 7 v"
proof -
  have "take_bit 7 (0x80 :: u8) = 0" by simp
  then show ?thesis by (simp only: and_septet take_bit_or or.right_neutral septet_ucast)
qed

lemma low_seven_last: "(ucast ((ucast (v :: u64) :: u8) AND 0x7f) :: u64) = take_bit 7 v"
  by (simp only: and_septet septet_ucast)

lemma take_small: "(v :: u64) < 0x80 \<Longrightarrow> take_bit 7 v = v"
  by (simp add: word_unat_eq_iff unsigned_take_bit_eq take_bit_nat_eq_self word_less_nat_alt)

lemma continuation_bit: "((ucast (v :: u64) :: u8) OR 0x80) AND 0x80 \<noteq> 0"
proof -
  have "bit (((ucast v :: u8) OR 0x80) AND 0x80) 7" by (simp add: bit_and_iff bit_or_iff)
  then show ?thesis by (metis bit_0_eq bot_apply bot_bool_def)
qed

lemma no_continuation:
  assumes "v < 0x80"
  shows "(ucast (v :: u64) :: u8) AND 0x80 = 0"
proof -
  have "(ucast v :: u8) AND 0x7f = ucast (take_bit 7 v)"
    by (simp only: and_septet) (rule bit_word_eqI, auto simp: bit_simps)
  then have "(ucast v :: u8) AND 0x80 = (ucast v AND 0x7f) AND 0x80" by (simp add: take_small [OF assms])
  also have "\<dots> = ucast v AND (0x7f AND 0x80)" by (simp only: and.assoc)
  finally show ?thesis by simp
qed

lemma joined_septets:
  fixes v :: u64
  shows "push_bit n (take_bit 7 v) OR push_bit (n + 7) (drop_bit 7 v) = push_bit n v"
proof (rule bit_word_eqI)
  fix j assume "j < LENGTH(64)"
  then show "bit (push_bit n (take_bit 7 v) OR push_bit (n + 7) (drop_bit 7 v)) j \<longleftrightarrow> bit (push_bit n v) j"
    by (cases "n + 7 \<le> j") (auto simp: bit_simps)
qed

lemma decode_encoded_varint:
  assumes "unat v < 2 ^ (64 - shift)" and "shift < 64"
  shows "decode_varint_from acc shift (encode_varint v @ rest) i
    = Ok (acc OR push_bit shift v, i + length (encode_varint v))"
  using assms
proof (induction v arbitrary: acc shift i rule: encode_varint.induct)
  case (1 v)
  show ?case
  proof (cases "0x80 \<le> v")
    case True
    have "2 ^ 7 \<le> unat v" using True by (simp add: word_le_nat_alt)
    then have "(2 :: nat) ^ 7 < 2 ^ (64 - shift)" using "1.prems"(1) by linarith
    then have shift: "7 < 64 - shift" by (rule power_less_imp_less_exp [rotated]) simp
    have "unat (drop_bit 7 v) = unat v div 2 ^ 7" by (simp add: drop_bit_eq_div unat_div)
    moreover have "(2 :: nat) ^ (64 - shift) = 2 ^ (64 - (shift + 7)) * 2 ^ 7"
    proof -
      have e: "64 - shift = 64 - (shift + 7) + 7" using shift by linarith
      show ?thesis by (subst e) (simp only: power_add)
    qed
    ultimately have d: "unat (drop_bit 7 v) < 2 ^ (64 - (shift + 7))"
      using "1.prems"(1) by (simp add: less_mult_imp_div_less)
    have IH: "decode_varint_from a (shift + 7) (encode_varint (drop_bit 7 v) @ rest) j
        = Ok (a OR push_bit (shift + 7) (drop_bit 7 v), j + length (encode_varint (drop_bit 7 v)))" for a j
      using "1.IH" [OF True d] shift by simp
    have "(acc OR push_bit shift (take_bit 7 v)) OR push_bit (shift + 7) (drop_bit 7 v) = acc OR push_bit shift v"
      using joined_septets [of shift v] by (metis or.assoc)
    then show ?thesis using True shift
      by (simp add: encode_varint.simps [of v] low_seven continuation_bit IH Let_def)
  next
    case False
    then have v: "v < 0x80" by simp
    then have "take_bit 7 v = v" by (rule take_small)
    then show ?thesis using False
      by (simp add: encode_varint.simps [of v] low_seven_last no_continuation [OF v] Let_def)
  qed
qed

lemma varint_roundtrip:
  "decode_varint (encode_varint v @ rest) = Ok (v, length (encode_varint v))"
  using decode_encoded_varint [of v 0 0 rest 0] unat_below [of v] by (simp add: decode_varint_def)

lemma unat_wide: "unat (ucast (i :: u32) :: u64) = unat i"
  using unat_bounds(3) [of i] by (simp add: unsigned_ucast_eq take_bit_nat_eq_self)

lemma encode_varint_nonempty [simp]: "encode_varint v \<noteq> []"
  by (simp add: encode_varint.simps [of v])

lemma length_encode_varint: "unat v < 2 ^ (7 * (k + 1)) \<Longrightarrow> length (encode_varint v) \<le> k + 1"
proof (induction k arbitrary: v)
  case 0
  then have "\<not> 0x80 \<le> v" by (simp add: word_le_nat_alt)
  then show ?case by (simp add: encode_varint.simps [of v])
next
  case (Suc k)
  have "unat (drop_bit 7 v) = unat v div 2 ^ 7" by (simp add: drop_bit_eq_div unat_div)
  moreover have "(2 :: nat) ^ (7 * (Suc k + 1)) = 2 ^ (7 * (k + 1)) * 2 ^ 7" by (simp add: power_add)
  ultimately have "unat (drop_bit 7 v) < 2 ^ (7 * (k + 1))" using Suc.prems by (simp add: less_mult_imp_div_less)
  then show ?case using Suc.IH [of "drop_bit 7 v"] by (simp add: encode_varint.simps [of v])
qed

lemma length_indices_ge: "length is \<le> length (encode_indices prev is)"
proof (induction "is" arbitrary: prev)
  case (Cons i "is")
  have "1 \<le> length (encode_varint (ucast i - prev))" by (cases "encode_varint (ucast i - prev)") simp_all
  then show ?case using Cons [of "ucast i"] by simp
qed simp

lemma decode_encoded_indices:
  "decode_indices (length is) prev (pre @ encode_indices prev is @ rest) (length pre)
    = Ok (is, length pre + length (encode_indices prev is))"
proof (induction "is" arbitrary: prev pre)
  case (Cons i "is")
  let ?v = "encode_varint (ucast i - prev)"
  have p: "0 < length ?v" by simp
  have i: "\<not> 0xFFFFFFFF < (ucast i :: u64)" using unat_bounds(3) [of i] by (simp add: word_less_nat_alt unat_wide)
  have j: "(ucast (ucast i :: u64) :: u32) = i" by (rule bit_word_eqI) (simp add: bit_simps)
  have IH: "decode_indices (length is) (ucast i) (pre @ ?v @ encode_indices (ucast i) is @ rest) (length pre + length ?v)
      = Ok (is, length pre + length ?v + length (encode_indices (ucast i) is))"
    using Cons [of "ucast i" "pre @ ?v"] by simp
  show ?case using p i j IH
    by (simp add: varint_roundtrip Let_def not_le)
qed simp

fun reconstruct :: "(f32 \<Rightarrow> f32 \<Rightarrow> u8) \<Rightarrow> (f32 \<Rightarrow> u8 \<Rightarrow> f32) \<Rightarrow> f32 \<Rightarrow> f32 list \<Rightarrow> f32 list" where
  "reconstruct delta step prev [] = []"
| "reconstruct delta step prev (v # vs) =
     (let w = step prev (delta prev v) in w # reconstruct delta step w vs)"

lemma length_encode_values [simp]: "length (encode_values delta step prev vs) = length vs"
  by (induction vs arbitrary: prev) (simp_all add: Let_def)

lemma decode_encoded_values:
  "length is = length vs \<Longrightarrow> decode_values step prev is (pre @ encode_values delta step prev vs @ rest) (length pre)
    = Ok (zip is (reconstruct delta step prev vs), length pre + length vs)"
proof (induction "is" vs arbitrary: prev pre rule: list_induct2)
  case (Cons i "is" v vs)
  let ?w = "step prev (delta prev v)"
  have "decode_values step ?w is ((pre @ [delta prev v]) @ encode_values delta step ?w vs @ rest) (length (pre @ [delta prev v]))
      = Ok (zip is (reconstruct delta step ?w vs), length (pre @ [delta prev v]) + length vs)"
    by (rule Cons.IH)
  then show ?case by (simp add: Let_def)
qed simp

lemma delta_varint_roundtrip:
  assumes "length xs \<le> 1000000"
  shows "decode_outliers_delta_varint step (encode_outliers_delta_varint delta step xs @ rest)
    = Ok (zip (map fst xs) (reconstruct delta step 0 (map snd xs)),
        length (encode_outliers_delta_varint delta step xs))"
proof -
  let ?c = "encode_varint (of_nat (length xs))"
  let ?i = "encode_indices 0 (map fst xs)" and ?v = "encode_values delta step 0 (map snd xs)"
  let ?buf = "0 # ?c @ ?i @ ?v @ rest"
  have n: "unat (of_nat (length xs) :: u64) = length xs" using assms by (simp add: unat_of_nat)
  have m: "min (min (length xs) (length ?buf - (1 + length ?c))) 1000000 = length (map fst xs)"
    using length_indices_ge [of "map fst xs" 0] assms by simp
  have i: "decode_indices (length (map fst xs)) 0 ?buf (1 + length ?c) = Ok (map fst xs, 1 + length ?c + length ?i)"
    using decode_encoded_indices [of "map fst xs" 0 "0 # ?c" "?v @ rest"] by simp
  have v: "decode_values step 0 (map fst xs) ?buf (1 + length ?c + length ?i)
      = Ok (zip (map fst xs) (reconstruct delta step 0 (map snd xs)), 1 + length ?c + length ?i + length xs)"
    using decode_encoded_values [of "map fst xs" "map snd xs" step 0 "0 # ?c @ ?i" delta rest] by simp
  have "decode_outliers_delta_varint step ?buf = Ok (zip (map fst xs) (reconstruct delta step 0 (map snd xs)),
      1 + length ?c + length ?i + length xs)"
    unfolding decode_outliers_delta_varint_def
    using m i v by (simp add: varint_roundtrip n Let_def del: length_map)
  then show ?thesis by (simp add: encode_outliers_delta_varint_def)
qed

lemma length_indices_sorted:
  "sorted_wrt (\<le>) is \<Longrightarrow> (\<forall>i \<in> set is. prev \<le> ucast i) \<Longrightarrow> length (encode_indices prev is) \<le> 5 * length is"
proof (induction "is" arbitrary: prev)
  case (Cons i "is")
  have "prev \<le> ucast i" using Cons.prems by simp
  then have "unat (ucast i - prev) \<le> unat (ucast i :: u64)" by (simp add: unat_sub)
  also have "\<dots> < 2 ^ (7 * (4 + 1))" using unat_bounds(3) [of i] by (simp add: unat_wide)
  finally have "length (encode_varint (ucast i - prev)) \<le> 4 + 1" by (rule length_encode_varint)
  moreover have "\<forall>j \<in> set is. (ucast i :: u64) \<le> ucast j"
    using Cons.prems(1) by (simp add: word_le_nat_alt unat_wide)
  ultimately show ?case using Cons.IH [of "ucast i"] Cons.prems(1) by simp
qed simp

text \<open>Sorted outliers fit the ten bytes each that the reader takes at most.\<close>

lemma length_encoded_outliers:
  assumes "sorted_wrt (\<le>) (map fst xs)" and "xs \<noteq> []" and "length xs \<le> 1000000"
  shows "length (encode_outliers_delta_varint delta step xs) \<le> length xs * 10"
proof -
  have "unat (of_nat (length xs) :: u64) < 2 ^ (7 * (2 + 1))" using assms(3) by (simp add: unat_of_nat)
  then have "length (encode_varint (of_nat (length xs))) \<le> 2 + 1" by (rule length_encode_varint)
  moreover have "length (encode_indices 0 (map fst xs)) \<le> 5 * length xs"
    using length_indices_sorted [OF assms(1), of 0] by simp
  moreover have "1 \<le> length xs" using assms(2) by (cases xs) simp_all
  ultimately show ?thesis unfolding encode_outliers_delta_varint_def by simp
qed

lemma written_outliers_read_back:
  assumes "sorted_wrt (\<le>) (map fst xs)" and "length xs \<le> 1000000" and "unat (ge_outlier_count e) = length xs"
    and "length pre = unat (ge_outlier_offset e)"
  shows "read_outliers_with_encoding of_f16 step (pre @ encode_outliers_delta_varint delta step xs @ post) e DeltaVarint
    = Ok (zip (map fst xs) (reconstruct delta step 0 (map snd xs)))"
proof (cases "xs = []")
  case True
  then have "ge_outlier_count e = 0" using assms(3) by (simp add: unat_eq_0)
  then show ?thesis using True by (simp add: read_outliers_with_encoding_def)
next
  case False
  let ?b = "encode_outliers_delta_varint delta step xs"
  have "ge_outlier_count e \<noteq> 0" using False assms(3) by (metis length_0_conv unat_0)
  moreover have "take (min (length xs * 10) 100000000) (?b @ post)
      = ?b @ take (min (length xs * 10) 100000000 - length ?b) post"
    using length_encoded_outliers [OF assms(1) False assms(2), of delta step] assms(2) by simp
  ultimately show ?thesis
    using assms(3,4) by (simp add: read_outliers_with_encoding_def delta_varint_roundtrip [OF assms(2)] Let_def)
qed

lemma decode_encoded_chunks:
  "decode_chunks of_f16 (concat (map (encode_outlier to_f16) xs)) = Ok (map (\<lambda>(i, v). (i, of_f16 (to_f16 v))) xs)"
proof (induction xs)
  case Nil
  then show ?case by (simp add: decode_chunks.simps [of _ "[]"] OUTLIER_RECORD_BYTES_def)
next
  case (Cons x xs)
  let ?b = "encode_outlier to_f16 x" and ?r = "concat (map (encode_outlier to_f16) xs)"
  have len: "length ?b = OUTLIER_RECORD_BYTES" by (simp add: encode_outlier_def OUTLIER_RECORD_BYTES_def)
  have "decode_outlier of_f16 ?b = Ok (fst x, of_f16 (to_f16 (snd x)))"
    by (simp add: decode_outlier_def len) (simp add: encode_outlier_def)
  then show ?case using Cons len by (simp add: decode_chunks.simps [of _ "?b @ ?r"] case_prod_beta)
qed

lemma written_flat_outliers_read_back:
  assumes "unat (ge_outlier_count e) = length xs" and "length xs \<le> 10000000"
    and "length pre = unat (ge_outlier_offset e)"
  shows "read_outliers of_f16 (pre @ concat (map (encode_outlier to_f16) xs) @ post) e
    = Ok (map (\<lambda>(i, v). (i, of_f16 (to_f16 v))) xs)"
proof -
  have len: "length (concat (map (encode_outlier to_f16) xs)) = outlier_bytes e"
    by (simp add: outlier_bytes_def assms(1) length_concat comp_def encode_outlier_def OUTLIER_RECORD_BYTES_def sum_list_triv)
  have "\<not> 10000000 < ge_outlier_count e" using assms(1,2) by (simp add: word_less_nat_alt)
  moreover have "xs = []" if "ge_outlier_count e = 0" using that assms(1) by simp
  moreover have "read_at (unat (ge_outlier_offset e)) (outlier_bytes e) (pre @ concat (map (encode_outlier to_f16) xs) @ post)
      = Ok (concat (map (encode_outlier to_f16) xs))" using len assms(3) by (rule read_at_written)
  ultimately show ?thesis by (auto simp: read_outliers_def decode_encoded_chunks)
qed

end
