(* ===== verification/Attachments.thy ===== *)
theory Attachments
  imports NormalsStream
begin

text \<open>
  Sidecar files embedded at the end of a native file (\<open>crates/grim-format/src/format.rs\<close>): blobs
  appended in order, an index trailer, and the position of the trailer in the last eight bytes. The
  digest (SHA-256, the crate \<open>sha2\<close>) is a parameter.
\<close>

section \<open>Writing\<close>

record attachment =
  att_kind :: "u8 list"
  att_offset :: u64
  att_size :: u64
  att_sha256 :: "u8 list"

definition ATTACHMENT_MAGIC :: "u8 list" where
  "ATTACHMENT_MAGIC = [0x47, 0x52, 0x49, 0x4d, 0x41, 0x54, 0x54]"

type_synonym sidecar = "u8 list \<times> u8 list"

fun append_blobs :: "(u8 list \<Rightarrow> u8 list) \<Rightarrow> u8 list \<Rightarrow> sidecar list \<Rightarrow> u8 list \<times> attachment list" where
  "append_blobs sha file [] = (file, [])"
| "append_blobs sha file ((kind, bytes) # rest) =
     (let entry = \<lparr>att_kind = kind, att_offset = of_nat (length file), att_size = of_nat (length bytes), att_sha256 = sha bytes\<rparr>;
          (file', entries) = append_blobs sha (file @ bytes) rest
      in (file', entry # entries))"

definition write_attachment :: "attachment \<Rightarrow> u8 list" where
  "write_attachment a = le_bytes 2 (of_nat (length (att_kind a)) :: u16) @ att_kind a
     @ le_bytes 8 (att_offset a) @ le_bytes 8 (att_size a) @ att_sha256 a"

definition write_attachments :: "(u8 list \<Rightarrow> u8 list) \<Rightarrow> sidecar list \<Rightarrow> u8 list \<Rightarrow> nat \<times> u8 list" where
  "write_attachments sha attachments file =
     (let (file', written) = append_blobs sha file attachments;
          trailer_start = length file'
      in (length written, file' @ ATTACHMENT_MAGIC @ le_bytes 4 (of_nat (length attachments) :: u32)
            @ concat (map write_attachment written) @ le_bytes 8 (of_nat trailer_start :: u64)))"

section \<open>Reading the index\<close>

definition read_attachment :: "attachment reader" where
  "read_attachment s =
     and_then (read_le 2 s) (\<lambda>(kind_len :: u16) s. and_then (read_exact (unat kind_len) s) (\<lambda>kind s.
     and_then (read_le 8 s) (\<lambda>offset s. and_then (read_le 8 s) (\<lambda>size s. and_then (read_exact 32 s) (\<lambda>sha.
       give \<lparr>att_kind = utf8_lossy kind, att_offset = offset, att_size = size, att_sha256 = sha\<rparr>)))))"

definition last_u64 :: "u8 list \<Rightarrow> u64" where
  "last_u64 buf = of_le_bytes (drop (length buf - 8) buf)"

definition parse_attachment_index :: "u8 list \<Rightarrow> nat \<Rightarrow> (read_error, attachment list) outcome" where
  "parse_attachment_index buf base =
     (if length buf < 15 then Ok []
      else let stored = unat (last_u64 buf) in
        if stored < base then Ok []
        else if 2 ^ 64 \<le> stored + 15 \<or> 2 ^ 64 \<le> base + length buf then Panic
        else if base + length buf < stored + 15 then Ok []
        else let ts = stored - base in
          if take 7 (drop ts buf) \<noteq> ATTACHMENT_MAGIC then Ok []
          else fst (and_then (read_le 4 (drop (ts + 7) buf)) (\<lambda>(count :: u32) s.
            if 16 < count then fail ''attachment count'' s
            else read_times (unat count) read_attachment s)))"

definition read_attachment_index :: "u8 list \<Rightarrow> (read_error, attachment list) outcome" where
  "read_attachment_index file =
     (if length file < 15 then Ok []
      else let trailer_start = unat (last_u64 file) in
        if length file \<le> trailer_start then Ok []
        else parse_attachment_index (drop trailer_start file) trailer_start)"

section \<open>Reading the blobs\<close>

definition attachment_matches :: "(u8 list \<Rightarrow> u8 list) \<Rightarrow> u8 list \<Rightarrow> attachment \<Rightarrow> bool" where
  "attachment_matches sha bytes a \<longleftrightarrow> sha bytes = att_sha256 a"

definition verify_attachment_sha :: "(u8 list \<Rightarrow> u8 list) \<Rightarrow> u8 list \<Rightarrow> attachment \<Rightarrow> (read_error, u8 list) outcome" where
  "verify_attachment_sha sha bytes a =
     (if sha bytes \<noteq> att_sha256 a then Err (Malformed ''SHA-256'') else Ok bytes)"

definition attachment_bytes_from_buf :: "(u8 list \<Rightarrow> u8 list) \<Rightarrow> u8 list \<Rightarrow> attachment \<Rightarrow> (read_error, u8 list) outcome" where
  "attachment_bytes_from_buf sha buf a =
     (let start = unat (att_offset a); stop = start + unat (att_size a) in
      if 2 ^ 64 \<le> stop then Panic
      else if length buf < stop \<or> stop < start then Err (Malformed ''range exceeds file length'')
      else verify_attachment_sha sha (take (stop - start) (drop start buf)) a)"

definition read_attachment_bytes :: "(u8 list \<Rightarrow> u8 list) \<Rightarrow> u8 list \<Rightarrow> attachment \<Rightarrow> (read_error, u8 list) outcome" where
  "read_attachment_bytes sha file a = (case read_at (unat (att_offset a)) (unat (att_size a)) file of
     Ok bytes \<Rightarrow> verify_attachment_sha sha bytes a | Err e \<Rightarrow> Err e | Panic \<Rightarrow> Panic | Hang \<Rightarrow> Hang)"

text \<open>
  \<open>extract_attachment_from_file\<close> on the contents of the destination (\<open>None\<close> when it cannot be read):
  the bytes the destination holds afterwards, \<open>None\<close> when there is no such attachment.
\<close>

definition extract_attachment :: "(u8 list \<Rightarrow> u8 list) \<Rightarrow> u8 list \<Rightarrow> u8 list \<Rightarrow> u8 list option
    \<Rightarrow> (read_error, u8 list option) outcome" where
  "extract_attachment sha file kind dest = (case read_attachment_index file of
     Ok index \<Rightarrow> (case find (\<lambda>a. att_kind a = kind) index of
         None \<Rightarrow> Ok None
       | Some a \<Rightarrow> (case dest of
           Some existing \<Rightarrow>
             if attachment_matches sha existing a then Ok (Some existing)
             else (case read_attachment_bytes sha file a of
               Ok b \<Rightarrow> Ok (Some b) | Err e \<Rightarrow> Err e | Panic \<Rightarrow> Panic | Hang \<Rightarrow> Hang)
         | None \<Rightarrow> (case read_attachment_bytes sha file a of
               Ok b \<Rightarrow> Ok (Some b) | Err e \<Rightarrow> Err e | Panic \<Rightarrow> Panic | Hang \<Rightarrow> Hang)))
   | Err e \<Rightarrow> Err e | Panic \<Rightarrow> Panic | Hang \<Rightarrow> Hang)"

section \<open>Laws\<close>

definition good_attachment :: "attachment \<Rightarrow> bool" where
  "good_attachment a \<longleftrightarrow> valid_utf8 (att_kind a) \<and> length (att_kind a) < 2 ^ 16 \<and> length (att_sha256 a) = 32"

interpretation attachment_entry: codec write_attachment read_attachment good_attachment
proof unfold_locales
  fix a s assume a: "good_attachment a"
  then have "unat (of_nat (length (att_kind a)) :: u16) = length (att_kind a)"
    by (simp add: good_attachment_def unat_of_nat)
  then show "read_attachment (write_attachment a @ s) = (Ok a, s)"
    using a by (simp add: read_attachment_def write_attachment_def good_attachment_def utf8_lossy_valid)
qed

text \<open>What an index entry says of a sidecar and of the file that holds it.\<close>

definition describes :: "(u8 list \<Rightarrow> u8 list) \<Rightarrow> u8 list \<Rightarrow> sidecar \<Rightarrow> attachment \<Rightarrow> bool" where
  "describes sha file x a \<longleftrightarrow> att_kind a = fst x \<and> att_sha256 a = sha (snd x)
     \<and> unat (att_size a) = length (snd x) \<and> unat (att_offset a) + length (snd x) \<le> length file
     \<and> take (length (snd x)) (drop (unat (att_offset a)) file) = snd x"

lemma describes_append: "describes sha file x a \<Longrightarrow> describes sha (file @ suf) x a"
  by (auto simp: describes_def)

lemma append_blobs_spec:
  assumes "append_blobs sha buf xs = (file', es)" and "length file' < 2 ^ 64"
  shows "(\<exists>suf. file' = buf @ suf) \<and> list_all2 (describes sha file') xs es"
  using assms
proof (induction xs arbitrary: buf es)
  case (Cons x xs)
  obtain kind bytes where x: "x = (kind, bytes)" by (cases x)
  obtain es' where r: "append_blobs sha (buf @ bytes) xs = (file', es')"
    and es: "es = \<lparr>att_kind = kind, att_offset = of_nat (length buf), att_size = of_nat (length bytes),
      att_sha256 = sha bytes\<rparr> # es'"
    using Cons.prems(1) by (auto simp: x Let_def split: prod.splits)
  obtain suf where suf: "file' = buf @ bytes @ suf" and l: "list_all2 (describes sha file') xs es'"
    using Cons.IH [OF r Cons.prems(2)] by auto
  have n: "unat (of_nat (length buf) :: u64) = length buf" "unat (of_nat (length bytes) :: u64) = length bytes"
    using Cons.prems(2) by (simp_all add: suf unat_of_nat)
  have "describes sha file' x (hd es)" by (simp add: describes_def x es n suf)
  then show ?case using l suf es by auto
qed simp

lemma described_bytes:
  assumes "describes sha file x a" and "length file < 2 ^ 64"
  shows "attachment_bytes_from_buf sha file a = Ok (snd x)" and "read_attachment_bytes sha file a = Ok (snd x)"
proof -
  show "attachment_bytes_from_buf sha file a = Ok (snd x)"
    using assms by (simp add: describes_def attachment_bytes_from_buf_def verify_attachment_sha_def Let_def)
  show "read_attachment_bytes sha file a = Ok (snd x)"
    using assms by (auto simp: describes_def read_attachment_bytes_def verify_attachment_sha_def read_at_def)
qed

lemma last_u64_append: "last_u64 (s @ le_bytes 8 w) = w"
  by (simp add: last_u64_def)

lemma parse_written_index:
  assumes w: "file' @ ATTACHMENT_MAGIC @ le_bytes 4 (of_nat (length es) :: u32)
      @ concat (map write_attachment es) @ le_bytes 8 (of_nat (length file') :: u64) = out"
    and "\<forall>a \<in> set es. good_attachment a" and "length es \<le> 16" and "length out < 2 ^ 64"
    and "base \<le> length file'"
  shows "parse_attachment_index (drop base out) base = Ok es"
proof -
  have magic: "length ATTACHMENT_MAGIC = 7" by (simp add: ATTACHMENT_MAGIC_def)
  define body where "body = ATTACHMENT_MAGIC @ le_bytes 4 (of_nat (length es) :: u32) @ concat (map write_attachment es)"
  have out: "out = file' @ body @ le_bytes 8 (of_nat (length file') :: u64)" by (simp add: w [symmetric] body_def)
  have n: "unat (of_nat (length file') :: u64) = length file'"
    using assms(4) by (simp add: out unat_of_nat)
  have d: "drop base out = (drop base file' @ body) @ le_bytes 8 (of_nat (length file') :: u64)"
    using assms(5) by (simp add: out)
  have l: "unat (last_u64 (drop base out)) = length file'" by (simp only: d last_u64_append n)
  have len: "base + length (drop base out) = length file' + length body + 8"
    using assms(5) by (simp add: out)
  have b: "11 \<le> length body" by (simp add: body_def magic)
  have nl: "\<not> length (drop base out) < 15" using len b assms(5) by linarith
  have ts: "drop (length file' - base) (drop base out) = body @ le_bytes 8 (of_nat (length file') :: u64)"
    using assms(5) by (simp add: out)
  have c: "unat (of_nat (length es) :: u32) = length es" "\<not> 16 < (of_nat (length es) :: u32)"
    using assms(3) by (simp_all add: unat_of_nat word_less_nat_alt)
  have r: "read_times (length es) read_attachment (concat (map write_attachment es) @ s) = (Ok es, s)" for s
    using assms(2) by (rule attachment_entry.get_all)
  have t7: "take 7 (body @ le_bytes 8 (of_nat (length file') :: u64)) = ATTACHMENT_MAGIC" by (simp add: body_def magic)
  have d7: "drop (length file' - base + 7) (drop base out)
      = le_bytes 4 (of_nat (length es) :: u32) @ concat (map write_attachment es) @ le_bytes 8 (of_nat (length file') :: u64)"
  proof -
    have "drop (length file' - base + 7) (drop base out) = drop 7 (drop (length file' - base) (drop base out))"
      by (simp only: drop_drop ac_simps)
    then show ?thesis by (simp add: ts body_def magic del: drop_drop)
  qed
  show ?thesis
    unfolding parse_attachment_index_def l Let_def ts t7 d7
    using len b assms(4,5) nl by (simp add: out c r)
qed

lemma attachments_read_back:
  assumes w: "write_attachments sha xs file = (n, out)" and sha: "\<And>b. length (sha b) = 32"
    and "\<forall>(kind, _) \<in> set xs. valid_utf8 kind \<and> length kind < 2 ^ 16" and "length xs \<le> 16"
    and "length out < 2 ^ 64"
  shows "\<exists>es. read_attachment_index out = Ok es \<and> parse_attachment_index out 0 = Ok es
    \<and> list_all2 (describes sha out) xs es"
proof -
  obtain file' es where a: "append_blobs sha file xs = (file', es)" by fastforce
  have out: "file' @ ATTACHMENT_MAGIC @ le_bytes 4 (of_nat (length xs) :: u32)
      @ concat (map write_attachment es) @ le_bytes 8 (of_nat (length file') :: u64) = out"
    using w by (simp add: write_attachments_def a Let_def)
  have "length file' < 2 ^ 64" using assms(5) by (simp add: out [symmetric])
  then have D: "list_all2 (describes sha file') xs es" using append_blobs_spec [OF a] by blast
  have len: "length es = length xs" using D by (simp add: list_all2_lengthD)
  have good: "\<forall>e \<in> set es. good_attachment e"
    using D assms(3) by (induction rule: list_all2_induct) (auto simp: describes_def good_attachment_def sha)
  have P: "parse_attachment_index (drop base out) base = Ok es" if "base \<le> length file'" for base
    using out [folded len] good _ assms(5) that by (rule parse_written_index) (simp add: len assms(4))
  define pre where "pre = file' @ ATTACHMENT_MAGIC @ le_bytes 4 (of_nat (length xs) :: u32) @ concat (map write_attachment es)"
  have o: "out = pre @ le_bytes 8 (of_nat (length file') :: u64)" by (simp add: out [symmetric] pre_def)
  have small: "length file' < 2 ^ 64" using assms(5) by (simp add: o pre_def)
  have n: "unat (last_u64 out) = length file'"
    unfolding o last_u64_append using small by (simp add: unat_of_nat)
  have big: "length file' + 15 \<le> length out" by (simp add: o pre_def ATTACHMENT_MAGIC_def)
  then have "read_attachment_index out = Ok es"
    using P [of "length file'"] by (simp add: read_attachment_index_def n)
  moreover have "list_all2 (describes sha out) xs es"
    using D by (rule list_all2_mono) (auto simp: out [symmetric] intro: describes_append)
  ultimately show ?thesis using P [of 0] by auto
qed

end
