(* ===== verification/GrimSpec.thy ===== *)
theory GrimSpec
  imports GrimRewrite BitPacking OutlierCodec Attachments
begin

text \<open>
  What the native file format promises: files, rewrites, packed rows, outlier streams and embedded
  sidecars are read back as they were written; and the cases the code leaves out.
\<close>

section \<open>A concrete file\<close>

definition text_codec :: "u8 list meta_codec" where
  "text_codec = \<lparr>md_encode = (\<lambda>m. m), md_decode = Some, md_default = [], md_wavefront = (\<lambda>_. 64)\<rparr>"

definition one_entry :: "u64 \<Rightarrow> u64 \<Rightarrow> grim_entry" where
  "one_entry payload outliers = \<lparr>ge_name = [119], ge_shape = [3], ge_base_bitwidth = 8,
     ge_payload_offset = payload, ge_payload_size = 3, ge_outlier_count = 1, ge_outlier_offset = outliers,
     ge_kv_present = 0, ge_kv_rotated = 0, ge_kv_bits_k = 0, ge_kv_bits_v = 0,
     ge_kv_head_bits_table_offset = 0, ge_kv_eviction_map_offset = 0, ge_kv_eviction_map_size = 0,
     ge_kv_sink_fp16 = 0, ge_kv_compressed_offset = 0, ge_kv_compressed_size = 0\<rparr>"

definition one_tensor :: "u8 list \<Rightarrow> u64 \<Rightarrow> u64 \<Rightarrow> u8 list grim_file" where
  "one_tensor meta payload outliers = \<lparr>gr_header = \<lparr>gh_metadata_len = 2, gh_num_tensors = 1\<rparr>, gr_metadata = meta,
     gr_tensors = [one_entry payload outliers], gr_wave = W64\<rparr>"

definition one_head :: "u8 list \<Rightarrow> u64 \<Rightarrow> u64 \<Rightarrow> u8 list" where
  "one_head meta payload outliers =
     write_header \<lparr>gh_metadata_len = of_nat (length meta), gh_num_tensors = 1\<rparr> @ meta @ write_grim_entry (one_entry payload outliers)"

lemma one_entry_good: "good_grim_entry (one_entry p q)"
  by (simp add: good_grim_entry_def one_entry_def valid_utf8_ascii)

lemma one_entry_size: "registry_entry_size (one_entry p q) = 82"
  by (simp add: registry_entry_size_def one_entry_def)

lemma one_entry_sizes: "unat (ge_payload_size (one_entry p q)) = 3" "outlier_bytes (one_entry p q) = 6"
  "ge_kv_present (one_entry p q) = 0"
  "(one_entry p q)\<lparr>ge_payload_offset := p', ge_outlier_offset := q'\<rparr> = one_entry p' q'"
  by (simp_all add: one_entry_def outlier_bytes_def OUTLIER_RECORD_BYTES_def)

lemma one_place: "off < 1000 \<Longrightarrow> place_entries 256 off [one_entry p q] = Some [one_entry (of_nat off) (of_nat (off + 3))]"
  using div_ceil_le_iff [of 256 "9 + off" 8]
  by (simp add: place_entry_def one_entry_sizes Let_def align_to_segment_def)

lemma one_write:
  assumes "length meta < 100"
  shows "write_grim text_codec (one_tensor meta p q) =
    Ok (one_head meta (of_nat (99 + length meta)) (of_nat (102 + length meta)),
      [one_entry (of_nat (99 + length meta)) (of_nat (102 + length meta))])"
proof -
  have p: "place_entries 256 (99 + length meta) [one_entry p q]
      = Some [one_entry (of_nat (99 + length meta)) (of_nat (102 + length meta))]"
    using one_place [of "99 + length meta" p q] assms by (simp add: add.commute)
  show ?thesis
    by (simp add: write_grim_def one_tensor_def text_codec_def one_head_def one_entry_size
        write_header_def magic_length p Let_def del: place_entries.simps of_nat_add)
qed

definition native_bytes :: "u8 list" where
  "native_bytes = one_head [123, 125] 101 104 @ [7, 8, 9, 1, 0, 0, 0, 0, 60]"

definition new_metadata :: "u8 list" where "new_metadata = [123, 32, 125]"

lemma one_head_length: "length (one_head meta p q) = 99 + length meta"
  by (simp add: one_head_def write_header_def magic_length registry_size one_entry_size)

lemma read_native:
  "\<exists>h. read_grim text_codec native_bytes =
    (Ok \<lparr>gr_header = h, gr_metadata = [123, 125], gr_tensors = [one_entry 101 104], gr_wave = W64\<rparr>, [7, 8, 9, 1, 0, 0, 0, 0, 60])"
proof -
  have w: "write_grim text_codec (one_tensor [123, 125] 0 0) = Ok (one_head [123, 125] 101 104, [one_entry 101 104])"
    using one_write [of "[123, 125]" 0 0] by simp
  show ?thesis
    using write_grim_reads_back [OF w, of "[123, 125]" "[7, 8, 9, 1, 0, 0, 0, 0, 60]"] one_entry_good
    by (simp add: one_tensor_def codec_ok_def text_codec_def wave_from_width_def native_bytes_def)
qed

lemma native_readable: "readable native_bytes (one_entry 101 104)"
  by (simp add: readable_def native_bytes_def one_head_length one_entry_sizes) (simp add: one_entry_def)

section \<open>Properties\<close>

text \<open>
  C23. A native file of at most 1,000,000 tensors (what the reader takes), each within the widths of its
  entry (a UTF-8 name under 2^16 bytes, under 2^8 dimensions, each under 2^32) and whose metadata the
  codec encodes in 1 to 100,000,000 bytes and decodes again, reads back: the metadata as the codec
  returns it and the same entries in the same order, each with new offsets only. Payload, outliers and
  KV block of an entry stand in a row, entries follow one another, and every entry after the first
  starts at a boundary of the wave segment. Whatever follows the registry does not matter. (The writer
  checks none of these bounds: beyond them it truncates the length fields.)
\<close>

theorem native_file_reads_back:
  assumes "write_grim mc f = Ok (out, es)" and "codec_ok mc (gr_metadata f) m'"
    and "\<forall>t \<in> set (gr_tensors f). good_grim_entry t" and "length (gr_tensors f) \<le> 1000000"
  shows "list_all2 same_but_offsets (gr_tensors f) es
    \<and> placed_from (segment_bytes (gr_wave f)) (length out) es
    \<and> (\<exists>h. read_grim mc (out @ rest) = (Ok \<lparr>gr_header = h, gr_metadata = m', gr_tensors = es,
          gr_wave = wave_from_width (md_wavefront mc m')\<rparr>, rest))"
  using assms by (rule write_grim_reads_back)

theorem native_file_reads_back_witness:
  "\<exists>h. read_grim text_codec (one_head [123, 125] 101 104 @ [7, 8, 9]) =
    (Ok \<lparr>gr_header = h, gr_metadata = [123, 125], gr_tensors = [one_entry 101 104], gr_wave = W64\<rparr>, [7, 8, 9])"
proof -
  have w: "write_grim text_codec (one_tensor [123, 125] 0 0) = Ok (one_head [123, 125] 101 104, [one_entry 101 104])"
    using one_write [of "[123, 125]" 0 0] by simp
  show ?thesis
    using native_file_reads_back [OF w, of "[123, 125]" "[7, 8, 9]"] one_entry_good
    by (simp add: one_tensor_def codec_ok_def text_codec_def wave_from_width_def)
qed

text \<open>
  C24. Replacing the metadata of a file whose registry is consistent keeps every payload: the new file
  reads back with the new metadata and the same entries, and the payload, the outliers and the KV block
  of each entry hold the bytes they held in the old file, wherever the larger or smaller metadata moved
  them. Consistent means that every non-empty extent an entry names stands at a non-zero offset and
  inside the old file, and that an entry whose KV block is marked absent gives it size zero: for one
  that keeps a size without the mark, the writer assigns no new offset and the copy lands at the old one,
  over whatever the new file has there. The codec decodes the new metadata it encodes, in 1 to
  100,000,000 bytes.
\<close>

theorem rewrite_keeps_payloads:
  assumes "read_grim mc file = (Ok f, s)" and "rewrite_metadata mc mutate file = Ok out"
    and "codec_ok mc (mutate (gr_metadata f)) m'" and "\<forall>t \<in> set (gr_tensors f). readable file t"
  shows "\<exists>f' rest. read_grim mc out = (Ok f', rest) \<and> gr_metadata f' = m'
    \<and> list_all2 (\<lambda>t t'. same_but_offsets t t' \<and> (\<forall>ext \<in> set (entry_extents t t'). extent_copied file out ext))
      (gr_tensors f) (gr_tensors f')"
  using assms by (rule rewritten_file)

theorem rewrite_keeps_payloads_witness:
  "\<exists>out f' rest. rewrite_metadata text_codec (\<lambda>_. new_metadata) native_bytes = Ok out
    \<and> read_grim text_codec out = (Ok f', rest) \<and> gr_metadata f' = new_metadata
    \<and> (\<exists>t \<in> set (gr_tensors f'). take 3 (drop (unat (ge_payload_offset t)) out) = [7, 8, 9])"
proof -
  obtain h where r: "read_grim text_codec native_bytes =
    (Ok \<lparr>gr_header = h, gr_metadata = [123, 125], gr_tensors = [one_entry 101 104], gr_wave = W64\<rparr>, [7, 8, 9, 1, 0, 0, 0, 0, 60])"
    (is "_ = (Ok ?f, _)") using read_native by auto
  have "write_grim text_codec (?f\<lparr>gr_metadata := new_metadata\<rparr>)
      = write_grim text_codec (one_tensor new_metadata 101 104)"
    by (simp add: write_grim_def one_tensor_def)
  then have "\<exists>out. rewrite_metadata text_codec (\<lambda>_. new_metadata) native_bytes = Ok out"
    using one_write [of new_metadata 101 104] by (simp add: rewrite_metadata_def r new_metadata_def)
  then obtain out where w: "rewrite_metadata text_codec (\<lambda>_. new_metadata) native_bytes = Ok out" ..
  have "codec_ok text_codec new_metadata new_metadata"
    by (simp add: codec_ok_def text_codec_def new_metadata_def)
  then obtain f' rest where o: "read_grim text_codec out = (Ok f', rest)" "gr_metadata f' = new_metadata"
    and ts: "list_all2 (\<lambda>t t'. same_but_offsets t t' \<and> (\<forall>ext \<in> set (entry_extents t t'). extent_copied native_bytes out ext))
      [one_entry 101 104] (gr_tensors f')"
    using rewrite_keeps_payloads [OF r w, of new_metadata] native_readable by auto
  have "(101, ge_payload_offset t', 3) \<in> set (entry_extents (one_entry 101 104) t')" for t'
    by (simp add: entry_extents_def one_entry_sizes) (simp add: one_entry_def)
  then obtain t' where t': "t' \<in> set (gr_tensors f')" "extent_copied native_bytes out (101, ge_payload_offset t', 3)"
    using ts by (auto simp: list_all2_Cons1)
  have "take 3 (drop 101 native_bytes) = [7, 8, 9]"
    by (simp add: native_bytes_def one_head_length)
  then show ?thesis using w o t' by (auto simp: extent_copied_def)
qed

text \<open>
  C25. A packed row is a bit stream: with codes below \<open>2 ^ bpw\<close>, bit \<open>p\<close> of the row (most significant
  bit first) is bit \<open>bpw - 1 - p mod bpw\<close> of code \<open>p div bpw\<close>, the unused bits are zero, and zeros fill
  the output up to the next segment boundary.
\<close>

theorem packed_row_is_bit_stream:
  assumes "0 < bpw" and "bpw \<le> 8" and "\<forall>v \<in> set row. unat (quantize v bpw) < 2 ^ bpw"
  shows "\<exists>packed pad. pack_row_bpw_for_wave quantize out row bpw wave = Ok (out @ packed @ replicate pad 0)
    \<and> pad < segment_bytes wave \<and> segment_bytes wave dvd length (out @ packed @ replicate pad (0 :: u8))
    \<and> length packed = bytes_for (length row) bpw
    \<and> (\<forall>p < 8 * length packed. row_bit packed p \<longleftrightarrow> code_bit bpw (map (\<lambda>v. ucast (quantize v bpw)) row) p)"
proof -
  let ?codes = "map (\<lambda>v. ucast (quantize v bpw) :: u32) row"
  have "\<forall>c \<in> set ?codes. unat c < 2 ^ bpw"
    using assms(3) by (auto simp: unsigned_ucast_eq take_bit_nat_eq_self unat_bounds less_trans [OF unat_bounds(1)])
  then obtain packed where p: "pack_codes (bytes_for (length row) bpw) bpw 0 ?codes (replicate (bytes_for (length row) bpw) 0) = Ok packed"
      "length packed = bytes_for (length row) bpw"
      "\<forall>p < 8 * length packed. row_bit packed p \<longleftrightarrow> code_bit bpw ?codes p"
    using packed_codes [OF assms(1,2), of ?codes] by auto
  let ?n = "length (out @ packed)"
  let ?pad = "align_to_segment ?n (segment_bytes wave) - ?n"
  have ge: "?n \<le> align_to_segment ?n (segment_bytes wave)" by (rule align_ge) simp
  have "pack_row_bpw_for_wave quantize out row bpw wave = Ok (out @ packed @ replicate ?pad 0)"
    by (simp add: pack_row_bpw_for_wave_def p(1) Let_def)
  moreover have "?pad < segment_bytes wave"
    using align_less [OF segment_pos [of wave], of ?n] ge by linarith
  moreover have "length (out @ packed @ replicate ?pad (0 :: u8)) = align_to_segment ?n (segment_bytes wave)"
    using ge by simp
  ultimately show ?thesis using p(2,3) by (metis align_dvd)
qed

theorem packed_row_is_bit_stream_witness:
  "\<exists>packed pad. pack_row_bpw_for_wave (\<lambda>v _. ucast v) [] [5, 2, 7] 3 W32 = Ok (packed @ replicate pad 0)
    \<and> length packed = 2 \<and> row_bit packed 0 \<and> \<not> row_bit packed 1 \<and> row_bit packed 2"
proof -
  obtain packed pad where p: "pack_row_bpw_for_wave (\<lambda>v _. ucast v) [] [5, 2, 7] 3 W32 = Ok (packed @ replicate pad 0)"
    and n: "length packed = bytes_for (length [5, 2, 7 :: f32]) 3"
    and bits: "\<forall>p < 8 * length packed. row_bit packed p \<longleftrightarrow> code_bit 3 (map (\<lambda>v. ucast (ucast v :: u8)) [5, 2, 7 :: f32]) p"
    using packed_row_is_bit_stream [of 3 "[5, 2, 7]" "\<lambda>v _. ucast v" "[]" W32] by auto
  have l: "length packed = 2" using n by (simp add: bytes_for_def div_ceil_def)
  have "row_bit packed p \<longleftrightarrow> code_bit 3 [5, 2, 7] p" if "p < 3" for p
    using bits that l by simp
  from this [of 0] this [of 1] this [of 2] show ?thesis using p l by (auto simp: code_bit_def)
qed

text \<open>
  C26. At most 1,000,000 outliers sorted by index come back in the same order with the same indices,
  wherever the stream stands in the file: flat records (fewer than 16 outliers) with the value as a half
  float, delta-varint streams with the value the encoder itself tracked. (Beyond 1,000,000 the decoder
  of the delta streams cuts the count and takes the values from where the remaining indices stand.)
\<close>

theorem outlier_streams_read_back:
  assumes "sorted_wrt (\<le>) (map fst xs)" and "length xs \<le> 1000000" and "unat (ge_outlier_count e) = length xs"
    and "length pre = unat (ge_outlier_offset e)"
    and "encode_outliers_with_encoding to_f16 delta step xs = (bs, enc)"
  shows "read_outliers_with_encoding of_f16 step (pre @ bs @ post) e enc
    = Ok (if length xs < 16 then map (\<lambda>(i, v). (i, of_f16 (to_f16 v))) xs
          else zip (map fst xs) (reconstruct delta step 0 (map snd xs)))"
proof (cases "length xs < 16")
  case True
  then have "bs = concat (map (encode_outlier to_f16) xs)" "enc = FlatU32"
    using assms(5) by (auto simp: encode_outliers_with_encoding_def)
  moreover have "xs = []" if "ge_outlier_count e = 0" using that assms(3) by simp
  ultimately show ?thesis
    using True written_flat_outliers_read_back [OF assms(3) _ assms(4), of of_f16 to_f16 post]
    by (auto simp: read_outliers_with_encoding_def)
next
  case False
  then have "bs = encode_outliers_delta_varint delta step xs" "enc = DeltaVarint"
    using assms(5) by (auto simp: encode_outliers_with_encoding_def)
  then show ?thesis using False written_outliers_read_back [OF assms(1-4), of of_f16 step delta post] by simp
qed

theorem outlier_streams_read_back_witness:
  "read_outliers_with_encoding ucast (\<lambda>_ _. 0) ([0, 0] @ concat (map (encode_outlier ucast) [(5, 1), (9, 2)]))
    ((one_entry 0 2)\<lparr>ge_outlier_count := 2\<rparr>) FlatU32 = Ok [(5, 1), (9, 2)]"
  using outlier_streams_read_back [of "[(5, 1), (9, 2)]" "(one_entry 0 2)\<lparr>ge_outlier_count := 2\<rparr>" "[0, 0]" ucast
      "\<lambda>_ _. 0" "\<lambda>_ _. 0" _ _ ucast "[]"]
  by (simp add: one_entry_def encode_outliers_with_encoding_def)

text \<open>
  The delta-varint stream of sorted outliers is never longer than the ten bytes per outlier its
  reader is prepared to take, and any other 64-bit value takes at most ten bytes as a varint.
\<close>

theorem encoded_outliers_bounded:
  assumes "sorted_wrt (\<le>) (map fst xs)" and "xs \<noteq> []" and "length xs \<le> 1000000"
  shows "length (encode_outliers_delta_varint delta step xs) \<le> length xs * 10 \<and> length (encode_varint v) \<le> 10"
proof -
  have "unat v < 2 ^ (7 * (9 + 1))" using unat_below [of v] by simp
  then have "length (encode_varint v) \<le> 9 + 1" by (rule length_encode_varint)
  then show ?thesis using length_encoded_outliers [OF assms] by simp
qed

theorem encoded_outliers_bounded_witness:
  "length (encode_outliers_delta_varint (\<lambda>_ _. 0) (\<lambda>_ _. 0) [(4000000000, 0)]) \<le> 10"
  using encoded_outliers_bounded [of "[(4000000000, 0)]" "\<lambda>_ _. 0" "\<lambda>_ _. 0"] by simp

text \<open>
  A normals payload fills exactly the region its layout declares, and reading that region gives the
  codes (padded) and the row scales that were written.
\<close>

theorem normals_read_back:
  assumes "length codes \<le> codes_size l" and "has_scales l \<Longrightarrow> length scales = nl_row_count l"
  shows "\<exists>bs. write_normals l codes scales = (Ok (), bs) \<and> length bs = payload_size l
    \<and> (\<forall>pre post. read_normals_split (pre @ bs @ post) (length pre) l = Ok
        \<lparr>np_codes = codes @ replicate (codes_size l - length codes) 0,
         np_scales = (if has_scales l then scales else [])\<rparr>)"
  using assms by (rule written_normals)

theorem normals_read_back_witness:
  "\<exists>bs. write_normals (layout_with_scales 8 0 4 2) [1, 2, 3, 4] [5, 6] = (Ok (), bs) \<and> length bs = 512"
  using normals_read_back [of "[1, 2, 3, 4]" "layout_with_scales 8 0 4 2" "[5, 6]"]
  by (auto simp: codes_size_def payload_size_def scale_size_def has_scales_def is_mixed_bpw_def
      layout_with_scales_def align_to_segment_def div_ceil_def)

text \<open>
  Sidecars appended to a file come back through its index, in order: every entry has the name and
  the digest of its sidecar, and reading the entry's range gives the sidecar's bytes, by the file and
  by a buffer of it. The file below them is unchanged.
\<close>

theorem sidecars_read_back:
  assumes "write_attachments sha xs file = (n, out)" and "\<And>b. length (sha b) = 32"
    and "\<forall>(kind, _) \<in> set xs. valid_utf8 kind \<and> length kind < 2 ^ 16" and "length xs \<le> 16"
    and "length out < 2 ^ 64"
  shows "\<exists>es. read_attachment_index out = Ok es \<and> parse_attachment_index out 0 = Ok es
    \<and> list_all2 (\<lambda>(kind, bytes) a. att_kind a = kind \<and> att_sha256 a = sha bytes
        \<and> read_attachment_bytes sha out a = Ok bytes \<and> attachment_bytes_from_buf sha out a = Ok bytes) xs es
    \<and> take (length file) out = file"
proof -
  obtain es where es: "read_attachment_index out = Ok es" "parse_attachment_index out 0 = Ok es"
    and D: "list_all2 (describes sha out) xs es" using attachments_read_back [OF assms] by blast
  have "list_all2 (\<lambda>(kind, bytes) a. att_kind a = kind \<and> att_sha256 a = sha bytes
      \<and> read_attachment_bytes sha out a = Ok bytes \<and> attachment_bytes_from_buf sha out a = Ok bytes) xs es"
    using D
  proof (rule list_all2_mono)
    fix x a assume d: "describes sha out x a"
    show "(\<lambda>(kind, bytes) a. att_kind a = kind \<and> att_sha256 a = sha bytes
      \<and> read_attachment_bytes sha out a = Ok bytes \<and> attachment_bytes_from_buf sha out a = Ok bytes) x a"
      using d described_bytes [OF d assms(5)] by (cases x) (simp add: describes_def)
  qed
  moreover have "\<exists>suf. out = file @ suf"
  proof -
    obtain file' es' where a: "append_blobs sha file xs = (file', es')" by fastforce
    then have "length file' < 2 ^ 64" using assms(1,5) by (auto simp: write_attachments_def Let_def)
    then have "\<exists>suf. file' = file @ suf" using append_blobs_spec [OF a] by blast
    then show ?thesis using assms(1) a by (auto simp: write_attachments_def Let_def)
  qed
  ultimately show ?thesis using es by auto
qed

theorem sidecars_read_back_witness:
  "\<exists>es. read_attachment_index (snd (write_attachments (\<lambda>_. replicate 32 7) [([107], [1, 2])] [9, 9])) = Ok es
    \<and> list_all2 (\<lambda>(kind, bytes) a. att_kind a = kind
        \<and> read_attachment_bytes (\<lambda>_. replicate 32 7) (snd (write_attachments (\<lambda>_. replicate 32 7) [([107], [1, 2])] [9, 9])) a
            = Ok bytes) [([107], [1, 2])] es"
proof -
  let ?sha = "\<lambda>_ :: u8 list. replicate 32 (7 :: u8)"
  let ?w = "write_attachments ?sha [([107], [1, 2])] [9, 9]"
  have "length (snd ?w) < 2 ^ 64"
    by (simp add: write_attachments_def write_attachment_def ATTACHMENT_MAGIC_def Let_def)
  then show ?thesis
    using sidecars_read_back [of ?sha "[([107], [1, 2])]" "[9, 9]" "fst ?w" "snd ?w"]
    by (auto simp: valid_utf8_ascii list_all2_Cons1)
qed

section \<open>Where the code departs\<close>

text \<open>
  The first payload starts right behind the registry, at whatever position that is: here 101, although
  payloads are documented to start at 256-byte wave boundaries.
\<close>

lemma first_payload_unaligned:
  "\<exists>out e. write_grim text_codec (one_tensor [123, 125] 0 0) = Ok (out, [e])
    \<and> \<not> segment_bytes W64 dvd unat (ge_payload_offset e)"
  using one_write [of "[123, 125]" 0 0] by (simp add: one_entry_def)

text \<open>Replacing the metadata of a file drops the sidecars embedded at its end.\<close>

definition no_tensors :: "u8 list grim_file" where
  "no_tensors = \<lparr>gr_header = \<lparr>gh_metadata_len = 2, gh_num_tensors = 0\<rparr>, gr_metadata = [123, 125], gr_tensors = [], gr_wave = W64\<rparr>"

definition bare_file :: "u8 list" where
  "bare_file = write_header \<lparr>gh_metadata_len = 2, gh_num_tensors = 0\<rparr> @ [123, 125]"

lemma write_bare: "write_grim text_codec no_tensors = Ok (bare_file, [])"
  by (simp add: write_grim_def no_tensors_def text_codec_def bare_file_def Let_def)

lemma rewrite_bare: "rewrite_metadata text_codec (\<lambda>m. m) (bare_file @ rest) = Ok bare_file"
proof -
  obtain h where "read_grim text_codec (bare_file @ rest) =
      (Ok \<lparr>gr_header = h, gr_metadata = [123, 125], gr_tensors = [], gr_wave = W64\<rparr>, rest)"
    using write_grim_reads_back [OF write_bare, of "[123, 125]" rest]
    by (auto simp: no_tensors_def codec_ok_def text_codec_def wave_from_width_def)
  moreover have "write_grim text_codec \<lparr>gr_header = h, gr_metadata = [123, 125], gr_tensors = [], gr_wave = W64\<rparr>
      = Ok (bare_file, [])"
    using write_bare by (simp add: write_grim_def no_tensors_def)
  ultimately show ?thesis by (simp add: rewrite_metadata_def)
qed

lemma bare_index: "read_attachment_index bare_file = Ok []"
proof -
  have n: "length bare_file = 19" by (simp add: bare_file_def write_header_def magic_length)
  have "bare_file = GRIM_MAGIC @ [2, 0, 0, 0, 0, 0] @ le_bytes 8 (0x7d7b000000000000 :: u64)"
    by code_simp
  then have "last_u64 bare_file = 0x7d7b000000000000" using last_u64_append by (metis append_assoc)
  then show ?thesis by (simp add: read_attachment_index_def n)
qed

lemma rewrite_drops_sidecars:
  "\<exists>sha file es out. read_attachment_index file = Ok es \<and> es \<noteq> []
    \<and> rewrite_metadata text_codec (\<lambda>m. m) file = Ok out \<and> read_attachment_index out = Ok []
    \<and> file = snd (write_attachments sha [([107], [1, 2])] bare_file)"
proof -
  let ?sha = "\<lambda>_ :: u8 list. replicate 32 (7 :: u8)"
  let ?w = "write_attachments ?sha [([107], [1, 2])] bare_file"
  obtain file' es' where a: "append_blobs ?sha bare_file [([107], [1, 2])] = (file', es')" by fastforce
  have n: "length bare_file = 19" by (simp add: bare_file_def write_header_def magic_length)
  have "length (snd ?w) < 2 ^ 64"
    by (simp add: write_attachments_def write_attachment_def ATTACHMENT_MAGIC_def Let_def n)
  then obtain es where "read_attachment_index (snd ?w) = Ok es" "es \<noteq> []"
    using attachments_read_back [of ?sha "[([107], [1, 2])]" bare_file "fst ?w" "snd ?w"]
    by (auto simp: valid_utf8_ascii list_all2_Cons1)
  moreover have "\<exists>rest. snd ?w = bare_file @ rest"
    by (simp add: write_attachments_def Let_def)
  ultimately show ?thesis using rewrite_bare bare_index by metis
qed

text \<open>
  The two index readers disagree on a file that ends in eight bytes \<open>0xFF\<close>: one sees no index, the
  other overflows. And the writer takes more sidecars than the index reader allows.
\<close>

lemma index_readers_disagree:
  "read_attachment_index (replicate 15 0xFF) = Ok []" "parse_attachment_index (replicate 15 0xFF) 0 = Panic"
proof -
  have "replicate 15 0xFF = replicate 7 0xFF @ le_bytes 8 (0xFFFFFFFFFFFFFFFF :: u64)" by code_simp
  then have l: "last_u64 (replicate 15 0xFF) = 0xFFFFFFFFFFFFFFFF" using last_u64_append by metis
  show "read_attachment_index (replicate 15 0xFF) = Ok []" by (simp add: read_attachment_index_def l)
  show "parse_attachment_index (replicate 15 0xFF) 0 = Panic" by (simp add: parse_attachment_index_def l Let_def)
qed

lemma too_many_sidecars_unreadable:
  assumes "write_attachments sha (replicate 17 ([107], [])) file = (n, out)" and "length out < 2 ^ 64"
  shows "parse_attachment_index out 0 = Err (Malformed ''attachment count'')"
proof -
  obtain file' es where a: "append_blobs sha file (replicate 17 ([107], [])) = (file', es)" by fastforce
  have out: "out = (file' @ ATTACHMENT_MAGIC @ le_bytes 4 (17 :: u32) @ concat (map write_attachment es)) @ le_bytes 8 (of_nat (length file') :: u64)"
    using assms(1) by (simp add: write_attachments_def a Let_def)
  have "length file' < 2 ^ 64" using assms(2) by (simp add: out)
  then have l: "unat (last_u64 out) = length file'" unfolding out last_u64_append by (simp add: unat_of_nat)
  have n: "length out = length file' + (7 + (4 + (length (concat (map write_attachment es)) + 8)))"
    by (simp add: out ATTACHMENT_MAGIC_def)
  have d: "drop (length file') out = ATTACHMENT_MAGIC @ le_bytes 4 (17 :: u32) @ concat (map write_attachment es)
      @ le_bytes 8 (of_nat (length file') :: u64)" by (simp add: out)
  have d7: "drop (length file' + 7) out = le_bytes 4 (17 :: u32) @ concat (map write_attachment es)
      @ le_bytes 8 (of_nat (length file') :: u64)"
    by (simp add: out ATTACHMENT_MAGIC_def)
  show ?thesis using n assms(2)
    by (simp add: parse_attachment_index_def l Let_def d d7 ATTACHMENT_MAGIC_def)
qed

end
