(* ===== verification/Utf8Chars.thy ===== *)
theory Utf8Chars
  imports ByteReader
begin

text \<open>
  Strings as the standard library sees them: a \<open>str\<close> is its UTF-8 bytes, \<open>chars\<close> splits it into its
  characters (each kept as its bytes), \<open>find\<close> searches a pattern and \<open>replace\<close> a character. The laws
  show that characters of a concatenation concatenate, and that a pattern is only ever found at the
  boundary of a character.
\<close>

type_synonym str = "u8 list"

section \<open>Characters\<close>

function chars :: "str \<Rightarrow> str list" where
  "chars bs = (if bs = [] then [] else take (snd (utf8_chunk bs)) bs # chars (drop (snd (utf8_chunk bs)) bs))"
  by auto
termination
  by (relation "measure length") (auto simp: utf8_chunk_pos)

declare chars.simps [simp del]

lemma chars_Nil [simp]: "chars [] = []"
  by (simp add: chars.simps)

definition is_char :: "str \<Rightarrow> bool" where
  "is_char c \<longleftrightarrow> c \<noteq> [] \<and> utf8_chunk c = (True, length c)"

text \<open>Continuation bytes: \<open>is_char_boundary\<close> is false exactly before one.\<close>

definition cont_byte :: "u8 \<Rightarrow> bool" where
  "cont_byte b \<longleftrightarrow> 0x80 \<le> b \<and> b \<le> 0xBF"

definition is_boundary :: "str \<Rightarrow> nat \<Rightarrow> bool" where
  "is_boundary s i \<longleftrightarrow> i = length s \<or> i < length s \<and> \<not> cont_byte (s ! i)"

lemma and_shifted_mask: "w AND push_bit n (mask k) = push_bit n (take_bit k (drop_bit n (w :: 'a::len word)))"
  by (rule bit_word_eqI) (auto simp: bit_simps)

lemma cont_mask: "(b :: u8) AND 192 = 128 \<longleftrightarrow> cont_byte b"
proof -
  have "(192 :: u8) = push_bit 6 (mask 2)" by (simp add: mask_eq_exp_minus_1)
  then have "b AND 192 = push_bit 6 (take_bit 2 (drop_bit 6 b))"
    by (simp only: and_shifted_mask)
  also have "take_bit 2 (drop_bit 6 b) = drop_bit 6 b"
    by (rule bit_word_eqI) (auto simp: bit_simps dest: bit_imp_le_length)
  finally have m: "b AND 192 = push_bit 6 (drop_bit 6 b)" .
  have u: "unat (push_bit 6 (drop_bit 6 b)) = unat b div 64 * 64"
  proof -
    have "unat (drop_bit 6 b) = unat b div 64" by (simp add: drop_bit_eq_div unat_div)
    moreover have "unat b div 64 * 64 < 256" using unat_bounds(1) [of b] by (meson div_times_less_eq_dividend le_less_trans)
    ultimately show ?thesis by (simp add: push_bit_eq_mult unat_mult_lem [THEN iffD1])
  qed
  have "b AND 192 = 128 \<longleftrightarrow> unat b div 64 * 64 = 128"
    by (simp add: m word_unat_eq_iff u)
  also have "\<dots> \<longleftrightarrow> 128 \<le> unat b \<and> unat b \<le> 191" by auto
  finally show ?thesis by (simp add: cont_byte_def word_le_nat_alt)
qed

lemma is_cont_iff: "is_cont bs i \<longleftrightarrow> i < length bs \<and> cont_byte (bs ! i)"
  by (simp add: is_cont_def cont_mask)

lemma lead_byte: "b < 128 \<or> 0xC2 \<le> b \<Longrightarrow> \<not> cont_byte b"
  by (auto simp: cont_byte_def word_le_nat_alt word_less_nat_alt)

lemma second_ok_cont: "second_ok b bs \<Longrightarrow> 1 < length bs \<and> cont_byte (bs ! 1)"
  by (auto simp: second_ok_def cont_byte_def word_le_nat_alt split: if_splits)

text \<open>The first character of a string that starts with one.\<close>

lemma first_char:
  assumes "fst (utf8_chunk bs)" and "bs \<noteq> []"
  shows "snd (utf8_chunk bs) \<le> length bs" "0 < snd (utf8_chunk bs)"
    and "\<not> cont_byte (bs ! 0)" "\<forall>i. 0 < i \<and> i < snd (utf8_chunk bs) \<longrightarrow> cont_byte (bs ! i)"
proof -
  have "1 \<le> length bs" using assms(2) by (cases bs) auto
  then have "snd (utf8_chunk bs) \<le> length bs \<and> (\<forall>i. 0 < i \<and> i < snd (utf8_chunk bs) \<longrightarrow> cont_byte (bs ! i))"
    using assms(1) second_ok_cont [of "bs ! 0" bs]
    by (auto simp: utf8_chunk_def Let_def is_cont_iff numeral_eq_Suc less_Suc_eq split: if_splits)
  then show "snd (utf8_chunk bs) \<le> length bs" "\<forall>i. 0 < i \<and> i < snd (utf8_chunk bs) \<longrightarrow> cont_byte (bs ! i)"
    by blast+
  have "bs ! 0 < 128 \<or> 0xC2 \<le> bs ! 0"
    using assms(1) by (auto simp: utf8_chunk_def Let_def word_le_nat_alt word_less_nat_alt split: if_splits)
  then show "\<not> cont_byte (bs ! 0)" by (rule lead_byte)
  show "0 < snd (utf8_chunk bs)" by (rule utf8_chunk_pos)
qed

lemma second_ok_cong: "1 < length bs \<Longrightarrow> 1 < length cs \<Longrightarrow> bs ! 1 = cs ! 1 \<Longrightarrow> second_ok b bs = second_ok b cs"
  by (simp add: second_ok_def)

text \<open>Only the bytes of the first character matter.\<close>

lemma utf8_chunk_cong:
  assumes "fst (utf8_chunk bs)" and "bs \<noteq> []" and "snd (utf8_chunk bs) \<le> length cs"
    and "\<And>i. i < snd (utf8_chunk bs) \<Longrightarrow> cs ! i = bs ! i"
  shows "utf8_chunk cs = utf8_chunk bs"
proof -
  have p: "0 < snd (utf8_chunk bs)" "snd (utf8_chunk bs) \<le> length bs" using first_char assms(1,2) by auto
  have b0: "cs ! 0 = bs ! 0" using assms(4) p by blast
  consider "bs ! 0 < 128" | "0xC2 \<le> bs ! 0 \<and> bs ! 0 \<le> 0xDF \<and> \<not> bs ! 0 < 128"
    | "0xE0 \<le> bs ! 0 \<and> bs ! 0 \<le> 0xEF \<and> \<not> (0xC2 \<le> bs ! 0 \<and> bs ! 0 \<le> 0xDF) \<and> \<not> bs ! 0 < 128"
    | "0xF0 \<le> bs ! 0 \<and> bs ! 0 \<le> 0xF4 \<and> \<not> (0xC2 \<le> bs ! 0 \<and> bs ! 0 \<le> 0xDF) \<and> \<not> bs ! 0 < 128
        \<and> \<not> (0xE0 \<le> bs ! 0 \<and> bs ! 0 \<le> 0xEF)"
    using assms(1) by (auto simp: utf8_chunk_def Let_def split: if_splits)
  then show ?thesis
  proof cases
    case 1
    then show ?thesis by (simp add: utf8_chunk_def b0)
  next
    case 2
    then have n: "snd (utf8_chunk bs) = 2" "is_cont bs 1"
      using assms(1) by (auto simp: utf8_chunk_def Let_def split: if_splits)
    then have "is_cont cs 1" using assms(3,4) by (auto simp: is_cont_iff)
    then show ?thesis using 2 n by (simp add: utf8_chunk_def b0 Let_def)
  next
    case 3
    then have n: "snd (utf8_chunk bs) = 3" "second_ok (bs ! 0) bs" "is_cont bs 2"
      using assms(1) by (auto simp: utf8_chunk_def Let_def split: if_splits)
    then have "is_cont cs 2" "second_ok (bs ! 0) cs"
      using assms(3,4) by (auto simp: is_cont_iff second_ok_cong [of cs bs])
    then show ?thesis using 3 n by (simp add: utf8_chunk_def b0 Let_def)
  next
    case 4
    then have n: "snd (utf8_chunk bs) = 4" "second_ok (bs ! 0) bs" "is_cont bs 2" "is_cont bs 3"
      using assms(1) by (auto simp: utf8_chunk_def Let_def split: if_splits)
    then have "is_cont cs 2" "is_cont cs 3" "second_ok (bs ! 0) cs"
      using assms(3,4) by (auto simp: is_cont_iff second_ok_cong [of cs bs])
    then show ?thesis using 4 n by (simp add: utf8_chunk_def b0 Let_def)
  qed
qed

lemma is_char_chunk: "is_char c \<Longrightarrow> utf8_chunk (c @ s) = (True, length c)"
  using utf8_chunk_cong [of c "c @ s"] by (simp add: is_char_def nth_append)

lemma chars_Cons: "is_char c \<Longrightarrow> chars (c @ s) = c # chars s"
  using is_char_chunk [of c s] by (simp add: chars.simps [of "c @ s"] is_char_def)

lemma valid_Cons: "is_char c \<Longrightarrow> valid_utf8 (c @ s) = valid_utf8 s"
  using is_char_chunk [of c s] by (simp add: valid_utf8.simps [of "c @ s"] is_char_def)

lemma chars_concat: "(\<forall>c \<in> set cs. is_char c) \<Longrightarrow> chars (concat cs) = cs"
  by (induction cs) (simp_all add: chars_Cons)

lemma valid_concat_chars: "(\<forall>c \<in> set cs. is_char c) \<Longrightarrow> valid_utf8 (concat cs)"
  by (induction cs) (simp_all add: valid_Cons)

lemma first_is_char:
  assumes "fst (utf8_chunk bs)" and "bs \<noteq> []"
  shows "is_char (take (snd (utf8_chunk bs)) bs)"
proof -
  let ?n = "snd (utf8_chunk bs)"
  have n: "?n \<le> length bs" "0 < ?n" using first_char [OF assms] by blast+
  have "utf8_chunk (take ?n bs) = utf8_chunk bs"
    using assms n by (intro utf8_chunk_cong) simp_all
  then show ?thesis using assms n by (simp add: is_char_def prod_eq_iff)
qed

lemma chars_valid: "valid_utf8 s \<Longrightarrow> concat (chars s) = s \<and> (\<forall>c \<in> set (chars s). is_char c)"
proof (induction s rule: chars.induct)
  case (1 s)
  show ?case
  proof (cases "s = []")
    case False
    then have v: "fst (utf8_chunk s)" "valid_utf8 (drop (snd (utf8_chunk s)) s)"
      using "1.prems" by (simp_all add: valid_utf8.simps [of s] split: if_splits)
    then show ?thesis using "1.IH" [OF False] first_is_char False by (simp add: chars.simps [of s])
  qed simp
qed

lemma chars_are_chars: "valid_utf8 s \<Longrightarrow> c \<in> set (chars s) \<Longrightarrow> is_char c"
  using chars_valid by blast

lemma concat_chars [simp]: "valid_utf8 s \<Longrightarrow> concat (chars s) = s"
  using chars_valid by blast

lemma valid_append: "valid_utf8 a \<Longrightarrow> valid_utf8 (a @ b) = valid_utf8 b"
proof -
  have "(\<forall>c \<in> set cs. is_char c) \<Longrightarrow> valid_utf8 (concat cs @ b) = valid_utf8 b" for cs
    by (induction cs) (simp_all add: valid_Cons)
  then show "valid_utf8 a \<Longrightarrow> valid_utf8 (a @ b) = valid_utf8 b" using chars_valid [of a] by metis
qed

lemma chars_append: "valid_utf8 a \<Longrightarrow> chars (a @ b) = chars a @ chars b"
proof -
  have "(\<forall>c \<in> set cs. is_char c) \<Longrightarrow> chars (concat cs @ b) = cs @ chars b" for cs
    by (induction cs) (simp_all add: chars_Cons)
  then show "valid_utf8 a \<Longrightarrow> chars (a @ b) = chars a @ chars b" using chars_valid [of a] by metis
qed

lemma valid_concat: "(\<forall>s \<in> set ss. valid_utf8 s) \<Longrightarrow> valid_utf8 (concat ss)"
  by (induction ss) (simp_all add: valid_append)

lemma chars_concat_valid: "(\<forall>s \<in> set ss. valid_utf8 s) \<Longrightarrow> chars (concat ss) = concat (map chars ss)"
  by (induction ss) (simp_all add: chars_append)

lemma is_char_valid: "is_char c \<Longrightarrow> valid_utf8 c \<and> chars c = [c]"
  using valid_Cons [of c "[]"] chars_Cons [of c "[]"] by simp

lemma ascii_char: "b < 128 \<Longrightarrow> is_char [b]"
  by (simp add: is_char_def utf8_chunk_def)

lemma char_bytes:
  assumes "is_char c"
  shows "\<not> cont_byte (hd c)" "\<forall>i. 0 < i \<and> i < length c \<longrightarrow> cont_byte (c ! i)"
  using assms first_char [of c] by (auto simp: is_char_def hd_conv_nth)

section \<open>Boundaries\<close>

text \<open>A valid string is cut into valid strings wherever the cut is at a boundary.\<close>

lemma valid_cut:
  assumes "valid_utf8 (a @ b)" and "b = [] \<or> \<not> cont_byte (hd b)"
  shows "valid_utf8 a \<and> valid_utf8 b"
  using assms
proof (induction "chars (a @ b)" arbitrary: a)
  case Nil
  then have "a @ b = []" by (metis concat.simps(1) concat_chars)
  then show ?case by simp
next
  case (Cons c cs)
  have c: "is_char c" using chars_are_chars [OF Cons.prems(1)] Cons.hyps(2) by (metis list.set_intros(1))
  have ab: "a @ b = c @ concat cs" using concat_chars [OF Cons.prems(1)] Cons.hyps(2) [symmetric] by simp
  show ?case
  proof (cases "a = []")
    case False
    have "length c \<le> length a"
    proof (rule ccontr)
      assume "\<not> length c \<le> length a"
      moreover from this have "b \<noteq> []" using ab by (metis append_Nil2 length_append le_add1)
      moreover have "hd b = (a @ b) ! length a" using \<open>b \<noteq> []\<close> by (simp add: nth_append hd_conv_nth)
      ultimately show False
        using char_bytes(2) [OF c] Cons.prems(2) False ab by (auto simp: nth_append)
    qed
    then obtain a' where a: "a = c @ a'" using ab by (metis append_eq_append_conv_if append_take_drop_id)
    then have "concat cs = a' @ b" using ab by simp
    moreover have "\<forall>c \<in> set cs. is_char c"
      using chars_valid [OF Cons.prems(1)] Cons.hyps(2) [symmetric] by simp
    ultimately have "cs = chars (a' @ b)" "valid_utf8 (a' @ b)" using chars_concat valid_concat_chars by metis+
    then show ?thesis using Cons.hyps(1) [of a'] Cons.prems(2) c by (simp add: a valid_Cons)
  qed (use Cons.prems in simp)
qed

lemma valid_take_drop:
  assumes "valid_utf8 s" and "is_boundary s i"
  shows "valid_utf8 (take i s) \<and> valid_utf8 (drop i s)"
proof (rule valid_cut)
  show "valid_utf8 (take i s @ drop i s)" using assms(1) by simp
  show "drop i s = [] \<or> \<not> cont_byte (hd (drop i s))"
    using assms(2) by (auto simp: is_boundary_def hd_drop_conv_nth)
qed

section \<open>Searching and replacing\<close>

fun find_str :: "str \<Rightarrow> str \<Rightarrow> nat option" where
  "find_str pat s =
     (if take (length pat) s = pat then Some 0
      else case s of [] \<Rightarrow> None | _ # r \<Rightarrow> map_option Suc (find_str pat r))"

declare find_str.simps [simp del]

lemma find_str_Some:
  "find_str pat s = Some p \<Longrightarrow> \<exists>after. s = take p s @ pat @ after \<and> p + length pat \<le> length s"
proof (induction s arbitrary: p)
  case Nil
  then show ?case by (auto simp: find_str.simps [of pat "[]"] split: if_splits)
next
  case (Cons b s)
  show ?case
  proof (cases "take (length pat) (b # s) = pat")
    case True
    then have "p = 0" using Cons.prems by (simp add: find_str.simps [of pat "b # s"])
    moreover have "length pat \<le> length (b # s)" using True by (metis length_take min.cobounded1)
    ultimately show ?thesis using True append_take_drop_id [of "length pat" "b # s"] by (metis append_Nil add_0 take_0)
  next
    case False
    then obtain q where q: "find_str pat s = Some q" "p = Suc q"
      using Cons.prems by (auto simp: find_str.simps [of pat "b # s"])
    then show ?thesis using Cons.IH [OF q(1)] by auto
  qed
qed

lemma find_str_None: "find_str pat s = None \<Longrightarrow> s \<noteq> before @ pat @ after"
proof (induction s arbitrary: before)
  case Nil
  then show ?case by (auto simp: find_str.simps [of pat "[]"])
next
  case (Cons b s)
  have "take (length pat) (b # s) \<noteq> pat" "find_str pat s = None"
    using Cons.prems by (auto simp: find_str.simps [of pat "b # s"] split: if_splits)
  then show ?case using Cons.IH by (cases before) (auto simp del: take_Cons)
qed

text \<open>\<open>str::find\<close> gives a boundary: what stands before and after the match is a string again.\<close>

lemma find_str_valid:
  assumes "find_str pat s = Some p" and "valid_utf8 s" and "valid_utf8 pat" and "pat \<noteq> []"
  shows "valid_utf8 (take p s) \<and> valid_utf8 (drop (p + length pat) s)"
proof -
  obtain after where s: "s = take p s @ pat @ after" and n: "p + length pat \<le> length s"
    using find_str_Some [OF assms(1)] by blast
  have "\<not> cont_byte (hd pat)"
  proof -
    obtain c cs where "chars pat = c # cs" using assms(3,4) by (cases "chars pat") (auto dest: concat_chars)
    then have "is_char c" "pat = c @ concat cs"
      using chars_valid [OF assms(3)] by (metis list.set_intros(1), metis concat.simps(2))
    then show ?thesis using char_bytes(1) [of c] by (simp add: is_char_def)
  qed
  then have "valid_utf8 (take p s) \<and> valid_utf8 (pat @ after)"
    using valid_cut [of "take p s" "pat @ after"] assms(2,4) s by simp
  moreover have "drop (p + length pat) s = after"
    using s n by (metis add_leD1 append_eq_conv_conj append_take_drop_id drop_append drop_drop length_take min.absorb2 add.commute)
  ultimately show ?thesis using valid_append [OF assms(3)] by simp
qed

text \<open>\<open>str::replace\<close> of a single character.\<close>

definition replace_char :: "str \<Rightarrow> str \<Rightarrow> str \<Rightarrow> str" where
  "replace_char a b s = concat (map (\<lambda>c. if c = a then b else c) (chars s))"

lemma replace_char_append: "valid_utf8 s \<Longrightarrow> replace_char a b (s @ t) = replace_char a b s @ replace_char a b t"
  by (simp add: replace_char_def chars_append)

lemma replace_char_absent:
  assumes "valid_utf8 s" and "a \<notin> set (chars s)"
  shows "replace_char a b s = s"
proof -
  have "map (\<lambda>c. if c = a then b else c) (chars s) = chars s" using assms(2) by (auto intro: map_idI)
  then show ?thesis using assms(1) by (simp add: replace_char_def)
qed

lemma replace_char_chars:
  assumes "valid_utf8 s" and "is_char b"
  shows "chars (replace_char a b s) = map (\<lambda>c. if c = a then b else c) (chars s)"
    and "valid_utf8 (replace_char a b s)"
proof -
  have "\<forall>c \<in> set (map (\<lambda>c. if c = a then b else c) (chars s)). is_char c"
    using assms chars_are_chars by auto
  then show "chars (replace_char a b s) = map (\<lambda>c. if c = a then b else c) (chars s)"
    "valid_utf8 (replace_char a b s)"
    unfolding replace_char_def by (rule chars_concat, rule valid_concat_chars)
qed

lemma replace_char_back:
  assumes "valid_utf8 s" and "is_char b" and "b \<notin> set (chars s)"
  shows "replace_char b a (replace_char a b s) = s"
proof -
  have "map (\<lambda>c. if c = b then a else c) (map (\<lambda>c. if c = a then b else c) (chars s)) = chars s"
    using assms(3) by (auto intro: map_idI)
  then show ?thesis using assms
    unfolding replace_char_def [of b] replace_char_chars(1) [OF assms(1,2)] by simp
qed

end
