(* ===== verification/Tokenizer.thy ===== *)
theory Tokenizer
  imports Utf8Chars GgufFile
begin

text \<open>
  The tokenizer (\<open>crates/grim-format/src/tokenizer.rs\<close>): building it from GGUF metadata, encoding by
  byte-level BPE, by Gemma-style BPE and by score merging, long texts in chunks, and decoding. A
  \<open>HashMap\<close> from token to id is an association list with the latest insertion in front. Parameters:
  the Unicode tables behind \<open>is_alphabetic\<close>, \<open>is_numeric\<close> and \<open>is_whitespace\<close>, and the float operations
  on scores.
\<close>

record char_classes =
  cc_alphabetic :: "str \<Rightarrow> bool"
  cc_numeric :: "str \<Rightarrow> bool"
  cc_whitespace :: "str \<Rightarrow> bool"

record score_ops =
  so_greater :: "f32 \<Rightarrow> f32 \<Rightarrow> bool"
  so_min :: f32
  so_of_id :: "u32 \<Rightarrow> f32"
  so_of_value :: "gguf_value \<Rightarrow> f32"

record tokenizer =
  tk_tokens :: "str list"
  tk_token_to_id :: "(str \<times> u32) list"
  tk_scores :: "f32 list option"
  tk_model_type :: str
  tk_bpe_merges :: "(str \<rightharpoonup> u32) option"
  tk_byte_decoder :: "(str \<rightharpoonup> u8) option"
  tk_eos :: "u32 option"
  tk_bos :: "u32 option"
  tk_add_bos :: bool
  tk_unk :: "u32 option"
  tk_chat_template :: "str option"
  tk_architecture :: "str option"
  tk_added_tokens :: "str list"

definition id_of :: "tokenizer \<Rightarrow> str \<Rightarrow> u32 option" where
  "id_of tk t = map_of (tk_token_to_id tk) t"

definition or_else :: "'a option \<Rightarrow> 'a option \<Rightarrow> 'a option" where
  "or_else a b = (case a of None \<Rightarrow> b | Some _ \<Rightarrow> a)"

definition unwrap_or :: "'a \<Rightarrow> 'a option \<Rightarrow> 'a" where
  "unwrap_or d a = (case a of None \<Rightarrow> d | Some x \<Rightarrow> x)"

definition unk_token_id :: "tokenizer \<Rightarrow> u32" where
  "unk_token_id tk = unwrap_or 0 (or_else (tk_unk tk) (or_else (id_of tk (ascii ''<unk>''))
     (or_else (id_of tk (ascii ''<|unk|>'')) (id_of tk (ascii ''<|unknown|>'')))))"

definition pad_token_id :: "tokenizer \<Rightarrow> u32" where
  "pad_token_id tk = unwrap_or 0 (or_else (id_of tk (ascii ''<|pad|>'')) (id_of tk (ascii ''<pad>'')))"

section \<open>Bytes as printable characters\<close>

text \<open>\<open>char::encode_utf8\<close> of a code point.\<close>

definition utf8_of_code :: "nat \<Rightarrow> str" where
  "utf8_of_code n =
     (if n < 128 then [of_nat n]
      else if n < 2048 then [of_nat (192 + n div 64), of_nat (128 + n mod 64)]
      else if n < 65536 then [of_nat (224 + n div 4096), of_nat (128 + n div 64 mod 64), of_nat (128 + n mod 64)]
      else [of_nat (240 + n div 262144), of_nat (128 + n div 4096 mod 64), of_nat (128 + n div 64 mod 64),
            of_nat (128 + n mod 64)])"

definition byte_printable :: "nat \<Rightarrow> bool" where
  "byte_printable b \<longleftrightarrow> 33 \<le> b \<and> b \<le> 126 \<or> 161 \<le> b \<and> b \<le> 172 \<or> 174 \<le> b \<and> b \<le> 255"

text \<open>The printable bytes stand for themselves, the others count up from 256.\<close>

fun byte_codes :: "nat list \<Rightarrow> nat \<Rightarrow> nat list" where
  "byte_codes [] c = []"
| "byte_codes (b # bs) c = (if byte_printable b then b # byte_codes bs c else (256 + c) # byte_codes bs (c + 1))"

definition byte_char :: "u8 \<Rightarrow> str" where
  "byte_char b = utf8_of_code (byte_codes [0..<256] 0 ! unat b)"

definition gpt2_byte_decoder :: "str \<rightharpoonup> u8" where
  "gpt2_byte_decoder = map_of (map (\<lambda>b. (byte_char (of_nat b), of_nat b)) [0..<256])"

section \<open>From metadata\<close>

definition added_tokens_from_types :: "gguf_metadata \<Rightarrow> str list \<Rightarrow> str list" where
  "added_tokens_from_types m tokens =
     (case Option.bind (map_of m (ascii ''tokenizer.ggml.token_type'')) as_array of
        None \<Rightarrow> []
      | Some types \<Rightarrow>
          if length types \<noteq> length tokens then []
          else map fst (filter (\<lambda>(_, ty).
                 unwrap_or 1 (or_else (as_i32 ty) (as_u32 ty)) \<in> {2, 3, 4})
               (zip tokens types)))"

fun read_tokens :: "gguf_value list \<Rightarrow> nat \<Rightarrow> str list \<Rightarrow> (str \<times> u32) list
    \<Rightarrow> (string, str list \<times> (str \<times> u32) list) outcome" where
  "read_tokens [] i tokens ids = Ok (tokens, ids)"
| "read_tokens (v # vs) i tokens ids = (case as_str v of
     None \<Rightarrow> Err ''tokenizer.ggml.tokens contains non-string element''
   | Some t \<Rightarrow> read_tokens vs (i + 1) (tokens @ [t]) ((t, of_nat i) # ids))"

definition merge_pair :: "gguf_value \<Rightarrow> str option" where
  "merge_pair entry = (case as_array entry of
     Some ps \<Rightarrow> if length ps = 2
       then Some (unwrap_or [] (as_str (ps ! 0)) @ [32] @ unwrap_or [] (as_str (ps ! 1))) else None
   | None \<Rightarrow> as_str entry)"

fun read_merges :: "gguf_value list \<Rightarrow> nat \<Rightarrow> (str \<rightharpoonup> u32) \<Rightarrow> (str \<rightharpoonup> u32)" where
  "read_merges [] rank m = m"
| "read_merges (entry # es) rank m = (case merge_pair entry of
     None \<Rightarrow> read_merges es (rank + 1) m
   | Some pair \<Rightarrow> read_merges es (rank + 1) (m(pair \<mapsto> of_nat rank)))"

definition LLAMA3_PRE :: "str list" where
  "LLAMA3_PRE = map ascii [''llama3'', ''llama-v3'', ''llama-bpe'', ''falcon3'', ''falcon-h1'', ''pixtral'',
     ''midm-2.0'', ''lfm2'', ''jina-v5-nano'']"

definition from_metadata :: "score_ops \<Rightarrow> gguf_metadata \<Rightarrow> (string, tokenizer) outcome" where
  "from_metadata so m =
     (let model_type = unwrap_or (ascii ''llama'') (Option.bind (map_of m (ascii ''tokenizer.ggml.model'')) as_str) in
      case map_of m (ascii ''tokenizer.ggml.tokens'') of None \<Rightarrow> Err ''tokenizer.ggml.tokens not found in GGUF metadata''
      | Some tokens_val \<Rightarrow> (case as_array tokens_val of None \<Rightarrow> Err ''tokenizer.ggml.tokens is not an array''
        | Some vs \<Rightarrow> (case read_tokens vs 0 [] [] of
            Ok (tokens, ids) \<Rightarrow> Ok \<lparr>
              tk_tokens = tokens, tk_token_to_id = ids,
              tk_scores = map_option (map (so_of_value so)) (Option.bind (map_of m (ascii ''tokenizer.ggml.scores'')) as_array),
              tk_model_type = model_type,
              tk_bpe_merges = (if model_type \<in> {ascii ''bpe'', ascii ''gpt2'', ascii ''gemma4''}
                then map_option (\<lambda>arr. read_merges arr 0 Map.empty)
                  (Option.bind (map_of m (ascii ''tokenizer.ggml.merges'')) as_array)
                else None),
              tk_byte_decoder = (if model_type \<in> {ascii ''bpe'', ascii ''gpt2''} then Some gpt2_byte_decoder else None),
              tk_eos = Option.bind (map_of m (ascii ''tokenizer.ggml.eos_token_id'')) as_u32,
              tk_bos = Option.bind (map_of m (ascii ''tokenizer.ggml.bos_token_id'')) as_u32,
              tk_add_bos = (case Option.bind (map_of m (ascii ''tokenizer.ggml.add_bos_token'')) as_bool of
                  Some b \<Rightarrow> b
                | None \<Rightarrow> (case Option.bind (map_of m (ascii ''tokenizer.ggml.pre'')) as_str of
                    Some pre \<Rightarrow> pre \<in> set LLAMA3_PRE | None \<Rightarrow> False)),
              tk_unk = Option.bind (map_of m (ascii ''tokenizer.ggml.unknown_token_id'')) as_u32,
              tk_chat_template = Option.bind (map_of m (ascii ''tokenizer.chat_template'')) as_str,
              tk_architecture = Option.bind (map_of m (ascii ''general.architecture'')) as_str,
              tk_added_tokens = added_tokens_from_types m tokens\<rparr>
          | Err e \<Rightarrow> Err e | Panic \<Rightarrow> Panic | Hang \<Rightarrow> Hang)))"

section \<open>Pre-tokenization\<close>

definition contractions :: "str list list" where
  "contractions = map (\<lambda>t. map (\<lambda>b. [b]) (39 # ascii t)) [''s'', ''t'', ''re'', ''ve'', ''m'', ''ll'', ''d'']"

definition contraction :: "str list \<Rightarrow> nat option" where
  "contraction cs = map_option length (find (\<lambda>cand. take (length cand) cs = cand) contractions)"

definition run :: "(str \<Rightarrow> bool) \<Rightarrow> str list \<Rightarrow> nat" where
  "run p cs = length (takeWhile p cs)"

definition is_other :: "char_classes \<Rightarrow> str \<Rightarrow> bool" where
  "is_other cc c \<longleftrightarrow> \<not> cc_whitespace cc c \<and> \<not> cc_alphabetic cc c \<and> \<not> cc_numeric cc c"

text \<open>The number of characters of the next word.\<close>

definition next_word :: "char_classes \<Rightarrow> str \<Rightarrow> str list \<Rightarrow> nat" where
  "next_word cc c rest =
     (if c = [39] \<and> contraction (c # rest) \<noteq> None then the (contraction (c # rest))
      else if c = [32] \<and> rest \<noteq> [] \<and> \<not> cc_whitespace cc (hd rest) then
        1 + (if cc_alphabetic cc (hd rest) then run (cc_alphabetic cc) rest
             else if cc_numeric cc (hd rest) then run (cc_numeric cc) rest
             else run (is_other cc) rest)
      else if cc_alphabetic cc c then run (cc_alphabetic cc) (c # rest)
      else if cc_numeric cc c then run (cc_numeric cc) (c # rest)
      else if \<not> cc_whitespace cc c then run (is_other cc) (c # rest)
      else let j = run (cc_whitespace cc) (c # rest) in
        if j = length (c # rest) then j else if 1 < j then j - 1 else j)"

lemma next_word_pos: "0 < next_word cc c rest"
proof -
  have "0 < n" if "contraction cs = Some n" for cs n
  proof -
    have "\<exists>cand \<in> set contractions. n = length cand"
      using that by (force simp: contraction_def find_Some_iff)
    then show ?thesis by (auto simp: contractions_def)
  qed
  note pos = this
  show ?thesis
  proof (cases "c = [39] \<and> contraction (c # rest) \<noteq> None")
    case True
    then obtain n where "contraction (c # rest) = Some n" by blast
    then show ?thesis using True pos by (simp add: next_word_def)
  next
    case False
    then show ?thesis unfolding next_word_def if_not_P [OF False] by (auto simp: Let_def run_def is_other_def)
  qed
qed

function split_words :: "char_classes \<Rightarrow> str list \<Rightarrow> str list" where
  "split_words cc [] = []"
| "split_words cc (c # rest) =
     (let n = next_word cc c rest in concat (take n (c # rest)) # split_words cc (drop n (c # rest)))"
  by pat_completeness auto
termination
  by (relation "measure (\<lambda>(_, cs). length cs)") (auto simp: next_word_pos)

definition split_on_gpt2_pretokenize :: "char_classes \<Rightarrow> str \<Rightarrow> str list" where
  "split_on_gpt2_pretokenize cc s = split_words cc (chars s)"

section \<open>Merging by rank\<close>

fun best_pair :: "(str \<rightharpoonup> u32) \<Rightarrow> nat \<Rightarrow> str list \<Rightarrow> (u32 \<times> nat) option \<Rightarrow> (u32 \<times> nat) option" where
  "best_pair merges i (a # b # rest) best =
     best_pair merges (i + 1) (b # rest)
       (case merges (a @ [32] @ b) of None \<Rightarrow> best
        | Some rank \<Rightarrow> (case best of
            None \<Rightarrow> Some (rank, i)
          | Some (br, _) \<Rightarrow> if rank < br then Some (rank, i) else best))"
| "best_pair merges i _ best = best"

definition merge_at :: "nat \<Rightarrow> str list \<Rightarrow> str list" where
  "merge_at idx symbols = take idx symbols @ (symbols ! idx @ symbols ! (idx + 1)) # drop (idx + 2) symbols"

lemma best_pair_in:
  "best_pair merges i symbols best = Some (r, j) \<Longrightarrow>
     best = Some (r, j) \<or> i \<le> j \<and> j + 1 < i + length symbols \<and> merges (symbols ! (j - i) @ [32] @ symbols ! (j - i + 1)) = Some r"
proof (induction merges i symbols best rule: best_pair.induct)
  case (1 merges i a b rest best)
  let ?best = "case merges (a @ [32] @ b) of None \<Rightarrow> best
      | Some rank \<Rightarrow> (case best of None \<Rightarrow> Some (rank, i) | Some (br, _) \<Rightarrow> if rank < br then Some (rank, i) else best)"
  have "?best = Some (r, j) \<or> i + 1 \<le> j \<and> j + 1 < i + 1 + length (b # rest)
      \<and> merges ((b # rest) ! (j - (i + 1)) @ [32] @ (b # rest) ! (j - (i + 1) + 1)) = Some r"
    using 1 by simp
  then show ?case
  proof
    assume "?best = Some (r, j)"
    then show ?thesis by (auto split: option.splits if_splits)
  next
    assume h: "i + 1 \<le> j \<and> j + 1 < i + 1 + length (b # rest)
      \<and> merges ((b # rest) ! (j - (i + 1)) @ [32] @ (b # rest) ! (j - (i + 1) + 1)) = Some r"
    then obtain k where "j = i + 1 + k" using le_iff_add [of "i + 1" j] by blast
    then show ?thesis using h by simp
  qed
qed auto

lemma best_pair_bound: "best_pair merges 0 symbols None = Some (r, j) \<Longrightarrow> j + 1 < length symbols"
  using best_pair_in [of merges 0 symbols None r j] by simp

function merge_all :: "(str \<rightharpoonup> u32) \<Rightarrow> str list \<Rightarrow> str list" where
  "merge_all merges symbols = (case best_pair merges 0 symbols None of
     None \<Rightarrow> symbols
   | Some (_, idx) \<Rightarrow> merge_all merges (merge_at idx symbols))"
  by auto
termination
proof (relation "measure (\<lambda>(_, symbols). length symbols)")
  fix merges :: "str \<rightharpoonup> u32" and symbols x2 and rank :: u32 and idx
  assume "best_pair merges 0 symbols None = Some x2" "(rank, idx) = x2"
  then have "idx + 1 < length symbols" using best_pair_bound by metis
  then show "((merges, merge_at idx symbols), merges, symbols) \<in> measure (\<lambda>(_, symbols). length symbols)"
    by (simp add: merge_at_def)
qed simp

declare merge_all.simps [simp del]

section \<open>Looking symbols up\<close>

definition lookup_char :: "tokenizer \<Rightarrow> str \<Rightarrow> u32" where
  "lookup_char tk c = (case id_of tk c of Some i \<Rightarrow> i | None \<Rightarrow> unk_token_id tk)"

definition encode_fallback :: "tokenizer \<Rightarrow> str \<Rightarrow> u32 list" where
  "encode_fallback tk s = map (lookup_char tk) (chars s)"

definition lookup_symbol :: "tokenizer \<Rightarrow> str \<Rightarrow> u32 list" where
  "lookup_symbol tk sy = (case id_of tk sy of Some i \<Rightarrow> [i] | None \<Rightarrow> map (lookup_char tk) (chars sy))"

definition encode_word :: "tokenizer \<Rightarrow> (str \<rightharpoonup> u32) \<Rightarrow> str \<Rightarrow> u32 list" where
  "encode_word tk merges piece =
     (if piece = [] then []
      else let word = concat (map byte_char piece) in
        case id_of tk word of Some i \<Rightarrow> [i]
        | None \<Rightarrow> concat (map (lookup_symbol tk) (merge_all merges (chars word))))"

definition bpe_encode_chunk :: "char_classes \<Rightarrow> tokenizer \<Rightarrow> str \<Rightarrow> u32 list" where
  "bpe_encode_chunk cc tk s = (case tk_bpe_merges tk of
     None \<Rightarrow> encode_fallback tk s
   | Some merges \<Rightarrow> concat (map (encode_word tk merges) (split_on_gpt2_pretokenize cc s)))"

section \<open>Gemma pieces\<close>

text \<open>Maximal runs of newlines and of other bytes.\<close>

function split_newline_runs :: "str \<Rightarrow> str list" where
  "split_newline_runs [] = []"
| "split_newline_runs (b # s) =
     (let same = takeWhile (\<lambda>x. (x = 10) = (b = 10)) s in
      (b # same) # split_newline_runs (drop (length same) s))"
  by pat_completeness auto
termination
  by (relation "measure length") auto

definition hex_digit :: "nat \<Rightarrow> u8" where
  "hex_digit d = of_nat (if d < 10 then 48 + d else 55 + d)"

fun hex_upper :: "nat \<Rightarrow> str" where
  "hex_upper n = (if n < 16 then [hex_digit n] else hex_upper (n div 16) @ [hex_digit (n mod 16)])"

declare hex_upper.simps [simp del]

text \<open>\<open>format!("<0x{:02X}>", n)\<close>.\<close>

definition hex_token :: "nat \<Rightarrow> str" where
  "hex_token n = ascii ''<0x'' @ (if n < 16 then [48] else []) @ hex_upper n @ ascii ''>''"

definition lookup_spm_symbol :: "tokenizer \<Rightarrow> str \<Rightarrow> u32 list" where
  "lookup_spm_symbol tk sy = (case id_of tk sy of Some i \<Rightarrow> [i]
     | None \<Rightarrow> List.map_filter (\<lambda>b. id_of tk (hex_token (unat b))) sy)"

definition bpe_merge_spm_piece :: "tokenizer \<Rightarrow> str \<Rightarrow> u32 list" where
  "bpe_merge_spm_piece tk piece = (case tk_bpe_merges tk of
     None \<Rightarrow> encode_fallback tk piece
   | Some merges \<Rightarrow> concat (map (lookup_spm_symbol tk) (merge_all merges (chars piece))))"

definition LOWER_BLOCK :: str where "LOWER_BLOCK = [0xE2, 0x96, 0x81]"
definition G_DOT :: str where "G_DOT = [0xC4, 0xA0]"
definition C_DOT :: str where "C_DOT = [0xC4, 0x8A]"

definition encode_spm_piece :: "tokenizer \<Rightarrow> str \<Rightarrow> u32 list" where
  "encode_spm_piece tk piece =
     (if piece = [] then []
      else if list_all (\<lambda>c. c = [10]) (chars piece) then
        (case id_of tk piece of Some i \<Rightarrow> [i] | None \<Rightarrow> bpe_merge_spm_piece tk piece)
      else bpe_merge_spm_piece tk piece)"

definition encode_spm_bpe_chunk :: "tokenizer \<Rightarrow> str \<Rightarrow> u32 list" where
  "encode_spm_bpe_chunk tk s = concat (map (encode_spm_piece tk) (split_newline_runs (replace_char [32] LOWER_BLOCK s)))"

section \<open>Score merging\<close>

definition contains_char :: "str \<Rightarrow> str \<Rightarrow> bool" where
  "contains_char c s \<longleftrightarrow> find_str c s \<noteq> None"

definition starts_with_str :: "str \<Rightarrow> str \<Rightarrow> bool" where
  "starts_with_str p s \<longleftrightarrow> take (length p) s = p"

definition legacy_text :: "tokenizer \<Rightarrow> str \<Rightarrow> str" where
  "legacy_text tk s =
     (if list_ex (contains_char G_DOT) (map fst (tk_token_to_id tk)) then
        let p = replace_char [10] C_DOT (replace_char [32] G_DOT s) in
        if \<not> starts_with_str G_DOT p \<and> \<not> starts_with_str C_DOT p \<and> \<not> starts_with_str [60] p then G_DOT @ p else p
      else if list_ex (contains_char LOWER_BLOCK) (map fst (tk_token_to_id tk)) \<or> tk_model_type tk = ascii ''llama'' then
        let p = replace_char [32] LOWER_BLOCK s in
        if \<not> starts_with_str LOWER_BLOCK p then LOWER_BLOCK @ p else p
      else s)"

text \<open>The code point of a character.\<close>

definition char_code :: "str \<Rightarrow> nat" where
  "char_code c = (case c of
     [a] \<Rightarrow> unat a
   | [a, b] \<Rightarrow> unat a mod 32 * 64 + unat b mod 64
   | [a, b, d] \<Rightarrow> unat a mod 16 * 4096 + unat b mod 64 * 64 + unat d mod 64
   | [a, b, d, e] \<Rightarrow> unat a mod 8 * 262144 + unat b mod 64 * 4096 + unat d mod 64 * 64 + unat e mod 64
   | _ \<Rightarrow> 0)"

definition LEGACY_SPECIALS :: "str list" where
  "LEGACY_SPECIALS = map ascii [''<|im_start|>'', ''<|im_end|>'', ''<|startoftext|>'']"

definition special_here :: "tokenizer \<Rightarrow> str list \<Rightarrow> (u32 \<times> nat) option" where
  "special_here tk cs =
     (if hd cs = [60] then
        (case find (\<lambda>sp. take (length (chars sp)) cs = chars sp \<and> id_of tk sp \<noteq> None) LEGACY_SPECIALS of
           None \<Rightarrow> None | Some sp \<Rightarrow> Some (the (id_of tk sp), length (chars sp)))
      else None)"

lemma special_here_pos: "special_here tk cs = Some (i, n) \<Longrightarrow> 0 < n"
proof -
  assume a: "special_here tk cs = Some (i, n)"
  then obtain sp where "find (\<lambda>sp. take (length (chars sp)) cs = chars sp \<and> id_of tk sp \<noteq> None) LEGACY_SPECIALS = Some sp"
    "n = length (chars sp)"
    by (auto simp: special_here_def split: if_splits option.splits)
  then have sp: "sp \<in> set LEGACY_SPECIALS" "n = length (chars sp)" by (auto simp: find_Some_iff)
  then have "sp \<noteq> []" by (auto simp: LEGACY_SPECIALS_def ascii_def)
  then show ?thesis using sp(2) by (simp add: chars.simps [of sp])
qed

definition legacy_char :: "tokenizer \<Rightarrow> str \<Rightarrow> u32" where
  "legacy_char tk c = (case id_of tk c of Some i \<Rightarrow> i
     | None \<Rightarrow> (case id_of tk (hex_token (char_code c)) of Some i \<Rightarrow> i | None \<Rightarrow> unk_token_id tk))"

function legacy_ids :: "tokenizer \<Rightarrow> str list \<Rightarrow> u32 list" where
  "legacy_ids tk [] = []"
| "legacy_ids tk (c # cs) = (case special_here tk (c # cs) of
     Some (i, n) \<Rightarrow> i # legacy_ids tk (drop n (c # cs))
   | None \<Rightarrow> legacy_char tk c # legacy_ids tk cs)"
  by pat_completeness auto
termination
  by (relation "measure (\<lambda>(_, cs). length cs)") (auto dest: special_here_pos)

definition token_text :: "tokenizer \<Rightarrow> u32 \<Rightarrow> str option" where
  "token_text tk i = (if unat i < length (tk_tokens tk) then Some (tk_tokens tk ! unat i) else None)"

text \<open>The cache of looked-up pairs changes no result and is left out.\<close>

definition merged_id :: "tokenizer \<Rightarrow> u32 \<Rightarrow> u32 \<Rightarrow> u32 option" where
  "merged_id tk a b = (case (token_text tk a, token_text tk b) of
     (Some s, Some t) \<Rightarrow> id_of tk (s @ t) | _ \<Rightarrow> None)"

definition score_of :: "score_ops \<Rightarrow> tokenizer \<Rightarrow> u32 \<Rightarrow> f32" where
  "score_of so tk i = (case tk_scores tk of
     Some sc \<Rightarrow> if unat i < length sc then sc ! unat i else so_of_id so i
   | None \<Rightarrow> so_of_id so i)"

fun best_scored :: "score_ops \<Rightarrow> tokenizer \<Rightarrow> u32 list \<Rightarrow> f32 \<Rightarrow> (u32 \<times> u32 \<times> u32) option \<Rightarrow> (u32 \<times> u32 \<times> u32) option" where
  "best_scored so tk (a # b # ids) best_score best = (case merged_id tk a b of
     None \<Rightarrow> best_scored so tk (b # ids) best_score best
   | Some m \<Rightarrow>
       if so_greater so (score_of so tk m) best_score
       then best_scored so tk (b # ids) (score_of so tk m) (Some (a, b, m))
       else best_scored so tk (b # ids) best_score best)"
| "best_scored so tk _ best_score best = best"

fun replace_pair :: "u32 \<Rightarrow> u32 \<Rightarrow> u32 \<Rightarrow> u32 list \<Rightarrow> u32 list" where
  "replace_pair a b m (x # y # ids) =
     (if x = a \<and> y = b then m # replace_pair a b m ids else x # replace_pair a b m (y # ids))"
| "replace_pair a b m ids = ids"

lemma replace_pair_length: "length (replace_pair a b m ids) \<le> length ids"
  by (induction a b m ids rule: replace_pair.induct) auto

text \<open>A pass that merges nothing ends the loop.\<close>

function merge_scored :: "score_ops \<Rightarrow> tokenizer \<Rightarrow> u32 list \<Rightarrow> u32 list" where
  "merge_scored so tk ids = (case best_scored so tk ids (so_min so) None of
     None \<Rightarrow> ids
   | Some (a, b, m) \<Rightarrow>
       let next_ids = replace_pair a b m ids in
       if length next_ids < length ids then merge_scored so tk next_ids else ids)"
  by auto
termination
  by (relation "measure (\<lambda>(_, _, ids). length ids)") auto

declare merge_scored.simps [simp del]

definition encode_legacy_chunk :: "score_ops \<Rightarrow> tokenizer \<Rightarrow> str \<Rightarrow> u32 list" where
  "encode_legacy_chunk so tk s = merge_scored so tk (legacy_ids tk (chars (legacy_text tk s)))"

section \<open>Partition on special tokens\<close>

fun find_special :: "str list \<Rightarrow> str \<Rightarrow> (str \<times> nat) option \<Rightarrow> (str \<times> nat) option" where
  "find_special [] s found = found"
| "find_special (st # sts) s found = find_special sts s
     (case find_str st s of None \<Rightarrow> found
      | Some pos \<Rightarrow> (case found of None \<Rightarrow> Some (st, pos)
         | Some (cur, cur_pos) \<Rightarrow>
             if pos < cur_pos \<or> pos = cur_pos \<and> length cur < length st then Some (st, pos) else found))"

lemma find_special_in:
  "find_special sts s found = Some (st, pos) \<Longrightarrow> found = Some (st, pos) \<or> st \<in> set sts \<and> find_str st s = Some pos"
proof (induction sts arbitrary: found)
  case (Cons t sts)
  from Cons.IH [of "case find_str t s of None \<Rightarrow> found
      | Some p \<Rightarrow> (case found of None \<Rightarrow> Some (t, p)
         | Some (cur, cur_pos) \<Rightarrow> if p < cur_pos \<or> p = cur_pos \<and> length cur < length t then Some (t, p) else found)"]
    Cons.prems
  show ?case by (auto split: option.splits if_splits)
qed simp

text \<open>
  The three encoders share this loop and differ in how they encode the text between special tokens and
  what they emit for one. An empty special token matches everywhere and leaves the rest as it is: the
  loop does not end.
\<close>

function partition_loop :: "(str \<Rightarrow> u32 list) \<Rightarrow> (str \<Rightarrow> (string, u32 list) outcome) \<Rightarrow> str list \<Rightarrow> str
    \<Rightarrow> (string, u32 list) outcome" where
  "partition_loop chunk emit specials rest = (case find_special specials rest None of
     None \<Rightarrow> Ok (if rest = [] then [] else chunk rest)
   | Some (st, pos) \<Rightarrow>
       let before = (if take pos rest = [] then [] else chunk (take pos rest)) in
       (case emit st of
          Ok ids \<Rightarrow>
            if st = [] then Hang
            else (case partition_loop chunk emit specials (drop (pos + length st) rest) of
                Ok more_ids \<Rightarrow> Ok (before @ ids @ more_ids) | Err e \<Rightarrow> Err e | Panic \<Rightarrow> Panic | Hang \<Rightarrow> Hang)
        | Err e \<Rightarrow> Err e | Panic \<Rightarrow> Panic | Hang \<Rightarrow> Hang))"
  by auto
termination
proof (relation "measure (\<lambda>(_, _, _, rest). length rest)")
  fix chunk :: "str \<Rightarrow> u32 list" and emit :: "str \<Rightarrow> (string, u32 list) outcome" and specials rest x2 st pos x xa
  assume a: "find_special specials rest None = Some x2" "(st, pos) = x2" "st \<noteq> []"
  then have "find_str st rest = Some pos" using find_special_in [of specials rest None st pos] by simp
  then have "pos + length st \<le> length rest" using find_str_Some by blast
  moreover have "0 < length st" using a(3) by simp
  ultimately have "length rest - (pos + length st) < length rest" by linarith
  then show "((chunk, emit, specials, drop (pos + length st) rest), chunk, emit, specials, rest)
      \<in> measure (\<lambda>(_, _, _, rest). length rest)"
    by simp
qed simp

declare partition_loop.simps [simp del]

definition GENERIC_SPECIALS :: "str list" where
  "GENERIC_SPECIALS = map ascii [''<|startoftext|>'', ''<|endoftext|>'', ''<|pad|>'', ''<|im_start|>'', ''<|im_end|>'',
     ''<|system|>'', ''<|user|>'', ''<|assistant|>'', ''<s>'', ''</s>'']"

definition special_tokens :: "tokenizer \<Rightarrow> str list" where
  "special_tokens tk = filter (\<lambda>t. id_of tk t \<noteq> None) (tk_added_tokens tk) @ GENERIC_SPECIALS"

text \<open>A special token without an id is passed over by the BPE encoders; the last one indexes the map.\<close>

definition emit_known :: "tokenizer \<Rightarrow> str \<Rightarrow> (string, u32 list) outcome" where
  "emit_known tk st = Ok (case id_of tk st of Some i \<Rightarrow> [i] | None \<Rightarrow> [])"

definition emit_indexed :: "tokenizer \<Rightarrow> str \<Rightarrow> (string, u32 list) outcome" where
  "emit_indexed tk st = (case id_of tk st of Some i \<Rightarrow> Ok [i] | None \<Rightarrow> Panic)"

definition encode_bpe :: "char_classes \<Rightarrow> tokenizer \<Rightarrow> str \<Rightarrow> str list \<Rightarrow> (string, u32 list) outcome" where
  "encode_bpe cc tk s specials = partition_loop (bpe_encode_chunk cc tk) (emit_known tk) specials s"

definition encode_spm_bpe :: "tokenizer \<Rightarrow> str \<Rightarrow> str list \<Rightarrow> (string, u32 list) outcome" where
  "encode_spm_bpe tk s specials = partition_loop (encode_spm_bpe_chunk tk) (emit_known tk) specials s"

section \<open>Long texts\<close>

fun back_up :: "str \<Rightarrow> nat \<Rightarrow> nat \<Rightarrow> nat \<Rightarrow> nat" where
  "back_up bytes lower start 0 = 0"
| "back_up bytes lower start (Suc e) =
     (if lower < Suc e \<and> start < Suc e \<and> bytes ! e \<noteq> 10 then back_up bytes lower start e else Suc e)"

function next_boundary :: "str \<Rightarrow> nat \<Rightarrow> nat" where
  "next_boundary bytes e =
     (if e < length bytes \<and> \<not> is_boundary bytes e then next_boundary bytes (e + 1) else e)"
  by auto
termination
  by (relation "measure (\<lambda>(bytes, e). length bytes - e)") auto

declare next_boundary.simps [simp del]

definition chunk_end :: "str \<Rightarrow> nat \<Rightarrow> nat \<Rightarrow> nat" where
  "chunk_end bytes target start =
     (let whole = min (start + target) (length bytes);
          e1 = (if whole < length bytes then next_boundary bytes (back_up bytes (start + target div 2) start whole) else whole);
          e2 = next_boundary bytes e1
      in if e2 \<le> start then next_boundary bytes (min (start + target) (length bytes)) else e2)"

text \<open>With a target of zero the last step stays where it is and the loop does not end.\<close>

function chunk_bounds_from :: "str \<Rightarrow> nat \<Rightarrow> nat \<Rightarrow> (string, (nat \<times> nat) list) outcome" where
  "chunk_bounds_from bytes target start =
     (if start < length bytes then
        let e = chunk_end bytes target start in
        if e \<le> start then Hang
        else (case chunk_bounds_from bytes target e of
            Ok bs \<Rightarrow> Ok ((start, e) # bs) | Err x \<Rightarrow> Err x | Panic \<Rightarrow> Panic | Hang \<Rightarrow> Hang)
      else Ok [])"
  by auto
termination
  by (relation "measure (\<lambda>(bytes, _, start). length bytes - start)") auto

declare chunk_bounds_from.simps [simp del]

definition chunk_bounds :: "str \<Rightarrow> nat \<Rightarrow> (string, (nat \<times> nat) list) outcome" where
  "chunk_bounds bytes target = chunk_bounds_from bytes target 0"

fun append_parts :: "(string, u32 list) outcome list \<Rightarrow> (string, u32 list) outcome" where
  "append_parts [] = Ok []"
| "append_parts (p # ps) = (case p of
     Ok ids \<Rightarrow> (case append_parts ps of Ok more_ids \<Rightarrow> Ok (ids @ more_ids) | Err e \<Rightarrow> Err e | Panic \<Rightarrow> Panic | Hang \<Rightarrow> Hang)
   | Err e \<Rightarrow> Err e | Panic \<Rightarrow> Panic | Hang \<Rightarrow> Hang)"

lemma next_boundary_ge: "e \<le> next_boundary bytes e"
proof (induction bytes e rule: next_boundary.induct)
  case (1 bytes e)
  then show ?case by (auto simp: next_boundary.simps [of bytes e])
qed

lemma back_up_le: "back_up bytes lower start e \<le> e"
  by (induction e) auto

text \<open>
  \<open>encode\<close> of a long text encodes the slices by itself. A slice as long as the text would be the same
  call again.
\<close>

function encode :: "char_classes \<Rightarrow> score_ops \<Rightarrow> tokenizer \<Rightarrow> str \<Rightarrow> (string, u32 list) outcome" where
  "encode cc so tk s =
     (if s = [] then Ok []
      else if 8192 \<le> length s then
        (case chunk_bounds s 4096 of
           Ok bounds \<Rightarrow> append_parts (map (\<lambda>(a, b).
             let part = drop a (take b s) in
             if length part < length s then encode cc so tk part else Hang) bounds)
         | Err e \<Rightarrow> Err e | Panic \<Rightarrow> Panic | Hang \<Rightarrow> Hang)
      else if tk_model_type tk = ascii ''bpe'' then encode_bpe cc tk s (special_tokens tk)
      else if tk_model_type tk = ascii ''gemma4'' then encode_spm_bpe tk s (special_tokens tk)
      else partition_loop (encode_legacy_chunk so tk) (emit_indexed tk) (special_tokens tk) s)"
  by auto
termination
  by (relation "measure (\<lambda>(_, _, _, s). length s)") auto

declare encode.simps [simp del]

section \<open>Decoding\<close>

definition decode_char :: "(str \<rightharpoonup> u8) \<Rightarrow> str \<Rightarrow> str" where
  "decode_char d c = (case d c of Some b \<Rightarrow> [b] | None \<Rightarrow> c)"

definition token_at :: "tokenizer \<Rightarrow> u32 \<Rightarrow> str" where
  "token_at tk i = (if i < of_nat (length (tk_tokens tk)) then tk_tokens tk ! unat i else [])"

definition decode :: "tokenizer \<Rightarrow> u32 list \<Rightarrow> str" where
  "decode tk ids =
     (let joined = concat (map (token_at tk) ids) in
      case tk_byte_decoder tk of
        Some d \<Rightarrow> utf8_lossy (concat (map (decode_char d) (chars joined)))
      | None \<Rightarrow>
          let out = (if tk_model_type tk \<in> {ascii ''llama'', ascii ''lfm2'', ascii ''gemma4''}
              then replace_char LOWER_BLOCK [32] joined else joined)
          in replace_char C_DOT [10] (replace_char G_DOT [32] out))"

end
