(* ===== verification/TokenizerLaws.thy ===== *)
theory TokenizerLaws
  imports Tokenizer
begin

text \<open>
  What the tokenizer keeps: merging concatenates, words and slices cover the text, every byte has its
  character, and a vocabulary built from metadata names its own tokens. The locale \<open>spelling\<close> carries
  that from pieces to whole texts; byte-level and Gemma decoding are its interpretations.
\<close>

section \<open>Merging\<close>

lemma merge_at_concat:
  assumes "i + 1 < length symbols"
  shows "concat (merge_at i symbols) = concat symbols"
proof -
  have "symbols = take i symbols @ symbols ! i # symbols ! (i + 1) # drop (i + 2) symbols"
    using assms by (simp add: id_take_nth_drop Cons_nth_drop_Suc)
  then show ?thesis unfolding merge_at_def by (metis append.assoc concat.simps(2) concat_append)
qed

lemma merge_at_set:
  assumes "i + 1 < length symbols"
  shows "set (merge_at i symbols) \<subseteq> set symbols \<union> {symbols ! i @ symbols ! (i + 1)}"
  using set_take_subset [of i symbols] set_drop_subset [of "i + 2" symbols] by (auto simp: merge_at_def)

text \<open>Merging keeps the text, and every symbol is an old one or the union of a pair with a rank.\<close>

lemma merge_all_concat: "concat (merge_all merges symbols) = concat symbols"
proof (induction merges symbols rule: merge_all.induct)
  case (1 merges symbols)
  then show ?case
    using best_pair_bound [of merges symbols] merge_at_concat [of _ symbols]
    by (auto simp: merge_all.simps [of merges symbols] split: option.split)
qed

lemma merge_all_set:
  assumes "\<forall>s \<in> set symbols. P s"
    and "\<And>a b r. merges (a @ [32] @ b) = Some r \<Longrightarrow> P a \<Longrightarrow> P b \<Longrightarrow> P (a @ b)"
  shows "\<forall>s \<in> set (merge_all merges symbols). P s"
  using assms(1)
proof (induction "length symbols" arbitrary: symbols rule: less_induct)
  case less
  show ?case
  proof (cases "best_pair merges 0 symbols None")
    case None
    then show ?thesis using less.prems by (simp add: merge_all.simps [of merges symbols])
  next
    case (Some x)
    obtain r i where x: "x = (r, i)" by (cases x)
    have i: "i + 1 < length symbols" "merges (symbols ! i @ [32] @ symbols ! (i + 1)) = Some r"
      using best_pair_in [of merges 0 symbols None r i] Some x by simp_all
    have "P (symbols ! i @ symbols ! (i + 1))" using i less.prems by (intro assms(2)) simp_all
    then have "\<forall>s \<in> set (merge_at i symbols). P s" using merge_at_set [OF i(1)] less.prems by blast
    moreover have "length (merge_at i symbols) < length symbols" using i(1) by (simp add: merge_at_def)
    ultimately show ?thesis using less.hyps Some x by (simp add: merge_all.simps [of merges symbols])
  qed
qed

text \<open>Nothing is left to merge.\<close>

lemma best_pair_None:
  "best_pair merges i symbols None = None \<Longrightarrow> j + 1 < length symbols \<Longrightarrow> merges (symbols ! j @ [32] @ symbols ! (j + 1)) = None"
proof (induction merges i symbols "None :: (u32 \<times> nat) option" arbitrary: j rule: best_pair.induct)
  case (1 merges i a b rest)
  have some: "best_pair merges k xs (Some y) \<noteq> None" for k xs y
    by (induction merges k xs "Some y" arbitrary: y rule: best_pair.induct) (auto split: option.split)
  have m: "merges (a @ [32] @ b) = None"
  proof (rule ccontr)
    assume "merges (a @ [32] @ b) \<noteq> None"
    then obtain rk where "merges (a @ [32] @ b) = Some rk" by blast
    then show False using "1.prems"(1) some [of "i + 1" "b # rest" "(rk, i)"] by simp
  qed
  show ?case
  proof (cases j)
    case 0
    then show ?thesis using m by simp
  next
    case (Suc k)
    then show ?thesis using "1.hyps" [of k] "1.prems" m by simp
  qed
qed auto

lemma merge_all_done:
  "j + 1 < length (merge_all merges symbols) \<Longrightarrow>
     merges (merge_all merges symbols ! j @ [32] @ merge_all merges symbols ! (j + 1)) = None"
proof (induction merges symbols rule: merge_all.induct)
  case (1 merges symbols)
  show ?case
  proof (cases "best_pair merges 0 symbols None")
    case None
    then show ?thesis using "1.prems" best_pair_None [OF None] by (simp add: merge_all.simps [of merges symbols])
  next
    case (Some x)
    then show ?thesis using 1 by (cases x) (simp add: merge_all.simps [of merges symbols])
  qed
qed

section \<open>Byte-pair encoding as a relation\<close>

text \<open>
  One step of byte-pair encoding, apart from how the code searches for it: the leftmost of the adjacent
  pairs of lowest rank becomes one symbol.
\<close>

definition pair_rank :: "(str \<rightharpoonup> u32) \<Rightarrow> str list \<Rightarrow> nat \<Rightarrow> u32 option" where
  "pair_rank merges symbols k =
     (if k + 1 < length symbols then merges (symbols ! k @ [32] @ symbols ! (k + 1)) else None)"

definition best_at :: "(str \<rightharpoonup> u32) \<Rightarrow> str list \<Rightarrow> nat \<Rightarrow> bool" where
  "best_at merges symbols i \<longleftrightarrow> (\<exists>r. pair_rank merges symbols i = Some r
     \<and> (\<forall>k r'. pair_rank merges symbols k = Some r' \<longrightarrow> r \<le> r' \<and> (k < i \<longrightarrow> r < r')))"

inductive bpe_step :: "(str \<rightharpoonup> u32) \<Rightarrow> str list \<Rightarrow> str list \<Rightarrow> bool" for merges where
  "best_at merges (xs @ a # b # ys) (length xs) \<Longrightarrow> bpe_step merges (xs @ a # b # ys) (xs @ (a @ b) # ys)"

inductive_cases bpe_stepE: "bpe_step merges symbols out"

lemma best_at_unique: "best_at merges symbols i \<Longrightarrow> best_at merges symbols j \<Longrightarrow> i = j"
  unfolding best_at_def by (metis linorder_neqE_nat order.asym order.strict_trans2 order_less_irrefl)

lemma best_pair_least:
  assumes "best_pair merges i symbols best = Some (r, j)" and "\<And>br j0. best = Some (br, j0) \<Longrightarrow> j0 < i"
  shows "(\<forall>br j0. best = Some (br, j0) \<longrightarrow> (r = br \<and> j = j0) \<or> r < br)
    \<and> (\<forall>k r'. pair_rank merges symbols k = Some r' \<longrightarrow> r \<le> r' \<and> (i + k < j \<longrightarrow> r < r'))"
  using assms
proof (induction merges i symbols best rule: best_pair.induct)
  case (1 merges i a b rest best)
  define next_best where "next_best = (case merges (a @ [32] @ b) of None \<Rightarrow> best
      | Some rank \<Rightarrow> (case best of None \<Rightarrow> Some (rank, i) | Some (br, _) \<Rightarrow> if rank < br then Some (rank, i) else best))"
  have run: "best_pair merges (i + 1) (b # rest) next_best = Some (r, j)"
    using "1.prems"(1) by (simp add: next_best_def)
  have early: "j0 < i + 1" if "next_best = Some (br, j0)" for br j0
    using that "1.prems"(2) by (auto simp: next_best_def less_Suc_eq split: option.splits if_splits)
  have both: "(\<forall>br j0. next_best = Some (br, j0) \<longrightarrow> (r = br \<and> j = j0) \<or> r < br)
    \<and> (\<forall>k r'. pair_rank merges (b # rest) k = Some r' \<longrightarrow> r \<le> r' \<and> (i + 1 + k < j \<longrightarrow> r < r'))"
    by (rule "1.IH" [folded next_best_def, OF run]) (rule early)
  note ih = both [THEN conjunct1] both [THEN conjunct2]
  have old: "(r = br \<and> j = j0) \<or> r < br" if "best = Some (br, j0)" for br j0
    using ih(1) that by (auto simp: next_best_def split: option.splits if_splits)
  have head: "r \<le> r' \<and> (i < j \<longrightarrow> r < r')" if "merges (a @ [32] @ b) = Some r'" for r'
  proof (cases best)
    case None
    then show ?thesis using ih(1) that by (auto simp: next_best_def)
  next
    case (Some x)
    obtain br j0 where x: "x = (br, j0)" by (cases x)
    have "j0 < i" using "1.prems"(2) Some x by blast
    then show ?thesis using ih(1) that Some x by (auto simp: next_best_def split: if_splits)
  qed
  have "r \<le> r' \<and> (i + k < j \<longrightarrow> r < r')" if h: "pair_rank merges (a # b # rest) k = Some r'" for k r'
  proof (cases k)
    case 0
    then show ?thesis using h head by (simp add: pair_rank_def)
  next
    case (Suc l)
    then have "pair_rank merges (b # rest) l = Some r'" using h by (simp add: pair_rank_def split: if_splits)
    then show ?thesis using ih(2) Suc by auto
  qed
  then show ?case using old by blast
qed (auto simp: pair_rank_def)

lemma best_pair_best_at:
  assumes "best_pair merges 0 symbols None = Some (r, i)"
  shows "best_at merges symbols i"
proof -
  have "pair_rank merges symbols i = Some r"
    using best_pair_in [OF assms] best_pair_bound [OF assms] by (simp add: pair_rank_def)
  then show ?thesis using best_pair_least [OF assms] by (auto simp: best_at_def)
qed

lemma no_best_at: "best_pair merges 0 symbols None = None \<Longrightarrow> \<not> best_at merges symbols i"
  using best_pair_None [of merges 0 symbols i] by (auto simp: best_at_def pair_rank_def)

lemma split_at_pair:
  "i + 1 < length symbols \<Longrightarrow> symbols = take i symbols @ symbols ! i # symbols ! (i + 1) # drop (i + 2) symbols"
  by (simp add: id_take_nth_drop Cons_nth_drop_Suc)

lemma bpe_step_iff:
  "bpe_step merges symbols out \<longleftrightarrow> (\<exists>r i. best_pair merges 0 symbols None = Some (r, i) \<and> out = merge_at i symbols)"
proof
  assume "bpe_step merges symbols out"
  then obtain xs a b ys where e: "symbols = xs @ a # b # ys" "out = xs @ (a @ b) # ys" "best_at merges symbols (length xs)"
    by (auto elim: bpe_stepE)
  obtain r i where p: "best_pair merges 0 symbols None = Some (r, i)"
    using no_best_at e(3) by (cases "best_pair merges 0 symbols None") auto
  have "i = length xs" using best_at_unique [OF best_pair_best_at [OF p] e(3)] .
  then show "\<exists>r i. best_pair merges 0 symbols None = Some (r, i) \<and> out = merge_at i symbols"
    using p e(1,2) by (auto simp: merge_at_def nth_append)
next
  assume "\<exists>r i. best_pair merges 0 symbols None = Some (r, i) \<and> out = merge_at i symbols"
  then obtain r i where p: "best_pair merges 0 symbols None = Some (r, i)" and o: "out = merge_at i symbols" by blast
  have i: "i + 1 < length symbols" using best_pair_bound [OF p] .
  have "bpe_step merges (take i symbols @ symbols ! i # symbols ! (i + 1) # drop (i + 2) symbols)
      (take i symbols @ (symbols ! i @ symbols ! (i + 1)) # drop (i + 2) symbols)"
    using best_pair_best_at [OF p] split_at_pair [OF i] i by (intro bpe_step.intros) simp
  then show "bpe_step merges symbols out" using split_at_pair [OF i] o by (simp add: merge_at_def)
qed

lemma merge_all_refines:
  "(bpe_step merges)\<^sup>*\<^sup>* symbols out \<and> (\<forall>out'. \<not> bpe_step merges out out') \<longleftrightarrow> out = merge_all merges symbols"
proof (induction merges symbols rule: merge_all.induct)
  case (1 merges symbols)
  show ?case
  proof (cases "best_pair merges 0 symbols None")
    case None
    then have "\<not> bpe_step merges symbols t" for t by (simp add: bpe_step_iff)
    then have "(bpe_step merges)\<^sup>*\<^sup>* symbols out \<and> (\<forall>out'. \<not> bpe_step merges out out') \<longleftrightarrow> out = symbols"
      by (metis converse_rtranclpE rtranclp.rtrancl_refl)
    then show ?thesis using None by (simp add: merge_all.simps [of merges symbols])
  next
    case (Some x)
    obtain r i where x: "x = (r, i)" by (cases x)
    have only: "bpe_step merges symbols t \<longleftrightarrow> t = merge_at i symbols" for t using Some x by (simp add: bpe_step_iff)
    then have "(bpe_step merges)\<^sup>*\<^sup>* symbols out \<and> (\<forall>out'. \<not> bpe_step merges out out')
        \<longleftrightarrow> (bpe_step merges)\<^sup>*\<^sup>* (merge_at i symbols) out \<and> (\<forall>out'. \<not> bpe_step merges out out')"
      by (metis converse_rtranclp_into_rtranclp converse_rtranclpE)
    then show ?thesis using 1 Some x by (simp add: merge_all.simps [of merges symbols])
  qed
qed

section \<open>Characters of bytes\<close>

lemma byte_codes_length [simp]: "length (byte_codes bs c) = length bs"
  by (induction bs c rule: byte_codes.induct) auto

lemma byte_codes_spread:
  "distinct bs \<Longrightarrow> (\<forall>b \<in> set bs. b < 256) \<Longrightarrow>
     distinct (byte_codes bs c) \<and> set (byte_codes bs c) \<subseteq> set bs \<union> {256 + c ..< 256 + c + length bs}"
proof (induction bs c rule: byte_codes.induct)
  case (2 b bs c)
  have d: "distinct bs" "\<forall>x \<in> set bs. x < 256" "b \<notin> set bs" "b < 256" using "2.prems" by auto
  show ?case
  proof (cases "byte_printable b")
    case True
    then show ?thesis using "2.IH"(1) [OF True d(1,2)] d by auto
  next
    case False
    then show ?thesis using "2.IH"(2) [OF False d(1,2)] d by auto
  qed
qed auto

lemma byte_codes_inj:
  "inj_on (\<lambda>b. byte_codes [0..<256] 0 ! unat (b :: u8)) UNIV" "byte_codes [0..<256] 0 ! unat (b :: u8) < 2048"
proof -
  have d: "distinct (byte_codes [0..<256] 0)"
    "set (byte_codes [0..<256] 0) \<subseteq> set [0..<256] \<union> {256 + 0 ..< 256 + 0 + length [0..<256]}"
    using byte_codes_spread [of "[0..<256]" 0] by auto
  have n: "unat (b :: u8) < length (byte_codes [0..<256] 0)" for b using unat_bounds(1) [of b] by simp
  show "inj_on (\<lambda>b. byte_codes [0..<256] 0 ! unat (b :: u8)) UNIV"
    using d(1) n by (intro inj_onI) (simp add: nth_eq_iff_index_eq word_unat_eq_iff)
  have "byte_codes [0..<256] 0 ! unat b \<in> set (byte_codes [0..<256] 0)" using n by (rule nth_mem)
  then show "byte_codes [0..<256] 0 ! unat b < 2048" using d(2) by auto
qed

lemma of_nat_u8_inj: "m < 256 \<Longrightarrow> n < 256 \<Longrightarrow> (of_nat m :: u8) = of_nat n \<longleftrightarrow> m = n"
  by (simp add: word_unat_eq_iff unat_of_nat)

lemma utf8_of_code_char:
  assumes "n < 2048"
  shows "is_char (utf8_of_code n)"
proof (cases "n < 128")
  case True
  then show ?thesis by (simp add: utf8_of_code_def ascii_char word_less_nat_alt unat_of_nat)
next
  case False
  define q r where "q = n div 64" and "r = n mod 64"
  have q: "2 \<le> q" "q < 32" "r < 64" using False assms by (auto simp: q_def r_def)
  have u: "unat (of_nat (192 + q) :: u8) = 192 + q" "unat (of_nat (128 + r) :: u8) = 128 + r"
    using q by (simp_all add: unat_of_nat del: of_nat_add)
  have "\<not> (of_nat (192 + q) :: u8) < 128" "0xC2 \<le> (of_nat (192 + q) :: u8)" "(of_nat (192 + q) :: u8) \<le> 0xDF"
    "cont_byte (of_nat (128 + r))"
    using q u by (simp_all add: word_less_nat_alt word_le_nat_alt cont_byte_def del: of_nat_add)
  then show ?thesis using False assms
    by (simp add: utf8_of_code_def q_def [symmetric] r_def [symmetric] is_char_def utf8_chunk_def is_cont_iff Let_def
        del: of_nat_add)
qed

lemma utf8_of_code_inj:
  assumes "m < 2048" "n < 2048" and "utf8_of_code m = utf8_of_code n"
  shows "m = n"
proof -
  have l: "m < 128 \<longleftrightarrow> n < 128" using assms by (auto simp: utf8_of_code_def split: if_splits)
  show ?thesis
  proof (cases "m < 128")
    case True
    then show ?thesis using l assms(3) by (simp add: utf8_of_code_def of_nat_u8_inj)
  next
    case False
    have "192 + m div 64 < 256" "192 + n div 64 < 256" "128 + m mod 64 < 256" "128 + n mod 64 < 256"
      using assms(1,2) by (auto intro: less_trans [of _ "128 + 64"])
    moreover have "(of_nat (192 + m div 64) :: u8) = of_nat (192 + n div 64)" "(of_nat (128 + m mod 64) :: u8) = of_nat (128 + n mod 64)"
      using False l assms by (simp_all add: utf8_of_code_def del: of_nat_add)
    ultimately have "m div 64 = n div 64" "m mod 64 = n mod 64" using of_nat_u8_inj by auto
    then show ?thesis by (metis div_mult_mod_eq)
  qed
qed

lemma byte_char_char: "is_char (byte_char b)"
  unfolding byte_char_def using byte_codes_inj(2) by (rule utf8_of_code_char)

lemma byte_char_inj: "byte_char a = byte_char b \<Longrightarrow> a = b"
  unfolding byte_char_def
  using utf8_of_code_inj [OF byte_codes_inj(2) byte_codes_inj(2)] byte_codes_inj(1) by (metis UNIV_I inj_onD)

lemma decode_byte_char: "gpt2_byte_decoder (byte_char b) = Some b"
proof -
  let ?f = "\<lambda>n. (byte_char (of_nat n), of_nat n :: u8)"
  have "(byte_char b, b) \<in> set (map ?f [0..<256])"
    using unat_bounds(1) [of b] by (auto simp: image_iff intro!: bexI [of _ "unat b"])
  moreover have "distinct (map fst (map ?f [0..<256]))"
    by (auto simp: distinct_map inj_on_def comp_def dest!: byte_char_inj simp: of_nat_u8_inj)
  ultimately show ?thesis unfolding gpt2_byte_decoder_def by (intro map_of_is_SomeI)
qed

lemma decode_byte_chars:
  "concat (map (decode_char gpt2_byte_decoder) (chars (concat (map byte_char bs)))) = bs"
proof -
  have "chars (concat (map byte_char bs)) = map byte_char bs"
    by (rule chars_concat) (simp add: byte_char_char)
  then show ?thesis by (simp add: decode_char_def decode_byte_char comp_def)
qed

section \<open>Words and slices cover the text\<close>

lemma split_words_concat: "concat (split_words cc cs) = concat cs"
proof (induction cc cs rule: split_words.induct)
  case (2 cc c rest)
  let ?n = "next_word cc c rest"
  have "concat (split_words cc (c # rest)) = concat (take ?n (c # rest)) @ concat (drop ?n (c # rest))"
    using 2 by (simp add: Let_def del: take_Cons' drop_Cons')
  also have "\<dots> = concat (c # rest)" by (metis append_take_drop_id concat_append)
  finally show ?case .
qed simp

lemma pretokenize_concat: "valid_utf8 s \<Longrightarrow> concat (split_on_gpt2_pretokenize cc s) = s"
  by (simp add: split_on_gpt2_pretokenize_def split_words_concat)

lemma newline_runs_concat: "concat (split_newline_runs s) = s"
proof (induction s rule: split_newline_runs.induct)
  case (2 b s)
  let ?same = "takeWhile (\<lambda>x. (x = 10) = (b = 10)) s"
  have "?same @ drop (length ?same) s = s" by (metis append_take_drop_id takeWhile_eq_take)
  then show ?case using 2 by (simp add: Let_def)
qed simp

text \<open>A newline is a character, so the runs are strings.\<close>

lemma newline_runs_valid: "valid_utf8 s \<Longrightarrow> \<forall>p \<in> set (split_newline_runs s). valid_utf8 p"
proof (induction s rule: split_newline_runs.induct)
  case (2 b s)
  define same where "same = takeWhile (\<lambda>x. (x = 10) = (b = 10)) s"
  have cut: "(b # same) @ drop (length same) s = b # s"
    by (simp add: same_def dropWhile_eq_drop [symmetric])
  have v: "valid_utf8 ((b # same) @ drop (length same) s)" using "2.prems" by (simp only: cut)
  have "valid_utf8 (b # same) \<and> valid_utf8 (drop (length same) s)"
  proof (cases "b = 10")
    case True
    have "\<forall>x \<in> set (b # same). x < 128"
      using True by (auto simp: same_def dest: set_takeWhileD)
    then have "valid_utf8 (b # same)" by (rule valid_utf8_ascii)
    then show ?thesis using v valid_append by blast
  next
    case False
    have "hd (drop (length same) s) = 10" if "drop (length same) s \<noteq> []"
    proof -
      have "dropWhile (\<lambda>x. (x = 10) = (b = 10)) s \<noteq> []"
        using that by (simp add: same_def dropWhile_eq_drop)
      from hd_dropWhile [OF this] show ?thesis using False by (simp add: same_def dropWhile_eq_drop)
    qed
    then have "drop (length same) s = [] \<or> \<not> cont_byte (hd (drop (length same) s))"
      by (auto simp: cont_byte_def)
    then show ?thesis by (rule valid_cut [OF v])
  qed
  then show ?case using "2.IH" [OF same_def] by (simp add: Let_def same_def [symmetric])
qed simp

section \<open>Vocabularies\<close>

definition vocab_ok :: "tokenizer \<Rightarrow> bool" where
  "vocab_ok tk \<longleftrightarrow> length (tk_tokens tk) < 2 ^ 32
     \<and> (\<forall>t i. id_of tk t = Some i \<longrightarrow> unat i < length (tk_tokens tk) \<and> tk_tokens tk ! unat i = t)"

lemma token_at_id:
  assumes "vocab_ok tk" and "id_of tk t = Some i"
  shows "token_at tk i = t"
proof -
  have "unat (of_nat (length (tk_tokens tk)) :: u32) = length (tk_tokens tk)"
    using assms(1) by (simp add: vocab_ok_def unat_of_nat)
  then show ?thesis using assms by (simp add: vocab_ok_def token_at_def word_less_nat_alt)
qed

lemma read_tokens_ok:
  "read_tokens vs (length tokens) tokens ids = Ok (tokens', ids') \<Longrightarrow> length tokens + length vs < 2 ^ 32 \<Longrightarrow>
     (\<forall>t i. map_of ids t = Some i \<longrightarrow> unat i < length tokens \<and> tokens ! unat i = t) \<Longrightarrow>
     length tokens' = length tokens + length vs
     \<and> (\<forall>t i. map_of ids' t = Some i \<longrightarrow> unat i < length tokens' \<and> tokens' ! unat i = t)"
proof (induction vs "length tokens" tokens ids rule: read_tokens.induct)
  case (2 v vs tokens ids)
  obtain t where t: "as_str v = Some t" using "2.prems"(1) by (cases "as_str v") auto
  have n: "unat (of_nat (length tokens) :: u32) = length tokens" using "2.prems"(2) by (simp add: unat_of_nat)
  have "\<forall>s i. map_of ((t, of_nat (length tokens)) # ids) s = Some i \<longrightarrow>
      unat i < length (tokens @ [t]) \<and> (tokens @ [t]) ! unat i = s"
    using "2.prems"(3) n by (auto simp: nth_append less_Suc_eq)
  then show ?case using "2.hyps" [OF t] "2.prems"(1,2) t by auto
qed auto

lemma metadata_vocab_ok:
  assumes "from_metadata so m = Ok tk" and "length (tk_tokens tk) < 2 ^ 32"
  shows "vocab_ok tk"
proof -
  obtain vs tokens ids where r: "read_tokens vs 0 [] [] = Ok (tokens, ids)"
    and tk: "tk_tokens tk = tokens" "tk_token_to_id tk = ids"
    using assms(1) by (auto simp: from_metadata_def Let_def split: option.splits outcome.splits)
  have "length tokens = length vs"
  proof -
    have "read_tokens vs i a b = Ok (c, d) \<Longrightarrow> length c = length a + length vs" for i a b c d
      by (induction vs i a b rule: read_tokens.induct) (auto split: option.splits)
    then show ?thesis using r by simp
  qed
  then show ?thesis using read_tokens_ok [of vs "[]" "[]" tokens ids] r assms(2) tk
    by (simp add: vocab_ok_def id_of_def)
qed

section \<open>From pieces to texts\<close>

text \<open>
  A decoder is compositional when the ids of two strings, one after the other, spell their
  concatenation. Whole texts then follow from the pieces the encoders cut them into.
\<close>

locale spelling =
  fixes spells :: "u32 list \<Rightarrow> str \<Rightarrow> bool"
  assumes spells_Nil: "spells [] []"
    and spells_append: "valid_utf8 s \<Longrightarrow> valid_utf8 t \<Longrightarrow> spells a s \<Longrightarrow> spells b t \<Longrightarrow> spells (a @ b) (s @ t)"
begin

lemma spells_concat:
  "(\<forall>s \<in> set ss. valid_utf8 s \<and> spells (f s) s) \<Longrightarrow> spells (concat (map f ss)) (concat ss)"
  by (induction ss) (auto intro!: spells_Nil spells_append valid_concat)

lemma partition_spells:
  assumes "valid_utf8 s"
    and chunk: "\<And>a t b. s = a @ t @ b \<Longrightarrow> valid_utf8 a \<Longrightarrow> valid_utf8 t \<Longrightarrow> spells (chunk t) t"
    and specials: "\<forall>st \<in> set specials. st \<noteq> [] \<and> valid_utf8 st"
    and emit: "\<And>st p. st \<in> set specials \<Longrightarrow> find_str st s = Some p \<Longrightarrow> \<exists>ids. emit st = Ok ids \<and> spells ids st"
  shows "\<exists>ids. partition_loop chunk emit specials s = Ok ids \<and> spells ids s"
  using assms(1) chunk emit
proof (induction "length s" arbitrary: s rule: less_induct)
  case less
  show ?case
  proof (cases "find_special specials s None")
    case None
    then show ?thesis using less.prems(2) [of "[]" s "[]"] less.prems(1) spells_Nil
      by (simp add: partition_loop.simps [of chunk emit specials s])
  next
    case (Some x)
    obtain st pos where x: "x = (st, pos)" by (cases x)
    have st: "st \<in> set specials" "find_str st s = Some pos"
      using find_special_in [of specials s None st pos] Some x by auto
    then have ok: "st \<noteq> []" "valid_utf8 st" using specials by auto
    let ?a = "take pos s" and ?b = "drop (pos + length st) s"
    have v: "valid_utf8 ?a \<and> valid_utf8 ?b" using find_str_valid [OF st(2) less.prems(1) ok(2,1)] .
    obtain after where s: "s = ?a @ st @ after" and n: "pos + length st \<le> length s"
      using find_str_Some [OF st(2)] by blast
    have after: "after = ?b"
    proof -
      have "length ?a = pos" using n by simp
      then show ?thesis using s by (metis append_assoc append_eq_conv_conj length_append)
    qed
    obtain ids where e: "emit st = Ok ids" "spells ids st" using less.prems(3) [OF st] by blast
    have lt: "length ?b < length s"
    proof -
      have "0 < length st" using ok(1) by simp
      then show ?thesis unfolding length_drop using n by linarith
    qed
    have "\<exists>ids. emit st' = Ok ids \<and> spells ids st'" if here: "st' \<in> set specials" "find_str st' ?b = Some p" for st' p
    proof -
      obtain r where "?b = take p ?b @ st' @ r" using find_str_Some [OF here(2)] by blast
      then have "s = (?a @ st @ take p ?b) @ st' @ r" using s after by simp
      then have "find_str st' s \<noteq> None" using find_str_None by blast
      then obtain q where "find_str st' s = Some q" by blast
      then show ?thesis using less.prems(3) here(1) by blast
    qed
    moreover have "spells (chunk t) t" if h: "?b = a @ t @ b" "valid_utf8 a" "valid_utf8 t" for a t b
    proof (rule less.prems(2) [of "?a @ st @ a" t b])
      have "s = ?a @ st @ (a @ t @ b)" using s h(1) unfolding after by simp
      then show "s = (?a @ st @ a) @ t @ b" by simp
      show "valid_utf8 (?a @ st @ a)" using v ok h(2) by (simp add: valid_append)
    qed (rule h(3))
    ultimately obtain more_ids where m: "partition_loop chunk emit specials ?b = Ok more_ids" "spells more_ids ?b"
      using less.hyps [OF lt] v by blast
    define front where "front = (if ?a = [] then [] else chunk ?a)"
    have "spells front ?a" using less.prems(2) [of "[]" ?a "st @ ?b"] v spells_Nil s after by (simp add: front_def)
    then have "spells (front @ ids @ more_ids) (?a @ st @ ?b)"
      using v ok e m by (intro spells_append) (simp_all add: valid_append)
    moreover have "partition_loop chunk emit specials s = Ok (front @ ids @ more_ids)"
      using Some x e m ok by (simp add: partition_loop.simps [of chunk emit specials s] front_def Let_def)
    ultimately show ?thesis using s after by metis
  qed
qed

end

section \<open>Byte-level spelling\<close>

definition joined :: "tokenizer \<Rightarrow> u32 list \<Rightarrow> str" where
  "joined tk ids = concat (map (token_at tk) ids)"

definition byte_spells :: "tokenizer \<Rightarrow> u32 list \<Rightarrow> str \<Rightarrow> bool" where
  "byte_spells tk ids s \<longleftrightarrow> valid_utf8 (joined tk ids)
     \<and> concat (map (decode_char gpt2_byte_decoder) (chars (joined tk ids))) = s"

interpretation byte_level: spelling "byte_spells tk"
  by unfold_locales (auto simp: byte_spells_def joined_def valid_append chars_append)

lemma byte_chars_spell: "joined tk ids = concat (map byte_char s) \<Longrightarrow> byte_spells tk ids s"
  by (simp add: byte_spells_def decode_byte_chars valid_concat_chars byte_char_char)

text \<open>A vocabulary with a token for every byte.\<close>

definition has_bytes :: "tokenizer \<Rightarrow> bool" where
  "has_bytes tk \<longleftrightarrow> (\<forall>b. id_of tk (byte_char b) \<noteq> None)"

lemma joined_Nil [simp]: "joined tk [] = []"
  by (simp add: joined_def)

lemma joined_append [simp]: "joined tk (a @ b) = joined tk a @ joined tk b"
  by (simp add: joined_def)

lemma joined_concat: "joined tk (concat (map f xs)) = concat (map (\<lambda>x. joined tk (f x)) xs)"
  by (induction xs) simp_all

lemma joined_chars:
  assumes "vocab_ok tk" and "\<forall>c \<in> set cs. id_of tk c \<noteq> None"
  shows "joined tk (map (lookup_char tk) cs) = concat cs"
  using assms(2)
proof (induction cs)
  case (Cons c cs)
  then obtain i where "id_of tk c = Some i" by auto
  then show ?case using Cons token_at_id [OF assms(1)] by (simp add: joined_def lookup_char_def)
qed simp

lemma joined_symbol:
  assumes "vocab_ok tk" and "valid_utf8 s" and "\<forall>c \<in> set (chars s). id_of tk c \<noteq> None"
  shows "joined tk (lookup_symbol tk s) = s"
proof (cases "id_of tk s")
  case None
  then show ?thesis using joined_chars [OF assms(1,3)] assms(2) by (simp add: lookup_symbol_def)
next
  case (Some i)
  then show ?thesis using token_at_id [OF assms(1)] by (simp add: lookup_symbol_def joined_def)
qed

text \<open>The symbols of a merged word are strings over its characters.\<close>

lemma merged_symbols:
  assumes "\<forall>c \<in> set cs. is_char c" and "s \<in> set (merge_all merges cs)"
  shows "valid_utf8 s \<and> set (chars s) \<subseteq> set cs"
proof -
  have "\<forall>s \<in> set (merge_all merges cs). valid_utf8 s \<and> set (chars s) \<subseteq> set cs"
    by (rule merge_all_set) (use assms(1) is_char_valid in \<open>auto simp: valid_append chars_append\<close>)
  then show ?thesis using assms(2) by blast
qed

lemma encode_word_spells:
  assumes "vocab_ok tk" and "has_bytes tk"
  shows "joined tk (encode_word tk merges piece) = concat (map byte_char piece)"
proof -
  let ?w = "concat (map byte_char piece)" and ?cs = "map byte_char piece"
  have cs: "\<forall>c \<in> set ?cs. is_char c" by (simp add: byte_char_char)
  have chars: "chars ?w = ?cs" using cs by (rule chars_concat)
  have "joined tk (lookup_symbol tk s) = s" if "s \<in> set (merge_all merges ?cs)" for s
    using merged_symbols [OF cs that] assms by (intro joined_symbol) (auto simp: has_bytes_def)
  then have "joined tk (concat (map (lookup_symbol tk) (merge_all merges ?cs))) = concat (merge_all merges ?cs)"
    unfolding joined_concat by (metis (no_types, lifting) map_idI)
  also have "\<dots> = ?w" by (rule merge_all_concat)
  finally have m: "joined tk (concat (map (lookup_symbol tk) (merge_all merges ?cs))) = ?w" .
  show ?thesis
  proof (cases "piece = []")
    case True
    then show ?thesis by (simp add: encode_word_def)
  next
    case False
    then show ?thesis using m chars token_at_id [OF assms(1)]
      by (auto simp: encode_word_def Let_def joined_def split: option.split)
  qed
qed

lemma concat_nested: "concat (map (\<lambda>p. concat (map f p)) ps) = concat (map f (concat ps))"
  by (induction ps) simp_all

lemma bpe_chunk_spells:
  assumes "vocab_ok tk" and "has_bytes tk" and "tk_bpe_merges tk = Some merges" and "valid_utf8 s"
  shows "byte_spells tk (bpe_encode_chunk cc tk s) s"
proof (rule byte_chars_spell)
  have "joined tk (bpe_encode_chunk cc tk s) = concat (map (\<lambda>p. concat (map byte_char p)) (split_on_gpt2_pretokenize cc s))"
    using encode_word_spells [OF assms(1,2)] by (simp add: bpe_encode_chunk_def assms(3) joined_concat)
  also have "\<dots> = concat (map byte_char (concat (split_on_gpt2_pretokenize cc s)))"
    by (rule concat_nested)
  finally show "joined tk (bpe_encode_chunk cc tk s) = concat (map byte_char s)"
    using pretokenize_concat [OF assms(4)] by simp
qed

section \<open>Slices of a long text\<close>

lemma is_char_length: "is_char c \<Longrightarrow> length c \<le> 4"
  by (auto simp: is_char_def utf8_chunk_def Let_def split: if_splits)

text \<open>No four continuation bytes in a row, so a boundary is at most three bytes away.\<close>

lemma no_four_cont:
  assumes "valid_utf8 s" and "i + 3 < length s"
  shows "\<not> (cont_byte (s ! i) \<and> cont_byte (s ! (i + 1)) \<and> cont_byte (s ! (i + 2)) \<and> cont_byte (s ! (i + 3)))"
  using assms
proof (induction "chars s" arbitrary: s i)
  case Nil
  then have "s = []" by (metis concat.simps(1) concat_chars)
  then show ?case using Nil.prems by simp
next
  case (Cons c cs)
  have c: "is_char c" using chars_are_chars [OF Cons.prems(1)] Cons.hyps(2) by (metis list.set_intros(1))
  define r where "r = concat cs"
  have s: "s = c @ r" using concat_chars [OF Cons.prems(1)] Cons.hyps(2) [symmetric] by (simp add: r_def)
  have v: "valid_utf8 r" using Cons.prems(1) valid_Cons [OF c] by (simp add: s)
  have cs: "cs = chars r" using Cons.hyps(2) chars_Cons [OF c, of r] by (simp add: s)
  have c0: "\<not> cont_byte (s ! 0)" "0 < length c" "length c \<le> 4"
    using char_bytes(1) [OF c] c is_char_length [OF c] by (auto simp: s is_char_def hd_conv_nth nth_append)
  show ?case
  proof (cases "i < length c")
    case True
    show ?thesis
    proof (cases "length c \<le> i + 3")
      case h: True
      then have "r \<noteq> []" using Cons.prems(2) s by auto
      then have "\<not> cont_byte (hd r)"
        using v chars_valid [OF v] char_bytes(1) by (cases "chars r") (auto simp: hd_append is_char_def dest!: arg_cong [of _ _ hd])
      then have "\<not> cont_byte (s ! length c)" using \<open>r \<noteq> []\<close> by (simp add: s nth_append hd_conv_nth)
      moreover have "length c = i + 1 \<or> length c = i + 2 \<or> length c = i + 3" using True h by linarith
      ultimately show ?thesis by auto
    next
      case False
      then have "i = 0" using c0(3) by linarith
      then show ?thesis using c0(1) by simp
    qed
  next
    case False
    obtain k where k: "i = length c + k" using False le_Suc_ex not_less by blast
    then have "k + 3 < length r" using Cons.prems(2) s by simp
    from Cons.hyps(1) [OF cs v this] k show ?thesis by (simp add: s nth_append)
  qed
qed

lemma next_boundary_spec:
  "e \<le> length s \<Longrightarrow> e \<le> next_boundary s e \<and> next_boundary s e \<le> length s \<and> is_boundary s (next_boundary s e)
     \<and> (\<forall>i. e \<le> i \<and> i < next_boundary s e \<longrightarrow> cont_byte (s ! i))"
proof (induction s e rule: next_boundary.induct)
  case (1 s e)
  show ?case
  proof (cases "e < length s \<and> \<not> is_boundary s e")
    case True
    then have "cont_byte (s ! e)" by (auto simp: is_boundary_def)
    moreover have "e + 1 \<le> length s" using True by simp
    ultimately show ?thesis using "1.IH" [OF True] True
      by (simp add: next_boundary.simps [of s e]) (metis Suc_leI le_neq_implies_less Suc_leD)
  next
    case False
    then show ?thesis using "1.prems" by (auto simp: next_boundary.simps [of s e] is_boundary_def)
  qed
qed

lemma next_boundary_near:
  assumes "valid_utf8 s" and "e \<le> length s"
  shows "next_boundary s e \<le> e + 3"
proof (rule ccontr)
  assume "\<not> next_boundary s e \<le> e + 3"
  then have "e + 3 < next_boundary s e" by simp
  then show False
    using next_boundary_spec [OF assms(2)] no_four_cont [OF assms(1), of e] by auto
qed

lemma back_up_bounds: "start \<le> e \<Longrightarrow> start \<le> back_up s lower start e \<and> back_up s lower start e \<le> e"
  by (induction e) auto

lemma chunk_end_spec:
  assumes "valid_utf8 s" and "start < length s" and "0 < target"
  shows "start < chunk_end s target start \<and> chunk_end s target start \<le> length s
    \<and> is_boundary s (chunk_end s target start) \<and> chunk_end s target start \<le> start + target + 6"
proof -
  define whole where "whole = min (start + target) (length s)"
  define e1 where "e1 = (if whole < length s then next_boundary s (back_up s (start + target div 2) start whole) else whole)"
  have w: "start < whole" "whole \<le> length s" "whole \<le> start + target" using assms(2,3) by (auto simp: whole_def)
  have nb: "b \<le> next_boundary s b \<and> next_boundary s b \<le> length s \<and> is_boundary s (next_boundary s b)
      \<and> next_boundary s b \<le> b + 3" if "b \<le> length s" for b
    using next_boundary_spec [OF that] next_boundary_near [OF assms(1) that] by blast
  have e1: "e1 \<le> length s" "e1 \<le> whole + 3"
  proof -
    have "back_up s (start + target div 2) start whole \<le> whole" using back_up_bounds [of start whole s "start + target div 2"] w(1) by simp
    then show "e1 \<le> length s" "e1 \<le> whole + 3"
      using nb [of "back_up s (start + target div 2) start whole"] w(2) by (auto simp: e1_def)
  qed
  have "chunk_end s target start = (if next_boundary s e1 \<le> start then next_boundary s whole else next_boundary s e1)"
    by (simp add: chunk_end_def whole_def e1_def Let_def)
  then show ?thesis using nb [OF e1(1)] nb [OF w(2)] e1 w by auto
qed

lemma chunk_bounds_cover:
  assumes "valid_utf8 s" and "0 < target"
  shows "start \<le> length s \<Longrightarrow> is_boundary s start \<Longrightarrow> \<exists>bs. chunk_bounds_from s target start = Ok bs
    \<and> concat (map (\<lambda>(a, b). drop a (take b s)) bs) = drop start s
    \<and> (\<forall>(a, b) \<in> set bs. a < b \<and> b \<le> length s \<and> b \<le> a + target + 6 \<and> is_boundary s a \<and> is_boundary s b)"
proof (induction "length s - start" arbitrary: start rule: less_induct)
  case less
  show ?case
  proof (cases "start < length s")
    case True
    let ?e = "chunk_end s target start"
    have e: "start < ?e" "?e \<le> length s" "is_boundary s ?e" "?e \<le> start + target + 6"
      using chunk_end_spec [OF assms(1) True assms(2)] by auto
    then obtain bs where bs: "chunk_bounds_from s target ?e = Ok bs"
      "concat (map (\<lambda>(a, b). drop a (take b s)) bs) = drop ?e s"
      "\<forall>(a, b) \<in> set bs. a < b \<and> b \<le> length s \<and> b \<le> a + target + 6 \<and> is_boundary s a \<and> is_boundary s b"
      using less.hyps [of ?e] True by fastforce
    have "drop start (take ?e s) @ drop ?e s = drop start s"
      using e(1,2) by (metis append_take_drop_id drop_append less_imp_le_nat length_take min.absorb2 diff_is_0_eq drop0)
    then show ?thesis using bs e less.prems True
      by (simp add: chunk_bounds_from.simps [of s target start] Let_def)
  next
    case False
    then show ?thesis by (simp add: chunk_bounds_from.simps [of s target start])
  qed
qed

lemma slice_valid:
  assumes "valid_utf8 s" and "is_boundary s a" and "is_boundary s b" and "a < b"
  shows "valid_utf8 (drop a (take b s))"
proof -
  have b: "b \<le> length s" using assms(3) by (auto simp: is_boundary_def)
  have "valid_utf8 (take b s)" using valid_take_drop [OF assms(1,3)] by blast
  moreover have "is_boundary (take b s) a" using assms(2,4) b by (auto simp: is_boundary_def)
  ultimately show ?thesis using valid_take_drop by blast
qed

end
