(* ===== verification/TokenizerSpec.thy ===== *)
theory TokenizerSpec
  imports TokenizerLaws GgufConvert
begin

text \<open>
  What the tokenizer promises: texts survive encoding and decoding, for byte-level vocabularies and
  for Gemma's; a text of any length is cut into slices that cover it; merging is exhaustive; and where
  the code loses text or stops.
\<close>

section \<open>Long texts\<close>

context spelling begin

lemma append_parts_spell:
  assumes "length ps = length ss" and "\<forall>(p, s) \<in> set (zip ps ss). \<exists>ids. p = Ok ids \<and> spells ids s"
    and "\<forall>s \<in> set ss. valid_utf8 s"
  shows "\<exists>ids. append_parts ps = Ok ids \<and> spells ids (concat ss)"
  using assms
proof (induction ps ss rule: list_induct2)
  case Nil
  then show ?case using spells_Nil by simp
next
  case (Cons p ps s ss)
  obtain a b where "p = Ok a" "spells a s" "append_parts ps = Ok b" "spells b (concat ss)"
    using Cons by auto
  then show ?case using Cons.prems spells_append [of s "concat ss"] valid_concat [of ss] by auto
qed

text \<open>What holds of the slices of a text holds of the text.\<close>

lemma encode_long:
  assumes "valid_utf8 s"
    and short: "\<And>a t b. s = a @ t @ b \<Longrightarrow> valid_utf8 a \<Longrightarrow> valid_utf8 t \<Longrightarrow> length t < 8192 \<Longrightarrow>
      \<exists>ids. encode cc so tk t = Ok ids \<and> spells ids t"
  shows "\<exists>ids. encode cc so tk s = Ok ids \<and> spells ids s"
proof (cases "length s < 8192")
  case True
  then show ?thesis using short [of "[]" s "[]"] assms(1) by simp
next
  case False
  obtain bs where bs: "chunk_bounds s 4096 = Ok bs" "concat (map (\<lambda>(a, b). drop a (take b s)) bs) = s"
    and each: "\<forall>(a, b) \<in> set bs. a < b \<and> b \<le> length s \<and> b \<le> a + 4096 + 6 \<and> is_boundary s a \<and> is_boundary s b"
  proof -
    have "s \<noteq> []" using False by auto
    then have "is_boundary s 0"
      using assms(1) first_char(3) [of s] by (auto simp: is_boundary_def valid_utf8.simps [of s] split: if_splits)
    then show thesis using chunk_bounds_cover [OF assms(1), of 4096 0] that by (auto simp: chunk_bounds_def)
  qed
  let ?part = "\<lambda>(a, b). drop a (take b s)"
  let ?enc = "\<lambda>(a, b). let part = drop a (take b s) in if length part < length s then encode cc so tk part else Hang"
  have part: "valid_utf8 (?part x) \<and> (\<exists>ids. ?enc x = Ok ids \<and> spells ids (?part x))" if "x \<in> set bs" for x
  proof -
    obtain a b where x: "x = (a, b)" by (cases x)
    have ab: "a < b" "b \<le> length s" "b \<le> a + 4096 + 6" "is_boundary s a" "is_boundary s b"
      using each that by (auto simp: x)
    have v: "valid_utf8 (drop a (take b s))" using slice_valid [OF assms(1) ab(4,5,1)] .
    have "valid_utf8 (take a s)" using valid_take_drop [OF assms(1) ab(4)] by blast
    moreover have "s = take a s @ drop a (take b s) @ drop b s"
      using ab(1,2) by (metis append_assoc append_take_drop_id take_add take_drop le_add_diff_inverse less_imp_le_nat drop_take)
    moreover have "length (drop a (take b s)) < 8192" using ab by simp
    ultimately have "\<exists>ids. encode cc so tk (drop a (take b s)) = Ok ids \<and> spells ids (drop a (take b s))"
      using short v by blast
    moreover have "length (drop a (take b s)) < length s" using ab False by simp
    ultimately show ?thesis using v by (simp add: x Let_def)
  qed
  have "\<exists>ids. append_parts (map ?enc bs) = Ok ids \<and> spells ids (concat (map ?part bs))"
    by (rule append_parts_spell) (use part in \<open>auto simp: zip_map_map zip_same\<close>)
  moreover have "encode cc so tk s = append_parts (map ?enc bs)"
    using False bs(1) by (simp add: encode.simps [of cc so tk s]) auto
  ultimately show ?thesis by (simp only: bs(2))
qed

end

section \<open>Special tokens\<close>

text \<open>A special token that decoding leaves alone.\<close>

definition plain_special :: "str \<Rightarrow> bool" where
  "plain_special st \<longleftrightarrow> st \<noteq> [] \<and> valid_utf8 st \<and> concat (map (decode_char gpt2_byte_decoder) (chars st)) = st"

lemma byte_codes_printable:
  "i < length bs \<Longrightarrow> byte_printable (bs ! i) \<Longrightarrow> byte_codes bs c ! i = bs ! i"
proof (induction bs c arbitrary: i rule: byte_codes.induct)
  case (2 b bs c)
  then show ?case by (cases i) auto
qed simp

lemma byte_char_printable:
  assumes "33 \<le> b" and "b \<le> 126"
  shows "byte_char b = [b]"
proof -
  have u: "33 \<le> unat b" "unat b \<le> 126" using assms by (simp_all add: word_le_nat_alt)
  have "byte_codes [0..<256] 0 ! unat b = unat b"
    using byte_codes_printable [of "unat b" "[0..<256]" 0] u by (simp add: byte_printable_def)
  then show ?thesis using u by (simp add: byte_char_def utf8_of_code_def)
qed

lemma ascii_plain:
  assumes "st \<noteq> []" and "\<forall>b \<in> set st. 33 \<le> b \<and> b \<le> 126"
  shows "plain_special st"
proof -
  have "\<forall>b \<in> set st. b < 128" using assms(2) by (auto simp: word_le_nat_alt word_less_nat_alt)
  then have v: "valid_utf8 st" by (rule valid_utf8_ascii)
  have "(\<forall>b \<in> set bs. byte_char b = [b]) \<Longrightarrow> concat (map byte_char bs) = bs" for bs
    by (induction bs) auto
  then have "concat (map byte_char st) = st" using assms(2) byte_char_printable by blast
  then have "concat (map (decode_char gpt2_byte_decoder) (chars st)) = st"
    using decode_byte_chars [of st] by simp
  then show ?thesis using v assms(1) by (simp add: plain_special_def)
qed

lemma generic_plain: "\<forall>st \<in> set GENERIC_SPECIALS. plain_special st"
proof -
  have "list_all (\<lambda>st. st \<noteq> [] \<and> list_all (\<lambda>b. 33 \<le> b \<and> b \<le> 126) st) GENERIC_SPECIALS"
    by code_simp
  then show ?thesis by (auto simp: list_all_iff intro: ascii_plain)
qed

text \<open>Special tokens of the text that the vocabulary does not have would be dropped.\<close>

definition specials_known :: "tokenizer \<Rightarrow> str \<Rightarrow> bool" where
  "specials_known tk s \<longleftrightarrow> (\<forall>st \<in> set GENERIC_SPECIALS. id_of tk st = None \<longrightarrow> find_str st s = None)"

lemma specials_known_part:
  assumes "specials_known tk s" and "s = a @ t @ b"
  shows "specials_known tk t"
proof -
  have "find_str st t = None" if "find_str st s = None" for st
  proof (rule ccontr)
    assume "find_str st t \<noteq> None"
    then obtain p where "find_str st t = Some p" by blast
    then obtain r where "t = take p t @ st @ r" using find_str_Some by blast
    then have "s = (a @ take p t) @ st @ r @ b" using assms(2) by (metis append_assoc)
    then show False using find_str_None [OF that] by blast
  qed
  then show ?thesis using assms(1) by (auto simp: specials_known_def)
qed

lemma known_special:
  assumes "specials_known tk s" and "st \<in> set (special_tokens tk)" and "find_str st s = Some p"
  obtains i where "id_of tk st = Some i"
  using assms by (auto simp: specials_known_def special_tokens_def)

section \<open>Byte-level texts\<close>

definition byte_level_tokenizer :: "tokenizer \<Rightarrow> bool" where
  "byte_level_tokenizer tk \<longleftrightarrow> tk_model_type tk = ascii ''bpe'' \<and> tk_byte_decoder tk = Some gpt2_byte_decoder
     \<and> tk_bpe_merges tk \<noteq> None \<and> vocab_ok tk \<and> has_bytes tk \<and> (\<forall>st \<in> set (tk_added_tokens tk). plain_special st)"

lemma encode_short_spells:
  assumes "byte_level_tokenizer tk" and "valid_utf8 s" and "length s < 8192" and "specials_known tk s"
  shows "\<exists>ids. encode cc so tk s = Ok ids \<and> byte_spells tk ids s"
proof (cases "s = []")
  case True
  then show ?thesis using byte_level.spells_Nil by (simp add: encode.simps [of cc so tk "[]"])
next
  case False
  obtain merges where m: "tk_bpe_merges tk = Some merges" using assms(1) by (auto simp: byte_level_tokenizer_def)
  have v: "vocab_ok tk" "has_bytes tk" using assms(1) by (auto simp: byte_level_tokenizer_def)
  have plain: "\<forall>st \<in> set (special_tokens tk). plain_special st"
    using assms(1) generic_plain by (auto simp: byte_level_tokenizer_def special_tokens_def)
  have emit: "\<exists>ids. emit_known tk st = Ok ids \<and> byte_spells tk ids st"
    if st: "st \<in> set (special_tokens tk)" "find_str st s = Some p" for st p
  proof -
    obtain i where i: "id_of tk st = Some i" using known_special [OF assms(4) st] .
    have "joined tk [i] = st" using token_at_id [OF v(1) i] by (simp add: joined_def)
    then have "byte_spells tk [i] st" using plain st(1) by (simp add: byte_spells_def plain_special_def)
    then show ?thesis using i by (simp add: emit_known_def)
  qed
  have "\<exists>ids. partition_loop (bpe_encode_chunk cc tk) (emit_known tk) (special_tokens tk) s = Ok ids \<and> byte_spells tk ids s"
    using assms(2) bpe_chunk_spells [OF v m] plain emit
    by (intro byte_level.partition_spells) (auto simp: plain_special_def)
  then show ?thesis using assms(1,3) False
    by (simp add: encode.simps [of cc so tk s] encode_bpe_def byte_level_tokenizer_def)
qed

text \<open>
  C27. Encoding with a byte-level BPE vocabulary loses nothing: every text, of any length, with or
  without special tokens, is decoded to itself -- provided the vocabulary has a token for every byte,
  names its own tokens, and knows the special tokens that occur in the text.
\<close>

theorem byte_level_text_survives:
  assumes "byte_level_tokenizer tk" and "valid_utf8 s" and "specials_known tk s"
  shows "\<exists>ids. encode cc so tk s = Ok ids \<and> decode tk ids = s"
proof -
  have "\<exists>ids. encode cc so tk s = Ok ids \<and> byte_spells tk ids s"
  proof (rule byte_level.encode_long [OF assms(2)])
    fix a t b assume "s = a @ t @ b" "valid_utf8 t" "length t < 8192"
    then show "\<exists>ids. encode cc so tk t = Ok ids \<and> byte_spells tk ids t"
      using encode_short_spells [OF assms(1)] specials_known_part [OF assms(3)] by blast
  qed
  then obtain ids where "encode cc so tk s = Ok ids" "byte_spells tk ids s" by blast
  then show ?thesis using assms(1,2)
    by (auto simp: decode_def byte_level_tokenizer_def byte_spells_def joined_def Let_def utf8_lossy_valid)
qed

section \<open>Gemma texts\<close>

text \<open>A text without the three characters that decoding turns into spaces and newlines.\<close>

definition no_markers :: "str \<Rightarrow> bool" where
  "no_markers s \<longleftrightarrow> (\<forall>c \<in> set (chars s). c \<notin> {LOWER_BLOCK, G_DOT, C_DOT})"

definition unescape :: "str \<Rightarrow> str" where
  "unescape s = replace_char C_DOT [10] (replace_char G_DOT [32] (replace_char LOWER_BLOCK [32] s))"

definition gemma_spells :: "tokenizer \<Rightarrow> u32 list \<Rightarrow> str \<Rightarrow> bool" where
  "gemma_spells tk ids s \<longleftrightarrow> valid_utf8 (joined tk ids) \<and> unescape (joined tk ids) = s"

lemma marker_chars: "is_char LOWER_BLOCK" "is_char G_DOT" "is_char C_DOT" "is_char [32]" "is_char [10]"
  by (simp_all add: LOWER_BLOCK_def G_DOT_def C_DOT_def ascii_char is_char_def utf8_chunk_def second_ok_def is_cont_iff
      cont_byte_def)

lemma unescape_append: "valid_utf8 s \<Longrightarrow> unescape (s @ t) = unescape s @ unescape t"
  by (simp add: unescape_def replace_char_append replace_char_chars marker_chars)

interpretation gemma: spelling "gemma_spells tk"
proof
  show "gemma_spells tk [] []" by (simp add: gemma_spells_def unescape_def replace_char_def)
  show "gemma_spells tk a s \<Longrightarrow> gemma_spells tk b t \<Longrightarrow> gemma_spells tk (a @ b) (s @ t)" for s t a b
    by (simp add: gemma_spells_def valid_append unescape_append)
qed

lemma absent_marker: "valid_utf8 s \<Longrightarrow> no_markers s \<Longrightarrow> m \<in> {LOWER_BLOCK, G_DOT, C_DOT} \<Longrightarrow> replace_char m b s = s"
  by (rule replace_char_absent) (auto simp: no_markers_def)

lemma unescape_plain: "valid_utf8 s \<Longrightarrow> no_markers s \<Longrightarrow> unescape s = s"
  by (simp add: unescape_def absent_marker)

lemma unescape_escaped:
  assumes "valid_utf8 s" and "no_markers s"
  shows "unescape (replace_char [32] LOWER_BLOCK s) = s"
proof -
  have "replace_char LOWER_BLOCK [32] (replace_char [32] LOWER_BLOCK s) = s"
    using assms by (intro replace_char_back) (auto simp: marker_chars no_markers_def)
  then show ?thesis using assms by (simp add: unescape_def absent_marker)
qed

text \<open>A Gemma vocabulary names its own tokens and has one for the result of every merge.\<close>

definition gemma_tokenizer :: "tokenizer \<Rightarrow> bool" where
  "gemma_tokenizer tk \<longleftrightarrow> tk_model_type tk = ascii ''gemma4'' \<and> tk_byte_decoder tk = None \<and> vocab_ok tk
     \<and> (\<exists>merges. tk_bpe_merges tk = Some merges \<and> (\<forall>a b. merges (a @ [32] @ b) \<noteq> None \<longrightarrow> id_of tk (a @ b) \<noteq> None))
     \<and> (\<forall>st \<in> set (tk_added_tokens tk). st \<noteq> [] \<and> valid_utf8 st \<and> no_markers st)"

definition chars_known :: "tokenizer \<Rightarrow> str \<Rightarrow> bool" where
  "chars_known tk s \<longleftrightarrow> (\<forall>c \<in> set (chars s). id_of tk (if c = [32] then LOWER_BLOCK else c) \<noteq> None)"

lemma spm_piece_joined:
  assumes "gemma_tokenizer tk" and "valid_utf8 p" and "\<forall>c \<in> set (chars p). id_of tk c \<noteq> None"
  shows "joined tk (encode_spm_piece tk p) = p"
proof -
  obtain merges where m: "tk_bpe_merges tk = Some merges"
    and closed: "\<And>a b. merges (a @ [32] @ b) \<noteq> None \<Longrightarrow> id_of tk (a @ b) \<noteq> None" and v: "vocab_ok tk"
    using assms(1) by (auto simp: gemma_tokenizer_def)
  have all: "\<forall>x \<in> set (merge_all merges (chars p)). id_of tk x \<noteq> None"
    using assms(3) closed by (intro merge_all_set) auto
  have "joined tk (lookup_spm_symbol tk x) = x" if "x \<in> set (merge_all merges (chars p))" for x
    using all that token_at_id [OF v] by (auto simp: lookup_spm_symbol_def joined_def split: option.split)
  then have "joined tk (concat (map (lookup_spm_symbol tk) (merge_all merges (chars p)))) = concat (merge_all merges (chars p))"
    unfolding joined_concat by (metis (no_types, lifting) map_idI)
  then have "joined tk (bpe_merge_spm_piece tk p) = p"
    using assms(2) by (simp add: bpe_merge_spm_piece_def m merge_all_concat)
  then show ?thesis using token_at_id [OF v]
    by (auto simp: encode_spm_piece_def joined_def split: option.split)
qed

lemma spm_chunk_spells:
  assumes "gemma_tokenizer tk" and "valid_utf8 s" and "no_markers s" and "chars_known tk s"
  shows "gemma_spells tk (encode_spm_bpe_chunk tk s) s"
proof -
  define e where "e = replace_char [32] LOWER_BLOCK s"
  have e: "valid_utf8 e" "\<forall>c \<in> set (chars e). id_of tk c \<noteq> None"
    using assms(2,4) replace_char_chars [OF assms(2) marker_chars(1), of "[32]"] by (auto simp: e_def chars_known_def)
  have runs: "\<forall>p \<in> set (split_newline_runs e). valid_utf8 p" using newline_runs_valid e(1) by blast
  have concat: "concat (map chars (split_newline_runs e)) = chars e"
    using chars_concat_valid [OF runs] newline_runs_concat [of e] by simp
  have "\<forall>p \<in> set (split_newline_runs e). \<forall>c \<in> set (chars p). id_of tk c \<noteq> None"
  proof (intro ballI)
    fix p c assume "p \<in> set (split_newline_runs e)" "c \<in> set (chars p)"
    then have "c \<in> set (concat (map chars (split_newline_runs e)))" by auto
    then show "id_of tk c \<noteq> None" using e(2) concat by simp
  qed
  then have "map (\<lambda>p. joined tk (encode_spm_piece tk p)) (split_newline_runs e) = split_newline_runs e"
    using spm_piece_joined [OF assms(1)] runs by (intro map_idI) blast
  then have "joined tk (encode_spm_bpe_chunk tk s) = e"
    by (simp add: encode_spm_bpe_chunk_def e_def [symmetric] joined_concat newline_runs_concat)
  then show ?thesis using e(1) unescape_escaped [OF assms(2,3)] by (simp add: gemma_spells_def e_def)
qed

lemma part_chars:
  assumes "s = a @ t @ b" and "valid_utf8 a" and "valid_utf8 t"
  shows "no_markers s \<Longrightarrow> no_markers t" "chars_known tk s \<Longrightarrow> chars_known tk t"
  using assms by (auto simp: no_markers_def chars_known_def chars_append)

lemma generic_no_markers: "\<forall>st \<in> set GENERIC_SPECIALS. st \<noteq> [] \<and> valid_utf8 st \<and> no_markers st"
proof -
  have "list_all (\<lambda>st. st \<noteq> [] \<and> list_all (\<lambda>b. b < 128) st) GENERIC_SPECIALS" by code_simp
  then have a: "\<forall>st \<in> set GENERIC_SPECIALS. st \<noteq> [] \<and> (\<forall>b \<in> set st. b < 128)" by (simp add: list_all_iff)
  have "no_markers st" if "\<forall>b \<in> set st. b < 128" for st
  proof -
    have "chars st = map (\<lambda>b. [b]) st"
      using that by (induction st) (use chars_Cons ascii_char in force)+
    then show ?thesis by (auto simp: no_markers_def LOWER_BLOCK_def G_DOT_def C_DOT_def)
  qed
  then show ?thesis using a valid_utf8_ascii by blast
qed

text \<open>
  C28. The same holds of Gemma vocabularies: a text is decoded to itself if it has none of the three
  marker characters, its characters and special tokens are known, and every merge has its token.
\<close>

theorem gemma_text_survives:
  assumes "gemma_tokenizer tk" and "valid_utf8 s" and "specials_known tk s" and "no_markers s" and "chars_known tk s"
  shows "\<exists>ids. encode cc so tk s = Ok ids \<and> decode tk ids = s"
proof -
  have ok: "\<forall>st \<in> set (special_tokens tk). st \<noteq> [] \<and> valid_utf8 st \<and> no_markers st"
    using assms(1) generic_no_markers by (auto simp: gemma_tokenizer_def special_tokens_def)
  have model: "tk_model_type tk = ascii ''gemma4''" "tk_byte_decoder tk = None" "vocab_ok tk"
    using assms(1) by (auto simp: gemma_tokenizer_def)
  have "ascii ''gemma4'' \<noteq> ascii ''bpe''" by code_simp
  have "\<exists>ids. encode cc so tk s = Ok ids \<and> gemma_spells tk ids s"
  proof (rule gemma.encode_long [OF assms(2)])
    fix a t b assume t: "s = a @ t @ b" "valid_utf8 a" "valid_utf8 t" "length t < 8192"
    have known: "specials_known tk t" using specials_known_part [OF assms(3) t(1)] .
    have "\<exists>ids. partition_loop (encode_spm_bpe_chunk tk) (emit_known tk) (special_tokens tk) t = Ok ids \<and> gemma_spells tk ids t"
    proof (rule gemma.partition_spells [OF t(3)])
      fix a' t' b' assume "t = a' @ t' @ b'" "valid_utf8 a'" "valid_utf8 t'"
      then show "gemma_spells tk (encode_spm_bpe_chunk tk t') t'"
        using spm_chunk_spells [OF assms(1)] part_chars [of t a' t' b'] part_chars [OF t(1-3)] assms(4,5) by blast
    next
      show "\<forall>st \<in> set (special_tokens tk). st \<noteq> [] \<and> valid_utf8 st" using ok by blast
    next
      fix st p assume st: "st \<in> set (special_tokens tk)" "find_str st t = Some p"
      obtain i where i: "id_of tk st = Some i" using known_special [OF known st] .
      have "joined tk [i] = st" using token_at_id [OF model(3) i] by (simp add: joined_def)
      then have "gemma_spells tk [i] st" using ok st(1) unescape_plain by (simp add: gemma_spells_def)
      then show "\<exists>ids. emit_known tk st = Ok ids \<and> gemma_spells tk ids st" using i by (simp add: emit_known_def)
    qed
    moreover have "encode cc so tk [] = Ok []" by (simp add: encode.simps [of cc so tk "[]"])
    ultimately show "\<exists>ids. encode cc so tk t = Ok ids \<and> gemma_spells tk ids t"
      using t(4) \<open>ascii ''gemma4'' \<noteq> ascii ''bpe''\<close> model gemma.spells_Nil
      by (cases "t = []") (simp_all add: encode.simps [of cc so tk t] encode_spm_bpe_def)
  qed
  then show ?thesis using model
    by (auto simp: decode_def gemma_spells_def unescape_def joined_def Let_def)
qed

section \<open>Concrete vocabularies\<close>

definition vocabulary :: "str \<Rightarrow> (str \<rightharpoonup> u32) \<Rightarrow> (str \<rightharpoonup> u8) option \<Rightarrow> str list \<Rightarrow> str list \<Rightarrow> tokenizer" where
  "vocabulary model merges decoder added tokens = \<lparr>tk_tokens = tokens,
     tk_token_to_id = zip tokens (map of_nat [0..<length tokens]), tk_scores = None, tk_model_type = model,
     tk_bpe_merges = Some merges, tk_byte_decoder = decoder, tk_eos = None, tk_bos = None, tk_add_bos = False,
     tk_unk = None, tk_chat_template = None, tk_architecture = None, tk_added_tokens = added\<rparr>"

lemma vocabulary_id:
  assumes "id_of (vocabulary model merges decoder added tokens) t = Some i" and "length tokens < 2 ^ 32"
  shows "unat i < length tokens \<and> tokens ! unat i = t"
proof -
  have "(t, i) \<in> set (zip tokens (map of_nat [0..<length tokens]))"
    using assms(1) by (auto simp: id_of_def vocabulary_def dest: map_of_SomeD)
  then obtain n where "n < length tokens" "tokens ! n = t" "i = of_nat n" by (auto simp: in_set_zip)
  then show ?thesis using assms(2) by (simp add: unat_of_nat)
qed

lemma vocabulary_ok: "length tokens < 2 ^ 32 \<Longrightarrow> vocab_ok (vocabulary model merges decoder added tokens)"
  using vocabulary_id [of model merges decoder added tokens] by (simp add: vocab_ok_def) (simp add: vocabulary_def)

lemma vocabulary_has: "t \<in> set tokens \<Longrightarrow> id_of (vocabulary model merges decoder added tokens) t \<noteq> None"
proof -
  assume "t \<in> set tokens"
  moreover have "map fst (zip tokens (map of_nat [0..<length tokens] :: u32 list)) = tokens" by (rule map_fst_zip) simp
  ultimately have "t \<in> fst ` set (zip tokens (map of_nat [0..<length tokens] :: u32 list))" by (metis list.set_map)
  then show ?thesis by (simp add: id_of_def vocabulary_def map_of_eq_None_iff)
qed

definition hi_merges :: "str \<rightharpoonup> u32" where "hi_merges = [[104, 32, 105] \<mapsto> 0]"

definition byte_vocabulary :: tokenizer where
  "byte_vocabulary = vocabulary (ascii ''bpe'') hi_merges (Some gpt2_byte_decoder) []
     (map (\<lambda>b. byte_char (of_nat b)) [0..<256] @ [[104, 105]])"

definition gemma_vocabulary :: tokenizer where
  "gemma_vocabulary = vocabulary (ascii ''gemma4'') hi_merges None [] [[104], [105], LOWER_BLOCK, [104, 105]]"

lemma byte_vocabulary_ok: "byte_level_tokenizer byte_vocabulary"
proof -
  have "vocab_ok byte_vocabulary" unfolding byte_vocabulary_def by (rule vocabulary_ok) simp
  moreover have "has_bytes byte_vocabulary" unfolding has_bytes_def
  proof
    fix b :: u8
    have "byte_char b \<in> (\<lambda>n. byte_char (of_nat n)) ` {0..<256}"
      using unat_bounds(1) [of b] by (intro image_eqI [of _ _ "unat b"]) simp_all
    then show "id_of byte_vocabulary (byte_char b) \<noteq> None"
      unfolding byte_vocabulary_def by (intro vocabulary_has) simp
  qed
  ultimately show ?thesis
    unfolding byte_level_tokenizer_def by (simp add: byte_vocabulary_def vocabulary_def)
qed

lemma gemma_vocabulary_ok: "gemma_tokenizer gemma_vocabulary"
proof -
  have "a @ b = [104, 105]" if h: "hi_merges (a @ [32] @ b) \<noteq> None" for a b
  proof -
    have "a @ 32 # b = [104, 32, 105]" using h by (auto simp: hi_merges_def split: if_splits)
    then show ?thesis by (cases a; cases "tl a"; cases "tl (tl a)") auto
  qed
  then have "\<forall>a b. hi_merges (a @ [32] @ b) \<noteq> None \<longrightarrow> id_of gemma_vocabulary (a @ b) \<noteq> None"
    unfolding gemma_vocabulary_def by (metis insertCI list.set(2) vocabulary_has)
  moreover have "vocab_ok gemma_vocabulary" unfolding gemma_vocabulary_def by (rule vocabulary_ok) simp
  moreover have "tk_bpe_merges gemma_vocabulary = Some hi_merges" by (simp add: gemma_vocabulary_def vocabulary_def)
  ultimately show ?thesis
    unfolding gemma_tokenizer_def by (simp add: gemma_vocabulary_def vocabulary_def)
qed

lemma hi_known: "specials_known tk (ascii ''hi hi'')"
proof -
  have "list_all (\<lambda>st. find_str st (ascii ''hi hi'') = None) GENERIC_SPECIALS" by code_simp
  then show ?thesis by (simp add: specials_known_def list_all_iff)
qed

lemma hi_valid: "valid_utf8 (ascii ''hi hi'')"
  by (rule ascii_valid) simp

theorem byte_level_text_survives_witness:
  "\<forall>cc so. \<exists>ids. encode cc so byte_vocabulary (ascii ''hi hi'') = Ok ids \<and> decode byte_vocabulary ids = ascii ''hi hi''"
  by (intro allI) (rule byte_level_text_survives [OF byte_vocabulary_ok hi_valid hi_known])

theorem gemma_text_survives_witness:
  "\<forall>cc so. \<exists>ids. encode cc so gemma_vocabulary (ascii ''hi hi'') = Ok ids \<and> decode gemma_vocabulary ids = ascii ''hi hi''"
proof (intro allI, rule gemma_text_survives [OF gemma_vocabulary_ok hi_valid hi_known])
  have c: "chars (ascii ''hi hi'') = [[104], [105], [32], [104], [105]]" by code_simp
  show "no_markers (ascii ''hi hi'')" by (simp add: no_markers_def c LOWER_BLOCK_def G_DOT_def C_DOT_def)
  show "chars_known gemma_vocabulary (ascii ''hi hi'')"
    using vocabulary_has [of _ "[[104], [105], LOWER_BLOCK, [104, 105]]"]
    by (simp add: chars_known_def c gemma_vocabulary_def)
qed

section \<open>Merging and metadata\<close>

text \<open>
  C29. The merge loop is byte-pair encoding: its result is the one list of symbols that repeated steps of
  joining the leftmost adjacent pair of lowest rank lead to and from which no step is possible; it
  spells the same text.
\<close>

theorem merging_is_exhaustive:
  "(((bpe_step merges)\<^sup>*\<^sup>* symbols out \<and> \<not> (\<exists>out'. bpe_step merges out out')) = (out = merge_all merges symbols))
    \<and> concat (merge_all merges symbols) = concat symbols"
  using merge_all_refines merge_all_concat by blast

theorem merging_is_exhaustive_witness:
  "(bpe_step hi_merges)\<^sup>*\<^sup>* [[104], [105], [104]] [[104, 105], [104]]
    \<and> merge_all hi_merges [[104], [105], [104]] = [[104, 105], [104]]"
proof -
  have "best_pair hi_merges 0 [[104], [105], [104]] None = Some (0, 0)" "best_pair hi_merges 0 [[104, 105], [104]] None = None"
    "merge_at 0 [[104], [105], [104 :: u8]] = [[104, 105], [104]]"
    by (simp_all add: hi_merges_def merge_at_def)
  then have "merge_all hi_merges [[104], [105], [104]] = [[104, 105], [104]]"
    by (simp add: merge_all.simps [of hi_merges "[[104], [105], [104]]"]
        merge_all.simps [of hi_merges "[[104, 105], [104]]"])
  then show ?thesis using merging_is_exhaustive [of hi_merges "[[104], [105], [104]]" "[[104, 105], [104]]"] by simp
qed

text \<open>
  A tokenizer built from GGUF metadata names its own tokens: the text of the id of a token is the
  token, even where the vocabulary lists it twice; byte-level models get the byte decoder.
\<close>

theorem metadata_names_its_tokens:
  assumes "from_metadata so m = Ok tk" and "length (tk_tokens tk) < 2 ^ 32" and "id_of tk t = Some i"
  shows "token_at tk i = t \<and> t \<in> set (tk_tokens tk)
    \<and> tk_byte_decoder tk = (if tk_model_type tk \<in> {ascii ''bpe'', ascii ''gpt2''} then Some gpt2_byte_decoder else None)"
proof -
  have v: "vocab_ok tk" using metadata_vocab_ok [OF assms(1,2)] .
  then have "unat i < length (tk_tokens tk) \<and> tk_tokens tk ! unat i = t" using assms(3) by (simp add: vocab_ok_def)
  moreover have "tk_byte_decoder tk = (if tk_model_type tk \<in> {ascii ''bpe'', ascii ''gpt2''} then Some gpt2_byte_decoder else None)"
    using assms(1) by (auto simp: from_metadata_def Let_def split: option.splits outcome.splits)
  ultimately show ?thesis using token_at_id [OF v assms(3)] nth_mem by metis
qed

definition word_metadata :: gguf_metadata where
  "word_metadata = [(ascii ''tokenizer.ggml.tokens'', GArray [GString [97], GString [98], GString [97]])]"

theorem metadata_names_its_tokens_witness:
  "\<forall>so. \<exists>tk. from_metadata so word_metadata = Ok tk \<and> id_of tk [97] = Some 2 \<and> token_at tk 2 = [97]"
proof
  fix so
  have k: "map_of word_metadata (ascii ''tokenizer.ggml.tokens'') = Some (GArray [GString [97], GString [98], GString [97]])"
    by (simp add: word_metadata_def)
  obtain tk where tk: "from_metadata so word_metadata = Ok tk" "tk_tokens tk = [[97], [98], [97]]"
      "tk_token_to_id tk = [([97], 2), ([98], 1), ([97], 0)]"
    by (auto simp: from_metadata_def k Let_def)
  then have "id_of tk [97] = Some 2" by (simp add: id_of_def)
  then show "\<exists>tk. from_metadata so word_metadata = Ok tk \<and> id_of tk [97] = Some 2 \<and> token_at tk 2 = [97]"
    using metadata_names_its_tokens [OF tk(1), of "[97]" 2] tk by auto
qed

text \<open>
  C30. The slices of a long text cover it: they follow each other without a gap from the first byte to
  the last, each is cut at characters and has at most 4102 bytes.
\<close>

theorem slices_cover:
  assumes "valid_utf8 s" and "s \<noteq> []"
  shows "\<exists>bs. chunk_bounds s 4096 = Ok bs \<and> concat (map (\<lambda>(a, b). drop a (take b s)) bs) = s
    \<and> (\<forall>(a, b) \<in> set bs. a < b \<and> b \<le> length s \<and> b \<le> a + 4102 \<and> valid_utf8 (drop a (take b s)))"
proof -
  have "is_boundary s 0"
    using assms first_char(3) [of s] by (auto simp: is_boundary_def valid_utf8.simps [of s] split: if_splits)
  then obtain bs where "chunk_bounds s 4096 = Ok bs" "concat (map (\<lambda>(a, b). drop a (take b s)) bs) = s"
    "\<forall>(a, b) \<in> set bs. a < b \<and> b \<le> length s \<and> b \<le> a + 4096 + 6 \<and> is_boundary s a \<and> is_boundary s b"
    using chunk_bounds_cover [OF assms(1), of 4096 0] by (auto simp: chunk_bounds_def)
  then show ?thesis using slice_valid [OF assms(1)] by fastforce
qed

theorem slices_cover_witness: "\<exists>bs. chunk_bounds [97, 98] 4096 = Ok bs \<and> concat (map (\<lambda>(a, b). drop a (take b [97, 98])) bs) = [97, 98 :: u8]"
  using slices_cover [of "[97, 98]"] by (auto simp: valid_utf8_ascii)

section \<open>Where the code departs\<close>

text \<open>The default model names special tokens its vocabulary may lack: a text with one stops the encoder.\<close>

lemma unknown_special_panics:
  assumes "id_of tk (ascii ''<s>'') = None" and "tk_added_tokens tk = []" and "tk_model_type tk = ascii ''llama''"
  shows "encode cc so tk (ascii ''a<s>'') = Panic"
proof -
  have f: "find_special GENERIC_SPECIALS (ascii ''a<s>'') None = Some (ascii ''<s>'', 1)" by code_simp
  have n: "ascii ''llama'' \<noteq> ascii ''bpe''" "ascii ''llama'' \<noteq> ascii ''gemma4''" "ascii ''a<s>'' \<noteq> []" "length (ascii ''a<s>'') = 4"
    by code_simp+
  show ?thesis
    using assms(1,3) f n
    by (simp add: encode.simps [of cc so tk "ascii ''a<s>''"] special_tokens_def assms(2) emit_indexed_def
        partition_loop.simps [of _ _ GENERIC_SPECIALS "ascii ''a<s>''"] Let_def)
qed

text \<open>The byte-level encoder passes over such a token: the text loses it.\<close>

lemma unknown_special_dropped:
  "encode cc so byte_vocabulary (ascii ''<s>'') = Ok []"
proof -
  have f: "find_special GENERIC_SPECIALS (ascii ''<s>'') None = Some (ascii ''<s>'', 0)"
    "find_special GENERIC_SPECIALS [] None = None" by code_simp+
  have i: "id_of byte_vocabulary (ascii ''<s>'') = None"
  proof (rule ccontr)
    assume "id_of byte_vocabulary (ascii ''<s>'') \<noteq> None"
    then obtain i where i: "id_of byte_vocabulary (ascii ''<s>'') = Some i" by blast
    define tokens where "tokens = map (\<lambda>b. byte_char (of_nat b)) [0..<256] @ [[104, 105]]"
    have "unat i < length tokens \<and> tokens ! unat i = ascii ''<s>''"
      by (rule vocabulary_id [OF i [unfolded byte_vocabulary_def, folded tokens_def]]) (simp add: tokens_def)
    then have "ascii ''<s>'' \<in> set tokens" using nth_mem [of "unat i" tokens] by argo
    then have "ascii ''<s>'' \<in> (\<lambda>b. byte_char (of_nat b)) ` set [0..<256] \<union> {[104, 105]}"
      unfolding tokens_def set_append list.set_map by simp
    then obtain b where "ascii ''<s>'' = byte_char b \<or> ascii ''<s>'' = [104, 105]" by blast
    moreover have "chars (ascii ''<s>'') = [[60], [115], [62]]" "chars [104, 105] = [[104], [105]]" by code_simp+
    ultimately show False using is_char_valid [OF byte_char_char [of b]] by auto
  qed
  have n: "ascii ''<s>'' \<noteq> []" "length (ascii ''<s>'') = 3" by code_simp+
  have b: "special_tokens byte_vocabulary = GENERIC_SPECIALS" "tk_model_type byte_vocabulary = ascii ''bpe''"
    by (simp_all add: special_tokens_def byte_vocabulary_def vocabulary_def)
  show ?thesis using f n
    by (simp add: encode.simps [of cc so byte_vocabulary "ascii ''<s>''"] b encode_bpe_def emit_known_def i
        partition_loop.simps [of _ _ GENERIC_SPECIALS "ascii ''<s>''"] partition_loop.simps [of _ _ GENERIC_SPECIALS "[]"] Let_def)
qed

text \<open>An empty token marked as a control token makes every encoder run for ever.\<close>

lemma empty_special_hangs:
  assumes "id_of tk [] = Some i" and "tk_added_tokens tk = [[]]"
  shows "encode cc so tk [97] = Hang"
proof -
  have f: "find_special ([] # GENERIC_SPECIALS) [97] None = Some ([], 0)" by code_simp
  have n: "special_tokens tk = [] # GENERIC_SPECIALS" using assms by (simp add: special_tokens_def)
  show ?thesis
    using f assms(1)
    by (simp add: encode.simps [of cc so tk "[97]"] n encode_bpe_def encode_spm_bpe_def emit_known_def emit_indexed_def
        partition_loop.simps [of _ _ "[] # GENERIC_SPECIALS" "[97]"] Let_def)
qed

text \<open>A model of type \<open>gpt2\<close> is encoded by score merging, which cannot tell a text from the same text after a space.\<close>

lemma gpt2_invents_space:
  assumes "list_ex (contains_char G_DOT) (map fst (tk_token_to_id tk))" and "tk_added_tokens tk = []"
    and "tk_model_type tk = ascii ''gpt2''"
  shows "encode cc so tk (ascii ''Hello'') = encode cc so tk (ascii '' Hello'')"
proof -
  have f: "find_special GENERIC_SPECIALS (ascii ''Hello'') None = None"
    "find_special GENERIC_SPECIALS (ascii '' Hello'') None = None" by code_simp+
  have n: "ascii ''gpt2'' \<noteq> ascii ''bpe''" "ascii ''gpt2'' \<noteq> ascii ''gemma4''" "ascii ''Hello'' \<noteq> []" "ascii '' Hello'' \<noteq> []"
    "length (ascii ''Hello'') = 5" "length (ascii '' Hello'') = 6" by code_simp+
  have r: "replace_char [10] C_DOT (replace_char [32] G_DOT (ascii ''Hello'')) = ascii ''Hello''"
    "replace_char [10] C_DOT (replace_char [32] G_DOT (ascii '' Hello'')) = G_DOT @ ascii ''Hello''"
    "\<not> starts_with_str G_DOT (ascii ''Hello'')" "\<not> starts_with_str C_DOT (ascii ''Hello'')"
    "\<not> starts_with_str [60] (ascii ''Hello'')" "starts_with_str G_DOT (G_DOT @ ascii ''Hello'')" by code_simp+
  have "legacy_text tk (ascii ''Hello'') = legacy_text tk (ascii '' Hello'')"
    using assms(1) r by (simp add: legacy_text_def Let_def)
  then have "encode_legacy_chunk so tk (ascii ''Hello'') = encode_legacy_chunk so tk (ascii '' Hello'')"
    by (simp add: encode_legacy_chunk_def)
  then show ?thesis using f n assms(3)
    by (simp add: encode.simps [of cc so tk "ascii ''Hello''"] encode.simps [of cc so tk "ascii '' Hello''"]
        special_tokens_def assms(2) partition_loop.simps [of _ _ GENERIC_SPECIALS "ascii ''Hello''"]
        partition_loop.simps [of _ _ GENERIC_SPECIALS "ascii '' Hello''"])
qed

text \<open>Without a newline the first slice ends after 2048 bytes, inside whatever word stands there.\<close>

lemma back_up_no_newline:
  "start < lower \<Longrightarrow> lower \<le> e \<Longrightarrow> (\<forall>i. lower \<le> i \<and> i < e \<longrightarrow> s ! i \<noteq> 10) \<Longrightarrow> back_up s lower start e = lower"
  by (induction e) (auto simp: le_Suc_eq)

lemma slices_split_words:
  assumes "4096 < n"
  shows "chunk_end (replicate n 97) 4096 0 = 2048"
proof -
  let ?s = "replicate n (97 :: u8)"
  have b: "back_up ?s 2048 0 4096 = 2048" using assms by (intro back_up_no_newline) auto
  have "next_boundary ?s 2048 = 2048"
    using assms by (simp add: next_boundary.simps [of ?s 2048] is_boundary_def cont_byte_def)
  then show ?thesis using assms b by (simp add: chunk_end_def Let_def)
qed

end
