(* ===== verification/MemoryBudget.thy ===== *)
theory MemoryBudget
  imports GrimPrelude
begin

text \<open>
  What a model needs and what a device has: the memory bounds of \<open>grim-core/src/hyperparams.rs\<close>
  (\<open>compute_detailed_memory_bounds\<close>, \<open>kv_bytes_per_token\<close>, \<open>fit_context_to_vram\<close>) and the certificate
  of \<open>grim-core/src/memory_certificate.rs\<close> that admission asks for.

  The sizes are \<open>usize\<close> and \<open>u64\<close> of a 64-bit target, kept at their width: products and sums wrap,
  as the release profile of the crate makes them do. An architecture is its canonical name.
\<close>

section \<open>Saturating arithmetic\<close>

definition sat_sub :: "u64 \<Rightarrow> u64 \<Rightarrow> u64" where
  "sat_sub a b = (if b \<le> a then a - b else 0)"

definition sat_mul :: "u64 \<Rightarrow> u64 \<Rightarrow> u64" where
  "sat_mul a b = (if unat a * unat b < 2 ^ 64 then a * b else -1)"

definition sat_add :: "u64 \<Rightarrow> u64 \<Rightarrow> u64" where
  "sat_add a b = (if unat a + unat b < 2 ^ 64 then a + b else -1)"

lemma unat_sat_sub: "unat (sat_sub a b) = unat a - unat b"
  by (auto simp: sat_sub_def unat_sub word_le_nat_alt)

lemma unat_max: "unat (-1 :: u64) = 2 ^ 64 - 1"
  by (simp add: unsigned_minus_1_eq_mask mask_eq_exp_minus_1)

lemma unat_sat_mul: "unat (sat_mul a b) = min (unat a * unat b) (2 ^ 64 - 1)"
  by (auto simp: sat_mul_def unat_max unat_word_ariths)

lemma unat_sat_add: "unat (sat_add a b) = min (unat a + unat b) (2 ^ 64 - 1)"
  by (auto simp: sat_add_def unat_max unat_word_ariths)

section \<open>Hyperparameters\<close>

record arch_hyperparameters =
  hp_architecture :: string
  hp_vocab_size :: u64
  hp_hidden_size :: u64
  hp_num_layers :: u64
  hp_num_heads :: u64
  hp_num_kv_heads :: u64
  hp_head_dim :: u64
  hp_intermediate_size :: u64
  hp_rms_norm_eps :: f32
  hp_rope_theta :: f32
  hp_max_seq_len :: u64
  hp_expert_count :: "u64 option"
  hp_expert_used_count :: "u64 option"
  hp_expert_ff_length :: "u64 option"
  hp_expert_shared_ff_length :: "u64 option"
  hp_routed_scaling_factor :: f32
  hp_norm_topk_prob :: bool
  hp_ssm_d_state :: "u64 option"
  hp_ssm_d_inner :: "u64 option"
  hp_ssm_d_conv :: "u64 option"
  hp_ssm_dt_rank :: "u64 option"
  hp_ssm_n_group :: "u64 option"
  hp_full_attention_interval :: "u64 option"
  hp_head_count_kv_schedule :: "u32 list option"

text \<open>\<open>1e-5\<close>, \<open>10000.0\<close> and \<open>1.0\<close> as single-precision patterns.\<close>

definition default_hyperparameters :: arch_hyperparameters where
  "default_hyperparameters = \<lparr>hp_architecture = ''llama'', hp_vocab_size = 32000, hp_hidden_size = 4096,
     hp_num_layers = 32, hp_num_heads = 32, hp_num_kv_heads = 32, hp_head_dim = 128,
     hp_intermediate_size = 11008, hp_rms_norm_eps = 0x3727C5AC, hp_rope_theta = 0x461C4000,
     hp_max_seq_len = 2048, hp_expert_count = None, hp_expert_used_count = None,
     hp_expert_ff_length = None, hp_expert_shared_ff_length = None, hp_routed_scaling_factor = 0x3F800000,
     hp_norm_topk_prob = False, hp_ssm_d_state = None, hp_ssm_d_inner = None, hp_ssm_d_conv = None,
     hp_ssm_dt_rank = None, hp_ssm_n_group = None, hp_full_attention_interval = None,
     hp_head_count_kv_schedule = None\<rparr>"

record bounds =
  bd_static :: u64
  bd_demand :: u64
  bd_kv :: u64
  bd_activation :: u64
  bd_demanded_experts :: u64
  bd_total_experts :: u64

definition attn_layer_params :: "arch_hyperparameters \<Rightarrow> u64" where
  "attn_layer_params h = hp_hidden_size h * hp_head_dim h * (hp_num_heads h + 2 * hp_num_kv_heads h)
     + hp_hidden_size h * hp_hidden_size h + 2 * hp_hidden_size h"

text \<open>Static bytes, demanded bytes, demanded experts, all experts.\<close>

definition parameter_bytes :: "arch_hyperparameters \<Rightarrow> u64 \<Rightarrow> u64 \<Rightarrow> u64 \<times> u64 \<times> u64 \<times> u64" where
  "parameter_bytes h target_seq_len bpe =
     (let d = hp_hidden_size h; l = hp_num_layers h; v = hp_vocab_size h in
      case hp_expert_count h of
        Some num_experts \<Rightarrow>
          (let top_k = (case hp_expert_used_count h of Some k \<Rightarrow> k | None \<Rightarrow> 2);
               exp_ffn = (case hp_expert_ff_length h of Some f \<Rightarrow> f | None \<Rightarrow> hp_intermediate_size h);
               per_expert_ffn = 3 * d * exp_ffn;
               shared_ffn = 3 * d * hp_intermediate_size h;
               static_params = 2 * v * d + l * (attn_layer_params h + shared_ffn + num_experts * per_expert_ffn);
               active_per_layer = min (target_seq_len * top_k) num_experts;
               demanded_params = 2 * v * d + l * (attn_layer_params h + shared_ffn + active_per_layer * per_expert_ffn)
           in (static_params * bpe, demanded_params * bpe, active_per_layer * l, num_experts * l))
      | None \<Rightarrow>
          (let static_params = 2 * v * d + l * (attn_layer_params h + 3 * d * hp_intermediate_size h)
           in (static_params * bpe, static_params * bpe, 0, 0)))"

definition compute_detailed_memory_bounds :: "arch_hyperparameters \<Rightarrow> u64 \<Rightarrow> u64 \<Rightarrow> u64 \<Rightarrow> bounds" where
  "compute_detailed_memory_bounds h target_seq_len batch_size bpe =
     (case parameter_bytes h target_seq_len bpe of (static, demand, demanded, total_experts) \<Rightarrow>
        \<lparr>bd_static = static, bd_demand = demand,
         bd_kv = 2 * hp_num_layers h * batch_size * target_seq_len * hp_num_kv_heads h * hp_head_dim h * bpe,
         bd_activation = 2 * batch_size * target_seq_len * hp_hidden_size h * bpe,
         bd_demanded_experts = demanded, bd_total_experts = total_experts\<rparr>)"

definition semantic_demand_lower_bound :: "arch_hyperparameters \<Rightarrow> u64 \<Rightarrow> u64 \<Rightarrow> u64 \<Rightarrow> u64" where
  "semantic_demand_lower_bound h target_seq_len batch_size bpe =
     (let b = compute_detailed_memory_bounds h target_seq_len batch_size bpe
      in bd_demand b + bd_kv b + bd_activation b)"

section \<open>The context that fits\<close>

definition attention_layers :: "nat \<Rightarrow> nat \<Rightarrow> nat" where
  "attention_layers num_layers interval = length (filter (\<lambda>i. (i + 1) mod interval = 0) [0..<num_layers])"

definition kv_bytes_per_token :: "u64 \<Rightarrow> u64 \<Rightarrow> nat \<Rightarrow> nat \<Rightarrow> u64 \<Rightarrow> u64" where
  "kv_bytes_per_token kv_heads head_dim num_layers interval bytes_per_element =
     sat_mul (sat_mul (sat_mul (sat_mul kv_heads head_dim) 2) bytes_per_element)
       (of_nat (attention_layers num_layers (max interval 1)))"

definition fit_context_to_vram :: "u64 \<Rightarrow> u64 \<Rightarrow> nat \<Rightarrow> nat \<Rightarrow> u64 \<Rightarrow> u64 \<Rightarrow> u64 \<Rightarrow> u64 \<Rightarrow> nat \<Rightarrow> nat" where
  "fit_context_to_vram kv_heads head_dim num_layers interval bytes_per_element weight_bytes
       vram_budget_bytes headroom_bytes max_context =
     (let per_token = kv_bytes_per_token kv_heads head_dim num_layers interval bytes_per_element in
      if per_token = 0 then max_context
      else (let available = sat_sub (sat_sub vram_budget_bytes weight_bytes) headroom_bytes in
        if available = 0 then 0
        else (let fits = unat (available div per_token); interval = max interval 1
              in min (fits div interval * interval) max_context)))"

section \<open>The certificate\<close>

datatype authority_grade = HardEnforced | PhysicalCapacity | InstrumentedHighWaterMark | SampledAudit

record boundary_vector =
  bv_host_allowance :: u64
  bv_device_capacity :: u64
  bv_operator_reserve :: u64
  bv_host_authority :: authority_grade
  bv_device_authority :: authority_grade

definition standard_boundary :: "u64 \<Rightarrow> u64 \<Rightarrow> u64 \<Rightarrow> boundary_vector" where
  "standard_boundary host_allowance device_capacity reserve_bytes =
     \<lparr>bv_host_allowance = host_allowance, bv_device_capacity = device_capacity,
      bv_operator_reserve = reserve_bytes, bv_host_authority = HardEnforced,
      bv_device_authority = PhysicalCapacity\<rparr>"

record model_inventory =
  mi_architecture :: string
  mi_static_parameter :: u64
  mi_semantic_demand :: u64
  mi_kv_cache_reservation :: u64
  mi_peak_activation :: u64
  mi_demanded_experts :: u64
  mi_total_experts :: u64

record exactness_contract =
  ex_horizon_tokens :: nat
  ex_bitwise_logits :: bool
  ex_exact_routes :: bool
  ex_oracle :: string

record memory_certificate =
  mc_inventory :: model_inventory
  mc_boundaries :: boundary_vector
  mc_exactness :: exactness_contract
  mc_lifetime_epoch :: nat
  mc_full_residency :: bool
  mc_feasible :: bool

definition total_required :: "bounds \<Rightarrow> u64" where
  "total_required b = bd_demand b + bd_kv b + bd_activation b"

definition combined_usable :: "boundary_vector \<Rightarrow> u64" where
  "combined_usable bv = sat_sub (bv_host_allowance bv + bv_device_capacity bv) (bv_operator_reserve bv)"

definition certify :: "arch_hyperparameters \<Rightarrow> boundary_vector \<Rightarrow> u64 \<Rightarrow> u64 \<Rightarrow> u64 \<Rightarrow> string
    \<Rightarrow> (string, memory_certificate) outcome" where
  "certify h bv target_seq_len batch_size bpe oracle =
     (let b = compute_detailed_memory_bounds h target_seq_len batch_size bpe;
          required = total_required b;
          device_usable = sat_sub (bv_device_capacity bv) (bv_operator_reserve bv)
      in if \<not> required \<le> combined_usable bv
         then Err ''MemoryCertificate: semantic demand exceeds combined hardware envelope''
         else Ok \<lparr>mc_inventory = \<lparr>mi_architecture = hp_architecture h, mi_static_parameter = bd_static b,
               mi_semantic_demand = bd_demand b, mi_kv_cache_reservation = bd_kv b,
               mi_peak_activation = bd_activation b, mi_demanded_experts = bd_demanded_experts b,
               mi_total_experts = bd_total_experts b\<rparr>,
             mc_boundaries = bv,
             mc_exactness = \<lparr>ex_horizon_tokens = 64, ex_bitwise_logits = True,
               ex_exact_routes = (hp_expert_count h \<noteq> None), ex_oracle = oracle\<rparr>,
             mc_lifetime_epoch = 1, mc_full_residency = (required \<le> device_usable), mc_feasible = True\<rparr>)"

section \<open>What a request can take of a farm card\<close>

text \<open>\<open>usize\<close> products saturate before the cast; the free memory of a card is 0 when it is not known.\<close>

definition scythe_request_footprint_bytes :: "u64 \<Rightarrow> u64 \<Rightarrow> u64 \<Rightarrow> u64 \<Rightarrow> u64 option \<Rightarrow> u64 \<Rightarrow> u64" where
  "scythe_request_footprint_bytes seq_len max_new_tokens num_kv_heads head_dim hidden_size_hint num_layers =
     (let seq = max (sat_add seq_len max_new_tokens) 1;
          kv_dim = max (sat_mul num_kv_heads head_dim) 1;
          hidden = (case hidden_size_hint of None \<Rightarrow> kv_dim | Some h \<Rightarrow> max h 1);
          layers = max num_layers 1;
          kv_bytes = sat_mul (sat_mul (sat_mul (sat_mul 2 seq) kv_dim) layers) 4;
          working_set = sat_mul (sat_mul (sat_mul (sat_mul 2 seq) hidden) layers) 4
      in sat_add kv_bytes working_set)"

definition SCYTHE_VRAM_WATERMARK_BYTES :: u64 where
  "SCYTHE_VRAM_WATERMARK_BYTES = 512 * 1024 * 1024"

definition scythe_vram_feasible :: "u64 list \<Rightarrow> u64 \<Rightarrow> bool list" where
  "scythe_vram_feasible vram_free footprint =
     map (\<lambda>free. free = 0 \<or> sat_add footprint SCYTHE_VRAM_WATERMARK_BYTES \<le> free) vram_free"

section \<open>The bounds as natural numbers\<close>

text \<open>
  The same formulas without wrapping. Sums and products of words are those of the naturals modulo
  2^64, so the only place where the two differ before the end is the minimum over the experts.
\<close>

definition attn_layer_nat :: "arch_hyperparameters \<Rightarrow> nat" where
  "attn_layer_nat h = unat (hp_hidden_size h) * unat (hp_head_dim h) * (unat (hp_num_heads h) + 2 * unat (hp_num_kv_heads h))
     + unat (hp_hidden_size h) * unat (hp_hidden_size h) + 2 * unat (hp_hidden_size h)"

definition top_k :: "arch_hyperparameters \<Rightarrow> nat" where
  "top_k h = (case hp_expert_used_count h of Some k \<Rightarrow> unat k | None \<Rightarrow> 2)"

definition demanded_nat :: "arch_hyperparameters \<Rightarrow> nat \<Rightarrow> nat" where
  "demanded_nat h seq =
     2 * unat (hp_vocab_size h) * unat (hp_hidden_size h) + unat (hp_num_layers h) *
      (attn_layer_nat h + 3 * unat (hp_hidden_size h) * unat (hp_intermediate_size h)
       + (case hp_expert_count h of None \<Rightarrow> 0
          | Some n \<Rightarrow> min (seq * top_k h) (unat n) * (3 * unat (hp_hidden_size h) *
              (case hp_expert_ff_length h of Some f \<Rightarrow> unat f | None \<Rightarrow> unat (hp_intermediate_size h)))))"

definition required_nat :: "arch_hyperparameters \<Rightarrow> nat \<Rightarrow> nat \<Rightarrow> nat \<Rightarrow> nat" where
  "required_nat h seq batch bpe =
     demanded_nat h seq * bpe
     + 2 * unat (hp_num_layers h) * batch * seq * unat (hp_num_kv_heads h) * unat (hp_head_dim h) * bpe
     + 2 * batch * seq * unat (hp_hidden_size h) * bpe"

lemma min_product: "unat a * unat b < 2 ^ 64 \<Longrightarrow> min (a * b) (n :: u64) = of_nat (min (unat a * unat b) (unat n))"
proof -
  assume "unat a * unat b < 2 ^ 64"
  then have "unat (a * b) = unat a * unat b" by (simp add: unat_word_ariths)
  then show ?thesis by (simp add: min_def word_le_nat_alt)
qed

lemma total_required_nat:
  assumes "unat seq * top_k h < 2 ^ 64"
  shows "total_required (compute_detailed_memory_bounds h seq batch bpe)
    = of_nat (required_nat h (unat seq) (unat batch) (unat bpe))"
proof -
  have a: "attn_layer_params h = of_nat (attn_layer_nat h)"
    by (simp add: attn_layer_params_def attn_layer_nat_def)
  have "fst (snd (parameter_bytes h seq bpe)) = of_nat (demanded_nat h (unat seq) * unat bpe)"
  proof (cases "hp_expert_count h")
    case None
    then show ?thesis by (simp add: parameter_bytes_def demanded_nat_def a Let_def)
  next
    case (Some n)
    have k: "(case hp_expert_used_count h of Some k \<Rightarrow> k | None \<Rightarrow> 2) = of_nat (top_k h)"
      "unat (of_nat (top_k h) :: u64) = top_k h"
      by (simp_all add: top_k_def split: option.splits)
    have m: "min (seq * of_nat (top_k h)) n = of_nat (min (unat seq * top_k h) (unat n))"
      using min_product [of seq "of_nat (top_k h)" n] assms by (simp add: k(2))
    have f: "(case hp_expert_ff_length h of Some f \<Rightarrow> f | None \<Rightarrow> hp_intermediate_size h)
        = of_nat (case hp_expert_ff_length h of Some f \<Rightarrow> unat f | None \<Rightarrow> unat (hp_intermediate_size h))"
      by (simp split: option.splits)
    show ?thesis
      unfolding parameter_bytes_def demanded_nat_def Some option.case Let_def k(1) m f a by simp
  qed
  then obtain x d y z where p: "parameter_bytes h seq bpe = (x, d, y, z)"
      and "d = of_nat (demanded_nat h (unat seq) * unat bpe)"
    by (cases "parameter_bytes h seq bpe") auto
  then show ?thesis
    by (simp add: total_required_def compute_detailed_memory_bounds_def required_nat_def)
qed

lemma certify_Ok_iff: "(\<exists>c. certify h bv seq batch bpe oracle = Ok c)
    \<longleftrightarrow> total_required (compute_detailed_memory_bounds h seq batch bpe) \<le> combined_usable bv"
  by (simp add: certify_def Let_def)

lemma certify_full: "certify h bv seq batch bpe oracle = Ok c \<Longrightarrow> mc_full_residency c \<longleftrightarrow>
    total_required (compute_detailed_memory_bounds h seq batch bpe) \<le> sat_sub (bv_device_capacity bv) (bv_operator_reserve bv)"
  by (auto simp: certify_def Let_def split: if_splits)

section \<open>Attention layers and arenas\<close>

lemma attention_layers_div: "0 < interval \<Longrightarrow> attention_layers n interval = n div interval"
proof (induction n)
  case 0
  then show ?case by (simp add: attention_layers_def)
next
  case (Suc n)
  then have "attention_layers (Suc n) interval = n div interval + (if Suc n mod interval = 0 then 1 else 0)"
    by (simp add: attention_layers_def)
  then show ?case by (simp add: div_Suc)
qed

lemma saturated_product:
  assumes "A * 2 * b * k < Suc M"
  shows "min (min (min (min A M * 2) M * b) M * k) M = A * 2 * b * (k :: nat)"
proof (cases "k = 0 \<or> b = 0")
  case False
  then have "A * 2 * b * 1 \<le> A * 2 * b * k" "A * 2 * 1 \<le> A * 2 * b" by (intro mult_le_mono2; simp)+
  then have "A * 2 * b \<le> M" "A * 2 \<le> M" "A \<le> M" using assms by linarith+
  then show ?thesis using assms by simp
qed auto

lemma unat_2: "unat (2 :: u64) = 2" "Suc (2 ^ 64 - 1) = 2 ^ 64"
  by simp_all

lemma per_token_exact:
  assumes "unat kv_heads * unat head_dim * 2 * unat bpe * (layers div max interval 1) < 2 ^ 64"
    and "layers < 2 ^ 64"
  shows "unat (kv_bytes_per_token kv_heads head_dim layers interval bpe)
    = unat kv_heads * unat head_dim * 2 * unat bpe * (layers div max interval 1)"
proof -
  have i: "0 < max interval 1" by simp
  have "layers div max interval 1 < 2 ^ 64" using assms(2) by (meson div_le_dividend le_less_trans)
  then have l: "unat (of_nat (layers div max interval 1) :: u64) = layers div max interval 1"
    by (simp add: unat_of_nat)
  show ?thesis
    using saturated_product [of "unat kv_heads * unat head_dim" "unat bpe" "layers div max interval 1" "2 ^ 64 - 1"] assms(1) l
    unfolding kv_bytes_per_token_def attention_layers_div [OF i] unat_sat_mul by (simp only: unat_2)
qed

end
