(* ===== verification/RequestLife.thy ===== *)
theory RequestLife
  imports MemoryBudget PagedCacheLaws Scheduler
begin

text \<open>
  The life of a request in the engine: \<open>grim-engine/src/engine/requests.rs\<close> (enqueue, admission,
  hydration, finish), the prefill pass of \<open>engine/scheduler.rs\<close> (\<open>drive_prefill_inner\<close>) and the two
  look-ups of \<open>engine/telemetry.rs\<close> they use. This is where the scheduler, the block pool with its
  prefix tree and the paged cache of a session meet.

  Outside the model are the forward pass of a network (\<open>su_forward\<close>: it may change the session and
  the pool and says whether it succeeded), the choice of a farm rank, which weighs measured loads
  (\<open>su_place\<close>), the probe of free device memory, the hash of \<open>std\<close> and the environment variables. A node
  with a disaggregation router, and the GPU-only state (graph input buffers, outcomes), are left out.
\<close>

section \<open>State\<close>

datatype device = Cpu | Rocm nat | Vulkan | Cuda nat | Metal nat

datatype placement = Bypass | PinTo nat | WaitVram

record loaded_model =
  lm_device :: device
  lm_hparams :: "arch_hyperparameters option"
  lm_hybrid :: bool

record session =
  ss_device :: device
  ss_cache :: paged_cache
  ss_pos :: nat

text \<open>The maps of the engine; \<open>models\<close>, whose first key is taken, is a list.\<close>

record engine =
  en_pool :: kv_block_pool
  en_sched :: scheduler
  en_models :: "(string \<times> loaded_model) list"
  en_sessions :: "nat \<rightharpoonup> session"
  en_rng :: "nat \<rightharpoonup> u64"
  en_model_ids :: "nat \<rightharpoonup> string"
  en_adapters :: "nat \<rightharpoonup> nat list"
  en_inputs :: "nat \<rightharpoonup> u32 list"
  en_progress :: "nat \<rightharpoonup> nat"
  en_last_token :: "nat \<rightharpoonup> u32"
  en_session_of :: "nat \<rightharpoonup> u64"
  en_radix :: bool
  en_seeded :: "nat \<rightharpoonup> nat"
  en_registered :: "nat \<rightharpoonup> nat"
  en_lookups :: nat
  en_hit_requests :: nat
  en_hit_tokens :: nat
  en_armed :: bool
  en_replicas :: "string \<rightharpoonup> string list"
  en_pins :: "nat \<rightharpoonup> nat"
  en_cooldown :: "(nat \<times> instant) list"
  en_waitlist :: "request list"
  en_kv_heads :: nat
  en_head_dim :: nat

type_synonym forward = "nat \<Rightarrow> string \<Rightarrow> u32 list \<Rightarrow> nat list \<Rightarrow> session \<Rightarrow> kv_block_pool
  \<Rightarrow> (string, unit) outcome \<times> session \<times> kv_block_pool"

record surroundings =
  su_env :: env
  su_hash :: "string \<Rightarrow> string \<Rightarrow> u64"
  su_place :: "engine \<Rightarrow> string \<Rightarrow> request \<Rightarrow> placement"
  su_free :: "device \<Rightarrow> u64 option"
  su_host_gb :: u64
  su_reserve_gb :: u64
  su_pin_secs :: nat
  su_watermark :: "(nat \<times> nat) option"
  su_forward :: forward

section \<open>Looking a model up\<close>

definition first_model :: "engine \<Rightarrow> string option" where
  "first_model en = (case en_models en of [] \<Rightarrow> None | (k, _) # _ \<Rightarrow> Some k)"

definition named_model :: "request \<Rightarrow> string option" where
  "named_model r = (case rq_model r of Some m \<Rightarrow> if m = [] then None else Some m | None \<Rightarrow> None)"

definition base_model :: "engine \<Rightarrow> request \<Rightarrow> string option" where
  "base_model en r = (case named_model r of Some m \<Rightarrow> Some m | None \<Rightarrow> first_model en)"

definition effective_model_id :: "engine \<Rightarrow> nat \<Rightarrow> string \<Rightarrow> string" where
  "effective_model_id en i base =
     (case en_pins en i of
        Some rank \<Rightarrow>
          (case en_replicas en base of
             Some ids \<Rightarrow> if rank < length ids then ids ! rank else base
           | None \<Rightarrow> base)
      | None \<Rightarrow> base)"

definition model_for_request :: "engine \<Rightarrow> nat \<Rightarrow> string option" where
  "model_for_request en i =
     (case en_model_ids en i of
        None \<Rightarrow> None
      | Some m \<Rightarrow>
          (case (if m = [] then first_model en else Some m) of
             None \<Rightarrow> None
           | Some base \<Rightarrow> Some (effective_model_id en i base)))"

definition model_uses_hybrid_kv :: "engine \<Rightarrow> nat \<Rightarrow> bool" where
  "model_uses_hybrid_kv en i =
     (case Option.bind (model_for_request en i) (map_of (en_models en)) of
        Some m \<Rightarrow> lm_hybrid m
      | None \<Rightarrow> True)"

section \<open>Admission\<close>

definition device_or_cpu :: "loaded_model option \<Rightarrow> device" where
  "device_or_cpu m = (case m of Some m \<Rightarrow> lm_device m | None \<Rightarrow> Cpu)"

definition first_loaded :: "engine \<Rightarrow> loaded_model option" where
  "first_loaded en = (case en_models en of [] \<Rightarrow> None | (_, m) # _ \<Rightarrow> Some m)"

definition placed_device :: "engine \<Rightarrow> request \<Rightarrow> nat option \<Rightarrow> device" where
  "placed_device en r pin_rank =
     (if pin_rank \<noteq> None
      then device_or_cpu (Option.bind (base_model en r) (\<lambda>base. map_of (en_models en) (effective_model_id en (rq_id r) base)))
      else (case named_model r of
              Some m \<Rightarrow> device_or_cpu (map_of (en_models en) m)
            | None \<Rightarrow> device_or_cpu (first_loaded en)))"

text \<open>\<open>prompt_tokens.saturating_add(max_new_tokens)\<close>.\<close>

definition target_tokens :: "request \<Rightarrow> nat" where
  "target_tokens r = min (rq_prompt r + rq_max_new r) usize_max"

definition GIB :: u64 where
  "GIB = 1024 * 1024 * 1024"

text \<open>The certificate gate: passed when the model has no hyperparameters or the device has no probe.\<close>

definition passes_envelope :: "surroundings \<Rightarrow> engine \<Rightarrow> request \<Rightarrow> device \<Rightarrow> bool" where
  "passes_envelope su en r dev =
     (case (case Option.bind (named_model r) (map_of (en_models en)) of Some m \<Rightarrow> Some m | None \<Rightarrow> first_loaded en) of
        None \<Rightarrow> True
      | Some m \<Rightarrow>
          (case (lm_hparams m, su_free su dev) of
             (Some h, Some free) \<Rightarrow>
               (case certify h (standard_boundary (su_host_gb su * GIB) free (su_reserve_gb su * GIB))
                       (of_nat (target_tokens r)) 1 2 [] of
                  Err _ \<Rightarrow> False
                | _ \<Rightarrow> True)
           | _ \<Rightarrow> True))"

definition needed_blocks :: "request \<Rightarrow> nat" where
  "needed_blocks r = div_ceil (target_tokens r) BLOCK_SIZE"

text \<open>When the pool is short, the oldest pins go.\<close>

definition make_room :: "instant \<Rightarrow> nat \<Rightarrow> kv_block_pool \<Rightarrow> kv_block_pool" where
  "make_room now needed p =
     (case kp_allocatable_blocks now p of
        (n, p1) \<Rightarrow> if n < needed then snd (kp_drop_oldest_pins now p1 (needed - n)) else p1)"

definition rng_seed :: "nat \<Rightarrow> u64" where
  "rng_seed i = of_nat i * 0x9E3779B97F4A7C15"

definition open_session :: "engine \<Rightarrow> device \<Rightarrow> session" where
  "open_session en dev = \<lparr>ss_device = dev,
     ss_cache = pc_new (en_pool en) (en_kv_heads en) (en_head_dim en) BLOCK_SIZE, ss_pos = 0\<rparr>"

definition admit_placed_request :: "surroundings \<Rightarrow> request \<Rightarrow> nat option \<Rightarrow> engine \<Rightarrow> (string, unit) outcome \<times> engine" where
  "admit_placed_request su r pin_rank en =
     (let dev = placed_device en r pin_rank in
      if \<not> passes_envelope su en r dev then (Err ''request exceeds current memory envelope'', en)
      else (let i = rq_id r;
                en1 = en\<lparr>en_pool := make_room (env_now (su_env su)) (needed_blocks r) (en_pool en)\<rparr>
            in (Ok (), en1\<lparr>
                 en_sessions := (en_sessions en1)(i \<mapsto> open_session en1 dev),
                 en_model_ids := (en_model_ids en1)(i \<mapsto> (case rq_model r of Some m \<Rightarrow> m | None \<Rightarrow> [])),
                 en_adapters := (en_adapters en1)(i \<mapsto> rq_adapters r),
                 en_inputs := (case rq_input_ids r of Some v \<Rightarrow> (en_inputs en1)(i \<mapsto> v) | None \<Rightarrow> en_inputs en1),
                 en_rng := (en_rng en1)(i \<mapsto> rng_seed i),
                 en_sched := enqueue r (en_sched en1)\<rparr>)))"

definition note_session :: "surroundings \<Rightarrow> request \<Rightarrow> engine \<Rightarrow> engine" where
  "note_session su r en =
     (case rq_session r of
        Some s \<Rightarrow> en\<lparr>en_session_of := (en_session_of en)(rq_id r \<mapsto>
          su_hash su (case rq_model r of Some m \<Rightarrow> m | None \<Rightarrow> []) s)\<rparr>
      | None \<Rightarrow> en)"

text \<open>The farm's word on a request; a model that is no farm is passed by.\<close>

definition farm_decision :: "surroundings \<Rightarrow> request \<Rightarrow> engine \<Rightarrow> placement" where
  "farm_decision su r en =
     (case base_model en r of
        Some base \<Rightarrow> if en_armed en \<and> en_replicas en base \<noteq> None then su_place su en base r else Bypass
      | None \<Rightarrow> Bypass)"

definition enqueue_request_with_kv :: "surroundings \<Rightarrow> request \<Rightarrow> engine \<Rightarrow> (string, unit) outcome \<times> engine" where
  "enqueue_request_with_kv su r en =
     (let en1 = note_session su r en in
      case farm_decision su r en1 of
        PinTo rank \<Rightarrow> admit_placed_request su r (Some rank) (en1\<lparr>en_pins := (en_pins en1)(rq_id r \<mapsto> rank)\<rparr>)
      | WaitVram \<Rightarrow> (Ok (), en1\<lparr>en_waitlist := en_waitlist en1 @ [r]\<rparr>)
      | Bypass \<Rightarrow> admit_placed_request su r None en1)"

text \<open>Every parked request is asked again, in order; a refusal is only logged.\<close>

fun retry_pending :: "surroundings \<Rightarrow> request list \<Rightarrow> engine \<Rightarrow> engine" where
  "retry_pending su [] en = en"
| "retry_pending su (r # rs) en = retry_pending su rs
     (case farm_decision su r en of
        PinTo rank \<Rightarrow> snd (admit_placed_request su r (Some rank) (en\<lparr>en_pins := (en_pins en)(rq_id r \<mapsto> rank)\<rparr>))
      | Bypass \<Rightarrow> snd (admit_placed_request su r None en)
      | WaitVram \<Rightarrow> en\<lparr>en_waitlist := en_waitlist en @ [r]\<rparr>)"

definition retry_scythe_vram_waitlist :: "surroundings \<Rightarrow> engine \<Rightarrow> engine" where
  "retry_scythe_vram_waitlist su en =
     (if en_waitlist en = [] then en else retry_pending su (en_waitlist en) (en\<lparr>en_waitlist := []\<rparr>))"

section \<open>Received blocks\<close>

text \<open>The layers a received block has in the pool, keys and values, up to the first missing one.\<close>

definition stored_layers :: "kv_block_pool \<Rightarrow> nat \<Rightarrow> nat list" where
  "stored_layers p b = takeWhile (\<lambda>l. read_layer_keys p b l \<noteq> None \<and> read_layer_values p b l \<noteq> None)
     [0..<Suc (length (kb_layer_keys (blk p b)))]"

definition hydrate_layer :: "kv_block_pool \<Rightarrow> nat \<times> nat \<Rightarrow> paged_cache \<Rightarrow> paged_cache" where
  "hydrate_layer p bl c = (case bl of (b, l) \<Rightarrow>
     write_layer_block l b (the (read_layer_keys p b l)) (the (read_layer_values p b l)) c)"

definition received_payload :: "kv_block_pool \<Rightarrow> (nat \<times> nat) list" where
  "received_payload p = concat (map (\<lambda>b. map (Pair b) (stored_layers p b)) (filter (block_is_received p) [0..<cap p]))"

definition hydrate_session_from_pool :: "nat \<Rightarrow> engine \<Rightarrow> engine" where
  "hydrate_session_from_pool i en =
     (case en_sessions en i of
        None \<Rightarrow> en
      | Some ss \<Rightarrow> en\<lparr>en_sessions := (en_sessions en)(i \<mapsto>
          ss\<lparr>ss_cache := fold (hydrate_layer (en_pool en)) (received_payload (en_pool en)) (ss_cache ss)\<rparr>)\<rparr>)"

section \<open>Finishing\<close>

definition block_ids :: "session option \<Rightarrow> nat list" where
  "block_ids s = (case Option.bind s (\<lambda>ss. pc_block_table (ss_cache ss)) of Some t \<Rightarrow> map unat t | None \<Rightarrow> [])"

text \<open>Forget the request in every map.\<close>

definition forget_request :: "instant \<Rightarrow> nat \<Rightarrow> engine \<Rightarrow> engine" where
  "forget_request now i en = en\<lparr>
     en_seeded := (en_seeded en)(i := None), en_registered := (en_registered en)(i := None),
     en_sessions := (en_sessions en)(i := None), en_rng := (en_rng en)(i := None),
     en_model_ids := (en_model_ids en)(i := None), en_adapters := (en_adapters en)(i := None),
     en_inputs := (en_inputs en)(i := None), en_progress := (en_progress en)(i := None),
     en_session_of := (en_session_of en)(i := None), en_last_token := (en_last_token en)(i := None),
     en_pins := (en_pins en)(i := None),
     en_cooldown := (case en_pins en i of Some rank \<Rightarrow> en_cooldown en @ [(rank, now)] | None \<Rightarrow> en_cooldown en),
     en_waitlist := filter (\<lambda>r. rq_id r \<noteq> i) (en_waitlist en)\<rparr>"

text \<open>The claims on the prefix tree go first, then the blocks; the result of the rollback is dropped.\<close>

definition drop_claims :: "nat \<Rightarrow> engine \<Rightarrow> kv_block_pool" where
  "drop_claims i en =
     (if en_radix en \<and> (en_seeded en i \<noteq> None \<or> en_registered en i \<noteq> None)
      then remove_prefix (en_pool en) (block_ids (en_sessions en i)) else en_pool en)"

definition finish_request :: "env \<Rightarrow> nat \<Rightarrow> engine \<Rightarrow> (string, unit) outcome \<times> engine" where
  "finish_request e i en =
     (let en1 = en\<lparr>en_sched := finish i (en_sched en), en_pool := drop_claims i en\<rparr> in
      case en_sessions en1 i of
        None \<Rightarrow> (Ok (), forget_request (env_now e) i en1)
      | Some ss \<Rightarrow>
          (case rollback_to e 0 (ss_cache ss) (en_pool en1) of
             (Panic, _, p) \<Rightarrow> (Panic, en1\<lparr>en_pool := p\<rparr>)
           | (Hang, _, p) \<Rightarrow> (Hang, en1\<lparr>en_pool := p\<rparr>)
           | (_, _, p) \<Rightarrow> (Ok (), forget_request (env_now e) i (en1\<lparr>en_pool := p\<rparr>))))"

section \<open>The prefill pass\<close>

text \<open>The running copies of a request: the prompt of the last one, the largest consumed count.\<close>

definition prefill_bounds :: "nat \<Rightarrow> scheduler \<Rightarrow> (nat \<times> nat) option" where
  "prefill_bounds i s =
     (case filter (\<lambda>r. rq_id r = i) (sc_running s) of
        [] \<Rightarrow> None
      | rs \<Rightarrow> Some (rq_prompt (last rs), Max (set (map rq_consumed rs))))"

text \<open>The given ids when they fit the prompt, else positions; the bound of the range is cut to 32 bits.\<close>

definition real_ids :: "engine \<Rightarrow> nat \<Rightarrow> nat \<Rightarrow> u32 list option" where
  "real_ids en i prompt =
     (case en_inputs en i of
        Some v \<Rightarrow> if v \<noteq> [] \<and> length v = prompt then Some v else None
      | None \<Rightarrow> None)"

definition full_input :: "engine \<Rightarrow> nat \<Rightarrow> nat \<Rightarrow> u32 list" where
  "full_input en i prompt =
     (case real_ids en i prompt of Some v \<Rightarrow> v | None \<Rightarrow> map of_nat [0..<prompt mod 2 ^ 32])"

text \<open>What of a match may be reused: whole blocks, and never the last token.\<close>

definition skippable :: "nat \<Rightarrow> u32 list \<Rightarrow> nat" where
  "skippable matched full = (let raw = min matched (length full - 1) in raw - raw mod BLOCK_SIZE)"

definition with_pool :: "'a pool_result \<Rightarrow> engine \<Rightarrow> ('a \<Rightarrow> engine \<Rightarrow> (string, 'b) outcome \<times> engine)
    \<Rightarrow> (string, 'b) outcome \<times> engine" where
  "with_pool r en k =
     (case r of
        (Ok x, p) \<Rightarrow> k x (en\<lparr>en_pool := p\<rparr>)
      | (Err _, p) \<Rightarrow> (Err ''kv cache'', en\<lparr>en_pool := p\<rparr>)
      | (Panic, p) \<Rightarrow> (Panic, en\<lparr>en_pool := p\<rparr>)
      | (Hang, p) \<Rightarrow> (Hang, en\<lparr>en_pool := p\<rparr>))"

text \<open>Seeding the session with the claimed blocks and moving the cursor.\<close>

definition seed_request :: "nat \<Rightarrow> nat \<Rightarrow> nat list \<Rightarrow> engine \<Rightarrow> (string, nat) outcome \<times> engine" where
  "seed_request i skip blocks en =
     (case en_sessions en i of
        None \<Rightarrow> (Ok 0, en)
      | Some ss \<Rightarrow>
          (case seed_prefix blocks (ss_cache ss) (en_pool en) of
             (c, p) \<Rightarrow> (Ok skip, en\<lparr>en_pool := p,
                en_sessions := (en_sessions en)(i \<mapsto> ss\<lparr>ss_cache := c, ss_pos := ss_pos ss + skip\<rparr>),
                en_progress := (en_progress en)(i \<mapsto> skip),
                en_seeded := (en_seeded en)(i \<mapsto> length blocks),
                en_hit_requests := en_hit_requests en + 1, en_hit_tokens := en_hit_tokens en + skip\<rparr>)))"

definition claim_prefix :: "surroundings \<Rightarrow> nat \<Rightarrow> u32 list \<Rightarrow> engine \<Rightarrow> (string, nat) outcome \<times> engine" where
  "claim_prefix su i full en =
     with_pool (match_prefix_promoting (su_env su) (en_pool en) full) en (\<lambda>(blocks, matched, promoted) en1.
       (let en2 = en1\<lparr>en_lookups := en_lookups en1 + 1\<rparr>; skip = skippable matched full in
        if BLOCK_SIZE \<le> skip \<and> \<not> model_uses_hybrid_kv en2 i then
          (if length blocks < skip div BLOCK_SIZE then (Panic, en2)
           else with_pool (insert_prefix (env_now (su_env su)) (en_pool en2) (take skip full) (take (skip div BLOCK_SIZE) blocks)) en2
             (\<lambda>_ en3. seed_request i skip (take (skip div BLOCK_SIZE) blocks) en3))
        else (Ok 0, en2)))"

definition drive_forward :: "surroundings \<Rightarrow> string \<Rightarrow> nat \<Rightarrow> u32 list \<Rightarrow> nat list \<Rightarrow> engine \<Rightarrow> (string, unit) outcome \<times> engine" where
  "drive_forward su model i ids positions en =
     (let m = effective_model_id en i model in
      case map_of (en_models en) m of
        None \<Rightarrow> (Err ''unknown model'', en)
      | Some _ \<Rightarrow>
          (case en_sessions en i of
             None \<Rightarrow> (Err ''no session for request'', en)
           | Some ss \<Rightarrow>
               (case su_forward su i m ids positions ss (en_pool en) of
                  (r, ss', p) \<Rightarrow> (r, en\<lparr>en_sessions := (en_sessions en)(i \<mapsto> ss'), en_pool := p\<rparr>))))"

text \<open>Register the blocks past the seeded and the registered ones.\<close>

definition count_of :: "(nat \<rightharpoonup> nat) \<Rightarrow> nat \<Rightarrow> nat" where
  "count_of m i = (case m i of Some n \<Rightarrow> n | None \<Rightarrow> 0)"

definition register_blocks :: "surroundings \<Rightarrow> nat \<Rightarrow> u32 list \<Rightarrow> engine \<Rightarrow> (string, unit) outcome \<times> engine" where
  "register_blocks su i full en =
     (let skip_blocks = count_of (en_seeded en) i + count_of (en_registered en) i;
          blocks = block_ids (en_sessions en i) in
      if en_radix en \<and> full \<noteq> [] \<and> skip_blocks < length blocks then
        with_pool (insert_prefix_with_recurrent_state_at (env_now (su_env su)) (en_pool en) full blocks [] skip_blocks) en
          (\<lambda>_ en1. (Ok (), en1\<lparr>en_registered := (en_registered en1)(i \<mapsto> skip_blocks + (length blocks - skip_blocks))\<rparr>))
      else (Ok (), en))"

text \<open>Beyond the watermark every block but the tail is demoted; the answers are ignored.\<close>

fun demote_blocks :: "env \<Rightarrow> nat list \<Rightarrow> kv_block_pool \<Rightarrow> unit pool_result" where
  "demote_blocks e [] p = (Ok (), p)"
| "demote_blocks e (b # bs) p = and_then (demote_prefix_block e p b) (\<lambda>_ p1. demote_blocks e bs p1)"

definition apply_watermark :: "surroundings \<Rightarrow> nat \<Rightarrow> engine \<Rightarrow> (string, unit) outcome \<times> engine" where
  "apply_watermark su i en =
     (case su_watermark su of
        None \<Rightarrow> (Ok (), en)
      | Some (watermark, keep_tail) \<Rightarrow>
          (let blocks = block_ids (en_sessions en i) in
           if watermark < length blocks \<and> kp_spill (en_pool en) \<noteq> None
           then with_pool (demote_blocks (su_env su) (take (length blocks - keep_tail) blocks) (en_pool en)) en (\<lambda>_ en1. (Ok (), en1))
           else (Ok (), en)))"

definition pin_session_blocks :: "surroundings \<Rightarrow> nat \<Rightarrow> engine \<Rightarrow> engine" where
  "pin_session_blocks su i en =
     (let blocks = block_ids (en_sessions en i) in
      if en_session_of en i \<noteq> None \<and> blocks \<noteq> []
      then en\<lparr>en_pool := kp_pin_blocks (env_now (su_env su)) (en_pool en) blocks (su_pin_secs su)\<rparr> else en)"

text \<open>The chunk \<open>[already, target)\<close>: forward, then progress, registration, watermark, pins.\<close>

definition prefill_chunk :: "surroundings \<Rightarrow> nat \<Rightarrow> u32 list \<Rightarrow> nat \<Rightarrow> nat \<Rightarrow> engine \<Rightarrow> (string, nat) outcome \<times> engine" where
  "prefill_chunk su i full already target en =
     (if length full < target then (Panic, en)
      else (case model_for_request en i of
              None \<Rightarrow> (Ok 0, en)
            | Some model \<Rightarrow>
                and_then (drive_forward su model i (drop already (take target full)) [already..<target] en) (\<lambda>_ en1.
                  and_then (register_blocks su i full (en1\<lparr>en_progress := (en_progress en1)(i \<mapsto> target)\<rparr>)) (\<lambda>_ en2.
                    and_then (apply_watermark su i en2) (\<lambda>_ en3.
                      (Ok (target - already), pin_session_blocks su i en3))))))"

definition drive_prefill_inner :: "surroundings \<Rightarrow> nat \<Rightarrow> engine \<Rightarrow> (string, nat) outcome \<times> engine" where
  "drive_prefill_inner su i en =
     (case prefill_bounds i (en_sched en) of
        None \<Rightarrow> (Ok 0, en)
      | Some (prompt, consumed) \<Rightarrow>
          if prompt = 0 then (Ok 0, en)
          else (let already0 = count_of (en_progress en) i;
                    target = min consumed prompt;
                    full = full_input en i prompt
                in and_then (if en_radix en \<and> already0 = 0 \<and> real_ids en i prompt \<noteq> None \<and> full \<noteq> []
                             then claim_prefix su i full en else (Ok already0, en))
                  (\<lambda>already en1. if target \<le> already then (Ok 0, en1) else prefill_chunk su i full already target en1)))"

end
