(* ===== verification/RequestLaws.thy ===== *)
theory RequestLaws
  imports RequestLife ClaimLaws
begin

text \<open>
  Laws of the request life cycle: who holds which block, what admission and finishing do to the
  pool, what claiming a prefix does to tree, pool and session.
\<close>

section \<open>The blocks sessions hold\<close>

definition entries :: "session option \<Rightarrow> nat \<Rightarrow> nat" where
  "entries s b = (case s of None \<Rightarrow> 0 | Some ss \<Rightarrow> count_list (pc_table (ss_cache ss)) b)"

definition held :: "(nat \<rightharpoonup> session) \<Rightarrow> nat \<Rightarrow> nat" where
  "held f b = (\<Sum>i \<in> dom f. entries (f i) b)"

text \<open>
  \<open>backed\<close>: however many sessions name a block, the pool counts at least as many references of it;
  the table the kernels read agrees with the table, and cached content is never on the free list.
\<close>

definition backed :: "engine \<Rightarrow> bool" where
  "backed en \<longleftrightarrow> finite (dom (en_sessions en)) \<and> pool_inv (en_pool en) \<and> cache_kept (en_pool en)
     \<and> (\<forall>ss \<in> ran (en_sessions en). pc_block_table_u32 (ss_cache ss) = map word_of_nat (pc_table (ss_cache ss)))
     \<and> (\<forall>b. held (en_sessions en) b \<le> kp_block_ref_count (en_pool en) b)"

lemma held_insert: "finite (dom f) \<Longrightarrow> held (f(i \<mapsto> ss)) b + entries (f i) b = held f b + entries (Some ss) b"
proof -
  assume f: "finite (dom f)"
  have "(\<Sum>j \<in> dom f - {i}. entries ((f(i \<mapsto> ss)) j) b) = (\<Sum>j \<in> dom f - {i}. entries (f j) b)"
    by (rule sum.cong) auto
  moreover have "held f b = entries (f i) b + (\<Sum>j \<in> dom f - {i}. entries (f j) b)"
    using f by (cases "i \<in> dom f") (simp_all add: held_def sum.remove entries_def domIff)
  moreover have "held (f(i \<mapsto> ss)) b = entries (Some ss) b + (\<Sum>j \<in> dom f - {i}. entries ((f(i \<mapsto> ss)) j) b)"
    using f by (simp add: held_def sum.insert_remove)
  ultimately show ?thesis by simp
qed

lemma held_delete: "finite (dom f) \<Longrightarrow> held (f(i := None)) b + entries (f i) b = held f b"
proof -
  assume f: "finite (dom f)"
  have "(\<Sum>j \<in> dom f - {i}. entries ((f(i := None)) j) b) = (\<Sum>j \<in> dom f - {i}. entries (f j) b)"
    by (rule sum.cong) auto
  then show ?thesis
    using f by (cases "i \<in> dom f") (simp_all add: held_def sum.remove entries_def domIff)
qed

lemma backed_own:
  assumes "backed en" and "en_sessions en i = Some ss"
  shows "own (ss_cache ss) (en_pool en)"
proof -
  have "entries (en_sessions en i) b \<le> held (en_sessions en) b" for b
    unfolding held_def by (rule member_le_sum) (use assms in \<open>auto simp: backed_def\<close>)
  then have "count_list (pc_table (ss_cache ss)) b \<le> kp_block_ref_count (en_pool en) b" for b
    using assms by (fastforce simp: backed_def entries_def intro: order_trans)
  moreover have "ss \<in> ran (en_sessions en)" using assms(2) by (auto simp: ran_def)
  ultimately show ?thesis using assms(1) by (simp add: own_def backed_def)
qed

section \<open>The pool under admission and finishing\<close>

lemma make_room_pool:
  assumes "pool_inv p"
  shows "pool_inv (make_room now n p)" and "kp_free_list (make_room now n p) = kp_free_list p"
    and "kp_ref_counts (make_room now n p) = kp_ref_counts p" and "cap (make_room now n p) = cap p"
    and "rt_block_to_node (kp_tree (make_room now n p)) = rt_block_to_node (kp_tree p)"
proof -
  obtain m q where a: "kp_allocatable_blocks now p = (m, q)" by (cases "kp_allocatable_blocks now p")
  then have q: "q = p\<lparr>kp_tree := rt_sweep_expired_pins now (kp_tree p)\<rparr>" by (auto simp: kp_allocatable_blocks_def Let_def)
  have iq: "pool_inv q" unfolding q by (rule pool_inv_tree_shape [OF assms]) simp
  have s: "shape (rt_sweep_expired_pins now (kp_tree p)) = shape (kp_tree p)" by simp
  have d: "snd (kp_drop_oldest_pins now q k) = q\<lparr>kp_tree := snd (rt_drop_oldest_pins now (kp_tree q) k)\<rparr>" for k
    by (simp add: kp_drop_oldest_pins_def split: prod.splits)
  have s2: "shape (snd (rt_drop_oldest_pins now (kp_tree q) k)) = shape (kp_tree p)" for k
    using s by (simp add: q)
  show "pool_inv (make_room now n p)"
    using pool_inv_drop_oldest [OF iq] iq by (simp add: make_room_def a)
  show "kp_free_list (make_room now n p) = kp_free_list p" "kp_ref_counts (make_room now n p) = kp_ref_counts p"
    "cap (make_room now n p) = cap p"
    by (simp_all add: make_room_def a d) (simp_all add: q)
  show "rt_block_to_node (kp_tree (make_room now n p)) = rt_block_to_node (kp_tree p)"
    using shape_nth(4) [OF s2] shape_nth(4) [OF s] by (simp add: make_room_def a d) (simp add: q)
qed

lemma free_of_tree: "pool_inv p \<Longrightarrow> kp_tree (free_of e p i) = kp_tree p"
  using kp_free_spec [of p e i] by auto

lemma release_all_kept:
  "pool_inv p \<Longrightarrow> kp_tree (foldl (free_of e) p bs) = kp_tree p
    \<and> (cache_kept p \<longrightarrow> cache_kept (foldl (free_of e) p bs))"
proof (induction bs arbitrary: p)
  case (Cons b bs)
  have inv: "pool_inv (free_of e p b)" by (rule pool_store.release_inv [OF Cons.prems])
  show ?case
    using Cons.IH [OF inv] free_of_tree [OF Cons.prems] kp_free_cache_kept [OF Cons.prems] by simp
qed simp

text \<open>Rolling back to nothing releases the whole table and leaves the tree alone.\<close>

lemma rollback_all:
  assumes o: "own c p"
  shows "\<exists>c' p'. rollback_to e 0 c p = (Ok (), c', p') \<and> pool_inv p' \<and> kp_tree p' = kp_tree p \<and> cap p' = cap p
    \<and> (cache_kept p \<longrightarrow> cache_kept p')
    \<and> (\<forall>b. kp_block_ref_count p' b = kp_block_ref_count p b - count_list (pc_table c) b)"
proof -
  have inv: "pool_inv p" and bt: "length (pc_block_table_u32 c) = length (pc_table c)" using o by (auto simp: own_def)
  let ?p = "foldl (free_of e) p (rev (pc_table c))"
  have run: "\<exists>c'. rollback_to e 0 c p = (Ok (), c', ?p)"
    using release_tail_eq [OF inv, of "length (pc_table c)" "c\<lparr>pc_committed := 0, pc_tentative := 0\<rparr>" e] bt
    by (simp add: rollback_to_def trim_table_def)
  have rel: "pool_inv ?p \<and> cap ?p = cap p \<and> kp_block_ref_count ?p b = kp_block_ref_count p b - count_list (pc_table c) b" for b
    using pool_store.release_all [OF inv, of e "rev (pc_table c)" b] by simp
  then show ?thesis using run release_all_kept [OF inv, of e "rev (pc_table c)"] by auto
qed

lemma drop_claims_pool:
  assumes "pool_inv (en_pool en)"
  shows "pool_inv (drop_claims i en)" and "kp_free_list (drop_claims i en) = kp_free_list (en_pool en)"
    and "kp_block_ref_count (drop_claims i en) b = kp_block_ref_count (en_pool en) b"
    and "rt_block_to_node (kp_tree (drop_claims i en)) = rt_block_to_node (kp_tree (en_pool en))"
    and "cap (drop_claims i en) = cap (en_pool en)"
proof -
  show "pool_inv (drop_claims i en)" using pool_inv_remove_prefix [OF assms] assms by (simp add: drop_claims_def)
  have s: "shape (rt_remove (kp_tree (en_pool en)) bs) = shape (kp_tree (en_pool en))" for bs by simp
  show "rt_block_to_node (kp_tree (drop_claims i en)) = rt_block_to_node (kp_tree (en_pool en))"
    using shape_nth(4) [OF s] by (simp add: drop_claims_def remove_prefix_def)
qed (simp_all add: drop_claims_def remove_prefix_def kp_block_ref_count_def)

text \<open>What finishing does.\<close>

lemma finish_spec:
  assumes o: "own (ss_cache ss) (en_pool en)" and s: "en_sessions en i = Some ss"
  shows "\<exists>p. finish_request e i en
      = (Ok (), forget_request (env_now e) i (en\<lparr>en_sched := finish i (en_sched en), en_pool := p\<rparr>))
    \<and> pool_inv p \<and> kp_tree p = kp_tree (drop_claims i en) \<and> cap p = cap (en_pool en)
    \<and> (cache_kept (en_pool en) \<longrightarrow> cache_kept p)
    \<and> (\<forall>b. kp_block_ref_count p b = kp_block_ref_count (en_pool en) b - count_list (pc_table (ss_cache ss)) b)"
proof -
  let ?q = "drop_claims i en"
  note dc = drop_claims_pool [OF o [unfolded own_def, THEN conjunct1], of i]
  have "own (ss_cache ss) ?q" using o dc(1,3) by (simp add: own_def)
  then obtain c' p' where p': "rollback_to e 0 (ss_cache ss) ?q = (Ok (), c', p')" "pool_inv p'"
      "kp_tree p' = kp_tree ?q" "cap p' = cap ?q" "cache_kept ?q \<longrightarrow> cache_kept p'"
      "\<forall>b. kp_block_ref_count p' b = kp_block_ref_count ?q b - count_list (pc_table (ss_cache ss)) b"
    using rollback_all by blast
  have "finish_request e i en
      = (Ok (), forget_request (env_now e) i (en\<lparr>en_sched := finish i (en_sched en), en_pool := p'\<rparr>))"
    using s p'(1) by (simp add: finish_request_def Let_def)
  moreover have "cache_kept (en_pool en) \<longrightarrow> cache_kept ?q" using dc(2,4) by (simp add: cache_kept_def)
  ultimately show ?thesis using p' dc(3,5) by auto
qed

section \<open>Every operation keeps the blocks backed\<close>

lemma backed_sessions:
  assumes "backed en" and "en_sessions en' = en_sessions en" and "pool_inv (en_pool en')" and "cache_kept (en_pool en')"
    and "\<And>b. kp_block_ref_count (en_pool en') b = kp_block_ref_count (en_pool en) b"
  shows "backed en'"
  using assms by (simp add: backed_def)

lemma backed_admit:
  assumes "backed en"
  shows "backed (snd (admit_placed_request su r pin en))"
proof (cases "passes_envelope su en r (placed_device en r pin)")
  case True
  let ?p = "make_room (env_now (su_env su)) (needed_blocks r) (en_pool en)"
  let ?en = "en\<lparr>en_pool := ?p\<rparr>"
  let ?ss = "open_session ?en (placed_device en r pin)"
  have inv: "pool_inv (en_pool en)" using assms by (simp add: backed_def)
  note mr = make_room_pool [OF inv, of "env_now (su_env su)" "needed_blocks r"]
  have e: "backed ?en"
    by (rule backed_sessions [OF assms])
      (use mr assms in \<open>simp_all add: kp_block_ref_count_def cache_kept_def backed_def\<close>)
  have z: "entries (Some ?ss) b = 0" for b by (simp add: entries_def open_session_def pc_new_def)
  have "held ((en_sessions en)(rq_id r \<mapsto> ?ss)) b \<le> kp_block_ref_count ?p b" for b
  proof -
    have "held ((en_sessions en)(rq_id r \<mapsto> ?ss)) b + entries (en_sessions en (rq_id r)) b = held (en_sessions en) b + 0"
      using held_insert [of "en_sessions en" "rq_id r" ?ss b] assms unfolding z backed_def by blast
    moreover have "held (en_sessions en) b \<le> kp_block_ref_count ?p b" using e unfolding backed_def by simp
    ultimately show ?thesis by linarith
  qed
  moreover have "pc_block_table_u32 (ss_cache ?ss) = map word_of_nat (pc_table (ss_cache ?ss))"
    by (simp add: open_session_def pc_new_def)
  ultimately show ?thesis
    using e True unfolding admit_placed_request_def Let_def
    by (auto simp: backed_def ran_def)
qed (simp add: admit_placed_request_def Let_def assms)

lemma backed_cong: "en_sessions en' = en_sessions en \<Longrightarrow> en_pool en' = en_pool en \<Longrightarrow> backed en' = backed en"
  by (simp add: backed_def)

lemma backed_enqueue: "backed en \<Longrightarrow> backed (snd (enqueue_request_with_kv su r en))"
proof -
  assume b: "backed en"
  let ?en = "note_session su r en"
  have n: "backed ?en" using b by (simp add: note_session_def backed_def split: option.splits)
  have p: "backed (?en\<lparr>en_pins := x\<rparr>)" "backed (?en\<lparr>en_waitlist := w\<rparr>)" for x w
    using n by (simp_all add: backed_def)
  show ?thesis using backed_admit [OF n] backed_admit [OF p(1)] p(2)
    by (simp add: enqueue_request_with_kv_def Let_def split: placement.splits)
qed

lemma backed_retry_pending: "backed en \<Longrightarrow> backed (retry_pending su rs en)"
proof (induction rs arbitrary: en)
  case (Cons r rs)
  have p: "backed (en\<lparr>en_pins := x\<rparr>)" "backed (en\<lparr>en_waitlist := w\<rparr>)" for x w
    using Cons.prems by (simp_all add: backed_def)
  show ?case using Cons.IH backed_admit [OF Cons.prems] backed_admit [OF p(1)] p(2)
    by (simp split: placement.splits)
qed simp

lemma backed_retry: "backed en \<Longrightarrow> backed (retry_scythe_vram_waitlist su en)"
  using backed_retry_pending [of "en\<lparr>en_waitlist := []\<rparr>" su "en_waitlist en"]
  by (simp add: retry_scythe_vram_waitlist_def backed_def)

lemma backed_finish:
  assumes b: "backed en"
  shows "backed (snd (finish_request e i en))"
proof (cases "en_sessions en i")
  case None
  have inv: "pool_inv (en_pool en)" using b by (simp add: backed_def)
  note dc = drop_claims_pool [OF inv, of i]
  have "(en_sessions en)(i := None) = en_sessions en" using None by (simp add: fun_upd_idem)
  then show ?thesis using None b dc
    by (simp add: finish_request_def forget_request_def Let_def backed_def cache_kept_def)
next
  case (Some ss)
  obtain p where p: "finish_request e i en
      = (Ok (), forget_request (env_now e) i (en\<lparr>en_sched := finish i (en_sched en), en_pool := p\<rparr>))"
      "pool_inv p" "cache_kept (en_pool en) \<longrightarrow> cache_kept p"
      "\<forall>b. kp_block_ref_count p b = kp_block_ref_count (en_pool en) b - count_list (pc_table (ss_cache ss)) b"
    using finish_spec [OF backed_own [OF b Some] Some] by blast
  have "held ((en_sessions en)(i := None)) x \<le> kp_block_ref_count p x" for x
  proof -
    have "held ((en_sessions en)(i := None)) x + count_list (pc_table (ss_cache ss)) x = held (en_sessions en) x"
      using held_delete [of "en_sessions en" i x] b Some by (simp add: backed_def entries_def)
    moreover have "held (en_sessions en) x \<le> kp_block_ref_count (en_pool en) x" using b by (simp add: backed_def)
    ultimately show ?thesis using p(4) by (simp add: le_diff_conv2)
  qed
  moreover have "ran ((en_sessions en)(i := None)) \<subseteq> ran (en_sessions en)" by (auto simp: ran_def)
  ultimately show ?thesis using p b unfolding backed_def by (auto simp: forget_request_def)
qed

section \<open>Claiming a cached prefix\<close>

lemma promote_loop_kept:
  "pool_inv p \<Longrightarrow> promote_loop e bids b p = (r, p') \<Longrightarrow> pool_inv p' \<and> cap p' = cap p
    \<and> kp_ref_counts p' = kp_ref_counts p \<and> kp_free_list p' = kp_free_list p \<and> kp_tree p' = kp_tree p"
proof (induction bids arbitrary: b p)
  case (Cons x bids)
  obtain r1 p1 where run: "promote_to_gpu e p x = (r1, p1)" by fastforce
  then have p1: "pool_inv p1" "cap p1 = cap p" "kp_ref_counts p1 = kp_ref_counts p" "kp_free_list p1 = kp_free_list p"
      "kp_tree p1 = kp_tree p"
    using promote_inv [OF Cons.prems(1), of e x] by simp_all
  show ?case using Cons.IH [OF p1(1)] Cons.IH [OF Cons.prems(1)] Cons.prems run p1
    by (auto split: if_splits outcome.splits option.splits)
qed auto

lemma block_key_take:
  "offset + bs \<le> m \<Longrightarrow> m \<le> length tokens \<Longrightarrow> block_key (take m tokens) offset bs = block_key tokens offset bs"
  by (simp add: block_key_def Let_def take_drop min_def add.commute)

text \<open>The descent along tokens that the tree has is the path.\<close>

lemma descent_path:
  assumes "0 < rt_block_size t" and "m \<le> length tokens"
  shows "k \<le> length (path_nodes t tokens node offset) \<Longrightarrow> offset + k * rt_block_size t \<le> m \<Longrightarrow> length blocks = k
    \<Longrightarrow> descent t (take m tokens) blocks node offset = take k (path_nodes t tokens node offset)"
proof (induction k arbitrary: node offset blocks)
  case (Suc k)
  let ?bs = "rt_block_size t"
  obtain b bs where blocks: "blocks = b # bs" "length bs = k" using Suc.prems(3) by (cases blocks) auto
  have o: "offset + ?bs \<le> m" using Suc.prems(2) by simp
  then have guard: "0 < ?bs \<and> offset + ?bs \<le> length tokens" using assms by simp
  obtain key where key: "block_key tokens offset ?bs = Some key"
    using block_key_in_range [of offset tokens ?bs] guard by auto
  then have key': "block_key (take m tokens) offset ?bs = Some key" using block_key_take [OF o assms(2)] by simp
  obtain child where c: "child_at t node key = Some child"
    using Suc.prems(1) guard key by (cases "child_at t node key") (simp_all add: path_nodes.simps [of t tokens node])
  have pn: "path_nodes t tokens node offset = child # path_nodes t tokens child (offset + ?bs)"
    using guard key c by (simp add: path_nodes.simps [of t tokens node])
  show ?case using Suc.IH [of child "offset + ?bs" bs] Suc.prems(1,2) blocks key' c
    by (simp add: pn)
qed simp

lemma foldl_add_ref:
  "pool_inv p \<Longrightarrow> set bs \<subseteq> {..<cap p} \<Longrightarrow> set bs \<inter> set (kp_free_list p) = {} \<Longrightarrow>
    pool_inv (foldl kp_add_ref p bs) \<and> cap (foldl kp_add_ref p bs) = cap p
    \<and> kp_free_list (foldl kp_add_ref p bs) = kp_free_list p \<and> kp_tree (foldl kp_add_ref p bs) = kp_tree p
    \<and> kp_block_ref_count (foldl kp_add_ref p bs) b = kp_block_ref_count p b + count_list bs b"
proof (induction bs arbitrary: p)
  case (Cons x bs)
  have inv: "pool_inv (kp_add_ref p x)" by (rule pool_inv_add_ref) (use Cons.prems in auto)
  have same: "cap (kp_add_ref p x) = cap p" "kp_free_list (kp_add_ref p x) = kp_free_list p"
      "kp_tree (kp_add_ref p x) = kp_tree p"
    by (simp_all add: kp_add_ref_def)
  show ?case using Cons.IH [OF inv] Cons.prems by (auto simp: same ref_count_add_ref)
qed simp

lemma insert_found_shape:
  "rt_wf t \<Longrightarrow> node < nn t \<Longrightarrow> insert_at_loop now tokens blocks i skip node offset t = (Ok (), t')
    \<Longrightarrow> reused t tokens blocks node offset = length blocks \<Longrightarrow> shape t' = shape t"
proof (induction blocks arbitrary: node offset t i)
  case (Cons bid bids)
  obtain key where key: "block_key tokens offset (rt_block_size t) = Some key"
    using Cons.prems(3) by (auto split: option.splits)
  obtain child where c: "child_at t node key = Some child" using Cons.prems(4) key by (auto split: option.splits)
  let ?u = "if i < skip then t else bump_ref child t"
  have s: "shape ?u = shape t" by simp
  have r: "child < nn t" using rt_wf_child_at [OF Cons.prems(1,2) c] by simp
  have run: "insert_at_loop now tokens bids (Suc i) skip child (offset + rt_block_size t) ?u = (Ok (), t')"
    using Cons.prems(3) key c by simp
  have "reused ?u tokens bids child (offset + rt_block_size t) = length bids"
    using Cons.prems(4) key c by (simp add: reused_shape [OF s Cons.prems(1) r])
  then have "shape t' = shape ?u"
    using Cons.IH [OF rt_wf_shape [OF s Cons.prems(1)] _ run] r by simp
  then show ?case using s by simp
qed simp

lemma insert_claims_path:
  assumes inv: "pool_inv p" and k: "k \<le> length (path_nodes (kp_tree p) full 0 0)" and "k * BLOCK_SIZE \<le> length full"
  shows "\<exists>t'. insert_prefix now p (take (k * BLOCK_SIZE) full) (take k (path_blocks (kp_tree p) full 0 0)) = (Ok (), p\<lparr>kp_tree := t'\<rparr>)
    \<and> pool_inv (p\<lparr>kp_tree := t'\<rparr>) \<and> shape t' = shape (kp_tree p)
    \<and> (\<forall>b. block_ref t' b = block_ref (kp_tree p) b + count_list (take k (path_blocks (kp_tree p) full 0 0)) b)"
proof -
  let ?t = "kp_tree p" and ?tok = "take (k * BLOCK_SIZE) full" and ?bl = "take k (path_blocks (kp_tree p) full 0 0)"
  have ok: "rt_wf ?t" "rt_tight ?t" "rt_block_size ?t = BLOCK_SIZE" "dom (rt_block_to_node ?t) \<subseteq> {..<cap p}"
    using inv by (auto simp: pool_inv_def tree_ok_def)
  have root: "rt_root ?t = 0" "0 < nn ?t" using ok(1) by (auto simp: rt_wf_def)
  have pos: "0 < rt_block_size ?t" using ok(3) by (simp add: BLOCK_SIZE_def)
  have len: "length ?bl = k" using k by simp
  have d: "descent ?t ?tok ?bl 0 0 = take k (path_nodes ?t full 0 0)"
    by (rule descent_path [OF pos]) (use k assms(3) ok(3) in simp_all)
  have re: "reused ?t ?tok ?bl 0 0 = k"
    using length_descent [of ?t ?tok ?bl 0 0] k unfolding d by simp
  have fb: "found_blocks ?t ?tok ?bl 0 0 = ?bl"
    unfolding d by (simp add: path_blocks_def take_map)
  have fresh: "fresh_tail ?t ?tok ?bl 0 0" unfolding fresh_tail_def re using len by simp
  have bdom: "set ?bl \<subseteq> dom (rt_block_to_node ?t)"
    using found_mapped(2) [OF ok(1,2) root(2), of _ ?tok ?bl 0] unfolding fb by blast
  have range: "set ?bl \<subseteq> {..<cap p}" using bdom ok(4) by blast
  have room: "(length ?bl - 1) * BLOCK_SIZE \<le> length ?tok"
    unfolding len using assms(3) by (simp add: diff_mult_distrib)
  obtain t' t1 where t: "insert_prefix now p ?tok ?bl = (Ok (), p\<lparr>kp_tree := t'\<rparr>)" "pool_inv (p\<lparr>kp_tree := t'\<rparr>)"
    "dom (rt_block_to_node t') \<subseteq> dom (rt_block_to_node ?t) \<union> set ?bl"
    "insert_loop now ?tok ?bl 0 0 ?t = (Ok (), t1)" "rt_wf t1"
    using insert_prefix_spec [OF inv range room fresh, of now] by blast
  have "snd (insert_prefix now p ?tok ?bl) = p\<lparr>kp_tree := rt_touch now t1 ?tok\<rparr>"
    using t(4) root(1) by (simp add: insert_prefix_def lift_tree_def rt_insert_def)
  then have "p\<lparr>kp_tree := t'\<rparr> = p\<lparr>kp_tree := rt_touch now t1 ?tok\<rparr>" using t(1) by simp
  from arg_cong [OF this, of kp_tree] have t': "t' = rt_touch now t1 ?tok" by simp
  have "block_ref t1 b = block_ref ?t b + count_list ?bl b" for b
    using insert_at_claims [OF ok(1,2) root(2) _ fresh, of now 0 0 t1 b] t(4)
    by (simp add: insert_at_loop_0 re fb)
  then have "block_ref t' b = block_ref ?t b + count_list ?bl b" for b
    unfolding t' using block_ref_touch [OF t(5)] by simp
  moreover have "insert_at_loop now ?tok ?bl 0 0 0 0 ?t = (Ok (), t1)" using t(4) by (simp add: insert_at_loop_0)
  then have "shape t1 = shape ?t" by (rule insert_found_shape [OF ok(1) root(2)]) (use re len in simp)
  then have "shape t' = shape ?t" unfolding t' by simp
  ultimately show ?thesis using t(1,2) by (intro exI [of _ t']) auto
qed

text \<open>
  A claim that succeeds: the session starts with the first blocks of the cached path, each with one
  more reference in the tree and one more in the pool.
\<close>

lemma skippable_blocks:
  assumes "0 < length full"
  shows "skippable (BLOCK_SIZE * m) full = min m ((length full - 1) div BLOCK_SIZE) * BLOCK_SIZE"
    and "skippable (BLOCK_SIZE * m) full < length full"
proof -
  have "min (BLOCK_SIZE * m) (length full - 1) div BLOCK_SIZE = min m ((length full - 1) div BLOCK_SIZE)"
    by (simp add: min_def BLOCK_SIZE_def) linarith
  moreover have "n - n mod BLOCK_SIZE = n div BLOCK_SIZE * BLOCK_SIZE" for n
    using div_mult_mod_eq [of n BLOCK_SIZE] by linarith
  ultimately show "skippable (BLOCK_SIZE * m) full = min m ((length full - 1) div BLOCK_SIZE) * BLOCK_SIZE"
    by (simp add: skippable_def Let_def)
  have "skippable (BLOCK_SIZE * m) full \<le> length full - 1"
    unfolding skippable_def Let_def by (rule order_trans [OF diff_le_self]) simp
  then show "skippable (BLOCK_SIZE * m) full < length full" using assms by linarith
qed

definition claimed :: "kv_block_pool \<Rightarrow> u32 list \<Rightarrow> nat list" where
  "claimed p full = take ((length full - 1) div BLOCK_SIZE) (path_blocks (kp_tree p) full 0 0)"

lemma seed_prefix_eq:
  "seed_prefix bs c p = ((push_blocks bs c)\<lparr>pc_committed := (length (pc_table c) + length bs) * BLOCK_SIZE,
     pc_cursors := map (\<lambda>_. (length (pc_table c) + length bs) * BLOCK_SIZE) (pc_cursors c), pc_seeded_pending := length bs\<rparr>,
     foldl kp_add_ref p bs)"
  by (simp add: seed_prefix_def Let_def push_blocks_def [symmetric])

text \<open>A match long enough, all of it back on the device: the claim is an insertion and a seeding.\<close>

lemma claim_goes:
  assumes inv: "pool_inv (en_pool en)"
    and pl: "promote_loop (su_env su) (path_blocks (kp_tree (en_pool en)) full 0 0) False (en_pool en) = (Ok pr, p1)"
    and skip: "skip = skippable (BLOCK_SIZE * length (path_nodes (kp_tree (en_pool en)) full 0 0)) full"
    and go: "BLOCK_SIZE \<le> skip" "\<not> model_uses_hybrid_kv (en\<lparr>en_pool := p1, en_lookups := en_lookups en + 1\<rparr>) i"
  shows "\<exists>t'. claim_prefix su i full en = seed_request i skip (claimed (en_pool en) full)
        (en\<lparr>en_lookups := en_lookups en + 1, en_pool := p1\<lparr>kp_tree := t'\<rparr>\<rparr>)
    \<and> pool_inv (p1\<lparr>kp_tree := t'\<rparr>) \<and> shape t' = shape (kp_tree (en_pool en))
    \<and> (\<forall>b. block_ref t' b = block_ref (kp_tree (en_pool en)) b + count_list (claimed (en_pool en) full) b)"
    and "skip = length (claimed (en_pool en) full) * BLOCK_SIZE" and "skip < length full"
proof -
  let ?p = "en_pool en" and ?e = "su_env su"
  have tr: "rt_root (kp_tree ?p) = 0" "rt_block_size (kp_tree ?p) = BLOCK_SIZE"
    using inv by (auto simp: pool_inv_def tree_ok_def rt_wf_def)
  let ?path = "path_blocks (kp_tree ?p) full 0 0" and ?m = "length (path_nodes (kp_tree ?p) full 0 0)"
  have match: "rt_match_prefix (kp_tree ?p) full = (?path, BLOCK_SIZE * ?m)" by (simp add: rt_match_prefix_eq tr)
  note kept = promote_loop_kept [OF inv pl]
  have mp: "match_prefix_promoting ?e ?p full = (Ok (?path, BLOCK_SIZE * ?m, pr), p1)"
    using match pl by (simp add: match_prefix_promoting_def)
  have full: "0 < length full" using go(1) skip by (auto simp: skippable_def Let_def BLOCK_SIZE_def)
  define k where "k = min ?m ((length full - 1) div BLOCK_SIZE)"
  have sk: "skip = k * BLOCK_SIZE" "skip < length full" using skippable_blocks [OF full, of ?m] by (simp_all add: k_def skip)
  have kd: "skip div BLOCK_SIZE = k" unfolding sk(1) by (simp add: BLOCK_SIZE_def)
  have tk: "take k ?path = claimed ?p full" "length (claimed ?p full) = k" by (auto simp: claimed_def k_def min_def)
  have tk1: "take k (path_blocks (kp_tree p1) full 0 0) = claimed ?p full" using kept tk(1) by simp
  have km: "k \<le> length (path_nodes (kp_tree p1) full 0 0)" using kept by (simp add: k_def)
  obtain t' where t': "insert_prefix (env_now ?e) p1 (take skip full) (claimed ?p full) = (Ok (), p1\<lparr>kp_tree := t'\<rparr>)"
    "pool_inv (p1\<lparr>kp_tree := t'\<rparr>)" "shape t' = shape (kp_tree p1)"
    "\<forall>b. block_ref t' b = block_ref (kp_tree p1) b + count_list (claimed ?p full) b"
    using insert_claims_path [OF conjunct1 [OF kept] km, of "env_now ?e"] sk unfolding tk1 by auto
  have "\<not> length ?path < k" using k_def by simp
  then have "claim_prefix su i full en
      = seed_request i skip (claimed ?p full) (en\<lparr>en_lookups := en_lookups en + 1, en_pool := p1\<lparr>kp_tree := t'\<rparr>\<rparr>)"
    using go mp t'(1) by (simp add: claim_prefix_def with_pool_def Let_def kd tk(1) skip [symmetric])
  then show "\<exists>t'. claim_prefix su i full en = seed_request i skip (claimed (en_pool en) full)
        (en\<lparr>en_lookups := en_lookups en + 1, en_pool := p1\<lparr>kp_tree := t'\<rparr>\<rparr>)
    \<and> pool_inv (p1\<lparr>kp_tree := t'\<rparr>) \<and> shape t' = shape (kp_tree (en_pool en))
    \<and> (\<forall>b. block_ref t' b = block_ref (kp_tree (en_pool en)) b + count_list (claimed (en_pool en) full) b)"
    using t'(2-4) kept by auto
  show "skip = length (claimed ?p full) * BLOCK_SIZE" "skip < length full" using sk tk(2) by simp_all
qed

text \<open>The claimed blocks are of the tree.\<close>

lemma claimed_mapped:
  assumes inv: "pool_inv p" and room: "length (claimed p full) * BLOCK_SIZE \<le> length full"
  shows "set (claimed p full) \<subseteq> dom (rt_block_to_node (kp_tree p))"
proof -
  let ?k = "length (claimed p full)"
  have wf: "rt_wf (kp_tree p)" "rt_tight (kp_tree p)" "0 < nn (kp_tree p)" "rt_block_size (kp_tree p) = BLOCK_SIZE"
    using inv by (auto simp: pool_inv_def tree_ok_def rt_wf_def)
  have "descent (kp_tree p) (take (length full) full) (claimed p full) 0 0 = take ?k (path_nodes (kp_tree p) full 0 0)"
    by (rule descent_path) (use wf(4) room in \<open>simp_all add: BLOCK_SIZE_def claimed_def path_blocks_def\<close>)
  moreover have "claimed p full = take ?k (path_blocks (kp_tree p) full 0 0)"
    by (simp add: claimed_def path_blocks_def min_def)
  ultimately have "found_blocks (kp_tree p) full (claimed p full) 0 0 = claimed p full"
    by (simp add: path_blocks_def take_map)
  then show ?thesis using found_mapped(2) [OF wf(1-3), of _ full "claimed p full" 0] by auto
qed

lemma claim_spec:
  assumes b: "backed en" and s: "en_sessions en i = Some ss"
    and run: "claim_prefix su i full en = (Ok n, en')" and pos: "0 < n"
  defines "seeds \<equiv> claimed (en_pool en) full"
  shows "n = length seeds * BLOCK_SIZE" and "n < length full" and "seeds \<noteq> []"
    and "\<exists>c. en_sessions en' = (en_sessions en)(i \<mapsto> ss\<lparr>ss_cache := c, ss_pos := ss_pos ss + n\<rparr>)
           \<and> pc_table c = pc_table (ss_cache ss) @ seeds
           \<and> pc_block_table_u32 c = pc_block_table_u32 (ss_cache ss) @ map word_of_nat seeds
           \<and> pc_committed c = length (pc_table c) * BLOCK_SIZE \<and> pc_seeded_pending c = length seeds"
    and "en_progress en' i = Some n" and "en_seeded en' i = Some (length seeds)"
    and "block_ref (kp_tree (en_pool en')) x = block_ref (kp_tree (en_pool en)) x + count_list seeds x"
    and "kp_block_ref_count (en_pool en') x = kp_block_ref_count (en_pool en) x + count_list seeds x"
    and "pool_inv (en_pool en')" and "cache_kept (en_pool en')"
    and "shape (kp_tree (en_pool en')) = shape (kp_tree (en_pool en))"
proof -
  let ?p = "en_pool en" and ?e = "su_env su"
  have inv: "pool_inv ?p" and ck: "cache_kept ?p" using b by (auto simp: backed_def)
  have tr: "rt_root (kp_tree ?p) = 0" "rt_block_size (kp_tree ?p) = BLOCK_SIZE"
    using inv by (auto simp: pool_inv_def tree_ok_def rt_wf_def)
  let ?path = "path_blocks (kp_tree ?p) full 0 0" and ?m = "length (path_nodes (kp_tree ?p) full 0 0)"
  have match: "rt_match_prefix (kp_tree ?p) full = (?path, BLOCK_SIZE * ?m)" by (simp add: rt_match_prefix_eq tr)
  obtain r p1 where pl': "promote_loop ?e ?path False ?p = (r, p1)" by fastforce
  let ?skip = "skippable (BLOCK_SIZE * ?m) full"
  obtain pr where r: "r = Ok pr" using run pl' match by (cases r) (auto simp: claim_prefix_def match_prefix_promoting_def with_pool_def)
  note pl = pl' [unfolded r] and kept = promote_loop_kept [OF inv pl']
  have mp: "match_prefix_promoting ?e ?p full = (Ok (?path, BLOCK_SIZE * ?m, pr), p1)"
    using match pl by (simp add: match_prefix_promoting_def)
  have go: "BLOCK_SIZE \<le> ?skip" "\<not> model_uses_hybrid_kv (en\<lparr>en_pool := p1, en_lookups := en_lookups en + 1\<rparr>) i"
    using run pos mp by (auto simp: claim_prefix_def with_pool_def Let_def split: if_splits)
  note goes = claim_goes [OF inv pl refl go, folded seeds_def]
  obtain t' where fin: "claim_prefix su i full en
      = seed_request i ?skip seeds (en\<lparr>en_lookups := en_lookups en + 1, en_pool := p1\<lparr>kp_tree := t'\<rparr>\<rparr>)"
    and t': "pool_inv (p1\<lparr>kp_tree := t'\<rparr>)" "shape t' = shape (kp_tree ?p)"
      "\<forall>b. block_ref t' b = block_ref (kp_tree ?p) b + count_list seeds b"
    using goes(1) by blast
  let ?q = "p1\<lparr>kp_tree := t'\<rparr>"
  have sdom: "set seeds \<subseteq> dom (rt_block_to_node (kp_tree ?p))"
    using claimed_mapped [OF inv, of full] goes(2,3) unfolding seeds_def by simp
  have range: "set seeds \<subseteq> {..<cap ?q}" and nofree: "set seeds \<inter> set (kp_free_list ?q) = {}"
    using sdom inv ck kept by (auto simp: pool_inv_def tree_ok_def cache_kept_def)
  note add = foldl_add_ref [OF t'(1) range nofree]
  let ?c = "fst (seed_prefix seeds (ss_cache ss) ?q)"
  have "seed_request i ?skip seeds (en\<lparr>en_lookups := en_lookups en + 1, en_pool := ?q\<rparr>)
      = (Ok ?skip, en\<lparr>en_lookups := en_lookups en + 1, en_pool := foldl kp_add_ref ?q seeds,
      en_sessions := (en_sessions en)(i \<mapsto> ss\<lparr>ss_cache := ?c, ss_pos := ss_pos ss + ?skip\<rparr>),
      en_progress := (en_progress en)(i \<mapsto> ?skip), en_seeded := (en_seeded en)(i \<mapsto> length seeds),
      en_hit_requests := en_hit_requests en + 1, en_hit_tokens := en_hit_tokens en + ?skip\<rparr>)"
    by (simp add: seed_request_def s seed_prefix_eq)
  from trans [OF run [symmetric] trans [OF fin this]]
  have en': "n = ?skip" "en' = (en\<lparr>en_lookups := en_lookups en + 1, en_pool := foldl kp_add_ref ?q seeds,
      en_sessions := (en_sessions en)(i \<mapsto> ss\<lparr>ss_cache := ?c, ss_pos := ss_pos ss + ?skip\<rparr>),
      en_progress := (en_progress en)(i \<mapsto> ?skip), en_seeded := (en_seeded en)(i \<mapsto> length seeds),
      en_hit_requests := en_hit_requests en + 1, en_hit_tokens := en_hit_tokens en + ?skip\<rparr>)"
    by auto
  note n = en'(1)
  show "n = length seeds * BLOCK_SIZE" "n < length full" using n goes(2,3) by simp_all
  show "seeds \<noteq> []" using pos n goes(2) by auto
  show "\<exists>c. en_sessions en' = (en_sessions en)(i \<mapsto> ss\<lparr>ss_cache := c, ss_pos := ss_pos ss + n\<rparr>)
       \<and> pc_table c = pc_table (ss_cache ss) @ seeds
       \<and> pc_block_table_u32 c = pc_block_table_u32 (ss_cache ss) @ map word_of_nat seeds
       \<and> pc_committed c = length (pc_table c) * BLOCK_SIZE \<and> pc_seeded_pending c = length seeds"
    using en' by (intro exI [of _ ?c]) (simp add: seed_prefix_eq)
  show "en_progress en' i = Some n" "en_seeded en' i = Some (length seeds)" using en' by simp_all
  show "block_ref (kp_tree (en_pool en')) x = block_ref (kp_tree ?p) x + count_list seeds x"
    using en' add t'(3) by simp
  show "kp_block_ref_count (en_pool en') x = kp_block_ref_count ?p x + count_list seeds x"
    using en' add [of x] kept by (simp add: kp_block_ref_count_def)
  show "pool_inv (en_pool en')" using en' add by simp
  show "cache_kept (en_pool en')" using en' add shape_nth(4) [OF t'(2)] kept ck by (auto simp: cache_kept_def)
  show "shape (kp_tree (en_pool en')) = shape (kp_tree ?p)" using en' add t'(2) by simp
qed

lemma backed_claim:
  assumes b: "backed en" and s: "en_sessions en i = Some ss"
    and run: "claim_prefix su i full en = (Ok n, en')" and pos: "0 < n"
  shows "backed en'"
proof -
  note c = claim_spec [OF assms]
  let ?seeds = "claimed (en_pool en) full"
  obtain c' where c': "en_sessions en' = (en_sessions en)(i \<mapsto> ss\<lparr>ss_cache := c', ss_pos := ss_pos ss + n\<rparr>)"
    "pc_table c' = pc_table (ss_cache ss) @ ?seeds" "pc_block_table_u32 c' = pc_block_table_u32 (ss_cache ss) @ map word_of_nat ?seeds"
    using c(4) by blast
  let ?ss = "ss\<lparr>ss_cache := c', ss_pos := ss_pos ss + n\<rparr>"
  have "held (en_sessions en') x \<le> kp_block_ref_count (en_pool en') x" for x
  proof -
    have "held (en_sessions en') x + entries (en_sessions en i) x = held (en_sessions en) x + entries (Some ?ss) x"
      using held_insert [of "en_sessions en" i ?ss x] b unfolding c'(1) backed_def by blast
    moreover have "entries (Some ?ss) x = entries (en_sessions en i) x + count_list ?seeds x"
      by (simp add: entries_def s c'(2))
    moreover have "held (en_sessions en) x \<le> kp_block_ref_count (en_pool en) x" using b by (simp add: backed_def)
    ultimately show ?thesis unfolding c(8) by linarith
  qed
  moreover have "ss \<in> ran (en_sessions en)" using s by (auto simp: ran_def)
  ultimately show ?thesis using b c(9,10) c' unfolding backed_def by (auto simp: ran_def)
qed

end
