(* ===== verification/RequestClaims.thy ===== *)
theory RequestClaims
  imports RequestLaws PoolRuns
begin

text \<open>
  The claims a request makes on the prefix tree over its life: what registering its blocks adds and
  what finishing takes away again.
\<close>

section \<open>Registering blocks\<close>

lemma reused_append: "reused t tokens xs node offset \<le> reused t tokens (xs @ ys) node offset"
  by (induction xs arbitrary: node offset) (auto split: option.splits)

lemma attach_anchor_simps:
  "rt_wf (kp_tree p) \<Longrightarrow> block_ref (kp_tree (attach_anchor now p tokens bs ls)) b = block_ref (kp_tree p) b"
  "kp_ref_counts (attach_anchor now p tokens bs ls) = kp_ref_counts p"
  "cap (attach_anchor now p tokens bs ls) = cap p"
  "kp_free_list (attach_anchor now p tokens bs ls) = kp_free_list p"
  "shape (kp_tree (attach_anchor now p tokens bs ls)) = shape (kp_tree p)"
  by (simp_all add: attach_anchor_def Let_def block_ref_attach)

text \<open>
  Registering past \<open>skip\<close>: the foreign blocks found on the way and the own ones added past it are
  counted up.
\<close>

lemma register_pool:
  assumes inv: "pool_inv p" and range: "set bs \<subseteq> {..<cap p}"
    and room: "(length bs - 1) * BLOCK_SIZE \<le> length full"
    and fresh: "fresh_tail (kp_tree p) full bs 0 0" and skip: "skip \<le> reused (kp_tree p) full bs 0 0"
  shows "\<exists>q t. insert_prefix_with_recurrent_state_at now p full bs ls skip = (Ok (), q) \<and> pool_inv q
    \<and> kp_ref_counts q = kp_ref_counts p \<and> cap q = cap p \<and> kp_free_list q = kp_free_list p
    \<and> insert_at_loop now full bs 0 skip 0 0 (kp_tree p) = (Ok (), t) \<and> shape (kp_tree q) = shape t \<and> rt_wf t
    \<and> (\<forall>b. block_ref (kp_tree q) b = block_ref (kp_tree p) b
         + count_list (drop skip (found_blocks (kp_tree p) full bs 0 0)) b
         + count_list (drop (reused (kp_tree p) full bs 0 0) bs) b)"
proof -
  let ?t = "kp_tree p"
  have ok: "rt_wf ?t" "rt_tight ?t" and root: "0 < nn ?t"
    using inv by (auto simp: pool_inv_def tree_ok_def rt_wf_def)
  obtain t where t: "insert_at_loop now full bs 0 skip 0 0 ?t = (Ok (), t)" "rt_wf t"
    "pool_inv (p\<lparr>kp_tree := rt_touch now t full\<rparr>)"
    and run: "insert_prefix_with_recurrent_state_at now p full bs ls skip
        = (Ok (), attach_anchor now (p\<lparr>kp_tree := rt_touch now t full\<rparr>) full bs ls)"
    using insert_at_spec [OF inv range room fresh, of now skip ls] by blast
  have refs: "block_ref t b = block_ref ?t b + count_list (drop skip (found_blocks ?t full bs 0 0)) b
      + count_list (drop (reused ?t full bs 0 0) bs) b" for b
    using insert_at_claims [OF ok root _ fresh t(1)] skip by simp
  let ?p1 = "p\<lparr>kp_tree := rt_touch now t full\<rparr>"
  have wf1: "rt_wf (kp_tree ?p1)" using t(3) by (simp add: pool_inv_def tree_ok_def)
  show ?thesis
    by (intro exI [of _ "attach_anchor now ?p1 full bs ls"] exI [of _ t])
      (use run attach_anchor_inv [OF t(3)] attach_anchor_simps(1) [OF wf1] t(1,2) refs block_ref_touch [OF t(2)] in
        \<open>simp add: attach_anchor_simps(2-5)\<close>)
qed

section \<open>The whole life\<close>

lemma count_list_disjoint: "set xs \<inter> A = {} \<Longrightarrow> x \<in> A \<Longrightarrow> count_list xs x = 0"
  by (rule count_notin) blast

text \<open>
  Claims of seeds, registration of seeds and own blocks, removal of both: what remains are the
  foreign blocks the registration found past the seeds.
\<close>

lemma claims_left:
  assumes wf: "rt_wf t" "rt_wf t2" and tight: "rt_tight t" and pos: "0 < nn t"
    and claim: "\<And>b. block_ref t1 b = block_ref t b + count_list seeds b"
    and reg: "\<And>b. block_ref t2 b = block_ref t1 b
         + count_list (drop (length seeds) (found_blocks t full (seeds @ mine) 0 0)) b
         + count_list (drop (reused t full (seeds @ mine) 0 0) (seeds @ mine)) b"
    and fresh: "set mine \<inter> dom (rt_block_to_node t) = {}" and s: "length seeds \<le> reused t full (seeds @ mine) 0 0"
  shows "block_ref (rt_remove t2 (seeds @ mine)) b
    = block_ref t b + count_list (drop (length seeds) (found_blocks t full (seeds @ mine) 0 0)) b"
proof -
  let ?f = "drop (length seeds) (found_blocks t full (seeds @ mine) 0 0)"
  let ?d = "drop (reused t full (seeds @ mine) 0 0) (seeds @ mine)"
  have d: "?d = drop (reused t full (seeds @ mine) 0 0 - length seeds) mine" using s by simp
  have fin: "block_ref (rt_remove t2 (seeds @ mine)) b
      = block_ref t b + count_list seeds b + count_list ?f b + count_list ?d b - (count_list seeds b + count_list mine b)"
    by (simp add: block_ref_remove [OF wf(2)] reg claim)
  show ?thesis
  proof (cases "b \<in> set mine")
    case True
    then have n: "b \<notin> dom (rt_block_to_node t)" using fresh by blast
    then have "block_ref t b = 0" by (auto simp: block_ref_def split: option.splits)
    moreover have "set ?f \<subseteq> dom (rt_block_to_node t)"
      using found_mapped(2) [OF wf(1) tight pos] set_drop_subset by fast
    then have "count_list ?f b = 0" using n by (intro count_notin) blast
    moreover have "count_list ?d b \<le> count_list mine b"
      unfolding d by (metis append_take_drop_id count_list_append le_add2)
    ultimately show ?thesis using fin by simp
  next
    case False
    then have "b \<notin> set ?d" unfolding d by (meson in_set_dropD)
    then show ?thesis using fin False by simp
  qed
qed

lemma block_ids_table:
  assumes "pc_block_table_u32 c = map word_of_nat (pc_table c)" and "set (pc_table c) \<subseteq> {..<m}" and "m \<le> 2 ^ 32"
  shows "block_ids (Some \<lparr>ss_device = d, ss_cache = c, ss_pos = n\<rparr>) = pc_table c"
proof -
  have "unat (word_of_nat b :: u32) = b" if "b \<in> set (pc_table c)" for b
    using that assms(2,3) by (auto simp: unat_of_nat take_bit_nat_eq_self)
  then have "map unat (pc_block_table_u32 c) = pc_table c" unfolding assms(1) by (simp add: map_idI)
  then show ?thesis using assms(1) by (cases "pc_block_table_u32 c = []") (auto simp: block_ids_def pc_block_table_def)
qed

text \<open>Registering past the seeds, then finishing: the removal undoes its own share only.\<close>

lemma register_then_finish:
  assumes o: "own (ss_cache ss) (en_pool en)" and s: "en_sessions en i = Some ss" and radix: "en_radix en"
    and range: "set (pc_table (ss_cache ss)) \<subseteq> {..<cap (en_pool en)}" and cap: "cap (en_pool en) \<le> 2 ^ 32"
    and room: "(length (pc_table (ss_cache ss)) - 1) * BLOCK_SIZE \<le> length full" and "full \<noteq> []"
    and fresh: "fresh_tail (kp_tree (en_pool en)) full (pc_table (ss_cache ss)) 0 0"
    and skip: "skip = count_of (en_seeded en) i + count_of (en_registered en) i"
    and skips: "skip \<le> reused (kp_tree (en_pool en)) full (pc_table (ss_cache ss)) 0 0" "skip < length (pc_table (ss_cache ss))"
  shows "\<exists>en1 en2 t2. register_blocks su i full en = (Ok (), en1) \<and> finish_request e i en1 = (Ok (), en2)
    \<and> en_sessions en2 = (en_sessions en)(i := None)
    \<and> kp_tree (en_pool en2) = rt_remove t2 (pc_table (ss_cache ss)) \<and> rt_wf t2
    \<and> (\<forall>b. block_ref t2 b = block_ref (kp_tree (en_pool en)) b
         + count_list (drop skip (found_blocks (kp_tree (en_pool en)) full (pc_table (ss_cache ss)) 0 0)) b
         + count_list (drop (reused (kp_tree (en_pool en)) full (pc_table (ss_cache ss)) 0 0) (pc_table (ss_cache ss))) b)"
proof -
  let ?T = "pc_table (ss_cache ss)" and ?p = "en_pool en"
  have inv: "pool_inv ?p" and bt: "pc_block_table_u32 (ss_cache ss) = map word_of_nat ?T" using o by (auto simp: own_def)
  obtain d c n where ss: "ss = \<lparr>ss_device = d, ss_cache = c, ss_pos = n\<rparr>" by (cases ss)
  have ids: "block_ids (Some ss) = ?T" using block_ids_table [of c] bt range cap unfolding ss by simp
  obtain q t where q: "insert_prefix_with_recurrent_state_at (env_now (su_env su)) ?p full ?T [] skip = (Ok (), q)"
      "pool_inv q" "kp_ref_counts q = kp_ref_counts ?p" "shape (kp_tree q) = shape t" "rt_wf t"
      "\<forall>b. block_ref (kp_tree q) b = block_ref (kp_tree ?p) b
         + count_list (drop skip (found_blocks (kp_tree ?p) full ?T 0 0)) b
         + count_list (drop (reused (kp_tree ?p) full ?T 0 0) ?T) b"
    using register_pool [OF inv range room fresh skips(1), of "env_now (su_env su)" "[]"] by blast
  let ?en1 = "en\<lparr>en_pool := q, en_registered := (en_registered en)(i \<mapsto> length ?T)\<rparr>"
  have reg: "register_blocks su i full en = (Ok (), ?en1)"
    using radix \<open>full \<noteq> []\<close> skips(2) q(1) s ids skip
    by (simp add: register_blocks_def Let_def with_pool_def)
  have o1: "own (ss_cache ss) (en_pool ?en1)" using o q(2,3) by (simp add: own_def kp_block_ref_count_def)
  have s1: "en_sessions ?en1 i = Some ss" using s by simp
  obtain p' where fin: "finish_request e i ?en1
      = (Ok (), forget_request (env_now e) i (?en1\<lparr>en_sched := finish i (en_sched ?en1), en_pool := p'\<rparr>))"
      "kp_tree p' = kp_tree (drop_claims i ?en1)"
    using finish_spec [OF o1 s1, of e] by blast
  have "kp_tree (drop_claims i ?en1) = rt_remove (kp_tree q) ?T"
    using radix ids s by (simp add: drop_claims_def remove_prefix_def)
  then show ?thesis
    using reg fin rt_wf_shape [OF q(4,5)] q(6)
    by (intro exI [of _ ?en1] exI conjI) (auto simp: forget_request_def)
qed

section \<open>Claims keep the blocks backed\<close>

lemma backed_claim_prefix:
  assumes b: "backed en"
  shows "backed (snd (claim_prefix su i full en))"
proof -
  let ?p = "en_pool en" and ?e = "su_env su"
  have inv: "pool_inv ?p" and ck: "cache_kept ?p" using b by (auto simp: backed_def)
  have tr: "rt_root (kp_tree ?p) = 0" "rt_block_size (kp_tree ?p) = BLOCK_SIZE"
    using inv by (auto simp: pool_inv_def tree_ok_def rt_wf_def)
  let ?path = "path_blocks (kp_tree ?p) full 0 0" and ?m = "length (path_nodes (kp_tree ?p) full 0 0)"
  have match: "rt_match_prefix (kp_tree ?p) full = (?path, BLOCK_SIZE * ?m)" by (simp add: rt_match_prefix_eq tr)
  obtain r p1 where pl: "promote_loop ?e ?path False ?p = (r, p1)" by fastforce
  note kept = promote_loop_kept [OF inv pl]
  have pool1: "backed (en\<lparr>en_pool := p1\<rparr>)"
    by (rule backed_sessions [OF b]) (use kept ck in \<open>simp_all add: cache_kept_def kp_block_ref_count_def\<close>)
  show ?thesis
  proof (cases r)
    case (Ok pr)
    have mp: "match_prefix_promoting ?e ?p full = (Ok (?path, BLOCK_SIZE * ?m, pr), p1)"
      using match pl Ok by (simp add: match_prefix_promoting_def)
    let ?skip = "skippable (BLOCK_SIZE * ?m) full" and ?en2 = "en\<lparr>en_pool := p1, en_lookups := en_lookups en + 1\<rparr>"
    have pool2: "backed ?en2" using pool1 by (simp add: backed_def)
    show ?thesis
    proof (cases "BLOCK_SIZE \<le> ?skip \<and> \<not> model_uses_hybrid_kv ?en2 i")
      case False
      then show ?thesis using mp pool2 by (auto simp: claim_prefix_def with_pool_def Let_def)
    next
      case go: True
      obtain t' where fin: "claim_prefix su i full en
          = seed_request i ?skip (claimed ?p full) (en\<lparr>en_lookups := en_lookups en + 1, en_pool := p1\<lparr>kp_tree := t'\<rparr>\<rparr>)"
        and t': "pool_inv (p1\<lparr>kp_tree := t'\<rparr>)" "shape t' = shape (kp_tree ?p)"
        using claim_goes [OF inv pl [unfolded Ok] refl] go by blast
      show ?thesis
      proof (cases "en_sessions en i")
        case None
        then show ?thesis unfolding fin
          by (intro backed_sessions [OF b])
            (use t'(1) kept ck shape_nth(4) [OF t'(2)] in \<open>simp_all add: seed_request_def cache_kept_def kp_block_ref_count_def\<close>)
      next
        case (Some ss)
        then have "fst (claim_prefix su i full en) = Ok ?skip"
          unfolding fin by (simp add: seed_request_def split: prod.split)
        then obtain en' where run: "claim_prefix su i full en = (Ok ?skip, en')" by (metis prod.collapse)
        have "0 < ?skip" using go by (simp add: BLOCK_SIZE_def)
        then show ?thesis using backed_claim [OF b Some run] run by simp
      qed
    qed
  qed (use match pl pool1 in \<open>simp_all add: claim_prefix_def match_prefix_promoting_def with_pool_def\<close>)
qed

section \<open>From claim to finish\<close>

lemma lt_div_ceil: "k * BLOCK_SIZE < n \<Longrightarrow> k < div_ceil n BLOCK_SIZE"
proof -
  assume k: "k * BLOCK_SIZE < n"
  show ?thesis
  proof (cases "n mod BLOCK_SIZE = 0")
    case True
    then have "n = n div BLOCK_SIZE * BLOCK_SIZE" by auto
    then have "k * BLOCK_SIZE < n div BLOCK_SIZE * BLOCK_SIZE" using k by simp
    then have "k < n div BLOCK_SIZE" by simp
    then show ?thesis using True by (simp add: div_ceil_def)
  next
    case False
    have "k \<le> n div BLOCK_SIZE" using k by (simp add: less_eq_div_iff_mult_less_eq BLOCK_SIZE_def)
    then show ?thesis using False by (simp add: div_ceil_def)
  qed
qed

lemma div_ceil_room: "(div_ceil n BLOCK_SIZE - 1) * BLOCK_SIZE \<le> n"
proof -
  have "div_ceil n BLOCK_SIZE - 1 \<le> n div BLOCK_SIZE" by (simp add: div_ceil_def)
  then have "(div_ceil n BLOCK_SIZE - 1) * BLOCK_SIZE \<le> n div BLOCK_SIZE * BLOCK_SIZE" by (rule mult_le_mono1)
  then show ?thesis using div_times_less_eq_dividend [of n BLOCK_SIZE] by linarith
qed

lemma insert_prefix_cap: "insert_prefix now p tokens bs = (r, p') \<Longrightarrow> cap p' = cap p"
  by (cases "rt_insert now (kp_tree p) tokens bs"; cases "fst (rt_insert now (kp_tree p) tokens bs)")
    (auto simp: insert_prefix_def lift_tree_def)

lemma claim_cap:
  assumes b: "backed en" and run: "claim_prefix su i full en = (Ok n, en')"
  shows "cap (en_pool en') = cap (en_pool en)"
proof -
  have inv: "pool_inv (en_pool en)" using b by (simp add: backed_def)
  have c: "cap (foldl kp_add_ref p bs) = cap p" for p bs by (induction bs arbitrary: p) (simp_all add: kp_add_ref_def)
  show ?thesis
    using run promote_loop_kept [OF inv]
    by (auto simp: claim_prefix_def match_prefix_promoting_def with_pool_def seed_request_def seed_prefix_eq c insert_prefix_cap
      Let_def and_then_Ok_iff split: prod.splits outcome.splits option.splits if_splits)
qed

lemma claim_prefix_frame:
  "en_radix (snd (claim_prefix su i full en)) = en_radix en"
  "en_registered (snd (claim_prefix su i full en)) = en_registered en"
  by (simp_all add: claim_prefix_def with_pool_def seed_request_def Let_def split: prod.split outcome.split option.split)

text \<open>
  A request that claims its prefix, fills own blocks, registers them and finishes leaves in the tree
  exactly the claims it took, while registering, on foreign blocks past its seeds.
\<close>

lemma life_claims:
  assumes b: "backed en" and s: "en_sessions en i = Some ss" and radix: "en_radix en" and new: "en_registered en i = None"
    and claim: "claim_prefix su i full en = (Ok n, en1)" "0 < n"
    and en2: "en2 = en1\<lparr>en_pool := p2, en_sessions := (en_sessions en1)(i \<mapsto> ss2)\<rparr>"
    and o: "own (ss_cache ss2) p2" and tree: "kp_tree p2 = kp_tree (en_pool en1)" and cap: "cap p2 \<le> 2 ^ 32"
    and table: "pc_table (ss_cache ss2) = claimed (en_pool en) full @ mine"
    and mine: "distinct mine" "set mine \<inter> dom (rt_block_to_node (kp_tree (en_pool en))) = {}"
    and range: "set (pc_table (ss_cache ss2)) \<subseteq> {..<cap p2}"
    and len: "length (pc_table (ss_cache ss2)) = div_ceil (length full) BLOCK_SIZE"
  shows "\<exists>en3 en4. register_blocks su i full en2 = (Ok (), en3) \<and> finish_request e i en3 = (Ok (), en4)
    \<and> (\<forall>b. block_ref (kp_tree (en_pool en4)) b = block_ref (kp_tree (en_pool en)) b
         + count_list (drop (n div BLOCK_SIZE) (found_blocks (kp_tree (en_pool en)) full (pc_table (ss_cache ss2)) 0 0)) b)"
proof -
  let ?t = "kp_tree (en_pool en)" and ?t1 = "kp_tree (en_pool en1)" and ?T = "pc_table (ss_cache ss2)"
  let ?seeds = "claimed (en_pool en) full"
  note c = claim_spec [OF b s claim]
  have inv: "pool_inv (en_pool en)" using b by (simp add: backed_def)
  have ok: "rt_wf ?t" "rt_tight ?t" "rt_block_size ?t = BLOCK_SIZE" using inv by (auto simp: pool_inv_def tree_ok_def)
  have pos: "0 < nn ?t" using ok(1) by (simp add: rt_wf_def)
  have sh: "shape ?t1 = shape ?t" by (rule c(11))
  have nb: "n div BLOCK_SIZE = length ?seeds" using c(1) by (simp add: BLOCK_SIZE_def)
  have seeds: "length ?seeds * BLOCK_SIZE < length full" using c(1,2) by simp
  have km: "length ?seeds \<le> length (path_nodes ?t full 0 0)" by (simp add: claimed_def path_blocks_def)
  have d: "descent ?t full ?seeds 0 0 = take (length ?seeds) (path_nodes ?t full 0 0)"
    using descent_path [of ?t "length full" full "length ?seeds" 0 0 ?seeds] km seeds ok(3) by (simp add: BLOCK_SIZE_def)
  have rs: "reused ?t full ?seeds 0 0 = length ?seeds" using length_descent [of ?t full ?seeds 0 0] km unfolding d by simp
  have more: "length ?seeds \<le> reused ?t full ?T 0 0"
    unfolding table using reused_append [of ?t full ?seeds 0 0 mine] rs by simp
  have same: "reused ?t1 full ?T 0 0 = reused ?t full ?T 0 0" "found_blocks ?t1 full ?T 0 0 = found_blocks ?t full ?T 0 0"
    "dom (rt_block_to_node ?t1) = dom (rt_block_to_node ?t)"
  proof -
    show "reused ?t1 full ?T 0 0 = reused ?t full ?T 0 0" by (rule reused_shape [OF sh ok(1) pos])
    show "found_blocks ?t1 full ?T 0 0 = found_blocks ?t full ?T 0 0"
      unfolding descent_shape [OF sh ok(1) pos]
      using shape_nth(5) [OF sh] descent_range [OF ok(1) pos] by (auto simp: linked_def)
    show "dom (rt_block_to_node ?t1) = dom (rt_block_to_node ?t)" by (simp add: shape_nth(4) [OF sh])
  qed
  have fresh: "fresh_tail ?t1 full ?T 0 0"
    unfolding fresh_tail_def same(1,3) using mine more by (auto simp: table dest: in_set_dropD)
  have lt: "length ?seeds < length ?T"
    unfolding len by (rule lt_div_ceil [OF seeds])
  have room: "(length ?T - 1) * BLOCK_SIZE \<le> length full"
    unfolding len by (rule div_ceil_room)
  have frame: "en_radix en1" "en_registered en1 i = None"
    using claim_prefix_frame [of su i full en] radix new claim(1) by simp_all
  have skip: "length ?seeds = count_of (en_seeded en2) i + count_of (en_registered en2) i"
    using c(6) frame(2) by (simp add: en2 count_of_def)
  have reg: "length ?seeds \<le> reused (kp_tree (en_pool en2)) full ?T 0 0" using more same(1) by (simp add: en2 tree)
  have st: "own (ss_cache ss2) (en_pool en2)" "en_sessions en2 i = Some ss2" "en_radix en2"
    "set ?T \<subseteq> {..<cap (en_pool en2)}" "cap (en_pool en2) \<le> 2 ^ 32" "full \<noteq> []"
    "fresh_tail (kp_tree (en_pool en2)) full ?T 0 0"
    using o cap range frame(1) seeds fresh by (auto simp: en2 tree)
  obtain en3 en4 t2 where life: "register_blocks su i full en2 = (Ok (), en3)" "finish_request e i en3 = (Ok (), en4)"
      "kp_tree (en_pool en4) = rt_remove t2 ?T" "rt_wf t2"
      and refs: "\<forall>b. block_ref t2 b = block_ref (kp_tree (en_pool en2)) b
         + count_list (drop (length ?seeds) (found_blocks (kp_tree (en_pool en2)) full ?T 0 0)) b
         + count_list (drop (reused (kp_tree (en_pool en2)) full ?T 0 0) ?T) b"
    using register_then_finish [OF st(1-5) room st(6,7) skip reg lt, of su e] by blast
  have t2: "block_ref t2 x = block_ref ?t1 x + count_list (drop (length ?seeds) (found_blocks ?t full ?T 0 0)) x
         + count_list (drop (reused ?t full ?T 0 0) ?T) x" for x
    using refs by (simp add: en2 tree same(1) same(2) [symmetric])
  have "block_ref (rt_remove t2 (?seeds @ mine)) x
      = block_ref ?t x + count_list (drop (length ?seeds) (found_blocks ?t full (?seeds @ mine) 0 0)) x" for x
    by (rule claims_left [OF ok(1) life(4) ok(2) pos c(7) t2 [unfolded table] mine(2) more [unfolded table]])
  then show ?thesis using life(1-3) by (auto simp: table nb)
qed

section \<open>The prefill pass\<close>

lemma register_frame: "register_blocks su i full en = (Ok (), en') \<Longrightarrow> en_progress en' = en_progress en"
  by (auto simp: register_blocks_def with_pool_def Let_def split: if_splits prod.splits outcome.splits)

lemma watermark_frame: "apply_watermark su i en = (Ok (), en') \<Longrightarrow> en_progress en' = en_progress en"
  by (auto simp: apply_watermark_def with_pool_def Let_def split: if_splits prod.splits outcome.splits option.splits)

lemma pin_frame: "en_progress (pin_session_blocks su i en) = en_progress en"
  by (simp add: pin_session_blocks_def Let_def)

lemma forward_ran:
  assumes "drive_forward su model i ids ps en = (Ok (), en')"
  shows "\<exists>m ss ss' p'. en_sessions en i = Some ss \<and> su_forward su i m ids ps ss (en_pool en) = (Ok (), ss', p')"
  using assms by (auto simp: drive_forward_def Let_def split: option.splits prod.splits)

lemma chunk_ran:
  assumes "prefill_chunk su i full a t en = (Ok k, en')" and "0 < k" and "a < t"
  shows "k = t - a \<and> en_progress en' i = Some t
    \<and> (\<exists>m ss ss' p'. en_sessions en i = Some ss \<and> su_forward su i m (drop a (take t full)) [a..<t] ss (en_pool en) = (Ok (), ss', p'))"
proof -
  obtain model where m: "model_for_request en i = Some model" and le: "\<not> length full < t"
    using assms(1,2) by (auto simp: prefill_chunk_def split: if_splits option.splits)
  obtain en1 en2 en3 where run: "drive_forward su model i (drop a (take t full)) [a..<t] en = (Ok (), en1)"
    "register_blocks su i full (en1\<lparr>en_progress := (en_progress en1)(i \<mapsto> t)\<rparr>) = (Ok (), en2)"
    "apply_watermark su i en2 = (Ok (), en3)" "k = t - a" "en' = pin_session_blocks su i en3"
    using assms(1) m le by (auto simp: prefill_chunk_def and_then_Ok_iff)
  show ?thesis
    using forward_ran [OF run(1)] register_frame [OF run(2)] watermark_frame [OF run(3)] pin_frame [of su i en3] run(4,5)
    by auto
qed

lemma prefill_pass:
  assumes "prefill_bounds i (en_sched en) = Some (prompt, consumed)" and "drive_prefill_inner su i en = (Ok k, en')" and "0 < k"
  shows "\<exists>a en1 m ss ss' p'. (a = count_of (en_progress en) i \<and> en1 = en
        \<or> claim_prefix su i (full_input en i prompt) en = (Ok a, en1) \<and> count_of (en_progress en) i = 0)
    \<and> a + k = min consumed prompt \<and> en_sessions en1 i = Some ss
    \<and> su_forward su i m (drop a (take (a + k) (full_input en i prompt))) [a..<a + k] ss (en_pool en1) = (Ok (), ss', p')
    \<and> en_progress en' i = Some (a + k)"
proof -
  let ?full = "full_input en i prompt" and ?t = "min consumed prompt"
  let ?first = "if en_radix en \<and> count_of (en_progress en) i = 0 \<and> real_ids en i prompt \<noteq> None \<and> ?full \<noteq> []
    then claim_prefix su i ?full en else (Ok (count_of (en_progress en) i), en)"
  obtain a en1 where f: "?first = (Ok a, en1)" and run: "\<not> ?t \<le> a" "prefill_chunk su i ?full a ?t en1 = (Ok k, en')"
    using assms by (auto simp: drive_prefill_inner_def Let_def and_then_Ok_iff split: if_splits)
  have c: "k = ?t - a" "en_progress en' i = Some ?t"
    "\<exists>m ss ss' p'. en_sessions en1 i = Some ss \<and> su_forward su i m (drop a (take ?t ?full)) [a..<?t] ss (en_pool en1) = (Ok (), ss', p')"
    using chunk_ran [OF run(2) assms(3)] run(1) [unfolded not_le] by blast+
  have "a + k = ?t" using c(1) run(1) by linarith
  moreover have "a = count_of (en_progress en) i \<and> en1 = en
      \<or> claim_prefix su i ?full en = (Ok a, en1) \<and> count_of (en_progress en) i = 0"
    using f by (auto split: if_splits)
  ultimately show ?thesis using c(2,3) by (intro exI [of _ a] exI [of _ en1]) auto
qed

section \<open>What refusals and later passes leave\<close>

text \<open>The pin is noted before the memory gate is asked; a refusal leaves it, although there is no session.\<close>

lemma refused_request_keeps_pin:
  assumes "rq_session r = None" and "farm_decision su r en = PinTo rank"
    and "\<not> passes_envelope su (en\<lparr>en_pins := (en_pins en)(rq_id r \<mapsto> rank)\<rparr>) r
          (placed_device (en\<lparr>en_pins := (en_pins en)(rq_id r \<mapsto> rank)\<rparr>) r (Some rank))"
  shows "\<exists>en'. enqueue_request_with_kv su r en = (Err ''request exceeds current memory envelope'', en')
    \<and> en_pins en' (rq_id r) = Some rank \<and> en_sessions en' = en_sessions en"
  using assms by (simp add: enqueue_request_with_kv_def note_session_def admit_placed_request_def Let_def)

text \<open>A parked request that is refused when it is retried is gone: neither parked nor queued.\<close>

lemma refused_parked_request_lost:
  assumes "en_waitlist en = [r]" and "farm_decision su r (en\<lparr>en_waitlist := []\<rparr>) = Bypass"
    and "\<not> passes_envelope su (en\<lparr>en_waitlist := []\<rparr>) r (placed_device (en\<lparr>en_waitlist := []\<rparr>) r None)"
  shows "retry_scythe_vram_waitlist su en = en\<lparr>en_waitlist := []\<rparr>"
  using assms by (simp add: retry_scythe_vram_waitlist_def admit_placed_request_def Let_def)

text \<open>
  After a registration the seeded blocks count twice: a later pass of a seeded request registers
  nothing before its table has outgrown the registered length by the seeded one.
\<close>

lemma later_pass_skips_seeds_twice:
  assumes "en_seeded en i = Some seeded" and "en_registered en i = Some (length (block_ids (en_sessions en i)))"
    and "length (block_ids s) \<le> length (block_ids (en_sessions en i)) + seeded"
  shows "register_blocks su i full (en\<lparr>en_sessions := (en_sessions en)(i := s)\<rparr>) = (Ok (), en\<lparr>en_sessions := (en_sessions en)(i := s)\<rparr>)"
  using assms by (simp add: register_blocks_def count_of_def Let_def)

end
