(* ===== verification/CacheCalls.thy ===== *)
theory CacheCalls
  imports RequestClaims
begin

text \<open>
  A session's cache as a state machine over the shared pool: what a forward pass can do to it. Every
  call, whatever it answers, keeps the pool in order and the references in balance with the table.
\<close>

section \<open>Calls that move no block\<close>

text \<open>\<open>steady\<close>: table and references stay; pages, cursors, contents and tiers may change.\<close>

definition steady :: "paged_cache \<times> kv_block_pool \<Rightarrow> paged_cache \<times> kv_block_pool \<Rightarrow> bool" where
  "steady x y \<longleftrightarrow> pc_table (fst y) = pc_table (fst x) \<and> pc_block_table_u32 (fst y) = pc_block_table_u32 (fst x)
     \<and> kp_ref_counts (snd y) = kp_ref_counts (snd x) \<and> kp_free_list (snd y) = kp_free_list (snd x)
     \<and> kp_tree (snd y) = kp_tree (snd x) \<and> (pool_inv (snd x) \<longrightarrow> pool_inv (snd y))"

lemma steady_refl [simp]: "steady x x"
  by (simp add: steady_def)

lemma steady_trans: "steady x y \<Longrightarrow> steady y z \<Longrightarrow> steady x z"
  by (simp add: steady_def)

lemma steady_cache: "pc_table c' = pc_table c \<Longrightarrow> pc_block_table_u32 c' = pc_block_table_u32 c \<Longrightarrow> steady (c, p) (c', p)"
  by (simp add: steady_def)

lemma store_row_lengths:
  "store_row layer ps n pos stride kf vf tok b = Some b'
    \<Longrightarrow> length (kb_key_data b') = length (kb_key_data b) \<and> length (kb_value_data b') = length (kb_value_data b)"
  by (auto simp: store_row_def Let_def copy_rows_def split: if_splits option.splits)

lemma pack_layer_cases:
  "pack_layer pk layer i p = p \<or> (\<exists>fmt bs n. pack_layer pk layer i p = snd (try_write_layer_packed p i layer fmt bs n))"
proof -
  let ?P = "\<lambda>q. q = p \<or> (\<exists>fmt bs n. q = snd (try_write_layer_packed p i layer fmt bs n))"
  have w: "?P (snd (try_write_layer_packed p i layer fmt bs n))" for fmt bs n by blast
  show "?P (pack_layer pk layer i p)"
    unfolding pack_layer_def Let_def by (auto intro!: w split: option.split simp del: not_gr_zero)
qed

lemma write_packed_keeps:
  "kp_ref_counts (snd (try_write_layer_packed p i layer fmt bs n)) = kp_ref_counts p"
  "kp_free_list (snd (try_write_layer_packed p i layer fmt bs n)) = kp_free_list p"
  "kp_tree (snd (try_write_layer_packed p i layer fmt bs n)) = kp_tree p"
  by (simp_all add: try_write_layer_packed_def mark_dirty_def)

lemma pack_layer_keeps:
  "kp_ref_counts (pack_layer pk layer i p) = kp_ref_counts p" "kp_free_list (pack_layer pk layer i p) = kp_free_list p"
  "kp_tree (pack_layer pk layer i p) = kp_tree p" "pool_inv p \<Longrightarrow> pool_inv (pack_layer pk layer i p)"
  using pack_layer_cases [of pk layer i p] write_packed_keeps [of p i layer] write_packed_inv [of p i layer] by metis+

lemma store_steady:
  assumes i: "i < cap p" and b: "store_row layer ps n pos stride kf vf tok (blk p i) = Some b"
    and c: "pc_table c' = pc_table c" "pc_block_table_u32 c' = pc_block_table_u32 c"
  shows "steady (c, p) (c', upd_block i (\<lambda>_. b) p)"
    and "steady (c, p) (c', pack_layer pk l i (upd_block i (\<lambda>_. b) p))"
proof -
  have "pool_inv (upd_block i (\<lambda>_. b) p)" if inv: "pool_inv p"
  proof (rule pool_inv_set_block [OF inv i])
    have "length (kb_key_data (blk p i)) = kp_block_elem p" "length (kb_value_data (blk p i)) = kp_block_elem p"
      using inv i bufs_okD by (auto simp: pool_inv_def)
    then show "length (kb_key_data b) = kp_block_elem p" "length (kb_value_data b) = kp_block_elem p"
      using store_row_lengths [OF b] by simp_all
  qed
  then show "steady (c, p) (c', upd_block i (\<lambda>_. b) p)"
    and "steady (c, p) (c', pack_layer pk l i (upd_block i (\<lambda>_. b) p))"
    using c by (simp_all add: steady_def pack_layer_keeps)
qed

lemma write_token_steady:
  assumes run: "write_token e pk layer seq stride kf vf t c p = (r, c', p')"
  shows "steady (c, p) (c', p') \<and> pc_committed c' = pc_committed c"
proof -
  let ?pos = "pc_cursors c ! layer"
  let ?i = "pc_table c ! (?pos div pc_page_size c)"
  have s: "steady (c, p) (c1, upd_block ?i (\<lambda>_. b) p)" "steady (c, p) (c1, pack_layer pk layer ?i (upd_block ?i (\<lambda>_. b) p))"
    if "?i < cap p" "store_row layer (pc_page_size c) (kp_block_elem p) ?pos stride kf vf (t * stride) (blk p ?i) = Some b"
      "pc_table c1 = pc_table c" "pc_block_table_u32 c1 = pc_block_table_u32 c" for b c1
    using store_steady [OF that(1,2)] that(3,4) by blast+
  show ?thesis
    using run s unfolding write_token_def Let_def
    by (auto intro: steady_cache split: if_splits option.splits)
qed

lemma hydrate_block_keeps:
  "pc_table (hydrate_block p layer n c b) = pc_table c"
  "pc_block_table_u32 (hydrate_block p layer n c b) = pc_block_table_u32 c"
  "pc_committed (hydrate_block p layer n c b) = pc_committed c"
  by (simp_all add: hydrate_block_def Let_def split: option.split)

lemma hydrate_fold_keeps:
  "pc_table (foldl (hydrate_block p layer n) c bs) = pc_table c"
  "pc_block_table_u32 (foldl (hydrate_block p layer n) c bs) = pc_block_table_u32 c"
  "pc_committed (foldl (hydrate_block p layer n) c bs) = pc_committed c"
  by (induction bs arbitrary: c) (simp_all add: hydrate_block_keeps)

lemma hydrate_steady:
  "hydrate_seeded layer stride c p = (r, c', p') \<Longrightarrow> steady (c, p) (c', p') \<and> pc_committed c' = pc_committed c"
  by (auto simp: hydrate_seeded_def steady_def hydrate_fold_keeps split: if_splits)

lemma restage_keeps:
  "pc_table (restage_layer p n b kd vd c l) = pc_table c"
  "pc_block_table_u32 (restage_layer p n b kd vd c l) = pc_block_table_u32 c"
  by (simp_all add: restage_layer_def Let_def split: option.split)

lemma restage_fold_keeps:
  "pc_table (foldl (restage_layer p n b kd vd) c ls) = pc_table c"
  "pc_block_table_u32 (foldl (restage_layer p n b kd vd) c ls) = pc_block_table_u32 c"
  by (induction ls arbitrary: c) (simp_all add: restage_keeps)

lemma dirty_fold_keeps:
  "pc_table (foldl (\<lambda>c l. c\<lparr>pc_mirror_dirty := hs_insert (l, b) (pc_mirror_dirty c)\<rparr>) c ls) = pc_table c"
  "pc_block_table_u32 (foldl (\<lambda>c l. c\<lparr>pc_mirror_dirty := hs_insert (l, b) (pc_mirror_dirty c)\<rparr>) c ls) = pc_block_table_u32 c"
  by (induction ls arbitrary: c) simp_all

lemma promote_steady:
  assumes "promote_to_gpu e p b = (r, p')" and "pc_table c' = pc_table c" "pc_block_table_u32 c' = pc_block_table_u32 c"
    and "pool_inv p"
  shows "steady (c, p) (c', p')"
  using promote_inv [OF assms(4), of e b] assms(1-3) by (simp add: steady_def)

lemma repromote_loop_steady:
  "pool_inv p \<Longrightarrow> repromote_loop e n bs c p = (r, c', p') \<Longrightarrow> steady (c, p) (c', p')"
proof (induction bs arbitrary: c p)
  case Nil
  then show ?case by simp
next
  case (Cons b bs)
  obtain a p1 where pr: "promote_to_gpu e p b = (a, p1)" by fastforce
  have inv: "pool_inv p1" using promote_inv [OF Cons.prems(1), of e b] pr by simp
  have one: "steady (c, p) (c1, p1)" if "pc_table c1 = pc_table c" "pc_block_table_u32 c1 = pc_block_table_u32 c" for c1
    by (rule promote_steady [OF pr that Cons.prems(1)])
  show ?case
  proof (cases a)
    case (Ok kv)
    show ?thesis
    proof (cases kv)
      case None
      then have "repromote_loop e n bs c p1 = (r, c', p')" using Cons.prems(2) pr Ok by simp
      from Cons.IH [OF inv this] show ?thesis using one [of c] steady_trans by blast
    next
      case (Some x)
      obtain kd vd where x: "x = (kd, vd)" by (cases x)
      let ?c1 = "foldl (restage_layer p1 n b kd vd) c [0..<length (pc_k_pages c)]"
      let ?c2 = "foldl (\<lambda>c l. c\<lparr>pc_mirror_dirty := hs_insert (l, b) (pc_mirror_dirty c)\<rparr>) ?c1 [0..<length (pc_k_pages ?c1)]"
      have "repromote_loop e n bs ?c2 p1 = (r, c', p')" using Cons.prems(2) pr Ok Some x by (simp add: Let_def)
      from Cons.IH [OF inv this] one [of ?c2] show ?thesis
        using steady_trans by (simp add: restage_fold_keeps dirty_fold_keeps)
    qed
  qed (use Cons.prems(2) pr one [of c] in auto)
qed

lemma repromote_steady:
  "pool_inv p \<Longrightarrow> check_and_repromote_blocks e stride c p = (r, c', p') \<Longrightarrow> steady (c, p) (c', p')"
  using repromote_loop_steady by (auto simp: check_and_repromote_blocks_def split: option.splits)

text \<open>The token loop takes no block, once the table has room for the tokens.\<close>

lemma append_tokens_steady:
  assumes "append_tokens e pk layer seq stride kf vf ts c p = (r, c', p')"
    and "layer = 0 \<Longrightarrow> div_ceil (pc_committed c + length ts) BLOCK_SIZE \<le> length (pc_table c)"
  shows "steady (c, p) (c', p')"
  using assms
proof (induction ts arbitrary: c p)
  case Nil
  then show ?case by simp
next
  case (Cons t ts)
  let ?c1 = "if layer = 0 then c\<lparr>pc_committed := pc_committed c + 1\<rparr> else c"
  have slot: "(if layer = 0 then append_slot e c p else (Ok (), c, p)) = (Ok (), ?c1, p)"
  proof (cases "layer = 0")
    case True
    have "div_ceil (pc_committed c + 1) BLOCK_SIZE \<le> div_ceil (pc_committed c + length (t # ts)) BLOCK_SIZE"
      by (rule div_ceil_BLOCK_mono) simp
    then have "div_ceil (pc_committed c + 1) BLOCK_SIZE \<le> length (pc_table c)" using Cons.prems(2) [OF True] by linarith
    then show ?thesis using True by (simp add: append_slot_def)
  qed simp
  obtain a c2 p2 where w: "write_token e pk layer seq stride kf vf t ?c1 p = (a, c2, p2)" by (metis prod_cases3)
  have s1: "steady (c, p) (?c1, p)" by (rule steady_cache) simp_all
  have s2: "steady (c, p) (c2, p2)" and com: "pc_committed c2 = pc_committed ?c1"
    using steady_trans [OF s1] write_token_steady [OF w] by blast+
  show ?case
  proof (cases a)
    case (Ok u)
    have rest: "append_tokens e pk layer seq stride kf vf ts c2 p2 = (r, c', p')"
      using Cons.prems(1) slot w Ok by simp
    have "steady (c2, p2) (c', p')"
      by (rule Cons.IH [OF rest]) (use Cons.prems(2) com s2 in \<open>simp add: steady_def\<close>)
    then show ?thesis using s2 steady_trans by blast
  qed (use Cons.prems(1) slot w s2 in auto)
qed

section \<open>The calls\<close>

text \<open>
  \<open>kept\<close>: the table is backed by references, cached content is not free. \<open>balanced\<close>: what the table
  gained, the pool counts as new references; so no other holder loses one.
\<close>

definition kept :: "paged_cache \<times> kv_block_pool \<Rightarrow> bool" where
  "kept x \<longleftrightarrow> own (fst x) (snd x) \<and> cache_kept (snd x)"

definition balanced :: "paged_cache \<times> kv_block_pool \<Rightarrow> paged_cache \<times> kv_block_pool \<Rightarrow> bool" where
  "balanced x y \<longleftrightarrow> (\<forall>b. count_list (pc_table (fst y)) b + kp_block_ref_count (snd x) b
     \<le> count_list (pc_table (fst x)) b + kp_block_ref_count (snd y) b)"

lemma balanced_trans: "balanced x y \<Longrightarrow> balanced y z \<Longrightarrow> balanced x z"
proof -
  assume a: "balanced x y" and b: "balanced y z"
  show "balanced x z" unfolding balanced_def
  proof
    fix i
    show "count_list (pc_table (fst z)) i + kp_block_ref_count (snd x) i
        \<le> count_list (pc_table (fst x)) i + kp_block_ref_count (snd z) i"
      using a [unfolded balanced_def, rule_format, of i] b [unfolded balanced_def, rule_format, of i] by linarith
  qed
qed

lemma steady_keeps: "steady x y \<Longrightarrow> kept x \<Longrightarrow> kept y \<and> balanced x y"
  by (simp add: steady_def kept_def balanced_def own_def cache_kept_def kp_block_ref_count_def)

text \<open>A call: the appends and the drafts take their blocks from the free list.\<close>

inductive cache_call :: "paged_cache \<times> kv_block_pool \<Rightarrow> paged_cache \<times> kv_block_pool \<Rightarrow> bool" where
  call_append: "layer = 0 \<longrightarrow>
      div_ceil (pc_committed c + fst (seq_stride dims kf)) BLOCK_SIZE - length (pc_table c) \<le> length (kp_free_list p)
    \<Longrightarrow> cache_call (c, p) (snd (append_kv_layer e pk layer dims kf vf c p))"
| call_draft: "div_ceil (pc_len c + n) BLOCK_SIZE - length (pc_table c) \<le> length (kp_free_list p)
    \<Longrightarrow> cache_call (c, p) (snd (tentative_append e n c p))"
| call_commit: "cache_call (c, p) (snd (pc_commit e n c p))"
| call_rollback: "cache_call (c, p) (snd (rollback_to e n c p))"
| call_repromote: "cache_call (c, p) (snd (check_and_repromote_blocks e stride c p))"
| call_hydrate: "cache_call (c, p) (write_layer_block layer b k v c, p)"

lemma reserve_keeps:
  assumes k: "kept (c, p)" and room: "n \<le> length (kp_free_list p)"
  shows "\<exists>c' p'. reserve e n c p = (Ok (), c', p') \<and> kept (c', p') \<and> balanced (c, p) (c', p')
    \<and> pc_committed c' = pc_committed c \<and> length (pc_table c') = length (pc_table c) + n"
proof -
  have o: "own c p" and ck: "cache_kept p" using k by (simp_all add: kept_def)
  obtain p' where p': "reserve e n c p = (Ok (), push_blocks (take n (kp_free_list p)) c, p')"
    "own (push_blocks (take n (kp_free_list p)) c) p'" "kp_free_list p' = drop n (kp_free_list p)" "kp_tree p' = kp_tree p"
    "\<forall>j. kp_block_ref_count p' j = kp_block_ref_count p j + count_list (take n (kp_free_list p)) j"
    using reserve_spec [OF o room, of e] by blast
  have "cache_kept p'" using ck set_drop_subset [of n "kp_free_list p"] unfolding cache_kept_def p'(3,4) by blast
  then show ?thesis using p' room by (simp add: kept_def balanced_def)
qed

lemma append_keeps:
  assumes k: "kept (c, p)" and room: "layer = 0 \<longrightarrow>
      div_ceil (pc_committed c + fst (seq_stride dims kf)) BLOCK_SIZE - length (pc_table c) \<le> length (kp_free_list p)"
  shows "kept (snd (append_kv_layer e pk layer dims kf vf c p))
    \<and> balanced (c, p) (snd (append_kv_layer e pk layer dims kf vf c p))"
proof -
  obtain seq stride where ss: "seq_stride dims kf = (seq, stride)" by fastforce
  let ?c1 = "grow_pages layer seq stride c"
  let ?need = "if layer = 0 then div_ceil (pc_committed ?c1 + seq) BLOCK_SIZE - length (pc_table ?c1) else 0"
  have g: "pc_table ?c1 = pc_table c" "pc_block_table_u32 ?c1 = pc_block_table_u32 c" "pc_committed ?c1 = pc_committed c"
    by (simp_all add: grow_pages_def Let_def)
  show ?thesis
  proof (cases "stride = 0 \<or> seq = 0")
    case True
    then show ?thesis using k ss by (auto simp: append_kv_layer_def balanced_def)
  next
    case False
    have s1: "steady (c, p) (?c1, p)" by (rule steady_cache) (simp_all add: g)
    note k1 = steady_keeps [OF s1 k]
    have need: "?need \<le> length (kp_free_list p)" unfolding g using room ss by simp
    obtain c2 p2 where r: "reserve e ?need ?c1 p = (Ok (), c2, p2)" "kept (c2, p2)" "balanced (?c1, p) (c2, p2)"
      "pc_committed c2 = pc_committed ?c1" "length (pc_table c2) = length (pc_table ?c1) + ?need"
      using reserve_keeps [OF conjunct1 [OF k1] need, of e] by blast
    obtain a3 c3 p3 where h: "hydrate_seeded layer stride c2 p2 = (a3, c3, p3)" by (metis prod_cases3)
    obtain a4 c4 p4 where t: "append_tokens e pk layer seq stride kf vf [0..<seq] c3 p3 = (a4, c4, p4)" by (metis prod_cases3)
    obtain a5 c5 p5 where v: "check_and_repromote_blocks e stride c4 p4 = (a5, c5, p5)" by (metis prod_cases3)
    have s3: "steady (c2, p2) (c3, p3)" "pc_committed c3 = pc_committed c2" using hydrate_steady [OF h] by auto
    have "pc_table c3 = pc_table c2" using s3(1) by (simp add: steady_def)
    then have s4: "steady (c3, p3) (c4, p4)"
      by (intro append_tokens_steady [OF t]) (use r(4,5) s3(2) in simp)
    have s24: "steady (c2, p2) (c4, p4)" by (rule steady_trans [OF s3(1) s4])
    then have "pool_inv p4" using r(2) by (simp add: steady_def kept_def own_def)
    from steady_trans [OF s24 repromote_steady [OF this v]] have s25: "steady (c2, p2) (c5, p5)" .
    have all: "kept y \<and> balanced (c, p) y" if "steady (c2, p2) y" for y
      using steady_keeps [OF that r(2)] balanced_trans [OF balanced_trans [OF conjunct2 [OF k1] r(3)]] by blast
    have "snd (append_kv_layer e pk layer dims kf vf c p) \<in> {(c3, p3), (c4, p4), (c5, p5)}"
      using False ss r(1) h t v by (cases a3; cases a4) (simp_all add: append_kv_layer_def Let_def)
    then show ?thesis using all s3(1) s24 s25 by auto
  qed
qed

lemma trim_keeps:
  assumes k: "kept (c, p)"
  shows "kept (snd (trim_table e c p)) \<and> balanced (c, p) (snd (trim_table e c p))"
proof -
  have o: "own c p" and ck: "cache_kept p" using k by (simp_all add: kept_def)
  let ?keep = "div_ceil (pc_committed c) BLOCK_SIZE"
  obtain c' p' where t: "trim_table e c p = (Ok (), c', p')" "own c' p'" "pc_table c' = take ?keep (pc_table c)"
    "\<forall>b. kp_block_ref_count p' b = kp_block_ref_count p b - count_list (drop ?keep (pc_table c)) b"
    using trim_table_spec [OF o, of e] by blast
  have inv: "pool_inv p" and len: "length (pc_block_table_u32 c) = length (pc_table c)" using o by (auto simp: own_def)
  let ?n = "length (pc_table c) - (if pc_committed c = 0 then 0 else ?keep)"
  have "p' = foldl (free_of e) p (rev (drop (length (pc_table c) - ?n) (pc_table c)))"
    using t(1) release_tail_eq [OF inv _ len, of ?n e] by (simp add: trim_table_def)
  then have ck': "cache_kept p'" using release_all_kept [OF inv] ck by simp
  have "count_list (take ?keep (pc_table c)) b + kp_block_ref_count p b
      \<le> count_list (pc_table c) b + (kp_block_ref_count p b - count_list (drop ?keep (pc_table c)) b)" for b
    using count_list_take_drop [of ?keep "pc_table c" b] by linarith
  then show ?thesis using t ck' by (simp add: kept_def balanced_def)
qed

lemma draft_keeps:
  assumes k: "kept (c, p)" and room: "div_ceil (pc_len c + n) BLOCK_SIZE - length (pc_table c) \<le> length (kp_free_list p)"
  shows "kept (snd (tentative_append e n c p)) \<and> balanced (c, p) (snd (tentative_append e n c p))"
proof (cases "n = 0")
  case True
  then show ?thesis using k by (simp add: tentative_append_def balanced_def)
next
  case False
  obtain c' p' where r: "reserve e (div_ceil (pc_len c + n) BLOCK_SIZE - length (pc_table c)) c p = (Ok (), c', p')"
    "kept (c', p')" "balanced (c, p) (c', p')"
    using reserve_keeps [OF k room, of e] by blast
  have "steady (c', p') (c'\<lparr>pc_tentative := pc_tentative c' + n\<rparr>, p')" by (rule steady_cache) simp_all
  from steady_keeps [OF this r(2)] have "kept (c'\<lparr>pc_tentative := pc_tentative c' + n\<rparr>, p')"
    "balanced (c, p) (c'\<lparr>pc_tentative := pc_tentative c' + n\<rparr>, p')" using balanced_trans [OF r(3)] by blast+
  then show ?thesis using False r(1) by (simp add: tentative_append_def pc_len_def)
qed

lemma cache_call_keeps: "cache_call x y \<Longrightarrow> kept x \<Longrightarrow> kept y \<and> balanced x y"
proof (induction rule: cache_call.induct)
  case (call_commit c p e n)
  let ?c = "c\<lparr>pc_committed := pc_committed c + min n (pc_tentative c), pc_tentative := 0\<rparr>"
  have "steady (c, p) (?c, p)" by (rule steady_cache) simp_all
  from steady_keeps [OF this call_commit] show ?case using trim_keeps [of ?c p e] balanced_trans by (simp add: pc_commit_def) blast
next
  case (call_rollback c p e n)
  let ?c = "c\<lparr>pc_committed := min (pc_committed c) n, pc_tentative := 0\<rparr>"
  have "steady (c, p) (?c, p)" by (rule steady_cache) simp_all
  from steady_keeps [OF this call_rollback] show ?case using trim_keeps [of ?c p e] balanced_trans by (simp add: rollback_to_def) blast
next
  case (call_repromote c p e stride)
  obtain r c' p' where run: "check_and_repromote_blocks e stride c p = (r, c', p')" by (metis prod_cases3)
  have "pool_inv p" using call_repromote by (simp add: kept_def own_def)
  from steady_keeps [OF repromote_steady [OF this run] call_repromote] show ?case by (simp add: run)
next
  case (call_hydrate c p layer b k v)
  have "steady (c, p) (write_layer_block layer b k v c, p)"
    by (rule steady_cache) (simp_all add: write_layer_block_def Let_def)
  from steady_keeps [OF this call_hydrate] show ?case .
next
  case (call_append layer c dims kf p e pk vf)
  from append_keeps [OF call_append(2,1)] show ?case .
next
  case (call_draft c n p e)
  from draft_keeps [OF call_draft(2,1)] show ?case .
qed

lemma cache_calls_keep: "cache_call\<^sup>*\<^sup>* x y \<Longrightarrow> kept x \<Longrightarrow> kept y \<and> balanced x y"
proof (induction rule: rtranclp_induct)
  case base
  then show ?case by (simp add: balanced_def)
next
  case (step y z)
  then show ?case using cache_call_keeps balanced_trans by blast
qed

end
