(* ===== verification/EngineRuns.thy ===== *)
theory EngineRuns
  imports CacheCalls
begin

text \<open>
  The engine as a step relation: admission, claims, forward passes, registration, demotion beyond the
  watermark, pins, finish. Every step keeps the blocks of all sessions backed.
\<close>

section \<open>Forward passes\<close>

text \<open>
  A network reaches the keys and values only through the calls of its session's cache;
  \<open>through_cache\<close> says so of one run of it, with the blocks of its appends taken from the free list.
\<close>

definition through_cache :: "surroundings \<Rightarrow> string \<Rightarrow> nat \<Rightarrow> u32 list \<Rightarrow> nat list \<Rightarrow> engine \<Rightarrow> bool" where
  "through_cache su model i ids ps en \<longleftrightarrow>
     (case en_sessions en i of
        None \<Rightarrow> True
      | Some ss \<Rightarrow> (case su_forward su i (effective_model_id en i model) ids ps ss (en_pool en) of
          (r, ss', p') \<Rightarrow> cache_call\<^sup>*\<^sup>* (ss_cache ss, en_pool en) (ss_cache ss', p')))"

lemma backed_kept: "backed en \<Longrightarrow> en_sessions en i = Some ss \<Longrightarrow> kept (ss_cache ss, en_pool en)"
  using backed_own by (simp add: kept_def backed_def)

text \<open>Replacing one session's cache, in balance, keeps all sessions backed.\<close>

lemma backed_balanced:
  assumes b: "backed en" and s: "en_sessions en i = Some ss"
    and k: "kept (ss_cache ss', p')" "balanced (ss_cache ss, en_pool en) (ss_cache ss', p')"
  shows "backed (en\<lparr>en_sessions := (en_sessions en)(i \<mapsto> ss'), en_pool := p'\<rparr>)"
proof -
  have "held ((en_sessions en)(i \<mapsto> ss')) x \<le> kp_block_ref_count p' x" for x
  proof -
    have "held ((en_sessions en)(i \<mapsto> ss')) x + entries (en_sessions en i) x = held (en_sessions en) x + entries (Some ss') x"
      using held_insert [of "en_sessions en" i ss' x] b unfolding backed_def by blast
    moreover have "held (en_sessions en) x \<le> kp_block_ref_count (en_pool en) x" using b by (simp add: backed_def)
    moreover have "entries (Some ss') x + kp_block_ref_count (en_pool en) x \<le> entries (en_sessions en i) x + kp_block_ref_count p' x"
      using k(2) s by (simp add: entries_def balanced_def)
    ultimately show ?thesis by linarith
  qed
  moreover have "\<forall>s \<in> ran ((en_sessions en)(i \<mapsto> ss')). pc_block_table_u32 (ss_cache s) = map word_of_nat (pc_table (ss_cache s))"
    using b k(1) by (auto simp: backed_def kept_def own_def ran_def)
  ultimately show ?thesis using b k(1) by (simp add: backed_def kept_def own_def)
qed

lemma backed_forward:
  assumes b: "backed en" and t: "through_cache su model i ids ps en"
  shows "backed (snd (drive_forward su model i ids ps en))"
proof (cases "map_of (en_models en) (effective_model_id en i model)")
  case m: (Some lm)
  show ?thesis
  proof (cases "en_sessions en i")
    case (Some ss)
    obtain r ss' p' where run: "su_forward su i (effective_model_id en i model) ids ps ss (en_pool en) = (r, ss', p')"
      by (metis prod_cases3)
    have "cache_call\<^sup>*\<^sup>* (ss_cache ss, en_pool en) (ss_cache ss', p')" using t Some run by (simp add: through_cache_def)
    from cache_calls_keep [OF this backed_kept [OF b Some]] show ?thesis
      using backed_balanced [OF b Some, of ss' p'] m Some run by (simp add: drive_forward_def Let_def)
  qed (use b m in \<open>simp add: drive_forward_def Let_def\<close>)
qed (use b in \<open>simp add: drive_forward_def Let_def\<close>)

section \<open>Registration, watermark, pins, hydration\<close>

lemma backed_pool:
  assumes "backed en" and "pool_inv p" "cache_kept p" "kp_ref_counts p = kp_ref_counts (en_pool en)"
    and "en_pool en' = p" "en_sessions en' = en_sessions en"
  shows "backed en'"
  by (rule backed_sessions [OF assms(1)]) (use assms in \<open>simp_all add: kp_block_ref_count_def\<close>)

lemma backed_ids:
  assumes b: "backed en" and cap: "cap (en_pool en) \<le> 2 ^ 32"
  shows "set (block_ids (en_sessions en i)) \<subseteq> {..<cap (en_pool en)} - set (kp_free_list (en_pool en))"
proof (cases "en_sessions en i")
  case (Some ss)
  have o: "own (ss_cache ss) (en_pool en)" by (rule backed_own [OF b Some])
  have u: "pc_block_table_u32 (ss_cache ss) = map word_of_nat (pc_table (ss_cache ss))" using o by (simp add: own_def)
  have "unat (word_of_nat x :: u32) = x" if "x \<in> set (pc_table (ss_cache ss))" for x
    using own_range(1) [OF o that] cap by (simp add: unat_of_nat take_bit_nat_eq_self)
  then have "set (block_ids (en_sessions en i)) \<subseteq> set (pc_table (ss_cache ss))"
    by (auto simp: block_ids_def Some pc_block_table_def u)
  then show ?thesis using own_range [OF o] by blast
qed (simp add: block_ids_def)

lemma backed_register:
  assumes b: "backed en" and cap: "cap (en_pool en) \<le> 2 ^ 32"
    and room: "(length (block_ids (en_sessions en i)) - 1) * BLOCK_SIZE \<le> length full"
    and fresh: "fresh_tail (kp_tree (en_pool en)) full (block_ids (en_sessions en i)) 0 0"
  shows "backed (snd (register_blocks su i full en))"
proof -
  let ?bs = "block_ids (en_sessions en i)" and ?p = "en_pool en" and ?now = "env_now (su_env su)"
  let ?skip = "count_of (en_seeded en) i + count_of (en_registered en) i"
  have inv: "pool_inv ?p" and ck: "cache_kept ?p" using b by (auto simp: backed_def)
  note ids = backed_ids [OF b cap, of i]
  obtain t where t: "dom (rt_block_to_node t) \<subseteq> dom (rt_block_to_node (kp_tree ?p)) \<union> set ?bs"
      "pool_inv (?p\<lparr>kp_tree := rt_touch ?now t full\<rparr>)"
    and run: "insert_prefix_with_recurrent_state_at ?now ?p full ?bs [] ?skip
        = (Ok (), attach_anchor ?now (?p\<lparr>kp_tree := rt_touch ?now t full\<rparr>) full ?bs [])"
    using insert_at_spec [OF inv _ room fresh, of ?now ?skip "[]"] ids by blast
  let ?q = "attach_anchor ?now (?p\<lparr>kp_tree := rt_touch ?now t full\<rparr>) full ?bs []"
  have map_q: "rt_block_to_node (kp_tree ?q) = rt_block_to_node t"
    using shape_nth(4) [OF attach_anchor_simps(5)] shape_nth(4) [of "rt_touch ?now t full" t] by simp
  have "cache_kept ?q"
  proof -
    have "set (kp_free_list (en_pool en)) \<inter> dom (rt_block_to_node t) = {}"
      using ck t(1) ids unfolding cache_kept_def by blast
    then show ?thesis unfolding cache_kept_def map_q attach_anchor_simps(4) by simp
  qed
  then have "backed (en\<lparr>en_pool := ?q, en_registered := r\<rparr>)" for r
    by (intro backed_pool [OF b, of ?q]) (use attach_anchor_inv [OF t(2)] in \<open>simp_all add: attach_anchor_simps\<close>)
  then show ?thesis using b run by (auto simp: register_blocks_def Let_def with_pool_def)
qed

lemma demote_keeps:
  assumes inv: "pool_inv p" and run: "demote_prefix_block e p i = (r, p')"
  shows "pool_inv p' \<and> kp_ref_counts p' = kp_ref_counts p \<and> kp_free_list p' = kp_free_list p \<and> kp_tree p' = kp_tree p"
proof (cases "i < cap p")
  case True
  then show ?thesis using demote_prefix_block_inv [OF inv, of i e] run by auto
next
  case False
  then show ?thesis using inv run by (auto simp: demote_prefix_block_def split: option.splits)
qed

lemma demote_blocks_keep:
  "pool_inv p \<Longrightarrow> demote_blocks e bs p = (r, p') \<Longrightarrow> pool_inv p' \<and> kp_ref_counts p' = kp_ref_counts p
    \<and> kp_free_list p' = kp_free_list p \<and> kp_tree p' = kp_tree p"
proof (induction bs arbitrary: p)
  case (Cons b bs)
  obtain a p1 where d: "demote_prefix_block e p b = (a, p1)" by fastforce
  note k = demote_keeps [OF Cons.prems(1) d]
  show ?case using Cons.IH [of p1] Cons.prems(2) k d by (cases a) auto
qed simp

lemma backed_watermark:
  assumes b: "backed en"
  shows "backed (snd (apply_watermark su i en))"
proof -
  have inv: "pool_inv (en_pool en)" and ck: "cache_kept (en_pool en)" using b by (auto simp: backed_def)
  have "backed (en\<lparr>en_pool := p'\<rparr>)" if "demote_blocks (su_env su) bs (en_pool en) = (r, p')" for bs r p'
    by (rule backed_pool [OF b]) (use demote_blocks_keep [OF inv that] ck in \<open>simp_all add: cache_kept_def\<close>)
  then show ?thesis using b
    by (auto simp: apply_watermark_def Let_def with_pool_def split: option.split prod.split outcome.split)
qed

lemma backed_pins:
  assumes b: "backed en"
  shows "backed (pin_session_blocks su i en)"
proof -
  have s: "shape (rt_pin_blocks now t bs secs) = shape t" "shape (rt_sweep_expired_pins now t) = shape t"
    for now t bs secs by simp_all
  have "backed (en\<lparr>en_pool := kp_pin_blocks now (en_pool en) bs secs\<rparr>)" for now bs secs
    by (rule backed_pool [OF b, of "kp_pin_blocks now (en_pool en) bs secs"])
      (use b pool_inv_pin shape_nth(4) [OF s(1)] shape_nth(4) [OF s(2)] in \<open>simp_all add: backed_def cache_kept_def kp_pin_blocks_def\<close>)
  then show ?thesis using b by (simp add: pin_session_blocks_def Let_def)
qed

lemma hydrate_layers_steady: "steady (c, p) (fold (hydrate_layer q) bls c, p)"
proof (induction bls arbitrary: c)
  case (Cons bl bls)
  have "steady (c, p) (hydrate_layer q bl c, p)"
    by (rule steady_cache) (simp_all add: hydrate_layer_def write_layer_block_def Let_def split: prod.split)
  then show ?case using steady_trans [OF _ Cons.IH [of "hydrate_layer q bl c"]] by simp
qed simp

lemma backed_hydrate:
  assumes b: "backed en"
  shows "backed (hydrate_session_from_pool i en)"
proof (cases "en_sessions en i")
  case (Some ss)
  let ?c = "fold (hydrate_layer (en_pool en)) (received_payload (en_pool en)) (ss_cache ss)"
  note k = steady_keeps [OF hydrate_layers_steady backed_kept [OF b Some]]
  have "kept (?c, en_pool en)" "balanced (ss_cache ss, en_pool en) (?c, en_pool en)" using k by blast+
  then have "backed (en\<lparr>en_sessions := (en_sessions en)(i \<mapsto> ss\<lparr>ss_cache := ?c\<rparr>), en_pool := en_pool en\<rparr>)"
    by (intro backed_balanced [OF b Some]) simp_all
  then show ?thesis by (simp add: hydrate_session_from_pool_def Some)
qed (simp add: hydrate_session_from_pool_def b)

section \<open>What finishing takes from the tree\<close>

lemma finish_tree:
  assumes b: "backed en" and s: "en_sessions en i = Some ss" and cap: "cap (en_pool en) \<le> 2 ^ 32"
  shows "block_ref (kp_tree (drop_claims i en)) x = block_ref (kp_tree (en_pool en)) x
      - (if en_radix en \<and> (en_seeded en i \<noteq> None \<or> en_registered en i \<noteq> None) then count_list (pc_table (ss_cache ss)) x else 0)"
    and "kp_match_prefix (drop_claims i en) tokens = kp_match_prefix (en_pool en) tokens"
proof -
  have wf: "rt_wf (kp_tree (en_pool en))" using b by (simp add: backed_def pool_inv_def tree_ok_def)
  have o: "own (ss_cache ss) (en_pool en)" by (rule backed_own [OF b s])
  have "block_ids (en_sessions en i) = pc_table (ss_cache ss)"
    using block_ids_table [of "ss_cache ss" "cap (en_pool en)" "ss_device ss" "ss_pos ss"] own_range(1) [OF o] o cap
    by (cases ss) (auto simp: s own_def)
  then show "block_ref (kp_tree (drop_claims i en)) x = block_ref (kp_tree (en_pool en)) x
      - (if en_radix en \<and> (en_seeded en i \<noteq> None \<or> en_registered en i \<noteq> None) then count_list (pc_table (ss_cache ss)) x else 0)"
    using block_ref_remove [OF wf] by (auto simp: drop_claims_def remove_prefix_def)
  have sh: "shape (kp_tree (drop_claims i en)) = shape (kp_tree (en_pool en))" by (simp add: drop_claims_def remove_prefix_def)
  have root: "rt_root (kp_tree (en_pool en)) = 0" "0 < nn (kp_tree (en_pool en))" using wf by (simp_all add: rt_wf_def)
  show "kp_match_prefix (drop_claims i en) tokens = kp_match_prefix (en_pool en) tokens"
    using path_blocks_shape [OF sh wf root(2), of tokens 0] shape_nth(2,3) [OF sh] root(1)
      arg_cong [OF path_blocks_shape [OF sh wf root(2), of tokens 0], of length, unfolded length_path_blocks]
    by (simp add: kp_match_prefix_def rt_match_prefix_eq)
qed

section \<open>Runs\<close>

text \<open>
  One step of an engine. A forward pass goes through the session's cache; blocks are registered that
  the tree does not cache yet past the ones it reuses, one more than the tokens fill at most.
\<close>

inductive engine_step :: "surroundings \<Rightarrow> engine \<Rightarrow> engine \<Rightarrow> bool" for su where
  step_enqueue: "engine_step su en (snd (enqueue_request_with_kv su r en))"
| step_retry: "engine_step su en (retry_scythe_vram_waitlist su en)"
| step_hydrate: "engine_step su en (hydrate_session_from_pool i en)"
| step_claim: "engine_step su en (snd (claim_prefix su i full en))"
| step_forward: "through_cache su model i ids ps en \<Longrightarrow> engine_step su en (snd (drive_forward su model i ids ps en))"
| step_register: "cap (en_pool en) \<le> 2 ^ 32 \<Longrightarrow> (length (block_ids (en_sessions en i)) - 1) * BLOCK_SIZE \<le> length full
    \<Longrightarrow> fresh_tail (kp_tree (en_pool en)) full (block_ids (en_sessions en i)) 0 0
    \<Longrightarrow> engine_step su en (snd (register_blocks su i full en))"
| step_watermark: "engine_step su en (snd (apply_watermark su i en))"
| step_pins: "engine_step su en (pin_session_blocks su i en)"
| step_finish: "engine_step su en (snd (finish_request e i en))"
| step_books: "en_sessions en' = en_sessions en \<Longrightarrow> en_pool en' = en_pool en \<Longrightarrow> engine_step su en en'"

lemma engine_step_backed: "engine_step su en en' \<Longrightarrow> backed en \<Longrightarrow> backed en'"
proof (induction rule: engine_step.induct)
  case (step_register en i full)
  from backed_register [OF step_register(4,1-3)] show ?case .
next
  case (step_books en' en)
  then show ?case using backed_cong by blast
next
  case (step_forward model i ids ps en)
  from backed_forward [OF step_forward(2,1)] show ?case .
qed (simp_all add: backed_enqueue backed_retry backed_hydrate backed_claim_prefix backed_watermark backed_pins
      backed_finish)

lemma engine_run_backed: "(engine_step su)\<^sup>*\<^sup>* en en' \<Longrightarrow> backed en \<Longrightarrow> backed en'"
  by (induction rule: rtranclp_induct) (auto intro: engine_step_backed)

end
