(* ===== verification/RequestSpec.thy ===== *)
theory RequestSpec
  imports EngineRuns PagedCacheRows
begin

text \<open>
  The properties of admission, prefill and release: the memory budget a request is admitted under,
  the blocks and tree claims it takes, and what is left of it when it is finished.
\<close>

section \<open>The memory budget\<close>

text \<open>
  C35. The certificate is exact where nothing wraps: as long as the demand, as a natural number, and
  the sum of host allowance and device capacity fit 64 bits, a certificate is issued exactly when the
  demand is at most that sum less the operator's reserve, and it says full residency exactly when the
  demand is at most the device's own capacity less the reserve.
\<close>

theorem certificate_exact:
  assumes "required_nat h (unat seq) (unat batch) (unat bpe) < 2 ^ 64" and "unat seq * top_k h < 2 ^ 64"
    and "unat host + unat device < 2 ^ 64"
  shows "case certify h (standard_boundary host device spare) seq batch bpe oracle of
      Ok c \<Rightarrow> required_nat h (unat seq) (unat batch) (unat bpe) \<le> unat host + unat device - unat spare
        \<and> (mc_full_residency c \<longleftrightarrow> required_nat h (unat seq) (unat batch) (unat bpe) \<le> unat device - unat spare)
    | _ \<Rightarrow> unat host + unat device - unat spare < required_nat h (unat seq) (unat batch) (unat bpe)"
proof -
  let ?n = "required_nat h (unat seq) (unat batch) (unat bpe)"
    and ?w = "total_required (compute_detailed_memory_bounds h seq batch bpe)"
    and ?bv = "standard_boundary host device spare"
  have w: "unat ?w = ?n"
    unfolding total_required_nat [OF assms(2)] using assms(1) by (simp add: unat_of_nat take_bit_nat_eq_self)
  have all: "unat (combined_usable ?bv) = unat host + unat device - unat spare"
    using assms(3) by (simp add: combined_usable_def standard_boundary_def unat_sat_sub unat_word_ariths)
  have dcap: "unat (sat_sub (bv_device_capacity ?bv) (bv_operator_reserve ?bv)) = unat device - unat spare"
    by (simp add: standard_boundary_def unat_sat_sub)
  have le: "?w \<le> combined_usable ?bv \<longleftrightarrow> ?n \<le> unat host + unat device - unat spare"
    "?w \<le> sat_sub (bv_device_capacity ?bv) (bv_operator_reserve ?bv) \<longleftrightarrow> ?n \<le> unat device - unat spare"
    by (simp_all add: word_le_nat_alt w all dcap)
  show ?thesis
  proof (cases "\<exists>c. certify h ?bv seq batch bpe oracle = Ok c")
    case True
    then obtain c where c: "certify h ?bv seq batch bpe oracle = Ok c" by blast
    have "?n \<le> unat host + unat device - unat spare" using True unfolding certify_Ok_iff le .
    then show ?thesis using certify_full [OF c] by (simp add: le c)
  next
    case False
    then have n: "\<not> ?n \<le> unat host + unat device - unat spare" unfolding certify_Ok_iff le .
    show ?thesis
    proof (cases "certify h ?bv seq batch bpe oracle")
      case (Ok c)
      then show ?thesis using False by blast
    qed (use n in simp_all)
  qed
qed

theorem certificate_exact_witness:
  "\<exists>c. certify default_hyperparameters (standard_boundary 0 (24 * GIB) 0) 2048 1 2 [] = Ok c \<and> mc_full_residency c"
proof -
  have n: "required_nat default_hyperparameters (unat (2048 :: u64)) (unat (1 :: u64)) (unat (2 :: u64)) = 14584119296"
    by (simp add: required_nat_def demanded_nat_def attn_layer_nat_def default_hyperparameters_def)
  have k: "unat (2048 :: u64) * top_k default_hyperparameters = 4096"
    by (simp add: top_k_def default_hyperparameters_def)
  have g: "unat (24 * GIB) = 25769803776" by (simp add: GIB_def)
  show ?thesis
    using certificate_exact [of default_hyperparameters 2048 1 2 0 "24 * GIB" 0 "[]"]
    unfolding n k g by (cases "certify default_hyperparameters (standard_boundary 0 (24 * GIB) 0) 2048 1 2 []") simp_all
qed

text \<open>
  C36. The context that is fitted to a card fits it and is the longest that does: it is at most the
  wanted one, its arenas, at the bytes a token takes over the attention layers, fit what weights and
  headroom leave of the budget, and no aligned context between it and the wanted one would.
\<close>

theorem context_fits:
  fixes kv_heads head_dim bpe :: u64 and layers interval :: nat
  defines "per \<equiv> unat kv_heads * unat head_dim * 2 * unat bpe * (layers div max interval 1)"
  assumes "per < 2 ^ 64" and "layers < 2 ^ 64" and "0 < per"
    and "c = fit_context_to_vram kv_heads head_dim layers interval bpe weights vram headroom wanted"
  shows "c \<le> wanted \<and> c * per \<le> unat vram - unat weights - unat headroom
    \<and> (max interval 1 dvd m \<longrightarrow> m \<le> wanted \<longrightarrow> m * per \<le> unat vram - unat weights - unat headroom \<longrightarrow> m \<le> c)"
proof -
  let ?w = "kv_bytes_per_token kv_heads head_dim layers interval bpe"
  let ?free = "sat_sub (sat_sub vram weights) headroom" and ?i = "max interval 1"
  have w: "unat ?w = per" using per_token_exact assms(2,3) unfolding per_def by blast
  have f: "unat ?free = unat vram - unat weights - unat headroom" by (simp add: unat_sat_sub)
  have nz: "?w \<noteq> 0" using w assms(4) by auto
  let ?fits = "(unat vram - unat weights - unat headroom) div per"
  have c: "c = min (?fits div ?i * ?i) wanted"
  proof (cases "?free = 0")
    case True
    then have "unat vram - unat weights - unat headroom = 0" using f by simp
    then show ?thesis using True nz by (simp add: assms(5) fit_context_to_vram_def Let_def)
  next
    case False
    then show ?thesis using nz by (simp add: assms(5) fit_context_to_vram_def Let_def unat_div f w)
  qed
  have "c * per \<le> unat vram - unat weights - unat headroom"
  proof -
    have "c \<le> ?fits div ?i * ?i" unfolding c by (rule min.cobounded1)
    also have "\<dots> \<le> ?fits" by (rule div_times_less_eq_dividend)
    finally have "c * per \<le> ?fits * per" by (rule mult_le_mono1)
    also have "\<dots> \<le> unat vram - unat weights - unat headroom" by (rule div_times_less_eq_dividend)
    finally show ?thesis .
  qed
  moreover have "m \<le> c" if "?i dvd m" "m \<le> wanted" "m * per \<le> unat vram - unat weights - unat headroom"
  proof -
    have "m \<le> ?fits" using that(3) assms(4) by (simp add: less_eq_div_iff_mult_less_eq)
    then have "m div ?i * ?i \<le> ?fits div ?i * ?i" by (intro mult_le_mono1 div_le_mono)
    then have "m \<le> ?fits div ?i * ?i" unfolding dvd_div_mult_self [OF that(1)] .
    then show ?thesis using that(2) unfolding c by (rule min.boundedI)
  qed
  ultimately show ?thesis unfolding c by simp
qed

theorem context_fits_witness:
  "fit_context_to_vram 8 128 32 1 2 (16 * GIB) (24 * GIB) GIB 131072 = 57344
    \<and> 57344 * (8 * 128 * 2 * 2 * 32) \<le> (7 * 1073741824 :: nat)"
proof -
  have e: "fit_context_to_vram 8 128 32 1 2 (16 * GIB) (24 * GIB) GIB 131072 = 57344"
    by (simp add: fit_context_to_vram_def kv_bytes_per_token_def attention_layers_div sat_mul_def sat_sub_def GIB_def Let_def)
  have "57344 \<le> (131072 :: nat) \<and> 57344 * (unat (8 :: u64) * unat (128 :: u64) * 2 * unat (2 :: u64) * (32 div max 1 1))
    \<le> unat (24 * GIB) - unat (16 * GIB) - unat GIB \<and> (max 1 1 dvd (0 :: nat) \<longrightarrow> (0 :: nat) \<le> 131072 \<longrightarrow>
      0 * (unat (8 :: u64) * unat (128 :: u64) * 2 * unat (2 :: u64) * (32 div max 1 1))
      \<le> unat (24 * GIB) - unat (16 * GIB) - unat GIB \<longrightarrow> 0 \<le> (57344 :: nat))"
    by (rule context_fits) (simp_all add: e [unfolded One_nat_def])
  then show ?thesis using e by (simp add: GIB_def)
qed

text \<open>
  The certificate wraps: for a request of 2^50 tokens, key-value cache and activations are
  multiples of 2^64 bytes and count as nothing, so on a card that holds the weights the gate admits
  it, although it asks for more than 2^68 bytes.
\<close>

theorem endless_request_admitted:
  assumes "named_model r = None" and "first_loaded en = Some m" and "lm_hparams m = Some default_hyperparameters"
    and "su_free su dev = Some (24 * GIB)" and "target_tokens r = 2 ^ 50" and "su_host_gb su = 0" and "su_reserve_gb su = 0"
  shows "passes_envelope su en r dev \<and> 2 ^ 68 < required_nat default_hyperparameters (target_tokens r) 1 2"
proof -
  have n: "2 ^ 68 < required_nat default_hyperparameters (2 ^ 50) 1 2"
    by (simp add: required_nat_def demanded_nat_def attn_layer_nat_def default_hyperparameters_def)
  have "total_required (compute_detailed_memory_bounds default_hyperparameters (of_nat (2 ^ 50)) 1 2)
      \<le> combined_usable (standard_boundary 0 (24 * GIB) 0)"
    by (simp add: total_required_def compute_detailed_memory_bounds_def parameter_bytes_def attn_layer_params_def Let_def
        default_hyperparameters_def combined_usable_def standard_boundary_def sat_sub_def GIB_def)
  then obtain c where "certify default_hyperparameters (standard_boundary 0 (24 * GIB) 0) (of_nat (2 ^ 50)) 1 2 [] = Ok c"
    using certify_Ok_iff by blast
  then show ?thesis using assms n by (simp add: passes_envelope_def)
qed

section \<open>A node to try things on\<close>

text \<open>A forward pass that changes nothing, an engine with one model and four blocks, a request of 17 tokens.\<close>

definition still_world :: surroundings where
  "still_world = \<lparr>su_env = \<lparr>env_now = 0, env_packed = False, io_write = True, io_rename = True, io_read = True\<rparr>,
     su_hash = (\<lambda>m s. 0), su_place = (\<lambda>en m r. Bypass), su_free = (\<lambda>d. Some (24 * GIB)), su_host_gb = 0,
     su_reserve_gb = 0, su_pin_secs = 60, su_watermark = None, su_forward = (\<lambda>i m ids ps ss p. (Ok (), ss, p))\<rparr>"

definition small_node :: engine where
  "small_node = \<lparr>en_pool = kp_new_on_device 0 False 4 1 1 0, en_sched = sc_new 512 4 100 100,
     en_models = [(''m'', \<lparr>lm_device = Cpu, lm_hparams = Some default_hyperparameters, lm_hybrid = False\<rparr>)],
     en_sessions = Map.empty, en_rng = Map.empty, en_model_ids = Map.empty, en_adapters = Map.empty,
     en_inputs = Map.empty, en_progress = Map.empty, en_last_token = Map.empty, en_session_of = Map.empty,
     en_radix = True, en_seeded = Map.empty, en_registered = Map.empty, en_lookups = 0, en_hit_requests = 0,
     en_hit_tokens = 0, en_armed = False, en_replicas = Map.empty, en_pins = Map.empty, en_cooldown = [],
     en_waitlist = [], en_kv_heads = 1, en_head_dim = 1\<rparr>"

definition asked_request :: request where
  "asked_request = \<lparr>rq_id = 7, rq_prompt = 17, rq_max_new = 4, rq_priority = 0, rq_consumed = 0, rq_model = None,
     rq_adapters = [], rq_input_ids = Some (map of_nat [0..<17]), rq_session = None\<rparr>"

lemma node_backed: "backed small_node"
proof -
  have "rt_block_to_node (kp_tree (en_pool small_node)) = Map.empty"
    by (simp add: small_node_def kp_new_on_device_def rt_new_def Let_def)
  moreover have "pool_inv (en_pool small_node)" using pool_inv_new [of 0 False 4 1 1 0] by (simp add: small_node_def)
  ultimately show ?thesis by (simp add: backed_def cache_kept_def) (simp add: small_node_def held_def)
qed

theorem endless_request_admitted_witness: "passes_envelope still_world small_node (asked_request\<lparr>rq_prompt := 2 ^ 50 - 4\<rparr>) Cpu"
proof -
  let ?m = "\<lparr>lm_device = Cpu, lm_hparams = Some default_hyperparameters, lm_hybrid = False\<rparr>"
  show ?thesis
    by (rule endless_request_admitted [where m = ?m, THEN conjunct1])
      (simp_all add: named_model_def asked_request_def first_loaded_def small_node_def still_world_def target_tokens_def usize_max_def)
qed

section \<open>Blocks and sessions\<close>

text \<open>
  C31. The blocks of every session stay its own. Start an engine on a new pool with no session, and let
  it go through any sequence of steps: requests queued, refused, parked and retried, received blocks
  hydrated, prefixes claimed, forward passes, blocks registered, demoted beyond the watermark and
  pinned, requests finished, and whatever leaves sessions and pool alone. A forward pass is any
  sequence of the calls its session's cache has -- appends to a layer, drafts, commits, rollbacks,
  promotions, page writes -- as long as the free list has the blocks it appends (an append that has to
  evict may free a block another session holds: \<open>eviction_frees_held_block\<close>); registration is
  of a token list that fills every block of the session but the last, in a pool of at most 2^32 blocks,
  and names no block that is cached already past the reused ones. Then the pool counts at least as many
  references of a block as there are entries naming it in the tables of all sessions together, no
  block in a table is on the free list or beyond the pool, and neither is a cached block free.
\<close>

theorem blocks_stay_backed:
  assumes "(engine_step su)\<^sup>*\<^sup>* en en'" and "en_sessions en = Map.empty"
    and "en_pool en = kp_new_on_device now rocm_aiter n heads dim device"
  shows "(\<Sum>i \<in> dom (en_sessions en'). entries (en_sessions en' i) b) \<le> kp_block_ref_count (en_pool en') b
    \<and> (\<forall>i ss. en_sessions en' i = Some ss \<longrightarrow> b \<in> set (pc_table (ss_cache ss))
         \<longrightarrow> b < cap (en_pool en') \<and> b \<notin> set (kp_free_list (en_pool en')))
    \<and> set (kp_free_list (en_pool en')) \<inter> dom (rt_block_to_node (kp_tree (en_pool en'))) = {}"
proof -
  have "backed en"
    using pool_inv_new cache_kept_new assms(2,3) by (simp add: backed_def held_def)
  then have b': "backed en'" by (rule engine_run_backed [OF assms(1)])
  have "x < cap (en_pool en') \<and> x \<notin> set (kp_free_list (en_pool en'))"
    if "en_sessions en' i = Some ss" "x \<in> set (pc_table (ss_cache ss))" for i ss x
    using own_range [OF backed_own [OF b' that(1)] that(2)] by simp
  then show ?thesis using b' by (auto simp: backed_def held_def cache_kept_def)
qed

text \<open>A network whose forward pass appends one row per token to layer 0; it takes two blocks for 17 tokens.\<close>

definition writing_world :: surroundings where
  "writing_world = still_world\<lparr>su_forward := (\<lambda>i m ids ps ss p.
     case append_kv_layer calm \<lparr>pk_white_crow = (\<lambda>_. None), pk_nvfp4 = (\<lambda>_. None)\<rparr> 0 [length ids, 1] ids ids (ss_cache ss) p of
       (r, c, p') \<Rightarrow> (if r = Ok () then Ok () else Err ''forward'', ss\<lparr>ss_cache := c\<rparr>, p'))\<rparr>"

lemma admitted_node:
  assumes "su_free su = su_free still_world" and "su_host_gb su = 0" "su_reserve_gb su = 0"
  shows "\<exists>p. en_sessions (snd (enqueue_request_with_kv su asked_request small_node)) 7
      = Some \<lparr>ss_device = Cpu, ss_cache = pc_new p 1 1 BLOCK_SIZE, ss_pos = 0\<rparr>
    \<and> en_pool (snd (enqueue_request_with_kv su asked_request small_node)) = p
    \<and> pool_inv p \<and> kp_free_list p = [0, 1, 2, 3] \<and> kp_spill p = None
    \<and> en_models (snd (enqueue_request_with_kv su asked_request small_node)) = en_models small_node
    \<and> en_pins (snd (enqueue_request_with_kv su asked_request small_node)) = Map.empty"
proof -
  let ?p0 = "en_pool small_node"
  have inv: "pool_inv ?p0" using pool_inv_new [of 0 False 4 1 1 0] by (simp add: small_node_def)
  let ?p = "make_room (env_now (su_env su)) (needed_blocks asked_request) ?p0"
  have pass: "passes_envelope su small_node asked_request Cpu"
    using assms
    by (simp add: passes_envelope_def named_model_def asked_request_def first_loaded_def small_node_def still_world_def target_tokens_def usize_max_def
        certify_def total_required_def compute_detailed_memory_bounds_def parameter_bytes_def attn_layer_params_def Let_def
        default_hyperparameters_def combined_usable_def standard_boundary_def sat_sub_def GIB_def)
  have free: "kp_free_list ?p = [0, 1, 2, 3]" "kp_spill ?p = None"
  proof -
    show "kp_free_list ?p = [0, 1, 2, 3]"
      unfolding make_room_pool(2) [OF inv] by (simp add: small_node_def kp_new_simps upt_rec)
    show "kp_spill ?p = None"
      by (simp add: make_room_def kp_allocatable_blocks_def kp_drop_oldest_pins_def Let_def split: prod.split)
        (simp add: small_node_def kp_new_simps)
  qed
  show ?thesis
    using pass make_room_pool(1) [OF inv] free
    by (simp add: enqueue_request_with_kv_def note_session_def asked_request_def farm_decision_def admit_placed_request_def
        placed_device_def named_model_def first_loaded_def device_or_cpu_def small_node_def base_model_def first_model_def
        open_session_def Let_def)
qed

theorem blocks_stay_backed_witness:
  "\<exists>en' ss. (engine_step writing_world)\<^sup>*\<^sup>* small_node en' \<and> en_sessions en' 7 = Some ss \<and> length (pc_table (ss_cache ss)) = 2
    \<and> (\<forall>b \<in> set (pc_table (ss_cache ss)). 1 \<le> kp_block_ref_count (en_pool en') b \<and> b \<notin> set (kp_free_list (en_pool en')))"
proof -
  let ?en = "snd (enqueue_request_with_kv writing_world asked_request small_node)"
  let ?pk = "\<lparr>pk_white_crow = (\<lambda>_. None), pk_nvfp4 = (\<lambda>_. None)\<rparr>"
  let ?ids = "replicate 17 5 :: u32 list"
  obtain p where p: "en_sessions ?en 7 = Some \<lparr>ss_device = Cpu, ss_cache = pc_new p 1 1 BLOCK_SIZE, ss_pos = 0\<rparr>"
    "en_pool ?en = p" "pool_inv p" "kp_free_list p = [0, 1, 2, 3]" "kp_spill p = None"
    "en_models ?en = en_models small_node" "en_pins ?en = Map.empty"
    using admitted_node [of writing_world] by (auto simp: writing_world_def still_world_def)
  define c where "c = pc_new p 1 1 BLOCK_SIZE"
  let ?c = c
  let ?g = "grow_pages 0 17 1 ?c"
  have cs: "pc_committed ?c = 0" "pc_table ?c = []" "pc_tentative ?c = 0" "pc_seeded_pending ?c = 0" "pc_v_pages ?c = []"
    "pc_k_pages ?c = []" "pc_cursors ?c = []"
    by (simp_all add: c_def pc_new_def)
  have sh: "seq_stride [17, 1] ?ids = (17, 1)" by (simp add: seq_stride_def)
  have o: "own ?g p" "covers ?g"
    using own_new [OF p(3), of 1 1 BLOCK_SIZE] covers_new [of p 1 1 BLOCK_SIZE] by (simp_all add: c_def own_def covers_def pc_len_def)
  have cur: "pc_cursors ?g ! 0 = pc_committed ?g" by (simp add: grow_pages_def cs Let_def)
  have need: "div_ceil (pc_committed ?c + 17) BLOCK_SIZE - length (pc_table ?c) \<le> length (kp_free_list p)"
    by (simp add: cs p(4) div_ceil_def BLOCK_SIZE_def)
  have empty: "gather_kv_f32 ?g 0 (pc_committed ?g) = Some ([], [])" by (simp add: gather_kv_f32_def cs)
  have pg: "paged ?g p 0 1" unfolding c_def by (rule paged_fresh [OF p(3)]) simp
  obtain c' p' where a: "append_kv_layer calm ?pk 0 [17, 1] ?ids ?ids ?g p = (Ok (), c', p')" "own c' p'" "covers c'"
    "pc_tentative c' = 0" "pc_committed c' = pc_committed ?g + 17"
    using append_layer0_spec [OF o _ pg cur _ _ sh _ _ _ _ p(5) empty, where e = calm and pk = ?pk and vf = ?ids] need cs
    by (auto simp: calm_def simp del: replicate.simps)
  have run: "append_kv_layer calm ?pk 0 [17, 1] ?ids ?ids ?c p = (Ok (), c', p')"
    using a(1) append_after_grow [of ?c "[17, 1]" ?ids 17 1 calm ?pk 0 ?ids p] sh cs by simp
  have two: "length (pc_table c') = 2" using a(3-5) by (simp add: covers_def pc_len_def cs div_ceil_def BLOCK_SIZE_def)
  have m: "effective_model_id ?en 7 ''m'' = ''m''" "map_of (en_models ?en) ''m'' \<noteq> None"
    by (simp_all add: effective_model_id_def p(6,7)) (simp add: small_node_def)
  have f: "su_forward writing_world i m ?ids ps \<lparr>ss_device = Cpu, ss_cache = ?c, ss_pos = 0\<rparr> p
      = (Ok (), \<lparr>ss_device = Cpu, ss_cache = c', ss_pos = 0\<rparr>, p')" for i m ps
    by (simp add: writing_world_def run [unfolded One_nat_def] del: replicate.simps)
  have "cache_call (?c, p) (c', p')"
    using call_append [of 0 ?c "[17, 1]" ?ids p calm ?pk ?ids] need sh run by simp
  then have "through_cache writing_world ''m'' 7 ?ids [0..<17] ?en"
    by (simp add: through_cache_def p(1) [folded c_def] p(2) f del: replicate.simps upt.simps)
  then have step: "engine_step writing_world ?en (snd (drive_forward writing_world ''m'' 7 ?ids [0..<17] ?en))"
    by (rule step_forward)
  define en' where "en' = snd (drive_forward writing_world ''m'' 7 ?ids [0..<17] ?en)"
  have s': "en_sessions en' 7 = Some \<lparr>ss_device = Cpu, ss_cache = c', ss_pos = 0\<rparr>" "en_pool en' = p'"
    using m by (auto simp: en'_def drive_forward_def p(1) [folded c_def] p(2) f Let_def simp del: replicate.simps upt.simps)
  have steps: "(engine_step writing_world)\<^sup>*\<^sup>* small_node en'"
    using rtranclp.rtrancl_into_rtrancl [OF r_into_rtranclp [of "engine_step writing_world", OF step_enqueue] step]
    unfolding en'_def .
  have start: "en_sessions small_node = Map.empty" "en_pool small_node = kp_new_on_device 0 False 4 1 1 0"
    by (simp_all add: small_node_def)
  have "b \<notin> set (kp_free_list p')" if "b \<in> set (pc_table c')" for b
    using blocks_stay_backed [OF steps start, of b] s' that by auto
  moreover have "1 \<le> kp_block_ref_count p' b" if "b \<in> set (pc_table c')" for b
  proof -
    have "0 < count_list (pc_table c') b" using that by (simp add: count_list_0_iff zero_less_iff_neq_zero)
    moreover have "count_list (pc_table c') b \<le> kp_block_ref_count p' b" using a(2) by (simp add: own_def)
    ultimately show ?thesis by linarith
  qed
  ultimately show ?thesis using steps s' two by auto
qed

text \<open>
  C32. A prefill pass feeds exactly the gap: when it reports k > 0 tokens, the forward pass was run on
  the tokens of the prompt from the cached or earlier consumed ones up to what the scheduler granted,
  at their positions, on the request's session as the claim left it, and the progress is the end of
  that gap. No token of the prompt is fed twice or left out.
\<close>

theorem prefill_feeds_gap:
  assumes "prefill_bounds i (en_sched en) = Some (prompt, consumed)" and "drive_prefill_inner su i en = (Ok k, en')" and "0 < k"
  shows "\<exists>a en1 m ss ss' p'. (a = count_of (en_progress en) i \<and> en1 = en
        \<or> claim_prefix su i (full_input en i prompt) en = (Ok a, en1) \<and> count_of (en_progress en) i = 0)
    \<and> a + k = min consumed prompt \<and> en_sessions en1 i = Some ss
    \<and> su_forward su i m (drop a (take (a + k) (full_input en i prompt))) [a..<a + k] ss (en_pool en1) = (Ok (), ss', p')
    \<and> en_progress en' i = Some (a + k)"
  using prefill_pass [OF assms] by blast

definition prefilling_node :: engine where
  "prefilling_node = small_node\<lparr>en_sched := (en_sched small_node)\<lparr>sc_running := [asked_request\<lparr>rq_consumed := 12\<rparr>]\<rparr>,
     en_sessions := [7 \<mapsto> open_session small_node Cpu], en_model_ids := [7 \<mapsto> []], en_radix := False\<rparr>"

theorem prefill_feeds_gap_witness: "en_progress (snd (drive_prefill_inner still_world 7 prefilling_node)) 7 = Some 12"
proof -
  have b: "prefill_bounds 7 (en_sched prefilling_node) = Some (17, 12)"
    by (simp add: prefill_bounds_def prefilling_node_def asked_request_def)
  have f: "full_input prefilling_node 7 17 = map of_nat [0..<17]"
    by (simp add: full_input_def real_ids_def prefilling_node_def small_node_def del: upt.simps)
  have m: "model_for_request prefilling_node 7 = Some ''m''"
    by (simp add: prefilling_node_def small_node_def model_for_request_def first_model_def effective_model_id_def)
  let ?en1 = "prefilling_node\<lparr>en_pool := en_pool prefilling_node, en_sessions := (en_sessions prefilling_node)(7 \<mapsto> open_session small_node Cpu)\<rparr>"
  have "en_pins prefilling_node 7 = None" "map_of (en_models prefilling_node) ''m'' \<noteq> None" "en_sessions prefilling_node 7 = Some (open_session small_node Cpu)"
    by (simp_all add: prefilling_node_def small_node_def)
  moreover have "su_forward still_world k x ids ps ss p = (Ok (), ss, p)" for k x ids ps ss p by (simp add: still_world_def)
  ultimately have fw: "drive_forward still_world ''m'' 7 ids ps prefilling_node = (Ok (), ?en1)" for ids ps
    by (auto simp: drive_forward_def effective_model_id_def)
  have wm: "su_watermark still_world = None" by (simp add: still_world_def)
  have st: "\<not> en_radix prefilling_node" "count_of (en_progress prefilling_node) 7 = 0" by (simp_all add: prefilling_node_def small_node_def count_of_def)
  have r: "fst (drive_prefill_inner still_world 7 prefilling_node) = Ok 12"
    unfolding drive_prefill_inner_def b option.case prod.case f
    by (simp add: st prefill_chunk_def m fw register_blocks_def apply_watermark_def wm del: upt.simps)
  then obtain en' where e: "drive_prefill_inner still_world 7 prefilling_node = (Ok 12, en')" by (metis prod.collapse)
  have "\<exists>a. a + 12 = min 12 (17 :: nat) \<and> en_progress en' 7 = Some (a + 12)"
    using prefill_feeds_gap [OF b e] by auto
  then show ?thesis using e by simp
qed

section \<open>Claims on the tree\<close>

abbreviation zero_prompt :: "u32 list" where "zero_prompt \<equiv> replicate 17 0"

text \<open>A tree that has both blocks of a prompt of 17 zeros, whose first request still runs.\<close>

definition key_of :: "nat \<Rightarrow> u64" where "key_of offset = the (block_key zero_prompt offset BLOCK_SIZE)"

definition seen_tree :: radix_tree where
  "seen_tree = snd (rt_insert_at 0 (rt_new 0 BLOCK_SIZE) zero_prompt [0, 1] 0)"

definition seen_pool :: kv_block_pool where
  "seen_pool = (kp_new_on_device 0 False 4 1 1 0)\<lparr>kp_free_list := [3], kp_ref_counts := [2 \<mapsto> 1], kp_tree := seen_tree\<rparr>"

lemma keys: "block_key zero_prompt 0 BLOCK_SIZE = Some (key_of 0)" "block_key zero_prompt BLOCK_SIZE BLOCK_SIZE = Some (key_of BLOCK_SIZE)"
  by (auto simp: key_of_def block_key_def Let_def BLOCK_SIZE_def)

lemma seen_run: "insert_at_loop 0 zero_prompt [0, 1] 0 0 0 0 (rt_new 0 BLOCK_SIZE) = (Ok (), seen_tree)"
proof -
  have "fst (insert_at_loop 0 zero_prompt [0, 1] 0 0 0 0 (rt_new 0 BLOCK_SIZE)) = Ok ()"
    by (rule insert_at_loop_ok) (simp add: rt_new_def BLOCK_SIZE_def)
  moreover have "rt_root (rt_new 0 BLOCK_SIZE) = 0" by (simp add: rt_new_def)
  ultimately show ?thesis by (simp add: seen_tree_def rt_insert_at_def prod_eq_iff del: insert_at_loop.simps)
qed

lemma seen_eq: "seen_tree = \<lparr>rt_nodes =
    [\<lparr>rn_block_id = usize_max, rn_token_span = (0, 0), rn_children = [(key_of 0, Suc 0)], rn_parent = None,
       rn_ref_count = 0, rn_pinned_until = None, rn_last_access = 0, rn_recurrent_state_id = None\<rparr>,
     \<lparr>rn_block_id = 0, rn_token_span = (0, BLOCK_SIZE), rn_children = [(key_of BLOCK_SIZE, Suc (Suc 0))], rn_parent = Some 0,
       rn_ref_count = 1, rn_pinned_until = None, rn_last_access = 0, rn_recurrent_state_id = None\<rparr>,
     \<lparr>rn_block_id = 1, rn_token_span = (BLOCK_SIZE, BLOCK_SIZE + BLOCK_SIZE), rn_children = [], rn_parent = Some (Suc 0),
       rn_ref_count = 1, rn_pinned_until = None, rn_last_access = 0, rn_recurrent_state_id = None\<rparr>],
    rt_root = 0, rt_block_size = BLOCK_SIZE, rt_block_to_node = [0 \<mapsto> Suc 0, 1 \<mapsto> Suc (Suc 0)]\<rparr>"
  using seen_run
  by (simp add: rt_new_def keys child_at_def push_child_def upd_node_def del: replicate.simps)

lemma seen_nodes: "rt_block_size seen_tree = BLOCK_SIZE" "rt_root seen_tree = 0"
  "rt_block_to_node seen_tree = [0 \<mapsto> Suc 0, 1 \<mapsto> Suc (Suc 0)]" "nn seen_tree = 3"
  "child_at seen_tree 0 (key_of 0) = Some (Suc 0)" "child_at seen_tree (Suc 0) (key_of BLOCK_SIZE) = Some (Suc (Suc 0))"
  "rn_block_id (nd seen_tree (Suc 0)) = 0" "rn_block_id (nd seen_tree (Suc (Suc 0))) = Suc 0"
  by (simp_all add: seen_eq child_at_def)

lemma seen_claims: "path_blocks seen_tree zero_prompt 0 0 = [0]" "path_nodes seen_tree zero_prompt 0 0 = [Suc 0]"
  "found_blocks seen_tree zero_prompt [0, 2] 0 0 = [0, 1]" "reused seen_tree zero_prompt [0, 2] 0 0 = 2"
proof -
  have "path_nodes seen_tree zero_prompt (Suc 0) BLOCK_SIZE = []"
    by (simp add: path_nodes.simps [of seen_tree zero_prompt "Suc 0"] seen_nodes(1) BLOCK_SIZE_def del: replicate.simps)
  then show p: "path_nodes seen_tree zero_prompt 0 0 = [Suc 0]"
    by (simp add: path_nodes.simps [of seen_tree zero_prompt 0 0] seen_nodes keys del: replicate.simps) (simp add: BLOCK_SIZE_def)
  show "path_blocks seen_tree zero_prompt 0 0 = [0]" by (simp add: path_blocks_def p seen_nodes del: replicate.simps)
  show "found_blocks seen_tree zero_prompt [0, 2] 0 0 = [0, 1]" "reused seen_tree zero_prompt [0, 2] 0 0 = 2"
    by (simp_all add: keys seen_nodes del: replicate.simps)
qed

lemma seen_pool: "pool_inv seen_pool" "cache_kept seen_pool" "cap seen_pool = 4" "kp_tree seen_pool = seen_tree"
  "kp_ref_counts seen_pool = [2 \<mapsto> 1]"
proof -
  let ?p = "(kp_new_on_device 0 False 4 1 1 0)\<lparr>kp_free_list := [3], kp_ref_counts := [2 \<mapsto> 1]\<rparr>"
  have t: "kp_tree ?p = rt_new 0 BLOCK_SIZE" "cap ?p = 4" by (simp_all add: kp_new_on_device_def Let_def)
  have inv: "pool_inv ?p"
    using pool_inv_new [of 0 False 4 1 1 0] t(2)
    by (auto simp: pool_inv_def bufs_ok_def tree_ok_def alloc_ok_def kp_block_elem_def kp_elem_def)
  then have ok: "rt_wf (rt_new 0 BLOCK_SIZE)" "rt_tight (rt_new 0 BLOCK_SIZE)" using t(1) by (auto simp: pool_inv_def tree_ok_def)
  have "fresh_tail (rt_new 0 BLOCK_SIZE) zero_prompt [0, 1] 0 0"
    by (simp add: fresh_tail_def reused_childless rt_new_def del: reused.simps replicate.simps)
  from insert_at_loop_tight [OF ok _ _ this seen_run]
  have "rt_tight seen_tree" by (simp add: rt_new_def)
  moreover have "rt_wf seen_tree" by (rule insert_at_loop_wf [OF ok(1) _ seen_run]) (simp add: rt_new_def)
  ultimately have "tree_ok (?p\<lparr>kp_tree := seen_tree\<rparr>)" using seen_nodes t(2) by (auto simp: tree_ok_def)
  then show "pool_inv seen_pool"
    using inv by (simp add: pool_inv_def bufs_ok_def alloc_ok_def seen_pool_def kp_block_elem_def kp_elem_def)
  show "cap seen_pool = 4" "kp_tree seen_pool = seen_tree" "kp_ref_counts seen_pool = [2 \<mapsto> 1]" using t(2) by (simp_all add: seen_pool_def)
  show "cache_kept seen_pool" using seen_nodes by (simp add: cache_kept_def seen_pool_def)
qed

definition seen_node :: engine where
  "seen_node = small_node\<lparr>en_pool := seen_pool, en_sessions := [7 \<mapsto> open_session small_node Cpu], en_model_ids := [7 \<mapsto> []]\<rparr>"

lemma seen_backed: "backed seen_node"
  by (simp add: backed_def seen_node_def seen_pool held_def entries_def open_session_def pc_new_def)

lemma seen_claimed: "claimed seen_pool zero_prompt = [0]"
  by (simp add: claimed_def seen_pool seen_claims BLOCK_SIZE_def del: replicate.simps)

lemma seen_claim: "fst (claim_prefix still_world 7 zero_prompt seen_node) = Ok 16"
proof -
  have inv: "pool_inv (en_pool seen_node)" by (simp add: seen_node_def seen_pool)
  have gpu: "kb_location (blk seen_pool 0) = Gpu" by (simp add: seen_pool_def kp_new_on_device_def Let_def fresh_block_def)
  then have "promote_loop (su_env still_world) [0] False seen_pool = (Ok False, seen_pool)"
    by (simp add: seen_pool)
  then have pl: "promote_loop (su_env still_world) (path_blocks (kp_tree (en_pool seen_node)) zero_prompt 0 0) False (en_pool seen_node) = (Ok False, seen_pool)"
    by (simp add: seen_node_def seen_pool seen_claims del: replicate.simps promote_loop.simps)
  have sk: "16 = skippable (BLOCK_SIZE * length (path_nodes (kp_tree (en_pool seen_node)) zero_prompt 0 0)) zero_prompt"
    by (simp add: seen_node_def seen_pool seen_claims skippable_def BLOCK_SIZE_def del: replicate.simps)
  have hy: "\<not> model_uses_hybrid_kv (seen_node\<lparr>en_pool := seen_pool, en_lookups := en_lookups seen_node + 1\<rparr>) 7"
    by (simp add: model_uses_hybrid_kv_def model_for_request_def seen_node_def small_node_def first_model_def effective_model_id_def)
  obtain t' where "claim_prefix still_world 7 zero_prompt seen_node = seed_request 7 16 (claimed (en_pool seen_node) zero_prompt)
      (seen_node\<lparr>en_lookups := en_lookups seen_node + 1, en_pool := seen_pool\<lparr>kp_tree := t'\<rparr>\<rparr>)"
    using claim_goes(1) [OF inv pl sk _ hy] by (auto simp: BLOCK_SIZE_def)
  then show ?thesis by (simp add: seed_request_def seen_node_def split: prod.split)
qed


definition run_session :: session where
  "run_session = \<lparr>ss_device = Cpu, ss_cache = push_blocks [0, 2] (pc_new seen_pool 1 1 BLOCK_SIZE), ss_pos = 17\<rparr>"

definition claimed_node :: engine where
  "claimed_node = snd (claim_prefix still_world 7 zero_prompt seen_node)"

definition run_node :: engine where
  "run_node = claimed_node\<lparr>en_pool := en_pool claimed_node, en_sessions := (en_sessions claimed_node)(7 \<mapsto> run_session)\<rparr>"

lemma life:
  "en_sessions seen_node 7 = Some (open_session small_node Cpu)" "en_radix seen_node" "en_registered seen_node 7 = None"
  "claim_prefix still_world 7 zero_prompt seen_node = (Ok 16, claimed_node)" "0 < (16 :: nat)"
  "own (ss_cache run_session) (en_pool claimed_node)" "cap (en_pool claimed_node) \<le> 2 ^ 32"
  "pc_table (ss_cache run_session) = claimed (en_pool seen_node) zero_prompt @ [2]"
  "distinct [2 :: nat]" "set [2] \<inter> dom (rt_block_to_node (kp_tree (en_pool seen_node))) = {}"
  "set (pc_table (ss_cache run_session)) \<subseteq> {..<cap (en_pool claimed_node)}"
  "length (pc_table (ss_cache run_session)) = div_ceil (length zero_prompt) BLOCK_SIZE"
proof -
  show s: "en_sessions seen_node 7 = Some (open_session small_node Cpu)" "en_radix seen_node" "en_registered seen_node 7 = None"
    by (simp_all add: seen_node_def small_node_def)
  show run: "claim_prefix still_world 7 zero_prompt seen_node = (Ok 16, claimed_node)"
    using seen_claim by (simp add: claimed_node_def prod_eq_iff del: replicate.simps)
  show table: "pc_table (ss_cache run_session) = claimed (en_pool seen_node) zero_prompt @ [2]"
    by (simp add: run_session_def push_blocks_def push_block_def pc_new_def seen_node_def seen_claimed del: replicate.simps)
  have p: "en_pool seen_node = seen_pool" by (simp add: seen_node_def)
  note c = claim_spec [OF seen_backed s(1) run, unfolded p seen_claimed]
  have cp: "cap (en_pool claimed_node) = 4" using claim_cap [OF seen_backed run] p seen_pool by simp
  have n: "kp_block_ref_count (en_pool claimed_node) x = kp_block_ref_count seen_pool x + count_list [0] x" for x
    using c(8) by simp
  have o: "pc_block_table_u32 (ss_cache run_session) = map word_of_nat (pc_table (ss_cache run_session))"
    by (simp add: run_session_def push_blocks_def push_block_def pc_new_def)
  show "own (ss_cache run_session) (en_pool claimed_node)"
    unfolding own_def using c(9) o n
    by (simp add: table p seen_claimed kp_block_ref_count_def seen_pool del: replicate.simps)
  show "cap (en_pool claimed_node) \<le> 2 ^ 32" "set (pc_table (ss_cache run_session)) \<subseteq> {..<cap (en_pool claimed_node)}"
    by (simp_all add: cp table p seen_claimed del: replicate.simps)
  show "set [2] \<inter> dom (rt_block_to_node (kp_tree (en_pool seen_node))) = {}"
    by (simp add: p seen_pool seen_nodes)
  show "length (pc_table (ss_cache run_session)) = div_ceil (length zero_prompt) BLOCK_SIZE"
    by (simp add: table p seen_claimed div_ceil_def BLOCK_SIZE_def del: replicate.simps)
qed simp_all

text \<open>
  C33. Finishing returns, in an engine whose sessions are backed (every state C31 speaks of) over a pool
  of at most 2^32 blocks: every map of the engine that is keyed by requests forgets this one and
  nothing else, it leaves the waitlist and the running, swapped and paused queues (not the waiting
  one), the pool drops one reference per entry of its table, and no other. The prefix tree drops one
  claim per entry when the request had claims, and none otherwise; what it caches matches as before.
  The blocks of the other sessions stay backed.
\<close>

theorem finish_releases:
  assumes b: "backed en" and s: "en_sessions en i = Some ss" and cap: "cap (en_pool en) \<le> 2 ^ 32"
  shows "\<exists>en'. finish_request e i en = (Ok (), en') \<and> backed en'
    \<and> en_sessions en' = (en_sessions en)(i := None) \<and> en_rng en' = (en_rng en)(i := None)
    \<and> en_model_ids en' = (en_model_ids en)(i := None) \<and> en_adapters en' = (en_adapters en)(i := None)
    \<and> en_inputs en' = (en_inputs en)(i := None) \<and> en_progress en' = (en_progress en)(i := None)
    \<and> en_last_token en' = (en_last_token en)(i := None) \<and> en_session_of en' = (en_session_of en)(i := None)
    \<and> en_seeded en' = (en_seeded en)(i := None) \<and> en_registered en' = (en_registered en)(i := None)
    \<and> en_pins en' = (en_pins en)(i := None)
    \<and> en_waitlist en' = filter (\<lambda>r. rq_id r \<noteq> i) (en_waitlist en)
    \<and> sc_running (en_sched en') = filter (\<lambda>r. rq_id r \<noteq> i) (sc_running (en_sched en))
    \<and> sc_swapped (en_sched en') = filter (\<lambda>r. rq_id r \<noteq> i) (sc_swapped (en_sched en))
    \<and> sc_paused (en_sched en') = filter (\<lambda>r. rq_id r \<noteq> i) (sc_paused (en_sched en))
    \<and> sc_waiting (en_sched en') = sc_waiting (en_sched en)
    \<and> (\<forall>b. kp_block_ref_count (en_pool en') b = kp_block_ref_count (en_pool en) b - count_list (pc_table (ss_cache ss)) b)
    \<and> (\<forall>b. block_ref (kp_tree (en_pool en')) b = block_ref (kp_tree (en_pool en)) b
         - (if en_radix en \<and> (en_seeded en i \<noteq> None \<or> en_registered en i \<noteq> None) then count_list (pc_table (ss_cache ss)) b else 0))
    \<and> (\<forall>tokens. kp_match_prefix (en_pool en') tokens = kp_match_prefix (en_pool en) tokens)"
proof -
  obtain p where p: "finish_request e i en
      = (Ok (), forget_request (env_now e) i (en\<lparr>en_sched := finish i (en_sched en), en_pool := p\<rparr>))"
      "kp_tree p = kp_tree (drop_claims i en)"
      "\<forall>b. kp_block_ref_count p b = kp_block_ref_count (en_pool en) b - count_list (pc_table (ss_cache ss)) b"
    using finish_spec [OF backed_own [OF b s] s] by blast
  have "kp_match_prefix p tokens = kp_match_prefix (en_pool en) tokens" for tokens
    using finish_tree(2) [OF b s cap, of tokens] p(2) by (simp add: kp_match_prefix_def)
  then show ?thesis
    using p backed_finish [OF b, of e i] finish_tree(1) [OF b s cap]
    by (intro exI [of _ "forget_request (env_now e) i (en\<lparr>en_sched := finish i (en_sched en), en_pool := p\<rparr>)"])
      (simp add: forget_request_def finish_def)
qed

text \<open>A request that claimed block 0 of a prefix somebody else still holds finishes: one claim stays.\<close>

theorem finish_releases_witness:
  "\<exists>en'. finish_request (su_env still_world) 7 claimed_node = (Ok (), en') \<and> en_sessions en' 7 = None
    \<and> block_ref (kp_tree (en_pool claimed_node)) 0 = 2 \<and> block_ref (kp_tree (en_pool en')) 0 = 1
    \<and> kp_block_ref_count (en_pool claimed_node) 0 = 1 \<and> kp_block_ref_count (en_pool en') 0 = 0"
proof -
  have p: "en_pool seen_node = seen_pool" by (simp add: seen_node_def)
  note c = claim_spec [OF seen_backed life(1,4,5), unfolded p seen_claimed]
  have b: "backed claimed_node"
    using backed_claim_prefix [OF seen_backed, of still_world 7 zero_prompt] by (simp add: claimed_node_def)
  obtain ss where c1: "en_sessions claimed_node 7 = Some ss" "pc_table (ss_cache ss) = [0]"
    using c(4) by (auto simp: open_session_def pc_new_def)
  have refs: "block_ref (kp_tree (en_pool claimed_node)) 0 = 2" "kp_block_ref_count (en_pool claimed_node) 0 = 1"
    using c(7) [of 0] c(8) [of 0]
    by (simp_all add: seen_pool block_ref_def seen_nodes kp_block_ref_count_def) (simp add: seen_eq)
  have claims: "en_radix claimed_node" "en_seeded claimed_node 7 \<noteq> None"
    using c(6) claim_prefix_frame(1) [of still_world 7 zero_prompt seen_node] life(2) by (simp_all add: claimed_node_def)
  obtain en' where e: "finish_request (su_env still_world) 7 claimed_node = (Ok (), en')"
    "en_sessions en' = (en_sessions claimed_node)(7 := None)"
    "\<forall>b. kp_block_ref_count (en_pool en') b = kp_block_ref_count (en_pool claimed_node) b - count_list (pc_table (ss_cache ss)) b"
    "\<forall>b. block_ref (kp_tree (en_pool en')) b = block_ref (kp_tree (en_pool claimed_node)) b
         - (if en_radix claimed_node \<and> (en_seeded claimed_node 7 \<noteq> None \<or> en_registered claimed_node 7 \<noteq> None) then count_list (pc_table (ss_cache ss)) b else 0)"
    using finish_releases [OF b c1(1) life(7), of "su_env still_world"] by blast
  then show ?thesis using refs claims c1(2) by (simp del: replicate.simps)
qed

text \<open>
  C34. Claims balance up to foreign blocks: a request that claims its cached prefix, fills blocks of its
  own with the rest, registers them and finishes leaves the reference count of every tree block as it
  was, plus one for each foreign block the registration met past the claimed prefix.
\<close>

theorem only_foreign_claims_stay:
  assumes "backed en" and "en_sessions en i = Some ss" and "en_radix en" and "en_registered en i = None"
    and "claim_prefix su i full en = (Ok n, en1)" "0 < n"
    and "en2 = en1\<lparr>en_pool := p2, en_sessions := (en_sessions en1)(i \<mapsto> ss2)\<rparr>"
    and "own (ss_cache ss2) p2" and "kp_tree p2 = kp_tree (en_pool en1)" and "cap p2 \<le> 2 ^ 32"
    and "pc_table (ss_cache ss2) = claimed (en_pool en) full @ mine"
    and "distinct mine" "set mine \<inter> dom (rt_block_to_node (kp_tree (en_pool en))) = {}"
    and "set (pc_table (ss_cache ss2)) \<subseteq> {..<cap p2}"
    and "length (pc_table (ss_cache ss2)) = div_ceil (length full) BLOCK_SIZE"
  shows "\<exists>en3 en4. register_blocks su i full en2 = (Ok (), en3) \<and> finish_request e i en3 = (Ok (), en4)
    \<and> (\<forall>b. block_ref (kp_tree (en_pool en4)) b = block_ref (kp_tree (en_pool en)) b
         + count_list (drop (n div BLOCK_SIZE) (found_blocks (kp_tree (en_pool en)) full (pc_table (ss_cache ss2)) 0 0)) b)"
  by (rule life_claims [OF assms])

theorem only_foreign_claims_stay_witness:
  "\<exists>en3 en4. register_blocks still_world 7 zero_prompt run_node = (Ok (), en3) \<and> finish_request (su_env still_world) 7 en3 = (Ok (), en4)
    \<and> (\<forall>b. block_ref (kp_tree (en_pool en4)) b = block_ref seen_tree b + count_list [1] b)"
proof -
  have p: "en_pool seen_node = seen_pool" "kp_tree seen_pool = seen_tree" by (simp_all add: seen_node_def seen_pool)
  have d: "drop (16 div BLOCK_SIZE) (found_blocks seen_tree zero_prompt [0, 2] 0 0) = [1]"
    unfolding seen_claims(3) by (simp add: BLOCK_SIZE_def)
  show ?thesis
    using only_foreign_claims_stay [OF seen_backed life(1-5) run_node_def life(6) refl life(7-12), of "su_env still_world"]
    unfolding life(8) p seen_claimed append.simps d .
qed

text \<open>
  A repeated prompt leaks a claim: when the tree already has all blocks of the prompt, the last of
  them is never claimed but always met while registering, so after the request has finished a block
  has more references than before, and nobody is left to drop them: it is never evicted again.
\<close>

theorem repeated_prompt_leaks:
  assumes "backed en" and "en_sessions en i = Some ss" and "en_radix en" and "en_registered en i = None"
    and "claim_prefix su i full en = (Ok n, en1)" "0 < n"
    and "en2 = en1\<lparr>en_pool := p2, en_sessions := (en_sessions en1)(i \<mapsto> ss2)\<rparr>"
    and "own (ss_cache ss2) p2" and "kp_tree p2 = kp_tree (en_pool en1)" and "cap p2 \<le> 2 ^ 32"
    and "pc_table (ss_cache ss2) = claimed (en_pool en) full @ mine"
    and "distinct mine" "set mine \<inter> dom (rt_block_to_node (kp_tree (en_pool en))) = {}"
    and "set (pc_table (ss_cache ss2)) \<subseteq> {..<cap p2}"
    and "length (pc_table (ss_cache ss2)) = div_ceil (length full) BLOCK_SIZE"
    and met: "reused (kp_tree (en_pool en)) full (pc_table (ss_cache ss2)) 0 0 = length (pc_table (ss_cache ss2))"
  shows "\<exists>en3 en4 b. register_blocks su i full en2 = (Ok (), en3) \<and> finish_request e i en3 = (Ok (), en4)
    \<and> block_ref (kp_tree (en_pool en)) b < block_ref (kp_tree (en_pool en4)) b"
proof -
  let ?f = "drop (n div BLOCK_SIZE) (found_blocks (kp_tree (en_pool en)) full (pc_table (ss_cache ss2)) 0 0)"
  obtain en3 en4 where l: "register_blocks su i full en2 = (Ok (), en3)" "finish_request e i en3 = (Ok (), en4)"
      "\<forall>b. block_ref (kp_tree (en_pool en4)) b = block_ref (kp_tree (en_pool en)) b + count_list ?f b"
    using life_claims [OF assms(1-15), of e] by blast
  have c: "n = length (claimed (en_pool en) full) * BLOCK_SIZE" "n < length full"
    using claim_spec(1,2) [OF assms(1,2,5,6)] .
  then have "length (claimed (en_pool en) full) < length (pc_table (ss_cache ss2))"
    unfolding assms(15) by (intro lt_div_ceil) simp
  then have "0 < length ?f" using met c(1) by (simp add: BLOCK_SIZE_def)
  then have "hd ?f \<in> set ?f" by (intro hd_in_set) simp
  then have "0 < count_list ?f (hd ?f)" using count_list_0_iff [of ?f "hd ?f"] by (simp only: neq0_conv [symmetric]) simp
  then show ?thesis using l by (intro exI [of _ en3] exI [of _ en4] exI [of _ "hd ?f"]) simp
qed

theorem repeated_prompt_leaks_witness:
  "\<exists>en3 en4 b. register_blocks still_world 7 zero_prompt run_node = (Ok (), en3) \<and> finish_request (su_env still_world) 7 en3 = (Ok (), en4)
    \<and> block_ref seen_tree b < block_ref (kp_tree (en_pool en4)) b"
proof -
  have p: "en_pool seen_node = seen_pool" "kp_tree seen_pool = seen_tree" by (simp_all add: seen_node_def seen_pool)
  have met: "reused (kp_tree (en_pool seen_node)) zero_prompt (pc_table (ss_cache run_session)) 0 0 = length (pc_table (ss_cache run_session))"
    unfolding life(8) p seen_claimed append.simps by (simp only: seen_claims) simp
  show ?thesis
    using repeated_prompt_leaks [OF seen_backed life(1-5) run_node_def life(6) refl life(7-12) met, of "su_env still_world"]
    unfolding p .
qed

end
