(* ===== verification/Handoff.thy ===== *)
theory Handoff
  imports KvWireLaws MemoryBudget
begin

text \<open>
  Disaggregated serving (\<open>grim-disagg/src/lib.rs\<close>): the retry policy of transfers, the failover of
  roles, and the router that hands the blocks of a request from the pool of a prefill node to the
  receiver of a decode node. The wire is that of \<open>KvWire\<close>; what a network does to one connection is
  an argument. Listening, threads and sleeping are left out; the waits are part of the result.
\<close>

section \<open>Errors of a transfer\<close>

text \<open>The texts the client wraps errors in; what the system says follows them. Numbers are left out.\<close>

datatype transfer_error =
    Wire wire_error
  | ConnectFailed string
  | WriteError string string
  | EmptyItems
  | EmptyBlockList
  | BlockOutOfRange nat nat
  | NoKvData nat

fun wire_message :: "wire_error \<Rightarrow> string" where
  "wire_message KvLengthMismatch = ''Key and Value slice lengths must match for block transport''"
| "wire_message EmptyBlock = ''Cannot send an empty KV block''"
| "wire_message (BlockTooLarge n) = ''block too large for the wire protocol''"
| "wire_message (TokensTooLarge n) = ''num_tokens exceeds the wire protocol u32::MAX''"
| "wire_message (LayerCapExceeded l) = ''layer_idx exceeds the wire protocol cap''"
| "wire_message AckReadFailed = ''TCP send block ACK read error: ''"
| "wire_message AckProtocol = ''TCP send block ACK: protocol mismatch''"
| "wire_message (AckMismatch b l) = ''TCP send block ACK: response does not match sent block''"
| "wire_message AckRejected = ''KV receiver rejected block''"
| "wire_message EmptyPrompt = ''token list cannot be empty''"
| "wire_message (PromptTooLong n) = ''prompt exceeds the token cap''"
| "wire_message (FetchElemsTooLarge n) = ''block_elems exceeds the wire protocol u32::MAX''"
| "wire_message FetchReadFailed = ''TCP fetch response read error: ''"
| "wire_message (FetchProtocol m v) = ''protocol mismatch''"
| "wire_message FetchNotAvailable = ''block not available on remote node''"
| "wire_message FetchPayloadCap = ''payload exceeds cap''"
| "wire_message FetchChecksum = ''checksum mismatch''"

fun message :: "transfer_error \<Rightarrow> string" where
  "message (Wire e) = wire_message e"
| "message (ConnectFailed io) = ''connection failed to '' @ io"
| "message (WriteError op io) = op @ io"
| "message EmptyItems = ''item list cannot be empty''"
| "message EmptyBlockList = ''Handoff protocol error: block list cannot be empty''"
| "message (BlockOutOfRange b n) = ''block_id out of range''"
| "message (NoKvData b) = ''block has no KV data to transfer''"

text \<open>\<open>str::contains\<close>.\<close>

fun contains :: "string \<Rightarrow> string \<Rightarrow> bool" where
  "contains [] pat = (pat = [])"
| "contains (c # cs) pat = (take (length pat) (c # cs) = pat \<or> contains cs pat)"

definition is_transient_transfer_error :: "transfer_error \<Rightarrow> bool" where
  "is_transient_transfer_error e = list_ex (contains (message e))
     [''connection failed'', ''Connection refused'', ''reset by peer'', ''Broken pipe'', ''connection aborted'',
      ''timed out'', ''read error'', ''write error'']"

section \<open>Retrying\<close>

record retry_policy =
  rp_max_attempts :: u32
  rp_initial_backoff :: u64
  rp_max_backoff :: u64

definition default_policy :: retry_policy where
  "default_policy = \<lparr>rp_max_attempts = 3, rp_initial_backoff = 50, rp_max_backoff = 800\<rparr>"

text \<open>
  The loop with the number of attempts that may still follow this one; the closure works on a state,
  the waits between attempts are returned.
\<close>

fun retry_loop :: "nat \<Rightarrow> u64 \<Rightarrow> u64 \<Rightarrow> ('s \<Rightarrow> (transfer_error, 'a) outcome \<times> 's) \<Rightarrow> 's
    \<Rightarrow> (transfer_error, 'a) outcome \<times> 's \<times> u64 list" where
  "retry_loop 0 backoff ceiling f s = (case f s of (r, s1) \<Rightarrow> (r, s1, []))"
| "retry_loop (Suc k) backoff ceiling f s =
     (case f s of
        (Err e, s1) \<Rightarrow>
          if \<not> is_transient_transfer_error e then (Err e, s1, [])
          else (case retry_loop k (min (sat_mul backoff 2) ceiling) ceiling f s1 of
                  (r, s2, waits) \<Rightarrow> (r, s2, backoff # waits))
      | (r, s1) \<Rightarrow> (r, s1, []))"

definition retry_with_policy :: "retry_policy \<Rightarrow> ('s \<Rightarrow> (transfer_error, 'a) outcome \<times> 's) \<Rightarrow> 's
    \<Rightarrow> (transfer_error, 'a) outcome \<times> 's \<times> u64 list" where
  "retry_with_policy p f s =
     retry_loop (max (unat (rp_max_attempts p)) 1 - 1) (rp_initial_backoff p) (rp_max_backoff p) f s"

section \<open>Roles and failover\<close>

datatype pool_role = Colocated | PrefillRole | DecodeRole

record orchestrator =
  or_role :: pool_role
  or_prefill_healthy :: bool
  or_decode_healthy :: bool
  or_last_prefill :: nat
  or_last_decode :: nat
  or_effective :: pool_role
  or_first_eval :: "nat option"

definition or_new :: "pool_role \<Rightarrow> orchestrator" where
  "or_new role = \<lparr>or_role = role, or_prefill_healthy = True, or_decode_healthy = True, or_last_prefill = 0,
     or_last_decode = 0, or_effective = role, or_first_eval = None\<rparr>"

definition record_heartbeat :: "pool_role \<Rightarrow> nat \<Rightarrow> orchestrator \<Rightarrow> orchestrator" where
  "record_heartbeat role now_ms o' =
     (case role of
        PrefillRole \<Rightarrow> o'\<lparr>or_prefill_healthy := True, or_last_prefill := now_ms\<rparr>
      | DecodeRole \<Rightarrow> o'\<lparr>or_decode_healthy := True, or_last_decode := now_ms\<rparr>
      | Colocated \<Rightarrow> o'\<lparr>or_prefill_healthy := True, or_decode_healthy := True,
          or_last_prefill := now_ms, or_last_decode := now_ms\<rparr>)"

text \<open>The last heartbeat, or the first evaluation when there was none; then the role.\<close>

definition evaluate_failover :: "nat \<Rightarrow> nat \<Rightarrow> orchestrator \<Rightarrow> pool_role \<times> orchestrator" where
  "evaluate_failover now_ms timeout_ms o' =
     (let first_eval = (case or_first_eval o' of Some t \<Rightarrow> t | None \<Rightarrow> now_ms);
          prefill_baseline = (if or_last_prefill o' > 0 then or_last_prefill o' else first_eval);
          decode_baseline = (if or_last_decode o' > 0 then or_last_decode o' else first_eval);
          prefill_fresh = (now_ms - prefill_baseline \<le> timeout_ms);
          decode_fresh = (now_ms - decode_baseline \<le> timeout_ms);
          o1 = o'\<lparr>or_first_eval := Some first_eval\<rparr>
      in if or_role o' = DecodeRole \<and> \<not> prefill_fresh
         then (Colocated, o1\<lparr>or_prefill_healthy := False, or_effective := Colocated\<rparr>)
         else if or_role o' = PrefillRole \<and> \<not> decode_fresh
         then (Colocated, o1\<lparr>or_decode_healthy := False, or_effective := Colocated\<rparr>)
         else (or_role o', o1\<lparr>or_effective := or_role o'\<rparr>))"

definition handles_prefill :: "orchestrator \<Rightarrow> bool" where
  "handles_prefill o' \<longleftrightarrow> or_effective o' = Colocated \<or> or_effective o' = PrefillRole"

definition handles_decode :: "orchestrator \<Rightarrow> bool" where
  "handles_decode o' \<longleftrightarrow> or_effective o' = Colocated \<or> or_effective o' = DecodeRole"

section \<open>One connection\<close>

text \<open>
  What the network does to the next connections: refuse, break after some bytes have arrived (the
  answers are lost; the client sees a failed write, which is as transient as a failed read of the
  answer), or carry everything. When none is left, connections are refused.
\<close>

datatype link = Refused | Cut nat | Up

type_synonym 's network = "link list \<times> 's receiver"

definition exchange :: "string \<Rightarrow> 's kv_store \<Rightarrow> u8 list \<Rightarrow> (u8 list \<Rightarrow> (wire_error, 'a) outcome) \<Rightarrow> 's network
    \<Rightarrow> (transfer_error, 'a) outcome \<times> 's network" where
  "exchange op S bytes reply n =
     (case n of
        ([], r) \<Rightarrow> (Err (ConnectFailed ''Connection refused''), ([], r))
      | (Refused # ls, r) \<Rightarrow> (Err (ConnectFailed ''Connection refused''), (ls, r))
      | (Cut k # ls, r) \<Rightarrow> (Err (WriteError op ''Broken pipe''), (ls, snd (serve S (take k bytes) r)))
      | (Up # ls, r) \<Rightarrow>
          (case serve S bytes r of (out, r1) \<Rightarrow>
             (case reply out of
                Ok x \<Rightarrow> (Ok x, (ls, r1))
              | Err e \<Rightarrow> (Err (Wire e), (ls, r1))
              | Panic \<Rightarrow> (Panic, (ls, r1))
              | Hang \<Rightarrow> (Hang, (ls, r1)))))"

section \<open>The client's sends\<close>

record kv_item =
  it_block :: nat
  it_layer :: u32
  it_k :: "f32 list"
  it_v :: "f32 list"
  it_tokens :: nat

definition encode_item :: "kv_item \<Rightarrow> (wire_error, u8 list) outcome" where
  "encode_item it = encode_block_message (it_block it) (it_layer it) (it_k it) (it_v it) (it_tokens it)"

fun encode_items :: "kv_item list \<Rightarrow> (wire_error, u8 list) outcome" where
  "encode_items [] = Ok []"
| "encode_items (it # its) =
     (case encode_item it of
        Ok msg \<Rightarrow> (case encode_items its of Ok ms \<Rightarrow> Ok (msg @ ms) | r \<Rightarrow> r)
      | r \<Rightarrow> r)"

definition item_ids :: "kv_item list \<Rightarrow> (u64 \<times> u32) list" where
  "item_ids its = map (\<lambda>it. (word_of_nat (it_block it), it_layer it)) its"

definition send_blocks_batch_remote :: "'s kv_store \<Rightarrow> kv_item list \<Rightarrow> 's network
    \<Rightarrow> (transfer_error, unit) outcome \<times> 's network" where
  "send_blocks_batch_remote S items n =
     (if items = [] then (Err EmptyItems, n)
      else (case encode_items items of
              Ok bytes \<Rightarrow> exchange ''TCP batch block write error: '' S bytes
                (\<lambda>out. case read_acks out (item_ids items) of Ok _ \<Rightarrow> Ok () | Err e \<Rightarrow> Err e | Panic \<Rightarrow> Panic | Hang \<Rightarrow> Hang) n
            | Err e \<Rightarrow> (Err (Wire e), n)
            | Panic \<Rightarrow> (Panic, n)
            | Hang \<Rightarrow> (Hang, n)))"

definition fetch_block_remote :: "'s kv_store \<Rightarrow> nat \<Rightarrow> u32 \<Rightarrow> nat \<Rightarrow> 's network
    \<Rightarrow> (transfer_error, f32 list \<times> f32 list \<times> nat) outcome \<times> 's network" where
  "fetch_block_remote S block_id layer_idx block_elems n =
     (case fetch_request block_id layer_idx block_elems of
        Ok bytes \<Rightarrow> exchange ''TCP fetch request error: '' S bytes fetch_reply n
      | Err e \<Rightarrow> (Err (Wire e), n)
      | Panic \<Rightarrow> (Panic, n)
      | Hang \<Rightarrow> (Hang, n))"

section \<open>The router\<close>

text \<open>All layers of a block that have keys and values; \<open>layer as u32\<close> is cut to 32 bits.\<close>

definition layer_item :: "kv_block_pool \<Rightarrow> nat \<Rightarrow> nat \<Rightarrow> kv_item list" where
  "layer_item p b layer =
     (case (read_layer_keys p b layer, read_layer_values p b layer) of
       (Some k, Some v) \<Rightarrow>
         if k \<noteq> [] \<and> v \<noteq> []
         then [\<lparr>it_block = b, it_layer = word_of_nat layer, it_k = k, it_v = v,
               it_tokens = (case block_num_tokens p b of Some n \<Rightarrow> n | None \<Rightarrow> 0)\<rparr>]
         else []
     | _ \<Rightarrow> [])"

definition block_items :: "kv_block_pool \<Rightarrow> nat \<Rightarrow> kv_item list" where
  "block_items p b = concat (map (layer_item p b) [0..<kp_num_layers p b])"

fun snapshot_block_layers :: "kv_block_pool \<Rightarrow> nat list \<Rightarrow> (transfer_error, kv_item list) outcome" where
  "snapshot_block_layers p [] = Ok []"
| "snapshot_block_layers p (b # bs) =
     (if cap p \<le> b then Err (BlockOutOfRange b (cap p))
      else if \<not> block_is_received p b then Err (NoKvData b)
      else (case snapshot_block_layers p bs of Ok its \<Rightarrow> Ok (block_items p b @ its) | r \<Rightarrow> r))"

definition MAX_MESSAGES_PER_CONNECTION :: nat where "MAX_MESSAGES_PER_CONNECTION = 256"

text \<open>\<open>slice::chunks\<close>.\<close>

function chunks :: "nat \<Rightarrow> 'a list \<Rightarrow> 'a list list" where
  "chunks n xs = (if xs = [] \<or> n = 0 then [] else take n xs # chunks n (drop n xs))"
  by pat_completeness auto
termination by (relation "measure (\<lambda>(n, xs). length xs)") auto

declare chunks.simps [simp del]

fun send_chunks :: "retry_policy \<Rightarrow> 's kv_store \<Rightarrow> kv_item list list \<Rightarrow> 's network
    \<Rightarrow> (transfer_error, unit) outcome \<times> 's network" where
  "send_chunks pol S [] n = (Ok (), n)"
| "send_chunks pol S (c # cs) n =
     (case retry_with_policy pol (send_blocks_batch_remote S c) n of
        (Ok _, n1, _) \<Rightarrow> send_chunks pol S cs n1
      | (r, n1, _) \<Rightarrow> (r, n1))"

definition send_block_layers :: "retry_policy \<Rightarrow> 's kv_store \<Rightarrow> kv_item list \<Rightarrow> 's network
    \<Rightarrow> (transfer_error, unit) outcome \<times> 's network" where
  "send_block_layers pol S items n = send_chunks pol S (chunks MAX_MESSAGES_PER_CONNECTION items) n"

definition transfer_kv_cache_real :: "retry_policy \<Rightarrow> 's kv_store \<Rightarrow> nat list \<Rightarrow> kv_block_pool \<Rightarrow> 's network
    \<Rightarrow> (transfer_error, unit) outcome \<times> 's network" where
  "transfer_kv_cache_real pol S block_ids p n =
     (if block_ids = [] then (Err EmptyBlockList, n)
      else (case snapshot_block_layers p block_ids of
              Ok items \<Rightarrow> send_block_layers pol S items n
            | Err e \<Rightarrow> (Err e, n)
            | Panic \<Rightarrow> (Panic, n)
            | Hang \<Rightarrow> (Hang, n)))"

definition fetch_kv_block :: "retry_policy \<Rightarrow> 's kv_store \<Rightarrow> nat \<Rightarrow> u32 \<Rightarrow> nat \<Rightarrow> 's network
    \<Rightarrow> (transfer_error, f32 list \<times> f32 list \<times> nat) outcome \<times> 's network \<times> u64 list" where
  "fetch_kv_block pol S block_id layer_idx block_elems n =
     retry_with_policy pol (fetch_block_remote S block_id layer_idx block_elems) n"

definition send_prompt_tokens :: "retry_policy \<Rightarrow> 's kv_store \<Rightarrow> u64 \<Rightarrow> u32 list \<Rightarrow> 's network
    \<Rightarrow> (transfer_error, unit) outcome \<times> 's network \<times> u64 list" where
  "send_prompt_tokens pol S request_id tokens n = retry_with_policy pol (\<lambda>n.
     case encode_prompt_message request_id tokens of
       Ok bytes \<Rightarrow> exchange ''TCP prompt send error: '' S bytes
         (\<lambda>out. case read_ack out request_id PROMPT_FLAG of Ok _ \<Rightarrow> Ok () | Err e \<Rightarrow> Err e | Panic \<Rightarrow> Panic | Hang \<Rightarrow> Hang) n
     | Err e \<Rightarrow> (Err (Wire e), n)
     | Panic \<Rightarrow> (Panic, n)
     | Hang \<Rightarrow> (Hang, n)) n"

definition send_layer_block_remote :: "retry_policy \<Rightarrow> 's kv_store \<Rightarrow> kv_item \<Rightarrow> 's network
    \<Rightarrow> (transfer_error, unit) outcome \<times> 's network \<times> u64 list" where
  "send_layer_block_remote pol S it n = retry_with_policy pol (\<lambda>n.
     case encode_item it of
       Ok bytes \<Rightarrow> exchange ''TCP send block error: '' S bytes
         (\<lambda>out. case read_ack out (word_of_nat (it_block it)) (it_layer it) of
            Ok _ \<Rightarrow> Ok () | Err e \<Rightarrow> Err e | Panic \<Rightarrow> Panic | Hang \<Rightarrow> Hang) n
     | Err e \<Rightarrow> (Err (Wire e), n)
     | Panic \<Rightarrow> (Panic, n)
     | Hang \<Rightarrow> (Hang, n)) n"

end
