(* ===== verification/HandoffLaws.thy ===== *)
theory HandoffLaws
  imports Handoff
begin

text \<open>
  Laws of transfers: how often an operation is tried, what a broken connection leaves behind, and
  that a transfer that reports success has put every layer of every block at the receiver.
\<close>

section \<open>Retrying\<close>

text \<open>What every attempt keeps, the loop keeps; a success of the loop is a success of its last attempt.\<close>

lemma retry_loop_keeps:
  assumes step: "\<And>s r s'. I s \<Longrightarrow> f s = (r, s') \<Longrightarrow> I s' \<and> (\<forall>x. r = Ok x \<longrightarrow> Q x s')"
  shows "I s \<Longrightarrow> retry_loop k b c f s = (r, s', ws) \<Longrightarrow> I s' \<and> (\<forall>x. r = Ok x \<longrightarrow> Q x s')"
proof (induction k arbitrary: b s r s' ws)
  case 0
  then show ?case using step by (auto split: prod.splits)
next
  case (Suc k)
  obtain r1 s1 where f: "f s = (r1, s1)" by fastforce
  have one: "I s1" "\<forall>x. r1 = Ok x \<longrightarrow> Q x s1" using step [OF Suc.prems(1) f] by auto
  show ?case
  proof (cases "\<exists>e. r1 = Err e \<and> is_transient_transfer_error e")
    case True
    then obtain e r2 s2 ws2 where "r1 = Err e" "is_transient_transfer_error e"
        "retry_loop k (min (sat_mul b 2) c) c f s1 = (r2, s2, ws2)" by (metis prod_cases3)
    then show ?thesis using Suc.IH [OF one(1)] Suc.prems(2) f by auto
  next
    case False
    then show ?thesis using Suc.prems(2) f one by (cases r1) auto
  qed
qed

text \<open>The number of waits is one less than the number of attempts, and each wait is bounded.\<close>

lemma retry_loop_waits:
  "retry_loop k b c f s = (r, s', ws) \<Longrightarrow> length ws \<le> k \<and> (\<forall>w \<in> set ws. w \<le> max b c)
     \<and> (\<forall>w \<in> set (drop 1 ws). w \<le> c)"
proof (induction k arbitrary: b s r s' ws)
  case 0
  then show ?case by (auto split: prod.splits)
next
  case (Suc k)
  obtain r1 s1 where f: "f s = (r1, s1)" by fastforce
  show ?case
  proof (cases "\<exists>e. r1 = Err e \<and> is_transient_transfer_error e")
    case True
    let ?b = "min (sat_mul b 2) c"
    obtain e r2 s2 ws2 where e: "r1 = Err e" "is_transient_transfer_error e" "retry_loop k ?b c f s1 = (r2, s2, ws2)"
      using True by (metis prod_cases3)
    have "max ?b c = c" by (simp add: max_def min_def)
    then have "\<forall>w \<in> set ws2. w \<le> c" "length ws2 \<le> k" using Suc.IH [OF e(3)] by auto
    moreover have "ws = b # ws2" using e f Suc.prems by simp
    ultimately show ?thesis by (auto simp: le_max_iff_disj)
  next
    case False
    then show ?thesis using Suc.prems f by (cases r1) auto
  qed
qed

text \<open>The loop succeeds when one of its attempts does and those before failed transiently.\<close>

lemma retry_loop_succeeds:
  assumes "j \<le> k" and "\<forall>i < j. \<exists>e. f (st i) = (Err e, st (Suc i)) \<and> is_transient_transfer_error e"
    and "f (st j) = (Ok x, s')"
  shows "\<exists>ws. retry_loop k b c f (st 0) = (Ok x, s', ws) \<and> length ws = j"
  using assms
proof (induction j arbitrary: k b st)
  case 0
  then show ?case by (cases k) simp_all
next
  case (Suc j)
  then obtain k' where k: "k = Suc k'" by (cases k) auto
  obtain e where e: "f (st 0) = (Err e, st 1)" "is_transient_transfer_error e" using Suc.prems(2) by auto
  have "\<exists>ws. retry_loop k' (min (sat_mul b 2) c) c f (st (Suc 0)) = (Ok x, s', ws) \<and> length ws = j"
    using Suc.prems k by (intro Suc.IH [where st = "\<lambda>i. st (Suc i)"]) auto
  then show ?case using e k by auto
qed

lemma transient_errors:
  "is_transient_transfer_error (ConnectFailed io)"
  "is_transient_transfer_error (WriteError op ''Broken pipe'')"
proof -
  have pre: "contains (pat @ rest) pat" for pat rest
  proof (cases "pat @ rest")
    case (Cons c cs)
    then have "take (length pat) (c # cs) = pat" by (simp flip: Cons)
    then show ?thesis unfolding Cons by simp
  qed simp
  have app: "contains ys pat \<Longrightarrow> contains (xs @ ys) pat" for xs ys pat by (induction xs) auto
  have "contains (message (ConnectFailed io)) ''connection failed''"
    using pre [of "''connection failed''" "'' to '' @ io"] by simp
  then show "is_transient_transfer_error (ConnectFailed io)" by (simp add: is_transient_transfer_error_def)
  have "contains (message (WriteError op ''Broken pipe'')) ''Broken pipe''"
    using app [of "''Broken pipe''" "''Broken pipe''" op] pre [of "''Broken pipe''" "[]"] by simp
  then show "is_transient_transfer_error (WriteError op ''Broken pipe'')" by (simp add: is_transient_transfer_error_def)
qed

lemma final_errors: "\<not> is_transient_transfer_error (Wire AckRejected)" "\<not> is_transient_transfer_error EmptyItems"
  by code_simp+

section \<open>A receiver that mirrors what it is sent\<close>

text \<open>Beyond the contract of a receiver: a write to one layer of one block leaves the others readable.\<close>

locale block_mirror = block_receiver S inv fits
  for S :: "'s kv_store" and inv :: "'s \<Rightarrow> bool" and fits :: "'s \<Rightarrow> u32 \<Rightarrow> nat \<Rightarrow> bool" +
  assumes keys_frame: "ks_try_write_layer_keys S s b l k n = (Ok (), s') \<Longrightarrow> (b', l') \<noteq> (b, l)
      \<Longrightarrow> ks_read_layer_keys S s b' l' = Some buf \<Longrightarrow> ks_read_layer_keys S s' b' l' = Some buf"
    and keys_values: "ks_try_write_layer_keys S s b l k n = (Ok (), s') \<Longrightarrow> ks_read_layer_values S s' = ks_read_layer_values S s"
    and values_frame: "ks_try_write_layer_values S s b l v = (Ok (), s') \<Longrightarrow> (b', l') \<noteq> (b, l)
      \<Longrightarrow> ks_read_layer_values S s b' l' = Some buf \<Longrightarrow> ks_read_layer_values S s' b' l' = Some buf"
    and values_keys: "ks_try_write_layer_values S s b l v = (Ok (), s') \<Longrightarrow> ks_read_layer_keys S s' = ks_read_layer_keys S s"
begin

definition same_shape :: "'s \<Rightarrow> 's \<Rightarrow> bool" where
  "same_shape s s' \<longleftrightarrow> ks_num_blocks S s' = ks_num_blocks S s \<and> ks_elem_per_token S s' = ks_elem_per_token S s
     \<and> (\<forall>l m. fits s' l m = fits s l m)"

definition kept :: "(nat \<times> u32) set \<Rightarrow> 's \<Rightarrow> 's \<Rightarrow> bool" where
  "kept A s s' \<longleftrightarrow> (\<forall>b l buf. (b, l) \<notin> A \<longrightarrow>
     (ks_read_layer_keys S s b l = Some buf \<longrightarrow> ks_read_layer_keys S s' b l = Some buf)
     \<and> (ks_read_layer_values S s b l = Some buf \<longrightarrow> ks_read_layer_values S s' b l = Some buf))"

definition holds :: "'s \<Rightarrow> kv_item \<Rightarrow> bool" where
  "holds s it \<longleftrightarrow> (\<exists>kb vb. ks_read_layer_keys S s (it_block it) (it_layer it) = Some kb
     \<and> ks_read_layer_values S s (it_block it) (it_layer it) = Some vb
     \<and> take (length (it_k it)) kb = it_k it \<and> take (length (it_v it)) vb = it_v it)"

definition good :: "'s \<Rightarrow> kv_item \<Rightarrow> bool" where
  "good s it \<longleftrightarrow> it_k it \<noteq> [] \<and> length (it_k it) = length (it_v it) \<and> length (it_k it) \<le> MAX_PUSH_ELEMENTS
     \<and> it_tokens it \<le> u32_max \<and> it_layer it \<le> MAX_WIRE_LAYER_IDX \<and> it_block it < ks_num_blocks S s
     \<and> fits s (it_layer it) (length (it_k it))"

definition key :: "kv_item \<Rightarrow> nat \<times> u32" where
  "key it = (it_block it, it_layer it)"

definition msg_of :: "kv_item \<Rightarrow> u8 list" where
  "msg_of it = serialize (push_header (it_block it) (it_layer it) (it_k it) (it_v it) (it_tokens it))
     @ encode_f32s (it_k it @ it_v it)"

lemma good_cong: "same_shape s s' \<Longrightarrow> good s' it = good s it"
  by (simp add: good_def same_shape_def)

lemma kept_trans: "kept A s s' \<Longrightarrow> kept B s' s'' \<Longrightarrow> kept (A \<union> B) s s''"
  by (simp add: kept_def)

lemma kept_mono: "kept A s s' \<Longrightarrow> A \<subseteq> B \<Longrightarrow> kept B s s'"
  by (auto simp: kept_def)

lemma kept_holds: "kept A s s' \<Longrightarrow> key it \<notin> A \<Longrightarrow> holds s it \<Longrightarrow> holds s' it"
  by (auto simp: kept_def holds_def key_def)

lemma shape_trans: "same_shape s s' \<Longrightarrow> same_shape s' s'' \<Longrightarrow> same_shape s s''"
  by (simp add: same_shape_def)

lemma encode_good: "good s it \<Longrightarrow> encode_item it = Ok (msg_of it)"
proof -
  assume g: "good s it"
  have "MAX_PUSH_ELEMENTS \<le> u32_max" by (simp add: MAX_PUSH_ELEMENTS_def u32_max_def)
  then show ?thesis using g by (simp add: good_def encode_item_def encode_block_message_Ok msg_of_def)
qed

lemma encode_items_good: "\<forall>it \<in> set its. good s it \<Longrightarrow> encode_items its = Ok (concat (map msg_of its))"
proof (induction its)
  case (Cons it its)
  then show ?case using encode_good [of s it] by simp
qed simp

lemma store_frame:
  assumes "store_push_payload S s h pay = (Ok c, s')"
  shows "kept {(unat (hd_block_id h), hd_layer_idx h)} s s'"
proof -
  obtain s1 k v n where "ks_try_write_layer_keys S s (unat (hd_block_id h)) (hd_layer_idx h) k n = (Ok (), s1)"
      "ks_try_write_layer_values S s1 (unat (hd_block_id h)) (hd_layer_idx h) v = (Ok (), s')"
    using assms by (auto simp: store_push_payload_def Let_def split: if_splits prod.splits outcome.splits)
  then show ?thesis using keys_frame keys_values values_frame values_keys
    by (auto simp: kept_def)
qed

text \<open>One message, whole: stored, acknowledged, the rest left alone.\<close>

lemma push_one:
  assumes s: "inv (rv_store r)" and e: "0 < ks_elem_per_token S (rv_store r)" and g: "good (rv_store r) it"
  shows "\<exists>ack s'. serve_step S (msg_of it @ rest) r = Next rest ack (r\<lparr>rv_store := s'\<rparr>)
    \<and> (\<forall>tail. read_ack (ack @ tail) (word_of_nat (it_block it)) (it_layer it) = Ok tail) \<and> inv s'
    \<and> same_shape (rv_store r) s' \<and> kept {key it} (rv_store r) s' \<and> holds s' it"
proof -
  let ?h = "push_header (it_block it) (it_layer it) (it_k it) (it_v it) (it_tokens it)"
  let ?pay = "encode_f32s (it_k it @ it_v it)"
  have gd: "length (it_k it) = length (it_v it)" "length (it_k it) \<le> MAX_PUSH_ELEMENTS" "it_layer it \<le> MAX_WIRE_LAYER_IDX"
    "it_block it < ks_num_blocks S (rv_store r)" "fits (rv_store r) (it_layer it) (length (it_k it))"
    using g by (auto simp: good_def)
  have b: "length (it_k it) \<le> u32_max" using gd(2) by (simp add: MAX_PUSH_ELEMENTS_def u32_max_def)
  obtain c s' kb vb where st: "store_push_payload S (rv_store r) ?h ?pay = (Ok c, s')" "inv s'"
    "ks_num_blocks S s' = ks_num_blocks S (rv_store r)" "ks_elem_per_token S s' = ks_elem_per_token S (rv_store r)"
    "\<forall>l' m. fits s' l' m = fits (rv_store r) l' m"
    "ks_read_layer_keys S s' (it_block it) (it_layer it) = Some kb" "take (length (it_k it)) kb = it_k it"
    "ks_read_layer_values S s' (it_block it) (it_layer it) = Some vb" "take (length (it_v it)) vb = it_v it"
    using store_ok [OF s gd(1) b gd(4) e gd(5), where n = "it_tokens it"] by blast
  have n: "unat (hd_num_elements ?h) = length (it_k it)" "hd_layer_idx ?h = it_layer it"
    "unat (hd_block_id ?h) = it_block it" "hd_block_id ?h = word_of_nat (it_block it)"
    using b gd(4) blocks_bound [OF s] by (simp_all add: push_header_def unat_word_of_nat_u32 unat_word_of_nat_u64)
  have pay: "take (length (it_k it) * 8) (?pay @ rest) = ?pay" "drop (length (it_k it) * 8) (?pay @ rest) = rest"
    "\<not> length (?pay @ rest) < length (it_k it) * 8" using gd(1) by simp_all
  let ?ack = "ack_bytes ?h True (word_of_nat c)"
  have "serve_step S (msg_of it @ rest) r = serve_push S ?h (?pay @ rest) r"
    using low_bits [OF gd(3)] by (simp add: serve_step_def msg_of_def n)
  also have "\<dots> = Next rest ?ack (r\<lparr>rv_store := s'\<rparr>)"
    using gd(2,3) st(1) pay by (simp add: serve_push_def n not_less Let_def)
  finally have step: "serve_step S (msg_of it @ rest) r = Next rest ?ack (r\<lparr>rv_store := s'\<rparr>)" .
  have ack: "read_ack (?ack @ tail) (word_of_nat (it_block it)) (it_layer it) = Ok tail" for tail
    using read_ack_ack_bytes [of ?h True "word_of_nat c" tail] by (simp add: n)
  have "kept {key it} (rv_store r) s'" using store_frame [OF st(1)] unfolding n(2,3) key_def .
  then show ?thesis using step ack st
    by (intro exI [of _ ?ack] exI [of _ s']) (simp add: same_shape_def holds_def)
qed

text \<open>One message, cut: the connection ends and nothing has happened.\<close>

lemma push_cut:
  assumes g: "good s it" and m: "m < length (msg_of it)"
  shows "serve_step S (take m (msg_of it)) r = Closed [] r"
proof (cases "m < HEADER_SIZE")
  case True
  then have "length (take m (msg_of it)) < HEADER_SIZE" by (simp add: min_less_iff_disj)
  then show ?thesis unfolding serve_step_def by simp
next
  case False
  let ?h = "push_header (it_block it) (it_layer it) (it_k it) (it_v it) (it_tokens it)"
  let ?pay = "encode_f32s (it_k it @ it_v it)"
  have gd: "length (it_k it) = length (it_v it)" "length (it_k it) \<le> MAX_PUSH_ELEMENTS" "it_layer it \<le> MAX_WIRE_LAYER_IDX"
    using g by (auto simp: good_def)
  have b: "length (it_k it) \<le> u32_max" using gd(2) by (simp add: MAX_PUSH_ELEMENTS_def u32_max_def)
  have n: "unat (hd_num_elements ?h) = length (it_k it)" "hd_layer_idx ?h = it_layer it"
    using b by (simp_all add: push_header_def unat_word_of_nat_u32)
  have t: "take m (msg_of it) = serialize ?h @ take (m - HEADER_SIZE) ?pay" using False by (simp add: msg_of_def)
  have "length (msg_of it) = HEADER_SIZE + length (it_k it) * 8" using gd(1) by (simp add: msg_of_def)
  then have short: "length (take (m - HEADER_SIZE) ?pay) < length (it_k it) * 8" using m False gd(1) by simp
  have "serve_step S (take m (msg_of it)) r = serve_push S ?h (take (m - HEADER_SIZE) ?pay) r"
    unfolding t using low_bits [OF gd(3)] by (simp add: serve_step_def n)
  also have "\<dots> = Closed [] r" using leD [OF gd(2)] leD [OF gd(3)] short by (simp add: serve_push_def n Let_def)
  finally show ?thesis .
qed

text \<open>Any part of a batch: what arrived whole is stored, the rest is as before.\<close>

lemma serve_part:
  assumes "inv (rv_store r)" and "0 < ks_elem_per_token S (rv_store r)" and "\<forall>it \<in> set its. good (rv_store r) it"
  shows "inv (rv_store (snd (serve S (take m (concat (map msg_of its))) r)))
    \<and> same_shape (rv_store r) (rv_store (snd (serve S (take m (concat (map msg_of its))) r)))
    \<and> kept (key ` set its) (rv_store r) (rv_store (snd (serve S (take m (concat (map msg_of its))) r)))"
  using assms
proof (induction its arbitrary: m r)
  case Nil
  then show ?case by (simp add: serve.simps [of S "[]"] serve_step_def HEADER_SIZE_def same_shape_def kept_def)
next
  case (Cons it its)
  let ?rest = "concat (map msg_of its)"
  have g: "good (rv_store r) it" using Cons.prems(3) by simp
  show ?case
  proof (cases "m < length (msg_of it)")
    case True
    then show ?thesis using push_cut [OF g True] Cons.prems(1)
      by (simp add: serve.simps [of S "take m (msg_of it)"] same_shape_def kept_def)
  next
    case False
    then have t: "take m (concat (map msg_of (it # its))) = msg_of it @ take (m - length (msg_of it)) ?rest" by simp
    obtain ack s' where st: "serve_step S (msg_of it @ take (m - length (msg_of it)) ?rest) r
        = Next (take (m - length (msg_of it)) ?rest) ack (r\<lparr>rv_store := s'\<rparr>)"
      "inv s'" "same_shape (rv_store r) s'" "kept {key it} (rv_store r) s'"
      using push_one [OF Cons.prems(1,2) g] by blast
    let ?q = "snd (serve S (take (m - length (msg_of it)) ?rest) (r\<lparr>rv_store := s'\<rparr>))"
    have q: "inv (rv_store ?q) \<and> same_shape s' (rv_store ?q) \<and> kept (key ` set its) s' (rv_store ?q)"
      using Cons.IH [of "r\<lparr>rv_store := s'\<rparr>" "m - length (msg_of it)"] Cons.prems(2,3) st(2,3) good_cong [OF st(3)]
      by (simp add: same_shape_def)
    have "snd (serve S (take m (concat (map msg_of (it # its)))) r) = ?q"
      unfolding t using st(1) by (simp add: serve.simps [of S "msg_of it @ _"] split: prod.split)
    then show ?thesis using q shape_trans [OF st(3)] kept_trans [OF st(4), of "key ` set its"] by simp
  qed
qed

text \<open>A whole batch: acknowledged one by one, and every item is held.\<close>

lemma serve_batch:
  assumes "inv (rv_store r)" and "0 < ks_elem_per_token S (rv_store r)" and "\<forall>it \<in> set its. good (rv_store r) it"
    and "distinct (map key its)"
  shows "\<exists>out r'. serve S (concat (map msg_of its)) r = (out, r') \<and> read_acks out (item_ids its) = Ok []
    \<and> (\<forall>it \<in> set its. holds (rv_store r') it)"
  using assms
proof (induction its arbitrary: r)
  case Nil
  then show ?case by (simp add: serve.simps [of S "[]"] serve_step_def HEADER_SIZE_def item_ids_def)
next
  case (Cons it its)
  let ?rest = "concat (map msg_of its)"
  have g: "good (rv_store r) it" using Cons.prems(3) by simp
  obtain ack s' where st: "serve_step S (msg_of it @ ?rest) r = Next ?rest ack (r\<lparr>rv_store := s'\<rparr>)"
    "\<forall>tail. read_ack (ack @ tail) (word_of_nat (it_block it)) (it_layer it) = Ok tail"
    "inv s'" "same_shape (rv_store r) s'" "holds s' it"
    using push_one [OF Cons.prems(1,2) g] by blast
  let ?r = "r\<lparr>rv_store := s'\<rparr>"
  have p: "inv (rv_store ?r)" "0 < ks_elem_per_token S (rv_store ?r)" "\<forall>it \<in> set its. good (rv_store ?r) it"
    using st(3,4) Cons.prems(2,3) good_cong [OF st(4)] by (simp_all add: same_shape_def)
  obtain out r' where r': "serve S ?rest ?r = (out, r')" "read_acks out (item_ids its) = Ok []"
    "\<forall>it \<in> set its. holds (rv_store r') it"
    using Cons.IH [OF p] Cons.prems(4) by auto
  have "kept (key ` set its) s' (rv_store r')" using serve_part [OF p, of "length ?rest"] r'(1) by simp
  then have "holds (rv_store r') it" using kept_holds st(5) Cons.prems(4) by auto
  moreover have "serve S (concat (map msg_of (it # its))) r = (ack @ out, r')"
    using st(1) r'(1) by (simp add: serve.simps [of S "msg_of it @ _"])
  ultimately show ?case using st(2) r'(2,3) by (auto simp: item_ids_def)
qed

section \<open>Chunks under retries\<close>

definition fine :: "'s \<Rightarrow> (nat \<times> u32) set \<Rightarrow> 's \<Rightarrow> bool" where
  "fine s A s' \<longleftrightarrow> inv s' \<and> same_shape s s' \<and> kept A s s'"

lemma fine_refl: "inv s \<Longrightarrow> fine s A s"
  by (simp add: fine_def same_shape_def kept_def)

lemma fine_trans: "fine s A s' \<Longrightarrow> fine s' B s'' \<Longrightarrow> fine s (A \<union> B) s''"
  using shape_trans kept_trans by (auto simp: fine_def)

text \<open>One attempt: whatever the network does, only the chunk's layers change, and success means held.\<close>

lemma attempt:
  assumes "0 < ks_elem_per_token S s" and "\<forall>it \<in> set its. good s it" and "distinct (map key its)" and "its \<noteq> []"
    and "fine s (key ` set its) (rv_store (snd n))"
    and "send_blocks_batch_remote S its n = (res, n')"
  shows "fine s (key ` set its) (rv_store (snd n')) \<and> fst n' = tl (fst n)
    \<and> (res = Ok () \<and> (\<forall>it \<in> set its. holds (rv_store (snd n')) it) \<and> fst n \<noteq> [] \<and> hd (fst n) = Up
       \<or> (\<exists>e. res = Err e \<and> is_transient_transfer_error e) \<and> (fst n = [] \<or> hd (fst n) \<noteq> Up))"
proof -
  obtain ls r where n: "n = (ls, r)" by fastforce
  have r: "inv (rv_store r)" "same_shape s (rv_store r)" "kept (key ` set its) s (rv_store r)"
    using assms(5) n by (simp_all add: fine_def)
  have e: "0 < ks_elem_per_token S (rv_store r)" using assms(1) r(2) by (simp add: same_shape_def)
  have g: "\<forall>it \<in> set its. good (rv_store r) it" using assms(2) good_cong [OF r(2)] by simp
  let ?bytes = "concat (map msg_of its)"
  have send: "send_blocks_batch_remote S its n = exchange ''TCP batch block write error: '' S ?bytes
      (\<lambda>out. case read_acks out (item_ids its) of Ok _ \<Rightarrow> Ok () | Err e \<Rightarrow> Err e | Panic \<Rightarrow> Panic | Hang \<Rightarrow> Hang) n"
    using assms(4) encode_items_good [OF assms(2)] by (simp add: send_blocks_batch_remote_def)
  have part: "fine s (key ` set its) (rv_store (snd (serve S (take m ?bytes) r)))" for m
    using fine_trans [of s "key ` set its" "rv_store r" "key ` set its"] serve_part [OF r(1) e g, of m] r
    by (simp add: fine_def)
  show ?thesis
  proof (cases ls)
    case Nil
    then show ?thesis using assms(5,6) transient_errors send by (auto simp: n exchange_def)
  next
    case (Cons l ls')
    show ?thesis
    proof (cases l)
      case Refused
      then show ?thesis using assms(5,6) transient_errors send Cons by (auto simp: n exchange_def)
    next
      case (Cut m)
      then show ?thesis using assms(6) part [of m] transient_errors send Cons by (auto simp: n exchange_def)
    next
      case Up
      obtain out r' where b: "serve S ?bytes r = (out, r')" "read_acks out (item_ids its) = Ok []"
        "\<forall>it \<in> set its. holds (rv_store r') it"
        using serve_batch [OF r(1) e g assms(3)] by blast
      then show ?thesis using Up assms(6) part [of "length ?bytes"] send Cons by (auto simp: n exchange_def)
    qed
  qed
qed

lemma chunk_sent:
  assumes "0 < ks_elem_per_token S s" and "\<forall>it \<in> set its. good s it" and "distinct (map key its)" and "its \<noteq> []"
    and "inv s" and "rv_store (snd n) = s"
    and "retry_with_policy pol (send_blocks_batch_remote S its) n = (res, n', ws)"
  shows "fine s (key ` set its) (rv_store (snd n')) \<and> (res = Ok () \<longrightarrow> (\<forall>it \<in> set its. holds (rv_store (snd n')) it))"
proof -
  have step: "fine s (key ` set its) (rv_store (snd m')) \<and> (\<forall>x. r = Ok x \<longrightarrow> (\<forall>it \<in> set its. holds (rv_store (snd m')) it))"
    if "fine s (key ` set its) (rv_store (snd m))" "send_blocks_batch_remote S its m = (r, m')" for m r m'
    using attempt [OF assms(1-4) that] by (cases r) simp_all
  have "fine s (key ` set its) (rv_store (snd n))" unfolding assms(6) by (rule fine_refl [OF assms(5)])
  from retry_loop_keeps [where I = "\<lambda>n. fine s (key ` set its) (rv_store (snd n))"
      and Q = "\<lambda>x n. \<forall>it \<in> set its. holds (rv_store (snd n)) it", OF step this assms(7) [unfolded retry_with_policy_def]]
  have "fine s (key ` set its) (rv_store (snd n')) \<and> (\<forall>x. res = Ok x \<longrightarrow> (\<forall>it \<in> set its. holds (rv_store (snd n')) it))" .
  then show ?thesis by blast
qed

lemma chunks_sent:
  assumes "0 < ks_elem_per_token S (rv_store (snd n))" and "inv (rv_store (snd n))"
    and "\<forall>it \<in> set (concat cs). good (rv_store (snd n)) it" and "distinct (map key (concat cs))" and "[] \<notin> set cs"
    and "send_chunks pol S cs n = (Ok (), n')"
  shows "fine (rv_store (snd n)) (key ` set (concat cs)) (rv_store (snd n'))
    \<and> (\<forall>it \<in> set (concat cs). holds (rv_store (snd n')) it)"
  using assms
proof (induction cs arbitrary: n)
  case Nil
  then show ?case by (simp add: fine_refl)
next
  case (Cons c cs)
  let ?s = "rv_store (snd n)"
  obtain res n1 ws where one: "retry_with_policy pol (send_blocks_batch_remote S c) n = (res, n1, ws)" by (metis prod_cases3)
  then have ok: "res = Ok ()" "send_chunks pol S cs n1 = (Ok (), n')"
    using Cons.prems(6) by (auto split: outcome.splits)
  have c: "fine ?s (key ` set c) (rv_store (snd n1))" "\<forall>it \<in> set c. holds (rv_store (snd n1)) it"
    using chunk_sent [OF Cons.prems(1) _ _ _ Cons.prems(2) refl one] Cons.prems(3-5) ok(1) by auto
  have sh: "same_shape ?s (rv_store (snd n1))" using c(1) by (simp add: fine_def)
  have rest: "fine (rv_store (snd n1)) (key ` set (concat cs)) (rv_store (snd n'))
      \<and> (\<forall>it \<in> set (concat cs). holds (rv_store (snd n')) it)"
    using Cons.prems c(1) sh good_cong [OF sh] ok(2)
    by (intro Cons.IH) (auto simp: fine_def same_shape_def)
  have "holds (rv_store (snd n')) it" if "it \<in> set c" for it
  proof (rule kept_holds)
    show "kept (key ` set (concat cs)) (rv_store (snd n1)) (rv_store (snd n'))" using rest by (simp add: fine_def)
    show "key it \<notin> key ` set (concat cs)" using Cons.prems(4) that by auto
    show "holds (rv_store (snd n1)) it" using c(2) that by blast
  qed
  then show ?case using rest fine_trans [OF c(1), of "key ` set (concat cs)"] by (auto simp: image_Un)
qed

text \<open>A chunk gets through when one of its connections does.\<close>

lemma chunk_gets_through:
  assumes "0 < ks_elem_per_token S s" and "\<forall>it \<in> set its. good s it" and "distinct (map key its)" and "its \<noteq> []"
    and "Up \<notin> set bad"
  shows "length bad \<le> k \<Longrightarrow> fine s (key ` set its) (rv_store r)
    \<Longrightarrow> \<exists>r' ws. retry_loop k b c (send_blocks_batch_remote S its) (bad @ Up # ls, r) = (Ok (), (ls, r'), ws)"
  using assms(5)
proof (induction bad arbitrary: k b r)
  case Nil
  obtain res n' where run: "send_blocks_batch_remote S its (Up # ls, r) = (res, n')" by (metis prod.collapse)
  then have "res = Ok ()" "fst n' = ls" using attempt [OF assms(1-4), of "(Up # ls, r)"] Nil.prems(2) by auto
  then show ?case using run by (cases k; cases n') auto
next
  case (Cons l bad)
  then obtain k' where k: "k = Suc k'" by (cases k) auto
  obtain res n' where run: "send_blocks_batch_remote S its ((l # bad) @ Up # ls, r) = (res, n')" by (metis prod.collapse)
  have a: "fine s (key ` set its) (rv_store (snd n'))" "fst n' = bad @ Up # ls" "\<exists>e. res = Err e \<and> is_transient_transfer_error e"
    using attempt [OF assms(1-4) _ run] Cons.prems by auto
  then obtain e r1 where e: "res = Err e" "is_transient_transfer_error e" "n' = (bad @ Up # ls, r1)" by (cases n') auto
  have "\<exists>r' ws. retry_loop k' (min (sat_mul b 2) c) c (send_blocks_batch_remote S its) (bad @ Up # ls, r1) = (Ok (), (ls, r'), ws)"
    using Cons.IH [where r = r1] Cons.prems k a(1) e(3) by simp
  then obtain r' ws where
    "retry_loop k' (min (sat_mul b 2) c) c (send_blocks_batch_remote S its) (bad @ Up # ls, r1) = (Ok (), (ls, r'), ws)" by blast
  then show ?case using run e k by simp
qed

lemma chunks_get_through:
  assumes "0 < ks_elem_per_token S (rv_store r)" and "inv (rv_store r)"
    and "\<forall>it \<in> set (concat cs). good (rv_store r) it" and "distinct (map key (concat cs))" and "[] \<notin> set cs"
    and "length bads = length cs" and "\<forall>bad \<in> set bads. Up \<notin> set bad \<and> length bad < max (unat (rp_max_attempts pol)) 1"
  shows "fst (send_chunks pol S cs (concat (map (\<lambda>bad. bad @ [Up]) bads), r)) = Ok ()"
  using assms
proof (induction cs arbitrary: r bads)
  case (Cons c cs)
  obtain bad bads' where bads: "bads = bad # bads'" using Cons.prems(6) by (cases bads) auto
  let ?ls = "concat (map (\<lambda>bad. bad @ [Up]) bads')"
  have g: "\<forall>it \<in> set c. good (rv_store r) it" and d: "distinct (map key c)" "c \<noteq> []" using Cons.prems(3-5) by auto
  have len: "length bad \<le> max (unat (rp_max_attempts pol)) 1 - 1" and up: "Up \<notin> set bad" using Cons.prems(7) bads by auto
  obtain r' ws where one: "retry_with_policy pol (send_blocks_batch_remote S c) (bad @ Up # ?ls, r) = (Ok (), (?ls, r'), ws)"
    using chunk_gets_through [OF Cons.prems(1) g d up len fine_refl [OF Cons.prems(2)]]
    unfolding retry_with_policy_def by blast
  have f: "fine (rv_store r) (key ` set c) (rv_store r')"
    using chunk_sent [OF Cons.prems(1) g d Cons.prems(2) _ one] by simp
  then have sh: "same_shape (rv_store r) (rv_store r')" by (simp add: fine_def)
  have "fst (send_chunks pol S cs (?ls, r')) = Ok ()"
    using Cons.prems f sh good_cong [OF sh] bads
    by (intro Cons.IH) (auto simp: fine_def same_shape_def)
  then show ?case using one bads by simp
qed simp

end

section \<open>The pool as a mirror\<close>

lemma write_layer_keys_values:
  "try_write_layer_keys p i layer keys n = (Ok (), p') \<Longrightarrow> read_layer_values p' j l = read_layer_values p j l"
  by (auto simp: try_write_layer_keys_def read_layer_values_def Let_def blk_upd_block split: if_splits)

lemma write_layer_values_frame:
  assumes "try_write_layer_values p i layer vals = (Ok (), p')" and "(j, l) \<noteq> (i, layer)"
    and "read_layer_values p j l = Some buf"
  shows "read_layer_values p' j l = Some buf"
  using assms
  by (auto simp: try_write_layer_values_def read_layer_values_def Let_def blk_upd_block nth_grow_layers
      split: if_splits) (auto simp: grow_layers_def nth_append)

interpretation pool_mirror: block_mirror pool_kv_store receiver_inv pool_fits
proof unfold_locales
  fix s s' :: kv_block_pool and b b' :: nat and l l' :: u32 and k :: "f32 list" and n :: nat and buf :: "f32 list"
  show "ks_read_layer_keys pool_kv_store s' b' l' = Some buf"
    if "ks_try_write_layer_keys pool_kv_store s b l k n = (Ok (), s')" "(b', l') \<noteq> (b, l)"
      "ks_read_layer_keys pool_kv_store s b' l' = Some buf"
  proof -
    have "(b', unat l') \<noteq> (b, unat l)" using that(2) by (simp add: word_unat_eq_iff)
    then show ?thesis
      using that(1,3) write_layer_keys_frame [of s b "unat l" k n s' b' "unat l'" buf] by (simp add: pool_kv_store_def)
  qed
  show "ks_read_layer_values pool_kv_store s' = ks_read_layer_values pool_kv_store s"
    if "ks_try_write_layer_keys pool_kv_store s b l k n = (Ok (), s')"
    using that write_layer_keys_values by (fastforce simp: pool_kv_store_def)
  show "ks_read_layer_values pool_kv_store s' b' l' = Some buf"
    if "ks_try_write_layer_values pool_kv_store s b l k = (Ok (), s')" "(b', l') \<noteq> (b, l)"
      "ks_read_layer_values pool_kv_store s b' l' = Some buf"
  proof -
    have "(b', unat l') \<noteq> (b, unat l)" using that(2) by (simp add: word_unat_eq_iff)
    then show ?thesis
      using that(1,3) write_layer_values_frame [of s b "unat l" k s' b' "unat l'" buf] by (simp add: pool_kv_store_def)
  qed
  show "ks_read_layer_keys pool_kv_store s' = ks_read_layer_keys pool_kv_store s"
    if "ks_try_write_layer_values pool_kv_store s b l k = (Ok (), s')"
    using that write_layer_values_keys by (fastforce simp: pool_kv_store_def)
qed

section \<open>Chunks and snapshots\<close>

lemma concat_chunks: "0 < n \<Longrightarrow> concat (chunks n xs) = xs"
proof (induction n xs rule: chunks.induct)
  case (1 n xs)
  then show ?case by (simp add: chunks.simps [of n xs])
qed

lemma chunks_nonempty: "0 < n \<Longrightarrow> [] \<notin> set (chunks n xs)"
proof (induction n xs rule: chunks.induct)
  case (1 n xs)
  then show ?case by (auto simp: chunks.simps [of n xs])
qed

lemma chunks_bounded: "c \<in> set (chunks n xs) \<Longrightarrow> length c \<le> n"
proof (induction n xs rule: chunks.induct)
  case (1 n xs)
  then show ?case by (auto simp: chunks.simps [of n xs] split: if_splits)
qed

lemma snapshot_Ok:
  "snapshot_block_layers p bs = Ok its \<longleftrightarrow> (\<forall>b \<in> set bs. block_is_received p b) \<and> its = concat (map (block_items p) bs)"
proof (induction bs arbitrary: its)
  case (Cons b bs)
  show ?case
  proof (cases "snapshot_block_layers p bs")
    case (Ok its')
    then show ?thesis using Cons.IH [of its'] by (auto simp: block_is_received_def)
  next
    case (Err e)
    then show ?thesis using Cons.IH by (auto simp: block_is_received_def)
  next
    case Panic
    then show ?thesis using Cons.IH by (auto simp: block_is_received_def)
  next
    case Hang
    then show ?thesis using Cons.IH by (auto simp: block_is_received_def)
  qed
qed auto

lemma layer_item_iff:
  "it \<in> set (layer_item p b layer) \<longleftrightarrow> (\<exists>k v. read_layer_keys p b layer = Some k
     \<and> read_layer_values p b layer = Some v \<and> k \<noteq> [] \<and> v \<noteq> []
     \<and> it = \<lparr>it_block = b, it_layer = word_of_nat layer, it_k = k, it_v = v,
         it_tokens = (case block_num_tokens p b of Some n \<Rightarrow> n | None \<Rightarrow> 0)\<rparr>)"
  by (auto simp: layer_item_def split: option.splits)

lemma block_items_iff: "it \<in> set (block_items p b) \<longleftrightarrow> (\<exists>layer < kp_num_layers p b. it \<in> set (layer_item p b layer))"
  by (auto simp: block_items_def)

lemma unat_word_of_nat_small: "n < 2 ^ 32 \<Longrightarrow> unat (word_of_nat n :: u32) = n"
  by (simp add: unat_of_nat)

lemma distinct_keys:
  assumes "kp_num_layers p b \<le> 2 ^ 32"
  shows "distinct (map pool_mirror.key (block_items p b))"
proof -
  have one: "distinct (map pool_mirror.key (layer_item p b l))"
    "set (map pool_mirror.key (layer_item p b l)) \<subseteq> {(b, word_of_nat l)}" for l
    by (auto simp: layer_item_def pool_mirror.key_def split: option.splits)
  have "distinct (map pool_mirror.key (concat (map (layer_item p b) [0..<m])))" if "m \<le> 2 ^ 32" for m
    using that
  proof (induction m)
    case (Suc m)
    have "(word_of_nat m :: u32) \<noteq> word_of_nat l" if "l < m" for l
    proof
      assume "(word_of_nat m :: u32) = word_of_nat l"
      then have "unat (word_of_nat m :: u32) = unat (word_of_nat l :: u32)" by simp
      then show False using unat_word_of_nat_small [of m] unat_word_of_nat_small [of l] that Suc.prems by simp
    qed
    then have "(b, word_of_nat m) \<notin> set (map pool_mirror.key (concat (map (layer_item p b) [0..<m])))"
      using one(2) by fastforce
    then have "set (map pool_mirror.key (concat (map (layer_item p b) [0..<m]))) \<inter> set (map pool_mirror.key (layer_item p b m)) = {}"
      using one(2) [of m] by blast
    then show ?case using Suc one(1) [of m] by simp
  qed simp
  from this [OF assms] show ?thesis by (simp add: block_items_def)
qed

end
