(* ===== verification/HandoffSpec.thy ===== *)
theory HandoffSpec
  imports HandoffLaws PoolRuns
begin

text \<open>
  The properties of disaggregated serving: what a transfer that reports success has done, when it
  does report success, how often and how long an operation is retried, and the role a node takes.
\<close>

section \<open>Handing blocks over\<close>

lemma pool_store [simp]:
  "ks_num_blocks pool_kv_store q = cap q" "ks_elem_per_token pool_kv_store = kp_elem"
  "ks_read_layer_keys pool_kv_store q b w = read_layer_keys q b (unat w)"
  "ks_read_layer_values pool_kv_store q b w = read_layer_values q b (unat w)"
  by (simp_all add: pool_kv_store_def)

text \<open>
  What the two pools need for every layer of the listed blocks to be storable at the receiver. The
  source compares the geometries of the two sides only to log a mismatch; a layer that is larger at the
  receiver is accepted, and its buffer then begins with the sender's.
\<close>

definition can_hold :: "kv_block_pool \<Rightarrow> nat list \<Rightarrow> kv_block_pool \<Rightarrow> bool" where
  "can_hold q ids p \<longleftrightarrow> layers_sized p \<and> (\<forall>l. layer_elem p l \<le> layer_elem q l \<and> layer_elem p l \<le> MAX_PUSH_ELEMENTS)
     \<and> distinct ids \<and> (\<forall>b \<in> set ids. b < cap q \<and> kp_num_layers p b \<le> 4097 \<and> kb_num_tokens (blk p b) \<le> u32_max)"

lemma read_layer_length:
  assumes "layers_sized p" and "l \<noteq> 0 \<or> b < cap p"
  shows "read_layer_keys p b l = Some k \<Longrightarrow> length k = layer_elem p l"
    and "read_layer_values p b l = Some v \<Longrightarrow> length v = layer_elem p l"
  using assms by (auto simp: read_layer_keys_def read_layer_values_def layers_sized_def split: if_splits)

lemma items_good:
  assumes "can_hold q ids p" and "it \<in> set (concat (map (block_items p) ids))"
  shows "pool_mirror.good q it"
proof -
  obtain b l k v where b: "b \<in> set ids" and l: "l < kp_num_layers p b"
    and k: "read_layer_keys p b l = Some k" and v: "read_layer_values p b l = Some v" and ne: "k \<noteq> []"
    and it: "it = \<lparr>it_block = b, it_layer = word_of_nat l, it_k = k, it_v = v,
         it_tokens = (case block_num_tokens p b of Some n \<Rightarrow> n | None \<Rightarrow> 0)\<rparr>"
    using assms(2) by (auto simp: block_items_iff layer_item_iff)
  have s: "layers_sized p" "layer_elem p l \<le> layer_elem q l" "layer_elem p l \<le> MAX_PUSH_ELEMENTS"
    "b < cap q" "kp_num_layers p b \<le> 4097" "kb_num_tokens (blk p b) \<le> u32_max"
    using assms(1) b by (auto simp: can_hold_def)
  have c: "b < cap p" using l by (auto simp: kp_num_layers_def split: if_splits)
  have u: "unat (word_of_nat l :: u32) = l" using l s(5) by (intro unat_word_of_nat_small) simp
  have len: "length k = layer_elem p l" "length v = layer_elem p l"
    using read_layer_length [OF s(1), of l b] c k v by auto
  have "(word_of_nat l :: u32) \<le> MAX_WIRE_LAYER_IDX"
    using l s(5) by (simp add: word_le_nat_alt u MAX_WIRE_LAYER_IDX_def)
  moreover have "(case block_num_tokens p b of Some n \<Rightarrow> n | None \<Rightarrow> 0) \<le> u32_max"
    using s(6) by (simp add: block_num_tokens_def)
  ultimately show ?thesis using s(2-4) len ne u
    by (simp add: pool_mirror.good_def it pool_fits_def)
qed

lemma items_distinct:
  assumes "distinct ids" and "\<forall>b \<in> set ids. kp_num_layers p b \<le> 4097"
  shows "distinct (map pool_mirror.key (concat (map (block_items p) ids)))"
  using assms
proof (induction ids)
  case (Cons b ids)
  have key: "fst (pool_mirror.key it) = b" if "it \<in> set (block_items p b)" for it b
    using that by (auto simp: block_items_iff layer_item_iff pool_mirror.key_def)
  have "set (map pool_mirror.key (block_items p b))
      \<inter> set (map pool_mirror.key (concat (map (block_items p) ids))) = {}"
  proof -
    have False if "it \<in> set (block_items p b)" "c \<in> set ids" "jt \<in> set (block_items p c)"
      "pool_mirror.key it = pool_mirror.key jt" for it jt c
      using key [OF that(1)] key [OF that(3)] that(2,4) Cons.prems(1) by auto
    then show ?thesis by auto metis
  qed
  moreover have "kp_num_layers p b \<le> 2 ^ 32" using Cons.prems(2) by simp
  ultimately show ?case using Cons distinct_keys [of p b] by simp
qed simp

lemma transfer_Ok:
  assumes "transfer_kv_cache_real pol S ids p n = (Ok (), n')"
  shows "ids \<noteq> []" "\<forall>b \<in> set ids. block_is_received p b"
    "send_chunks pol S (chunks MAX_MESSAGES_PER_CONNECTION (concat (map (block_items p) ids))) n = (Ok (), n')"
proof -
  show "ids \<noteq> []" using assms by (auto simp: transfer_kv_cache_real_def)
  obtain its where "snapshot_block_layers p ids = Ok its" "send_block_layers pol S its n = (Ok (), n')"
    using assms by (auto simp: transfer_kv_cache_real_def split: if_splits outcome.splits)
  then show "\<forall>b \<in> set ids. block_is_received p b"
    "send_chunks pol S (chunks MAX_MESSAGES_PER_CONNECTION (concat (map (block_items p) ids))) n = (Ok (), n')"
    by (auto simp: snapshot_Ok send_block_layers_def)
qed

lemma max_messages [simp]: "0 < MAX_MESSAGES_PER_CONNECTION"
  by (simp add: MAX_MESSAGES_PER_CONNECTION_def)

lemma take_all_eq: "take (length xs) ys = xs \<Longrightarrow> length ys = length xs \<Longrightarrow> ys = xs"
  by simp

text \<open>The transfer gets through when each group of messages has one good connection in time.\<close>

lemma transfer_gets_through:
  assumes "ids \<noteq> []" and "\<forall>b \<in> set ids. block_is_received p b"
    and "receiver_inv (rv_store r)" and "0 < kp_elem (rv_store r)" and "can_hold (rv_store r) ids p"
    and "length bads = length (chunks MAX_MESSAGES_PER_CONNECTION (concat (map (block_items p) ids)))"
    and "\<forall>bad \<in> set bads. Up \<notin> set bad \<and> length bad < max (unat (rp_max_attempts pol)) 1"
  shows "fst (transfer_kv_cache_real pol pool_kv_store ids p (concat (map (\<lambda>bad. bad @ [Up]) bads), r)) = Ok ()"
proof -
  let ?its = "concat (map (block_items p) ids)"
  have hold: "distinct ids" "\<forall>b \<in> set ids. kp_num_layers p b \<le> 4097" using assms(5) by (auto simp: can_hold_def)
  have its: "concat (chunks MAX_MESSAGES_PER_CONNECTION ?its) = ?its" by (simp add: concat_chunks)
  have "fst (send_chunks pol pool_kv_store (chunks MAX_MESSAGES_PER_CONNECTION ?its)
      (concat (map (\<lambda>bad. bad @ [Up]) bads), r)) = Ok ()"
    by (rule pool_mirror.chunks_get_through)
      (use assms items_good [OF assms(5)] items_distinct [OF hold] in
        \<open>simp_all add: its chunks_nonempty\<close>)
  moreover have "snapshot_block_layers p ids = Ok ?its" using assms(2) by (simp add: snapshot_Ok)
  ultimately show ?thesis using assms(1) by (simp add: transfer_kv_cache_real_def send_block_layers_def)
qed

text \<open>
  C37. A transfer that reports success has mirrored the blocks: however its connections were refused,
  cut off half way or repeated, afterwards the receiver reads, for every listed block and every layer
  the sender holds keys and values of, buffers that begin with the sender's keys and values and are
  exactly those where the layer has the same size on both sides (a receiver with larger layers keeps
  what stood behind the end); and it reads every block outside the list as before. The block ids are
  listed once each, the receiver has blocks of those ids and layers at least as large, a layer fits a
  message, a block has at most 4097 layers and fewer than 2^32 tokens; both pools keep their buffers at
  the sizes of their layers and the receiver's tokens have a width above 0.
\<close>

theorem handoff_delivers:
  assumes "transfer_kv_cache_real pol pool_kv_store ids p (ls, r) = (Ok (), (ls', r'))"
    and "receiver_inv (rv_store r)" and "0 < kp_elem (rv_store r)" and "can_hold (rv_store r) ids p"
  shows "(\<forall>b \<in> set ids. \<forall>l < kp_num_layers p b. \<forall>k v.
      read_layer_keys p b l = Some k \<and> read_layer_values p b l = Some v \<and> k \<noteq> [] \<and> v \<noteq> []
      \<longrightarrow> (\<exists>kb vb. read_layer_keys (rv_store r') b l = Some kb \<and> read_layer_values (rv_store r') b l = Some vb
        \<and> take (length k) kb = k \<and> take (length v) vb = v
        \<and> (layer_elem (rv_store r) l = layer_elem p l \<longrightarrow> kb = k \<and> vb = v)))
    \<and> (\<forall>b l buf. b \<notin> set ids \<and> l < 2 ^ 32 \<longrightarrow>
      (read_layer_keys (rv_store r) b l = Some buf \<longrightarrow> read_layer_keys (rv_store r') b l = Some buf)
      \<and> (read_layer_values (rv_store r) b l = Some buf \<longrightarrow> read_layer_values (rv_store r') b l = Some buf))"
proof -
  let ?its = "concat (map (block_items p) ids)" and ?q = "rv_store r" and ?q' = "rv_store r'"
  have hold: "layers_sized p" "distinct ids"
      "\<forall>b \<in> set ids. kp_num_layers p b \<le> 4097" using assms(4) by (auto simp: can_hold_def)
  have its: "concat (chunks MAX_MESSAGES_PER_CONNECTION ?its) = ?its" by (simp add: concat_chunks)
  have sent: "pool_mirror.fine ?q (pool_mirror.key ` set ?its) ?q'" "\<forall>it \<in> set ?its. pool_mirror.holds ?q' it"
    using pool_mirror.chunks_sent [of "(ls, r)" "chunks MAX_MESSAGES_PER_CONNECTION ?its" pol "(ls', r')"]
      assms(2,3) transfer_Ok(3) [OF assms(1)] items_good [OF assms(4)] items_distinct [OF hold(2,3)]
      chunks_nonempty [of MAX_MESSAGES_PER_CONNECTION ?its]
    by (simp_all add: its)
  have sized: "layers_sized ?q'" and shape: "\<And>l m. pool_fits ?q' l m = pool_fits ?q l m"
    using sent(1) by (auto simp: pool_mirror.fine_def receiver_inv_def pool_mirror.same_shape_def)
  have elem: "layer_elem ?q' (unat w) = layer_elem ?q (unat w)" for w :: u32
    using shape [of w "layer_elem ?q' (unat w)"] shape [of w "layer_elem ?q (unat w)"]
    by (simp add: pool_fits_def)
  have "\<exists>kb vb. read_layer_keys ?q' b l = Some kb \<and> read_layer_values ?q' b l = Some vb
      \<and> take (length k) kb = k \<and> take (length v) vb = v
      \<and> (layer_elem ?q l = layer_elem p l \<longrightarrow> kb = k \<and> vb = v)"
    if b: "b \<in> set ids" and l: "l < kp_num_layers p b" and kv: "read_layer_keys p b l = Some k"
      "read_layer_values p b l = Some v" "k \<noteq> []" "v \<noteq> []" for b l k v
  proof -
    have c: "b < cap p" using l by (auto simp: kp_num_layers_def split: if_splits)
    have u: "unat (word_of_nat l :: u32) = l" using l hold(3) b by (intro unat_word_of_nat_small) force
    let ?it = "\<lparr>it_block = b, it_layer = word_of_nat l, it_k = k, it_v = v,
         it_tokens = (case block_num_tokens p b of Some n \<Rightarrow> n | None \<Rightarrow> 0)\<rparr>"
    have "?it \<in> set (layer_item p b l)" using kv by (simp add: layer_item_iff)
    then have "?it \<in> set ?its" using b l by (auto simp: block_items_iff)
    then have "pool_mirror.holds ?q' ?it" using sent(2) by blast
    then obtain kb vb where got: "read_layer_keys ?q' b l = Some kb" "read_layer_values ?q' b l = Some vb"
        "take (length k) kb = k" "take (length v) vb = v"
      by (auto simp: pool_mirror.holds_def u)
    have c': "b < cap ?q'" using got(1) by (auto simp: read_layer_keys_def split: if_splits)
    have "length kb = length k \<and> length vb = length v" if "layer_elem ?q l = layer_elem p l"
      using that read_layer_length [OF sized, of l b] read_layer_length [OF hold(1), of l b] c c' got(1,2) kv(1,2)
        elem [of "word_of_nat l"] by (simp_all add: u)
    then show ?thesis using got by (metis take_all_eq)
  qed
  moreover have "(read_layer_keys ?q b l = Some buf \<longrightarrow> read_layer_keys ?q' b l = Some buf)
      \<and> (read_layer_values ?q b l = Some buf \<longrightarrow> read_layer_values ?q' b l = Some buf)"
    if "b \<notin> set ids" "l < 2 ^ 32" for b l buf
  proof -
    have "(b, word_of_nat l) \<notin> pool_mirror.key ` set ?its"
      using that(1) by (auto simp: pool_mirror.key_def block_items_iff layer_item_iff)
    then show ?thesis using sent(1) unat_word_of_nat_small [OF that(2)]
      by (simp add: pool_mirror.fine_def pool_mirror.kept_def) metis
  qed
  ultimately show ?thesis by blast
qed

text \<open>
  C38. A transfer gets through a bad network to a receiver that can hold the blocks: if there is a block
  to send and each of them holds data, the ids are listed once each, the receiver has blocks of those
  ids and layers at least as large as the sender's, a layer fits a message, a block has at most 4097
  layers and fewer than 2^32 tokens, both pools keep their buffers at the sizes of their layers and the
  receiver's tokens have a width above 0, and the connections come in runs, one for each group of 256
  messages, of fewer refused or cut ones than attempts are allowed and then a good one, the transfer
  reports success. (A block or layer the receiver cannot hold is answered with a refusal, which is final
  on any connection.)
\<close>

theorem handoff_succeeds:
  assumes "ids \<noteq> []" and "\<forall>b \<in> set ids. block_is_received p b"
    and "receiver_inv (rv_store r)" and "0 < kp_elem (rv_store r)" and "can_hold (rv_store r) ids p"
    and "length bads = length (chunks MAX_MESSAGES_PER_CONNECTION (concat (map (block_items p) ids)))"
    and "\<forall>bad \<in> set bads. Up \<notin> set bad \<and> length bad < max (unat (rp_max_attempts pol)) 1"
  shows "fst (transfer_kv_cache_real pol pool_kv_store ids p (concat (map (\<lambda>bad. bad @ [Up]) bads), r)) = Ok ()"
  by (rule transfer_gets_through [OF assms])

text \<open>A pool that holds one key in its first block, and a fresh pool of the same shape.\<close>

definition fresh_pool :: kv_block_pool where
  "fresh_pool = kp_new_on_device 0 False 2 1 1 0"

definition filled_pool :: kv_block_pool where
  "filled_pool = snd (try_write_layer_keys fresh_pool 0 0 [5] 1)"

lemma fresh_pool: "receiver_inv fresh_pool" "cap fresh_pool = 2" "kp_elem fresh_pool = 1"
  "layer_elem fresh_pool l = 16" "blk fresh_pool 0 = fresh_block 16 0"
  by (simp_all add: fresh_pool_def receiver_inv_def layers_sized_new kp_new_simps layer_elem_def kp_block_elem_def
      BLOCK_SIZE_def)

lemma filled_pool: "try_write_layer_keys fresh_pool 0 0 [5] 1 = (Ok (), filled_pool)" "layers_sized filled_pool"
  "cap filled_pool = 2" "layer_elem filled_pool = layer_elem fresh_pool"
  and filled_block: "kp_num_layers filled_pool 0 = 1" "block_is_received filled_pool 0"
    "kb_num_tokens (blk filled_pool 0) = 1" "read_layer_keys filled_pool 0 0 = Some (5 # replicate 15 0)"
    "read_layer_values filled_pool 0 0 = Some (replicate 16 0)"
proof -
  have "layers_sized fresh_pool" using fresh_pool(1) by (simp add: receiver_inv_def)
  then obtain q where q: "try_write_layer_keys fresh_pool 0 0 [5] 1 = (Ok (), q)" "layers_sized q" "cap q = cap fresh_pool"
    using write_layer_keys_total [of fresh_pool 0 "[5]" 0 1] fresh_pool by auto
  then have f: "filled_pool = q" by (simp add: filled_pool_def)
  show "try_write_layer_keys fresh_pool 0 0 [5] 1 = (Ok (), filled_pool)" "layers_sized filled_pool" "cap filled_pool = 2"
    using q f fresh_pool(2) by simp_all
  show "layer_elem filled_pool = layer_elem fresh_pool"
  proof -
    have g: "kp_layer_geoms filled_pool = kp_layer_geoms fresh_pool" "kp_block_elem filled_pool = kp_block_elem fresh_pool"
      using write_layer_keys_geometry [OF q(1)] f by (simp_all add: kp_block_elem_def kp_elem_def)
    show ?thesis unfolding layer_elem_def g by simp
  qed
  have b: "blk filled_pool 0 = (fresh_block 16 0)\<lparr>kb_key_data := splice_at 0 [5] (replicate 16 0),
      kb_num_tokens := 1, kb_received := True\<rparr>"
    by (simp add: filled_pool_def try_write_layer_keys_def fresh_pool blk_upd_block fresh_block_def BLOCK_SIZE_def
        del: replicate.simps)
  have c: "cap filled_pool = 2" using q f fresh_pool(2) by simp
  show "kp_num_layers filled_pool 0 = 1" "block_is_received filled_pool 0" "kb_num_tokens (blk filled_pool 0) = 1"
    "read_layer_values filled_pool 0 0 = Some (replicate 16 0)"
    using b c by (simp_all add: kp_num_layers_def block_is_received_def read_layer_values_def fresh_block_def
        del: replicate.simps)
  have "splice_at 0 [5] (replicate 16 (0 :: f32)) = 5 # replicate 15 0"
    by (simp add: splice_at_def del: replicate.simps)
  then show "read_layer_keys filled_pool 0 0 = Some (5 # replicate 15 0)"
    using b c by (simp add: read_layer_keys_def fresh_block_def del: replicate.simps)
qed

lemma filled_fits: "can_hold fresh_pool [0] filled_pool"
  using fresh_pool filled_pool filled_block by (simp add: can_hold_def MAX_PUSH_ELEMENTS_def u32_max_def)

lemma filled_chunks:
  "length (chunks MAX_MESSAGES_PER_CONNECTION (concat (map (block_items filled_pool) [0]))) = 1"
proof -
  have "length (concat (map (block_items filled_pool) [0])) = 1"
    using filled_block by (simp add: block_items_def layer_item_def del: replicate.simps)
  then obtain it where "concat (map (block_items filled_pool) [0]) = [it]" by (auto simp: length_Suc_conv)
  then show ?thesis by (simp add: chunks.simps MAX_MESSAGES_PER_CONNECTION_def)
qed

theorem handoff_delivers_witness:
  "\<exists>ls' r'. transfer_kv_cache_real default_policy pool_kv_store [0] filled_pool
      ([Refused, Cut 40, Up], \<lparr>rv_store = fresh_pool, rv_prompts = []\<rparr>) = (Ok (), (ls', r'))
    \<and> read_layer_keys (rv_store r') 0 0 = Some (5 # replicate 15 0)"
proof -
  let ?n = "([Refused, Cut 40, Up], \<lparr>rv_store = fresh_pool, rv_prompts = []\<rparr>)"
  have "fst (transfer_kv_cache_real default_policy pool_kv_store [0] filled_pool
      (concat (map (\<lambda>bad. bad @ [Up]) [[Refused, Cut 40]]), \<lparr>rv_store = fresh_pool, rv_prompts = []\<rparr>)) = Ok ()"
    by (rule transfer_gets_through) (use fresh_pool filled_fits filled_block(2) filled_chunks in
        \<open>simp_all add: default_policy_def\<close>)
  then obtain ls' r' where run: "transfer_kv_cache_real default_policy pool_kv_store [0] filled_pool ?n = (Ok (), (ls', r'))"
    by (auto simp: prod_eq_iff)
  have kv: "read_layer_keys filled_pool 0 0 = Some (5 # replicate 15 0) \<and> read_layer_values filled_pool 0 0 = Some (replicate 16 0)
      \<and> 5 # replicate 15 0 \<noteq> [] \<and> replicate 16 (0 :: f32) \<noteq> []"
    using filled_block by simp
  have l: "0 < kp_num_layers filled_pool 0" and b: "0 \<in> set [0 :: nat]" using filled_block(1) by simp_all
  have pre: "receiver_inv (rv_store (snd ?n))" "0 < kp_elem (rv_store (snd ?n))" "can_hold (rv_store (snd ?n)) [0] filled_pool"
    using fresh_pool filled_fits by simp_all
  note d = conjunct1 [OF handoff_delivers [OF run pre [simplified snd_conv]], rule_format]
  have same: "layer_elem (rv_store (snd ?n)) 0 = layer_elem filled_pool 0" using filled_pool(4) by simp
  obtain kb vb where "read_layer_keys (rv_store r') 0 0 = Some kb"
    "layer_elem fresh_pool 0 = layer_elem filled_pool 0 \<longrightarrow> kb = 5 # replicate 15 0 \<and> vb = replicate 16 0"
    using d [OF b l kv] by auto
  then have "read_layer_keys (rv_store r') 0 0 = Some (5 # replicate 15 0)" using same by simp
  then show ?thesis using run by blast
qed

theorem handoff_succeeds_witness:
  "fst (transfer_kv_cache_real default_policy pool_kv_store [0] filled_pool
      ([Refused, Cut 40, Up], \<lparr>rv_store = fresh_pool, rv_prompts = []\<rparr>)) = Ok ()"
proof -
  have "fst (transfer_kv_cache_real default_policy pool_kv_store [0] filled_pool
      (concat (map (\<lambda>bad. bad @ [Up]) [[Refused, Cut 40]]), \<lparr>rv_store = fresh_pool, rv_prompts = []\<rparr>)) = Ok ()"
    by (rule handoff_succeeds) (use fresh_pool filled_fits filled_block(2) filled_chunks in
        \<open>simp_all add: default_policy_def\<close>)
  then show ?thesis by simp
qed

section \<open>Retries\<close>

text \<open>The schedule of waits: doubling from the initial backoff, capped after the first.\<close>

lemma unat_sat_mul2: "unat (min (sat_mul b 2) c :: u64) = min (2 * unat b) (unat c)"
proof -
  have "unat c < 2 ^ 64" "unat (- 1 :: u64) = 2 ^ 64 - 1"
    using unsigned_less [of c] by (simp_all add: unsigned_minus_1_eq_mask mask_eq_exp_minus_1)
  then show ?thesis
    by (auto simp: sat_mul_def min_def word_le_nat_alt unat_word_ariths)
qed

lemma min_scaled:
  fixes m x c :: nat
  assumes "1 \<le> m"
  shows "min (m * min x c) c = min (m * x) c"
proof (cases "x \<le> c")
  case False
  have "c \<le> m * c" using mult_le_mono1 [OF assms, of c] by simp
  moreover have "c \<le> m * x" using \<open>c \<le> m * c\<close> False mult_le_mono2 [of c x m] by linarith
  ultimately show ?thesis using False by (simp only: min_absorb2 [of c "m * x"] min_absorb2 [of c "m * c"] min_absorb2 [of c x] not_le less_imp_le)
qed simp

lemma retry_loop_schedule:
  "retry_loop k b c f s = (r, s', ws) \<Longrightarrow> i < length ws
    \<Longrightarrow> unat (ws ! i) = (if i = 0 then unat b else min (2 ^ i * unat b) (unat c))"
proof (induction k arbitrary: b s r s' ws i)
  case 0
  then show ?case by (auto split: prod.splits)
next
  case (Suc k)
  obtain r1 s1 where f: "f s = (r1, s1)" by (metis prod.collapse)
  show ?case
  proof (cases "\<exists>e. r1 = Err e \<and> is_transient_transfer_error e")
    case True
    let ?b = "min (sat_mul b 2) c"
    obtain e r2 s2 ws2 where e: "r1 = Err e" "is_transient_transfer_error e" "retry_loop k ?b c f s1 = (r2, s2, ws2)"
      using True by (metis prod_cases3)
    then have ws: "ws = b # ws2" using f Suc.prems(1) by simp
    show ?thesis
    proof (cases i)
      case (Suc j)
      have "unat (ws2 ! j) = (if j = 0 then unat ?b else min (2 ^ j * unat ?b) (unat c))"
        using Suc.IH [OF e(3)] Suc.prems(2) ws Suc by simp
      moreover have "min (2 ^ j * min (2 * unat b) (unat c)) (unat c) = min (2 ^ Suc j * unat b) (unat c)"
        using min_scaled [of "2 ^ j" "2 * unat b" "unat c"] by (simp add: ac_simps)
      ultimately show ?thesis using ws Suc by (cases j) (auto simp: unat_sat_mul2)
    qed (simp add: ws)
  next
    case False
    then show ?thesis using Suc.prems f by (cases r1) auto
  qed
qed

text \<open>A closure that counts how often it is called.\<close>

definition counting :: "('s \<Rightarrow> (transfer_error, 'a) outcome \<times> 's) \<Rightarrow> 's \<times> nat
    \<Rightarrow> (transfer_error, 'a) outcome \<times> 's \<times> nat" where
  "counting f = (\<lambda>(s, n). case f s of (r, s') \<Rightarrow> (r, s', Suc n))"

lemma retry_loop_counts:
  "retry_loop k b c (counting f) (s, m) = (r, (s', n), ws) \<Longrightarrow> n = m + length ws + 1"
proof (induction k arbitrary: b s m r s' n ws)
  case 0
  then show ?case by (auto simp: counting_def split: prod.splits)
next
  case (Suc k)
  obtain r1 s1 where f: "f s = (r1, s1)" by (metis prod.collapse)
  show ?case
  proof (cases "\<exists>e. r1 = Err e \<and> is_transient_transfer_error e")
    case True
    obtain e r2 s2 n2 ws2 where e: "r1 = Err e" "is_transient_transfer_error e"
      "retry_loop k (min (sat_mul b 2) c) c (counting f) (s1, Suc m) = (r2, (s2, n2), ws2)"
      using True by (metis prod_cases3 prod.collapse)
    then show ?thesis using Suc.IH [OF e(3)] Suc.prems f by (auto simp: counting_def)
  next
    case False
    then show ?thesis using Suc.prems f by (cases r1) (auto simp: counting_def)
  qed
qed

lemma retry_loop_gives_up:
  "retry_loop k b c f s = (Err e, s', ws) \<Longrightarrow> length ws = k \<or> \<not> is_transient_transfer_error e"
proof (induction k arbitrary: b s s' ws)
  case 0
  then show ?case by (auto split: prod.splits)
next
  case (Suc k)
  obtain r1 s1 where f: "f s = (r1, s1)" by (metis prod.collapse)
  show ?case
  proof (cases "\<exists>e. r1 = Err e \<and> is_transient_transfer_error e")
    case True
    then obtain e1 r2 s2 ws2 where e: "r1 = Err e1" "is_transient_transfer_error e1"
      "retry_loop k (min (sat_mul b 2) c) c f s1 = (r2, s2, ws2)" by (metis prod_cases3)
    then show ?thesis using Suc.IH [of "min (sat_mul b 2) c" s1 s2 ws2] Suc.prems f by auto
  next
    case False
    then show ?thesis using Suc.prems f by (cases r1) auto
  qed
qed

text \<open>
  C39. Retrying is bounded: an operation is called once more than the loop waits and at most as often as
  the policy allows (a policy of no attempts allows one); the first wait is the initial backoff, whatever
  the ceiling, and wait \<open>i > 0\<close> is the initial backoff doubled \<open>i\<close> times and capped at the ceiling; an
  error is given back before the attempts are used up only when it is not one of the kinds the source
  classifies as transient (which a write that times out is not).
\<close>

theorem retries_bounded:
  assumes "retry_with_policy pol (counting f) (s, 0) = (r, (s', calls), waits)"
  shows "calls = length waits + 1 \<and> calls \<le> max (unat (rp_max_attempts pol)) 1
    \<and> (\<forall>i < length waits. unat (waits ! i)
        = (if i = 0 then unat (rp_initial_backoff pol)
           else min (2 ^ i * unat (rp_initial_backoff pol)) (unat (rp_max_backoff pol))))
    \<and> (\<forall>e. r = Err e \<and> is_transient_transfer_error e \<longrightarrow> calls = max (unat (rp_max_attempts pol)) 1)"
proof -
  note run = assms [unfolded retry_with_policy_def]
  have n: "calls = length waits + 1" using retry_loop_counts [OF run] by simp
  have "length waits \<le> max (unat (rp_max_attempts pol)) 1 - 1" using retry_loop_waits [OF run] by blast
  moreover have "calls = max (unat (rp_max_attempts pol)) 1" if "r = Err e" "is_transient_transfer_error e" for e
    using retry_loop_gives_up [OF run [unfolded that(1)]] that(2) n by auto
  ultimately show ?thesis using n retry_loop_schedule [OF run] by auto
qed

theorem retries_bounded_witness:
  "\<exists>s' waits. retry_with_policy \<lparr>rp_max_attempts = 4, rp_initial_backoff = 50, rp_max_backoff = 80\<rparr>
      (counting (\<lambda>s. (Err (ConnectFailed ''Connection refused'') :: (transfer_error, unit) outcome, s))) ((), 0)
      = (Err (ConnectFailed ''Connection refused''), (s', 4), waits)
    \<and> map unat waits = [50, 80, 80]"
proof -
  let ?p = "\<lparr>rp_max_attempts = 4, rp_initial_backoff = 50, rp_max_backoff = 80\<rparr>"
  let ?e = "ConnectFailed ''Connection refused''"
  let ?f = "\<lambda>s :: unit. (Err ?e :: (transfer_error, unit) outcome, s)"
  have sat: "min (sat_mul (50 :: u64) 2) 80 = 80" "min (sat_mul (80 :: u64) 2) 80 = 80"
    by (simp_all add: sat_mul_def min_def)
  have run: "retry_with_policy ?p (counting ?f) ((), 0) = (Err ?e, ((), 4), [50, 80, 80])"
  proof -
    have k: "max (unat (rp_max_attempts ?p)) 1 - 1 = Suc (Suc (Suc 0))" by simp
    have step: "counting ?f (s, n) = (Err ?e, s, Suc n)" for s n by (simp add: counting_def)
    show ?thesis unfolding retry_with_policy_def k by (simp add: step transient_errors sat)
  qed
  have l: "length [50, 80, 80 :: u64] = 3" by simp
  from retries_bounded [OF run] have "unat ([50, 80, 80 :: u64] ! i) = (if i = 0 then 50 else min (2 ^ i * 50) 80)"
    if "i < 3" for i using that unfolding l by simp
  from this [of 0] this [of 1] this [of 2] show ?thesis using run by auto
qed

text \<open>
  A write that times out is not retried: the system's text for it is none of those looked for, and the
  client's own wrapper of a single send does not say \<open>write error\<close>.
\<close>

lemma write_timeout_is_final:
  "\<not> is_transient_transfer_error (WriteError ''TCP send block error: '' ''Resource temporarily unavailable (os error 11)'')"
  "is_transient_transfer_error (WriteError ''TCP batch block write error: '' ''Resource temporarily unavailable (os error 11)'')"
  by code_simp+

section \<open>Failover\<close>

text \<open>What a node sees, oldest last: heartbeats of a role, and checks with their timeout.\<close>

datatype peer_event = Beat pool_role nat | Check nat nat

fun orchestrate :: "pool_role \<Rightarrow> peer_event list \<Rightarrow> orchestrator" where
  "orchestrate role [] = or_new role"
| "orchestrate role (Beat r t # evs) = record_heartbeat r t (orchestrate role evs)"
| "orchestrate role (Check now timeout # evs) = snd (evaluate_failover now timeout (orchestrate role evs))"

text \<open>The time of the last heartbeat of a role, and of the first check.\<close>

fun last_beat :: "pool_role \<Rightarrow> peer_event list \<Rightarrow> nat" where
  "last_beat role [] = 0"
| "last_beat role (Beat r t # evs) = (if r = role \<or> r = Colocated then t else last_beat role evs)"
| "last_beat role (Check _ _ # evs) = last_beat role evs"

fun first_check :: "peer_event list \<Rightarrow> nat option" where
  "first_check [] = None"
| "first_check (Beat _ _ # evs) = first_check evs"
| "first_check (Check now _ # evs) = (case first_check evs of None \<Rightarrow> Some now | Some t \<Rightarrow> Some t)"

fun peer_of :: "pool_role \<Rightarrow> pool_role" where
  "peer_of PrefillRole = DecodeRole"
| "peer_of DecodeRole = PrefillRole"
| "peer_of Colocated = Colocated"

definition peer_alive :: "pool_role \<Rightarrow> nat \<Rightarrow> nat \<Rightarrow> peer_event list \<Rightarrow> bool" where
  "peer_alive role now timeout evs \<longleftrightarrow>
     (let beat = last_beat (peer_of role) evs; first = (case first_check evs of Some t \<Rightarrow> t | None \<Rightarrow> now)
      in now \<le> timeout + (if 0 < beat then beat else first))"

lemma orchestrate_state:
  "or_role (orchestrate role evs) = role"
  "or_last_prefill (orchestrate role evs) = last_beat PrefillRole evs"
  "or_last_decode (orchestrate role evs) = last_beat DecodeRole evs"
  "or_first_eval (orchestrate role evs) = first_check evs"
  by (induction role evs rule: orchestrate.induct)
    (auto simp: or_new_def record_heartbeat_def evaluate_failover_def Let_def split: pool_role.splits option.splits)

text \<open>
  C40. Failover follows the peer: after any history of heartbeats and checks, a check gives a node the
  role it was configured with exactly when it is colocated or its peer's last heartbeat (or, of a peer
  that never sent one, the first check) is no older than the timeout, and the colocated role otherwise;
  times are milliseconds since the epoch and a heartbeat stamped 0 counts, as in the code, as none. The
  node then serves the peer's work exactly in the second case, and always its own.
\<close>

theorem failover_tracks_peer:
  "case evaluate_failover now timeout (orchestrate role evs) of (r, o') \<Rightarrow>
     r = (if role = Colocated \<or> peer_alive role now timeout evs then role else Colocated)
     \<and> handles_prefill o' = (if role = DecodeRole then \<not> peer_alive role now timeout evs else True)
     \<and> handles_decode o' = (if role = PrefillRole then \<not> peer_alive role now timeout evs else True)"
proof -
  define first where "first = (case first_check evs of Some t \<Rightarrow> t | None \<Rightarrow> now)"
  have base: "(now - t \<le> timeout) = (now \<le> timeout + t)" for t by auto
  have "fst (evaluate_failover now timeout (orchestrate role evs))
        = (if role = Colocated \<or> peer_alive role now timeout evs then role else Colocated)
      \<and> or_effective (snd (evaluate_failover now timeout (orchestrate role evs)))
        = fst (evaluate_failover now timeout (orchestrate role evs))"
    unfolding evaluate_failover_def Let_def orchestrate_state peer_alive_def first_def [symmetric] base
    by (cases role) auto
  then show ?thesis
    by (cases "evaluate_failover now timeout (orchestrate role evs)"; cases role)
      (auto simp: handles_prefill_def handles_decode_def peer_alive_def)
qed

end
