(* ===== verification/Spec2Isabelle.thy ===== *)
theory Spec2Isabelle
  imports PoolRuns RadixChains PagedCacheRows KvWireLaws SchedulerSpec ConstraintSpec CacheSpec FormatSpec GrimSpec TokenizerSpec RequestSpec HandoffSpec
begin

text \<open>
  Grim is a local inference server. This library models the part of it that decides where the keys
  and values of a running sequence live: the paged KV memory of \<open>crates/grim-memory\<close>, the spill and
  transport layer of \<open>crates/grim-kvtransport\<close>; and the continuous-batching scheduler of
  \<open>crates/grim-scheduler\<close> that decides which sequences run; the
  constrained decoding of \<open>crates/grim-constrain\<close> that decides which tokens may be sampled; and the
  model-file formats of \<open>crates/grim-format\<close> that the weights are read from.

  Parts and how they interact. A session owns a paged cache (\<open>PagedKvCache\<close>): a table of block ids,
  token counters, and per-layer page buffers. Blocks come from a pool shared by all sessions
  (\<open>KvBlockPool\<close>): a free list, reference counts, a radix tree of cached prompt prefixes, and a tier
  per block. When the pool runs dry it evicts the coldest cached chain; what it evicts, and what a
  session frees last, goes through the spill manager (\<open>LocalSpillManager\<close>) to host memory and disk,
  and is promoted back on a match. Blocks also arrive from other machines over a framed wire
  protocol, which stores them through the trait \<open>KvBlockStore\<close> the pool implements.

  Theories and the code they model:
  \<^item> \<open>GrimPrelude\<close>: outcomes (a result, an error, a panic, a loop that does not end), list and map
    lemmas, saturating division, the collections of rewrite rules.
  \<^item> \<open>RadixTree\<close> (\<open>grim-memory/src/radix.rs\<close>): the arena of nodes, one definition per method;
    \<open>rt_wf\<close> and \<open>rt_tight\<close> are its invariants, \<open>path_blocks\<close> what a descent reads.
  \<^item> \<open>LeBytes\<close>: little-endian encodings and their inverses.
  \<^item> \<open>SpillManager\<close> (\<open>LocalSpillManager\<close>): three forms of a block on two tiers. The locale
    \<open>tier_store\<close> states their contract and is interpreted on each form.
  \<^item> \<open>SemanticAnchor\<close> (\<open>semantic_anchor.rs\<close>): anchor tokens and the bounded checkpoint pool.
  \<^item> \<open>KvMirror\<close> (\<open>kv_mirror.rs\<close>): the host mirror of device pages.
  \<^item> \<open>BlockPool\<close>, \<open>BlockData\<close> (\<open>lib.rs\<close>, \<open>impl KvBlockPool\<close>): the pool's operations and the contents
    of its blocks. \<open>PoolInvariant\<close> has \<open>pool_inv\<close> and what allocation, freeing, eviction,
    reclamation and promotion do; \<open>PoolCache\<close> prefix insertion and matching, resizing, resets, and the
    locale \<open>block_store\<close>, the allocator as its clients see it; \<open>PoolRuns\<close> the pool as a step relation
    over its public operations, with what a caller has to keep to; \<open>RadixChains\<close> the branch an
    eviction of the tree detaches.
  \<^item> \<open>PagedCache\<close> (\<open>BlockTable\<close>, \<open>PagedKvCache\<close>): tables, counters, pages. \<open>PagedCacheLaws\<close> shows that
    the table covers the tokens and owns a reference per entry; \<open>PagedCacheRows\<close> that tokens read
    back in order.
  \<^item> \<open>KvWire\<close> (the wire part of \<open>grim-kvtransport/src/lib.rs\<close>): header, checksum, client messages,
    the receiver's loop, prompts, the shared-memory inbox. \<open>KvWireLaws\<close> has the locale
    \<open>block_receiver\<close>, interpreted on the pool, and what a message does end to end.
  \<^item> \<open>Readiness\<close> (\<open>grim-scheduler/src/readiness_dispatch.rs\<close>): tasks, ready queues, arbitration.
  \<^item> \<open>Scheduler\<close> (\<open>grim-scheduler/src/lib.rs\<close>): requests, the four queues, the phases of one tick in
    the code's order, adapter segments and row plans. \<open>SchedulerLaws\<close> has the prefill loop's
    invariants, \<open>SchedulerTicks\<close> a whole tick and the step relation of a scheduler's life,
    \<open>SchedulerBatches\<close> the batches, \<open>SchedulerProgress\<close> progress and its absence, \<open>DecodeFirst\<close> the
    locale \<open>decode_arbiter\<close> between scheduler and dispatcher, \<open>SchedulerSpec\<close> the properties.
  \<^item> \<open>JsonFsm\<close> (\<open>grim-constrain/src/json_fsm.rs\<close>): the pushdown automaton that masks tokens.
    \<open>JsonFsmLaws\<close> has the grammar of JSON and shows every document accepted, \<open>JsonFsmReach\<close> the
    reachable states, the word that finishes a document from each, masks and their cache.
  \<^item> \<open>BoundedRegex\<close> (\<open>grim-constrain/src/schema.rs\<close>): pattern parser and matcher; \<open>RegexLaws\<close> the
    language of a pattern and the matcher's agreement with it within its step budget.
  \<^item> \<open>JsonSchema\<close> (the rest of \<open>schema.rs\<close>): keyword check, references, validation, masks.
    \<open>ConstrainedSampler\<close> (\<open>sampler.rs\<close>): the sampler and its invariant, that the automaton has read
    the output; \<open>JsonSchemaLaws\<close>, \<open>ConstraintSpec\<close> the properties.
  \<^item> \<open>LruCaches\<close> (\<open>grim-memory/src/encoder_cache.rs\<close>, \<open>hidden_state_store.rs\<close>): the caches of float
    arrays under an element budget, with the locale \<open>budget_cache\<close> for the eviction loop they share.
    \<open>MoeBudget\<close> (\<open>moe_budget.rs\<close>, \<open>layer_groups.rs\<close>): precision tiers under the memory envelope, the
    slots of the expert cache, layer groups. \<open>CacheSpec\<close> has their properties.
  \<^item> \<open>ByteReader\<close>: reading a file front to back, UTF-8, and the locale \<open>codec\<close> that a writer and its
    reader satisfy; every format below is an interpretation of it.
  \<^item> \<open>GgufTypes\<close>, \<open>TensorStorage\<close> (\<open>grim-format/src/gguf.rs\<close>, \<open>grim-tensor/src/dtype.rs\<close>): metadata
    values, tensor types and their geometry, storages and their sizes, the detector of wrong types.
    \<open>GgufFile\<close> (\<open>gguf.rs\<close>, \<open>convert.rs\<close>): reading, and the conversion into the .grim layout.
    \<open>GgufLaws\<close>, \<open>GgufConvert\<close>, \<open>GgufSpans\<close> have the round trips, what conversion keeps and what the
    detector shows, \<open>FormatSpec\<close> the properties.
  \<^item> \<open>GrimFile\<close> (\<open>format.rs\<close>): the native file, its registry, the placement of payloads, replacing the
    metadata; \<open>GrimFileLaws\<close>, \<open>GrimRewrite\<close>. \<open>NormalsStream\<close>, \<open>BitPacking\<close>, \<open>OutlierCodec\<close>
    (\<open>format.rs\<close>, \<open>spec.rs\<close>): the payload streams. \<open>Attachments\<close>: sidecars at the end of a file.
    \<open>GrimSpec\<close> has their properties.
  \<^item> \<open>Utf8Chars\<close>: strings as bytes in UTF-8, their characters and boundaries, searching, replacing.
    \<open>Tokenizer\<close> (\<open>grim-format/src/tokenizer.rs\<close>): the tokenizer of a model file, its three encoders
    and the decoder. \<open>TokenizerLaws\<close> has the locale \<open>spelling\<close>, ids that spell a text piece by piece,
    which both exact encoders interpret; \<open>TokenizerSpec\<close> has the properties.
  \<^item> \<open>MemoryBudget\<close> (\<open>grim-core/src/hyperparams.rs\<close>, \<open>memory_certificate.rs\<close>): what a model needs in
    64-bit words, the context that fits, the certificate. \<open>RequestLife\<close> (\<open>grim-engine/src/engine/requests.rs\<close>,
    \<open>scheduler.rs\<close>): admission, the prefill pass, finish; here scheduler, pool, prefix tree and paged
    cache meet. \<open>ClaimLaws\<close> counts the references an insertion adds to the tree, \<open>RequestLaws\<close> and
    \<open>RequestClaims\<close> follow blocks and claims through the life of a request, \<open>CacheCalls\<close> the calls a
    forward pass makes of the paged cache, \<open>EngineRuns\<close> the engine as a step relation whose forward
    passes are runs of those calls, \<open>RequestSpec\<close> has the properties.
  \<^item> \<open>Handoff\<close> (\<open>grim-disagg/src/lib.rs\<close>): retries, failover of roles and the transfer of blocks between
    nodes over connections that may be refused or cut; the wire is that of \<open>KvWire\<close>, the two stores
    are pools. \<open>HandoffLaws\<close> has the locale \<open>block_mirror\<close>, a receiver that takes messages again without
    harm, which the pool interprets; \<open>HandoffSpec\<close> has the properties.

  Representation. Floats are 32-bit words: nothing here computes with them, they are copied,
  compared for length and serialised. Integers that the wire or a counter keeps at a width are words
  of that width; sizes and indices (\<open>usize\<close>) are naturals with the saturating subtractions written
  out. The reference counts of the pool and of the tree nodes are naturals too, where the source has
  \<open>u32\<close> and adds without a check: the model is the source as long as no block and no node has 2^32
  references, and \<open>pool_step\<close> asks that of the caller of \<open>add_ref\<close>. A panic (index, slice, overflow) is the value \<open>Panic\<close>. The clock, the packed-pool switch and
  the results of file operations are fields of \<open>env\<close>; the theorems hold for every value of them
  unless they say otherwise. Hash maps are maps where the order cannot be seen and association lists
  where it can; the receiver's stream is the list of bytes still to be read.

  Fuel. \<open>walk_up\<close> follows parents; it is given one step per node plus one, and
  \<open>walk_up_enough_fuel\<close> shows that suffices in every well-formed tree, so \<open>Hang\<close> never occurs in a
  reachable pool. All other loops are structural or have a measure.

  Not modelled: the device side of the cache (GPU buffers and their lazy upload), sockets, threads
  and locks (each operation is one step; the receiver serves one connection at a time, as the code
  does), the learned compressor and the quantizers (parameters), tensor arithmetic and everything
  built on it.
\<close>

section \<open>The block pool\<close>

text \<open>
  C1. Whatever calls a pool receives after its construction -- allocations, frees, added references,
  writes, prefix insertions and removals, pins, demotions, promotions, flushes, resizing, resets, in
  any order and with any outcome of the file operations -- its free list holds distinct blocks of
  the pool, no free block carries a reference, every reference and every cached prefix names a block
  of the pool, and every block keeps its key and value buffers at the block size. The code checks no
  id it is given, so the callers have to keep four rules, the guards of \<open>pool_step\<close>: a reference is
  added only to a block of the pool that is not free, and none has 2^32 of them; an inserted prefix
  names blocks of the pool, the new ones not cached yet, one more than the tokens fill at most; a
  forced release is that of a block that is not free and has at most one reference; and the pool is
  resized only while no cached block is free. The call that shares and allocates in one is not among
  the steps. Without the first rule it is false: a reference added to block 0 of a new pool is one on
  a free block (\<open>add_ref_unchecked\<close>).
\<close>

theorem reachable_pool:
  assumes "pool_step\<^sup>*\<^sup>* (kp_new_on_device now rocm_aiter n heads dim device) p"
  shows "distinct (kp_free_list p) \<and> set (kp_free_list p) \<subseteq> {..<cap p}
    \<and> (\<forall>i. i \<in> set (kp_free_list p) \<longrightarrow> kp_block_ref_count p i = 0)
    \<and> (\<forall>i. 0 < kp_block_ref_count p i \<longrightarrow> i < cap p)
    \<and> dom (rt_block_to_node (kp_tree p)) \<subseteq> {..<cap p}
    \<and> (\<forall>i < cap p. length (kb_key_data (blk p i)) = kp_block_elem p
         \<and> length (kb_value_data (blk p i)) = kp_block_elem p)"
proof -
  have inv: "pool_inv p" by (rule pool_run_inv [OF assms pool_inv_new])
  have "kp_block_ref_count p i = 0" if "i \<in> set (kp_free_list p)" for i
    using inv that by (simp add: pool_inv_def alloc_ok_def kp_block_ref_count_def)
  moreover have "i < cap p" if "0 < kp_block_ref_count p i" for i using ref_count_pos [OF inv that] by simp
  ultimately show ?thesis
    using inv bufs_okD [of p] unfolding pool_inv_def alloc_ok_def tree_ok_def by simp
qed

text \<open>A pool of four blocks: one is allocated, shared and freed twice, then the pool is resized.\<close>

theorem reachable_pool_witness:
  "let p1 = snd (kp_alloc calm (kp_new_on_device 0 False 4 2 3 0)); p2 = kp_add_ref p1 0;
       p3 = kp_resize_capacity (snd (kp_free calm (snd (kp_free calm p2 0)) 0)) 9
   in kp_block_ref_count p2 0 = 2 \<and> distinct (kp_free_list p3)"
proof -
  let ?p0 = "kp_new_on_device 0 False 4 2 3 0"
  let ?p1 = "snd (kp_alloc calm ?p0)"
  let ?p2 = "kp_add_ref ?p1 0"
  let ?p4 = "snd (kp_free calm (snd (kp_free calm ?p2 0)) 0)"
  have f: "kp_free_list ?p0 = [0, 1, 2, 3]" by (simp add: kp_new_simps upt_rec)
  have p1: "?p1 = ?p0\<lparr>kp_free_list := [1, 2, 3], kp_ref_counts := (kp_ref_counts ?p0)(0 \<mapsto> 1)\<rparr>"
    using kp_alloc_pop [of ?p0 calm] f by simp
  have two: "kp_block_ref_count ?p2 0 = 2" by (simp add: p1 kp_add_ref_def kp_block_ref_count_def)
  have inv: "pool_inv ?p2" "cache_kept ?p2"
  proof -
    have "pool_inv ?p1" using kp_alloc_spec [OF pool_inv_new, of calm] by simp
    then show "pool_inv ?p2" using pool_inv_add_ref [of ?p1 0] by (simp add: p1 kp_new_simps kp_add_ref_def)
    show "cache_kept ?p2" by (simp add: p1 cache_kept_def kp_add_ref_def kp_new_simps) (simp add: rt_new_def)
  qed
  have inv3: "pool_inv (snd (kp_free calm ?p2 0))" using kp_free_spec [OF inv(1), of calm 0] by auto
  have kept: "cache_kept ?p4" by (rule kp_free_cache_kept [OF inv3 kp_free_cache_kept [OF inv]])
  have g: "0 < cap ?p1" "0 \<notin> set (kp_free_list ?p1)" "kp_block_ref_count ?p1 0 + 1 < 2 ^ 32"
    by (simp_all add: p1 kp_new_simps kp_block_ref_count_def)
  have "pool_step\<^sup>*\<^sup>* ?p0 ?p1" by (rule r_into_rtranclp, rule pool_step.step_alloc)
  from rtranclp.rtrancl_into_rtrancl [OF this pool_step.step_add_ref [OF g]] have "pool_step\<^sup>*\<^sup>* ?p0 ?p2" .
  from rtranclp.rtrancl_into_rtrancl [OF rtranclp.rtrancl_into_rtrancl [OF this pool_step.step_free] pool_step.step_free]
  have "pool_step\<^sup>*\<^sup>* ?p0 ?p4" .
  from reachable_pool [OF rtranclp.rtrancl_into_rtrancl [OF this pool_step.step_resize [OF kept]]]
  show ?thesis using two by (simp add: Let_def)
qed

text \<open>
  C2. Allocation returns: in a state that calls under the four rules of C1 lead to, it never panics
  and never loops. It yields a block of the pool that carries exactly one reference and is off the
  free list, or the exhaustion error, and the latter only when the free list was empty.
\<close>

theorem alloc_returns:
  assumes "pool_step\<^sup>*\<^sup>* (kp_new_on_device now rocm_aiter n heads dim device) p"
  shows "case kp_alloc e p of
      (Ok i, p') \<Rightarrow> i < cap p \<and> kp_block_ref_count p' i = 1 \<and> i \<notin> set (kp_free_list p')
    | (Err err, p') \<Rightarrow> err = PoolExhausted \<and> kp_free_list p = []
    | (Panic, p') \<Rightarrow> False
    | (Hang, p') \<Rightarrow> False"
proof -
  have "pool_inv p" by (rule pool_run_inv [OF assms pool_inv_new])
  then show ?thesis
    using kp_alloc_spec [of p e]
    by (auto simp: kp_block_ref_count_def split: prod.splits outcome.splits)
qed

text \<open>A resized pool hands out its first block.\<close>

theorem alloc_returns_witness:
  "case kp_alloc calm (kp_resize_capacity (kp_new_on_device 0 False 4 2 3 0) 9) of
      (Ok i, p') \<Rightarrow> i < 9 \<and> kp_block_ref_count p' i = 1 \<and> i \<notin> set (kp_free_list p')
    | (Err err, p') \<Rightarrow> False
    | (Panic, p') \<Rightarrow> False
    | (Hang, p') \<Rightarrow> False"
proof -
  let ?p = "kp_resize_capacity (kp_new_on_device 0 False 4 2 3 0) 9"
  have run: "pool_step\<^sup>*\<^sup>* (kp_new_on_device 0 False 4 2 3 0) ?p"
    by (rule r_into_rtranclp, rule pool_step.step_resize [OF cache_kept_new])
  have "cap ?p = 9" "kp_free_list ?p \<noteq> []"
    by (simp_all add: kp_resize_capacity_def Let_def kp_new_simps)
  with alloc_returns [OF run, of calm] show ?thesis by (auto split: prod.splits outcome.splits)
qed

text \<open>
  C3. A block that a sequence references is not handed out again: an allocated block had no
  reference, and no other reference moves. The hypothesis is what the eviction path needs and does
  not check: when the free list is empty, the ancestors the eviction detaches are unreferenced.
\<close>

theorem alloc_fresh:
  assumes "pool_inv p" and "kp_alloc e p = (Ok i, p')"
    and "\<And>c t'. kp_free_list p = [] \<Longrightarrow>
      rt_evict_coldest_chain (env_now e) (kp_tree p) = Some (c, t') \<Longrightarrow>
      \<forall>b \<in> set (tl c). kp_ref_counts p b = None"
  shows "kp_block_ref_count p i = 0
    \<and> (\<forall>j. j \<noteq> i \<longrightarrow> kp_block_ref_count p' j = kp_block_ref_count p j)"
  using kp_alloc_fresh [OF assms] by (simp add: kp_block_ref_count_def)

theorem alloc_fresh_witness:
  "kp_block_ref_count (kp_new_on_device 0 False 4 2 3 0) (0::nat) = 0
    \<and> kp_block_ref_count (snd (kp_alloc calm (kp_new_on_device 0 False 4 2 3 0))) 2
      = kp_block_ref_count (kp_new_on_device 0 False 4 2 3 0) 2"
proof -
  let ?p = "kp_new_on_device 0 False 4 2 3 0"
  have f: "kp_free_list ?p = [0, 1, 2, 3]" by (simp add: kp_new_on_device_def Let_def upt_rec)
  have run: "kp_alloc calm ?p = (Ok 0, snd (kp_alloc calm ?p))"
    using kp_alloc_pop [of ?p calm] f by simp
  have "kp_block_ref_count ?p 0 = 0
    \<and> (\<forall>j. j \<noteq> 0 \<longrightarrow> kp_block_ref_count (snd (kp_alloc calm ?p)) j = kp_block_ref_count ?p j)"
    by (rule alloc_fresh [OF pool_inv_new run]) (simp add: f)
  then show ?thesis by simp
qed

text \<open>
  Without that hypothesis the claim is false: sequence A references page 0; sequence B shared it,
  extended it by page 1 and finished. The next allocation of the two-page pool evicts page 1 and,
  walking up, frees page 0 although A still references it, and returns it.
\<close>

theorem eviction_frees_held_block:
  assumes "length toks = 16" and "length ext = 16"
  shows "kp_block_ref_count (half_shared_pool toks ext) 0 = 1
    \<and> fst (kp_alloc calm (half_shared_pool toks ext)) = Ok 0"
  using evicts_held_block [OF assms] by blast

theorem eviction_frees_held_block_witness:
  "kp_block_ref_count (half_shared_pool (replicate 16 7) (replicate 16 8)) 0 = 1
    \<and> fst (kp_alloc calm (half_shared_pool (replicate 16 7) (replicate 16 8))) = Ok 0"
  by (rule eviction_frees_held_block) simp_all

text \<open>
  C4. Freeing returns: it drops exactly one reference of exactly that block, leaves every other block
  and the prefix tree alone, and puts the block on the free list only when this was its last
  reference and no prefix caches it. A last reference leaves the block free, cached or spilled.
\<close>

theorem free_one_reference:
  assumes "pool_inv p"
  shows "case kp_free e p i of (r, p') \<Rightarrow> r = Ok () \<and> pool_inv p' \<and> kp_tree p' = kp_tree p
    \<and> (\<forall>j. kp_block_ref_count p' j = kp_block_ref_count p j - (if j = i then 1 else 0))
    \<and> (\<forall>j < cap p. j \<noteq> i \<longrightarrow> blk p' j = blk p j)
    \<and> (kp_free_list p' = kp_free_list p
        \<or> (kp_free_list p' = kp_free_list p @ [i] \<and> kp_block_ref_count p i = 1
            \<and> \<not> rt_contains_block (kp_tree p) i))
    \<and> (kp_block_ref_count p i = 1 \<longrightarrow> i \<in> set (kp_free_list p') \<or> rt_contains_block (kp_tree p) i
         \<or> kb_location (blk p' i) \<noteq> Gpu)"
  using kp_free_spec [OF assms, of e i] by auto

theorem free_one_reference_witness:
  "fst (kp_free calm (kp_new_on_device 0 False 4 2 3 0) 2) = Ok ()"
  using free_one_reference [OF pool_inv_new [of 0 False 4 2 3 0], where e = calm and i = 2]
  by (auto split: prod.splits)

text \<open>
  Freeing neither exposes nor loses pages: cached content stays off the free list, and every page
  remains free, referenced, cached or spilled.
\<close>

theorem free_loses_nothing:
  assumes "pool_inv p" and "cache_kept p" and "accounted p"
  shows "cache_kept (snd (kp_free e p i)) \<and> accounted (snd (kp_free e p i))"
  using kp_free_cache_kept [OF assms(1,2)] kp_free_accounted [OF assms(1,3)] by blast

theorem free_loses_nothing_witness:
  "accounted (snd (kp_free calm (kp_new_on_device 0 False 4 2 3 0) 1))"
  using free_loses_nothing [OF pool_inv_new cache_kept_new accounted_new] by blast

text \<open>
  C5. Contents survive the raw spill tier. In a pool of positive width with a spill manager of its own block size, no
  compressor and the packed mode off, freeing the last reference of a block of which the manager has
  no compressed copy demotes it, and promoting it then, its file readable where there is one, brings
  back exactly the keys and values it held, even when the write to disk failed on the way. In packed
  mode it does not hold: see \<open>packed_spill_not_promotable\<close>.
\<close>

theorem free_promote_restores:
  assumes "pool_inv p" and "i < cap p" and "kp_ref_counts p i = Some 1"
    and "kp_spill p = Some s" "raw_inv s" "sm_block_elems s = kp_block_elem p"
    and "kp_compressor p = None" "\<not> env_packed e"
      "sm_compressed_host s i = None" "sm_nvme_compressed s i = None"
    and "0 < kp_elem p" and "io_read e2"
  shows "case kp_free e p i of (r, p1) \<Rightarrow> r = Ok () \<and> kb_location (blk p1 i) = HostRam
    \<and> kp_block_ref_count p1 i = 0
    \<and> (case promote_to_gpu e2 p1 i of (r2, p2) \<Rightarrow> (\<exists>kv. r2 = Ok (Some kv)) \<and> pool_inv p2
        \<and> kb_key_data (blk p2 i) = kb_key_data (blk p i) \<and> kb_value_data (blk p2 i) = kb_value_data (blk p i)
        \<and> kb_location (blk p2 i) = Gpu)"
  using free_promote_roundtrip [OF assms] by (auto simp: kp_block_ref_count_def)

theorem free_promote_restores_witness:
  "kb_key_data (blk (snd (promote_to_gpu calm (snd (kp_free calm
      (snd (kp_alloc calm (kp_attach_spill (kp_new_on_device 0 False 1 1 1 0) (sm_new 16)))) 0)) 0)) 0)
    = replicate 16 0"
proof -
  define p0 where "p0 = kp_attach_spill (kp_new_on_device 0 False 1 1 1 0) (sm_new 16)"
  define q where "q = snd (kp_alloc calm p0)"
  have p0: "kp_free_list p0 = [0]" "cap p0 = 1" "kp_spill p0 = Some (sm_new 16)" "kp_compressor p0 = None"
    "kp_elem p0 = 1" "kb_key_data (blk p0 0) = replicate 16 0"
    by (simp_all add: p0_def kp_attach_spill_def kp_new_on_device_def Let_def upt_rec kp_elem_def
      fresh_block_def BLOCK_SIZE_def)
  have "q = p0\<lparr>kp_free_list := [], kp_ref_counts := (kp_ref_counts p0)(0 \<mapsto> 1)\<rparr>"
    using kp_alloc_pop [of p0 calm] p0(1) by (simp add: q_def)
  then have q: "kp_ref_counts q 0 = Some 1" "cap q = 1" "kp_spill q = Some (sm_new 16)" "kp_compressor q = None"
    "kp_elem q = 1" "kb_key_data (blk q 0) = replicate 16 0"
    using p0 by (simp_all add: kp_elem_def)
  have sm: "sm_block_elems (sm_new 16) = 16" "sm_compressed_host (sm_new 16) 0 = None"
    "sm_nvme_compressed (sm_new 16) 0 = None" by (simp_all add: sm_new_def)
  have inv0: "pool_inv p0" using pool_inv_new by (simp add: p0_def kp_attach_spill_def)
  have inv: "pool_inv q" using kp_alloc_spec [OF inv0, of calm] by (simp add: q_def)
  have "case kp_free calm q 0 of (r, p1) \<Rightarrow> r = Ok () \<and> kb_location (blk p1 0) = HostRam
    \<and> kp_block_ref_count p1 0 = 0
    \<and> (case promote_to_gpu calm p1 0 of (r2, p2) \<Rightarrow> (\<exists>kv. r2 = Ok (Some kv)) \<and> pool_inv p2
        \<and> kb_key_data (blk p2 0) = kb_key_data (blk q 0) \<and> kb_value_data (blk p2 0) = kb_value_data (blk q 0)
        \<and> kb_location (blk p2 0) = Gpu)"
    by (rule free_promote_restores [OF inv, where s = "sm_new 16"])
      (simp_all add: q sm raw_inv_new calm_def kp_block_elem_def BLOCK_SIZE_def)
  then show ?thesis unfolding p0_def [symmetric] q_def [symmetric] by (simp add: q(6) split: prod.splits)
qed

section \<open>Prefix caching\<close>

text \<open>
  C6. Insert, then match: after inserting the prefix of a prompt with the blocks that hold it, the
  prompt matches all of its full blocks -- the blocks an earlier insertion already cached for it,
  then the new ones -- and the pool stays well formed.
\<close>

theorem inserted_prefix_matches:
  assumes "pool_inv p" and "set blocks \<subseteq> {..<cap p}"
    and "length blocks = length tokens div BLOCK_SIZE"
    and "fresh_tail (kp_tree p) tokens blocks 0 0"
  shows "case insert_prefix now p tokens blocks of (r, p') \<Rightarrow> r = Ok () \<and> pool_inv p'
    \<and> kp_match_prefix p' tokens =
      (fst (kp_match_prefix p tokens) @ drop (length (fst (kp_match_prefix p tokens))) blocks,
       length blocks * BLOCK_SIZE)"
  using insert_then_match [OF assms] by (auto split: prod.splits)

theorem inserted_prefix_matches_witness:
  "kp_match_prefix (snd (insert_prefix 0 (kp_new_on_device 0 False 4 2 3 0) (replicate 32 7) [3, 1]))
    (replicate 32 7) = ([3, 1], 32)"
proof -
  define p where "p = kp_new_on_device 0 False 4 2 3 0"
  have p: "kp_tree p = rt_new 0 BLOCK_SIZE" "cap p = 4"
    by (simp_all add: p_def kp_new_simps)
  have ch: "rn_children (nd (rt_new 0 BLOCK_SIZE) 0) = []" "rt_block_to_node (rt_new 0 BLOCK_SIZE) = Map.empty"
    "rt_root (rt_new 0 BLOCK_SIZE) = 0" by (simp_all add: rt_new_def)
  have none: "fst (kp_match_prefix p (replicate 32 7)) = []"
    by (simp add: kp_match_prefix_def p rt_match_prefix_eq ch path_blocks_fresh)
  have fresh: "fresh_tail (kp_tree p) (replicate 32 7) [3, 1] 0 0"
    by (simp add: p ch fresh_tail_def reused_childless del: reused.simps)
  have "case insert_prefix 0 p (replicate 32 7) [3, 1] of (r, p') \<Rightarrow> r = Ok () \<and> pool_inv p'
    \<and> kp_match_prefix p' (replicate 32 7) =
      (fst (kp_match_prefix p (replicate 32 7)) @ drop (length (fst (kp_match_prefix p (replicate 32 7)))) [3, 1],
       length [3::nat, 1] * BLOCK_SIZE)"
    by (rule inserted_prefix_matches [OF _ _ _ fresh])
      (simp_all add: p BLOCK_SIZE_def pool_inv_new [of 0 False 4 2 3 0, folded p_def])
  then show ?thesis unfolding p_def [symmetric] by (simp add: none BLOCK_SIZE_def split: prod.splits)
qed

text \<open>
  C7. Eviction terminates on every well-formed tree. It detaches nothing exactly when no cached leaf is
  evictable (childless, unreferenced, unpinned). Otherwise it detaches the blocks of one branch: the
  least recently used of the evictable leaves and above it every ancestor that has no other child, in
  that order. Exactly these blocks leave the map, none twice, and the tree stays well formed. (The
  ancestors' references and pins are not looked at: see \<open>eviction_frees_held_block\<close>.)
\<close>

theorem evicts_coldest_chain:
  assumes "rt_wf t" and "rt_tight t"
  shows "\<exists>chain t'. rt_evict_coldest_chain now t = Some (chain, t') \<and> rt_wf t' \<and> rt_tight t'
    \<and> (chain = [] \<longleftrightarrow> (\<forall>j < nn t. \<not> evictable now t (j, nd t j)))
    \<and> (chain \<noteq> [] \<longrightarrow> (\<exists>idx < nn t. evictable now t (idx, nd t idx)
         \<and> (\<forall>j < nn t. evictable now t (j, nd t j) \<longrightarrow> rn_last_access (nd t idx) \<le> rn_last_access (nd t j))
         \<and> chain = map (\<lambda>i. rn_block_id (nd t i)) (bare_branch t idx)))
    \<and> distinct chain \<and> set chain \<subseteq> dom (rt_block_to_node t)
    \<and> rt_block_to_node t' = rt_block_to_node t |` (- set chain)"
proof -
  obtain chain t' where run: "rt_evict_coldest_chain now t = Some (chain, t')"
    using evict_coldest_chain_total [OF assms, of now] by auto
  have none: "chain = [] \<longleftrightarrow> coldest_candidate now t = None"
  proof
    assume "chain = []"
    with run show "coldest_candidate now t = None" using evict_coldest_chain_none by blast
  next
    assume "coldest_candidate now t = None"
    with run show "chain = []" by (simp add: rt_evict_coldest_chain_def)
  qed
  have some: "\<exists>idx < nn t. evictable now t (idx, nd t idx)
      \<and> (\<forall>j < nn t. evictable now t (j, nd t j) \<longrightarrow> rn_last_access (nd t idx) \<le> rn_last_access (nd t j))
      \<and> chain = map (\<lambda>i. rn_block_id (nd t i)) (bare_branch t idx)" if "chain \<noteq> []"
  proof -
    have "coldest_candidate now t \<noteq> None" using that none by simp
    then obtain idx n where c: "coldest_candidate now t = Some (idx, n)" by fast
    show ?thesis using coldest_candidate_Some [OF c] evicted_branch [OF assms run c] by blast
  qed
  show ?thesis
    using run evict_coldest_chain_spec [OF assms run] none [unfolded coldest_candidate_None] some by blast
qed

text \<open>Of two cached prefixes the older one goes, both its blocks.\<close>

theorem evicts_coldest_chain_witness:
  "\<exists>t'. rt_evict_coldest_chain 20 two_branches = Some ([6, 5], t') \<and> dom (rt_block_to_node t') = {9}"
proof -
  obtain chain t' where run: "rt_evict_coldest_chain 20 two_branches = Some (chain, t')"
    and none: "chain = [] \<longleftrightarrow> (\<forall>j < nn two_branches. \<not> evictable 20 two_branches (j, nd two_branches j))"
    and some: "chain \<noteq> [] \<longrightarrow> (\<exists>idx < nn two_branches. evictable 20 two_branches (idx, nd two_branches idx)
         \<and> (\<forall>j < nn two_branches. evictable 20 two_branches (j, nd two_branches j)
              \<longrightarrow> rn_last_access (nd two_branches idx) \<le> rn_last_access (nd two_branches j))
         \<and> chain = map (\<lambda>i. rn_block_id (nd two_branches i)) (bare_branch two_branches idx))"
    and left: "rt_block_to_node t' = rt_block_to_node two_branches |` (- set chain)"
    using evicts_coldest_chain [OF two_branches_wf two_branches_tight, of 20] by blast
  have e2: "evictable 20 two_branches (2, nd two_branches 2)" using two_branches_candidates [of 2] by simp
  with none have "chain \<noteq> []" by (auto simp: two_branches_nodes(1))
  from some [rule_format, OF this] obtain idx where idx: "idx < 4" "evictable 20 two_branches (idx, nd two_branches idx)"
    and least: "\<forall>j < 4. evictable 20 two_branches (j, nd two_branches j)
      \<longrightarrow> rn_last_access (nd two_branches idx) \<le> rn_last_access (nd two_branches j)"
    and branch: "chain = map (\<lambda>i. rn_block_id (nd two_branches i)) (bare_branch two_branches idx)"
    unfolding two_branches_nodes(1) by blast
  have "rn_last_access (nd two_branches idx) \<le> 3" using least [rule_format, of 2] e2 by (simp add: two_branches_times)
  then have "idx = 2" using two_branches_candidates [OF idx(1)] idx(2) by (auto simp: two_branches_times)
  then have chain: "chain = [6, 5]" using branch by (simp add: two_branches_bare two_branches_nodes del: One_nat_def)
  have "dom (rt_block_to_node t') = {9}" unfolding left chain two_branches_nodes(3) by (auto simp: restrict_map_def split: if_splits)
  with run chain show ?thesis by blast
qed

text \<open>
  \<open>find_or_share_prefix_tokens\<close> can return one block twice: a one-page pool caches a finished
  prompt; a longer prompt matches the page, and the allocation for its second block evicts that very
  page -- its reference is only added afterwards -- and returns it as new.
\<close>

theorem share_returns_block_twice:
  assumes "length toks = 16"
  shows "fst (find_or_share_prefix_tokens calm (cached_pool toks) (toks @ [y])) = Ok ([0, 0], 16)"
  by (rule share_aliases [OF assms])

theorem share_returns_block_twice_witness:
  "fst (find_or_share_prefix_tokens calm (cached_pool (replicate 16 7)) (replicate 16 7 @ [9])) = Ok ([0, 0], 16)"
  by (rule share_returns_block_twice) simp

text \<open>
  Resetting the prefix cache frees exactly the unreferenced pages, keeps every reference, and
  returns the number of pages it freed.
\<close>

theorem reset_frees_unreferenced:
  assumes "pool_inv p"
  shows "case reset_prefix_cache now p of (freed, p') \<Rightarrow> pool_inv p' \<and> cache_kept p'
    \<and> (\<forall>i. kp_block_ref_count p' i = kp_block_ref_count p i)
    \<and> set (kp_free_list p') = {i. i < cap p \<and> kp_ref_counts p i = None}
    \<and> freed = length (kp_free_list p') - length (kp_free_list p)"
proof -
  obtain freed p' where run: "reset_prefix_cache now p = (freed, p')" by fastforce
  then show ?thesis
    using reset_prefix_cache_spec [OF assms, of now] by (simp add: kp_block_ref_count_def) linarith
qed

theorem reset_frees_unreferenced_witness:
  "set (kp_free_list (snd (reset_prefix_cache 9 (kp_new_on_device 0 False 4 2 3 0)))) = {..<4}"
  using reset_frees_unreferenced [OF pool_inv_new [of 0 False 4 2 3 0], of 9]
  by (auto simp: kp_new_simps split: prod.splits)

text \<open>
  Resizing keeps every reference, the tree and the invariants: growth reaches the new capacity,
  shrinking removes free pages only and stops at the first page in use.
\<close>

theorem resize_keeps_references:
  assumes "pool_inv p" and "cache_kept p"
  shows "pool_inv (kp_resize_capacity p n) \<and> cache_kept (kp_resize_capacity p n)
    \<and> (\<forall>i. kp_block_ref_count (kp_resize_capacity p n) i = kp_block_ref_count p i)
    \<and> kp_tree (kp_resize_capacity p n) = kp_tree p
    \<and> (cap p \<le> n \<longrightarrow> cap (kp_resize_capacity p n) = n)
    \<and> (n \<le> cap p \<longrightarrow> n \<le> cap (kp_resize_capacity p n))"
  using resize_spec [OF assms, of n] by (simp add: kp_block_ref_count_def)

theorem resize_keeps_references_witness:
  "cap (kp_resize_capacity (kp_new_on_device 0 False 4 2 3 0) 9) = 9"
  using resize_keeps_references [OF pool_inv_new cache_kept_new, of 0 False 4 2 3 0 9]
  by (simp add: kp_new_simps)

text \<open>
  With no page spilled, allocation keeps cached content off the free list: it takes a free page,
  or evicts a cached one and drops it from the tree in the same step.
\<close>

theorem alloc_keeps_cache:
  assumes "pool_inv p" and "cache_kept p"
    and "kp_spill p = None" "\<forall>i < cap p. kb_location (blk p i) = Gpu"
  shows "cache_kept (snd (kp_alloc e p))"
  by (rule kp_alloc_cache_kept [OF assms])

theorem alloc_keeps_cache_witness:
  "cache_kept (snd (kp_alloc calm (kp_new_on_device 0 False 4 2 3 0)))"
  by (rule alloc_keeps_cache [OF pool_inv_new cache_kept_new])
    (simp_all add: kp_new_simps fresh_block_def)

section \<open>The spill tiers\<close>

text \<open>
  A raw block handed to the spill manager is fetched back bit for bit after any history of
  demotions to disk and fetches of any blocks, whatever the file operations answered in between, as
  long as the final read works.
\<close>

theorem raw_spill_roundtrip:
  assumes "raw_inv m" and "length k = sm_block_elems m" and "length v = sm_block_elems m" and "io_read e"
  shows "fst (retrieve e
      (foldl (\<lambda>m (e', c, fetch). if fetch then snd (retrieve e' m c) else snd (demote_to_nvme e' m c))
        (snd (demote_to_host m b k v)) history) b) = Ok (Some (k, v))"
  using raw_tier.put_churn_fetch [of m "(k, v)" e history b] assms
  by (simp add: raw_tier.churn_def raw_admissible_def raw_put_def raw_sink_def cong: if_cong)

theorem raw_spill_roundtrip_witness:
  "fst (retrieve calm
      (foldl (\<lambda>m (e', c, fetch). if fetch then snd (retrieve e' m c) else snd (demote_to_nvme e' m c))
        (snd (demote_to_host (sm_new 2) 7 [1, 2] [3, 4]))
        [(calm\<lparr>io_rename := False\<rparr>, 7, False), (calm, 7, False), (calm\<lparr>io_read := False\<rparr>, 7, True)]) 7)
    = Ok (Some ([1, 2], [3, 4]))"
  by (rule raw_spill_roundtrip) (simp_all add: raw_inv_new sm_new_def calm_def raw_inv_new [unfolded sm_new_def])

text \<open>The same holds of a compressed blob and of a packed block with its format code.\<close>

theorem coded_spill_roundtrip:
  assumes "comp_inv m" and "blob \<noteq> []" and "bytes \<noteq> []" and "io_read e"
  shows "fst (retrieve_compressed e
      (foldl (\<lambda>m (e', c, fetch). if fetch then snd (retrieve_compressed e' m c)
                else snd (demote_compressed_to_nvme e' m c))
        (snd (demote_compressed m b blob)) history) b) = Ok (Some blob)
    \<and> fst (retrieve_packed e
      (foldl (\<lambda>m (e', c, fetch). if fetch then snd (retrieve_packed e' m c)
                else snd (demote_packed_to_nvme e' m c))
        (snd (demote_packed m b fmt bytes)) history) b) = Ok (Some (fmt, bytes))"
proof -
  have n: "names_ok m" using assms(1) by (simp add: comp_inv_def)
  show ?thesis
    using comp_tier.put_churn_fetch [OF assms(1,2,4), of history b]
      pack_tier.put_churn_fetch [of m "(fmt, bytes)" e history b] n assms(3,4)
    by (simp add: comp_tier.churn_def comp_put_def comp_sink_def pack_tier.churn_def pack_put_def
        pack_sink_def cong: if_cong)
qed

theorem coded_spill_roundtrip_witness:
  "fst (retrieve_packed calm
      (foldl (\<lambda>m (e', c, fetch). if fetch then snd (retrieve_packed e' m c)
                else snd (demote_packed_to_nvme e' m c))
        (snd (demote_packed (sm_new 2) 7 9 [1, 2, 3])) [(calm, 7, False)]) 7) = Ok (Some (9, [1, 2, 3]))"
  using coded_spill_roundtrip [OF comp_inv_new, of "[0]" "[1, 2, 3]" calm 2 7 "[(calm, 7, False)]" 9]
  by (simp add: calm_def)

text \<open>
  A packed block that reached the disk cannot be promoted: the promotion asks for the compressed
  and the raw form only, finds the block's tier on disk without a raw file, and fails.
\<close>

theorem packed_spill_not_promotable:
  assumes "bytes \<noteq> []" and "io_write e" and "io_rename e" and "sm_compressed_host s i = None"
    and "sm_nvme_compressed s i = None" and "sm_nvme_cache s i = None"
    and "kp_spill p = Some (snd (demote_packed_to_nvme e (snd (demote_packed s i fmt bytes)) i))"
  shows "fst (promote_to_gpu e2 p i) = Err NvmePathMissing"
proof -
  let ?s = "snd (demote_packed_to_nvme e (snd (demote_packed s i fmt bytes)) i)"
  have s: "sm_compressed_host ?s i = None" "sm_nvme_compressed ?s i = None" "sm_nvme_cache ?s i = None"
    "sm_block_tiers ?s i = Some NvMe"
    using assms by (simp_all add: demote_packed_def demote_packed_to_nvme_def atomic_write_def)
  then have "retrieve_compressed e2 ?s i = (Ok None, ?s)" "retrieve e2 ?s i = (Err NvmePathMissing, ?s)"
    by (simp_all add: retrieve_compressed_def retrieve_def)
  then show ?thesis by (simp add: promote_to_gpu_def assms(7) lift_spill_def)
qed

theorem packed_spill_not_promotable_witness:
  "fst (promote_to_gpu calm (kp_attach_spill (kp_new_on_device 0 False 1 1 1 0)
      (snd (demote_packed_to_nvme calm (snd (demote_packed (sm_new 16) 0 8 [1, 2])) 0))) 0) = Err NvmePathMissing"
  by (rule packed_spill_not_promotable [where bytes = "[1, 2]" and s = "sm_new 16" and e = calm and fmt = 8])
    (simp_all add: sm_new_def calm_def kp_attach_spill_def)

text \<open>
  Flushing writes every dirty device block to the host tier: afterwards the spill tier holds, of
  each such block, its current keys and values, and of every other block what it held before.
\<close>

theorem flush_writes_dirty:
  assumes "kp_spill p = Some s" and "raw_inv s"
    and "\<forall>i < cap p. length (kb_key_data (blk p i)) = sm_block_elems s \<and> length (kb_value_data (blk p i)) = sm_block_elems s"
  shows "\<exists>s'. flush_dirty_to_host p = (Ok (dirty_count p), p\<lparr>kp_dirty := [], kp_spill := Some s'\<rparr>) \<and> raw_inv s'
    \<and> (\<forall>i. raw_view s' i = (if is_dirty p i \<and> i < cap p \<and> kb_location (blk p i) = Gpu
             then Some (kb_key_data (blk p i), kb_value_data (blk p i)) else raw_view s i))"
proof -
  obtain s' where "flush_loop (kp_dirty p) (p\<lparr>kp_dirty := []\<rparr>) = (Ok (), (p\<lparr>kp_dirty := []\<rparr>)\<lparr>kp_spill := Some s'\<rparr>)"
    "raw_inv s'" "\<forall>i. raw_view s' i = (if i \<in> set (kp_dirty p) \<and> i < cap p \<and> kb_location (blk p i) = Gpu
             then Some (kb_key_data (blk p i), kb_value_data (blk p i)) else raw_view s i)"
    using flush_loop_spec [of "p\<lparr>kp_dirty := []\<rparr>" s "kp_dirty p"] assms by auto
  then show ?thesis
    using assms(1) by (intro exI [of _ s']) (simp add: flush_dirty_to_host_def dirty_count_def is_dirty_def)
qed

theorem flush_writes_dirty_witness:
  "raw_view (the (kp_spill (snd (flush_dirty_to_host
     (mark_dirty (kp_attach_spill (kp_new_on_device 0 False 1 1 1 0) (sm_new 16)) 0))))) 0
    = Some (replicate 16 0, replicate 16 0)"
proof -
  define p where "p = mark_dirty (kp_attach_spill (kp_new_on_device 0 False 1 1 1 0) (sm_new 16)) 0"
  have p: "kp_spill p = Some (sm_new 16)" "cap p = 1" "is_dirty p 0"
    "blk p 0 = fresh_block 16 0"
    by (simp_all add: p_def kp_attach_spill_def mark_dirty_def is_dirty_def kp_new_on_device_def Let_def hs_insert_def
      BLOCK_SIZE_def)
  have "\<exists>s'. flush_dirty_to_host p = (Ok (dirty_count p), p\<lparr>kp_dirty := [], kp_spill := Some s'\<rparr>) \<and> raw_inv s'
    \<and> (\<forall>i. raw_view s' i = (if is_dirty p i \<and> i < cap p \<and> kb_location (blk p i) = Gpu
             then Some (kb_key_data (blk p i), kb_value_data (blk p i)) else raw_view (sm_new 16) i))"
    by (rule flush_writes_dirty) (simp_all add: p raw_inv_new fresh_block_def, simp_all add: sm_new_def)
  then show ?thesis unfolding p_def [symmetric] using p by (auto simp: fresh_block_def)
qed

section \<open>Block contents\<close>

text \<open>
  A layer write of a well-shaped pool that fits the layer succeeds; the keys read back at that
  block and layer begin with what was written, every other block and layer reads as before, and the
  pool stays well shaped. A write outside the pool or over the layer's size is refused unchanged.
\<close>

theorem layer_write_reads_back:
  assumes "layers_sized p"
  shows "if i < cap p \<and> length keys \<le> layer_elem p layer
    then (\<exists>p' buf. try_write_layer_keys p i layer keys n = (Ok (), p') \<and> layers_sized p'
      \<and> read_layer_keys p' i layer = Some buf \<and> take (length keys) buf = keys
      \<and> (\<forall>j l b. (j, l) \<noteq> (i, layer) \<longrightarrow> read_layer_keys p j l = Some b \<longrightarrow> read_layer_keys p' j l = Some b))
    else (\<exists>err. try_write_layer_keys p i layer keys n = (Err err, p))"
proof (cases "i < cap p \<and> length keys \<le> layer_elem p layer")
  case True
  then obtain p' where p': "try_write_layer_keys p i layer keys n = (Ok (), p')" "layers_sized p'"
    using write_layer_keys_total [OF assms] by blast
  then show ?thesis
    using True write_layer_keys_read(1) [OF p'(1)] write_layer_keys_frame [OF p'(1)] by auto
next
  case False
  then show ?thesis by (auto simp: try_write_layer_keys_def)
qed

theorem layer_write_reads_back_witness:
  "\<exists>p' buf. try_write_layer_keys (kp_new_on_device 0 False 2 1 1 0) 1 3 [5, 6] 2 = (Ok (), p')
    \<and> read_layer_keys p' 1 3 = Some buf \<and> take 2 buf = [5, 6]"
  using layer_write_reads_back [OF layers_sized_new [of 0 False 2 1 1 0],
      where i = 1 and keys = "[5, 6]" and layer = 3 and n = 2]
  by (auto simp: kp_new_simps layer_elem_def kp_block_elem_def BLOCK_SIZE_def numeral_2_eq_2)

section \<open>The wire\<close>

text \<open>The receiver of the witnesses: two blocks of sixteen one-element tokens, no prompts.\<close>

definition small_pool :: kv_block_pool where
  "small_pool = kp_new_on_device 0 False 2 1 1 0"

lemma small_pool: "receiver_inv small_pool" "cap small_pool = 2" "kp_elem small_pool = 1"
  "layer_elem small_pool l = 16"
  by (simp_all add: small_pool_def receiver_inv_def layers_sized_new kp_new_simps layer_elem_def kp_block_elem_def
      BLOCK_SIZE_def)

lemma receiver_push:
  assumes "receiver_inv p" and "encode_block_message b l k v n = Ok msg" and "length k \<le> MAX_PUSH_ELEMENTS"
    and "b < cap p" and "0 < kp_elem p" and "length k \<le> layer_elem p (unat l)"
  shows "\<exists>ack p' kb vb. serve_step pool_kv_store (msg @ rest) \<lparr>rv_store = p, rv_prompts = ch\<rparr>
      = Next rest ack \<lparr>rv_store = p', rv_prompts = ch\<rparr>
    \<and> (\<forall>tail. read_ack (ack @ tail) (word_of_nat b) l = Ok tail) \<and> receiver_inv p'
    \<and> read_layer_keys p' b (unat l) = Some kb \<and> take (length k) kb = k
    \<and> read_layer_values p' b (unat l) = Some vb \<and> take (length v) vb = v"
proof -
  have st: "ks_num_blocks pool_kv_store = (\<lambda>p. cap p)" "ks_elem_per_token pool_kv_store = kp_elem"
    "ks_read_layer_keys pool_kv_store q i j = read_layer_keys q i (unat j)"
    "ks_read_layer_values pool_kv_store q i j = read_layer_values q i (unat j)" for q i j
    by (simp_all add: pool_kv_store_def)
  show ?thesis
    using pool_receiver.push_served [of "\<lparr>rv_store = p, rv_prompts = ch\<rparr>" b l k v n msg rest] assms
    unfolding st pool_fits_def by simp blast
qed

text \<open>
  C8. Pushing a block over the wire: a message the client encodes for a block and layer of the
  receiver is consumed exactly, acknowledged with an answer the client accepts, and afterwards the
  receiver's pool returns the pushed keys and values at that block and layer.
\<close>

theorem push_lands:
  assumes "receiver_inv p" and "encode_block_message b l k v n = Ok msg" and "length k \<le> MAX_PUSH_ELEMENTS"
    and "b < cap p" and "0 < kp_elem p" and "length k \<le> layer_elem p (unat l)"
  shows "\<exists>ack p' kb vb. serve_step pool_kv_store (msg @ rest) \<lparr>rv_store = p, rv_prompts = ch\<rparr>
      = Next rest ack \<lparr>rv_store = p', rv_prompts = ch\<rparr>
    \<and> (\<forall>tail. read_ack (ack @ tail) (word_of_nat b) l = Ok tail) \<and> receiver_inv p'
    \<and> read_layer_keys p' b (unat l) = Some kb \<and> take (length k) kb = k
    \<and> read_layer_values p' b (unat l) = Some vb \<and> take (length v) vb = v"
  by (rule receiver_push [OF assms])

theorem push_lands_witness:
  "\<exists>msg ack p' kb vb. encode_block_message 1 3 [5, 6] [7, 8] 2 = Ok msg
    \<and> serve_step pool_kv_store (msg @ [9]) \<lparr>rv_store = small_pool, rv_prompts = []\<rparr>
      = Next [9] ack \<lparr>rv_store = p', rv_prompts = []\<rparr>
    \<and> read_layer_keys p' 1 3 = Some kb \<and> take 2 kb = [5, 6]
    \<and> read_layer_values p' 1 3 = Some vb \<and> take 2 vb = [7, 8]"
proof -
  obtain msg where msg: "encode_block_message 1 3 [5, 6] [7, 8] 2 = Ok msg"
    by (simp add: encode_block_message_Ok u32_max_def MAX_WIRE_LAYER_IDX_def)
  have "\<exists>ack p' kb vb. serve_step pool_kv_store (msg @ [9]) \<lparr>rv_store = small_pool, rv_prompts = []\<rparr>
      = Next [9] ack \<lparr>rv_store = p', rv_prompts = []\<rparr>
    \<and> (\<forall>tail. read_ack (ack @ tail) (word_of_nat 1) 3 = Ok tail) \<and> receiver_inv p'
    \<and> read_layer_keys p' 1 (unat (3 :: u32)) = Some kb \<and> take (length [5, 6 :: f32]) kb = [5, 6]
    \<and> read_layer_values p' 1 (unat (3 :: u32)) = Some vb \<and> take (length [7, 8 :: f32]) vb = [7, 8]"
    by (rule push_lands [OF small_pool(1) msg]) (simp_all add: small_pool MAX_PUSH_ELEMENTS_def)
  moreover have "length [5, 6 :: f32] = 2" "length [7, 8 :: f32] = 2" "unat (3 :: u32) = 3" by simp_all
  ultimately show ?thesis using msg by metis
qed

text \<open>
  A batch on one connection: the receiver's loop consumes every message of a batch of blocks in
  range and answers with acknowledgements the client reads off one by one, with nothing left over.
\<close>

theorem batch_acknowledged:
  assumes "receiver_inv (rv_store r)" and "0 < kp_elem (rv_store r)"
    and "list_all2 (\<lambda>(b, l, k, v, n) msg. encode_block_message b l k v n = Ok msg
      \<and> length k \<le> MAX_PUSH_ELEMENTS \<and> b < cap (rv_store r)
      \<and> length k \<le> layer_elem (rv_store r) (unat l)) items msgs"
  shows "case serve pool_kv_store (concat msgs) r of (out, r') \<Rightarrow>
    read_acks out (map (\<lambda>(b, l, _). (word_of_nat b, l)) items) = Ok [] \<and> receiver_inv (rv_store r')"
  by (rule pool_receiver.batch_served [OF assms(1)])
    (use assms in \<open>simp_all add: pool_kv_store_def pool_fits_def\<close>)

theorem batch_acknowledged_witness:
  "\<exists>m1 m2. encode_block_message 0 0 [5] [6] 1 = Ok m1 \<and> encode_block_message 1 2 [7] [8] 1 = Ok m2
    \<and> read_acks (fst (serve pool_kv_store (m1 @ m2) \<lparr>rv_store = small_pool, rv_prompts = []\<rparr>))
        [(0, 0), (1, 2)] = Ok []"
proof -
  let ?r = "\<lparr>rv_store = small_pool, rv_prompts = []\<rparr>"
  obtain m1 m2 where m: "encode_block_message 0 0 [5] [6] 1 = Ok m1" "encode_block_message 1 2 [7] [8] 1 = Ok m2"
    by (simp add: encode_block_message_Ok u32_max_def MAX_WIRE_LAYER_IDX_def)
  have "case serve pool_kv_store (concat [m1, m2]) ?r of (out, r') \<Rightarrow>
    read_acks out (map (\<lambda>(b, l, _). (word_of_nat b, l)) [(0, 0, [5 :: f32], [6 :: f32], 1 :: nat), (1, 2, [7], [8], 1)]) = Ok []
      \<and> receiver_inv (rv_store r')"
    by (rule batch_acknowledged) (use m in \<open>simp_all add: small_pool MAX_PUSH_ELEMENTS_def\<close>)
  then show ?thesis using m by (simp split: prod.splits)
qed

text \<open>
  A block outside the pool, or larger than its layer, is refused: the message is consumed, the
  store is untouched and the client sees a rejection.
\<close>

theorem misfit_refused:
  assumes "receiver_inv (rv_store r)" and "encode_block_message b l k v n = Ok msg"
    and "length k \<le> MAX_PUSH_ELEMENTS" and "b < 2 ^ 64"
    and "cap (rv_store r) \<le> b \<or> layer_elem (rv_store r) (unat l) < length k"
  shows "\<exists>ack. serve_step pool_kv_store (msg @ rest) r = Next rest ack r
    \<and> read_ack (ack @ tail) (word_of_nat b) l = Err AckRejected"
  by (rule pool_receiver.push_refused [OF assms(1-4)])
    (use assms(5) in \<open>auto simp: pool_kv_store_def pool_fits_def\<close>)

theorem misfit_refused_witness:
  "\<exists>msg ack. encode_block_message 2 0 [5] [6] 1 = Ok msg
    \<and> serve_step pool_kv_store (msg @ []) \<lparr>rv_store = small_pool, rv_prompts = []\<rparr>
      = Next [] ack \<lparr>rv_store = small_pool, rv_prompts = []\<rparr>
    \<and> read_ack (ack @ []) 2 0 = Err AckRejected"
proof -
  obtain msg where msg: "encode_block_message 2 0 [5] [6] 1 = Ok msg"
    by (simp add: encode_block_message_Ok u32_max_def MAX_WIRE_LAYER_IDX_def)
  have "\<exists>ack. serve_step pool_kv_store (msg @ []) \<lparr>rv_store = small_pool, rv_prompts = []\<rparr>
      = Next [] ack \<lparr>rv_store = small_pool, rv_prompts = []\<rparr>
    \<and> read_ack (ack @ []) (word_of_nat 2) 0 = Err AckRejected"
    by (rule misfit_refused [OF _ msg]) (simp_all add: small_pool MAX_PUSH_ELEMENTS_def)
  then show ?thesis using msg by auto
qed

text \<open>
  C9. A corrupted payload is never stored: change any one byte of the payload of a message and the
  receiver refuses it, leaving its store as it was.
\<close>

theorem corrupted_byte_refused:
  assumes "encode_block_message b l k v n = Ok msg" and "length k \<le> MAX_PUSH_ELEMENTS"
    and "HEADER_SIZE \<le> i" and "i < length msg" and "x \<noteq> msg ! i"
  shows "\<exists>ack. serve_step S (msg[i := x] @ rest) r = Next rest ack r
    \<and> read_ack (ack @ tail) (word_of_nat b) l = Err AckRejected"
proof -
  let ?h = "push_header b l k v n" and ?pay = "encode_f32s (k @ v)"
  let ?j = "i - HEADER_SIZE"
  have m: "length k = length v" "length k \<le> u32_max" "l \<le> MAX_WIRE_LAYER_IDX" "msg = serialize ?h @ ?pay"
    using assms(1) by (auto simp: encode_block_message_Ok)
  have len: "length (serialize ?h) = HEADER_SIZE" by (simp add: HEADER_SIZE_def)
  have j: "?j < length ?pay" "x \<noteq> ?pay ! ?j" using assms(3-5) len by (auto simp: m(4) nth_append)
  have upd: "msg[i := x] = serialize ?h @ ?pay[?j := x]"
    using assms(3) len by (simp add: m(4) list_update_append)
  have n: "unat (hd_num_elements ?h) = length k" "hd_layer_idx ?h = l" "hd_block_id ?h = word_of_nat b"
    using m(2) by (simp_all add: push_header_def unat_word_of_nat_u32)
  have "?pay = take ?j ?pay @ ?pay ! ?j # drop (Suc ?j) ?pay" by (rule id_take_nth_drop [OF j(1)])
  moreover have "?pay[?j := x] = take ?j ?pay @ x # drop (Suc ?j) ?pay" by (rule upd_conv_take_nth_drop [OF j(1)])
  ultimately have "compute_checksum_bytes (?pay[?j := x]) \<noteq> compute_checksum_bytes ?pay"
    using j(2) checksum_single_byte by metis
  then have bad: "compute_checksum_bytes (?pay[?j := x]) \<noteq> hd_checksum ?h"
    by (simp add: push_header_def compute_checksum_eq)
  have d: "take HEADER_SIZE (msg[i := x] @ rest) = serialize ?h" "HEADER_SIZE \<le> length (msg[i := x] @ rest)"
    "drop HEADER_SIZE (msg[i := x] @ rest) = ?pay[?j := x] @ rest" by (simp_all add: upd len)
  have "serve_step S (msg[i := x] @ rest) r = Next rest (ack_bytes ?h False 0) r"
    by (rule push_corrupted [where h = ?h and payload = "?pay[?j := x]"])
      (use bad m(1-3) n assms(2) d in simp_all)
  then show ?thesis using read_ack_ack_bytes [of ?h False 0 tail] n by auto
qed

theorem corrupted_byte_refused_witness:
  "\<exists>msg ack. encode_block_message 1 0 [5] [6] 1 = Ok msg
    \<and> serve_step pool_kv_store (msg[32 := 255] @ []) \<lparr>rv_store = small_pool, rv_prompts = []\<rparr>
      = Next [] ack \<lparr>rv_store = small_pool, rv_prompts = []\<rparr>
    \<and> read_ack (ack @ []) 1 0 = Err AckRejected"
proof -
  obtain msg where msg: "encode_block_message 1 0 [5] [6] 1 = Ok msg"
    by (simp add: encode_block_message_Ok u32_max_def MAX_WIRE_LAYER_IDX_def)
  then have m: "msg = serialize (push_header 1 0 [5] [6] 1) @ encode_f32s ([5] @ [6])"
    by (simp add: encode_block_message_Ok)
  have "\<exists>ack. serve_step pool_kv_store (msg[32 := 255] @ []) \<lparr>rv_store = small_pool, rv_prompts = []\<rparr>
      = Next [] ack \<lparr>rv_store = small_pool, rv_prompts = []\<rparr>
    \<and> read_ack (ack @ []) (word_of_nat 1) 0 = Err AckRejected"
    by (rule corrupted_byte_refused [OF msg])
      (simp_all add: m HEADER_SIZE_def MAX_PUSH_ELEMENTS_def nth_append encode_f32s_def le_bytes_def)
  then show ?thesis using msg by auto
qed

text \<open>
  Fetching: the client's request for a block and layer leaves the receiver as it is, and the
  client decodes from the reply exactly the keys, values and token count the receiver's store
  answers with.
\<close>

theorem fetch_returns_answer:
  assumes "fetch_request b l m = Ok msg" and "l \<le> MAX_WIRE_LAYER_IDX" and "b < 2 ^ 64"
    and "fetch_answer S (rv_store r) b l = (k, v, stored)" and "k \<noteq> []"
    and "length k * 8 \<le> MAX_PAYLOAD_BYTES"
  shows "\<exists>reply. serve_step S (msg @ rest) r = Next rest reply r \<and> fetch_reply reply = Ok (k, v, stored)"
  by (rule fetch_served [OF assms])

theorem fetch_returns_answer_witness:
  "\<exists>msg reply. fetch_request 0 0 16 = Ok msg
    \<and> serve_step pool_kv_store (msg @ []) \<lparr>rv_store = set_received small_pool 0 True, rv_prompts = []\<rparr>
      = Next [] reply \<lparr>rv_store = set_received small_pool 0 True, rv_prompts = []\<rparr>
    \<and> fetch_reply reply = Ok (replicate 16 0, replicate 16 0, 0)"
proof -
  obtain msg where msg: "fetch_request 0 0 16 = Ok msg" by (simp add: fetch_request_def u32_max_def)
  have b: "blk small_pool 0 = fresh_block 16 0"
    using kp_new_simps(9) [of 0 2 0 False 1 1 0] by (simp add: small_pool_def BLOCK_SIZE_def)
  have "\<exists>reply. serve_step pool_kv_store (msg @ []) \<lparr>rv_store = set_received small_pool 0 True, rv_prompts = []\<rparr>
      = Next [] reply \<lparr>rv_store = set_received small_pool 0 True, rv_prompts = []\<rparr>
    \<and> fetch_reply reply = Ok (replicate 16 0, replicate 16 0, 0)"
    by (rule fetch_returns_answer [OF msg])
      (simp_all add: fetch_answer_def pool_kv_store_def small_pool set_received_def b fresh_block_def
        block_is_received_def block_num_tokens_def read_layer_keys_def read_layer_values_def
        blk_upd_block MAX_WIRE_LAYER_IDX_def MAX_PAYLOAD_BYTES_def Let_def kp_elem_def)
  then show ?thesis using msg by blast
qed

text \<open>
  Prompts: a prompt the client encodes is acknowledged and can be taken under its request id
  afterwards; the block store is untouched.
\<close>

theorem prompt_delivered:
  assumes "encode_prompt_message req toks = Ok msg"
  shows "\<exists>ack r'. serve_step S (msg @ rest) r = Next rest ack r' \<and> rv_store r' = rv_store r
    \<and> read_ack (ack @ tail) req PROMPT_FLAG = Ok tail
    \<and> fst (prompt_take (rv_prompts r') req) = Some toks"
  by (rule prompt_served [OF assms])

theorem prompt_delivered_witness:
  "\<exists>msg ack r'. encode_prompt_message 42 [1, 2, 3] = Ok msg
    \<and> serve_step pool_kv_store (msg @ []) \<lparr>rv_store = small_pool, rv_prompts = []\<rparr> = Next [] ack r'
    \<and> fst (prompt_take (rv_prompts r') 42) = Some [1, 2, 3]"
proof -
  obtain msg where msg: "encode_prompt_message 42 [1, 2, 3] = Ok msg"
    by (simp add: encode_prompt_message_def MAX_PROMPT_TOKENS_def u32_max_def)
  show ?thesis
    using prompt_delivered [OF msg, where rest = "[]" and S = pool_kv_store
        and r = "\<lparr>rv_store = small_pool, rv_prompts = []\<rparr>"] msg by blast
qed

text \<open>
  The two transports agree: a push message dropped into the shared-memory inbox is consumed
  exactly when the TCP receiver acknowledges the same bytes, and with the same resulting store.
\<close>

theorem transports_agree:
  assumes "deserialize (take HEADER_SIZE bytes) = Some h" and "verify h"
    and "hd_layer_idx h \<le> MAX_WIRE_LAYER_IDX" and "unat (hd_num_elements h) \<le> MAX_PUSH_ELEMENTS"
    and "length bytes = HEADER_SIZE + unat (hd_num_elements h) * 8"
  shows "case consume_shm_handoff S bytes s of
      (Consumed, s') \<Rightarrow> \<exists>c. serve_step S bytes \<lparr>rv_store = s, rv_prompts = ch\<rparr>
        = Next [] (ack_bytes h True c) \<lparr>rv_store = s', rv_prompts = ch\<rparr>
    | (Quarantined, s') \<Rightarrow> serve_step S bytes \<lparr>rv_store = s, rv_prompts = ch\<rparr>
        = Next [] (ack_bytes h False 0) \<lparr>rv_store = s', rv_prompts = ch\<rparr>
    | (HandoffPanic, s') \<Rightarrow> serve_step S bytes \<lparr>rv_store = s, rv_prompts = ch\<rparr>
        = Died \<lparr>rv_store = s', rv_prompts = ch\<rparr>"
  by (rule shm_agrees_with_tcp [OF assms])

theorem transports_agree_witness:
  "case consume_shm_handoff pool_kv_store (serialize (push_header 1 0 [5] [6] 1) @ encode_f32s [5, 6]) small_pool of
      (Consumed, s') \<Rightarrow> \<exists>c. serve_step pool_kv_store (serialize (push_header 1 0 [5] [6] 1) @ encode_f32s [5, 6])
          \<lparr>rv_store = small_pool, rv_prompts = []\<rparr>
        = Next [] (ack_bytes (push_header 1 0 [5] [6] 1) True c) \<lparr>rv_store = s', rv_prompts = []\<rparr>
    | (Quarantined, s') \<Rightarrow> serve_step pool_kv_store (serialize (push_header 1 0 [5] [6] 1) @ encode_f32s [5, 6])
          \<lparr>rv_store = small_pool, rv_prompts = []\<rparr>
        = Next [] (ack_bytes (push_header 1 0 [5] [6] 1) False 0) \<lparr>rv_store = s', rv_prompts = []\<rparr>
    | (HandoffPanic, s') \<Rightarrow> serve_step pool_kv_store (serialize (push_header 1 0 [5] [6] 1) @ encode_f32s [5, 6])
          \<lparr>rv_store = small_pool, rv_prompts = []\<rparr>
        = Died \<lparr>rv_store = s', rv_prompts = []\<rparr>"
  by (rule transports_agree)
    (simp_all add: HEADER_SIZE_def push_header_def verify_def MAX_WIRE_LAYER_IDX_def MAX_PUSH_ELEMENTS_def
      encode_f32s_def le_bytes_def)

text \<open>
  A prompt over the token cap is refused, but unlike every other refusal the connection goes on
  without consuming the payload: the receiver's next turn reads the prompt's tokens as a header.
\<close>

theorem oversized_prompt_not_consumed:
  assumes "verify h" and "hd_layer_idx h = PROMPT_FLAG" and "unat (hd_num_elements h) > MAX_PROMPT_TOKENS"
  shows "serve_step S (serialize h @ payload) r = Next payload (ack_bytes h False 0) r"
  by (rule oversized_prompt_desync [OF assms])

theorem oversized_prompt_not_consumed_witness:
  "serve_step pool_kv_store (serialize \<lparr>hd_magic = KV_MAGIC, hd_version = KV_PROTOCOL_VERSION, hd_block_id = 1,
      hd_layer_idx = PROMPT_FLAG, hd_num_elements = 2000000, hd_checksum = 0, hd_num_tokens = 0\<rparr> @ [1, 2])
      \<lparr>rv_store = small_pool, rv_prompts = []\<rparr>
    = Next [1, 2] (ack_bytes \<lparr>hd_magic = KV_MAGIC, hd_version = KV_PROTOCOL_VERSION, hd_block_id = 1,
        hd_layer_idx = PROMPT_FLAG, hd_num_elements = 2000000, hd_checksum = 0, hd_num_tokens = 0\<rparr> False 0)
      \<lparr>rv_store = small_pool, rv_prompts = []\<rparr>"
  by (rule oversized_prompt_not_consumed) (simp_all add: verify_def MAX_PROMPT_TOKENS_def)

section \<open>Checkpoints and the mirror\<close>

text \<open>
  C10. The checkpoint pool: storing keeps its invariants -- never more checkpoints than its bound,
  one per node, the index and the entries in agreement -- and makes the checkpoint the one its node
  answers with; invalidating the node removes it.
\<close>

theorem checkpoint_stored:
  assumes "rcp_inv p" and "rcp_next_id p < 2 ^ 64 - 1"
  shows "case rcp_store_checkpoint now p node off ls of (cp, p') \<Rightarrow>
    rcp_inv p' \<and> length (rcp_checkpoints p') \<le> rcp_max_checkpoints p'
    \<and> fst (rcp_get_by_node t p' node) = Some (cp\<lparr>cp_last_access := t\<rparr>)
    \<and> fst (rcp_get_by_node t (snd (rcp_invalidate_node p' node)) node) = None"
proof -
  obtain cp p' where run: "rcp_store_checkpoint now p node off ls = (cp, p')" by fastforce
  have inv: "rcp_inv p'" using rcp_store_inv [OF assms, of now node off ls] run by simp
  show ?thesis
    using inv rcp_inv_bound [OF inv] rcp_get_store [of t now p node off ls] rcp_get_invalidated [OF inv, of t node] run
    by simp
qed

theorem checkpoint_stored_witness:
  "case rcp_new 2 of Ok p \<Rightarrow> (case rcp_store_checkpoint 5 p 3 32 [] of (cp, p') \<Rightarrow>
      fst (rcp_get_by_node 6 p' 3) = Some (cp\<lparr>cp_last_access := 6\<rparr>)) | _ \<Rightarrow> False"
proof -
  obtain p where p: "rcp_new 2 = Ok p" "rcp_next_id p = 1" by (simp add: rcp_new_def)
  have "case rcp_store_checkpoint 5 p 3 32 [] of (cp, p') \<Rightarrow>
    rcp_inv p' \<and> length (rcp_checkpoints p') \<le> rcp_max_checkpoints p'
    \<and> fst (rcp_get_by_node 6 p' 3) = Some (cp\<lparr>cp_last_access := 6\<rparr>)
    \<and> fst (rcp_get_by_node 6 (snd (rcp_invalidate_node p' 3)) 3) = None"
    by (rule checkpoint_stored [OF rcp_inv_new [OF p(1)]]) (simp add: p(2))
  then show ?thesis by (simp add: p(1) split: prod.splits)
qed

text \<open>
  Synchronising the mirror leaves no page dirty, copies exactly the dirty pages, and marks them
  in sync with the pool's contents; the other pages keep their copy and their state.
\<close>

theorem mirror_synchronised:
  assumes "dm_inv m" and "length (dm_states m) \<le> n"
  shows "case dm_sync_dirty n kv m of (copied, m') \<Rightarrow>
    dm_dirty_set m' = [] \<and> copied = dm_dirty_count m
    \<and> (\<forall>i. dm_retrieve_mirror m' i = (if dm_is_dirty m i then Some (kv i) else dm_retrieve_mirror m i)
        \<and> dm_state m' i = (if dm_is_dirty m i then InSync else dm_state m i))"
  using dm_sync_spec [OF assms, where kv = kv] by (cases "dm_sync_dirty n kv m") simp

theorem mirror_synchronised_witness:
  "dm_retrieve_mirror (snd (dm_sync_dirty 4 (\<lambda>i. ([5], [6])) (dm_mark_dirty (dm_new 4 1 1 mc_default) 2))) 2
    = Some ([5], [6])"
proof -
  let ?m = "dm_mark_dirty (dm_new 4 1 1 mc_default) 2"
  have l: "length (dm_states ?m) \<le> 4" "dm_is_dirty ?m 2" by (simp_all add: dm_mark_dirty_def dm_new_def dm_is_dirty_def hs_insert_def)
  have "case dm_sync_dirty 4 (\<lambda>i. ([5], [6])) ?m of (copied, m') \<Rightarrow>
    dm_dirty_set m' = [] \<and> copied = dm_dirty_count ?m
    \<and> (\<forall>i. dm_retrieve_mirror m' i = (if dm_is_dirty ?m i then Some ([5], [6]) else dm_retrieve_mirror ?m i)
        \<and> dm_state m' i = (if dm_is_dirty ?m i then InSync else dm_state ?m i))"
    by (rule mirror_synchronised [OF dm_inv_mark_dirty [OF dm_inv_new] l(1)])
  then show ?thesis using l(2) by (auto split: prod.splits)
qed

section \<open>The paged cache\<close>

text \<open>Quantizers that fail, for the witnesses.\<close>

definition no_packers :: packers where
  "no_packers = \<lparr>pk_white_crow = (\<lambda>_. None), pk_nvfp4 = (\<lambda>_. None)\<rparr>"



text \<open>
  Appending to a deeper layer: the tokens go into the blocks layer 0 holds, the table, the token
  count and the pool's accounting do not move, and gathering that layer returns the earlier keys and
  values followed by the appended ones.
\<close>

theorem deeper_append_extends_gather:
  assumes "0 < layer" and "paged c p layer stride" and "pc_cursors c ! layer = n"
    and "pc_seeded_pending c = 0" and "n + seq \<le> length (pc_table c) * BLOCK_SIZE"
    and "seq_stride dims kf = (seq, stride)" "0 < seq" and "length kf = seq * stride" "length vf = seq * stride"
    and "\<not> env_packed e" "kp_spill p = None"
    and "gather_kv_f32 c layer n = Some (K, V)"
  shows "\<exists>c' p'. append_kv_layer e pk layer dims kf vf c p = (Ok (), c', p')
    \<and> pc_table c' = pc_table c \<and> pc_committed c' = pc_committed c
    \<and> kp_ref_counts p' = kp_ref_counts p \<and> kp_free_list p' = kp_free_list p
    \<and> pc_cursors c' ! layer = n + seq
    \<and> gather_kv_f32 c' layer (n + seq) = Some (K @ kf, V @ vf)"
  using append_deeper_spec [OF assms] by blast

text \<open>A cache of one block with the pages of two layers, for the witnesses.\<close>

definition two_layers :: paged_cache where
  "two_layers = (pc_new small_pool 1 1 BLOCK_SIZE)\<lparr>pc_table := [1], pc_committed := 16,
     pc_block_table_u32 := [1], pc_k_pages := replicate 2 (replicate 32 0), pc_v_pages := replicate 2 (replicate 32 0),
     pc_cursors := [16, 3]\<rparr>"

lemma two_layers: "paged two_layers small_pool layer 1" if "layer < 2"
proof -
  have "layer_rows_ok layer small_pool"
    using layers_sized_new [of 0 False 2 1 1 0] small_pool(4)
    by (auto simp: layer_rows_ok_def small_pool_def layers_sized_def layer_elem_def kp_new_simps)
  then show ?thesis
    using that small_pool(2)
    by (auto simp: paged_def two_layers_def pc_new_def BLOCK_SIZE_def less_2_cases_iff)
qed

theorem deeper_append_extends_gather_witness:
  "\<exists>c' p'. append_kv_layer calm no_packers 1 [2, 1] [5, 6] [7, 8] two_layers small_pool = (Ok (), c', p')
    \<and> gather_kv_f32 c' 1 5 = Some ([0, 0, 0, 5, 6], [0, 0, 0, 7, 8])"
proof -
  have g: "gather_kv_f32 two_layers 1 3 = Some ([0, 0, 0], [0, 0, 0])"
    using gather_spec [OF two_layers [of 1], of 3]
    by (simp add: two_layers_def pc_new_def token_row_def slot_of_def BLOCK_SIZE_def upt_rec)
  have "\<exists>c' p'. append_kv_layer calm no_packers 1 [2, 1] [5, 6] [7, 8] two_layers small_pool = (Ok (), c', p')
    \<and> pc_table c' = pc_table two_layers \<and> pc_committed c' = pc_committed two_layers
    \<and> kp_ref_counts p' = kp_ref_counts small_pool \<and> kp_free_list p' = kp_free_list small_pool
    \<and> pc_cursors c' ! 1 = 3 + 2
    \<and> gather_kv_f32 c' 1 (3 + 2) = Some ([0, 0, 0] @ [5, 6], [0, 0, 0] @ [7, 8])"
    by (rule deeper_append_extends_gather [where stride = 1, OF _ two_layers _ _ _ _ _ _ _ _ _ g])
      (simp_all add: two_layers_def pc_new_def seq_stride_def calm_def small_pool_def kp_new_simps BLOCK_SIZE_def)
  then show ?thesis by auto
qed

text \<open>
  Committing drafts: the cache keeps the accepted ones (at most the tentative ones), the table
  keeps exactly the blocks they need, and every block past them loses exactly the references the
  table held of it.
\<close>

theorem commit_releases_rest:
  assumes "own c p" and "covers c"
  shows "case pc_commit e m c p of (r, c', p') \<Rightarrow> r = Ok () \<and> own c' p' \<and> covers c'
    \<and> pc_len c' = pc_committed c + min m (pc_tentative c) \<and> pc_tentative c' = 0
    \<and> pc_table c' = take (div_ceil (pc_len c') BLOCK_SIZE) (pc_table c)
    \<and> (\<forall>b. kp_block_ref_count p' b
          = kp_block_ref_count p b - count_list (drop (div_ceil (pc_len c') BLOCK_SIZE) (pc_table c)) b)"
  using commit_spec [OF assms, of e m] by auto

theorem commit_releases_rest_witness:
  "case pc_commit calm 3 (pc_new small_pool 1 1 16) small_pool of (r, c', p') \<Rightarrow> r = Ok () \<and> pc_len c' = 0"
proof -
  have "own (pc_new small_pool 1 1 16) small_pool"
    by (rule own_new) (simp add: small_pool_def pool_inv_new)
  from commit_releases_rest [OF this covers_new, where e = calm and m = 3] show ?thesis
    by (auto simp: pc_new_def split: prod.splits)
qed

text \<open>
  Speculation that is rejected leaves no trace: reserving \<open>n\<close> draft tokens and committing none of
  them restores the table, the token count and every reference of the pool.
\<close>

theorem rejected_drafts_leave_no_trace:
  assumes "own c p" and "covers c" and "pc_tentative c = 0"
    and "div_ceil (pc_committed c + n) BLOCK_SIZE - length (pc_table c) \<le> length (kp_free_list p)"
  shows "case tentative_append e n c p of (r, c1, p1) \<Rightarrow> r = Ok ()
    \<and> (case pc_commit e 0 c1 p1 of (r2, c2, p2) \<Rightarrow> r2 = Ok () \<and> own c2 p2
      \<and> pc_table c2 = pc_table c \<and> pc_len c2 = pc_len c
      \<and> (\<forall>b. kp_block_ref_count p2 b = kp_block_ref_count p b))"
proof -
  obtain r c1 p1 where run: "tentative_append e n c p = (r, c1, p1)" by (cases "tentative_append e n c p") auto
  show ?thesis using rejected_drafts [OF assms run] by (auto simp: run)
qed

theorem rejected_drafts_leave_no_trace_witness:
  "case tentative_append calm 20 (pc_new small_pool 1 1 16) small_pool of (r, c1, p1) \<Rightarrow> r = Ok ()
    \<and> (case pc_commit calm 0 c1 p1 of (r2, c2, p2) \<Rightarrow> r2 = Ok () \<and> own c2 p2
      \<and> pc_table c2 = pc_table (pc_new small_pool 1 1 16) \<and> pc_len c2 = pc_len (pc_new small_pool 1 1 16)
      \<and> (\<forall>b. kp_block_ref_count p2 b = kp_block_ref_count small_pool b))"
  by (rule rejected_drafts_leave_no_trace [OF own_new covers_new])
    (simp_all add: pool_inv_new small_pool_def pc_new_def kp_new_simps div_ceil_def BLOCK_SIZE_def)

text \<open>
  C12. \<open>rollback_to\<close> keeps the per-layer write cursors: after rolling back across a block boundary,
  appending one token to layer 0 -- with blocks available -- fails with the layer desync error, at
  the old cursor.
\<close>

theorem rollback_then_append_fails:
  assumes "own c p" and "covers c" and "paged c p 0 stride"
    and "pc_cursors c ! 0 = pc_committed c" and "pc_seeded_pending c = 0"
    and "m \<le> pc_committed c" "div_ceil (m + 1) BLOCK_SIZE \<le> pc_committed c div BLOCK_SIZE"
    and "rollback_to e m c p = (Ok (), c', p')"
    and "div_ceil (m + 1) BLOCK_SIZE - length (pc_table c') \<le> length (kp_free_list p')"
    and "seq_stride dims kf = (1, stride)"
  shows "fst (append_kv_layer e pk 0 dims kf vf c' p')
    = Err (LayerDesync (pc_committed c div BLOCK_SIZE) (div_ceil (m + 1) BLOCK_SIZE) 0 (pc_committed c) 1)"
  by (rule append_after_rollback_fails [OF assms])

theorem rollback_then_append_fails_witness:
  "\<exists>p. own two_layers p \<and> (\<exists>c' p'. rollback_to calm 5 two_layers p = (Ok (), c', p')
    \<and> fst (append_kv_layer calm no_packers 0 [1, 1] [5] [6] c' p') = Err (LayerDesync 1 1 0 16 1))"
proof -
  define q where "q = small_pool\<lparr>kp_free_list := [0], kp_ref_counts := [1 \<mapsto> 1]\<rparr>"
  have cap: "cap q = 2" using small_pool(2) by (simp add: q_def)
  have inv: "pool_inv q"
    using pool_inv_new [of 0 False 2 1 1 0] cap
    by (auto simp: q_def small_pool_def pool_inv_def bufs_ok_def tree_ok_def alloc_ok_def kp_block_elem_def kp_elem_def)
  have o: "own two_layers q" by (simp add: own_def inv two_layers_def) (simp add: q_def kp_block_ref_count_def)
  have cov: "covers two_layers" by (simp add: covers_def two_layers_def pc_len_def pc_new_def div_ceil_def BLOCK_SIZE_def)
  have pg: "paged two_layers q 0 1"
    using two_layers [of 0] cap small_pool(2) by (simp add: paged_def layer_rows_ok_def q_def kp_block_elem_def kp_elem_def)
  have len: "pc_len two_layers = 16" "pc_committed two_layers = 16" "length (pc_table two_layers) = 1"
    by (simp_all add: two_layers_def pc_len_def pc_new_def)
  obtain c' p' where rb: "rollback_to calm 5 two_layers q = (Ok (), c', p')" "covers c'"
    "pc_len c' = min (pc_committed two_layers) 5"
    using rollback_spec [OF o cov, of calm 5] by blast
  have tab: "length (pc_table c') = 1" using rb(2,3) len by (simp add: covers_def div_ceil_def BLOCK_SIZE_def)
  have "fst (append_kv_layer calm no_packers 0 [1, 1] [5] [6] c' p')
    = Err (LayerDesync (pc_committed two_layers div BLOCK_SIZE) (div_ceil (5 + 1) BLOCK_SIZE) 0 (pc_committed two_layers) 1)"
    by (rule rollback_then_append_fails [OF o cov pg _ _ _ _ rb(1)])
      (simp_all add: tab len seq_stride_def div_ceil_def BLOCK_SIZE_def, simp_all add: two_layers_def pc_new_def)
  then show ?thesis using o rb(1) len by (auto simp: div_ceil_def BLOCK_SIZE_def)
qed

end
